(* ===== verification/Core_Prelude.thy ===== *)
theory Core_Prelude
  imports Main "HOL-Library.Word" "HOL-Library.Multiset"
begin

text \<open>
  Shared vocabulary of the libcore development: C machine types, C strings as byte lists,
  the answers an allocator can give, the few C library functions the sources call, and the
  generic list and word lemmas that the component theories use.
  \<^item> \<open>byte\<close>, \<open>u32\<close>, \<open>u64\<close>: the unsigned types \<^verbatim>\<open>uint8_t\<close>, \<^verbatim>\<open>uint32_t\<close>,
    \<^verbatim>\<open>uint64_t\<close>/\<^verbatim>\<open>size_t\<close>; \<open>wrap32\<close> reduces a mathematical integer to the value a
    32-bit \<^verbatim>\<open>int\<close> holds.
  \<^item> \<open>cstring\<close>: the bytes of a C string before its terminating NUL.
  \<^item> \<open>alloc\<close>: what \<^verbatim>\<open>malloc\<close>/\<^verbatim>\<open>calloc\<close>/\<^verbatim>\<open>realloc\<close> answers. An operation that allocates takes the
    answer as an argument, so every out-of-memory branch is a branch of the model; a
    successful \<^verbatim>\<open>realloc\<close> also says what the cells it adds contain.
\<close>

unbundle bit_operations_syntax

section \<open>Machine types\<close>

type_synonym byte = "8 word"
type_synonym u32 = "32 word"
type_synonym u64 = "64 word"
type_synonym cstring = "byte list"

abbreviation INT_MAX :: int where "INT_MAX \<equiv> 2147483647"
abbreviation INT_MIN :: int where "INT_MIN \<equiv> - 2147483648"
abbreviation SIZE_MAX :: nat where "SIZE_MAX \<equiv> 18446744073709551615"

text \<open>The value of an \<^verbatim>\<open>int\<close> after an arithmetic operation (two's complement).\<close>

definition wrap32 :: "int \<Rightarrow> int" where
  "wrap32 x = (x + 2147483648) mod 4294967296 - 2147483648"

lemma wrap32_id [simp]: "INT_MIN \<le> x \<Longrightarrow> x \<le> INT_MAX \<Longrightarrow> wrap32 x = x"
  by (simp add: wrap32_def)

lemma wrap32_range: "INT_MIN \<le> wrap32 x \<and> wrap32 x \<le> INT_MAX"
proof -
  have "0 \<le> (x + 2147483648) mod 4294967296" "(x + 2147483648) mod 4294967296 < 4294967296"
    by simp_all
  then show ?thesis unfolding wrap32_def by linarith
qed

text \<open>\<open>lit ''...''\<close> writes a C string literal as its bytes.\<close>

definition lit :: "string \<Rightarrow> cstring" where
  "lit s = map of_char s"

definition ch :: "char \<Rightarrow> byte" where
  "ch c = of_char c"

section \<open>Allocation\<close>

datatype 'a alloc = Alloc_Fail | Alloc_Ok (alloc_junk: 'a)

text \<open>\<^verbatim>\<open>realloc\<close> keeps the common prefix; what it adds has whatever value was in memory.\<close>

definition realloc_cells :: "'a \<Rightarrow> 'a list \<Rightarrow> nat \<Rightarrow> 'a list" where
  "realloc_cells junk xs n = take n xs @ replicate (n - length xs) junk"

lemma length_realloc_cells [simp]: "length (realloc_cells junk xs n) = n"
  by (simp add: realloc_cells_def)

lemma take_realloc_cells [simp]:
  "k \<le> n \<Longrightarrow> k \<le> length xs \<Longrightarrow> take k (realloc_cells junk xs n) = take k xs"
  by (simp add: realloc_cells_def min_def)

lemma realloc_cells_shrink: "n \<le> length xs \<Longrightarrow> realloc_cells junk xs n = take n xs"
  by (simp add: realloc_cells_def)

section \<open>C library functions on strings\<close>

text \<open>\<^verbatim>\<open>strncmp(a, b, n) == 0\<close>.\<close>

fun strncmp_eq :: "cstring \<Rightarrow> cstring \<Rightarrow> nat \<Rightarrow> bool" where
  "strncmp_eq _ _ 0 = True"
| "strncmp_eq [] [] (Suc n) = True"
| "strncmp_eq [] (_ # _) (Suc n) = False"
| "strncmp_eq (_ # _) [] (Suc n) = False"
| "strncmp_eq (a # as) (b # cs) (Suc n) = (a = b \<and> strncmp_eq as cs n)"

lemma strncmp_eq_take: "strncmp_eq a b n \<longleftrightarrow> take n a = take n b"
  by (induction a b n rule: strncmp_eq.induct) auto

text \<open>
  The tokens that successive \<^verbatim>\<open>strtok_r(s, delims, &save)\<close> calls return: the maximal
  non-empty runs of bytes that are not delimiters.
\<close>

fun strtok_acc :: "(byte \<Rightarrow> bool) \<Rightarrow> cstring \<Rightarrow> cstring \<Rightarrow> cstring list" where
  "strtok_acc d cur [] = (if cur = [] then [] else [cur])"
| "strtok_acc d cur (c # cs) =
     (if d c then (if cur = [] then strtok_acc d [] cs else cur # strtok_acc d [] cs)
      else strtok_acc d (cur @ [c]) cs)"

definition strtok :: "(byte \<Rightarrow> bool) \<Rightarrow> cstring \<Rightarrow> cstring list" where
  "strtok d s = strtok_acc d [] s"

lemma strtok_acc_tokens:
  assumes "t \<in> set (strtok_acc d cur cs)" and "\<forall>c \<in> set cur. \<not> d c"
  shows "t \<noteq> [] \<and> (\<forall>c \<in> set t. \<not> d c) \<and> set t \<subseteq> set cur \<union> set cs"
  using assms
proof (induction cs arbitrary: cur)
  case Nil
  then show ?case by (auto split: if_splits)
next
  case (Cons c cs)
  show ?case
  proof (cases "d c")
    case True
    with Cons.prems Cons.IH [of "[]"] show ?thesis by (auto split: if_splits)
  next
    case False
    have "t \<noteq> [] \<and> (\<forall>c \<in> set t. \<not> d c) \<and> set t \<subseteq> set (cur @ [c]) \<union> set cs"
      by (rule Cons.IH) (use Cons.prems False in simp_all)
    then show ?thesis by auto
  qed
qed

lemmas strtok_tokens = strtok_acc_tokens [of _ _ "[]", folded strtok_def, simplified]

lemma strtok_acc_plain: "\<forall>c \<in> set t. \<not> d c \<Longrightarrow> strtok_acc d cur (t @ cs) = strtok_acc d (cur @ t) cs"
  by (induction t arbitrary: cur) simp_all

lemma strtok_acc_join:
  "d b \<Longrightarrow> (\<forall>t \<in> set ts. t \<noteq> [] \<and> (\<forall>c \<in> set t. \<not> d c)) \<Longrightarrow> \<forall>c \<in> set cur. \<not> d c \<Longrightarrow>
     strtok_acc d cur (concat (map ((#) b) ts)) = (if cur = [] then ts else cur # ts)"
  by (induction ts arbitrary: cur) (simp_all add: strtok_acc_plain)

lemma strtok_join:
  "d b \<Longrightarrow> (\<forall>t \<in> set ts. t \<noteq> [] \<and> (\<forall>c \<in> set t. \<not> d c)) \<Longrightarrow> strtok d (concat (map ((#) b) ts)) = ts"
  by (simp add: strtok_def strtok_acc_join)

lemma strtok_acc_length:
  "length (concat (map ((#) b) (strtok_acc d cur cs))) \<le> length cur + length cs + 1"
proof (induction cs arbitrary: cur)
  case (Cons c cs)
  show ?case
  proof (cases "d c")
    case True
    with Cons.IH [of "[]"] show ?thesis by auto
  next
    case False
    with Cons.IH [of "cur @ [c]"] show ?thesis by simp
  qed
qed simp

text \<open>\<^verbatim>\<open>snprintf(buffer, len, ...)\<close>: what the buffer holds afterwards, as a C string.\<close>

definition snprintf :: "nat \<Rightarrow> cstring \<Rightarrow> cstring" where
  "snprintf len s = take (len - 1) s"

text \<open>\<^verbatim>\<open>%d\<close> and \<^verbatim>\<open>%ld\<close>: a minus sign and the decimal digits.\<close>

fun dec_digits :: "nat \<Rightarrow> cstring" where
  "dec_digits n = (if n < 10 then [of_nat (48 + n)] else dec_digits (n div 10) @ [of_nat (48 + n mod 10)])"

declare dec_digits.simps [simp del]

definition format_d :: "int \<Rightarrow> cstring" where
  "format_d v = (if v < 0 then lit ''-'' @ dec_digits (nat (- v)) else dec_digits (nat v))"

lemma dec_digits_length: "0 < k \<Longrightarrow> n < 10 ^ k \<Longrightarrow> length (dec_digits n) \<le> k"
proof (induction k arbitrary: n)
  case 0
  then show ?case by simp
next
  case (Suc k)
  show ?case
  proof (cases "n < 10")
    case True
    then show ?thesis by (simp add: dec_digits.simps)
  next
    case False
    then have "0 < k" using Suc.prems by (cases k) auto
    with Suc.IH [of "n div 10"] Suc.prems False show ?thesis
      by (simp add: dec_digits.simps [of n] less_mult_imp_div_less mult.commute)
  qed
qed

lemma dec_digits_not_Nil [simp]: "dec_digits n \<noteq> []"
  by (subst dec_digits.simps) simp

lemma format_d_not_Nil [simp]: "format_d v \<noteq> []"
  by (simp add: format_d_def)

lemma format_d_length: "- (10 ^ 20) < v \<Longrightarrow> v < 10 ^ 20 \<Longrightarrow> length (format_d v) \<le> 21"
  using dec_digits_length [of 20 "nat (- v)"] dec_digits_length [of 20 "nat v"]
  by (auto simp: format_d_def lit_def nat_less_iff)

text \<open>Character classes and \<^verbatim>\<open>strtol\<close> in base 16.\<close>

definition isspace :: "byte \<Rightarrow> bool" where
  "isspace c \<longleftrightarrow> c = 32 \<or> (9 \<le> c \<and> c \<le> 13)"

definition hex_val :: "byte \<Rightarrow> nat option" where
  "hex_val c = (if 48 \<le> c \<and> c \<le> 57 then Some (unat c - 48)
     else if 65 \<le> c \<and> c \<le> 70 then Some (unat c - 55)
     else if 97 \<le> c \<and> c \<le> 102 then Some (unat c - 87) else None)"

fun hex_digits_val :: "nat \<Rightarrow> cstring \<Rightarrow> nat" where
  "hex_digits_val n [] = n"
| "hex_digits_val n (c # cs) = (case hex_val c of None \<Rightarrow> n | Some d \<Rightarrow> hex_digits_val (16 * n + d) cs)"

text \<open>
  \<^verbatim>\<open>strtol(s, NULL, 16)\<close> of the standard library on strings too short to overflow: leading
  whitespace, a sign, an optional \<^verbatim>\<open>0x\<close> before a hexadecimal digit, then the digits.
\<close>

definition strtol16 :: "cstring \<Rightarrow> int" where
  "strtol16 s =
     (let s1 = dropWhile isspace s;
          neg = (s1 \<noteq> [] \<and> hd s1 = ch CHR ''-'');
          s2 = (if s1 \<noteq> [] \<and> (hd s1 = ch CHR ''-'' \<or> hd s1 = ch CHR ''+'') then tl s1 else s1);
          s3 = (if length s2 > 2 \<and> s2 ! 0 = ch CHR ''0'' \<and> (s2 ! 1 = ch CHR ''x'' \<or> s2 ! 1 = ch CHR ''X'')
                   \<and> hex_val (s2 ! 2) \<noteq> None
                then drop 2 s2 else s2);
          v = int (hex_digits_val 0 s3)
      in if neg then - v else v)"

text \<open>\<^verbatim>\<open>atoi\<close>: \<^verbatim>\<open>strtol\<close> in base 10 (saturating at the limits of \<^verbatim>\<open>long\<close>), converted to \<^verbatim>\<open>int\<close>.\<close>

fun dec_val :: "nat \<Rightarrow> cstring \<Rightarrow> nat" where
  "dec_val n [] = n"
| "dec_val n (c # cs) = (if 48 \<le> c \<and> c \<le> 57 then dec_val (10 * n + (unat c - 48)) cs else n)"

definition strtol10 :: "cstring \<Rightarrow> int" where
  "strtol10 s =
     (let s1 = dropWhile isspace s;
          neg = (s1 \<noteq> [] \<and> hd s1 = ch CHR ''-'');
          s2 = (if s1 \<noteq> [] \<and> (hd s1 = ch CHR ''-'' \<or> hd s1 = ch CHR ''+'') then tl s1 else s1);
          v = int (dec_val 0 s2)
      in if neg then max (- (2 ^ 63)) (- v) else min (2 ^ 63 - 1) v)"

definition atoi :: "cstring \<Rightarrow> int" where
  "atoi s = wrap32 (strtol10 s)"

text \<open>What a C string function sees of a byte buffer: the bytes before the first NUL.\<close>

definition c_str :: "byte list \<Rightarrow> cstring" where
  "c_str xs = takeWhile (\<lambda>b. b \<noteq> 0) xs"

lemma c_str_Nil [simp]: "c_str [] = []"
  by (simp add: c_str_def)

lemma c_str_Cons [simp]: "c_str (x # xs) = (if x = 0 then [] else x # c_str xs)"
  by (simp add: c_str_def)

lemma c_str_append_nul [simp]: "0 \<notin> set xs \<Longrightarrow> c_str (xs @ 0 # ys) = xs"
  by (induction xs) auto

lemma c_str_nul: "c_str (xs @ 0 # ys) = c_str xs"
  by (induction xs) auto

lemma c_str_id [simp]: "0 \<notin> set xs \<Longrightarrow> c_str xs = xs"
  by (induction xs) auto

lemma c_str_no_nul [simp]: "0 \<notin> set (c_str xs)"
  by (induction xs) auto

section \<open>List lemmas\<close>

text \<open>Deleting position \<open>i\<close>, the effect of the shift-left loops of the array containers.\<close>

definition del_at :: "nat \<Rightarrow> 'a list \<Rightarrow> 'a list" where
  "del_at i xs = take i xs @ drop (Suc i) xs"

lemma length_del_at [simp]: "i < length xs \<Longrightarrow> length (del_at i xs) = length xs - 1"
  by (simp add: del_at_def)

lemma del_at_0 [simp]: "del_at 0 (x # xs) = xs"
  by (simp add: del_at_def)

lemma del_at_last: "xs \<noteq> [] \<Longrightarrow> del_at (length xs - 1) xs = butlast xs"
  by (simp add: del_at_def butlast_conv_take)

lemma mset_del_at: "i < length xs \<Longrightarrow> mset xs = add_mset (xs ! i) (mset (del_at i xs))"
proof -
  assume "i < length xs"
  then have "xs = take i xs @ xs ! i # drop (Suc i) xs" by (simp add: id_take_nth_drop)
  then have "mset xs = mset (take i xs @ xs ! i # drop (Suc i) xs)" by simp
  then show ?thesis by (simp add: del_at_def)
qed

lemma nth_take_list: "k < n \<Longrightarrow> k < length xs \<Longrightarrow> take n xs ! k = xs ! k"
  by simp

text \<open>Buckets: every element lives in the bucket its home index names.\<close>

lemma concat_home:
  assumes "\<forall>i < length xss. \<forall>x \<in> set (xss ! i). home x = i" and "x \<in> set (concat xss)"
  shows "home x < length xss \<and> x \<in> set (xss ! home x)"
proof -
  from assms(2) obtain ys where "ys \<in> set xss" "x \<in> set ys" by auto
  then obtain i where "i < length xss" "x \<in> set (xss ! i)" by (auto simp: in_set_conv_nth)
  with assms(1) show ?thesis by auto
qed

lemma distinct_concat_home:
  assumes "\<forall>i < length xss. distinct (xss ! i) \<and> (\<forall>x \<in> set (xss ! i). home x = i)"
  shows "distinct (concat xss)"
  using assms
proof (induction xss rule: rev_induct)
  case Nil
  then show ?case by simp
next
  case (snoc ys xss)
  have pre: "\<forall>i < length xss. distinct (xss ! i) \<and> (\<forall>x \<in> set (xss ! i). home x = i)"
  proof (intro allI impI)
    fix i assume "i < length xss"
    then show "distinct (xss ! i) \<and> (\<forall>x \<in> set (xss ! i). home x = i)"
      using snoc.prems [rule_format, of i] by (simp add: nth_append)
  qed
  have last: "distinct ys" "\<forall>x \<in> set ys. home x = length xss"
    using snoc.prems [rule_format, of "length xss"] by simp_all
  have "x \<notin> set ys" if "x \<in> set (concat xss)" for x
    using concat_home [of xss home x] pre that last(2) by auto
  with last(1) snoc.IH [OF pre] show ?case by auto
qed

section \<open>Word lemmas\<close>

lemma bit_byte_ge [simp]: "8 \<le> n \<Longrightarrow> \<not> bit (b :: byte) n"
  using bit_imp_le_length [of b n] by auto

text \<open>The masks of the code are divisions by powers of two.\<close>

lemma mask_high:
  fixes b :: byte
  assumes "n \<le> 8" and "m = push_bit n (mask (8 - n))"
  shows "unat (b AND m) = unat b div 2 ^ n * 2 ^ n"
proof -
  have "b AND m = push_bit n (drop_bit n b)"
    using assms by (intro bit_word_eqI) (auto simp: bit_simps)
  moreover have d: "unat (drop_bit n b) = unat b div 2 ^ n" by (subst unat_drop_bit_eq) (rule drop_bit_eq_div)
  moreover have "unat (push_bit n (drop_bit n b)) = push_bit n (unat (drop_bit n b))"
  proof -
    have "unat (drop_bit n b) * 2 ^ n \<le> unat b" using d by simp
    also have "unat b < 2 ^ LENGTH(8)" by (rule unsigned_less)
    finally show ?thesis
      by (subst unsigned_push_bit_eq) (simp add: push_bit_eq_mult take_bit_eq_mod)
  qed
  ultimately show ?thesis by (simp add: push_bit_eq_mult)
qed

lemma byte_unat_less: "unat (b :: byte) < 256"
proof -
  have "unat b < 2 ^ LENGTH(8)" by (rule unsigned_less)
  then show ?thesis by simp
qed

lemma byte_eq_nat: "(a :: byte) = b \<longleftrightarrow> unat a = unat b"
  by (simp add: word_unat_eq_iff)

lemma bit_0x80: "bit (0x80 :: byte) k \<longleftrightarrow> k = 7"
proof -
  have "(0x80 :: byte) = 2 ^ 7" by simp
  then show ?thesis by (simp only: bit_exp_iff) auto
qed

lemma len7_bits:
  fixes b :: byte
  assumes "unat b \<le> 127"
  shows "(0x80 OR b) AND 0x80 \<noteq> 0" "unat ((0x80 OR b) AND 0x7F) = unat b" "drop_bit 7 (0x80 OR b) AND 1 \<noteq> 0"
proof -
  have m: "(0x7F :: byte) = mask 7" by (simp add: mask_eq_exp_minus_1)
  note h = bit_0x80
  have "unat (take_bit 7 b) = take_bit 7 (unat b)" by (simp only: unsigned_take_bit_eq)
  also have "\<dots> = unat b" using assms by (simp add: take_bit_nat_eq_self)
  finally have n: "take_bit 7 b = b" by (simp only: word_unat_eq_iff)
  have "(0x80 OR b) AND 0x7F = take_bit 7 b"
    by (rule bit_word_eqI) (simp only: m bit_and_iff bit_or_iff bit_mask_iff bit_take_bit_iff h, auto)
  with n show "unat ((0x80 OR b) AND 0x7F) = unat b" by simp
  have "bit ((0x80 OR b) AND 0x80) 7" by (simp only: bit_and_iff bit_or_iff h) simp
  then show "(0x80 OR b) AND 0x80 \<noteq> 0" by auto
  have "bit (drop_bit 7 (0x80 OR b) AND 1) 0"
    by (simp only: bit_and_iff bit_drop_bit_eq comp_def bit_or_iff h bit_1_iff) simp
  then show "drop_bit 7 (0x80 OR b) AND 1 \<noteq> 0" by auto
qed

lemma and_0x80: "(b :: byte) AND 0x80 = 0 \<longleftrightarrow> unat b < 128"
proof -
  have m: "(0x80 :: byte) = push_bit 7 (mask (8 - 7))" by simp
  have "unat (b AND 0x80) = unat b div 128 * 128" using mask_high [OF _ m, of b] by simp
  then have "b AND 0x80 = 0 \<longleftrightarrow> unat b div 128 = 0" by (simp add: byte_eq_nat)
  then show ?thesis by (simp add: div_eq_0_iff)
qed

lemma and_0x7F: "unat (b AND 0x7F :: byte) = unat b mod 128"
proof -
  have "b AND 0x7F = take_bit 7 b" by (simp add: take_bit_eq_mask mask_eq_exp_minus_1)
  then show ?thesis by (simp add: take_bit_eq_mod unat_mod)
qed

lemma or_0x80: "unat b < 128 \<Longrightarrow> unat (0x80 OR b :: byte) = 128 + unat b"
proof -
  assume b: "unat b < 128"
  then have "unat (0x80 OR b) mod 128 = unat b" "\<not> unat (0x80 OR b) < 128"
    using len7_bits(1,2) [of b] and_0x7F [of "0x80 OR b"] and_0x80 [of "0x80 OR b"] by auto
  moreover have "unat (0x80 OR b) < 2 ^ LENGTH(8)" by (rule unsigned_less)
  ultimately show ?thesis using mod_if [of "unat (0x80 OR b)" 128] by simp
qed

end
