(* ===== verification/Arc_Object.thy ===== *)
theory Arc_Object
  imports Core_Prelude
begin

text \<open>
  The object header and the reference-counting (ARC) discipline of
  \<^verbatim>\<open>src/include/object.h\<close> and \<^verbatim>\<open>src/src/object.c\<close>.
  An object is a header (class pointer and atomic reference count) and a payload of the class's
  own; the store maps addresses to live objects. Touching an address that is not live (a use
  after free or a double free) sets the sticky \<open>fault\<close> flag, so memory safety is the statement
  that an operation leaves \<open>fault\<close> as it was. A \<^verbatim>\<open>Class\<close> is the vtable of the C struct; the
  class pointer of an object is a \<open>class_id\<close>, resolved by the class table that operations with
  virtual calls take as their first argument. The locale \<open>arc_finalizers\<close> is the contract the
  containers rely on: finalizers do not touch other objects of the store.
\<close>

section \<open>Objects, classes and the store\<close>

type_synonym addr = nat
type_synonym ptr = "addr option"
type_synonym class_id = string

record 'p object =
  obj_type :: "class_id option"
  ref_count :: u32
  payload :: 'p

record 'p heap =
  objs :: "addr \<rightharpoonup> 'p object"
  fault :: bool

record 'p Class =
  cname :: cstring
  csize :: nat
  toString_fn :: "('p heap \<Rightarrow> addr \<Rightarrow> nat \<Rightarrow> cstring) option"
  equals_fn :: "('p heap \<Rightarrow> addr \<Rightarrow> addr \<Rightarrow> bool) option"
  hashCode_fn :: "('p heap \<Rightarrow> addr \<Rightarrow> u32) option"
  finalize_fn :: "('p heap \<Rightarrow> addr \<Rightarrow> 'p heap) option"

type_synonym 'p classes = "class_id \<Rightarrow> 'p Class"

text \<open>The class an object's header points to, if the object is live and has one.\<close>

definition class_of :: "'p classes \<Rightarrow> 'p heap \<Rightarrow> addr \<Rightarrow> 'p Class option" where
  "class_of cl h a = (case objs h a of None \<Rightarrow> None | Some ob \<Rightarrow> map_option cl (obj_type ob))"

definition raw_fault :: "'p heap \<Rightarrow> 'p heap" where
  "raw_fault h = h\<lparr>fault := True\<rparr>"

text \<open>Memory for an object, before \<open>Object_Init\<close>: \<^verbatim>\<open>calloc(1, sizeof(T))\<close>.\<close>

definition calloc_object :: "'p heap \<Rightarrow> addr \<Rightarrow> 'p \<Rightarrow> 'p heap" where
  "calloc_object h a p =
     h\<lparr>objs := (objs h)(a \<mapsto> \<lparr>obj_type = None, ref_count = 0, payload = p\<rparr>)\<rparr>"

definition Object_Init :: "'p heap \<Rightarrow> ptr \<Rightarrow> class_id \<Rightarrow> 'p heap" where
  "Object_Init h obj type =
     (case obj of None \<Rightarrow> h
      | Some a \<Rightarrow> (case objs h a of None \<Rightarrow> raw_fault h
          | Some ob \<Rightarrow> h\<lparr>objs := (objs h)(a \<mapsto> ob\<lparr>obj_type := Some type, ref_count := 1\<rparr>)\<rparr>))"

text \<open>\<^verbatim>\<open>RETAIN(obj)\<close>; the macro's value is \<open>obj\<close> itself.\<close>

definition RETAIN :: "'p heap \<Rightarrow> ptr \<Rightarrow> 'p heap" where
  "RETAIN h obj =
     (case obj of None \<Rightarrow> h
      | Some a \<Rightarrow> (case objs h a of None \<Rightarrow> raw_fault h
          | Some ob \<Rightarrow> h\<lparr>objs := (objs h)(a \<mapsto> ob\<lparr>ref_count := ref_count ob + 1\<rparr>)\<rparr>))"

definition free_object :: "'p heap \<Rightarrow> addr \<Rightarrow> 'p heap" where
  "free_object h a =
     (case objs h a of None \<Rightarrow> raw_fault h | Some _ \<Rightarrow> h\<lparr>objs := (objs h)(a := None)\<rparr>)"

definition destroy :: "'p classes \<Rightarrow> 'p heap \<Rightarrow> ptr \<Rightarrow> 'p heap" where
  "destroy cl h obj =
     (case obj of None \<Rightarrow> h
      | Some a \<Rightarrow>
          (let h1 = (case class_of cl h a of None \<Rightarrow> h
                     | Some c \<Rightarrow> (case finalize_fn c of None \<Rightarrow> h | Some f \<Rightarrow> f h a))
           in free_object h1 a))"

definition RELEASE :: "'p classes \<Rightarrow> 'p heap \<Rightarrow> ptr \<Rightarrow> 'p heap" where
  "RELEASE cl h obj =
     (case obj of None \<Rightarrow> h
      | Some a \<Rightarrow> (case objs h a of None \<Rightarrow> raw_fault h
          | Some ob \<Rightarrow>
              (let h1 = h\<lparr>objs := (objs h)(a \<mapsto> ob\<lparr>ref_count := ref_count ob - 1\<rparr>)\<rparr>
               in if ref_count ob = 1 then destroy cl h1 obj else h1)))"

text \<open>\<^verbatim>\<open>RELEASE_NULL(obj)\<close>: release, and the variable becomes NULL.\<close>

definition RELEASE_NULL :: "'p classes \<Rightarrow> 'p heap \<Rightarrow> ptr \<Rightarrow> 'p heap \<times> ptr" where
  "RELEASE_NULL cl h obj = (RELEASE cl h obj, None)"

definition instanceOf :: "'p heap \<Rightarrow> ptr \<Rightarrow> class_id option \<Rightarrow> bool" where
  "instanceOf h obj target =
     (case obj of None \<Rightarrow> False
      | Some a \<Rightarrow> (case objs h a of None \<Rightarrow> False
          | Some ob \<Rightarrow> obj_type ob \<noteq> None \<and> target \<noteq> None \<and> obj_type ob = target))"

text \<open>\<open>fmt_ptr\<close> is the platform's rendering of \<^verbatim>\<open>%p\<close>.\<close>

definition toString :: "(addr \<Rightarrow> cstring) \<Rightarrow> 'p classes \<Rightarrow> 'p heap \<Rightarrow> ptr \<Rightarrow> nat \<Rightarrow> cstring" where
  "toString fmt_ptr cl h obj len =
     (case obj of None \<Rightarrow> snprintf len (lit ''null'')
      | Some a \<Rightarrow>
          (case class_of cl h a of
             None \<Rightarrow> snprintf len (lit ''Object@'' @ fmt_ptr a)
           | Some c \<Rightarrow> (case toString_fn c of Some f \<Rightarrow> f h a len
               | None \<Rightarrow> snprintf len (cname c @ lit ''@'' @ fmt_ptr a))))"

definition equals :: "'p classes \<Rightarrow> 'p heap \<Rightarrow> ptr \<Rightarrow> ptr \<Rightarrow> bool" where
  "equals cl h obj other =
     (if obj = other then True
      else case (obj, other) of
        (Some a, Some b) \<Rightarrow>
          (if map_option obj_type (objs h a) \<noteq> map_option obj_type (objs h b) then False
           else case class_of cl h a of None \<Rightarrow> False
             | Some c \<Rightarrow> (case equals_fn c of None \<Rightarrow> False | Some f \<Rightarrow> f h a b))
      | _ \<Rightarrow> False)"

definition hashCode :: "'p classes \<Rightarrow> 'p heap \<Rightarrow> ptr \<Rightarrow> u32" where
  "hashCode cl h obj =
     (case obj of None \<Rightarrow> 0
      | Some a \<Rightarrow>
          (let w = (of_nat a :: u64); dflt = ucast (w XOR drop_bit 32 w)
           in case class_of cl h a of None \<Rightarrow> dflt
              | Some c \<Rightarrow> (case hashCode_fn c of None \<Rightarrow> dflt | Some f \<Rightarrow> f h a)))"

definition Object_DefaultFinalize :: "'p heap \<Rightarrow> addr \<Rightarrow> 'p heap" where
  "Object_DefaultFinalize h self = h"

definition Object_DefaultToString :: "(addr \<Rightarrow> cstring) \<Rightarrow> 'p heap \<Rightarrow> addr \<Rightarrow> nat \<Rightarrow> cstring" where
  "Object_DefaultToString fmt_ptr h self len = snprintf len (lit ''Object@'' @ fmt_ptr self)"

definition ObjectClass :: "(addr \<Rightarrow> cstring) \<Rightarrow> 'p Class" where
  "ObjectClass fmt_ptr =
     \<lparr>cname = lit ''Object'', csize = 16,
      toString_fn = Some (Object_DefaultToString fmt_ptr), equals_fn = None,
      hashCode_fn = None, finalize_fn = Some Object_DefaultFinalize\<rparr>"

text \<open>\<^verbatim>\<open>safe_strdup\<close>: the copied string, or NULL for a NULL source or a failed allocation.\<close>

definition safe_strdup :: "byte alloc \<Rightarrow> cstring option \<Rightarrow> nat \<Rightarrow> cstring option" where
  "safe_strdup mem src max_len =
     (case src of None \<Rightarrow> None
      | Some s \<Rightarrow> (let len = min (length s) max_len
                  in case mem of Alloc_Fail \<Rightarrow> None
                     | Alloc_Ok j \<Rightarrow> Some (c_str (take len s @ [0]))))"

section \<open>Reference counts\<close>

named_theorems arc_simps \<open>effect of the ARC macros on counts, liveness and the fault flag\<close>

definition rc :: "'p heap \<Rightarrow> addr \<Rightarrow> nat" where
  "rc h a = (case objs h a of None \<Rightarrow> 0 | Some ob \<Rightarrow> unat (ref_count ob))"

definition live :: "'p heap \<Rightarrow> addr \<Rightarrow> bool" where
  "live h a \<longleftrightarrow> objs h a \<noteq> None"

abbreviation RC_MAX :: nat where "RC_MAX \<equiv> 4294967295"

lemma rc_pos_live: "0 < rc h a \<Longrightarrow> live h a"
  by (auto simp: rc_def live_def split: option.splits)

lemma RETAIN_NULL [simp]: "RETAIN h None = h"
  by (simp add: RETAIN_def)

lemma RELEASE_of_NULL [simp]: "RELEASE cl h None = h"
  by (simp add: RELEASE_def)

lemma unat_Suc_u32: "unat (w :: u32) < RC_MAX \<Longrightarrow> unat (w + 1) = Suc (unat w)"
  by (simp add: unat_word_ariths)

lemma unat_pred_u32: "w \<noteq> (0 :: u32) \<Longrightarrow> unat (w - 1) = unat w - 1"
  by (rule unat_minus_one)

lemma u32_eq_one_iff: "(w :: u32) = 1 \<longleftrightarrow> unat w = 1"
  by (metis unsigned_1 word_unat_eq_iff)

lemma RETAIN_rc [arc_simps]:
  assumes "live h a" and "rc h a < RC_MAX"
  shows "rc (RETAIN h (Some a)) b = (if b = a then Suc (rc h a) else rc h b)"
  using assms by (auto simp: RETAIN_def rc_def live_def unat_Suc_u32)

lemma RETAIN_live [arc_simps]: "live (RETAIN h p) b = live h b"
  by (auto simp: RETAIN_def live_def raw_fault_def split: option.splits)

lemma RETAIN_fault [arc_simps]: "live h a \<Longrightarrow> fault (RETAIN h (Some a)) = fault h"
  by (auto simp: RETAIN_def live_def)

text \<open>The count the trace of operations on one object leaves behind.\<close>

lemma RELEASE_shared:
  assumes "objs h a = Some ob" and "ref_count ob \<noteq> 1"
  shows "RELEASE cl h (Some a) =
     h\<lparr>objs := (objs h)(a \<mapsto> ob\<lparr>ref_count := ref_count ob - 1\<rparr>)\<rparr>"
  using assms by (simp add: RELEASE_def)

text \<open>
  The contract the containers rely on: a finalizer releases resources private to its object
  and leaves the other objects of the store alone.
\<close>

locale arc_finalizers =
  fixes cl :: "'p classes"
  assumes fin_frame: "finalize_fn (cl c) = Some f \<Longrightarrow> b \<noteq> a \<Longrightarrow> objs (f h a) b = objs h b"
    and fin_self: "finalize_fn (cl c) = Some f \<Longrightarrow> objs h a \<noteq> None \<Longrightarrow> objs (f h a) a \<noteq> None"
    and fin_fault: "finalize_fn (cl c) = Some f \<Longrightarrow> fault (f h a) = fault h"
begin

lemma finalize_effect:
  assumes "class_of cl h a = Some c" and "finalize_fn c = Some f"
  shows "b \<noteq> a \<Longrightarrow> objs (f h a) b = objs h b"
    and "objs (f h a) a \<noteq> None"
    and "fault (f h a) = fault h"
  using assms fin_frame fin_self fin_fault
  by (auto simp: class_of_def split: option.splits)

lemma destroy_effect:
  assumes "live h a"
  shows "objs (destroy cl h (Some a)) b = (if b = a then None else objs h b)
    \<and> fault (destroy cl h (Some a)) = fault h"
proof (cases "class_of cl h a")
  case None
  with assms show ?thesis by (auto simp: destroy_def free_object_def live_def)
next
  case (Some c)
  show ?thesis
  proof (cases "finalize_fn c")
    case None
    with Some assms show ?thesis by (auto simp: destroy_def free_object_def live_def)
  next
    case (Some f)
    note f = finalize_effect [OF \<open>class_of cl h a = Some c\<close> Some]
    from f(2) obtain ob where "objs (f h a) a = Some ob" by auto
    with f(1) [of b] f(3) show ?thesis
      using \<open>class_of cl h a = Some c\<close> Some by (simp add: destroy_def free_object_def Let_def)
  qed
qed

lemma live_upd [simp]: "live (h\<lparr>objs := (objs h)(a \<mapsto> ob)\<rparr>) b = (b = a \<or> live h b)"
  by (simp add: live_def)

lemma RELEASE_other:
  assumes "live h a" and "b \<noteq> a"
  shows "objs (RELEASE cl h (Some a)) b = objs h b"
  using assms by (auto simp: RELEASE_def live_def Let_def destroy_effect)

lemma RELEASE_fault:
  assumes "live h a"
  shows "fault (RELEASE cl h (Some a)) = fault h"
  using assms by (simp add: RELEASE_def Let_def destroy_effect split: option.split) (auto simp: live_def)

lemma RELEASE_rc:
  assumes "0 < rc h a"
  shows "rc (RELEASE cl h (Some a)) b = (if b = a then rc h a - 1 else rc h b)"
proof (cases "b = a")
  case False
  with assms show ?thesis by (simp add: rc_def RELEASE_other rc_pos_live)
next
  case True
  from assms obtain ob where ob: "objs h a = Some ob" "0 < unat (ref_count ob)"
    by (auto simp: rc_def split: option.splits)
  then show ?thesis using True
    by (auto simp: rc_def RELEASE_def Let_def destroy_effect unat_pred_u32 unat_gt_0)
qed

lemma RELEASE_live:
  assumes "0 < rc h a"
  shows "live (RELEASE cl h (Some a)) b = (if b = a then 1 < rc h a else live h b)"
proof (cases "b = a")
  case False
  from assms have "live h a" by (rule rc_pos_live)
  from RELEASE_other [OF this False] False show ?thesis by (simp add: live_def)
next
  case True
  from assms obtain ob where ob: "objs h a = Some ob" "0 < unat (ref_count ob)"
    by (auto simp: rc_def split: option.splits)
  then show ?thesis using True
    by (auto simp: live_def rc_def RELEASE_def Let_def destroy_effect u32_eq_one_iff)
qed

end

section \<open>The class table of the modelled leaf classes\<close>

text \<open>
  \<open>leaf_classes\<close> resolves every class pointer to a class whose finalizer is
  \<open>Object_DefaultFinalize\<close>: the base class of \<^verbatim>\<open>object.c\<close>, and the classes whose finalizer only
  frees memory private to the object (which is not part of the object store).
\<close>

definition leaf_classes :: "'p classes" where
  "leaf_classes c = (ObjectClass (\<lambda>_. []))\<lparr>cname := lit c\<rparr>"

interpretation leaf: arc_finalizers leaf_classes
  by unfold_locales (auto simp: leaf_classes_def ObjectClass_def Object_DefaultFinalize_def)

section \<open>Traces of ARC operations on one object\<close>

datatype arc_op = Retain | Release

fun arc_step :: "'p classes \<Rightarrow> addr \<Rightarrow> 'p heap \<Rightarrow> arc_op \<Rightarrow> 'p heap" where
  "arc_step cl a h Retain = RETAIN h (Some a)"
| "arc_step cl a h Release = RELEASE cl h (Some a)"

definition arc_run :: "'p classes \<Rightarrow> addr \<Rightarrow> 'p heap \<Rightarrow> arc_op list \<Rightarrow> 'p heap" where
  "arc_run cl a h ops = foldl (arc_step cl a) h ops"

text \<open>
  A trace is balanced when nobody touches the object after the count has reached zero;
  \<open>arc_count\<close> is the count it leaves.
\<close>

fun arc_balanced :: "nat \<Rightarrow> arc_op list \<Rightarrow> bool" where
  "arc_balanced n [] = True"
| "arc_balanced n (Retain # ops) = (0 < n \<and> arc_balanced (Suc n) ops)"
| "arc_balanced n (Release # ops) = (0 < n \<and> arc_balanced (n - 1) ops)"

fun arc_count :: "nat \<Rightarrow> arc_op list \<Rightarrow> nat" where
  "arc_count n [] = n"
| "arc_count n (Retain # ops) = arc_count (Suc n) ops"
| "arc_count n (Release # ops) = arc_count (n - 1) ops"

context arc_finalizers
begin

lemma arc_run_effect:
  assumes "arc_balanced (rc h a) ops" and "rc h a + length ops < RC_MAX"
    and "live h a \<longleftrightarrow> 0 < rc h a"
  shows "rc (arc_run cl a h ops) a = arc_count (rc h a) ops
    \<and> (live (arc_run cl a h ops) a \<longleftrightarrow> 0 < arc_count (rc h a) ops)
    \<and> fault (arc_run cl a h ops) = fault h
    \<and> (\<forall>b. b \<noteq> a \<longrightarrow> objs (arc_run cl a h ops) b = objs h b)"
  using assms
proof (induction ops arbitrary: h)
  case Nil
  then show ?case by (simp add: arc_run_def)
next
  case (Cons op ops)
  have run: "arc_run cl a h (op # ops) = arc_run cl a (arc_step cl a h op) ops"
    by (simp add: arc_run_def)
  show ?case
  proof (cases op)
    case Retain
    with Cons.prems have l: "live h a" and p: "0 < rc h a" "rc h a < RC_MAX" by auto
    let ?h = "RETAIN h (Some a)"
    have eff: "rc ?h a = Suc (rc h a)" "live ?h a" "fault ?h = fault h"
      "\<forall>b. b \<noteq> a \<longrightarrow> objs ?h b = objs h b"
      using l p by (simp_all add: arc_simps) (auto simp: RETAIN_def live_def)
    then show ?thesis using Cons.IH [of ?h] Cons.prems Retain run by auto
  next
    case Release
    with Cons.prems have l: "live h a" and p: "0 < rc h a" by auto
    let ?h = "RELEASE cl h (Some a)"
    have eff: "rc ?h a = rc h a - 1" "live ?h a \<longleftrightarrow> 0 < rc h a - 1" "fault ?h = fault h"
      "\<forall>b. b \<noteq> a \<longrightarrow> objs ?h b = objs h b"
      using l p by (auto simp: RELEASE_rc RELEASE_live RELEASE_fault RELEASE_other)
    then show ?thesis using Cons.IH [of ?h] Cons.prems Release run by auto
  qed
qed

end

section \<open>Properties\<close>


definition demo_heap :: "unit heap" where
  "demo_heap = \<lparr>objs = [1 \<mapsto> \<lparr>obj_type = Some ''Object'', ref_count = 1, payload = ()\<rparr>,
                       2 \<mapsto> \<lparr>obj_type = Some ''Object'', ref_count = 2, payload = ()\<rparr>], fault = False\<rparr>"

lemma demo_heap_rc [simp]: "rc demo_heap 1 = 1" "rc demo_heap (Suc 0) = 1" "rc demo_heap 2 = 2"
  by (simp_all add: demo_heap_def rc_def)


text \<open>\<^verbatim>\<open>RELEASE\<close> undoes \<^verbatim>\<open>RETAIN\<close>: for a live object with a positive count, retaining
  and then releasing gives back the very same store, whatever the class table.\<close>

theorem RETAIN_RELEASE_id:
  assumes "0 < rc h a"
  shows "RELEASE cl (RETAIN h (Some a)) (Some a) = h"
proof -
  from assms obtain ob where ob: "objs h a = Some ob" "ref_count ob \<noteq> 0"
    by (auto simp: rc_def unat_gt_0 split: option.splits)
  then have "ref_count ob + 1 \<noteq> 1" by simp
  with ob show ?thesis
    by (simp add: RETAIN_def RELEASE_def Let_def fun_upd_idem)
qed

theorem RETAIN_RELEASE_id_witness:
  "RELEASE leaf_classes (RETAIN demo_heap (Some 1)) (Some 1) = demo_heap"
  using RETAIN_RELEASE_id [of demo_heap 1 leaf_classes] by simp

end
