(* ===== verification/Arc_Ownership.thy ===== *)
theory Arc_Ownership
  imports Arc_Object
begin

text \<open>
  Ownership, the accounting the containers of libcore share. A container owns the pointers it holds:
  each occurrence stands for one reference. \<open>owned\<close> says the store backs the contents of a
  container; \<open>arc_balance h xs h' ys\<close> says that going from contents \<open>xs\<close> to contents \<open>ys\<close> changed the
  counts by exactly the difference, so that the references held by everybody else are untouched, no
  freed memory was used, and objects are alive exactly as long as their count is positive.
\<close>

section \<open>Owned contents\<close>

text \<open>A container owns its elements: each pointer it holds accounts for one reference.\<close>

definition release_all :: "'p classes \<Rightarrow> 'p heap \<Rightarrow> ptr list \<Rightarrow> 'p heap" where
  "release_all cl h ps = foldl (RELEASE cl) h ps"

definition owned :: "'p heap \<Rightarrow> ptr list \<Rightarrow> bool" where
  "owned h ps \<longleftrightarrow> (\<forall>a. count_list ps (Some a) \<le> rc h a)"

lemma release_all_Nil [simp]: "release_all cl h [] = h"
  by (simp add: release_all_def)

lemma release_all_Cons [simp]: "release_all cl h (p # ps) = release_all cl (RELEASE cl h p) ps"
  by (simp add: release_all_def)

context arc_finalizers
begin

lemma release_all_effect:
  assumes "owned h ps"
  shows "rc (release_all cl h ps) a = rc h a - count_list ps (Some a)
    \<and> fault (release_all cl h ps) = fault h
    \<and> live (release_all cl h ps) a =
        (if count_list ps (Some a) = 0 then live h a else count_list ps (Some a) < rc h a)"
  using assms
proof (induction ps arbitrary: h)
  case Nil
  then show ?case by simp
next
  case (Cons p ps)
  show ?case
  proof (cases p)
    case None
    with Cons show ?thesis by (simp add: owned_def)
  next
    case (Some b)
    have "count_list (p # ps) (Some b) \<le> rc h b" using Cons.prems by (simp only: owned_def)
    then have b: "0 < rc h b" by (simp add: Some)
    have own: "owned (RELEASE cl h p) ps"
      unfolding owned_def
    proof
      fix c
      have "count_list (p # ps) (Some c) \<le> rc h c" using Cons.prems by (simp only: owned_def)
      then show "count_list ps (Some c) \<le> rc (RELEASE cl h p) c"
        using b by (auto simp: Some RELEASE_rc)
    qed
    show ?thesis
      using Cons.IH [OF own] b by (auto simp: Some RELEASE_rc RELEASE_live RELEASE_fault rc_pos_live)
  qed
qed

end

section \<open>Balanced changes of contents\<close>

definition arc_balance :: "'p heap \<Rightarrow> ptr list \<Rightarrow> 'p heap \<Rightarrow> ptr list \<Rightarrow> bool" where
  "arc_balance h xs h' ys \<longleftrightarrow> fault h' = fault h
     \<and> (\<forall>a. rc h' a + count_list xs (Some a) = rc h a + count_list ys (Some a))
     \<and> (\<forall>a. (live h a \<longleftrightarrow> 0 < rc h a) \<longrightarrow> (live h' a \<longleftrightarrow> 0 < rc h' a))"

lemma arc_balance_refl [simp]: "arc_balance h xs h xs"
  by (simp add: arc_balance_def)

lemma arc_balance_trans: "arc_balance h xs h1 ys \<Longrightarrow> arc_balance h1 ys h2 zs \<Longrightarrow> arc_balance h xs h2 zs"
  unfolding arc_balance_def
proof (elim conjE, intro conjI allI impI)
  fix a
  assume "\<forall>a. rc h1 a + count_list xs (Some a) = rc h a + count_list ys (Some a)"
    "\<forall>a. rc h2 a + count_list ys (Some a) = rc h1 a + count_list zs (Some a)"
  from this [rule_format, of a] show "rc h2 a + count_list xs (Some a) = rc h a + count_list zs (Some a)"
    by linarith
qed auto

lemma count_list_mset: "mset xs = mset ys \<Longrightarrow> count_list xs a = count_list ys a"
  by (metis count_mset)

lemma arc_balance_mset:
  assumes "arc_balance h xs h' ys" and "mset xs = mset xs'" and "mset ys = mset ys'"
  shows "arc_balance h xs' h' ys'"
  using assms count_list_mset [OF assms(2)] count_list_mset [OF assms(3)] by (simp add: arc_balance_def)

lemma arc_balance_frame: "arc_balance h xs h' ys \<Longrightarrow> arc_balance h (us @ xs @ vs) h' (us @ ys @ vs)"
  by (simp add: arc_balance_def)

lemma arc_balance_owned: "arc_balance h xs h' ys \<Longrightarrow> owned h xs \<Longrightarrow> owned h' ys"
  unfolding arc_balance_def owned_def
proof (elim conjE, intro allI)
  fix a
  assume "\<forall>a. rc h' a + count_list xs (Some a) = rc h a + count_list ys (Some a)"
    "\<forall>a. count_list xs (Some a) \<le> rc h a"
  from this [rule_format, of a] show "count_list ys (Some a) \<le> rc h' a" by linarith
qed

lemma arc_balance_RETAIN:
  assumes "\<And>a. p = Some a \<Longrightarrow> live h a \<and> rc h a < RC_MAX"
  shows "arc_balance h xs (RETAIN h p) (p # xs)"
  using assms by (cases p) (auto simp: arc_balance_def arc_simps)

lemma owned_pos: "owned h xs \<Longrightarrow> Some a \<in> set xs \<Longrightarrow> 0 < rc h a"
  unfolding owned_def by (metis count_list_0_iff gr0I le_zero_eq)

lemma owned_sub: "owned h (us @ xs @ vs) \<Longrightarrow> owned h xs"
  unfolding owned_def by (metis add.commute add_leD1 count_list_append)

text \<open>The references of everybody but the container.\<close>

lemma arc_balance_others:
  "arc_balance h xs h' ys \<Longrightarrow> owned h xs \<Longrightarrow> rc h' a - count_list ys (Some a) = rc h a - count_list xs (Some a)"
  unfolding arc_balance_def owned_def
proof (elim conjE)
  assume "\<forall>a. rc h' a + count_list xs (Some a) = rc h a + count_list ys (Some a)"
    "\<forall>a. count_list xs (Some a) \<le> rc h a"
  from this [rule_format, of a] show ?thesis by linarith
qed

lemma rc_RETAIN_le: "(\<And>a. p = Some a \<Longrightarrow> live h a \<and> rc h a < RC_MAX) \<Longrightarrow> rc (RETAIN h p) b \<le> Suc (rc h b)"
  by (cases p) (auto simp: arc_simps)

context arc_finalizers
begin

lemma rc_RELEASE_le: "(\<And>a. p = Some a \<Longrightarrow> 0 < rc h a) \<Longrightarrow> rc (RELEASE cl h p) b \<le> rc h b"
  by (cases p) (auto simp: RELEASE_rc)

lemma arc_balance_RELEASE:
  assumes "\<And>a. p = Some a \<Longrightarrow> 0 < rc h a"
  shows "arc_balance h (p # xs) (RELEASE cl h p) xs"
  using assms
  by (cases p) (auto simp: arc_balance_def RELEASE_rc RELEASE_live RELEASE_fault rc_pos_live)

lemma arc_balance_release_all:
  assumes "owned h ps"
  shows "arc_balance h ps (release_all cl h ps) []"
  using release_all_effect [OF assms] assms
  by (auto simp: arc_balance_def owned_def le_imp_diff_is_add)

end

end
