(* ===== verification/Array_List.thy ===== *)
theory Array_List
  imports Arc_Ownership
begin

text \<open>
  \<^verbatim>\<open>src/src/arraylist.c\<close>: the growable array of owned object pointers under Queue, Stack,
  HashMap.keys/values, Router and JSON arrays. The record holds the fields of the C struct
  (\<open>al_base\<close> is the address of its object header); the cells beyond \<open>al_size\<close> are allocated
  and hold whatever is there. The methods run under the list's mutex, so each is one atomic
  step of the model. A NULL receiver is answered by the methods' first line without any
  effect; the model takes the receiver itself. Allocation answers are arguments.
  The abstraction \<open>al_list\<close> reads the list the array stands for; \<open>al_inv\<close> is the
  well-formedness invariant; the locale \<open>array_list\<close> is the contract its clients rely on.
\<close>

section \<open>State and operations\<close>

record ArrayList =
  al_base :: addr
  al_items :: "ptr list"
  al_size :: int
  al_capacity :: int

definition new_ArrayList ::
  "addr alloc \<Rightarrow> unit alloc \<Rightarrow> 'p \<Rightarrow> 'p heap \<Rightarrow> int \<Rightarrow> 'p heap \<times> ArrayList option" where
  "new_ArrayList mem_obj mem_items p h initial_capacity =
     (let cap = (if initial_capacity \<le> 0 then 10 else initial_capacity)
      in case mem_obj of Alloc_Fail \<Rightarrow> (h, None)
         | Alloc_Ok a \<Rightarrow>
             (let h1 = Object_Init (calloc_object h a p) (Some a) ''ArrayList''
              in case mem_items of Alloc_Fail \<Rightarrow> (free_object h1 a, None)
                 | Alloc_Ok _ \<Rightarrow>
                     (h1, Some \<lparr>al_base = a, al_items = replicate (nat cap) None,
                                al_size = 0, al_capacity = cap\<rparr>)))"

definition ArrayList_ensureCapacity_internal :: "ptr alloc \<Rightarrow> ArrayList \<Rightarrow> int \<Rightarrow> bool \<times> ArrayList" where
  "ArrayList_ensureCapacity_internal mem self min_capacity =
     (if min_capacity \<le> al_capacity self then (True, self)
      else let d = wrap32 (al_capacity self * 2);
               new_cap = (if d < min_capacity then min_capacity else d)
           in case mem of Alloc_Fail \<Rightarrow> (False, self)
              | Alloc_Ok junk \<Rightarrow>
                  (True, self\<lparr>al_items := realloc_cells junk (al_items self) (nat new_cap),
                              al_capacity := new_cap\<rparr>))"

definition ArrayList_ensureCapacity :: "ptr alloc \<Rightarrow> ArrayList \<Rightarrow> int \<Rightarrow> ArrayList" where
  "ArrayList_ensureCapacity mem self min_capacity =
     snd (ArrayList_ensureCapacity_internal mem self min_capacity)"

definition ArrayList_add :: "ptr alloc \<Rightarrow> 'p heap \<Rightarrow> ArrayList \<Rightarrow> ptr \<Rightarrow> 'p heap \<times> ArrayList" where
  "ArrayList_add mem h self item =
     (case ArrayList_ensureCapacity_internal mem self (wrap32 (al_size self + 1)) of
        (False, self1) \<Rightarrow> (h, self1)
      | (True, self1) \<Rightarrow>
          (RETAIN h item,
           self1\<lparr>al_items := (al_items self1)[nat (al_size self1) := item],
                 al_size := wrap32 (al_size self1 + 1)\<rparr>))"

definition ArrayList_isEmpty :: "ArrayList \<Rightarrow> bool" where
  "ArrayList_isEmpty self \<longleftrightarrow> al_size self = 0"

definition ArrayList_getSize :: "ArrayList \<Rightarrow> int" where
  "ArrayList_getSize self = al_size self"

abbreviation al_in_range :: "ArrayList \<Rightarrow> int \<Rightarrow> bool" where
  "al_in_range self index \<equiv> index \<ge> 0 \<and> index < al_size self"

definition ArrayList_get :: "ArrayList \<Rightarrow> int \<Rightarrow> ptr" where
  "ArrayList_get self index =
     (if al_in_range self index then al_items self ! nat index else None)"

text \<open>The loop \<^verbatim>\<open>for (i = index; i < size - 1; i++) items[i] = items[i + 1]\<close>.\<close>

function shift_left :: "'a list \<Rightarrow> nat \<Rightarrow> nat \<Rightarrow> 'a list" where
  "shift_left items i n =
     (if Suc i < n then shift_left (items[i := items ! Suc i]) (Suc i) n else items)"
  by pat_completeness auto
termination
  by (relation "measure (\<lambda>(items, i, n). n - i)") auto

declare shift_left.simps [simp del]

text \<open>Closing the gap at \<open>index\<close>: the loop, \<^verbatim>\<open>size--\<close> and \<^verbatim>\<open>items[size] = NULL\<close>.\<close>

definition al_close_gap :: "ArrayList \<Rightarrow> int \<Rightarrow> ArrayList" where
  "al_close_gap self index =
     (let items = shift_left (al_items self) (nat index) (nat (al_size self));
          sz = al_size self - 1
      in self\<lparr>al_items := items[nat sz := None], al_size := sz\<rparr>)"

definition ArrayList_remove :: "'p classes \<Rightarrow> 'p heap \<Rightarrow> ArrayList \<Rightarrow> int \<Rightarrow> 'p heap \<times> ArrayList" where
  "ArrayList_remove cl h self index =
     (if al_in_range self index
      then (RELEASE cl h (al_items self ! nat index), al_close_gap self index)
      else (h, self))"

definition ArrayList_removeResult :: "ArrayList \<Rightarrow> int \<Rightarrow> ArrayList" where
  "ArrayList_removeResult self index =
     (if al_in_range self index then al_close_gap self index else self)"

definition ArrayList_detach :: "ArrayList \<Rightarrow> int \<Rightarrow> ptr \<times> ArrayList" where
  "ArrayList_detach self index =
     (if al_in_range self index
      then (al_items self ! nat index, al_close_gap self index)
      else (None, self))"

text \<open>The loops that release the elements \<open>i\<close>, \<open>i + 1\<close>, \<dots> below \<open>size\<close>.\<close>

function al_release_from :: "'p classes \<Rightarrow> 'p heap \<Rightarrow> ptr list \<Rightarrow> nat \<Rightarrow> nat \<Rightarrow> 'p heap" where
  "al_release_from cl h items i n =
     (if i < n then al_release_from cl (RELEASE cl h (items ! i)) items (Suc i) n else h)"
  by pat_completeness auto
termination
  by (relation "measure (\<lambda>(cl, h, items, i, n). n - i)") auto

declare al_release_from.simps [simp del]

definition ArrayList_clear :: "'p classes \<Rightarrow> 'p heap \<Rightarrow> ArrayList \<Rightarrow> 'p heap \<times> ArrayList" where
  "ArrayList_clear cl h self =
     (let n = nat (al_size self)
      in (al_release_from cl h (al_items self) 0 n,
          self\<lparr>al_items := replicate n None @ drop n (al_items self), al_size := 0\<rparr>))"

definition ArrayList_Finalize :: "'p classes \<Rightarrow> 'p heap \<Rightarrow> ArrayList \<Rightarrow> 'p heap" where
  "ArrayList_Finalize cl h self =
     al_release_from cl h (al_items self) 0 (nat (al_size self))"

text \<open>The elements \<^verbatim>\<open>forEach\<close> passes to its action, in order; none if the snapshot cannot be allocated.\<close>

definition ArrayList_forEach :: "unit alloc \<Rightarrow> ArrayList \<Rightarrow> ptr list" where
  "ArrayList_forEach mem self =
     (if al_size self > 0
      then (case mem of Alloc_Fail \<Rightarrow> []
            | Alloc_Ok _ \<Rightarrow> take (nat (al_size self)) (al_items self))
      else [])"

definition ArrayList_trimToSize :: "ptr alloc \<Rightarrow> ArrayList \<Rightarrow> ArrayList" where
  "ArrayList_trimToSize mem self =
     (if al_size self < al_capacity self
      then (let new_cap = (if al_size self = 0 then 1 else al_size self)
            in case mem of Alloc_Fail \<Rightarrow> self
               | Alloc_Ok junk \<Rightarrow>
                   self\<lparr>al_items := realloc_cells junk (al_items self) (nat new_cap),
                        al_capacity := new_cap\<rparr>)
      else self)"

text \<open>\<^verbatim>\<open>find\<close>: the first element that \<^verbatim>\<open>compare\<close> says is equal to the target.\<close>

function al_find_from :: "(ptr \<Rightarrow> int) \<Rightarrow> ptr list \<Rightarrow> nat \<Rightarrow> nat \<Rightarrow> ptr" where
  "al_find_from compare items i n =
     (if i < n
      then (if compare (items ! i) = 0 then items ! i
            else al_find_from compare items (Suc i) n)
      else None)"
  by pat_completeness auto
termination
  by (relation "measure (\<lambda>(compare, items, i, n). n - i)") auto

declare al_find_from.simps [simp del]

definition ArrayList_find :: "ArrayList \<Rightarrow> 't \<Rightarrow> (ptr \<Rightarrow> 't \<Rightarrow> int) \<Rightarrow> ptr" where
  "ArrayList_find self target compare =
     al_find_from (\<lambda>x. compare x target) (al_items self) 0 (nat (al_size self))"

text \<open>
  \<^verbatim>\<open>qsort\<close> of the C library. The comparator is called on the addresses of two cells; \<open>compare\<close>
  is what it computes from the contents of the cells.
\<close>

fun qsort_insert :: "('a \<Rightarrow> 'a \<Rightarrow> int) \<Rightarrow> 'a \<Rightarrow> 'a list \<Rightarrow> 'a list" where
  "qsort_insert compare x [] = [x]"
| "qsort_insert compare x (y # ys) =
     (if compare x y \<le> 0 then x # y # ys else y # qsort_insert compare x ys)"

definition qsort :: "('a \<Rightarrow> 'a \<Rightarrow> int) \<Rightarrow> 'a list \<Rightarrow> 'a list" where
  "qsort compare xs = foldr (qsort_insert compare) xs []"

definition ArrayList_sort :: "ArrayList \<Rightarrow> (ptr \<Rightarrow> ptr \<Rightarrow> int) \<Rightarrow> ArrayList" where
  "ArrayList_sort self compare =
     (if al_size self \<le> 1 then self
      else let n = nat (al_size self)
           in self\<lparr>al_items := qsort compare (take n (al_items self)) @ drop n (al_items self)\<rparr>)"

text \<open>The iterator holds a reference to the list and a position.\<close>

record ArrayListIterator =
  it_list :: ptr
  it_currentIndex :: int

definition ArrayList_iterator ::
  "unit alloc \<Rightarrow> 'p heap \<Rightarrow> ArrayList \<Rightarrow> 'p heap \<times> ArrayListIterator option" where
  "ArrayList_iterator mem h self =
     (case mem of Alloc_Fail \<Rightarrow> (h, None)
      | Alloc_Ok _ \<Rightarrow>
          (RETAIN h (Some (al_base self)),
           Some \<lparr>it_list = Some (al_base self), it_currentIndex = 0\<rparr>))"

definition iter_hasNext :: "ArrayListIterator \<Rightarrow> ArrayList \<Rightarrow> bool" where
  "iter_hasNext it list \<longleftrightarrow> it_list it \<noteq> None \<and> it_currentIndex it < ArrayList_getSize list"

definition iter_next :: "ArrayListIterator \<Rightarrow> ArrayList \<Rightarrow> ptr \<times> ArrayListIterator" where
  "iter_next it list =
     (if \<not> iter_hasNext it list then (None, it)
      else (ArrayList_get list (it_currentIndex it),
            it\<lparr>it_currentIndex := wrap32 (it_currentIndex it + 1)\<rparr>))"

definition Iterator_Finalize :: "'p classes \<Rightarrow> 'p heap \<Rightarrow> ArrayListIterator \<Rightarrow> 'p heap \<times> ArrayListIterator" where
  "Iterator_Finalize cl h it =
     (case it_list it of None \<Rightarrow> (h, it)
      | Some a \<Rightarrow> (RELEASE cl h (Some a), it\<lparr>it_list := None\<rparr>))"

definition is_arraylist :: "'p heap \<Rightarrow> ptr \<Rightarrow> bool" where
  "is_arraylist h obj =
     (case obj of None \<Rightarrow> False
      | Some a \<Rightarrow> (case objs h a of None \<Rightarrow> False | Some ob \<Rightarrow> obj_type ob = Some ''ArrayList''))"

definition ArrayList_destroy :: "'p classes \<Rightarrow> 'p heap \<Rightarrow> ArrayList \<Rightarrow> 'p heap" where
  "ArrayList_destroy cl h self = RELEASE cl h (Some (al_base self))"

section \<open>Invariant and abstraction\<close>

definition al_inv :: "ArrayList \<Rightarrow> bool" where
  "al_inv self \<longleftrightarrow> 0 \<le> al_size self \<and> al_size self \<le> al_capacity self \<and> 0 < al_capacity self
     \<and> al_capacity self \<le> INT_MAX \<and> length (al_items self) = nat (al_capacity self)"

definition al_list :: "ArrayList \<Rightarrow> ptr list" where
  "al_list self = take (nat (al_size self)) (al_items self)"

lemma length_al_list: "al_inv self \<Longrightarrow> int (length (al_list self)) = al_size self"
  by (auto simp: al_inv_def al_list_def)

lemma al_size_nat: "al_inv self \<Longrightarrow> nat (al_size self) = length (al_list self)"
  by (auto simp: al_inv_def al_list_def)

lemma length_shift_left [simp]: "length (shift_left items i n) = length items"
  by (induction items i n rule: shift_left.induct) (subst shift_left.simps, simp)

lemma del_at_shift:
  assumes "Suc i < length ys"
  shows "del_at (Suc i) (ys[i := ys ! Suc i]) = del_at i ys"
proof -
  have "take (Suc i) (ys[i := ys ! Suc i]) = take i ys @ [ys ! Suc i]"
    using assms by (simp add: take_Suc_conv_app_nth)
  moreover have "drop (Suc i) ys = ys ! Suc i # drop (Suc (Suc i)) ys"
    using assms by (simp add: Cons_nth_drop_Suc)
  ultimately show ?thesis by (simp add: del_at_def)
qed

lemma take_shift_left:
  "i < n \<Longrightarrow> n \<le> length items \<Longrightarrow> take (n - 1) (shift_left items i n) = del_at i (take n items)"
proof (induction items i n rule: shift_left.induct)
  case (1 items i n)
  show ?case
  proof (cases "Suc i < n")
    case True
    let ?xs = "items[i := items ! Suc i]"
    have "take (n - 1) (shift_left ?xs (Suc i) n) = del_at (Suc i) (take n ?xs)"
      using "1.IH" True "1.prems" by simp
    also have "\<dots> = del_at i (take n items)"
      using del_at_shift [of i "take n items"] True "1.prems" by (simp add: take_update_swap)
    finally show ?thesis using True by (simp add: shift_left.simps [of items i n])
  next
    case False
    with "1.prems" have "n = Suc i" by simp
    with "1.prems" show ?thesis
      by (simp add: shift_left.simps [of items i "Suc i"] del_at_def)
  qed
qed

lemma al_close_gap_inv: "al_inv self \<Longrightarrow> al_in_range self i \<Longrightarrow> al_inv (al_close_gap self i)"
  by (simp add: al_inv_def al_close_gap_def Let_def)

lemma al_close_gap_list:
  assumes "al_inv self" and "al_in_range self i"
  shows "al_list (al_close_gap self i) = del_at (nat i) (al_list self)"
proof -
  let ?n = "nat (al_size self)"
  have n: "nat i < ?n" "?n \<le> length (al_items self)" "nat (al_size self - 1) = ?n - 1"
    using assms by (auto simp: al_inv_def)
  then show ?thesis using take_shift_left [OF n(1,2)]
    by (simp add: al_list_def al_close_gap_def Let_def)
qed

lemma al_ensure_inv:
  assumes "al_inv self" and "0 \<le> m" and "m \<le> INT_MAX"
  shows "al_inv (snd (ArrayList_ensureCapacity_internal mem self m))"
  using assms wrap32_range [of "al_capacity self * 2"]
  by (auto simp: ArrayList_ensureCapacity_internal_def al_inv_def Let_def split: alloc.splits)

lemma al_ensure_list:
  assumes "al_inv self" and "0 \<le> m" and "m \<le> INT_MAX"
  shows "al_list (snd (ArrayList_ensureCapacity_internal mem self m)) = al_list self"
    and "al_size (snd (ArrayList_ensureCapacity_internal mem self m)) = al_size self"
    and "fst (ArrayList_ensureCapacity_internal mem self m) \<Longrightarrow>
         m \<le> al_capacity (snd (ArrayList_ensureCapacity_internal mem self m))"
  using assms
  by (auto simp: ArrayList_ensureCapacity_internal_def al_inv_def al_list_def Let_def
      split: alloc.splits if_splits)

lemma ArrayList_add_cases:
  assumes "al_inv self" and "al_size self < INT_MAX"
  obtains (full) "fst (ArrayList_add mem h self item) = h"
      "al_list (snd (ArrayList_add mem h self item)) = al_list self"
      "al_inv (snd (ArrayList_add mem h self item))" "mem = Alloc_Fail" "al_size self = al_capacity self"
  | (added) "fst (ArrayList_add mem h self item) = RETAIN h item"
      "al_list (snd (ArrayList_add mem h self item)) = al_list self @ [item]"
      "al_inv (snd (ArrayList_add mem h self item))"
proof -
  let ?m = "al_size self + 1"
  have m: "0 \<le> ?m" "?m \<le> INT_MAX" "wrap32 ?m = ?m" using assms by (auto simp: al_inv_def)
  obtain ok s1 where e: "ArrayList_ensureCapacity_internal mem self ?m = (ok, s1)" by force
  have s1: "al_inv s1" "al_list s1 = al_list self" "al_size s1 = al_size self"
    "ok \<Longrightarrow> ?m \<le> al_capacity s1"
    using al_ensure_inv [OF assms(1) m(1,2), of mem] al_ensure_list [OF assms(1) m(1,2), of mem] e by auto
  show ?thesis
  proof (cases ok)
    case False
    with e have "mem = Alloc_Fail" "al_capacity self < ?m"
      by (auto simp: ArrayList_ensureCapacity_internal_def Let_def split: alloc.splits if_splits)
    moreover have "ArrayList_add mem h self item = (h, s1)"
      using e m False by (simp add: ArrayList_add_def)
    ultimately show ?thesis using full s1 assms(1) by (simp add: al_inv_def)
  next
    case True
    let ?n = "nat (al_size self)"
    let ?s2 = "s1\<lparr>al_items := (al_items s1)[?n := item], al_size := ?m\<rparr>"
    have len: "?n < length (al_items s1)" "nat ?m = Suc ?n"
      using s1 True assms(1) by (auto simp: al_inv_def)
    have "ArrayList_add mem h self item = (RETAIN h item, ?s2)"
      using e m True s1(3) by (simp add: ArrayList_add_def)
    moreover have "al_inv ?s2" using s1 True m by (simp add: al_inv_def)
    moreover have "al_list ?s2 = al_list s1 @ [item]"
      using len s1(3) by (simp add: al_list_def take_Suc_conv_app_nth)
    ultimately show ?thesis using added s1 by simp
  qed
qed

lemma ArrayList_get_list:
  "al_inv self \<Longrightarrow> ArrayList_get self i =
     (if 0 \<le> i \<and> i < int (length (al_list self)) then al_list self ! nat i else None)"
  using al_size_nat [of self] length_al_list [of self] by (auto simp: ArrayList_get_def al_list_def)

lemma ArrayList_detach_list:
  assumes "al_inv self" and "al_in_range self i"
  shows "fst (ArrayList_detach self i) = al_list self ! nat i"
    and "al_list (snd (ArrayList_detach self i)) = del_at (nat i) (al_list self)"
    and "al_inv (snd (ArrayList_detach self i))"
  using assms al_close_gap_list [OF assms] al_close_gap_inv [OF assms]
  by (auto simp: ArrayList_detach_def) (simp add: al_list_def)

section \<open>The contract for clients\<close>

locale array_list =
  fixes inv :: "'l \<Rightarrow> bool"
    and lst :: "'l \<Rightarrow> ptr list"
    and add :: "ptr alloc \<Rightarrow> 'h \<Rightarrow> 'l \<Rightarrow> ptr \<Rightarrow> 'h \<times> 'l"
    and get :: "'l \<Rightarrow> int \<Rightarrow> ptr"
    and detach :: "'l \<Rightarrow> int \<Rightarrow> ptr \<times> 'l"
    and getSize :: "'l \<Rightarrow> int"
    and retain :: "'h \<Rightarrow> ptr \<Rightarrow> 'h"
  assumes size_lst: "inv l \<Longrightarrow> getSize l = int (length (lst l))"
    and add_lst: "inv l \<Longrightarrow> getSize l < INT_MAX \<Longrightarrow>
        inv (snd (add (Alloc_Ok j) h l x)) \<and> lst (snd (add (Alloc_Ok j) h l x)) = lst l @ [x]
        \<and> fst (add (Alloc_Ok j) h l x) = retain h x"
    and get_lst: "inv l \<Longrightarrow> get l i =
        (if 0 \<le> i \<and> i < int (length (lst l)) then lst l ! nat i else None)"
    and detach_lst: "inv l \<Longrightarrow> 0 \<le> i \<Longrightarrow> i < getSize l \<Longrightarrow>
        fst (detach l i) = lst l ! nat i \<and> lst (snd (detach l i)) = del_at (nat i) (lst l)
        \<and> inv (snd (detach l i))"
begin

lemma detach_front:
  assumes "inv l" and "lst l = x # xs"
  shows "fst (detach l 0) = x \<and> lst (snd (detach l 0)) = xs \<and> inv (snd (detach l 0))"
  using detach_lst [of l 0] assms by (simp add: size_lst)

lemma detach_back:
  assumes "inv l" and "lst l = xs @ [x]"
  shows "fst (detach l (getSize l - 1)) = x \<and> lst (snd (detach l (getSize l - 1))) = xs
    \<and> inv (snd (detach l (getSize l - 1)))"
  using detach_lst [of l "getSize l - 1"] assms by (simp add: size_lst del_at_def)

lemma get_front: "inv l \<Longrightarrow> get l 0 = (case lst l of [] \<Rightarrow> None | x # _ \<Rightarrow> x)"
  by (simp add: get_lst split: list.split)

lemma get_back: "inv l \<Longrightarrow> lst l \<noteq> [] \<Longrightarrow> get l (getSize l - 1) = last (lst l)"
  by (cases "lst l" rule: rev_cases) (auto simp: get_lst size_lst)

lemma empty_iff: "inv l \<Longrightarrow> getSize l = 0 \<longleftrightarrow> lst l = []"
  by (simp add: size_lst)

end

interpretation al: array_list al_inv al_list ArrayList_add ArrayList_get ArrayList_detach
  ArrayList_getSize RETAIN
proof
  fix l j and h :: "'a heap" and x
  assume "al_inv l" "ArrayList_getSize l < INT_MAX"
  then show "al_inv (snd (ArrayList_add (Alloc_Ok j) h l x))
    \<and> al_list (snd (ArrayList_add (Alloc_Ok j) h l x)) = al_list l @ [x]
    \<and> fst (ArrayList_add (Alloc_Ok j) h l x) = RETAIN h x"
    using ArrayList_add_cases [of l "Alloc_Ok j" h x] by (auto simp: ArrayList_getSize_def)
qed (auto simp: ArrayList_getSize_def length_al_list ArrayList_get_list ArrayList_detach_list)

section \<open>Clearing and finalizing release every element\<close>

lemma al_release_from_eq:
  "n \<le> length items \<Longrightarrow> al_release_from cl h items i n = release_all cl h (drop i (take n items))"
proof (induction cl h items i n rule: al_release_from.induct)
  case (1 cl h items i n)
  show ?case
  proof (cases "i < n")
    case True
    then have "drop i (take n items) = items ! i # drop (Suc i) (take n items)"
      using "1.prems" by (simp add: Cons_nth_drop_Suc [symmetric])
    with 1 True show ?thesis by (simp add: al_release_from.simps [of cl h items i n])
  next
    case False
    then show ?thesis by (simp add: al_release_from.simps [of cl h items i n])
  qed
qed

lemma ArrayList_clear_eq:
  assumes "al_inv self"
  shows "fst (ArrayList_clear cl h self) = release_all cl h (al_list self)"
    and "al_list (snd (ArrayList_clear cl h self)) = []"
    and "al_inv (snd (ArrayList_clear cl h self))"
  using assms al_size_nat [OF assms]
  by (auto simp: ArrayList_clear_def Let_def al_release_from_eq al_list_def al_inv_def)

lemma ArrayList_Finalize_eq:
  "al_inv self \<Longrightarrow> ArrayList_Finalize cl h self = release_all cl h (al_list self)"
  by (auto simp: ArrayList_Finalize_def al_release_from_eq al_list_def al_inv_def)

section \<open>Refinement: the array implements the list\<close>

datatype al_cmd = Al_add ptr | Al_get int | Al_remove int | Al_removeResult int | Al_detach int
  | Al_clear | Al_trimToSize | Al_ensureCapacity int

fun al_exec :: "'p classes \<Rightarrow> ptr \<Rightarrow> 'p heap \<times> ArrayList \<Rightarrow> al_cmd \<Rightarrow> ptr \<times> 'p heap \<times> ArrayList" where
  "al_exec cl j (h, l) (Al_add x) = (None, ArrayList_add (Alloc_Ok j) h l x)"
| "al_exec cl j (h, l) (Al_get i) = (ArrayList_get l i, h, l)"
| "al_exec cl j (h, l) (Al_remove i) = (None, ArrayList_remove cl h l i)"
| "al_exec cl j (h, l) (Al_removeResult i) = (None, h, ArrayList_removeResult l i)"
| "al_exec cl j (h, l) (Al_detach i) = (fst (ArrayList_detach l i), h, snd (ArrayList_detach l i))"
| "al_exec cl j (h, l) Al_clear = (None, ArrayList_clear cl h l)"
| "al_exec cl j (h, l) Al_trimToSize = (None, h, ArrayList_trimToSize (Alloc_Ok j) l)"
| "al_exec cl j (h, l) (Al_ensureCapacity m) = (None, h, ArrayList_ensureCapacity (Alloc_Ok j) l m)"

text \<open>The specification: the same commands on a plain list, with the reference-count effect.\<close>

abbreviation in_list :: "int \<Rightarrow> 'a list \<Rightarrow> bool" where
  "in_list i xs \<equiv> 0 \<le> i \<and> i < int (length xs)"

fun al_spec :: "'p classes \<Rightarrow> 'p heap \<times> ptr list \<Rightarrow> al_cmd \<Rightarrow> ptr \<times> 'p heap \<times> ptr list" where
  "al_spec cl (h, xs) (Al_add x) = (None, RETAIN h x, xs @ [x])"
| "al_spec cl (h, xs) (Al_get i) = (if in_list i xs then xs ! nat i else None, h, xs)"
| "al_spec cl (h, xs) (Al_remove i) =
     (None, if in_list i xs then (RELEASE cl h (xs ! nat i), del_at (nat i) xs) else (h, xs))"
| "al_spec cl (h, xs) (Al_removeResult i) = (None, h, if in_list i xs then del_at (nat i) xs else xs)"
| "al_spec cl (h, xs) (Al_detach i) =
     (if in_list i xs then (xs ! nat i, h, del_at (nat i) xs) else (None, h, xs))"
| "al_spec cl (h, xs) Al_clear = (None, release_all cl h xs, [])"
| "al_spec cl (h, xs) Al_trimToSize = (None, h, xs)"
| "al_spec cl (h, xs) (Al_ensureCapacity m) = (None, h, xs)"

fun al_cmd_ok :: "al_cmd \<Rightarrow> bool" where
  "al_cmd_ok (Al_ensureCapacity m) = (m \<le> INT_MAX)"
| "al_cmd_ok _ = True"

lemma al_in_range_iff: "al_inv l \<Longrightarrow> al_in_range l i \<longleftrightarrow> in_list i (al_list l)"
  using length_al_list [of l] by auto

lemma al_items_nth: "al_inv l \<Longrightarrow> in_list i (al_list l) \<Longrightarrow> al_items l ! nat i = al_list l ! nat i"
  by (subst al_list_def, subst nth_take) (auto simp: al_list_def)

lemma ArrayList_trimToSize_list:
  assumes "al_inv l"
  shows "al_list (ArrayList_trimToSize mem l) = al_list l \<and> al_inv (ArrayList_trimToSize mem l)"
  using assms by (auto simp: ArrayList_trimToSize_def al_inv_def al_list_def Let_def
      realloc_cells_shrink split: alloc.splits)

lemma ArrayList_ensureCapacity_list:
  assumes "al_inv l" and "m \<le> INT_MAX"
  shows "al_list (ArrayList_ensureCapacity mem l m) = al_list l \<and> al_inv (ArrayList_ensureCapacity mem l m)"
proof (cases "m \<le> al_capacity l")
  case True
  then show ?thesis
    using assms by (simp add: ArrayList_ensureCapacity_def ArrayList_ensureCapacity_internal_def)
next
  case False
  then have "0 \<le> m" using assms by (simp add: al_inv_def)
  then show ?thesis
    using al_ensure_inv [OF assms(1) _ assms(2)] al_ensure_list(1) [OF assms(1) _ assms(2)]
    by (simp add: ArrayList_ensureCapacity_def)
qed

lemma al_spec_length: "al_spec cl (h, xs) c = (out, h', ys) \<Longrightarrow> length ys \<le> Suc (length xs)"
  by (cases c) (auto split: if_splits)

lemma al_exec_refines:
  assumes "al_inv l" and "al_size l < INT_MAX" and "al_cmd_ok c"
    and "al_exec cl j (h, l) c = (out, h', l')"
  shows "al_spec cl (h, al_list l) c = (out, h', al_list l') \<and> al_inv l'
    \<and> al_size l' \<le> al_size l + 1"
proof -
  note inv = assms(1)
  have goal: "al_spec cl (h, al_list l) c = (out, h', al_list l') \<and> al_inv l'"
    using assms
  proof (cases c)
    case (Al_add x)
    then show ?thesis using al.add_lst [of l j h x] assms by (auto simp: ArrayList_getSize_def)
  next
    case (Al_remove i)
    then show ?thesis
      using assms al_in_range_iff [OF inv, of i] al_items_nth [OF inv, of i]
        al_close_gap_list [OF inv, of i] al_close_gap_inv [OF inv, of i]
      by (auto simp: ArrayList_remove_def)
  next
    case (Al_removeResult i)
    then show ?thesis
      using assms al_in_range_iff [OF inv, of i] al_close_gap_list [OF inv, of i]
        al_close_gap_inv [OF inv, of i]
      by (auto simp: ArrayList_removeResult_def)
  next
    case (Al_detach i)
    then show ?thesis
      using assms al_in_range_iff [OF inv, of i] al_items_nth [OF inv, of i]
        al_close_gap_list [OF inv, of i] al_close_gap_inv [OF inv, of i]
      by (auto simp: ArrayList_detach_def)
  next
    case Al_clear
    then show ?thesis using assms ArrayList_clear_eq [OF inv, of cl h] by auto
  next
    case (Al_ensureCapacity m)
    then show ?thesis using assms ArrayList_ensureCapacity_list [OF inv, of m] by auto
  qed (auto simp: ArrayList_get_list ArrayList_trimToSize_list)
  moreover have "length (al_list l') \<le> Suc (length (al_list l))"
    using goal al_spec_length by blast
  ultimately show ?thesis using length_al_list [OF inv] length_al_list [of l'] by linarith
qed

fun al_exec_all :: "'p classes \<Rightarrow> ptr \<Rightarrow> 'p heap \<times> ArrayList \<Rightarrow> al_cmd list
    \<Rightarrow> ptr list \<times> 'p heap \<times> ArrayList" where
  "al_exec_all cl j s [] = ([], s)"
| "al_exec_all cl j s (c # cs) =
     (let (o1, s1) = al_exec cl j s c; (os, s2) = al_exec_all cl j s1 cs in (o1 # os, s2))"

fun al_spec_all :: "'p classes \<Rightarrow> 'p heap \<times> ptr list \<Rightarrow> al_cmd list \<Rightarrow> ptr list \<times> 'p heap \<times> ptr list" where
  "al_spec_all cl s [] = ([], s)"
| "al_spec_all cl s (c # cs) =
     (let (o1, s1) = al_spec cl s c; (os, s2) = al_spec_all cl s1 cs in (o1 # os, s2))"

text \<open>(C2) The array list refines the mathematical list: whatever sequence of add, get,
  remove, removeResult, detach, clear, trimToSize and ensureCapacity calls is made on a
  well-formed list (allocations succeeding, sizes within \<^verbatim>\<open>int\<close>), every returned pointer,
  the final list and the reference-count store are those of the same commands on a plain
  list, and the representation invariant is kept.\<close>

theorem ArrayList_refines_list:
  assumes "al_inv l" and "al_size l + int (length cs) \<le> INT_MAX" and "list_all al_cmd_ok cs"
  shows "case al_exec_all cl j (h, l) cs of (outs, h', l') \<Rightarrow>
    al_spec_all cl (h, al_list l) cs = (outs, h', al_list l') \<and> al_inv l'"
  using assms
proof (induction cs arbitrary: h l)
  case Nil
  then show ?case by simp
next
  case (Cons c cs)
  obtain o1 h1 l1 where e: "al_exec cl j (h, l) c = (o1, h1, l1)" by (metis prod_cases3)
  have r: "al_spec cl (h, al_list l) c = (o1, h1, al_list l1)" "al_inv l1" "al_size l1 \<le> al_size l + 1"
    using al_exec_refines [OF Cons.prems(1) _ _ e] Cons.prems by auto
  then show ?case
    using Cons.IH [of l1 h1] Cons.prems e by (auto split: prod.splits)
qed

definition demo_al :: ArrayList where
  "demo_al = \<lparr>al_base = 9, al_items = [None], al_size = 0, al_capacity = 1\<rparr>"

lemma demo_al_inv: "al_inv demo_al"
  by (simp add: demo_al_def al_inv_def)

theorem ArrayList_refines_list_witness:
  "fst (al_exec_all leaf_classes None (demo_heap, demo_al)
     [Al_add (Some 1), Al_add (Some 2), Al_detach 0, Al_get 0]) = [None, None, Some 1, Some 2]"
proof -
  let ?cs = "[Al_add (Some 1), Al_add (Some 2), Al_detach 0, Al_get 0]"
  have "al_size demo_al + int (length ?cs) \<le> INT_MAX" "list_all al_cmd_ok ?cs"
    by (simp_all add: demo_al_def)
  moreover have "al_list demo_al = []" by (simp add: demo_al_def al_list_def)
  moreover obtain outs h' l'
    where e: "al_exec_all leaf_classes None (demo_heap, demo_al) ?cs = (outs, h', l')"
    by (metis prod_cases3)
  ultimately have "al_spec_all leaf_classes (demo_heap, []) ?cs = (outs, h', al_list l')"
    using ArrayList_refines_list [OF demo_al_inv, of ?cs leaf_classes demo_heap None]
    by (simp del: al_exec_all.simps al_spec_all.simps)
  then show ?thesis by (simp only: e fst_conv) (auto simp: del_at_def)
qed

text \<open>Ownership: clearing a list (or finalizing it) whose elements are owned gives back
  exactly one reference per occurrence, destroys an element exactly when the list held its
  last reference, never touches freed memory, and leaves the list empty and well formed.\<close>

theorem ArrayList_clear_releases:
  assumes "al_inv self" and "owned h (al_list self)"
  shows "case ArrayList_clear leaf_classes h self of (h', self') \<Rightarrow>
    al_list self' = [] \<and> al_inv self' \<and> fault h' = fault h
    \<and> h' = ArrayList_Finalize leaf_classes h self
    \<and> (\<forall>a. rc h' a = rc h a - count_list (al_list self) (Some a))
    \<and> (\<forall>a. Some a \<in> set (al_list self) \<longrightarrow>
          (live h' a \<longleftrightarrow> count_list (al_list self) (Some a) < rc h a))"
  using leaf.release_all_effect [OF assms(2)] ArrayList_clear_eq [OF assms(1), of leaf_classes h]
    ArrayList_Finalize_eq [OF assms(1), of leaf_classes h]
  by (auto simp: split_beta count_list_0_iff)

theorem ArrayList_clear_releases_witness:
  "\<not> live (fst (ArrayList_clear leaf_classes demo_heap
      (demo_al\<lparr>al_items := [Some 1], al_size := 1\<rparr>))) 1"
proof -
  let ?l = "demo_al\<lparr>al_items := [Some 1], al_size := 1\<rparr>"
  have l: "al_list ?l = [Some 1]" "al_inv ?l" by (simp_all add: demo_al_def al_list_def al_inv_def)
  then have "owned demo_heap (al_list ?l)" by (auto simp: owned_def)
  from ArrayList_clear_releases [OF l(2) this] l(1) show ?thesis
    by (auto simp: split_beta)
qed

lemma mset_qsort_insert: "mset (qsort_insert compare x ys) = add_mset x (mset ys)"
  by (induction ys) auto

lemma set_qsort_insert: "set (qsort_insert compare x ys) = insert x (set ys)"
  using mset_qsort_insert [of compare x ys] by (metis set_mset_add_mset_insert set_mset_mset)

lemma mset_qsort: "mset (qsort compare xs) = mset xs"
  unfolding qsort_def by (induction xs) (auto simp: mset_qsort_insert)

lemma length_qsort [simp]: "length (qsort compare xs) = length xs"
  using mset_qsort [of compare xs] by (metis size_mset)

lemma sorted_qsort:
  assumes "\<And>a b. compare a b \<le> 0 \<or> compare b a \<le> 0"
    and "\<And>a b c. compare a b \<le> 0 \<Longrightarrow> compare b c \<le> 0 \<Longrightarrow> compare a c \<le> 0"
  shows "sorted_wrt (\<lambda>a b. compare a b \<le> 0) (qsort compare xs)"
proof -
  have ins: "sorted_wrt (\<lambda>a b. compare a b \<le> 0) (qsort_insert compare x ys)"
    if "sorted_wrt (\<lambda>a b. compare a b \<le> 0) ys" for x ys
    using that
  proof (induction ys)
    case (Cons y ys)
    then show ?case
      using assms(1) [of x y] assms(2) [of x y] by (auto simp: set_qsort_insert)
  qed simp
  show ?thesis unfolding qsort_def by (induction xs) (auto intro: ins)
qed

text \<open>\<^verbatim>\<open>sort\<close>: with a comparator that is a total preorder the list is rearranged into
  ascending order, keeping exactly the same elements; capacity, size and the cells beyond the
  elements do not change.\<close>

theorem ArrayList_sort_correct:
  assumes "al_inv self" and "\<And>a b. compare a b \<le> 0 \<or> compare b a \<le> 0"
    and "\<And>a b c. compare a b \<le> 0 \<Longrightarrow> compare b c \<le> 0 \<Longrightarrow> compare a c \<le> 0"
  shows "mset (al_list (ArrayList_sort self compare)) = mset (al_list self)
    \<and> sorted_wrt (\<lambda>a b. compare a b \<le> 0) (al_list (ArrayList_sort self compare))
    \<and> al_inv (ArrayList_sort self compare)"
proof (cases "al_size self \<le> 1")
  case True
  then have "length (al_list self) \<le> 1" using length_al_list [OF assms(1)] by simp
  then have "sorted_wrt (\<lambda>a b. compare a b \<le> 0) (al_list self)"
    by (cases "al_list self") auto
  with True assms(1) show ?thesis by (simp add: ArrayList_sort_def)
next
  case False
  let ?n = "nat (al_size self)"
  have n: "?n \<le> length (al_items self)" "length (take ?n (al_items self)) = ?n"
    using assms(1) by (auto simp: al_inv_def)
  then have "al_list (ArrayList_sort self compare) = qsort compare (al_list self)"
    using False by (simp add: ArrayList_sort_def al_list_def Let_def)
  moreover have "al_inv (ArrayList_sort self compare)"
    using False n assms(1) by (auto simp: ArrayList_sort_def al_inv_def Let_def)
  ultimately show ?thesis using sorted_qsort [OF assms(2,3)] by (simp add: mset_qsort)
qed

definition demo_cmp :: "ptr \<Rightarrow> ptr \<Rightarrow> int" where
  "demo_cmp p q = (case p of None \<Rightarrow> 0 | Some a \<Rightarrow> int a) - (case q of None \<Rightarrow> 0 | Some b \<Rightarrow> int b)"

theorem ArrayList_sort_correct_witness:
  "mset (al_list (ArrayList_sort
     (demo_al\<lparr>al_items := [Some 2, Some 1], al_size := 2, al_capacity := 2\<rparr>) demo_cmp))
   = {#Some 1, Some 2#}"
proof -
  let ?l = "demo_al\<lparr>al_items := [Some 2, Some 1], al_size := 2, al_capacity := 2\<rparr>"
  have "al_inv ?l" by (simp add: demo_al_def al_inv_def)
  moreover have "\<And>a b. demo_cmp a b \<le> 0 \<or> demo_cmp b a \<le> 0" by (auto simp: demo_cmp_def)
  moreover have "\<And>a b c. demo_cmp a b \<le> 0 \<Longrightarrow> demo_cmp b c \<le> 0 \<Longrightarrow> demo_cmp a c \<le> 0"
    by (auto simp: demo_cmp_def)
  ultimately have "mset (al_list (ArrayList_sort ?l demo_cmp)) = mset (al_list ?l)"
    using ArrayList_sort_correct [of ?l demo_cmp] by blast
  also have "\<dots> = {#Some 1, Some 2#}" by (simp add: demo_al_def al_list_def)
  finally show ?thesis .
qed

fun iter_nexts :: "nat \<Rightarrow> ArrayListIterator \<Rightarrow> ArrayList \<Rightarrow> ptr list \<times> ArrayListIterator" where
  "iter_nexts 0 it list = ([], it)"
| "iter_nexts (Suc n) it list =
     (let (x, it1) = iter_next it list; (xs, it2) = iter_nexts n it1 list in (x # xs, it2))"

lemma iter_nexts_at:
  assumes "al_inv list" and "it_list it \<noteq> None" and "it_currentIndex it = int k"
    and "k \<le> length (al_list list)"
  shows "fst (iter_nexts n it list) =
      take n (drop k (al_list list)) @ replicate (n - (length (al_list list) - k)) None
    \<and> (iter_hasNext (snd (iter_nexts n it list)) list \<longleftrightarrow> k + n < length (al_list list))"
  using assms(2-4)
proof (induction n arbitrary: it k)
  case 0
  then show ?case
    using length_al_list [OF assms(1)] by (simp add: iter_hasNext_def ArrayList_getSize_def) linarith
next
  case (Suc n)
  let ?xs = "al_list list"
  have sz: "al_size list = int (length ?xs)" using length_al_list [OF assms(1)] by simp
  show ?case
  proof (cases "k < length ?xs")
    case True
    let ?it = "it\<lparr>it_currentIndex := int (Suc k)\<rparr>"
    have "int (Suc k) \<le> INT_MAX" using True sz assms(1) by (auto simp: al_inv_def)
    then have step: "iter_next it list = (?xs ! k, ?it)"
      using Suc.prems True sz assms(1)
      by (simp add: iter_next_def iter_hasNext_def ArrayList_getSize_def ArrayList_get_list add.commute)
    have "drop k ?xs = ?xs ! k # drop (Suc k) ?xs" using True by (simp add: Cons_nth_drop_Suc)
    then show ?thesis
      using Suc.IH [of ?it "Suc k"] Suc.prems True step by (auto simp: split_beta)
  next
    case False
    then have step: "iter_next it list = (None, it)"
      using Suc.prems sz by (simp add: iter_next_def iter_hasNext_def ArrayList_getSize_def)
    show ?thesis using Suc.IH [of it k] Suc.prems False step by (auto simp: split_beta)
  qed
qed

text \<open>An iterator that nobody interferes with visits every element once, in order: after
  \<open>n\<close> calls of \<^verbatim>\<open>next\<close> it has returned the first \<open>n\<close> elements, \<^verbatim>\<open>hasNext\<close> holds exactly while
  elements remain, and calls beyond the end return NULL.\<close>

theorem ArrayList_iterator_complete:
  assumes "al_inv list"
  shows "case snd (ArrayList_iterator (Alloc_Ok ()) h list) of None \<Rightarrow> False
    | Some it \<Rightarrow>
        fst (iter_nexts n it list) = take n (al_list list) @ replicate (n - length (al_list list)) None
        \<and> (iter_hasNext (snd (iter_nexts n it list)) list \<longleftrightarrow> n < length (al_list list))"
  using iter_nexts_at [OF assms, of _ 0 n] by (simp add: ArrayList_iterator_def)

theorem ArrayList_iterator_complete_witness:
  "fst (iter_nexts 2 (the (snd (ArrayList_iterator (Alloc_Ok ()) demo_heap
      (demo_al\<lparr>al_items := [Some 2], al_size := 1\<rparr>))))
      (demo_al\<lparr>al_items := [Some 2], al_size := 1\<rparr>)) = [Some 2, None]"
proof -
  let ?l = "demo_al\<lparr>al_items := [Some 2], al_size := 1\<rparr>"
  have l: "al_inv ?l" "al_list ?l = [Some 2]" by (simp_all add: demo_al_def al_inv_def al_list_def)
  from ArrayList_iterator_complete [OF l(1), of 2 demo_heap] l(2) show ?thesis
    by (simp add: ArrayList_iterator_def)
qed

end
