(* ===== verification/Asn1.thy ===== *)
theory Asn1
  imports Core_Prelude
begin

text \<open>
  \<^verbatim>\<open>src/src/asn1.c\<close>: the BER subset of the SNMP client. A decoder's \<^verbatim>\<open>ptr\<close>/\<^verbatim>\<open>end\<close> pair is the list of
  bytes between them, so that \<^verbatim>\<open>ASN_FITS(ptr, n, end)\<close> is \<open>n \<le> length xs\<close>; it returns the value and
  the bytes behind it, \<open>None\<close> for NULL. An encoder gets the room \<open>cap = end - *p\<close> and returns its result
  with the bytes by which \<^verbatim>\<open>*p\<close> advanced, which on failure may be a partial encoding.
\<close>

abbreviation ASN1_INTEGER :: byte where "ASN1_INTEGER \<equiv> 0x02"
abbreviation ASN1_OCTET_STRING :: byte where "ASN1_OCTET_STRING \<equiv> 0x04"
abbreviation ASN1_OBJECT_ID :: byte where "ASN1_OBJECT_ID \<equiv> 0x06"
abbreviation ASN1_IPADDRESS :: byte where "ASN1_IPADDRESS \<equiv> 0x40"
abbreviation ASN1_COUNTER32 :: byte where "ASN1_COUNTER32 \<equiv> 0x41"
abbreviation ASN1_GAUGE32 :: byte where "ASN1_GAUGE32 \<equiv> 0x42"
abbreviation ASN1_TIMETICKS :: byte where "ASN1_TIMETICKS \<equiv> 0x43"
abbreviation ASN1_COUNTER64 :: byte where "ASN1_COUNTER64 \<equiv> 0x46"

section \<open>Decoders\<close>

text \<open>\<^verbatim>\<open>out_len = (out_len << 8) | *ptr++\<close> for \<open>num\<close> bytes, with its overflow test.\<close>

fun decode_length_loop :: "nat \<Rightarrow> nat \<Rightarrow> byte list \<Rightarrow> (nat \<times> byte list) option" where
  "decode_length_loop 0 out_len xs = Some (out_len, xs)"
| "decode_length_loop (Suc num) out_len xs =
     (if out_len > SIZE_MAX div 2 ^ 8 then None
      else case xs of [] \<Rightarrow> None
           | x # r \<Rightarrow> decode_length_loop num (out_len * 2 ^ 8 mod (SIZE_MAX + 1) + unat x) r)"

definition asn1_decode_length :: "byte list \<Rightarrow> (nat \<times> byte list) option" where
  "asn1_decode_length xs =
     (case xs of [] \<Rightarrow> None
      | b # r \<Rightarrow>
          if b < 128 then Some (unat b, r)
          else if b = 0x80 then None
          else let num = unat (b AND 0x7F) in
               if num = 0 \<or> num > 8 \<or> \<not> num \<le> length r then None
               else if num > 1 \<and> hd r = 0 then None
               else case decode_length_loop num 0 r of
                      None \<Rightarrow> None
                    | Some (out_len, r') \<Rightarrow> if out_len < 128 then None else Some (out_len, r'))"

definition asn1_decode_integer :: "byte list \<Rightarrow> (int \<times> byte list) option" where
  "asn1_decode_integer xs =
     (if xs = [] \<or> hd xs \<noteq> ASN1_INTEGER then None
      else case asn1_decode_length (tl xs) of None \<Rightarrow> None
        | Some (len, p) \<Rightarrow>
            if len = 0 \<or> len > 4 \<or> \<not> len \<le> length p then None
            else if len > 1 \<and> (p ! 0 = 0 \<and> p ! 1 AND 0x80 = 0 \<or> p ! 0 = 0xFF \<and> p ! 1 AND 0x80 \<noteq> 0) then None
            else let v = foldl (\<lambda>v b. v * 256 + uint b) (if p ! 0 AND 0x80 \<noteq> 0 then - 1 else 0) (take len p)
                 in if v < INT_MIN \<or> v > INT_MAX then None else Some (v, drop len p))"

text \<open>The two unsigned decoders: \<open>max_len\<close> content bytes at most, \<open>w\<close> bits of result.\<close>

definition decode_unsigned_content :: "nat \<Rightarrow> nat \<Rightarrow> byte list \<Rightarrow> (nat \<times> byte list) option" where
  "decode_unsigned_content max_len w xs =
     (case asn1_decode_length xs of None \<Rightarrow> None
      | Some (len, p) \<Rightarrow>
          if len = 0 \<or> len > max_len \<or> \<not> len \<le> length p then None
          else if len > 1 \<and> p ! 0 = 0 \<and> p ! 1 AND 0x80 = 0 then None
          else if \<not> (len > 1 \<and> p ! 0 = 0) \<and> len = max_len then None
          else let (p', len') = (if len > 1 \<and> p ! 0 = 0 then (tl p, len - 1) else (p, len))
               in Some (foldl (\<lambda>v b. v * 2 ^ 8 mod 2 ^ w + unat b) 0 (take len' p'), drop len' p'))"

definition asn1_decode_unsigned :: "byte list \<Rightarrow> (nat \<times> byte list) option" where
  "asn1_decode_unsigned xs =
     (if xs = [] \<or> hd xs \<noteq> ASN1_COUNTER32 \<and> hd xs \<noteq> ASN1_GAUGE32 \<and> hd xs \<noteq> ASN1_TIMETICKS then None
      else decode_unsigned_content 5 32 (tl xs))"

definition asn1_decode_unsigned64 :: "byte list \<Rightarrow> (nat \<times> byte list) option" where
  "asn1_decode_unsigned64 xs =
     (if xs = [] \<or> hd xs \<noteq> ASN1_COUNTER64 then None else decode_unsigned_content 9 64 (tl xs))"

text \<open>\<^verbatim>\<open>asn1_decode_ip\<close> and \<^verbatim>\<open>asn1_decode_string\<close> write to a caller's buffer of \<open>max_len\<close> bytes: the C
  string it then holds.\<close>

definition asn1_decode_ip :: "byte list \<Rightarrow> nat \<Rightarrow> (cstring \<times> byte list) option" where
  "asn1_decode_ip xs max_len =
     (if xs = [] \<or> max_len = 0 then None
      else if hd xs \<noteq> ASN1_IPADDRESS then None
      else case asn1_decode_length (tl xs) of None \<Rightarrow> None
        | Some (len, p) \<Rightarrow>
            if len \<noteq> 4 \<or> \<not> len \<le> length p then None
            else Some (snprintf max_len (dec_digits (unat (p ! 0)) @ lit ''.'' @ dec_digits (unat (p ! 1)) @ lit ''.''
                         @ dec_digits (unat (p ! 2)) @ lit ''.'' @ dec_digits (unat (p ! 3))), drop len p))"

definition asn1_decode_string :: "byte list \<Rightarrow> nat \<Rightarrow> (byte list \<times> byte list) option" where
  "asn1_decode_string xs max_len =
     (if xs = [] \<or> max_len = 0 then None
      else if hd xs \<noteq> ASN1_OCTET_STRING then None
      else case asn1_decode_length (tl xs) of None \<Rightarrow> None
        | Some (len, p) \<Rightarrow>
            if \<not> len \<le> length p then None
            else let copy_len = (if len < max_len - 1 then len else max_len - 1)
                 in Some (take copy_len p, drop len p))"

text \<open>The first subidentifier: \<open>xs\<close> are the bytes from \<^verbatim>\<open>ptr\<close> to \<^verbatim>\<open>obj_end\<close>.\<close>

fun decode_first_subid :: "nat \<Rightarrow> byte list \<Rightarrow> (nat \<times> byte list) option" where
  "decode_first_subid first_val [] = None"
| "decode_first_subid first_val (b # r) =
     (if first_val > (2 ^ 64 - 1) div 2 ^ 7 then None
      else let first_val = first_val * 2 ^ 7 mod 2 ^ 64 + unat (b AND 0x7F)
           in if b AND 0x80 = 0 then Some (first_val, r) else decode_first_subid first_val r)"

definition split_first_subid :: "nat \<Rightarrow> (nat \<times> nat) option" where
  "split_first_subid first_val =
     (if first_val < 40 then Some (0, first_val)
      else if first_val < 80 then Some (1, first_val - 40)
      else if first_val - 80 > 2 ^ 32 - 1 then None else Some (2, first_val - 80))"

text \<open>The loop over the other subidentifiers; \<open>n\<close> is the free room in \<^verbatim>\<open>oids\<close>.\<close>

fun decode_subids :: "nat \<Rightarrow> nat \<Rightarrow> nat \<Rightarrow> nat list \<Rightarrow> byte list \<Rightarrow> nat list option" where
  "decode_subids n val oid_bytes oids [] = (if oid_bytes \<noteq> 0 then None else Some oids)"
| "decode_subids n val oid_bytes oids (b # r) =
     (if n = 0 then None
      else if oid_bytes + 1 > 5 then None
      else if val > (2 ^ 32 - 1) div 2 ^ 7 then None
      else let val = val * 2 ^ 7 mod 2 ^ 32 + unat (b AND 0x7F)
           in if b AND 0x80 = 0 then decode_subids (n - 1) 0 0 (oids @ [val]) r
              else decode_subids n val (oid_bytes + 1) oids r)"

definition asn1_decode_oid :: "byte list \<Rightarrow> nat \<Rightarrow> (nat list \<times> byte list) option" where
  "asn1_decode_oid xs oid_cap =
     (if oid_cap < 2 then None
      else if xs = [] \<or> hd xs \<noteq> ASN1_OBJECT_ID then None
      else case asn1_decode_length (tl xs) of None \<Rightarrow> None
        | Some (len, p) \<Rightarrow>
            if len = 0 \<or> \<not> len \<le> length p then None
            else case decode_first_subid 0 (take len p) of None \<Rightarrow> None
              | Some (first_val, r) \<Rightarrow>
                  (case split_first_subid first_val of None \<Rightarrow> None
                   | Some (x, y) \<Rightarrow>
                       map_option (\<lambda>oids. (oids, drop len p)) (decode_subids (oid_cap - 2) 0 0 [x, y] r)))"

section \<open>Encoders\<close>

text \<open>The bytes of \<open>n\<close>, least significant first, and the length encoding.\<close>

fun le_bytes :: "nat \<Rightarrow> byte list" where
  "le_bytes n = (if n = 0 then [] else of_nat n # le_bytes (n div 256))"

declare le_bytes.simps [simp del]

definition asn1_encode_length :: "nat \<Rightarrow> nat \<Rightarrow> bool \<times> byte list" where
  "asn1_encode_length cap n =
     (if n < 128 then (if \<not> 1 \<le> cap then (False, []) else (True, [of_nat n]))
      else let len_bytes = le_bytes n; num_bytes = length len_bytes
           in if \<not> 1 + num_bytes \<le> cap then (False, [])
              else (True, [0x80 OR of_nat num_bytes] @ rev len_bytes))"

text \<open>The loop that drops redundant leading bytes (never the last one).\<close>

fun strip_signed :: "byte list \<Rightarrow> byte list" where
  "strip_signed (a # b # r) =
     (if a = 0 \<and> b AND 0x80 = 0 then strip_signed (b # r)
      else if a = 0xFF \<and> b AND 0x80 \<noteq> 0 then strip_signed (b # r) else a # b # r)"
| "strip_signed xs = xs"

fun strip_unsigned :: "byte list \<Rightarrow> byte list" where
  "strip_unsigned (a # b # r) = (if a = 0 \<and> b AND 0x80 = 0 then strip_unsigned (b # r) else a # b # r)"
| "strip_unsigned xs = xs"

text \<open>Tag, one length byte, content: the common end of the fixed-width encoders.\<close>

definition encode_short :: "nat \<Rightarrow> byte \<Rightarrow> byte list \<Rightarrow> bool \<times> byte list" where
  "encode_short cap tag content =
     (if \<not> 1 \<le> cap then (False, [])
      else if \<not> 1 + length content \<le> cap - 1 then (False, [tag])
      else (True, [tag, of_nat (length content)] @ content))"

definition asn1_encode_integer :: "nat \<Rightarrow> int \<Rightarrow> bool \<times> byte list" where
  "asn1_encode_integer cap v =
     encode_short cap ASN1_INTEGER
       (strip_signed [of_int (v div 2 ^ 24), of_int (v div 2 ^ 16), of_int (v div 2 ^ 8), of_int v])"

definition asn1_encode_unsigned :: "nat \<Rightarrow> nat \<Rightarrow> byte \<Rightarrow> bool \<times> byte list" where
  "asn1_encode_unsigned cap v tag =
     encode_short cap tag
       (strip_unsigned [0, of_nat (v div 2 ^ 24), of_nat (v div 2 ^ 16), of_nat (v div 2 ^ 8), of_nat v])"

definition asn1_encode_ip :: "nat \<Rightarrow> byte list \<Rightarrow> bool \<times> byte list" where
  "asn1_encode_ip cap ip =
     (if \<not> 6 \<le> cap then (False, []) else (True, [ASN1_IPADDRESS, 4] @ take 4 ip))"

definition asn1_encode_string :: "nat \<Rightarrow> byte list option \<Rightarrow> nat \<Rightarrow> bool \<times> byte list" where
  "asn1_encode_string cap str len =
     (if \<not> 1 \<le> cap then (False, [])
      else case asn1_encode_length (cap - 1) len of
             (ok, lb) \<Rightarrow>
               if \<not> ok then (False, [ASN1_OCTET_STRING])
               else case str of None \<Rightarrow> (True, [ASN1_OCTET_STRING] @ lb)
                    | Some s \<Rightarrow>
                        if len > 0 then
                          (if \<not> len \<le> cap - 1 - length lb then (False, [ASN1_OCTET_STRING] @ lb)
                           else (True, [ASN1_OCTET_STRING] @ lb @ take len s))
                        else (True, [ASN1_OCTET_STRING] @ lb))"

text \<open>The dotted string: \<^verbatim>\<open>strtoul\<close> on a string that starts with a digit reads the digits; its overflow
  (\<^verbatim>\<open>ERANGE\<close>) and a value above 32 bits are both refused.\<close>

definition isdigit :: "byte \<Rightarrow> bool" where
  "isdigit c \<longleftrightarrow> 48 \<le> c \<and> c \<le> 57"

definition strtoul10 :: "cstring \<Rightarrow> nat" where
  "strtoul10 s = foldl (\<lambda>v c. v * 10 + (unat c - 48)) 0 (takeWhile isdigit s)"

function parse_oid :: "nat list \<Rightarrow> cstring \<Rightarrow> nat list option" where
  "parse_oid oids s =
     (if s = [] then Some oids
      else if \<not> length oids < 128 then None
      else if \<not> isdigit (hd s) then None
      else let v = strtoul10 s; s' = dropWhile isdigit s in
           if v > 2 ^ 32 - 1 then None
           else if s' = [] then parse_oid (oids @ [v]) s'
           else if hd s' = ch CHR ''.'' then (if tl s' = [] then None else parse_oid (oids @ [v]) (tl s'))
           else None)"
  by pat_completeness auto
termination
proof (relation "measure (\<lambda>(oids, s). length s)", goal_cases)
  case (2 oids s v s')
  then have "dropWhile isdigit s = dropWhile isdigit (tl s)" by (cases s) auto
  with 2 show ?case using length_dropWhile_le [of isdigit "tl s"] by (cases s) auto
next
  case (3 oids s v s')
  then have "dropWhile isdigit s = dropWhile isdigit (tl s)" by (cases s) auto
  with 3 show ?case using length_dropWhile_le [of isdigit "tl s"] by (cases s) auto
qed simp

declare parse_oid.simps [simp del]

text \<open>Base 128, most significant group first, the high bit set on all but the last byte.\<close>

fun b128_high :: "nat \<Rightarrow> byte list" where
  "b128_high n = (if n = 0 then [] else b128_high (n div 128) @ [of_nat (n mod 128) OR 0x80])"

declare b128_high.simps [simp del]

definition encode_subid :: "nat \<Rightarrow> byte list" where
  "encode_subid n = (if n < 128 then [of_nat n] else b128_high (n div 128) @ [of_nat (n mod 128)])"

fun encode_subids :: "nat \<Rightarrow> nat list \<Rightarrow> byte list option" where
  "encode_subids used [] = Some []"
| "encode_subids used (v # vs) =
     (if 512 - used < 5 then None
      else map_option (\<lambda>r. encode_subid v @ r) (encode_subids (used + length (encode_subid v)) vs))"

definition asn1_encode_oid :: "nat \<Rightarrow> cstring option \<Rightarrow> bool \<times> byte list" where
  "asn1_encode_oid cap oid_str =
     (case oid_str of None \<Rightarrow> (False, [])
      | Some s \<Rightarrow>
          (case parse_oid [] s of None \<Rightarrow> (False, [])
           | Some oids \<Rightarrow>
               if length oids < 2 then (False, [])
               else if oids ! 0 > 2 then (False, [])
               else if oids ! 0 < 2 \<and> oids ! 1 \<ge> 40 then (False, [])
               else if \<not> 1 \<le> cap then (False, [])
               else let first = encode_subid (oids ! 0 * 40 + oids ! 1) in
                    case encode_subids (length first) (drop 2 oids) of
                      None \<Rightarrow> (False, [ASN1_OBJECT_ID])
                    | Some others \<Rightarrow>
                        let temp = first @ others; enc_len = length temp in
                        (case asn1_encode_length (cap - 1) enc_len of
                           (ok, lb) \<Rightarrow>
                             if \<not> ok then (False, [ASN1_OBJECT_ID])
                             else if \<not> enc_len \<le> cap - 1 - length lb then (False, [ASN1_OBJECT_ID] @ lb)
                             else (True, [ASN1_OBJECT_ID] @ lb @ temp))))"

section \<open>Lengths\<close>

text \<open>Big-endian value of a byte list.\<close>

definition be_val :: "nat \<Rightarrow> byte list \<Rightarrow> nat" where
  "be_val v xs = foldl (\<lambda>v b. v * 256 + unat b) v xs"

lemma be_val_Nil [simp]: "be_val v [] = v"
  by (simp add: be_val_def)

lemma be_val_Cons [simp]: "be_val v (x # xs) = be_val (v * 256 + unat x) xs"
  by (simp add: be_val_def)

lemma be_val_append: "be_val v (xs @ ys) = be_val (be_val v xs) ys"
  by (simp add: be_val_def)

lemma be_val_mono: "v \<le> be_val v xs"
proof (induction xs arbitrary: v)
  case (Cons x xs)
  have "v \<le> v * 256 + unat x" by simp
  also have "\<dots> \<le> be_val (v * 256 + unat x) xs" by (rule Cons.IH)
  finally show ?case by simp
qed simp

lemma be_val_le_bytes: "be_val 0 (rev (le_bytes n)) = n"
proof (induction n rule: le_bytes.induct)
  case (1 n)
  show ?case
  proof (cases "n = 0")
    case False
    with 1 have "be_val 0 (rev (le_bytes (n div 256))) = n div 256" by simp
    with False show ?thesis by (subst le_bytes.simps) (simp add: be_val_append unat_of_nat)
  qed (simp add: le_bytes.simps)
qed

lemma le_bytes_length: "n < 256 ^ k \<Longrightarrow> length (le_bytes n) \<le> k"
proof (induction k arbitrary: n)
  case (Suc k)
  then have "n div 256 < 256 ^ k" by (simp add: less_mult_imp_div_less mult.commute)
  with Suc.IH show ?case by (subst le_bytes.simps) simp
qed (simp add: le_bytes.simps)

lemma le_bytes_last: "n \<noteq> 0 \<Longrightarrow> le_bytes n \<noteq> [] \<and> last (le_bytes n) \<noteq> 0"
proof (induction n rule: le_bytes.induct)
  case (1 n)
  show ?case
  proof (cases "n div 256 = 0")
    case True
    then have "n < 256" by (simp add: div_eq_0_iff)
    with 1(2) have "(of_nat n :: byte) \<noteq> 0" by (simp add: byte_eq_nat unat_of_nat)
    with 1(2) True show ?thesis by (subst le_bytes.simps, subst (2) le_bytes.simps) (simp add: le_bytes.simps [of 0])
  next
    case False
    with 1 have "le_bytes (n div 256) \<noteq> [] \<and> last (le_bytes (n div 256)) \<noteq> 0" by simp
    with 1(2) show ?thesis by (subst le_bytes.simps, subst (2) le_bytes.simps) simp
  qed
qed

lemma decode_length_loop_be_val:
  "be_val v ys \<le> SIZE_MAX \<Longrightarrow> decode_length_loop (length ys) v (ys @ rest) = Some (be_val v ys, rest)"
proof (induction ys arbitrary: v)
  case (Cons y ys)
  have "v * 256 + unat y \<le> SIZE_MAX" using be_val_mono [of "v * 256 + unat y" ys] Cons.prems by simp
  then have "\<not> v > SIZE_MAX div 2 ^ 8" "v * 2 ^ 8 mod (SIZE_MAX + 1) = v * 256" by simp_all
  with Cons show ?case by simp
qed simp

lemma asn1_length_roundtrip:
  assumes "asn1_encode_length cap n = (True, bs)" and "n \<le> SIZE_MAX"
  shows "asn1_decode_length (bs @ rest) = Some (n, rest) \<and> length bs \<le> cap"
proof (cases "n < 128")
  case True
  with assms show ?thesis
    by (auto simp: asn1_encode_length_def asn1_decode_length_def word_less_nat_alt unat_of_nat split: if_splits)
next
  case False
  let ?lb = "le_bytes n" and ?k = "length (le_bytes n)"
  have k: "?k \<le> 8" using assms(2) by (intro le_bytes_length) simp
  have lst: "?lb \<noteq> []" "last ?lb \<noteq> 0" using le_bytes_last [of n] False by auto
  have bs: "bs = [0x80 OR of_nat ?k] @ rev ?lb" "1 + ?k \<le> cap"
    using assms(1) False by (auto simp: asn1_encode_length_def Let_def split: if_splits)
  have u: "unat (of_nat ?k :: byte) = ?k" using k by (simp add: unat_of_nat)
  have h: "unat (0x80 OR of_nat ?k :: byte) = 128 + ?k" using or_0x80 [of "of_nat ?k"] u k by simp
  have b: "\<not> (0x80 OR of_nat ?k :: byte) < 128" "(0x80 OR of_nat ?k :: byte) \<noteq> 0x80"
    "unat ((0x80 OR of_nat ?k :: byte) AND 0x7F) = ?k"
    using h lst(1) k by (simp_all add: word_less_nat_alt byte_eq_nat and_0x7F)
  have "hd (rev ?lb @ rest) \<noteq> 0" using lst by (simp add: hd_append hd_rev)
  moreover have "decode_length_loop ?k 0 (rev ?lb @ rest) = Some (n, rest)"
    using decode_length_loop_be_val [of 0 "rev ?lb" rest] assms(2) by (simp add: be_val_le_bytes)
  ultimately show ?thesis
    using False bs k b lst(1) unfolding asn1_decode_length_def bs(1) by (simp add: Let_def)
qed

section \<open>Integers\<close>

text \<open>Two's complement value, and what stripping keeps.\<close>

definition sv :: "byte list \<Rightarrow> int" where
  "sv xs = foldl (\<lambda>v b. v * 256 + uint b) (if hd xs AND 0x80 \<noteq> 0 then - 1 else 0) xs"

definition redundant_signed :: "byte list \<Rightarrow> bool" where
  "redundant_signed xs \<longleftrightarrow> length xs > 1 \<and>
     (xs ! 0 = 0 \<and> xs ! 1 AND 0x80 = 0 \<or> xs ! 0 = 0xFF \<and> xs ! 1 AND 0x80 \<noteq> 0)"

lemma strip_signed_spec:
  "xs \<noteq> [] \<Longrightarrow> sv (strip_signed xs) = sv xs \<and> strip_signed xs \<noteq> [] \<and> \<not> redundant_signed (strip_signed xs)
     \<and> length (strip_signed xs) \<le> length xs"
  by (induction xs rule: strip_signed.induct) (auto simp: sv_def redundant_signed_def and_0x80)

lemma uint_of_int_byte: "uint (of_int v :: byte) = v mod 256"
  by (simp add: uint_word_of_int)

lemma sv_bytes:
  assumes "INT_MIN \<le> v" and "v \<le> INT_MAX"
  shows "sv [of_int (v div 2 ^ 24), of_int (v div 2 ^ 16), of_int (v div 2 ^ 8), of_int v] = v"
proof -
  define a b c where "a = v div 256" and "b = a div 256" and "c = b div 256"
  have d: "v div 2 ^ 8 = a" "v div 2 ^ 16 = b" "v div 2 ^ 24 = c"
    by (simp_all add: a_def b_def c_def zdiv_zmult2_eq flip: div_mult2_eq)
  have e: "v = a * 256 + v mod 256" "a = b * 256 + a mod 256" "b = c * 256 + b mod 256"
    by (simp_all add: a_def b_def c_def)
  have c: "- 128 \<le> c" "c < 128" using assms e by linarith+
  have m: "c mod 256 = (if 0 \<le> c then c else c + 256)"
    using c mod_pos_pos_trivial [of "c + 256" 256] by auto
  have "unat (of_int c :: byte) < 128 \<longleftrightarrow> 0 \<le> c"
  proof -
    have u: "uint (of_int c :: byte) = (if 0 \<le> c then c else c + 256)" by (simp add: uint_of_int_byte m)
    have "uint (of_int c :: byte) = int (unat (of_int c :: byte))" by simp
    then have "unat (of_int c :: byte) < 128 \<longleftrightarrow> uint (of_int c :: byte) < 128" by linarith
    also have "\<dots> \<longleftrightarrow> 0 \<le> c" using u c by auto
    finally show ?thesis .
  qed
  moreover note m
  ultimately have "(if hd [of_int c :: byte] AND 0x80 \<noteq> 0 then - 1 else 0) * 256 + uint (of_int c :: byte) = c"
    by (simp add: and_0x80 uint_of_int_byte)
  then show ?thesis unfolding d sv_def using e by (simp add: uint_of_int_byte)
qed

lemma asn1_decode_length_short: "n < 128 \<Longrightarrow> asn1_decode_length (of_nat n # xs) = Some (n, xs)"
  by (simp add: asn1_decode_length_def word_less_nat_alt unat_of_nat)

lemma encode_short_True:
  "encode_short cap tag content = (True, bs) \<Longrightarrow> bs = [tag, of_nat (length content)] @ content \<and> length bs \<le> cap"
  by (auto simp: encode_short_def split: if_splits)

lemma asn1_integer_roundtrip:
  assumes "INT_MIN \<le> v" "v \<le> INT_MAX" and "asn1_encode_integer cap v = (True, bs)"
  shows "asn1_decode_integer (bs @ rest) = Some (v, rest) \<and> length bs \<le> cap"
proof -
  let ?xs = "[of_int (v div 2 ^ 24), of_int (v div 2 ^ 16), of_int (v div 2 ^ 8), of_int v] :: byte list"
  let ?c = "strip_signed ?xs"
  have s: "sv ?c = v" "?c \<noteq> []" "\<not> redundant_signed ?c" "length ?c \<le> 4"
    using strip_signed_spec [of ?xs] sv_bytes [OF assms(1,2)] by auto
  obtain c where c: "?c = c" by blast
  have bs: "bs = [ASN1_INTEGER, of_nat (length c)] @ c" "length bs \<le> cap"
    using encode_short_True assms(3) c by (auto simp: asn1_encode_integer_def)
  have nth: "(c @ rest) ! 0 = hd c" "length c > 1 \<Longrightarrow> (c @ rest) ! 1 = c ! 1" "c ! 0 = hd c"
    using s(2) c by (auto simp: nth_append hd_conv_nth)
  show ?thesis
    using s bs nth assms(1,2) unfolding c bs(1) asn1_decode_integer_def
    by (auto simp: asn1_decode_length_short redundant_signed_def sv_def Let_def)
qed

section \<open>Unsigned integers\<close>

definition redundant_unsigned :: "byte list \<Rightarrow> bool" where
  "redundant_unsigned xs \<longleftrightarrow> length xs > 1 \<and> xs ! 0 = 0 \<and> xs ! 1 AND 0x80 = 0"

lemma strip_unsigned_spec:
  "xs \<noteq> [] \<Longrightarrow> be_val 0 (strip_unsigned xs) = be_val 0 xs \<and> strip_unsigned xs \<noteq> []
     \<and> \<not> redundant_unsigned (strip_unsigned xs) \<and> length (strip_unsigned xs) \<le> length xs
     \<and> (length (strip_unsigned xs) = length xs \<longrightarrow> strip_unsigned xs = xs)"
proof (induction xs rule: strip_unsigned.induct)
  case (1 a b r)
  show ?case
  proof (cases "a = 0 \<and> b AND 0x80 = 0")
    case True
    with 1 have "length (strip_unsigned (b # r)) \<le> length (b # r)" by simp
    with 1 True show ?thesis by auto
  next
    case False
    then show ?thesis by (auto simp: redundant_unsigned_def)
  qed
qed (auto simp: redundant_unsigned_def)

lemma be_val_mod:
  "be_val v xs < 2 ^ w \<Longrightarrow> foldl (\<lambda>v b. v * 2 ^ 8 mod 2 ^ w + unat b) v xs = be_val v xs"
proof (induction xs arbitrary: v)
  case (Cons x xs)
  have "v * 256 + unat x < 2 ^ w" using be_val_mono [of "v * 256 + unat x" xs] Cons.prems by simp
  then have "v * 2 ^ 8 mod 2 ^ w = v * 256" by simp
  with Cons show ?case by simp
qed simp

lemma be_val_unsigned_bytes:
  assumes "v < 2 ^ 32"
  shows "be_val 0 [0, of_nat (v div 2 ^ 24), of_nat (v div 2 ^ 16), of_nat (v div 2 ^ 8), of_nat v] = v"
proof -
  define a b c where "a = v div 256" and "b = a div 256" and "c = b div 256"
  have d: "v div 2 ^ 8 = a" "v div 2 ^ 16 = b" "v div 2 ^ 24 = c"
    by (simp_all add: a_def b_def c_def flip: div_mult2_eq)
  have e: "v = a * 256 + v mod 256" "a = b * 256 + a mod 256" "b = c * 256 + b mod 256"
    by (simp_all add: a_def b_def c_def)
  have "c < 256" using assms e by simp
  then have "c mod 256 = c" by simp
  then show ?thesis unfolding d using e by (simp add: unat_of_nat)
qed

lemma asn1_unsigned_roundtrip:
  assumes "v < 2 ^ 32" and "tag \<in> {ASN1_COUNTER32, ASN1_GAUGE32, ASN1_TIMETICKS}"
    and "asn1_encode_unsigned cap v tag = (True, bs)"
  shows "asn1_decode_unsigned (bs @ rest) = Some (v, rest) \<and> length bs \<le> cap"
proof -
  let ?xs = "[0, of_nat (v div 2 ^ 24), of_nat (v div 2 ^ 16), of_nat (v div 2 ^ 8), of_nat v] :: byte list"
  obtain c where c: "strip_unsigned ?xs = c" by blast
  have s: "be_val 0 c = v" "c \<noteq> []" "\<not> redundant_unsigned c" "length c \<le> 5" "length c = 5 \<longrightarrow> hd c = 0"
    using strip_unsigned_spec [of ?xs] be_val_unsigned_bytes [OF assms(1)] c by auto
  have bs: "bs = [tag, of_nat (length c)] @ c" "length bs \<le> cap"
    using encode_short_True assms(3) c by (auto simp: asn1_encode_unsigned_def)
  obtain x ys where x: "c = x # ys" using s(2) by (cases c) auto
  have top: "asn1_decode_unsigned (bs @ rest) = decode_unsigned_content 5 32 (of_nat (length c) # c @ rest)"
    using assms(2) bs(1) by (auto simp: asn1_decode_unsigned_def)
  have dl: "asn1_decode_length (of_nat (length c) # c @ rest) = Some (length c, c @ rest)"
    using s(4) by (simp add: asn1_decode_length_short)
  have "decode_unsigned_content 5 32 (of_nat (length c) # c @ rest) = Some (v, rest)"
  proof (cases "ys \<noteq> [] \<and> x = 0")
    case True
    then obtain y zs where y: "ys = y # zs" by (cases ys) auto
    have "foldl (\<lambda>v b. v * 2 ^ 8 mod 2 ^ 32 + unat b) 0 ys = v"
      using s(1) be_val_mod [of 0 ys 32] assms(1) x True by simp
    moreover have "y AND 0x80 \<noteq> 0" using s(3) x y True by (simp add: redundant_unsigned_def)
    ultimately show ?thesis unfolding decode_unsigned_content_def dl using x y True s(4) by simp
  next
    case False
    have "foldl (\<lambda>v b. v * 2 ^ 8 mod 2 ^ 32 + unat b) 0 c = v"
      using s(1) be_val_mod [of 0 c 32] assms(1) by simp
    moreover have "length c \<noteq> 5" using s(5) x False by auto
    ultimately show ?thesis unfolding decode_unsigned_content_def dl using x False s(4) by auto
  qed
  with top bs(2) show ?thesis by simp
qed

section \<open>Object identifiers\<close>

lemma b128_high_length: "n < 128 ^ k \<Longrightarrow> length (b128_high n) \<le> k"
proof (induction k arbitrary: n)
  case (Suc k)
  then have "n div 128 < 128 ^ k" by (simp add: less_mult_imp_div_less mult.commute)
  with Suc.IH show ?case by (subst b128_high.simps) simp
qed (simp add: b128_high.simps)

lemma high_byte: "n < 128 \<Longrightarrow> unat (of_nat n OR 0x80 :: byte) = 128 + n"
proof -
  assume n: "n < 128"
  then have "unat (of_nat n :: byte) = n" by (simp add: unat_of_nat)
  with n or_0x80 [of "of_nat n"] show ?thesis by (simp add: or.commute)
qed

text \<open>Reading the high groups of \<open>n\<close>, in both decoders.\<close>

lemma decode_first_high:
  "n < 2 ^ 57 \<Longrightarrow> decode_first_subid 0 (b128_high n @ r) = decode_first_subid n r"
proof (induction n arbitrary: r rule: b128_high.induct)
  case (1 n)
  show ?case
  proof (cases "n = 0")
    case True
    then show ?thesis by (simp add: b128_high.simps)
  next
    case False
    have q: "n div 128 < 2 ^ 57" "n div 128 * 128 < 2 ^ 64" using 1(2) by simp_all
    let ?b = "of_nat (n mod 128) OR 0x80 :: byte"
    have b: "unat ?b = 128 + n mod 128" by (rule high_byte) simp
    have "decode_first_subid 0 (b128_high n @ r) = decode_first_subid (n div 128) (?b # r)"
      using 1(1) [OF False q(1), of "?b # r"] False by (subst b128_high.simps) simp
    also have "\<dots> = decode_first_subid n r"
      using q by (simp add: and_0x80 and_0x7F b)
    finally show ?thesis .
  qed
qed

lemma decode_first_encode:
  assumes "n < 2 ^ 60"
  shows "decode_first_subid 0 (encode_subid n @ r) = Some (n, r)"
proof (cases "n < 128")
  case True
  then show ?thesis by (simp add: encode_subid_def and_0x80 and_0x7F unat_of_nat)
next
  case False
  have q: "n div 128 < 2 ^ 57" "n div 128 * 128 < 2 ^ 64" using assms by simp_all
  have "n mod 128 < 128" by simp
  then have u: "unat (of_nat (n mod 128) :: byte) = n mod 128" by (simp add: unat_of_nat)
  show ?thesis
    using False decode_first_high [OF q(1), of "of_nat (n mod 128) # r"] q(2)
    by (simp add: encode_subid_def and_0x80 and_0x7F u)
qed

lemma decode_subids_high:
  "v < 2 ^ 32 div 128 \<Longrightarrow> 0 < n \<Longrightarrow> decode_subids n 0 0 os (b128_high v @ r) =
     decode_subids n v (length (b128_high v)) os r"
proof (induction v arbitrary: r rule: b128_high.induct)
  case (1 v)
  show ?case
  proof (cases "v = 0")
    case True
    then show ?thesis by (simp add: b128_high.simps)
  next
    case False
    have q: "v div 128 < 2 ^ 32 div 128" "v div 128 * 128 < 2 ^ 32" "v div 128 < 128 ^ 3" using 1(2) by simp_all
    let ?b = "of_nat (v mod 128) OR 0x80 :: byte"
    have b: "unat ?b = 128 + v mod 128" by (rule high_byte) simp
    have len: "length (b128_high (v div 128)) \<le> 3" by (rule b128_high_length [OF q(3)])
    have l: "b128_high v = b128_high (v div 128) @ [?b]" using False by (subst b128_high.simps) simp
    have "decode_subids n 0 0 os (b128_high v @ r) =
        decode_subids n (v div 128) (length (b128_high (v div 128))) os (?b # r)"
      unfolding l using 1(1) [OF False q(1) 1(3), of "?b # r"] by simp
    also have "\<dots> = decode_subids n v (length (b128_high v)) os r"
      unfolding l using q len 1(3) by (simp add: and_0x80 and_0x7F b)
    finally show ?thesis .
  qed
qed

lemma decode_subids_one:
  assumes "v < 2 ^ 32" and "0 < n"
  shows "decode_subids n 0 0 os (encode_subid v @ r) = decode_subids (n - 1) 0 0 (os @ [v]) r"
proof (cases "v < 128")
  case True
  with assms(2) show ?thesis by (simp add: encode_subid_def and_0x80 and_0x7F unat_of_nat)
next
  case False
  have q: "v div 128 < 2 ^ 32 div 128" "v div 128 * 128 < 2 ^ 32" "v div 128 < 128 ^ 4" using assms(1) by simp_all
  have len: "length (b128_high (v div 128)) \<le> 4" by (rule b128_high_length [OF q(3)])
  have "v mod 128 < 128" by simp
  then have u: "unat (of_nat (v mod 128) :: byte) = v mod 128" by (simp add: unat_of_nat)
  show ?thesis
    using False decode_subids_high [OF q(1) assms(2), of os "of_nat (v mod 128) # r"] q(2) len assms(2)
    by (simp add: encode_subid_def and_0x80 and_0x7F u)
qed

lemma decode_subids_encode:
  "encode_subids used vs = Some bs \<Longrightarrow> \<forall>v \<in> set vs. v < 2 ^ 32 \<Longrightarrow> length vs \<le> n \<Longrightarrow>
     decode_subids n 0 0 os bs = Some (os @ vs)"
proof (induction vs arbitrary: used n os bs)
  case (Cons v vs)
  then obtain r where r: "bs = encode_subid v @ r" "encode_subids (used + length (encode_subid v)) vs = Some r"
    by (auto split: if_splits)
  with Cons decode_subids_one [of v n os r] show ?case by auto
qed simp

lemma parse_oid_bound: "parse_oid os s = Some vs \<Longrightarrow> \<forall>v \<in> set os. v < 2 ^ 32 \<Longrightarrow> \<forall>v \<in> set vs. v < 2 ^ 32"
proof (induction s arbitrary: os rule: length_induct)
  case (1 s)
  show ?case
  proof (cases "s = []")
    case True
    with 1 show ?thesis by (simp add: parse_oid.simps)
  next
    case False
    let ?s = "dropWhile isdigit s" and ?v = "strtoul10 s"
    have d: "isdigit (hd s)" "?v < 2 ^ 32" "?s = [] \<or> ?s \<noteq> []"
      "parse_oid (os @ [?v]) (if ?s = [] then ?s else tl ?s) = Some vs"
      using 1(2) False by (auto simp: parse_oid.simps [of os s] Let_def split: if_splits)
    have "dropWhile isdigit s = dropWhile isdigit (tl s)" using d(1) False by (cases s) auto
    then have "length ?s < length s" using length_dropWhile_le [of isdigit "tl s"] False by (cases s) auto
    then have "length (if ?s = [] then ?s else tl ?s) < length s" by auto
    moreover have "\<forall>v \<in> set (os @ [?v]). v < 2 ^ 32" using d(2) 1(3) by simp
    ultimately show ?thesis using 1(1) d(4) by blast
  qed
qed

lemma encode_subids_length: "encode_subids used vs = Some bs \<Longrightarrow> used \<le> 512 \<Longrightarrow> \<forall>v \<in> set vs. v < 2 ^ 32 \<Longrightarrow> used + length bs \<le> 512"
proof (induction vs arbitrary: used bs)
  case (Cons v vs)
  then obtain r where r: "bs = encode_subid v @ r" "encode_subids (used + length (encode_subid v)) vs = Some r"
    and used: "used + 5 \<le> 512" by (auto split: if_splits)
  have "v < 2 ^ 32" using Cons.prems(3) by simp
  then have "v div 128 < 128 ^ 4" by simp
  then have "length (encode_subid v) \<le> 5" using b128_high_length [of "v div 128" 4] by (simp add: encode_subid_def)
  with Cons.IH [OF r(2)] Cons.prems(3) r(1) used show ?case by simp
qed simp

lemma split_first_subid_ok:
  assumes "x \<le> 2" and "x < 2 \<Longrightarrow> y < 40" and "y < 2 ^ 32"
  shows "split_first_subid (x * 40 + y) = Some (x, y)"
proof -
  consider "x = 0" | "x = 1" | "x = 2" using assms(1) by linarith
  then show ?thesis using assms(2,3) by cases (auto simp: split_first_subid_def)
qed

lemma asn1_oid_roundtrip:
  assumes "parse_oid [] s = Some vs" and "asn1_encode_oid cap (Some s) = (True, bs)"
    and "length vs \<le> oid_cap"
  shows "asn1_decode_oid (bs @ rest) oid_cap = Some (vs, rest) \<and> length bs \<le> cap"
proof -
  obtain others lb where g: "length vs \<ge> 2" "vs ! 0 \<le> 2" "vs ! 0 < 2 \<Longrightarrow> vs ! 1 < 40"
    and o: "encode_subids (length (encode_subid (vs ! 0 * 40 + vs ! 1))) (drop 2 vs) = Some others"
    and l: "asn1_encode_length (cap - 1) (length (encode_subid (vs ! 0 * 40 + vs ! 1) @ others)) = (True, lb)"
    and fit: "length (encode_subid (vs ! 0 * 40 + vs ! 1) @ others) \<le> cap - 1 - length lb" "1 \<le> cap"
    and bs: "bs = [ASN1_OBJECT_ID] @ lb @ encode_subid (vs ! 0 * 40 + vs ! 1) @ others"
    using assms(1,2) by (auto simp: asn1_encode_oid_def Let_def not_less split: if_splits option.splits prod.splits)
  let ?f = "vs ! 0 * 40 + vs ! 1"
  have b: "\<forall>v \<in> set vs. v < 2 ^ 32" using parse_oid_bound [OF assms(1)] by simp
  then have y: "vs ! 1 < 2 ^ 32" using g(1) by simp
  have f: "?f < 2 ^ 33" using y g(2) by simp
  have "?f div 128 < 128 ^ 4" using f by simp
  then have fl: "length (encode_subid ?f) \<le> 5" using b128_high_length [of "?f div 128" 4] by (simp add: encode_subid_def)
  have bd: "\<forall>v \<in> set (drop 2 vs). v < 2 ^ 32" using b by (meson in_set_dropD)
  have small: "length (encode_subid ?f @ others) \<le> SIZE_MAX"
    using encode_subids_length [OF o _ bd] fl by simp
  have dl: "asn1_decode_length (lb @ (encode_subid ?f @ others) @ rest) =
      Some (length (encode_subid ?f @ others), (encode_subid ?f @ others) @ rest)" "length lb \<le> cap - 1"
    using asn1_length_roundtrip [OF l small] by auto
  have first: "decode_first_subid 0 (encode_subid ?f @ others) = Some (?f, others)"
    using decode_first_encode [of ?f others] f by simp
  have sp: "split_first_subid ?f = Some (vs ! 0, vs ! 1)" by (rule split_first_subid_ok [OF g(2,3) y])
  have vs: "vs = [vs ! 0, vs ! 1] @ drop 2 vs"
    using g(1) by (cases vs; cases "tl vs") auto
  have sub: "decode_subids (oid_cap - 2) 0 0 [vs ! 0, vs ! 1] others = Some vs"
    using decode_subids_encode [OF o bd, of "oid_cap - 2" "[vs ! 0, vs ! 1]"] assms(3) vs by simp
  have ne: "encode_subid ?f \<noteq> []" by (simp add: encode_subid_def)
  have "asn1_decode_oid (bs @ rest) oid_cap = Some (vs, rest)"
    using dl(1) first sp sub ne g(1) assms(3) by (simp add: asn1_decode_oid_def bs)
  moreover have "length bs \<le> cap" using bs fit dl(2) by simp
  ultimately show ?thesis by simp
qed

section \<open>Only the minimal encodings are accepted\<close>

lemma be_val_bound: "be_val v xs < (v + 1) * 256 ^ length xs"
proof (induction xs arbitrary: v)
  case (Cons x xs)
  have x: "unat x < 256" by (rule byte_unat_less)
  have "be_val (v * 256 + unat x) xs < (v * 256 + unat x + 1) * 256 ^ length xs" by (rule Cons.IH)
  also have "\<dots> \<le> ((v + 1) * 256) * 256 ^ length xs" using x by (intro mult_right_mono) auto
  finally show ?case by (simp add: algebra_simps)
qed simp

lemma le_bytes_be_val: "hd (xs @ [1]) \<noteq> 0 \<Longrightarrow> le_bytes (be_val 0 xs) = rev xs"
proof (induction xs rule: rev_induct)
  case Nil
  then show ?case by (simp add: le_bytes.simps)
next
  case (snoc x xs)
  have x: "unat x < 256" by (rule byte_unat_less)
  let ?v = "be_val 0 xs"
  have v: "be_val 0 (xs @ [x]) = ?v * 256 + unat x" by (simp add: be_val_append)
  have "?v * 256 + unat x \<noteq> 0"
  proof (cases xs)
    case Nil
    with snoc.prems show ?thesis by (simp add: unat_eq_0)
  next
    case (Cons y ys)
    with snoc.prems have "unat y \<noteq> 0" by (simp add: unat_eq_0)
    with Cons be_val_mono [of "unat y" ys] show ?thesis by simp
  qed
  moreover have "le_bytes ?v = rev xs"
    using snoc by (cases xs) (simp_all add: le_bytes.simps [of 0])
  moreover have "(of_nat (?v * 256 + unat x) :: byte) = x"
    using x by (simp add: byte_eq_nat unat_of_nat del: of_nat_add of_nat_mult)
  ultimately show ?case unfolding v using x by (subst le_bytes.simps) simp
qed

lemma decode_length_loop_Some:
  "decode_length_loop n v xs = Some (m, r) \<Longrightarrow> \<exists>ys. xs = ys @ r \<and> length ys = n \<and> m = be_val v ys"
proof (induction n v xs rule: decode_length_loop.induct)
  case (2 num v xs)
  then obtain x xs' where x: "xs = x # xs'" "\<not> v > SIZE_MAX div 2 ^ 8"
    by (auto split: if_splits list.splits)
  then have "v * 2 ^ 8 mod (SIZE_MAX + 1) = v * 256" by simp
  with 2 x obtain ys where "xs' = ys @ r" "length ys = num" "m = be_val (v * 256 + unat x) ys"
    by (auto simp: x split: if_splits)
  with x show ?case by (intro exI [of _ "x # ys"]) simp
qed simp

lemma asn1_length_canonical:
  assumes "asn1_decode_length xs = Some (n, rest)"
  shows "n \<le> SIZE_MAX \<and> (\<exists>bs. asn1_encode_length (length xs) n = (True, bs) \<and> xs = bs @ rest)"
proof -
  obtain b r where xs: "xs = b # r" using assms by (auto simp: asn1_decode_length_def split: list.splits)
  show ?thesis
  proof (cases "b < 128")
    case True
    then have "n = unat b" "rest = r" "unat b < 128" using assms xs by (auto simp: asn1_decode_length_def word_less_nat_alt)
    with xs show ?thesis by (simp add: asn1_encode_length_def)
  next
    case False
    let ?k = "unat (b AND 0x7F)"
    from assms False xs have k: "?k \<noteq> 0" "?k \<le> 8" "?k > 1 \<longrightarrow> hd r \<noteq> 0" "128 \<le> n"
      and loop: "decode_length_loop ?k 0 r = Some (n, rest)"
      by (auto simp: asn1_decode_length_def Let_def not_less split: if_splits option.splits)
    obtain ys where ys: "r = ys @ rest" "length ys = ?k" "n = be_val 0 ys"
      using decode_length_loop_Some [OF loop] by blast
    obtain y ys' where y: "ys = y # ys'" using ys(2) k(1) by (cases ys) auto
    have "y \<noteq> 0"
    proof (cases "?k = 1")
      case True
      then show ?thesis using ys y k(4) by auto
    next
      case False
      then show ?thesis using k(1,3) ys(1) y by auto
    qed
    then have lb: "le_bytes n = rev ys" using le_bytes_be_val [of ys] ys(3) y by simp
    have bound: "n < 256 ^ ?k" using be_val_bound [of 0 ys] ys by simp
    also have "\<dots> \<le> 256 ^ 8" using k(2) by (intro power_increasing) auto
    finally have max: "n \<le> SIZE_MAX" by simp
    have "128 \<le> unat b" using False by (simp add: word_less_nat_alt)
    moreover have "unat b < 256" by (rule byte_unat_less)
    ultimately have "unat b = 128 + ?k" using mod_if [of "unat b" 128] mod_less [of "unat b - 128" 128]
      by (simp add: and_0x7F)
    then have b: "b = 0x80 OR of_nat ?k"
      using or_0x80 [of "of_nat ?k"] k(2) by (simp add: byte_eq_nat unat_of_nat)
    have "asn1_encode_length (length xs) n = (True, b # ys)"
      using k(4) lb ys b xs by (simp add: asn1_encode_length_def Let_def)
    with max xs ys show ?thesis by simp
  qed
qed

text \<open>Sign extension to four bytes undoes stripping.\<close>

definition sign_byte :: "byte list \<Rightarrow> byte" where
  "sign_byte xs = (if hd xs AND 0x80 \<noteq> 0 then 0xFF else 0)"

lemma strip_signed_id: "\<not> redundant_signed xs \<Longrightarrow> strip_signed xs = xs"
  by (cases xs rule: strip_signed.cases) (auto simp: redundant_signed_def)

lemma strip_signed_extend:
  "xs \<noteq> [] \<Longrightarrow> \<not> redundant_signed xs \<Longrightarrow> strip_signed (replicate k (sign_byte xs) @ xs) = xs"
proof (induction k)
  case 0
  then show ?case by (simp add: strip_signed_id)
next
  case (Suc k)
  then obtain x ys where x: "xs = x # ys" by (cases xs) auto
  have nx: "\<exists>y zs. replicate k (sign_byte xs) @ xs = y # zs \<and> (y AND 0x80 \<noteq> 0 \<longleftrightarrow> x AND 0x80 \<noteq> 0)"
    using x by (cases k) (auto simp: sign_byte_def)
  then obtain y zs where y: "replicate k (sign_byte xs) @ xs = y # zs" "y AND 0x80 \<noteq> 0 \<longleftrightarrow> x AND 0x80 \<noteq> 0" by blast
  have "strip_signed (sign_byte xs # y # zs) = strip_signed (y # zs)"
    using y(2) x by (cases "x AND 0x80 = 0") (simp_all add: sign_byte_def)
  with Suc y(1) show ?case by simp
qed

lemma sv_extend: "xs \<noteq> [] \<Longrightarrow> sv (replicate k (sign_byte xs) @ xs) = sv xs"
proof (induction k)
  case (Suc k)
  then obtain x ys where x: "xs = x # ys" by (cases xs) auto
  have "hd (replicate k (sign_byte xs) @ xs) AND 0x80 \<noteq> 0 \<longleftrightarrow> x AND 0x80 \<noteq> 0"
    using x by (cases k) (auto simp: sign_byte_def)
  with Suc x show ?case by (auto simp: sv_def sign_byte_def)
qed simp

lemma bytes_of_sv:
  assumes "xs = [a, b, c, d]"
  shows "[of_int (sv xs div 2 ^ 24), of_int (sv xs div 2 ^ 16), of_int (sv xs div 2 ^ 8), of_int (sv xs)] = xs"
proof -
  define s where "s = (if a AND 0x80 \<noteq> 0 then - 1 else 0 :: int)"
  have u: "0 \<le> uint w \<and> uint w < 256" for w :: byte using uint_bounded [of w] by simp
  have v: "sv xs = ((((s * 256 + uint a) * 256 + uint b) * 256 + uint c) * 256 + uint d)"
    using assms by (simp add: sv_def s_def)
  have h: "(q * 256 + uint w) div 256 = q" "(of_int (q * 256 + uint w) :: byte) = w" for q :: int and w :: byte
  proof -
    show "(q * 256 + uint w) div 256 = q" using u [of w] by simp
    have "uint (of_int (q * 256 + uint w) :: byte) = uint w"
      using u [of w] by (simp only: uint_of_int_byte) simp
    then show "(of_int (q * 256 + uint w) :: byte) = w" by (simp only: word_uint_eq_iff)
  qed
  have d: "sv xs div 2 ^ 8 = ((s * 256 + uint a) * 256 + uint b) * 256 + uint c"
    "sv xs div 2 ^ 16 = (s * 256 + uint a) * 256 + uint b" "sv xs div 2 ^ 24 = s * 256 + uint a"
  proof -
    show d8: "sv xs div 2 ^ 8 = ((s * 256 + uint a) * 256 + uint b) * 256 + uint c" 
    proof -
      have "sv xs div 2 ^ 8 = sv xs div 256" by simp
      also have "\<dots> = ((s * 256 + uint a) * 256 + uint b) * 256 + uint c" unfolding v h(1) ..
      finally show ?thesis .
    qed
    have "sv xs div 2 ^ 16 = sv xs div 2 ^ 8 div 256" by (simp add: zdiv_zmult2_eq flip: div_mult2_eq)
    then show d16: "sv xs div 2 ^ 16 = (s * 256 + uint a) * 256 + uint b" unfolding d8 h(1) .
    have "sv xs div 2 ^ 24 = sv xs div 2 ^ 16 div 256" by (simp add: zdiv_zmult2_eq flip: div_mult2_eq)
    then show "sv xs div 2 ^ 24 = s * 256 + uint a" unfolding d16 h(1) .
  qed
  have "of_int (sv xs) = d" "of_int (sv xs div 2 ^ 8) = c" "of_int (sv xs div 2 ^ 16) = b" "of_int (sv xs div 2 ^ 24) = a"
    by (simp only: v h(2)) (simp_all only: d h(2))
  then show ?thesis using assms by simp
qed

lemma asn1_integer_canonical:
  assumes "asn1_decode_integer xs = Some (v, rest)"
  shows "INT_MIN \<le> v \<and> v \<le> INT_MAX \<and> (\<exists>bs. asn1_encode_integer (length xs) v = (True, bs) \<and> xs = bs @ rest)"
proof -
  obtain ys where xs: "xs = ASN1_INTEGER # ys" using assms
    by (cases xs) (auto simp: asn1_decode_integer_def split: if_splits)
  from assms xs obtain len p where dl: "asn1_decode_length ys = Some (len, p)" and len: "0 < len" "len \<le> 4" "len \<le> length p"
    and nr: "\<not> (len > 1 \<and> (p ! 0 = 0 \<and> p ! 1 AND 0x80 = 0 \<or> p ! 0 = 0xFF \<and> p ! 1 AND 0x80 \<noteq> 0))"
    and v: "v = foldl (\<lambda>v b. v * 256 + uint b) (if p ! 0 AND 0x80 \<noteq> 0 then - 1 else 0) (take len p)"
    and rng: "INT_MIN \<le> v" "v \<le> INT_MAX" and rest: "rest = drop len p"
    by (auto simp: asn1_decode_integer_def Let_def split: if_splits option.splits)
  define c where "c = take len p"
  have c: "c \<noteq> []" "length c = len" "hd c = p ! 0" using len by (cases p; auto simp: c_def)+
  have vc: "v = sv c" using v c by (simp add: sv_def c_def)
  have nrc: "\<not> redundant_signed c" using nr c(2) len by (auto simp: redundant_signed_def c_def)
  let ?e = "replicate (4 - len) (sign_byte c) @ c"
  have "length ?e = Suc (Suc (Suc (Suc 0)))" using c(2) len by simp
  then obtain e0 e1 e2 e3 where e: "?e = [e0, e1, e2, e3]" by (auto simp only: length_Suc_conv length_0_conv)
  have "strip_signed [of_int (v div 2 ^ 24), of_int (v div 2 ^ 16), of_int (v div 2 ^ 8), of_int v] = c"
    using bytes_of_sv [OF e] sv_extend [OF c(1), of "4 - len"] strip_signed_extend [OF c(1) nrc, of "4 - len"] vc by simp
  moreover from asn1_length_canonical [OF dl] obtain lb where
    "asn1_encode_length (length ys) len = (True, lb)" "ys = lb @ p" by blast
  then have ys: "ys = of_nat len # c @ rest" using len rest by (auto simp: asn1_encode_length_def c_def split: if_splits)
  ultimately have "asn1_encode_integer (length xs) v = (True, [ASN1_INTEGER, of_nat len] @ c)"
    using xs c(2) len by (simp add: asn1_encode_integer_def encode_short_def)
  with xs ys rng show ?thesis by simp
qed

section \<open>Properties\<close>

text \<open>(C34) BER integers and their canonical form: every 32-bit value that \<^verbatim>\<open>asn1_encode_integer\<close> writes is
  read back by \<^verbatim>\<open>asn1_decode_integer\<close>, with the bytes behind it left over and inside the room given;
  and everything the decoder accepts is exactly what the encoder would have written for that value
  (no redundant sign bytes, no long-form lengths).\<close>

theorem asn1_integer_bijective:
  "(INT_MIN \<le> v \<and> v \<le> INT_MAX \<and> asn1_encode_integer cap v = (True, bs) \<longrightarrow>
      asn1_decode_integer (bs @ rest) = Some (v, rest) \<and> length bs \<le> cap)
   \<and> (asn1_decode_integer xs = Some (w, r) \<longrightarrow>
      INT_MIN \<le> w \<and> w \<le> INT_MAX \<and> (\<exists>bs. asn1_encode_integer (length xs) w = (True, bs) \<and> xs = bs @ r))"
  using asn1_integer_roundtrip asn1_integer_canonical by blast

theorem asn1_integer_bijective_witness:
  "asn1_decode_integer ([2, 2, 0xFF, 0x00] @ [9]) = Some (- 256, [9])
   \<and> (\<exists>bs. asn1_encode_integer 3 5 = (True, bs) \<and> [2, 1, 5] = bs @ [])"
proof -
  have e: "asn1_encode_integer 10 (- 256) = (True, [2, 2, 0xFF, 0x00])"
    by (simp add: asn1_encode_integer_def encode_short_def and_0x80)
  have d: "asn1_decode_integer [2, 1, 5] = Some (5, [])"
    by (simp add: asn1_decode_integer_def asn1_decode_length_def Let_def and_0x80)
  show ?thesis
    using asn1_integer_bijective [of "- 256" 10 "[2, 2, 0xFF, 0x00]" "[9]" "[2, 1, 5]" 5 "[]"] e d by (simp add: numeral_3_eq_3)
qed

text \<open>Lengths, the part all values share: a length that \<^verbatim>\<open>asn1_encode_length\<close> writes is read back
  (short and long form, up to 8 bytes), and \<^verbatim>\<open>asn1_decode_length\<close> accepts only those encodings.\<close>

theorem asn1_length_bijective:
  "(n \<le> SIZE_MAX \<and> asn1_encode_length cap n = (True, bs) \<longrightarrow>
      asn1_decode_length (bs @ rest) = Some (n, rest) \<and> length bs \<le> cap)
   \<and> (asn1_decode_length xs = Some (m, r) \<longrightarrow>
      m \<le> SIZE_MAX \<and> (\<exists>bs. asn1_encode_length (length xs) m = (True, bs) \<and> xs = bs @ r))"
  using asn1_length_roundtrip asn1_length_canonical by blast

theorem asn1_length_bijective_witness:
  "asn1_decode_length ([0x82, 1, 0] @ [7]) = Some (256, [7])
   \<and> (\<exists>bs. asn1_encode_length 3 5 = (True, bs) \<and> [5, 1, 2] = bs @ [1, 2])"
proof -
  have e: "asn1_encode_length 10 256 = (True, [0x82, 1, 0])"
    by (simp add: asn1_encode_length_def le_bytes.simps)
  have d: "asn1_decode_length [5, 1, 2] = Some (5, [1, 2])"
    by (simp add: asn1_decode_length_def and_0x80)
  show ?thesis
    using asn1_length_bijective [of 256 10 "[0x82, 1, 0]" "[7]" "[5, 1, 2]" 5 "[1, 2]"] e d by (simp add: numeral_3_eq_3)
qed

text \<open>Object identifiers round trip: the dotted string that \<^verbatim>\<open>asn1_encode_oid\<close> accepts comes back
  from \<^verbatim>\<open>asn1_decode_oid\<close> as the list of its numbers, when the caller's array has room for them.\<close>

theorem asn1_oid_roundtrips:
  assumes "asn1_encode_oid cap (Some s) = (True, bs)" and "parse_oid [] s = Some vs" and "length vs \<le> oid_cap"
  shows "asn1_decode_oid (bs @ rest) oid_cap = Some (vs, rest) \<and> length bs \<le> cap"
  using asn1_oid_roundtrip [OF assms(2,1,3)] by blast

theorem asn1_oid_roundtrips_witness:
  "asn1_decode_oid ([6, 3, 0x2B, 0x86, 0x48] @ [1]) 128 = Some ([1, 3, 840], [1])"
proof -
  have p: "parse_oid [] (lit ''1.3.840'') = Some [1, 3, 840]"
    by (simp add: parse_oid.simps lit_def isdigit_def strtoul10_def ch_def)
  have "asn1_encode_oid 20 (Some (lit ''1.3.840'')) = (True, [6, 3, 0x2B, 0x86, 0x48])"
    by (simp add: asn1_encode_oid_def p encode_subid_def b128_high.simps asn1_encode_length_def)
  from asn1_oid_roundtrips [OF this p] show ?thesis by simp
qed

text \<open>The remaining SNMP values round trip: counters, gauges and time ticks (every 32-bit value, with
  the extra zero byte for values above 2^31) and octet strings.\<close>

theorem asn1_unsigned_string_roundtrip:
  "(v < 2 ^ 32 \<and> tag \<in> {ASN1_COUNTER32, ASN1_GAUGE32, ASN1_TIMETICKS} \<and> asn1_encode_unsigned cap v tag = (True, bs) \<longrightarrow>
      asn1_decode_unsigned (bs @ rest) = Some (v, rest) \<and> length bs \<le> cap)
   \<and> (length s < max_len \<and> length s \<le> SIZE_MAX \<and> asn1_encode_string cap (Some s) (length s) = (True, ss) \<longrightarrow>
      asn1_decode_string (ss @ rest) max_len = Some (s, rest) \<and> length ss \<le> cap)"
proof (intro conjI impI)
  assume "v < 2 ^ 32 \<and> tag \<in> {ASN1_COUNTER32, ASN1_GAUGE32, ASN1_TIMETICKS} \<and> asn1_encode_unsigned cap v tag = (True, bs)"
  then show "asn1_decode_unsigned (bs @ rest) = Some (v, rest)" "length bs \<le> cap"
    using asn1_unsigned_roundtrip [of v tag cap bs rest] by blast+
next
  assume a: "length s < max_len \<and> length s \<le> SIZE_MAX \<and> asn1_encode_string cap (Some s) (length s) = (True, ss)"
  then obtain lb where l: "asn1_encode_length (cap - 1) (length s) = (True, lb)" "ss = [ASN1_OCTET_STRING] @ lb @ s"
    "length s \<le> cap - 1 - length lb \<or> s = []" "1 \<le> cap"
    by (auto simp: asn1_encode_string_def split: if_splits prod.splits)
  have "asn1_decode_length (lb @ s @ rest) = Some (length s, s @ rest)" "length lb \<le> cap - 1"
    using asn1_length_roundtrip [OF l(1)] a by auto
  with l a show "asn1_decode_string (ss @ rest) max_len = Some (s, rest)" "length ss \<le> cap"
    by (auto simp: asn1_decode_string_def Let_def)
qed

theorem asn1_unsigned_string_roundtrip_witness:
  "asn1_decode_unsigned ([0x41, 5, 0, 0x80, 0, 0, 0] @ [1]) = Some (2147483648, [1])
   \<and> asn1_decode_string ([4, 2, 72, 105] @ [1]) 8 = Some ([72, 105], [1])"
proof -
  have u: "asn1_encode_unsigned 10 2147483648 0x41 = (True, [0x41, 5, 0, 0x80, 0, 0, 0])"
    by (simp add: asn1_encode_unsigned_def encode_short_def and_0x80)
  have t: "asn1_encode_string 10 (Some [72, 105]) (Suc (Suc 0)) = (True, [4, 2, 72, 105])"
    by (simp add: asn1_encode_string_def asn1_encode_length_def)
  show ?thesis
    using asn1_unsigned_string_roundtrip [of 2147483648 "0x41" 10 "[0x41, 5, 0, 0x80, 0, 0, 0]" "[1]" "[72, 105]" 8 "[4, 2, 72, 105]"]
      u t by simp
qed

text \<open>\<^verbatim>\<open>asn1_encode_string\<close> with a NULL string and a positive length succeeds after writing the tag
  and the length but no contents, so the value it leaves does not decode on its own.\<close>

theorem asn1_encode_null_string:
  assumes "0 < n" and "n < 128" and "2 \<le> cap"
  shows "fst (asn1_encode_string cap None n)
    \<and> asn1_decode_string (snd (asn1_encode_string cap None n)) max_len = None"
  using assms by (auto simp: asn1_encode_string_def asn1_encode_length_def asn1_decode_string_def asn1_decode_length_short)

theorem asn1_encode_null_string_witness:
  "fst (asn1_encode_string 16 None 5) \<and> asn1_decode_string (snd (asn1_encode_string 16 None 5)) 64 = None"
  using asn1_encode_null_string [of 5 16 64] by simp

end
