(* ===== verification/Byte_Buffer.thy ===== *)
theory Byte_Buffer
  imports Core_Prelude
begin

text \<open>
  \<^verbatim>\<open>src/src/bytebuffer.c\<close>: the growable read/write byte buffer under sockets, StringBuilder and
  TextEncoder. Unread bytes are \<open>[read_pos, write_pos)\<close>; a write that does not fit first moves
  them to the front and only then grows the memory, by doubling up to \<^verbatim>\<open>BB_MAX_CAPACITY\<close>.
  \<open>bb_content\<close> is the byte stream the buffer holds, \<open>bb_inv\<close> its well-formedness.
\<close>

section \<open>State and operations\<close>

record ByteBuffer =
  bb_data :: "byte list"
  bb_capacity :: nat
  bb_read_pos :: nat
  bb_write_pos :: nat

abbreviation BB_MAX_CAPACITY :: nat where "BB_MAX_CAPACITY \<equiv> 16777216"

definition new_ByteBuffer :: "unit alloc \<Rightarrow> unit alloc \<Rightarrow> nat \<Rightarrow> ByteBuffer option" where
  "new_ByteBuffer mem mem_data capacity =
     (let capacity = (if capacity = 0 then 1024 else capacity)
      in case mem of Alloc_Fail \<Rightarrow> None
         | Alloc_Ok _ \<Rightarrow> (case mem_data of Alloc_Fail \<Rightarrow> None
             | Alloc_Ok _ \<Rightarrow> Some \<lparr>bb_data = replicate capacity 0, bb_capacity = capacity,
                 bb_read_pos = 0, bb_write_pos = 0\<rparr>))"

text \<open>\<^verbatim>\<open>compact\<close>: move the unread bytes to the front (the release build, without \<^verbatim>\<open>DEBUG\<close>).\<close>

definition ByteBuffer_compact :: "ByteBuffer \<Rightarrow> ByteBuffer" where
  "ByteBuffer_compact self =
     (if bb_read_pos self = 0 then self
      else let remaining = bb_write_pos self - bb_read_pos self
           in self\<lparr>bb_data := take remaining (drop (bb_read_pos self) (bb_data self))
                               @ drop remaining (bb_data self),
                   bb_read_pos := 0, bb_write_pos := remaining\<rparr>)"

text \<open>
  The doubling loop; \<open>None\<close> is its \<^verbatim>\<open>return -1\<close>. It is only entered with a positive capacity;
  the test for zero makes the recursion total.
\<close>

function bb_grow :: "nat \<Rightarrow> nat \<Rightarrow> nat option" where
  "bb_grow needed new_cap =
     (if new_cap < needed
      then (if new_cap = 0 \<or> new_cap > BB_MAX_CAPACITY div 2 then None
            else bb_grow needed (new_cap * 2))
      else Some new_cap)"
  by pat_completeness auto
termination
  by (relation "measure (\<lambda>(needed, new_cap). needed - new_cap)") auto

declare bb_grow.simps [simp del]

definition ensure_capacity :: "byte alloc \<Rightarrow> ByteBuffer \<Rightarrow> nat \<Rightarrow> int \<times> ByteBuffer" where
  "ensure_capacity mem self len =
     (if len > SIZE_MAX - bb_write_pos self then (- 1, self)
      else
        let self1 = (if bb_write_pos self + len > bb_capacity self \<and> bb_read_pos self > 0
                     then ByteBuffer_compact self else self);
            needed = bb_write_pos self1 + len
        in if needed \<le> bb_capacity self1 then (0, self1)
           else case bb_grow needed (if bb_capacity self1 = 0 then 1024 else bb_capacity self1) of
                  None \<Rightarrow> (- 1, self1)
                | Some new_cap \<Rightarrow>
                    (case mem of Alloc_Fail \<Rightarrow> (- 1, self1)
                     | Alloc_Ok junk \<Rightarrow>
                         (0, self1\<lparr>bb_data := realloc_cells junk (bb_data self1) new_cap,
                                   bb_capacity := new_cap\<rparr>)))"

text \<open>\<^verbatim>\<open>memcpy(data + pos, xs, n)\<close>.\<close>

definition put_bytes :: "byte list \<Rightarrow> nat \<Rightarrow> byte list \<Rightarrow> byte list" where
  "put_bytes data pos xs = take pos data @ xs @ drop (pos + length xs) data"

definition ByteBuffer_writeByte :: "byte alloc \<Rightarrow> ByteBuffer \<Rightarrow> byte \<Rightarrow> int \<times> ByteBuffer" where
  "ByteBuffer_writeByte mem self b =
     (case ensure_capacity mem self 1 of
        (r, self1) \<Rightarrow>
          if r \<noteq> 0 then (- 1, self1)
          else (0, self1\<lparr>bb_data := (bb_data self1)[bb_write_pos self1 := b],
                         bb_write_pos := bb_write_pos self1 + 1\<rparr>))"

text \<open>Network byte order of a 32-bit value, and back (\<^verbatim>\<open>htonl\<close>/\<^verbatim>\<open>ntohl\<close> around \<^verbatim>\<open>memcpy\<close>).\<close>

definition be32 :: "u32 \<Rightarrow> byte list" where
  "be32 v = [ucast (drop_bit 24 v), ucast (drop_bit 16 v), ucast (drop_bit 8 v), ucast v]"

fun from_be32 :: "byte list \<Rightarrow> u32" where
  "from_be32 (a # b # c # d # _) =
     push_bit 24 (ucast a) OR push_bit 16 (ucast b) OR push_bit 8 (ucast c) OR ucast d"
| "from_be32 _ = 0"

definition ByteBuffer_writeInt32 :: "byte alloc \<Rightarrow> ByteBuffer \<Rightarrow> u32 \<Rightarrow> int \<times> ByteBuffer" where
  "ByteBuffer_writeInt32 mem self v =
     (case ensure_capacity mem self 4 of
        (r, self1) \<Rightarrow>
          if r \<noteq> 0 then (- 1, self1)
          else (0, self1\<lparr>bb_data := put_bytes (bb_data self1) (bb_write_pos self1) (be32 v),
                         bb_write_pos := bb_write_pos self1 + 4\<rparr>))"

text \<open>\<^verbatim>\<open>write\<close>: \<open>buf\<close> is NULL (\<open>None\<close>) or the \<^verbatim>\<open>len\<close> bytes it points to.\<close>

definition ByteBuffer_write :: "byte alloc \<Rightarrow> ByteBuffer \<Rightarrow> byte list option \<Rightarrow> int \<times> ByteBuffer" where
  "ByteBuffer_write mem self buf =
     (case buf of None \<Rightarrow> (0, self)
      | Some xs \<Rightarrow>
          if xs = [] then (0, self)
          else case ensure_capacity mem self (length xs) of
                 (r, self1) \<Rightarrow>
                   if r \<noteq> 0 then (- 1, self1)
                   else (0, self1\<lparr>bb_data := put_bytes (bb_data self1) (bb_write_pos self1) xs,
                                  bb_write_pos := bb_write_pos self1 + length xs\<rparr>))"

definition ByteBuffer_readByte :: "ByteBuffer \<Rightarrow> byte option \<times> ByteBuffer" where
  "ByteBuffer_readByte self =
     (if bb_read_pos self \<ge> bb_write_pos self then (None, self)
      else (Some (bb_data self ! bb_read_pos self), self\<lparr>bb_read_pos := bb_read_pos self + 1\<rparr>))"

definition ByteBuffer_peekInt32 :: "ByteBuffer \<Rightarrow> u32 option" where
  "ByteBuffer_peekInt32 self =
     (if bb_read_pos self + 4 > bb_write_pos self then None
      else Some (from_be32 (take 4 (drop (bb_read_pos self) (bb_data self)))))"

definition ByteBuffer_readInt32 :: "ByteBuffer \<Rightarrow> u32 option \<times> ByteBuffer" where
  "ByteBuffer_readInt32 self =
     (if bb_read_pos self + 4 > bb_write_pos self then (None, self)
      else (Some (from_be32 (take 4 (drop (bb_read_pos self) (bb_data self)))),
            self\<lparr>bb_read_pos := bb_read_pos self + 4\<rparr>))"

text \<open>\<^verbatim>\<open>read\<close>: the bytes copied into the caller's buffer (their number is the result).\<close>

definition ByteBuffer_read :: "ByteBuffer \<Rightarrow> nat \<Rightarrow> byte list \<times> ByteBuffer" where
  "ByteBuffer_read self len =
     (if len = 0 then ([], self)
      else let available = bb_write_pos self - bb_read_pos self;
               len = (if len > available then available else len)
           in (take len (drop (bb_read_pos self) (bb_data self)),
               self\<lparr>bb_read_pos := bb_read_pos self + len\<rparr>))"

text \<open>\<^verbatim>\<open>skip\<close>: the sum \<^verbatim>\<open>read_pos + len\<close> is computed in \<^verbatim>\<open>size_t\<close> and wraps around.\<close>

definition ByteBuffer_skip :: "ByteBuffer \<Rightarrow> nat \<Rightarrow> ByteBuffer" where
  "ByteBuffer_skip self len =
     (let s = (bb_read_pos self + len) mod (SIZE_MAX + 1)
      in self\<lparr>bb_read_pos := (if s > bb_write_pos self then bb_write_pos self else s)\<rparr>)"

function bb_index_from :: "byte list \<Rightarrow> byte \<Rightarrow> nat \<Rightarrow> nat \<Rightarrow> nat option" where
  "bb_index_from data target i write_pos =
     (if i < write_pos
      then (if data ! i = target then Some i else bb_index_from data target (Suc i) write_pos)
      else None)"
  by pat_completeness auto
termination
  by (relation "measure (\<lambda>(data, target, i, write_pos). write_pos - i)") auto

declare bb_index_from.simps [simp del]

definition ByteBuffer_indexOf :: "ByteBuffer \<Rightarrow> byte \<Rightarrow> int" where
  "ByteBuffer_indexOf self target =
     (case bb_index_from (bb_data self) target (bb_read_pos self) (bb_write_pos self) of
        None \<Rightarrow> - 1
      | Some i \<Rightarrow> int (i - bb_read_pos self))"

definition ByteBuffer_rewind :: "ByteBuffer \<Rightarrow> ByteBuffer" where
  "ByteBuffer_rewind self = self\<lparr>bb_read_pos := 0\<rparr>"

definition ByteBuffer_remaining :: "ByteBuffer \<Rightarrow> nat" where
  "ByteBuffer_remaining self = bb_write_pos self - bb_read_pos self"

definition ByteBuffer_writableBytes :: "ByteBuffer \<Rightarrow> nat" where
  "ByteBuffer_writableBytes self = bb_capacity self - bb_write_pos self"

definition ByteBuffer_readSlice ::
  "unit alloc \<Rightarrow> unit alloc \<Rightarrow> byte alloc \<Rightarrow> ByteBuffer \<Rightarrow> nat \<Rightarrow> ByteBuffer option \<times> ByteBuffer" where
  "ByteBuffer_readSlice mem mem_data mem_w self len =
     (let available = bb_write_pos self - bb_read_pos self;
          len = (if len > available then available else len)
      in case new_ByteBuffer mem mem_data len of
           None \<Rightarrow> (None, self)
         | Some out \<Rightarrow>
             (Some (snd (ByteBuffer_write mem_w out
                (Some (take len (drop (bb_read_pos self) (bb_data self)))))),
              self\<lparr>bb_read_pos := bb_read_pos self + len\<rparr>))"

section \<open>Invariant and abstraction\<close>

definition bb_inv :: "ByteBuffer \<Rightarrow> bool" where
  "bb_inv s \<longleftrightarrow> bb_read_pos s \<le> bb_write_pos s \<and> bb_write_pos s \<le> bb_capacity s
     \<and> length (bb_data s) = bb_capacity s \<and> 0 < bb_capacity s \<and> bb_capacity s \<le> SIZE_MAX"

definition bb_content :: "ByteBuffer \<Rightarrow> byte list" where
  "bb_content s = take (bb_write_pos s - bb_read_pos s) (drop (bb_read_pos s) (bb_data s))"

lemma length_bb_content: "bb_inv s \<Longrightarrow> length (bb_content s) = bb_write_pos s - bb_read_pos s"
  by (auto simp: bb_inv_def bb_content_def)

lemma bb_content_alt: "bb_inv s \<Longrightarrow> bb_content s = drop (bb_read_pos s) (take (bb_write_pos s) (bb_data s))"
  by (simp add: bb_content_def bb_inv_def take_drop)

lemma bb_compact_spec:
  assumes "bb_inv s"
  shows "bb_inv (ByteBuffer_compact s) \<and> bb_content (ByteBuffer_compact s) = bb_content s
    \<and> bb_capacity (ByteBuffer_compact s) = bb_capacity s"
  using assms
  by (auto simp: ByteBuffer_compact_def bb_inv_def bb_content_def Let_def min_def)

lemma bb_grow_Some:
  "bb_grow needed c = Some n \<Longrightarrow> 0 < c \<Longrightarrow>
     needed \<le> n \<and> c \<le> n \<and> (n = c \<or> n \<le> BB_MAX_CAPACITY)"
proof (induction needed c rule: bb_grow.induct)
  case (1 needed c)
  show ?case
  proof (cases "c < needed \<and> c \<le> BB_MAX_CAPACITY div 2")
    case True
    with 1 have "bb_grow needed (c * 2) = Some n" by (simp add: bb_grow.simps [of needed c])
    with 1 True have "needed \<le> n \<and> c * 2 \<le> n \<and> (n = c * 2 \<or> n \<le> BB_MAX_CAPACITY)" by simp
    with True show ?thesis by auto
  next
    case False
    with 1 show ?thesis by (auto simp: bb_grow.simps [of needed c] split: if_splits)
  qed
qed

lemma bb_grow_succeeds:
  "0 < c \<Longrightarrow> needed \<le> BB_MAX_CAPACITY div 2 + 1 \<Longrightarrow> \<exists>n. bb_grow needed c = Some n"
proof (induction needed c rule: bb_grow.induct)
  case (1 needed c)
  show ?case
  proof (cases "c < needed")
    case True
    then have "\<not> (c = 0 \<or> c > BB_MAX_CAPACITY div 2)" using "1.prems" by auto
    with 1 True show ?thesis by (simp add: bb_grow.simps [of needed c])
  next
    case False
    then show ?thesis by (simp add: bb_grow.simps [of needed c])
  qed
qed

lemma ensure_capacity_spec:
  assumes "bb_inv s" and "ensure_capacity mem s len = (r, s')"
  shows "bb_inv s'" and "bb_content s' = bb_content s"
    and "r = 0 \<Longrightarrow> bb_write_pos s' + len \<le> bb_capacity s'"
    and "bb_capacity s' = bb_capacity s \<or> bb_capacity s' \<le> BB_MAX_CAPACITY"
    and "r = 0 \<or> r = - 1"
proof -
  let ?s1 = "if bb_write_pos s + len > bb_capacity s \<and> bb_read_pos s > 0
    then ByteBuffer_compact s else s"
  have s1: "bb_inv ?s1" "bb_content ?s1 = bb_content s" "bb_capacity ?s1 = bb_capacity s"
    using assms(1) bb_compact_spec [OF assms(1)] by auto
  have all: "bb_inv s' \<and> bb_content s' = bb_content s
    \<and> (r = 0 \<longrightarrow> bb_write_pos s' + len \<le> bb_capacity s')
    \<and> (bb_capacity s' = bb_capacity s \<or> bb_capacity s' \<le> BB_MAX_CAPACITY) \<and> (r = 0 \<or> r = - 1)"
  proof (cases "len > SIZE_MAX - bb_write_pos s \<or> bb_write_pos ?s1 + len \<le> bb_capacity ?s1")
    case True
    then show ?thesis using assms s1 by (auto simp: ensure_capacity_def Let_def split: if_splits)
  next
    case False
    let ?n = "bb_write_pos ?s1 + len"
    have c: "0 < bb_capacity ?s1" using s1(1) by (simp add: bb_inv_def)
    show ?thesis
    proof (cases "bb_grow ?n (bb_capacity ?s1)")
      case None
      with False c assms(2) have "r = - 1 \<and> s' = ?s1"
        by (auto simp: ensure_capacity_def Let_def)
      with s1 show ?thesis by simp
    next
      case (Some n)
      note g = bb_grow_Some [OF Some c]
      show ?thesis
      proof (cases mem)
        case Alloc_Fail
        with False Some c assms(2) have "r = - 1 \<and> s' = ?s1"
          by (auto simp: ensure_capacity_def Let_def)
        with s1 show ?thesis by simp
      next
        case (Alloc_Ok j)
        with False Some c assms(2)
        have s': "r = 0 \<and> s' = ?s1\<lparr>bb_data := realloc_cells j (bb_data ?s1) n, bb_capacity := n\<rparr>"
          by (auto simp: ensure_capacity_def Let_def)
        have pre: "take (bb_write_pos ?s1) (realloc_cells j (bb_data ?s1) n) = take (bb_write_pos ?s1) (bb_data ?s1)"
          using s1(1) g by (intro take_realloc_cells) (auto simp: bb_inv_def)
        obtain t where t: "t = ?s1" by blast
        have inv': "bb_inv s'" using s' s1(1) g unfolding t [symmetric] by (auto simp: bb_inv_def)
        have "bb_content s' = bb_content ?s1"
          using s' pre bb_content_alt [OF inv'] bb_content_alt [OF s1(1)] unfolding t [symmetric] by simp
        with s' s1 g inv' show ?thesis unfolding t [symmetric] by auto
      qed
    qed
  qed
  then show "bb_inv s'" "bb_content s' = bb_content s" "r = 0 \<Longrightarrow> bb_write_pos s' + len \<le> bb_capacity s'"
    "bb_capacity s' = bb_capacity s \<or> bb_capacity s' \<le> BB_MAX_CAPACITY" "r = 0 \<or> r = - 1" by auto
qed

lemma from_be32_be32: "from_be32 (be32 v) = v"
proof (rule bit_word_eqI)
  fix n assume "n < LENGTH(32)"
  then have "n < 32" by simp
  then consider "n < 8" | "8 \<le> n" "n < 16" | "16 \<le> n" "n < 24" | "24 \<le> n" "n < 32" by linarith
  then show "bit (from_be32 (be32 v)) n = bit v n"
    by cases (auto simp: be32_def bit_simps)
qed

lemma be32_from_be32: "be32 (from_be32 [a, b, c, d]) = [a, b, c, d]"
  by (auto simp: be32_def bit_simps intro!: bit_word_eqI)

lemma put_bytes_content:
  assumes "bb_inv s" and "bb_write_pos s + length xs \<le> bb_capacity s"
  shows "bb_content (s\<lparr>bb_data := put_bytes (bb_data s) (bb_write_pos s) xs,
        bb_write_pos := bb_write_pos s + length xs\<rparr>) = bb_content s @ xs"
    and "bb_inv (s\<lparr>bb_data := put_bytes (bb_data s) (bb_write_pos s) xs,
        bb_write_pos := bb_write_pos s + length xs\<rparr>)"
proof -
  let ?s = "s\<lparr>bb_data := put_bytes (bb_data s) (bb_write_pos s) xs,
        bb_write_pos := bb_write_pos s + length xs\<rparr>"
  have w: "length (take (bb_write_pos s) (bb_data s)) = bb_write_pos s"
    "bb_read_pos s \<le> bb_write_pos s" using assms(1) by (auto simp: bb_inv_def)
  show inv: "bb_inv ?s" using assms w by (auto simp: bb_inv_def put_bytes_def)
  have "take (bb_write_pos s + length xs) (put_bytes (bb_data s) (bb_write_pos s) xs) =
      take (bb_write_pos s) (bb_data s) @ xs"
    using w by (simp add: put_bytes_def)
  then show "bb_content ?s = bb_content s @ xs"
    using bb_content_alt [OF inv] bb_content_alt [OF assms(1)] w by simp
qed

lemma put_bytes_single: "pos < length data \<Longrightarrow> put_bytes data pos [b] = data[pos := b]"
  by (simp add: put_bytes_def upd_conv_take_nth_drop)

lemma ByteBuffer_write_spec:
  assumes "bb_inv s" and "ByteBuffer_write mem s (Some xs) = (r, s')"
  shows "bb_inv s' \<and> bb_content s' = bb_content s @ (if r = 0 then xs else [])
    \<and> (bb_capacity s' = bb_capacity s \<or> bb_capacity s' \<le> BB_MAX_CAPACITY)"
proof (cases "xs = []")
  case True
  with assms show ?thesis by (simp add: ByteBuffer_write_def)
next
  case False
  obtain r1 s1 where e: "ensure_capacity mem s (length xs) = (r1, s1)" by force
  note ec = ensure_capacity_spec [OF assms(1) e]
  show ?thesis
  proof (cases "r1 = 0")
    case True
    with False e assms(2) ec put_bytes_content [OF ec(1) ec(3) [OF True]] show ?thesis
      by (auto simp: ByteBuffer_write_def)
  next
    case nz: False
    with False e assms(2) ec show ?thesis by (auto simp: ByteBuffer_write_def)
  qed
qed

lemma ByteBuffer_writeByte_write: "bb_inv s \<Longrightarrow> ByteBuffer_writeByte mem s b = ByteBuffer_write mem s (Some [b])"
proof -
  assume "bb_inv s"
  obtain r s1 where e: "ensure_capacity mem s 1 = (r, s1)" by force
  note ec = ensure_capacity_spec [OF \<open>bb_inv s\<close> e]
  show ?thesis
    using e ec put_bytes_single [of "bb_write_pos s1" "bb_data s1" b]
    by (auto simp: ByteBuffer_writeByte_def ByteBuffer_write_def bb_inv_def)
qed

lemma ByteBuffer_writeInt32_write: "ByteBuffer_writeInt32 mem s v = ByteBuffer_write mem s (Some (be32 v))"
proof -
  have "length (be32 v) = 4" "be32 v \<noteq> []" by (simp_all add: be32_def)
  then show ?thesis by (simp add: ByteBuffer_writeInt32_def ByteBuffer_write_def split: prod.split)
qed

lemma bb_advance:
  assumes "bb_inv s" and "n \<le> length (bb_content s)"
  shows "bb_inv (s\<lparr>bb_read_pos := bb_read_pos s + n\<rparr>)"
    and "bb_content (s\<lparr>bb_read_pos := bb_read_pos s + n\<rparr>) = drop n (bb_content s)"
    and "take n (drop (bb_read_pos s) (bb_data s)) = take n (bb_content s)"
  using assms length_bb_content [OF assms(1)]
  by (auto simp: bb_inv_def bb_content_def drop_take add.commute min_def)

section \<open>The byte stream\<close>

datatype bb_cmd = Bb_write "byte alloc" "byte list" | Bb_writeByte "byte alloc" byte
  | Bb_writeInt32 "byte alloc" u32 | Bb_read nat | Bb_readByte | Bb_readInt32 | Bb_compact

text \<open>One command: the bytes a write got accepted, the bytes a read delivered, the new state.\<close>

fun bb_exec :: "ByteBuffer \<Rightarrow> bb_cmd \<Rightarrow> byte list \<times> byte list \<times> ByteBuffer" where
  "bb_exec s (Bb_write mem xs) =
     (case ByteBuffer_write mem s (Some xs) of (r, s') \<Rightarrow> (if r = 0 then xs else [], [], s'))"
| "bb_exec s (Bb_writeByte mem b) =
     (case ByteBuffer_writeByte mem s b of (r, s') \<Rightarrow> (if r = 0 then [b] else [], [], s'))"
| "bb_exec s (Bb_writeInt32 mem v) =
     (case ByteBuffer_writeInt32 mem s v of (r, s') \<Rightarrow> (if r = 0 then be32 v else [], [], s'))"
| "bb_exec s (Bb_read n) = (case ByteBuffer_read s n of (xs, s') \<Rightarrow> ([], xs, s'))"
| "bb_exec s Bb_readByte =
     (case ByteBuffer_readByte s of (None, s') \<Rightarrow> ([], [], s') | (Some b, s') \<Rightarrow> ([], [b], s'))"
| "bb_exec s Bb_readInt32 =
     (case ByteBuffer_readInt32 s of (None, s') \<Rightarrow> ([], [], s') | (Some v, s') \<Rightarrow> ([], be32 v, s'))"
| "bb_exec s Bb_compact = ([], [], ByteBuffer_compact s)"

lemma take4_list:
  assumes "4 \<le> length xs"
  shows "\<exists>a b c d. take 4 xs = [a, b, c, d]"
proof -
  have "length (take 4 xs) = Suc (Suc (Suc (Suc 0)))" using assms by simp
  then show ?thesis by (simp only: length_Suc_conv length_0_conv) blast
qed

lemma bb_step:
  assumes "bb_inv s" and "bb_exec s c = (acc, out, s')"
  shows "bb_inv s' \<and> bb_content s @ acc = out @ bb_content s'
    \<and> (bb_capacity s' = bb_capacity s \<or> bb_capacity s' \<le> BB_MAX_CAPACITY)"
proof -
  note w = ByteBuffer_write_spec [OF assms(1)]
  have len: "length (bb_content s) = bb_write_pos s - bb_read_pos s" "bb_read_pos s \<le> bb_write_pos s"
    using length_bb_content [OF assms(1)] assms(1) by (auto simp: bb_inv_def)
  show ?thesis
  proof (cases c)
    case (Bb_read n)
    let ?k = "min n (length (bb_content s))"
    have "ByteBuffer_read s n = (take ?k (bb_content s), s\<lparr>bb_read_pos := bb_read_pos s + ?k\<rparr>)"
      using bb_advance(3) [OF assms(1), of ?k] len
      by (cases "n = 0") (auto simp: ByteBuffer_read_def Let_def min_def)
    with Bb_read assms(2) have "acc = []" "out = take ?k (bb_content s)"
      "s' = s\<lparr>bb_read_pos := bb_read_pos s + ?k\<rparr>" by simp_all
    with bb_advance [OF assms(1), of ?k] show ?thesis by (simp add: append_take_drop_id)
  next
    case Bb_readByte
    show ?thesis
    proof (cases "bb_read_pos s \<ge> bb_write_pos s")
      case True
      with Bb_readByte assms show ?thesis by (auto simp: ByteBuffer_readByte_def)
    next
      case False
      then have "1 \<le> length (bb_content s)" using len by simp
      note adv = bb_advance [OF assms(1) this]
      have "take 1 (drop (bb_read_pos s) (bb_data s)) = [bb_data s ! bb_read_pos s]"
        using False assms(1) by (simp add: bb_inv_def take_Suc_conv_app_nth)
      with adv(3) have "[bb_data s ! bb_read_pos s] = take 1 (bb_content s)" by simp
      with False Bb_readByte assms adv(1,2) show ?thesis
        by (auto simp: ByteBuffer_readByte_def)
          (metis append_Cons append_Nil append_take_drop_id)
    qed
  next
    case Bb_readInt32
    show ?thesis
    proof (cases "bb_read_pos s + 4 > bb_write_pos s")
      case True
      with Bb_readInt32 assms show ?thesis by (auto simp: ByteBuffer_readInt32_def)
    next
      case False
      then have "4 \<le> length (bb_content s)" using len by simp
      note adv = bb_advance [OF assms(1) this] and t4 = take4_list [OF this]
      from t4 have "be32 (from_be32 (take 4 (bb_content s))) = take 4 (bb_content s)"
        using be32_from_be32 by auto
      with False Bb_readInt32 assms adv(3) have "acc = []" "out = take 4 (bb_content s)"
        "s' = s\<lparr>bb_read_pos := bb_read_pos s + 4\<rparr>" by (auto simp: ByteBuffer_readInt32_def)
      with adv(1,2) show ?thesis by (simp add: append_take_drop_id)
    qed
  qed (use assms w bb_compact_spec [OF assms(1)] in
      \<open>auto simp: ByteBuffer_writeByte_write ByteBuffer_writeInt32_write split: prod.splits\<close>)
qed

fun bb_exec_all :: "ByteBuffer \<Rightarrow> bb_cmd list \<Rightarrow> byte list \<times> byte list \<times> ByteBuffer" where
  "bb_exec_all s [] = ([], [], s)"
| "bb_exec_all s (c # cs) =
     (let (acc, out, s1) = bb_exec s c; (accs, outs, s2) = bb_exec_all s1 cs
      in (acc @ accs, out @ outs, s2))"

section \<open>Properties\<close>

text \<open>(C30) The buffer is a byte stream: for every sequence of writes (which the memory or the
  16 MB limit may refuse), reads and compactions, the bytes held at the start followed by the
  bytes accepted are exactly the bytes delivered followed by the bytes held at the end. Nothing
  is lost, duplicated or reordered, positions stay inside the memory, and growth never
  exceeds the limit.\<close>

theorem ByteBuffer_stream:
  assumes "bb_inv s"
  shows "case bb_exec_all s cs of (accepted, delivered, s') \<Rightarrow>
    bb_content s @ accepted = delivered @ bb_content s' \<and> bb_inv s'
    \<and> (bb_capacity s' = bb_capacity s \<or> bb_capacity s' \<le> BB_MAX_CAPACITY)"
  using assms
proof (induction cs arbitrary: s)
  case Nil
  then show ?case by simp
next
  case (Cons c cs)
  obtain acc out s1 where e: "bb_exec s c = (acc, out, s1)" by (metis prod_cases3)
  obtain accs outs s2 where e2: "bb_exec_all s1 cs = (accs, outs, s2)" by (metis prod_cases3)
  note st = bb_step [OF Cons.prems e]
  have "bb_content s @ acc @ accs = out @ outs @ bb_content s2"
    using st Cons.IH [of s1] e2 by (metis (mono_tags, lifting) append_assoc case_prod_conv)
  with st Cons.IH [of s1] e e2 show ?case by auto
qed

definition demo_bb :: ByteBuffer where
  "demo_bb = \<lparr>bb_data = [0, 0], bb_capacity = 2, bb_read_pos = 0, bb_write_pos = 0\<rparr>"

lemma demo_bb_inv: "bb_inv demo_bb" "bb_content demo_bb = []"
  by (simp_all add: demo_bb_def bb_inv_def bb_content_def)

theorem ByteBuffer_stream_witness:
  "case bb_exec_all demo_bb [Bb_write (Alloc_Ok 7) [1, 2], Bb_readByte, Bb_write Alloc_Fail [3],
      Bb_write Alloc_Fail [4, 5, 6]] of (accepted, delivered, s') \<Rightarrow>
    accepted = delivered @ bb_content s'"
  using ByteBuffer_stream [OF demo_bb_inv(1), of "[Bb_write (Alloc_Ok 7) [1, 2], Bb_readByte,
      Bb_write Alloc_Fail [3], Bb_write Alloc_Fail [4, 5, 6]]"] demo_bb_inv(2)
  by (simp del: bb_exec_all.simps split: prod.splits)

text \<open>32-bit integers survive the network byte order: after a successful \<^verbatim>\<open>writeInt32\<close> of
  any value to a buffer with no unread bytes, \<^verbatim>\<open>peekInt32\<close> and \<^verbatim>\<open>readInt32\<close> return that value.\<close>

theorem ByteBuffer_int32_roundtrip:
  assumes "bb_inv s" and "bb_content s = []" and "ByteBuffer_writeInt32 mem s v = (0, s')"
  shows "ByteBuffer_peekInt32 s' = Some v \<and> fst (ByteBuffer_readInt32 s') = Some v"
proof -
  have w: "bb_inv s'" "bb_content s' = be32 v"
    using ByteBuffer_write_spec [OF assms(1)] assms(2,3) by (auto simp: ByteBuffer_writeInt32_write)
  have l: "length (be32 v) = 4" by (simp add: be32_def)
  have "take 4 (drop (bb_read_pos s') (bb_data s')) = be32 v"
    using bb_advance(3) [OF w(1), of 4] w(2) l by simp
  moreover have "\<not> bb_read_pos s' + 4 > bb_write_pos s'"
    using length_bb_content [OF w(1)] w l by (auto simp: bb_inv_def)
  ultimately show ?thesis
    by (simp add: ByteBuffer_peekInt32_def ByteBuffer_readInt32_def from_be32_be32)
qed

theorem ByteBuffer_int32_roundtrip_witness:
  "ByteBuffer_peekInt32 (snd (ByteBuffer_writeInt32 (Alloc_Ok 0) demo_bb 305419896)) = Some 305419896"
proof -
  let ?s = "snd (ByteBuffer_writeInt32 (Alloc_Ok 0) demo_bb 305419896)"
  have "ByteBuffer_writeInt32 (Alloc_Ok 0) demo_bb 305419896 = (0, ?s)"
    by (simp add: ByteBuffer_writeInt32_def ensure_capacity_def demo_bb_def bb_grow.simps)
  from ByteBuffer_int32_roundtrip [OF demo_bb_inv this] show ?thesis by simp
qed

text \<open>\<^verbatim>\<open>skip\<close> adds in \<^verbatim>\<open>size_t\<close> without an overflow check: skipping \<^verbatim>\<open>SIZE_MAX\<close> bytes in a
  buffer that has been read from moves the read position one back instead of to the end.\<close>

theorem ByteBuffer_skip_wraps:
  assumes "bb_inv s" and "0 < bb_read_pos s"
  shows "bb_read_pos (ByteBuffer_skip s SIZE_MAX) = bb_read_pos s - 1"
proof -
  obtain k where k: "bb_read_pos s = Suc k" using assms(2) by (cases "bb_read_pos s") auto
  then have "k \<le> SIZE_MAX" "k \<le> bb_write_pos s" using assms(1) by (auto simp: bb_inv_def)
  moreover have "(Suc k + SIZE_MAX) mod (SIZE_MAX + 1) = k mod (SIZE_MAX + 1)"
    using mod_add_self2 [of k "SIZE_MAX + 1"] by (simp add: add.commute)
  ultimately show ?thesis by (simp add: ByteBuffer_skip_def Let_def k)
qed

theorem ByteBuffer_skip_wraps_witness:
  "bb_read_pos (ByteBuffer_skip (demo_bb\<lparr>bb_read_pos := 1, bb_write_pos := 2\<rparr>) SIZE_MAX) = 0"
proof -
  have "bb_inv (demo_bb\<lparr>bb_read_pos := 1, bb_write_pos := 2\<rparr>)" by (simp add: demo_bb_def bb_inv_def)
  from ByteBuffer_skip_wraps [OF this] show ?thesis by simp
qed

end
