(* ===== verification/C_Strings.thy ===== *)
theory C_Strings
  imports Core_Prelude "HOL-Library.Sublist"
begin

text \<open>
  The functions of the C library on strings and memory blocks that the HTTP sources call: case-insensitive
  comparison (C locale), substring search, splitting at a character, and the integer conversion of \<^verbatim>\<open>sscanf\<close>.
  A search returns the number of bytes before the first occurrence.
\<close>

section \<open>Comparison\<close>

definition c_tolower :: "byte \<Rightarrow> byte" where
  "c_tolower c = (if 65 \<le> c \<and> c \<le> 90 then c + 32 else c)"

definition strcasecmp_eq :: "cstring \<Rightarrow> cstring \<Rightarrow> bool" where
  "strcasecmp_eq a b \<longleftrightarrow> map c_tolower a = map c_tolower b"

lemma strcasecmp_eq_refl [simp]: "strcasecmp_eq a a"
  by (simp add: strcasecmp_eq_def)

lemma strcasecmp_eq_sym: "strcasecmp_eq a b \<longleftrightarrow> strcasecmp_eq b a"
  by (auto simp: strcasecmp_eq_def)

lemma strcasecmp_eq_trans: "strcasecmp_eq a b \<Longrightarrow> strcasecmp_eq b c \<Longrightarrow> strcasecmp_eq a c"
  by (simp add: strcasecmp_eq_def)

section \<open>Search\<close>

text \<open>\<^verbatim>\<open>memmem\<close> and \<^verbatim>\<open>strstr\<close>: the least offset at which the needle stands.\<close>

fun memmem :: "byte list \<Rightarrow> byte list \<Rightarrow> nat option" where
  "memmem hay needle =
     (if take (length needle) hay = needle then Some 0
      else case hay of [] \<Rightarrow> None | _ # r \<Rightarrow> map_option Suc (memmem r needle))"

declare memmem.simps [simp del]

definition strstr :: "cstring \<Rightarrow> cstring \<Rightarrow> nat option" where
  "strstr hay needle = memmem hay needle"

definition strcasestr :: "cstring \<Rightarrow> cstring \<Rightarrow> nat option" where
  "strcasestr hay needle = memmem (map c_tolower hay) (map c_tolower needle)"

definition strchr :: "cstring \<Rightarrow> byte \<Rightarrow> nat option" where
  "strchr s c = (if c \<in> set s then Some (length (takeWhile (\<lambda>b. b \<noteq> c) s)) else None)"

definition strrchr :: "cstring \<Rightarrow> byte \<Rightarrow> nat option" where
  "strrchr s c = (if c \<in> set s then Some (length s - 1 - length (takeWhile (\<lambda>b. b \<noteq> c) (rev s))) else None)"

lemma memmem_Some: "memmem hay needle = Some i \<Longrightarrow> i \<le> length hay \<and> take (length needle) (drop i hay) = needle"
proof (induction hay arbitrary: i)
  case Nil
  then show ?case by (simp add: memmem.simps [of "[]"] split: if_splits)
next
  case (Cons x hay)
  show ?case
  proof (cases "take (length needle) (x # hay) = needle")
    case True
    with Cons.prems show ?thesis by (simp add: memmem.simps [of "x # hay"])
  next
    case False
    with Cons.prems obtain j where "memmem hay needle = Some j" "i = Suc j"
      by (auto simp: memmem.simps [of "x # hay"])
    with Cons.IH show ?thesis by simp
  qed
qed

lemma memmem_bound:
  assumes "memmem hay needle = Some i"
  shows "i + length needle \<le> length hay"
proof -
  from memmem_Some [OF assms] have "i \<le> length hay" "length needle \<le> length (drop i hay)"
    by (auto simp: min_def dest: arg_cong [where f = length] split: if_splits)
  then show ?thesis by simp
qed

lemma memmem_split:
  assumes "memmem hay needle = Some i"
  shows "hay = take i hay @ needle @ drop (i + length needle) hay"
proof -
  have "drop i hay = needle @ drop (length needle) (drop i hay)"
    using memmem_Some [OF assms] by (metis append_take_drop_id)
  then show ?thesis by (metis append_take_drop_id drop_drop add.commute)
qed

lemma memmem_least: "memmem hay needle = Some i \<Longrightarrow> j < i \<Longrightarrow> take (length needle) (drop j hay) \<noteq> needle"
proof (induction hay arbitrary: i j)
  case Nil
  then show ?case by (simp add: memmem.simps [of "[]"] split: if_splits)
next
  case (Cons x hay)
  show ?case
  proof (cases "take (length needle) (x # hay) = needle")
    case True
    with Cons.prems show ?thesis by (simp add: memmem.simps [of "x # hay"])
  next
    case False
    with Cons.prems obtain k where "memmem hay needle = Some k" "i = Suc k"
      by (auto simp: memmem.simps [of "x # hay"])
    with Cons.IH [of k] Cons.prems(2) False show ?thesis by (cases j) auto
  qed
qed

lemma memmem_None: "memmem hay needle = None \<Longrightarrow> take (length needle) (drop j hay) \<noteq> needle"
proof (induction hay arbitrary: j)
  case Nil
  then show ?case by (auto simp: memmem.simps [of "[]"] split: if_splits)
next
  case (Cons x hay)
  show ?case
  proof (cases "take (length needle) (x # hay) = needle")
    case True
    with Cons.prems show ?thesis by (simp add: memmem.simps [of "x # hay"])
  next
    case False
    with Cons.prems have "memmem hay needle = None" by (auto simp: memmem.simps [of "x # hay"])
    with Cons.IH False show ?thesis by (cases j) auto
  qed
qed

text \<open>The way back: an occurrence with none before it is what the search finds.\<close>

lemma memmem_intro:
  assumes "take (length needle) (drop i hay) = needle" "i \<le> length hay"
    and "\<And>j. j < i \<Longrightarrow> take (length needle) (drop j hay) \<noteq> needle"
  shows "memmem hay needle = Some i"
proof (cases "memmem hay needle")
  case None
  with memmem_None assms(1) show ?thesis by blast
next
  case (Some k)
  with memmem_Some [OF Some] memmem_least [OF Some, of i] assms(1,3) have "k = i"
    by (meson linorder_neqE_nat)
  with Some show ?thesis by simp
qed

lemma strchr_append: "c \<notin> set a \<Longrightarrow> strchr (a @ c # b) c = Some (length a)"
  by (simp add: strchr_def takeWhile_append)

lemma strchr_Some: "strchr s c = Some i \<Longrightarrow> s = take i s @ c # drop (Suc i) s \<and> c \<notin> set (take i s)"
proof -
  assume *: "strchr s c = Some i"
  then have i: "i = length (takeWhile (\<lambda>b. b \<noteq> c) s)" "c \<in> set s" by (auto simp: strchr_def split: if_splits)
  then obtain a b where s: "s = a @ c # b" "c \<notin> set a" by (meson split_list_first)
  with i have "i = length a" by (simp add: takeWhile_append)
  with s show ?thesis by simp
qed

lemma strrchr_append: "c \<notin> set b \<Longrightarrow> strrchr (a @ c # b) c = Some (length a)"
  by (simp add: strrchr_def takeWhile_append)

section \<open>Numbers\<close>

abbreviation isdigit :: "byte \<Rightarrow> bool" where "isdigit c \<equiv> 48 \<le> c \<and> c \<le> 57"

text \<open>\<^verbatim>\<open>%d\<close> of \<^verbatim>\<open>sscanf\<close>: leading white space, a sign, at least one digit. The value is that of \<^verbatim>\<open>strtol\<close>, converted
  to \<^verbatim>\<open>int\<close>; with it, the rest of the input.\<close>

definition scan_d :: "cstring \<Rightarrow> (int \<times> cstring) option" where
  "scan_d s =
     (let s1 = dropWhile isspace s;
          s2 = (if s1 \<noteq> [] \<and> (hd s1 = ch CHR ''-'' \<or> hd s1 = ch CHR ''+'') then tl s1 else s1)
      in if s2 \<noteq> [] \<and> isdigit (hd s2) then Some (wrap32 (strtol10 s1), dropWhile isdigit s2) else None)"

text \<open>Decimal digits denote their number.\<close>

fun dec_of :: "nat \<Rightarrow> cstring \<Rightarrow> nat" where
  "dec_of n [] = n"
| "dec_of n (c # cs) = dec_of (10 * n + (unat c - 48)) cs"

lemma dec_val_digits: "\<forall>c \<in> set ds. isdigit c \<Longrightarrow> dec_val n ds = dec_of n ds"
  by (induction ds arbitrary: n) auto

lemma dec_val_stop: "\<forall>c \<in> set ds. isdigit c \<Longrightarrow> r = [] \<or> \<not> isdigit (hd r) \<Longrightarrow> dec_val n (ds @ r) = dec_of n ds"
proof (induction ds arbitrary: n)
  case Nil
  then show ?case by (cases r) auto
qed auto

lemma dec_of_mono: "n \<le> dec_of n ds"
proof (induction ds arbitrary: n)
  case (Cons c ds)
  then have "10 * n + (unat c - 48) \<le> dec_of (10 * n + (unat c - 48)) ds" .
  then show ?case by simp
qed simp

lemma dec_of_append: "dec_of n (xs @ ys) = dec_of (dec_of n xs) ys"
  by (induction xs arbitrary: n) auto

lemma unat_digit: "n < 10 \<Longrightarrow> unat (of_nat (48 + n) :: byte) = 48 + n"
  by (simp add: unat_of_nat del: of_nat_add)

lemma isdigit_of_nat: "n < 10 \<Longrightarrow> isdigit (of_nat (48 + n))"
  by (simp add: word_le_nat_alt unat_digit del: of_nat_add)

lemma dec_digits_digits: "c \<in> set (dec_digits n) \<Longrightarrow> isdigit c"
proof (induction n rule: dec_digits.induct)
  case (1 n)
  show ?case
  proof (cases "n < 10")
    case True
    with "1.prems" have "c = of_nat (48 + n)" by (simp add: dec_digits.simps [of n])
    with isdigit_of_nat [OF True] show ?thesis by simp
  next
    case False
    with "1.prems" have "c \<in> set (dec_digits (n div 10)) \<or> c = of_nat (48 + n mod 10)"
      by (subst (asm) dec_digits.simps) auto
    with "1.IH" [OF False] isdigit_of_nat [of "n mod 10"] show ?thesis by fastforce
  qed
qed

lemma dec_of_digits: "dec_of 0 (dec_digits n) = n"
proof (induction n rule: dec_digits.induct)
  case (1 n)
  show ?case
  proof (cases "n < 10")
    case True
    then show ?thesis by (simp add: dec_digits.simps [of n] unat_digit del: of_nat_add)
  next
    case False
    have "unat (of_nat (48 + n mod 10) :: byte) = 48 + n mod 10" by (simp add: unat_digit del: of_nat_add)
    with False 1 show ?thesis by (simp add: dec_digits.simps [of n] dec_of_append del: of_nat_add)
  qed
qed

end
