(* ===== verification/Cron_Scheduler.thy ===== *)
theory Cron_Scheduler
  imports Core_Prelude
begin

text \<open>
  \<^verbatim>\<open>src/src/cron_scheduler.c\<close>: the six-field cron scheduler. A field is parsed into a bit set; the
  worker thread polls the clock and fires the jobs whose six bit sets contain the local time, once per
  second. Bit sets keep the widths of the C struct. \<open>parse_field\<close> is \<open>None\<close> where the C loop would
  overflow a signed int. The clock (\<^verbatim>\<open>time\<close>, \<^verbatim>\<open>localtime_r\<close>) and the outcome of starting a callback thread
  are arguments; callbacks and their user data are opaque values.
  \<open>field_set\<close> is what a field denotes, stated with sets of integers.
\<close>

section \<open>Parsing\<close>

text \<open>\<^verbatim>\<open>strncpy\<close> into a buffer whose last byte is then set to NUL.\<close>

definition strncpy_buf :: "nat \<Rightarrow> cstring \<Rightarrow> cstring" where
  "strncpy_buf n s = take n s"

abbreviation star :: byte where "star \<equiv> 42"
abbreviation slash :: byte where "slash \<equiv> 47"
abbreviation dash :: byte where "dash \<equiv> 45"
abbreviation comma :: byte where "comma \<equiv> 44"

definition set_bit64 :: "u64 \<Rightarrow> int \<Rightarrow> u64" where
  "set_bit64 bitmap i = bitmap OR push_bit (nat i) 1"

text \<open>The loop \<^verbatim>\<open>for (i = i0; i <= hi; i += step)\<close>; \<open>None\<close> when \<^verbatim>\<open>i += step\<close> overflows.\<close>

function bits_step :: "u64 \<Rightarrow> int \<Rightarrow> int \<Rightarrow> int \<Rightarrow> u64 option" where
  "bits_step bitmap i hi step =
     (if i \<le> hi \<and> 0 < step then
        (if i + step > INT_MAX then None else bits_step (set_bit64 bitmap i) (i + step) hi step)
      else Some bitmap)"
  by pat_completeness auto
termination
  by (relation "measure (\<lambda>(bitmap, i, hi, step). nat (hi + 1 - i))") auto

declare bits_step.simps [simp del]

text \<open>The loop with step 1; its bound is at most 59, so nothing overflows.\<close>

function bits_range :: "u64 \<Rightarrow> int \<Rightarrow> int \<Rightarrow> u64" where
  "bits_range bitmap i hi = (if i \<le> hi then bits_range (set_bit64 bitmap i) (i + 1) hi else bitmap)"
  by pat_completeness auto
termination
  by (relation "measure (\<lambda>(bitmap, i, hi). nat (hi + 1 - i))") auto

declare bits_range.simps [simp del]

text \<open>One comma-separated item: a range or a single value.\<close>

definition parse_item :: "int \<Rightarrow> int \<Rightarrow> u64 \<Rightarrow> cstring \<Rightarrow> u64" where
  "parse_item min_val max_val bitmap token =
     (if dash \<in> set token then
        (let from = atoi token; to = atoi (tl (dropWhile (\<lambda>c. c \<noteq> dash) token));
             from = (if from < min_val then min_val else from);
             to = (if to > max_val then max_val else to)
         in bits_range bitmap from to)
      else (let val = atoi token
            in if val \<ge> min_val \<and> val \<le> max_val then set_bit64 bitmap val else bitmap))"

definition parse_field :: "cstring \<Rightarrow> int \<Rightarrow> int \<Rightarrow> u64 option" where
  "parse_field field min_val max_val =
     (if field = [star] then Some (bits_range 0 min_val max_val)
      else if length field \<ge> 2 \<and> field ! 0 = star \<and> field ! 1 = slash then
        (let step = atoi (drop 2 field); step = (if step \<le> 0 then 1 else step)
         in bits_step 0 min_val max_val step)
      else Some (foldl (parse_item min_val max_val) 0 (strtok (\<lambda>c. c = comma) (strncpy_buf 127 field))))"

section \<open>Jobs\<close>

record 'cb CronJob =
  cj_name :: cstring
  cj_seconds :: u64
  cj_minutes :: u64
  cj_hours :: u32
  cj_days :: u32
  cj_months :: "16 word"
  cj_weekdays :: byte
  cj_cb :: 'cb

text \<open>The broken-down time \<^verbatim>\<open>struct tm\<close>.\<close>

record tm =
  tm_sec :: nat
  tm_min :: nat
  tm_hour :: nat
  tm_mday :: nat
  tm_mon :: nat
  tm_wday :: nat

definition cron_fields :: "cstring \<Rightarrow> cstring list" where
  "cron_fields expr = take 6 (strtok (\<lambda>c. c = 32 \<or> c = 9) (strncpy_buf 255 expr))"

text \<open>\<^verbatim>\<open>parse_cron_expr\<close>: whether it succeeds, and the job it leaves; \<open>None\<close> is an overflow in a field.\<close>

definition parse_cron_expr :: "cstring \<Rightarrow> 'cb CronJob \<Rightarrow> (bool \<times> 'cb CronJob) option" where
  "parse_cron_expr expr job =
     (let fields = cron_fields expr
      in if length fields \<noteq> 6 then Some (False, job)
         else case (parse_field (fields ! 0) 0 59, parse_field (fields ! 1) 0 59, parse_field (fields ! 2) 0 23,
                    parse_field (fields ! 3) 1 31, parse_field (fields ! 4) 1 12, parse_field (fields ! 5) 0 6) of
           (Some s, Some m, Some hr, Some d, Some mo, Some w) \<Rightarrow>
             Some (True, job\<lparr>cj_seconds := s, cj_minutes := m, cj_hours := ucast hr, cj_days := ucast d,
                             cj_months := ucast mo, cj_weekdays := ucast w\<rparr>)
         | _ \<Rightarrow> None)"

text \<open>The six tests; every operand is converted to 64 bits before the \<^verbatim>\<open>&\<close>.\<close>

definition cron_bit :: "u64 \<Rightarrow> nat \<Rightarrow> bool" where
  "cron_bit bits n \<longleftrightarrow> bits AND push_bit n 1 \<noteq> 0"

definition cron_matches :: "'cb CronJob \<Rightarrow> tm \<Rightarrow> bool" where
  "cron_matches job t =
     (if \<not> cron_bit (cj_seconds job) (tm_sec t) then False
      else if \<not> cron_bit (cj_minutes job) (tm_min t) then False
      else if \<not> cron_bit (ucast (cj_hours job)) (tm_hour t) then False
      else if \<not> cron_bit (ucast (cj_days job)) (tm_mday t) then False
      else if \<not> cron_bit (ucast (cj_months job)) (tm_mon t + 1) then False
      else if \<not> cron_bit (ucast (cj_weekdays job)) (tm_wday t) then False
      else True)"

section \<open>The scheduler\<close>

record 'cb CronScheduler =
  cs_jobs :: "'cb CronJob list"
  cs_count :: int
  cs_capacity :: int
  cs_running :: bool
  cs_worker :: bool

text \<open>\<open>cs_worker\<close>: whether \<^verbatim>\<open>cron_worker\<close> names a thread. A zeroed job has the null callback.\<close>

definition zero_job :: "'cb \<Rightarrow> 'cb CronJob" where
  "zero_job cb = \<lparr>cj_name = [], cj_seconds = 0, cj_minutes = 0, cj_hours = 0, cj_days = 0, cj_months = 0,
                  cj_weekdays = 0, cj_cb = cb\<rparr>"

definition new_CronScheduler :: "unit alloc \<Rightarrow> 'cb alloc \<Rightarrow> 'cb CronScheduler option" where
  "new_CronScheduler mem_obj mem_jobs =
     (case mem_obj of Alloc_Fail \<Rightarrow> None
      | Alloc_Ok _ \<Rightarrow>
          (case mem_jobs of Alloc_Fail \<Rightarrow> None
           | Alloc_Ok null_cb \<Rightarrow> Some \<lparr>cs_jobs = replicate 16 (zero_job null_cb), cs_count = 0, cs_capacity = 16,
                                       cs_running = False, cs_worker = False\<rparr>))"

text \<open>The growth step of \<^verbatim>\<open>addCron\<close>: \<open>None\<close> when the table is full and cannot be enlarged.\<close>

definition cron_grow :: "'cb CronJob alloc \<Rightarrow> 'cb CronScheduler \<Rightarrow> 'cb CronScheduler option" where
  "cron_grow mem self =
     (if cs_count self \<ge> cs_capacity self
      then (case mem of Alloc_Fail \<Rightarrow> None
            | Alloc_Ok junk \<Rightarrow>
                let new_cap = wrap32 (cs_capacity self * 2)
                in Some (self\<lparr>cs_jobs := realloc_cells junk (cs_jobs self) (nat new_cap), cs_capacity := new_cap\<rparr>))
      else Some self)"

text \<open>\<^verbatim>\<open>addCron\<close>. The new job is written into the array before its expression is known to be good; only the
  count decides whether it is there.\<close>

definition CronScheduler_addCron ::
  "'cb CronJob alloc \<Rightarrow> 'cb CronScheduler \<Rightarrow> cstring \<Rightarrow> cstring \<Rightarrow> 'cb \<Rightarrow> (bool \<times> 'cb CronScheduler) option" where
  "CronScheduler_addCron mem self name expr cb =
     (case cron_grow mem self of
        None \<Rightarrow> Some (False, self)
      | Some s \<Rightarrow>
          (let job = (zero_job cb)\<lparr>cj_name := take 63 name\<rparr>; i = nat (cs_count s)
           in case parse_cron_expr expr job of
                None \<Rightarrow> None
              | Some (False, job1) \<Rightarrow> Some (False, s\<lparr>cs_jobs := (cs_jobs s)[i := job1]\<rparr>)
              | Some (True, job1) \<Rightarrow>
                  Some (True, s\<lparr>cs_jobs := (cs_jobs s)[i := job1], cs_count := wrap32 (cs_count s + 1)\<rparr>)))"

text \<open>The search loop of \<^verbatim>\<open>removeCron\<close>: the position of the first job of that name.\<close>

fun find_job :: "cstring \<Rightarrow> 'cb CronJob list \<Rightarrow> nat \<Rightarrow> nat option" where
  "find_job name [] i = None"
| "find_job name (j # js) i = (if cj_name j = name then Some i else find_job name js (i + 1))"

definition CronScheduler_removeCron :: "'cb CronScheduler \<Rightarrow> cstring \<Rightarrow> bool \<times> 'cb CronScheduler" where
  "CronScheduler_removeCron self name =
     (let n = nat (cs_count self)
      in case find_job name (take n (cs_jobs self)) 0 of
           None \<Rightarrow> (False, self)
         | Some i \<Rightarrow> (True, self\<lparr>cs_jobs := (cs_jobs self)[i := cs_jobs self ! (n - 1)], cs_count := cs_count self - 1\<rparr>))"

text \<open>\<^verbatim>\<open>start\<close> does not look at the answer of \<^verbatim>\<open>pthread_create\<close>; \<^verbatim>\<open>stop\<close> then joins what is not a thread, which is
  the outcome \<open>None\<close>.\<close>

definition CronScheduler_start :: "bool \<Rightarrow> 'cb CronScheduler \<Rightarrow> 'cb CronScheduler" where
  "CronScheduler_start created self =
     (if cs_running self then self else self\<lparr>cs_running := True, cs_worker := created\<rparr>)"

definition CronScheduler_stop :: "'cb CronScheduler \<Rightarrow> 'cb CronScheduler option" where
  "CronScheduler_stop self =
     (if \<not> cs_running self then Some self
      else if cs_worker self then Some (self\<lparr>cs_running := False, cs_worker := False\<rparr>) else None)"

text \<open>The jobs of one round of \<^verbatim>\<open>cron_worker\<close> whose callback thread is started; \<open>spawn i\<close> says whether memory
  and thread for job \<open>i\<close> could be had.\<close>

fun fire_jobs :: "(nat \<Rightarrow> bool) \<Rightarrow> tm \<Rightarrow> nat \<Rightarrow> 'cb CronJob list \<Rightarrow> 'cb list" where
  "fire_jobs spawn t i [] = []"
| "fire_jobs spawn t i (j # js) =
     (if cron_matches j t \<and> spawn i then cj_cb j # fire_jobs spawn t (i + 1) js else fire_jobs spawn t (i + 1) js)"

text \<open>One poll: nothing happens while the second is the one already handled; \<open>None\<close> is the initial \<^verbatim>\<open>-1\<close>.\<close>

definition cron_poll :: "(nat \<Rightarrow> bool) \<Rightarrow> 'cb CronScheduler \<Rightarrow> nat option \<Rightarrow> tm \<Rightarrow> nat option \<times> 'cb list" where
  "cron_poll spawn self last_sec t =
     (if Some (tm_sec t) \<noteq> last_sec
      then (Some (tm_sec t), fire_jobs spawn t 0 (take (nat (cs_count self)) (cs_jobs self)))
      else (last_sec, []))"

text \<open>The worker loop over the times it reads, each with the scheduler as it is at that poll; it leaves when
  \<^verbatim>\<open>running\<close> is false.\<close>

fun cron_worker :: "(nat \<Rightarrow> bool) \<Rightarrow> nat option \<Rightarrow> ('cb CronScheduler \<times> tm) list \<Rightarrow> 'cb list" where
  "cron_worker spawn last_sec [] = []"
| "cron_worker spawn last_sec ((self, t) # polls) =
     (if \<not> cs_running self then []
      else let (last1, fired) = cron_poll spawn self last_sec t in fired @ cron_worker spawn last1 polls)"

section \<open>What a field denotes\<close>

definition field_step :: "cstring \<Rightarrow> int" where
  "field_step field = max 1 (atoi (drop 2 field))"

definition item_set :: "cstring \<Rightarrow> int set" where
  "item_set item = (if dash \<in> set item then {atoi item..atoi (tl (dropWhile (\<lambda>c. c \<noteq> dash) item))} else {atoi item})"

definition field_set :: "cstring \<Rightarrow> int \<Rightarrow> int \<Rightarrow> int set" where
  "field_set field lo hi = {lo..hi} \<inter>
     (if field = [star] then UNIV
      else if take 2 field = [star, slash] then {i. (i - lo) mod field_step field = 0}
      else (\<Union>item \<in> set (strtok (\<lambda>c. c = comma) (take 127 field)). item_set item))"

definition bits_are :: "u64 \<Rightarrow> int set \<Rightarrow> bool" where
  "bits_are b S \<longleftrightarrow> (\<forall>n < 64. bit b n \<longleftrightarrow> int n \<in> S)"

lemma bits_are_set: "bits_are b S \<Longrightarrow> 0 \<le> i \<Longrightarrow> bits_are (set_bit64 b i) (insert i S)"
  by (auto simp: bits_are_def set_bit64_def bit_simps)

lemma bits_are_range:
  "bits_are b S \<Longrightarrow> 0 \<le> i \<Longrightarrow> bits_are (bits_range b i hi) (S \<union> {i..hi})"
proof (induction b i hi arbitrary: S rule: bits_range.induct)
  case (1 b i hi)
  show ?case
  proof (cases "i \<le> hi")
    case True
    have "bits_are (bits_range (set_bit64 b i) (i + 1) hi) (insert i S \<union> {i + 1..hi})"
      by (rule "1.IH" [OF True bits_are_set]) (use "1.prems" in simp_all)
    moreover have "insert i S \<union> {i + 1..hi} = S \<union> {i..hi}" using True by auto
    ultimately show ?thesis using True by (simp add: bits_range.simps [of b])
  next
    case False
    then show ?thesis using "1.prems" by (simp add: bits_range.simps [of b])
  qed
qed

lemma bits_are_item:
  assumes "bits_are b S" and "0 \<le> lo"
  shows "bits_are (parse_item lo hi b item) (S \<union> ({lo..hi} \<inter> item_set item))"
proof (cases "dash \<in> set item")
  case True
  define u v where "u = atoi item" and "v = atoi (tl (dropWhile (\<lambda>c. c \<noteq> dash) item))"
  have "{lo..hi} \<inter> {u..v} = {(if u < lo then lo else u)..(if v > hi then hi else v)}" by auto
  moreover have "0 \<le> (if u < lo then lo else u)" using assms(2) by simp
  ultimately show ?thesis
    using bits_are_range [OF assms(1), of "if u < lo then lo else u" "if v > hi then hi else v"] True
    by (simp only: parse_item_def item_set_def u_def v_def Let_def if_True)
next
  case False
  moreover have "{lo..hi} \<inter> {atoi item} = (if lo \<le> atoi item \<and> atoi item \<le> hi then {atoi item} else {})" by auto
  ultimately show ?thesis using assms bits_are_set [OF assms(1), of "atoi item"]
    by (simp add: parse_item_def item_set_def Let_def)
qed

lemma bits_are_items:
  "bits_are b S \<Longrightarrow> 0 \<le> lo \<Longrightarrow>
     bits_are (foldl (parse_item lo hi) b items) (S \<union> ({lo..hi} \<inter> (\<Union>item \<in> set items. item_set item)))"
proof (induction items arbitrary: b S)
  case (Cons a items)
  show ?case using Cons.IH [OF bits_are_item [OF Cons.prems]] Cons.prems(2)
    by (simp add: Int_Un_distrib Un_assoc)
qed simp

lemma step_multiples:
  fixes i step :: int
  assumes "0 < step" "i \<le> hi"
  shows "{k. i \<le> k \<and> k \<le> hi \<and> (k - i) mod step = 0} =
    insert i {k. i + step \<le> k \<and> k \<le> hi \<and> (k - (i + step)) mod step = 0}"
proof -
  have sh: "(k - (i + step)) mod step = (k - i) mod step" for k
    using mod_add_self2 [of "k - (i + step)" step] by (simp add: algebra_simps)
  have lo: "i + step \<le> k" if "i \<le> k" "step dvd k - i" "k \<noteq> i" for k
    using zdvd_imp_le [of step "k - i"] that by simp
  show ?thesis using assms by (auto simp: sh intro: lo)
qed

lemma bits_are_step:
  "0 < step \<Longrightarrow> 0 \<le> i \<Longrightarrow> bits_are b S \<Longrightarrow> bits_step b i hi step = Some r \<Longrightarrow>
     bits_are r (S \<union> {k. i \<le> k \<and> k \<le> hi \<and> (k - i) mod step = 0})"
proof (induction b i hi step arbitrary: S rule: bits_step.induct)
  case (1 b i hi step)
  show ?case
  proof (cases "i \<le> hi")
    case True
    then have ov: "\<not> i + step > INT_MAX" and r: "bits_step (set_bit64 b i) (i + step) hi step = Some r"
      using "1.prems" by (auto simp: bits_step.simps [of b] split: if_splits)
    have "bits_are r (insert i S \<union> {k. i + step \<le> k \<and> k \<le> hi \<and> (k - (i + step)) mod step = 0})"
      by (rule "1.IH" [OF _ ov _ _ bits_are_set r]) (use "1.prems" True in simp_all)
    then show ?thesis using step_multiples [OF "1.prems"(1) True] by simp
  next
    case False
    then have "{k. i \<le> k \<and> k \<le> hi \<and> (k - i) mod step = 0} = {}" by auto
    moreover have "b = r" using False "1.prems" by (simp add: bits_step.simps [of b])
    ultimately show ?thesis using "1.prems"(3) by (simp only: Un_empty_right)
  qed
qed

lemma bits_step_defined: "i \<le> hi + step \<Longrightarrow> hi + step \<le> INT_MAX \<Longrightarrow> bits_step b i hi step \<noteq> None"
proof (induction b i hi step rule: bits_step.induct)
  case (1 b i hi step)
  show ?case
  proof (cases "i \<le> hi \<and> 0 < step")
    case True
    then have "\<not> i + step > INT_MAX" using "1.prems" by simp
    then show ?thesis using "1.IH" [OF True] "1.prems" True by (simp add: bits_step.simps [of b])
  next
    case False
    then show ?thesis by (simp only: bits_step.simps [of b]) simp
  qed
qed

lemma take2_iff: "take 2 f = [a, b] \<longleftrightarrow> length f \<ge> 2 \<and> f ! 0 = a \<and> f ! 1 = b"
  by (cases f; cases "tl f") auto

lemma parse_field_bits:
  assumes "0 \<le> lo" "parse_field f lo hi = Some b"
  shows "bits_are b (field_set f lo hi)"
proof -
  have z: "bits_are 0 {}" by (simp add: bits_are_def)
  consider (all) "f = [star]" | (step) "f \<noteq> [star]" "take 2 f = [star, slash]"
    | (items) "f \<noteq> [star]" "take 2 f \<noteq> [star, slash]" by blast
  then show ?thesis
  proof cases
    case all
    then show ?thesis using bits_are_range [OF z assms(1), of hi] assms(2)
      by (simp add: parse_field_def field_set_def)
  next
    case step
    then have "bits_step 0 lo hi (field_step f) = Some b" using assms(2)
      by (auto simp: parse_field_def take2_iff field_step_def Let_def max_def split: if_splits)
    from bits_are_step [OF _ assms(1) z this] show ?thesis using step
      by (simp add: field_set_def field_step_def Int_def)
  next
    case items
    then show ?thesis using bits_are_items [OF z assms(1), of hi] assms(2)
      by (auto simp: parse_field_def field_set_def strncpy_buf_def take2_iff split: if_splits)
  qed
qed

text \<open>Only a step that passes the limit of an int is outside the model's outcomes.\<close>

lemma parse_field_defined:
  assumes "lo \<le> hi" "parse_field f lo hi = None"
  shows "take 2 f = [star, slash] \<and> field_step f > INT_MAX - hi"
proof -
  have st: "take 2 f = [star, slash]" and n: "bits_step 0 lo hi (field_step f) = None"
    using assms(2) by (auto simp: parse_field_def take2_iff field_step_def Let_def max_def split: if_splits)
  have "1 \<le> field_step f" by (simp add: field_step_def)
  with st n bits_step_defined [of lo hi "field_step f" 0] assms(1) show ?thesis by force
qed

lemma cron_bit_iff: "cron_bit b n \<longleftrightarrow> n < 64 \<and> bit b n"
proof -
  have "b AND push_bit n 1 \<noteq> 0 \<longleftrightarrow> (\<exists>k < 64. bit b k \<and> k = n)"
    by (auto simp: bit_eq_iff bit_simps)
  then show ?thesis by (auto simp: cron_bit_def)
qed

lemma field_set_range: "x \<in> field_set f lo hi \<Longrightarrow> lo \<le> x \<and> x \<le> hi"
  by (simp add: field_set_def)

lemma cron_bit_ucast:
  assumes "bits_are b (field_set f lo hi)" "hi < int LENGTH('a::len)" "hi < 64"
  shows "cron_bit (ucast (ucast b :: 'a word)) n \<longleftrightarrow> int n \<in> field_set f lo hi"
  using assms field_set_range [of "int n" f lo hi]
  by (auto simp: cron_bit_iff bits_are_def bit_simps)

lemma cron_bit_bits:
  assumes "bits_are b (field_set f lo hi)" "hi < 64"
  shows "cron_bit b n \<longleftrightarrow> int n \<in> field_set f lo hi"
  using assms field_set_range [of "int n" f lo hi] by (auto simp: cron_bit_iff bits_are_def)

text \<open>When a parsed expression is due.\<close>

definition cron_due :: "cstring \<Rightarrow> tm \<Rightarrow> bool" where
  "cron_due expr t \<longleftrightarrow>
     (let f = cron_fields expr
      in int (tm_sec t) \<in> field_set (f ! 0) 0 59 \<and> int (tm_min t) \<in> field_set (f ! 1) 0 59
       \<and> int (tm_hour t) \<in> field_set (f ! 2) 0 23 \<and> int (tm_mday t) \<in> field_set (f ! 3) 1 31
       \<and> int (tm_mon t) + 1 \<in> field_set (f ! 4) 1 12 \<and> int (tm_wday t) \<in> field_set (f ! 5) 0 6)"

lemma parse_cron_expr_due:
  assumes "parse_cron_expr expr job = Some (ok, job1)"
  shows "ok \<longleftrightarrow> length (cron_fields expr) = 6"
    and "cj_name job1 = cj_name job" and "cj_cb job1 = cj_cb job"
    and "ok \<Longrightarrow> cron_matches job1 t \<longleftrightarrow> cron_due expr t"
proof -
  show "ok \<longleftrightarrow> length (cron_fields expr) = 6" "cj_name job1 = cj_name job" "cj_cb job1 = cj_cb job"
    using assms by (auto simp: parse_cron_expr_def Let_def split: if_splits option.splits)
  assume ok: ok
  define f where "f = cron_fields expr"
  obtain s m hr d mo w where
    b: "parse_field (f ! 0) 0 59 = Some s" "parse_field (f ! 1) 0 59 = Some m"
       "parse_field (f ! 2) 0 23 = Some hr" "parse_field (f ! 3) 1 31 = Some d"
       "parse_field (f ! 4) 1 12 = Some mo" "parse_field (f ! 5) 0 6 = Some w"
    and j: "job1 = job\<lparr>cj_seconds := s, cj_minutes := m, cj_hours := ucast hr, cj_days := ucast d,
                      cj_months := ucast mo, cj_weekdays := ucast w\<rparr>"
    using assms ok by (auto simp: parse_cron_expr_def f_def Let_def split: if_splits option.splits)
  note p = b [THEN parse_field_bits [rotated], simplified]
  have "int (tm_mon t + 1) = int (tm_mon t) + 1" by simp
  with p show "cron_matches job1 t \<longleftrightarrow> cron_due expr t"
    by (simp add: cron_matches_def cron_due_def j f_def [symmetric] Let_def cron_bit_ucast cron_bit_bits add.commute)
qed

section \<open>The job table\<close>

definition cron_jobs :: "'cb CronScheduler \<Rightarrow> 'cb CronJob list" where
  "cron_jobs s = take (nat (cs_count s)) (cs_jobs s)"

definition cron_inv :: "'cb CronScheduler \<Rightarrow> bool" where
  "cron_inv s \<longleftrightarrow> 0 \<le> cs_count s \<and> cs_count s \<le> cs_capacity s \<and> 0 < cs_capacity s \<and> cs_capacity s \<le> INT_MAX
                \<and> cs_capacity s = int (length (cs_jobs s))"

lemma find_job_spec:
  "find_job name js i = (if name \<in> cj_name ` set js then Some (i + length (takeWhile (\<lambda>j. cj_name j \<noteq> name) js)) else None)"
  by (induction js arbitrary: i) auto

lemma new_CronScheduler_inv:
  "new_CronScheduler mo mj = Some s \<Longrightarrow> cron_inv s \<and> cron_jobs s = [] \<and> \<not> cs_running s"
  by (auto simp: new_CronScheduler_def cron_inv_def cron_jobs_def split: alloc.splits)

text \<open>The slot after the last job, written or appended.\<close>

lemma cron_jobs_write:
  assumes "0 \<le> cs_count s" "nat (cs_count s) < length (cs_jobs s)"
  shows "cron_jobs (s\<lparr>cs_jobs := (cs_jobs s)[nat (cs_count s) := j]\<rparr>) = cron_jobs s"
    and "cron_jobs (s\<lparr>cs_jobs := (cs_jobs s)[nat (cs_count s) := j], cs_count := cs_count s + 1\<rparr>) = cron_jobs s @ [j]"
  using assms by (simp_all add: cron_jobs_def nat_add_distrib take_Suc_conv_app_nth)

lemma cron_grow_inv:
  assumes "cron_inv s" "cs_count s < 1073741824" "cron_grow mem s = Some s1"
  shows "cron_inv s1 \<and> cron_jobs s1 = cron_jobs s \<and> cs_count s1 = cs_count s \<and> nat (cs_count s1) < length (cs_jobs s1)"
proof (cases "cs_count s \<ge> cs_capacity s")
  case True
  with assms(1) have c: "cs_count s = cs_capacity s" by (simp add: cron_inv_def)
  have "wrap32 (cs_capacity s * 2) = cs_capacity s * 2" using assms c by (simp add: cron_inv_def)
  then show ?thesis using assms c
    by (auto simp: cron_grow_def cron_inv_def cron_jobs_def nat_mult_distrib Let_def split: alloc.splits)
next
  case False
  then show ?thesis using assms by (auto simp: cron_grow_def cron_inv_def)
qed

lemma find_takeWhile:
  "x \<in> set xs \<Longrightarrow> P x \<Longrightarrow> length (takeWhile (\<lambda>x. \<not> P x) xs) < length xs
     \<and> find P xs = Some (xs ! length (takeWhile (\<lambda>x. \<not> P x) xs))"
  by (induction xs) auto

lemma mset_move_last:
  assumes "i < length xs"
  shows "mset xs = add_mset (xs ! i) (mset (take (length xs - 1) (xs[i := last xs])))"
proof -
  from assms obtain ys y where xs: "xs = ys @ [y]" by (cases xs rule: rev_cases) auto
  show ?thesis
  proof (cases "i = length ys")
    case True
    then show ?thesis by (simp add: xs list_update_append)
  next
    case False
    with assms have i: "i < length ys" by (simp add: xs)
    then have "mset ys = add_mset (ys ! i) (mset ys - {#ys ! i#})" by simp
    with i show ?thesis by (simp add: xs list_update_append nth_append mset_update)
  qed
qed

section \<open>Polling\<close>

text \<open>The successive clock readings after \<open>n\<close>: each is in the same second as the one before or in the next.\<close>

fun clock_polls :: "nat \<Rightarrow> nat list \<Rightarrow> bool" where
  "clock_polls n [] = True"
| "clock_polls n (m # ms) = ((m = n \<or> m = Suc n) \<and> clock_polls m ms)"

lemma fire_jobs_filter:
  "fire_jobs (\<lambda>_. True) t i js = map cj_cb (filter (\<lambda>j. cron_matches j t) js)"
  by (induction js arbitrary: i) auto

lemma clock_polls_last: "clock_polls n ms \<Longrightarrow> n \<le> last (n # ms)"
  by (induction ms arbitrary: n) (auto split: if_splits, fastforce+)

lemma cron_worker_ticks:
  assumes "cs_running s" and lt: "\<And>n. tm_sec (localtime (Suc n)) \<noteq> tm_sec (localtime n)"
  shows "clock_polls n ms \<Longrightarrow>
     cron_worker (\<lambda>_. True) (Some (tm_sec (localtime n))) (map (\<lambda>m. (s, localtime m)) ms)
       = concat (map (\<lambda>m. map cj_cb (filter (\<lambda>j. cron_matches j (localtime m)) (cron_jobs s))) [Suc n..<Suc (last (n # ms))])"
proof (induction ms arbitrary: n)
  case (Cons m ms)
  then consider "m = n" | "m = Suc n" by auto
  then show ?case
  proof cases
    case 1
    then show ?thesis using Cons assms(1) by (simp add: cron_poll_def)
  next
    case 2
    have "last (m # ms) \<ge> Suc n" using clock_polls_last [of m ms] Cons.prems 2 by simp
    then have "[Suc n..<Suc (last (m # ms))] = Suc n # [Suc (Suc n)..<Suc (last (m # ms))]"
      by (intro upt_conv_Cons) simp
    with 2 Cons.IH [of m] Cons.prems assms(1) lt [of n] show ?thesis
      by (simp add: cron_poll_def fire_jobs_filter cron_jobs_def)
  qed
qed simp

section \<open>Properties\<close>

text \<open>(C26) Parsing a field computes exactly what the field denotes: bit \<open>n\<close> of the result is set when \<open>n\<close> lies
  in the range of the field and in one of its items, ranges or steps. The only input without a result is a
  step so large that the loop counter would leave the range of an int.\<close>

theorem parse_field_denotes:
  assumes "0 \<le> lo" "lo \<le> hi" "hi < 64"
  shows "case parse_field f lo hi of
           None \<Rightarrow> take 2 f = [star, slash] \<and> field_step f > INT_MAX - hi
         | Some b \<Rightarrow> {n. bit b n} = nat ` field_set f lo hi"
proof (cases "parse_field f lo hi")
  case None
  with parse_field_defined [OF assms(2) this] show ?thesis by simp
next
  case (Some b)
  have "bit b n \<longleftrightarrow> int n \<in> field_set f lo hi" for n
    using parse_field_bits [OF assms(1) Some] cron_bit_bits [of b f lo hi n] assms(3) bit_imp_le_length [of b n]
    by (auto simp: cron_bit_iff)
  then have "{n. bit b n} = {n. int n \<in> field_set f lo hi}" by simp
  also have "\<dots> = nat ` field_set f lo hi"
    using field_set_range [of _ f lo hi] assms(1) by (force simp: image_iff)
  finally show ?thesis using Some by simp
qed

theorem parse_field_denotes_witness:
  "case parse_field (lit ''1-3,7'') 0 59 of None \<Rightarrow> False | Some b \<Rightarrow> {n. bit b n} = nat ` field_set (lit ''1-3,7'') 0 59"
  using parse_field_denotes [of 0 59 "lit ''1-3,7''"]
  by (simp add: lit_def split: option.splits)

text \<open>\<^verbatim>\<open>addCron\<close> accepts an expression exactly when it has six fields; it then appends one job which matches
  a time when all six components are in what the fields denote. Otherwise, also when the table cannot grow,
  the jobs are unchanged.\<close>

theorem CronScheduler_addCron_due:
  assumes "cron_inv s" "cs_count s < 1073741824" "CronScheduler_addCron mem s name expr cb = Some (ok, s1)"
  shows "cron_inv s1
    \<and> (ok \<longrightarrow> length (cron_fields expr) = 6 \<and>
         (\<exists>j. cron_jobs s1 = cron_jobs s @ [j] \<and> cj_name j = take 63 name \<and> cj_cb j = cb
            \<and> (\<forall>t. cron_matches j t \<longleftrightarrow> cron_due expr t)))
    \<and> (\<not> ok \<longrightarrow> cron_jobs s1 = cron_jobs s \<and> (length (cron_fields expr) \<noteq> 6 \<or> mem = Alloc_Fail))"
proof (cases "cron_grow mem s")
  case None
  then show ?thesis using assms
    by (auto simp: CronScheduler_addCron_def cron_grow_def Let_def split: if_splits alloc.splits)
next
  case (Some s0)
  note g = cron_grow_inv [OF assms(1,2) Some]
  define job where "job = (zero_job cb)\<lparr>cj_name := take 63 name\<rparr>"
  obtain job1 where p: "parse_cron_expr expr job = Some (ok, job1)"
    and s1: "s1 = (if ok then s0\<lparr>cs_jobs := (cs_jobs s0)[nat (cs_count s0) := job1], cs_count := wrap32 (cs_count s0 + 1)\<rparr>
                   else s0\<lparr>cs_jobs := (cs_jobs s0)[nat (cs_count s0) := job1]\<rparr>)"
    using assms(3) Some
    by (auto simp: CronScheduler_addCron_def job_def Let_def split: option.splits bool.splits)
  have w: "wrap32 (cs_count s0 + 1) = cs_count s0 + 1" using g assms(1,2) by (simp add: cron_inv_def)
  note s1 = s1 [unfolded w]
  have inv: "cron_inv s1" using g by (auto simp: s1 cron_inv_def)
  have n: "0 \<le> cs_count s0" using g by (simp add: cron_inv_def)
  show ?thesis
    using inv cron_jobs_write [OF n, of job1] g parse_cron_expr_due [OF p]
    by (auto simp: s1 job_def zero_job_def)
qed

theorem CronScheduler_addCron_due_witness:
  "\<exists>s s1. CronScheduler_addCron Alloc_Fail (s :: nat CronScheduler) (lit ''a'') (lit ''* * * * * *'') 1 = Some (True, s1) \<and> cron_inv s1"
proof -
  define s :: "nat CronScheduler" where "s = the (new_CronScheduler (Alloc_Ok ()) (Alloc_Ok 0))"
  have s: "cron_inv s" "cs_count s < 1073741824"
    by (simp_all add: s_def new_CronScheduler_def cron_inv_def)
  have f: "cron_fields (lit ''* * * * * *'') = replicate 6 [star]"
    by (simp add: cron_fields_def strtok_def strncpy_buf_def lit_def) (simp add: numeral_eq_Suc)
  obtain s1 where a: "CronScheduler_addCron Alloc_Fail s (lit ''a'') (lit ''* * * * * *'') 1 = Some (True, s1)"
    by (simp add: CronScheduler_addCron_def cron_grow_def s_def new_CronScheduler_def parse_cron_expr_def f Let_def parse_field_def)
  with CronScheduler_addCron_due [OF s a] show ?thesis by blast
qed

text \<open>\<^verbatim>\<open>removeCron\<close> takes away exactly one job, the first one of the given name, keeps all the others, and
  reports failure exactly when there is no such job.\<close>

theorem CronScheduler_removeCron_exact:
  assumes "cron_inv s"
  shows "case CronScheduler_removeCron s name of (ok, s1) \<Rightarrow>
           cron_inv s1 \<and> (ok \<longleftrightarrow> (\<exists>j \<in> set (cron_jobs s). cj_name j = name))
         \<and> (if ok then mset (cron_jobs s) = add_mset (the (find (\<lambda>j. cj_name j = name) (cron_jobs s))) (mset (cron_jobs s1))
            else s1 = s)"
proof -
  define n js where "n = nat (cs_count s)" and "js = cron_jobs s"
  define i where "i = length (takeWhile (\<lambda>j. cj_name j \<noteq> name) js)"
  have len: "length js = n" "n \<le> length (cs_jobs s)" and js: "js = take n (cs_jobs s)"
    using assms by (auto simp: js_def n_def cron_jobs_def cron_inv_def)
  show ?thesis
  proof (cases "name \<in> cj_name ` set js")
    case False
    then show ?thesis using assms
      by (auto simp: CronScheduler_removeCron_def find_job_spec Let_def n_def [symmetric] js [symmetric] js_def)
  next
    case True
    then have i: "i < length js" and f: "find (\<lambda>j. cj_name j = name) js = Some (js ! i)"
      using find_takeWhile [of _ js "\<lambda>j. cj_name j = name"] by (auto simp: i_def)
    have r: "CronScheduler_removeCron s name
        = (True, s\<lparr>cs_jobs := (cs_jobs s)[i := cs_jobs s ! (n - 1)], cs_count := cs_count s - 1\<rparr>)"
      using True by (simp add: CronScheduler_removeCron_def find_job_spec Let_def n_def [symmetric] js [symmetric] i_def)
    have "cs_jobs s ! (n - 1) = last js" using i len by (cases "cs_jobs s = []") (auto simp: js last_conv_nth)
    moreover have "nat (cs_count s - 1) = n - 1" by (simp add: n_def)
    ultimately have "cron_jobs (snd (CronScheduler_removeCron s name)) = take (n - 1) (js[i := last js])"
      using i len by (simp add: r cron_jobs_def js take_update_swap min_def)
    with mset_move_last [OF i] len f i assms True show ?thesis
      by (auto simp: r js_def [symmetric] cron_inv_def n_def)
  qed
qed

text \<open>(C22) While the scheduler runs and the clock is polled at least once in every second, every second fires
  each job that matches it, and fires it once.\<close>

theorem cron_worker_every_second:
  assumes "cs_running s" "\<And>n. tm_sec (localtime (Suc n)) \<noteq> tm_sec (localtime n)" "clock_polls n ms"
  shows "cron_worker (\<lambda>_. True) None (map (\<lambda>m. (s, localtime m)) (n # ms))
       = concat (map (\<lambda>m. map cj_cb (filter (\<lambda>j. cron_matches j (localtime m)) (cron_jobs s))) [n..<Suc (last (n # ms))])"
  using clock_polls_last [OF assms(3)] cron_worker_ticks [where localtime = localtime, OF assms] assms(1)
  by (simp add: cron_poll_def fire_jobs_filter cron_jobs_def upt_conv_Cons del: upt_Suc)

theorem CronScheduler_removeCron_exact_witness:
  "case CronScheduler_removeCron \<lparr>cs_jobs = [zero_job 0, (zero_job 1)\<lparr>cj_name := [97]\<rparr>, zero_job (2 :: nat)],
       cs_count = 3, cs_capacity = 3, cs_running = False, cs_worker = False\<rparr> [97] of (ok, s1) \<Rightarrow> cron_inv s1 \<and> ok"
proof -
  let ?s = "\<lparr>cs_jobs = [zero_job 0, (zero_job 1)\<lparr>cj_name := [97]\<rparr>, zero_job (2 :: nat)],
       cs_count = 3, cs_capacity = 3, cs_running = False, cs_worker = False\<rparr>"
  have "cron_inv ?s" by (simp add: cron_inv_def)
  from CronScheduler_removeCron_exact [OF this, of "[97]"] show ?thesis
    by (simp add: cron_jobs_def split_beta)
qed

theorem cron_worker_every_second_witness:
  "cron_worker (\<lambda>_. True) None (map (\<lambda>m. (\<lparr>cs_jobs = [(zero_job (7 :: nat))\<lparr>cj_seconds := 15, cj_minutes := 1, cj_hours := 1,
       cj_days := 2, cj_months := 2, cj_weekdays := 1\<rparr>], cs_count = 1, cs_capacity = 1, cs_running = True, cs_worker = True\<rparr>,
       \<lparr>tm_sec = m mod 60, tm_min = 0, tm_hour = 0, tm_mday = 1, tm_mon = 0, tm_wday = 0\<rparr>)) [0, 0, 1, 2, 2, 3, 4]) = [7, 7, 7, 7]"
proof -
  let ?s = "\<lparr>cs_jobs = [(zero_job (7 :: nat))\<lparr>cj_seconds := 15, cj_minutes := 1, cj_hours := 1,
       cj_days := 2, cj_months := 2, cj_weekdays := 1\<rparr>], cs_count = 1, cs_capacity = 1, cs_running = True, cs_worker = True\<rparr>"
  let ?lt = "\<lambda>m. \<lparr>tm_sec = m mod 60, tm_min = 0, tm_hour = 0, tm_mday = 1, tm_mon = 0, tm_wday = 0\<rparr>"
  have lt: "tm_sec (?lt (Suc n)) \<noteq> tm_sec (?lt n)" for n
    using mod_Suc [of n 60] by (auto split: if_splits)
  have e: "cron_worker (\<lambda>_. True) None (map (\<lambda>m. (?s, ?lt m)) (0 # [0, 1, 2, 2, 3, 4]))
    = concat (map (\<lambda>m. map cj_cb (filter (\<lambda>j. cron_matches j (?lt m)) (cron_jobs ?s))) [0..<Suc (last (0 # [0, 1, 2, 2, 3, 4]))])"
    by (rule cron_worker_every_second [where localtime = ?lt, OF _ lt]) simp_all
  have u: "[0..<Suc (last (0 # [0, 1, 2, 2, 3, 4]))] = [0, 1, 2, 3, 4 :: nat]" by (simp add: upt_conv_Cons)
  show ?thesis by (rule trans [OF e]) (simp only: u, simp add: cron_jobs_def cron_matches_def cron_bit_def zero_job_def)
qed

end
