(* ===== verification/Hash_Map.thy ===== *)
theory Hash_Map
  imports Array_List
begin

text \<open>
  \<^verbatim>\<open>src/src/hashmap.c\<close>: the string-keyed chained hash map used for JSON objects, HTTP headers,
  route parameters and sessions. A bucket is the list of its nodes in chain order, a node a
  key (C string) and an owned value pointer, possibly NULL. Keys are hashed in full but
  compared with \<^verbatim>\<open>strncmp(.., MAX_KEY_LEN)\<close>. Each method runs under the map's mutex and is one
  atomic step. \<open>hm_map\<close> reads the finite map the buckets stand for, \<open>hm_inv\<close> is the bucket
  invariant; the locale \<open>keyed_map\<close> is the contract of a map for its clients.
\<close>

section \<open>State and operations\<close>

type_synonym hm_node = "cstring \<times> ptr"

record HashMap =
  hm_buckets :: "hm_node list list"
  hm_capacity :: int
  hm_size :: int

abbreviation MAX_KEY_LEN :: nat where "MAX_KEY_LEN \<equiv> 128"

text \<open>\<^verbatim>\<open>hash = ((hash << 5) + hash) + c\<close> with \<^verbatim>\<open>c\<close> a sign-extended \<^verbatim>\<open>char\<close>, in 32 bits.\<close>

fun hash_str_from :: "u32 \<Rightarrow> cstring \<Rightarrow> u32" where
  "hash_str_from hash [] = hash"
| "hash_str_from hash (c # str) = hash_str_from ((push_bit 5 hash + hash) + scast c) str"

definition hash_str :: "cstring \<Rightarrow> u32" where
  "hash_str str = hash_str_from 5381 str"

definition hm_index :: "HashMap \<Rightarrow> cstring \<Rightarrow> nat" where
  "hm_index self key = unat (hash_str key) mod nat (hm_capacity self)"

abbreviation hm_bucket :: "HashMap \<Rightarrow> cstring \<Rightarrow> hm_node list" where
  "hm_bucket self key \<equiv> hm_buckets self ! hm_index self key"

abbreviation hm_set_bucket :: "HashMap \<Rightarrow> cstring \<Rightarrow> hm_node list \<Rightarrow> HashMap" where
  "hm_set_bucket self key b \<equiv> self\<lparr>hm_buckets := (hm_buckets self)[hm_index self key := b]\<rparr>"

definition new_HashMap :: "unit alloc \<Rightarrow> unit alloc \<Rightarrow> int \<Rightarrow> HashMap option" where
  "new_HashMap mem mem_buckets initial_capacity =
     (let cap = (if initial_capacity \<le> 0 then 16 else initial_capacity)
      in case mem of Alloc_Fail \<Rightarrow> None
         | Alloc_Ok _ \<Rightarrow> (case mem_buckets of Alloc_Fail \<Rightarrow> None
             | Alloc_Ok _ \<Rightarrow> Some \<lparr>hm_buckets = replicate (nat cap) [], hm_capacity = cap, hm_size = 0\<rparr>))"

text \<open>Walking a chain: the value of the first node whose key matches.\<close>

fun chain_get :: "cstring \<Rightarrow> (cstring \<times> 'v) list \<Rightarrow> 'v option" where
  "chain_get key [] = None"
| "chain_get key ((k, v) # nodes) =
     (if strncmp_eq k key MAX_KEY_LEN then Some v else chain_get key nodes)"

text \<open>The chain with the value of the first matching node replaced.\<close>

fun chain_set :: "cstring \<Rightarrow> 'v \<Rightarrow> (cstring \<times> 'v) list \<Rightarrow> (cstring \<times> 'v) list" where
  "chain_set key value [] = []"
| "chain_set key value ((k, v) # nodes) =
     (if strncmp_eq k key MAX_KEY_LEN then (k, value) # nodes else (k, v) # chain_set key value nodes)"

text \<open>The chain with the first matching node unlinked.\<close>

fun chain_unlink :: "cstring \<Rightarrow> (cstring \<times> 'v) list \<Rightarrow> (cstring \<times> 'v) list" where
  "chain_unlink key [] = []"
| "chain_unlink key ((k, v) # nodes) =
     (if strncmp_eq k key MAX_KEY_LEN then nodes else (k, v) # chain_unlink key nodes)"

definition HashMap_put ::
  "unit alloc \<Rightarrow> unit alloc \<Rightarrow> 'p classes \<Rightarrow> 'p heap \<Rightarrow> HashMap \<Rightarrow> cstring \<Rightarrow> ptr \<Rightarrow> 'p heap \<times> HashMap" where
  "HashMap_put mem_node mem_key cl h self key value =
     (case chain_get key (hm_bucket self key) of
        Some old \<Rightarrow>
          (RETAIN (RELEASE cl h old) value,
           hm_set_bucket self key (chain_set key value (hm_bucket self key)))
      | None \<Rightarrow>
          (case mem_node of Alloc_Fail \<Rightarrow> (h, self)
           | Alloc_Ok _ \<Rightarrow> (case mem_key of Alloc_Fail \<Rightarrow> (h, self)
               | Alloc_Ok _ \<Rightarrow>
                   (RETAIN h value,
                    (hm_set_bucket self key ((key, value) # hm_bucket self key))
                      \<lparr>hm_size := wrap32 (hm_size self + 1)\<rparr>))))"

definition HashMap_get :: "HashMap \<Rightarrow> cstring \<Rightarrow> ptr" where
  "HashMap_get self key =
     (case chain_get key (hm_bucket self key) of None \<Rightarrow> None | Some val \<Rightarrow> val)"

definition HashMap_hasKey :: "HashMap \<Rightarrow> cstring \<Rightarrow> bool" where
  "HashMap_hasKey self key \<longleftrightarrow> HashMap_get self key \<noteq> None"

definition HashMap_detach :: "HashMap \<Rightarrow> cstring \<Rightarrow> ptr \<times> HashMap" where
  "HashMap_detach self key =
     (case chain_get key (hm_bucket self key) of
        None \<Rightarrow> (None, self)
      | Some val \<Rightarrow>
          (val, (hm_set_bucket self key (chain_unlink key (hm_bucket self key)))
                  \<lparr>hm_size := wrap32 (hm_size self - 1)\<rparr>))"

definition HashMap_remove :: "'p classes \<Rightarrow> 'p heap \<Rightarrow> HashMap \<Rightarrow> cstring \<Rightarrow> 'p heap \<times> HashMap" where
  "HashMap_remove cl h self key =
     (case chain_get key (hm_bucket self key) of
        None \<Rightarrow> (h, self)
      | Some val \<Rightarrow>
          (RELEASE cl h val,
           (hm_set_bucket self key (chain_unlink key (hm_bucket self key)))
             \<lparr>hm_size := wrap32 (hm_size self - 1)\<rparr>))"

text \<open>The nodes in the order the nested loops of the traversals visit them.\<close>

definition hm_nodes :: "HashMap \<Rightarrow> hm_node list" where
  "hm_nodes self = concat (take (nat (hm_capacity self)) (hm_buckets self))"

definition HashMap_clear :: "'p classes \<Rightarrow> 'p heap \<Rightarrow> HashMap \<Rightarrow> 'p heap \<times> HashMap" where
  "HashMap_clear cl h self =
     (release_all cl h (map snd (hm_nodes self)),
      self\<lparr>hm_buckets := replicate (nat (hm_capacity self)) []
             @ drop (nat (hm_capacity self)) (hm_buckets self), hm_size := 0\<rparr>)"

text \<open>The finalizer skips NULL values, as \<open>RELEASE\<close> does by itself.\<close>

definition HashMap_Finalize :: "'p classes \<Rightarrow> 'p heap \<Rightarrow> HashMap \<Rightarrow> 'p heap" where
  "HashMap_Finalize cl h self =
     release_all cl h (filter (\<lambda>v. v \<noteq> None) (map snd (hm_nodes self)))"

text \<open>The calls \<^verbatim>\<open>forEach\<close> makes of its action, in order.\<close>

definition HashMap_forEach :: "HashMap \<Rightarrow> hm_node list" where
  "HashMap_forEach self = hm_nodes self"

text \<open>\<^verbatim>\<open>iterate\<close>: the callback sees and updates a context and stops the traversal with \<open>False\<close>.\<close>

fun iterate_nodes :: "(cstring \<Rightarrow> ptr \<Rightarrow> 'c \<Rightarrow> bool \<times> 'c) \<Rightarrow> hm_node list \<Rightarrow> 'c \<Rightarrow> 'c" where
  "iterate_nodes fn [] ctx = ctx"
| "iterate_nodes fn ((k, v) # nodes) ctx =
     (case fn k v ctx of (True, ctx') \<Rightarrow> iterate_nodes fn nodes ctx' | (False, ctx') \<Rightarrow> ctx')"

definition HashMap_iterate :: "HashMap \<Rightarrow> (cstring \<Rightarrow> ptr \<Rightarrow> 'c \<Rightarrow> bool \<times> 'c) \<Rightarrow> 'c \<Rightarrow> 'c" where
  "HashMap_iterate self fn ctx = iterate_nodes fn (hm_nodes self) ctx"

definition HashMap_getSize :: "HashMap \<Rightarrow> int" where
  "HashMap_getSize self = hm_size self"

definition HashMap_isEmpty :: "HashMap \<Rightarrow> bool" where
  "HashMap_isEmpty self \<longleftrightarrow> hm_size self = 0"

text \<open>\<^verbatim>\<open>values\<close>: a new array list that retains every value; \<open>mem i\<close> answers the \<open>i\<close>-th growth.\<close>

fun add_values :: "(nat \<Rightarrow> ptr alloc) \<Rightarrow> nat \<Rightarrow> 'p heap \<times> ArrayList \<Rightarrow> hm_node list \<Rightarrow> 'p heap \<times> ArrayList" where
  "add_values mem i (h, l) [] = (h, l)"
| "add_values mem i (h, l) ((k, v) # nodes) = add_values mem (Suc i) (ArrayList_add (mem i) h l v) nodes"

definition HM_values ::
  "addr alloc \<Rightarrow> unit alloc \<Rightarrow> (nat \<Rightarrow> ptr alloc) \<Rightarrow> 'p \<Rightarrow> 'p heap \<Rightarrow> HashMap \<Rightarrow> 'p heap \<times> ArrayList option" where
  "HM_values mem_obj mem_items mem p h self =
     (let init_cap = (if hm_size self > 0 then hm_size self else 10)
      in case new_ArrayList mem_obj mem_items p h init_cap of
           (h1, None) \<Rightarrow> (h1, None)
         | (h1, Some l) \<Rightarrow> (case add_values mem 0 (h1, l) (hm_nodes self) of (h2, l2) \<Rightarrow> (h2, Some l2)))"

text \<open>
  \<^verbatim>\<open>keys\<close>: a new array list of fresh strings, one per node. \<open>mem_str i\<close> is the address (or
  failure) of the \<open>i\<close>-th string, \<open>mk\<close> its payload; the list's reference is the only one left.
\<close>

fun add_keys ::
  "'p classes \<Rightarrow> (cstring \<Rightarrow> 'p) \<Rightarrow> (nat \<Rightarrow> addr alloc) \<Rightarrow> (nat \<Rightarrow> ptr alloc) \<Rightarrow> nat
    \<Rightarrow> 'p heap \<times> ArrayList \<Rightarrow> hm_node list \<Rightarrow> 'p heap \<times> ArrayList" where
  "add_keys cl mk mem_str mem i (h, l) [] = (h, l)"
| "add_keys cl mk mem_str mem i (h, l) ((k, v) # nodes) =
     (case mem_str i of
        Alloc_Fail \<Rightarrow> add_keys cl mk mem_str mem (Suc i) (h, l) nodes
      | Alloc_Ok a \<Rightarrow>
          (let h1 = Object_Init (calloc_object h a (mk k)) (Some a) ''String''
           in case ArrayList_add (mem i) h1 l (Some a) of
                (h2, l2) \<Rightarrow> add_keys cl mk mem_str mem (Suc i) (RELEASE cl h2 (Some a), l2) nodes))"

definition HM_keys ::
  "addr alloc \<Rightarrow> unit alloc \<Rightarrow> 'p classes \<Rightarrow> (cstring \<Rightarrow> 'p) \<Rightarrow> (nat \<Rightarrow> addr alloc) \<Rightarrow> (nat \<Rightarrow> ptr alloc)
    \<Rightarrow> 'p \<Rightarrow> 'p heap \<Rightarrow> HashMap \<Rightarrow> 'p heap \<times> ArrayList option" where
  "HM_keys mem_obj mem_items cl mk mem_str mem p h self =
     (let init_cap = (if hm_size self > 0 then hm_size self else 10)
      in case new_ArrayList mem_obj mem_items p h init_cap of
           (h1, None) \<Rightarrow> (h1, None)
         | (h1, Some l) \<Rightarrow>
             (case add_keys cl mk mem_str mem 0 (h1, l) (hm_nodes self) of (h2, l2) \<Rightarrow> (h2, Some l2)))"

section \<open>The contract of a keyed map\<close>

locale keyed_map =
  fixes inv :: "'m \<Rightarrow> bool"
    and amap :: "'m \<Rightarrow> 'k \<Rightarrow> 'v option"
    and keq :: "'k \<Rightarrow> 'k \<Rightarrow> bool"
    and key_ok :: "'k \<Rightarrow> bool"
    and put :: "'m \<Rightarrow> 'k \<Rightarrow> 'v \<Rightarrow> 'm"
    and del :: "'m \<Rightarrow> 'k \<Rightarrow> 'm"
  assumes put_map: "inv m \<Longrightarrow> key_ok k \<Longrightarrow> key_ok k' \<Longrightarrow>
      amap (put m k v) k' = (if keq k k' then Some v else amap m k')"
    and del_map: "inv m \<Longrightarrow> key_ok k \<Longrightarrow> key_ok k' \<Longrightarrow>
      amap (del m k) k' = (if keq k k' then None else amap m k')"
    and inv_put: "inv m \<Longrightarrow> key_ok k \<Longrightarrow> inv (put m k v)"
    and inv_del: "inv m \<Longrightarrow> key_ok k \<Longrightarrow> inv (del m k)"
begin

lemma put_put:
  assumes "inv m" and "key_ok k" and "key_ok k'"
  shows "amap (put (put m k v) k w) k' = amap (put m k w) k'"
  using assms by (simp add: put_map inv_put)

lemma put_commute:
  assumes "inv m" and "key_ok a" and "key_ok b" and "key_ok k" and "\<not> (keq a k \<and> keq b k)"
  shows "amap (put (put m a v) b w) k = amap (put (put m b w) a v) k"
  using assms by (auto simp: put_map inv_put)

lemma del_put:
  assumes "inv m" and "key_ok k" and "key_ok k'"
  shows "amap (del (put m k v) k) k' = amap (del m k) k'"
  using assms by (simp add: put_map del_map inv_put)

lemma put_all:
  assumes "inv m" and "list_all (\<lambda>(k, v). key_ok k) kvs" and "key_ok k"
  shows "inv (foldl (\<lambda>m (k, v). put m k v) m kvs)
    \<and> amap (foldl (\<lambda>m (k, v). put m k v) m kvs) k =
       (case find (\<lambda>(k', v). keq k' k) (rev kvs) of None \<Rightarrow> amap m k | Some (_, v) \<Rightarrow> Some v)"
  using assms
proof (induction kvs rule: rev_induct)
  case Nil
  then show ?case by simp
next
  case (snoc kv kvs)
  then show ?case by (cases kv) (auto simp: put_map inv_put)
qed

end

section \<open>Invariant and abstraction\<close>

definition hm_key_ok :: "cstring \<Rightarrow> bool" where
  "hm_key_ok k \<longleftrightarrow> length k \<le> MAX_KEY_LEN"

definition hm_bucket_ok :: "HashMap \<Rightarrow> nat \<Rightarrow> hm_node list \<Rightarrow> bool" where
  "hm_bucket_ok m i b \<longleftrightarrow>
     distinct (map fst b) \<and> (\<forall>k \<in> set (map fst b). hm_key_ok k \<and> hm_index m k = i)"

definition hm_inv :: "HashMap \<Rightarrow> bool" where
  "hm_inv m \<longleftrightarrow> 0 < hm_capacity m \<and> length (hm_buckets m) = nat (hm_capacity m)
     \<and> (\<forall>i < length (hm_buckets m). hm_bucket_ok m i (hm_buckets m ! i))"

definition hm_map :: "HashMap \<Rightarrow> cstring \<Rightarrow> ptr option" where
  "hm_map m k = map_of (hm_bucket m k) k"

lemma strncmp_eq_key: "hm_key_ok a \<Longrightarrow> hm_key_ok b \<Longrightarrow> strncmp_eq a b MAX_KEY_LEN \<longleftrightarrow> a = b"
  by (simp add: strncmp_eq_take hm_key_ok_def)

lemma hm_index_upd [simp]: "hm_index (m\<lparr>hm_buckets := bs\<rparr>) k = hm_index m k"
  "hm_index (m\<lparr>hm_size := s\<rparr>) k = hm_index m k"
  by (simp_all add: hm_index_def)

lemma hm_index_less: "hm_inv m \<Longrightarrow> hm_index m k < length (hm_buckets m)"
  by (simp add: hm_inv_def hm_index_def)

lemma hm_bucket_keys: "hm_inv m \<Longrightarrow> hm_bucket_ok m (hm_index m k) (hm_bucket m k)"
  using hm_index_less [of m k] by (simp add: hm_inv_def)

lemma chain_get_map_of:
  "list_all hm_key_ok (map fst b) \<Longrightarrow> hm_key_ok k \<Longrightarrow> chain_get k b = map_of b k"
  by (induction k b rule: chain_get.induct) (auto simp: strncmp_eq_key)

lemma chain_set_keys [simp]: "map fst (chain_set k v b) = map fst b"
  by (induction k v b rule: chain_set.induct) auto

lemma chain_set_map_of:
  "list_all hm_key_ok (map fst b) \<Longrightarrow> hm_key_ok k \<Longrightarrow> map_of b k \<noteq> None \<Longrightarrow>
     map_of (chain_set k v b) x = ((map_of b)(k \<mapsto> v)) x"
  by (induction k v b rule: chain_set.induct) (auto simp: strncmp_eq_key)

lemma chain_unlink_keys: "set (chain_unlink k b) \<subseteq> set b"
  by (induction k b rule: chain_unlink.induct) auto

lemma chain_unlink_distinct: "distinct (map fst b) \<Longrightarrow> distinct (map fst (chain_unlink k b))"
  using chain_unlink_keys by (induction k b rule: chain_unlink.induct) fastforce+

lemma chain_unlink_map_of:
  "list_all hm_key_ok (map fst b) \<Longrightarrow> hm_key_ok k \<Longrightarrow> distinct (map fst b) \<Longrightarrow>
     map_of (chain_unlink k b) x = ((map_of b)(k := None)) x"
  by (induction k b rule: chain_unlink.induct) (auto simp: strncmp_eq_key map_of_eq_None_iff, force)

lemma chain_unlink_length:
  "chain_get k b \<noteq> None \<Longrightarrow> length b = Suc (length (chain_unlink k b))"
  by (induction k b rule: chain_unlink.induct) auto

lemma hm_bucket_ok_list_all: "hm_bucket_ok m i b \<Longrightarrow> list_all hm_key_ok (map fst b)"
  by (auto simp: hm_bucket_ok_def list_all_iff)

lemma chain_get_hm_map: "hm_inv m \<Longrightarrow> hm_key_ok k \<Longrightarrow> chain_get k (hm_bucket m k) = hm_map m k"
  using chain_get_map_of [OF hm_bucket_ok_list_all [OF hm_bucket_keys]] by (simp add: hm_map_def)

text \<open>Replacing the bucket of \<open>k\<close> by one that differs from it at \<open>k\<close> only.\<close>

lemma hm_set_bucket_inv:
  assumes "hm_inv m" and "hm_bucket_ok m (hm_index m k) b"
  shows "hm_inv ((hm_set_bucket m k b)\<lparr>hm_size := s\<rparr>)" and "hm_inv (hm_set_bucket m k b)"
proof -
  have upd: "hm_bucket_ok (m\<lparr>hm_buckets := bs\<rparr>) i b = hm_bucket_ok m i b"
    "hm_bucket_ok (m\<lparr>hm_buckets := bs, hm_size := s\<rparr>) i b = hm_bucket_ok m i b" for bs i b
    by (simp_all add: hm_bucket_ok_def hm_index_def)
  have "hm_bucket_ok m i ((hm_buckets m)[hm_index m k := b] ! i)" if "i < length (hm_buckets m)" for i
    using that assms by (cases "i = hm_index m k") (simp_all add: hm_inv_def)
  then show "hm_inv (hm_set_bucket m k b)" "hm_inv ((hm_set_bucket m k b)\<lparr>hm_size := s\<rparr>)"
    using assms(1) by (simp_all add: hm_inv_def upd)
qed

lemma hm_set_bucket_map:
  assumes "hm_inv m" and "map_of b = (map_of (hm_bucket m k))(k := v)"
  shows "hm_map ((hm_set_bucket m k b)\<lparr>hm_size := s\<rparr>) = (hm_map m)(k := v)"
    and "hm_map (hm_set_bucket m k b) = (hm_map m)(k := v)"
proof -
  have "hm_map (hm_set_bucket m k b) k' = ((hm_map m)(k := v)) k'" for k'
    using assms hm_index_less [OF assms(1), of k]
    by (auto simp: hm_map_def nth_list_update)
  then show "hm_map (hm_set_bucket m k b) = (hm_map m)(k := v)" by blast
  then show "hm_map ((hm_set_bucket m k b)\<lparr>hm_size := s\<rparr>) = (hm_map m)(k := v)"
    by (simp add: hm_map_def fun_eq_iff)
qed

lemma HashMap_put_spec:
  assumes "hm_inv m" and "hm_key_ok k"
  shows "hm_inv (snd (HashMap_put (Alloc_Ok ()) (Alloc_Ok ()) cl h m k v))
    \<and> hm_map (snd (HashMap_put (Alloc_Ok ()) (Alloc_Ok ()) cl h m k v)) = (hm_map m)(k \<mapsto> v)"
proof -
  let ?b = "hm_bucket m k"
  have ok: "hm_bucket_ok m (hm_index m k) ?b" using assms(1) by (rule hm_bucket_keys)
  note la = hm_bucket_ok_list_all [OF ok]
  show ?thesis
  proof (cases "chain_get k ?b")
    case None
    then have new: "k \<notin> fst ` set ?b"
      using chain_get_map_of [OF la assms(2)] by (simp add: map_of_eq_None_iff)
    have "hm_bucket_ok m (hm_index m k) ((k, v) # ?b)"
      using ok new assms(2) by (auto simp: hm_bucket_ok_def)
    with None show ?thesis
      by (simp add: HashMap_put_def hm_set_bucket_inv [OF assms(1)] hm_set_bucket_map [OF assms(1)])
  next
    case (Some old)
    then have "map_of ?b k \<noteq> None" using chain_get_map_of [OF la assms(2)] by auto
    then have "map_of (chain_set k v ?b) = (map_of ?b)(k \<mapsto> v)"
      using chain_set_map_of [OF la assms(2)] by blast
    moreover have "hm_bucket_ok m (hm_index m k) (chain_set k v ?b)"
      using ok unfolding hm_bucket_ok_def chain_set_keys .
    ultimately show ?thesis using Some
      by (simp add: HashMap_put_def hm_set_bucket_inv [OF assms(1)] hm_set_bucket_map [OF assms(1)])
  qed
qed

lemma HashMap_unlink_spec:
  assumes "hm_inv m" and "hm_key_ok k"
  shows "hm_inv ((hm_set_bucket m k (chain_unlink k (hm_bucket m k)))\<lparr>hm_size := s\<rparr>)
    \<and> hm_map ((hm_set_bucket m k (chain_unlink k (hm_bucket m k)))\<lparr>hm_size := s\<rparr>) = (hm_map m)(k := None)"
proof -
  let ?b = "hm_bucket m k"
  have ok: "hm_bucket_ok m (hm_index m k) ?b" using assms(1) by (rule hm_bucket_keys)
  then have "distinct (map fst ?b)" by (simp add: hm_bucket_ok_def)
  then have "map_of (chain_unlink k ?b) = (map_of ?b)(k := None)"
    using chain_unlink_map_of [OF hm_bucket_ok_list_all [OF ok] assms(2)] by blast
  moreover have "hm_bucket_ok m (hm_index m k) (chain_unlink k ?b)"
    using ok chain_unlink_keys [of k ?b] chain_unlink_distinct [of ?b k] by (auto simp: hm_bucket_ok_def)
  ultimately show ?thesis
    by (simp add: hm_set_bucket_inv [OF assms(1)] hm_set_bucket_map [OF assms(1)])
qed

lemma hm_map_absent: "hm_map m k = None \<Longrightarrow> (hm_map m)(k := None) = hm_map m"
  by auto

lemma HashMap_remove_spec:
  assumes "hm_inv m" and "hm_key_ok k"
  shows "hm_inv (snd (HashMap_remove cl h m k))
    \<and> hm_map (snd (HashMap_remove cl h m k)) = (hm_map m)(k := None)"
  using assms HashMap_unlink_spec [OF assms]
  by (auto simp: HashMap_remove_def chain_get_hm_map hm_map_absent split: option.splits)

lemma HashMap_detach_spec:
  assumes "hm_inv m" and "hm_key_ok k"
  shows "fst (HashMap_detach m k) = HashMap_get m k
    \<and> hm_inv (snd (HashMap_detach m k)) \<and> hm_map (snd (HashMap_detach m k)) = (hm_map m)(k := None)"
  using assms HashMap_unlink_spec [OF assms]
  by (auto simp: HashMap_detach_def HashMap_get_def chain_get_hm_map hm_map_absent split: option.splits)

lemma HashMap_get_spec:
  "hm_inv m \<Longrightarrow> hm_key_ok k \<Longrightarrow> HashMap_get m k = (case hm_map m k of None \<Rightarrow> None | Some v \<Rightarrow> v)"
  by (simp add: HashMap_get_def chain_get_hm_map)

interpretation hm: keyed_map hm_inv hm_map "(=)" hm_key_ok
  "\<lambda>m k v. snd (HashMap_put (Alloc_Ok ()) (Alloc_Ok ()) cl h m k v)"
  "\<lambda>m k. snd (HashMap_remove cl h m k)" for cl :: "'p classes" and h
  by unfold_locales (auto simp: HashMap_put_spec HashMap_remove_spec)

section \<open>Size\<close>

definition hm_wf :: "HashMap \<Rightarrow> bool" where
  "hm_wf m \<longleftrightarrow> hm_inv m \<and> hm_size m = int (length (hm_nodes m)) \<and> hm_size m \<le> INT_MAX"

lemma hm_nodes_concat: "hm_inv m \<Longrightarrow> hm_nodes m = concat (hm_buckets m)"
  by (simp add: hm_nodes_def hm_inv_def)

lemma hm_nodes_set_bucket:
  assumes "hm_inv m"
  shows "length (concat ((hm_buckets m)[hm_index m k := b])) + length (hm_bucket m k) =
    length (concat (hm_buckets m)) + length b"
proof -
  let ?i = "hm_index m k" and ?bs = "hm_buckets m"
  have i: "?i < length ?bs" using assms by (rule hm_index_less)
  then have "?bs = take ?i ?bs @ ?bs ! ?i # drop (Suc ?i) ?bs" by (rule id_take_nth_drop)
  then have "length (concat ?bs) = length (concat (take ?i ?bs)) + length (?bs ! ?i) + length (concat (drop (Suc ?i) ?bs))"
    by (metis ab_semigroup_add_class.add_ac(1) concat.simps(2) concat_append length_append)
  with i show ?thesis by (simp add: upd_conv_take_nth_drop)
qed

lemma hm_wf_update:
  assumes "hm_wf m" and "hm_inv ((hm_set_bucket m k b)\<lparr>hm_size := s\<rparr>)" and "s \<le> INT_MAX"
    and "s + int (length (hm_bucket m k)) = hm_size m + int (length b)"
  shows "hm_wf ((hm_set_bucket m k b)\<lparr>hm_size := s\<rparr>)"
proof -
  have inv: "hm_inv m" using assms(1) by (simp add: hm_wf_def)
  have "hm_nodes ((hm_set_bucket m k b)\<lparr>hm_size := s\<rparr>) = concat ((hm_buckets m)[hm_index m k := b])"
    using assms(2) by (simp add: hm_nodes_concat)
  then show ?thesis
    using assms hm_nodes_set_bucket [OF inv, of k b] by (simp add: hm_wf_def hm_nodes_concat [OF inv])
qed

lemma hm_size_same [simp]: "m\<lparr>hm_buckets := bs, hm_size := hm_size m\<rparr> = m\<lparr>hm_buckets := bs\<rparr>"
  by simp

lemma HashMap_put_wf:
  assumes "hm_wf m" and "hm_key_ok k" and "hm_size m < INT_MAX"
  shows "hm_wf (snd (HashMap_put (Alloc_Ok ()) (Alloc_Ok ()) cl h m k v))"
proof -
  let ?m = "snd (HashMap_put (Alloc_Ok ()) (Alloc_Ok ()) cl h m k v)"
  have inv: "hm_inv ?m" using HashMap_put_spec [of m k] assms(1,2) unfolding hm_wf_def by blast
  have sz: "0 \<le> hm_size m" using assms(1) by (simp add: hm_wf_def)
  show ?thesis
  proof (cases "chain_get k (hm_bucket m k)")
    case None
    then have m: "?m = (hm_set_bucket m k ((k, v) # hm_bucket m k))\<lparr>hm_size := hm_size m + 1\<rparr>"
      using sz assms(3) by (simp add: HashMap_put_def)
    show ?thesis unfolding m by (rule hm_wf_update [OF assms(1)]) (use inv m assms(3) in auto)
  next
    case (Some old)
    then have m: "?m = (hm_set_bucket m k (chain_set k v (hm_bucket m k)))\<lparr>hm_size := hm_size m\<rparr>"
      by (simp add: HashMap_put_def)
    have "length (chain_set k v (hm_bucket m k)) = length (hm_bucket m k)"
      by (metis chain_set_keys length_map)
    then show ?thesis unfolding m by (intro hm_wf_update [OF assms(1)]) (use inv m assms in auto)
  qed
qed

lemma HashMap_unlink_wf:
  assumes "hm_wf m" and "hm_key_ok k" and "chain_get k (hm_bucket m k) \<noteq> None"
  shows "hm_wf ((hm_set_bucket m k (chain_unlink k (hm_bucket m k)))\<lparr>hm_size := wrap32 (hm_size m - 1)\<rparr>)"
proof -
  have len: "length (hm_bucket m k) = Suc (length (chain_unlink k (hm_bucket m k)))"
    using assms(3) by (rule chain_unlink_length)
  have sz: "0 \<le> hm_size m" "hm_size m \<le> INT_MAX" using assms(1) by (simp_all add: hm_wf_def)
  then have "wrap32 (hm_size m - 1) = hm_size m - 1" by simp
  then show ?thesis
    using HashMap_unlink_spec [of m k "hm_size m - 1"] assms len sz
    by (intro hm_wf_update) (auto simp: hm_wf_def)
qed

lemma HashMap_remove_wf:
  "hm_wf m \<Longrightarrow> hm_key_ok k \<Longrightarrow> hm_wf (snd (HashMap_remove cl h m k))"
  using HashMap_unlink_wf [of m k] by (auto simp: HashMap_remove_def split: option.splits)

lemma HashMap_detach_wf:
  "hm_wf m \<Longrightarrow> hm_key_ok k \<Longrightarrow> hm_wf (snd (HashMap_detach m k))"
  using HashMap_unlink_wf [of m k] by (auto simp: HashMap_detach_def split: option.splits)

lemma hm_homes:
  assumes "hm_inv m"
  shows "\<forall>i < length (map (map fst) (hm_buckets m)). distinct (map (map fst) (hm_buckets m) ! i)
    \<and> (\<forall>k \<in> set (map (map fst) (hm_buckets m) ! i). hm_index m k = i)"
  using assms by (simp add: hm_inv_def hm_bucket_ok_def)

lemma distinct_hm_nodes: "hm_inv m \<Longrightarrow> distinct (map fst (hm_nodes m))"
  using distinct_concat_home [OF hm_homes] by (simp add: hm_nodes_concat map_concat)

lemma hm_node_bucket:
  assumes "hm_inv m"
  shows "k \<in> fst ` set (hm_nodes m) \<longleftrightarrow> k \<in> fst ` set (hm_bucket m k)"
proof
  assume "k \<in> fst ` set (hm_nodes m)"
  then have "k \<in> set (concat (map (map fst) (hm_buckets m)))"
    by (simp add: hm_nodes_concat [OF assms] image_UN)
  then have "k \<in> set (map (map fst) (hm_buckets m) ! hm_index m k)"
    using concat_home [of "map (map fst) (hm_buckets m)" "hm_index m" k] hm_homes [OF assms] by blast
  then show "k \<in> fst ` set (hm_bucket m k)" using hm_index_less [OF assms, of k] by simp
next
  assume "k \<in> fst ` set (hm_bucket m k)"
  moreover have "hm_bucket m k \<in> set (hm_buckets m)" using hm_index_less [OF assms, of k] by simp
  ultimately show "k \<in> fst ` set (hm_nodes m)" by (auto simp: hm_nodes_concat [OF assms])
qed

lemma dom_hm_map: "hm_inv m \<Longrightarrow> dom (hm_map m) = fst ` set (hm_nodes m)"
  using hm_node_bucket [of m] by (auto simp: hm_map_def dom_def map_of_eq_None_iff simp del: not_None_eq)

lemma hm_size_card: "hm_wf m \<Longrightarrow> hm_size m = int (card (dom (hm_map m)))"
  using distinct_hm_nodes [of m] distinct_card [of "map fst (hm_nodes m)"]
  by (simp add: hm_wf_def dom_hm_map)

section \<open>Refinement\<close>

datatype hm_cmd = Hm_put cstring ptr | Hm_get cstring | Hm_remove cstring | Hm_detach cstring

fun hm_cmd_key :: "hm_cmd \<Rightarrow> cstring" where
  "hm_cmd_key (Hm_put k v) = k"
| "hm_cmd_key (Hm_get k) = k"
| "hm_cmd_key (Hm_remove k) = k"
| "hm_cmd_key (Hm_detach k) = k"

fun hm_exec :: "'p classes \<Rightarrow> 'p heap \<times> HashMap \<Rightarrow> hm_cmd \<Rightarrow> ptr \<times> 'p heap \<times> HashMap" where
  "hm_exec cl (h, m) (Hm_put k v) = (None, HashMap_put (Alloc_Ok ()) (Alloc_Ok ()) cl h m k v)"
| "hm_exec cl (h, m) (Hm_get k) = (HashMap_get m k, h, m)"
| "hm_exec cl (h, m) (Hm_remove k) = (None, HashMap_remove cl h m k)"
| "hm_exec cl (h, m) (Hm_detach k) = (fst (HashMap_detach m k), h, snd (HashMap_detach m k))"

text \<open>The specification: a finite map whose stored pointers are owned.\<close>

abbreviation or_null :: "ptr option \<Rightarrow> ptr" where
  "or_null v \<equiv> (case v of None \<Rightarrow> None | Some p \<Rightarrow> p)"

fun hm_spec :: "'p classes \<Rightarrow> 'p heap \<times> (cstring \<Rightarrow> ptr option) \<Rightarrow> hm_cmd
    \<Rightarrow> ptr \<times> 'p heap \<times> (cstring \<Rightarrow> ptr option)" where
  "hm_spec cl (h, f) (Hm_put k v) = (None, RETAIN (RELEASE cl h (or_null (f k))) v, f(k \<mapsto> v))"
| "hm_spec cl (h, f) (Hm_get k) = (or_null (f k), h, f)"
| "hm_spec cl (h, f) (Hm_remove k) = (None, RELEASE cl h (or_null (f k)), f(k := None))"
| "hm_spec cl (h, f) (Hm_detach k) = (or_null (f k), h, f(k := None))"

lemma hm_step:
  assumes "hm_wf m" and "hm_size m < INT_MAX" and "hm_key_ok (hm_cmd_key c)"
    and "hm_exec cl (h, m) c = (out, h', m')"
  shows "hm_spec cl (h, hm_map m) c = (out, h', hm_map m') \<and> hm_wf m' \<and> hm_size m' \<le> hm_size m + 1"
proof -
  have inv: "hm_inv m" using assms(1) by (simp add: hm_wf_def)
  have sz: "0 \<le> hm_size m" "hm_size m \<le> INT_MAX" using assms(1) by (simp_all add: hm_wf_def)
  show ?thesis
  proof (cases c)
    case (Hm_put k v)
    have "h' = RETAIN (RELEASE cl h (or_null (hm_map m k))) v" "hm_size m' \<le> hm_size m + 1"
      using assms sz Hm_put chain_get_hm_map [OF inv, of k]
      by (auto simp: HashMap_put_def split: option.splits)
    then show ?thesis
      using assms Hm_put HashMap_put_spec [OF inv, of k cl h v] HashMap_put_wf [OF assms(1), of k cl h v]
      by auto
  next
    case (Hm_get k)
    with assms show ?thesis using HashMap_get_spec [OF inv, of k] by auto
  next
    case (Hm_remove k)
    have "h' = RELEASE cl h (or_null (hm_map m k))" "hm_size m' \<le> hm_size m + 1"
      using assms sz Hm_remove chain_get_hm_map [OF inv, of k]
      by (auto simp: HashMap_remove_def split: option.splits)
    then show ?thesis
      using assms Hm_remove HashMap_remove_spec [OF inv, of k cl h] HashMap_remove_wf [OF assms(1), of k cl h]
      by auto
  next
    case (Hm_detach k)
    have "hm_size m' \<le> hm_size m + 1"
      using assms sz Hm_detach by (auto simp: HashMap_detach_def split: option.splits)
    then show ?thesis
      using assms Hm_detach HashMap_detach_spec [OF inv, of k] HashMap_detach_wf [OF assms(1), of k]
        HashMap_get_spec [OF inv, of k]
      by auto
  qed
qed

fun hm_run :: "('s \<Rightarrow> hm_cmd \<Rightarrow> ptr \<times> 's) \<Rightarrow> 's \<Rightarrow> hm_cmd list \<Rightarrow> ptr list \<times> 's" where
  "hm_run step s [] = ([], s)"
| "hm_run step s (c # cs) =
     (let (o1, s1) = step s c; (os, s2) = hm_run step s1 cs in (o1 # os, s2))"

section \<open>Properties\<close>

text \<open>(C1) The hash map refines a finite map: for every sequence of put, get, remove and detach
  calls with keys of at most 128 bytes, every returned pointer, the final map and the
  reference counts are those of the abstract map; the bucket invariant is kept and the stored
  size is the number of keys.\<close>

theorem HashMap_refines_map:
  assumes "hm_wf m" and "hm_size m + int (length cs) \<le> INT_MAX"
    and "list_all (\<lambda>c. hm_key_ok (hm_cmd_key c)) cs"
  shows "case hm_run (hm_exec cl) (h, m) cs of (outs, h', m') \<Rightarrow>
    hm_run (hm_spec cl) (h, hm_map m) cs = (outs, h', hm_map m') \<and> hm_wf m'
    \<and> HashMap_getSize m' = int (card (dom (hm_map m')))"
  using assms
proof (induction cs arbitrary: h m)
  case Nil
  then show ?case by (simp add: HashMap_getSize_def hm_size_card)
next
  case (Cons c cs)
  obtain o1 h1 m1 where e: "hm_exec cl (h, m) c = (o1, h1, m1)" by (metis prod_cases3)
  have r: "hm_spec cl (h, hm_map m) c = (o1, h1, hm_map m1)" "hm_wf m1" "hm_size m1 \<le> hm_size m + 1"
    using hm_step [OF Cons.prems(1) _ _ e] Cons.prems by auto
  then show ?case
    using Cons.IH [of m1 h1] Cons.prems e by (auto split: prod.splits)
qed

definition demo_hm :: HashMap where
  "demo_hm = \<lparr>hm_buckets = [[]], hm_capacity = 1, hm_size = 0\<rparr>"

lemma demo_hm_wf: "hm_wf demo_hm" "hm_map demo_hm = Map.empty" "hm_size demo_hm = 0"
  by (auto simp: demo_hm_def hm_wf_def hm_inv_def hm_bucket_ok_def hm_nodes_def hm_map_def hm_index_def)

theorem HashMap_refines_map_witness:
  "fst (hm_run (hm_exec leaf_classes) (demo_heap, demo_hm)
     [Hm_put (lit ''a'') (Some 1), Hm_put (lit ''b'') (Some 2), Hm_get (lit ''a''),
      Hm_detach (lit ''a''), Hm_get (lit ''a''), Hm_get (lit ''b'')])
   = [None, None, Some 1, Some 1, None, Some 2]"
proof -
  let ?cs = "[Hm_put (lit ''a'') (Some 1), Hm_put (lit ''b'') (Some 2), Hm_get (lit ''a''),
      Hm_detach (lit ''a''), Hm_get (lit ''a''), Hm_get (lit ''b'')]"
  have ok: "list_all (\<lambda>c. hm_key_ok (hm_cmd_key c)) ?cs" by (simp add: hm_key_ok_def lit_def)
  obtain outs h' m' where e: "hm_run (hm_exec leaf_classes) (demo_heap, demo_hm) ?cs = (outs, h', m')"
    by (metis prod_cases3)
  have "hm_run (hm_spec leaf_classes) (demo_heap, Map.empty) ?cs = (outs, h', hm_map m')"
    using HashMap_refines_map [OF demo_hm_wf(1) _ ok, of leaf_classes demo_heap] e demo_hm_wf(2,3)
    by (simp del: hm_run.simps)
  then show ?thesis by (simp only: e fst_conv) (auto simp: lit_def)
qed

text \<open>Ownership: clearing a map gives back exactly one reference per stored value, frees a
  value exactly when the map held its last reference, touches no freed memory, and leaves the
  empty map; the finalizer releases the same references.\<close>

theorem HashMap_clear_releases:
  assumes "hm_inv m" and "owned h (map snd (hm_nodes m))"
  shows "case HashMap_clear leaf_classes h m of (h', m') \<Rightarrow>
    hm_wf m' \<and> hm_map m' = Map.empty \<and> fault h' = fault h
    \<and> h' = HashMap_Finalize leaf_classes h m
    \<and> (\<forall>a. rc h' a = rc h a - count_list (map snd (hm_nodes m)) (Some a))
    \<and> (\<forall>a. Some a \<in> snd ` set (hm_nodes m) \<longrightarrow>
          (live h' a \<longleftrightarrow> count_list (map snd (hm_nodes m)) (Some a) < rc h a))"
proof -
  have skip: "release_all cl h (filter (\<lambda>v. v \<noteq> None) vs) = release_all cl h vs"
    for cl :: "'a classes" and h vs
    by (induction vs arbitrary: h) (auto simp del: not_None_eq)
  let ?m = "snd (HashMap_clear leaf_classes h m)"
  have "hm_wf ?m \<and> hm_map ?m = Map.empty"
    using assms(1)
    by (auto simp: HashMap_clear_def hm_inv_def hm_wf_def hm_bucket_ok_def hm_nodes_def hm_map_def
        hm_index_def fun_eq_iff)
  with leaf.release_all_effect [OF assms(2)] show ?thesis
    by (auto simp: HashMap_clear_def HashMap_Finalize_def skip count_list_0_iff simp del: not_None_eq)
qed

theorem HashMap_clear_releases_witness:
  "rc (fst (HashMap_clear leaf_classes demo_heap
      (demo_hm\<lparr>hm_buckets := [[(lit ''k'', Some 2)]], hm_size := 1\<rparr>))) 2 = 1"
proof -
  let ?m = "demo_hm\<lparr>hm_buckets := [[(lit ''k'', Some 2)]], hm_size := 1\<rparr>"
  have n: "hm_nodes ?m = [(lit ''k'', Some 2)]" by (simp add: hm_nodes_def demo_hm_def)
  have "hm_inv ?m"
    by (simp add: hm_inv_def demo_hm_def hm_bucket_ok_def hm_key_ok_def lit_def hm_index_def)
  moreover have "owned demo_heap (map snd (hm_nodes ?m))" by (auto simp: owned_def n)
  ultimately show ?thesis
    using HashMap_clear_releases [of ?m demo_heap] n by (auto simp: split_beta)
qed

text \<open>(C40) Replacing a value by itself is a use after free when the map holds the only
  reference: \<^verbatim>\<open>put\<close> releases the old value before it retains the new one.\<close>

theorem HashMap_put_own_value_faults:
  assumes "hm_inv m" and "hm_key_ok k" and "hm_map m k = Some (Some a)" and "rc h a = 1"
  shows "fault (fst (HashMap_put mn mk leaf_classes h m k (Some a)))"
proof -
  have "\<not> live (RELEASE leaf_classes h (Some a)) a"
    using assms(4) by (simp add: leaf.RELEASE_live)
  then have "fault (RETAIN (RELEASE leaf_classes h (Some a)) (Some a))"
    by (simp add: RETAIN_def live_def raw_fault_def)
  with assms(1-3) show ?thesis by (simp add: HashMap_put_def chain_get_hm_map)
qed

theorem HashMap_put_own_value_faults_witness:
  "fault (fst (HashMap_put (Alloc_Ok ()) (Alloc_Ok ()) leaf_classes demo_heap
      (demo_hm\<lparr>hm_buckets := [[(lit ''k'', Some 1)]], hm_size := 1\<rparr>) (lit ''k'') (Some 1)))"
  by (rule HashMap_put_own_value_faults)
    (simp_all add: hm_inv_def demo_hm_def hm_bucket_ok_def hm_key_ok_def lit_def hm_index_def hm_map_def)

text \<open>Keys that agree on their first 128 bytes and land in the same bucket are the same
  key to the map, although the whole key is hashed: in a one-bucket map, storing under one
  overwrites what \<^verbatim>\<open>get\<close> returns for the other.\<close>

theorem HashMap_long_keys_alias:
  assumes "length p = 128" and "hm_capacity m = 1" and "hm_buckets m = [[]]"
  shows "HashMap_get (snd (HashMap_put (Alloc_Ok ()) (Alloc_Ok ()) cl h m (p @ x) v)) (p @ y) = v"
  using assms by (simp add: HashMap_put_def HashMap_get_def hm_index_def strncmp_eq_take)

theorem HashMap_long_keys_alias_witness:
  "HashMap_get (snd (HashMap_put (Alloc_Ok ()) (Alloc_Ok ()) leaf_classes demo_heap demo_hm
      (replicate 128 97 @ [1]) (Some 1))) (replicate 128 97 @ [2]) = Some 1"
  by (rule HashMap_long_keys_alias) (simp_all add: demo_hm_def)

end
