(* ===== verification/Hash_Table.thy ===== *)
theory Hash_Table
  imports Hash_Map
begin

text \<open>
  \<^verbatim>\<open>src/src/hashtable.c\<close>: the hash table keyed by objects, through their \<^verbatim>\<open>hashCode\<close> and \<^verbatim>\<open>equals\<close>, with
  rehashing and a fail-fast iterator. A bucket is the chain of its entries; the methods run under the
  table's mutex. The product of a capacity and the float load factor, which only decides when to
  rehash, is the field \<open>ht_load\<close>. Allocations that the source does not check set the fault flag of the
  store when they fail. \<^verbatim>\<open>put\<close> and \<^verbatim>\<open>remove\<close> hand the table's reference to the old value over to the caller.
  The locale \<open>key_semantics\<close> is what the table needs of its keys; it is interpreted on the classes that
  inherit identity from \<^verbatim>\<open>object.c\<close>.
\<close>

section \<open>State and operations\<close>

record HashtableEntry =
  he_key :: ptr
  he_value :: ptr
  he_hash :: nat

record Hashtable =
  ht_table :: "HashtableEntry list list"
  ht_capacity :: int
  ht_count :: int
  ht_threshold :: int
  ht_load :: "nat \<Rightarrow> int"
  ht_modCount :: u64

text \<open>The constructor checks neither allocation: without the object it writes through NULL (no result);
  without the bucket array it returns a table that has none.\<close>

definition new_Hashtable :: "unit alloc \<Rightarrow> unit alloc \<Rightarrow> nat \<Rightarrow> (nat \<Rightarrow> int) \<Rightarrow> Hashtable option" where
  "new_Hashtable mem_obj mem_table initialCapacity load =
     (case mem_obj of Alloc_Fail \<Rightarrow> None
      | Alloc_Ok _ \<Rightarrow>
          (let cap = wrap32 (int (if initialCapacity = 0 then 11 else initialCapacity))
           in Some \<lparr>ht_table = (case mem_table of Alloc_Fail \<Rightarrow> [] | Alloc_Ok _ \<Rightarrow> replicate (nat cap) []),
                    ht_capacity = cap, ht_count = 0, ht_threshold = load (nat cap), ht_load = load, ht_modCount = 0\<rparr>))"

text \<open>The two nested loops of \<^verbatim>\<open>rehash\<close>: every entry, in the order of the old table, goes to the front of its
  new bucket.\<close>

definition rehash_move :: "nat \<Rightarrow> HashtableEntry list list \<Rightarrow> HashtableEntry \<Rightarrow> HashtableEntry list list" where
  "rehash_move newCap newTable e =
     (let newIdx = he_hash e mod newCap in newTable[newIdx := e # newTable ! newIdx])"

definition rehash :: "unit alloc \<Rightarrow> Hashtable \<Rightarrow> Hashtable" where
  "rehash mem self =
     (let newCap = nat (ht_capacity self) * 2 + 1
      in case mem of Alloc_Fail \<Rightarrow> self
         | Alloc_Ok _ \<Rightarrow>
             self\<lparr>ht_capacity := wrap32 (int newCap), ht_threshold := ht_load self newCap,
                  ht_table := foldl (rehash_move newCap) (replicate newCap []) (concat (ht_table self)),
                  ht_modCount := ht_modCount self + 1\<rparr>)"

text \<open>The comparison all chain loops use.\<close>

definition ht_match :: "'p classes \<Rightarrow> 'p heap \<Rightarrow> nat \<Rightarrow> ptr \<Rightarrow> HashtableEntry \<Rightarrow> bool" where
  "ht_match cl h hash key e \<longleftrightarrow> he_hash e = hash \<and> equals cl h (he_key e) key"

definition ht_hash :: "'p classes \<Rightarrow> 'p heap \<Rightarrow> ptr \<Rightarrow> nat" where
  "ht_hash cl h key = unat (hashCode cl h key)"

definition ht_bucket :: "Hashtable \<Rightarrow> nat \<Rightarrow> HashtableEntry list" where
  "ht_bucket self hash = ht_table self ! (hash mod nat (ht_capacity self))"

definition ht_size :: "Hashtable \<Rightarrow> int" where
  "ht_size self = ht_count self"

definition ht_isEmpty :: "Hashtable \<Rightarrow> bool" where
  "ht_isEmpty self \<longleftrightarrow> ht_size self = 0"

definition ht_containsKey :: "'p classes \<Rightarrow> 'p heap \<Rightarrow> Hashtable \<Rightarrow> ptr \<Rightarrow> bool" where
  "ht_containsKey cl h self key =
     (if key = None then False
      else let hash = ht_hash cl h key
           in find (ht_match cl h hash key) (ht_bucket self hash) \<noteq> None)"

definition ht_get :: "'p classes \<Rightarrow> 'p heap \<Rightarrow> Hashtable \<Rightarrow> ptr \<Rightarrow> ptr" where
  "ht_get cl h self key =
     (if key = None then None
      else let hash = ht_hash cl h key
           in case find (ht_match cl h hash key) (ht_bucket self hash) of None \<Rightarrow> None | Some e \<Rightarrow> he_value e)"

text \<open>The chain loops of \<^verbatim>\<open>ht_put\<close> (replace the value of the first match) and \<^verbatim>\<open>ht_remove\<close> (unlink it).\<close>

fun ht_set :: "(HashtableEntry \<Rightarrow> bool) \<Rightarrow> ptr \<Rightarrow> HashtableEntry list \<Rightarrow> (HashtableEntry \<times> HashtableEntry list) option" where
  "ht_set P v [] = None"
| "ht_set P v (e # es) =
     (if P e then Some (e, e\<lparr>he_value := v\<rparr> # es)
      else map_option (\<lambda>(x, es'). (x, e # es')) (ht_set P v es))"

fun ht_unlink :: "(HashtableEntry \<Rightarrow> bool) \<Rightarrow> HashtableEntry list \<Rightarrow> (HashtableEntry \<times> HashtableEntry list) option" where
  "ht_unlink P [] = None"
| "ht_unlink P (e # es) =
     (if P e then Some (e, es) else map_option (\<lambda>(x, es'). (x, e # es')) (ht_unlink P es))"

definition ht_put ::
  "unit alloc \<Rightarrow> unit alloc \<Rightarrow> 'p classes \<Rightarrow> 'p heap \<Rightarrow> Hashtable \<Rightarrow> ptr \<Rightarrow> ptr \<Rightarrow> ptr \<times> 'p heap \<times> Hashtable" where
  "ht_put mem_table mem_entry cl h self key val =
     (if key = None \<or> val = None then (None, h, self)
      else
        (let t = (if ht_count self \<ge> ht_threshold self then rehash mem_table self else self);
             hash = ht_hash cl h key;
             idx = hash mod nat (ht_capacity t)
         in case ht_set (ht_match cl h hash key) val (ht_table t ! idx) of
              Some (e, es) \<Rightarrow> (he_value e, RETAIN h val, t\<lparr>ht_table := (ht_table t)[idx := es]\<rparr>)
            | None \<Rightarrow>
                (case mem_entry of Alloc_Fail \<Rightarrow> (None, raw_fault h, t)
                 | Alloc_Ok _ \<Rightarrow>
                     (None, RETAIN (RETAIN h key) val,
                      t\<lparr>ht_table := (ht_table t)[idx := \<lparr>he_key = key, he_value = val, he_hash = hash\<rparr> # ht_table t ! idx],
                        ht_count := wrap32 (ht_count t + 1), ht_modCount := ht_modCount t + 1\<rparr>))))"

definition ht_remove :: "'p classes \<Rightarrow> 'p heap \<Rightarrow> Hashtable \<Rightarrow> ptr \<Rightarrow> ptr \<times> 'p heap \<times> Hashtable" where
  "ht_remove cl h self key =
     (if key = None then (None, h, self)
      else let hash = ht_hash cl h key; idx = hash mod nat (ht_capacity self)
           in case ht_unlink (ht_match cl h hash key) (ht_table self ! idx) of
                None \<Rightarrow> (None, h, self)
              | Some (e, es) \<Rightarrow>
                  (he_value e, RELEASE cl h (he_key e),
                   self\<lparr>ht_table := (ht_table self)[idx := es], ht_count := wrap32 (ht_count self - 1),
                        ht_modCount := ht_modCount self + 1\<rparr>))"

fun release_entries :: "'p classes \<Rightarrow> 'p heap \<Rightarrow> HashtableEntry list \<Rightarrow> 'p heap" where
  "release_entries cl h [] = h"
| "release_entries cl h (e # es) = release_entries cl (RELEASE cl (RELEASE cl h (he_key e)) (he_value e)) es"

definition ht_clear :: "'p classes \<Rightarrow> 'p heap \<Rightarrow> Hashtable \<Rightarrow> 'p heap \<times> Hashtable" where
  "ht_clear cl h self =
     (release_entries cl h (concat (ht_table self)),
      self\<lparr>ht_table := replicate (length (ht_table self)) [], ht_count := 0, ht_modCount := ht_modCount self + 1\<rparr>)"

definition Hashtable_Finalize :: "'p classes \<Rightarrow> 'p heap \<Rightarrow> Hashtable \<Rightarrow> 'p heap" where
  "Hashtable_Finalize cl h self = release_entries cl h (concat (ht_table self))"

text \<open>\<^verbatim>\<open>keys\<close> and \<^verbatim>\<open>values\<close>: a new array list that retains each of them; \<open>mem i\<close> answers the \<open>i\<close>-th growth.
  A list that could not be allocated is used all the same.\<close>

fun add_all :: "(nat \<Rightarrow> ptr alloc) \<Rightarrow> nat \<Rightarrow> 'p heap \<times> ArrayList \<Rightarrow> ptr list \<Rightarrow> 'p heap \<times> ArrayList" where
  "add_all mem i (h, l) [] = (h, l)"
| "add_all mem i (h, l) (p # ps) = add_all mem (Suc i) (ArrayList_add (mem i) h l p) ps"

definition ht_collect ::
  "addr alloc \<Rightarrow> unit alloc \<Rightarrow> (nat \<Rightarrow> ptr alloc) \<Rightarrow> 'p \<Rightarrow> 'p heap \<Rightarrow> int \<Rightarrow> ptr list \<Rightarrow> 'p heap \<times> ArrayList option" where
  "ht_collect mem_obj mem_items mem p h cap ps =
     (case new_ArrayList mem_obj mem_items p h cap of
        (h1, None) \<Rightarrow> (if ps = [] then h1 else raw_fault h1, None)
      | (h1, Some l) \<Rightarrow> (case add_all mem 0 (h1, l) ps of (h2, l2) \<Rightarrow> (h2, Some l2)))"

definition ht_keys ::
  "addr alloc \<Rightarrow> unit alloc \<Rightarrow> (nat \<Rightarrow> ptr alloc) \<Rightarrow> 'p \<Rightarrow> 'p heap \<Rightarrow> Hashtable \<Rightarrow> 'p heap \<times> ArrayList option" where
  "ht_keys mem_obj mem_items mem p h self =
     ht_collect mem_obj mem_items mem p h (ht_count self) (map he_key (concat (ht_table self)))"

definition ht_values ::
  "addr alloc \<Rightarrow> unit alloc \<Rightarrow> (nat \<Rightarrow> ptr alloc) \<Rightarrow> 'p \<Rightarrow> 'p heap \<Rightarrow> Hashtable \<Rightarrow> 'p heap \<times> ArrayList option" where
  "ht_values mem_obj mem_items mem p h self =
     ht_collect mem_obj mem_items mem p h (ht_count self) (map he_value (concat (ht_table self)))"

section \<open>The iterator\<close>

text \<open>\<open>hi_entry\<close> is the chain from \<^verbatim>\<open>currentEntry\<close> on; empty is NULL.\<close>

record HashtableIterator =
  hi_bucketIndex :: nat
  hi_entry :: "HashtableEntry list"
  hi_lastReturned :: "HashtableEntry option"
  hi_expectedModCount :: u64

text \<open>The loop that looks for the next bucket that is not empty.\<close>

function hi_advance :: "HashtableEntry list list \<Rightarrow> nat \<Rightarrow> nat \<Rightarrow> nat \<times> HashtableEntry list" where
  "hi_advance table cap i =
     (if i < cap then (if table ! i \<noteq> [] then (i + 1, table ! i) else hi_advance table cap (i + 1)) else (i, []))"
  by pat_completeness auto
termination
  by (relation "measure (\<lambda>(table, cap, i). cap - i)") auto

declare hi_advance.simps [simp del]

definition ht_iterator :: "Hashtable \<Rightarrow> HashtableIterator" where
  "ht_iterator self =
     (case hi_advance (ht_table self) (nat (ht_capacity self)) 0 of
        (i, es) \<Rightarrow> \<lparr>hi_bucketIndex = i, hi_entry = es, hi_lastReturned = None, hi_expectedModCount = ht_modCount self\<rparr>)"

definition hi_hasNext :: "HashtableIterator \<Rightarrow> bool" where
  "hi_hasNext it \<longleftrightarrow> hi_entry it \<noteq> []"

definition hi_next :: "Hashtable \<Rightarrow> HashtableIterator \<Rightarrow> (ptr \<times> ptr) option \<times> HashtableIterator" where
  "hi_next ht it =
     (if ht_modCount ht \<noteq> hi_expectedModCount it then (None, it)
      else case hi_entry it of
        [] \<Rightarrow> (None, it)
      | e # es \<Rightarrow>
          (let it1 = it\<lparr>hi_lastReturned := Some e\<rparr>
           in if es \<noteq> [] then (Some (he_key e, he_value e), it1\<lparr>hi_entry := es\<rparr>)
              else (case hi_advance (ht_table ht) (nat (ht_capacity ht)) (hi_bucketIndex it) of
                      (i, es') \<Rightarrow> (Some (he_key e, he_value e), it1\<lparr>hi_bucketIndex := i, hi_entry := es'\<rparr>))))"

section \<open>What the table needs of its keys\<close>

locale key_semantics = arc_finalizers cl
  for cl :: "'p classes" +
  fixes H :: "ptr \<Rightarrow> nat"
    and E :: "ptr \<Rightarrow> ptr \<Rightarrow> bool"
  assumes hash: "ht_hash cl h p = H p"
    and eq: "equals cl h p q = E p q"
    and E_refl: "E p p"
    and E_sym: "E p q \<Longrightarrow> E q p"
    and E_trans: "E p q \<Longrightarrow> E q r \<Longrightarrow> E p r"
    and E_hash: "E p q \<Longrightarrow> H p = H q"

text \<open>Objects that do not override \<^verbatim>\<open>equals\<close> and \<^verbatim>\<open>hashCode\<close>: identity, and a hash of the address.\<close>

definition addr_hash :: "ptr \<Rightarrow> nat" where
  "addr_hash p = (case p of None \<Rightarrow> 0
     | Some a \<Rightarrow> let w = (of_nat a :: u64) in unat (ucast (w XOR drop_bit 32 w) :: u32))"

interpretation leaf_keys: key_semantics leaf_classes addr_hash "(=)"
proof
  fix h :: "'a heap" and p q :: ptr
  show "ht_hash leaf_classes h p = addr_hash p"
    by (auto simp: ht_hash_def hashCode_def addr_hash_def class_of_def leaf_classes_def ObjectClass_def Let_def
        split: option.splits)
  show "equals leaf_classes h p q = (p = q)"
    by (auto simp: equals_def class_of_def leaf_classes_def ObjectClass_def split: option.splits)
qed auto

section \<open>Invariant and abstraction\<close>

abbreviation entries :: "Hashtable \<Rightarrow> HashtableEntry list" where
  "entries t \<equiv> concat (ht_table t)"

definition uniq :: "(ptr \<Rightarrow> ptr \<Rightarrow> bool) \<Rightarrow> HashtableEntry list \<Rightarrow> bool" where
  "uniq E es \<longleftrightarrow> distinct es \<and> (\<forall>a \<in> set es. \<forall>b \<in> set es. E (he_key a) (he_key b) \<longrightarrow> a = b)"

definition homed :: "(ptr \<Rightarrow> nat) \<Rightarrow> nat \<Rightarrow> HashtableEntry list list \<Rightarrow> bool" where
  "homed H cap table \<longleftrightarrow> length table = cap
     \<and> (\<forall>i < cap. \<forall>e \<in> set (table ! i). he_hash e = H (he_key e) \<and> he_hash e mod cap = i)"

definition ht_inv :: "(ptr \<Rightarrow> nat) \<Rightarrow> (ptr \<Rightarrow> ptr \<Rightarrow> bool) \<Rightarrow> Hashtable \<Rightarrow> bool" where
  "ht_inv H E t \<longleftrightarrow> 0 < ht_capacity t \<and> homed H (nat (ht_capacity t)) (ht_table t) \<and> uniq E (entries t)
     \<and> (\<forall>e \<in> set (entries t). he_key e \<noteq> None \<and> he_value e \<noteq> None)
     \<and> ht_count t = int (length (entries t))"

definition ht_map :: "(ptr \<Rightarrow> ptr \<Rightarrow> bool) \<Rightarrow> Hashtable \<Rightarrow> ptr \<Rightarrow> ptr option" where
  "ht_map E t k = map_option he_value (find (\<lambda>e. E (he_key e) k) (entries t))"

definition ht_refs :: "Hashtable \<Rightarrow> ptr list" where
  "ht_refs t = concat (map (\<lambda>e. [he_key e, he_value e]) (entries t))"

definition refs_of :: "HashtableEntry list \<Rightarrow> ptr list" where
  "refs_of es = concat (map (\<lambda>e. [he_key e, he_value e]) es)"

lemma refs_of_simps: "refs_of (es @ fs) = refs_of es @ refs_of fs" "refs_of (e # es) = he_key e # he_value e # refs_of es"
  "ht_refs t = refs_of (entries t)"
  by (simp_all add: refs_of_def ht_refs_def)

lemma uniq_mset: "mset es = mset es' \<Longrightarrow> uniq E es \<longleftrightarrow> uniq E es'"
  unfolding uniq_def by (metis mset_eq_imp_distinct_iff mset_eq_setD)

lemma concat_at: "i < length xss \<Longrightarrow> concat xss = concat (take i xss) @ xss ! i @ concat (drop (Suc i) xss)"
  by (metis concat.simps(2) concat_append id_take_nth_drop)

lemma concat_upd: "i < length xss \<Longrightarrow> concat (xss[i := ys]) = concat (take i xss) @ ys @ concat (drop (Suc i) xss)"
  by (simp add: upd_conv_take_nth_drop)

lemma find_append: "find P (xs @ ys) = (case find P xs of None \<Rightarrow> find P ys | Some x \<Rightarrow> Some x)"
  by (induction xs) auto

lemma homed_nth:
  "homed H cap table \<Longrightarrow> i < cap \<Longrightarrow> e \<in> set (table ! i) \<Longrightarrow> he_hash e = H (he_key e) \<and> he_hash e mod cap = i"
  unfolding homed_def by blast

lemma homed_bucket:
  assumes "homed H cap table" and "e \<in> set (concat table)"
  shows "he_hash e = H (he_key e) \<and> he_hash e mod cap < cap \<and> e \<in> set (table ! (he_hash e mod cap))"
proof -
  from assms(2) obtain b where "b \<in> set table" "e \<in> set b" by auto
  then obtain i where i: "i < length table" "e \<in> set (table ! i)" by (auto simp: in_set_conv_nth)
  moreover have "length table = cap" using assms(1) by (simp add: homed_def)
  ultimately show ?thesis using homed_nth [OF assms(1), of i e] by auto
qed

lemma homed_upd:
  assumes "homed H cap table" and "\<forall>e \<in> set es. he_hash e = H (he_key e) \<and> he_hash e mod cap = i"
  shows "homed H cap (table[i := es])"
  unfolding homed_def
proof (intro conjI allI impI ballI)
  fix j e assume "j < cap" "e \<in> set (table[i := es] ! j)"
  then show "he_hash e = H (he_key e)" "he_hash e mod cap = j"
    using assms homed_nth [OF assms(1), of j e] by (cases "j = i"; auto simp: homed_def)+
qed (use assms(1) in \<open>simp add: homed_def\<close>)

lemma ht_set_cases:
  "(case ht_set P v es of
      None \<Rightarrow> \<forall>e \<in> set es. \<not> P e
    | Some (e, es') \<Rightarrow> P e \<and> (\<exists>us vs. es = us @ e # vs \<and> es' = us @ e\<lparr>he_value := v\<rparr> # vs))"
proof (induction es)
  case (Cons e es)
  show ?case
  proof (cases "P e")
    case True
    then show ?thesis by (auto intro: exI [of _ "[]"])
  next
    case False
    with Cons show ?thesis by (auto split: option.splits intro: Cons_eq_appendI)
  qed
qed simp

lemma ht_unlink_cases:
  "(case ht_unlink P es of
      None \<Rightarrow> \<forall>e \<in> set es. \<not> P e
    | Some (e, es') \<Rightarrow> P e \<and> (\<exists>us vs. es = us @ e # vs \<and> es' = us @ vs))"
proof (induction es)
  case (Cons e es)
  show ?case
  proof (cases "P e")
    case True
    then show ?thesis by (auto intro: exI [of _ "[]"])
  next
    case False
    with Cons show ?thesis by (auto split: option.splits intro: Cons_eq_appendI)
  qed
qed simp

text \<open>Rehashing keeps the entries and puts each into its new home.\<close>

lemma rehash_move_step:
  assumes "homed H cap table" and "0 < cap" and "he_hash e = H (he_key e)"
  shows "homed H cap (rehash_move cap table e) \<and> mset (concat (rehash_move cap table e)) = add_mset e (mset (concat table))"
proof -
  let ?i = "he_hash e mod cap"
  have i: "?i < length table" using assms(1,2) by (simp add: homed_def)
  have "homed H cap (table[?i := e # table ! ?i])"
  proof (rule homed_upd [OF assms(1)], intro ballI)
    fix x assume "x \<in> set (e # table ! ?i)"
    then show "he_hash x = H (he_key x) \<and> he_hash x mod cap = ?i"
      using homed_nth [OF assms(1), of ?i x] assms(2,3) by auto
  qed
  moreover have "mset (concat (table[?i := e # table ! ?i])) = add_mset e (mset (concat table))"
    using concat_upd [OF i, of "e # table ! ?i"] concat_at [OF i] by simp
  ultimately show ?thesis by (simp add: rehash_move_def Let_def)
qed

lemma rehash_fold:
  assumes "homed H cap table" and "0 < cap" and "\<forall>e \<in> set es. he_hash e = H (he_key e)"
  shows "homed H cap (foldl (rehash_move cap) table es)
    \<and> mset (concat (foldl (rehash_move cap) table es)) = mset (concat table) + mset es"
  using assms(1,3)
proof (induction es arbitrary: table)
  case (Cons e es)
  from rehash_move_step [OF Cons.prems(1) assms(2), of e] Cons.prems
  have "homed H cap (rehash_move cap table e)" "mset (concat (rehash_move cap table e)) = add_mset e (mset (concat table))"
    by auto
  with Cons.IH [of "rehash_move cap table e"] Cons.prems show ?case by simp
qed simp

lemma homed_empty: "0 < cap \<Longrightarrow> homed H cap (replicate cap [])"
  by (simp add: homed_def)

lemma rehash_inv:
  assumes "ht_inv H E t" and "mem = Alloc_Ok () \<Longrightarrow> ht_capacity t * 2 + 1 \<le> INT_MAX"
  shows "ht_inv H E (rehash mem t) \<and> mset (entries (rehash mem t)) = mset (entries t)
    \<and> ht_count (rehash mem t) = ht_count t"
proof (cases mem)
  case Alloc_Fail
  with assms show ?thesis by (simp add: rehash_def)
next
  case (Alloc_Ok u)
  let ?n = "nat (ht_capacity t) * 2 + 1"
  let ?T = "foldl (rehash_move ?n) (replicate ?n []) (entries t)"
  have es: "\<forall>e \<in> set (entries t). he_hash e = H (he_key e)"
    using assms(1) homed_bucket by (fastforce simp: ht_inv_def)
  have T: "homed H ?n ?T" "mset (concat ?T) = mset (entries t)"
    using rehash_fold [OF homed_empty _ es, of ?n] by (simp_all del: replicate_Suc)
  have w: "wrap32 (int ?n) = int ?n" using assms Alloc_Ok by (simp add: ht_inv_def)
  have r: "rehash mem t = t\<lparr>ht_capacity := int ?n, ht_threshold := ht_load t ?n, ht_table := ?T, ht_modCount := ht_modCount t + 1\<rparr>"
    unfolding rehash_def Let_def Alloc_Ok w by simp
  have "length (concat ?T) = length (entries t)" "set (concat ?T) = set (entries t)" "uniq E (concat ?T) = uniq E (entries t)"
    using T(2) uniq_mset mset_eq_length mset_eq_setD by blast+
  moreover have "nat (int ?n) = ?n" "0 < int ?n" by linarith+
  ultimately show ?thesis using assms(1) T unfolding r by (simp add: ht_inv_def del: replicate_Suc foldl.simps)
qed

section \<open>Lookups and updates\<close>

context key_semantics
begin

lemma ht_match_eq: "ht_match cl h hash k e \<longleftrightarrow> he_hash e = hash \<and> E (he_key e) k"
  by (simp add: ht_match_def eq)

lemma find_uniq:
  assumes "uniq E es"
  shows "find (\<lambda>e. E (he_key e) k) es = Some e \<longleftrightarrow> e \<in> set es \<and> E (he_key e) k"
proof
  assume "find (\<lambda>e. E (he_key e) k) es = Some e"
  then show "e \<in> set es \<and> E (he_key e) k" by (auto simp: find_Some_iff)
next
  assume e: "e \<in> set es \<and> E (he_key e) k"
  then obtain x where x: "find (\<lambda>e. E (he_key e) k) es = Some x" by (cases "find (\<lambda>e. E (he_key e) k) es") (auto simp: find_None_iff)
  then have "x \<in> set es" "E (he_key x) k" by (auto simp: find_Some_iff)
  then have "x = e" using e assms E_sym E_trans unfolding uniq_def by blast
  with x show "find (\<lambda>e. E (he_key e) k) es = Some e" by simp
qed

lemma ht_map_Some:
  "ht_inv H E t \<Longrightarrow> ht_map E t k = Some v \<longleftrightarrow> (\<exists>e \<in> set (entries t). E (he_key e) k \<and> he_value e = v)"
  unfolding ht_map_def using find_uniq [of "entries t" k] by (auto simp: ht_inv_def)

lemma ht_map_None: "ht_map E t k = None \<longleftrightarrow> (\<forall>e \<in> set (entries t). \<not> E (he_key e) k)"
  by (auto simp: ht_map_def find_None_iff)

text \<open>A key is looked for in one bucket only; that is enough.\<close>

lemma bucket_iff:
  assumes "ht_inv H E t"
  shows "e \<in> set (ht_bucket t (H k)) \<and> ht_match cl h (H k) k e \<longleftrightarrow> e \<in> set (entries t) \<and> E (he_key e) k"
proof -
  let ?cap = "nat (ht_capacity t)"
  have cap: "0 < ?cap" "homed H ?cap (ht_table t)" "length (ht_table t) = ?cap"
    using assms by (simp_all add: ht_inv_def) (simp add: homed_def)
  have "H k mod ?cap < length (ht_table t)" using cap by simp
  then have sub: "e \<in> set (ht_bucket t (H k)) \<Longrightarrow> e \<in> set (entries t)" unfolding ht_bucket_def by (auto intro: nth_mem)
  have "he_hash e = H k \<and> e \<in> set (ht_bucket t (H k))" if "e \<in> set (entries t)" "E (he_key e) k"
    using homed_bucket [OF cap(2) that(1)] E_hash [OF that(2)] by (auto simp: ht_bucket_def)
  with sub show ?thesis by (auto simp only: ht_match_eq)
qed

lemma bucket_find:
  assumes "ht_inv H E t"
  shows "find (ht_match cl h (H k) k) (ht_bucket t (H k)) = find (\<lambda>e. E (he_key e) k) (entries t)"
proof (cases "find (ht_match cl h (H k) k) (ht_bucket t (H k))")
  case None
  then have "find (\<lambda>e. E (he_key e) k) (entries t) = None"
    using bucket_iff [OF assms] by (auto simp: find_None_iff)
  with None show ?thesis by simp
next
  case (Some e)
  then have "e \<in> set (ht_bucket t (H k)) \<and> ht_match cl h (H k) k e" by (auto simp: find_Some_iff)
  then have "e \<in> set (entries t) \<and> E (he_key e) k" using bucket_iff [OF assms] by blast
  then have "find (\<lambda>e. E (he_key e) k) (entries t) = Some e" using find_uniq assms by (auto simp: ht_inv_def)
  with Some show ?thesis by simp
qed

lemma ht_get_map:
  assumes "ht_inv H E t"
  shows "ht_get cl h t k = (if k = None then None else case ht_map E t k of None \<Rightarrow> None | Some v \<Rightarrow> v)"
    "ht_containsKey cl h t k \<longleftrightarrow> k \<noteq> None \<and> ht_map E t k \<noteq> None"
  using bucket_find [OF assms]
  by (auto simp: ht_get_def ht_containsKey_def hash Let_def ht_map_def split: option.splits)

lemma refs_append: "ht_refs (t\<lparr>ht_table := T\<rparr>) = concat (map (\<lambda>e. [he_key e, he_value e]) (concat T))"
  by (simp add: ht_refs_def)

text \<open>Replacing one entry, adding one and taking one out, at the level of the whole table.\<close>

lemma bucket_split:
  assumes "ht_inv H E t" and "i = n mod nat (ht_capacity t)"
  shows "i < length (ht_table t)" "entries t = concat (take i (ht_table t)) @ ht_table t ! i @ concat (drop (Suc i) (ht_table t))"
    "concat ((ht_table t)[i := es]) = concat (take i (ht_table t)) @ es @ concat (drop (Suc i) (ht_table t))"
proof -
  show i: "i < length (ht_table t)" using assms by (simp add: ht_inv_def homed_def)
  show "entries t = concat (take i (ht_table t)) @ ht_table t ! i @ concat (drop (Suc i) (ht_table t))" by (rule concat_at [OF i])
  show "concat ((ht_table t)[i := es]) = concat (take i (ht_table t)) @ es @ concat (drop (Suc i) (ht_table t))" by (rule concat_upd [OF i])
qed

lemma uniq_others:
  assumes "uniq E (X @ e # Y)" and "x \<in> set (X @ Y)"
  shows "\<not> E (he_key x) (he_key e)"
proof
  assume "E (he_key x) (he_key e)"
  moreover have "x \<in> set (X @ e # Y)" "e \<in> set (X @ e # Y)" using assms(2) by auto
  ultimately have "x = e" using assms(1) unfolding uniq_def by blast
  with assms show False by (auto simp: uniq_def)
qed

lemma uniq_replace:
  assumes "uniq E (X @ e # Y)" and "he_key e' = he_key e"
  shows "uniq E (X @ e' # Y)"
proof -
  note no = uniq_others [OF assms(1)]
  have "e' \<notin> set (X @ Y)" using no E_refl assms(2) by metis
  moreover have "distinct (X @ Y)" "\<forall>a \<in> set (X @ Y). \<forall>b \<in> set (X @ Y). E (he_key a) (he_key b) \<longrightarrow> a = b"
    using assms(1) by (auto simp: uniq_def)
  ultimately show ?thesis using no E_sym assms(2) unfolding uniq_def by (auto; metis)
qed

lemma uniq_remove: "uniq E (X @ e # Y) \<Longrightarrow> uniq E (X @ Y)"
  by (auto simp: uniq_def)

lemma uniq_insert:
  assumes "uniq E (X @ Y)" and "\<forall>x \<in> set (X @ Y). \<not> E (he_key x) (he_key e)"
  shows "uniq E (X @ e # Y)"
proof -
  have "e \<notin> set (X @ Y)" using assms(2) E_refl by metis
  with assms show ?thesis using E_sym unfolding uniq_def by (auto; metis)
qed

lemma ht_inv_table:
  assumes "ht_inv H E t" and "i = H k mod nat (ht_capacity t)"
    and "\<forall>e \<in> set es. he_hash e = H (he_key e) \<and> he_hash e mod nat (ht_capacity t) = i"
    and "uniq E (concat ((ht_table t)[i := es]))" and "\<forall>e \<in> set es. he_key e \<noteq> None \<and> he_value e \<noteq> None"
    and "c = int (length (concat ((ht_table t)[i := es])))"
  shows "ht_inv H E (t\<lparr>ht_table := (ht_table t)[i := es], ht_count := c, ht_modCount := m\<rparr>)"
proof -
  have "set (concat ((ht_table t)[i := es])) \<subseteq> set (entries t) \<union> set es"
    using bucket_split(2) [OF assms(1,2)] bucket_split(3) [OF assms(1,2), where es = es] by auto
  moreover have "homed H (nat (ht_capacity t)) ((ht_table t)[i := es])"
    by (rule homed_upd [OF _ assms(3)]) (use assms(1) in \<open>simp add: ht_inv_def\<close>)
  ultimately show ?thesis using assms by (auto simp: ht_inv_def)
qed

lemma bucket_props:
  assumes "ht_inv H E t" and "i = H k mod nat (ht_capacity t)" and "e \<in> set (ht_table t ! i)"
  shows "he_hash e = H (he_key e)" "he_hash e mod nat (ht_capacity t) = i" "he_key e \<noteq> None" "he_value e \<noteq> None"
proof -
  have i: "i < nat (ht_capacity t)" using assms(1,2) by (simp add: ht_inv_def)
  have "homed H (nat (ht_capacity t)) (ht_table t)" using assms(1) by (simp add: ht_inv_def)
  from homed_nth [OF this i assms(3)] show "he_hash e = H (he_key e)" "he_hash e mod nat (ht_capacity t) = i" by blast+
  have "e \<in> set (entries t)" using bucket_split(2) [OF assms(1,2)] assms(3) by simp
  then show "he_key e \<noteq> None" "he_value e \<noteq> None" using assms(1) by (auto simp: ht_inv_def)
qed

text \<open>Overwriting the value of a key that is present.\<close>

lemma put_found:
  assumes "ht_inv H E t" and "ht_set (ht_match cl h (H k) k) v (ht_table t ! i) = Some (e, es)"
    and "i = H k mod nat (ht_capacity t)" and "v \<noteq> None" and "t' = t\<lparr>ht_table := (ht_table t)[i := es]\<rparr>"
  shows "ht_inv H E t' \<and> ht_map E t k = Some (he_value e) \<and> ht_map E t' = (\<lambda>k'. if E k k' then Some v else ht_map E t k')
    \<and> mset (v # ht_refs t) = mset (he_value e # ht_refs t') \<and> length (entries t') = length (entries t)"
proof -
  from ht_set_cases [where P = "ht_match cl h (H k) k" and v = v and es = "ht_table t ! i"] assms(2)
  obtain us vs where m: "ht_match cl h (H k) k e" and b: "ht_table t ! i = us @ e # vs" "es = us @ e\<lparr>he_value := v\<rparr> # vs" by auto
  have ek: "E (he_key e) k" using m by (simp add: ht_match_eq)
  let ?e = "e\<lparr>he_value := v\<rparr>"
  let ?X = "concat (take i (ht_table t)) @ us" and ?Y = "vs @ concat (drop (Suc i) (ht_table t))"
  note sp = bucket_split(2) [OF assms(1,3)] bucket_split(3) [OF assms(1,3), where es = es]
  have old: "entries t = ?X @ e # ?Y" and new: "entries t' = ?X @ ?e # ?Y" using sp b assms(5) by auto
  have u: "uniq E (?X @ e # ?Y)" using assms(1) old by (simp add: ht_inv_def)
  have "ht_inv H E (t\<lparr>ht_table := (ht_table t)[i := es], ht_count := int (length (entries t')), ht_modCount := ht_modCount t\<rparr>)"
  proof (rule ht_inv_table [OF assms(1,3)])
    show "\<forall>x \<in> set es. he_hash x = H (he_key x) \<and> he_hash x mod nat (ht_capacity t) = i"
      "\<forall>x \<in> set es. he_key x \<noteq> None \<and> he_value x \<noteq> None"
      using bucket_props [OF assms(1,3)] b assms(4) by auto
    show "uniq E (concat ((ht_table t)[i := es]))" using uniq_replace [OF u, of ?e] new assms(5) by simp
  qed (use assms(5) in simp)
  moreover have "ht_count t = int (length (entries t'))" using assms(1) old new by (simp add: ht_inv_def)
  ultimately have inv: "ht_inv H E t'" using assms(5) by (simp add: ht_inv_def)
  have "ht_map E t' k' = (if E k k' then Some v else ht_map E t k')" for k'
  proof (cases "E k k'")
    case True
    then have "E (he_key ?e) k'" using ek E_trans by simp
    then show ?thesis using True ht_map_Some [OF inv, of k' v] new by auto
  next
    case False
    then have "\<not> E (he_key e) k'" using ek E_trans E_sym by blast
    then have "find (\<lambda>e. E (he_key e) k') (?X @ ?e # ?Y) = find (\<lambda>e. E (he_key e) k') (?X @ e # ?Y)"
      by (simp add: find_append split: option.split)
    then show ?thesis using False old new by (simp add: ht_map_def)
  qed
  moreover have "ht_map E t k = Some (he_value e)" using ht_map_Some [OF assms(1), of k "he_value e"] old ek by auto
  moreover have "mset (v # ht_refs t) = mset (he_value e # ht_refs t')" by (simp add: refs_of_simps old new)
  moreover have "length (entries t') = length (entries t)" unfolding old new by simp
  ultimately show ?thesis using inv by blast
qed

text \<open>Adding an entry for a key that is absent.\<close>

lemma put_absent:
  assumes "ht_inv H E t" and "ht_set (ht_match cl h (H k) k) v (ht_table t ! i) = None"
    and "i = H k mod nat (ht_capacity t)" and "k \<noteq> None" and "v \<noteq> None" and "e = \<lparr>he_key = k, he_value = v, he_hash = H k\<rparr>"
    and "t' = t\<lparr>ht_table := (ht_table t)[i := e # ht_table t ! i], ht_count := ht_count t + 1, ht_modCount := m\<rparr>"
  shows "ht_inv H E t' \<and> ht_map E t k = None \<and> ht_map E t' = (\<lambda>k'. if E k k' then Some v else ht_map E t k')
    \<and> mset (ht_refs t') = mset (k # v # ht_refs t) \<and> length (entries t') = Suc (length (entries t))"
proof -
  from ht_set_cases [where P = "ht_match cl h (H k) k" and v = v and es = "ht_table t ! i"] assms(2)
  have "\<forall>x \<in> set (ht_bucket t (H k)). \<not> ht_match cl h (H k) k x" by (simp add: ht_bucket_def assms(3))
  then have no: "\<forall>x \<in> set (entries t). \<not> E (he_key x) k" using bucket_iff [OF assms(1)] by blast
  let ?X = "concat (take i (ht_table t))" and ?Y = "ht_table t ! i @ concat (drop (Suc i) (ht_table t))"
  note sp = bucket_split(2) [OF assms(1,3)] bucket_split(3) [OF assms(1,3), where es = "e # ht_table t ! i"]
  have old: "entries t = ?X @ ?Y" and new: "entries t' = ?X @ e # ?Y" using sp assms(7) by auto
  have u: "uniq E (?X @ ?Y)" using assms(1) old by (simp add: ht_inv_def)
  have inv: "ht_inv H E t'"
    unfolding assms(7)
  proof (rule ht_inv_table [OF assms(1,3)])
    show "\<forall>x \<in> set (e # ht_table t ! i). he_hash x = H (he_key x) \<and> he_hash x mod nat (ht_capacity t) = i"
      "\<forall>x \<in> set (e # ht_table t ! i). he_key x \<noteq> None \<and> he_value x \<noteq> None"
      using bucket_props [OF assms(1,3)] assms(3-6) by auto
    show "uniq E (concat ((ht_table t)[i := e # ht_table t ! i]))"
      using uniq_insert [OF u, of e] no old new assms(6,7) by simp
    have "ht_count t = int (length (?X @ ?Y))" using assms(1) old by (simp add: ht_inv_def)
    then show "ht_count t + 1 = int (length (concat ((ht_table t)[i := e # ht_table t ! i])))"
      using new assms(7) by simp
  qed
  have "ht_map E t' k' = (if E k k' then Some v else ht_map E t k')" for k'
  proof (cases "E k k'")
    case True
    then show ?thesis using ht_map_Some [OF inv, of k' v] new assms(6) by auto
  next
    case False
    then have "find (\<lambda>e. E (he_key e) k') (?X @ e # ?Y) = find (\<lambda>e. E (he_key e) k') (?X @ ?Y)"
      by (simp add: find_append assms(6) split: option.split)
    then show ?thesis using False old new by (simp add: ht_map_def)
  qed
  moreover have "ht_map E t k = None" using no by (simp only: ht_map_None)
  moreover have "mset (ht_refs t') = mset (k # v # ht_refs t)" by (simp add: refs_of_simps old new assms(6))
  moreover have "length (entries t') = Suc (length (entries t))" unfolding old new by simp
  ultimately show ?thesis using inv by blast
qed

text \<open>Taking out the entry of a key.\<close>

lemma remove_found:
  assumes "ht_inv H E t" and "ht_unlink (ht_match cl h (H k) k) (ht_table t ! i) = Some (e, es)"
    and "i = H k mod nat (ht_capacity t)"
    and "t' = t\<lparr>ht_table := (ht_table t)[i := es], ht_count := ht_count t - 1, ht_modCount := m\<rparr>"
  shows "ht_inv H E t' \<and> ht_map E t k = Some (he_value e) \<and> ht_map E t' = (\<lambda>k'. if E k k' then None else ht_map E t k')
    \<and> mset (ht_refs t) = mset (he_key e # he_value e # ht_refs t') \<and> length (entries t) = Suc (length (entries t'))"
proof -
  from ht_unlink_cases [where P = "ht_match cl h (H k) k" and es = "ht_table t ! i"] assms(2)
  obtain us vs where m: "ht_match cl h (H k) k e" and b: "ht_table t ! i = us @ e # vs" "es = us @ vs" by auto
  have ek: "E (he_key e) k" using m by (simp add: ht_match_eq)
  let ?X = "concat (take i (ht_table t)) @ us" and ?Y = "vs @ concat (drop (Suc i) (ht_table t))"
  note sp = bucket_split(2) [OF assms(1,3)] bucket_split(3) [OF assms(1,3), where es = es]
  have old: "entries t = ?X @ e # ?Y" and new: "entries t' = ?X @ ?Y" using sp b assms(4) by auto
  have u: "uniq E (?X @ e # ?Y)" using assms(1) old by (simp add: ht_inv_def)
  have inv: "ht_inv H E t'"
    unfolding assms(4)
  proof (rule ht_inv_table [OF assms(1,3)])
    show "\<forall>x \<in> set es. he_hash x = H (he_key x) \<and> he_hash x mod nat (ht_capacity t) = i"
      "\<forall>x \<in> set es. he_key x \<noteq> None \<and> he_value x \<noteq> None"
      using bucket_props [OF assms(1,3)] b by auto
    show "uniq E (concat ((ht_table t)[i := es]))" using uniq_remove [OF u] new assms(4) by simp
    have "ht_count t = int (length (?X @ e # ?Y))" using assms(1) old by (simp add: ht_inv_def)
    then show "ht_count t - 1 = int (length (concat ((ht_table t)[i := es])))" using new assms(4) by simp
  qed
  have "ht_map E t' k' = (if E k k' then None else ht_map E t k')" for k'
  proof (cases "E k k'")
    case True
    have "\<not> E (he_key x) k'" if "x \<in> set (?X @ ?Y)" for x
      using uniq_others [OF u that] True ek E_sym E_trans by blast
    then show ?thesis using True new by (simp only: ht_map_None if_True) blast
  next
    case False
    then have "\<not> E (he_key e) k'" using ek E_trans E_sym by blast
    then have "find (\<lambda>e. E (he_key e) k') (?X @ ?Y) = find (\<lambda>e. E (he_key e) k') (?X @ e # ?Y)"
      by (simp add: find_append split: option.split)
    then show ?thesis using False old new by (simp add: ht_map_def)
  qed
  moreover have "ht_map E t k = Some (he_value e)" using ht_map_Some [OF assms(1), of k "he_value e"] old ek by auto
  moreover have "mset (ht_refs t) = mset (he_key e # he_value e # ht_refs t')" by (simp add: refs_of_simps old new)
  moreover have "length (entries t) = Suc (length (entries t'))" unfolding old new by simp
  ultimately show ?thesis using inv by blast
qed

lemma ht_map_mset:
  assumes "ht_inv H E t" and "ht_inv H E t'" and "mset (entries t) = mset (entries t')"
  shows "ht_map E t = ht_map E t'"
proof
  fix k
  have "set (entries t) = set (entries t')" using assms(3) by (metis mset_eq_setD)
  then have "ht_map E t k = Some v \<longleftrightarrow> ht_map E t' k = Some v" for v
    by (simp only: ht_map_Some [OF assms(1)] ht_map_Some [OF assms(2)])
  then show "ht_map E t k = ht_map E t' k" by (metis not_Some_eq)
qed

lemma ht_refs_mset: "mset (entries t) = mset (entries t') \<Longrightarrow> mset (ht_refs t) = mset (ht_refs t')"
proof -
  have "mset (refs_of es) = image_mset he_key (mset es) + image_mset he_value (mset es)" for es
    by (induction es) (auto simp: refs_of_def)
  then show "mset (entries t) = mset (entries t') \<Longrightarrow> ?thesis" by (simp add: refs_of_simps)
qed

lemma release_entries_eq: "release_entries cl h es = release_all cl h (refs_of es)"
  by (induction es arbitrary: h) (simp_all add: refs_of_def)

end

section \<open>Runs of table operations\<close>

datatype ht_cmd = Ht_put ptr ptr | Ht_get ptr | Ht_remove ptr | Ht_containsKey ptr | Ht_clear

text \<open>Results: a pointer and a boolean; \<open>handed\<close> are the references that \<^verbatim>\<open>put\<close> and \<^verbatim>\<open>remove\<close> gave to the caller.\<close>

fun ht_exec :: "'p classes \<Rightarrow> (nat \<Rightarrow> unit alloc) \<Rightarrow> 'p heap \<times> Hashtable \<Rightarrow> ht_cmd \<Rightarrow> (ptr \<times> bool) \<times> 'p heap \<times> Hashtable" where
  "ht_exec cl mem (h, t) (Ht_put k v) =
     (case ht_put (mem (nat (ht_capacity t) * 2 + 1)) (Alloc_Ok ()) cl h t k v of (x, h', t') \<Rightarrow> ((x, True), h', t'))"
| "ht_exec cl mem (h, t) (Ht_get k) = ((ht_get cl h t k, True), h, t)"
| "ht_exec cl mem (h, t) (Ht_remove k) = (case ht_remove cl h t k of (x, h', t') \<Rightarrow> ((x, True), h', t'))"
| "ht_exec cl mem (h, t) (Ht_containsKey k) = ((None, ht_containsKey cl h t k), h, t)"
| "ht_exec cl mem (h, t) Ht_clear = ((None, True), ht_clear cl h t)"

fun handed :: "ht_cmd \<Rightarrow> ptr \<Rightarrow> ptr list" where
  "handed (Ht_put k v) x = [x]"
| "handed (Ht_remove k) x = [x]"
| "handed _ x = []"

abbreviation value_of :: "ptr option \<Rightarrow> ptr" where
  "value_of v \<equiv> (case v of None \<Rightarrow> None | Some p \<Rightarrow> p)"

fun ht_spec :: "(ptr \<Rightarrow> ptr \<Rightarrow> bool) \<Rightarrow> (ptr \<Rightarrow> ptr option) \<Rightarrow> ht_cmd \<Rightarrow> (ptr \<times> bool) \<times> (ptr \<Rightarrow> ptr option)" where
  "ht_spec E m (Ht_put k v) =
     (if k = None \<or> v = None then ((None, True), m)
      else ((value_of (m k), True), \<lambda>k'. if E k k' then Some v else m k'))"
| "ht_spec E m (Ht_get k) = ((if k = None then None else value_of (m k), True), m)"
| "ht_spec E m (Ht_remove k) =
     (if k = None then ((None, True), m) else ((value_of (m k), True), \<lambda>k'. if E k k' then None else m k'))"
| "ht_spec E m (Ht_containsKey k) = ((None, k \<noteq> None \<and> m k \<noteq> None), m)"
| "ht_spec E m Ht_clear = ((None, True), \<lambda>_. None)"

text \<open>What a run needs: counts that cannot overflow, an allocator that does not give out bucket arrays of
  more than \<^verbatim>\<open>INT_MAX\<close> cells, and a caller that holds a reference to everything it puts in.\<close>

definition ht_ready :: "(ptr \<Rightarrow> nat) \<Rightarrow> (ptr \<Rightarrow> ptr \<Rightarrow> bool) \<Rightarrow> (nat \<Rightarrow> unit alloc) \<Rightarrow> 'p heap \<Rightarrow> Hashtable \<Rightarrow> ht_cmd list \<Rightarrow> bool" where
  "ht_ready H E mem h t cs \<longleftrightarrow> ht_inv H E t \<and> owned h (ht_refs t)
     \<and> (\<forall>n. mem n = Alloc_Ok () \<longrightarrow> int n \<le> INT_MAX)
     \<and> ht_count t + int (length cs) \<le> INT_MAX
     \<and> (\<forall>a. rc h a + 2 * length cs < RC_MAX)
     \<and> (\<forall>a k v. Ht_put k v \<in> set cs \<and> (k = Some a \<or> v = Some a) \<longrightarrow> count_list (ht_refs t) (Some a) < rc h a)"

context key_semantics
begin

lemma ht_put_effect:
  assumes "ht_inv H E t" and "mem = Alloc_Ok () \<Longrightarrow> ht_capacity t * 2 + 1 \<le> INT_MAX"
    and "ht_count t < INT_MAX" and "k \<noteq> None" and "v \<noteq> None"
    and "\<And>a. k = Some a \<or> v = Some a \<Longrightarrow> live h a \<and> rc h a + 1 < RC_MAX"
    and "ht_put mem (Alloc_Ok ()) cl h t k v = (x, h', t')"
  shows "ht_inv H E t' \<and> x = value_of (ht_map E t k) \<and> ht_map E t' = (\<lambda>k'. if E k k' then Some v else ht_map E t k')
    \<and> arc_balance h (ht_refs t) h' (ht_refs t' @ [x]) \<and> ht_count t' \<le> ht_count t + 1
    \<and> rc h' a \<le> rc h a + 2"
proof -
  define s where "s = (if ht_count t \<ge> ht_threshold t then rehash mem t else t)"
  have s: "ht_inv H E s" "mset (entries s) = mset (entries t)" "ht_count s = ht_count t"
    using rehash_inv [of H E t mem] assms(1,2) by (auto simp: s_def)
  have same: "ht_map E s = ht_map E t" "mset (ht_refs s) = mset (ht_refs t)"
    using ht_map_mset [OF s(1) assms(1) s(2)] ht_refs_mset [OF s(2)] by simp_all
  let ?i = "H k mod nat (ht_capacity s)"
  have kv: "live h a \<and> rc h a < RC_MAX" if "k = Some a \<or> v = Some a" for a using assms(6) [OF that] by linarith
  have nn: "\<not> (k = None \<or> v = None)" using assms(4,5) by blast
  have put: "ht_put mem (Alloc_Ok ()) cl h t k v =
      (case ht_set (ht_match cl h (H k) k) v (ht_table s ! ?i) of
         Some (e, es) \<Rightarrow> (he_value e, RETAIN h v, s\<lparr>ht_table := (ht_table s)[?i := es]\<rparr>)
       | None \<Rightarrow> (None, RETAIN (RETAIN h k) v,
           s\<lparr>ht_table := (ht_table s)[?i := \<lparr>he_key = k, he_value = v, he_hash = H k\<rparr> # ht_table s ! ?i],
             ht_count := wrap32 (ht_count s + 1), ht_modCount := ht_modCount s + 1\<rparr>))"
    unfolding ht_put_def Let_def hash s_def [symmetric] if_not_P [OF nn] by (simp split: option.split)
  show ?thesis
  proof (cases "ht_set (ht_match cl h (H k) k) v (ht_table s ! ?i)")
    case (Some r)
    obtain e es where r: "r = (e, es)" by force
    have res: "x = he_value e" "h' = RETAIN h v" "t' = s\<lparr>ht_table := (ht_table s)[?i := es]\<rparr>"
      using assms(7) Some r by (simp_all add: put)
    note p = put_found [OF s(1) Some [unfolded r] refl assms(5) res(3)]
    have "arc_balance h (ht_refs t) h' (v # ht_refs t)"
      unfolding res(2) by (rule arc_balance_RETAIN) (use kv in blast)
    then have "arc_balance h (ht_refs t) h' (ht_refs t' @ [x])"
      by (rule arc_balance_mset) (use p res(1) same(2) in \<open>auto simp: add.commute\<close>)
    moreover have "ht_count t' = ht_count t" using res(3) s(3) by simp
    moreover have "rc h' a \<le> Suc (rc h a)" unfolding res(2) by (rule rc_RETAIN_le) (use kv in blast)
    ultimately show ?thesis using p same(1) res(1) by auto
  next
    case None
    let ?e = "\<lparr>he_key = k, he_value = v, he_hash = H k\<rparr>"
    have w: "wrap32 (ht_count s + 1) = ht_count s + 1" using s assms(3) by (simp add: ht_inv_def)
    have res: "x = None" "h' = RETAIN (RETAIN h k) v"
      "t' = s\<lparr>ht_table := (ht_table s)[?i := ?e # ht_table s ! ?i], ht_count := ht_count s + 1, ht_modCount := ht_modCount s + 1\<rparr>"
      using assms(7) None w by (simp_all add: put)
    note p = put_absent [OF s(1) None refl assms(4,5) refl res(3)]
    have b1: "arc_balance h (ht_refs t) (RETAIN h k) (k # ht_refs t)" by (rule arc_balance_RETAIN) (use kv in blast)
    have r1: "rc (RETAIN h k) b \<le> Suc (rc h b)" for b by (rule rc_RETAIN_le) (use kv in blast)
    have v1: "live (RETAIN h k) b \<and> rc (RETAIN h k) b < RC_MAX" if "v = Some b" for b
      using assms(6) [of b] that r1 [of b] by (auto simp: arc_simps)
    have r2: "rc h' a \<le> Suc (rc (RETAIN h k) a)" unfolding res(2) by (rule rc_RETAIN_le) (rule v1)
    from v1 have b2: "arc_balance (RETAIN h k) (k # ht_refs t) h' (v # k # ht_refs t)"
      unfolding res(2) by (intro arc_balance_RETAIN) blast
    have "arc_balance h (ht_refs t) h' (ht_refs t' @ [x])"
    proof -
      have "arc_balance h (ht_refs t) h' (v # k # ht_refs t)" by (rule arc_balance_trans [OF b1 b2])
      then have "arc_balance h (ht_refs t) h' (ht_refs t')"
        by (rule arc_balance_mset) (use p same(2) in \<open>auto simp: add_mset_commute\<close>)
      then show ?thesis using res(1) by (simp add: arc_balance_def)
    qed
    moreover have "rc h' a \<le> rc h a + 2" using r1 [of a] r2 by linarith
    ultimately show ?thesis using p same(1) res(1,3) s(3) by auto
  qed
qed

lemma ht_remove_effect:
  assumes "ht_inv H E t" and "ht_count t \<le> INT_MAX" and "k \<noteq> None" and "owned h (ht_refs t)"
    and "ht_remove cl h t k = (x, h', t')"
  shows "ht_inv H E t' \<and> x = value_of (ht_map E t k) \<and> ht_map E t' = (\<lambda>k'. if E k k' then None else ht_map E t k')
    \<and> arc_balance h (ht_refs t) h' (ht_refs t' @ [x]) \<and> ht_count t' \<le> ht_count t + 1
    \<and> rc h' a \<le> rc h a + 2"
proof -
  let ?i = "H k mod nat (ht_capacity t)"
  have rm: "ht_remove cl h t k =
      (case ht_unlink (ht_match cl h (H k) k) (ht_table t ! ?i) of
         None \<Rightarrow> (None, h, t)
       | Some (e, es) \<Rightarrow> (he_value e, RELEASE cl h (he_key e),
           t\<lparr>ht_table := (ht_table t)[?i := es], ht_count := wrap32 (ht_count t - 1), ht_modCount := ht_modCount t + 1\<rparr>))"
    unfolding ht_remove_def Let_def hash if_not_P [OF assms(3)] by simp
  show ?thesis
  proof (cases "ht_unlink (ht_match cl h (H k) k) (ht_table t ! ?i)")
    case None
    from ht_unlink_cases [where P = "ht_match cl h (H k) k" and es = "ht_table t ! ?i"] None
    have "\<forall>e \<in> set (ht_bucket t (H k)). \<not> ht_match cl h (H k) k e" by (simp add: ht_bucket_def)
    then have no: "\<forall>e \<in> set (entries t). \<not> E (he_key e) k" using bucket_iff [OF assms(1)] by blast
    have "ht_map E t k' = None" if "E k k'" for k'
      unfolding ht_map_None
    proof (intro ballI notI)
      fix e assume "e \<in> set (entries t)" "E (he_key e) k'"
      with that have "E (he_key e) k" using E_sym E_trans by blast
      with no \<open>e \<in> set (entries t)\<close> show False by blast
    qed
    moreover have "ht_map E t k = None" using no by (simp only: ht_map_None)
    ultimately show ?thesis using assms(1,5) None by (auto simp: rm arc_balance_def)
  next
    case (Some r)
    obtain e es where r: "r = (e, es)" by force
    have "0 \<le> ht_count t" using assms(1) by (simp add: ht_inv_def)
    then have w: "wrap32 (ht_count t - 1) = ht_count t - 1" using assms(2) by simp
    have res: "x = he_value e" "h' = RELEASE cl h (he_key e)"
      "t' = t\<lparr>ht_table := (ht_table t)[?i := es], ht_count := ht_count t - 1, ht_modCount := ht_modCount t + 1\<rparr>"
      using assms(5) Some r w by (simp_all add: rm)
    note p = remove_found [OF assms(1) Some [unfolded r] refl res(3)]
    have "he_key e \<in> set (ht_refs t)" using p by (metis list.set_intros(1) mset_eq_setD)
    then have kp: "0 < rc h b" if "he_key e = Some b" for b using that owned_pos [OF assms(4)] by metis
    have "rc h' a \<le> rc h a" unfolding res(2) by (rule rc_RELEASE_le) (rule kp)
    moreover from kp have "arc_balance h (he_key e # he_value e # ht_refs t') h' (he_value e # ht_refs t')"
      unfolding res(2) by (rule arc_balance_RELEASE)
    then have "arc_balance h (ht_refs t) h' (ht_refs t' @ [x])"
      by (rule arc_balance_mset) (use p res(1) in auto)
    ultimately show ?thesis using p res(1,3) by auto
  qed
qed

lemma ht_clear_effect:
  assumes "ht_inv H E t" and "owned h (ht_refs t)" and "ht_clear cl h t = (h', t')"
  shows "ht_inv H E t' \<and> ht_map E t' = (\<lambda>_. None) \<and> arc_balance h (ht_refs t) h' (ht_refs t') \<and> ht_count t' = 0
    \<and> rc h' a \<le> rc h a + 2"
proof -
  have e: "entries t' = []" using assms(3) by (auto simp: ht_clear_def)
  have "homed H (nat (ht_capacity t)) (replicate (length (ht_table t)) [])"
    using assms(1) by (simp add: ht_inv_def homed_def)
  then have "ht_inv H E t'" using assms(1,3) by (auto simp: ht_inv_def ht_clear_def uniq_def)
  moreover have bal: "arc_balance h (ht_refs t) h' []"
    using arc_balance_release_all [OF assms(2)] assms(3) by (auto simp: ht_clear_def release_entries_eq refs_of_simps)
  moreover have "rc h' a + count_list (ht_refs t) (Some a) = rc h a" using bal by (simp add: arc_balance_def)
  then have "rc h' a \<le> rc h a + 2" by linarith
  ultimately show ?thesis using e assms(3) by (auto simp: ht_map_def ht_refs_def ht_clear_def)
qed

lemma ht_exec_refines:
  assumes "ht_ready H E mem h t (c # cs)" and "ht_exec cl mem (h, t) c = ((x, b), h', t')"
  shows "ht_spec E (ht_map E t) c = ((x, b), ht_map E t') \<and> arc_balance h (ht_refs t) h' (ht_refs t' @ handed c x)
    \<and> ht_ready H E mem h' t' cs"
proof -
  have inv: "ht_inv H E t" and own: "owned h (ht_refs t)" and memb: "\<And>n. mem n = Alloc_Ok () \<Longrightarrow> int n \<le> INT_MAX"
    and cnt: "ht_count t + int (length cs) < INT_MAX" and rcb: "\<And>a. rc h a + 2 * length cs + 2 < RC_MAX"
    using assms(1) by (auto simp: ht_ready_def)
  have held: "count_list (ht_refs t) (Some a) < rc h a" if "Ht_put k v \<in> set (c # cs)" "k = Some a \<or> v = Some a" for a k v
    using assms(1) that unfolding ht_ready_def by blast
  have pos: "0 \<le> ht_count t" "0 < ht_capacity t" using inv by (simp_all add: ht_inv_def)
  have main: "ht_spec E (ht_map E t) c = ((x, b), ht_map E t') \<and> ht_inv H E t'
      \<and> arc_balance h (ht_refs t) h' (ht_refs t' @ handed c x) \<and> ht_count t' \<le> ht_count t + 1
      \<and> rc h' a \<le> rc h a + 2" for a
  proof (cases c)
    case (Ht_put k v)
    show ?thesis
    proof (cases "k = None \<or> v = None")
      case True
      with Ht_put assms(2) inv show ?thesis by (auto simp: ht_put_def arc_balance_def)
    next
      case False
      have "live h a \<and> rc h a + 1 < RC_MAX" if "k = Some a \<or> v = Some a" for a
        using held [of k v a] that Ht_put rcb [of a] by (auto intro: rc_pos_live)
      moreover have "ht_capacity t * 2 + 1 \<le> INT_MAX" if "mem (nat (ht_capacity t) * 2 + 1) = Alloc_Ok ()"
        using memb [OF that] pos by simp
      ultimately show ?thesis
        using ht_put_effect [OF inv, of "mem (nat (ht_capacity t) * 2 + 1)" k v h x h' t' a] False Ht_put assms(2) cnt
        by (auto split: prod.splits)
    qed
  next
    case (Ht_get k)
    with assms(2) inv show ?thesis by (auto simp: ht_get_map [OF inv])
  next
    case (Ht_remove k)
    show ?thesis
    proof (cases "k = None")
      case True
      with Ht_remove assms(2) inv show ?thesis by (auto simp: ht_remove_def arc_balance_def)
    next
      case False
      then show ?thesis using ht_remove_effect [OF inv _ False own, of x h' t' a] Ht_remove assms(2) cnt
        by (auto split: prod.splits)
    qed
  next
    case (Ht_containsKey k)
    with assms(2) inv show ?thesis by (auto simp: ht_get_map [OF inv])
  next
    case Ht_clear
    with ht_clear_effect [OF inv own, of h' t' a] assms(2) pos show ?thesis by auto
  qed
  then have bal: "arc_balance h (ht_refs t) h' (ht_refs t' @ handed c x)" by blast
  have acc: "rc h' a + count_list (ht_refs t) (Some a) = rc h a + count_list (ht_refs t') (Some a) + count_list (handed c x) (Some a)" for a
    using bal by (simp add: arc_balance_def)
  have own': "owned h' (ht_refs t')"
    using arc_balance_owned [OF bal own] owned_sub [of h' "[]" "ht_refs t'"] by simp
  have len: "ht_count t' \<le> ht_count t + 1" and inv': "ht_inv H E t'" using main by blast+
  have "rc h' a + 2 * length cs < RC_MAX" for a using main [of a] rcb [of a] by linarith
  moreover have "count_list (ht_refs t') (Some a) < rc h' a" if "Ht_put k v \<in> set cs" "k = Some a \<or> v = Some a" for a k v
    using acc [of a] held [of k v a] that by simp
  ultimately have "ht_ready H E mem h' t' cs"
    using inv' own' memb cnt len unfolding ht_ready_def by auto
  with main bal show ?thesis by blast
qed

end

fun ht_run :: "'p classes \<Rightarrow> (nat \<Rightarrow> unit alloc) \<Rightarrow> 'p heap \<times> Hashtable \<Rightarrow> ht_cmd list
    \<Rightarrow> (ptr \<times> bool) list \<times> ptr list \<times> 'p heap \<times> Hashtable" where
  "ht_run cl mem s [] = ([], [], s)"
| "ht_run cl mem s (c # cs) =
     (let (o1, s1) = ht_exec cl mem s c; (os, gs, s2) = ht_run cl mem s1 cs in (o1 # os, handed c (fst o1) @ gs, s2))"

fun ht_spec_run :: "(ptr \<Rightarrow> ptr \<Rightarrow> bool) \<Rightarrow> (ptr \<Rightarrow> ptr option) \<Rightarrow> ht_cmd list \<Rightarrow> (ptr \<times> bool) list \<times> (ptr \<Rightarrow> ptr option)" where
  "ht_spec_run E m [] = ([], m)"
| "ht_spec_run E m (c # cs) = (let (o1, m1) = ht_spec E m c; (os, m2) = ht_spec_run E m1 cs in (o1 # os, m2))"

context key_semantics
begin

lemma ht_run_refines:
  assumes "ht_ready H E mem h t cs" and "ht_run cl mem (h, t) cs = (outs, gs, h', t')"
  shows "ht_spec_run E (ht_map E t) cs = (outs, ht_map E t') \<and> ht_inv H E t' \<and> arc_balance h (ht_refs t) h' (ht_refs t' @ gs)"
  using assms
proof (induction cs arbitrary: h t outs gs)
  case Nil
  then show ?case by (auto simp: ht_ready_def)
next
  case (Cons c cs)
  obtain x b h1 t1 where e: "ht_exec cl mem (h, t) c = ((x, b), h1, t1)" by (metis prod.collapse)
  obtain os gs1 where o: "ht_run cl mem (h1, t1) cs = (os, gs1, h', t')" "outs = (x, b) # os" "gs = handed c x @ gs1"
    using Cons.prems(2) e by (auto split: prod.splits)
  note r = ht_exec_refines [OF Cons.prems(1) e]
  then have ih: "ht_spec_run E (ht_map E t1) cs = (os, ht_map E t') \<and> ht_inv H E t' \<and> arc_balance h1 (ht_refs t1) h' (ht_refs t' @ gs1)"
    using Cons.IH o(1) by blast
  have "arc_balance h1 (ht_refs t1 @ handed c x) h' (ht_refs t' @ gs1 @ handed c x)"
    using arc_balance_frame [of h1 "ht_refs t1" h' "ht_refs t' @ gs1" "[]" "handed c x"] ih by simp
  with r have "arc_balance h (ht_refs t) h' (ht_refs t' @ gs1 @ handed c x)" using arc_balance_trans by blast
  then have "arc_balance h (ht_refs t) h' (ht_refs t' @ gs)"
    by (rule arc_balance_mset) (simp_all add: o(3) add.commute)
  with r ih o show ?case by simp
qed

end

section \<open>Iteration\<close>

lemma hi_advance_rest:
  assumes "length table = cap"
  shows "case hi_advance table cap i of (j, es) \<Rightarrow> es @ concat (drop j table) = concat (drop i table) \<and> (es = [] \<longrightarrow> concat (drop i table) = [])"
  using assms
proof (induction table cap i rule: hi_advance.induct)
  case (1 table cap i)
  show ?case
  proof (cases "i < cap")
    case True
    then have d: "drop i table = table ! i # drop (Suc i) table" using 1(2) by (simp add: Cons_nth_drop_Suc)
    show ?thesis
    proof (cases "table ! i = []")
      case True
      with \<open>i < cap\<close> 1 d show ?thesis by (simp add: hi_advance.simps [of table cap i])
    next
      case False
      with \<open>i < cap\<close> d show ?thesis by (simp add: hi_advance.simps [of table cap i])
    qed
  next
    case False
    with 1(2) show ?thesis by (simp add: hi_advance.simps [of table cap i])
  qed
qed

text \<open>What an iterator still has to deliver.\<close>

definition hi_rest :: "Hashtable \<Rightarrow> HashtableIterator \<Rightarrow> HashtableEntry list" where
  "hi_rest t it = hi_entry it @ concat (drop (hi_bucketIndex it) (ht_table t))"

definition hi_wf :: "Hashtable \<Rightarrow> HashtableIterator \<Rightarrow> bool" where
  "hi_wf t it \<longleftrightarrow> (hi_entry it = [] \<longrightarrow> hi_rest t it = []) \<and> hi_expectedModCount it = ht_modCount t
     \<and> length (ht_table t) = nat (ht_capacity t)"

lemma hi_next_rest:
  assumes "hi_wf t it" and "hi_rest t it = e # es"
  shows "hi_hasNext it \<and> fst (hi_next t it) = Some (he_key e, he_value e)
    \<and> hi_rest t (snd (hi_next t it)) = es \<and> hi_wf t (snd (hi_next t it))"
proof -
  have len: "length (ht_table t) = nat (ht_capacity t)" using assms(1) by (simp add: hi_wf_def)
  obtain fs where f: "hi_entry it = e # fs" "es = fs @ concat (drop (hi_bucketIndex it) (ht_table t))"
    using assms by (cases "hi_entry it") (auto simp: hi_wf_def hi_rest_def simp del: concat_eq_Nil_conv)
  obtain j gs where a: "hi_advance (ht_table t) (nat (ht_capacity t)) (hi_bucketIndex it) = (j, gs)" by force
  show ?thesis
  proof (cases "fs = []")
    case True
    with hi_advance_rest [OF len, of "hi_bucketIndex it"] a f assms(1) show ?thesis
      by (auto simp: hi_hasNext_def hi_next_def hi_rest_def hi_wf_def simp del: concat_eq_Nil_conv)
  next
    case False
    with f assms(1) show ?thesis by (simp add: hi_hasNext_def hi_next_def hi_rest_def hi_wf_def)
  qed
qed

text \<open>The loop \<^verbatim>\<open>while (it->hasNext(it)) it->next(it, &k, &v)\<close>, cut off after \<open>n\<close> rounds.\<close>

fun hi_drain :: "Hashtable \<Rightarrow> nat \<Rightarrow> HashtableIterator \<Rightarrow> (ptr \<times> ptr) option list \<times> bool" where
  "hi_drain t 0 it = ([], hi_hasNext it)"
| "hi_drain t (Suc n) it =
     (if hi_hasNext it
      then let (x, it1) = hi_next t it; (xs, more) = hi_drain t n it1 in (x # xs, more)
      else ([], False))"

lemma hi_drain_rest:
  assumes "hi_wf t it" and "length (hi_rest t it) \<le> n"
  shows "hi_drain t n it = (map (\<lambda>e. Some (he_key e, he_value e)) (hi_rest t it), False)"
  using assms
proof (induction n arbitrary: it)
  case 0
  then show ?case by (simp add: hi_hasNext_def hi_rest_def)
next
  case (Suc n)
  show ?case
  proof (cases "hi_rest t it")
    case Nil
    then show ?thesis by (simp add: hi_hasNext_def hi_rest_def)
  next
    case (Cons e es)
    with Suc.IH [of "snd (hi_next t it)"] hi_next_rest [OF Suc.prems(1) Cons] Suc.prems(2) show ?thesis
      by (simp add: split_beta)
  qed
qed

section \<open>Properties\<close>


definition demo_ht :: Hashtable where
  "demo_ht = the (new_Hashtable (Alloc_Ok ()) (Alloc_Ok ()) 1 (\<lambda>n. 0))"

lemma demo_ht_ready:
  assumes "set cs \<subseteq> {Ht_put (Some 1) (Some 2), Ht_get (Some 1), Ht_remove (Some 1)}" and "length cs < 100"
  shows "ht_ready addr_hash (=) (\<lambda>n. if n < 100 then Alloc_Ok () else Alloc_Fail) demo_heap demo_ht cs"
proof -
  have "rc demo_heap a + 2 * length cs < RC_MAX" for a
  proof -
    have "rc demo_heap a \<le> 2" by (simp add: rc_def demo_heap_def)
    with assms(2) show ?thesis by simp
  qed
  with assms show ?thesis
    by (auto simp: ht_ready_def demo_ht_def new_Hashtable_def ht_inv_def homed_def uniq_def ht_refs_def owned_def split: if_splits)
qed


text \<open>Iterating over an unmodified table delivers every entry exactly once and then ends; when an entry
  has been added meanwhile (with or without a rehash), the next call refuses to go on.\<close>

theorem Hashtable_iterator_fail_fast:
  assumes "ht_inv H (=) t"
  shows "hi_drain t (length (entries t)) (ht_iterator t) = (map (\<lambda>e. Some (he_key e, he_value e)) (entries t), False)
    \<and> (\<forall>x h' t'. ht_put mem (Alloc_Ok ()) leaf_classes h t k v = (x, h', t') \<and> ht_count t' \<noteq> ht_count t \<longrightarrow>
          hi_next t' (ht_iterator t) = (None, ht_iterator t))"
proof -
  have len: "length (ht_table t) = nat (ht_capacity t)" using assms by (simp add: ht_inv_def homed_def)
  obtain j es where a: "hi_advance (ht_table t) (nat (ht_capacity t)) 0 = (j, es)" by force
  from hi_advance_rest [OF len, of 0] a have r: "hi_rest t (ht_iterator t) = entries t" "hi_wf t (ht_iterator t)"
    using len by (auto simp: hi_rest_def hi_wf_def ht_iterator_def simp del: concat_eq_Nil_conv)
  have m: "w + 1 \<noteq> w" "w + 2 \<noteq> w" for w :: u64 by simp_all
  have "ht_modCount t' \<noteq> ht_modCount t"
    if "ht_put mem (Alloc_Ok ()) leaf_classes h t k v = (x, h', t')" "ht_count t' \<noteq> ht_count t" for x h' t'
    using that m by (auto simp: ht_put_def rehash_def Let_def split: if_splits option.splits alloc.splits)
  then have "hi_next t' (ht_iterator t) = (None, ht_iterator t)"
    if "ht_put mem (Alloc_Ok ()) leaf_classes h t k v = (x, h', t')" "ht_count t' \<noteq> ht_count t" for x h' t'
    using that by (simp add: hi_next_def ht_iterator_def split_beta)
  with hi_drain_rest [OF r(2)] r(1) show ?thesis by simp
qed

definition demo_ht1 :: Hashtable where
  "demo_ht1 = demo_ht\<lparr>ht_table := [[\<lparr>he_key = Some 1, he_value = Some 2, he_hash = addr_hash (Some 1)\<rparr>]], ht_count := 1\<rparr>"

lemma demo_ht1_inv: "ht_inv addr_hash (=) demo_ht1"
  by (simp add: demo_ht1_def demo_ht_def new_Hashtable_def ht_inv_def homed_def uniq_def)

theorem Hashtable_iterator_fail_fast_witness:
  "hi_drain demo_ht1 1 (ht_iterator demo_ht1) = ([Some (Some 1, Some 2)], False)
   \<and> hi_next (snd (snd (ht_put Alloc_Fail (Alloc_Ok ()) leaf_classes demo_heap demo_ht1 (Some 2) (Some 1)))) (ht_iterator demo_ht1)
      = (None, ht_iterator demo_ht1)"
proof -
  obtain x h' t' where p: "ht_put Alloc_Fail (Alloc_Ok ()) leaf_classes demo_heap demo_ht1 (Some 2) (Some 1) = (x, h', t')"
    by (metis prod.collapse)
  have "ht_count t' \<noteq> ht_count demo_ht1"
    using p by (auto simp: ht_put_def rehash_def demo_ht1_def demo_ht_def new_Hashtable_def Let_def leaf_keys.ht_match_eq)
  with p Hashtable_iterator_fail_fast [OF demo_ht1_inv, of Alloc_Fail demo_heap "Some 2" "Some 1"]
  have "hi_next t' (ht_iterator demo_ht1) = (None, ht_iterator demo_ht1)"
    "hi_drain demo_ht1 (length (entries demo_ht1)) (ht_iterator demo_ht1)
      = (map (\<lambda>e. Some (he_key e, he_value e)) (entries demo_ht1), False)" by blast+
  moreover have "entries demo_ht1 = [\<lparr>he_key = Some 1, he_value = Some 2, he_hash = addr_hash (Some 1)\<rparr>]"
    by (simp add: demo_ht1_def)
  ultimately show ?thesis using p by simp
qed

end
