(* ===== verification/String_Obj.thy ===== *)
theory String_Obj
  imports C_Strings "HOL-Library.Monad_Syntax"
begin

text \<open>
  \<^verbatim>\<open>src/src/string_obj.c\<close>: the String object. \<open>st_value\<close> is the allocated block with its terminating NUL, \<open>st_length\<close> the
  \<^verbatim>\<open>int\<close> field. Functions of the C library see the block up to its first NUL (\<open>c_str\<close>), the others use the
  length; \<open>str_ok\<close> says that the two agree. Methods that return a new String take the answers for its two
  allocations. A write or read outside of a block is the outcome \<open>None\<close> of the helper that does it, so that the
  theorems that give a result also say that there is none.
\<close>

section \<open>Objects\<close>

record String =
  st_value :: "byte list"
  st_length :: int

definition new_String :: "unit alloc \<Rightarrow> unit alloc \<Rightarrow> cstring option \<Rightarrow> String option" where
  "new_String mem mem_value init_str =
     (let v = (case init_str of None \<Rightarrow> [] | Some s \<Rightarrow> c_str s)
      in case (mem, mem_value) of
           (Alloc_Ok _, Alloc_Ok _) \<Rightarrow> Some \<lparr>st_value = v @ [0], st_length = wrap32 (int (length v))\<rparr>
         | _ \<Rightarrow> None)"

definition new_StringN :: "unit alloc \<Rightarrow> unit alloc \<Rightarrow> byte list option \<Rightarrow> nat \<Rightarrow> String option" where
  "new_StringN mem mem_value str len =
     (case str of None \<Rightarrow> None
      | Some s \<Rightarrow>
          (case (mem, mem_value) of
             (Alloc_Ok _, Alloc_Ok _) \<Rightarrow> Some \<lparr>st_value = take len s @ [0], st_length = wrap32 (int len)\<rparr>
           | _ \<Rightarrow> None))"

definition impl_length :: "String \<Rightarrow> int" where
  "impl_length self = st_length self"

definition impl_charAt :: "String \<Rightarrow> int \<Rightarrow> byte" where
  "impl_charAt self index = (if index < 0 \<or> index \<ge> st_length self then 0 else st_value self ! nat index)"

definition String_equals :: "String \<Rightarrow> cstring option \<Rightarrow> bool" where
  "String_equals self another = (case another of None \<Rightarrow> False | Some s \<Rightarrow> c_str (st_value self) = c_str s)"

definition impl_indexOf :: "String \<Rightarrow> cstring option \<Rightarrow> int" where
  "impl_indexOf self str =
     (case str of None \<Rightarrow> - 1
      | Some s \<Rightarrow> (case strstr (c_str (st_value self)) s of None \<Rightarrow> - 1 | Some i \<Rightarrow> int i))"

definition impl_isEmpty :: "String \<Rightarrow> bool" where
  "impl_isEmpty self \<longleftrightarrow> st_length self = 0"

definition String_c_str :: "String \<Rightarrow> cstring" where
  "String_c_str self = c_str (st_value self)"

section \<open>Replacing and deleting\<close>

text \<open>The counting loop of \<^verbatim>\<open>str_replace_all\<close>.\<close>

function occurrences :: "cstring \<Rightarrow> cstring \<Rightarrow> nat" where
  "occurrences target s =
     (if target = [] then 0
      else case strstr s target of None \<Rightarrow> 0 | Some i \<Rightarrow> Suc (occurrences target (drop (i + length target) s)))"
  by pat_completeness auto
termination
  by (relation "measure (\<lambda>(_, s). length s)")
     (auto simp: strstr_def neq_Nil_conv dest!: memmem_bound)

text \<open>The copying loop, into a block of \<open>cap\<close> bytes of which the first \<open>length out\<close> are written: \<^verbatim>\<open>strcpy\<close> also writes the
  NUL.\<close>

function replace_loop :: "nat \<Rightarrow> cstring \<Rightarrow> cstring \<Rightarrow> cstring \<Rightarrow> cstring \<Rightarrow> cstring option" where
  "replace_loop cap target replacement out source =
     (case source of
        [] \<Rightarrow> if length out < cap then Some out else None
      | c # r \<Rightarrow>
          if target \<noteq> [] \<and> strstr source target = Some 0
          then if length out + length replacement < cap
               then replace_loop cap target replacement (out @ replacement) (drop (length target) source) else None
          else if length out < cap then replace_loop cap target replacement (out @ [c]) r else None)"
  by pat_completeness auto
termination
  by (relation "measure (\<lambda>(_, _, _, _, s). length s)") auto

declare occurrences.simps [simp del] replace_loop.simps [simp del]

text \<open>The size of the block, or \<open>None\<close> when the guard against overflow gives up.\<close>

definition replace_size :: "nat \<Rightarrow> nat \<Rightarrow> nat \<Rightarrow> nat \<Rightarrow> nat option" where
  "replace_size src_len cnt target_len replacement_len =
     (if replacement_len \<ge> target_len
      then let diff = replacement_len - target_len
           in if cnt > 0 \<and> diff > (SIZE_MAX - src_len - 1) div cnt then None else Some (src_len + cnt * diff + 1)
      else Some (src_len - cnt * (target_len - replacement_len) + 1))"

datatype replaced = Replaced cstring | No_memory | Overrun

definition str_replace_all :: "unit alloc \<Rightarrow> cstring \<Rightarrow> cstring option \<Rightarrow> cstring option \<Rightarrow> replaced" where
  "str_replace_all mem source target replacement =
     (case (target, replacement) of
        (Some t, Some p) \<Rightarrow>
          if t = [] then (if mem = Alloc_Fail then No_memory else Replaced source)
          else (case replace_size (length source) (occurrences t source) (length t) (length p) of
                  None \<Rightarrow> No_memory
                | Some new_len \<Rightarrow>
                    if mem = Alloc_Fail then No_memory
                    else case replace_loop new_len t p [] source of None \<Rightarrow> Overrun | Some r \<Rightarrow> Replaced r)
      | _ \<Rightarrow> if mem = Alloc_Fail then No_memory else Replaced source)"

text \<open>Without a result \<^verbatim>\<open>new_String\<close> gets NULL and makes an empty String.\<close>

definition impl_replace ::
  "unit alloc \<Rightarrow> unit alloc \<Rightarrow> unit alloc \<Rightarrow> String \<Rightarrow> cstring option \<Rightarrow> cstring option \<Rightarrow> String option option" where
  "impl_replace mem_r mem mem_value self target replacement =
     (case str_replace_all mem_r (c_str (st_value self)) target replacement of
        Overrun \<Rightarrow> None
      | No_memory \<Rightarrow> Some (new_String mem mem_value None)
      | Replaced r \<Rightarrow> Some (new_String mem mem_value (Some r)))"

text \<open>\<^verbatim>\<open>delete\<close>: the block keeps its size; \<^verbatim>\<open>memmove\<close> takes the terminator along and leaves the bytes behind it alone.\<close>

function delete_loop :: "cstring \<Rightarrow> byte list \<Rightarrow> int \<Rightarrow> byte list \<times> int" where
  "delete_loop target v len =
     (if target = [] then (v, len)
      else let s = c_str v in
        case strstr s target of None \<Rightarrow> (v, len)
        | Some i \<Rightarrow>
            let t = drop (i + length target) s
            in delete_loop target (take i v @ t @ [0] @ drop (i + length t + 1) v) (len - int (length target)))"
  by pat_completeness auto
termination
proof (relation "measure (\<lambda>(_, v, _). length (c_str v))")
  fix target :: cstring and v :: "byte list" and s i t
  assume *: "target \<noteq> []" "s = c_str v" "strstr s target = Some i" "t = drop (i + length target) s"
  have i: "i \<le> length s" "take (length target) (drop i s) = target" using memmem_Some *(3) by (auto simp: strstr_def)
  then have "length target \<le> length s - i" by (metis length_drop length_take min.cobounded1)
  moreover have "take i v = take i s"
    using i(1) unfolding *(2) c_str_def by (metis takeWhile_eq_take take_take min.absorb1 length_takeWhile_le)
  moreover have "0 \<notin> set (take i s)" "0 \<notin> set t" unfolding *(2,4) by (meson c_str_no_nul in_set_takeD in_set_dropD)+
  ultimately have "c_str (take i v @ t @ [0] @ drop (i + length t + 1) v) = take i s @ t"
    using c_str_append_nul [of "take i s @ t" "drop (i + length t + 1) v"] by simp
  then show "((target, take i v @ t @ [0] @ drop (i + length t + 1) v, len - int (length target)), target, v, len)
      \<in> measure (\<lambda>(_, v, _). length (c_str v))" for len
    using *(1,4) i(1) \<open>length target \<le> length s - i\<close> by (cases target) (simp_all add: *(2) [symmetric])
qed simp

declare delete_loop.simps [simp del]

definition impl_delete :: "String \<Rightarrow> cstring option \<Rightarrow> String" where
  "impl_delete self target =
     (case target of None \<Rightarrow> self
      | Some t \<Rightarrow> if t = [] then self
                  else case delete_loop t (st_value self) (st_length self) of
                         (v, len) \<Rightarrow> self\<lparr>st_value := v, st_length := len\<rparr>)"

section \<open>Parts\<close>

definition impl_substring :: "unit alloc \<Rightarrow> unit alloc \<Rightarrow> unit alloc \<Rightarrow> String \<Rightarrow> int \<Rightarrow> int \<Rightarrow> String option" where
  "impl_substring mem_sub mem mem_value self b e =
     (if b < 0 \<or> e > st_length self \<or> b > e then new_String mem mem_value (Some [])
      else if mem_sub = Alloc_Fail then None
      else new_String mem mem_value (Some (c_str (take (nat (e - b)) (drop (nat b) (st_value self))))))"

text \<open>\<^verbatim>\<open>while (end > start && isspace(*end)) end--\<close>, on indices into the block.\<close>

fun trim_end :: "byte list \<Rightarrow> nat \<Rightarrow> nat \<Rightarrow> nat" where
  "trim_end v start 0 = 0"
| "trim_end v start (Suc e) = (if Suc e > start \<and> isspace (v ! Suc e) then trim_end v start e else Suc e)"

definition impl_trim :: "unit alloc \<Rightarrow> unit alloc \<Rightarrow> unit alloc \<Rightarrow> String \<Rightarrow> String option" where
  "impl_trim mem_t mem mem_value self =
     (let v = st_value self;
          start = length (takeWhile isspace v)
      in if v ! start = 0 then new_String mem mem_value (Some [])
         else let e = trim_end v start (nat (st_length self - 1))
              in if mem_t = Alloc_Fail then None
                 else new_String mem mem_value (Some (c_str (take (e - start + 1) (drop start v)))))"

definition impl_append :: "byte alloc \<Rightarrow> String \<Rightarrow> cstring option \<Rightarrow> String" where
  "impl_append mem self str =
     (case str of None \<Rightarrow> self
      | Some s \<Rightarrow>
          let len = length s; old = nat (st_length self)
          in if len = 0 then self
             else if old + len > SIZE_MAX then self
             else case mem of Alloc_Fail \<Rightarrow> self
                  | Alloc_Ok junk \<Rightarrow>
                      let cells = realloc_cells junk (st_value self) (old + len + 1)
                      in self\<lparr>st_value := take old cells @ s @ [0], st_length := wrap32 (int (old + len))\<rparr>)"

text \<open>\<^verbatim>\<open>split\<close>: \<open>mem i\<close> answers for token \<open>i\<close>, its String and its slot in the list; a String that could not be made is added
  as NULL. The copy of the text is not checked: without it there is no result.\<close>

fun add_tokens :: "(nat \<Rightarrow> (unit alloc \<times> unit alloc) \<times> bool) \<Rightarrow> nat \<Rightarrow> cstring list \<Rightarrow> String option list" where
  "add_tokens mem i [] = []"
| "add_tokens mem i (t # ts) =
     (case mem i of ((m, v), slot) \<Rightarrow>
        (if slot then [new_String m v (Some t)] else []) @ add_tokens mem (i + 1) ts)"

definition impl_split ::
  "bool \<Rightarrow> bool \<Rightarrow> (nat \<Rightarrow> (unit alloc \<times> unit alloc) \<times> bool) \<Rightarrow> String \<Rightarrow> cstring \<Rightarrow> String option list option option" where
  "impl_split mem_list mem_copy mem self delimiter =
     (if \<not> mem_list then Some None
      else if \<not> mem_copy then None
      else Some (Some (add_tokens mem 0 (strtok (\<lambda>c. c \<in> set delimiter) (c_str (st_value self))))))"

text \<open>\<^verbatim>\<open>implode\<close>: the bytes it copies into the block it has measured; \<open>left\<close> items follow.\<close>

fun implode_loop :: "cstring \<Rightarrow> String option list \<Rightarrow> byte list" where
  "implode_loop delim [] = []"
| "implode_loop delim (item # items) =
     (case item of None \<Rightarrow> []
      | Some s \<Rightarrow> take (nat (st_length s)) (st_value s) @ (if items \<noteq> [] then delim else []))
     @ implode_loop delim items"

definition implode_size :: "cstring \<Rightarrow> String option list \<Rightarrow> nat" where
  "implode_size delim items =
     sum_list (map (\<lambda>item. case item of None \<Rightarrow> 0 | Some s \<Rightarrow> nat (st_length s)) items)
     + length delim * (length items - 1) + 1"

definition impl_implode ::
  "unit alloc \<Rightarrow> unit alloc \<Rightarrow> unit alloc \<Rightarrow> String \<Rightarrow> String option list \<Rightarrow> String option option" where
  "impl_implode mem_d mem mem_value self items =
     (if items = [] then Some (new_String mem mem_value (Some []))
      else let delim = c_str (st_value self); out = implode_loop delim items
           in if mem_d = Alloc_Fail then Some None
              else if length out < implode_size delim items
              then Some (new_String mem mem_value (Some (c_str out))) else None)"

section \<open>Characters\<close>

definition get_utf8_char_len :: "byte \<Rightarrow> nat" where
  "get_utf8_char_len c =
     (if unat c < 128 then 1
      else if 192 \<le> unat c \<and> unat c < 224 then 2
      else if 224 \<le> unat c \<and> unat c < 240 then 3
      else if 240 \<le> unat c \<and> unat c < 248 then 4
      else 1)"

text \<open>The loop of \<^verbatim>\<open>reverse\<close>: what it has written are the last \<open>src_idx\<close> bytes of the block; a character that announces more
  bytes than are left makes \<^verbatim>\<open>dest_idx\<close> negative (\<open>None\<close>).\<close>

function reverse_loop :: "byte list \<Rightarrow> byte list \<Rightarrow> byte list option" where
  "reverse_loop out [] = Some out"
| "reverse_loop out (c # r) =
     (let n = get_utf8_char_len c
      in if n > length (c # r) then None else reverse_loop (take n (c # r) @ out) (drop n (c # r)))"
  by pat_completeness auto
termination
  by (relation "measure (\<lambda>(_, s). length s)") (auto simp: get_utf8_char_len_def)

definition impl_reverse :: "unit alloc \<Rightarrow> unit alloc \<Rightarrow> unit alloc \<Rightarrow> String \<Rightarrow> String option option" where
  "impl_reverse mem_d mem mem_value self =
     (if mem_d = Alloc_Fail then Some None
      else case reverse_loop [] (take (nat (st_length self)) (st_value self)) of
             None \<Rightarrow> None | Some r \<Rightarrow> Some (new_String mem mem_value (Some (c_str r))))"

definition c_toupper :: "byte \<Rightarrow> byte" where
  "c_toupper c = (if 97 \<le> c \<and> c \<le> 122 then c - 32 else c)"

definition map_c_str :: "(byte \<Rightarrow> byte) \<Rightarrow> byte list \<Rightarrow> byte list" where
  "map_c_str f v = map f (c_str v) @ drop (length (c_str v)) v"

definition impl_toLowerCase :: "String \<Rightarrow> String" where
  "impl_toLowerCase self = self\<lparr>st_value := map_c_str c_tolower (st_value self)\<rparr>"

definition impl_toUpperCase :: "String \<Rightarrow> String" where
  "impl_toUpperCase self = self\<lparr>st_value := map_c_str c_toupper (st_value self)\<rparr>"

definition impl_toInt :: "String \<Rightarrow> int" where
  "impl_toInt self = atoi (c_str (st_value self))"

definition impl_toLong :: "String \<Rightarrow> int" where
  "impl_toLong self = strtol10 (c_str (st_value self))"

section \<open>\<open>string_join\<close>\<close>

text \<open>The measuring loop with its two overflow tests, and the copying loop; NULL entries are skipped.\<close>

fun join_size :: "nat \<Rightarrow> nat \<Rightarrow> cstring option list \<Rightarrow> nat option" where
  "join_size delim_len tot [] = Some tot"
| "join_size delim_len tot (s # ss) =
     (case s of None \<Rightarrow> join_size delim_len tot ss
      | Some x \<Rightarrow>
          if tot + length x > SIZE_MAX then None
          else let tot1 = tot + length x
               in if ss = [] then join_size delim_len tot1 ss
                  else if tot1 + delim_len > SIZE_MAX then None else join_size delim_len (tot1 + delim_len) ss)"

fun join_copy :: "cstring \<Rightarrow> cstring option list \<Rightarrow> cstring" where
  "join_copy delim [] = []"
| "join_copy delim (s # ss) =
     (case s of None \<Rightarrow> [] | Some x \<Rightarrow> x @ (if ss \<noteq> [] then delim else [])) @ join_copy delim ss"

definition string_join :: "unit alloc \<Rightarrow> cstring option \<Rightarrow> cstring option list \<Rightarrow> cstring option option" where
  "string_join mem delimiter strs =
     (case delimiter of None \<Rightarrow> Some None
      | Some delim \<Rightarrow>
          if strs = [] then Some None
          else case join_size (length delim) 0 strs of None \<Rightarrow> Some None
               | Some tot \<Rightarrow>
                   if mem = Alloc_Fail then Some None
                   else if length (join_copy delim strs) = tot then Some (Some (join_copy delim strs)) else None)"

section \<open>Invariant\<close>

definition str_ok :: "cstring \<Rightarrow> String \<Rightarrow> bool" where
  "str_ok s self \<longleftrightarrow> (\<exists>junk. st_value self = s @ 0 # junk) \<and> 0 \<notin> set s \<and> st_length self = int (length s)
     \<and> int (length s) \<le> INT_MAX"

lemma str_ok_c_str [simp]: "str_ok s self \<Longrightarrow> c_str (st_value self) = s"
  by (auto simp: str_ok_def)

lemma str_ok_take [simp]: "str_ok s self \<Longrightarrow> take (nat (st_length self)) (st_value self) = s"
  by (auto simp: str_ok_def)

lemma new_String_ok:
  "0 \<notin> set s \<Longrightarrow> int (length s) \<le> INT_MAX \<Longrightarrow>
     \<exists>r. new_String (Alloc_Ok u) (Alloc_Ok v) (Some s) = Some r \<and> str_ok s r"
  by (auto simp: new_String_def str_ok_def)

section \<open>Replacing\<close>

text \<open>Left to right, every occurrence of the target gives way to the replacement.\<close>

function replace_spec :: "cstring \<Rightarrow> cstring \<Rightarrow> cstring \<Rightarrow> cstring" where
  "replace_spec t p [] = []"
| "replace_spec t p (c # r) =
     (if t \<noteq> [] \<and> take (length t) (c # r) = t then p @ replace_spec t p (drop (length t) (c # r))
      else c # replace_spec t p r)"
  by pat_completeness auto
termination
  by (relation "measure (\<lambda>(_, _, s). length s)") auto

lemma strstr_here: "strstr s t = Some 0 \<longleftrightarrow> take (length t) s = t"
  by (cases s) (auto simp: strstr_def memmem.simps)

lemma strstr_next: "take (length t) (c # r) \<noteq> t \<Longrightarrow> strstr (c # r) t = map_option Suc (strstr r t)"
  by (simp add: strstr_def memmem.simps [of "c # r"])

lemma occurrences_Nil [simp]: "occurrences t [] = 0"
  by (simp add: occurrences.simps strstr_def memmem.simps)

lemma occurrences_Cons:
  "t \<noteq> [] \<Longrightarrow> occurrences t (c # r) = (if take (length t) (c # r) = t then Suc (occurrences t (drop (length t) (c # r)))
     else occurrences t r)"
proof (cases "take (length t) (c # r) = t")
  case True
  assume "t \<noteq> []"
  with True show ?thesis using strstr_here [of "c # r" t] by (subst occurrences.simps) simp
next
  case False
  assume "t \<noteq> []"
  with False show ?thesis
    by (subst (1 2) occurrences.simps) (auto simp: strstr_next split: option.splits)
qed

lemma replace_spec_length:
  "t \<noteq> [] \<Longrightarrow> length (replace_spec t p s) + occurrences t s * length t = length s + occurrences t s * length p"
proof (induction t p s rule: replace_spec.induct)
  case (2 t p c r)
  show ?case
  proof (cases "take (length t) (c # r) = t")
    case True
    then have "length (drop (length t) (c # r)) + length t = length (c # r)"
      by (metis append_take_drop_id add.commute length_append)
    with 2 True show ?thesis by (simp add: occurrences_Cons)
  next
    case False
    with 2 show ?thesis by (simp add: occurrences_Cons)
  qed
qed simp

lemma replace_loop_spec:
  "t \<noteq> [] \<Longrightarrow> length out + length (replace_spec t p s) < cap \<Longrightarrow> replace_loop cap t p out s = Some (out @ replace_spec t p s)"
proof (induction t p s arbitrary: out rule: replace_spec.induct)
  case (1 t p)
  then show ?case by (subst replace_loop.simps) simp
next
  case (2 t p c r)
  show ?case
  proof (cases "take (length t) (c # r) = t")
    case True
    with 2 strstr_here [of "c # r" t] show ?thesis by (subst replace_loop.simps) simp
  next
    case False
    with 2 strstr_here [of "c # r" t] show ?thesis by (subst replace_loop.simps) simp
  qed
qed

lemma replace_size_exact:
  assumes "t \<noteq> []" "length (replace_spec t p s) < SIZE_MAX"
  shows "replace_size (length s) (occurrences t s) (length t) (length p) = Some (length (replace_spec t p s) + 1)"
proof -
  note len = replace_spec_length [OF assms(1), of p s]
  let ?n = "occurrences t s"
  show ?thesis
  proof (cases "length p \<ge> length t")
    case True
    then have eq: "length (replace_spec t p s) = length s + ?n * (length p - length t)"
      using len by (simp add: diff_mult_distrib2)
    have "\<not> (?n > 0 \<and> length p - length t > (SIZE_MAX - length s - 1) div ?n)"
    proof (rule notI, elim conjE)
      assume n: "?n > 0" "length p - length t > (SIZE_MAX - length s - 1) div ?n"
      from assms(2) eq have "?n * (length p - length t) \<le> SIZE_MAX - length s - 1" by simp
      then have "length p - length t \<le> (SIZE_MAX - length s - 1) div ?n" using n(1)
        by (simp add: less_eq_div_iff_mult_less_eq mult.commute)
      with n(2) show False by simp
    qed
    with True eq show ?thesis by (simp add: replace_size_def Let_def)
  next
    case False
    then have "?n * (length t - length p) = ?n * length t - ?n * length p" "?n * length p \<le> ?n * length t"
      by (simp_all add: diff_mult_distrib2)
    with len False show ?thesis by (simp add: replace_size_def)
  qed
qed

lemma replace_spec_no_nul: "0 \<notin> set p \<Longrightarrow> 0 \<notin> set s \<Longrightarrow> 0 \<notin> set (replace_spec t p s)"
proof (induction t p s rule: replace_spec.induct)
  case (2 t p c r)
  then show ?case using in_set_dropD [of 0 "length t" "c # r"] by auto
qed simp

section \<open>Deleting\<close>

text \<open>One round of the loop on a well-formed block.\<close>

lemma delete_round:
  assumes "0 \<notin> set s" "memmem s t = Some i"
  shows "take i (s @ 0 # junk) @ drop (i + length t) s @ [0] @ drop (i + length (drop (i + length t) s) + 1) (s @ 0 # junk)
    = (take i s @ drop (i + length t) s) @ 0 # drop (length (take i s @ drop (i + length t) s) + 1) (s @ 0 # junk)"
proof -
  have "i \<le> length s" using memmem_bound [OF assms(2)] by simp
  then show ?thesis by simp
qed

lemma delete_loop_spec:
  assumes "t \<noteq> []"
  shows "0 \<notin> set s \<Longrightarrow> \<exists>r junk1. delete_loop t (s @ 0 # junk) (int (length s)) = (r @ 0 # junk1, int (length r))
    \<and> memmem r t = None \<and> subseq r s"
proof (induction "length s" arbitrary: s junk rule: less_induct)
  case less
  show ?case
  proof (cases "memmem s t")
    case None
    with less.prems show ?thesis by (subst delete_loop.simps) (auto simp: strstr_def Let_def)
  next
    case (Some i)
    let ?s = "take i s @ drop (i + length t) s"
    let ?junk = "drop (length ?s + 1) (s @ 0 # junk)"
    note b = memmem_bound [OF Some]
    have "length ?s < length s" "int (length ?s) = int (length s) - int (length t)" using b assms by (cases t; simp)+
    moreover have "0 \<notin> set ?s" using less.prems by (auto dest: in_set_takeD in_set_dropD)
    ultimately obtain r junk1 where r: "delete_loop t (?s @ 0 # ?junk) (int (length s) - int (length t)) = (r @ 0 # junk1, int (length r))"
      "memmem r t = None" "subseq r ?s" using less.hyps [of ?s ?junk] by auto
    have "delete_loop t (s @ 0 # junk) (int (length s)) = delete_loop t (?s @ 0 # ?junk) (int (length s) - int (length t))"
      using Some less.prems assms delete_round [OF less.prems Some, of junk]
      by (subst delete_loop.simps) (simp add: strstr_def Let_def)
    moreover have "subseq ?s (take i s @ t @ drop (i + length t) s)"
      by (intro list_emb_append_mono) (simp_all add: list_emb_append2)
    then have "subseq ?s s" using memmem_split [OF Some] by simp
    ultimately show ?thesis using r subseq_order.trans by metis
  qed
qed

section \<open>Reversing\<close>

text \<open>A text whose lead bytes announce exactly the bytes that follow, cut into characters.\<close>

definition utf8_cut :: "byte list list \<Rightarrow> bool" where
  "utf8_cut cs \<longleftrightarrow> (\<forall>c \<in> set cs. c \<noteq> [] \<and> get_utf8_char_len (hd c) = length c)"

lemma reverse_loop_cut: "utf8_cut cs \<Longrightarrow> reverse_loop out (concat cs) = Some (concat (rev cs) @ out)"
proof (induction cs arbitrary: out)
  case (Cons c cs)
  then obtain b r where c: "c = b # r" "get_utf8_char_len b = Suc (length r)" by (cases c) (auto simp: utf8_cut_def)
  have "utf8_cut cs" using Cons.prems by (simp add: utf8_cut_def)
  with Cons.IH [of "c @ out"] c show ?case by (simp add: Let_def)
qed simp

lemma reverse_loop_defined: "reverse_loop out s = Some r \<Longrightarrow> \<exists>cs. utf8_cut cs \<and> s = concat cs"
proof (induction out s rule: reverse_loop.induct)
  case (1 out)
  show ?case by (rule exI [of _ "[]"]) (simp add: utf8_cut_def)
next
  case (2 out c r)
  let ?n = "get_utf8_char_len c"
  have n: "0 < ?n" by (simp add: get_utf8_char_len_def)
  from 2 have le: "\<not> ?n > length (c # r)" by (auto simp: Let_def split: if_splits)
  with 2 obtain cs where cs: "utf8_cut cs" "drop ?n (c # r) = concat cs" by (auto simp: Let_def)
  have "utf8_cut (take ?n (c # r) # cs)" using cs(1) n le by (auto simp: utf8_cut_def min_def)
  moreover have "c # r = concat (take ?n (c # r) # cs)" using cs(2) by (metis append_take_drop_id concat.simps(2))
  ultimately show ?case by blast
qed

section \<open>Splitting and joining\<close>

lemma implode_loop_fits: "length (implode_loop delim items) < implode_size delim items"
proof (induction items)
  case (Cons i items)
  then show ?case by (cases items) (auto simp: implode_size_def split: option.splits)
qed (simp add: implode_size_def)

lemma implode_loop_texts:
  "length ts = length ss \<Longrightarrow> \<forall>i < length ts. str_ok (ts ! i) (ss ! i) \<Longrightarrow>
     implode_loop delim (map Some ss) = (case ts of [] \<Rightarrow> [] | t # r \<Rightarrow> t @ concat (map (\<lambda>y. delim @ y) r))"
proof (induction ts arbitrary: ss)
  case (Cons t ts)
  then obtain x xs where ss: "ss = x # xs" "length ts = length xs" by (cases ss) auto
  have "str_ok t x" using Cons.prems(2) ss by fastforce
  moreover have "\<forall>i < length ts. str_ok (ts ! i) (xs ! i)" using Cons.prems(2) ss by fastforce
  ultimately show ?case using Cons.IH [OF ss(2)] ss by (cases ts; cases xs) auto
qed simp

lemma add_tokens_ok:
  "\<forall>i. mem i = ((Alloc_Ok (), Alloc_Ok ()), True) \<Longrightarrow> add_tokens mem n ts = map (\<lambda>t. new_String (Alloc_Ok ()) (Alloc_Ok ()) (Some t)) ts"
  by (induction ts arbitrary: n) auto

lemma strtok_intercalated:
  assumes "\<forall>t \<in> set (x # xs). t \<noteq> [] \<and> d \<notin> set t"
  shows "strtok (\<lambda>c. c \<in> set [d]) (x @ concat (map (\<lambda>y. [d] @ y) xs)) = x # xs"
proof -
  have "strtok_acc (\<lambda>c. c \<in> set [d]) [] (x @ concat (map ((#) d) xs)) = strtok_acc (\<lambda>c. c \<in> set [d]) ([] @ x) (concat (map ((#) d) xs))"
    using assms by (intro strtok_acc_plain) auto
  also have "\<dots> = x # xs" using strtok_acc_join [of "\<lambda>c. c \<in> set [d]" d xs x] assms by auto
  finally show ?thesis by (simp add: strtok_def)
qed

lemma join_size_exact:
  "tot + length (join_copy delim ss) \<le> SIZE_MAX \<Longrightarrow> join_size (length delim) tot ss = Some (tot + length (join_copy delim ss))"
proof (induction ss arbitrary: tot)
  case (Cons x ss)
  then show ?case by (cases x; cases "ss = []") (simp_all add: Let_def)
qed simp

lemma join_size_Some: "join_size (length delim) tot ss = Some n \<Longrightarrow> n = tot + length (join_copy delim ss)"
proof (induction ss arbitrary: tot)
  case (Cons x ss)
  show ?case
  proof (cases x)
    case None
    with Cons show ?thesis by simp
  next
    case (Some y)
    then show ?thesis using Cons.prems Cons.IH [of "tot + length y"] Cons.IH [of "tot + length y + length delim"]
      by (cases "ss = []") (simp_all add: Let_def split: if_splits)
  qed
qed simp

section \<open>Theorems\<close>

text \<open>(C21) \<^verbatim>\<open>replace\<close> replaces every occurrence, from left to right, and the block it measured beforehand is never
  overrun, neither by the text nor by the NULs that \<^verbatim>\<open>strcpy\<close> writes on the way.\<close>

theorem String_replace_exact:
  assumes "str_ok s self" "t \<noteq> []" "0 \<notin> set p" "int (length (replace_spec t p s)) \<le> INT_MAX"
  shows "\<exists>r. impl_replace (Alloc_Ok ()) (Alloc_Ok ()) (Alloc_Ok ()) self (Some t) (Some p) = Some (Some r)
    \<and> str_ok (replace_spec t p s) r"
proof -
  have s: "c_str (st_value self) = s" "0 \<notin> set s" using assms(1) by (simp_all add: str_ok_def)
  have lt: "length (replace_spec t p s) < SIZE_MAX" using assms(4) by simp
  have "str_replace_all (Alloc_Ok ()) s (Some t) (Some p) = Replaced (replace_spec t p s)"
    using replace_size_exact [OF assms(2) lt] replace_loop_spec [OF assms(2), of "[]" p s] assms(2)
    by (simp add: str_replace_all_def)
  moreover obtain r where "new_String (Alloc_Ok ()) (Alloc_Ok ()) (Some (replace_spec t p s)) = Some r" "str_ok (replace_spec t p s) r"
    using new_String_ok [OF replace_spec_no_nul [OF assms(3) s(2), of t] assms(4)] by blast
  ultimately show ?thesis by (simp add: impl_replace_def s(1))
qed

definition demo_String :: "cstring \<Rightarrow> String" where
  "demo_String s = \<lparr>st_value = s @ [0], st_length = int (length s)\<rparr>"

theorem String_replace_exact_witness:
  "\<exists>r. impl_replace (Alloc_Ok ()) (Alloc_Ok ()) (Alloc_Ok ()) (demo_String (lit ''abab'')) (Some (lit ''ab'')) (Some (lit ''xyz'')) = Some (Some r)
     \<and> str_ok (lit ''xyzxyz'') r"
proof -
  have "str_ok (lit ''abab'') (demo_String (lit ''abab''))" by (simp add: str_ok_def demo_String_def lit_def)
  moreover have "replace_spec (lit ''ab'') (lit ''xyz'') (lit ''abab'') = lit ''xyzxyz''" by (simp add: lit_def)
  ultimately show ?thesis using String_replace_exact [of "lit ''abab''" "demo_String (lit ''abab'')" "lit ''ab''" "lit ''xyz''"]
    by (simp add: lit_def)
qed

text \<open>\<^verbatim>\<open>delete\<close> ends, and what it leaves contains the target nowhere, not even where the pieces around a deletion
  meet; it is a subsequence of the old text, and length and terminator agree with it.\<close>

theorem String_delete_removes_all:
  assumes "str_ok s self" "t \<noteq> []"
  shows "\<exists>r. str_ok r (impl_delete self (Some t)) \<and> subseq r s \<and> (\<forall>i. take (length t) (drop i r) \<noteq> t)"
proof -
  obtain junk where v: "st_value self = s @ 0 # junk" "0 \<notin> set s" "st_length self = int (length s)" "int (length s) \<le> INT_MAX"
    using assms(1) by (auto simp: str_ok_def)
  obtain r junk1 where r: "delete_loop t (s @ 0 # junk) (int (length s)) = (r @ 0 # junk1, int (length r))"
    "memmem r t = None" "subseq r s" using delete_loop_spec [OF assms(2) v(2)] by blast
  have "set r \<subseteq> set s" "length r \<le> length s" using r(3) by (auto dest: list_emb_set list_emb_length)
  then have "str_ok r (impl_delete self (Some t))" using r(1) v assms(2) by (auto simp: impl_delete_def str_ok_def)
  with r memmem_None show ?thesis by blast
qed

theorem String_delete_removes_all_witness:
  "\<exists>r. str_ok r (impl_delete (demo_String (lit ''aabbc'')) (Some (lit ''ab''))) \<and> subseq r (lit ''aabbc'')
     \<and> (\<forall>i. take (length (lit ''ab'')) (drop i r) \<noteq> lit ''ab'')"
  by (rule String_delete_removes_all) (simp_all add: str_ok_def demo_String_def lit_def)

text \<open>\<^verbatim>\<open>reverse\<close> turns the order of the characters around and keeps each character's bytes in order.\<close>

theorem String_reverse_chars:
  assumes "str_ok (concat cs) self" "utf8_cut cs"
  shows "\<exists>r. impl_reverse (Alloc_Ok ()) (Alloc_Ok ()) (Alloc_Ok ()) self = Some (Some r) \<and> str_ok (concat (rev cs)) r"
proof -
  have n: "0 \<notin> set (concat (rev cs))" "int (length (concat (rev cs))) \<le> INT_MAX"
    using assms(1) by (auto simp: str_ok_def length_concat rev_map [symmetric])
  obtain r where "new_String (Alloc_Ok ()) (Alloc_Ok ()) (Some (concat (rev cs))) = Some r" "str_ok (concat (rev cs)) r"
    using new_String_ok [OF n] by blast
  then show ?thesis using reverse_loop_cut [OF assms(2), of "[]"] str_ok_take [OF assms(1)] n(1)
    by (simp add: impl_reverse_def)
qed

theorem String_reverse_chars_witness:
  "\<exists>r. impl_reverse (Alloc_Ok ()) (Alloc_Ok ()) (Alloc_Ok ()) (demo_String (concat [[0xC3, 0xA9], [0x61]])) = Some (Some r)
     \<and> str_ok (concat (rev [[0xC3, 0xA9], [0x61]])) r"
  by (rule String_reverse_chars) (simp_all add: str_ok_def demo_String_def utf8_cut_def get_utf8_char_len_def)

text \<open>A text that ends inside a character makes \<^verbatim>\<open>reverse\<close> write in front of its block.\<close>

lemma String_reverse_truncated:
  "impl_reverse (Alloc_Ok ()) (Alloc_Ok ()) (Alloc_Ok ()) (demo_String [0xC3]) = None"
  by (simp add: impl_reverse_def demo_String_def get_utf8_char_len_def)

text \<open>\<^verbatim>\<open>split\<close> takes apart what \<^verbatim>\<open>implode\<close> put together with a one-byte separator, and \<^verbatim>\<open>implode\<close> stays within the block it
  measured.\<close>

theorem String_implode_split:
  assumes "str_ok [d] sep" "length ts = length ss" "\<forall>i < length ts. str_ok (ts ! i) (ss ! i)" "ts \<noteq> []"
    and "\<forall>t \<in> set ts. t \<noteq> [] \<and> d \<notin> set t" "int (length (concat (map (\<lambda>t. t @ [d]) ts))) \<le> INT_MAX"
    and "\<forall>i. mem i = ((Alloc_Ok (), Alloc_Ok ()), True)"
  shows "\<exists>j rs. impl_implode (Alloc_Ok ()) (Alloc_Ok ()) (Alloc_Ok ()) sep (map Some ss) = Some (Some j)
    \<and> impl_split True True mem j [d] = Some (Some (map Some rs))
    \<and> length rs = length ts \<and> (\<forall>i < length ts. str_ok (ts ! i) (rs ! i))"
proof -
  obtain x xs where ts: "ts = x # xs" using assms(4) by (cases ts) auto
  let ?j = "x @ concat (map (\<lambda>y. [d] @ y) xs)"
  have out: "implode_loop [d] (map Some ss) = ?j" using implode_loop_texts [OF assms(2,3), of "[d]"] ts by (simp only: list.case)
  have nul: "0 \<notin> set t" "int (length t) \<le> INT_MAX" if "t \<in> set ts" for t
    using that assms(3) by (auto simp: in_set_conv_nth str_ok_def)
  have d0: "d \<noteq> 0" using assms(1) by (auto simp: str_ok_def)
  have n: "0 \<notin> set ?j" using nul(1) ts d0 by auto
  have "length ?j \<le> length (concat (map (\<lambda>t. t @ [d]) ts))" by (simp add: ts length_concat comp_def sum_list_addf)
  with assms(6) have len: "int (length ?j) \<le> INT_MAX" by linarith
  obtain j where j: "new_String (Alloc_Ok ()) (Alloc_Ok ()) (Some ?j) = Some j" "str_ok ?j j" using new_String_ok [OF n len] by blast
  have "ss \<noteq> []" using assms(2,4) by auto
  then have imp: "impl_implode (Alloc_Ok ()) (Alloc_Ok ()) (Alloc_Ok ()) sep (map Some ss) = Some (Some j)"
    using out implode_loop_fits [of "[d]" "map Some ss"] str_ok_c_str [OF assms(1)] j(1) n
    by (simp add: impl_implode_def)
  let ?new = "\<lambda>t. new_String (Alloc_Ok ()) (Alloc_Ok ()) (Some t)"
  have "strtok (\<lambda>c. c \<in> set [d]) ?j = ts" using strtok_intercalated [of x xs d] assms(5) ts by simp
  then have sp: "impl_split True True mem j [d] = Some (Some (map ?new ts))"
    using add_tokens_ok [OF assms(7)] str_ok_c_str [OF j(2)] by (simp add: impl_split_def)
  have ok: "\<exists>r. ?new t = Some r \<and> str_ok t r" if "t \<in> set ts" for t using new_String_ok [OF nul [OF that]] by blast
  then have "map ?new ts = map Some (map (\<lambda>t. the (?new t)) ts)" by fastforce
  moreover have "\<forall>i < length ts. str_ok (ts ! i) (map (\<lambda>t. the (?new t)) ts ! i)"
    using ok [OF nth_mem] by (metis nth_map option.sel)
  ultimately show ?thesis using imp sp by (intro exI [of _ j] exI [of _ "map (\<lambda>t. the (?new t)) ts"]) simp
qed

theorem String_implode_split_witness:
  "\<exists>j rs. impl_implode (Alloc_Ok ()) (Alloc_Ok ()) (Alloc_Ok ()) (demo_String [44]) (map Some [demo_String (lit ''a''), demo_String (lit ''bc'')])
       = Some (Some j)
     \<and> impl_split True True (\<lambda>_. ((Alloc_Ok (), Alloc_Ok ()), True)) j [44] = Some (Some (map Some rs)) \<and> length rs = 2"
proof -
  have "\<forall>i < length [lit ''a'', lit ''bc'']. str_ok ([lit ''a'', lit ''bc''] ! i) ([demo_String (lit ''a''), demo_String (lit ''bc'')] ! i)"
    by (auto simp: str_ok_def demo_String_def lit_def less_Suc_eq)
  from String_implode_split [of 44 "demo_String [44]" "[lit ''a'', lit ''bc'']" "[demo_String (lit ''a''), demo_String (lit ''bc'')]"
      "\<lambda>_. ((Alloc_Ok (), Alloc_Ok ()), True)", OF _ _ this]
  show ?thesis by (auto simp: str_ok_def demo_String_def lit_def)
qed

text \<open>Appending, cutting out, trimming and joining on well-formed texts.\<close>

lemma String_append_text:
  assumes "str_ok s self" "0 \<notin> set x" "int (length s + length x) \<le> INT_MAX"
  shows "str_ok (s @ x) (impl_append (Alloc_Ok j) self (Some x))"
proof (cases "x = []")
  case True
  with assms(1) show ?thesis by (simp add: impl_append_def)
next
  case False
  from assms(1) obtain junk where v: "st_value self = s @ 0 # junk" "st_length self = int (length s)" "0 \<notin> set s"
    by (auto simp: str_ok_def)
  have "take (length s) (realloc_cells j (s @ 0 # junk) (length s + length x + 1)) = s" by simp
  with v False assms(2,3) show ?thesis by (auto simp: impl_append_def str_ok_def Let_def)
qed

lemma String_substring_text:
  assumes "str_ok s self" "0 \<le> b" "b \<le> e" "e \<le> int (length s)"
  shows "\<exists>r. impl_substring (Alloc_Ok ()) (Alloc_Ok ()) (Alloc_Ok ()) self b e = Some r
    \<and> str_ok (take (nat (e - b)) (drop (nat b) s)) r"
proof -
  let ?t = "take (nat (e - b)) (drop (nat b) s)"
  from assms(1) obtain junk where v: "st_value self = s @ 0 # junk" "st_length self = int (length s)" "0 \<notin> set s" "int (length s) \<le> INT_MAX"
    by (auto simp: str_ok_def)
  have t: "take (nat (e - b)) (drop (nat b) (st_value self)) = ?t" using assms(2-4) v(1) by simp
  have n: "0 \<notin> set ?t" using v(3) by (meson in_set_takeD in_set_dropD)
  have len: "int (length ?t) \<le> INT_MAX" using v(4) by auto
  from new_String_ok [OF n len] obtain r where "new_String (Alloc_Ok ()) (Alloc_Ok ()) (Some ?t) = Some r" "str_ok ?t r" by blast
  with assms(2-4) v(2) t n show ?thesis by (simp add: impl_substring_def)
qed

lemma string_join_exact:
  "strs \<noteq> [] \<Longrightarrow> length (join_copy delim strs) \<le> SIZE_MAX \<Longrightarrow>
     string_join (Alloc_Ok ()) (Some delim) strs = Some (Some (join_copy delim strs))"
  by (simp add: string_join_def join_size_exact)

lemma string_join_in_bounds: "string_join mem delimiter strs \<noteq> None"
  by (auto simp: string_join_def dest: join_size_Some split: option.splits)

end
