(* ===== verification/String_Builder.thy ===== *)
theory String_Builder
  imports Byte_Buffer "HOL-Library.Sublist"
begin

text \<open>
  \<^verbatim>\<open>src/src/string_builder.c\<close>: text assembly on top of a \<open>ByteBuffer\<close>. The builder always keeps
  one byte of room for a NUL behind the text, so that \<^verbatim>\<open>c_str\<close> is a C string. A refused
  allocation leaves the text as it was (the fluent \<^verbatim>\<open>append\<close> methods do not report it).

  The locale \<open>byte_sink\<close> is the contract the encoders rely on: appending adds the bytes or, when
  memory is refused, nothing. It is interpreted both on the builder and on the plain buffer.
\<close>

section \<open>State and operations\<close>

record StringBuilder =
  sb_buffer :: ByteBuffer

definition new_StringBuilder ::
  "unit alloc \<Rightarrow> unit alloc \<Rightarrow> unit alloc \<Rightarrow> nat \<Rightarrow> StringBuilder option" where
  "new_StringBuilder mem mem_bb mem_data initial_capacity =
     (case mem of Alloc_Fail \<Rightarrow> None
      | Alloc_Ok _ \<Rightarrow>
          (case new_ByteBuffer mem_bb mem_data (if initial_capacity \<noteq> 0 then initial_capacity else 64) of
             None \<Rightarrow> None
           | Some b \<Rightarrow> Some \<lparr>sb_buffer = b\<lparr>bb_data := (bb_data b)[0 := 0]\<rparr>\<rparr>))"

text \<open>The doubling loop is the one of the buffer (\<open>bb_grow\<close>), started at 64 for an empty buffer.\<close>

definition sb_ensure_capacity :: "byte alloc \<Rightarrow> StringBuilder \<Rightarrow> nat \<Rightarrow> bool \<times> StringBuilder" where
  "sb_ensure_capacity mem self required =
     (let b = sb_buffer self; current_cap = bb_capacity b in
      if required > SIZE_MAX - 1 then (False, self)
      else if required \<le> current_cap then (True, self)
      else case bb_grow required (if current_cap = 0 then 64 else current_cap) of
             None \<Rightarrow> (False, self)
           | Some new_cap \<Rightarrow>
               (case mem of Alloc_Fail \<Rightarrow> (False, self)
                | Alloc_Ok junk \<Rightarrow>
                    (True, self\<lparr>sb_buffer := b\<lparr>bb_data := realloc_cells junk (bb_data b) new_cap,
                                              bb_capacity := new_cap\<rparr>\<rparr>)))"

text \<open>
  \<^verbatim>\<open>data\<close> is NULL or points to at least \<open>len\<close> bytes. The inner \<^verbatim>\<open>write\<close> finds the memory in place,
  so that its own allocation answer is never asked for (\<open>ByteBuffer_write_fits\<close> below).
\<close>

definition sb_commit_write ::
  "byte alloc \<Rightarrow> StringBuilder \<Rightarrow> byte list option \<Rightarrow> nat \<Rightarrow> bool \<times> StringBuilder" where
  "sb_commit_write mem self data len =
     (if len = 0 then (True, self)
      else case data of None \<Rightarrow> (False, self)
        | Some xs \<Rightarrow>
            let current = bb_write_pos (sb_buffer self) in
            if len > SIZE_MAX - current - 1 then (False, self)
            else case sb_ensure_capacity mem self (current + len + 1) of
                   (ok, self1) \<Rightarrow>
                     if ok
                     then let b = snd (ByteBuffer_write mem (sb_buffer self1) (Some (take len xs)))
                          in (True, self1\<lparr>sb_buffer := b\<lparr>bb_data := (bb_data b)[bb_write_pos b := 0]\<rparr>\<rparr>)
                     else (False, self1))"

definition StringBuilder_append :: "byte alloc \<Rightarrow> StringBuilder \<Rightarrow> cstring option \<Rightarrow> StringBuilder" where
  "StringBuilder_append mem self str =
     (case str of None \<Rightarrow> self
      | Some s \<Rightarrow> snd (sb_commit_write mem self (Some s) (length s)))"

text \<open>\<^verbatim>\<open>appendString\<close>: NULL, or a String object with its \<^verbatim>\<open>c_str\<close>, itself NULL or a C string.\<close>

definition StringBuilder_appendString ::
  "byte alloc \<Rightarrow> StringBuilder \<Rightarrow> cstring option option \<Rightarrow> StringBuilder" where
  "StringBuilder_appendString mem self str =
     (case str of None \<Rightarrow> self
      | Some p \<Rightarrow> (case p of None \<Rightarrow> self
                 | Some s \<Rightarrow> snd (sb_commit_write mem self (Some s) (length s))))"

definition StringBuilder_appendBytes ::
  "byte alloc \<Rightarrow> StringBuilder \<Rightarrow> byte list option \<Rightarrow> nat \<Rightarrow> StringBuilder" where
  "StringBuilder_appendBytes mem self buf len = snd (sb_commit_write mem self buf len)"

definition StringBuilder_appendChar :: "byte alloc \<Rightarrow> StringBuilder \<Rightarrow> byte \<Rightarrow> StringBuilder" where
  "StringBuilder_appendChar mem self c = snd (sb_commit_write mem self (Some [c]) 1)"

definition StringBuilder_appendBool :: "byte alloc \<Rightarrow> StringBuilder \<Rightarrow> bool \<Rightarrow> StringBuilder" where
  "StringBuilder_appendBool mem self v =
     StringBuilder_append mem self (Some (if v then lit ''true'' else lit ''false''))"

text \<open>
  \<^verbatim>\<open>snprintf\<close> into a local buffer of 32 or 64 bytes: it holds every \<^verbatim>\<open>int\<close> or \<^verbatim>\<open>long\<close>
  (\<open>format_d_length\<close>), so that \<^verbatim>\<open>len\<close> bytes of it are the whole text.
\<close>

definition StringBuilder_appendInt :: "byte alloc \<Rightarrow> StringBuilder \<Rightarrow> int \<Rightarrow> StringBuilder" where
  "StringBuilder_appendInt mem self v =
     (let buf = format_d v; len = length buf
      in if len > 0 then snd (sb_commit_write mem self (Some (take 31 buf @ [0])) len) else self)"

definition StringBuilder_appendLong :: "byte alloc \<Rightarrow> StringBuilder \<Rightarrow> int \<Rightarrow> StringBuilder" where
  "StringBuilder_appendLong mem self v =
     (let buf = format_d v; len = length buf
      in if len > 0 then snd (sb_commit_write mem self (Some (take 63 buf @ [0])) len) else self)"

text \<open>
  \<^verbatim>\<open>appendFormat\<close>: \<open>measured\<close> is what the sizing call of \<^verbatim>\<open>vsnprintf\<close> returns (negative on an
  encoding error) and \<open>written\<close> the text the second call produces; it stores at most \<open>len + 1\<close> bytes.
\<close>

definition StringBuilder_appendFormat ::
  "byte alloc \<Rightarrow> StringBuilder \<Rightarrow> int \<Rightarrow> cstring option \<Rightarrow> StringBuilder" where
  "StringBuilder_appendFormat mem self measured written =
     (if measured > 0 then
        let len = nat measured; current = bb_write_pos (sb_buffer self) in
        if len > SIZE_MAX - current - 1 then self
        else case sb_ensure_capacity mem self (current + len + 1) of
               (ok, self1) \<Rightarrow>
                 if \<not> ok then self1
                 else case written of None \<Rightarrow> self1
                      | Some s \<Rightarrow>
                          let b = sb_buffer self1;
                              b1 = b\<lparr>bb_data := put_bytes (bb_data b) current (take len s @ [0])\<rparr>
                          in if length s \<le> len
                             then self1\<lparr>sb_buffer := b1\<lparr>bb_write_pos := bb_write_pos b1 + length s,
                                    bb_data := (bb_data b1)[bb_write_pos b1 + length s := 0]\<rparr>\<rparr>
                             else self1\<lparr>sb_buffer := b1\<rparr>
      else self)"

definition StringBuilder_appendLine :: "byte alloc \<Rightarrow> StringBuilder \<Rightarrow> StringBuilder" where
  "StringBuilder_appendLine mem self = StringBuilder_appendChar mem self 10"

definition StringBuilder_clear :: "StringBuilder \<Rightarrow> StringBuilder" where
  "StringBuilder_clear self =
     (let b = (sb_buffer self)\<lparr>bb_read_pos := 0, bb_write_pos := 0\<rparr>
      in self\<lparr>sb_buffer := b\<lparr>bb_data := (bb_data b)[0 := 0]\<rparr>\<rparr>)"

definition StringBuilder_truncate :: "StringBuilder \<Rightarrow> nat \<Rightarrow> StringBuilder" where
  "StringBuilder_truncate self len =
     (let b = sb_buffer self
      in if len < bb_write_pos b
         then self\<lparr>sb_buffer := b\<lparr>bb_write_pos := len, bb_data := (bb_data b)[len := 0]\<rparr>\<rparr>
         else self)"

definition StringBuilder_reserve :: "byte alloc \<Rightarrow> StringBuilder \<Rightarrow> nat \<Rightarrow> bool \<times> StringBuilder" where
  "StringBuilder_reserve mem self capacity = sb_ensure_capacity mem self capacity"

definition StringBuilder_length :: "StringBuilder \<Rightarrow> nat" where
  "StringBuilder_length self = bb_write_pos (sb_buffer self)"

definition StringBuilder_capacity :: "StringBuilder \<Rightarrow> nat" where
  "StringBuilder_capacity self = bb_capacity (sb_buffer self)"

definition StringBuilder_isEmpty :: "StringBuilder \<Rightarrow> bool" where
  "StringBuilder_isEmpty self = (StringBuilder_length self = 0)"

text \<open>\<^verbatim>\<open>c_str\<close>: the memory of the buffer; a C string function reads it up to the first NUL.\<close>

definition StringBuilder_c_str :: "StringBuilder \<Rightarrow> byte list" where
  "StringBuilder_c_str self = bb_data (sb_buffer self)"

text \<open>\<^verbatim>\<open>toString\<close> copies the C string into a new String object; \<open>mem\<close> answers its allocations.\<close>

definition StringBuilder_toString :: "unit alloc \<Rightarrow> StringBuilder \<Rightarrow> cstring option" where
  "StringBuilder_toString mem self =
     (case mem of Alloc_Fail \<Rightarrow> None | Alloc_Ok _ \<Rightarrow> Some (c_str (StringBuilder_c_str self)))"

section \<open>Invariant and abstraction\<close>

definition sb_inv :: "StringBuilder \<Rightarrow> bool" where
  "sb_inv s \<longleftrightarrow> bb_inv (sb_buffer s) \<and> bb_read_pos (sb_buffer s) = 0
     \<and> bb_write_pos (sb_buffer s) < bb_capacity (sb_buffer s)
     \<and> bb_data (sb_buffer s) ! bb_write_pos (sb_buffer s) = 0"

definition sb_text :: "StringBuilder \<Rightarrow> byte list" where
  "sb_text s = bb_content (sb_buffer s)"

lemma sb_text_alt: "sb_inv s \<Longrightarrow> sb_text s = take (bb_write_pos (sb_buffer s)) (bb_data (sb_buffer s))"
  by (simp add: sb_inv_def sb_text_def bb_content_alt)

lemma sb_length_text: "sb_inv s \<Longrightarrow> length (sb_text s) = bb_write_pos (sb_buffer s)"
  by (simp add: sb_inv_def sb_text_def length_bb_content)

text \<open>A write that fits neither compacts nor allocates.\<close>

lemma ByteBuffer_write_fits:
  assumes "bb_inv b" and "bb_write_pos b + length xs \<le> bb_capacity b" and "xs \<noteq> []"
  shows "ByteBuffer_write mem b (Some xs) =
    (0, b\<lparr>bb_data := put_bytes (bb_data b) (bb_write_pos b) xs,
          bb_write_pos := bb_write_pos b + length xs\<rparr>)"
proof -
  have "\<not> length xs > SIZE_MAX - bb_write_pos b" using assms(1,2) unfolding bb_inv_def by linarith
  with assms show ?thesis by (simp add: ByteBuffer_write_def ensure_capacity_def bb_inv_def)
qed

lemma sb_ensure_capacity_spec:
  assumes "sb_inv s" and "sb_ensure_capacity mem s n = (ok, s')"
  shows "sb_inv s'" and "sb_text s' = sb_text s" and "ok \<Longrightarrow> n \<le> bb_capacity (sb_buffer s')"
    and "bb_write_pos (sb_buffer s') = bb_write_pos (sb_buffer s)"
    and "n \<le> BB_MAX_CAPACITY div 2 + 1 \<Longrightarrow> mem \<noteq> Alloc_Fail \<Longrightarrow> ok"
    and "StringBuilder_capacity s' = StringBuilder_capacity s
      \<or> StringBuilder_capacity s' \<le> BB_MAX_CAPACITY"
proof -
  let ?b = "sb_buffer s"
  have c: "0 < bb_capacity ?b" using assms(1) by (simp add: sb_inv_def bb_inv_def)
  have "sb_inv s' \<and> sb_text s' = sb_text s \<and> (ok \<longrightarrow> n \<le> bb_capacity (sb_buffer s'))
    \<and> bb_write_pos (sb_buffer s') = bb_write_pos (sb_buffer s)
    \<and> (n \<le> BB_MAX_CAPACITY div 2 + 1 \<longrightarrow> mem \<noteq> Alloc_Fail \<longrightarrow> ok)
    \<and> (StringBuilder_capacity s' = StringBuilder_capacity s
      \<or> StringBuilder_capacity s' \<le> BB_MAX_CAPACITY)"
  proof (cases "\<not> (ok \<and> bb_capacity ?b < n)")
    case True
    with assms(2) c bb_grow_succeeds [OF c, of n] assms(1) show ?thesis
      by (auto simp: sb_ensure_capacity_def Let_def split: if_splits option.splits alloc.splits)
  next
    case False
    with assms(2) c obtain m j where g: "bb_grow n (bb_capacity ?b) = Some m" and
      s': "ok" "s' = s\<lparr>sb_buffer := ?b\<lparr>bb_data := realloc_cells j (bb_data ?b) m, bb_capacity := m\<rparr>\<rparr>"
      and n: "bb_capacity ?b < n" "n < SIZE_MAX"
      by (auto simp: sb_ensure_capacity_def Let_def split: if_splits option.splits alloc.splits)
    note gr = bb_grow_Some [OF g c]
    have pre: "take k (realloc_cells j (bb_data ?b) m) = take k (bb_data ?b)"
      if "k \<le> bb_capacity ?b" for k
      using assms(1) gr that by (intro take_realloc_cells) (auto simp: sb_inv_def bb_inv_def)
    have w: "bb_write_pos ?b < bb_capacity ?b" using assms(1) by (simp add: sb_inv_def)
    have nth: "realloc_cells j (bb_data ?b) m ! bb_write_pos ?b = 0"
      using arg_cong [OF pre [of "Suc (bb_write_pos ?b)"], of "\<lambda>xs. xs ! bb_write_pos ?b"] w assms(1)
      by (simp add: sb_inv_def)
    have inv: "sb_inv s'" using s' gr assms(1) n nth w by (auto simp: sb_inv_def bb_inv_def)
    moreover have "sb_text s' = sb_text s"
      using sb_text_alt [OF inv] sb_text_alt [OF assms(1)] pre [of "bb_write_pos ?b"] w s' by simp
    ultimately show ?thesis using s' gr n by (auto simp: StringBuilder_capacity_def)
  qed
  then show "sb_inv s'" "sb_text s' = sb_text s" "ok \<Longrightarrow> n \<le> bb_capacity (sb_buffer s')"
    "bb_write_pos (sb_buffer s') = bb_write_pos (sb_buffer s)"
    "n \<le> BB_MAX_CAPACITY div 2 + 1 \<Longrightarrow> mem \<noteq> Alloc_Fail \<Longrightarrow> ok"
    "StringBuilder_capacity s' = StringBuilder_capacity s
      \<or> StringBuilder_capacity s' \<le> BB_MAX_CAPACITY" by auto
qed

lemma nul_behind:
  assumes "bb_inv b" and "bb_read_pos b = 0" and "bb_write_pos b < bb_capacity b"
  shows "sb_inv \<lparr>sb_buffer = b\<lparr>bb_data := (bb_data b)[bb_write_pos b := 0]\<rparr>\<rparr>"
    and "sb_text \<lparr>sb_buffer = b\<lparr>bb_data := (bb_data b)[bb_write_pos b := 0]\<rparr>\<rparr> = bb_content b"
  using assms by (auto simp: sb_inv_def bb_inv_def sb_text_def bb_content_def)

lemma sb_commit_write_spec:
  assumes "sb_inv s" and "sb_commit_write mem s (Some xs) n = (ok, s')" and "n \<le> length xs"
  shows "sb_inv s' \<and> sb_text s' = sb_text s @ (if ok then take n xs else [])
    \<and> (length (sb_text s) + n \<le> BB_MAX_CAPACITY div 2 \<longrightarrow> mem \<noteq> Alloc_Fail \<longrightarrow> ok)"
proof (cases "n = 0 \<or> n > SIZE_MAX - bb_write_pos (sb_buffer s) - 1")
  case True
  with assms sb_length_text [OF assms(1)] show ?thesis
    by (auto simp: sb_commit_write_def Let_def split: if_splits)
next
  case False
  let ?w = "bb_write_pos (sb_buffer s)"
  obtain ok1 s1 where e: "sb_ensure_capacity mem s (?w + n + 1) = (ok1, s1)" by force
  note ec = sb_ensure_capacity_spec [OF assms(1) e]
  let ?xs = "take n xs"
  have len: "length ?xs = n" "?xs \<noteq> []" using assms(3) False by auto
  show ?thesis
  proof (cases ok1)
    case False
    with \<open>\<not> (n = 0 \<or> _)\<close> e assms(2) ec sb_length_text [OF assms(1)] show ?thesis
      by (auto simp: sb_commit_write_def Let_def)
  next
    case True
    let ?b = "sb_buffer s1"
    let ?b' = "?b\<lparr>bb_data := put_bytes (bb_data ?b) (bb_write_pos ?b) ?xs, bb_write_pos := bb_write_pos ?b + n\<rparr>"
    have b: "bb_inv ?b" "bb_read_pos ?b = 0" using ec(1) by (auto simp: sb_inv_def)
    have fit: "bb_write_pos ?b + n < bb_capacity ?b" using ec(3) [OF True] ec(4) by simp
    have "ByteBuffer_write mem ?b (Some ?xs) = (0, ?b')"
      using ByteBuffer_write_fits [OF b(1) _ len(2), of mem] fit len(1) by simp
    with \<open>\<not> (n = 0 \<or> _)\<close> e True assms(2)
    have s': "ok" "s' = \<lparr>sb_buffer = ?b'\<lparr>bb_data := (bb_data ?b')[bb_write_pos ?b' := 0]\<rparr>\<rparr>"
      by (auto simp: sb_commit_write_def Let_def)
    have pb: "bb_inv ?b'" "bb_content ?b' = bb_content ?b @ ?xs"
      using put_bytes_content [OF b(1), of ?xs] fit len(1) by simp_all
    from nul_behind [OF pb(1)] b(2) fit s' pb(2) ec(2) show ?thesis
      by (simp add: sb_text_def)
  qed
qed

section \<open>The sink contract\<close>

text \<open>A run of appends, the \<open>i\<close>-th with the allocation answer \<open>mem i\<close>.\<close>

fun puts :: "('m \<Rightarrow> 's \<Rightarrow> 'x \<Rightarrow> 's) \<Rightarrow> (nat \<Rightarrow> 'm) \<Rightarrow> 's \<Rightarrow> 'x list \<Rightarrow> 's" where
  "puts put mem s [] = s"
| "puts put mem s (x # xs) = puts put (\<lambda>k. mem (Suc k)) (put (mem 0) s x) xs"

lemma puts_append:
  "puts put mem s (xs @ ys) = puts put (\<lambda>k. mem (k + length xs)) (puts put mem s xs) ys"
  by (induction xs arbitrary: mem s) simp_all

locale byte_sink =
  fixes put :: "byte alloc \<Rightarrow> 's \<Rightarrow> byte list \<Rightarrow> 's"
    and content :: "'s \<Rightarrow> byte list"
    and wf :: "'s \<Rightarrow> bool"
    and limit :: nat
  assumes put_wf: "wf s \<Longrightarrow> wf (put mem s xs)"
    and put_all_or_nothing: "wf s \<Longrightarrow> content (put mem s xs) \<in> {content s, content s @ xs}"
    and put_ok: "wf s \<Longrightarrow> mem \<noteq> Alloc_Fail \<Longrightarrow> length (content s) + length xs \<le> limit \<Longrightarrow>
      content (put mem s xs) = content s @ xs"
begin

lemma puts_wf: "wf s \<Longrightarrow> wf (puts put mem s xss)"
  by (induction xss arbitrary: mem s) (simp_all add: put_wf)

lemma puts_content: "wf s \<Longrightarrow> \<exists>yss. subseq yss xss \<and> content (puts put mem s xss) = content s @ concat yss"
proof (induction xss arbitrary: mem s)
  case Nil
  then show ?case by (intro exI [of _ "[]"]) simp
next
  case (Cons xs xss)
  let ?s = "put (mem 0) s xs"
  obtain yss where y: "subseq yss xss"
    "content (puts put (\<lambda>k. mem (Suc k)) ?s xss) = content ?s @ concat yss"
    using Cons.IH [OF put_wf [OF Cons.prems], of "\<lambda>k. mem (Suc k)" "mem 0" xs] by blast
  from put_all_or_nothing [OF Cons.prems, of "mem 0" xs] show ?case
  proof (elim insertE emptyE)
    assume "content ?s = content s"
    with y show ?thesis by (intro exI [of _ yss]) auto
  next
    assume "content ?s = content s @ xs"
    with y show ?thesis by (intro exI [of _ "xs # yss"]) auto
  qed
qed

lemma puts_ok:
  "wf s \<Longrightarrow> (\<And>i. mem i \<noteq> Alloc_Fail) \<Longrightarrow> length (content s) + length (concat xss) \<le> limit \<Longrightarrow>
     content (puts put mem s xss) = content s @ concat xss"
proof (induction xss arbitrary: mem s)
  case Nil
  then show ?case by simp
next
  case (Cons xs xss)
  have "content (put (mem 0) s xs) = content s @ xs" using put_ok Cons.prems by simp
  with Cons.IH [of "put (mem 0) s xs" "\<lambda>k. mem (Suc k)"] Cons.prems put_wf show ?case by simp
qed

text \<open>What holds of every byte of every chunk holds of everything that got appended.\<close>

lemma puts_bytes:
  assumes "wf s" and "\<forall>xs \<in> set xss. P xs"
  shows "\<exists>yss. content (puts put mem s xss) = content s @ concat yss \<and> (\<forall>ys \<in> set yss. P ys)"
proof -
  obtain yss where y: "subseq yss xss" "content (puts put mem s xss) = content s @ concat yss"
    using puts_content [OF assms(1)] by blast
  have "P ys" if "ys \<in> set yss" for ys
    using list_emb_set [OF y(1) that] assms(2) by auto
  with y(2) show ?thesis by blast
qed

end

definition sb_put :: "byte alloc \<Rightarrow> StringBuilder \<Rightarrow> byte list \<Rightarrow> StringBuilder" where
  "sb_put mem s xs = snd (sb_commit_write mem s (Some xs) (length xs))"

interpretation sb: byte_sink sb_put sb_text sb_inv "BB_MAX_CAPACITY div 2"
proof
  fix s mem xs assume inv: "sb_inv s"
  obtain ok s' where e: "sb_commit_write mem s (Some xs) (length xs) = (ok, s')" by force
  note spec = sb_commit_write_spec [OF inv e]
  show "sb_inv (sb_put mem s xs)" using spec e by (simp add: sb_put_def)
  show "sb_text (sb_put mem s xs) \<in> {sb_text s, sb_text s @ xs}" using spec e by (simp add: sb_put_def)
  show "sb_text (sb_put mem s xs) = sb_text s @ xs"
    if "mem \<noteq> Alloc_Fail" "length (sb_text s) + length xs \<le> BB_MAX_CAPACITY div 2"
    using spec e that by (simp add: sb_put_def)
qed

definition bb_put :: "byte alloc \<Rightarrow> ByteBuffer \<Rightarrow> byte list \<Rightarrow> ByteBuffer" where
  "bb_put mem s xs = snd (ByteBuffer_write mem s (Some xs))"

definition bb_wf :: "ByteBuffer \<Rightarrow> bool" where
  "bb_wf s \<longleftrightarrow> bb_inv s \<and> bb_capacity s \<le> BB_MAX_CAPACITY"

lemma ensure_capacity_ok:
  assumes "bb_wf s" and "mem \<noteq> Alloc_Fail" and "length (bb_content s) + n \<le> BB_MAX_CAPACITY div 2"
  shows "fst (ensure_capacity mem s n) = 0"
proof -
  let ?s = "if bb_write_pos s + n > bb_capacity s \<and> bb_read_pos s > 0 then ByteBuffer_compact s else s"
  have inv: "bb_inv s" using assms(1) by (simp add: bb_wf_def)
  have c: "bb_capacity ?s = bb_capacity s" "0 < bb_capacity s"
    using bb_compact_spec [OF inv] inv by (auto simp: bb_inv_def)
  have w: "bb_write_pos s \<le> BB_MAX_CAPACITY" "\<not> n > SIZE_MAX - bb_write_pos s"
    using assms by (auto simp: bb_wf_def bb_inv_def)
  have fit: "bb_write_pos ?s + n \<le> bb_capacity s \<or> bb_write_pos ?s + n \<le> BB_MAX_CAPACITY div 2 + 1"
    using assms(3) length_bb_content [OF inv] by (auto simp: ByteBuffer_compact_def Let_def)
  obtain m where "bb_write_pos ?s + n > bb_capacity s \<Longrightarrow> bb_grow (bb_write_pos ?s + n) (bb_capacity s) = Some m"
    using bb_grow_succeeds [OF c(2), of "bb_write_pos ?s + n"] fit by (metis not_le)
  with c w(2) assms(2) show ?thesis
    unfolding ensure_capacity_def Let_def by (auto split: alloc.split)
qed

interpretation bb: byte_sink bb_put bb_content bb_wf "BB_MAX_CAPACITY div 2"
proof
  fix s mem xs assume wf: "bb_wf s"
  then have inv: "bb_inv s" by (simp add: bb_wf_def)
  obtain r s' where e: "ByteBuffer_write mem s (Some xs) = (r, s')" by force
  note spec = ByteBuffer_write_spec [OF inv e]
  show "bb_wf (bb_put mem s xs)" using spec e wf by (auto simp: bb_put_def bb_wf_def)
  show "bb_content (bb_put mem s xs) \<in> {bb_content s, bb_content s @ xs}"
    using spec e by (auto simp: bb_put_def)
  show "bb_content (bb_put mem s xs) = bb_content s @ xs"
    if "mem \<noteq> Alloc_Fail" "length (bb_content s) + length xs \<le> BB_MAX_CAPACITY div 2"
  proof -
    have "r = 0" using ensure_capacity_ok [OF wf that] e
      by (auto simp: ByteBuffer_write_def split: if_splits prod.splits)
    with spec e show ?thesis by (simp add: bb_put_def)
  qed
qed

section \<open>Properties\<close>

datatype sb_cmd = Sb_append "byte alloc" "cstring option" | Sb_appendBytes "byte alloc" "byte list"
  | Sb_appendChar "byte alloc" byte | Sb_appendBool "byte alloc" bool
  | Sb_appendInt "byte alloc" int | Sb_appendLong "byte alloc" int
  | Sb_appendFormat "byte alloc" cstring | Sb_appendLine "byte alloc"
  | Sb_clear | Sb_truncate nat | Sb_reserve "byte alloc" nat

fun sb_exec :: "StringBuilder \<Rightarrow> sb_cmd \<Rightarrow> StringBuilder" where
  "sb_exec s (Sb_append mem str) = StringBuilder_append mem s str"
| "sb_exec s (Sb_appendBytes mem xs) = StringBuilder_appendBytes mem s (Some xs) (length xs)"
| "sb_exec s (Sb_appendChar mem c) = StringBuilder_appendChar mem s c"
| "sb_exec s (Sb_appendBool mem v) = StringBuilder_appendBool mem s v"
| "sb_exec s (Sb_appendInt mem v) = StringBuilder_appendInt mem s v"
| "sb_exec s (Sb_appendLong mem v) = StringBuilder_appendLong mem s v"
| "sb_exec s (Sb_appendFormat mem xs) = StringBuilder_appendFormat mem s (int (length xs)) (Some xs)"
| "sb_exec s (Sb_appendLine mem) = StringBuilder_appendLine mem s"
| "sb_exec s Sb_clear = StringBuilder_clear s"
| "sb_exec s (Sb_truncate n) = StringBuilder_truncate s n"
| "sb_exec s (Sb_reserve mem n) = snd (StringBuilder_reserve mem s n)"

text \<open>The text a command appends, and the allocation it may need.\<close>

fun sb_added :: "sb_cmd \<Rightarrow> byte list" where
  "sb_added (Sb_append mem str) = (case str of None \<Rightarrow> [] | Some xs \<Rightarrow> xs)"
| "sb_added (Sb_appendBytes mem xs) = xs"
| "sb_added (Sb_appendChar mem c) = [c]"
| "sb_added (Sb_appendBool mem v) = (if v then lit ''true'' else lit ''false'')"
| "sb_added (Sb_appendInt mem v) = format_d v"
| "sb_added (Sb_appendLong mem v) = format_d v"
| "sb_added (Sb_appendFormat mem xs) = xs"
| "sb_added (Sb_appendLine mem) = [10]"
| "sb_added _ = []"

fun sb_mem :: "sb_cmd \<Rightarrow> byte alloc option" where
  "sb_mem (Sb_append mem _) = Some mem"
| "sb_mem (Sb_appendBytes mem _) = Some mem"
| "sb_mem (Sb_appendChar mem _) = Some mem"
| "sb_mem (Sb_appendBool mem _) = Some mem"
| "sb_mem (Sb_appendInt mem _) = Some mem"
| "sb_mem (Sb_appendLong mem _) = Some mem"
| "sb_mem (Sb_appendFormat mem _) = Some mem"
| "sb_mem (Sb_appendLine mem) = Some mem"
| "sb_mem _ = None"

fun sb_spec :: "byte list \<Rightarrow> sb_cmd \<Rightarrow> byte list" where
  "sb_spec t Sb_clear = []"
| "sb_spec t (Sb_truncate n) = take n t"
| "sb_spec t c = t @ sb_added c"

fun sb_cmd_ok :: "sb_cmd \<Rightarrow> bool" where
  "sb_cmd_ok (Sb_appendInt mem v) \<longleftrightarrow> INT_MIN \<le> v \<and> v \<le> INT_MAX"
| "sb_cmd_ok (Sb_appendLong mem v) \<longleftrightarrow> - (2 ^ 63) \<le> v \<and> v < 2 ^ 63"
| "sb_cmd_ok _ \<longleftrightarrow> True"

text \<open>Every append of the builder is the sink's append.\<close>

lemma sb_appendFormat_put:
  assumes "sb_inv s"
  shows "StringBuilder_appendFormat mem s (int (length xs)) (Some xs) = sb_put mem s xs"
proof (cases "xs = [] \<or> length xs > SIZE_MAX - bb_write_pos (sb_buffer s) - 1")
  case True
  then show ?thesis by (auto simp: StringBuilder_appendFormat_def sb_put_def sb_commit_write_def Let_def)
next
  case False
  let ?w = "bb_write_pos (sb_buffer s)"
  obtain ok s1 where e: "sb_ensure_capacity mem s (?w + length xs + 1) = (ok, s1)" by force
  note ec = sb_ensure_capacity_spec [OF assms e]
  show ?thesis
  proof (cases ok)
    case False
    with \<open>\<not> (xs = [] \<or> _)\<close> e show ?thesis
      by (auto simp: StringBuilder_appendFormat_def sb_put_def sb_commit_write_def Let_def)
  next
    case True
    have fit: "?w + length xs < bb_capacity (sb_buffer s1)" using ec(3) [OF True] by simp
    have inv: "bb_inv (sb_buffer s1)" using ec(1) by (simp add: sb_inv_def)
    then have len: "length (bb_data (sb_buffer s1)) = bb_capacity (sb_buffer s1)" by (simp add: bb_inv_def)
    have "put_bytes d ?w (xs @ [0]) = (put_bytes d ?w xs)[?w + length xs := 0]"
      if "?w + length xs < length d" for d :: "byte list"
    proof -
      from that obtain x ys where x: "drop (?w + length xs) d = x # ys" by (metis Cons_nth_drop_Suc)
      then have "drop (Suc (?w + length xs)) d = ys" by (metis drop_Suc list.sel(3) tl_drop)
      with x that show ?thesis by (simp add: put_bytes_def list_update_append)
    qed
    from this [of "bb_data (sb_buffer s1)"] \<open>\<not> (xs = [] \<or> _)\<close> e True fit len ec(4)
      ByteBuffer_write_fits [OF inv, of xs mem] show ?thesis
      by (auto simp: StringBuilder_appendFormat_def sb_put_def sb_commit_write_def Let_def)
  qed
qed

lemma sb_commit_take:
  "length xs \<le> length ys \<Longrightarrow> take (length xs) ys = xs \<Longrightarrow>
     sb_commit_write mem s (Some ys) (length xs) = sb_commit_write mem s (Some xs) (length xs)"
  by (simp add: sb_commit_write_def Let_def split: prod.split)

lemma sb_append_put:
  assumes "sb_inv s" and "sb_cmd_ok c" and "sb_mem c = Some mem"
  shows "sb_exec s c = sb_put mem s (sb_added c)"
proof -
  have int: "length (format_d v) \<le> 21" if "- (2 ^ 63) \<le> v \<and> v < 2 ^ 63 \<or> INT_MIN \<le> v \<and> v \<le> INT_MAX" for v
    using that by (intro format_d_length) auto
  show ?thesis
  proof (cases c)
    case (Sb_appendInt m v)
    then have "length (format_d v) \<le> 21" using int assms(2) by simp
    with Sb_appendInt assms(3) sb_commit_take [of "format_d v" "take 31 (format_d v) @ [0]"] show ?thesis
      by (simp add: StringBuilder_appendInt_def sb_put_def Let_def)
  next
    case (Sb_appendLong m v)
    then have "length (format_d v) \<le> 21" using int assms(2) by simp
    with Sb_appendLong assms(3) sb_commit_take [of "format_d v" "take 63 (format_d v) @ [0]"] show ?thesis
      by (simp add: StringBuilder_appendLong_def sb_put_def Let_def)
  next
    case (Sb_append m str)
    with assms(3) show ?thesis
      by (cases str) (simp_all add: StringBuilder_append_def sb_put_def sb_commit_write_def)
  qed (use assms sb_appendFormat_put [OF assms(1)] in
      \<open>simp_all add: sb_put_def StringBuilder_appendBytes_def StringBuilder_appendChar_def
        StringBuilder_appendBool_def StringBuilder_append_def StringBuilder_appendLine_def\<close>)
qed

lemma sb_clear_spec:
  assumes "sb_inv s"
  shows "sb_inv (StringBuilder_clear s) \<and> sb_text (StringBuilder_clear s) = []"
  using assms by (auto simp: StringBuilder_clear_def sb_inv_def bb_inv_def sb_text_def bb_content_def Let_def)

lemma sb_truncate_spec:
  assumes "sb_inv s"
  shows "sb_inv (StringBuilder_truncate s n) \<and> sb_text (StringBuilder_truncate s n) = take n (sb_text s)"
  using assms by (auto simp: StringBuilder_truncate_def sb_inv_def bb_inv_def sb_text_def bb_content_def Let_def min_def)

lemma toString_text:
  assumes "sb_inv s" and "mem \<noteq> Alloc_Fail"
  shows "StringBuilder_toString mem s = Some (c_str (sb_text s))"
proof -
  have "take (Suc (bb_write_pos (sb_buffer s))) (bb_data (sb_buffer s)) = sb_text s @ [0]"
    using assms(1) sb_text_alt [OF assms(1)] by (simp add: sb_inv_def bb_inv_def take_Suc_conv_app_nth)
  then have "bb_data (sb_buffer s) = sb_text s @ 0 # drop (Suc (bb_write_pos (sb_buffer s))) (bb_data (sb_buffer s))"
    by (metis append.assoc append_Cons append_Nil append_take_drop_id)
  then have "c_str (StringBuilder_c_str s) = c_str (sb_text s)" by (metis StringBuilder_c_str_def c_str_nul)
  with assms(2) show ?thesis by (auto simp: StringBuilder_toString_def split: alloc.split)
qed

text \<open>Every operation of the builder refines its effect on the text. The memory always ends in
  a NUL behind the text, so the C string read from \<^verbatim>\<open>c_str\<close> (and copied by \<^verbatim>\<open>toString\<close>) is the text
  up to its first NUL; an append adds its whole text or, if the memory is refused or the text
  would pass half of the 16 MB limit, possibly nothing; with memory below that bound it succeeds.\<close>

theorem StringBuilder_refines_text:
  assumes "sb_inv s" and "sb_cmd_ok c"
  shows "sb_inv (sb_exec s c)
    \<and> (sb_text (sb_exec s c) = sb_spec (sb_text s) c
       \<or> sb_text (sb_exec s c) = sb_text s
         \<and> (sb_mem c = Some Alloc_Fail \<or> length (sb_text s) + length (sb_added c) > BB_MAX_CAPACITY div 2))
    \<and> StringBuilder_length (sb_exec s c) = length (sb_text (sb_exec s c))
    \<and> StringBuilder_toString (Alloc_Ok ()) (sb_exec s c) = Some (c_str (sb_text (sb_exec s c)))"
proof -
  have step: "sb_inv (sb_exec s c) \<and> (sb_text (sb_exec s c) = sb_spec (sb_text s) c
       \<or> sb_text (sb_exec s c) = sb_text s
         \<and> (sb_mem c = Some Alloc_Fail \<or> length (sb_text s) + length (sb_added c) > BB_MAX_CAPACITY div 2))"
  proof (cases "sb_mem c")
    case (Some mem)
    have "sb_spec (sb_text s) c = sb_text s @ sb_added c" using Some by (cases c) auto
    with sb_append_put [OF assms Some] sb.put_wf [OF assms(1)] sb.put_all_or_nothing [OF assms(1), of mem]
      sb.put_ok [OF assms(1), of mem "sb_added c"] Some show ?thesis
      by (metis insertE not_le_imp_less singletonD)
  next
    case None
    show ?thesis
    proof (cases c)
      case (Sb_reserve m n)
      with sb_ensure_capacity_spec(1,2) [OF assms(1), of m n "fst (sb_ensure_capacity m s n)"]
      show ?thesis by (simp add: StringBuilder_reserve_def)
    qed (use None sb_clear_spec [OF assms(1)] sb_truncate_spec [OF assms(1)] in auto)
  qed
  let ?s = "sb_exec s c"
  have inv: "sb_inv ?s" using step by simp
  with step sb_length_text [OF inv] toString_text [OF inv] show ?thesis
    by (simp add: StringBuilder_length_def)
qed

definition demo_sb :: StringBuilder where
  "demo_sb = \<lparr>sb_buffer = \<lparr>bb_data = [104, 105, 0], bb_capacity = 3, bb_read_pos = 0, bb_write_pos = 2\<rparr>\<rparr>"

lemma demo_sb_inv: "sb_inv demo_sb" "sb_text demo_sb = lit ''hi''"
  by (simp_all add: demo_sb_def sb_inv_def bb_inv_def sb_text_def bb_content_def lit_def)

theorem StringBuilder_refines_text_witness:
  "sb_inv (sb_exec demo_sb (Sb_appendInt (Alloc_Ok 0) (- 42)))
   \<and> sb_text (sb_exec demo_sb (Sb_appendInt (Alloc_Ok 0) (- 42))) = lit ''hi-42''"
proof -
  have d: "format_d (- 42) = lit ''-42''" by (simp add: format_d_def dec_digits.simps lit_def)
  show ?thesis
    using StringBuilder_refines_text [OF demo_sb_inv(1), of "Sb_appendInt (Alloc_Ok 0) (- 42)"] demo_sb_inv(2)
    by (simp add: d lit_def)
qed

end
