(* ===== verification/Text_Encoder.thy ===== *)
theory Text_Encoder
  imports String_Builder
begin

text \<open>
  \<^verbatim>\<open>src/src/text_encoder.c\<close>: HTML escaping, URL encoding and decoding and Base64. The
  \<^verbatim>\<open>...To\<close> methods append to a caller's builder or buffer piece by piece; the \<open>i\<close>-th append gets
  the allocation answer \<open>mem i\<close>. The loops are shown to be runs of appends (\<open>puts\<close>) of the
  chunks of a pure encoding, so everything rests on the sink contract.
  Output objects are not NULL; a NULL input is \<open>None\<close>.
\<close>

section \<open>HTML escaping\<close>

fun escapeHtml_loop :: "(nat \<Rightarrow> byte alloc) \<Rightarrow> StringBuilder \<Rightarrow> cstring \<Rightarrow> StringBuilder" where
  "escapeHtml_loop mem out [] = out"
| "escapeHtml_loop mem out (c # input) =
     escapeHtml_loop (\<lambda>k. mem (Suc k))
       (if c = ch CHR ''&'' then StringBuilder_append (mem 0) out (Some (lit ''&amp;''))
        else if c = ch CHR ''<'' then StringBuilder_append (mem 0) out (Some (lit ''&lt;''))
        else if c = ch CHR ''>'' then StringBuilder_append (mem 0) out (Some (lit ''&gt;''))
        else if c = 34 then StringBuilder_append (mem 0) out (Some (lit ''&quot;''))
        else if c = 39 then StringBuilder_append (mem 0) out (Some (lit ''&#x27;''))
        else StringBuilder_appendChar (mem 0) out c) input"

definition escapeHtmlTo ::
  "(nat \<Rightarrow> byte alloc) \<Rightarrow> StringBuilder \<Rightarrow> cstring option \<Rightarrow> bool \<times> StringBuilder" where
  "escapeHtmlTo mem out input =
     (case input of None \<Rightarrow> (False, out) | Some s \<Rightarrow> (True, escapeHtml_loop mem out s))"

section \<open>URL encoding\<close>

definition hex_digits :: cstring where
  "hex_digits = lit ''0123456789ABCDEF''"

definition url_unreserved :: "byte \<Rightarrow> bool" where
  "url_unreserved c \<longleftrightarrow> (65 \<le> c \<and> c \<le> 90) \<or> (97 \<le> c \<and> c \<le> 122) \<or> (48 \<le> c \<and> c \<le> 57)
     \<or> c = ch CHR ''-'' \<or> c = ch CHR ''_'' \<or> c = ch CHR ''.'' \<or> c = ch CHR ''~''"

fun urlEncode_loop :: "(nat \<Rightarrow> byte alloc) \<Rightarrow> StringBuilder \<Rightarrow> cstring \<Rightarrow> StringBuilder" where
  "urlEncode_loop mem out [] = out"
| "urlEncode_loop mem out (c # input) =
     (if url_unreserved c
      then urlEncode_loop (\<lambda>k. mem (Suc k)) (StringBuilder_appendChar (mem 0) out c) input
      else let out1 = StringBuilder_appendChar (mem 0) out (ch CHR ''%'');
               out2 = StringBuilder_appendChar (mem 1) out1 (hex_digits ! unat (drop_bit 4 c));
               out3 = StringBuilder_appendChar (mem 2) out2 (hex_digits ! unat (c AND 15))
           in urlEncode_loop (\<lambda>k. mem (k + 3)) out3 input)"

definition urlEncodeTo ::
  "(nat \<Rightarrow> byte alloc) \<Rightarrow> StringBuilder \<Rightarrow> cstring option \<Rightarrow> bool \<times> StringBuilder" where
  "urlEncodeTo mem out input =
     (case input of None \<Rightarrow> (False, out) | Some s \<Rightarrow> (True, urlEncode_loop mem out s))"

section \<open>URL decoding\<close>

fun urlDecode_loop :: "(nat \<Rightarrow> byte alloc) \<Rightarrow> StringBuilder \<Rightarrow> cstring \<Rightarrow> StringBuilder" where
  "urlDecode_loop mem out [] = out"
| "urlDecode_loop mem out (c # input) =
     (if c = ch CHR ''%'' then
        (case input of
           c1 # c2 # rest \<Rightarrow>
             urlDecode_loop (\<lambda>k. mem (Suc k))
               (StringBuilder_appendChar (mem 0) out (of_int (strtol16 [c1, c2]))) rest
         | _ \<Rightarrow> urlDecode_loop mem out input)
      else if c = ch CHR ''+'' then
        urlDecode_loop (\<lambda>k. mem (Suc k)) (StringBuilder_appendChar (mem 0) out 32) input
      else
        urlDecode_loop (\<lambda>k. mem (Suc k)) (StringBuilder_appendChar (mem 0) out c) input)"

definition urlDecodeTo ::
  "(nat \<Rightarrow> byte alloc) \<Rightarrow> StringBuilder \<Rightarrow> cstring option \<Rightarrow> bool \<times> StringBuilder" where
  "urlDecodeTo mem out input =
     (case input of None \<Rightarrow> (False, out) | Some s \<Rightarrow> (True, urlDecode_loop mem out s))"

section \<open>Base64\<close>

definition b64_table :: cstring where
  "b64_table = lit ''ABCDEFGHIJKLMNOPQRSTUVWXYZabcdefghijklmnopqrstuvwxyz0123456789+/''"

text \<open>One round of the encoder: \<open>xs\<close> are the bytes from index \<open>i\<close> on, the test \<^verbatim>\<open>i + 1 < len\<close>
  is \<open>1 < length xs\<close>.\<close>

definition b64_group :: "byte list \<Rightarrow> u32" where
  "b64_group xs =
     (let val0 = push_bit 16 (ucast (xs ! 0));
          val1 = (if 1 < length xs then val0 OR push_bit 8 (ucast (xs ! 1)) else val0)
      in if 2 < length xs then val1 OR ucast (xs ! 2) else val1)"

function base64Encode_loop :: "(nat \<Rightarrow> byte alloc) \<Rightarrow> StringBuilder \<Rightarrow> byte list \<Rightarrow> StringBuilder" where
  "base64Encode_loop mem out xs =
     (if xs = [] then out
      else let val = b64_group xs;
               out1 = StringBuilder_appendChar (mem 0) out (b64_table ! unat (drop_bit 18 val AND 63));
               out2 = StringBuilder_appendChar (mem 1) out1 (b64_table ! unat (drop_bit 12 val AND 63));
               out3 = StringBuilder_appendChar (mem 2) out2
                        (if 1 < length xs then b64_table ! unat (drop_bit 6 val AND 63) else ch CHR ''='');
               out4 = StringBuilder_appendChar (mem 3) out3
                        (if 2 < length xs then b64_table ! unat (val AND 63) else ch CHR ''='')
           in base64Encode_loop (\<lambda>k. mem (k + 4)) out4 (drop 3 xs))"
  by pat_completeness auto
termination
  by (relation "measure (\<lambda>(mem, out, xs). length xs)") auto

declare base64Encode_loop.simps [simp del]

text \<open>\<^verbatim>\<open>data\<close> is NULL or \<^verbatim>\<open>len\<close> bytes.\<close>

definition base64EncodeTo ::
  "(nat \<Rightarrow> byte alloc) \<Rightarrow> StringBuilder \<Rightarrow> byte list option \<Rightarrow> nat \<Rightarrow> bool \<times> StringBuilder" where
  "base64EncodeTo mem out data len =
     (case data of None \<Rightarrow> (len = 0, out)
      | Some xs \<Rightarrow> (True, base64Encode_loop mem out (take len xs)))"

definition b64_val :: "byte \<Rightarrow> int" where
  "b64_val c = (if 65 \<le> c \<and> c \<le> 90 then uint c - 65
     else if 97 \<le> c \<and> c \<le> 122 then uint c - 97 + 26
     else if 48 \<le> c \<and> c \<le> 57 then uint c - 48 + 52
     else if c = ch CHR ''+'' \<or> c = ch CHR ''-'' then 62
     else if c = ch CHR ''/'' \<or> c = ch CHR ''_'' then 63 else - 1)"

fun base64Decode_loop ::
  "(nat \<Rightarrow> byte alloc) \<Rightarrow> ByteBuffer \<Rightarrow> u32 \<Rightarrow> int \<Rightarrow> cstring \<Rightarrow> ByteBuffer" where
  "base64Decode_loop mem out val valb [] = out"
| "base64Decode_loop mem out val valb (c # input) =
     (if c = ch CHR ''='' then out
      else let dec = b64_val c in
           if dec = - 1 then base64Decode_loop mem out val valb input
           else let val = push_bit 6 val OR of_int dec; valb = valb + 6 in
                if valb \<ge> 0
                then base64Decode_loop (\<lambda>k. mem (Suc k))
                       (snd (ByteBuffer_write (mem 0) out (Some [ucast (drop_bit (nat valb) val AND 255)])))
                       val (valb - 8) input
                else base64Decode_loop mem out val valb input)"

definition base64DecodeTo ::
  "(nat \<Rightarrow> byte alloc) \<Rightarrow> ByteBuffer \<Rightarrow> cstring option \<Rightarrow> bool \<times> ByteBuffer" where
  "base64DecodeTo mem out input =
     (case input of None \<Rightarrow> (False, out) | Some s \<Rightarrow> (True, base64Decode_loop mem out 0 (- 8) s))"

section \<open>The allocating wrappers\<close>

text \<open>
  \<open>mems\<close> answers the allocations of the builder and of the result string; the builder is released
  on the way out.
\<close>

record enc_mem =
  em_sb :: "unit alloc"
  em_bb :: "unit alloc"
  em_data :: "unit alloc"
  em_put :: "nat \<Rightarrow> byte alloc"
  em_str :: "unit alloc"

definition TextEncoder_escapeHtml :: "enc_mem \<Rightarrow> cstring option \<Rightarrow> cstring option" where
  "TextEncoder_escapeHtml m input =
     (if input = None then None
      else case new_StringBuilder (em_sb m) (em_bb m) (em_data m) 32 of None \<Rightarrow> None
        | Some sb \<Rightarrow> StringBuilder_toString (em_str m) (snd (escapeHtmlTo (em_put m) sb input)))"

definition TextEncoder_urlEncode :: "enc_mem \<Rightarrow> cstring option \<Rightarrow> cstring option" where
  "TextEncoder_urlEncode m input =
     (if input = None then None
      else case new_StringBuilder (em_sb m) (em_bb m) (em_data m) 32 of None \<Rightarrow> None
        | Some sb \<Rightarrow> StringBuilder_toString (em_str m) (snd (urlEncodeTo (em_put m) sb input)))"

definition TextEncoder_urlDecode :: "enc_mem \<Rightarrow> cstring option \<Rightarrow> cstring option" where
  "TextEncoder_urlDecode m input =
     (if input = None then None
      else case new_StringBuilder (em_sb m) (em_bb m) (em_data m) 32 of None \<Rightarrow> None
        | Some sb \<Rightarrow> StringBuilder_toString (em_str m) (snd (urlDecodeTo (em_put m) sb input)))"

definition TextEncoder_base64Encode :: "enc_mem \<Rightarrow> byte list option \<Rightarrow> nat \<Rightarrow> cstring option" where
  "TextEncoder_base64Encode m data len =
     (if data = None \<and> len > 0 then None
      else case new_StringBuilder (em_sb m) (em_bb m) (em_data m) 32 of None \<Rightarrow> None
        | Some sb \<Rightarrow> StringBuilder_toString (em_str m) (snd (base64EncodeTo (em_put m) sb data len)))"

definition TextEncoder_base64Decode :: "enc_mem \<Rightarrow> cstring option \<Rightarrow> ByteBuffer option" where
  "TextEncoder_base64Decode m input =
     (if input = None then None
      else case new_ByteBuffer (em_bb m) (em_data m) 30 of None \<Rightarrow> None
        | Some buf \<Rightarrow> Some (snd (base64DecodeTo (em_put m) buf input)))"

section \<open>The loops are runs of appends\<close>

lemma append_put [simp]: "StringBuilder_append mem s (Some xs) = sb_put mem s xs"
  by (simp add: StringBuilder_append_def sb_put_def)

lemma appendChar_put [simp]: "StringBuilder_appendChar mem s c = sb_put mem s [c]"
  by (simp add: StringBuilder_appendChar_def sb_put_def)

definition html_entity :: "byte \<Rightarrow> byte list" where
  "html_entity c = (if c = ch CHR ''&'' then lit ''&amp;'' else if c = ch CHR ''<'' then lit ''&lt;''
     else if c = ch CHR ''>'' then lit ''&gt;'' else if c = 34 then lit ''&quot;''
     else if c = 39 then lit ''&#x27;'' else [c])"

lemma escapeHtml_loop_puts: "escapeHtml_loop mem out s = puts sb_put mem out (map html_entity s)"
  by (induction s arbitrary: mem out) (simp_all add: html_entity_def)

definition url_bytes :: "byte \<Rightarrow> byte list" where
  "url_bytes c = (if url_unreserved c then [c]
     else [ch CHR ''%'', hex_digits ! unat (drop_bit 4 c), hex_digits ! unat (c AND 15)])"

lemma urlEncode_loop_puts:
  "urlEncode_loop mem out s = puts sb_put mem out (map (\<lambda>c. [c]) (concat (map url_bytes s)))"
  by (induction s arbitrary: mem out) (simp_all add: url_bytes_def Let_def numeral_eq_Suc)

fun url_decoded :: "cstring \<Rightarrow> byte list" where
  "url_decoded [] = []"
| "url_decoded (c # input) =
     (if c = ch CHR ''%'' then
        (case input of c1 # c2 # rest \<Rightarrow> of_int (strtol16 [c1, c2]) # url_decoded rest
         | _ \<Rightarrow> url_decoded input)
      else (if c = ch CHR ''+'' then 32 else c) # url_decoded input)"

lemma urlDecode_loop_puts: "urlDecode_loop mem out s = puts sb_put mem out (map (\<lambda>c. [c]) (url_decoded s))"
  by (induction mem out s rule: urlDecode_loop.induct) (simp_all split: list.split)

declare url_decoded.simps(2) [simp del]

lemma url_decoded_plain:
  "c \<noteq> ch CHR ''%'' \<Longrightarrow> url_decoded (c # s) = (if c = ch CHR ''+'' then 32 else c) # url_decoded s"
  by (simp add: url_decoded.simps(2))

lemma url_decoded_escape:
  "url_decoded (ch CHR ''%'' # c1 # c2 # s) = of_int (strtol16 [c1, c2]) # url_decoded s"
  by (simp add: url_decoded.simps(2))

function b64_chars :: "byte list \<Rightarrow> byte list" where
  "b64_chars xs = (if xs = [] then [] else
     let val = b64_group xs in
     [b64_table ! unat (drop_bit 18 val AND 63), b64_table ! unat (drop_bit 12 val AND 63),
      if 1 < length xs then b64_table ! unat (drop_bit 6 val AND 63) else ch CHR ''='',
      if 2 < length xs then b64_table ! unat (val AND 63) else ch CHR ''=''] @ b64_chars (drop 3 xs))"
  by pat_completeness auto
termination
  by (relation "measure length") auto

declare b64_chars.simps [simp del]

lemma base64Encode_loop_puts:
  "base64Encode_loop mem out xs = puts sb_put mem out (map (\<lambda>c. [c]) (b64_chars xs))"
proof (induction mem out xs rule: base64Encode_loop.induct)
  case (1 mem out xs)
  then show ?case
    by (simp add: base64Encode_loop.simps [of mem out xs] b64_chars.simps [of xs] Let_def numeral_eq_Suc)
qed

fun b64_decoded :: "u32 \<Rightarrow> int \<Rightarrow> cstring \<Rightarrow> byte list" where
  "b64_decoded val valb [] = []"
| "b64_decoded val valb (c # input) =
     (if c = ch CHR ''='' then []
      else if b64_val c = - 1 then b64_decoded val valb input
      else let val = push_bit 6 val OR of_int (b64_val c); valb = valb + 6 in
           if valb \<ge> 0 then ucast (drop_bit (nat valb) val AND 255) # b64_decoded val (valb - 8) input
           else b64_decoded val valb input)"

lemma base64Decode_loop_puts:
  "base64Decode_loop mem out val valb s = puts bb_put mem out (map (\<lambda>c. [c]) (b64_decoded val valb s))"
  by (induction mem out val valb s rule: base64Decode_loop.induct) (simp_all add: bb_put_def Let_def)

lemma concat_singletons [simp]: "concat (map (\<lambda>c. [c]) xs) = xs"
  by (induction xs) simp_all

section \<open>Correctness of the codes\<close>

lemma hex_digit_val:
  assumes "h < 16"
  shows "hex_val (hex_digits ! h) = Some h" "\<not> isspace (hex_digits ! h)"
    "hex_digits ! h \<noteq> ch CHR ''-''" "hex_digits ! h \<noteq> ch CHR ''+''" "hex_digits ! h \<noteq> 0"
    "url_unreserved (hex_digits ! h)"
proof -
  have "h \<in> set [0 ..< 16]" using assms by simp
  then have "hex_val (hex_digits ! h) = Some h \<and> \<not> isspace (hex_digits ! h)
    \<and> hex_digits ! h \<noteq> ch CHR ''-'' \<and> hex_digits ! h \<noteq> ch CHR ''+'' \<and> hex_digits ! h \<noteq> 0
    \<and> url_unreserved (hex_digits ! h)"
    by (simp add: upt_rec hex_digits_def lit_def ch_def hex_val_def isspace_def url_unreserved_def
        word_le_nat_alt) (elim disjE; simp)
  then show "hex_val (hex_digits ! h) = Some h" "\<not> isspace (hex_digits ! h)"
    "hex_digits ! h \<noteq> ch CHR ''-''" "hex_digits ! h \<noteq> ch CHR ''+''" "hex_digits ! h \<noteq> 0"
    "url_unreserved (hex_digits ! h)" by simp_all
qed

lemma strtol16_two_digits:
  assumes "h < 16" and "l < 16"
  shows "strtol16 [hex_digits ! h, hex_digits ! l] = int (16 * h + l)"
  using hex_digit_val [OF assms(1)] hex_digit_val [OF assms(2)]
  by (simp add: strtol16_def Let_def)

lemma byte_nibbles:
  fixes c :: byte
  shows "unat (drop_bit 4 c) < 16" "unat (c AND 15) < 16"
    "16 * unat (drop_bit 4 c) + unat (c AND 15) = unat c"
proof -
  have d: "unat (drop_bit 4 c) = unat c div 16" by (simp add: unat_div drop_bit_eq_div)
  have m: "unat (c AND 15) = unat c mod 16"
  proof -
    have "c AND 15 = take_bit 4 c" by (simp add: take_bit_eq_mask mask_eq_exp_minus_1)
    then show ?thesis by (simp add: take_bit_eq_mod unat_mod)
  qed
  show "unat (drop_bit 4 c) < 16" 
  proof -
    have "unat c < 2 ^ LENGTH(8)" by (rule unsigned_less)
    with d show ?thesis by simp
  qed
  show "unat (c AND 15) < 16" using m by simp
  show "16 * unat (drop_bit 4 c) + unat (c AND 15) = unat c" using d m by simp
qed

lemma url_decoded_url_bytes: "url_decoded (url_bytes c @ rest) = c # url_decoded rest"
proof (cases "url_unreserved c")
  case True
  then have "c \<noteq> ch CHR ''%''" "c \<noteq> ch CHR ''+''" by (auto simp: url_unreserved_def ch_def)
  with True show ?thesis by (simp add: url_bytes_def url_decoded_plain)
next
  case False
  have "(of_int (int (16 * unat (drop_bit 4 c) + unat (c AND 15))) :: byte) = c"
    by (simp only: byte_nibbles(3)) simp
  with False show ?thesis
    by (simp add: url_bytes_def url_decoded_escape strtol16_two_digits [OF byte_nibbles(1,2)])
qed

lemma url_decoded_encoded: "url_decoded (concat (map url_bytes s)) = s"
  by (induction s) (simp_all add: url_decoded_url_bytes)

lemma url_bytes_safe:
  assumes "x \<in> set (url_bytes c)" shows "url_unreserved x \<or> x = ch CHR ''%''"
  using assms hex_digit_val(6) [OF byte_nibbles(1)] hex_digit_val(6) [OF byte_nibbles(2)]
  by (auto simp: url_bytes_def split: if_splits)

lemma url_safe_not_nul: "url_unreserved x \<or> x = ch CHR ''%'' \<Longrightarrow> x \<noteq> 0"
  by (auto simp: url_unreserved_def ch_def)

lemma b64_table_val:
  assumes "i < 64"
  shows "b64_val (b64_table ! i) = int i" "b64_table ! i \<noteq> ch CHR ''=''" "b64_table ! i \<noteq> 0"
proof -
  have "i \<in> set [0 ..< 64]" using assms by simp
  then have "b64_val (b64_table ! i) = int i \<and> b64_table ! i \<noteq> ch CHR ''='' \<and> b64_table ! i \<noteq> 0"
    by (simp add: upt_rec b64_table_def lit_def ch_def b64_val_def word_le_nat_alt) (elim disjE; simp)
  then show "b64_val (b64_table ! i) = int i" "b64_table ! i \<noteq> ch CHR ''=''" "b64_table ! i \<noteq> 0" by simp_all
qed

lemma sextet_less: "unat (w AND 63 :: u32) < 64"
proof -
  have "w AND 63 \<le> 63" by (simp add: word_and_le1)
  then show ?thesis by (simp add: word_le_nat_alt)
qed

lemmas b64_sextet = b64_table_val [OF sextet_less]

lemma of_int_unat [simp]: "(of_int (int (unat w)) :: u32) = w"
  by simp

lemma b64_bytes:
  fixes v :: u32 and a b c :: byte
  assumes w_def: "w = (push_bit 16 (ucast a) OR push_bit 8 (ucast b) OR ucast c :: u32)"
  defines "v2 \<equiv> push_bit 6 (push_bit 6 v OR (drop_bit 18 w AND 63)) OR (drop_bit 12 w AND 63)"
  defines "v3 \<equiv> push_bit 6 v2 OR (drop_bit 6 w AND 63)"
  defines "v4 \<equiv> push_bit 6 v3 OR (w AND 63)"
  shows "ucast (drop_bit 4 v2 AND 255) = a" and "ucast (drop_bit 2 v3 AND 255) = b"
    and "ucast (v4 AND 255) = c"
proof -
  have m63: "(63 :: u32) = mask 6" and m255: "(255 :: u32) = mask 8" by (simp_all add: mask_eq_exp_minus_1)
  show "ucast (drop_bit 4 v2 AND 255) = a"
  proof (rule bit_word_eqI)
    fix n assume "n < LENGTH(8)"
    then have "n < 8" by simp
    then consider "n < 2" | "2 \<le> n" "n < 8" by linarith
    then show "bit (ucast (drop_bit 4 v2 AND 255) :: byte) n = bit a n"
      by cases (auto simp: v2_def w_def m63 m255 bit_simps)
  qed
  show "ucast (drop_bit 2 v3 AND 255) = b"
  proof (rule bit_word_eqI)
    fix n assume "n < LENGTH(8)"
    then have "n < 8" by simp
    then consider "n < 4" | "4 \<le> n" "n < 8" by linarith
    then show "bit (ucast (drop_bit 2 v3 AND 255) :: byte) n = bit b n"
      by cases (auto simp: v3_def v2_def w_def m63 m255 bit_simps)
  qed
  show "ucast (v4 AND 255) = c"
  proof (rule bit_word_eqI)
    fix n assume "n < LENGTH(8)"
    then have "n < 8" by simp
    then consider "n < 6" | "6 \<le> n" "n < 8" by linarith
    then show "bit (ucast (v4 AND 255) :: byte) n = bit c n"
      by cases (auto simp: v4_def v3_def v2_def w_def m63 m255 bit_simps)
  qed
qed

lemma b64_decoded_table:
  "b64_decoded v k (b64_table ! unat (w AND 63) # cs) =
     (let v = push_bit 6 v OR (w AND 63); k = k + 6 in
      if k \<ge> 0 then ucast (drop_bit (nat k) v AND 255) # b64_decoded v (k - 8) cs
      else b64_decoded v k cs)"
proof -
  have "uint (w AND 63) \<noteq> - 1" using uint_nonnegative [of "w AND 63"] by linarith
  then show ?thesis by (simp add: b64_sextet Let_def)
qed

lemma b64_decoded_group:
  assumes "xs \<noteq> []"
  shows "\<exists>v'. b64_decoded v (- 8) (b64_chars xs) =
    (if length xs < 3 then xs else take 3 xs @ b64_decoded v' (- 8) (b64_chars (drop 3 xs)))"
proof -
  from assms consider a where "xs = [a]" | a b where "xs = [a, b]" | a b c r where "xs = a # b # c # r"
    by (metis neq_Nil_conv)
  then show ?thesis
  proof cases
    case 1
    obtain w where w: "b64_group [a] = w" by blast
    have "w = push_bit 16 (ucast a) OR push_bit 8 (ucast (0 :: byte)) OR ucast (0 :: byte)"
      using w by (simp add: b64_group_def)
    note bytes = b64_bytes [OF this, of v]
    show ?thesis using 1 bytes
      by (simp add: b64_chars.simps [of "[a]"] b64_chars.simps [of "[]"] w b64_decoded_table Let_def
          del: b64_decoded.simps(2)) (simp add: Let_def)
  next
    case 2
    obtain w where w: "b64_group [a, b] = w" by blast
    have "w = push_bit 16 (ucast a) OR push_bit 8 (ucast b) OR ucast (0 :: byte)"
      using w by (simp add: b64_group_def)
    note bytes = b64_bytes [OF this, of v]
    show ?thesis using 2 bytes
      by (simp add: b64_chars.simps [of "[a, b]"] b64_chars.simps [of "[]"] w b64_decoded_table Let_def
          del: b64_decoded.simps(2)) (simp add: Let_def)
  next
    case 3
    obtain w where w: "b64_group (a # b # c # r) = w" by blast
    have "w = push_bit 16 (ucast a) OR push_bit 8 (ucast b) OR ucast c"
      using w by (simp add: b64_group_def or.assoc)
    note bytes = b64_bytes [OF this, of v]
    show ?thesis using 3 bytes
      by (auto simp: b64_chars.simps [of "a # b # c # r"] w b64_decoded_table Let_def
          simp del: b64_decoded.simps(2))
  qed
qed

lemma b64_decoded_chars: "b64_decoded v (- 8) (b64_chars xs) = xs"
proof (induction xs arbitrary: v rule: length_induct)
  case (1 xs)
  show ?case
  proof (cases "xs = []")
    case True
    then show ?thesis by (simp add: b64_chars.simps)
  next
    case False
    obtain v' where "b64_decoded v (- 8) (b64_chars xs) =
      (if length xs < 3 then xs else take 3 xs @ b64_decoded v' (- 8) (b64_chars (drop 3 xs)))"
      using b64_decoded_group [OF False] by blast
    moreover have "b64_decoded v' (- 8) (b64_chars (drop 3 xs)) = drop 3 xs"
      using 1 False by simp
    ultimately show ?thesis by simp
  qed
qed

lemma b64_chars_length: "length (b64_chars xs) = 4 * ((length xs + 2) div 3)"
proof (induction xs rule: length_induct)
  case (1 xs)
  show ?case
  proof (cases "xs = []")
    case True
    then show ?thesis by (simp add: b64_chars.simps)
  next
    case False
    with 1 have "length (b64_chars (drop 3 xs)) = 4 * ((length xs - 3 + 2) div 3)" by simp
    moreover have "(length xs - 3 + 2) div 3 + 1 = (length xs + 2) div 3"
    proof (cases "length xs < 3")
      case True
      then have "length xs = 1 \<or> length xs = 2" using False by (cases "length xs") auto
      then show ?thesis by auto
    next
      case False
      then obtain m where "length xs = m + 3" by (metis add.commute le_Suc_ex not_le)
      then show ?thesis by simp
    qed
    ultimately show ?thesis using False by (simp add: b64_chars.simps [of xs] Let_def)
  qed
qed

lemma b64_chars_not_nul: "0 \<notin> set (b64_chars xs)"
proof (induction xs rule: b64_chars.induct)
  case (1 xs)
  then show ?case
    by (auto simp: b64_chars.simps [of xs] Let_def b64_sextet ch_def split: if_splits)
qed

section \<open>Properties\<close>

text \<open>Memory that never refuses.\<close>

definition enc_mem_ok :: "enc_mem \<Rightarrow> bool" where
  "enc_mem_ok m \<longleftrightarrow> em_sb m \<noteq> Alloc_Fail \<and> em_bb m \<noteq> Alloc_Fail \<and> em_data m \<noteq> Alloc_Fail
     \<and> em_str m \<noteq> Alloc_Fail \<and> (\<forall>i. em_put m i \<noteq> Alloc_Fail)"

definition demo_mem :: enc_mem where
  "demo_mem = \<lparr>em_sb = Alloc_Ok (), em_bb = Alloc_Ok (), em_data = Alloc_Ok (),
     em_put = (\<lambda>_. Alloc_Ok 0), em_str = Alloc_Ok ()\<rparr>"

lemma demo_mem_ok: "enc_mem_ok demo_mem"
  by (simp add: enc_mem_ok_def demo_mem_def)

lemma new_ByteBuffer_inv:
  "0 < n \<Longrightarrow> n \<le> BB_MAX_CAPACITY \<Longrightarrow> new_ByteBuffer mem mem_data n = Some b \<Longrightarrow> bb_wf b \<and> bb_content b = []
     \<and> bb_read_pos b = 0 \<and> bb_write_pos b = 0"
  by (auto simp: new_ByteBuffer_def Let_def bb_wf_def bb_inv_def bb_content_def split: alloc.splits)

lemma new_ByteBuffer_ok:
  assumes "enc_mem_ok m"
  obtains b where "new_ByteBuffer (em_bb m) (em_data m) n = Some b"
  using assms by (cases "em_bb m"; cases "em_data m") (auto simp: enc_mem_ok_def new_ByteBuffer_def Let_def)

lemma new_StringBuilder_ok:
  assumes "enc_mem_ok m"
  obtains sb where "new_StringBuilder (em_sb m) (em_bb m) (em_data m) 32 = Some sb" "sb_inv sb" "sb_text sb = []"
proof -
  obtain b where b: "new_ByteBuffer (em_bb m) (em_data m) 32 = Some b"
    using new_ByteBuffer_ok [OF assms] by blast
  note bi = new_ByteBuffer_inv [OF _ _ b]
  let ?sb = "\<lparr>sb_buffer = b\<lparr>bb_data := (bb_data b)[bb_write_pos b := 0]\<rparr>\<rparr>"
  have w: "bb_inv b" "bb_read_pos b = 0" "bb_write_pos b < bb_capacity b" "bb_write_pos b = 0" "bb_content b = []"
    using bi by (auto simp: bb_wf_def bb_inv_def)
  have "new_StringBuilder (em_sb m) (em_bb m) (em_data m) 32 = Some ?sb"
    using assms b w(4) by (auto simp: enc_mem_ok_def new_StringBuilder_def split: alloc.split)
  with that [of ?sb] nul_behind [OF w(1-3)] w(5) show ?thesis by simp
qed

text \<open>The allocating wrappers under memory that never refuses.\<close>

lemma wrapper_text:
  assumes "enc_mem_ok m" and "new_StringBuilder (em_sb m) (em_bb m) (em_data m) 32 = Some sb"
    and "sb_inv sb" "sb_text sb = []" and "length (concat xss) \<le> BB_MAX_CAPACITY div 2"
  shows "StringBuilder_toString (em_str m) (puts sb_put (em_put m) sb xss) = Some (c_str (concat xss))"
  using assms sb.puts_ok [of sb "em_put m" xss] sb.puts_wf [of sb "em_put m" xss]
  by (simp add: toString_text enc_mem_ok_def)

lemma url_encode_ok:
  assumes "enc_mem_ok m" and "3 * length s \<le> BB_MAX_CAPACITY div 2"
  shows "TextEncoder_urlEncode m (Some s) = Some (concat (map url_bytes s))"
proof -
  let ?t = "concat (map url_bytes s)"
  obtain sb where sb: "new_StringBuilder (em_sb m) (em_bb m) (em_data m) 32 = Some sb" "sb_inv sb" "sb_text sb = []"
    using new_StringBuilder_ok [OF assms(1)] by blast
  have "length ?t \<le> 3 * length s" by (induction s) (auto simp: url_bytes_def)
  then have "StringBuilder_toString (em_str m) (puts sb_put (em_put m) sb (map (\<lambda>c. [c]) ?t)) = Some (c_str ?t)"
    using wrapper_text [OF assms(1) sb, of "map (\<lambda>c. [c]) ?t"] assms(2) by simp
  moreover have "0 \<notin> set ?t" using url_bytes_safe url_safe_not_nul by fastforce
  ultimately show ?thesis
    using sb by (simp add: TextEncoder_urlEncode_def urlEncodeTo_def urlEncode_loop_puts)
qed

lemma url_decoded_length: "length (url_decoded s) \<le> length s"
proof (induction s rule: length_induct)
  case (1 s)
  show ?case
  proof (cases s)
    case (Cons c r)
    have r: "length (url_decoded r) \<le> length r" using 1 Cons by simp
    show ?thesis
    proof (cases "c = ch CHR ''%'' \<and> (\<exists>c1 c2 r'. r = c1 # c2 # r')")
      case True
      then obtain c1 c2 r' where "r = c1 # c2 # r'" by blast
      moreover have "length (url_decoded r') \<le> length r'" using 1 Cons calculation by simp
      ultimately show ?thesis using True Cons by (simp add: url_decoded_escape)
    next
      case False
      then have "url_decoded s = url_decoded r \<or> (\<exists>x. url_decoded s = x # url_decoded r)"
        using Cons by (auto simp: url_decoded.simps(2) [of c r] split: list.split)
      with r Cons show ?thesis by auto
    qed
  qed simp
qed

lemma url_decoded_prefix:
  "\<forall>c \<in> set p. c \<noteq> ch CHR ''%'' \<and> c \<noteq> ch CHR ''+'' \<Longrightarrow> url_decoded (p @ r) = p @ url_decoded r"
  by (induction p) (simp_all add: url_decoded_plain)

lemma url_decode_ok:
  assumes "enc_mem_ok m" and "length s \<le> BB_MAX_CAPACITY div 2"
  shows "TextEncoder_urlDecode m (Some s) = Some (c_str (url_decoded s))"
proof -
  obtain sb where sb: "new_StringBuilder (em_sb m) (em_bb m) (em_data m) 32 = Some sb" "sb_inv sb" "sb_text sb = []"
    using new_StringBuilder_ok [OF assms(1)] by blast
  show ?thesis
    using wrapper_text [OF assms(1) sb, of "map (\<lambda>c. [c]) (url_decoded s)"] url_decoded_length [of s] assms(2) sb
    by (simp add: TextEncoder_urlDecode_def urlDecodeTo_def urlDecode_loop_puts)
qed

text \<open>HTML escaping is safe whatever the memory does: everything it appends is made of the five
  entities and of bytes other than the five special characters, so that no markup character of
  the input reaches the output; with memory that never refuses it appends the escape of every
  input byte, in order.\<close>

theorem escapeHtml_safe:
  assumes "sb_inv out"
  shows "\<exists>pieces. sb_text (snd (escapeHtmlTo mem out (Some s))) = sb_text out @ concat pieces
    \<and> (\<forall>p \<in> set pieces. p \<in> {lit ''&amp;'', lit ''&lt;'', lit ''&gt;'', lit ''&quot;'', lit ''&#x27;''}
         \<or> (\<exists>c. p = [c] \<and> c \<notin> {ch CHR ''&'', ch CHR ''<'', ch CHR ''>'', 34, 39}))
    \<and> set (concat pieces) \<inter> {ch CHR ''<'', ch CHR ''>'', 34, 39} = {}
    \<and> ((\<forall>i. mem i \<noteq> Alloc_Fail) \<longrightarrow> length (sb_text out) + 6 * length s \<le> BB_MAX_CAPACITY div 2 \<longrightarrow>
         concat pieces = concat (map html_entity s))"
proof -
  let ?P = "\<lambda>p. p \<in> {lit ''&amp;'', lit ''&lt;'', lit ''&gt;'', lit ''&quot;'', lit ''&#x27;''}
         \<or> (\<exists>c. p = [c] \<and> c \<notin> {ch CHR ''&'', ch CHR ''<'', ch CHR ''>'', 34, 39})"
  have e: "\<forall>p \<in> set (map html_entity s). ?P p" by (auto simp: html_entity_def)
  obtain ps where ps: "sb_text (puts sb_put mem out (map html_entity s)) = sb_text out @ concat ps"
    "\<forall>p \<in> set ps. ?P p" using sb.puts_bytes [OF assms e] by blast
  have "set p \<inter> {ch CHR ''<'', ch CHR ''>'', 34, 39} = {}" if "?P p" for p
    using that by (auto simp: lit_def ch_def)
  then have safe: "set (concat ps) \<inter> {ch CHR ''<'', ch CHR ''>'', 34, 39} = {}" using ps(2) by auto
  have len: "length (concat (map html_entity s)) \<le> 6 * length s"
    by (induction s) (auto simp: html_entity_def lit_def)
  have "concat ps = concat (map html_entity s)"
    if "\<forall>i. mem i \<noteq> Alloc_Fail" "length (sb_text out) + 6 * length s \<le> BB_MAX_CAPACITY div 2"
    using sb.puts_ok [OF assms, of mem "map html_entity s"] that len ps(1) by simp
  with ps safe show ?thesis by (intro exI [of _ ps]) (simp add: escapeHtmlTo_def escapeHtml_loop_puts)
qed

theorem escapeHtml_safe_witness:
  "\<exists>pieces. sb_text (snd (escapeHtmlTo (\<lambda>_. Alloc_Ok 0) demo_sb (Some (lit ''<b>'')))) = lit ''hi'' @ concat pieces
    \<and> concat pieces = lit ''&lt;b&gt;''"
proof -
  have "concat (map html_entity (lit ''<b>'')) = lit ''&lt;b&gt;''"
    by (simp add: html_entity_def lit_def ch_def)
  with escapeHtml_safe [OF demo_sb_inv(1), of "\<lambda>_. Alloc_Ok 0" "lit ''<b>''"] demo_sb_inv(2) show ?thesis
    by (auto simp: lit_def)
qed

text \<open>URL encoding and decoding round trip: for every C string (no NUL) of up to 2.7 MB,
  \<^verbatim>\<open>urlEncode\<close> returns a string of unreserved characters and percent signs only, and
  \<^verbatim>\<open>urlDecode\<close> of it returns the string.\<close>

theorem url_roundtrip:
  assumes "enc_mem_ok m" and "0 \<notin> set s" and "3 * length s \<le> BB_MAX_CAPACITY div 2"
  shows "\<exists>t. TextEncoder_urlEncode m (Some s) = Some t
    \<and> (\<forall>c \<in> set t. url_unreserved c \<or> c = ch CHR ''%'') \<and> TextEncoder_urlDecode m (Some t) = Some s"
proof -
  let ?t = "concat (map url_bytes s)"
  have "length ?t \<le> 3 * length s" by (induction s) (auto simp: url_bytes_def)
  then have "TextEncoder_urlDecode m (Some ?t) = Some s"
    using url_decode_ok [OF assms(1), of ?t] assms(2,3) by (simp add: url_decoded_encoded)
  with url_encode_ok [OF assms(1,3)] url_bytes_safe show ?thesis by (intro exI [of _ ?t]) auto
qed

theorem url_roundtrip_witness:
  "\<exists>t. TextEncoder_urlEncode demo_mem (Some (lit ''a b&c'')) = Some t
    \<and> TextEncoder_urlDecode demo_mem (Some t) = Some (lit ''a b&c'')"
  using url_roundtrip [OF demo_mem_ok, of "lit ''a b&c''"] by (auto simp: lit_def)

text \<open>(C36) Base64 round trip: for every byte string of up to 6 MB, NULs included, \<^verbatim>\<open>base64Encode\<close>
  returns a C string of the padded length and \<^verbatim>\<open>base64Decode\<close> of it a buffer with the bytes.\<close>

theorem base64_roundtrip:
  assumes "enc_mem_ok m" and "4 * ((length xs + 2) div 3) \<le> BB_MAX_CAPACITY div 2"
  shows "\<exists>t b. TextEncoder_base64Encode m (Some xs) (length xs) = Some t
    \<and> length t = 4 * ((length xs + 2) div 3)
    \<and> TextEncoder_base64Decode m (Some t) = Some b \<and> bb_content b = xs"
proof -
  let ?t = "b64_chars xs"
  obtain sb where sb: "new_StringBuilder (em_sb m) (em_bb m) (em_data m) 32 = Some sb" "sb_inv sb" "sb_text sb = []"
    using new_StringBuilder_ok [OF assms(1)] by blast
  have enc: "TextEncoder_base64Encode m (Some xs) (length xs) = Some ?t"
    using wrapper_text [OF assms(1) sb, of "map (\<lambda>c. [c]) ?t"] assms(2) sb b64_chars_not_nul [of xs]
    by (simp add: TextEncoder_base64Encode_def base64EncodeTo_def base64Encode_loop_puts b64_chars_length)
  obtain b where b: "new_ByteBuffer (em_bb m) (em_data m) 30 = Some b"
    using new_ByteBuffer_ok [OF assms(1)] by blast
  have w: "bb_wf b" "bb_content b = []" using new_ByteBuffer_inv [OF _ _ b] by auto
  have "length xs \<le> BB_MAX_CAPACITY div 2"
    using assms(2) by (simp add: less_mult_imp_div_less)
  then have "bb_content (puts bb_put (em_put m) b (map (\<lambda>c. [c]) xs)) = xs"
    using bb.puts_ok [OF w(1), of "em_put m" "map (\<lambda>c. [c]) xs"] w(2) assms(1) by (simp add: enc_mem_ok_def)
  then show ?thesis
    using enc b by (simp add: TextEncoder_base64Decode_def base64DecodeTo_def base64Decode_loop_puts
        b64_decoded_chars b64_chars_length)
qed

theorem base64_roundtrip_witness:
  "\<exists>t b. TextEncoder_base64Encode demo_mem (Some [0, 255, 7, 1]) 4 = Some t \<and> length t = 8
    \<and> TextEncoder_base64Decode demo_mem (Some t) = Some b \<and> bb_content b = [0, 255, 7, 1]"
proof -
  have l: "length [0, 255, 7, 1 :: byte] = 4" by simp
  show ?thesis using base64_roundtrip [OF demo_mem_ok, of "[0, 255, 7, 1]", unfolded l] by simp
qed

text \<open>A malformed percent escape is not rejected: when the byte after the percent sign starts
  no number, \<^verbatim>\<open>strtol\<close> yields 0, a NUL is appended, and \<^verbatim>\<open>urlDecode\<close> returns only what stands
  before it, losing the rest of the input.\<close>

theorem urlDecode_malformed_truncates:
  assumes "enc_mem_ok m" and "length p + length rest + 3 \<le> BB_MAX_CAPACITY div 2"
    and "set p \<inter> {0, ch CHR ''%'', ch CHR ''+''} = {}"
    and "hex_val c1 = None" "\<not> isspace c1" "c1 \<notin> {ch CHR ''-'', ch CHR ''+''}"
  shows "TextEncoder_urlDecode m (Some (p @ ch CHR ''%'' # c1 # c2 # rest)) = Some p"
proof -
  have p: "url_decoded (p @ r) = p @ url_decoded r" for r
    using assms(3) by (intro url_decoded_prefix) blast
  have "strtol16 [c1, c2] = 0" using assms(4-6) by (simp add: strtol16_def Let_def)
  then have "url_decoded (p @ ch CHR ''%'' # c1 # c2 # rest) = p @ 0 # url_decoded rest"
    using p by (simp add: url_decoded_escape)
  with url_decode_ok [OF assms(1), of "p @ ch CHR ''%'' # c1 # c2 # rest"] assms(2,3) show ?thesis by simp
qed

theorem urlDecode_malformed_truncates_witness:
  "TextEncoder_urlDecode demo_mem (Some (lit ''id=1%zz&x=2'')) = Some (lit ''id=1'')"
  using urlDecode_malformed_truncates [OF demo_mem_ok, of "lit ''id=1''" "lit ''&x=2''" "ch CHR ''z''" "ch CHR ''z''"]
  by (simp add: lit_def ch_def hex_val_def isspace_def)


end
