(* ===== verification/Http_Request.thy ===== *)
theory Http_Request
  imports String_Obj Text_Encoder
begin

text \<open>
  \<^verbatim>\<open>src/src/http_request_builder.c\<close>: path normalisation and the encodings of request bodies. The data of a form is the
  sequence of its keys in the order of \<^verbatim>\<open>keys()\<close>, each with the value \<^verbatim>\<open>get\<close> returns for it (\<open>None\<close> for NULL).
  Allocation answers are arguments: \<open>mem i\<close> for the \<open>i\<close>-th string that is made. The \<^verbatim>\<open>String\<close> that collects a body
  grows by \<^verbatim>\<open>append\<close>; its answers are taken to be positive, \<open>String_Obj\<close> shows what \<^verbatim>\<open>append\<close> does.
\<close>

section \<open>Paths\<close>

text \<open>The stack of tokens, deepest first.\<close>

fun path_stack :: "(nat \<Rightarrow> bool) \<Rightarrow> nat \<Rightarrow> cstring list \<Rightarrow> cstring list \<Rightarrow> cstring list" where
  "path_stack mem i stack [] = stack"
| "path_stack mem i stack (token # ts) =
     (if token = lit ''.'' then path_stack mem i stack ts
      else if token = lit ''..'' then path_stack mem i (if stack \<noteq> [] then butlast stack else stack) ts
      else if mem i then path_stack mem (i + 1) (stack @ [token]) ts
      else path_stack mem (i + 1) stack ts)"

text \<open>Writing the stack back: a slash between the tokens.\<close>

fun join_path :: "cstring list \<Rightarrow> cstring" where
  "join_path [] = []"
| "join_path (t # ts) = t @ (if ts \<noteq> [] then [47] else []) @ join_path ts"

definition normalize_path :: "bool \<Rightarrow> bool \<Rightarrow> (nat \<Rightarrow> bool) \<Rightarrow> cstring \<Rightarrow> cstring" where
  "normalize_path mem_copy mem_stack mem path =
     (if path = [] \<or> \<not> mem_copy \<or> \<not> mem_stack then path
      else 47 # join_path (path_stack mem 0 [] (strtok (\<lambda>c. c = 47) path)))"

section \<open>Encodings\<close>

definition url_encode_char :: "byte \<Rightarrow> cstring" where
  "url_encode_char c =
     (if (97 \<le> c \<and> c \<le> 122) \<or> (65 \<le> c \<and> c \<le> 90) \<or> (48 \<le> c \<and> c \<le> 57) \<or> c \<in> set (lit ''-_.~'') then [c]
      else [37, hex_digits ! (unat c div 16), hex_digits ! (unat c mod 16)])"

fun url_encode_loop :: "nat \<Rightarrow> cstring \<Rightarrow> cstring \<Rightarrow> cstring option" where
  "url_encode_loop cap out [] = (if length out < cap then Some out else None)"
| "url_encode_loop cap out (c # s) =
     (let e = url_encode_char c
      in if length out + length e \<le> cap \<and> (length e = 3 \<longrightarrow> length out + 4 \<le> cap)
         then url_encode_loop cap (out @ e) s else None)"

text \<open>The outcome of an encoder: a string, no memory, or a write outside of its block. \<^verbatim>\<open>snprintf(p, 4, ..)\<close> writes a NUL
  behind its three characters.\<close>

datatype encoded = Encoded cstring | Enc_no_memory | Enc_overrun

definition encoded :: "bool \<Rightarrow> cstring option \<Rightarrow> encoded" where
  "encoded mem r = (if \<not> mem then Enc_no_memory else case r of None \<Rightarrow> Enc_overrun | Some s \<Rightarrow> Encoded s)"

definition url_encode :: "bool \<Rightarrow> cstring option \<Rightarrow> encoded" where
  "url_encode mem str =
     (case str of None \<Rightarrow> encoded mem (Some [])
      | Some s \<Rightarrow> encoded mem (url_encode_loop (length s * 3 + 1) [] s))"

definition json_escape_char :: "byte \<Rightarrow> cstring" where
  "json_escape_char c =
     (if c = 34 then [92, 34] else if c = 92 then [92, 92] else if c = 8 then lit [CHR 0x5C, CHR ''b'']
      else if c = 12 then lit [CHR 0x5C, CHR ''f''] else if c = 10 then lit [CHR 0x5C, CHR ''n'']
      else if c = 13 then lit [CHR 0x5C, CHR ''r''] else if c = 9 then lit [CHR 0x5C, CHR ''t'']
      else if c < 0x20 then lit [CHR 0x5C, CHR ''u'', CHR ''0'', CHR ''0'']
             @ [48 + (c div 16), if c mod 16 < 10 then 48 + c mod 16 else 87 + c mod 16]
      else [c])"

fun json_escape_loop :: "nat \<Rightarrow> cstring \<Rightarrow> cstring \<Rightarrow> cstring option" where
  "json_escape_loop cap out [] = (if length out < cap then Some out else None)"
| "json_escape_loop cap out (c # s) =
     (let e = json_escape_char c
      in if length out + length e \<le> cap \<and> (length e = 6 \<longrightarrow> length out + 7 \<le> cap)
         then json_escape_loop cap (out @ e) s else None)"

definition json_escape :: "bool \<Rightarrow> cstring option \<Rightarrow> encoded" where
  "json_escape mem str =
     (case str of None \<Rightarrow> encoded mem (Some [])
      | Some s \<Rightarrow> encoded mem (json_escape_loop (length s * 6 + 1) [] s))"

definition filename_escape_char :: "byte \<Rightarrow> cstring" where
  "filename_escape_char c = (if c = 34 \<or> c = 92 \<or> c = 13 \<or> c = 10 then [92, c] else [c])"

fun filename_escape_loop :: "nat \<Rightarrow> cstring \<Rightarrow> cstring \<Rightarrow> cstring option" where
  "filename_escape_loop cap out [] = (if length out < cap then Some out else None)"
| "filename_escape_loop cap out (c # s) =
     (let e = filename_escape_char c
      in if length out + length e \<le> cap then filename_escape_loop cap (out @ e) s else None)"

definition multipart_filename_escape :: "bool \<Rightarrow> cstring option \<Rightarrow> encoded" where
  "multipart_filename_escape mem str =
     (case str of None \<Rightarrow> encoded mem (Some [])
      | Some s \<Rightarrow> encoded mem (filename_escape_loop (length s * 2 + 1) [] s))"

section \<open>Bodies\<close>

type_synonym form_data = "(cstring \<times> cstring option) list"

text \<open>The loops over the keys; \<open>mem i\<close> answers for the encodings of key and value \<open>i\<close>. A pair that could not be encoded
  leaves only its separator.\<close>

fun form_loop :: "(nat \<Rightarrow> bool \<times> bool) \<Rightarrow> nat \<Rightarrow> form_data \<Rightarrow> cstring" where
  "form_loop mem i [] = []"
| "form_loop mem i ((k, v) # kvs) =
     (case v of None \<Rightarrow> []
      | Some x \<Rightarrow>
          (if i > 0 then lit ''&'' else [])
          @ (case (url_encode (fst (mem i)) (Some k), url_encode (snd (mem i)) (Some x)) of
               (Encoded ek, Encoded ev) \<Rightarrow> ek @ lit ''='' @ ev | _ \<Rightarrow> []))
     @ form_loop mem (i + 1) kvs"

definition build_form_body :: "bool \<Rightarrow> bool \<Rightarrow> bool \<Rightarrow> (nat \<Rightarrow> bool \<times> bool) \<Rightarrow> form_data option \<Rightarrow> cstring option" where
  "build_form_body mem_s mem_keys mem_res mem data =
     (case data of None \<Rightarrow> None
      | Some kvs \<Rightarrow>
          if kvs = [] \<or> \<not> mem_s then None
          else let s = (if mem_keys then form_loop mem 0 kvs else [])
               in if mem_res then Some s else None)"

fun json_loop :: "(nat \<Rightarrow> bool \<times> bool) \<Rightarrow> nat \<Rightarrow> form_data \<Rightarrow> cstring" where
  "json_loop mem i [] = []"
| "json_loop mem i ((k, v) # kvs) =
     (case v of None \<Rightarrow> []
      | Some x \<Rightarrow>
          (if i > 0 then lit '','' else [])
          @ (case (json_escape (fst (mem i)) (Some k), json_escape (snd (mem i)) (Some x)) of
               (Encoded ek, Encoded ev) \<Rightarrow> [34] @ ek @ [34, 58, 34] @ ev @ [34] | _ \<Rightarrow> []))
     @ json_loop mem (i + 1) kvs"

definition build_json_body :: "bool \<Rightarrow> bool \<Rightarrow> bool \<Rightarrow> (nat \<Rightarrow> bool \<times> bool) \<Rightarrow> form_data option \<Rightarrow> cstring option" where
  "build_json_body mem_s mem_keys mem_res mem data =
     (case data of None \<Rightarrow> None
      | Some kvs \<Rightarrow>
          if \<not> mem_s then None
          else let s = lit ''{'' @ (if mem_keys then json_loop mem 0 kvs else []) @ lit ''}''
               in if mem_res then Some s else None)"

end
