(* ===== verification/Path_Validator.thy ===== *)
theory Path_Validator
  imports Core_Prelude
begin

text \<open>
  \<^verbatim>\<open>src/src/path_validator.c\<close>: the one-pass request path validator in front of the router
  (percent decoding, character whitelist, removal of \<^verbatim>\<open>.\<close> segments and duplicate slashes, rejection
  of \<^verbatim>\<open>..\<close>, length limits, UTF-8 check). It is shown equal to a reference that works on whole
  segment lists, and its output to be canonical and stable.
\<close>

abbreviation MAX_PATH_LEN :: nat where "MAX_PATH_LEN \<equiv> 2048"
abbreviation MAX_SEGMENT_LEN :: nat where "MAX_SEGMENT_LEN \<equiv> 255"
abbreviation MAX_SEGMENTS :: nat where "MAX_SEGMENTS \<equiv> 100"

section \<open>UTF-8\<close>

text \<open>\<^verbatim>\<open>s[k]\<close> of a C string: the terminating NUL behind the last byte.\<close>

definition c_at :: "cstring \<Rightarrow> nat \<Rightarrow> byte" where
  "c_at s k = (if k < length s then s ! k else 0)"

function rule_02_check_utf8 :: "cstring \<Rightarrow> bool" where
  "rule_02_check_utf8 s =
     (if s = [] then True
      else if c_at s 0 < 0x80 then rule_02_check_utf8 (drop 1 s)
      else if c_at s 0 AND 0xE0 = 0xC0 then
        (if c_at s 0 < 0xC2 \<or> c_at s 1 AND 0xC0 \<noteq> 0x80 then False
         else rule_02_check_utf8 (drop 2 s))
      else if c_at s 0 AND 0xF0 = 0xE0 then
        (if c_at s 1 AND 0xC0 \<noteq> 0x80 \<or> c_at s 2 AND 0xC0 \<noteq> 0x80 then False
         else if c_at s 0 = 0xE0 \<and> c_at s 1 < 0xA0 then False
         else if c_at s 0 = 0xED \<and> c_at s 1 \<ge> 0xA0 then False
         else rule_02_check_utf8 (drop 3 s))
      else if c_at s 0 AND 0xF8 = 0xF0 then
        (if c_at s 1 AND 0xC0 \<noteq> 0x80 \<or> c_at s 2 AND 0xC0 \<noteq> 0x80 \<or> c_at s 3 AND 0xC0 \<noteq> 0x80 then False
         else if c_at s 0 = 0xF0 \<and> c_at s 1 < 0x90 then False
         else if c_at s 0 = 0xF4 \<and> c_at s 1 \<ge> 0x90 then False
         else rule_02_check_utf8 (drop 4 s))
      else False)"
  by pat_completeness auto
termination
  by (relation "measure length") auto

declare rule_02_check_utf8.simps [simp del]

section \<open>The validator\<close>

text \<open>
  \<open>pv_out\<close> are the first \<^verbatim>\<open>out_idx\<close> bytes of \<^verbatim>\<open>out_canonical\<close>; the input is consumed as a list, so
  that \<open>i + 2 \<ge> len\<close> is \<open>length s < 3\<close> for the rest \<open>s\<close> at \<open>i\<close>.
\<close>

record pv_state =
  pv_out :: cstring
  pv_seg_count :: nat
  pv_seg_len :: nat

abbreviation slash :: byte where "slash \<equiv> 47"
abbreviation dot :: byte where "dot \<equiv> 46"

definition isxdigit :: "byte \<Rightarrow> bool" where
  "isxdigit c \<longleftrightarrow> hex_val c \<noteq> None"

text \<open>The reserved-character and whitelist rules on the decoded byte.\<close>

definition pv_allowed :: "byte \<Rightarrow> bool \<Rightarrow> bool" where
  "pv_allowed c was_encoded =
     (if c = 0 \<or> c = ch CHR 0x5C \<or> c < 32 \<or> c = 127 then False
      else if c = ch CHR ''?'' \<or> c = ch CHR ''#'' \<or> c = ch CHR ''&'' \<or> c = ch CHR ''='' then False
      else if was_encoded \<and> c = slash then False
      else let is_alnum = (65 \<le> c \<and> c \<le> 90) \<or> (97 \<le> c \<and> c \<le> 122) \<or> (48 \<le> c \<and> c \<le> 57);
               is_safe_punct = (c = ch CHR ''-'' \<or> c = ch CHR ''_'' \<or> c = dot \<or> c = ch CHR ''~'' \<or> c = slash)
           in \<not> (\<not> is_alnum \<and> \<not> is_safe_punct \<and> c < 0x80))"

text \<open>The evaluation of a finished segment, written twice in the code: at a slash and at the end.\<close>

definition pv_end_segment :: "pv_state \<Rightarrow> pv_state option" where
  "pv_end_segment st =
     (let out = pv_out st; out_idx = length out in
      if pv_seg_len st = 1 \<and> out_idx > 0 \<and> out ! (out_idx - 1) = dot
      then Some (st\<lparr>pv_out := butlast out\<rparr>)
      else if pv_seg_len st = 2 \<and> out_idx > 1 \<and> out ! (out_idx - 2) = dot \<and> out ! (out_idx - 1) = dot
      then None
      else if pv_seg_len st > 0
      then (if pv_seg_count st + 1 > MAX_SEGMENTS then None
            else Some (st\<lparr>pv_seg_count := pv_seg_count st + 1\<rparr>))
      else Some st)"

definition pv_byte :: "nat \<Rightarrow> pv_state \<Rightarrow> byte \<Rightarrow> pv_state option" where
  "pv_byte out_size st c =
     (if c = slash then
        (case pv_end_segment st of None \<Rightarrow> None
         | Some st1 \<Rightarrow>
             let out = pv_out st1; out_idx = length out in
             if out_idx > 0 \<and> out ! (out_idx - 1) = slash then Some (st1\<lparr>pv_seg_len := 0\<rparr>)
             else if out_idx \<ge> out_size - 1 then None
             else Some (st1\<lparr>pv_out := out @ [slash], pv_seg_len := 0\<rparr>))
      else if pv_seg_len st + 1 > MAX_SEGMENT_LEN then None
      else if length (pv_out st) \<ge> out_size - 1 then None
      else Some (st\<lparr>pv_out := pv_out st @ [c], pv_seg_len := pv_seg_len st + 1\<rparr>))"

function pv_loop :: "nat \<Rightarrow> pv_state \<Rightarrow> cstring \<Rightarrow> pv_state option" where
  "pv_loop out_size st s =
     (if s = [] then Some st
      else if hd s = ch CHR ''%'' then
        (if length s < 3 then None
         else if \<not> isxdigit (s ! 1) \<or> \<not> isxdigit (s ! 2) then None
         else let c = of_int (strtol16 [s ! 1, s ! 2]) in
              if \<not> pv_allowed c True then None
              else case pv_byte out_size st c of None \<Rightarrow> None
                   | Some st1 \<Rightarrow> pv_loop out_size st1 (drop 3 s))
      else if \<not> pv_allowed (hd s) False then None
      else case pv_byte out_size st (hd s) of None \<Rightarrow> None
           | Some st1 \<Rightarrow> pv_loop out_size st1 (drop 1 s))"
  by pat_completeness auto
termination
  by (relation "measure (\<lambda>(out_size, st, s). length s)") auto

declare pv_loop.simps [simp del]

text \<open>The result is the C string in \<^verbatim>\<open>out_canonical\<close>, \<open>None\<close> when the path is refused.\<close>

definition PathValidator_validate :: "cstring option \<Rightarrow> nat \<Rightarrow> cstring option" where
  "PathValidator_validate raw_path out_size =
     (case raw_path of None \<Rightarrow> None
      | Some s \<Rightarrow>
          if out_size = 0 then None
          else if length s = 0 \<or> length s > MAX_PATH_LEN then None
          else if hd s \<noteq> slash then None
          else case pv_loop out_size \<lparr>pv_out = [], pv_seg_count = 0, pv_seg_len = 0\<rparr> s of
                 None \<Rightarrow> None
               | Some st \<Rightarrow>
                   (case pv_end_segment st of None \<Rightarrow> None
                    | Some st1 \<Rightarrow>
                        let out = pv_out st1;
                            out = (if length out > 1 \<and> out ! (length out - 1) = slash then butlast out else out)
                        in if out = [] then
                             (if out_size < 2 then None
                              else if rule_02_check_utf8 [slash] then Some [slash] else None)
                           else if rule_02_check_utf8 out then Some out else None))"

section \<open>Reference: whole segments\<close>

text \<open>Percent decoding with the byte rules, the whole path at once.\<close>

function pv_decode :: "cstring \<Rightarrow> cstring option" where
  "pv_decode s =
     (if s = [] then Some []
      else if hd s = ch CHR ''%'' then
        (if length s < 3 \<or> \<not> isxdigit (s ! 1) \<or> \<not> isxdigit (s ! 2)
            \<or> \<not> pv_allowed (of_int (strtol16 [s ! 1, s ! 2])) True then None
         else map_option ((#) (of_int (strtol16 [s ! 1, s ! 2]))) (pv_decode (drop 3 s)))
      else if \<not> pv_allowed (hd s) False then None
      else map_option ((#) (hd s)) (pv_decode (drop 1 s)))"
  by pat_completeness auto
termination
  by (relation "measure length") auto

declare pv_decode.simps [simp del]

definition pv_join :: "cstring list \<Rightarrow> cstring" where
  "pv_join segs = (if segs = [] then [slash] else concat (map ((#) slash) segs))"

definition pv_tokens :: "cstring \<Rightarrow> cstring list" where
  "pv_tokens ds = strtok (\<lambda>c. c = slash) ds"

definition pv_tokens_ok :: "cstring list \<Rightarrow> bool" where
  "pv_tokens_ok toks \<longleftrightarrow> [dot, dot] \<notin> set toks \<and> (\<forall>t \<in> set toks. length t \<le> MAX_SEGMENT_LEN)
     \<and> length (filter (\<lambda>t. t \<noteq> [dot]) toks) \<le> MAX_SEGMENTS"

definition pv_spec :: "cstring \<Rightarrow> cstring option" where
  "pv_spec raw =
     (if raw = [] \<or> length raw > MAX_PATH_LEN \<or> hd raw \<noteq> slash then None
      else case pv_decode raw of None \<Rightarrow> None
        | Some ds \<Rightarrow>
            let out = pv_join (filter (\<lambda>t. t \<noteq> [dot]) (pv_tokens ds))
            in if pv_tokens_ok (pv_tokens ds) \<and> rule_02_check_utf8 out then Some out else None)"

section \<open>The loop refines the reference\<close>

text \<open>\<open>segs\<close> are the finished segments, \<open>seg\<close> the current one.\<close>

definition pv_rep :: "pv_state \<Rightarrow> cstring list \<Rightarrow> cstring \<Rightarrow> bool" where
  "pv_rep st segs seg \<longleftrightarrow> pv_out st = concat (map ((#) slash) segs) @ slash # seg
     \<and> pv_seg_len st = length seg \<and> pv_seg_count st = length segs
     \<and> slash \<notin> set seg \<and> length segs \<le> MAX_SEGMENTS \<and> length seg \<le> MAX_SEGMENT_LEN"

lemma pv_rep_last:
  assumes "pv_rep st segs seg"
  shows "pv_out st ! (length (pv_out st) - 1) = (if seg = [] then slash else last seg)"
    and "length seg = 2 \<Longrightarrow> pv_out st ! (length (pv_out st) - 2) = hd seg"
    and "0 < length (pv_out st)"
proof -
  let ?p = "concat (map ((#) slash) segs)"
  have o: "pv_out st = ?p @ slash # seg" using assms by (simp add: pv_rep_def)
  show "0 < length (pv_out st)" using o by simp
  show "pv_out st ! (length (pv_out st) - 1) = (if seg = [] then slash else last seg)"
    using o last_conv_nth [of "pv_out st"] by (simp split: if_splits)
  show "pv_out st ! (length (pv_out st) - 2) = hd seg" if "length seg = 2"
  proof -
    have "\<exists>a b. seg = [a, b]" using that by (auto simp: length_Suc_conv numeral_2_eq_2)
    then obtain a b where "seg = [a, b]" by blast
    with o show ?thesis by (simp add: nth_append)
  qed
qed

definition pv_seg_result :: "cstring list \<Rightarrow> cstring \<Rightarrow> cstring list" where
  "pv_seg_result segs seg = (if seg = [] \<or> seg = [dot] then segs else segs @ [seg])"

lemma dots_iff: "length seg = 2 \<Longrightarrow> hd seg = dot \<and> last seg = dot \<longleftrightarrow> seg = [dot, dot]"
  by (auto simp: length_Suc_conv numeral_2_eq_2)

lemma pv_end_segment_spec:
  assumes "pv_rep st segs seg"
  shows "pv_end_segment st =
    (if seg = [dot] then Some (st\<lparr>pv_out := butlast (pv_out st)\<rparr>)
     else if seg = [dot, dot] then None
     else if seg \<noteq> [] then (if length segs + 1 > MAX_SEGMENTS then None
                         else Some (st\<lparr>pv_seg_count := length segs + 1\<rparr>))
     else Some st)"
proof -
  note l = pv_rep_last [OF assms]
  have c: "pv_seg_len st = length seg" "pv_seg_count st = length segs"
    using assms by (auto simp: pv_rep_def)
  have big: "length seg = 2 \<Longrightarrow> 1 < length (pv_out st)" using assms by (simp add: pv_rep_def)
  have one: "pv_seg_len st = 1 \<and> length (pv_out st) > 0 \<and> pv_out st ! (length (pv_out st) - 1) = dot \<longleftrightarrow> seg = [dot]"
    using l(1,3) c(1) by (cases seg) auto
  have two: "pv_seg_len st = 2 \<and> length (pv_out st) > 1 \<and> pv_out st ! (length (pv_out st) - 2) = dot
      \<and> pv_out st ! (length (pv_out st) - 1) = dot \<longleftrightarrow> seg = [dot, dot]"
    using l(1,2) big c(1) dots_iff [of seg] by auto
  show ?thesis unfolding pv_end_segment_def Let_def one two using c by simp
qed

definition pv_seg_bad :: "cstring list \<Rightarrow> cstring \<Rightarrow> bool" where
  "pv_seg_bad segs seg \<longleftrightarrow> seg = [dot, dot] \<or> length (pv_seg_result segs seg) > MAX_SEGMENTS"

lemma pv_slash_spec:
  assumes "pv_rep st segs seg" and "length (pv_out st) < out_size - 1"
  shows "if pv_seg_bad segs seg then pv_byte out_size st slash = None
    else \<exists>st'. pv_byte out_size st slash = Some st' \<and> pv_rep st' (pv_seg_result segs seg) []
           \<and> length (pv_out st') \<le> length (pv_out st) + 1"
proof -
  have o: "pv_out st = concat (map ((#) slash) segs) @ slash # seg" "length segs \<le> MAX_SEGMENTS"
    "pv_seg_len st = length seg" "pv_seg_count st = length segs"
    using assms(1) by (auto simp: pv_rep_def)
  note e = pv_end_segment_spec [OF assms(1)] and l = pv_rep_last [OF assms(1)]
  consider "seg = []" | "seg = [dot]" | "seg = [dot, dot]" | "seg \<noteq> []" "seg \<noteq> [dot]" "seg \<noteq> [dot, dot]" by blast
  then show ?thesis
  proof cases
    case 1
    with o l show ?thesis by (simp add: pv_byte_def e pv_seg_bad_def pv_seg_result_def Let_def pv_rep_def)
  next
    case 2
    with o show ?thesis
      by (simp add: pv_byte_def e pv_seg_bad_def pv_seg_result_def Let_def pv_rep_def butlast_append)
  next
    case 3
    then show ?thesis by (simp add: pv_byte_def e pv_seg_bad_def)
  next
    case 4
    then have "last seg \<noteq> slash" using assms(1) last_in_set [OF 4(1)] by (metis pv_rep_def)
    with 4 o l assms(2) show ?thesis
      by (auto simp: pv_byte_def e pv_seg_bad_def pv_seg_result_def Let_def pv_rep_def)
  qed
qed

lemma pv_plain_spec:
  assumes "pv_rep st segs seg" and "length (pv_out st) < out_size - 1" and "c \<noteq> slash"
  shows "if length seg + 1 > MAX_SEGMENT_LEN then pv_byte out_size st c = None
    else \<exists>st'. pv_byte out_size st c = Some st' \<and> pv_rep st' segs (seg @ [c])
           \<and> length (pv_out st') \<le> length (pv_out st) + 1"
  using assms by (auto simp: pv_byte_def pv_rep_def)

text \<open>The loop on segment lists, over the decoded bytes.\<close>

fun pv_run :: "cstring list \<Rightarrow> cstring \<Rightarrow> cstring \<Rightarrow> (cstring list \<times> cstring) option" where
  "pv_run segs seg [] = Some (segs, seg)"
| "pv_run segs seg (c # ds) =
     (if c = slash
      then (if pv_seg_bad segs seg then None else pv_run (pv_seg_result segs seg) [] ds)
      else if length seg + 1 > MAX_SEGMENT_LEN then None else pv_run segs (seg @ [c]) ds)"

lemma pv_byte_run:
  assumes "pv_rep st segs seg" and "length (pv_out st) < out_size - 1"
  shows "(pv_byte out_size st c = None \<and> (\<forall>ds. pv_run segs seg (c # ds) = None))
    \<or> (\<exists>st' segs' seg'. pv_byte out_size st c = Some st' \<and> pv_rep st' segs' seg'
         \<and> (\<forall>ds. pv_run segs seg (c # ds) = pv_run segs' seg' ds)
         \<and> length (pv_out st') \<le> length (pv_out st) + 1)"
  using pv_slash_spec [OF assms] pv_plain_spec [OF assms, of c]
  by (cases "c = slash") (auto split: if_splits)

definition pv_loop_agrees :: "nat \<Rightarrow> pv_state \<Rightarrow> cstring list \<Rightarrow> cstring \<Rightarrow> cstring \<Rightarrow> bool" where
  "pv_loop_agrees out_size st segs seg s \<longleftrightarrow>
     (case pv_decode s of None \<Rightarrow> pv_loop out_size st s = None
      | Some ds \<Rightarrow> (case pv_run segs seg ds of None \<Rightarrow> pv_loop out_size st s = None
          | Some (segs', seg') \<Rightarrow> \<exists>st'. pv_loop out_size st s = Some st' \<and> pv_rep st' segs' seg'))"

lemma pv_loop_run:
  "pv_rep st segs seg \<Longrightarrow> length (pv_out st) + length s < out_size \<Longrightarrow> pv_loop_agrees out_size st segs seg s"
proof (induction s arbitrary: st segs seg rule: length_induct)
  case (1 s)
  show ?case
  proof (cases "s = []")
    case True
    with 1 show ?thesis by (simp add: pv_loop.simps pv_decode.simps pv_loop_agrees_def)
  next
    case ne: False
    define k where "k = (if hd s = ch CHR ''%'' then 3 else 1 :: nat)"
    define c where "c = (if hd s = ch CHR ''%'' then of_int (strtol16 [s ! 1, s ! 2]) else hd s)"
    define ok where "ok \<longleftrightarrow> (if hd s = ch CHR ''%''
      then \<not> (length s < 3 \<or> \<not> isxdigit (s ! 1) \<or> \<not> isxdigit (s ! 2) \<or> \<not> pv_allowed c True)
      else pv_allowed c False)"
    have dec: "pv_decode s = (if ok then map_option ((#) c) (pv_decode (drop k s)) else None)"
      using ne by (auto simp: pv_decode.simps [of s] ok_def c_def k_def)
    have lp: "pv_loop out_size st s = (if ok then case pv_byte out_size st c of None \<Rightarrow> None
        | Some st1 \<Rightarrow> pv_loop out_size st1 (drop k s) else None)"
      using ne by (cases "hd s = ch CHR ''%''")
        (simp_all add: pv_loop.simps [of out_size st s] ok_def c_def k_def Let_def split: option.split)
    have shorter: "length (drop k s) < length s" using ne by (simp add: k_def)
    have "length (pv_out st) < out_size - 1" using 1(3) ne by (cases s) auto
    from pv_byte_run [OF 1(2) this, of c] show ?thesis
    proof (elim disjE exE conjE)
      assume "pv_byte out_size st c = None" "\<forall>ds. pv_run segs seg (c # ds) = None"
      with dec lp show ?thesis by (auto simp: pv_loop_agrees_def split: option.splits)
    next
      fix st' segs' seg'
      assume b: "pv_byte out_size st c = Some st'" "pv_rep st' segs' seg'"
        "\<forall>ds. pv_run segs seg (c # ds) = pv_run segs' seg' ds" "length (pv_out st') \<le> length (pv_out st) + 1"
      have "pv_loop_agrees out_size st' segs' seg' (drop k s)"
        using 1(1) shorter b(2,4) 1(3) by auto
      with dec lp b(1,3) show ?thesis by (auto simp: pv_loop_agrees_def split: option.splits)
    qed
  qed
qed

lemma strtok_acc_first:
  "cur \<noteq> [] \<Longrightarrow> \<exists>t \<in> set (strtok_acc d cur cs). length cur \<le> length t"
proof (induction cs arbitrary: cur)
  case (Cons c cs)
  show ?case
  proof (cases "d c")
    case False
    from Cons.IH [of "cur @ [c]"] obtain t where
      "t \<in> set (strtok_acc d (cur @ [c]) cs)" "length (cur @ [c]) \<le> length t" by auto
    with False show ?thesis by (auto intro!: bexI [of _ t])
  qed (use Cons.prems in auto)
qed auto

definition pv_finish :: "cstring list \<times> cstring \<Rightarrow> cstring list option" where
  "pv_finish r = (case r of (segs, seg) \<Rightarrow> if pv_seg_bad segs seg then None else Some (pv_seg_result segs seg))"

definition pv_segs_ok :: "cstring list \<Rightarrow> cstring list \<Rightarrow> bool" where
  "pv_segs_ok segs toks \<longleftrightarrow> [dot, dot] \<notin> set toks \<and> (\<forall>t \<in> set toks. length t \<le> MAX_SEGMENT_LEN)
     \<and> length segs + length (filter (\<lambda>t. t \<noteq> [dot]) toks) \<le> MAX_SEGMENTS"

lemma pv_run_tokens:
  "length segs \<le> MAX_SEGMENTS \<Longrightarrow> length seg \<le> MAX_SEGMENT_LEN \<Longrightarrow>
   Option.bind (pv_run segs seg ds) pv_finish =
     (let toks = strtok_acc (\<lambda>c. c = slash) seg ds in
      if pv_segs_ok segs toks then Some (segs @ filter (\<lambda>t. t \<noteq> [dot]) toks) else None)"
proof (induction ds arbitrary: segs seg)
  case Nil
  then show ?case by (auto simp: pv_finish_def pv_seg_bad_def pv_seg_result_def pv_segs_ok_def Let_def)
next
  case (Cons c ds)
  consider "c = slash" "seg = []" | "c = slash" "seg \<noteq> []" | "c \<noteq> slash" "length seg < MAX_SEGMENT_LEN"
    | "c \<noteq> slash" "length seg = MAX_SEGMENT_LEN" using Cons.prems by linarith
  then show ?case
  proof cases
    case 1
    with Cons show ?thesis by (simp add: pv_seg_bad_def pv_seg_result_def)
  next
    case 2
    show ?thesis
    proof (cases "pv_seg_bad segs seg")
      case True
      with 2 Cons.prems show ?thesis
        by (auto simp: pv_seg_bad_def pv_seg_result_def pv_segs_ok_def Let_def split: if_splits)
    next
      case False
      with 2 Cons.IH [of "pv_seg_result segs seg" "[]"] Cons.prems show ?thesis
        by (auto simp: pv_seg_bad_def pv_seg_result_def pv_segs_ok_def Let_def split: if_splits)
    qed
  next
    case 3
    with Cons.IH [of segs "seg @ [c]"] Cons.prems show ?thesis by simp
  next
    case 4
    obtain t where "t \<in> set (strtok_acc (\<lambda>c. c = slash) (seg @ [c]) ds)" "length (seg @ [c]) \<le> length t"
      using strtok_acc_first [of "seg @ [c]"] by auto
    moreover from this(2) 4 have "\<not> length t \<le> MAX_SEGMENT_LEN" by simp
    ultimately have "\<not> pv_segs_ok segs (strtok_acc (\<lambda>c. c = slash) (seg @ [c]) ds)"
      unfolding pv_segs_ok_def by blast
    with 4 show ?thesis by (simp add: Let_def)
  qed
qed

text \<open>The end of \<^verbatim>\<open>validate\<close>: the last segment, the trailing slash, the root.\<close>

definition pv_tail :: "pv_state \<Rightarrow> cstring option" where
  "pv_tail st = (case pv_end_segment st of None \<Rightarrow> None
     | Some st1 \<Rightarrow> let out = pv_out st1 in
         Some (if length out > 1 \<and> out ! (length out - 1) = slash then butlast out else out))"

lemma pv_tail_spec:
  assumes "pv_rep st segs seg"
  shows "pv_tail st = map_option pv_join (pv_finish (segs, seg))"
proof -
  have o: "pv_out st = concat (map ((#) slash) segs) @ slash # seg" "length segs \<le> MAX_SEGMENTS"
    using assms by (auto simp: pv_rep_def)
  note e = pv_end_segment_spec [OF assms] and l = pv_rep_last [OF assms]
  consider "seg = []" | "seg = [dot]" | "seg = [dot, dot]" | "seg \<noteq> []" "seg \<noteq> [dot]" "seg \<noteq> [dot, dot]" by blast
  then show ?thesis
  proof cases
    case 1
    with o l show ?thesis
      by (auto simp: pv_tail_def e pv_finish_def pv_seg_bad_def pv_seg_result_def pv_join_def butlast_append Let_def)
  next
    case 2
    with o show ?thesis
      by (auto simp: pv_tail_def e pv_finish_def pv_seg_bad_def pv_seg_result_def pv_join_def butlast_append Let_def)
  next
    case 3
    then show ?thesis by (simp add: pv_tail_def e pv_finish_def pv_seg_bad_def)
  next
    case 4
    then have "last seg \<noteq> slash" using assms last_in_set [OF 4(1)] by (metis pv_rep_def)
    with 4 o l show ?thesis
      by (auto simp: pv_tail_def e pv_finish_def pv_seg_bad_def pv_seg_result_def pv_join_def Let_def)
  qed
qed

lemma pv_join_not_Nil [simp]: "pv_join segs \<noteq> []"
  by (cases segs) (simp_all add: pv_join_def)

lemma pv_decode_slash: "pv_decode (slash # s) = map_option ((#) slash) (pv_decode s)"
  by (simp add: pv_decode.simps [of "slash # s"] pv_allowed_def ch_def)

lemma validate_pv_spec:
  assumes "MAX_PATH_LEN < out_size"
  shows "PathValidator_validate (Some raw) out_size = pv_spec raw"
proof (cases "raw = [] \<or> length raw > MAX_PATH_LEN \<or> hd raw \<noteq> slash")
  case True
  with assms show ?thesis by (auto simp: PathValidator_validate_def pv_spec_def)
next
  case False
  then obtain s where raw: "raw = slash # s" and len: "length s < MAX_PATH_LEN" by (cases raw) auto
  let ?st = "\<lparr>pv_out = [slash], pv_seg_count = 0, pv_seg_len = 0\<rparr>"
  have first: "pv_loop out_size \<lparr>pv_out = [], pv_seg_count = 0, pv_seg_len = 0\<rparr> raw = pv_loop out_size ?st s"
    using raw assms by (simp add: pv_loop.simps [of _ _ "slash # s"] pv_allowed_def ch_def pv_byte_def pv_end_segment_def)
  have "pv_loop_agrees out_size ?st [] [] s"
    using len assms by (intro pv_loop_run) (auto simp: pv_rep_def)
  note agree = this [unfolded pv_loop_agrees_def]
  have val: "PathValidator_validate (Some raw) out_size =
      (case pv_loop out_size ?st s of None \<Rightarrow> None
       | Some st \<Rightarrow> (case pv_tail st of None \<Rightarrow> None
           | Some out \<Rightarrow> if out = [] then (if rule_02_check_utf8 [slash] then Some [slash] else None)
                       else if rule_02_check_utf8 out then Some out else None))"
    using False raw first assms
    by (simp add: PathValidator_validate_def pv_tail_def Let_def split: option.split)
  show ?thesis
  proof (cases "pv_decode s")
    case None
    with agree val raw False show ?thesis by (simp add: pv_spec_def pv_decode_slash)
  next
    case (Some ds)
    have toks: "pv_tokens (slash # ds) = strtok_acc (\<lambda>c. c = slash) [] ds"
      by (simp add: pv_tokens_def strtok_def)
    have run: "Option.bind (pv_run [] [] ds) pv_finish =
      (if pv_tokens_ok (pv_tokens (slash # ds))
       then Some (filter (\<lambda>t. t \<noteq> [dot]) (pv_tokens (slash # ds))) else None)"
      unfolding toks using pv_run_tokens [of "[]" "[]" ds] by (simp add: pv_segs_ok_def pv_tokens_ok_def Let_def)
    have spec: "pv_spec raw = (case Option.bind (pv_run [] [] ds) pv_finish of None \<Rightarrow> None
        | Some segs \<Rightarrow> if rule_02_check_utf8 (pv_join segs) then Some (pv_join segs) else None)"
      unfolding run using raw False Some by (simp add: pv_spec_def pv_decode_slash Let_def)
    show ?thesis
    proof (cases "pv_run [] [] ds")
      case None
      with agree Some val spec show ?thesis by simp
    next
      case (Some r)
      obtain segs seg where r: "r = (segs, seg)" by force
      with agree Some \<open>pv_decode s = Some ds\<close> obtain st' where
        st': "pv_loop out_size ?st s = Some st'" "pv_rep st' segs seg" by auto
      with val spec Some r pv_tail_spec [OF st'(2)] show ?thesis
        by (simp split: option.split)
    qed
  qed
qed

section \<open>The output is canonical\<close>

definition pv_seg_canonical :: "cstring \<Rightarrow> bool" where
  "pv_seg_canonical t \<longleftrightarrow> t \<noteq> [] \<and> t \<noteq> [dot] \<and> t \<noteq> [dot, dot] \<and> length t \<le> MAX_SEGMENT_LEN
     \<and> (\<forall>c \<in> set t. c \<noteq> slash \<and> pv_allowed c False)"

lemma pv_allowed_not_encoded: "pv_allowed c True \<Longrightarrow> pv_allowed c False"
  by (simp add: pv_allowed_def split: if_splits)

lemma pv_allowed_not_percent: "pv_allowed c False \<Longrightarrow> c \<noteq> ch CHR ''%''"
  by (auto simp: pv_allowed_def ch_def Let_def)

lemma pv_decode_allowed: "pv_decode s = Some ds \<Longrightarrow> (\<forall>c \<in> set ds. pv_allowed c False) \<and> length ds \<le> length s"
proof (induction s arbitrary: ds rule: length_induct)
  case (1 s)
  show ?case
  proof (cases "s = []")
    case True
    with 1 show ?thesis by (simp add: pv_decode.simps)
  next
    case False
    have "\<exists>k c ds'. 0 < k \<and> k \<le> length s \<and> ds = c # ds' \<and> pv_allowed c False \<and> pv_decode (drop k s) = Some ds'"
    proof (cases "hd s = ch CHR ''%''")
      case True
      with 1(2) False show ?thesis
        by - (rule exI [of _ 3], auto simp: pv_decode.simps [of s] pv_allowed_not_encoded split: if_splits option.splits)
    next
      case no: False
      with 1(2) False show ?thesis
        by - (rule exI [of _ 1], auto simp: pv_decode.simps [of s] Suc_le_eq split: if_splits option.splits)
    qed
    then obtain k c ds' where k: "0 < k" "k \<le> length s" "ds = c # ds'" "pv_allowed c False"
      "pv_decode (drop k s) = Some ds'" by blast
    then have "(\<forall>c \<in> set ds'. pv_allowed c False) \<and> length ds' \<le> length (drop k s)"
      using 1(1) [rule_format, of "drop k s" ds'] False by simp
    with k show ?thesis by auto
  qed
qed

lemma pv_decode_id: "\<forall>c \<in> set s. pv_allowed c False \<Longrightarrow> pv_decode s = Some s"
proof (induction s)
  case Nil
  then show ?case by (simp add: pv_decode.simps)
next
  case (Cons c s)
  then have "c \<noteq> ch CHR ''%''" "pv_allowed c False" using pv_allowed_not_percent by auto
  with Cons show ?case by (simp add: pv_decode.simps [of "c # s"])
qed

lemma pv_spec_canonical:
  assumes "pv_spec raw = Some out"
  obtains segs where "out = pv_join segs" "length segs \<le> MAX_SEGMENTS" "\<forall>t \<in> set segs. pv_seg_canonical t"
    "rule_02_check_utf8 out" "length out \<le> MAX_PATH_LEN"
proof -
  from assms obtain ds where ds: "pv_decode raw = Some ds" and raw: "raw \<noteq> []" "length raw \<le> MAX_PATH_LEN"
    "hd raw = slash" and ok: "pv_tokens_ok (pv_tokens ds)"
    and out: "out = pv_join (filter (\<lambda>t. t \<noteq> [dot]) (pv_tokens ds))" "rule_02_check_utf8 out"
    by (auto simp: pv_spec_def Let_def split: if_splits option.splits)
  let ?segs = "filter (\<lambda>t. t \<noteq> [dot]) (pv_tokens ds)"
  have al: "\<forall>c \<in> set ds. pv_allowed c False" "length ds \<le> length raw" using pv_decode_allowed [OF ds] by auto
  have can: "\<forall>t \<in> set ?segs. pv_seg_canonical t"
  proof
    fix t assume t: "t \<in> set ?segs"
    then have "t \<noteq> [] \<and> (\<forall>c \<in> set t. c \<noteq> slash) \<and> set t \<subseteq> set ds"
      using strtok_tokens [of t "\<lambda>c. c = slash" ds] by (simp add: pv_tokens_def)
    with t ok al show "pv_seg_canonical t" by (auto simp: pv_seg_canonical_def pv_tokens_ok_def)
  qed
  obtain s where "raw = slash # s" using raw by (cases raw) auto
  then obtain ds' where d: "ds = slash # ds'" using ds by (auto simp: pv_decode_slash)
  have mono: "length (concat (map ((#) b) (filter P ts))) \<le> length (concat (map ((#) b) ts))" for b P ts
    by (induction ts) auto
  have "length (concat (map ((#) slash) ?segs)) \<le> length ds"
    using mono [of slash _ "pv_tokens ds"] strtok_acc_length [of slash "\<lambda>c. c = slash" "[]" ds'] d
    by (simp add: pv_tokens_def strtok_def) (meson le_trans)
  then have "length out \<le> MAX_PATH_LEN" using out(1) al(2) raw(2) d by (auto simp: pv_join_def)
  with that [of ?segs] out ok can show ?thesis by (simp add: pv_tokens_ok_def)
qed

lemma pv_join_tokens:
  assumes "\<forall>t \<in> set segs. pv_seg_canonical t"
  shows "pv_tokens (pv_join segs) = segs"
proof (cases "segs = []")
  case True
  then show ?thesis by (simp add: pv_join_def pv_tokens_def strtok_def)
next
  case False
  with assms strtok_join [of "\<lambda>c. c = slash" slash segs] show ?thesis
    by (auto simp: pv_join_def pv_tokens_def pv_seg_canonical_def)
qed

lemma pv_spec_join:
  assumes "\<forall>t \<in> set segs. pv_seg_canonical t" and "length segs \<le> MAX_SEGMENTS"
    and "rule_02_check_utf8 (pv_join segs)" and "length (pv_join segs) \<le> MAX_PATH_LEN"
  shows "pv_spec (pv_join segs) = Some (pv_join segs)"
proof -
  have sl: "pv_allowed slash False" by (simp add: pv_allowed_def ch_def)
  have al: "\<forall>c \<in> set (pv_join segs). pv_allowed c False"
    using assms(1) sl by (auto simp: pv_join_def pv_seg_canonical_def)
  have hd: "hd (pv_join segs) = slash" by (cases segs) (simp_all add: pv_join_def)
  have flt: "filter (\<lambda>t. t \<noteq> [dot]) segs = segs" using assms(1) by (auto simp: pv_seg_canonical_def)
  have "pv_tokens_ok segs" using assms(1,2) flt by (auto simp: pv_tokens_ok_def pv_seg_canonical_def)
  with pv_decode_id [OF al] pv_join_tokens [OF assms(1)] flt assms hd show ?thesis
    by (simp add: pv_spec_def Let_def)
qed

lemma pv_byte_bound: "length (pv_out st) < n \<Longrightarrow> pv_byte n st c = Some st' \<Longrightarrow> length (pv_out st') < n"
  by (auto simp: pv_byte_def pv_end_segment_def Let_def split: if_splits)

lemma pv_loop_bound: "length (pv_out st) < n \<Longrightarrow> pv_loop n st s = Some st' \<Longrightarrow> length (pv_out st') < n"
proof (induction s arbitrary: st rule: length_induct)
  case (1 s)
  show ?case
  proof (cases "s = []")
    case True
    with 1 show ?thesis by (simp add: pv_loop.simps)
  next
    case False
    with 1(3) obtain c st1 k where b: "pv_byte n st c = Some st1" "pv_loop n st1 (drop k s) = Some st'" "0 < k"
      by (auto simp: pv_loop.simps [of n st s] Let_def split: if_splits option.splits)
    have "length (drop k s) < length s" using False b(3) by simp
    with 1(1) pv_byte_bound [OF 1(2) b(1)] b(2) show ?thesis by blast
  qed
qed

section \<open>What the UTF-8 check accepts\<close>

lemma utf8_lead:
  "b AND 0xE0 = 0xC0 \<longleftrightarrow> 192 \<le> unat b \<and> unat b < 224"
  "b AND 0xF0 = 0xE0 \<longleftrightarrow> 224 \<le> unat b \<and> unat b < 240"
  "b AND 0xF8 = 0xF0 \<longleftrightarrow> 240 \<le> unat b \<and> unat b < 248"
  "b AND 0xC0 = 0x80 \<longleftrightarrow> 128 \<le> unat b \<and> unat b < 192" for b :: byte
proof -
  have m: "(0xE0 :: byte) = push_bit 5 (mask (8 - 5))" "(0xF0 :: byte) = push_bit 4 (mask (8 - 4))"
    "(0xF8 :: byte) = push_bit 3 (mask (8 - 3))" "(0xC0 :: byte) = push_bit 6 (mask (8 - 6))"
    by (simp_all add: mask_eq_exp_minus_1 push_bit_eq_mult)
  show "b AND 0xE0 = 0xC0 \<longleftrightarrow> 192 \<le> unat b \<and> unat b < 224"
    using mask_high [OF _ m(1), of b] by (auto simp: byte_eq_nat)
  show "b AND 0xF0 = 0xE0 \<longleftrightarrow> 224 \<le> unat b \<and> unat b < 240"
    using mask_high [OF _ m(2), of b] by (auto simp: byte_eq_nat)
  show "b AND 0xF8 = 0xF0 \<longleftrightarrow> 240 \<le> unat b \<and> unat b < 248"
    using mask_high [OF _ m(3), of b] by (auto simp: byte_eq_nat)
  show "b AND 0xC0 = 0x80 \<longleftrightarrow> 128 \<le> unat b \<and> unat b < 192"
    using mask_high [OF _ m(4), of b] by (auto simp: byte_eq_nat)
qed

text \<open>The generalised UTF-8 encoding of a number below \<open>2 ^ 21\<close>, six bits per continuation byte.\<close>

definition utf8_encode :: "nat \<Rightarrow> byte list" where
  "utf8_encode cp =
     (if cp < 0x80 then [of_nat cp]
      else if cp < 0x800 then [of_nat (0xC0 + cp div 64), of_nat (0x80 + cp mod 64)]
      else if cp < 0x10000
      then [of_nat (0xE0 + cp div 64 div 64), of_nat (0x80 + cp div 64 mod 64), of_nat (0x80 + cp mod 64)]
      else [of_nat (0xF0 + cp div 64 div 64 div 64), of_nat (0x80 + cp div 64 div 64 mod 64),
            of_nat (0x80 + cp div 64 mod 64), of_nat (0x80 + cp mod 64)])"

definition utf8_accepted :: "nat \<Rightarrow> bool" where
  "utf8_accepted cp \<longleftrightarrow> 0 < cp \<and>
     (cp < 0xD800 \<or> 0xE000 \<le> cp \<and> cp < 0x110000 \<or> 0x140000 \<le> cp \<and> cp < 0x200000)"

lemmas utf8_arith = utf8_lead word_less_nat_alt word_le_nat_alt

lemma of_nat_offset:
  "k + n < 256 \<Longrightarrow> unat (of_nat (k + n) :: byte) = k + n"
  by (simp add: unat_of_nat del: of_nat_add)

lemma utf8_step_1:
  assumes "0 < a" "a < 0x80"
  shows "utf8_encode a = [of_nat a]" "rule_02_check_utf8 (of_nat a # r) = rule_02_check_utf8 r"
  using assms by (simp_all add: utf8_encode_def rule_02_check_utf8.simps [of "of_nat a # r"] c_at_def utf8_arith unat_of_nat)

text \<open>A multi-byte sequence, given by the numbers its bytes carry.\<close>

lemma utf8_check_2:
  assumes "unat a = 0xC0 + x" "unat b = 0x80 + y" "x < 32" "y < 64"
  shows "rule_02_check_utf8 (a # b # r) \<longleftrightarrow> 2 \<le> x \<and> rule_02_check_utf8 r"
  using assms by (auto simp: rule_02_check_utf8.simps [of "a # b # r"] c_at_def utf8_arith)

lemma utf8_check_3:
  assumes "unat a = 0xE0 + x" "unat b = 0x80 + y" "unat c = 0x80 + z" "x < 16" "y < 64" "z < 64"
  shows "rule_02_check_utf8 (a # b # c # r) \<longleftrightarrow>
    \<not> (x = 0 \<and> y < 32) \<and> \<not> (x = 13 \<and> 32 \<le> y) \<and> rule_02_check_utf8 r"
proof -
  have lead: "a AND 0xE0 \<noteq> 0xC0" "a AND 0xF0 = 0xE0" "b AND 0xC0 = 0x80" "c AND 0xC0 = 0x80"
    "\<not> a < 0x80" "b < 0xA0 \<longleftrightarrow> y < 32" "0xA0 \<le> b \<longleftrightarrow> 32 \<le> y"
    using assms by (simp_all add: utf8_arith)
  have "a = 0xE0 \<longleftrightarrow> x = 0" "a = 0xED \<longleftrightarrow> x = 13" using assms by (simp_all add: byte_eq_nat)
  with lead show ?thesis by (auto simp: rule_02_check_utf8.simps [of "a # b # c # r"] c_at_def)
qed

lemma utf8_check_4:
  assumes "unat a = 0xF0 + w" "unat b = 0x80 + x" "unat c = 0x80 + y" "unat d = 0x80 + z"
    "w < 8" "x < 64" "y < 64" "z < 64"
  shows "rule_02_check_utf8 (a # b # c # d # r) \<longleftrightarrow>
    \<not> (w = 0 \<and> x < 16) \<and> \<not> (w = 4 \<and> 16 \<le> x) \<and> rule_02_check_utf8 r"
proof -
  have lead: "a AND 0xE0 \<noteq> 0xC0" "a AND 0xF0 \<noteq> 0xE0" "a AND 0xF8 = 0xF0"
    "b AND 0xC0 = 0x80" "c AND 0xC0 = 0x80" "d AND 0xC0 = 0x80"
    "\<not> a < 0x80" "b < 0x90 \<longleftrightarrow> x < 16" "0x90 \<le> b \<longleftrightarrow> 16 \<le> x"
    using assms by (simp_all add: utf8_arith)
  have "a = 0xF0 \<longleftrightarrow> w = 0" "a = 0xF4 \<longleftrightarrow> w = 4" using assms by (simp_all add: byte_eq_nat)
  with lead show ?thesis by (auto simp: rule_02_check_utf8.simps [of "a # b # c # d # r"] c_at_def)
qed

lemma horner: "z < 64 \<Longrightarrow> (64 * q + z) div 64 = q" "z < 64 \<Longrightarrow> (64 * q + z) mod 64 = z" for z q :: nat
  by simp_all

lemma utf8_encode_2:
  assumes "unat a = 0xC0 + x" "unat b = 0x80 + y" "x < 32" "y < 64" "2 \<le> x"
  shows "utf8_encode (64 * x + y) = [a, b]" and "utf8_accepted (64 * x + y)"
  using assms by (auto simp: utf8_encode_def byte_eq_nat of_nat_offset utf8_accepted_def simp del: of_nat_add)

lemma utf8_encode_3:
  assumes "unat a = 0xE0 + x" "unat b = 0x80 + y" "unat c = 0x80 + z" "x < 16" "y < 64" "z < 64"
    "\<not> (x = 0 \<and> y < 32)" "\<not> (x = 13 \<and> 32 \<le> y)" and cp: "cp = 64 * q + z" "q = 64 * x + y"
  shows "utf8_encode cp = [a, b, c]" and "utf8_accepted cp"
proof -
  have flat: "cp = 4096 * x + 64 * y + z" using cp by simp
  have "(0x800 \<le> cp \<and> cp < 0xD800) \<or> (0xE000 \<le> cp \<and> cp < 0x10000)"
  proof (cases "14 \<le> x")
    case True
    have "0xE000 \<le> cp" "cp < 0x10000" unfolding flat using True assms(4-6) by linarith+
    then show ?thesis by simp
  next
    case False
    have "32 \<le> y \<or> 1 \<le> x" using assms(7) by auto
    then have "0x800 \<le> cp" unfolding flat by (elim disjE) linarith+
    moreover have "x \<le> 12 \<or> x = 13 \<and> y \<le> 31" using False assms(8) by auto
    then have "cp < 0xD800" unfolding flat using assms(5,6) by (elim disjE conjE) linarith+
    ultimately show ?thesis by simp
  qed
  note range = this
  then show "utf8_accepted cp" unfolding utf8_accepted_def by auto
  have e: "cp div 64 = q" "cp mod 64 = z" "q div 64 = x" "q mod 64 = y"
    using horner [of z q] horner [of y x] assms(5,6) cp by simp_all
  have n: "\<not> cp < 0x80" "\<not> cp < 0x800" "cp < 0x10000" using range by auto
  show "utf8_encode cp = [a, b, c]"
    using assms(1-6) by (simp add: utf8_encode_def e n byte_eq_nat of_nat_offset del: of_nat_add)
qed

lemma utf8_encode_4:
  assumes "unat a = 0xF0 + w" "unat b = 0x80 + x" "unat c = 0x80 + y" "unat d = 0x80 + z"
    "w < 8" "x < 64" "y < 64" "z < 64" "\<not> (w = 0 \<and> x < 16)" "\<not> (w = 4 \<and> 16 \<le> x)"
    and cp: "cp = 64 * q + z" "q = 64 * p + y" "p = 64 * w + x"
  shows "utf8_encode cp = [a, b, c, d]" and "utf8_accepted cp"
proof -
  have flat: "cp = 262144 * w + 4096 * x + 64 * y + z" using cp by simp
  have "(0x10000 \<le> cp \<and> cp < 0x110000) \<or> (0x140000 \<le> cp \<and> cp < 0x200000)"
  proof (cases "5 \<le> w")
    case True
    have "0x140000 \<le> cp" "cp < 0x200000" unfolding flat using True assms(5-8) by linarith+
    then show ?thesis by simp
  next
    case False
    have "16 \<le> x \<or> 1 \<le> w" using assms(9) by auto
    then have "0x10000 \<le> cp" unfolding flat by (elim disjE) linarith+
    moreover have "w \<le> 3 \<or> w = 4 \<and> x \<le> 15" using False assms(10) by auto
    then have "cp < 0x110000" unfolding flat using assms(6-8) by (elim disjE conjE) linarith+
    ultimately show ?thesis by simp
  qed
  note range = this
  then show "utf8_accepted cp" unfolding utf8_accepted_def by auto
  have e: "cp div 64 = q" "cp mod 64 = z" "q div 64 = p" "q mod 64 = y" "p div 64 = w" "p mod 64 = x"
    using horner [of z q] horner [of y p] horner [of x w] assms(6-8) cp by simp_all
  have n: "\<not> cp < 0x80" "\<not> cp < 0x800" "\<not> cp < 0x10000" using range by auto
  show "utf8_encode cp = [a, b, c, d]"
    using assms(1-8) by (simp add: utf8_encode_def e n byte_eq_nat of_nat_offset del: of_nat_add)
qed

lemma utf8_encode_check:
  assumes "utf8_accepted cp"
  shows "rule_02_check_utf8 (utf8_encode cp @ r) = rule_02_check_utf8 r"
proof -
  define z q y p x w where d: "z = cp mod 64" "q = cp div 64" "y = q mod 64" "p = q div 64" "x = p mod 64" "w = p div 64"
  have cp: "cp = 64 * q + z" "q = 64 * p + y" "p = 64 * w + x" and lt: "z < 64" "y < 64" "x < 64"
    by (simp_all add: d)
  note acc = assms [unfolded utf8_accepted_def]
  consider "cp < 0x80" | "0x80 \<le> cp" "cp < 0x800" | "0x800 \<le> cp" "cp < 0x10000" | "0x10000 \<le> cp" by linarith
  then show ?thesis
  proof cases
    case 1
    then show ?thesis using acc utf8_step_1(1) [of cp] utf8_step_1(2) [of cp r] by simp
  next
    case 2
    have "2 \<le> q" "q < 32" using 2 cp lt by linarith+
    then show ?thesis
      using 2 lt utf8_check_2 [of "of_nat (0xC0 + q)" q "of_nat (0x80 + z)" z r]
      by (simp add: utf8_encode_def of_nat_offset d(1,2) [symmetric] del: of_nat_add)
  next
    case 3
    have "p < 16" "p = 0 \<Longrightarrow> 32 \<le> y" using 3 cp lt by linarith+
    moreover have "p = 13 \<Longrightarrow> y < 32" using acc 3 cp lt by linarith
    ultimately show ?thesis
      using 3 lt utf8_check_3 [of "of_nat (0xE0 + p)" p "of_nat (0x80 + y)" y "of_nat (0x80 + z)" z r]
      by (simp add: utf8_encode_def of_nat_offset d(1-4) [symmetric] del: of_nat_add) linarith
  next
    case 4
    have "w < 8" using 4 cp lt acc by linarith
    moreover have "w = 0 \<Longrightarrow> 16 \<le> x" using 4 cp lt by linarith
    moreover have "w = 4 \<Longrightarrow> x < 16" using acc 4 cp lt by linarith
    ultimately show ?thesis
      using 4 lt utf8_check_4 [of "of_nat (0xF0 + w)" w "of_nat (0x80 + x)" x "of_nat (0x80 + y)" y "of_nat (0x80 + z)" z r]
      by (simp add: utf8_encode_def of_nat_offset d [symmetric] del: of_nat_add) linarith
  qed
qed

lemma cont_byte:
  assumes "c_at s k AND 0xC0 = 0x80"
  shows "k < length s" and "\<exists>y. unat (s ! k) = 0x80 + y \<and> y < 64"
proof -
  have r: "128 \<le> unat (c_at s k) \<and> unat (c_at s k) < 192" using assms by (simp add: utf8_lead)
  then show "k < length s" by (cases "k < length s") (auto simp: c_at_def)
  with r show "\<exists>y. unat (s ! k) = 0x80 + y \<and> y < 64"
    by (intro exI [of _ "unat (s ! k) - 0x80"]) (auto simp: c_at_def)
qed

lemma utf8_check_decode:
  assumes "rule_02_check_utf8 s" and "s \<noteq> []" and "0 \<notin> set s"
  shows "\<exists>cp r. utf8_accepted cp \<and> s = utf8_encode cp @ r \<and> rule_02_check_utf8 r"
proof -
  obtain a s1 where s: "s = a # s1" using assms(2) by (cases s) auto
  have a0: "0 < unat a" using assms(3) s by (simp add: unat_gt_0)
  note ck = assms(1) [unfolded rule_02_check_utf8.simps [of s]]
  consider "a < 0x80" | "\<not> a < 0x80" "a AND 0xE0 = 0xC0" "c_at s 1 AND 0xC0 = 0x80"
    | "\<not> a < 0x80" "a AND 0xE0 \<noteq> 0xC0" "a AND 0xF0 = 0xE0" "c_at s 1 AND 0xC0 = 0x80" "c_at s 2 AND 0xC0 = 0x80"
    | "\<not> a < 0x80" "a AND 0xE0 \<noteq> 0xC0" "a AND 0xF0 \<noteq> 0xE0" "a AND 0xF8 = 0xF0"
      "c_at s 1 AND 0xC0 = 0x80" "c_at s 2 AND 0xC0 = 0x80" "c_at s 3 AND 0xC0 = 0x80"
    using ck s by (auto simp: c_at_def split: if_splits)
  then show ?thesis
  proof cases
    case 1
    then have "unat a < 128" by (simp add: word_less_nat_alt)
    with a0 s assms(1) utf8_step_1(1) [of "unat a"] utf8_step_1(2) [of "unat a" s1] show ?thesis
      by (intro exI [of _ "unat a"] exI [of _ s1]) (simp add: utf8_accepted_def)
  next
    case 2
    note c1 = cont_byte [OF 2(3)]
    from c1(1) s obtain b r where r: "s = a # b # r" by (cases s1) auto
    obtain y where y: "unat b = 0x80 + y" "y < 64" using c1(2) r by auto
    have "unat a = 0xC0 + (unat a - 0xC0)" "unat a - 0xC0 < 32" using 2(2) by (auto simp: utf8_lead)
    then obtain x where x: "unat a = 0xC0 + x" "x < 32" by blast
    have "2 \<le> x" "rule_02_check_utf8 r"
      using utf8_check_2 [OF x(1) y(1) x(2) y(2), of r] assms(1) r by auto
    with utf8_encode_2 [OF x(1) y(1) x(2) y(2)] r show ?thesis
      by (intro exI [of _ "64 * x + y"] exI [of _ r]) auto
  next
    case 3
    note c1 = cont_byte [OF 3(4)] and c2 = cont_byte [OF 3(5)]
    from c2(1) s obtain b c r where r: "s = a # b # c # r" by (cases s1; cases "tl s1") auto
    obtain y where y: "unat b = 0x80 + y" "y < 64" using c1(2) r by auto
    obtain z where z: "unat c = 0x80 + z" "z < 64" using c2(2) r by auto
    have "unat a = 0xE0 + (unat a - 0xE0)" "unat a - 0xE0 < 16" using 3(3) by (auto simp: utf8_lead)
    then obtain x where x: "unat a = 0xE0 + x" "x < 16" by blast
    have "\<not> (x = 0 \<and> y < 32)" "\<not> (x = 13 \<and> 32 \<le> y)" "rule_02_check_utf8 r"
      using utf8_check_3 [OF x(1) y(1) z(1) x(2) y(2) z(2), of r] assms(1) r by auto
    with utf8_encode_3 [OF x(1) y(1) z(1) x(2) y(2) z(2) _ _ refl refl] r show ?thesis by auto
  next
    case 4
    note c1 = cont_byte [OF 4(5)] and c2 = cont_byte [OF 4(6)] and c3 = cont_byte [OF 4(7)]
    from c3(1) s obtain b c d r where r: "s = a # b # c # d # r"
      by (cases s1; cases "tl s1"; cases "tl (tl s1)") auto
    obtain x where x: "unat b = 0x80 + x" "x < 64" using c1(2) r by auto
    obtain y where y: "unat c = 0x80 + y" "y < 64" using c2(2) r by auto
    obtain z where z: "unat d = 0x80 + z" "z < 64" using c3(2) r by auto
    have "unat a = 0xF0 + (unat a - 0xF0)" "unat a - 0xF0 < 8" using 4(4) by (auto simp: utf8_lead)
    then obtain w where w: "unat a = 0xF0 + w" "w < 8" by blast
    have "\<not> (w = 0 \<and> x < 16)" "\<not> (w = 4 \<and> 16 \<le> x)" "rule_02_check_utf8 r"
      using utf8_check_4 [OF w(1) x(1) y(1) z(1) w(2) x(2) y(2) z(2), of r] assms(1) r by auto
    with utf8_encode_4 [OF w(1) x(1) y(1) z(1) w(2) x(2) y(2) z(2) _ _ refl refl refl] r show ?thesis by auto
  qed
qed

section \<open>Properties\<close>

text \<open>(C29) The one-pass validator computes the reference on whole segments: with the buffer the router
  passes it accepts a path exactly when the path is absolute and short enough, every byte (decoded
  once) is allowed, no segment is \<^verbatim>\<open>..\<close> or too long and there are at most 100 segments, and its result
  is the join of the non-empty segments other than \<^verbatim>\<open>.\<close>.\<close>

theorem PathValidator_refines_segments:
  assumes "MAX_PATH_LEN < out_size"
  shows "PathValidator_validate (Some raw) out_size = pv_spec raw"
  by (rule validate_pv_spec [OF assms])

theorem PathValidator_refines_segments_witness:
  "PathValidator_validate (Some (lit ''//a/./%62'')) 2049 = pv_spec (lit ''//a/./%62'')"
  by (rule PathValidator_refines_segments) simp

text \<open>(C3) An accepted path is canonical and stable: it starts with a slash, its segments are non-empty,
  at most 255 bytes, none is \<^verbatim>\<open>.\<close> or \<^verbatim>\<open>..\<close> and none contains a control, reserved or encoded
  character; and validating it again returns it unchanged.\<close>

theorem PathValidator_canonical:
  assumes "MAX_PATH_LEN < out_size" and "PathValidator_validate (Some raw) out_size = Some out"
  shows "(\<exists>segs. out = pv_join segs \<and> length segs \<le> MAX_SEGMENTS \<and> (\<forall>t \<in> set segs. pv_seg_canonical t))
    \<and> PathValidator_validate (Some out) out_size = Some out"
proof -
  from assms have "pv_spec raw = Some out" by (simp add: validate_pv_spec)
  then obtain segs where s: "out = pv_join segs" "length segs \<le> MAX_SEGMENTS" "\<forall>t \<in> set segs. pv_seg_canonical t"
    "rule_02_check_utf8 out" "length out \<le> MAX_PATH_LEN" by (rule pv_spec_canonical)
  have "PathValidator_validate (Some out) out_size = Some out"
    using pv_spec_join [OF s(3,2)] s validate_pv_spec [OF assms(1)] by simp
  with s show ?thesis by blast
qed

lemma demo_path: "pv_spec (lit ''/a/../b'') = None" "pv_spec (lit ''//a/./%62'') = Some (lit ''/a/b'')"
proof -
  show "pv_spec (lit ''/a/../b'') = None"
    by (simp add: pv_spec_def lit_def pv_decode.simps pv_allowed_def ch_def pv_tokens_def strtok_def pv_tokens_ok_def Let_def)
  have "pv_decode (lit ''//a/./%62'') = Some (lit ''//a/./b'')"
    by (simp add: lit_def pv_decode.simps pv_allowed_def ch_def isxdigit_def hex_val_def strtol16_def isspace_def Let_def)
  moreover have "rule_02_check_utf8 (lit ''/a/b'')"
    by (simp add: lit_def rule_02_check_utf8.simps c_at_def)
  ultimately show "pv_spec (lit ''//a/./%62'') = Some (lit ''/a/b'')"
    by (simp add: pv_spec_def lit_def pv_tokens_def strtok_def pv_tokens_ok_def pv_join_def Let_def)
qed

theorem PathValidator_canonical_witness:
  "PathValidator_validate (Some (lit ''/a/b'')) 2049 = Some (lit ''/a/b'')"
  using PathValidator_canonical [of 2049 "lit ''//a/./%62''" "lit ''/a/b''"] demo_path(2)
  by (simp add: validate_pv_spec)

text \<open>The validator never writes past the caller's buffer, whatever its size: an accepted result
  and its terminating NUL fit.\<close>

theorem PathValidator_fits_buffer:
  assumes "PathValidator_validate (Some raw) out_size = Some out"
  shows "length out < out_size"
proof -
  let ?st0 = "\<lparr>pv_out = [], pv_seg_count = 0, pv_seg_len = 0\<rparr>"
  have pos: "length (pv_out ?st0) < out_size" using assms by (auto simp: PathValidator_validate_def split: if_splits)
  show ?thesis
    using assms pv_loop_bound [OF pos, of raw]
    by (fastforce simp: PathValidator_validate_def pv_end_segment_def Let_def split: if_splits option.splits)
qed

theorem PathValidator_fits_buffer_witness:
  "length (lit ''/a/b'') < 2049"
proof -
  have "PathValidator_validate (Some (lit ''//a/./%62'')) 2049 = Some (lit ''/a/b'')"
    using demo_path(2) by (simp add: validate_pv_spec)
  then show ?thesis by (rule PathValidator_fits_buffer)
qed

text \<open>The UTF-8 rule accepts exactly the concatenations of encodings of Unicode scalar values other
  than NUL and, beyond Unicode, of the numbers from 0x140000 to 0x1FFFFF (lead bytes 0xF5 to 0xF7,
  for which it has no test): overlong forms, surrogates and truncated sequences are refused.\<close>

theorem utf8_check_exact:
  assumes "0 \<notin> set s"
  shows "rule_02_check_utf8 s \<longleftrightarrow> (\<exists>cps. s = concat (map utf8_encode cps) \<and> (\<forall>cp \<in> set cps. utf8_accepted cp))"
proof
  show "rule_02_check_utf8 s" if "\<exists>cps. s = concat (map utf8_encode cps) \<and> (\<forall>cp \<in> set cps. utf8_accepted cp)"
  proof -
    have "\<forall>cp \<in> set cps. utf8_accepted cp \<Longrightarrow> rule_02_check_utf8 (concat (map utf8_encode cps))" for cps
      by (induction cps) (simp_all add: utf8_encode_check, simp add: rule_02_check_utf8.simps)
    with that show ?thesis by blast
  qed
  show "\<exists>cps. s = concat (map utf8_encode cps) \<and> (\<forall>cp \<in> set cps. utf8_accepted cp)" if "rule_02_check_utf8 s"
    using that assms
  proof (induction s rule: length_induct)
    case (1 s)
    show ?case
    proof (cases "s = []")
      case True
      then show ?thesis by (intro exI [of _ "[]"]) simp
    next
      case False
      obtain cp r where c: "utf8_accepted cp" "s = utf8_encode cp @ r" "rule_02_check_utf8 r"
        using utf8_check_decode [OF 1(2) False 1(3)] by blast
      have "utf8_encode cp \<noteq> []" by (simp add: utf8_encode_def)
      then have "length r < length s" using c(2) by simp
      with 1(1) [rule_format, of r] 1(3) c obtain cps where
        "r = concat (map utf8_encode cps)" "\<forall>cp \<in> set cps. utf8_accepted cp" by auto
      with c show ?thesis by (intro exI [of _ "cp # cps"]) simp
    qed
  qed
qed

theorem utf8_check_exact_witness:
  "rule_02_check_utf8 [0xF5, 0x80, 0x80, 0x80] \<longleftrightarrow>
     (\<exists>cps. [0xF5, 0x80, 0x80, 0x80] = concat (map utf8_encode cps) \<and> (\<forall>cp \<in> set cps. utf8_accepted cp))"
  by (rule utf8_check_exact) simp

text \<open>A request path with the byte sequence F5 80 80 80, which is not UTF-8, passes validation.\<close>

theorem PathValidator_accepts_beyond_unicode:
  "PathValidator_validate (Some (slash # [0xF5, 0x80, 0x80, 0x80])) 2049 = Some (slash # [0xF5, 0x80, 0x80, 0x80])"
proof -
  let ?t = "[0xF5, 0x80, 0x80, 0x80] :: byte list"
  have "pv_seg_canonical ?t" by (simp add: pv_seg_canonical_def pv_allowed_def ch_def)
  moreover have "rule_02_check_utf8 (slash # ?t)"
    by (simp add: rule_02_check_utf8.simps c_at_def)
  ultimately have "pv_spec (pv_join [?t]) = Some (pv_join [?t])"
    by (intro pv_spec_join) (simp_all add: pv_join_def)
  then show ?thesis by (simp add: validate_pv_spec pv_join_def)
qed

end
