(* ===== verification/Json_Value.thy ===== *)
theory Json_Value
  imports Hash_Map Path_Validator
begin

text \<open>
  \<^verbatim>\<open>src/src/json.c\<close>: JSON values, the recursive descent parser with its error positions, the printer with its
  own string buffer, structural equality and the \<^verbatim>\<open>JSONNode\<close> wrapper.
  \<^item> A value is the tree its objects form: \<^verbatim>\<open>JsonValue\<close> leaves, \<^verbatim>\<open>ArrayList\<close> and \<^verbatim>\<open>HashMap\<close> containers (the
    latter with the buckets of \<open>Hash_Map\<close>, so the order of the printed members is the code's) and wrapped
    nodes. Every parsed object has one owner, its container, so the tree is the whole state; the
    identity shortcut of \<^verbatim>\<open>impl_json_equals\<close> is not visible on trees.
  \<^item> A \<^verbatim>\<open>double\<close> is an abstract value; what the code uses of the C library on it (the value of a numeric
    token, \<^verbatim>\<open>%g\<close>, comparison, conversion to int) is the record \<open>fp\<close>. Which characters \<^verbatim>\<open>strtod\<close> consumes is
    modelled in full by \<open>strtod_len\<close>.
  \<^item> The parse position is the rest of the text. The answers of the successive allocations are the list
    \<open>jc_mem\<close>; when it is used up they succeed.
  \<^item> The parser takes fuel; \<open>None\<close> is its exhaustion, which \<open>Json_Roundtrip\<close> shows not to happen.
\<close>

section \<open>Values\<close>

datatype 'd jobj = J_NULL | J_BOOL bool | J_NUMBER 'd | J_STRING "byte list"
  | J_LIST "'d jobj list" | J_MAP "(cstring \<times> 'd jobj) list list" | J_NODE "'d jobj"

record 'd fp =
  fp_value :: "cstring \<Rightarrow> 'd \<times> bool"
  fp_zero :: "'d \<Rightarrow> bool"
  fp_infnan :: "'d \<Rightarrow> bool"
  fp_g :: "'d \<Rightarrow> cstring"
  fp_eq :: "'d \<Rightarrow> 'd \<Rightarrow> bool"
  fp_int :: "'d \<Rightarrow> int"

text \<open>\<open>fp_value\<close> is what \<^verbatim>\<open>strtod\<close> makes of the characters it consumes, and whether it sets \<^verbatim>\<open>ERANGE\<close>.\<close>

abbreviation MAX_JSON_DEPTH :: int where "MAX_JSON_DEPTH \<equiv> 64"

section \<open>The parse context\<close>

record jctx =
  jc_start :: cstring
  jc_ptr :: cstring
  jc_depth :: int
  jc_error :: "(nat \<times> nat \<times> cstring) option"
  jc_mem :: "bool list"

fun line_col :: "nat \<Rightarrow> nat \<Rightarrow> cstring \<Rightarrow> nat \<times> nat" where
  "line_col line col [] = (line, col)"
| "line_col line col (c # cs) = (if c = 10 then line_col (line + 1) 1 cs else line_col line (col + 1) cs)"

text \<open>\<^verbatim>\<open>report_error\<close> keeps the first error, at the position the pointer has.\<close>

definition report_error :: "jctx \<Rightarrow> string \<Rightarrow> jctx" where
  "report_error ctx msg =
     (if jc_error ctx \<noteq> None then ctx
      else let pre = take (length (jc_start ctx) - length (jc_ptr ctx)) (jc_start ctx);
               (line, col) = line_col 1 1 pre
           in ctx\<lparr>jc_error := Some (line, col, lit msg)\<rparr>)"

text \<open>One allocation.\<close>

definition jalloc :: "jctx \<Rightarrow> bool \<times> jctx" where
  "jalloc ctx = (case jc_mem ctx of [] \<Rightarrow> (True, ctx) | b # bs \<Rightarrow> (b, ctx\<lparr>jc_mem := bs\<rparr>))"

definition skip_ws :: "jctx \<Rightarrow> jctx" where
  "skip_ws ctx = ctx\<lparr>jc_ptr := dropWhile isspace (jc_ptr ctx)\<rparr>"

abbreviation advance :: "nat \<Rightarrow> jctx \<Rightarrow> jctx" where
  "advance n ctx \<equiv> ctx\<lparr>jc_ptr := drop n (jc_ptr ctx)\<rparr>"

definition is_valid_boundary :: "byte \<Rightarrow> bool" where
  "is_valid_boundary c \<longleftrightarrow> isspace c \<or> c = 44 \<or> c = 125 \<or> c = 93 \<or> c = 0"

section \<open>Strings\<close>

definition hex_to_int :: "byte \<Rightarrow> nat option" where
  "hex_to_int c = (if 48 \<le> c \<and> c \<le> 57 then Some (unat c - 48)
     else if 97 \<le> c \<and> c \<le> 102 then Some (unat c - 97 + 10)
     else if 65 \<le> c \<and> c \<le> 70 then Some (unat c - 65 + 10) else None)"

text \<open>The first loop of \<^verbatim>\<open>parse_string_raw\<close>: the text between the quotes and what follows the closing one,
  or where the scan stops.\<close>

datatype string_scan = Scan_ok cstring cstring | Scan_control cstring | Scan_open

fun scan_end :: "cstring \<Rightarrow> cstring \<Rightarrow> string_scan" where
  "scan_end acc [] = Scan_open"
| "scan_end acc (c # cs) =
     (if c = 34 then Scan_ok acc cs
      else if c = 92 \<and> cs \<noteq> [] then scan_end (acc @ [c, hd cs]) (tl cs)
      else if c \<le> 0x1F then Scan_control (c # cs)
      else scan_end (acc @ [c]) cs)"

text \<open>The four hexadecimal digits of an escape: the code unit, or nothing, and the position reached.\<close>

fun hex4 :: "nat \<Rightarrow> nat \<Rightarrow> cstring \<Rightarrow> nat option \<times> cstring" where
  "hex4 0 cp src = (Some cp, src)"
| "hex4 (Suc k) cp [] = (None, [])"
| "hex4 (Suc k) cp (c # src) =
     (case hex_to_int c of None \<Rightarrow> (None, c # src) | Some h \<Rightarrow> hex4 k (cp * 16 + h) src)"

text \<open>A \<^verbatim>\<open>\u\<close> escape, a surrogate pair being two of them; an error carries the position and the message.\<close>

definition unicode_escape :: "cstring \<Rightarrow> (cstring \<times> string) + (nat \<times> cstring)" where
  "unicode_escape src =
     (case hex4 4 0 src of
        (None, s) \<Rightarrow> Inl (s, ''Invalid unicode escape!'')
      | (Some cp, s) \<Rightarrow>
          if 0xD800 \<le> cp \<and> cp \<le> 0xDBFF then
            (if length s > 5 \<and> s ! 0 = 92 \<and> s ! 1 = 117 then
               (case hex4 4 0 (drop 2 s) of
                  (None, s2) \<Rightarrow> Inl (s2, ''Invalid low surrogate pair!'')
                | (Some cp2, s2) \<Rightarrow>
                    if 0xDC00 \<le> cp2 \<and> cp2 \<le> 0xDFFF
                    then Inr (0x10000 + ((cp - 0xD800) * 1024 + (cp2 - 0xDC00)), s2)
                    else Inl (s2, ''Invalid low surrogate pair!''))
             else Inl (s, ''Missing low surrogate pair!''))
          else if 0xDC00 \<le> cp \<and> cp \<le> 0xDFFF then Inl (s, ''Isolated low surrogate!'')
          else Inr (cp, s))"

text \<open>The bytes of a code point; the operands of every \<^verbatim>\<open>|\<close> have no bit in common.\<close>

definition put_utf8 :: "nat \<Rightarrow> byte list" where
  "put_utf8 cp =
     (if cp \<le> 0x7F then [of_nat cp]
      else if cp \<le> 0x7FF then [0xC0 OR of_nat (cp div 2 ^ 6), 0x80 OR (of_nat cp AND 0x3F)]
      else if cp \<le> 0xFFFF
      then [0xE0 OR of_nat (cp div 2 ^ 12), 0x80 OR (of_nat (cp div 2 ^ 6) AND 0x3F), 0x80 OR (of_nat cp AND 0x3F)]
      else [0xF0 OR of_nat (cp div 2 ^ 18), 0x80 OR (of_nat (cp div 2 ^ 12) AND 0x3F),
            0x80 OR (of_nat (cp div 2 ^ 6) AND 0x3F), 0x80 OR (of_nat cp AND 0x3F)])"

definition unescape :: "byte \<Rightarrow> byte" where
  "unescape c = (if c = 98 then 8 else if c = 102 then 12 else if c = 110 then 10
                 else if c = 114 then 13 else if c = 116 then 9 else c)"

text \<open>The checks on a byte above 0x7F; the result is the length of its sequence.\<close>

definition utf8_sequence :: "cstring \<Rightarrow> string + nat" where
  "utf8_sequence src =
     (let byte1 = hd src; byte2 = c_at src 1; more = (length src > 1);
          rest = (\<lambda>n. if n > length src then Inl ''Incomplete UTF-8 sequence!''
                      else if \<exists>b \<in> set (take (n - 1) (tl src)). b AND 0xC0 \<noteq> 0x80
                      then Inl ''Invalid UTF-8 continuation byte!'' else Inr n)
      in if byte1 AND 0xE0 = 0xC0 then
           (if more \<and> (byte1 = 0xC0 \<or> byte1 = 0xC1) then Inl ''Overlong UTF-8 sequence detected!'' else rest 2)
         else if byte1 AND 0xF0 = 0xE0 then
           (if more \<and> byte1 = 0xE0 \<and> byte2 < 0xA0 then Inl ''Overlong UTF-8 sequence detected!''
            else if more \<and> byte1 = 0xED \<and> byte2 \<ge> 0xA0 then Inl ''UTF-16 surrogate directly encoded in UTF-8!''
            else rest 3)
         else if byte1 AND 0xF8 = 0xF0 then
           (if byte1 > 0xF4 then Inl ''UTF-8 sequence exceeds U+10FFFF!''
            else if more \<and> byte1 = 0xF0 \<and> byte2 < 0x90 then Inl ''Overlong UTF-8 sequence detected!''
            else if more \<and> byte1 = 0xF4 \<and> byte2 \<ge> 0x90 then Inl ''UTF-8 sequence exceeds U+10FFFF!''
            else rest 4)
         else Inl ''Invalid UTF-8 starting byte!'')"

text \<open>The second loop: decoding. \<open>dst\<close> are the bytes written. A backslash in last place would read the closing
  quote behind the text.\<close>

lemma hex4_length: "length (snd (hex4 k cp src)) \<le> length src"
  by (induction k cp src rule: hex4.induct) (auto split: option.splits)

lemma unicode_escape_length: "unicode_escape src = Inr (cp, s) \<Longrightarrow> length s \<le> length src"
  using hex4_length [of 4 0 src] hex4_length [of 4 0 "drop 2 (snd (hex4 4 0 src))"]
  by (auto simp: unicode_escape_def split: prod.splits option.splits if_splits)

lemma unicode_escape_shorter: "src \<noteq> [] \<Longrightarrow> unicode_escape (drop 2 src) = Inr (cp, s) \<Longrightarrow> length s < length src"
  using unicode_escape_length [of "drop 2 src" cp s] by (cases src) auto

lemma utf8_sequence_pos: "utf8_sequence src = Inr n \<Longrightarrow> 2 \<le> n \<and> n \<le> 4 \<and> n \<le> length src"
  by (auto simp: utf8_sequence_def Let_def split: if_splits)

function decode_string :: "cstring \<Rightarrow> cstring \<Rightarrow> (cstring \<times> string) + cstring" where
  "decode_string dst src =
     (if src = [] then Inr dst
      else if hd src = 92 then
        (if c_at src 1 = 117 then
           (case unicode_escape (drop 2 src) of
              Inl e \<Rightarrow> Inl e
            | Inr (cp, s) \<Rightarrow> decode_string (dst @ put_utf8 cp) s)
         else decode_string (dst @ [unescape (if length src > 1 then src ! 1 else 34)]) (drop 2 src))
      else if hd src \<ge> 0x80 then
        (case utf8_sequence src of
           Inl msg \<Rightarrow> Inl (src, msg)
         | Inr n \<Rightarrow> decode_string (dst @ take n src) (drop n src))
      else decode_string (dst @ [hd src]) (tl src))"
  by pat_completeness auto
termination
  by (relation "measure (\<lambda>(dst, src). length src)")
    (auto dest: utf8_sequence_pos intro: unicode_escape_shorter)

declare decode_string.simps [simp del]

text \<open>\<^verbatim>\<open>parse_string_raw\<close>, called at an opening quote: the bytes of the string, or nothing.\<close>

definition parse_string_raw :: "jctx \<Rightarrow> cstring option \<times> jctx" where
  "parse_string_raw ctx =
     (case scan_end [] (drop 1 (jc_ptr ctx)) of
        Scan_control end_ptr \<Rightarrow>
          (None, report_error (ctx\<lparr>jc_ptr := end_ptr\<rparr>) ''Unescaped control character in string!'')
      | Scan_open \<Rightarrow> (None, report_error (ctx\<lparr>jc_ptr := []\<rparr>) ''Unterminated string!'')
      | Scan_ok body rest \<Rightarrow>
          (case jalloc ctx of
             (False, ctx1) \<Rightarrow>
               (None, report_error (ctx1\<lparr>jc_ptr := rest\<rparr>) ''OOM in parse_string_raw buffer allocation!'')
           | (True, ctx1) \<Rightarrow>
               (case decode_string [] body of
                  Inl (src, msg) \<Rightarrow> (None, report_error (ctx1\<lparr>jc_ptr := src @ 34 # rest\<rparr>) msg)
                | Inr str \<Rightarrow> (Some str, ctx1\<lparr>jc_ptr := rest\<rparr>))))"

section \<open>Numbers\<close>

abbreviation isdigit :: "byte \<Rightarrow> bool" where "isdigit c \<equiv> 48 \<le> c \<and> c \<le> 57"

text \<open>How many characters \<^verbatim>\<open>strtod\<close> consumes: a sign, then \<^verbatim>\<open>inf\<close>, \<^verbatim>\<open>infinity\<close>, \<^verbatim>\<open>nan\<close> with optional parentheses,
  a hexadecimal or a decimal floating constant; 0 when there is no number.\<close>

definition lower :: "byte \<Rightarrow> byte" where
  "lower c = (if 65 \<le> c \<and> c \<le> 90 then c + 32 else c)"

definition starts_ci :: "string \<Rightarrow> cstring \<Rightarrow> bool" where
  "starts_ci w s \<longleftrightarrow> map lower (take (length w) s) = lit w"

definition float_len :: "(byte \<Rightarrow> bool) \<Rightarrow> byte \<Rightarrow> cstring \<Rightarrow> nat" where
  "float_len digit expo s =
     (let d1 = length (takeWhile digit s);
          s1 = drop d1 s;
          d2 = (if c_at s1 0 = 46 then length (takeWhile digit (drop 1 s1)) else 0);
          point = (c_at s1 0 = 46 \<and> d1 + d2 > 0);
          m = d1 + (if point then 1 + d2 else 0);
          s2 = drop m s;
          sg = (if c_at s2 1 = 43 \<or> c_at s2 1 = 45 then 1 else 0);
          x = length (takeWhile isdigit (drop (1 + sg) s2))
      in if m = 0 then 0
         else if lower (c_at s2 0) = expo \<and> x > 0 then m + 1 + sg + x else m)"

definition strtod_len :: "cstring \<Rightarrow> nat" where
  "strtod_len s =
     (let sg = (if c_at s 0 = 43 \<or> c_at s 0 = 45 then 1 else 0); t = drop sg s;
          word = takeWhile (\<lambda>c. isdigit c \<or> 97 \<le> lower c \<and> lower c \<le> 122 \<or> c = 95) (drop 4 t);
          n = (if starts_ci ''infinity'' t then 8
               else if starts_ci ''inf'' t then 3
               else if starts_ci ''nan'' t then
                 (if c_at t 3 = 40 \<and> c_at t (4 + length word) = 41 then 5 + length word else 3)
               else if starts_ci ''0x'' t \<and> float_len (\<lambda>c. hex_val c \<noteq> None) 112 (drop 2 t) > 0
               then 2 + float_len (\<lambda>c. hex_val c \<noteq> None) 112 (drop 2 t)
               else float_len isdigit 101 t)
      in if n = 0 then 0 else sg + n)"

text \<open>The check of the first decimal point in the token.\<close>

definition bad_point :: "cstring \<Rightarrow> bool" where
  "bad_point tok = (let r = dropWhile (\<lambda>c. c \<noteq> 46) tok in r \<noteq> [] \<and> \<not> (length r > 1 \<and> isdigit (r ! 1)))"

definition bad_exponent :: "cstring \<Rightarrow> bool" where
  "bad_exponent tok =
     (let z = last tok; y = (if length tok > 1 then tok ! (length tok - 2) else 0)
      in z = 101 \<or> z = 69 \<or> (z = 43 \<or> z = 45) \<and> (y = 101 \<or> y = 69))"

definition parse_number :: "'d fp \<Rightarrow> jctx \<Rightarrow> 'd jobj option \<times> jctx" where
  "parse_number F ctx =
     (let s = jc_ptr ctx; st = (if c_at s 0 = 45 then 1 else 0); n = strtod_len s; tok = take n s;
          (d, erange) = fp_value F tok
      in if c_at s st = 48 \<and> isdigit (c_at s (st + 1))
         then (None, report_error ctx ''Leading zero not allowed in JSON number!'')
         else if n = 0 then (None, report_error ctx ''Invalid number!'')
         else if bad_point tok then (None, report_error ctx ''Decimal point without digit!'')
         else if erange \<and> \<not> fp_zero F d then (None, report_error ctx ''Number out of range (Overflow)!'')
         else if fp_infnan F d then (None, report_error ctx ''Number out of range (Infinity/NaN)!'')
         else if bad_exponent tok then (None, report_error ctx ''Invalid exponent format!'')
         else if \<not> is_valid_boundary (c_at s n)
         then (None, report_error (advance n ctx) ''Invalid boundary after number!'')
         else (case jalloc (advance n ctx) of
                 (False, c1) \<Rightarrow> (None, report_error c1 ''OOM creating JsonValue (number)!'')
               | (True, c1) \<Rightarrow> (Some (J_NUMBER d), c1)))"

section \<open>Containers\<close>

text \<open>\<^verbatim>\<open>map->put\<close> on the 16 buckets of a parsed object (\<^verbatim>\<open>src/src/hashmap.c\<close>): a new node needs memory for itself
  and for its key, and is dropped when there is none.\<close>

definition jmap_put :: "jctx \<Rightarrow> (cstring \<times> 'd jobj) list list \<Rightarrow> cstring \<Rightarrow> 'd jobj \<Rightarrow> (cstring \<times> 'd jobj) list list \<times> jctx" where
  "jmap_put ctx buckets key val =
     (let i = unat (hash_str key) mod length buckets
      in case chain_get key (buckets ! i) of
           Some _ \<Rightarrow> (buckets[i := chain_set key val (buckets ! i)], ctx)
         | None \<Rightarrow>
             (case jalloc ctx of
                (False, c1) \<Rightarrow> (buckets, c1)
              | (True, c1) \<Rightarrow>
                  (case jalloc c1 of
                     (False, c2) \<Rightarrow> (buckets, c2)
                   | (True, c2) \<Rightarrow> (buckets[i := (key, val) # buckets ! i], c2))))"

definition jmap_get :: "(cstring \<times> 'd jobj) list list \<Rightarrow> cstring \<Rightarrow> 'd jobj option" where
  "jmap_get buckets key = chain_get key (buckets ! (unat (hash_str key) mod length buckets))"

text \<open>\<^verbatim>\<open>list->add\<close> (\<^verbatim>\<open>src/src/arraylist.c\<close>): the array grows by doubling; an element that does not fit is dropped.\<close>

definition jlist_add :: "jctx \<Rightarrow> 'd jobj list \<Rightarrow> nat \<Rightarrow> 'd jobj \<Rightarrow> 'd jobj list \<times> nat \<times> jctx" where
  "jlist_add ctx items cap val =
     (if length items + 1 \<le> cap then (items @ [val], cap, ctx)
      else case jalloc ctx of
             (False, c1) \<Rightarrow> (items, cap, c1)
           | (True, c1) \<Rightarrow> (items @ [val], max (cap * 2) (length items + 1), c1))"

text \<open>Two allocations, of a container and of its array.\<close>

definition jalloc2 :: "jctx \<Rightarrow> bool \<times> jctx" where
  "jalloc2 ctx = (case jalloc ctx of (False, c1) \<Rightarrow> (False, c1) | (True, c1) \<Rightarrow> jalloc c1)"

definition jfail :: "jctx \<Rightarrow> 'd jobj option \<times> jctx" where
  "jfail ctx = (None, ctx\<lparr>jc_depth := jc_depth ctx - 1\<rparr>)"

text \<open>The tail of both loops: a comma, then something other than the closing bracket, or the closing bracket.
  The message is the error, if any.\<close>

definition after_item :: "byte \<Rightarrow> string \<Rightarrow> string \<Rightarrow> jctx \<Rightarrow> string option \<times> jctx" where
  "after_item close trailing expected ctx =
     (let c = skip_ws ctx
      in if c_at (jc_ptr c) 0 = 44 then
           (let c1 = skip_ws (advance 1 c)
            in if c_at (jc_ptr c1) 0 = close then (Some trailing, c1) else (None, c1))
         else if c_at (jc_ptr c) 0 \<noteq> close then (Some expected, c) else (None, c))"

section \<open>The parser\<close>

definition json_word :: "string \<Rightarrow> jctx \<Rightarrow> bool" where
  "json_word w ctx \<longleftrightarrow> take (length w) (jc_ptr ctx) = lit w \<and> is_valid_boundary (c_at (jc_ptr ctx) (length w))"

definition json_leaf :: "jctx \<Rightarrow> 'd jobj \<Rightarrow> string \<Rightarrow> 'd jobj option \<times> jctx" where
  "json_leaf ctx v msg =
     (case jalloc ctx of (False, c1) \<Rightarrow> (None, report_error c1 msg) | (True, c1) \<Rightarrow> (Some v, c1))"

definition parse_string_value :: "jctx \<Rightarrow> 'd jobj option \<times> jctx" where
  "parse_string_value ctx =
     (case parse_string_raw ctx of
        (None, c1) \<Rightarrow> (None, c1)
      | (Some s, c1) \<Rightarrow> json_leaf c1 (J_STRING s) ''OOM creating JsonValue (string)!'')"

fun parse_value :: "'d fp \<Rightarrow> nat \<Rightarrow> jctx \<Rightarrow> ('d jobj option \<times> jctx) option"
and parse_object :: "'d fp \<Rightarrow> nat \<Rightarrow> (cstring \<times> 'd jobj) list list \<Rightarrow> jctx \<Rightarrow> ('d jobj option \<times> jctx) option"
and parse_array :: "'d fp \<Rightarrow> nat \<Rightarrow> 'd jobj list \<Rightarrow> nat \<Rightarrow> jctx \<Rightarrow> ('d jobj option \<times> jctx) option" where
  "parse_value F 0 ctx = None"
| "parse_value F (Suc n) ctx =
     (if jc_depth ctx > MAX_JSON_DEPTH then Some (None, report_error ctx ''Depth limit exceeded!'')
      else let ctx = skip_ws ctx; c = c_at (jc_ptr ctx) 0
      in if c = 0 then Some (None, ctx)
         else if c = 34 then Some (parse_string_value ctx)
         else if c = 45 \<or> isdigit c then Some (parse_number F ctx)
         else if c = 123 then
           (case jalloc2 ctx of
              (False, c1) \<Rightarrow> Some (None, report_error c1 ''OOM in Object creation!'')
            | (True, c1) \<Rightarrow> parse_object F n (replicate 16 []) ((advance 1 c1)\<lparr>jc_depth := jc_depth c1 + 1\<rparr>))
         else if c = 91 then
           (case jalloc2 ctx of
              (False, c1) \<Rightarrow> Some (None, report_error c1 ''OOM in Array creation!'')
            | (True, c1) \<Rightarrow> parse_array F n [] 10 ((advance 1 c1)\<lparr>jc_depth := jc_depth c1 + 1\<rparr>))
         else if json_word ''true'' ctx
         then Some (json_leaf (advance 4 ctx) (J_BOOL True) ''OOM creating JsonValue (bool)!'')
         else if json_word ''false'' ctx
         then Some (json_leaf (advance 5 ctx) (J_BOOL False) ''OOM creating JsonValue (bool)!'')
         else if json_word ''null'' ctx
         then Some (json_leaf (advance 4 ctx) J_NULL ''OOM creating JsonValue (null)!'')
         else Some (None, report_error ctx ''Unexpected token!''))"
| "parse_object F 0 buckets ctx = None"
| "parse_object F (Suc n) buckets ctx =
     (if jc_ptr ctx = [] then Some (jfail (report_error ctx ''Unterminated object!''))
      else let c = skip_ws ctx
      in if c_at (jc_ptr c) 0 = 125
         then Some (Some (J_MAP buckets), (advance 1 c)\<lparr>jc_depth := jc_depth c - 1\<rparr>)
         else if c_at (jc_ptr c) 0 \<noteq> 34 then Some (jfail (report_error c ''Expected string key!''))
         else (case parse_string_raw c of
                 (None, c1) \<Rightarrow> Some (jfail c1)
               | (Some key, c1) \<Rightarrow>
                   let c2 = skip_ws c1
                   in if c_at (jc_ptr c2) 0 \<noteq> 58 then Some (jfail (report_error c2 ''Expected ':'!''))
                      else (case parse_value F n (advance 1 c2) of
                              None \<Rightarrow> None
                            | Some (None, c3) \<Rightarrow> Some (jfail c3)
                            | Some (Some val, c3) \<Rightarrow>
                                (case jmap_put c3 buckets (c_str key) val of
                                   (buckets1, c4) \<Rightarrow>
                                     (case after_item 125 ''Trailing comma in object!'' ''Expected ',' or '}'!'' c4 of
                                        (Some msg, c5) \<Rightarrow> Some (jfail (report_error c5 msg))
                                      | (None, c5) \<Rightarrow> parse_object F n buckets1 c5)))))"
| "parse_array F 0 items cap ctx = None"
| "parse_array F (Suc n) items cap ctx =
     (if jc_ptr ctx = [] then Some (jfail (report_error ctx ''Unterminated array!''))
      else let c = skip_ws ctx
      in if c_at (jc_ptr c) 0 = 93
         then Some (Some (J_LIST items), (advance 1 c)\<lparr>jc_depth := jc_depth c - 1\<rparr>)
         else (case parse_value F n c of
                 None \<Rightarrow> None
               | Some (None, c3) \<Rightarrow> Some (jfail c3)
               | Some (Some val, c3) \<Rightarrow>
                   (case jlist_add c3 items cap val of
                      (items1, cap1, c4) \<Rightarrow>
                        (case after_item 93 ''Trailing comma in array!'' ''Expected ',' or ']'!'' c4 of
                           (Some msg, c5) \<Rightarrow> Some (jfail (report_error c5 msg))
                         | (None, c5) \<Rightarrow> parse_array F n items1 cap1 c5))))"

section \<open>The printer\<close>

text \<open>The string buffer of json.c: \<open>jb_text\<close> are the bytes before the terminating NUL.\<close>

record jsb =
  jb_text :: cstring
  jb_capacity :: nat
  jb_failed :: bool
  jb_mem :: "bool list"

definition sb_alloc :: "jsb \<Rightarrow> bool \<times> jsb" where
  "sb_alloc sb = (case jb_mem sb of [] \<Rightarrow> (True, sb) | b # bs \<Rightarrow> (b, sb\<lparr>jb_mem := bs\<rparr>))"

definition sb_init :: "bool list \<Rightarrow> jsb" where
  "sb_init mem =
     (let sb = \<lparr>jb_text = [], jb_capacity = 256, jb_failed = False, jb_mem = mem\<rparr>
      in case sb_alloc sb of (True, sb1) \<Rightarrow> sb1 | (False, sb1) \<Rightarrow> sb1\<lparr>jb_failed := True\<rparr>)"

definition sb_append_char :: "jsb \<Rightarrow> byte \<Rightarrow> jsb" where
  "sb_append_char sb c =
     (if jb_failed sb then sb
      else if length (jb_text sb) + 2 > jb_capacity sb then
        (case sb_alloc sb of
           (False, sb1) \<Rightarrow> sb1\<lparr>jb_failed := True\<rparr>
         | (True, sb1) \<Rightarrow> sb1\<lparr>jb_capacity := jb_capacity sb * 2, jb_text := jb_text sb @ [c]\<rparr>)
      else sb\<lparr>jb_text := jb_text sb @ [c]\<rparr>)"

text \<open>The doubling loop of \<^verbatim>\<open>sb_append\<close>.\<close>

function double_cap :: "nat \<Rightarrow> nat \<Rightarrow> nat" where
  "double_cap need cap = (if 0 < cap \<and> need > cap then double_cap need (cap * 2) else cap)"
  by pat_completeness auto
termination
  by (relation "measure (\<lambda>(need, cap). need - cap)") auto

declare double_cap.simps [simp del]

definition sb_append :: "jsb \<Rightarrow> cstring \<Rightarrow> jsb" where
  "sb_append sb str =
     (if jb_failed sb then sb
      else let need = length (jb_text sb) + length str + 1
      in if need > jb_capacity sb then
           (case sb_alloc sb of
              (False, sb1) \<Rightarrow> sb1\<lparr>jb_failed := True\<rparr>
            | (True, sb1) \<Rightarrow> sb1\<lparr>jb_capacity := double_cap need (jb_capacity sb), jb_text := jb_text sb @ str\<rparr>)
         else sb\<lparr>jb_text := jb_text sb @ str\<rparr>)"

text \<open>The escapes of \<^verbatim>\<open>sb_append_escaped\<close>: a letter after a backslash, or the byte itself.\<close>

definition escape_letter :: "byte \<Rightarrow> byte option" where
  "escape_letter c = (if c = 34 then Some 34 else if c = 92 then Some 92 else if c = 8 then Some 98
     else if c = 12 then Some 102 else if c = 10 then Some 110 else if c = 13 then Some 114
     else if c = 9 then Some 116 else None)"

fun append_escaped_loop :: "jsb \<Rightarrow> cstring \<Rightarrow> jsb" where
  "append_escaped_loop sb [] = sb"
| "append_escaped_loop sb (c # str) =
     append_escaped_loop
       (case escape_letter c of Some l \<Rightarrow> sb_append sb [92, l] | None \<Rightarrow> sb_append_char sb c) str"

definition sb_append_escaped :: "jsb \<Rightarrow> cstring \<Rightarrow> jsb" where
  "sb_append_escaped sb str =
     (if jb_failed sb then sb
      else sb_append_char (append_escaped_loop (sb_append_char sb 34) str) 34)"

definition sb_finish :: "jsb \<Rightarrow> cstring option" where
  "sb_finish sb = (if jb_failed sb then None else Some (jb_text sb))"

text \<open>\<^verbatim>\<open>JsonValue_ToString\<close> into a buffer of \<open>len\<close> bytes.\<close>

fun JsonValue_ToString :: "'d fp \<Rightarrow> nat \<Rightarrow> 'd jobj \<Rightarrow> cstring" where
  "JsonValue_ToString F len (J_STRING s) = snprintf len (34 # c_str s @ [34])"
| "JsonValue_ToString F len (J_NUMBER d) = snprintf len (fp_g F d)"
| "JsonValue_ToString F len (J_BOOL b) = snprintf len (lit (if b then ''true'' else ''false''))"
| "JsonValue_ToString F len J_NULL = snprintf len (lit ''null'')"
| "JsonValue_ToString F len _ = []"

fun stringify_recursive :: "'d fp \<Rightarrow> int \<Rightarrow> 'd jobj \<Rightarrow> jsb \<Rightarrow> jsb"
and stringify_list :: "'d fp \<Rightarrow> int \<Rightarrow> bool \<Rightarrow> 'd jobj list \<Rightarrow> jsb \<Rightarrow> jsb"
and stringify_chain :: "'d fp \<Rightarrow> int \<Rightarrow> bool \<Rightarrow> (cstring \<times> 'd jobj) list \<Rightarrow> jsb \<Rightarrow> jsb"
and stringify_buckets :: "'d fp \<Rightarrow> int \<Rightarrow> bool \<Rightarrow> (cstring \<times> 'd jobj) list list \<Rightarrow> jsb \<Rightarrow> jsb" where
  "stringify_recursive F depth obj sb =
     (if jb_failed sb then sb
      else if depth > MAX_JSON_DEPTH then sb_append sb (lit ''\"#DEPTH_LIMIT_EXCEEDED#\"'')
      else case obj of
        J_STRING s \<Rightarrow> sb_append_escaped sb (c_str s)
      | J_NODE core \<Rightarrow> stringify_recursive F (depth + 1) core sb
      | J_LIST items \<Rightarrow> sb_append_char (stringify_list F depth True items (sb_append_char sb 91)) 93
      | J_MAP buckets \<Rightarrow> sb_append_char (stringify_buckets F depth True buckets (sb_append_char sb 123)) 125
      | _ \<Rightarrow> sb_append sb (JsonValue_ToString F 64 obj))"
| "stringify_list F depth first [] sb = sb"
| "stringify_list F depth first (v # vs) sb =
     stringify_list F depth False vs
       (stringify_recursive F (depth + 1) v (if first then sb else sb_append_char sb 44))"
| "stringify_chain F depth first [] sb = sb"
| "stringify_chain F depth first ((k, v) # nodes) sb =
     stringify_chain F depth False nodes
       (stringify_recursive F (depth + 1) v
          (sb_append_char (sb_append_escaped (if first then sb else sb_append_char sb 44) k) 58))"
| "stringify_buckets F depth first [] sb = sb"
| "stringify_buckets F depth first (b # bs) sb =
     stringify_buckets F depth (first \<and> b = []) bs (stringify_chain F depth first b sb)"

declare stringify_recursive.simps [simp del]

definition impl_stringify :: "'d fp \<Rightarrow> bool list \<Rightarrow> 'd jobj \<Rightarrow> cstring option" where
  "impl_stringify F mem obj = sb_finish (stringify_recursive F 0 obj (sb_init mem))"

section \<open>Equality\<close>

text \<open>\<^verbatim>\<open>impl_json_equals\<close> on two different objects. Wrapped nodes are only equal when they are the same object.\<close>

function impl_json_equals :: "'d fp \<Rightarrow> 'd jobj \<Rightarrow> 'd jobj \<Rightarrow> bool"
and equals_list :: "'d fp \<Rightarrow> 'd jobj list \<Rightarrow> 'd jobj list \<Rightarrow> bool"
and equals_chain :: "'d fp \<Rightarrow> (cstring \<times> 'd jobj) list \<Rightarrow> (cstring \<times> 'd jobj) list list \<Rightarrow> bool"
and equals_buckets :: "'d fp \<Rightarrow> (cstring \<times> 'd jobj) list list \<Rightarrow> (cstring \<times> 'd jobj) list list \<Rightarrow> bool" where
  "impl_json_equals F J_NULL o2 = (o2 = J_NULL)"
| "impl_json_equals F (J_BOOL b) o2 = (case o2 of J_BOOL b2 \<Rightarrow> b = b2 | _ \<Rightarrow> False)"
| "impl_json_equals F (J_NUMBER d) o2 = (case o2 of J_NUMBER d2 \<Rightarrow> fp_eq F d d2 | _ \<Rightarrow> False)"
| "impl_json_equals F (J_STRING s) o2 = (case o2 of J_STRING s2 \<Rightarrow> c_str s = c_str s2 | _ \<Rightarrow> False)"
| "impl_json_equals F (J_LIST l1) o2 =
     (case o2 of J_LIST l2 \<Rightarrow> if length l1 \<noteq> length l2 then False else equals_list F l1 l2 | _ \<Rightarrow> False)"
| "impl_json_equals F (J_MAP m1) o2 =
     (case o2 of
        J_MAP m2 \<Rightarrow> if length (concat m1) \<noteq> length (concat m2) then False else equals_buckets F m1 m2
      | _ \<Rightarrow> False)"
| "impl_json_equals F (J_NODE _) o2 = False"
| "equals_list F [] l2 = True"
| "equals_list F (v # l1) l2 = (if \<not> impl_json_equals F v (hd l2) then False else equals_list F l1 (tl l2))"
| "equals_chain F [] m2 = True"
| "equals_chain F ((k, v) # nodes) m2 =
     (case jmap_get m2 k of
        None \<Rightarrow> False
      | Some val2 \<Rightarrow> if \<not> impl_json_equals F v val2 then False else equals_chain F nodes m2)"
| "equals_buckets F [] m2 = True"
| "equals_buckets F (b # bs) m2 = (if \<not> equals_chain F b m2 then False else equals_buckets F bs m2)"
  by pat_completeness auto
termination
  by (relation "measure (\<lambda>x. case x of
        Inl (Inl (F, a, b)) \<Rightarrow> size a
      | Inl (Inr (F, l, l2)) \<Rightarrow> size_list size l
      | Inr (Inl (F, c, m)) \<Rightarrow> size_list (size_prod (\<lambda>_. 0) size) c
      | Inr (Inr (F, bs, m)) \<Rightarrow> size_list (size_list (size_prod (\<lambda>_. 0) size)) bs)") auto

section \<open>Leaves\<close>

text \<open>The constructors of \<^verbatim>\<open>JsonValue\<close>; \<^verbatim>\<open>new_json_string\<close> copies its argument, a NULL argument being the empty
  string.\<close>

definition new_json_value :: "jctx \<Rightarrow> 'd jobj \<Rightarrow> 'd jobj option \<times> jctx" where
  "new_json_value ctx v = (case jalloc ctx of (False, c1) \<Rightarrow> (None, c1) | (True, c1) \<Rightarrow> (Some v, c1))"

definition new_json_string :: "jctx \<Rightarrow> cstring option \<Rightarrow> 'd jobj option \<times> jctx" where
  "new_json_string ctx s =
     (case new_json_value ctx (J_STRING (case s of None \<Rightarrow> [] | Some str \<Rightarrow> str)) of
        (None, c1) \<Rightarrow> (None, c1)
      | (Some v, c1) \<Rightarrow> new_json_value c1 v)"

definition new_json_string_exact :: "jctx \<Rightarrow> byte list \<Rightarrow> 'd jobj option \<times> jctx" where
  "new_json_string_exact ctx s = new_json_value ctx (J_STRING s)"

definition new_json_number :: "jctx \<Rightarrow> 'd \<Rightarrow> 'd jobj option \<times> jctx" where
  "new_json_number ctx d = new_json_value ctx (J_NUMBER d)"

definition new_json_bool :: "jctx \<Rightarrow> bool \<Rightarrow> 'd jobj option \<times> jctx" where
  "new_json_bool ctx b = new_json_value ctx (J_BOOL b)"

definition new_json_null :: "jctx \<Rightarrow> 'd jobj option \<times> jctx" where
  "new_json_null ctx = new_json_value ctx J_NULL"

definition json_as_value :: "'d jobj \<Rightarrow> 'd jobj option" where
  "json_as_value obj = (case obj of J_LIST _ \<Rightarrow> None | J_MAP _ \<Rightarrow> None | J_NODE _ \<Rightarrow> None | v \<Rightarrow> Some v)"

definition json_as_node :: "'d jobj \<Rightarrow> 'd jobj option" where
  "json_as_node obj = (case obj of J_NODE v \<Rightarrow> Some (J_NODE v) | _ \<Rightarrow> None)"

section \<open>Nodes\<close>

text \<open>A \<^verbatim>\<open>JSONNode\<close>; its core data is never NULL.\<close>

record 'd JSONNode =
  core_data :: "'d jobj"
  is_object_flag :: bool
  is_array_flag :: bool

definition node_isObject :: "'d JSONNode \<Rightarrow> bool" where
  "node_isObject self = is_object_flag self"

definition node_isArray :: "'d JSONNode \<Rightarrow> bool" where
  "node_isArray self = is_array_flag self"

text \<open>Whatever has the object flag holds a map, whatever has the array flag a list; the operations cast
  accordingly. The allocator's answers are those of a context. The array capacity is not kept: \<^verbatim>\<open>add\<close> is
  told whether it finds room or gets it.\<close>

definition node_put :: "jctx \<Rightarrow> 'd JSONNode \<Rightarrow> cstring \<Rightarrow> 'd jobj \<Rightarrow> 'd JSONNode \<times> jctx" where
  "node_put ctx self key val =
     (case core_data self of
        J_MAP buckets \<Rightarrow>
          if is_object_flag self
          then (case jmap_put ctx buckets key val of (b1, c1) \<Rightarrow> (self\<lparr>core_data := J_MAP b1\<rparr>, c1))
          else (self, ctx)
      | _ \<Rightarrow> (self, ctx))"

definition node_get :: "'d JSONNode \<Rightarrow> cstring \<Rightarrow> 'd jobj option" where
  "node_get self key =
     (if is_object_flag self then (case core_data self of J_MAP buckets \<Rightarrow> jmap_get buckets key | _ \<Rightarrow> None) else None)"

definition node_getString :: "'d JSONNode \<Rightarrow> cstring \<Rightarrow> cstring option" where
  "node_getString self key = (case node_get self key of Some (J_STRING s) \<Rightarrow> Some (c_str s) | _ \<Rightarrow> None)"

definition node_getStringLen :: "'d JSONNode \<Rightarrow> cstring \<Rightarrow> byte list option \<times> nat" where
  "node_getStringLen self key = (case node_get self key of Some (J_STRING s) \<Rightarrow> (Some s, length s) | _ \<Rightarrow> (None, 0))"

definition node_getInt :: "'d fp \<Rightarrow> 'd JSONNode \<Rightarrow> cstring \<Rightarrow> int" where
  "node_getInt F self key = (case node_get self key of Some (J_NUMBER d) \<Rightarrow> fp_int F d | _ \<Rightarrow> 0)"

definition node_add :: "bool \<Rightarrow> 'd JSONNode \<Rightarrow> 'd jobj \<Rightarrow> 'd JSONNode" where
  "node_add room self val =
     (if is_array_flag self
      then (case core_data self of J_LIST items \<Rightarrow> if room then self\<lparr>core_data := J_LIST (items @ [val])\<rparr> else self | _ \<Rightarrow> self)
      else self)"

definition node_getIndex :: "'d JSONNode \<Rightarrow> int \<Rightarrow> 'd jobj option" where
  "node_getIndex self index =
     (if is_array_flag self
      then (case core_data self of
              J_LIST items \<Rightarrow> if 0 \<le> index \<and> index < int (length items) then Some (items ! nat index) else None
            | _ \<Rightarrow> None)
      else None)"

definition node_length :: "'d JSONNode \<Rightarrow> nat" where
  "node_length self = (if is_array_flag self then (case core_data self of J_LIST items \<Rightarrow> length items | _ \<Rightarrow> 0) else 0)"

definition node_toString :: "'d fp \<Rightarrow> bool list \<Rightarrow> 'd JSONNode \<Rightarrow> cstring option" where
  "node_toString F mem self = impl_stringify F mem (core_data self)"

definition node_equals :: "'d fp \<Rightarrow> 'd JSONNode \<Rightarrow> 'd JSONNode \<Rightarrow> bool" where
  "node_equals F self other = impl_json_equals F (core_data self) (core_data other)"

definition alloc_JSONNode :: "jctx \<Rightarrow> bool \<Rightarrow> 'd JSONNode option" where
  "alloc_JSONNode ctx is_obj =
     (case jalloc ctx of
        (False, _) \<Rightarrow> None
      | (True, c1) \<Rightarrow>
          (case jalloc2 c1 of
             (False, _) \<Rightarrow> None
           | (True, _) \<Rightarrow> Some \<lparr>core_data = (if is_obj then J_MAP (replicate 16 []) else J_LIST []),
                               is_object_flag = is_obj, is_array_flag = \<not> is_obj\<rparr>))"

definition new_JSON_Object :: "jctx \<Rightarrow> 'd JSONNode option" where
  "new_JSON_Object ctx = alloc_JSONNode ctx True"

definition new_JSON_Array :: "jctx \<Rightarrow> 'd JSONNode option" where
  "new_JSON_Array ctx = alloc_JSONNode ctx False"

section \<open>Entry points\<close>

record 'd ParseResult =
  pr_root :: "'d JSONNode option"
  pr_success :: bool
  pr_error :: cstring

definition json_ctx :: "bool list \<Rightarrow> cstring \<Rightarrow> jctx" where
  "json_ctx mem json_str = \<lparr>jc_start = json_str, jc_ptr = json_str, jc_depth = 0, jc_error = None, jc_mem = mem\<rparr>"

text \<open>Fuel that is always enough.\<close>

definition json_fuel :: "cstring \<Rightarrow> nat" where
  "json_fuel json_str = 2 * length json_str + 1"

definition error_text :: "nat \<times> nat \<times> cstring \<Rightarrow> cstring" where
  "error_text e = (case e of (line, col, msg) \<Rightarrow>
     snprintf 256 (lit ''[Line '' @ format_d (int line) @ lit '', Col '' @ format_d (int col) @ lit ''] '' @ msg))"

definition parse_failed :: "cstring \<Rightarrow> 'd ParseResult" where
  "parse_failed err = \<lparr>pr_root = None, pr_success = False, pr_error = err\<rparr>"

definition parse_JSON :: "'d fp \<Rightarrow> bool list \<Rightarrow> cstring \<Rightarrow> 'd ParseResult option" where
  "parse_JSON F mem json_str =
     (if json_str = [] then Some (parse_failed (lit ''Empty input string.''))
      else case parse_value F (json_fuel json_str) (json_ctx mem json_str) of
        None \<Rightarrow> None
      | Some (parsed, ctx) \<Rightarrow>
          Some (case parsed of
            None \<Rightarrow> parse_failed (case jc_error ctx of None \<Rightarrow> lit ''Empty or whitespace-only JSON.'' | Some e \<Rightarrow> error_text e)
          | Some v \<Rightarrow>
              (case jc_error ctx of
                 Some e \<Rightarrow> parse_failed (error_text e)
               | None \<Rightarrow>
                   let c = skip_ws ctx
                   in if jc_ptr c \<noteq> [] then parse_failed (lit ''Garbage data after root element.'')
                      else (case jalloc c of
                              (False, _) \<Rightarrow> parse_failed (lit ''OOM while allocating root JSONNode.'')
                            | (True, _) \<Rightarrow>
                                \<lparr>pr_root = Some \<lparr>core_data = v, is_object_flag = (case v of J_MAP _ \<Rightarrow> True | _ \<Rightarrow> False),
                                                   is_array_flag = (case v of J_LIST _ \<Rightarrow> True | _ \<Rightarrow> False)\<rparr>,
                                 pr_success = True, pr_error = []\<rparr>))))"

text \<open>\<^verbatim>\<open>JSON.parse\<close> and \<^verbatim>\<open>json_parse\<close>: the first value of the text.\<close>

definition impl_parse :: "'d fp \<Rightarrow> bool list \<Rightarrow> cstring \<Rightarrow> 'd jobj option option" where
  "impl_parse F mem json_str = map_option fst (parse_value F (json_fuel json_str) (json_ctx mem json_str))"

definition new_JSON :: "'d fp \<Rightarrow> bool list \<Rightarrow> cstring option \<Rightarrow> 'd JSONNode option option" where
  "new_JSON F mem json_str_or_null =
     (case json_str_or_null of
        None \<Rightarrow> Some (new_JSON_Object (json_ctx mem []))
      | Some s \<Rightarrow>
          if s = [] then Some (new_JSON_Object (json_ctx mem []))
          else if s = lit ''[]'' then Some (new_JSON_Array (json_ctx mem []))
          else map_option (\<lambda>res. if pr_success res then pr_root res else None) (parse_JSON F mem s))"

definition om_writeValueAsString :: "'d fp \<Rightarrow> bool list \<Rightarrow> 'd jobj option \<Rightarrow> cstring option" where
  "om_writeValueAsString F mem obj =
     (case obj of
        None \<Rightarrow> (case mem of False # _ \<Rightarrow> None | _ \<Rightarrow> Some (lit ''null''))
      | Some (J_NODE core) \<Rightarrow> impl_stringify F mem core
      | Some v \<Rightarrow> impl_stringify F mem v)"

end
