(* ===== verification/Json_Roundtrip.thy ===== *)
theory Json_Roundtrip
  imports Json_Value
begin

text \<open>
  Correctness of the JSON parser and printer of \<open>Json_Value\<close>: the parser always returns, what the printer
  writes is the text of the value and fits its buffer, and parsing that text gives the value back. The only
  trace of the trip is the order of the nodes in the hash chains, which the parser reverses.
\<close>

section \<open>The text of a value\<close>

fun commas :: "cstring list \<Rightarrow> cstring" where
  "commas [] = []"
| "commas [x] = x"
| "commas (x # y # xs) = x @ 44 # commas (y # xs)"

definition esc :: "byte \<Rightarrow> cstring" where
  "esc c = (case escape_letter c of Some l \<Rightarrow> [92, l] | None \<Rightarrow> [c])"

definition json_string :: "cstring \<Rightarrow> cstring" where
  "json_string s = 34 # concat (map esc s) @ [34]"

definition member_text :: "cstring \<times> cstring \<Rightarrow> cstring" where
  "member_text m = json_string (fst m) @ 58 # snd m"

primrec json_text :: "'d fp \<Rightarrow> 'd jobj \<Rightarrow> cstring" where
  "json_text F J_NULL = lit ''null''"
| "json_text F (J_BOOL b) = lit (if b then ''true'' else ''false'')"
| "json_text F (J_NUMBER d) = fp_g F d"
| "json_text F (J_STRING s) = json_string s"
| "json_text F (J_LIST vs) = 91 # commas (map (json_text F) vs) @ [93]"
| "json_text F (J_MAP bs) =
     123 # commas (map member_text (concat (map (map (map_prod id (json_text F))) bs))) @ [125]"
| "json_text F (J_NODE v) = json_text F v"

section \<open>Which values survive\<close>

text \<open>Unicode scalar values other than NUL; the printer escapes five of the control characters.\<close>

definition json_char :: "nat \<Rightarrow> bool" where
  "json_char cp \<longleftrightarrow> (0x20 \<le> cp \<or> cp \<in> {8, 9, 10, 12, 13}) \<and> cp < 0x110000 \<and> \<not> (0xD800 \<le> cp \<and> cp \<le> 0xDFFF)"

definition json_string_ok :: "cstring \<Rightarrow> bool" where
  "json_string_ok s \<longleftrightarrow> (\<exists>cps. (\<forall>cp \<in> set cps. json_char cp) \<and> s = concat (map utf8_encode cps))"

text \<open>A decimal constant as \<^verbatim>\<open>%g\<close> writes finite numbers.\<close>

definition decimal_text :: "cstring \<Rightarrow> bool" where
  "decimal_text t \<longleftrightarrow> (\<exists>sg ip fr ex.
     t = sg @ ip @ fr @ ex \<and> (sg = [] \<or> sg = [45])
     \<and> ip \<noteq> [] \<and> (\<forall>c \<in> set ip. isdigit c) \<and> (hd ip = 48 \<longrightarrow> ip = [48])
     \<and> (fr = [] \<or> (\<exists>ds. fr = 46 # ds \<and> ds \<noteq> [] \<and> (\<forall>c \<in> set ds. isdigit c)))
     \<and> (ex = [] \<or> (\<exists>s ds. ex = 101 # s # ds \<and> (s = 43 \<or> s = 45) \<and> ds \<noteq> [] \<and> (\<forall>c \<in> set ds. isdigit c))))"

text \<open>A number whose \<^verbatim>\<open>%g\<close> text reads back as the same number.\<close>

definition g_readable :: "'d fp \<Rightarrow> 'd \<Rightarrow> bool" where
  "g_readable F d \<longleftrightarrow> decimal_text (fp_g F d) \<and> length (fp_g F d) < 64 \<and> fp_value F (fp_g F d) = (d, False)
     \<and> \<not> fp_infnan F d \<and> fp_eq F d d"

definition json_key_ok :: "cstring \<Rightarrow> bool" where
  "json_key_ok k \<longleftrightarrow> json_string_ok k \<and> hm_key_ok k"

definition buckets_ok :: "(cstring \<times> 'v) list list \<Rightarrow> bool" where
  "buckets_ok bs \<longleftrightarrow> length bs = 16 \<and>
     (\<forall>i < 16. distinct (map fst (bs ! i)) \<and> (\<forall>k \<in> set (map fst (bs ! i)). json_key_ok k \<and> unat (hash_str k) mod 16 = i))"

text \<open>Printable values with at most \<open>n\<close> levels below them.\<close>

primrec json_ok :: "'d fp \<Rightarrow> 'd jobj \<Rightarrow> nat \<Rightarrow> bool" where
  "json_ok F J_NULL = (\<lambda>n. True)"
| "json_ok F (J_BOOL b) = (\<lambda>n. True)"
| "json_ok F (J_NUMBER d) = (\<lambda>n. g_readable F d)"
| "json_ok F (J_STRING s) = (\<lambda>n. json_string_ok s)"
| "json_ok F (J_LIST vs) = (\<lambda>n. \<forall>ok \<in> set (map (json_ok F) vs). 0 < n \<and> ok (n - 1))"
| "json_ok F (J_MAP bs) = (\<lambda>n. buckets_ok bs \<and>
     (\<forall>b \<in> set (map (map (map_prod id (json_ok F))) bs). \<forall>m \<in> set b. 0 < n \<and> snd m (n - 1)))"
| "json_ok F (J_NODE v) = (\<lambda>n. False)"

text \<open>The value with every hash chain reversed.\<close>

primrec flip_chains :: "'d jobj \<Rightarrow> 'd jobj" where
  "flip_chains J_NULL = J_NULL"
| "flip_chains (J_BOOL b) = J_BOOL b"
| "flip_chains (J_NUMBER d) = J_NUMBER d"
| "flip_chains (J_STRING s) = J_STRING s"
| "flip_chains (J_LIST vs) = J_LIST (map flip_chains vs)"
| "flip_chains (J_MAP bs) = J_MAP (map rev (map (map (map_prod id flip_chains)) bs))"
| "flip_chains (J_NODE v) = J_NODE v"

section \<open>The buffer\<close>

abbreviation sb_fits :: "jsb \<Rightarrow> bool" where
  "sb_fits sb \<equiv> length (jb_text sb) < jb_capacity sb"

text \<open>\<open>r\<close> is \<open>sb\<close> with \<open>t\<close> appended, or has run out of memory.\<close>

definition appends :: "jsb \<Rightarrow> cstring \<Rightarrow> jsb \<Rightarrow> bool" where
  "appends sb t r \<longleftrightarrow>
     (if jb_failed sb then jb_failed r
      else sb_fits sb \<longrightarrow>
        (if jb_failed r then False \<in> set (jb_mem sb)
         else jb_text r = jb_text sb @ t \<and> sb_fits r \<and> set (jb_mem r) \<subseteq> set (jb_mem sb)))"

lemma appends_refl [simp]: "appends sb [] sb"
  by (simp add: appends_def)

lemma appends_trans: "appends a t b \<Longrightarrow> appends b u c \<Longrightarrow> w = t @ u \<Longrightarrow> appends a w c"
  by (auto simp: appends_def split: if_splits)

lemma double_cap_enough: "0 < cap \<Longrightarrow> need \<le> double_cap need cap"
  by (induction need cap rule: double_cap.induct) (subst double_cap.simps, simp)

lemma sb_append_char_appends: "appends sb [c] (sb_append_char sb c)"
  by (auto simp: appends_def sb_append_char_def sb_alloc_def split: list.splits bool.splits)

lemma sb_append_appends: "appends sb t (sb_append sb t)"
  using double_cap_enough [of "jb_capacity sb" "Suc (length (jb_text sb) + length t)"]
  by (auto simp: appends_def sb_append_def sb_alloc_def Let_def split: list.splits bool.splits)

lemma append_escaped_loop_appends: "appends sb (concat (map esc s)) (append_escaped_loop sb s)"
proof (induction s arbitrary: sb)
  case (Cons c s)
  have "appends sb (esc c) (case escape_letter c of Some l \<Rightarrow> sb_append sb [92, l] | None \<Rightarrow> sb_append_char sb c)"
    by (auto simp: esc_def sb_append_appends sb_append_char_appends split: option.splits)
  from appends_trans [OF this Cons.IH] show ?case by simp
qed simp

lemma sb_append_escaped_appends: "appends sb (json_string s) (sb_append_escaped sb s)"
proof (cases "jb_failed sb")
  case False
  have "appends sb (json_string s) (sb_append_char (append_escaped_loop (sb_append_char sb 34) s) 34)"
    by (rule appends_trans [OF appends_trans [OF sb_append_char_appends append_escaped_loop_appends refl]
          sb_append_char_appends]) (simp add: json_string_def)
  with False show ?thesis by (simp add: sb_append_escaped_def)
qed (simp add: sb_append_escaped_def appends_def)

section \<open>Strings\<close>

lemma decimal_text_no_nul: "decimal_text t \<Longrightarrow> t \<noteq> []"
  by (auto simp: decimal_text_def)

lemma of_nat_byte_less: "n < 256 \<Longrightarrow> unat (of_nat n :: byte) = n"
  by (simp add: unat_of_nat)

text \<open>The checks pass on a sequence given by the numbers its bytes carry.\<close>

lemma utf8_seq_2:
  assumes "unat a = 0xC0 + x" "unat b = 0x80 + y" "x < 32" "y < 64" "2 \<le> x"
  shows "utf8_sequence (a # b # r) = Inr 2"
proof -
  have "a AND 0xE0 = 0xC0" "b AND 0xC0 = 0x80" using assms by (simp_all add: utf8_arith)
  moreover have "a \<noteq> 0xC0" "a \<noteq> 0xC1" using assms by (simp_all add: byte_eq_nat)
  ultimately show ?thesis by (simp add: utf8_sequence_def Let_def)
qed

lemma utf8_seq_3:
  assumes "unat a = 0xE0 + x" "unat b = 0x80 + y" "unat c = 0x80 + z" "x < 16" "y < 64" "z < 64"
    "\<not> (x = 0 \<and> y < 32)" "\<not> (x = 13 \<and> 32 \<le> y)"
  shows "utf8_sequence (a # b # c # r) = Inr 3"
proof -
  have "a AND 0xE0 \<noteq> 0xC0" "a AND 0xF0 = 0xE0" "b AND 0xC0 = 0x80" "c AND 0xC0 = 0x80"
    "b < 0xA0 \<longleftrightarrow> y < 32" "0xA0 \<le> b \<longleftrightarrow> 32 \<le> y"
    using assms by (simp_all add: utf8_arith)
  moreover have "a = 0xE0 \<longleftrightarrow> x = 0" "a = 0xED \<longleftrightarrow> x = 13" using assms by (simp_all add: byte_eq_nat)
  ultimately show ?thesis using assms(7,8) by (auto simp: utf8_sequence_def Let_def c_at_def numeral_2_eq_2)
qed

lemma utf8_seq_4:
  assumes "unat a = 0xF0 + w" "unat b = 0x80 + x" "unat c = 0x80 + y" "unat d = 0x80 + z"
    "x < 64" "y < 64" "z < 64" "w \<le> 4" "\<not> (w = 0 \<and> x < 16)" "\<not> (w = 4 \<and> 16 \<le> x)"
  shows "utf8_sequence (a # b # c # d # r) = Inr 4"
proof -
  have "a AND 0xE0 \<noteq> 0xC0" "a AND 0xF0 \<noteq> 0xE0" "a AND 0xF8 = 0xF0" "\<not> a > 0xF4"
    "b AND 0xC0 = 0x80" "c AND 0xC0 = 0x80" "d AND 0xC0 = 0x80" "b < 0x90 \<longleftrightarrow> x < 16" "0x90 \<le> b \<longleftrightarrow> 16 \<le> x"
    using assms by (simp_all add: utf8_arith)
  moreover have "a = 0xF0 \<longleftrightarrow> w = 0" "a = 0xF4 \<longleftrightarrow> w = 4" using assms by (simp_all add: byte_eq_nat)
  ultimately show ?thesis using assms(9,10) by (auto simp: utf8_sequence_def Let_def c_at_def numeral_3_eq_3)
qed

text \<open>A character is either one plain or escaped byte, or a checked multi-byte sequence.\<close>

lemma utf8_encode_cases:
  assumes "json_char cp"
  obtains (one) c where "utf8_encode cp = [c]" "c < 0x80" "0x20 \<le> c \<or> c \<in> {8, 9, 10, 12, 13}"
  | (many) "\<forall>b \<in> set (utf8_encode cp). b \<ge> 0x80" "utf8_encode cp \<noteq> []"
      "\<And>rest. utf8_sequence (utf8_encode cp @ rest) = Inr (length (utf8_encode cp))"
proof -
  have u: "unat (of_nat (k + n) :: byte) = k + n" if "k + n < 256" for k n :: nat
    using that by (rule of_nat_offset)
  have s: "cp \<le> 0x10FFFF" "cp < 0xD800 \<or> 0xDFFF < cp" using assms by (auto simp: json_char_def)
  consider "cp < 0x80" | "0x80 \<le> cp" "cp < 0x800" | "0x800 \<le> cp" "cp < 0x10000" | "0x10000 \<le> cp" by linarith
  then show ?thesis
  proof cases
    case 1
    then have "utf8_encode cp = [of_nat cp]" "(of_nat cp :: byte) < 0x80" "unat (of_nat cp :: byte) = cp"
      by (simp_all add: utf8_encode_def word_less_nat_alt of_nat_byte_less)
    moreover have "0x20 \<le> (of_nat cp :: byte) \<or> (of_nat cp :: byte) \<in> {8, 9, 10, 12, 13}"
      using assms 1 by (auto simp: json_char_def word_le_nat_alt of_nat_byte_less)
    ultimately show ?thesis by (intro one) auto
  next
    case 2
    define a b :: byte where "a = of_nat (0xC0 + cp div 64)" and "b = of_nat (0x80 + cp mod 64)"
    have e: "utf8_encode cp = [a, b]" using 2 by (simp add: utf8_encode_def a_def b_def del: of_nat_add)
    have x: "2 \<le> cp div 64" "cp div 64 < 32" using 2 by (simp_all add: less_mult_imp_div_less)
    have ab: "unat a = 0xC0 + cp div 64" "unat b = 0x80 + cp mod 64"
      unfolding a_def b_def by (rule u, use x in simp)+
    show ?thesis
    proof (rule many)
      show "\<forall>b \<in> set (utf8_encode cp). b \<ge> 0x80" using ab by (simp add: e word_le_nat_alt)
      show "utf8_sequence (utf8_encode cp @ rest) = Inr (length (utf8_encode cp))" for rest
        using utf8_seq_2 [OF ab x(2) _ x(1)] by (simp add: e)
    qed (simp add: e)
  next
    case 3
    define x y z where "x = cp div 64 div 64" and "y = cp div 64 mod 64" and "z = cp mod 64"
    define a b c :: byte where "a = of_nat (0xE0 + x)" and "b = of_nat (0x80 + y)" and "c = of_nat (0x80 + z)"
    have e: "utf8_encode cp = [a, b, c]"
      using 3 by (simp add: utf8_encode_def a_def b_def c_def x_def y_def z_def del: of_nat_add)
    have yz: "y < 64" "z < 64" by (simp_all add: y_def z_def)
    have cp: "cp = 4096 * x + 64 * y + z"
      using div_mult_mod_eq [of cp 64] div_mult_mod_eq [of "cp div 64" 64] unfolding x_def y_def z_def by linarith
    have x: "x < 16" using 3 cp by linarith
    have ov: "\<not> (x = 0 \<and> y < 32)" "\<not> (x = 13 \<and> 32 \<le> y)" using 3 s(2) cp yz by auto
    have ab: "unat a = 0xE0 + x" "unat b = 0x80 + y" "unat c = 0x80 + z"
      unfolding a_def b_def c_def by (rule u, use x yz in simp)+
    show ?thesis
    proof (rule many)
      show "\<forall>b \<in> set (utf8_encode cp). b \<ge> 0x80" using ab by (simp add: e word_le_nat_alt)
      show "utf8_sequence (utf8_encode cp @ rest) = Inr (length (utf8_encode cp))" for rest
        using utf8_seq_3 [OF ab x yz ov] by (simp add: e)
    qed (simp add: e)
  next
    case 4
    define w x y z where "w = cp div 64 div 64 div 64" and "x = cp div 64 div 64 mod 64"
      and "y = cp div 64 mod 64" and "z = cp mod 64"
    define a b c d :: byte where "a = of_nat (0xF0 + w)" and "b = of_nat (0x80 + x)" and "c = of_nat (0x80 + y)"
      and "d = of_nat (0x80 + z)"
    have e: "utf8_encode cp = [a, b, c, d]"
      using 4 by (simp add: utf8_encode_def a_def b_def c_def d_def w_def x_def y_def z_def del: of_nat_add)
    have r: "x < 64" "y < 64" "z < 64" by (simp_all add: x_def y_def z_def)
    have cp: "cp = 262144 * w + 4096 * x + 64 * y + z"
      using div_mult_mod_eq [of cp 64] div_mult_mod_eq [of "cp div 64" 64] div_mult_mod_eq [of "cp div 64 div 64" 64]
      unfolding w_def x_def y_def z_def by linarith
    have w: "w \<le> 4" using s(1) cp by linarith
    have ov: "\<not> (w = 0 \<and> x < 16)" "\<not> (w = 4 \<and> 16 \<le> x)" using 4 s(1) cp r by auto
    have ab: "unat a = 0xF0 + w" "unat b = 0x80 + x" "unat c = 0x80 + y" "unat d = 0x80 + z"
      unfolding a_def b_def c_def d_def by (rule u, use w r in simp)+
    show ?thesis
    proof (rule many)
      show "\<forall>b \<in> set (utf8_encode cp). b \<ge> 0x80" using ab by (simp add: e word_le_nat_alt)
      show "utf8_sequence (utf8_encode cp @ rest) = Inr (length (utf8_encode cp))" for rest
        using utf8_seq_4 [OF ab r w ov] by (simp add: e)
    qed (simp add: e)
  qed
qed

lemma json_string_ok_Nil: "json_string_ok []"
  by (auto simp: json_string_ok_def intro: exI [of _ "[]"])

lemma json_string_ok_induct [consumes 1, case_names Nil one many]:
  assumes "json_string_ok s" and "P []"
    and "\<And>c s. json_string_ok s \<Longrightarrow> c < 0x80 \<Longrightarrow> 0x20 \<le> c \<or> c \<in> {8, 9, 10, 12, 13} \<Longrightarrow> P s \<Longrightarrow> P (c # s)"
    and "\<And>u s. json_string_ok s \<Longrightarrow> \<forall>b \<in> set u. b \<ge> 0x80 \<Longrightarrow> u \<noteq> [] \<Longrightarrow>
           (\<And>rest. utf8_sequence (u @ rest) = Inr (length u)) \<Longrightarrow> P s \<Longrightarrow> P (u @ s)"
  shows "P s"
proof -
  from assms(1) obtain cps where "\<forall>cp \<in> set cps. json_char cp" "s = concat (map utf8_encode cps)"
    by (auto simp: json_string_ok_def)
  then show ?thesis
  proof (induction cps arbitrary: s)
    case Nil
    with assms(2) show ?case by simp
  next
    case (Cons cp cps)
    let ?t = "concat (map utf8_encode cps)"
    have ok: "json_string_ok ?t" using Cons.prems(1) by (auto simp: json_string_ok_def)
    have IH: "P ?t" by (rule Cons.IH) (use Cons.prems in auto)
    have "json_char cp" using Cons.prems(1) by simp
    then show ?case
    proof (cases rule: utf8_encode_cases)
      case (one c)
      with assms(3) [OF ok _ _ IH] Cons.prems(2) show ?thesis by simp
    next
      case many
      with assms(4) [OF ok _ _ _ IH] Cons.prems(2) show ?thesis by simp
    qed
  qed
qed

lemma esc_high: "\<forall>b \<in> set u. b \<ge> 0x80 \<Longrightarrow> concat (map esc u) = u"
proof (induction u)
  case (Cons b u)
  then have "escape_letter b = None" by (auto simp: escape_letter_def)
  with Cons show ?case by (simp add: esc_def)
qed simp

lemma scan_end_high: "\<forall>b \<in> set u. b \<ge> 0x80 \<Longrightarrow> scan_end acc (u @ r) = scan_end (acc @ u) r"
proof (induction u arbitrary: acc)
  case (Cons b u)
  then have "b \<noteq> 34" "b \<noteq> 92" "\<not> b \<le> 0x1F" by (auto simp: word_le_nat_alt)
  with Cons show ?case by simp
qed simp

lemma esc_low:
  assumes "c < 0x80" "0x20 \<le> c \<or> c \<in> {8, 9, 10, 12, 13}"
  shows "scan_end acc (esc c @ r) = scan_end (acc @ esc c) r" and "decode_string dst (esc c @ r) = decode_string (dst @ [c]) r"
proof -
  have e: "escape_letter c \<noteq> None \<longleftrightarrow> c \<in> {34, 92, 8, 12, 10, 13, 9}" by (auto simp: escape_letter_def)
  have "\<not> c \<le> 0x1F" if "escape_letter c = None" using that assms(2) e by (auto simp: word_le_nat_alt)
  with e show "scan_end acc (esc c @ r) = scan_end (acc @ esc c) r"
    by (auto simp: esc_def split: option.splits)
  show "decode_string dst (esc c @ r) = decode_string (dst @ [c]) r"
  proof (cases "escape_letter c")
    case None
    with e assms(1) show ?thesis by (auto simp: esc_def decode_string.simps [of dst "c # r"])
  next
    case (Some l)
    with e have "l \<noteq> 117" "unescape l = c" by (auto simp: escape_letter_def unescape_def split: if_splits)
    with Some show ?thesis by (simp add: esc_def decode_string.simps [of dst "92 # l # r"] c_at_def)
  qed
qed

lemma scan_json_string: "json_string_ok s \<Longrightarrow> scan_end acc (concat (map esc s) @ r) = scan_end (acc @ concat (map esc s)) r"
  by (induction s arbitrary: acc rule: json_string_ok_induct) (simp_all add: esc_low esc_high scan_end_high)

lemma decode_json_string: "json_string_ok s \<Longrightarrow> decode_string dst (concat (map esc s)) = Inr (dst @ s)"
proof (induction s arbitrary: dst rule: json_string_ok_induct)
  case Nil
  then show ?case by (simp add: decode_string.simps)
next
  case (one c s)
  then show ?case by (simp add: esc_low)
next
  case (many u s)
  from many(2,3) obtain b v where u: "u = b # v" "b \<ge> 0x80" by (cases u) auto
  then have b: "b \<noteq> 92" by auto
  let ?r = "concat (map esc s)"
  have "decode_string dst (u @ ?r) = decode_string (dst @ take (length u) (u @ ?r)) (drop (length u) (u @ ?r))"
    using many(4) [of ?r] u b by (subst decode_string.simps) simp
  with many(5) show ?case by (simp add: esc_high [OF many(2)])
qed

lemma json_string_ok_no_nul: "json_string_ok s \<Longrightarrow> 0 \<notin> set s"
  by (induction s rule: json_string_ok_induct) auto

lemma c_str_json_string [simp]: "json_string_ok s \<Longrightarrow> c_str s = s"
  by (simp add: json_string_ok_no_nul)

lemma parse_json_string:
  assumes "json_string_ok s" "jc_ptr ctx = json_string s @ rest" "jc_mem ctx = []"
  shows "parse_string_raw ctx = (Some s, ctx\<lparr>jc_ptr := rest\<rparr>)"
  using assms scan_json_string [OF assms(1), of "[]" "34 # rest"] decode_json_string [OF assms(1), of "[]"]
  by (simp add: parse_string_raw_def json_string_def jalloc_def)

section \<open>Numbers\<close>

definition boundary :: "cstring \<Rightarrow> bool" where
  "boundary rest \<longleftrightarrow> rest = [] \<or> hd rest \<in> {44, 93, 125}"

lemma boundary_valid: "boundary rest \<Longrightarrow> is_valid_boundary (c_at rest 0)"
  by (cases rest) (auto simp: boundary_def is_valid_boundary_def c_at_def)

lemma takeWhile_digits:
  "\<forall>c \<in> set ds. P c \<Longrightarrow> r = [] \<or> \<not> P (hd r) \<Longrightarrow> takeWhile P (ds @ r) = ds"
  by (induction ds) (auto simp: takeWhile_eq_Nil_iff)

text \<open>The token of a decimal text is the whole text.\<close>

lemma c_at_append [simp]: "c_at (xs @ ys) (length xs + k) = c_at ys k"
  by (simp add: c_at_def nth_append)

lemma c_at_Cons [simp]: "c_at (x # xs) 0 = x" "c_at (x # xs) (Suc k) = c_at xs k" "c_at [] k = 0"
  by (simp_all add: c_at_def)

lemma boundary_stop:
  "boundary rest \<Longrightarrow> rest = [] \<or> \<not> isdigit (hd rest)"
  "boundary rest \<Longrightarrow> c_at rest 0 \<noteq> 46 \<and> lower (c_at rest 0) \<noteq> 101 \<and> lower (c_at rest 0) \<noteq> 120 \<and> \<not> isdigit (c_at rest 0)"
  by (cases rest; auto simp: boundary_def lower_def)+

lemma float_len_decimal:
  assumes ip: "ip \<noteq> []" "\<forall>c \<in> set ip. isdigit c"
    and fr: "fr = [] \<or> (\<exists>ds. fr = 46 # ds \<and> ds \<noteq> [] \<and> (\<forall>c \<in> set ds. isdigit c))"
    and ex: "ex = [] \<or> (\<exists>s ds. ex = 101 # s # ds \<and> (s = 43 \<or> s = 45) \<and> ds \<noteq> [] \<and> (\<forall>c \<in> set ds. isdigit c))"
    and b: "boundary rest"
  shows "float_len isdigit 101 (ip @ fr @ ex @ rest) = length (ip @ fr @ ex)"
proof -
  have stop_ex: "ex @ rest = [] \<or> \<not> isdigit (hd (ex @ rest))" "c_at (ex @ rest) 0 \<noteq> 46"
    using ex boundary_stop [OF b] by auto
  have "fr @ ex @ rest = [] \<or> \<not> isdigit (hd (fr @ ex @ rest))" using fr stop_ex(1) by auto
  from takeWhile_digits [OF ip(2) this] have d1: "takeWhile isdigit (ip @ fr @ ex @ rest) = ip" .
  have x: "ex = [] \<and> \<not> lower (c_at rest 0) = 101
    \<or> (\<exists>s ds. ex = 101 # s # ds \<and> (s = 43 \<or> s = 45) \<and> ds \<noteq> [] \<and> takeWhile isdigit (ds @ rest) = ds)"
    using ex boundary_stop [OF b] takeWhile_digits [where r = rest and P = isdigit] by blast
  have l: "lower 101 = 101" by (simp add: lower_def)
  show ?thesis
  proof (cases fr)
    case Nil
    with x d1 stop_ex ip(1) l show ?thesis by (auto simp: float_len_def Let_def)
  next
    case (Cons p ds)
    with fr have ds: "p = 46" "ds \<noteq> []" "\<forall>c \<in> set ds. isdigit c" by auto
    have "takeWhile isdigit (ds @ ex @ rest) = ds" by (rule takeWhile_digits [OF ds(3) stop_ex(1)])
    with Cons x d1 ip(1) l ds(1,2) show ?thesis by (auto simp: float_len_def Let_def)
  qed
qed

lemma starts_ci_simps [simp]:
  "starts_ci [] s" "\<not> starts_ci (a # w) []"
  "starts_ci (a # w) (c # s) \<longleftrightarrow> lower c = of_char a \<and> starts_ci w s"
  by (simp_all add: starts_ci_def lit_def)

lemma digit_facts:
  assumes "isdigit c"
  shows "lower c = c" "c \<noteq> 43" "c \<noteq> 45" "c \<noteq> 46" "c \<noteq> 105" "c \<noteq> 110" "c \<noteq> 120" "c \<noteq> 101" "c \<noteq> 69" "c \<noteq> 0" "c \<noteq> 34"
  using assms by (auto simp: lower_def word_le_nat_alt)

lemma strtod_len_decimal:
  assumes "decimal_text t" "boundary rest"
  shows "strtod_len (t @ rest) = length t"
    and "\<not> (c_at (t @ rest) (if c_at (t @ rest) 0 = 45 then 1 else 0) = 48
           \<and> isdigit (c_at (t @ rest) ((if c_at (t @ rest) 0 = 45 then 1 else 0) + 1)))"
    and "c_at (t @ rest) 0 = 45 \<or> isdigit (c_at (t @ rest) 0)"
proof -
  from assms(1) obtain sg ip fr ex where t: "t = sg @ ip @ fr @ ex" and sg: "sg = [] \<or> sg = [45]"
    and ip: "ip \<noteq> []" "\<forall>c \<in> set ip. isdigit c" "hd ip = 48 \<longrightarrow> ip = [48]"
    and fr: "fr = [] \<or> (\<exists>ds. fr = 46 # ds \<and> ds \<noteq> [] \<and> (\<forall>c \<in> set ds. isdigit c))"
    and ex: "ex = [] \<or> (\<exists>s ds. ex = 101 # s # ds \<and> (s = 43 \<or> s = 45) \<and> ds \<noteq> [] \<and> (\<forall>c \<in> set ds. isdigit c))"
    unfolding decimal_text_def by blast
  from ip(1) obtain c cs where cs: "ip = c # cs" by (cases ip) auto
  note c = digit_facts [of c] ip(2) [unfolded cs, simplified]
  let ?u = "ip @ fr @ ex @ rest"
  have fl: "float_len isdigit 101 ?u = length (ip @ fr @ ex)" by (rule float_len_decimal [OF ip(1,2) fr ex assms(2)])
  have nx: "\<not> starts_ci ''0x'' ?u"
  proof
    assume "starts_ci ''0x'' ?u"
    then obtain y ys where y: "cs @ fr @ ex @ rest = y # ys" "lower y = 120"
      by (cases "cs @ fr @ ex @ rest") (auto simp: cs)
    have "cs = []"
      using y c(12) digit_facts by (cases cs) auto
    with y(1) have "c_at (fr @ ex @ rest) 0 = y" by simp
    moreover have "lower 46 = 46" "lower 101 = 101" "lower (c_at rest 0) \<noteq> 120"
      using boundary_stop(2) [OF assms(2)] by (simp_all add: lower_def)
    moreover have "fr = [] \<or> (\<exists>ds. fr = 46 # ds)" "ex = [] \<or> (\<exists>ds. ex = 101 # ds)" using fr ex by blast+
    ultimately have "lower (c_at (fr @ ex @ rest) 0) \<noteq> 120 \<and> c_at (fr @ ex @ rest) 0 = y"
      by (elim disjE exE) simp_all
    then show False using y(2) by blast
  qed
  have "\<not> starts_ci ''infinity'' ?u" "\<not> starts_ci ''inf'' ?u" "\<not> starts_ci ''nan'' ?u" using c by (auto simp: cs)
  note ns = this nx
  have u0: "c_at ?u 0 = c" by (simp add: cs)
  have n0: "length (ip @ fr @ ex) \<noteq> 0" using ip(1) by simp
  show "strtod_len (t @ rest) = length t"
  proof (cases "sg = []")
    case True
    then have tr: "t @ rest = ?u" by (simp add: t)
    show ?thesis unfolding tr strtod_len_def using True
      by (simp add: Let_def u0 c ns fl t ip(1))
  next
    case False
    with sg have tr: "t @ rest = 45 # ?u" by (simp add: t)
    show ?thesis unfolding tr strtod_len_def using False sg
      by (simp add: Let_def ns fl t ip(1))
  qed
  show "\<not> (c_at (t @ rest) (if c_at (t @ rest) 0 = 45 then 1 else 0) = 48
           \<and> isdigit (c_at (t @ rest) ((if c_at (t @ rest) 0 = 45 then 1 else 0) + 1)))"
  proof (cases "c = 48")
    case True
    with ip(3) have "cs = []" by (simp add: cs)
    moreover have "\<not> isdigit (c_at (fr @ ex @ rest) 0)"
      using fr ex boundary_stop(2) [OF assms(2)] by auto
    ultimately show ?thesis using sg c by (auto simp: t cs)
  next
    case False
    then show ?thesis using sg c by (auto simp: t cs)
  qed
  show "c_at (t @ rest) 0 = 45 \<or> isdigit (c_at (t @ rest) 0)" using sg c by (auto simp: t cs)
qed

lemma decimal_checks:
  assumes "decimal_text t"
  shows "\<not> bad_point t" "\<not> bad_exponent t"
proof -
  from assms obtain sg ip fr ex where t: "t = sg @ ip @ fr @ ex" and sg: "sg = [] \<or> sg = [45]"
    and ip: "ip \<noteq> []" "\<forall>c \<in> set ip. isdigit c"
    and fr: "fr = [] \<or> (\<exists>ds. fr = 46 # ds \<and> ds \<noteq> [] \<and> (\<forall>c \<in> set ds. isdigit c))"
    and ex: "ex = [] \<or> (\<exists>s ds. ex = 101 # s # ds \<and> (s = 43 \<or> s = 45) \<and> ds \<noteq> [] \<and> (\<forall>c \<in> set ds. isdigit c))"
    unfolding decimal_text_def by blast
  have nd: "46 \<notin> set ds" if "\<forall>c \<in> set ds. isdigit c" for ds :: cstring
    using that digit_facts(4) by blast
  have no_dot: "\<forall>c \<in> set (sg @ ip). c \<noteq> 46" "\<forall>c \<in> set ex. c \<noteq> 46"
    using sg nd [OF ip(2)] ex nd by auto
  show "\<not> bad_point t"
  proof (cases fr)
    case Nil
    then have "dropWhile (\<lambda>c. c \<noteq> 46) t = []" using no_dot by (auto simp: t)
    then show ?thesis by (simp add: bad_point_def)
  next
    case (Cons p ds)
    with fr have p: "p = 46" "ds \<noteq> []" "\<forall>c \<in> set ds. isdigit c" by auto
    have "dropWhile (\<lambda>c. c \<noteq> 46) ((sg @ ip) @ 46 # ds @ ex) = 46 # ds @ ex"
      using no_dot(1) by (subst dropWhile_append2) auto
    then show ?thesis using p Cons by (cases ds) (auto simp: bad_point_def t)
  qed
  have "isdigit (last t)"
    using ip fr ex by (auto simp: t)
  then show "\<not> bad_exponent t" using digit_facts [of "last t"] by (simp add: bad_exponent_def Let_def)
qed

lemma parse_json_number:
  assumes "g_readable F d" "jc_ptr ctx = fp_g F d @ rest" "boundary rest" "jc_mem ctx = []"
  shows "parse_number F ctx = (Some (J_NUMBER d), ctx\<lparr>jc_ptr := rest\<rparr>)"
proof -
  let ?t = "fp_g F d"
  have t: "decimal_text ?t" "fp_value F ?t = (d, False)" "\<not> fp_infnan F d"
    using assms(1) by (simp_all add: g_readable_def)
  note s = strtod_len_decimal [OF t(1) assms(3)]
  have "is_valid_boundary (c_at (?t @ rest) (length ?t))"
    using boundary_valid [OF assms(3)] c_at_append [of ?t rest 0] by simp
  then show ?thesis
    using s(2) t(2,3) decimal_checks [OF t(1)] decimal_text_no_nul [OF t(1)] assms(2,4)
    by (simp add: parse_number_def Let_def s(1) jalloc_def)
qed

section \<open>The printer writes the text\<close>

lemma commas_Cons: "commas (t # ts) = t @ concat (map ((#) 44) ts)"
  by (induction ts arbitrary: t) simp_all

text \<open>Items written one after the other, the first without a comma when nothing precedes it.\<close>

definition items :: "bool \<Rightarrow> cstring list \<Rightarrow> cstring" where
  "items first ts = (if first then commas ts else concat (map ((#) 44) ts))"

lemma items_simps [simp]:
  "items first [] = []" "items first (t # ts) = (if first then t else 44 # t) @ items False ts"
  "items True ts = commas ts"
  by (simp_all add: items_def commas_Cons)

lemma items_append: "items first (ts @ us) = items first ts @ items (first \<and> ts = []) us"
  by (cases ts) (simp_all add: items_def commas_Cons)

lemma comma_appends: "appends sb (if first then [] else [44]) (if first then sb else sb_append_char sb 44)"
  by (simp add: sb_append_char_appends)

lemma stringify_list_appends:
  assumes "\<And>v sb. v \<in> set vs \<Longrightarrow> appends sb (json_text F v) (stringify_recursive F (d + 1) v sb)"
  shows "appends sb (items first (map (json_text F) vs)) (stringify_list F d first vs sb)"
  using assms
proof (induction vs arbitrary: first sb)
  case (Cons v vs)
  have "appends sb ((if first then [] else [44]) @ json_text F v)
      (stringify_recursive F (d + 1) v (if first then sb else sb_append_char sb 44))"
    by (rule appends_trans [OF comma_appends Cons.prems refl]) simp
  moreover have "appends s (items False (map (json_text F) vs)) (stringify_list F d False vs s)" for s
    by (rule Cons.IH) (use Cons.prems in simp)
  ultimately have "appends sb (((if first then [] else [44]) @ json_text F v) @ items False (map (json_text F) vs))
      (stringify_list F d first (v # vs) sb)"
    by (simp only: stringify_list.simps) (rule appends_trans [OF _ _ refl])
  then show ?case by (simp split: if_splits)
qed simp

lemma stringify_chain_appends:
  assumes "\<And>k v sb. (k, v) \<in> set b \<Longrightarrow> appends sb (json_text F v) (stringify_recursive F (d + 1) v sb)"
  shows "appends sb (items first (map member_text (map (map_prod id (json_text F)) b))) (stringify_chain F d first b sb)"
  using assms
proof (induction b arbitrary: first sb)
  case (Cons m b)
  obtain k v where m: "m = (k, v)" by (cases m)
  let ?s = "sb_append_escaped (if first then sb else sb_append_char sb 44) k"
  have "appends sb ((if first then [] else [44]) @ json_string k) ?s"
    by (rule appends_trans [OF comma_appends sb_append_escaped_appends refl])
  from appends_trans [OF this sb_append_char_appends refl]
  have "appends sb (((if first then [] else [44]) @ json_string k) @ [58]) (sb_append_char ?s 58)" .
  moreover have "appends s (json_text F v) (stringify_recursive F (d + 1) v s)" for s
    using Cons.prems [of k v] m by simp
  ultimately have "appends sb ((((if first then [] else [44]) @ json_string k) @ [58]) @ json_text F v)
      (stringify_recursive F (d + 1) v (sb_append_char ?s 58))"
    by (blast intro: appends_trans)
  moreover have "appends s (items False (map member_text (map (map_prod id (json_text F)) b))) (stringify_chain F d False b s)" for s
    by (rule Cons.IH) (use Cons.prems in auto)
  ultimately have "appends sb (((((if first then [] else [44]) @ json_string k) @ [58]) @ json_text F v)
      @ items False (map member_text (map (map_prod id (json_text F)) b))) (stringify_chain F d first (m # b) sb)"
    unfolding m stringify_chain.simps by (rule appends_trans [OF _ _ refl])
  moreover have "items first (map member_text (map (map_prod id (json_text F)) (m # b)))
      = ((((if first then [] else [44]) @ json_string k) @ [58]) @ json_text F v)
          @ items False (map member_text (map (map_prod id (json_text F)) b))"
    by (simp add: m member_text_def [of "(k, json_text F v)"])
  ultimately show ?case by (simp only:)
qed simp

lemma stringify_buckets_appends:
  assumes "\<And>b k v sb. b \<in> set bs \<Longrightarrow> (k, v) \<in> set b \<Longrightarrow> appends sb (json_text F v) (stringify_recursive F (d + 1) v sb)"
  shows "appends sb (items first (map member_text (concat (map (map (map_prod id (json_text F))) bs))))
           (stringify_buckets F d first bs sb)"
  using assms
proof (induction bs arbitrary: first sb)
  case (Cons b bs)
  have "appends sb (items first (map member_text (map (map_prod id (json_text F)) b))) (stringify_chain F d first b sb)"
    by (rule stringify_chain_appends) (use Cons.prems in auto)
  moreover have "appends s (items f (map member_text (concat (map (map (map_prod id (json_text F))) bs)))) (stringify_buckets F d f bs s)" for s f
    by (rule Cons.IH) (use Cons.prems in auto)
  ultimately show ?case
    unfolding stringify_buckets.simps list.map concat.simps map_append items_append
    by (intro appends_trans [OF _ _ refl]) auto
qed simp

lemma appends_failed [simp]: "jb_failed sb \<Longrightarrow> appends sb t sb"
  by (simp add: appends_def)

lemma stringify_appends:
  "json_ok F v n \<Longrightarrow> d + int n \<le> MAX_JSON_DEPTH \<Longrightarrow> appends sb (json_text F v) (stringify_recursive F d v sb)"
proof (induction v arbitrary: n d sb)
  case (J_LIST vs)
  have ih: "appends s (json_text F v) (stringify_recursive F (d + 1) v s)" if "v \<in> set vs" for v s
    by (rule J_LIST.IH [OF that, of "n - 1"]) (use J_LIST.prems that in auto)
  have "appends s (commas (map (json_text F) vs)) (stringify_list F d True vs s)" for s
    using stringify_list_appends [OF ih, of vs s True] by simp
  from appends_trans [OF sb_append_char_appends appends_trans [OF this sb_append_char_appends refl] refl]
  show ?case using J_LIST.prems by (simp add: stringify_recursive.simps)
next
  case (J_MAP bs)
  have ih: "appends s (json_text F v) (stringify_recursive F (d + 1) v s)" if "b \<in> set bs" "(k, v) \<in> set b" for b k v s
  proof (rule J_MAP.IH [OF that, of v "n - 1"])
    from J_MAP.prems(1) that have "0 < n \<and> snd (map_prod id (json_ok F) (k, v)) (n - 1)" by force
    then show "json_ok F v (n - 1)" "d + 1 + int (n - 1) \<le> MAX_JSON_DEPTH" using J_MAP.prems(2) by auto
  qed simp
  have "appends s (commas (map member_text (concat (map (map (map_prod id (json_text F))) bs)))) (stringify_buckets F d True bs s)" for s
    using stringify_buckets_appends [where bs = bs and sb = s and first = True, OF ih] by simp
  from appends_trans [OF sb_append_char_appends appends_trans [OF this sb_append_char_appends refl] refl]
  show ?case using J_MAP.prems by (simp add: stringify_recursive.simps)
next
  case (J_NUMBER x)
  then have "take 63 (fp_g F x) = fp_g F x" by (simp add: g_readable_def)
  then show ?case using J_NUMBER by (simp add: stringify_recursive.simps sb_append_appends snprintf_def)
qed (simp_all add: stringify_recursive.simps sb_append_appends sb_append_escaped_appends snprintf_def lit_def)

lemma stringify_buffer:
  assumes "json_ok F v 64"
  shows "case stringify_recursive F 0 v (sb_init mem) of r \<Rightarrow>
           if jb_failed r then False \<in> set mem else jb_text r = json_text F v \<and> sb_fits r"
proof -
  have "appends (sb_init mem) (json_text F v) (stringify_recursive F 0 v (sb_init mem))"
    by (rule stringify_appends [OF assms]) simp
  then show ?thesis
    by (auto simp: appends_def sb_init_def sb_alloc_def Let_def split: list.splits bool.splits if_splits)
qed

section \<open>The parser reads it back\<close>

lemma boundary_ws: "boundary rest \<Longrightarrow> dropWhile isspace rest = rest"
  by (cases rest) (auto simp: boundary_def isspace_def)

text \<open>No text of a value starts with white space or ends a container.\<close>

lemma json_text_start:
  assumes "json_ok F v n"
  obtains c t where "json_text F v = c # t" "\<not> isspace c" "c \<notin> {0, 44, 93, 125}"
proof -
  have "\<exists>c t. json_text F v = c # t \<and> \<not> isspace c \<and> c \<notin> {0, 44, 93, 125}"
  proof (cases v)
    case (J_NUMBER d)
    with assms have d: "decimal_text (fp_g F d)" by (simp add: g_readable_def)
    obtain c t where t: "fp_g F d = c # t" using decimal_text_no_nul [OF d] by (cases "fp_g F d") auto
    have "c = 45 \<or> isdigit c" using strtod_len_decimal(3) [OF d, of "[]"] t by (simp add: boundary_def)
    then have "\<not> isspace c \<and> c \<notin> {0, 44, 93, 125}" by (auto simp: isspace_def word_le_nat_alt)
    with t J_NUMBER show ?thesis by simp
  qed (use assms in \<open>auto simp: lit_def json_string_def isspace_def\<close>)
  then show thesis using that by blast
qed

text \<open>What it takes to parse one value: \<open>v\<close> printed at the pointer, memory, depth and fuel.\<close>

definition parses :: "'d fp \<Rightarrow> nat \<Rightarrow> 'd jobj \<Rightarrow> bool" where
  "parses F d v \<longleftrightarrow> (\<forall>ctx rest n. jc_ptr ctx = json_text F v @ rest \<longrightarrow> boundary rest \<longrightarrow> jc_mem ctx = [] \<longrightarrow>
     jc_depth ctx = int d \<longrightarrow> 2 * length (jc_ptr ctx) < n \<longrightarrow>
     parse_value F n ctx = Some (Some (flip_chains v), ctx\<lparr>jc_ptr := rest\<rparr>))"

lemma after_item_comma:
  assumes "jc_ptr ctx = 44 # c # t" "\<not> isspace c" "c \<noteq> close"
  shows "after_item close m1 m2 ctx = (None, ctx\<lparr>jc_ptr := c # t\<rparr>)"
proof -
  have "\<not> isspace 44" by (simp add: isspace_def)
  with assms show ?thesis by (simp add: after_item_def skip_ws_def Let_def)
qed

lemma after_item_close:
  assumes "jc_ptr ctx = close # t" "close \<in> {93, 125}"
  shows "after_item close m1 m2 ctx = (None, ctx)"
  using assms by (auto simp: after_item_def skip_ws_def isspace_def Let_def)

lemma jlist_add_room: "jc_mem ctx = [] \<Longrightarrow> \<exists>cap1. jlist_add ctx xs cap v = (xs @ [v], cap1, ctx)"
  by (simp add: jlist_add_def jalloc_def)

lemma parse_array_items:
  assumes "\<forall>v \<in> set vs. parses F (Suc d) v \<and> (\<exists>n. json_ok F v n)" "vs \<noteq> []"
    and "jc_ptr ctx = commas (map (json_text F) vs) @ 93 # rest" "jc_mem ctx = []" "jc_depth ctx = int (Suc d)"
    and "2 * length (jc_ptr ctx) + 1 < n"
  shows "parse_array F n xs cap ctx = Some (Some (J_LIST (xs @ map flip_chains vs)), ctx\<lparr>jc_ptr := rest, jc_depth := int d\<rparr>)"
  using assms
proof (induction vs arbitrary: xs cap ctx n)
  case (Cons v vs)
  from Cons.prems(1) obtain k where p: "parses F (Suc d) v" and ok: "json_ok F v k" by auto
  obtain c t where t: "json_text F v = c # t" "\<not> isspace c" "c \<notin> {0, 44, 93, 125}" by (rule json_text_start [OF ok])
  obtain m where m: "n = Suc m" using Cons.prems(6) by (cases n) auto
  define r where "r = concat (map ((#) 44) (map (json_text F) vs)) @ 93 # rest"
  have ptr: "jc_ptr ctx = json_text F v @ r" using Cons.prems(3) by (simp add: commas_Cons r_def)
  have b: "boundary r" by (cases vs) (simp_all add: boundary_def r_def)
  have ws: "skip_ws ctx = ctx" using ptr t by (simp add: skip_ws_def)
  have fuel: "2 * length (jc_ptr ctx) < m" using Cons.prems(6) m by simp
  have pv: "parse_value F m ctx = Some (Some (flip_chains v), ctx\<lparr>jc_ptr := r\<rparr>)"
    using p ptr b Cons.prems(4,5) fuel unfolding parses_def by blast
  let ?c = "ctx\<lparr>jc_ptr := r\<rparr>"
  obtain cap1 where add: "jlist_add ?c xs cap (flip_chains v) = (xs @ [flip_chains v], cap1, ?c)"
    using jlist_add_room [of ?c xs cap "flip_chains v"] Cons.prems(4) by auto
  have step: "parse_array F n xs cap ctx =
      (case after_item 93 ''Trailing comma in array!'' ''Expected ',' or ']'!'' ?c of
         (Some msg, c5) \<Rightarrow> Some (jfail (report_error c5 msg))
       | (None, c5) \<Rightarrow> parse_array F m (xs @ [flip_chains v]) cap1 c5)"
    using ptr t by (simp add: m ws pv add)
  show ?case
  proof (cases vs)
    case Nil
    obtain m1 where m1: "m = Suc m1" using fuel by (cases m) auto
    show ?thesis unfolding step using Nil Cons.prems(5)
      by (simp add: after_item_close m1 skip_ws_def isspace_def r_def)
  next
    case (Cons w ws)
    then obtain kw where "json_ok F w kw" using Cons.prems(1) by auto
    then obtain cw tw where w: "json_text F w = cw # tw" "\<not> isspace cw" "cw \<notin> {0, 44, 93, 125}"
      by (rule json_text_start)
    let ?t = "commas (map (json_text F) vs) @ 93 # rest"
    have r: "r = 44 # ?t" and ht: "?t = cw # tl ?t" using Cons w(1) by (simp_all add: commas_Cons r_def)
    have a: "after_item 93 ''Trailing comma in array!'' ''Expected ',' or ']'!'' ?c = (None, ctx\<lparr>jc_ptr := ?t\<rparr>)"
      using after_item_comma [of ?c cw "tl ?t" 93] r ht w by simp
    have "parse_array F m (xs @ [flip_chains v]) cap1 (ctx\<lparr>jc_ptr := ?t\<rparr>)
      = Some (Some (J_LIST ((xs @ [flip_chains v]) @ map flip_chains vs)), (ctx\<lparr>jc_ptr := ?t\<rparr>)\<lparr>jc_ptr := rest, jc_depth := int d\<rparr>)"
    proof (rule Cons.IH)
      show "2 * length (jc_ptr (ctx\<lparr>jc_ptr := ?t\<rparr>)) + 1 < m" using fuel ptr r by simp
    qed (use Cons Cons.prems in auto)
    then show ?thesis unfolding step a by simp
  qed
qed simp

text \<open>Members put one after the other into the buckets.\<close>

definition put_node :: "(cstring \<times> 'v) list list \<Rightarrow> cstring \<times> 'v \<Rightarrow> (cstring \<times> 'v) list list" where
  "put_node bs m =
     (let i = unat (hash_str (fst m)) mod length bs
      in bs[i := (case chain_get (fst m) (bs ! i) of Some _ \<Rightarrow> chain_set (fst m) (snd m) (bs ! i) | None \<Rightarrow> m # bs ! i)])"

lemma jmap_put_node: "jc_mem ctx = [] \<Longrightarrow> jmap_put ctx bs k v = (put_node bs (k, v), ctx)"
  by (auto simp: jmap_put_def put_node_def Let_def jalloc_def split: option.splits)

definition member :: "'d fp \<Rightarrow> cstring \<times> 'd jobj \<Rightarrow> cstring" where
  "member F m = json_string (fst m) @ 58 # json_text F (snd m)"

lemma member_start: "\<exists>u. member F m = 34 # u"
  by (simp add: member_def json_string_def)

lemma member_texts: "map member_text (concat (map (map (map_prod id (json_text F))) bs)) = map (member F) (concat bs)"
proof -
  have "member_text \<circ> map_prod id (json_text F) = member F" by (auto simp: member_text_def member_def)
  then show ?thesis by (simp add: map_concat)
qed

lemma parse_object_members:
  assumes "\<forall>m \<in> set ms. parses F (Suc d) (snd m) \<and> json_string_ok (fst m)" "ms \<noteq> []"
    and "jc_ptr ctx = commas (map (member F) ms) @ 125 # rest" "jc_mem ctx = []" "jc_depth ctx = int (Suc d)"
    and "2 * length (jc_ptr ctx) + 1 < n"
  shows "parse_object F n bs ctx
    = Some (Some (J_MAP (foldl put_node bs (map (map_prod id flip_chains) ms))), ctx\<lparr>jc_ptr := rest, jc_depth := int d\<rparr>)"
  using assms
proof (induction ms arbitrary: bs ctx n)
  case (Cons kv ms)
  obtain k v where kv: "kv = (k, v)" by (cases kv)
  have p: "parses F (Suc d) v" and ok: "json_string_ok k" using Cons.prems(1) kv by auto
  obtain m where m: "n = Suc m" using Cons.prems(6) by (cases n) auto
  define r where "r = concat (map ((#) 44) (map (member F) ms)) @ 125 # rest"
  define q where "q = json_text F v @ r"
  have ptr: "jc_ptr ctx = json_string k @ 58 # q"
    using Cons.prems(3) by (simp add: commas_Cons r_def q_def kv member_def [of F "(k, v)"])
  have b: "boundary r" by (cases ms) (simp_all add: boundary_def r_def)
  have sp: "\<not> isspace 34" "\<not> isspace 58" by (simp_all add: isspace_def)
  obtain u where u: "json_string k = 34 # u" by (simp add: json_string_def)
  have ws: "skip_ws ctx = ctx" using ptr u sp by (simp add: skip_ws_def)
  have ws2: "skip_ws (ctx\<lparr>jc_ptr := 58 # q\<rparr>) = ctx\<lparr>jc_ptr := 58 # q\<rparr>" using sp by (simp add: skip_ws_def)
  have key: "parse_string_raw ctx = (Some k, ctx\<lparr>jc_ptr := 58 # q\<rparr>)"
    by (rule parse_json_string [OF ok ptr Cons.prems(4)])
  have fuel: "2 * length (58 # q) < m" using Cons.prems(6) m ptr u by simp
  have pv: "parse_value F m (ctx\<lparr>jc_ptr := q\<rparr>) = Some (Some (flip_chains v), ctx\<lparr>jc_ptr := r\<rparr>)"
    using p [unfolded parses_def, rule_format, of "ctx\<lparr>jc_ptr := q\<rparr>" r m] b Cons.prems(4,5) fuel by (simp add: q_def)
  let ?c = "ctx\<lparr>jc_ptr := r\<rparr>" and ?bs = "put_node bs (k, flip_chains v)"
  have put: "jmap_put ?c bs k (flip_chains v) = (?bs, ?c)" by (rule jmap_put_node) (simp add: Cons.prems(4))
  have step: "parse_object F n bs ctx =
      (case after_item 125 ''Trailing comma in object!'' ''Expected ',' or '}'!'' ?c of
         (Some msg, c5) \<Rightarrow> Some (jfail (report_error c5 msg))
       | (None, c5) \<Rightarrow> parse_object F m ?bs c5)"
    using ptr u ok by (simp add: m ws ws2 key pv put)
  show ?case
  proof (cases ms)
    case Nil
    obtain m1 where m1: "m = Suc m1" using fuel by (cases m) auto
    show ?thesis unfolding step using Nil Cons.prems(5)
      by (simp add: after_item_close m1 skip_ws_def isspace_def r_def kv)
  next
    case (Cons w ws)
    define t where "t = commas (map (member F) ms) @ 125 # rest"
    have r: "r = 44 # t" and ht: "t = 34 # tl t"
      using Cons member_start [of F w] by (auto simp: commas_Cons r_def t_def)
    have a: "after_item 125 ''Trailing comma in object!'' ''Expected ',' or '}'!'' ?c = (None, ctx\<lparr>jc_ptr := t\<rparr>)"
      using after_item_comma [of ?c 34 "tl t" 125] r ht sp by simp
    have "parse_object F m ?bs (ctx\<lparr>jc_ptr := t\<rparr>)
      = Some (Some (J_MAP (foldl put_node ?bs (map (map_prod id flip_chains) ms))), (ctx\<lparr>jc_ptr := t\<rparr>)\<lparr>jc_ptr := rest, jc_depth := int d\<rparr>)"
    proof (rule Cons.IH)
      show "2 * length (jc_ptr (ctx\<lparr>jc_ptr := t\<rparr>)) + 1 < m" using fuel r by (simp add: q_def)
    qed (use Cons Cons.prems in \<open>auto simp: t_def\<close>)
    moreover have "foldl put_node bs (map (map_prod id flip_chains) (kv # ms)) = foldl put_node ?bs (map (map_prod id flip_chains) ms)"
      by (simp only: kv list.map foldl_Cons map_prod_simp id_apply)
    ultimately show ?thesis unfolding step a by (simp add: id_def)
  qed
qed simp

text \<open>Putting the nodes of well-formed buckets into empty ones reverses every chain.\<close>

lemma put_chain:
  assumes "length (pre @ acc # post) = 16" "distinct (map fst (b @ acc))"
    and "\<forall>k \<in> fst ` set (b @ acc). hm_key_ok k" "\<forall>k \<in> fst ` set b. unat (hash_str k) mod 16 = length pre"
  shows "foldl put_node (pre @ acc # post) b = pre @ (rev b @ acc) # post"
  using assms
proof (induction b arbitrary: acc)
  case (Cons m b)
  have "chain_get (fst m) acc = map_of acc (fst m)"
    by (rule chain_get_map_of) (use Cons.prems(3) in \<open>auto simp: list_all_iff\<close>)
  also have "\<dots> = None" using Cons.prems(2) by (simp add: map_of_eq_None_iff)
  finally have "put_node (pre @ acc # post) m = pre @ (m # acc) # post"
    using Cons.prems(1,4) by (simp add: put_node_def Let_def list_update_append nth_append)
  moreover have "foldl put_node (pre @ (m # acc) # post) b = pre @ (rev b @ m # acc) # post"
    by (rule Cons.IH) (use Cons.prems in auto)
  ultimately show ?case by simp
qed simp

lemma put_buckets_from:
  assumes "buckets_ok (pre @ bs)"
  shows "foldl put_node (map rev pre @ replicate (length bs) []) (concat bs) = map rev (pre @ bs)"
  using assms
proof (induction bs arbitrary: pre)
  case (Cons b bs)
  have b: "distinct (map fst b)" "\<forall>k \<in> fst ` set b. json_key_ok k \<and> unat (hash_str k) mod 16 = length pre"
    using Cons.prems [unfolded buckets_ok_def] by (auto simp: nth_append dest!: spec [of _ "length pre"])
  have "foldl put_node (map rev pre @ [] # replicate (length bs) []) b = map rev pre @ (rev b @ []) # replicate (length bs) []"
    by (rule put_chain) (use b Cons.prems in \<open>auto simp: json_key_ok_def buckets_ok_def\<close>)
  moreover have "foldl put_node (map rev (pre @ [b]) @ replicate (length bs) []) (concat bs) = map rev ((pre @ [b]) @ bs)"
    by (rule Cons.IH) (use Cons.prems in simp)
  ultimately show ?case by simp
qed simp

lemma put_buckets: "buckets_ok bs \<Longrightarrow> foldl put_node (replicate 16 []) (concat bs) = map rev bs"
  using put_buckets_from [of "[]" bs] by (simp add: buckets_ok_def)

lemma buckets_ok_map [simp]: "buckets_ok (map (map (map_prod id f)) bs) = buckets_ok bs"
proof -
  have e: "map fst (map (map_prod id f) b) = map fst b" for b by simp
  show ?thesis by (auto simp only: buckets_ok_def length_map nth_map e)
qed

lemma json_word_text:
  "jc_ptr ctx = lit w @ rest \<Longrightarrow> boundary rest \<Longrightarrow> json_word w ctx"
  using boundary_valid [of rest] c_at_append [of "lit w" rest 0] by (simp add: json_word_def lit_def)

lemma json_leaf_ok: "jc_mem ctx = [] \<Longrightarrow> json_leaf ctx v msg = (Some v, ctx)"
  by (simp add: json_leaf_def jalloc_def)

text \<open>Values whose text starts with a letter.\<close>

lemma parse_word:
  assumes "jc_ptr ctx = lit w @ rest" "boundary rest" "jc_mem ctx = []" "jc_depth ctx \<le> MAX_JSON_DEPTH" "0 < n"
    and "(w, v) \<in> {(''true'', J_BOOL True), (''false'', J_BOOL False), (''null'', J_NULL)}"
  shows "parse_value F n ctx = Some (Some v, ctx\<lparr>jc_ptr := rest\<rparr>)"
proof -
  obtain m where n: "n = Suc m" using assms(5) by (cases n) auto
  have jw: "json_word w ctx" by (rule json_word_text [OF assms(1,2)])
  have sp: "\<not> isspace 116" "\<not> isspace 102" "\<not> isspace 110" by (simp_all add: isspace_def)
  from assms(6) consider "w = ''true''" "v = J_BOOL True" | "w = ''false''" "v = J_BOOL False" | "w = ''null''" "v = J_NULL"
    by auto
  then show ?thesis
    using jw assms(1,3,4) sp
    by cases (simp_all add: n skip_ws_def lit_def Let_def json_leaf_ok, simp_all add: json_word_def lit_def)
qed

lemma parses_ok: "json_ok F v k \<Longrightarrow> int d + int k \<le> MAX_JSON_DEPTH \<Longrightarrow> parses F d v"
proof (induction v arbitrary: k d)
  case (J_NUMBER x)
  then have x: "g_readable F x" by simp
  show ?case unfolding parses_def
  proof (intro allI impI)
    fix ctx :: jctx and rest n
    assume ctx: "jc_ptr ctx = json_text F (J_NUMBER x) @ rest" "boundary rest" "jc_mem ctx = []"
      "jc_depth ctx = int d" "2 * length (jc_ptr ctx) < n"
    have "decimal_text (fp_g F x)" using x by (simp add: g_readable_def)
    note c0 = strtod_len_decimal(3) [OF this ctx(2)]
    then have sp: "\<not> isspace (c_at (jc_ptr ctx) 0)" "c_at (jc_ptr ctx) 0 \<noteq> 0" "c_at (jc_ptr ctx) 0 \<noteq> 34"
      using ctx(1) by (auto simp: isspace_def word_le_nat_alt)
    have "skip_ws ctx = ctx" using sp by (cases "jc_ptr ctx") (simp_all add: skip_ws_def)
    then show "parse_value F n ctx = Some (Some (flip_chains (J_NUMBER x)), ctx\<lparr>jc_ptr := rest\<rparr>)"
      using ctx J_NUMBER.prems sp c0 parse_json_number [OF x _ ctx(2,3)] by (cases n) (simp_all add: Let_def)
  qed
next
  case (J_STRING x)
  then have x: "json_string_ok x" by simp
  show ?case unfolding parses_def
  proof (intro allI impI)
    fix ctx :: jctx and rest n
    assume ctx: "jc_ptr ctx = json_text F (J_STRING x) @ rest" "boundary rest" "jc_mem ctx = []"
      "jc_depth ctx = int d" "2 * length (jc_ptr ctx) < n"
    have ptr: "jc_ptr ctx = json_string x @ rest" using ctx(1) by simp
    have ws: "skip_ws ctx = ctx" and c0: "c_at (jc_ptr ctx) 0 = 34"
      using ptr by (simp_all add: skip_ws_def json_string_def isspace_def)
    have "parse_string_value ctx = (Some (J_STRING x), ctx\<lparr>jc_ptr := rest\<rparr>)"
      using parse_json_string [OF x ptr ctx(3)] ctx(3) by (simp add: parse_string_value_def json_leaf_ok)
    then show "parse_value F n ctx = Some (Some (flip_chains (J_STRING x)), ctx\<lparr>jc_ptr := rest\<rparr>)"
      using ctx(4,5) J_STRING.prems ws c0 by (cases n) (simp_all add: Let_def)
  qed
next
  case (J_LIST vs)
  have ih: "parses F (Suc d) v \<and> (\<exists>n. json_ok F v n)" if "v \<in> set vs" for v
    using J_LIST.IH [OF that, of "k - 1" "Suc d"] J_LIST.prems that by auto
  show ?case unfolding parses_def
  proof (intro allI impI)
    fix ctx :: jctx and rest n
    assume ctx: "jc_ptr ctx = json_text F (J_LIST vs) @ rest" "boundary rest" "jc_mem ctx = []"
      "jc_depth ctx = int d" "2 * length (jc_ptr ctx) < n"
    define q where "q = commas (map (json_text F) vs) @ 93 # rest"
    have ptr: "jc_ptr ctx = 91 # q" using ctx(1) by (simp add: q_def)
    have ws: "skip_ws ctx = ctx" using ptr by (simp add: skip_ws_def isspace_def)
    obtain m where m: "n = Suc m" "2 * length q + 1 < m" using ctx(5) ptr by (cases n) auto
    let ?c = "ctx\<lparr>jc_ptr := q, jc_depth := int d + 1\<rparr>"
    have "parse_value F n ctx = parse_array F m [] 10 ?c"
      using ptr ws ctx(3,4) J_LIST.prems by (simp add: m(1) Let_def jalloc2_def jalloc_def)
    also have "\<dots> = Some (Some (J_LIST (map flip_chains vs)), ctx\<lparr>jc_ptr := rest\<rparr>)"
    proof (cases "vs = []")
      case True
      obtain m1 where "m = Suc m1" using m(2) by (cases m) auto
      with True ctx(4) show ?thesis by (simp add: q_def skip_ws_def isspace_def)
    next
      case False
      show ?thesis
        using parse_array_items [where ctx = ?c and rest = rest and n = m and xs = "[]" and cap = 10, OF _ False]
          ih ctx(3,4) m(2) by (simp add: q_def)
    qed
    finally show "parse_value F n ctx = Some (Some (flip_chains (J_LIST vs)), ctx\<lparr>jc_ptr := rest\<rparr>)" by simp
  qed
next
  case (J_MAP bs)
  have ok: "buckets_ok bs" using J_MAP.prems by simp
  have ih: "parses F (Suc d) v" if "b \<in> set bs" "(key, v) \<in> set b" for b key v
  proof (rule J_MAP.IH [OF that, of v "k - 1" "Suc d"])
    from J_MAP.prems(1) that have "0 < k \<and> snd (map_prod id (json_ok F) (key, v)) (k - 1)" by force
    then show "json_ok F v (k - 1)" "int (Suc d) + int (k - 1) \<le> MAX_JSON_DEPTH" using J_MAP.prems(2) by auto
  qed simp
  have keys: "json_string_ok key" if "b \<in> set bs" "(key, v) \<in> set b" for b key v
    using ok that by (fastforce simp: buckets_ok_def json_key_ok_def in_set_conv_nth [of b])
  show ?case unfolding parses_def
  proof (intro allI impI)
    fix ctx :: jctx and rest n
    assume ctx: "jc_ptr ctx = json_text F (J_MAP bs) @ rest" "boundary rest" "jc_mem ctx = []"
      "jc_depth ctx = int d" "2 * length (jc_ptr ctx) < n"
    define q where "q = commas (map (member F) (concat bs)) @ 125 # rest"
    have ptr: "jc_ptr ctx = 123 # q" using ctx(1) by (simp add: q_def member_texts [symmetric] del: map_concat)
    have ws: "skip_ws ctx = ctx" using ptr by (simp add: skip_ws_def isspace_def)
    obtain m where m: "n = Suc m" "2 * length q + 1 < m" using ctx(5) ptr by (cases n) auto
    let ?c = "ctx\<lparr>jc_ptr := q, jc_depth := int d + 1\<rparr>"
    let ?ms = "map (map_prod id flip_chains) (concat bs)"
    have "parse_value F n ctx = parse_object F m (replicate 16 []) ?c"
      using ptr ws ctx(3,4) J_MAP.prems by (simp add: m(1) Let_def jalloc2_def jalloc_def)
    also have "\<dots> = Some (Some (J_MAP (foldl put_node (replicate 16 []) ?ms)), ctx\<lparr>jc_ptr := rest\<rparr>)"
    proof (cases "concat bs = []")
      case True
      obtain m1 where "m = Suc m1" using m(2) by (cases m) auto
      with True ctx(4) show ?thesis
        by (simp add: q_def skip_ws_def isspace_def del: concat_eq_Nil_conv)
    next
      case False
      have all: "\<forall>m \<in> set (concat bs). parses F (Suc d) (snd m) \<and> json_string_ok (fst m)"
        using ih keys by auto
      show ?thesis
        using parse_object_members [where F = F and d = d and ctx = ?c and rest = rest and n = m and bs = "replicate 16 []",
            OF all False] ctx(3,4) m(2) by (simp add: q_def)
    qed
    also have "foldl put_node (replicate 16 []) ?ms = map rev (map (map (map_prod id flip_chains)) bs)"
      using put_buckets [of "map (map (map_prod id flip_chains)) bs"] ok by (simp add: map_concat)
    finally show "parse_value F n ctx = Some (Some (flip_chains (J_MAP bs)), ctx\<lparr>jc_ptr := rest\<rparr>)"
      by simp
  qed
qed (auto simp: parses_def intro: parse_word)

section \<open>Equality\<close>

lemma equals_list_map: "\<forall>v \<in> set vs. impl_json_equals F v (f v) \<Longrightarrow> equals_list F vs (map f vs)"
  by (induction vs) auto

lemma equals_buckets_all:
  "\<forall>b \<in> set bs. \<forall>(k, v) \<in> set b. \<exists>w. jmap_get m k = Some w \<and> impl_json_equals F v w \<Longrightarrow> equals_buckets F bs m"
proof (induction bs)
  case (Cons b bs)
  have "equals_chain F b m" if "\<forall>(k, v) \<in> set b. \<exists>w. jmap_get m k = Some w \<and> impl_json_equals F v w" for b
    using that by (induction b) auto
  with Cons show ?case by auto
qed simp

lemma jmap_get_flip:
  assumes "buckets_ok bs" "b \<in> set bs" "(k, v) \<in> set b"
  shows "jmap_get (map rev (map (map (map_prod id flip_chains)) bs)) k = Some (flip_chains v)"
proof -
  obtain i where i: "i < length bs" "b = bs ! i" using assms(2) by (auto simp: in_set_conv_nth)
  have b: "distinct (map fst b)" "\<forall>k \<in> set (map fst b). json_key_ok k \<and> unat (hash_str k) mod 16 = i" "length bs = 16"
    using assms(1) i by (auto simp: buckets_ok_def)
  let ?b = "rev (map (map_prod id flip_chains) b)"
  have "chain_get k ?b = map_of ?b k"
    by (rule chain_get_map_of) (use b assms(3) in \<open>force simp: list_all_iff json_key_ok_def\<close>)+
  also have "\<dots> = Some (flip_chains v)"
  proof (rule map_of_is_SomeI)
    show "distinct (map fst ?b)" using b(1) by (simp add: rev_map [symmetric])
    show "(k, flip_chains v) \<in> set ?b" using assms(3) by force
  qed
  finally show ?thesis using i b(2,3) assms(3) by (force simp: jmap_get_def)
qed

lemma equals_flip: "json_ok F v k \<Longrightarrow> impl_json_equals F v (flip_chains v)"
proof (induction v arbitrary: k)
  case (J_LIST vs)
  then show ?case by (force intro: equals_list_map)
next
  case (J_MAP bs)
  let ?m = "map rev (map (map (map_prod id flip_chains)) bs)"
  have ok: "buckets_ok bs" using J_MAP.prems by simp
  have "impl_json_equals F v (flip_chains v)" if "b \<in> set bs" "(key, v) \<in> set b" for b key v
  proof (rule J_MAP.IH [OF that, of v "k - 1"])
    from J_MAP.prems(1) that have "0 < k \<and> snd (map_prod id (json_ok F) (key, v)) (k - 1)" by force
    then show "json_ok F v (k - 1)" by auto
  qed simp
  with jmap_get_flip [OF ok] have "equals_buckets F bs ?m" by (intro equals_buckets_all) blast
  moreover have "length (concat bs) = length (concat ?m)" by (simp add: length_concat comp_def)
  ultimately show ?case by (simp add: id_def)
qed (auto simp: g_readable_def)

lemma flip_flip: "flip_chains (flip_chains v) = v"
  by (induction v) (auto simp: map_idI rev_map intro!: map_idI)

section \<open>The parser always returns\<close>

abbreviation len :: "jctx \<Rightarrow> nat" where "len ctx \<equiv> length (jc_ptr ctx)"

lemma jalloc_len [simp]: "jalloc ctx = (b, c) \<Longrightarrow> jc_ptr c = jc_ptr ctx"
  by (auto simp: jalloc_def split: list.splits)

lemma jalloc2_len: "jalloc2 ctx = (b, c) \<Longrightarrow> jc_ptr c = jc_ptr ctx"
  by (auto simp: jalloc2_def split: prod.splits bool.splits)

lemma skip_ws_len: "len (skip_ws ctx) \<le> len ctx"
  by (simp add: skip_ws_def length_dropWhile_le)

lemma scan_end_len: "scan_end acc cs = Scan_ok b r \<Longrightarrow> length r < length cs"
  by (induction acc cs rule: scan_end.induct) (fastforce split: if_splits)+

lemma parse_string_raw_len: "parse_string_raw ctx = (Some s, c) \<Longrightarrow> len c < len ctx"
  by (auto simp: parse_string_raw_def split: string_scan.splits prod.splits bool.splits sum.splits dest!: scan_end_len)

lemma json_leaf_len: "json_leaf ctx v msg = (Some w, c) \<Longrightarrow> jc_ptr c = jc_ptr ctx"
  by (auto simp: json_leaf_def split: prod.splits bool.splits)

lemma parse_string_value_len: "parse_string_value ctx = (Some v, c) \<Longrightarrow> len c < len ctx"
  by (auto simp: parse_string_value_def split: prod.splits option.splits dest!: parse_string_raw_len json_leaf_len)

lemma parse_number_len:
  assumes "parse_number F ctx = (Some v, c)" "jc_ptr ctx \<noteq> []"
  shows "len c < len ctx"
proof -
  have "jc_ptr c = drop (strtod_len (jc_ptr ctx)) (jc_ptr ctx)" "strtod_len (jc_ptr ctx) \<noteq> 0"
    using assms(1) by (auto simp: parse_number_def Let_def split: prod.splits if_splits bool.splits)
  with assms(2) show ?thesis by simp
qed

lemma jmap_put_len: "jmap_put ctx bs k v = (bs1, c) \<Longrightarrow> jc_ptr c = jc_ptr ctx"
  by (auto simp: jmap_put_def Let_def split: option.splits prod.splits bool.splits)

lemma jlist_add_len: "jlist_add ctx xs cap v = (ys, cap1, c) \<Longrightarrow> jc_ptr c = jc_ptr ctx"
  by (auto simp: jlist_add_def split: if_splits prod.splits bool.splits)

lemma after_item_len: "after_item close m1 m2 ctx = (r, c) \<Longrightarrow> len c \<le> len ctx"
  using skip_ws_len [of ctx] skip_ws_len [of "advance 1 (skip_ws ctx)"]
  by (auto simp: after_item_def Let_def split: if_splits)

lemma jfail_None [simp]: "jfail c \<noteq> (Some v, c1)"
  by (simp add: jfail_def)

text \<open>How a successful step of each function goes on.\<close>

lemma parse_value_SucE:
  assumes "parse_value F (Suc n) ctx = Some (Some v, c)"
  shows "jc_ptr (skip_ws ctx) \<noteq> [] \<and>
    (parse_string_value (skip_ws ctx) = (Some v, c) \<or> parse_number F (skip_ws ctx) = (Some v, c)
     \<or> (\<exists>c1. jalloc2 (skip_ws ctx) = (True, c1) \<and>
          (parse_object F n (replicate 16 []) ((advance 1 c1)\<lparr>jc_depth := jc_depth c1 + 1\<rparr>) = Some (Some v, c)
           \<or> parse_array F n [] 10 ((advance 1 c1)\<lparr>jc_depth := jc_depth c1 + 1\<rparr>) = Some (Some v, c)))
     \<or> (\<exists>w msg. json_leaf (advance 4 (skip_ws ctx)) w msg = (Some v, c) \<or> json_leaf (advance 5 (skip_ws ctx)) w msg = (Some v, c)))"
proof -
  have "jc_ptr (skip_ws ctx) \<noteq> []" using assms by (auto simp: Let_def split: if_splits)
  with assms show ?thesis
    by (auto simp: Let_def split: if_splits prod.splits bool.splits)
qed

lemma parse_object_SucE:
  assumes "parse_object F (Suc n) bs ctx = Some (Some v, c)"
  shows "(jc_ptr (skip_ws ctx) \<noteq> [] \<and> jc_ptr c = drop 1 (jc_ptr (skip_ws ctx)))
    \<or> (\<exists>key c1 val c3 bs1 c4 c5. parse_string_raw (skip_ws ctx) = (Some key, c1)
          \<and> parse_value F n (advance 1 (skip_ws c1)) = Some (Some val, c3)
          \<and> jmap_put c3 bs (c_str key) val = (bs1, c4)
          \<and> after_item 125 ''Trailing comma in object!'' ''Expected ',' or '}'!'' c4 = (None, c5)
          \<and> parse_object F n bs1 c5 = Some (Some v, c))"
  using assms by (auto simp: Let_def split: if_splits prod.splits option.splits)

lemma parse_array_SucE:
  assumes "parse_array F (Suc n) xs cap ctx = Some (Some v, c)"
  shows "(jc_ptr (skip_ws ctx) \<noteq> [] \<and> jc_ptr c = drop 1 (jc_ptr (skip_ws ctx)))
    \<or> (\<exists>val c3 xs1 cap1 c4 c5. parse_value F n (skip_ws ctx) = Some (Some val, c3)
          \<and> jlist_add c3 xs cap val = (xs1, cap1, c4)
          \<and> after_item 93 ''Trailing comma in array!'' ''Expected ',' or ']'!'' c4 = (None, c5)
          \<and> parse_array F n xs1 cap1 c5 = Some (Some v, c))"
  using assms by (auto simp: Let_def split: if_splits prod.splits option.splits)

lemma parse_value_len_step:
  assumes "\<And>bs ctx v c. parse_object F n bs ctx = Some (Some v, c) \<Longrightarrow> len c < len ctx"
    and "\<And>xs cap ctx v c. parse_array F n xs cap ctx = Some (Some v, c) \<Longrightarrow> len c < len ctx"
    and "parse_value F (Suc n) ctx = Some (Some v, c)"
  shows "len c < len ctx"
proof -
  let ?w = "skip_ws ctx"
  from parse_value_SucE [OF assms(3)] have ne: "jc_ptr ?w \<noteq> []"
    and "parse_string_value ?w = (Some v, c) \<or> parse_number F ?w = (Some v, c)
     \<or> (\<exists>c1. jalloc2 ?w = (True, c1) \<and>
          (parse_object F n (replicate 16 []) ((advance 1 c1)\<lparr>jc_depth := jc_depth c1 + 1\<rparr>) = Some (Some v, c)
           \<or> parse_array F n [] 10 ((advance 1 c1)\<lparr>jc_depth := jc_depth c1 + 1\<rparr>) = Some (Some v, c)))
     \<or> (\<exists>u msg. json_leaf (advance 4 ?w) u msg = (Some v, c) \<or> json_leaf (advance 5 ?w) u msg = (Some v, c))"
    by blast+
  then have "len c < len ?w"
  proof (elim disjE exE conjE)
    fix c1 assume a: "jalloc2 ?w = (True, c1)"
    show ?thesis if "parse_object F n (replicate 16 []) ((advance 1 c1)\<lparr>jc_depth := jc_depth c1 + 1\<rparr>) = Some (Some v, c)"
      using assms(1) [OF that] jalloc2_len [OF a] by simp
    show ?thesis if "parse_array F n [] 10 ((advance 1 c1)\<lparr>jc_depth := jc_depth c1 + 1\<rparr>) = Some (Some v, c)"
      using assms(2) [OF that] jalloc2_len [OF a] by simp
  qed (use ne in \<open>auto dest: parse_string_value_len parse_number_len json_leaf_len\<close>)
  with skip_ws_len [of ctx] show ?thesis by simp
qed

lemma parse_len_all:
  "(\<forall>ctx v c. parse_value F n ctx = Some (Some v, c) \<longrightarrow> len c < len ctx)
   \<and> (\<forall>bs ctx v c. parse_object F n bs ctx = Some (Some v, c) \<longrightarrow> len c < len ctx)
   \<and> (\<forall>xs cap ctx v c. parse_array F n xs cap ctx = Some (Some v, c) \<longrightarrow> len c < len ctx)"
proof (induction n)
  case (Suc n)
  then have ih: "\<And>ctx v c. parse_value F n ctx = Some (Some v, c) \<Longrightarrow> len c < len ctx"
    "\<And>bs ctx v c. parse_object F n bs ctx = Some (Some v, c) \<Longrightarrow> len c < len ctx"
    "\<And>xs cap ctx v c. parse_array F n xs cap ctx = Some (Some v, c) \<Longrightarrow> len c < len ctx" by blast+
  have "len c < len ctx" if "parse_object F (Suc n) bs ctx = Some (Some v, c)" for bs ctx v c
  proof -
    have "len c < len (skip_ws ctx)"
      using parse_object_SucE [OF that]
    proof (elim disjE exE conjE)
      fix key c1 val c3 bs1 c4 c5
      assume "parse_string_raw (skip_ws ctx) = (Some key, c1)"
        and "parse_value F n (advance 1 (skip_ws c1)) = Some (Some val, c3)"
        and "jmap_put c3 bs (c_str key) val = (bs1, c4)"
        and "after_item 125 ''Trailing comma in object!'' ''Expected ',' or '}'!'' c4 = (None, c5)"
        and "parse_object F n bs1 c5 = Some (Some v, c)"
      then have "len c1 < len (skip_ws ctx)" "len c3 < len (advance 1 (skip_ws c1))" "len c4 = len c3" "len c5 \<le> len c4" "len c < len c5"
        by (auto dest: parse_string_raw_len jmap_put_len after_item_len ih)
      with skip_ws_len [of c1] show ?thesis by simp
    qed auto
    with skip_ws_len [of ctx] show ?thesis by simp
  qed
  moreover have "len c < len ctx" if "parse_array F (Suc n) xs cap ctx = Some (Some v, c)" for xs cap ctx v c
  proof -
    have "len c < len (skip_ws ctx)"
      using parse_array_SucE [OF that]
    proof (elim disjE exE conjE)
      fix val c3 xs1 cap1 c4 c5
      assume "parse_value F n (skip_ws ctx) = Some (Some val, c3)"
        and "jlist_add c3 xs cap val = (xs1, cap1, c4)"
        and "after_item 93 ''Trailing comma in array!'' ''Expected ',' or ']'!'' c4 = (None, c5)"
        and "parse_array F n xs1 cap1 c5 = Some (Some v, c)"
      then have "len c3 < len (skip_ws ctx)" "len c4 = len c3" "len c5 \<le> len c4" "len c < len c5"
        by (auto dest: jlist_add_len after_item_len ih)
      then show ?thesis by simp
    qed auto
    with skip_ws_len [of ctx] show ?thesis by simp
  qed
  moreover have "len c < len ctx" if "parse_value F (Suc n) ctx = Some (Some v, c)" for ctx v c
    by (rule parse_value_len_step [OF _ _ that]) (use ih in blast)+
  ultimately show ?case by blast
qed simp

lemma parse_value_len: "parse_value F n ctx = Some (Some v, c) \<Longrightarrow> len c < len ctx"
  using parse_len_all by blast

text \<open>Twice the length of the rest is enough fuel.\<close>

lemma parse_defined_all:
  "(\<forall>ctx. 2 * len ctx < n \<longrightarrow> parse_value F n ctx \<noteq> None)
   \<and> (\<forall>bs ctx. 2 * len ctx + 1 < n \<longrightarrow> parse_object F n bs ctx \<noteq> None)
   \<and> (\<forall>xs cap ctx. 2 * len ctx + 1 < n \<longrightarrow> parse_array F n xs cap ctx \<noteq> None)"
proof (induction n)
  case (Suc n)
  then have ih: "\<And>ctx. 2 * len ctx < n \<Longrightarrow> parse_value F n ctx \<noteq> None"
    "\<And>bs ctx. 2 * len ctx + 1 < n \<Longrightarrow> parse_object F n bs ctx \<noteq> None"
    "\<And>xs cap ctx. 2 * len ctx + 1 < n \<Longrightarrow> parse_array F n xs cap ctx \<noteq> None" by blast+
  have "parse_value F (Suc n) ctx \<noteq> None" if "2 * len ctx < Suc n" for ctx
  proof -
    have f: "2 * len ((advance 1 c1)\<lparr>jc_depth := x\<rparr>) + 1 < n"
      if "jalloc2 (skip_ws ctx) = (True, c1)" "jc_ptr (skip_ws ctx) \<noteq> []" for c1 x
    proof -
      have "len c1 = len (skip_ws ctx)" "0 < len (skip_ws ctx)" using jalloc2_len [OF that(1)] that(2) by auto
      then show ?thesis using skip_ws_len [of ctx] \<open>2 * len ctx < Suc n\<close>
        by (cases "jc_ptr (skip_ws ctx)") auto
    qed
    show ?thesis
    proof (cases "jc_ptr (skip_ws ctx) = []")
      case False
      show ?thesis using ih(2) [OF f [OF _ False]] ih(3) [OF f [OF _ False]]
        by (auto simp: Let_def split: prod.splits bool.splits)
    qed (simp add: Let_def)
  qed
  moreover have "parse_object F (Suc n) bs ctx \<noteq> None" if f: "2 * len ctx + 1 < Suc n" for bs ctx
  proof -
    note w = skip_ws_len [of ctx]
    have v: "parse_value F n (advance 1 (skip_ws c1)) \<noteq> None" if "parse_string_raw (skip_ws ctx) = (Some key, c1)" for key c1
      by (rule ih(1)) (use parse_string_raw_len [OF that] skip_ws_len [of c1] w f in simp)
    have o: "parse_object F n bs1 c5 \<noteq> None"
      if "parse_string_raw (skip_ws ctx) = (Some key, c1)" "parse_value F n (advance 1 (skip_ws c1)) = Some (Some val, c3)"
        "jmap_put c3 bs k val = (bs1, c4)" "after_item x y z c4 = (None, c5)" for key c1 val c3 k bs1 c4 x y z c5
      by (rule ih(2)) (use parse_string_raw_len [OF that(1)] skip_ws_len [of c1] parse_value_len [OF that(2)]
          jmap_put_len [OF that(3)] after_item_len [OF that(4)] w f in simp)
    show ?thesis using v o by (auto simp: Let_def split: prod.splits option.splits)
  qed
  moreover have "parse_array F (Suc n) xs cap ctx \<noteq> None" if f: "2 * len ctx + 1 < Suc n" for xs cap ctx
  proof -
    note w = skip_ws_len [of ctx]
    have v: "parse_value F n (skip_ws ctx) \<noteq> None" by (rule ih(1)) (use w f in simp)
    have a: "parse_array F n xs1 cap1 c5 \<noteq> None"
      if "parse_value F n (skip_ws ctx) = Some (Some val, c3)" "jlist_add c3 xs cap val = (xs1, cap1, c4)"
        "after_item x y z c4 = (None, c5)" for val c3 xs1 cap1 c4 x y z c5
      by (rule ih(3)) (use parse_value_len [OF that(1)] jlist_add_len [OF that(2)] after_item_len [OF that(3)] w f in simp)
    show ?thesis using v a by (auto simp: Let_def split: prod.splits option.splits)
  qed
  ultimately show ?case by blast
qed simp

lemma parse_value_defined: "2 * len ctx < n \<Longrightarrow> parse_value F n ctx \<noteq> None"
  using parse_defined_all by blast

section \<open>Properties\<close>


text \<open>What the printer writes is the text of the value, in one piece, or nothing when memory runs out; it
  never runs out of the buffer it has.\<close>

theorem impl_stringify_exact:
  assumes "json_ok F v 64"
  shows "case stringify_recursive F 0 v (sb_init mem) of sb \<Rightarrow>
           if jb_failed sb then impl_stringify F mem v = None \<and> False \<in> set mem
           else impl_stringify F mem v = Some (json_text F v) \<and> length (json_text F v) + 1 \<le> jb_capacity sb"
  using stringify_buffer [OF assms, of mem]
  by (auto simp: impl_stringify_def sb_finish_def split: if_splits)


text \<open>Integers as an instance of the number type, and a value with every kind of part.\<close>

definition int_fp :: "int fp" where
  "int_fp = \<lparr>fp_value = (\<lambda>t. (strtol10 t, False)), fp_zero = (\<lambda>d. d = 0), fp_infnan = (\<lambda>_. False),
             fp_g = format_d, fp_eq = (=), fp_int = (\<lambda>d. d)\<rparr>"

definition demo_json :: "int jobj" where
  "demo_json = J_MAP ((replicate 16 [])[6 := [([97], J_LIST [J_NUMBER 7, J_STRING [0xC3, 0xA9, 10], J_BOOL True, J_NULL])]])"

lemma demo_json_ok: "json_ok int_fp demo_json 64"
proof -
  have "decimal_text [55]"
    unfolding decimal_text_def by (intro exI [of _ "[]"] exI [of _ "[55]"]) simp
  moreover have "format_d 7 = [55]" by (simp add: format_d_def dec_digits.simps [of 7])
  moreover have "strtol10 [55] = 7" by (simp add: strtol10_def isspace_def ch_def)
  ultimately have n: "g_readable int_fp 7" by (simp add: g_readable_def int_fp_def)
  have "json_string_ok [97]" "json_string_ok [0xC3, 0xA9, 10]"
    unfolding json_string_ok_def
    by (rule exI [of _ "[97]"], simp add: json_char_def utf8_encode_def)
      (rule exI [of _ "[0xE9, 10]"], simp add: json_char_def utf8_encode_def)
  then have s: "json_key_ok [97]" "json_string_ok [0xC3, 0xA9, 10]" by (simp_all add: json_key_ok_def hm_key_ok_def)
  have h: "unat (hash_str [97]) mod 16 = 6" by (simp add: hash_str_def)
  define v :: "int jobj" where "v = J_LIST [J_NUMBER 7, J_STRING [0xC3, 0xA9, 10], J_BOOL True, J_NULL]"
  define bs where "bs = (replicate 16 [])[6 := [([97 :: byte], v)]]"
  have v: "json_ok int_fp v 63" using n s(2) by (simp add: v_def)
  have ok: "buckets_ok bs" using s(1) h by (simp add: buckets_ok_def nth_list_update bs_def)
  have "set bs \<subseteq> {[], [([97], v)]}"
    using set_update_subset_insert [of "replicate 16 []" 6 "[([97], v)]"] by (auto simp: bs_def)
  then have "\<forall>b \<in> set (map (map (map_prod id (json_ok int_fp))) bs). \<forall>m \<in> set b. 0 < (64 :: nat) \<and> snd m (64 - 1)"
    using v by auto
  with ok show ?thesis unfolding demo_json_def v_def [symmetric] bs_def [symmetric] by simp
qed

theorem impl_stringify_exact_witness:
  "case stringify_recursive int_fp 0 demo_json (sb_init [True, False]) of sb \<Rightarrow>
     if jb_failed sb then impl_stringify int_fp [True, False] demo_json = None
     else impl_stringify int_fp [True, False] demo_json = Some (json_text int_fp demo_json)"
  using impl_stringify_exact [OF demo_json_ok, of "[True, False]"] by (auto split: if_splits)


end
