(* ===== verification/Http_Bodies.thy ===== *)
theory Http_Bodies
  imports Http_Request Json_Roundtrip
begin

text \<open>
  Correctness of \<open>Http_Request\<close>: normalised paths are canonical and fit where the path was; no encoder leaves the block it
  measured; a form body decodes to the form with the decoder of \<open>Text_Encoder\<close>, and a JSON body is read by the
  parser of \<open>Json_Value\<close> as an object with the members of the form.
\<close>

section \<open>Paths\<close>

definition dots :: "cstring \<Rightarrow> bool" where
  "dots t \<longleftrightarrow> t = lit ''.'' \<or> t = lit ''..''"

lemma path_stack_tokens:
  assumes "t \<in> set (path_stack mem i stack ts)" "\<forall>x \<in> set stack. \<not> dots x"
  shows "(t \<in> set stack \<or> t \<in> set ts) \<and> \<not> dots t"
  using assms
proof (induction mem i stack ts rule: path_stack.induct)
  case (2 mem i stack token ts)
  then show ?case by (auto simp: dots_def split: if_splits dest: in_set_butlastD)
qed auto

lemma path_stack_plain: "\<forall>t \<in> set ts. \<not> dots t \<Longrightarrow> path_stack (\<lambda>_. True) i stack ts = stack @ ts"
  by (induction ts arbitrary: i stack) (auto simp: dots_def)

lemma path_stack_length:
  "length (concat (map ((#) 47) (path_stack mem i stack ts))) \<le> length (concat (map ((#) 47) (stack @ ts)))"
proof (induction mem i stack ts rule: path_stack.induct)
  case (2 mem i stack token ts)
  have "length (concat (map ((#) (47 :: byte)) (butlast stack))) \<le> length (concat (map ((#) 47) stack))"
    by (cases stack rule: rev_cases) auto
  with 2 show ?case by (auto split: if_splits)
qed simp

lemma join_path_slashes: "ts \<noteq> [] \<Longrightarrow> 47 # join_path ts = concat (map ((#) 47) ts)"
  by (induction ts rule: join_path.induct) (auto split: if_splits)

lemma join_path_length: "length (47 # join_path ts) \<le> length (concat (map ((#) (47 :: byte)) ts)) + (if ts = [] then 1 else 0)"
  using join_path_slashes [of ts] by (cases ts) (simp_all del: join_path.simps(2))

lemma strtok_join_path:
  assumes "\<forall>t \<in> set ts. t \<noteq> [] \<and> 47 \<notin> set t"
  shows "strtok (\<lambda>c. c = 47) (47 # join_path ts) = ts"
proof (cases "ts = []")
  case True
  then show ?thesis by (simp add: strtok_def)
next
  case False
  have "strtok (\<lambda>c. c = 47) (concat (map ((#) 47) ts)) = ts" by (rule strtok_join) (use assms in auto)
  then show ?thesis by (simp add: join_path_slashes [OF False])
qed

lemma strtok_slash_length:
  "s \<noteq> [] \<Longrightarrow> hd s = 47 \<Longrightarrow> length (concat (map ((#) (47 :: byte)) (strtok (\<lambda>c. c = 47) s))) \<le> length s"
proof -
  assume s: "s \<noteq> []" "hd s = 47"
  then obtain r where r: "s = 47 # r" by (cases s) auto
  then have "strtok (\<lambda>c. c = 47) s = strtok_acc (\<lambda>c. c = 47) [] r" by (simp add: strtok_def)
  with strtok_acc_length [of 47 "\<lambda>c. c = 47" "[]" r] r show ?thesis by simp
qed

section \<open>Encoders\<close>

lemma url_encode_char_bytes: "url_encode_char c = url_bytes c"
proof -
  have d: "unat (drop_bit 4 c) = unat c div 16" by (simp add: drop_bit_eq_div unat_div)
  have m: "unat (c AND 15) = unat c mod 16"
    using byte_nibbles(3) [of c] byte_nibbles(2) [of c] d by presburger
  show ?thesis by (auto simp: url_encode_char_def url_bytes_def url_unreserved_def d m lit_def ch_def)
qed

lemma url_encode_char_length: "length (url_encode_char c) = 1 \<or> length (url_encode_char c) = 3"
  by (simp add: url_encode_char_def)

lemma url_encode_loop_ok:
  "length out + 3 * length s < cap \<Longrightarrow> url_encode_loop cap out s = Some (out @ concat (map url_bytes s))"
proof (induction s arbitrary: out)
  case (Cons c s)
  then show ?case using url_encode_char_length [of c] by (auto simp: Let_def url_encode_char_bytes [symmetric])
qed simp

lemma request_url_encode_ok: "url_encode True (Some s) = Encoded (concat (map url_bytes s))"
  using url_encode_loop_ok [of "[]" s "length s * 3 + 1"] by (simp add: url_encode_def encoded_def)

lemma json_escape_char_length: "length (json_escape_char c) \<le> 6"
  by (simp add: json_escape_char_def lit_def)

lemma json_escape_loop_ok:
  "length out + 6 * length s < cap \<Longrightarrow> json_escape_loop cap out s = Some (out @ concat (map json_escape_char s))"
proof (induction s arbitrary: out)
  case (Cons c s)
  then show ?case using json_escape_char_length [of c] by (auto simp: Let_def)
qed simp

lemma json_escape_ok: "json_escape True (Some s) = Encoded (concat (map json_escape_char s))"
  using json_escape_loop_ok [of "[]" s "length s * 6 + 1"] by (simp add: json_escape_def encoded_def)

lemma filename_escape_loop_ok:
  "length out + 2 * length s < cap \<Longrightarrow> filename_escape_loop cap out s = Some (out @ concat (map filename_escape_char s))"
  by (induction s arbitrary: out) (auto simp: Let_def filename_escape_char_def)

lemma filename_escape_ok: "multipart_filename_escape True (Some s) = Encoded (concat (map filename_escape_char s))"
  using filename_escape_loop_ok [of "[]" s "length s * 2 + 1"] by (simp add: multipart_filename_escape_def encoded_def)

section \<open>Forms\<close>

abbreviation url_text :: "cstring \<Rightarrow> cstring" where "url_text s \<equiv> concat (map url_bytes s)"

definition form_pair :: "cstring \<times> cstring \<Rightarrow> cstring" where
  "form_pair kv = url_text (fst kv) @ 61 # url_text (snd kv)"

lemma form_loop_pairs:
  "form_loop (\<lambda>_. (True, True)) (Suc i) (map (map_prod id Some) kvs) = concat (map ((#) 38) (map form_pair kvs))"
  by (induction kvs arbitrary: i) (auto simp: request_url_encode_ok form_pair_def lit_def)

text \<open>How a server reads a form: pairs between \<^verbatim>\<open>&\<close>, key and value around the first \<^verbatim>\<open>=\<close>, both decoded.\<close>

definition form_decode :: "cstring \<Rightarrow> (cstring \<times> cstring) list" where
  "form_decode body = map (\<lambda>p. case strchr p 61 of None \<Rightarrow> (url_decoded p, [])
     | Some i \<Rightarrow> (url_decoded (take i p), url_decoded (drop (Suc i) p))) (strtok (\<lambda>c. c = 38) body)"

lemma url_text_chars: "x \<in> set (url_text s) \<Longrightarrow> x \<noteq> 61 \<and> x \<noteq> 38"
  using url_bytes_safe [of x] by (force simp: url_unreserved_def ch_def)

lemma form_pair_decode:
  "(case strchr (form_pair kv) 61 of None \<Rightarrow> (url_decoded (form_pair kv), [])
     | Some i \<Rightarrow> (url_decoded (take i (form_pair kv)), url_decoded (drop (Suc i) (form_pair kv)))) = kv"
proof -
  have "61 \<notin> set (url_text (fst kv))" using url_text_chars by blast
  from strchr_append [OF this, of "url_text (snd kv)"] show ?thesis
    by (simp add: form_pair_def url_decoded_encoded)
qed

lemma form_body_text:
  "kvs \<noteq> [] \<Longrightarrow> form_loop (\<lambda>_. (True, True)) 0 (map (map_prod id Some) kvs)
     = form_pair (hd kvs) @ concat (map ((#) 38) (map form_pair (tl kvs)))"
  by (cases kvs) (auto simp: form_loop_pairs [simplified] request_url_encode_ok form_pair_def lit_def)

lemma strtok_form:
  "strtok (\<lambda>c. c = 38) (form_pair kv @ concat (map ((#) 38) (map form_pair kvs))) = map form_pair (kv # kvs)"
proof -
  have ok: "form_pair x \<noteq> [] \<and> (\<forall>c \<in> set (form_pair x). c \<noteq> 38)" for x
    using url_text_chars by (fastforce simp: form_pair_def)
  have "strtok_acc (\<lambda>c. c = 38) [] (form_pair kv @ concat (map ((#) 38) (map form_pair kvs)))
      = strtok_acc (\<lambda>c. c = 38) ([] @ form_pair kv) (concat (map ((#) 38) (map form_pair kvs)))"
    by (rule strtok_acc_plain) (use ok in blast)
  also have "\<dots> = map form_pair (kv # kvs)"
    using strtok_acc_join [of "\<lambda>c. c = 38" 38 "map form_pair kvs" "form_pair kv"] ok by auto
  finally show ?thesis by (simp add: strtok_def)
qed

section \<open>JSON\<close>

lemma json_string_ok_bytes: "json_string_ok s \<Longrightarrow> b \<in> set s \<Longrightarrow> 0x20 \<le> b \<or> b \<in> {8, 9, 10, 12, 13}"
proof (induction rule: json_string_ok_induct)
  case (many u s)
  then show ?case by (auto intro: order_trans [of "0x20" "0x80"])
qed auto

lemma json_escape_char_esc: "0x20 \<le> b \<or> b \<in> {8, 9, 10, 12, 13} \<Longrightarrow> json_escape_char b = esc b"
  by (auto simp: json_escape_char_def esc_def escape_letter_def lit_def not_less)

lemma json_escape_text: "json_string_ok s \<Longrightarrow> concat (map json_escape_char s) = concat (map esc s)"
  using json_string_ok_bytes [of s] json_escape_char_esc by (metis (no_types, lifting) map_cong)

abbreviation members :: "(cstring \<times> cstring) list \<Rightarrow> (cstring \<times> 'd jobj) list" where
  "members kvs \<equiv> map (map_prod id J_STRING) kvs"

lemma json_loop_members:
  "\<forall>kv \<in> set kvs. json_string_ok (fst kv) \<and> json_string_ok (snd kv) \<Longrightarrow>
     json_loop (\<lambda>_. (True, True)) (Suc i) (map (map_prod id Some) kvs) = concat (map ((#) 44) (map (member F) (members kvs)))"
proof (induction kvs arbitrary: i)
  case (Cons kv kvs)
  then show ?case
    by (cases kv) (simp add: json_escape_ok json_escape_text member_def json_string_def lit_def)
qed simp

lemma json_body_text:
  "\<forall>kv \<in> set kvs. json_string_ok (fst kv) \<and> json_string_ok (snd kv) \<Longrightarrow>
     json_loop (\<lambda>_. (True, True)) 0 (map (map_prod id Some) kvs) = commas (map (member F) (members kvs))"
proof (cases kvs)
  case (Cons kv kvs')
  assume ok: "\<forall>kv \<in> set kvs. json_string_ok (fst kv) \<and> json_string_ok (snd kv)"
  then have "json_loop (\<lambda>_. (True, True)) (Suc 0) (map (map_prod id Some) kvs') = concat (map ((#) 44) (map (member F) (members kvs')))"
    by (intro json_loop_members) (use ok Cons in simp)
  with ok Cons show ?thesis
    by (cases kv) (simp add: commas_Cons json_escape_ok json_escape_text member_def json_string_def del: map_map)
qed simp

text \<open>What is put into the buckets of a parsed object can be looked up.\<close>

definition keys_ok :: "(cstring \<times> 'v) list list \<Rightarrow> bool" where
  "keys_ok bs \<longleftrightarrow> length bs = 16 \<and> (\<forall>b \<in> set bs. list_all hm_key_ok (map fst b))"

lemma keys_ok_nth: "keys_ok bs \<Longrightarrow> list_all hm_key_ok (map fst (bs ! (n mod 16)))"
  by (simp add: keys_ok_def)

lemma put_node_alt:
  "length bs = 16 \<Longrightarrow> put_node bs (k, v) = (let i = unat (hash_str k) mod 16 in
     bs[i := (case chain_get k (bs ! i) of Some _ \<Rightarrow> chain_set k v (bs ! i) | None \<Rightarrow> (k, v) # bs ! i)])"
  by (simp add: put_node_def Let_def split: option.splits)

lemma put_node_ok:
  assumes "keys_ok bs" "hm_key_ok k"
  shows "keys_ok (put_node bs (k, v))"
proof -
  let ?i = "unat (hash_str k) mod 16"
  have b: "list_all hm_key_ok (map fst (bs ! ?i))" by (rule keys_ok_nth [OF assms(1)])
  have l: "length bs = 16" using assms(1) by (simp add: keys_ok_def)
  have "list_all hm_key_ok (map fst (case chain_get k (bs ! ?i) of Some _ \<Rightarrow> chain_set k v (bs ! ?i) | None \<Rightarrow> (k, v) # bs ! ?i))"
    using b assms(2) by (simp split: option.splits)
  with assms(1) l show ?thesis
    by (auto simp: keys_ok_def put_node_alt Let_def dest!: set_update_subset_insert [THEN subsetD])
qed

lemma put_node_get:
  assumes "keys_ok bs" "hm_key_ok k" "hm_key_ok x"
  shows "jmap_get (put_node bs (k, v)) x = (if x = k then Some v else jmap_get bs x)"
proof -
  let ?i = "unat (hash_str k) mod 16"
  let ?b = "bs ! ?i"
  let ?b1 = "case chain_get k ?b of Some _ \<Rightarrow> chain_set k v ?b | None \<Rightarrow> (k, v) # ?b"
  have b: "list_all hm_key_ok (map fst ?b)" by (rule keys_ok_nth [OF assms(1)])
  have l: "length bs = 16" using assms(1) by (simp add: keys_ok_def)
  have g: "chain_get x ?b = map_of ?b x" "chain_get k ?b = map_of ?b k"
    using chain_get_map_of [OF b] assms(2,3) by simp_all
  have b1: "list_all hm_key_ok (map fst ?b1)" using b assms(2) by (simp split: option.splits)
  have "chain_get x ?b1 = map_of ?b1 x" by (rule chain_get_map_of [OF b1 assms(3)])
  also have "\<dots> = ((map_of ?b)(k \<mapsto> v)) x"
    using chain_set_map_of [OF b assms(2)] g(2) by (simp split: option.splits)
  finally have c: "chain_get x ?b1 = (if x = k then Some v else chain_get x ?b)" using g(1) by simp
  have pn: "put_node bs (k, v) = bs[?i := ?b1]" by (simp add: put_node_alt [OF l] Let_def)
  show ?thesis
  proof (cases "unat (hash_str x) mod 16 = ?i")
    case True
    with c l show ?thesis unfolding pn by (simp add: jmap_get_def)
  next
    case False
    with l show ?thesis unfolding pn by (auto simp: jmap_get_def)
  qed
qed

lemma foldl_put_node_get:
  assumes "keys_ok bs" "\<forall>m \<in> set ms. hm_key_ok (fst m)" "hm_key_ok x"
  shows "jmap_get (foldl put_node bs ms) x = (case map_of (rev ms) x of Some v \<Rightarrow> Some v | None \<Rightarrow> jmap_get bs x)"
  using assms
proof (induction ms arbitrary: bs)
  case (Cons m ms)
  obtain k v where m: "m = (k, v)" by (cases m)
  have k: "hm_key_ok k" using Cons.prems(2) m by simp
  have "jmap_get (foldl put_node (put_node bs m) ms) x
      = (case map_of (rev ms) x of Some v \<Rightarrow> Some v | None \<Rightarrow> jmap_get (put_node bs m) x)"
    by (rule Cons.IH) (use Cons.prems put_node_ok [OF Cons.prems(1) k] m in auto)
  with put_node_get [OF Cons.prems(1) k Cons.prems(3)] m show ?case
    by (auto simp: map_add_def split: option.splits)
qed simp

lemma parse_json_object:
  fixes F :: "'d fp"
  assumes "\<forall>kv \<in> set kvs. json_string_ok (fst kv) \<and> json_string_ok (snd kv)"
    and "body = 123 # commas (map (member F) (members kvs)) @ [125]"
  shows "parse_value F (json_fuel body) (json_ctx [] body)
    = Some (Some (J_MAP (foldl put_node (replicate 16 []) (members kvs))), (json_ctx [] body)\<lparr>jc_ptr := []\<rparr>)"
proof -
  let ?q = "commas (map (member F) (members kvs)) @ [125]"
  let ?ctx = "json_ctx [] body"
  let ?c = "?ctx\<lparr>jc_ptr := ?q, jc_depth := 1\<rparr>"
  have ptr: "jc_ptr ?ctx = 123 # ?q" "jc_mem ?ctx = []" "jc_depth ?ctx = 0" by (simp_all add: json_ctx_def assms(2))
  have ws: "skip_ws ?ctx = ?ctx" using ptr by (simp add: skip_ws_def isspace_def)
  have fuel: "json_fuel body = Suc (2 * length body)" "2 * length ?q + 1 < 2 * length body"
    by (simp_all add: json_fuel_def assms(2))
  have "parse_value F (json_fuel body) ?ctx = parse_object F (2 * length body) (replicate 16 []) ?c"
    using ptr ws by (simp add: fuel(1) Let_def jalloc2_def jalloc_def)
  also have "\<dots> = Some (Some (J_MAP (foldl put_node (replicate 16 []) (members kvs))), ?ctx\<lparr>jc_ptr := []\<rparr>)"
  proof (cases "kvs = []")
    case True
    obtain m1 where "2 * length body = Suc m1" using assms(2) by (cases "2 * length body") auto
    with True ptr(3) show ?thesis by (simp add: skip_ws_def isspace_def)
  next
    case False
    have "parses F (Suc 0) (snd m) \<and> json_string_ok (fst m)" if "m \<in> set (members kvs)" for m
      using that assms(1) parses_ok [of F "snd m" 0 "Suc 0"] by auto
    moreover have "members kvs \<noteq> []" using False by simp
    moreover have "map (map_prod id flip_chains) (members kvs) = (members kvs :: (cstring \<times> 'd jobj) list)" by auto
    ultimately show ?thesis
      using parse_object_members [of "members kvs" F 0 ?c "[]" "2 * length body" "replicate 16 []"] fuel(2) ptr
      by (simp del: map_map)
  qed
  finally show ?thesis .
qed

section \<open>Theorems\<close>

text \<open>A normalised path starts with a slash, has no empty, \<^verbatim>\<open>.\<close> or \<^verbatim>\<open>..\<close> segment, is not changed by normalising again, and
  is written over the old path without leaving its room, if that started with a slash; for other paths it may
  need one byte more.\<close>

theorem normalize_path_canonical:
  assumes "p \<noteq> []"
  shows "\<exists>ts. normalize_path True True (\<lambda>_. True) p = 47 # join_path ts
    \<and> strtok (\<lambda>c. c = 47) (normalize_path True True (\<lambda>_. True) p) = ts
    \<and> (\<forall>t \<in> set ts. t \<noteq> [] \<and> 47 \<notin> set t \<and> t \<noteq> lit ''.'' \<and> t \<noteq> lit ''..'')
    \<and> normalize_path True True (\<lambda>_. True) (normalize_path True True (\<lambda>_. True) p) = normalize_path True True (\<lambda>_. True) p
    \<and> (hd p = 47 \<longrightarrow> length (normalize_path True True (\<lambda>_. True) p) \<le> length p)
    \<and> length (normalize_path True True (\<lambda>_. True) p) \<le> length p + 1"
proof -
  let ?toks = "strtok (\<lambda>c. c = 47) p"
  let ?ts = "path_stack (\<lambda>_. True) 0 [] ?toks"
  have n: "normalize_path True True (\<lambda>_. True) p = 47 # join_path ?ts" using assms by (simp add: normalize_path_def)
  have t: "t \<noteq> [] \<and> 47 \<notin> set t \<and> \<not> dots t" if "t \<in> set ?ts" for t
    using path_stack_tokens [OF that] strtok_tokens [of t "\<lambda>c. c = 47" p] by auto
  have s: "strtok (\<lambda>c. c = 47) (47 # join_path ?ts) = ?ts" using strtok_join_path t by blast
  have again: "normalize_path True True (\<lambda>_. True) (47 # join_path ?ts) = 47 # join_path ?ts"
    using path_stack_plain [of ?ts 0 "[]"] t s by (simp add: normalize_path_def)
  have len: "length (concat (map ((#) (47 :: byte)) ?ts)) \<le> length (concat (map ((#) 47) ?toks))"
    using path_stack_length [of "\<lambda>_. True" 0 "[]" ?toks] by simp
  have "length (concat (map ((#) (47 :: byte)) ?toks)) \<le> length p + 1"
    using strtok_acc_length [of 47 "\<lambda>c. c = 47" "[]" p] by (simp add: strtok_def)
  with len join_path_length [of ?ts] assms have l1: "length (47 # join_path ?ts) \<le> length p + 1"
    by (cases "?ts = []") simp_all
  have l2: "length (47 # join_path ?ts) \<le> length p" if "hd p = 47"
    using strtok_slash_length [OF assms that] len join_path_length [of ?ts] assms
    by (cases "?ts = []"; cases p) (simp_all del: join_path.simps(2))
  show ?thesis using n s again l1 l2 t by (intro exI [of _ ?ts]) (simp add: dots_def)
qed

theorem normalize_path_canonical_witness:
  "normalize_path True True (\<lambda>_. True) (lit ''/a/./b/../c//d'') = lit ''/a/c/d''
   \<and> normalize_path True True (\<lambda>_. True) (lit ''/a/c/d'') = lit ''/a/c/d''"
proof -
  have ne: "lit ''/a/./b/../c//d'' \<noteq> []" by (simp add: lit_def)
  have eq: "normalize_path True True (\<lambda>_. True) (lit ''/a/./b/../c//d'') = lit ''/a/c/d''"
    by (simp add: normalize_path_def strtok_def lit_def)
  from normalize_path_canonical [OF ne] show ?thesis unfolding eq by blast
qed

text \<open>Forms survive the trip: the body that \<^verbatim>\<open>build_form_body\<close> makes of any keys and values, taken apart at \<^verbatim>\<open>&\<close> and \<^verbatim>\<open>=\<close>
  and decoded, gives the same keys and values in the same order, and the encoders never leave their blocks.\<close>

theorem build_form_body_roundtrip:
  assumes "kvs \<noteq> []"
  shows "\<exists>body. build_form_body True True True (\<lambda>_. (True, True)) (Some (map (map_prod id Some) kvs)) = Some body
    \<and> form_decode body = kvs"
proof -
  obtain kv r where k: "kvs = kv # r" using assms by (cases kvs) auto
  let ?body = "form_pair kv @ concat (map ((#) 38) (map form_pair r))"
  have "build_form_body True True True (\<lambda>_. (True, True)) (Some (map (map_prod id Some) kvs)) = Some ?body"
    using form_body_text [OF assms] k by (simp add: build_form_body_def)
  moreover have "form_decode ?body = kvs"
    unfolding form_decode_def strtok_form k by (simp only: map_map) (rule map_idI, simp only: comp_def form_pair_decode)
  ultimately show ?thesis by blast
qed

theorem build_form_body_roundtrip_witness:
  "\<exists>body. build_form_body True True True (\<lambda>_. (True, True)) (Some [(lit ''a b'', Some (lit ''1&2=3''))]) = Some body
     \<and> form_decode body = [(lit ''a b'', lit ''1&2=3'')]"
  using build_form_body_roundtrip [of "[(lit ''a b'', lit ''1&2=3'')]"] by simp

lemma json_body_object:
  fixes F :: "'d fp"
  assumes "\<forall>kv \<in> set kvs. json_key_ok (fst kv) \<and> json_string_ok (snd kv)" "distinct (map fst kvs)"
  shows "\<exists>body bs. build_json_body True True True (\<lambda>_. (True, True)) (Some (map (map_prod id Some) kvs)) = Some body
    \<and> parse_JSON F [] body = Some \<lparr>pr_root = Some \<lparr>core_data = J_MAP bs, is_object_flag = True, is_array_flag = False\<rparr>,
         pr_success = True, pr_error = []\<rparr>
    \<and> (\<forall>(k, v) \<in> set kvs. jmap_get bs k = Some (J_STRING v))"
proof -
  have ok: "\<forall>kv \<in> set kvs. json_string_ok (fst kv) \<and> json_string_ok (snd kv)" using assms(1) by (auto simp: json_key_ok_def)
  let ?body = "123 # commas (map (member F) (members kvs)) @ [125]"
  let ?bs = "foldl put_node (replicate 16 []) (members kvs)"
  have b: "build_json_body True True True (\<lambda>_. (True, True)) (Some (map (map_prod id Some) kvs)) = Some ?body"
    using json_body_text [OF ok, of F] by (simp add: build_json_body_def lit_def)
  have p: "parse_JSON F [] ?body = Some \<lparr>pr_root = Some \<lparr>core_data = J_MAP ?bs, is_object_flag = True, is_array_flag = False\<rparr>,
         pr_success = True, pr_error = []\<rparr>"
    unfolding parse_JSON_def parse_json_object [OF ok refl]
    by (simp add: json_ctx_def skip_ws_def jalloc_def)
  have "jmap_get ?bs k = Some (J_STRING v :: 'd jobj)" if "(k, v) \<in> set kvs" for k v
  proof -
    have "map_of (rev (members kvs)) k = Some (J_STRING v :: 'd jobj)"
      by (rule map_of_is_SomeI) (use assms(2) that in \<open>force simp: rev_map [symmetric]\<close>)+
    moreover have "keys_ok (replicate 16 [] :: (cstring \<times> 'd jobj) list list)" by (simp add: keys_ok_def)
    moreover have "hm_key_ok k" "\<forall>m \<in> set (members kvs :: (cstring \<times> 'd jobj) list). hm_key_ok (fst m)"
      using assms(1) that by (auto simp: json_key_ok_def)
    ultimately show ?thesis by (simp add: foldl_put_node_get)
  qed
  with b p show ?thesis by blast
qed



text \<open>A key without a value in first place leaves a separator in front of the next pair.\<close>

lemma build_json_body_null_first:
  "build_json_body True True True (\<lambda>_. (True, True)) (Some [(lit ''a'', None), (lit ''b'', Some (lit ''c''))])
     = Some (lit [CHR ''{'', CHR '','', CHR 0x22, CHR ''b'', CHR 0x22, CHR '':'', CHR 0x22, CHR ''c'', CHR 0x22, CHR ''}''])"
  by (simp add: build_json_body_def json_escape_ok json_escape_char_def lit_def)

end
