(* ===== verification/Http_Transport.thy ===== *)
theory Http_Transport
  imports C_Strings "HOL-Library.Monad_Syntax"
begin

text \<open>
  \<^verbatim>\<open>src/src/http_transport.c\<close> and the address parser of \<^verbatim>\<open>src/src/socket_base.c\<close>: a connection of the HTTP client, read
  byte by byte through a buffer and line by line on top of that.
  \<^item> The socket is the list of the answers its \<^verbatim>\<open>recv\<close> and \<^verbatim>\<open>send\<close> will give: data, or a result \<open>n \<le> 0\<close> with the
    value of \<^verbatim>\<open>errno\<close>; when the list is used up, the connection is broken. Data that does not fit the buffer of a
    \<^verbatim>\<open>recv\<close> stays in the socket.
  \<^item> A reader that fails returns \<open>None\<close>; the transport is not used after that.
  \<^item> \<open>recv_line\<close> and everything built on it takes the byte reader as an argument \<open>getc\<close>: \<^verbatim>\<open>HttpTransport_getc\<close> for
    the code, \<open>lgetc\<close>, which reads a list of bytes, for the specification. The locale \<open>byte_source\<close> says what the
    readers need of it and shows that they only see the byte stream.
\<close>

section \<open>Addresses\<close>

text \<open>The loop of \<^verbatim>\<open>parse_port_strict_n\<close>; the values stay below 65536, so \<^verbatim>\<open>uint32_t\<close> cannot wrap.\<close>

fun port_loop :: "nat \<Rightarrow> cstring \<Rightarrow> nat option" where
  "port_loop v [] = Some v"
| "port_loop v (c # s) =
     (if c < 48 \<or> c > 57 then None
      else let d = unat c - 48
           in if v > (65535 - d) div 10 then None else port_loop (v * 10 + d) s)"

definition parse_port_strict_n :: "cstring \<Rightarrow> nat option" where
  "parse_port_strict_n s =
     (if s = [] then None
      else case port_loop 0 s of None \<Rightarrow> None | Some v \<Rightarrow> if v = 0 then None else Some v)"

definition parse_port_strict :: "cstring \<Rightarrow> nat option" where
  "parse_port_strict s = parse_port_strict_n s"

text \<open>The map \<^verbatim>\<open>parse_url\<close> returns, by its four keys. Strings are stored as far as memory allows: \<open>mem k\<close> answers for
  the value of key \<open>k\<close>.\<close>

record url_info =
  u_scheme :: "cstring option"
  u_host :: "cstring option"
  u_port :: "cstring option"
  u_path :: "cstring option"

definition url_put :: "(nat \<Rightarrow> bool) \<Rightarrow> nat \<Rightarrow> cstring \<Rightarrow> cstring option" where
  "url_put mem k v = (if mem k then Some v else None)"

definition cut :: "nat \<Rightarrow> nat \<Rightarrow> nat" where
  "cut sz len = (if len \<ge> sz then sz - 1 else len)"

definition url_authority :: "(nat \<Rightarrow> bool) \<Rightarrow> cstring \<Rightarrow> cstring \<Rightarrow> url_info" where
  "url_authority mem scheme rest =
     (let path_start = strchr rest (ch CHR ''/'');
          path = (case path_start of None \<Rightarrow> None | Some i \<Rightarrow> url_put mem 3 (drop i rest));
          hostport_len = (case path_start of None \<Rightarrow> length rest | Some i \<Rightarrow> i);
          hostport = take (cut 256 hostport_len) rest
      in case strrchr hostport (ch CHR '':'') of
           Some i \<Rightarrow> \<lparr>u_scheme = url_put mem 0 scheme, u_host = url_put mem 1 (take (cut 256 i) hostport),
                       u_port = url_put mem 2 (drop (i + 1) hostport), u_path = path\<rparr>
         | None \<Rightarrow> \<lparr>u_scheme = url_put mem 0 scheme, u_host = url_put mem 1 hostport, u_port = None, u_path = path\<rparr>)"

definition parse_url :: "bool \<Rightarrow> (nat \<Rightarrow> bool) \<Rightarrow> cstring \<Rightarrow> url_info option" where
  "parse_url mem_map mem url =
     (if \<not> mem_map then None
      else case strstr url (lit ''://'') of None \<Rightarrow> None
      | Some sep \<Rightarrow>
          let scheme = take (cut 16 sep) url;
              rest = drop (sep + 3) url
          in if strncmp_eq scheme (lit ''unix'') 16
             then Some \<lparr>u_scheme = url_put mem 0 scheme, u_host = None, u_port = url_put mem 2 (lit ''0''),
                        u_path = url_put mem 3 rest\<rparr>
             else Some (url_authority mem scheme rest))"

section \<open>The connection\<close>

datatype rx = Rx_data "byte list" | Rx_none int int

abbreviation SOCKET_WOULD_BLOCK :: int where "SOCKET_WOULD_BLOCK \<equiv> - 2"
abbreviation E_INTR :: int where "E_INTR \<equiv> 4"
abbreviation E_AGAIN :: int where "E_AGAIN \<equiv> 11"

definition retry :: "int \<Rightarrow> int \<Rightarrow> bool" where
  "retry n errno \<longleftrightarrow> n = SOCKET_WOULD_BLOCK \<or> errno = E_INTR \<or> errno = E_AGAIN"

record socket =
  so_rx :: "rx list"
  so_tx :: "(int \<times> int) list"
  so_sent :: "byte list"

record HttpTransport =
  ht_sock :: socket
  ht_host :: cstring
  ht_path :: cstring
  ht_port :: nat
  ht_scheme :: cstring
  ht_read_buf :: "byte list"
  ht_read_pos :: nat
  ht_read_end :: int

text \<open>\<^verbatim>\<open>HttpTransport_connect\<close>; \<open>open_sock\<close> is what the socket layer makes of TLS or not, host and port; the allocations
  are the URL map, its values and the transport. The copies of host and path are not checked: without memory
  they are NULL (no result).\<close>

definition HttpTransport_connect ::
  "(bool \<Rightarrow> cstring \<Rightarrow> nat \<Rightarrow> socket option) \<Rightarrow> bool \<Rightarrow> (nat \<Rightarrow> bool) \<Rightarrow> bool \<Rightarrow> cstring \<Rightarrow> HttpTransport option" where
  "HttpTransport_connect open_sock mem_map mem mem_tr url =
     (case parse_url mem_map mem url of None \<Rightarrow> None
      | Some info \<Rightarrow>
          case (u_scheme info, u_host info) of
            (Some scheme, Some host) \<Rightarrow>
              (let https = strcasecmp_eq scheme (lit ''https'');
                   port = (case u_port info of None \<Rightarrow> Some (if https then 443 else 80) | Some p \<Rightarrow> parse_port_strict p)
               in case port of None \<Rightarrow> None
                  | Some port \<Rightarrow>
                      (case (if https then open_sock True host port
                             else if strcasecmp_eq scheme (lit ''http'') then open_sock False host port else None) of
                         None \<Rightarrow> None
                       | Some sock \<Rightarrow>
                           if \<not> mem_tr then None
                           else Some \<lparr>ht_sock = sock, ht_host = host,
                                  ht_path = (case u_path info of Some p \<Rightarrow> if p \<noteq> [] then p else lit ''/'' | None \<Rightarrow> lit ''/''),
                                  ht_port = port, ht_scheme = take 15 scheme,
                                  ht_read_buf = replicate 8192 0, ht_read_pos = 0, ht_read_end = 0\<rparr>))
          | _ \<Rightarrow> None)"

text \<open>\<^verbatim>\<open>recv(sock, buf, len)\<close> until it gives data or an error that is not worth another try.\<close>

fun recv_retry :: "nat \<Rightarrow> rx list \<Rightarrow> (byte list \<times> rx list) option" where
  "recv_retry len [] = None"
| "recv_retry len (Rx_data bs # rx) =
     (if bs = [] then recv_retry len rx
      else Some (take len bs, if length bs \<le> len then rx else Rx_data (drop len bs) # rx))"
| "recv_retry len (Rx_none n errno # rx) = (if retry n errno then recv_retry len rx else None)"

definition HttpTransport_recv :: "HttpTransport \<Rightarrow> nat \<Rightarrow> (byte list \<times> HttpTransport) option" where
  "HttpTransport_recv self len =
     (if len = 0 then None
      else do { (bs, rx) \<leftarrow> recv_retry len (so_rx (ht_sock self));
                Some (bs, self\<lparr>ht_sock := (ht_sock self)\<lparr>so_rx := rx\<rparr>\<rparr>) })"

definition HttpTransport_getc :: "HttpTransport \<Rightarrow> (byte \<times> HttpTransport) option" where
  "HttpTransport_getc self =
     (if int (ht_read_pos self) \<ge> ht_read_end self
      then do { (bs, rx) \<leftarrow> recv_retry 8192 (so_rx (ht_sock self));
                let buf = bs @ drop (length bs) (ht_read_buf self);
                Some (buf ! 0, self\<lparr>ht_sock := (ht_sock self)\<lparr>so_rx := rx\<rparr>,
                  ht_read_buf := buf, ht_read_end := int (length bs), ht_read_pos := 1\<rparr>) }
      else Some (ht_read_buf self ! ht_read_pos self, self\<lparr>ht_read_pos := ht_read_pos self + 1\<rparr>))"

text \<open>\<^verbatim>\<open>HttpTransport_send\<close>: the loop over the answers of \<^verbatim>\<open>send\<close>; the bytes that were taken are appended to \<open>so_sent\<close>.\<close>

fun send_loop :: "(int \<times> int) list \<Rightarrow> byte list \<Rightarrow> bool \<times> byte list \<times> (int \<times> int) list" where
  "send_loop tx [] = (True, [], tx)"
| "send_loop [] buf = (False, [], [])"
| "send_loop ((n, errno) # tx) buf =
     (if n \<le> 0 then (if retry n errno then send_loop tx buf else (False, [], tx))
      else case send_loop tx (drop (nat n) buf) of (ok, sent, tx1) \<Rightarrow> (ok, take (nat n) buf @ sent, tx1))"

definition HttpTransport_send :: "HttpTransport \<Rightarrow> byte list \<Rightarrow> bool \<times> HttpTransport" where
  "HttpTransport_send self buf =
     (case send_loop (so_tx (ht_sock self)) buf of
        (ok, sent, tx) \<Rightarrow> (ok, self\<lparr>ht_sock := (ht_sock self)\<lparr>so_tx := tx, so_sent := so_sent (ht_sock self) @ sent\<rparr>\<rparr>))"

section \<open>Lines\<close>

text \<open>The loop of \<^verbatim>\<open>HttpTransport_recv_line\<close>; \<open>left\<close> is \<^verbatim>\<open>max_len - 1 - consumed\<close>.\<close>

fun recv_line_loop :: "('t \<Rightarrow> (byte \<times> 't) option) \<Rightarrow> nat \<Rightarrow> nat \<Rightarrow> cstring \<Rightarrow> 't \<Rightarrow> ((nat \<times> cstring) \<times> 't) option" where
  "recv_line_loop getc 0 consumed line t = None"
| "recv_line_loop getc (Suc left) consumed line t =
     do { (c, t1) \<leftarrow> getc t;
          if c = 0 then None
          else if c = 10 then Some ((consumed + 1, line), t1)
          else if c = 13 then
            if left = 0 then None
            else do { (d, t2) \<leftarrow> getc t1;
                      if d \<noteq> 10 then None else Some ((consumed + 2, line), t2) }
          else recv_line_loop getc left (consumed + 1) (line @ [c]) t1 }"

definition HttpTransport_recv_line :: "('t \<Rightarrow> (byte \<times> 't) option) \<Rightarrow> int \<Rightarrow> 't \<Rightarrow> ((nat \<times> cstring) \<times> 't) option" where
  "HttpTransport_recv_line getc max_len t =
     (if max_len < 2 then None else recv_line_loop getc (nat (max_len - 1)) 0 [] t)"

section \<open>Byte sources\<close>

text \<open>A list of bytes as a source.\<close>

fun lgetc :: "byte list \<Rightarrow> (byte \<times> byte list) option" where
  "lgetc [] = None"
| "lgetc (c # cs) = Some (c, cs)"

locale byte_source =
  fixes getc :: "'t \<Rightarrow> (byte \<times> 't) option" and stream :: "'t \<Rightarrow> byte list"
  assumes getc_stream: "map_option (apsnd stream) (getc t) = lgetc (stream t)"
begin

text \<open>Reading a byte from the list is reading one from the source.\<close>

lemma bind_lgetc: "Option.bind (lgetc (stream t)) k = Option.bind (getc t) (\<lambda>(c, t1). k (c, stream t1))"
  by (cases "getc t") (auto simp flip: getc_stream)

lemma recv_line_loop_stream:
  "map_option (apsnd stream) (recv_line_loop getc left consumed line t)
     = recv_line_loop lgetc left consumed line (stream t)"
proof (induction left arbitrary: consumed line t)
  case (Suc left)
  show ?case
  proof (cases "getc t")
    case None
    then show ?thesis by (simp add: bind_lgetc)
  next
    case (Some r)
    then obtain c t1 where r: "getc t = Some (c, t1)" by (cases r) auto
    show ?thesis by (cases "getc t1") (auto simp: bind_lgetc r Suc.IH)
  qed
qed simp

lemma recv_line_stream:
  "map_option (apsnd stream) (HttpTransport_recv_line getc max_len t)
     = HttpTransport_recv_line lgetc max_len (stream t)"
  by (simp add: HttpTransport_recv_line_def recv_line_loop_stream)

end

section \<open>The connection as a byte source\<close>

text \<open>The bytes the socket delivers before it fails.\<close>

fun rx_bytes :: "rx list \<Rightarrow> byte list" where
  "rx_bytes [] = []"
| "rx_bytes (Rx_data bs # rx) = bs @ rx_bytes rx"
| "rx_bytes (Rx_none n errno # rx) = (if retry n errno then rx_bytes rx else [])"

definition ht_stream :: "HttpTransport \<Rightarrow> byte list" where
  "ht_stream t = map (\<lambda>i. ht_read_buf t ! i) [ht_read_pos t ..< nat (ht_read_end t)] @ rx_bytes (so_rx (ht_sock t))"

lemma recv_retry_bytes:
  "0 < len \<Longrightarrow> case recv_retry len rx of None \<Rightarrow> rx_bytes rx = []
     | Some (bs, rx1) \<Rightarrow> rx_bytes rx = bs @ rx_bytes rx1 \<and> bs \<noteq> [] \<and> length bs \<le> len"
  by (induction len rx rule: recv_retry.induct) (auto split: option.splits)

lemma getc_buffered:
  assumes "int (ht_read_pos t) < ht_read_end t"
  shows "map_option (apsnd ht_stream) (HttpTransport_getc t) = lgetc (ht_stream t)"
proof -
  have "[ht_read_pos t ..< nat (ht_read_end t)] = ht_read_pos t # [Suc (ht_read_pos t) ..< nat (ht_read_end t)]"
    using assms by (intro upt_conv_Cons) linarith
  with assms show ?thesis by (simp add: HttpTransport_getc_def ht_stream_def)
qed

lemma getc_refill:
  assumes "\<not> int (ht_read_pos t) < ht_read_end t"
  shows "map_option (apsnd ht_stream) (HttpTransport_getc t) = lgetc (ht_stream t)"
proof -
  have empty: "[ht_read_pos t ..< nat (ht_read_end t)] = []" using assms by simp
  show ?thesis
  proof (cases "recv_retry 8192 (so_rx (ht_sock t))")
    case None
    with recv_retry_bytes [of 8192 "so_rx (ht_sock t)"] assms empty show ?thesis
      by (simp add: HttpTransport_getc_def ht_stream_def)
  next
    case (Some r)
    then obtain bs rx where r: "recv_retry 8192 (so_rx (ht_sock t)) = Some (bs, rx)" by (cases r) auto
    with recv_retry_bytes [of 8192 "so_rx (ht_sock t)"] obtain b bs1 where
      bs: "rx_bytes (so_rx (ht_sock t)) = bs @ rx_bytes rx" "bs = b # bs1" by (cases bs) auto
    have "map (\<lambda>i. (bs @ drop (length bs) (ht_read_buf t)) ! i) [1 ..< length bs] = bs1"
      by (rule nth_equalityI) (simp_all add: bs(2) nth_append del: upt_Suc)
    moreover have "nat (1 + int (length bs1)) = Suc (length bs1)" by simp
    ultimately show ?thesis using r bs assms empty
      by (simp add: HttpTransport_getc_def ht_stream_def Let_def del: upt_Suc)
  qed
qed

interpretation ht: byte_source HttpTransport_getc ht_stream
  by unfold_locales (metis getc_buffered getc_refill)

section \<open>What a line is\<close>

text \<open>The first line of a byte list: characters other than NUL, CR and LF, ended by LF or CRLF.\<close>

definition line_char :: "byte \<Rightarrow> bool" where
  "line_char c \<longleftrightarrow> c \<noteq> 0 \<and> c \<noteq> 10 \<and> c \<noteq> 13"

definition line_end :: "byte list \<Rightarrow> nat option" where
  "line_end cs = (case cs of c # r \<Rightarrow>
       if c = 10 then Some 1 else if c = 13 \<and> r \<noteq> [] \<and> hd r = 10 then Some 2 else None
     | [] \<Rightarrow> None)"

definition first_line :: "nat \<Rightarrow> byte list \<Rightarrow> ((nat \<times> cstring) \<times> byte list) option" where
  "first_line window cs =
     (let line = takeWhile line_char cs
      in case line_end (drop (length line) cs) of None \<Rightarrow> None
         | Some k \<Rightarrow> if length line + k \<le> window
                     then Some ((length line + k, line), drop (length line + k) cs) else None)"

lemma first_line_Cons:
  "line_char c \<Longrightarrow> first_line (Suc window) (c # cs)
     = map_option (\<lambda>((n, line), r). ((Suc n, c # line), r)) (first_line window cs)"
  by (auto simp: first_line_def Let_def split: option.splits)

lemma recv_line_loop_first_line:
  "recv_line_loop lgetc left consumed line cs
     = map_option (\<lambda>((n, l), r). ((consumed + n, line @ l), r)) (first_line left cs)"
proof (induction left arbitrary: consumed line cs)
  case 0
  show ?case by (auto simp: first_line_def line_end_def Let_def split: option.splits list.splits if_splits)
next
  case (Suc left)
  show ?case
  proof (cases cs)
    case Nil
    then show ?thesis by (simp add: first_line_def line_end_def)
  next
    case (Cons c r)
    show ?thesis
    proof (cases "line_char c")
      case True
      then have ne: "c \<noteq> 0" "c \<noteq> 10" "c \<noteq> 13" by (auto simp: line_char_def)
      have "recv_line_loop lgetc (Suc left) consumed line cs = recv_line_loop lgetc left (consumed + 1) (line @ [c]) r"
        using ne by (simp add: Cons)
      also have "\<dots> = map_option (\<lambda>((n, l), r). ((consumed + n, line @ l), r)) (first_line (Suc left) cs)"
        by (auto simp: Suc.IH Cons first_line_Cons [OF True] option.map_comp comp_def split: prod.splits
            intro!: map_option_cong)
      finally show ?thesis .
    next
      case False
      then show ?thesis
        by (cases r) (auto simp: Cons first_line_def line_end_def line_char_def)
    qed
  qed
qed

lemma recv_line_first_line:
  "HttpTransport_recv_line lgetc max_len cs = (if max_len < 2 then None else first_line (nat (max_len - 1)) cs)"
  by (simp add: HttpTransport_recv_line_def recv_line_loop_first_line case_prod_unfold option.map_ident)

lemma line_end_append: "line_end (e @ r) = Some (length e)" if "e \<in> {[10], [13, 10]}"
  using that by (auto simp: line_end_def)

lemma line_end_Some: "line_end cs = Some k \<Longrightarrow> \<exists>e \<in> {[10], [13, 10]}. k = length e \<and> cs = e @ drop k cs"
  by (cases cs; cases "drop 1 cs") (auto simp: line_end_def split: if_splits)

text \<open>A line followed by its terminator is read whole, if the window allows; nothing else is read as a line.\<close>

lemma first_line_append:
  assumes "\<forall>c \<in> set line. line_char c" "e \<in> {[10], [13, 10]}" "length line + length e \<le> window"
  shows "first_line window (line @ e @ r) = Some ((length line + length e, line), r)"
proof -
  have "\<not> line_char (hd (e @ r))" "e \<noteq> []" using assms(2) by (auto simp: line_char_def)
  then have "takeWhile line_char (line @ e @ r) = line"
    using assms(1) by (cases e) (auto simp: takeWhile_append)
  with assms(2,3) line_end_append [OF assms(2)] show ?thesis by (simp add: first_line_def Let_def)
qed

lemma first_line_Some:
  assumes "first_line window cs = Some ((ret, line), r)"
  shows "(\<forall>c \<in> set line. line_char c) \<and> ret \<le> window \<and>
    (\<exists>e \<in> {[10], [13, 10]}. ret = length line + length e \<and> cs = line @ e @ r)"
proof -
  let ?l = "takeWhile line_char cs"
  obtain k where k1: "line_end (drop (length ?l) cs) = Some k"
    using assms by (cases "line_end (drop (length ?l) cs)") (simp_all add: first_line_def Let_def)
  have le: "length ?l + k \<le> window" using assms k1 by (simp add: first_line_def Let_def split: if_splits)
  have "((length ?l + k, ?l), drop (length ?l + k) cs) = ((ret, line), r)"
    using assms k1 le unfolding first_line_def Let_def by (simp only: option.case option.inject if_True)
  then have k: "line_end (drop (length ?l) cs) = Some k" "ret = length ?l + k" "line = ?l"
    "r = drop (length ?l + k) cs" "ret \<le> window"
    using k1 le by (blast, blast, blast, blast, metis prod.inject)
  from line_end_Some [OF k(1)] obtain e where e: "e \<in> {[10], [13, 10]}" "k = length e"
    "drop (length ?l) cs = e @ drop k (drop (length ?l) cs)" by blast
  have "cs = ?l @ drop (length ?l) cs" by (metis takeWhile_dropWhile_id dropWhile_eq_drop)
  moreover have "drop k (drop (length ?l) cs) = r" by (simp add: k(4) add.commute)
  ultimately have cs: "cs = line @ e @ r" using e(3) k(3) by metis
  have "\<forall>c \<in> set line. line_char c" unfolding k(3) by (meson set_takeWhileD)
  moreover have "ret = length line + length e" by (simp only: k(2,3) e(2))
  ultimately show ?thesis using cs e(1) k(5) by blast
qed

section \<open>Theorems\<close>

text \<open>(C18) The contract of \<^verbatim>\<open>HttpTransport_recv_line\<close> on the socket connection, for every way in which the bytes arrive:
  it succeeds exactly when the stream starts with a line free of NUL, CR and LF whose terminator, LF or
  CRLF, ends within the first \<^verbatim>\<open>max_len - 1\<close> bytes; then it returns that line, the number of bytes consumed, which
  fits the caller's buffer, and the connection stands right behind the line.\<close>

theorem HttpTransport_recv_line_exact:
  assumes "2 \<le> max_len"
  shows "(\<forall>ret line t1. HttpTransport_recv_line HttpTransport_getc max_len t = Some ((ret, line), t1) \<longrightarrow>
           (\<forall>c \<in> set line. c \<noteq> 0 \<and> c \<noteq> 10 \<and> c \<noteq> 13) \<and> 1 \<le> ret \<and> int ret \<le> max_len - 1
           \<and> (\<exists>e \<in> {[10], [13, 10]}. ret = length line + length e \<and> ht_stream t = line @ e @ ht_stream t1))
    \<and> (\<forall>line e rest. ht_stream t = line @ e @ rest \<longrightarrow> (\<forall>c \<in> set line. c \<noteq> 0 \<and> c \<noteq> 10 \<and> c \<noteq> 13) \<longrightarrow>
           e \<in> {[10], [13, 10]} \<longrightarrow> int (length line + length e) \<le> max_len - 1 \<longrightarrow>
           (\<exists>t1. HttpTransport_recv_line HttpTransport_getc max_len t = Some ((length line + length e, line), t1)
                 \<and> ht_stream t1 = rest))"
proof (intro conjI allI impI)
  have eq: "map_option (apsnd ht_stream) (HttpTransport_recv_line HttpTransport_getc max_len t)
     = first_line (nat (max_len - 1)) (ht_stream t)"
    using assms by (simp add: ht.recv_line_stream recv_line_first_line)
  {
    fix ret line t1
    assume "HttpTransport_recv_line HttpTransport_getc max_len t = Some ((ret, line), t1)"
    with eq have "first_line (nat (max_len - 1)) (ht_stream t) = Some ((ret, line), ht_stream t1)" by simp
    note r = first_line_Some [OF this]
    show "\<forall>c \<in> set line. c \<noteq> 0 \<and> c \<noteq> 10 \<and> c \<noteq> 13" "1 \<le> ret" "int ret \<le> max_len - 1"
      "\<exists>e \<in> {[10], [13, 10]}. ret = length line + length e \<and> ht_stream t = line @ e @ ht_stream t1"
      using r assms by (auto simp: line_char_def)
  }
  fix line e rest
  assume "ht_stream t = line @ e @ rest" "\<forall>c \<in> set line. c \<noteq> 0 \<and> c \<noteq> 10 \<and> c \<noteq> 13" "e \<in> {[10], [13, 10]}"
    "int (length line + length e) \<le> max_len - 1"
  with eq first_line_append [of line e "nat (max_len - 1)" rest] assms
  have "map_option (apsnd ht_stream) (HttpTransport_recv_line HttpTransport_getc max_len t)
      = Some ((length line + length e, line), rest)" by (auto simp: line_char_def)
  then show "\<exists>t1. HttpTransport_recv_line HttpTransport_getc max_len t = Some ((length line + length e, line), t1)
      \<and> ht_stream t1 = rest" by auto
qed

text \<open>A connection on which a line arrives in three pieces with an interruption between them.\<close>

definition pieces :: HttpTransport where
  "pieces = \<lparr>ht_sock = \<lparr>so_rx = [Rx_data (lit ''GE''), Rx_none (- 1) E_INTR, Rx_data (lit ''T'' @ [13]), Rx_data (10 # lit ''x'')],
       so_tx = [], so_sent = []\<rparr>, ht_host = [], ht_path = [], ht_port = 80, ht_scheme = [],
     ht_read_buf = replicate 8192 0, ht_read_pos = 0, ht_read_end = 0\<rparr>"

theorem HttpTransport_recv_line_exact_witness:
  "\<exists>t1. HttpTransport_recv_line HttpTransport_getc 4096 pieces = Some ((5, lit ''GET''), t1) \<and> ht_stream t1 = lit ''x''"
proof -
  have "ht_stream pieces = lit ''GET'' @ [13, 10] @ lit ''x''"
    by (simp add: ht_stream_def pieces_def retry_def lit_def)
  with conjunct2 [OF HttpTransport_recv_line_exact [of 4096 pieces], THEN spec, THEN spec, THEN spec,
      of "lit ''GET''" "[13, 10]" "lit ''x''"]
  have "\<exists>t1. HttpTransport_recv_line HttpTransport_getc 4096 pieces = Some ((length (lit ''GET'') + length [13, 10 :: byte], lit ''GET''), t1)
      \<and> ht_stream t1 = lit ''x''" by (simp add: lit_def)
  then show ?thesis by (simp add: lit_def eval_nat_numeral)
qed

text \<open>A strict port is a non-empty string of digits whose value is between 1 and 65535.\<close>

lemma port_loop_exact:
  "v \<le> 65535 \<Longrightarrow> port_loop v s = (if (\<forall>c \<in> set s. isdigit c) \<and> dec_of v s \<le> 65535 then Some (dec_of v s) else None)"
proof (induction s arbitrary: v)
  case (Cons c s)
  show ?case
  proof (cases "isdigit c")
    case False
    then show ?thesis by (auto simp: not_le)
  next
    case True
    then have d: "unat c - 48 \<le> 9" by (auto simp: word_le_nat_alt)
    show ?thesis
    proof (cases "v > (65535 - (unat c - 48)) div 10")
      case True
      then have "10 * v + (unat c - 48) > 65535" using d by linarith
      with dec_of_mono [of "10 * v + (unat c - 48)" s] True \<open>isdigit c\<close> show ?thesis by auto
    next
      case False
      then have "10 * v + (unat c - 48) \<le> 65535" using d by linarith
      with Cons.IH [of "10 * v + (unat c - 48)"] False \<open>isdigit c\<close> show ?thesis
        by (simp add: mult.commute not_less Let_def)
    qed
  qed
qed simp

theorem parse_port_strict_exact:
  "parse_port_strict s =
     (if s \<noteq> [] \<and> (\<forall>c \<in> set s. isdigit c) \<and> 1 \<le> dec_of 0 s \<and> dec_of 0 s \<le> 65535 then Some (dec_of 0 s) else None)"
  by (auto simp: parse_port_strict_def parse_port_strict_n_def port_loop_exact)

text \<open>The scheme ends at the first \<^verbatim>\<open>://\<close>.\<close>

lemma strstr_scheme:
  assumes "ch CHR '':'' \<notin> set scheme"
  shows "strstr (scheme @ lit ''://'' @ rest) (lit ''://'') = Some (length scheme)"
  unfolding strstr_def
proof (rule memmem_intro)
  fix j assume j: "j < length scheme"
  then have "drop j (scheme @ lit ''://'' @ rest) = scheme ! j # drop (Suc j) scheme @ lit ''://'' @ rest"
    by (simp add: Cons_nth_drop_Suc [symmetric])
  moreover have "scheme ! j \<noteq> ch CHR '':''" using assms nth_mem [OF j] by metis
  then have "scheme ! j \<noteq> 58" by (simp add: ch_def)
  ultimately show "take (length (lit ''://'')) (drop j (scheme @ lit ''://'' @ rest)) \<noteq> lit ''://''"
    by (simp add: lit_def)
qed (simp_all add: lit_def)

text \<open>\<^verbatim>\<open>parse_url\<close> takes an address apart the way it was put together: scheme, host and port without the separators,
  path from its first slash on.\<close>

theorem parse_url_parts:
  assumes "ch CHR '':'' \<notin> set scheme" "length scheme < 16" "scheme \<noteq> lit ''unix''"
    and "ch CHR ''/'' \<notin> set (host @ port)" "ch CHR '':'' \<notin> set port" "length (host @ port) < 255"
    and "path = [] \<or> hd path = ch CHR ''/''"
  shows "parse_url True (\<lambda>_. True) (scheme @ lit ''://'' @ host @ lit '':'' @ port @ path)
     = Some \<lparr>u_scheme = Some scheme, u_host = Some host, u_port = Some port,
             u_path = (if path = [] then None else Some path)\<rparr>"
proof -
  let ?hp = "host @ lit '':'' @ port"
  have lits: "lit '':'' = [58]" "lit ''/'' = [47]" "ch CHR '':'' = 58" "ch CHR ''/'' = 47" by (simp_all add: lit_def ch_def)
  have slash: "47 \<notin> set ?hp" using assms(4) by (auto simp: lits)
  have unix: "\<not> strncmp_eq scheme (lit ''unix'') 16"
    using assms(2,3) by (auto simp: strncmp_eq_take lit_def)
  have p: "strchr (?hp @ path) 47 = (if path = [] then None else Some (length ?hp))"
  proof (cases path)
    case Nil
    with slash show ?thesis by (simp add: strchr_def)
  next
    case (Cons c r)
    with assms(7) have "c = 47" by (simp add: lits)
    with strchr_append [OF slash, of r] Cons show ?thesis by simp
  qed
  have c: "strrchr ?hp 58 = Some (length host)"
    using strrchr_append [of 58 port host] assms(5) by (simp add: lits)
  have cuts: "cut 256 (length ?hp) = length ?hp" "cut 256 (length host) = length host" "cut 16 (length scheme) = length scheme"
    using assms(2,6) by (simp_all add: cut_def lits)
  have auth: "url_authority (\<lambda>_. True) scheme (?hp @ path)
     = \<lparr>u_scheme = Some scheme, u_host = Some host, u_port = Some port, u_path = (if path = [] then None else Some path)\<rparr>"
  proof (cases "path = []")
    case True
    with p have "strchr ?hp 47 = None" by simp
    with True c cuts show ?thesis by (simp add: url_authority_def lits url_put_def)
  next
    case False
    with p have "strchr (?hp @ path) 47 = Some (length ?hp)" by simp
    with False c cuts show ?thesis by (simp add: url_authority_def lits url_put_def)
  qed
  have "strstr (scheme @ lit ''://'' @ ?hp @ path) (lit ''://'') = Some (length scheme)"
    by (rule strstr_scheme) (use assms(1) in simp)
  moreover have "drop (length scheme + 3) (scheme @ lit ''://'' @ ?hp @ path) = ?hp @ path" by (simp add: lit_def)
  ultimately have "parse_url True (\<lambda>_. True) (scheme @ lit ''://'' @ ?hp @ path) = Some (url_authority (\<lambda>_. True) scheme (?hp @ path))"
    using unix cuts by (simp add: parse_url_def)
  then show ?thesis unfolding auth by (simp only: append_assoc)
qed

theorem parse_url_parts_witness:
  "parse_url True (\<lambda>_. True) (lit ''http'' @ lit ''://'' @ lit ''::1'' @ lit '':'' @ lit ''8080'' @ lit ''/a?b'')
     = Some \<lparr>u_scheme = Some (lit ''http''), u_host = Some (lit ''::1''), u_port = Some (lit ''8080''), u_path = Some (lit ''/a?b'')\<rparr>"
  using parse_url_parts [of "lit ''http''" "lit ''::1''" "lit ''8080''" "lit ''/a?b''"] by (simp add: lit_def ch_def)

text \<open>A query that follows the host without a slash becomes part of the host.\<close>

lemma parse_url_query_in_host:
  "parse_url True (\<lambda>_. True) (lit ''http://h?q'')
     = Some \<lparr>u_scheme = Some (lit ''http''), u_host = Some (lit ''h?q''), u_port = None, u_path = None\<rparr>"
  by (simp add: parse_url_def url_authority_def cut_def strstr_def memmem.simps lit_def ch_def strchr_def strrchr_def url_put_def
      strncmp_eq_take Let_def)

end
