(* ===== verification/Http_Response.thy ===== *)
theory Http_Response
  imports Http_Transport Byte_Buffer
begin

text \<open>
  \<^verbatim>\<open>src/src/http_response_parser.c\<close>: the parser of HTTP responses, from the status line over interim responses and headers
  to the three ways in which a body is delimited (chunks, \<^verbatim>\<open>Content-Length\<close>, end of the connection).
  \<^item> A \<^verbatim>\<open>goto reject\<close> is \<open>None\<close>: the response and the buffer are released, the connection is not used again.
  \<^item> The header map is the sequence of the puts made on it; a later put of a name replaces an earlier one.
  \<^item> The body goes through a \<^verbatim>\<open>ByteBuffer\<close> (theory \<open>Byte_Buffer\<close>). The answers of the allocator are the record
    \<open>http_mem\<close>; those of the buffer's growth are indexed by the number of bytes in it.
  \<^item> Every loop is bounded by one of the limits of the source, so all functions are total.
\<close>

abbreviation (input) HTTP_MAX_BODY :: nat where "HTTP_MAX_BODY \<equiv> BB_MAX_CAPACITY"
abbreviation (input) HTTP_INITIAL_BODY_CAP :: nat where "HTTP_INITIAL_BODY_CAP \<equiv> 16384"
abbreviation (input) HTTP_MAX_HEADER_COUNT :: nat where "HTTP_MAX_HEADER_COUNT \<equiv> 100"
abbreviation (input) HTTP_MAX_HEADER_BYTES :: nat where "HTTP_MAX_HEADER_BYTES \<equiv> 65536"
abbreviation (input) HTTP_MAX_INFORMATIONAL :: nat where "HTTP_MAX_INFORMATIONAL \<equiv> 10"

section \<open>Numbers in headers\<close>

abbreviation blank :: "byte \<Rightarrow> bool" where "blank c \<equiv> c = 32 \<or> c = 9"

text \<open>The digit loop of \<^verbatim>\<open>parse_content_length\<close>: the value, whether there was a digit, and the rest.\<close>

fun cl_digits :: "nat \<Rightarrow> nat \<Rightarrow> bool \<Rightarrow> cstring \<Rightarrow> (nat \<times> bool \<times> cstring) option" where
  "cl_digits max_limit v has_digit [] = Some (v, has_digit, [])"
| "cl_digits max_limit v has_digit (c # s) =
     (if isdigit c then
        let digit = unat c - 48
        in if v > max_limit div 10 \<or> (v = max_limit div 10 \<and> digit > max_limit mod 10) then None
           else cl_digits max_limit (v * 10 + digit) True s
      else Some (v, has_digit, c # s))"

definition parse_content_length :: "cstring \<Rightarrow> nat \<Rightarrow> nat option" where
  "parse_content_length s max_limit =
     (let s1 = dropWhile blank s
      in if s1 = [] then None
         else do { (v, has_digit, s2) \<leftarrow> cl_digits max_limit 0 False s1;
                   if \<not> has_digit then None
                   else if dropWhile blank s2 \<noteq> [] then None else Some v })"

text \<open>The digit loop of \<^verbatim>\<open>parse_chunk_size\<close>.\<close>

fun chunk_digits :: "nat \<Rightarrow> bool \<Rightarrow> cstring \<Rightarrow> (nat \<times> bool \<times> cstring) option" where
  "chunk_digits v has_digit [] = Some (v, has_digit, [])"
| "chunk_digits v has_digit (c # s) =
     (if c = 59 \<or> c = 32 \<or> c = 9 \<or> c = 13 \<or> c = 10 then Some (v, has_digit, c # s)
      else case hex_val c of None \<Rightarrow> None
           | Some digit \<Rightarrow>
               if v > SIZE_MAX div 16 \<or> (v = SIZE_MAX div 16 \<and> digit > SIZE_MAX mod 16) then None
               else chunk_digits (v * 16 + digit) True s)"

definition parse_chunk_size :: "cstring \<Rightarrow> nat option" where
  "parse_chunk_size s =
     (case s of [] \<Rightarrow> None
      | c # r \<Rightarrow>
          if c = 32 \<or> c = 9 \<or> c = 43 \<or> c = 45 then None
          else if c = 48 \<and> r \<noteq> [] \<and> (hd r = 120 \<or> hd r = 88) then None
          else do { (v, has_digit, s1) \<leftarrow> chunk_digits 0 False s;
                    if \<not> has_digit then None
                    else let s2 = dropWhile blank s1
                         in if s2 \<noteq> [] \<and> hd s2 \<noteq> 59 then None else Some v })"

text \<open>\<^verbatim>\<open>sscanf(line, "HTTP/1.%*d %d", &parsed_status) == 1\<close>.\<close>

definition sscanf_status :: "cstring \<Rightarrow> int option" where
  "sscanf_status line =
     (if take 7 line = lit ''HTTP/1.''
      then do { (_, r) \<leftarrow> scan_d (drop 7 line); (v, _) \<leftarrow> scan_d r; Some v }
      else None)"

section \<open>State\<close>

record HttpClientResponse =
  res_status_code :: int
  res_headers :: "(cstring \<times> cstring) list"
  res_cookies :: "cstring list"
  res_body :: "byte list"
  res_body_len :: nat

record http_mem =
  hm_res :: bool
  hm_header :: "nat \<Rightarrow> bool"
  hm_cookie :: "nat \<Rightarrow> bool"
  hm_buf :: "unit alloc"
  hm_data :: "unit alloc"
  hm_write :: "nat \<Rightarrow> byte alloc"
  hm_body :: bool

text \<open>What the header loop collects besides the header map.\<close>

record framing =
  fr_headers :: "(cstring \<times> cstring) list"
  fr_cookies :: "cstring list"
  fr_content_length :: nat
  fr_has_content_length :: bool
  fr_exceeds_body_cap :: bool
  fr_conflict :: bool
  fr_chunked :: bool
  fr_has_transfer_encoding :: bool

definition no_framing :: framing where
  "no_framing = \<lparr>fr_headers = [], fr_cookies = [], fr_content_length = 0, fr_has_content_length = False,
     fr_exceeds_body_cap = False, fr_conflict = False, fr_chunked = False, fr_has_transfer_encoding = False\<rparr>"

section \<open>Status line and headers\<close>

text \<open>The loops that skip the headers of an interim response and the trailers of a chunked body; the latter insist
  on CRLF.\<close>

function skip_block :: "bool \<Rightarrow> ('t \<Rightarrow> (byte \<times> 't) option) \<Rightarrow> nat \<Rightarrow> nat \<Rightarrow> 't \<Rightarrow> (unit \<times> 't) option" where
  "skip_block strict getc cnt bytes t =
     do { ((ret, line), t1) \<leftarrow> HttpTransport_recv_line getc 4096 t;
          if strict \<and> (ret < length line \<or> ret - length line \<noteq> 2) then None
          else if line = [] then Some ((), t1)
          else if cnt \<ge> HTTP_MAX_HEADER_COUNT then None
          else if ret > HTTP_MAX_HEADER_BYTES - bytes then None
          else skip_block strict getc (cnt + 1) (bytes + ret) t1 }"
  by pat_completeness auto
termination
  by (relation "measure (\<lambda>(_, _, cnt, _, _). 101 - cnt)") auto

declare skip_block.simps [simp del]

function status_loop :: "('t \<Rightarrow> (byte \<times> 't) option) \<Rightarrow> nat \<Rightarrow> cstring \<Rightarrow> 't \<Rightarrow> (int \<times> 't) option" where
  "status_loop getc info_count line t =
     do { v \<leftarrow> sscanf_status line;
          if v < 100 \<or> v > 999 then None
          else if v = 101 then None
          else if v < 200 then
            if info_count + 1 > HTTP_MAX_INFORMATIONAL then None
            else do { (_, t1) \<leftarrow> skip_block False getc 0 0 t;
                      ((_, line1), t2) \<leftarrow> HttpTransport_recv_line getc 4096 t1;
                      status_loop getc (info_count + 1) line1 t2 }
          else Some (v, t) }"
  by pat_completeness auto
termination
  by (relation "measure (\<lambda>(_, info_count, _, _). 11 - info_count)") auto

declare status_loop.simps [simp del]

text \<open>The body of the header loop, behind the limit checks, for line number \<open>i\<close>.\<close>

definition content_length_header :: "framing \<Rightarrow> nat \<Rightarrow> framing" where
  "content_length_header f v =
     (let f1 = f\<lparr>fr_exceeds_body_cap := fr_exceeds_body_cap f \<or> v > HTTP_MAX_BODY\<rparr>
      in if \<not> fr_has_content_length f1 then f1\<lparr>fr_content_length := v, fr_has_content_length := True\<rparr>
         else if v \<noteq> fr_content_length f1 then f1\<lparr>fr_conflict := True\<rparr> else f1)"

definition transfer_encoding_header :: "framing \<Rightarrow> cstring \<Rightarrow> framing" where
  "transfer_encoding_header f val =
     f\<lparr>fr_has_transfer_encoding := True, fr_chunked := fr_chunked f \<or> strcasestr val (lit ''chunked'') \<noteq> None\<rparr>"

definition header_put :: "http_mem \<Rightarrow> nat \<Rightarrow> cstring \<Rightarrow> cstring \<Rightarrow> framing \<Rightarrow> framing" where
  "header_put mem i key val f =
     (let f1 = (if hm_header mem i then f\<lparr>fr_headers := fr_headers f @ [(key, val)]\<rparr> else f)
      in if strcasecmp_eq key (lit ''Set-Cookie'') \<and> hm_cookie mem i
         then f1\<lparr>fr_cookies := fr_cookies f1 @ [val]\<rparr> else f1)"

definition header_line :: "http_mem \<Rightarrow> nat \<Rightarrow> cstring \<Rightarrow> framing \<Rightarrow> framing option" where
  "header_line mem i line f =
     (case strchr line (ch CHR '':'') of None \<Rightarrow> Some f
      | Some colon \<Rightarrow>
          let key = take colon line;
              raw_val = drop (colon + 1) line;
              val = dropWhile isspace raw_val;
              f2 = header_put mem i key val f
          in do { f3 \<leftarrow> (if strcasecmp_eq key (lit ''Content-Length'')
                         then do { v \<leftarrow> parse_content_length raw_val SIZE_MAX; Some (content_length_header f2 v) }
                         else Some f2);
                  Some (if strcasecmp_eq key (lit ''Transfer-Encoding'') then transfer_encoding_header f3 val else f3) })"

function header_loop :: "('t \<Rightarrow> (byte \<times> 't) option) \<Rightarrow> http_mem \<Rightarrow> nat \<Rightarrow> nat \<Rightarrow> framing \<Rightarrow> 't \<Rightarrow> (framing \<times> 't) option" where
  "header_loop getc mem cnt bytes f t =
     do { ((ret, line), t1) \<leftarrow> HttpTransport_recv_line getc 4096 t;
          if line = [] then Some (f, t1)
          else if cnt \<ge> HTTP_MAX_HEADER_COUNT then None
          else if ret > HTTP_MAX_HEADER_BYTES - bytes then None
          else do { f1 \<leftarrow> header_line mem cnt line f;
                    header_loop getc mem (cnt + 1) (bytes + ret) f1 t1 } }"
  by pat_completeness auto
termination
  by (relation "measure (\<lambda>(_, _, cnt, _, _, _). 101 - cnt)") auto

declare header_loop.simps [simp del]

section \<open>Bodies\<close>

definition put_body :: "http_mem \<Rightarrow> ByteBuffer \<Rightarrow> byte \<Rightarrow> ByteBuffer option" where
  "put_body mem buf c =
     (case ByteBuffer_writeByte (hm_write mem (bb_write_pos buf)) buf c of
        (r, buf1) \<Rightarrow> if r < 0 then None else Some buf1)"

text \<open>The loop that reads the \<open>n\<close> bytes that are missing of a chunk or of the body.\<close>

fun read_bytes :: "('t \<Rightarrow> (byte \<times> 't) option) \<Rightarrow> http_mem \<Rightarrow> nat \<Rightarrow> ByteBuffer \<Rightarrow> 't \<Rightarrow> (ByteBuffer \<times> 't) option" where
  "read_bytes getc mem 0 buf t = Some (buf, t)"
| "read_bytes getc mem (Suc n) buf t =
     do { (c, t1) \<leftarrow> getc t; buf1 \<leftarrow> put_body mem buf c; read_bytes getc mem n buf1 t1 }"

function read_chunks :: "('t \<Rightarrow> (byte \<times> 't) option) \<Rightarrow> http_mem \<Rightarrow> nat \<Rightarrow> ByteBuffer \<Rightarrow> 't \<Rightarrow> (ByteBuffer \<times> 't) option" where
  "read_chunks getc mem tot buf t =
     do { ((ret, line), t1) \<leftarrow> HttpTransport_recv_line getc 4096 t;
          if int ret - int (length line) \<noteq> 2 then None
          else do { chunk_size \<leftarrow> parse_chunk_size line;
            if chunk_size = 0 then do { (_, t2) \<leftarrow> skip_block True getc 0 0 t1; Some (buf, t2) }
            else if chunk_size > HTTP_MAX_BODY - tot then None
            else do { (buf1, t2) \<leftarrow> read_bytes getc mem chunk_size buf t1;
                      (r1, t3) \<leftarrow> getc t2;
                      if r1 \<noteq> 13 then None
                      else do { (r2, t4) \<leftarrow> getc t3;
                                if r2 \<noteq> 10 then None
                                else read_chunks getc mem (tot + chunk_size) buf1 t4 } } } }"
  by pat_completeness auto
termination
  by (relation "measure (\<lambda>(_, _, tot, _, _). HTTP_MAX_BODY - tot)") auto

declare read_chunks.simps [simp del]

function read_eof :: "('t \<Rightarrow> (byte \<times> 't) option) \<Rightarrow> http_mem \<Rightarrow> nat \<Rightarrow> ByteBuffer \<Rightarrow> 't \<Rightarrow> (ByteBuffer \<times> 't) option" where
  "read_eof getc mem tot buf t =
     (case getc t of None \<Rightarrow> Some (buf, t)
      | Some (c, t1) \<Rightarrow>
          if tot \<ge> HTTP_MAX_BODY then None
          else do { buf1 \<leftarrow> put_body mem buf c; read_eof getc mem (tot + 1) buf1 t1 })"
  by pat_completeness auto
termination
  by (relation "measure (\<lambda>(_, _, tot, _, _). HTTP_MAX_BODY - tot)") auto

declare read_eof.simps [simp del]

definition initial_cap :: "framing \<Rightarrow> nat" where
  "initial_cap f =
     (if fr_has_content_length f
      then if fr_content_length f > 0
           then if fr_content_length f < HTTP_INITIAL_BODY_CAP then fr_content_length f else HTTP_INITIAL_BODY_CAP
           else 1
      else HTTP_INITIAL_BODY_CAP)"

definition body_loop :: "('t \<Rightarrow> (byte \<times> 't) option) \<Rightarrow> http_mem \<Rightarrow> framing \<Rightarrow> ByteBuffer \<Rightarrow> 't \<Rightarrow> (ByteBuffer \<times> 't) option" where
  "body_loop getc mem f buf t =
     (if fr_chunked f then read_chunks getc mem 0 buf t
      else if fr_has_content_length f then read_bytes getc mem (fr_content_length f) buf t
      else read_eof getc mem 0 buf t)"

text \<open>The part for responses that have a body, up to the bytes that are copied into it.\<close>

definition read_body :: "('t \<Rightarrow> (byte \<times> 't) option) \<Rightarrow> http_mem \<Rightarrow> framing \<Rightarrow> 't \<Rightarrow> (byte list \<times> 't) option" where
  "read_body getc mem f t =
     (if fr_has_content_length f \<and> fr_has_transfer_encoding f then None
      else if fr_conflict f then None
      else if fr_has_content_length f \<and> fr_exceeds_body_cap f then None
      else do { buf \<leftarrow> new_ByteBuffer (hm_buf mem) (hm_data mem) (initial_cap f);
                (buf1, t1) \<leftarrow> body_loop getc mem f buf t;
                if \<not> hm_body mem then None
                else Some (take (bb_write_pos buf1) (bb_data buf1), t1) })"

section \<open>The parser\<close>

definition has_body :: "cstring option \<Rightarrow> int \<Rightarrow> bool" where
  "has_body request_method status \<longleftrightarrow> request_method \<noteq> Some (lit ''HEAD'') \<and> status \<noteq> 204 \<and> status \<noteq> 304"

definition status_line :: "('t \<Rightarrow> (byte \<times> 't) option) \<Rightarrow> cstring option \<Rightarrow> 't \<Rightarrow> (cstring \<times> 't) option" where
  "status_line getc initial_status_line t =
     (case initial_status_line of
        Some (c # s) \<Rightarrow> Some (take 4095 (c # s), t)
      | _ \<Rightarrow> do { ((_, line), t1) \<leftarrow> HttpTransport_recv_line getc 4096 t; Some (line, t1) })"

definition HttpResponseParser_parse_with_options ::
  "('t \<Rightarrow> (byte \<times> 't) option) \<Rightarrow> http_mem \<Rightarrow> cstring option \<Rightarrow> cstring option \<Rightarrow> 't \<Rightarrow> (HttpClientResponse \<times> 't) option" where
  "HttpResponseParser_parse_with_options getc mem initial_status_line request_method t =
     (if \<not> hm_res mem then None
      else do {
        (line, t1) \<leftarrow> status_line getc initial_status_line t;
        (status, t2) \<leftarrow> status_loop getc 0 line t1;
        (f, t3) \<leftarrow> header_loop getc mem 0 0 no_framing t2;
        (body, t4) \<leftarrow> (if has_body request_method status then read_body getc mem f t3
                        else if \<not> hm_body mem then None else Some ([], t3));
        Some (\<lparr>res_status_code = status, res_headers = fr_headers f, res_cookies = fr_cookies f,
               res_body = body, res_body_len = length body\<rparr>, t4) })"

definition HttpResponseParser_parse_with_status ::
  "('t \<Rightarrow> (byte \<times> 't) option) \<Rightarrow> http_mem \<Rightarrow> cstring option \<Rightarrow> 't \<Rightarrow> (HttpClientResponse \<times> 't) option" where
  "HttpResponseParser_parse_with_status getc mem initial_status_line t =
     HttpResponseParser_parse_with_options getc mem initial_status_line None t"

definition HttpResponseParser_parse ::
  "('t \<Rightarrow> (byte \<times> 't) option) \<Rightarrow> http_mem \<Rightarrow> 't \<Rightarrow> (HttpClientResponse \<times> 't) option" where
  "HttpResponseParser_parse getc mem t = HttpResponseParser_parse_with_options getc mem None None t"

section \<open>Only the bytes count\<close>

context byte_source
begin

lemma bind_stream:
  assumes "map_option (apsnd stream) m = m'"
  shows "Option.bind m' k = Option.bind m (\<lambda>(x, t). k (x, stream t))"
  using assms by (cases m) auto

lemmas bind_line = bind_stream [OF recv_line_stream]

lemma skip_block_stream:
  "map_option (apsnd stream) (skip_block strict getc cnt bytes t) = skip_block strict lgetc cnt bytes (stream t)"
proof (induction "101 - cnt" arbitrary: cnt bytes t rule: less_induct)
  case less
  have IH: "map_option (apsnd stream) (skip_block strict getc (Suc cnt) b t1) = skip_block strict lgetc (Suc cnt) b (stream t1)"
    if "cnt < 100" for b t1 using less that by simp
  show ?case
  proof (cases "HttpTransport_recv_line getc 4096 t")
    case None
    then show ?thesis by (subst (1 2) skip_block.simps) (simp add: bind_line)
  next
    case (Some r)
    then show ?thesis by (subst (1 2) skip_block.simps) (auto simp: bind_line IH split: prod.splits)
  qed
qed

lemmas bind_block = bind_stream [OF skip_block_stream]

lemma status_loop_stream:
  "map_option (apsnd stream) (status_loop getc info line t) = status_loop lgetc info line (stream t)"
proof (induction "11 - info" arbitrary: info line t rule: less_induct)
  case less
  have IH: "map_option (apsnd stream) (status_loop getc (Suc info) l t1) = status_loop lgetc (Suc info) l (stream t1)"
    if "info < 10" for l t1 using less that by simp
  show ?case
    by (subst (1 2) status_loop.simps)
      (auto simp: bind_line bind_block IH map_option_bind comp_def split: prod.splits intro!: Option.bind_cong)
qed

lemmas bind_status = bind_stream [OF status_loop_stream]

lemma header_loop_stream:
  "map_option (apsnd stream) (header_loop getc mem cnt bytes f t) = header_loop lgetc mem cnt bytes f (stream t)"
proof (induction "101 - cnt" arbitrary: cnt bytes f t rule: less_induct)
  case less
  have IH: "map_option (apsnd stream) (header_loop getc mem (Suc cnt) b g t1) = header_loop lgetc mem (Suc cnt) b g (stream t1)"
    if "cnt < 100" for b g t1 using less that by simp
  show ?case
    by (subst (1 2) header_loop.simps)
      (auto simp: bind_line IH map_option_bind comp_def split: prod.splits intro!: Option.bind_cong)
qed

lemmas bind_headers = bind_stream [OF header_loop_stream]

lemma read_bytes_stream:
  "map_option (apsnd stream) (read_bytes getc mem n buf t) = read_bytes lgetc mem n buf (stream t)"
  by (induction n arbitrary: buf t)
    (auto simp: bind_lgetc map_option_bind comp_def split: prod.splits intro!: Option.bind_cong)

lemmas bind_bytes = bind_stream [OF read_bytes_stream]

lemma read_chunks_stream:
  "map_option (apsnd stream) (read_chunks getc mem tot buf t) = read_chunks lgetc mem tot buf (stream t)"
proof (induction "HTTP_MAX_BODY - tot" arbitrary: tot buf t rule: less_induct)
  case less
  have IH: "map_option (apsnd stream) (read_chunks getc mem (tot + n) b t1) = read_chunks lgetc mem (tot + n) b (stream t1)"
    if "0 < n" "n \<le> HTTP_MAX_BODY - tot" for n b t1 using less that by simp
  show ?case
    by (subst (1 2) read_chunks.simps)
      (auto simp: bind_line bind_lgetc bind_bytes bind_block IH map_option_bind comp_def
        split: prod.splits intro!: Option.bind_cong)
qed

lemma stream_Nil: "getc t = None \<longleftrightarrow> stream t = []"
  using getc_stream [of t] by (cases "stream t"; cases "getc t") auto

lemma read_eof_stream:
  "map_option (apsnd stream) (read_eof getc mem tot buf t) = read_eof lgetc mem tot buf (stream t)"
proof (induction "HTTP_MAX_BODY - tot" arbitrary: tot buf t rule: less_induct)
  case less
  show ?case
  proof (cases "getc t")
    case None
    then show ?thesis using stream_Nil [of t] by (subst (1 2) read_eof.simps) simp
  next
    case (Some r)
    then obtain c t1 where r: "getc t = Some (c, t1)" by (cases r) auto
    with getc_stream [of t] have "lgetc (stream t) = Some (c, stream t1)" by simp
    with r less show ?thesis
      by (subst (1 2) read_eof.simps) (auto simp: map_option_bind comp_def intro!: Option.bind_cong)
  qed
qed

lemma body_loop_stream:
  "map_option (apsnd stream) (body_loop getc mem f buf t) = body_loop lgetc mem f buf (stream t)"
  by (simp add: body_loop_def read_chunks_stream read_bytes_stream read_eof_stream)

lemma read_body_stream:
  "map_option (apsnd stream) (read_body getc mem f t) = read_body lgetc mem f (stream t)"
  by (auto simp: read_body_def map_option_bind comp_def bind_stream [OF body_loop_stream]
      split: prod.splits intro!: Option.bind_cong)

lemma status_line_stream:
  "map_option (apsnd stream) (status_line getc l t) = status_line lgetc l (stream t)"
  by (auto simp: status_line_def bind_line map_option_bind comp_def split: prod.splits option.splits list.splits intro!: Option.bind_cong)

lemmas bind_body = bind_stream [OF read_body_stream]

lemma parse_stream:
  "map_option (apsnd stream) (HttpResponseParser_parse_with_options getc mem line meth t)
     = HttpResponseParser_parse_with_options lgetc mem line meth (stream t)"
  by (auto simp: HttpResponseParser_parse_with_options_def map_option_bind comp_def bind_stream [OF status_line_stream] bind_status bind_headers bind_body
      split: prod.splits option.splits intro!: Option.bind_cong)

end

end
