(* ===== verification/Multipart.thy ===== *)
theory Multipart
  imports Http_Request Http_Transport
begin

text \<open>
  \<^verbatim>\<open>src/src/multipart_writer.c\<close> and \<^verbatim>\<open>src/src/multipart_parser.c\<close>: \<^verbatim>\<open>multipart/form-data\<close> bodies, written to a connection and taken
  apart again.
  \<^item> The maps of the writer are the sequences of their keys with the value of each (\<open>None\<close> for NULL); the maps the
    parser fills are the sequences of the puts made on them.
  \<^item> The writer formats headers into a buffer of 2048 bytes but sends as many bytes as \<^verbatim>\<open>snprintf\<close> says the text has: a
    read outside of the buffer is \<open>None\<close>.
  \<^item> Files that have no data are read from the file system \<open>fs\<close>, which is an argument, as are the answers of the
    allocator and of the socket.
\<close>

section \<open>Writer\<close>

record HttpMultipartFile =
  mf_filename :: "cstring option"
  mf_content_type :: "cstring option"
  mf_data :: "byte list option"
  mf_size :: nat

type_synonym file_data = "(cstring \<times> HttpMultipartFile option) list"

text \<open>\<^verbatim>\<open>new_HttpMultipartFile\<close>; \<open>mem\<close> answers for the object, the two Strings and the data.\<close>

definition new_HttpMultipartFile ::
  "(nat \<Rightarrow> bool) \<Rightarrow> cstring option \<Rightarrow> cstring option \<Rightarrow> byte list option \<Rightarrow> nat \<Rightarrow> HttpMultipartFile option" where
  "new_HttpMultipartFile mem filename content_type dat sz =
     (if \<not> mem 0 \<or> \<not> mem 1 then None
      else let f = \<lparr>mf_filename = Some (case filename of None \<Rightarrow> lit ''unknown.bin'' | Some s \<Rightarrow> s),
                    mf_content_type = (if mem 2 then content_type else None), mf_data = None, mf_size = sz\<rparr>
           in case dat of None \<Rightarrow> Some f
              | Some d \<Rightarrow> if sz > 0 then (if mem 3 then Some (f\<lparr>mf_data := Some (take sz d)\<rparr>) else None) else Some f)"

text \<open>\<^verbatim>\<open>generate_multipart_boundary\<close>: the microseconds of the clock, the process number and a counter that wraps at 32
  bits, in upper-case hexadecimal digits.\<close>

function hex_upper :: "nat \<Rightarrow> cstring" where
  "hex_upper n = (let d = (if n mod 16 < 10 then of_nat (48 + n mod 16) else of_nat (55 + n mod 16))
                  in if n < 16 then [d] else hex_upper (n div 16) @ [d])"
  by pat_completeness auto
termination
  by (relation "measure id") auto

declare hex_upper.simps [simp del]

definition pad0 :: "nat \<Rightarrow> cstring \<Rightarrow> cstring" where
  "pad0 w s = replicate (w - length s) (ch CHR ''0'') @ s"

definition generate_multipart_boundary :: "nat \<Rightarrow> nat \<Rightarrow> nat \<Rightarrow> 32 word \<Rightarrow> cstring \<times> 32 word" where
  "generate_multipart_boundary sz usec pid counter =
     (snprintf sz (lit ''----WebCoreFormBoundary'' @ pad0 8 (hex_upper usec) @ pad0 4 (hex_upper (pid mod 2 ^ 16))
        @ pad0 4 (hex_upper (unat counter mod 2 ^ 16))),
      counter + 1)"

definition infer_mime_type :: "cstring option \<Rightarrow> cstring" where
  "infer_mime_type filename =
     (case filename of None \<Rightarrow> lit ''application/octet-stream''
      | Some s \<Rightarrow>
          (case strrchr s (ch CHR ''.'') of None \<Rightarrow> lit ''application/octet-stream''
           | Some i \<Rightarrow>
               let ext = drop i s
               in if strcasecmp_eq ext (lit ''.json'') then lit ''application/json''
                  else if strcasecmp_eq ext (lit ''.png'') then lit ''image/png''
                  else if strcasecmp_eq ext (lit ''.jpg'') \<or> strcasecmp_eq ext (lit ''.jpeg'') then lit ''image/jpeg''
                  else if strcasecmp_eq ext (lit ''.txt'') then lit ''text/plain''
                  else lit ''application/octet-stream''))"

abbreviation crlf :: cstring where "crlf \<equiv> [13, 10]"
abbreviation dashes :: cstring where "dashes \<equiv> [45, 45]"

definition disposition :: "cstring \<Rightarrow> cstring" where
  "disposition name = lit ''Content-Disposition: form-data; name='' @ [34] @ name @ [34]"

definition field_text :: "cstring \<Rightarrow> cstring \<Rightarrow> cstring \<Rightarrow> cstring" where
  "field_text boundary k v = dashes @ boundary @ crlf @ disposition k @ crlf @ crlf @ v @ crlf"

definition file_head :: "cstring \<Rightarrow> cstring \<Rightarrow> cstring \<Rightarrow> cstring \<Rightarrow> cstring" where
  "file_head boundary k fname mime =
     dashes @ boundary @ crlf @ disposition k @ lit ''; filename='' @ [34] @ fname @ [34] @ crlf
       @ lit ''Content-Type: '' @ mime @ crlf @ crlf"

text \<open>The bytes \<^verbatim>\<open>HttpTransport_send(transport, buf, len)\<close> reads after \<^verbatim>\<open>len = snprintf(buf, 2048, ..)\<close>.\<close>

definition buf_bytes :: "cstring \<Rightarrow> byte list option" where
  "buf_bytes t = (if length t < 2048 then Some t else if length t = 2048 then Some (take 2047 t @ [0]) else None)"

text \<open>The writer adds up lengths and, if \<open>send\<close> is given, sends. \<open>W_error\<close> is its \<^verbatim>\<open>return -1\<close>, \<open>W_overread\<close> a read outside
  of the buffer.\<close>

datatype write_result = W_ok nat HttpTransport | W_error | W_overread

definition send_bytes :: "bool \<Rightarrow> byte list \<Rightarrow> nat \<Rightarrow> HttpTransport \<Rightarrow> write_result" where
  "send_bytes action_send bs tot t =
     (if action_send then (case HttpTransport_send t bs of (ok, t1) \<Rightarrow> if ok then W_ok tot t1 else W_error)
      else W_ok tot t)"

definition send_text :: "bool \<Rightarrow> cstring \<Rightarrow> nat \<Rightarrow> HttpTransport \<Rightarrow> write_result" where
  "send_text action_send txt tot t =
     (if action_send then (case buf_bytes txt of None \<Rightarrow> W_overread | Some bs \<Rightarrow> send_bytes True bs (tot + length txt) t)
      else W_ok (tot + length txt) t)"

fun write_fields :: "bool \<Rightarrow> cstring \<Rightarrow> form_data \<Rightarrow> nat \<Rightarrow> HttpTransport \<Rightarrow> write_result" where
  "write_fields action_send boundary [] tot t = W_ok tot t"
| "write_fields action_send boundary ((k, v) # kvs) tot t =
     (case v of None \<Rightarrow> write_fields action_send boundary kvs tot t
      | Some x \<Rightarrow>
          (case send_text action_send (field_text boundary k x) tot t of
             W_ok tot1 t1 \<Rightarrow> write_fields action_send boundary kvs tot1 t1
           | r \<Rightarrow> r))"

text \<open>A file from disk goes out in pieces of 65536 bytes.\<close>

function send_file :: "byte list \<Rightarrow> HttpTransport \<Rightarrow> HttpTransport option" where
  "send_file content t =
     (if content = [] then Some t
      else case HttpTransport_send t (take 65536 content) of
             (ok, t1) \<Rightarrow> if ok then send_file (drop 65536 content) t1 else None)"
  by pat_completeness auto
termination
  by (relation "measure (\<lambda>(content, _). length content)") auto

declare send_file.simps [simp del]

definition write_file :: "(cstring \<Rightarrow> byte list option) \<Rightarrow> bool \<Rightarrow> bool \<Rightarrow> cstring \<Rightarrow> cstring \<Rightarrow> HttpMultipartFile \<Rightarrow> nat
    \<Rightarrow> HttpTransport \<Rightarrow> write_result" where
  "write_file fs mem action_send boundary k f tot t =
     (case mf_filename f of None \<Rightarrow> W_ok tot t
      | Some fname \<Rightarrow>
          (case (case mf_data f of Some _ \<Rightarrow> Some (mf_size f) | None \<Rightarrow> map_option length (fs fname)) of
             None \<Rightarrow> W_error
           | Some file_actual_size \<Rightarrow>
               (case multipart_filename_escape mem (Some fname) of
                  Encoded safe_fname \<Rightarrow>
                    let mime = (case mf_content_type f of Some c \<Rightarrow> c | None \<Rightarrow> infer_mime_type (Some safe_fname))
                    in (case send_text action_send (file_head boundary k safe_fname mime) tot t of
                          W_ok tot1 t1 \<Rightarrow>
                            (case (if \<not> action_send then Some t1
                                   else case mf_data f of
                                     Some d \<Rightarrow> (case HttpTransport_send t1 (take (mf_size f) d) of (ok, t2) \<Rightarrow> if ok then Some t2 else None)
                                   | None \<Rightarrow> (case fs fname of None \<Rightarrow> None | Some content \<Rightarrow> send_file content t1)) of
                               None \<Rightarrow> W_error
                             | Some t2 \<Rightarrow> send_bytes action_send crlf (tot1 + file_actual_size + 2) t2)
                        | r \<Rightarrow> r)
                | _ \<Rightarrow> W_error)))"

fun write_files :: "(cstring \<Rightarrow> byte list option) \<Rightarrow> (nat \<Rightarrow> bool) \<Rightarrow> nat \<Rightarrow> bool \<Rightarrow> cstring \<Rightarrow> file_data \<Rightarrow> nat \<Rightarrow> HttpTransport
    \<Rightarrow> write_result" where
  "write_files fs mem i action_send boundary [] tot t = W_ok tot t"
| "write_files fs mem i action_send boundary ((k, f) # kfs) tot t =
     (case f of None \<Rightarrow> write_files fs mem (i + 1) action_send boundary kfs tot t
      | Some x \<Rightarrow>
          (case write_file fs (mem i) action_send boundary k x tot t of
             W_ok tot1 t1 \<Rightarrow> write_files fs mem (i + 1) action_send boundary kfs tot1 t1
           | r \<Rightarrow> r))"

definition process_multipart ::
  "(cstring \<Rightarrow> byte list option) \<Rightarrow> (nat \<Rightarrow> bool) \<Rightarrow> form_data option \<Rightarrow> file_data option \<Rightarrow> cstring \<Rightarrow> HttpTransport \<Rightarrow> bool
     \<Rightarrow> write_result" where
  "process_multipart fs mem data files boundary t action_send =
     (case write_fields action_send boundary (case data of None \<Rightarrow> [] | Some d \<Rightarrow> d) 0 t of
        W_ok tot1 t1 \<Rightarrow>
          (case write_files fs mem 0 action_send boundary (case files of None \<Rightarrow> [] | Some x \<Rightarrow> x) tot1 t1 of
             W_ok tot2 t2 \<Rightarrow> send_text action_send (dashes @ boundary @ dashes @ crlf) tot2 t2
           | r \<Rightarrow> r)
      | r \<Rightarrow> r)"

definition MultipartWriter_calculate_length ::
  "(cstring \<Rightarrow> byte list option) \<Rightarrow> (nat \<Rightarrow> bool) \<Rightarrow> form_data option \<Rightarrow> file_data option \<Rightarrow> cstring \<Rightarrow> HttpTransport \<Rightarrow> write_result" where
  "MultipartWriter_calculate_length fs mem data files boundary t = process_multipart fs mem data files boundary t False"

definition MultipartWriter_stream_send ::
  "(cstring \<Rightarrow> byte list option) \<Rightarrow> (nat \<Rightarrow> bool) \<Rightarrow> form_data option \<Rightarrow> file_data option \<Rightarrow> cstring \<Rightarrow> HttpTransport \<Rightarrow> write_result" where
  "MultipartWriter_stream_send fs mem data files boundary t = process_multipart fs mem data files boundary t True"

text \<open>(The count in \<open>W_ok\<close> is the \<^verbatim>\<open>total_len\<close> of \<^verbatim>\<open>process_multipart\<close>; \<^verbatim>\<open>MultipartWriter_stream_send\<close> returns 0 in its place.)\<close>

section \<open>Parser\<close>

definition Multipart_extract_boundary :: "cstring \<Rightarrow> nat \<Rightarrow> cstring option" where
  "Multipart_extract_boundary ct_header out_size =
     (if out_size = 0 then None
      else case strcasestr ct_header (lit ''boundary='') of None \<Rightarrow> None
      | Some i \<Rightarrow>
          let p = drop (i + 9) ct_header;
              p1 = (if p \<noteq> [] \<and> hd p = 34 then tl p else p);
              b = takeWhile (\<lambda>c. c \<notin> {34, 59, 32, 13, 10}) p1
          in if b = [] \<or> length b \<ge> out_size then None else Some b)"

text \<open>The search of \<^verbatim>\<open>extract_param\<close>: the offset behind a \<^verbatim>\<open>param=\<close> that stands at the start or behind a separator.\<close>

function param_search :: "cstring \<Rightarrow> cstring \<Rightarrow> nat \<Rightarrow> nat option" where
  "param_search block needle pos =
     (if pos > length block then None
      else case strcasestr (drop pos block) needle of None \<Rightarrow> None
      | Some i \<Rightarrow>
          let s = pos + i
          in if s = 0 \<or> block ! (s - 1) = 59 \<or> block ! (s - 1) = 32 \<or> block ! (s - 1) = 9
             then Some (s + length needle) else param_search block needle (s + 1))"
  by pat_completeness auto
termination
  by (relation "measure (\<lambda>(block, _, pos). Suc (length block) - pos)") auto

declare param_search.simps [simp del]

definition param_value :: "cstring \<Rightarrow> cstring" where
  "param_value p =
     (if p \<noteq> [] \<and> hd p = 34 then takeWhile (\<lambda>c. c \<noteq> 34) (tl p)
      else takeWhile (\<lambda>c. c \<notin> {59, 13, 10, 32}) p)"

definition extract_param :: "bool \<Rightarrow> cstring \<Rightarrow> cstring \<Rightarrow> cstring option" where
  "extract_param mem block param =
     (case param_search block (snprintf 64 (param @ lit ''='')) 0 of None \<Rightarrow> None
      | Some i \<Rightarrow> let v = param_value (drop i block) in if v = [] \<or> \<not> mem then None else Some v)"

definition extract_content_type :: "bool \<Rightarrow> cstring \<Rightarrow> cstring option" where
  "extract_content_type mem block =
     (case strcasestr block (lit ''Content-Type:'') of None \<Rightarrow> None
      | Some i \<Rightarrow>
          let v = takeWhile (\<lambda>c. c \<noteq> 13 \<and> c \<noteq> 10) (dropWhile (\<lambda>c. c = 32 \<or> c = 9) (drop (i + 13) block))
          in if v = [] \<or> \<not> mem then None else Some v)"

record MultipartResult =
  mp_fields :: "(cstring \<times> cstring) list"
  mp_files :: "(cstring \<times> HttpMultipartFile) list"

text \<open>\<open>mem\<close>: 0 the copy of the header, 1 to 3 the three parameters, 4 to 7 the file, 8 and 9 the value and its String,
  10 the node in the map.\<close>

definition process_part :: "(nat \<Rightarrow> bool) \<Rightarrow> MultipartResult \<Rightarrow> byte list \<Rightarrow> MultipartResult" where
  "process_part mem mp part =
     (case memmem part (crlf @ crlf) of None \<Rightarrow> mp
      | Some hdr_len \<Rightarrow>
          let body = drop (hdr_len + 4) part; hdr = c_str (take hdr_len part)
          in if \<not> mem 0 then mp
             else case extract_param (mem 1) hdr (lit ''name'') of None \<Rightarrow> mp
             | Some name \<Rightarrow>
                 (case extract_param (mem 2) hdr (lit ''filename'') of
                    Some filename \<Rightarrow>
                      let mime = (case extract_content_type (mem 3) hdr of Some c \<Rightarrow> c | None \<Rightarrow> lit ''application/octet-stream'')
                      in (case new_HttpMultipartFile (\<lambda>i. mem (i + 4)) (Some filename) (Some mime) (Some body) (length body) of
                            None \<Rightarrow> mp
                          | Some f \<Rightarrow> if mem 10 then mp\<lparr>mp_files := mp_files mp @ [(name, f)]\<rparr> else mp)
                  | None \<Rightarrow> if mem 8 \<and> mem 9 \<and> mem 10 then mp\<lparr>mp_fields := mp_fields mp @ [(name, c_str body)]\<rparr> else mp))"

text \<open>The main loop on what is left of the body; \<open>i\<close> counts the parts.\<close>

definition skip_eol :: "byte list \<Rightarrow> byte list" where
  "skip_eol s = (if take 2 s = crlf then drop 2 s else if s \<noteq> [] \<and> hd s = 10 then tl s else s)"

function parse_loop :: "(nat \<Rightarrow> nat \<Rightarrow> bool) \<Rightarrow> cstring \<Rightarrow> bool \<Rightarrow> nat \<Rightarrow> MultipartResult \<Rightarrow> byte list \<Rightarrow> MultipartResult" where
  "parse_loop mem boundary first i mp cur =
     (if cur = [] then mp
      else let delim = (if first then dashes @ boundary else crlf @ dashes @ boundary)
           in case memmem cur delim of None \<Rightarrow> mp
              | Some hit \<Rightarrow>
                  let rest = drop (hit + length delim) cur
                  in if take 2 rest = dashes then mp
                     else let part = skip_eol rest
                          in case memmem part (crlf @ dashes @ boundary) of None \<Rightarrow> mp
                             | Some next_hit \<Rightarrow>
                                 parse_loop mem boundary False (i + 1)
                                   (if next_hit > 0 then process_part (mem i) mp (take next_hit part) else mp)
                                   (drop next_hit part))"
  by pat_completeness auto
termination
proof (relation "measure (\<lambda>(_, _, _, _, _, cur). length cur)")
  fix mem :: "nat \<Rightarrow> nat \<Rightarrow> bool" and boundary first i mp cur delim hit rest part next_hit
  assume *: "cur \<noteq> []" "delim = (if first then dashes @ boundary else crlf @ dashes @ boundary)" "memmem cur delim = Some hit"
    "rest = drop (hit + length delim) cur" "part = skip_eol rest"
  have "length part \<le> length rest" using *(5) by (simp add: skip_eol_def)
  moreover have "length rest < length cur" using *(1,2,4) memmem_bound [OF *(3)] by (auto simp: neq_Nil_conv)
  ultimately show "((mem, boundary, False, i + 1, if next_hit > 0 then process_part (mem i) mp (take next_hit part) else mp, drop next_hit part),
      mem, boundary, first, i, mp, cur) \<in> measure (\<lambda>(_, _, _, _, _, cur). length cur)" by simp
qed simp

declare parse_loop.simps [simp del]

definition Multipart_parse :: "bool \<Rightarrow> (nat \<Rightarrow> nat \<Rightarrow> bool) \<Rightarrow> byte list \<Rightarrow> cstring \<Rightarrow> MultipartResult option" where
  "Multipart_parse mem_obj mem body boundary =
     (if body = [] \<or> boundary = [] \<or> \<not> mem_obj then None
      else Some (parse_loop mem boundary True 0 \<lparr>mp_fields = [], mp_files = []\<rparr> body))"

definition MultipartResult_get_field :: "MultipartResult \<Rightarrow> cstring \<Rightarrow> cstring option" where
  "MultipartResult_get_field self name = map_of (rev (mp_fields self)) name"

definition MultipartResult_get_file :: "MultipartResult \<Rightarrow> cstring \<Rightarrow> HttpMultipartFile option" where
  "MultipartResult_get_file self name = map_of (rev (mp_files self)) name"

end
