(* ===== verification/Http_Client.thy ===== *)
theory Http_Client
  imports Http_Response Multipart
begin

text \<open>
  \<^verbatim>\<open>src/src/http_client.c\<close>: cookies, the assembly of requests, the handshake of \<^verbatim>\<open>Expect: 100-continue\<close>, redirects and the calls of
  the client.
  \<^item> The header map is the sequence of its keys with their values, in the order of \<^verbatim>\<open>keys()\<close>; the cookie jar is the list of
    its cookies.
  \<^item> What the world answers to one attempt (the socket layer, the clock, the allocator, the file system) is the record
    \<open>attempt_env\<close>. The \<^verbatim>\<open>String\<close>s that collect the head grow by \<^verbatim>\<open>append\<close>, whose answers are taken to be positive.
  \<^item> The value of \<^verbatim>\<open>execute\<close> is NULL, a response, or the pointer to a response that was released before (\<open>Exec_freed\<close>).
\<close>

section \<open>Cookies\<close>

record HttpCookie =
  ck_name :: "cstring option"
  ck_value :: "cstring option"
  ck_domain :: "cstring option"
  ck_path :: "cstring option"
  ck_secure :: bool
  ck_http_only :: bool

definition no_cookie :: HttpCookie where
  "no_cookie = \<lparr>ck_name = None, ck_value = None, ck_domain = None, ck_path = None, ck_secure = False, ck_http_only = False\<rparr>"

definition strdup :: "bool \<Rightarrow> cstring \<Rightarrow> cstring option" where
  "strdup mem s = (if mem then Some s else None)"

text \<open>The loop of \<^verbatim>\<open>new_HttpCookie\<close>, behind the first token; \<open>mem i\<close> answers for the copy token \<open>i\<close> makes.\<close>

fun cookie_attrs :: "(nat \<Rightarrow> bool) \<Rightarrow> nat \<Rightarrow> HttpCookie \<Rightarrow> cstring list \<Rightarrow> HttpCookie" where
  "cookie_attrs mem i c [] = c"
| "cookie_attrs mem i c (raw # ts) =
     (let token = dropWhile isspace raw
      in cookie_attrs mem (i + 1)
           (case strchr token (ch CHR ''='') of
              Some eq \<Rightarrow>
                let k = take eq token; v = dropWhile isspace (drop (eq + 1) token)
                in if strcasecmp_eq k (lit ''Path'') then c\<lparr>ck_path := strdup (mem i) v\<rparr>
                   else if strcasecmp_eq k (lit ''Domain'') then c\<lparr>ck_domain := strdup (mem i) v\<rparr>
                   else c
            | None \<Rightarrow>
                if strcasecmp_eq token (lit ''Secure'') then c\<lparr>ck_secure := True\<rparr>
                else if strcasecmp_eq token (lit ''HttpOnly'') then c\<lparr>ck_http_only := True\<rparr>
                else c) ts)"

text \<open>\<open>mem\<close>: 0 the cookie, 1 the copy, 2 the name, 3 the value, from 4 on the attributes.\<close>

definition new_HttpCookie :: "(nat \<Rightarrow> bool) \<Rightarrow> cstring option \<Rightarrow> HttpCookie option" where
  "new_HttpCookie mem raw_str =
     (case raw_str of None \<Rightarrow> None
      | Some s \<Rightarrow>
          if \<not> mem 0 \<or> \<not> mem 1 then None
          else let c = (case strtok (\<lambda>c. c = ch CHR '';'') s of [] \<Rightarrow> no_cookie
                        | raw # ts \<Rightarrow>
                            let token = dropWhile isspace raw;
                                c0 = (case strchr token (ch CHR ''='') of None \<Rightarrow> no_cookie
                                      | Some eq \<Rightarrow> no_cookie\<lparr>ck_name := strdup (mem 2) (take eq token),
                                                              ck_value := strdup (mem 3) (drop (eq + 1) token)\<rparr>)
                            in cookie_attrs mem 4 c0 ts)
               in if ck_name c = None then None else Some c)"

definition same_opt :: "(cstring \<Rightarrow> cstring \<Rightarrow> bool) \<Rightarrow> cstring option \<Rightarrow> cstring option \<Rightarrow> bool" where
  "same_opt eq a b = (case (a, b) of (None, None) \<Rightarrow> True | (Some x, Some y) \<Rightarrow> eq x y | _ \<Rightarrow> False)"

definition same_cookie :: "HttpCookie \<Rightarrow> HttpCookie \<Rightarrow> bool" where
  "same_cookie c d \<longleftrightarrow> ck_name c = ck_name d \<and> same_opt strcasecmp_eq (ck_domain c) (ck_domain d) \<and> same_opt (=) (ck_path c) (ck_path d)"

fun remove_same :: "HttpCookie \<Rightarrow> HttpCookie list \<Rightarrow> HttpCookie list" where
  "remove_same n [] = []"
| "remove_same n (c # jar) = (if same_cookie c n then jar else c # remove_same n jar)"

definition update_cookie_jar :: "bool \<Rightarrow> HttpCookie list \<Rightarrow> HttpCookie \<Rightarrow> HttpCookie list" where
  "update_cookie_jar mem jar new_c = remove_same new_c jar @ (if mem then [new_c] else [])"

definition cookie_matches :: "HttpCookie \<Rightarrow> cstring \<Rightarrow> cstring \<Rightarrow> bool" where
  "cookie_matches c host path \<longleftrightarrow>
     (case ck_domain c of None \<Rightarrow> True
      | Some d \<Rightarrow> strcasecmp_eq d host
          \<or> (d \<noteq> [] \<and> hd d = ch CHR ''.'' \<and> length host > length d \<and> strcasecmp_eq (drop (length host - length d) host) d))
   \<and> (case ck_path c of None \<Rightarrow> True | Some p \<Rightarrow> strncmp_eq path p (length p))"

section \<open>The client\<close>

record HttpClient =
  cl_default_headers :: "(cstring \<times> cstring) list"
  cl_cookie_jar :: "HttpCookie list"
  cl_timeout_ms :: int
  cl_max_redirects :: int
  cl_follow_redirects :: bool
  cl_enable_compression :: bool
  cl_expect_100_continue :: bool

datatype PayloadType = PAYLOAD_NONE | PAYLOAD_FORM | PAYLOAD_JSON | PAYLOAD_RAW | PAYLOAD_MULTIPART

record HttpClientRequest =
  cr_method :: cstring
  cr_url :: "cstring option"
  cr_payload_type :: PayloadType
  cr_data :: "form_data option"
  cr_files :: "file_data option"
  cr_raw_body :: "byte list option"
  cr_raw_body_len :: nat
  cr_raw_content_type :: "cstring option"

definition new_HttpClient :: "bool \<Rightarrow> HttpClient option" where
  "new_HttpClient mem =
     (if mem then Some \<lparr>cl_default_headers = [], cl_cookie_jar = [], cl_timeout_ms = 5000, cl_max_redirects = 5,
                        cl_follow_redirects = True, cl_enable_compression = False, cl_expect_100_continue = False\<rparr>
      else None)"

definition headers_put :: "(cstring \<times> cstring) list \<Rightarrow> cstring \<Rightarrow> cstring \<Rightarrow> (cstring \<times> cstring) list" where
  "headers_put m k v = (if k \<in> fst ` set m then map (\<lambda>(a, b). (a, if a = k then v else b)) m else m @ [(k, v)])"

definition HttpClient_setHeader :: "bool \<Rightarrow> HttpClient \<Rightarrow> cstring option \<Rightarrow> cstring option \<Rightarrow> HttpClient" where
  "HttpClient_setHeader mem self key val =
     (case (key, val) of
        (Some k, Some v) \<Rightarrow> if mem then self\<lparr>cl_default_headers := headers_put (cl_default_headers self) k v\<rparr> else self
      | _ \<Rightarrow> self)"

definition impl_setBearerToken :: "bool \<Rightarrow> HttpClient \<Rightarrow> cstring option \<Rightarrow> HttpClient" where
  "impl_setBearerToken mem self token =
     (case token of None \<Rightarrow> self
      | Some t \<Rightarrow> HttpClient_setHeader mem self (Some (lit ''Authorization'')) (Some (snprintf 4096 (lit ''Bearer '' @ t))))"

section \<open>One attempt\<close>

record attempt_env =
  ae_open :: "bool \<Rightarrow> cstring \<Rightarrow> nat \<Rightarrow> socket option"
  ae_url_map :: bool
  ae_url :: "nat \<Rightarrow> bool"
  ae_tr :: bool
  ae_fs :: "cstring \<Rightarrow> byte list option"
  ae_clock :: "nat \<times> nat \<times> 32 word"
  ae_body :: "bool \<times> bool \<times> bool"
  ae_pair :: "nat \<Rightarrow> bool \<times> bool"
  ae_part :: "nat \<Rightarrow> bool"
  ae_norm :: "bool \<times> bool"
  ae_seg :: "nat \<Rightarrow> bool"
  ae_head :: bool
  ae_keys :: bool
  ae_cookie :: bool
  ae_res :: http_mem
  ae_jar :: "nat \<Rightarrow> nat \<Rightarrow> bool"
  ae_jar_add :: "nat \<Rightarrow> bool"

record payload =
  pl_body :: "byte list option"
  pl_len :: nat
  pl_type :: "cstring option"

definition build_body :: "(bool \<Rightarrow> bool \<Rightarrow> bool \<Rightarrow> (nat \<Rightarrow> bool \<times> bool) \<Rightarrow> form_data option \<Rightarrow> cstring option) \<Rightarrow> attempt_env
    \<Rightarrow> form_data option \<Rightarrow> cstring \<Rightarrow> payload" where
  "build_body builder env data ct =
     (let b = (case ae_body env of (m1, m2, m3) \<Rightarrow> builder m1 m2 m3 (ae_pair env) data)
      in \<lparr>pl_body = b, pl_len = (case b of None \<Rightarrow> 0 | Some s \<Rightarrow> length s), pl_type = Some ct\<rparr>)"

text \<open>The choice of the payload; \<open>None\<close> is the \<^verbatim>\<open>return NULL\<close> of a multipart body that cannot be measured.\<close>

definition make_payload :: "attempt_env \<Rightarrow> HttpClientRequest \<Rightarrow> cstring \<Rightarrow> HttpTransport \<Rightarrow> payload option" where
  "make_payload env req boundary t =
     (case cr_payload_type req of
        PAYLOAD_FORM \<Rightarrow> Some (build_body build_form_body env (cr_data req) (lit ''application/x-www-form-urlencoded''))
      | PAYLOAD_JSON \<Rightarrow> Some (build_body build_json_body env (cr_data req) (lit ''application/json''))
      | PAYLOAD_RAW \<Rightarrow> Some \<lparr>pl_body = cr_raw_body req, pl_len = cr_raw_body_len req, pl_type = cr_raw_content_type req\<rparr>
      | PAYLOAD_MULTIPART \<Rightarrow>
          (case MultipartWriter_calculate_length (ae_fs env) (ae_part env) (cr_data req) (cr_files req) boundary t of
             W_ok n _ \<Rightarrow> Some \<lparr>pl_body = None, pl_len = n,
                              pl_type = Some (snprintf 128 (lit ''multipart/form-data; boundary='' @ boundary))\<rparr>
           | _ \<Rightarrow> None)
      | PAYLOAD_NONE \<Rightarrow> Some \<lparr>pl_body = None, pl_len = 0, pl_type = None\<rparr>)"

definition cookie_header :: "attempt_env \<Rightarrow> HttpCookie list \<Rightarrow> cstring \<Rightarrow> cstring \<Rightarrow> cstring" where
  "cookie_header env jar host path =
     (let cs = filter (\<lambda>c. ck_name c \<noteq> None \<and> ck_value c \<noteq> None \<and> cookie_matches c host path) jar;
          texts = map (\<lambda>c. snprintf 8192 (the (ck_name c) @ lit ''='' @ the (ck_value c))) cs
      in if jar = [] \<or> \<not> ae_cookie env \<or> cs = [] then []
         else lit ''Cookie: '' @ hd texts @ concat (map (\<lambda>x. lit ''; '' @ x) (tl texts)) @ crlf)"

definition first_lines :: "cstring \<Rightarrow> cstring \<Rightarrow> cstring \<Rightarrow> cstring" where
  "first_lines meth path host =
     snprintf 8192 (meth @ lit '' '' @ path @ lit '' HTTP/1.1'' @ crlf @ lit ''Host: '' @ host @ crlf
       @ lit ''User-Agent: WebCore-Client/1.5'' @ crlf @ lit ''Accept: */*'' @ crlf)"

definition last_lines :: "payload \<Rightarrow> cstring" where
  "last_lines pl =
     snprintf 8192 (case pl_type pl of
       Some ct \<Rightarrow> if pl_len pl > 0
         then lit ''Content-Type: '' @ ct @ crlf @ lit ''Content-Length: '' @ dec_digits (pl_len pl) @ crlf @ lit ''Connection: close'' @ crlf @ crlf
         else lit ''Content-Length: 0'' @ crlf @ lit ''Connection: close'' @ crlf @ crlf
     | None \<Rightarrow> lit ''Content-Length: 0'' @ crlf @ lit ''Connection: close'' @ crlf @ crlf)"

definition request_text :: "attempt_env \<Rightarrow> HttpClient \<Rightarrow> HttpClientRequest \<Rightarrow> payload \<Rightarrow> cstring \<Rightarrow> cstring \<Rightarrow> bool \<Rightarrow> cstring" where
  "request_text env self req pl path host expect_100 =
     first_lines (cr_method req) path host
     @ (if cl_enable_compression self then lit ''Accept-Encoding: gzip, deflate'' @ crlf else [])
     @ (if ae_keys env then concat (map (\<lambda>(k, v). snprintf 8192 (k @ lit '': '' @ v @ crlf)) (cl_default_headers self)) else [])
     @ cookie_header env (cl_cookie_jar self) host path
     @ (if expect_100 then lit ''Expect: 100-continue'' @ crlf else [])
     @ last_lines pl"

text \<open>Sending the body; \<open>None\<close> is a failed send.\<close>

definition send_body :: "attempt_env \<Rightarrow> HttpClientRequest \<Rightarrow> cstring \<Rightarrow> payload \<Rightarrow> HttpTransport \<Rightarrow> HttpTransport option" where
  "send_body env req boundary pl t =
     (if cr_payload_type req = PAYLOAD_MULTIPART then
        (case MultipartWriter_stream_send (ae_fs env) (ae_part env) (cr_data req) (cr_files req) boundary t of
           W_ok _ t1 \<Rightarrow> Some t1 | _ \<Rightarrow> None)
      else case pl_body pl of None \<Rightarrow> Some t
           | Some b \<Rightarrow>
               if pl_len pl > 0 then (case HttpTransport_send t (take (pl_len pl) b) of (ok, t1) \<Rightarrow> if ok then Some t1 else None)
               else Some t)"

definition recv_expect_header_block :: "('t \<Rightarrow> (byte \<times> 't) option) \<Rightarrow> 't \<Rightarrow> (unit \<times> 't) option" where
  "recv_expect_header_block getc t = skip_block False getc 0 0 t"

text \<open>The loop of \<^verbatim>\<open>Expect: 100-continue\<close>.\<close>

function expect_loop :: "(HttpTransport \<Rightarrow> HttpTransport option) \<Rightarrow> http_mem \<Rightarrow> cstring \<Rightarrow> nat \<Rightarrow> bool \<Rightarrow> HttpTransport
    \<Rightarrow> (HttpClientResponse \<times> HttpTransport) option" where
  "expect_loop send mem meth informational_count body_sent t =
     do { ((_, line), t1) \<leftarrow> HttpTransport_recv_line HttpTransport_getc 4096 t;
          parsed_status \<leftarrow> sscanf_status line;
          if parsed_status < 100 \<or> parsed_status > 999 then None
          else if parsed_status = 101 then None
          else if parsed_status < 200 then
            if informational_count + 1 > HTTP_MAX_INFORMATIONAL then None
            else do { (_, t2) \<leftarrow> recv_expect_header_block HttpTransport_getc t1;
                      t3 \<leftarrow> (if parsed_status = 100 \<and> \<not> body_sent then send t2 else Some t2);
                      expect_loop send mem meth (informational_count + 1) (body_sent \<or> parsed_status = 100) t3 }
          else HttpResponseParser_parse_with_options HttpTransport_getc mem (Some line) (Some meth) t1 }"
  by pat_completeness auto
termination
  by (relation "measure (\<lambda>(_, _, _, informational_count, _, _). 11 - informational_count)") auto

declare expect_loop.simps [simp del]

definition boundary_of :: "attempt_env \<Rightarrow> HttpClientRequest \<Rightarrow> cstring" where
  "boundary_of env req =
     (if cr_payload_type req = PAYLOAD_MULTIPART
      then (case ae_clock env of (usec, pid, counter) \<Rightarrow> fst (generate_multipart_boundary 64 usec pid counter)) else [])"

definition path_of :: "attempt_env \<Rightarrow> HttpTransport \<Rightarrow> cstring" where
  "path_of env t = (case ae_norm env of (m1, m2) \<Rightarrow> normalize_path m1 m2 (ae_seg env) (take 1023 (ht_path t)))"

text \<open>From the open connection to the response; \<open>None\<close> is every \<^verbatim>\<open>return NULL\<close> on the way.\<close>

definition attempt :: "attempt_env \<Rightarrow> HttpClient \<Rightarrow> HttpClientRequest \<Rightarrow> HttpTransport \<Rightarrow> (HttpClientResponse \<times> HttpTransport) option" where
  "attempt env self req t =
     do { let boundary = boundary_of env req;
          pl \<leftarrow> make_payload env req boundary t;
          if \<not> ae_head env then None
          else do {
            let expect_100 = (cr_payload_type req = PAYLOAD_MULTIPART \<and> cl_expect_100_continue self);
            let head = request_text env self req pl (path_of env t) (ht_host t) expect_100;
            let (ok, t1) = HttpTransport_send t head;
            if \<not> ok then None
            else if expect_100 then expect_loop (send_body env req boundary pl) (ae_res env) (cr_method req) 0 False t1
            else do { t2 \<leftarrow> send_body env req boundary pl t1;
                      HttpResponseParser_parse_with_options HttpTransport_getc (ae_res env) None (Some (cr_method req)) t2 } } }"

section \<open>Redirects\<close>

fun store_cookies :: "attempt_env \<Rightarrow> nat \<Rightarrow> HttpCookie list \<Rightarrow> cstring list \<Rightarrow> HttpCookie list" where
  "store_cookies env i jar [] = jar"
| "store_cookies env i jar (s # ss) =
     store_cookies env (i + 1)
       (case new_HttpCookie (ae_jar env i) (Some s) of None \<Rightarrow> jar | Some c \<Rightarrow> update_cookie_jar (ae_jar_add env i) jar c) ss"

definition next_url :: "attempt_env \<Rightarrow> HttpTransport \<Rightarrow> cstring \<Rightarrow> cstring" where
  "next_url env t loc =
     (let base = snprintf 16 (ht_scheme t) @ lit ''://'' @ snprintf 256 (ht_host t) @ lit '':'' @ dec_digits (ht_port t)
      in if loc \<noteq> [] \<and> hd loc = 47 then snprintf 2048 (base @ loc)
         else if strncmp_eq loc (lit ''http'') 4 then take 2047 loc
         else let path = path_of env t;
                  dir = (case strrchr path 47 of None \<Rightarrow> path | Some i \<Rightarrow> take (i + 1) path);
                  url = snprintf 2048 (base @ dir @ lit ''/'' @ loc)
              in (case ae_norm env of (m1, m2) \<Rightarrow> normalize_path m1 m2 (ae_seg env) url))"

definition is_redirect :: "int \<Rightarrow> bool" where
  "is_redirect status \<longleftrightarrow> status = 301 \<or> status = 302 \<or> status = 307 \<or> status = 308"

datatype exec_result = Exec_null | Exec_res HttpClientResponse | Exec_freed

text \<open>The loop of \<^verbatim>\<open>impl_execute\<close>: \<open>left\<close> is \<^verbatim>\<open>max_redirects + 1 - redirect_count\<close>, \<open>res0\<close> the value of \<^verbatim>\<open>res\<close>, \<open>envs i\<close> the world in
  attempt \<open>i\<close>.\<close>

fun execute_loop :: "(nat \<Rightarrow> attempt_env) \<Rightarrow> nat \<Rightarrow> nat \<Rightarrow> exec_result \<Rightarrow> HttpClient \<Rightarrow> HttpClientRequest \<Rightarrow> cstring
    \<Rightarrow> exec_result \<times> HttpClient" where
  "execute_loop envs i 0 res self req url = (res, self)"
| "execute_loop envs i (Suc left) res0 self req url =
     (let env = envs i
      in case HttpTransport_connect (ae_open env) (ae_url_map env) (ae_url env) (ae_tr env) url of
           None \<Rightarrow> (Exec_null, self)
         | Some t \<Rightarrow>
             (case attempt env self req t of
                None \<Rightarrow> (Exec_null, self)
              | Some (res, t1) \<Rightarrow>
                  let self1 = self\<lparr>cl_cookie_jar := store_cookies env 0 (cl_cookie_jar self) (res_cookies res)\<rparr>
                  in if cl_follow_redirects self \<and> is_redirect (res_status_code res)
                     then (case map_of (rev (res_headers res)) (lit ''Location'') of
                             None \<Rightarrow> (Exec_res res, self1)
                           | Some loc \<Rightarrow> execute_loop envs (i + 1) left Exec_freed self1 req (next_url env t loc))
                     else (Exec_res res, self1)))"

definition impl_execute :: "(nat \<Rightarrow> attempt_env) \<Rightarrow> HttpClient \<Rightarrow> HttpClientRequest \<Rightarrow> exec_result \<times> HttpClient" where
  "impl_execute envs self req =
     (case cr_url req of None \<Rightarrow> (Exec_null, self)
      | Some url \<Rightarrow> execute_loop envs 0 (nat (cl_max_redirects self + 1)) Exec_null self req (take 2047 url))"

section \<open>Calls\<close>

definition plain_request :: "cstring \<Rightarrow> cstring \<Rightarrow> PayloadType \<Rightarrow> form_data option \<Rightarrow> HttpClientRequest" where
  "plain_request meth url ty data =
     \<lparr>cr_method = meth, cr_url = Some url, cr_payload_type = ty, cr_data = data, cr_files = None, cr_raw_body = None,
      cr_raw_body_len = 0, cr_raw_content_type = None\<rparr>"

definition impl_GET ::
  "(nat \<Rightarrow> attempt_env) \<Rightarrow> bool \<times> bool \<times> bool \<Rightarrow> (nat \<Rightarrow> bool \<times> bool) \<Rightarrow> HttpClient \<Rightarrow> cstring \<Rightarrow> form_data option
     \<Rightarrow> exec_result \<times> HttpClient" where
  "impl_GET envs mem mem_pair self url query_params =
     (let s = (case query_params of None \<Rightarrow> url
               | Some kvs \<Rightarrow>
                   if kvs = [] then url
                   else url @ (if strchr url (ch CHR ''?'') \<noteq> None then lit ''&'' else lit ''?'')
                     @ (case mem of (m1, m2, m3) \<Rightarrow> (case build_form_body m1 m2 m3 mem_pair query_params of None \<Rightarrow> [] | Some qs \<Rightarrow> qs)))
      in impl_execute envs self (plain_request (lit ''GET'') s PAYLOAD_NONE None))"

definition impl_POST :: "(nat \<Rightarrow> attempt_env) \<Rightarrow> HttpClient \<Rightarrow> cstring \<Rightarrow> form_data option \<Rightarrow> PayloadType \<Rightarrow> exec_result \<times> HttpClient" where
  "impl_POST envs self url data ty = impl_execute envs self (plain_request (lit ''POST'') url ty data)"

definition impl_PUT :: "(nat \<Rightarrow> attempt_env) \<Rightarrow> HttpClient \<Rightarrow> cstring \<Rightarrow> form_data option \<Rightarrow> PayloadType \<Rightarrow> exec_result \<times> HttpClient" where
  "impl_PUT envs self url data ty = impl_execute envs self (plain_request (lit ''PUT'') url ty data)"

definition impl_DELETE :: "(nat \<Rightarrow> attempt_env) \<Rightarrow> HttpClient \<Rightarrow> cstring \<Rightarrow> exec_result \<times> HttpClient" where
  "impl_DELETE envs self url = impl_execute envs self (plain_request (lit ''DELETE'') url PAYLOAD_NONE None)"

definition impl_POST_RAW ::
  "(nat \<Rightarrow> attempt_env) \<Rightarrow> HttpClient \<Rightarrow> cstring \<Rightarrow> byte list option \<Rightarrow> nat \<Rightarrow> cstring option \<Rightarrow> exec_result \<times> HttpClient" where
  "impl_POST_RAW envs self url body body_len content_type =
     impl_execute envs self ((plain_request (lit ''POST'') url PAYLOAD_RAW None)
       \<lparr>cr_raw_body := body, cr_raw_body_len := body_len, cr_raw_content_type := content_type\<rparr>)"

definition impl_POST_MULTIPART ::
  "(nat \<Rightarrow> attempt_env) \<Rightarrow> HttpClient \<Rightarrow> cstring \<Rightarrow> form_data option \<Rightarrow> file_data option \<Rightarrow> exec_result \<times> HttpClient" where
  "impl_POST_MULTIPART envs self url data files =
     impl_execute envs self ((plain_request (lit ''POST'') url PAYLOAD_MULTIPART data)\<lparr>cr_files := files\<rparr>)"

end
