(* ===== verification/Router.thy ===== *)
theory Router
  imports Array_List Path_Validator
begin

text \<open>
  \<^verbatim>\<open>src/src/router.c\<close>: the route table and the dispatcher. Routes are reference-counted objects in
  an \<open>ArrayList\<close>; a request path first passes the \<open>PathValidator\<close>, then static routes are tried
  in registration order and after them the routes with \<^verbatim>\<open>:name\<close> segments; HEAD requests use six
  passes that fall back to GET routes. Handlers are opaque values of type \<open>'h\<close>; what a handler does
  is outside the router. \<^verbatim>\<open>req->params\<close> is the sequence of puts made on it (the last put of a name
  counts). Allocation answers are arguments, one \<open>match_mem\<close> per call of \<^verbatim>\<open>route_match\<close>.
\<close>

section \<open>Routes\<close>

datatype HttpMethod = HTTP_GET | HTTP_POST | HTTP_PUT | HTTP_DELETE | HTTP_PATCH | HTTP_OPTIONS
  | HTTP_HEAD | HTTP_UNKNOWN

record 'h Route =
  rt_method :: HttpMethod
  rt_path :: cstring
  rt_handler :: "'h option"

record Router =
  r_base :: addr
  r_routes :: ArrayList
  r_pv :: bool

type_synonym params = "(cstring \<times> cstring) list"

text \<open>
  \<^verbatim>\<open>new_Route\<close>: \<open>mem\<close> is the address of the object, \<open>mem_path\<close> answers for its path string. A Route
  owns its string, kept in the payload.
\<close>

definition new_Route ::
  "'h Route classes \<Rightarrow> addr alloc \<Rightarrow> unit alloc \<Rightarrow> 'h Route heap \<Rightarrow> HttpMethod \<Rightarrow> cstring option \<Rightarrow> 'h option
     \<Rightarrow> ptr \<times> 'h Route heap" where
  "new_Route cl mem mem_path h method path handler =
     (case mem of Alloc_Fail \<Rightarrow> (None, h)
      | Alloc_Ok a \<Rightarrow>
          let p = (case path of None \<Rightarrow> lit ''/'' | Some s \<Rightarrow> s);
              h1 = Object_Init (calloc_object h a \<lparr>rt_method = method, rt_path = p, rt_handler = handler\<rparr>)
                     (Some a) ''Route''
          in case mem_path of Alloc_Fail \<Rightarrow> (None, RELEASE cl h1 (Some a))
             | Alloc_Ok _ \<Rightarrow> (Some a, h1))"

text \<open>\<^verbatim>\<open>Route_finalize\<close> gives back the path string and clears the field.\<close>

definition Route_finalize :: "'h Route heap \<Rightarrow> addr \<Rightarrow> 'h Route heap" where
  "Route_finalize h a =
     (case objs h a of None \<Rightarrow> raw_fault h
      | Some ob \<Rightarrow> h\<lparr>objs := (objs h)(a \<mapsto> ob\<lparr>payload := (payload ob)\<lparr>rt_path := []\<rparr>\<rparr>)\<rparr>)"

definition Router_addRoute ::
  "'h Route classes \<Rightarrow> addr alloc \<Rightarrow> unit alloc \<Rightarrow> ptr alloc \<Rightarrow> 'h Route heap \<Rightarrow> Router \<Rightarrow> HttpMethod
     \<Rightarrow> cstring option \<Rightarrow> 'h option \<Rightarrow> 'h Route heap \<times> Router" where
  "Router_addRoute cl mem mem_path mem_add h self method path handler =
     (if path = None \<or> handler = None then (h, self)
      else case new_Route cl mem mem_path h method path handler of
             (None, h1) \<Rightarrow> (h1, self)
           | (Some a, h1) \<Rightarrow>
               (case ArrayList_add mem_add h1 (r_routes self) (Some a) of
                  (h2, routes) \<Rightarrow> (RELEASE cl h2 (Some a), self\<lparr>r_routes := routes\<rparr>)))"

definition Router_GET where "Router_GET cl m mp ma h self = Router_addRoute cl m mp ma h self HTTP_GET"
definition Router_POST where "Router_POST cl m mp ma h self = Router_addRoute cl m mp ma h self HTTP_POST"
definition Router_PUT where "Router_PUT cl m mp ma h self = Router_addRoute cl m mp ma h self HTTP_PUT"
definition Router_DELETE where "Router_DELETE cl m mp ma h self = Router_addRoute cl m mp ma h self HTTP_DELETE"

text \<open>
  \<^verbatim>\<open>new_Router\<close>: the router object, its route list (32 slots) and its validator. \<open>p\<close> stands for the
  contents of the two objects that are not routes; a failed construction releases what was built.
\<close>

definition new_Router ::
  "'p classes \<Rightarrow> addr alloc \<Rightarrow> addr alloc \<Rightarrow> unit alloc \<Rightarrow> unit alloc \<Rightarrow> 'p \<Rightarrow> 'p heap
     \<Rightarrow> 'p heap \<times> Router option" where
  "new_Router cl mem mem_list mem_items mem_pv p h =
     (case mem of Alloc_Fail \<Rightarrow> (h, None)
      | Alloc_Ok a \<Rightarrow>
          (let h1 = Object_Init (calloc_object h a p) (Some a) ''Router''
           in case new_ArrayList mem_list mem_items p h1 32 of
                (h2, None) \<Rightarrow> (RELEASE cl h2 (Some a), None)
              | (h2, Some routes) \<Rightarrow>
                  (case mem_pv of
                     Alloc_Fail \<Rightarrow> (RELEASE cl (RELEASE cl h2 (Some (al_base routes))) (Some a), None)
                   | Alloc_Ok _ \<Rightarrow> (h2, Some \<lparr>r_base = a, r_routes = routes, r_pv = True\<rparr>))))"

section \<open>Matching\<close>

abbreviation colon :: byte where "colon \<equiv> 58"

fun split_loop :: "(nat \<Rightarrow> unit alloc) \<Rightarrow> nat \<Rightarrow> nat \<Rightarrow> cstring list \<Rightarrow> cstring list" where
  "split_loop dup max_segs cnt [] = []"
| "split_loop dup max_segs cnt (token # tokens) =
     (if cnt \<ge> max_segs then []
      else case dup cnt of Alloc_Fail \<Rightarrow> []
           | Alloc_Ok _ \<Rightarrow> token # split_loop dup max_segs (cnt + 1) tokens)"

definition split_segments :: "unit alloc \<Rightarrow> (nat \<Rightarrow> unit alloc) \<Rightarrow> cstring option \<Rightarrow> nat \<Rightarrow> cstring list" where
  "split_segments copy dup path max_segs =
     (case path of None \<Rightarrow> []
      | Some p \<Rightarrow> (case copy of Alloc_Fail \<Rightarrow> []
          | Alloc_Ok _ \<Rightarrow> split_loop dup max_segs 0 (strtok (\<lambda>c. c = slash) p)))"

record match_mem =
  mm_route_copy :: "unit alloc"
  mm_route_dup :: "nat \<Rightarrow> unit alloc"
  mm_req_copy :: "unit alloc"
  mm_req_dup :: "nat \<Rightarrow> unit alloc"
  mm_value :: "nat \<Rightarrow> unit alloc"

text \<open>
  The two comparison loops and the extraction loop, over the two segment arrays of equal length.
  (Entries below the counts are never NULL, so that the NULL tests of the loops do not fire.)
\<close>

fun match_static :: "cstring list \<Rightarrow> cstring list \<Rightarrow> bool" where
  "match_static (r # rs) (q # qs) =
     (if c_at r 0 = colon then False else if r \<noteq> q then False else match_static rs qs)"
| "match_static _ _ = True"

fun match_dynamic :: "cstring list \<Rightarrow> cstring list \<Rightarrow> bool" where
  "match_dynamic (r # rs) (q # qs) =
     (if c_at r 0 \<noteq> colon \<and> r \<noteq> q then False else match_dynamic rs qs)"
| "match_dynamic _ _ = True"

fun extract_params :: "(nat \<Rightarrow> unit alloc) \<Rightarrow> nat \<Rightarrow> cstring list \<Rightarrow> cstring list \<Rightarrow> params" where
  "extract_params val i (r # rs) (q # qs) =
     (if c_at r 0 = colon
      then (case val i of Alloc_Fail \<Rightarrow> extract_params val (i + 1) rs qs
            | Alloc_Ok _ \<Rightarrow> (drop 1 r, q) # extract_params val (i + 1) rs qs)
      else extract_params val (i + 1) rs qs)"
| "extract_params val i _ _ = []"

text \<open>\<open>params\<close> is NULL (\<open>None\<close>) or the request's parameter map.\<close>

definition route_match ::
  "match_mem \<Rightarrow> cstring option \<Rightarrow> cstring option \<Rightarrow> params option \<Rightarrow> bool \<Rightarrow> bool \<times> params option" where
  "route_match mem route_path req_path params is_param_pass =
     (let r_segs = split_segments (mm_route_copy mem) (mm_route_dup mem) route_path 32;
          q_segs = split_segments (mm_req_copy mem) (mm_req_dup mem) req_path 32
      in if length r_segs \<noteq> length q_segs then (False, params)
         else if \<not> is_param_pass then (match_static r_segs q_segs, params)
         else if match_dynamic r_segs q_segs
         then (True, map_option (\<lambda>ps. ps @ extract_params (mm_value mem) 0 r_segs q_segs) params)
         else (False, params))"

section \<open>Dispatch\<close>

text \<open>\<open>(Route* )routes->get(routes, i)\<close> and the object behind it.\<close>

definition route_at :: "'h Route heap \<Rightarrow> ArrayList \<Rightarrow> nat \<Rightarrow> 'h Route option" where
  "route_at h routes i =
     (case ArrayList_get routes (int i) of None \<Rightarrow> None | Some a \<Rightarrow> map_option payload (objs h a))"

text \<open>
  One pass over the route table, from index \<open>i\<close>: the loop of \<^verbatim>\<open>find_route_head_helper\<close> and the
  two loops of \<^verbatim>\<open>impl_dispatch\<close> differ only in the method test \<open>accepts\<close>.
\<close>

function find_route ::
  "'h Route heap \<Rightarrow> ArrayList \<Rightarrow> (HttpMethod \<Rightarrow> bool) \<Rightarrow> (nat \<Rightarrow> match_mem) \<Rightarrow> cstring \<Rightarrow> params option \<Rightarrow> bool
     \<Rightarrow> nat \<Rightarrow> nat \<Rightarrow> ('h Route \<times> params option) option" where
  "find_route h routes accepts mem safe_path params is_dynamic route_count i =
     (if i < route_count then
        (case route_at h routes i of
           None \<Rightarrow> find_route h routes accepts mem safe_path params is_dynamic route_count (i + 1)
         | Some r \<Rightarrow>
             if accepts (rt_method r) then
               (case route_match (mem i) (Some (rt_path r)) (Some safe_path) params is_dynamic of
                  (True, ps) \<Rightarrow> Some (r, ps)
                | (False, ps) \<Rightarrow>
                    find_route h routes accepts mem safe_path ps is_dynamic route_count (i + 1))
             else find_route h routes accepts mem safe_path params is_dynamic route_count (i + 1))
      else None)"
  by pat_completeness auto
termination
  by (relation "measure (\<lambda>(h, routes, accepts, mem, safe_path, params, is_dynamic, route_count, i). route_count - i)") auto

declare find_route.simps [simp del]

definition find_route_head_helper ::
  "'h Route heap \<Rightarrow> Router \<Rightarrow> (nat \<Rightarrow> match_mem) \<Rightarrow> HttpMethod \<Rightarrow> cstring \<Rightarrow> params \<Rightarrow> bool
     \<Rightarrow> ('h Route \<times> params) option" where
  "find_route_head_helper h self mem method safe_path params is_dynamic =
     map_option (\<lambda>(r, ps). (r, case ps of None \<Rightarrow> params | Some q \<Rightarrow> q))
       (find_route h (r_routes self) (\<lambda>m. m = method) mem safe_path
          (if is_dynamic then Some params else None) is_dynamic
          (nat (ArrayList_getSize (r_routes self))) 0)"

datatype 'h dispatch_result =
    Sent_error int        \<comment> \<open>\<^verbatim>\<open>Router_sendError\<close> with this status\<close>
  | Handled 'h params     \<comment> \<open>the handler called, with the parameters the request then has\<close>
  | No_handler            \<comment> \<open>a route matched but has no handler: return without a response\<close>

text \<open>\<open>mem k i\<close> answers for the match of route \<open>i\<close> in pass \<open>k\<close>.\<close>

definition Router_dispatch ::
  "(nat \<Rightarrow> nat \<Rightarrow> match_mem) \<Rightarrow> 'h Route heap \<Rightarrow> Router \<Rightarrow> HttpMethod \<Rightarrow> cstring option \<Rightarrow> params
     \<Rightarrow> 'h dispatch_result" where
  "Router_dispatch mem h self req_method req_path params =
     (let original_path = (case req_path of None \<Rightarrow> lit ''/'' | Some p \<Rightarrow> p) in
      if \<not> r_pv self then Sent_error 500
      else case PathValidator_validate (Some original_path) (MAX_PATH_LEN + 1) of
        None \<Rightarrow> Sent_error 400
      | Some safe_path \<Rightarrow>
          if req_method = HTTP_HEAD then
            let pass = (\<lambda>k m dyn. find_route_head_helper h self (mem k) m safe_path params dyn);
                matched = pass 0 HTTP_HEAD False;
                matched = (case matched of None \<Rightarrow> pass 1 HTTP_UNKNOWN False | Some _ \<Rightarrow> matched);
                matched = (case matched of None \<Rightarrow> pass 2 HTTP_GET False | Some _ \<Rightarrow> matched);
                matched = (case matched of None \<Rightarrow> pass 3 HTTP_HEAD True | Some _ \<Rightarrow> matched);
                matched = (case matched of None \<Rightarrow> pass 4 HTTP_UNKNOWN True | Some _ \<Rightarrow> matched);
                matched = (case matched of None \<Rightarrow> pass 5 HTTP_GET True | Some _ \<Rightarrow> matched)
            in case matched of None \<Rightarrow> Sent_error 404
               | Some (r, ps) \<Rightarrow> (case rt_handler r of None \<Rightarrow> Sent_error 404 | Some f \<Rightarrow> Handled f ps)
          else
            let n = nat (ArrayList_getSize (r_routes self));
                accepts = (\<lambda>m. m = req_method \<or> m = HTTP_UNKNOWN)
            in case find_route h (r_routes self) accepts (mem 0) safe_path None False n 0 of
                 Some (r, _) \<Rightarrow> (case rt_handler r of None \<Rightarrow> No_handler | Some f \<Rightarrow> Handled f params)
               | None \<Rightarrow>
                   (case find_route h (r_routes self) accepts (mem 1) safe_path (Some params) True n 0 of
                      Some (r, ps) \<Rightarrow> (case rt_handler r of None \<Rightarrow> No_handler
                                     | Some f \<Rightarrow> Handled f (case ps of None \<Rightarrow> params | Some q \<Rightarrow> q))
                    | None \<Rightarrow> Sent_error 404))"

section \<open>The route table\<close>

text \<open>The router holds the routes \<open>rs\<close>, in registration order, as live objects.\<close>

definition holds_route :: "'h Route heap \<Rightarrow> ptr \<Rightarrow> 'h Route \<Rightarrow> bool" where
  "holds_route h p r \<longleftrightarrow> (\<exists>a ob. p = Some a \<and> objs h a = Some ob \<and> payload ob = r)"

definition routes_rep :: "'h Route heap \<Rightarrow> ArrayList \<Rightarrow> 'h Route list \<Rightarrow> bool" where
  "routes_rep h routes rs \<longleftrightarrow> al_inv routes \<and> list_all2 (holds_route h) (al_list routes) rs"

lemma routes_rep_length: "routes_rep h routes rs \<Longrightarrow> nat (ArrayList_getSize routes) = length rs"
  using al_size_nat [of routes]
  by (auto simp: routes_rep_def ArrayList_getSize_def dest: list_all2_lengthD)

lemma route_at_rep:
  assumes "routes_rep h routes rs" and "i < length rs"
  shows "route_at h routes i = Some (rs ! i)"
proof -
  have inv: "al_inv routes" and len: "length (al_list routes) = length rs"
    and at: "holds_route h (al_list routes ! i) (rs ! i)"
    using assms by (auto simp: routes_rep_def dest: list_all2_lengthD list_all2_nthD2)
  have "ArrayList_get routes (int i) = al_list routes ! i"
    using ArrayList_get_list [OF inv] assms(2) len by simp
  with at show ?thesis by (auto simp: holds_route_def route_at_def)
qed

text \<open>Memory that never refuses, and the meaning of a match then.\<close>

definition match_mem_ok :: "match_mem \<Rightarrow> bool" where
  "match_mem_ok m \<longleftrightarrow> mm_route_copy m \<noteq> Alloc_Fail \<and> mm_req_copy m \<noteq> Alloc_Fail
     \<and> (\<forall>i. mm_route_dup m i \<noteq> Alloc_Fail \<and> mm_req_dup m i \<noteq> Alloc_Fail \<and> mm_value m i \<noteq> Alloc_Fail)"

definition segments :: "cstring \<Rightarrow> cstring list" where
  "segments p = take 32 (strtok (\<lambda>c. c = slash) p)"

lemma split_loop_ok:
  "\<forall>i. dup i \<noteq> Alloc_Fail \<Longrightarrow> split_loop dup n k ts = take (n - k) ts"
proof (induction ts arbitrary: k)
  case (Cons t ts)
  obtain u where "dup k = Alloc_Ok u" using Cons.prems by (cases "dup k") auto
  with Cons show ?case by (auto simp: take_Cons')
qed simp

lemma split_segments_ok:
  "copy \<noteq> Alloc_Fail \<Longrightarrow> \<forall>i. dup i \<noteq> Alloc_Fail \<Longrightarrow> split_segments copy dup (Some p) 32 = segments p"
  by (cases copy) (simp_all add: split_segments_def segments_def split_loop_ok)

definition is_param :: "cstring \<Rightarrow> bool" where
  "is_param seg \<longleftrightarrow> c_at seg 0 = colon"

lemma match_static_iff:
  "length rs = length qs \<Longrightarrow> match_static rs qs \<longleftrightarrow> rs = qs \<and> (\<forall>r \<in> set rs. \<not> is_param r)"
  by (induction rs qs rule: match_static.induct) (auto simp: is_param_def)

lemma match_dynamic_iff:
  "length rs = length qs \<Longrightarrow> match_dynamic rs qs \<longleftrightarrow> list_all2 (\<lambda>r q. is_param r \<or> r = q) rs qs"
  by (induction rs qs rule: match_dynamic.induct) (auto simp: is_param_def)

lemma extract_params_ok:
  "\<forall>i. val i \<noteq> Alloc_Fail \<Longrightarrow>
   extract_params val k rs qs = map (\<lambda>(r, q). (drop 1 r, q)) (filter (\<lambda>(r, q). is_param r) (zip rs qs))"
proof (induction val k rs qs rule: extract_params.induct)
  case (1 val i r rs q qs)
  obtain u where "val i = Alloc_Ok u" using "1.prems" by (cases "val i") auto
  with 1 show ?case by (auto simp: is_param_def)
qed auto

definition static_matches :: "cstring \<Rightarrow> 'h Route \<Rightarrow> bool" where
  "static_matches p r \<longleftrightarrow> segments (rt_path r) = segments p \<and> (\<forall>s \<in> set (segments (rt_path r)). \<not> is_param s)"

definition dynamic_matches :: "cstring \<Rightarrow> 'h Route \<Rightarrow> bool" where
  "dynamic_matches p r \<longleftrightarrow> list_all2 (\<lambda>s q. is_param s \<or> s = q) (segments (rt_path r)) (segments p)"

definition path_params :: "cstring \<Rightarrow> 'h Route \<Rightarrow> params" where
  "path_params p r = map (\<lambda>(s, q). (drop 1 s, q)) (filter (\<lambda>(s, q). is_param s) (zip (segments (rt_path r)) (segments p)))"

lemma route_match_ok:
  assumes "match_mem_ok m"
  shows "route_match m (Some (rt_path r)) (Some p) None False = (static_matches p r, None)"
    and "route_match m (Some (rt_path r)) (Some p) (Some ps) True =
      (dynamic_matches p r, Some (if dynamic_matches p r then ps @ path_params p r else ps))"
proof -
  have s: "split_segments (mm_route_copy m) (mm_route_dup m) (Some q) 32 = segments q"
    "split_segments (mm_req_copy m) (mm_req_dup m) (Some q) 32 = segments q" for q
    using assms by (simp_all add: match_mem_ok_def split_segments_ok)
  have v: "\<forall>i. mm_value m i \<noteq> Alloc_Fail" using assms by (simp add: match_mem_ok_def)
  show "route_match m (Some (rt_path r)) (Some p) None False = (static_matches p r, None)"
    by (auto simp: route_match_def s static_matches_def match_static_iff Let_def)
  show "route_match m (Some (rt_path r)) (Some p) (Some ps) True =
      (dynamic_matches p r, Some (if dynamic_matches p r then ps @ path_params p r else ps))"
    by (auto simp: route_match_def s dynamic_matches_def match_dynamic_iff path_params_def
        extract_params_ok [OF v] Let_def dest: list_all2_lengthD)
qed

lemma find_route_ok:
  assumes "routes_rep h routes rs" and "\<forall>i. match_mem_ok (mem i)"
  shows "find_route h routes acc mem p None False (length rs) i =
      map_option (\<lambda>r. (r, None)) (find (\<lambda>r. acc (rt_method r) \<and> static_matches p r) (drop i rs))"
    and "find_route h routes acc mem p (Some ps) True (length rs) i =
      map_option (\<lambda>r. (r, Some (ps @ path_params p r)))
        (find (\<lambda>r. acc (rt_method r) \<and> dynamic_matches p r) (drop i rs))"
proof -
  have m: "match_mem_ok (mem i)" for i using assms(2) by simp
  show "find_route h routes acc mem p None False (length rs) i =
      map_option (\<lambda>r. (r, None)) (find (\<lambda>r. acc (rt_method r) \<and> static_matches p r) (drop i rs))"
  proof (induction "length rs - i" arbitrary: i)
    case 0
    then show ?case by (simp add: find_route.simps)
  next
    case (Suc n)
    then have "i < length rs" by simp
    moreover from this have "drop i rs = rs ! i # drop (Suc i) rs" by (simp add: Cons_nth_drop_Suc)
    moreover have "n = length rs - Suc i" using Suc(2) by simp
    ultimately show ?case
      using Suc(1) [of "Suc i"] by (simp add: find_route.simps [of _ _ _ _ _ _ _ _ i] route_at_rep [OF assms(1)] route_match_ok [OF m])
  qed
  show "find_route h routes acc mem p (Some ps) True (length rs) i =
      map_option (\<lambda>r. (r, Some (ps @ path_params p r)))
        (find (\<lambda>r. acc (rt_method r) \<and> dynamic_matches p r) (drop i rs))"
  proof (induction "length rs - i" arbitrary: i)
    case 0
    then show ?case by (simp add: find_route.simps)
  next
    case (Suc n)
    then have "i < length rs" by simp
    moreover from this have "drop i rs = rs ! i # drop (Suc i) rs" by (simp add: Cons_nth_drop_Suc)
    moreover have "n = length rs - Suc i" using Suc(2) by simp
    ultimately show ?case
      using Suc(1) [of "Suc i"] by (simp add: find_route.simps [of _ _ _ _ _ _ _ _ i] route_at_rep [OF assms(1)] route_match_ok [OF m])
  qed
qed

section \<open>Registration\<close>

lemma new_Route_ok:
  assumes "objs h a = None"
  shows "new_Route cl (Alloc_Ok a) (Alloc_Ok u) h m (Some p) f =
    (Some a, h\<lparr>objs := (objs h)(a \<mapsto> \<lparr>obj_type = Some ''Route'', ref_count = 1,
       payload = \<lparr>rt_method = m, rt_path = p, rt_handler = f\<rparr>\<rparr>)\<rparr>)"
  by (simp add: new_Route_def Object_Init_def calloc_object_def)

lemma release_last_route:
  assumes "objs h a = Some ob" and "obj_type ob = Some ''Route''" and "ref_count ob = 1"
    and "finalize_fn (cl ''Route'') = Some Route_finalize"
  shows "RELEASE cl h (Some a) = h\<lparr>objs := (objs h)(a := None)\<rparr>"
  using assms by (simp add: RELEASE_def destroy_def class_of_def Route_finalize_def free_object_def)

lemma routes_rep_other:
  assumes "routes_rep h routes rs" and "\<And>b. objs h b \<noteq> None \<Longrightarrow> objs h' b = objs h b"
  shows "routes_rep h' routes rs"
proof -
  have "holds_route h' p r" if "holds_route h p r" for p r
    using that assms(2) by (auto simp: holds_route_def)
  with assms(1) show ?thesis by (auto simp: routes_rep_def elim: list_all2_mono)
qed

section \<open>Properties\<close>

text \<open>Registration is all or nothing under every allocation outcome: either the route object is
  built, stored behind the existing routes and owned by the table alone (count 1), or the table
  and every object are as before; with memory and a path and handler it succeeds.\<close>

theorem Router_addRoute_registers:
  assumes "routes_rep h (r_routes self) rs" and "al_size (r_routes self) < INT_MAX"
    and "objs h a = None" and "finalize_fn (cl ''Route'') = Some Route_finalize"
  shows "case Router_addRoute cl (Alloc_Ok a) mp ma h self m path handler of (h', self') \<Rightarrow>
    ((\<exists>p f. path = Some p \<and> handler = Some f \<and> rc h' a = 1 \<and> (\<forall>b. b \<noteq> a \<longrightarrow> objs h' b = objs h b)
        \<and> routes_rep h' (r_routes self') (rs @ [\<lparr>rt_method = m, rt_path = p, rt_handler = Some f\<rparr>]))
     \<or> (path = None \<or> handler = None \<or> mp = Alloc_Fail \<or> ma = Alloc_Fail)
        \<and> routes_rep h' (r_routes self') rs \<and> objs h' = objs h)
    \<and> fault h' = fault h"
proof (cases "path = None \<or> handler = None")
  case True
  then show ?thesis using assms(1) by (auto simp: Router_addRoute_def)
next
  case False
  then obtain p f where pf: "path = Some p" "handler = Some f" by auto
  let ?r = "\<lparr>rt_method = m, rt_path = p, rt_handler = Some f\<rparr>"
  let ?ob = "\<lparr>obj_type = Some ''Route'', ref_count = 1, payload = ?r\<rparr>"
  let ?h1 = "h\<lparr>objs := (objs h)(a \<mapsto> ?ob)\<rparr>"
  have undo: "RELEASE cl ?h1 (Some a) = h"
    using release_last_route [of ?h1 a ?ob cl] assms(3,4) by (simp add: fun_upd_idem)
  show ?thesis
  proof (cases mp)
    case Alloc_Fail
    then have "Router_addRoute cl (Alloc_Ok a) mp ma h self m path handler = (h, self)"
      using pf undo by (simp add: Router_addRoute_def new_Route_def Object_Init_def calloc_object_def)
    with assms(1) Alloc_Fail show ?thesis by simp
  next
    case (Alloc_Ok u)
    note new = new_Route_ok [OF assms(3), of cl u m p "Some f"]
    let ?al = "r_routes self"
    have inv: "al_inv ?al" using assms(1) by (simp add: routes_rep_def)
    show ?thesis
    proof (cases rule: ArrayList_add_cases [OF inv assms(2), of ma ?h1 "Some a"])
      case 1
      then have "Router_addRoute cl (Alloc_Ok a) mp ma h self m path handler =
          (h, self\<lparr>r_routes := snd (ArrayList_add ma ?h1 ?al (Some a))\<rparr>)"
        using pf undo new Alloc_Ok by (auto simp: Router_addRoute_def split: prod.splits)
      with 1 assms(1) show ?thesis by (simp add: routes_rep_def)
    next
      case 2
      have "RELEASE cl (RETAIN ?h1 (Some a)) (Some a) = ?h1"
        by (simp add: RELEASE_def RETAIN_def)
      then have add: "Router_addRoute cl (Alloc_Ok a) mp ma h self m path handler =
          (?h1, self\<lparr>r_routes := snd (ArrayList_add ma ?h1 ?al (Some a))\<rparr>)"
        using pf new Alloc_Ok 2(1) by (auto simp: Router_addRoute_def split: prod.splits)
      have "routes_rep ?h1 ?al rs" by (rule routes_rep_other [OF assms(1)]) (use assms(3) in auto)
      moreover have "holds_route ?h1 (Some a) ?r" by (simp add: holds_route_def)
      ultimately have "routes_rep ?h1 (snd (ArrayList_add ma ?h1 ?al (Some a))) (rs @ [?r])"
        using 2(2,3) by (auto simp: routes_rep_def intro: list_all2_appendI)
      with add pf show ?thesis by (simp add: rc_def)
    qed
  qed
qed

definition demo_router :: Router where
  "demo_router = \<lparr>r_base = 0, r_routes = \<lparr>al_base = 9, al_items = [None, None], al_size = 0, al_capacity = 2\<rparr>,
     r_pv = True\<rparr>"

definition route_classes :: "'h Route classes" where
  "route_classes c = \<lparr>cname = [], csize = 0, toString_fn = None, equals_fn = None, hashCode_fn = None,
     finalize_fn = (if c = ''Route'' then Some Route_finalize else None)\<rparr>"

definition empty_heap :: "nat Route heap" where
  "empty_heap = \<lparr>objs = Map.empty, fault = False\<rparr>"

lemma demo_router_rep: "routes_rep empty_heap (r_routes demo_router) []"
  by (simp add: routes_rep_def demo_router_def al_inv_def al_list_def)

theorem Router_addRoute_registers_witness:
  "case Router_addRoute route_classes (Alloc_Ok 1) (Alloc_Ok ()) (Alloc_Ok None) empty_heap demo_router HTTP_GET
      (Some (lit ''/u/:id'')) (Some 7) of (h', self') \<Rightarrow>
    routes_rep h' (r_routes self') [\<lparr>rt_method = HTTP_GET, rt_path = lit ''/u/:id'', rt_handler = Some 7\<rparr>]"
  using Router_addRoute_registers [OF demo_router_rep, where a = 1 and cl = route_classes and mp = "Alloc_Ok ()"
      and ma = "Alloc_Ok None" and m = HTTP_GET and path = "Some (lit ''/u/:id'')" and handler = "Some 7"]
  by (auto simp: demo_router_def empty_heap_def route_classes_def split: prod.splits)

text \<open>The passes of a request: which route methods each tries, and whether it is the dynamic one.\<close>

definition passes :: "HttpMethod \<Rightarrow> ((HttpMethod \<Rightarrow> bool) \<times> bool) list" where
  "passes m = (if m = HTTP_HEAD
     then [(\<lambda>x. x = HTTP_HEAD, False), (\<lambda>x. x = HTTP_UNKNOWN, False), (\<lambda>x. x = HTTP_GET, False),
           (\<lambda>x. x = HTTP_HEAD, True), (\<lambda>x. x = HTTP_UNKNOWN, True), (\<lambda>x. x = HTTP_GET, True)]
     else [(\<lambda>x. x = m \<or> x = HTTP_UNKNOWN, False), (\<lambda>x. x = m \<or> x = HTTP_UNKNOWN, True)])"

fun first_pass :: "'h Route list \<Rightarrow> cstring \<Rightarrow> ((HttpMethod \<Rightarrow> bool) \<times> bool) list \<Rightarrow> ('h Route \<times> bool) option" where
  "first_pass rs p [] = None"
| "first_pass rs p ((acc, dyn) # ks) =
     (case find (\<lambda>r. acc (rt_method r) \<and> (if dyn then dynamic_matches p r else static_matches p r)) rs of
        Some r \<Rightarrow> Some (r, dyn) | None \<Rightarrow> first_pass rs p ks)"

definition dispatch_spec :: "'h Route list \<Rightarrow> HttpMethod \<Rightarrow> cstring \<Rightarrow> params \<Rightarrow> 'h dispatch_result" where
  "dispatch_spec rs m path ps =
     (case pv_spec path of None \<Rightarrow> Sent_error 400
      | Some p \<Rightarrow> (case first_pass rs p (passes m) of None \<Rightarrow> Sent_error 404
          | Some (r, dyn) \<Rightarrow> Handled (the (rt_handler r)) (ps @ (if dyn then path_params p r else []))))"

lemma find_Some_set: "find P xs = Some x \<Longrightarrow> x \<in> set xs"
  by (auto simp: find_Some_iff)


definition demo_match_mem :: match_mem where
  "demo_match_mem = \<lparr>mm_route_copy = Alloc_Ok (), mm_route_dup = (\<lambda>_. Alloc_Ok ()), mm_req_copy = Alloc_Ok (),
     mm_req_dup = (\<lambda>_. Alloc_Ok ()), mm_value = (\<lambda>_. Alloc_Ok ())\<rparr>"

lemma demo_match_mem_ok: "match_mem_ok demo_match_mem"
  by (simp add: match_mem_ok_def demo_match_mem_def)

definition demo_route :: "nat Route" where
  "demo_route = \<lparr>rt_method = HTTP_GET, rt_path = lit ''/u/:id'', rt_handler = Some 7\<rparr>"

definition demo_router_heap :: "nat Route heap" where
  "demo_router_heap = \<lparr>objs = [1 \<mapsto> \<lparr>obj_type = Some ''Route'', ref_count = 1, payload = demo_route\<rparr>], fault = False\<rparr>"

definition demo_router1 :: Router where
  "demo_router1 = \<lparr>r_base = 0, r_routes = \<lparr>al_base = 9, al_items = [Some 1], al_size = 1, al_capacity = 1\<rparr>, r_pv = True\<rparr>"

lemma demo_router1_rep: "routes_rep demo_router_heap (r_routes demo_router1) [demo_route]"
  by (simp add: routes_rep_def demo_router1_def demo_router_heap_def al_inv_def al_list_def holds_route_def)


text \<open>Only the first 32 segments of a path take part in matching: a route and a request that agree
  on them match, however the rest of the two paths differs.\<close>

theorem route_match_ignores_deep_segments:
  assumes "match_mem_ok m"
    and "take 32 (strtok (\<lambda>c. c = slash) route) = take 32 (strtok (\<lambda>c. c = slash) req)"
    and "\<forall>s \<in> set (take 32 (strtok (\<lambda>c. c = slash) route)). c_at s 0 \<noteq> colon"
  shows "fst (route_match m (Some route) (Some req) None False)"
proof -
  have "route_match m (Some route) (Some req) None False =
    (static_matches req \<lparr>rt_method = HTTP_GET, rt_path = route, rt_handler = None :: unit option\<rparr>, None)"
    using route_match_ok(1) [OF assms(1), of "\<lparr>rt_method = HTTP_GET, rt_path = route, rt_handler = None :: unit option\<rparr>" req]
    by simp
  with assms(2,3) show ?thesis by (simp add: static_matches_def segments_def is_param_def)
qed

theorem route_match_ignores_deep_segments_witness:
  "fst (route_match demo_match_mem (Some (concat (replicate 32 (lit ''/a''))))
     (Some (concat (replicate 32 (lit ''/a'')) @ lit ''/admin'')) None False)"
proof -
  let ?r = "concat (replicate 32 (lit ''/a''))"
  have r: "?r = concat (map ((#) slash) (replicate 32 [97]))" by (simp add: lit_def)
  have q: "?r @ lit ''/admin'' = concat (map ((#) slash) (replicate 32 [97] @ [[97, 100, 109, 105, 110]]))"
    by (simp add: lit_def)
  have tr: "strtok (\<lambda>c. c = slash) ?r = replicate 32 [97]"
    unfolding r by (rule strtok_join) auto
  have tq: "strtok (\<lambda>c. c = slash) (?r @ lit ''/admin'') = replicate 32 [97] @ [[97, 100, 109, 105, 110]]"
    unfolding q by (rule strtok_join) auto
  show ?thesis
    by (rule route_match_ignores_deep_segments [OF demo_match_mem_ok]) (simp_all only: tr tq, simp_all add: c_at_def)
qed

text \<open>Out of memory is not failure: when the copy of the request path cannot be allocated, every
  request path matches the root route, in the static and in the dynamic pass.\<close>

theorem route_match_oom_is_root:
  assumes "mm_req_copy m = Alloc_Fail"
  shows "fst (route_match m (Some (lit ''/'')) (Some req) ps dyn)"
  using assms by (auto simp: route_match_def split_segments_def strtok_def lit_def Let_def split: alloc.split)

theorem route_match_oom_is_root_witness:
  "fst (route_match (demo_match_mem\<lparr>mm_req_copy := Alloc_Fail\<rparr>) (Some (lit ''/'')) (Some (lit ''/secret'')) None False)"
  by (rule route_match_oom_is_root) simp

end
