(* ===== verification/Server_Request.thy ===== *)
theory Server_Request
  imports Router Multipart Json_Value
begin

text \<open>
  The request side of \<^verbatim>\<open>src/src/http_server.c\<close>: how the bytes of a connection become an \<^verbatim>\<open>HttpRequest\<close> (\<^verbatim>\<open>http_message.c\<close>).
  \<^item> \<open>parse_request\<close> is the part of \<^verbatim>\<open>HttpConnection_on_readable\<close> between the end of the header block and the body:
    request line, query, headers, \<^verbatim>\<open>Connection\<close> and \<^verbatim>\<open>Content-Length\<close>. A refusal is the status of the answer the source
    sends before it closes the connection.
  \<^item> \<open>parse_body\<close> is the part behind the body: forms, JSON and multipart.
  \<^item> The maps of the request are the sequences of the puts made on them; a put that finds no memory does nothing.
\<close>

section \<open>Numbers, tokens and escapes\<close>

abbreviation (input) MAX_HTTP_BODY_SIZE :: nat where "MAX_HTTP_BODY_SIZE \<equiv> 10 * 1024 * 1024"

datatype cl_parse = CL_PARSE_OK nat | CL_PARSE_INVALID | CL_PARSE_TOO_LARGE

fun cl_strict :: "nat \<Rightarrow> cstring \<Rightarrow> cl_parse" where
  "cl_strict v [] = CL_PARSE_OK v"
| "cl_strict v (c # s) =
     (if c < 48 \<or> c > 57 then CL_PARSE_INVALID
      else let d = unat c - 48
           in if v > (MAX_HTTP_BODY_SIZE - d) div 10 then CL_PARSE_TOO_LARGE else cl_strict (v * 10 + d) s)"

definition parse_content_length_strict :: "cstring \<Rightarrow> cl_parse" where
  "parse_content_length_strict s = (if s = [] then CL_PARSE_INVALID else cl_strict 0 s)"

definition http_is_tchar :: "byte \<Rightarrow> bool" where
  "http_is_tchar c \<longleftrightarrow> (65 \<le> c \<and> c \<le> 90) \<or> (97 \<le> c \<and> c \<le> 122) \<or> (48 \<le> c \<and> c \<le> 57)
     \<or> c \<in> {33, 35, 36, 37, 38, 39, 42, 43, 45, 46, 94, 95, 96, 124, 126}"

text \<open>The loop of \<^verbatim>\<open>url_decode_query_component\<close>; \<open>None\<close> is its \<^verbatim>\<open>return 0\<close>. (\<^verbatim>\<open>hex_value\<close> is \<open>hex_val\<close>.)\<close>

fun url_decode_query_component :: "cstring \<Rightarrow> cstring option" where
  "url_decode_query_component [] = Some []"
| "url_decode_query_component (c # s) =
     (if c = 37 then
        (case s of a # b # r \<Rightarrow>
           (case (hex_val a, hex_val b) of
              (Some hi, Some lo) \<Rightarrow>
                if 16 * hi + lo = 0 then None
                else map_option ((#) (of_nat (16 * hi + lo))) (url_decode_query_component r)
            | _ \<Rightarrow> None)
         | _ \<Rightarrow> None)
      else if c = 43 then map_option ((#) 32) (url_decode_query_component s)
      else map_option ((#) c) (url_decode_query_component s))"

section \<open>Requests\<close>

type_synonym str_map = "(cstring \<times> cstring) list"

definition hashmap_get_str :: "str_map \<Rightarrow> cstring \<Rightarrow> cstring option" where
  "hashmap_get_str m key = map_of (rev m) key"

definition hashmap_put_str :: "bool \<Rightarrow> str_map \<Rightarrow> cstring \<Rightarrow> cstring \<Rightarrow> str_map" where
  "hashmap_put_str mem m key val = (if mem then m @ [(key, val)] else m)"

record 'd HttpRequest =
  rq_method :: HttpMethod
  rq_path :: "cstring option"
  rq_headers :: str_map
  rq_query :: str_map
  rq_params :: str_map
  rq_json :: "'d JSONNode option"
  rq_form :: str_map
  rq_multipart :: "MultipartResult option"
  rq_body :: "byte list option"
  rq_body_len :: nat

definition new_HttpRequest :: "bool \<Rightarrow> 'd HttpRequest option" where
  "new_HttpRequest mem =
     (if mem then Some \<lparr>rq_method = HTTP_UNKNOWN, rq_path = None, rq_headers = [], rq_query = [], rq_params = [],
                        rq_json = None, rq_form = [], rq_multipart = None, rq_body = None, rq_body_len = 0\<rparr>
      else None)"

text \<open>The answers of the allocator during one request.\<close>

record req_mem =
  rm_req :: bool
  rm_query :: "nat \<Rightarrow> bool"
  rm_path :: bool
  rm_header :: "nat \<Rightarrow> bool"
  rm_body :: bool
  rm_copy :: bool
  rm_form :: "nat \<Rightarrow> bool"
  rm_json :: "bool list"
  rm_multi :: bool
  rm_part :: "nat \<Rightarrow> nat \<Rightarrow> bool"

section \<open>Header fields\<close>

text \<open>The loop of \<^verbatim>\<open>HttpConnection_parse_headers\<close>: \<open>s\<close> is the text from \<^verbatim>\<open>p\<close> on, \<open>n\<close> is \<^verbatim>\<open>header_end - p\<close> (or 0 behind it), \<open>i\<close>
  counts the lines.\<close>

function header_fields :: "(nat \<Rightarrow> bool) \<Rightarrow> nat \<Rightarrow> bool \<Rightarrow> bool \<Rightarrow> str_map \<Rightarrow> cstring \<Rightarrow> nat \<Rightarrow> str_map option" where
  "header_fields mem i has_cl has_te m s n =
     (if n = 0 then (if has_te then None else Some m)
      else case strstr s crlf of None \<Rightarrow> None
      | Some line_len \<Rightarrow>
          if line_len > n then None
          else if line_len = 0 then (if has_te then None else Some m)
          else let line = take line_len s
          in if 13 \<in> set line \<or> 10 \<in> set line then None
             else case strchr line (ch CHR '':'') of None \<Rightarrow> None
             | Some cpos \<Rightarrow>
                 if cpos = 0 then None
                 else if \<not> list_all http_is_tchar (take cpos line) then None
                 else let key = map c_tolower (take cpos line);
                          val = dropWhile (\<lambda>c. c = 32 \<or> c = 9) (drop (cpos + 1) line);
                          is_cl = (key = lit ''content-length'');
                          is_te = (\<not> is_cl \<and> key = lit ''transfer-encoding'')
                      in if is_cl \<and> has_cl then None
                         else if (has_cl \<or> is_cl) \<and> (has_te \<or> is_te) then None
                         else header_fields mem (i + 1) (has_cl \<or> is_cl) (has_te \<or> is_te)
                                (hashmap_put_str (mem i) m key val) (drop (line_len + 2) s) (n - (line_len + 2)))"
  by pat_completeness auto
termination
  by (relation "measure (\<lambda>(_, _, _, _, _, _, n). n)") auto

declare header_fields.simps [simp del]

definition HttpConnection_parse_headers :: "(nat \<Rightarrow> bool) \<Rightarrow> cstring \<Rightarrow> nat \<Rightarrow> str_map option" where
  "HttpConnection_parse_headers mem buf header_end =
     (case strstr buf crlf of None \<Rightarrow> Some []
      | Some p \<Rightarrow>
          if p \<ge> header_end then Some []
          else header_fields mem 0 False False [] (drop (p + 2) buf) (header_end - (p + 2)))"

section \<open>Request line\<close>

definition method_of :: "cstring \<Rightarrow> HttpMethod" where
  "method_of s =
     (if s = lit ''GET'' then HTTP_GET else if s = lit ''POST'' then HTTP_POST else if s = lit ''PUT'' then HTTP_PUT
      else if s = lit ''DELETE'' then HTTP_DELETE else if s = lit ''HEAD'' then HTTP_HEAD else HTTP_UNKNOWN)"

fun query_loop :: "(nat \<Rightarrow> bool) \<Rightarrow> nat \<Rightarrow> str_map \<Rightarrow> cstring list \<Rightarrow> str_map option" where
  "query_loop mem i m [] = Some m"
| "query_loop mem i m (token # ts) =
     (case strchr token (ch CHR ''='') of None \<Rightarrow> query_loop mem (i + 1) m ts
      | Some eq \<Rightarrow>
          (case (url_decode_query_component (take eq token), url_decode_query_component (drop (eq + 1) token)) of
             (Some k, Some v) \<Rightarrow> query_loop mem (i + 1) (hashmap_put_str (mem i) m k v) ts
           | _ \<Rightarrow> None))"

definition parse_target :: "(nat \<Rightarrow> bool) \<Rightarrow> cstring \<Rightarrow> (cstring \<times> str_map) option" where
  "parse_target mem path_str =
     (case strchr path_str (ch CHR ''?'') of None \<Rightarrow> Some (path_str, [])
      | Some q \<Rightarrow>
          map_option (Pair (take q path_str)) (query_loop mem 0 [] (strtok (\<lambda>c. c = ch CHR ''&'') (drop (q + 1) path_str))))"

text \<open>The refusals, as the status that is sent; \<open>Refuse_close\<close> closes without an answer.\<close>

datatype refusal = Refuse nat | Refuse_close

definition request_line :: "cstring \<Rightarrow> refusal + (cstring \<times> cstring)" where
  "request_line buf =
     (case (strstr buf crlf, strchr buf (ch CHR '' '')) of
        (Some eol, Some first_space) \<Rightarrow>
          if first_space \<ge> eol then Inl (Refuse 400)
          else if first_space = 0 \<or> first_space \<ge> 16 then Inl (Refuse 400)
          else let target = take (eol - (first_space + 1)) (drop (first_space + 1) buf)
               in (case strchr target (ch CHR '' '') of None \<Rightarrow> Inl (Refuse 400)
                   | Some target_len \<Rightarrow>
                       if target_len = 0 \<or> target_len \<ge> 2048 then Inl (Refuse 414)
                       else Inr (take first_space buf, take target_len target))
      | _ \<Rightarrow> Inl (Refuse 400))"

text \<open>The whole head: the request without its body, whether the connection is kept, and the length of the body.\<close>

definition parse_request :: "req_mem \<Rightarrow> cstring \<Rightarrow> nat \<Rightarrow> refusal + ('d HttpRequest \<times> bool \<times> nat)" where
  "parse_request mem buf header_end =
     (case new_HttpRequest (rm_req mem) of None \<Rightarrow> Inl Refuse_close
      | Some req \<Rightarrow>
          (case request_line buf of Inl e \<Rightarrow> Inl e
           | Inr (method_str, path_str) \<Rightarrow>
               (case parse_target (rm_query mem) path_str of None \<Rightarrow> Inl (Refuse 400)
                | Some (path, query) \<Rightarrow>
                    (case HttpConnection_parse_headers (rm_header mem) buf header_end of None \<Rightarrow> Inl (Refuse 400)
                     | Some headers \<Rightarrow>
                         let keep_alive = (case hashmap_get_str headers (lit ''connection'') of None \<Rightarrow> True
                                           | Some v \<Rightarrow> \<not> strcasecmp_eq v (lit ''close''));
                             req1 = req\<lparr>rq_method := method_of method_str, rq_query := query,
                                        rq_path := (if rm_path mem then Some path else None), rq_headers := headers\<rparr>
                         in (case hashmap_get_str headers (lit ''content-length'') of
                               None \<Rightarrow> Inr (req1, keep_alive, 0)
                             | Some cl \<Rightarrow>
                                 (case parse_content_length_strict cl of
                                    CL_PARSE_INVALID \<Rightarrow> Inl (Refuse 400)
                                  | CL_PARSE_TOO_LARGE \<Rightarrow> Inl (Refuse 413)
                                  | CL_PARSE_OK content_length \<Rightarrow>
                                      Inr (req1\<lparr>rq_body_len := content_length\<rparr>, keep_alive, content_length)))))))"

section \<open>Bodies\<close>

fun form_tokens :: "(nat \<Rightarrow> bool) \<Rightarrow> nat \<Rightarrow> str_map \<Rightarrow> cstring list \<Rightarrow> str_map" where
  "form_tokens mem i m [] = m"
| "form_tokens mem i m (token # ts) =
     (case strchr token (ch CHR ''='') of None \<Rightarrow> form_tokens mem (i + 1) m ts
      | Some eq \<Rightarrow> form_tokens mem (i + 1) (hashmap_put_str (mem i) m (take eq token) (drop (eq + 1) token)) ts)"

text \<open>The body is followed by a NUL byte (\<^verbatim>\<open>calloc(1, content_length + 1)\<close>), so that the string functions stop at its first NUL or
  its end. The JSON parser always returns (theory \<open>Json_Roundtrip\<close>); no result counts as NULL.\<close>

definition parse_body :: "'d fp \<Rightarrow> req_mem \<Rightarrow> 'd HttpRequest \<Rightarrow> 'd HttpRequest" where
  "parse_body F mem req =
     (case (rq_body req, hashmap_get_str (rq_headers req) (lit ''content-type'')) of
        (Some body, Some ct) \<Rightarrow>
          if strstr ct (lit ''application/x-www-form-urlencoded'') \<noteq> None then
            (if rm_copy mem then req\<lparr>rq_form := form_tokens (rm_form mem) 0 (rq_form req) (strtok (\<lambda>c. c = ch CHR ''&'') (c_str body))\<rparr>
             else req)
          else if strstr ct (lit ''application/json'') \<noteq> None then
            req\<lparr>rq_json := (case new_JSON F (rm_json mem) (Some (c_str body)) of None \<Rightarrow> None | Some j \<Rightarrow> j)\<rparr>
          else if strstr ct (lit ''multipart/form-data'') \<noteq> None then
            (case Multipart_extract_boundary ct 256 of None \<Rightarrow> req
             | Some boundary \<Rightarrow> req\<lparr>rq_multipart := Multipart_parse (rm_multi mem) (rm_part mem) (take (rq_body_len req) body) boundary\<rparr>)
          else req
      | _ \<Rightarrow> req)"

end
