(* ===== verification/Http_Message.thy ===== *)
theory Http_Message
  imports Server_Request
begin

text \<open>
  \<^verbatim>\<open>src/src/http_message.c\<close>: the response object of the server and how it is written out.
  \<^item> A call answers with what it does to its connection, in order: each \<open>Append\<close> is one \<^verbatim>\<open>HttpConnection_append_send\<close> (or one
    \<^verbatim>\<open>send\<close> of a bare socket), \<open>Flush\<close> is \<^verbatim>\<open>HttpConnection_flush\<close>; theory \<open>Http_Connection\<close> says what these do.
  \<^item> The head is built in a buffer of 4096 bytes with one \<^verbatim>\<open>snprintf\<close> per part; a part that does not fit is left out or
    ends the call, as in the source.
  \<^item> The header map is an association list; \<open>iter\<close> gives the order in which \<^verbatim>\<open>iterate\<close> visits it.
\<close>

definition Http_statusMessage :: "int \<Rightarrow> cstring" where
  "Http_statusMessage code =
     (if code = 101 then lit ''Switching Protocols'' else if code = 200 then lit ''OK'' else if code = 201 then lit ''Created''
      else if code = 204 then lit ''No Content'' else if code = 301 then lit ''Moved Permanently'' else if code = 302 then lit ''Found''
      else if code = 400 then lit ''Bad Request'' else if code = 401 then lit ''Unauthorized'' else if code = 403 then lit ''Forbidden''
      else if code = 404 then lit ''Not Found'' else if code = 500 then lit ''Internal Server Error'' else lit ''Unknown'')"

datatype out_op = Append "byte list" | Flush

text \<open>\<open>rs_conn\<close>: the response belongs to a connection of the server (and not to a bare socket); \<open>rs_head\<close>: the request of that
  connection is a HEAD; \<open>rs_open\<close>: the socket is open.\<close>

record HttpResponse =
  rs_status_code :: int
  rs_headers :: str_map
  rs_conn :: bool
  rs_head :: bool
  rs_open :: bool

definition new_HttpResponse :: "bool \<Rightarrow> bool \<Rightarrow> bool \<Rightarrow> bool \<Rightarrow> HttpResponse option" where
  "new_HttpResponse mem conn head is_open =
     (if mem then Some \<lparr>rs_status_code = 200, rs_headers = [], rs_conn = conn, rs_head = head, rs_open = is_open\<rparr> else None)"

definition impl_setStatus :: "HttpResponse \<Rightarrow> int \<Rightarrow> HttpResponse" where
  "impl_setStatus self code = self\<lparr>rs_status_code := code\<rparr>"

definition map_put :: "str_map \<Rightarrow> cstring \<Rightarrow> cstring \<Rightarrow> str_map" where
  "map_put m k v = (if k \<in> fst ` set m then map (\<lambda>(a, b). (a, if a = k then v else b)) m else m @ [(k, v)])"

text \<open>\<open>mem\<close>: the String, and the node of the map (needed for a new key only).\<close>

definition impl_setHeader :: "bool \<Rightarrow> bool \<Rightarrow> HttpResponse \<Rightarrow> cstring option \<Rightarrow> cstring option \<Rightarrow> HttpResponse" where
  "impl_setHeader mem_str mem_node self key val =
     (case (key, val) of
        (Some k, Some v) \<Rightarrow>
          if \<not> mem_str \<or> (k \<notin> fst ` set (rs_headers self) \<and> \<not> mem_node) then self
          else self\<lparr>rs_headers := map_put (rs_headers self) k v\<rparr>
      | _ \<Rightarrow> self)"

section \<open>The head\<close>

abbreviation (input) HEAD_CAP :: nat where "HEAD_CAP \<equiv> 4096"

text \<open>\<^verbatim>\<open>snprintf(head_buf + len, sizeof(head_buf) - len, ..)\<close>: the text so far with the new part, unless it does not fit.\<close>

definition head_add :: "cstring \<Rightarrow> cstring \<Rightarrow> cstring option" where
  "head_add buf txt = (if length txt < HEAD_CAP - length buf then Some (buf @ txt) else None)"

definition header_text :: "cstring \<Rightarrow> cstring \<Rightarrow> cstring" where
  "header_text k v = k @ lit '': '' @ v @ crlf"

text \<open>\<^verbatim>\<open>iterate\<close> with \<^verbatim>\<open>write_hdr_cb\<close>; \<open>None\<close> is the overflow.\<close>

fun write_hdrs :: "cstring \<Rightarrow> str_map \<Rightarrow> cstring option" where
  "write_hdrs buf [] = Some buf"
| "write_hdrs buf ((k, v) # m) =
     (case head_add buf (header_text k v) of None \<Rightarrow> None | Some buf1 \<Rightarrow> write_hdrs buf1 m)"

definition custom_ctype :: "str_map \<Rightarrow> cstring option" where
  "custom_ctype m = (case map_of m (lit ''Content-Type'') of Some v \<Rightarrow> Some v | None \<Rightarrow> map_of m (lit ''content-type''))"

definition or_else :: "cstring \<Rightarrow> cstring option \<Rightarrow> cstring" where
  "or_else buf r = (case r of None \<Rightarrow> buf | Some b \<Rightarrow> b)"

definition err500 :: cstring where
  "err500 = lit ''HTTP/1.1 500 Internal Server Error'' @ crlf @ lit ''Content-Length: 0'' @ crlf @ lit ''Connection: close'' @ crlf @ crlf"

definition status_text :: "int \<Rightarrow> cstring" where
  "status_text code = lit ''HTTP/1.1 '' @ format_d code @ lit '' '' @ Http_statusMessage code @ crlf"

text \<open>\<^verbatim>\<open>send_internal\<close>: what it does.\<close>

definition send_internal :: "(str_map \<Rightarrow> str_map) \<Rightarrow> HttpResponse \<Rightarrow> cstring option \<Rightarrow> byte list \<Rightarrow> out_op list" where
  "send_internal iter self ctype body =
     (if \<not> rs_open self then []
      else case head_add [] (status_text (rs_status_code self)) of None \<Rightarrow> []
      | Some buf \<Rightarrow>
          (case (case ctype of
                   Some ct \<Rightarrow> if custom_ctype (rs_headers self) = None then head_add buf (header_text (lit ''Content-Type'') ct) else Some buf
                 | None \<Rightarrow> Some buf) of
             None \<Rightarrow> []
           | Some buf1 \<Rightarrow>
               let buf2 = or_else buf1 (head_add buf1 (header_text (lit ''Content-Length'') (dec_digits (length body))))
               in case write_hdrs buf2 (iter (rs_headers self)) of
                    None \<Rightarrow> [Append err500]
                  | Some buf3 \<Rightarrow>
                      let buf4 = or_else buf3 (head_add buf3 crlf)
                      in [Append buf4] @ (if (rs_conn self \<and> rs_head self) \<or> body = [] then [] else [Append body])
                         @ (if rs_conn self then [Flush] else [])))"

section \<open>Calls\<close>

definition impl_sendText :: "(str_map \<Rightarrow> str_map) \<Rightarrow> HttpResponse \<Rightarrow> cstring option \<Rightarrow> out_op list" where
  "impl_sendText iter self txt =
     send_internal iter self (Some (lit ''text/plain; charset=utf-8'')) (case txt of None \<Rightarrow> [] | Some s \<Rightarrow> s)"

definition impl_sendJson ::
  "(str_map \<Rightarrow> str_map) \<Rightarrow> 'd fp \<Rightarrow> bool list \<Rightarrow> HttpResponse \<Rightarrow> 'd JSONNode option \<Rightarrow> out_op list \<times> HttpResponse" where
  "impl_sendJson iter F mem self json =
     (case json of None \<Rightarrow> ([], self)
      | Some j \<Rightarrow>
          (case node_toString F mem j of
             None \<Rightarrow> let self1 = impl_setStatus self 500
                     in (impl_sendText iter self1 (Some (lit ''Internal Server Error: JSON Stringify failed'')), self1)
           | Some s \<Rightarrow> (send_internal iter self (Some (lit ''application/json'')) s, self)))"

definition impl_sendStatus :: "(str_map \<Rightarrow> str_map) \<Rightarrow> HttpResponse \<Rightarrow> int \<Rightarrow> out_op list \<times> HttpResponse" where
  "impl_sendStatus iter self code =
     (let self1 = self\<lparr>rs_status_code := code\<rparr> in (send_internal iter self1 None [], self1))"

definition impl_redirect ::
  "(str_map \<Rightarrow> str_map) \<Rightarrow> bool \<Rightarrow> bool \<Rightarrow> HttpResponse \<Rightarrow> cstring option \<Rightarrow> out_op list \<times> HttpResponse" where
  "impl_redirect iter mem_str mem_node self url =
     (case url of None \<Rightarrow> ([], self)
      | Some u \<Rightarrow>
          let self1 = impl_setHeader mem_str mem_node (self\<lparr>rs_status_code := 302\<rparr>) (Some (lit ''Location'')) (Some u)
          in (send_internal iter self1 None [], self1))"

text \<open>\<^verbatim>\<open>impl_sendFile\<close>. A file is its content with the answers of \<^verbatim>\<open>fseek\<close> (end), \<^verbatim>\<open>ftell\<close> and \<^verbatim>\<open>fseek\<close> (start); \<open>sent i\<close> is whether the
  \<open>i\<close>-th \<^verbatim>\<open>send\<close> of a bare socket works.\<close>

record file_answers =
  fa_content :: "byte list"
  fa_seek_end :: bool
  fa_tell :: int
  fa_seek_set :: bool

definition file_ctype :: "cstring \<Rightarrow> cstring" where
  "file_ctype path =
     (if strstr path (lit ''.html'') \<noteq> None then lit ''text/html; charset=utf-8''
      else if strstr path (lit ''.json'') \<noteq> None then lit ''application/json''
      else if strstr path (lit ''.png'') \<noteq> None then lit ''image/png''
      else if strstr path (lit ''.jpg'') \<noteq> None then lit ''image/jpeg''
      else lit ''application/octet-stream'')"

function file_pieces :: "bool \<Rightarrow> (nat \<Rightarrow> bool) \<Rightarrow> nat \<Rightarrow> nat \<Rightarrow> byte list \<Rightarrow> out_op list" where
  "file_pieces conn sent i remaining content =
     (let piece = take (min remaining 8192) content
      in if piece = [] then []
         else if \<not> conn \<and> \<not> sent i then [Append piece]
         else Append piece # file_pieces conn sent (i + 1) (remaining - length piece) (drop (length piece) content))"
  by pat_completeness auto
termination
  by (relation "measure (\<lambda>(_, _, _, _, content). length content)") auto

declare file_pieces.simps [simp del]

definition file_pieces_of :: "(str_map \<Rightarrow> str_map) \<Rightarrow> (nat \<Rightarrow> bool) \<Rightarrow> HttpResponse \<Rightarrow> cstring \<Rightarrow> nat \<Rightarrow> byte list \<Rightarrow> out_op list" where
  "file_pieces_of iter sent self path sz content =
     (let buf = lit ''HTTP/1.1 200 OK'' @ crlf;
          buf1 = (if custom_ctype (rs_headers self) = None
                  then or_else buf (head_add buf (header_text (lit ''Content-Type'') (file_ctype path))) else buf);
          buf2 = (if map_of (rs_headers self) (lit ''Content-Length'') = None
                  then or_else buf1 (head_add buf1 (header_text (lit ''Content-Length'') (dec_digits sz))) else buf1)
      in case write_hdrs buf2 (iter (rs_headers self)) of
           None \<Rightarrow> [Append err500]
         | Some buf3 \<Rightarrow>
             (case head_add buf3 crlf of None \<Rightarrow> []
              | Some buf4 \<Rightarrow> Append buf4 # (if rs_conn self \<and> rs_head self then [] else file_pieces (rs_conn self) sent 0 sz content)
                               @ (if rs_conn self then [Flush] else [])))"

definition impl_sendFile ::
  "(str_map \<Rightarrow> str_map) \<Rightarrow> (cstring \<Rightarrow> file_answers option) \<Rightarrow> (nat \<Rightarrow> bool) \<Rightarrow> HttpResponse \<Rightarrow> cstring option \<Rightarrow> out_op list \<times> HttpResponse" where
  "impl_sendFile iter fs sent self path =
     (case path of None \<Rightarrow> ([], self)
      | Some p \<Rightarrow>
          (case fs p of None \<Rightarrow> impl_sendStatus iter self 404
           | Some f \<Rightarrow>
               if \<not> fa_seek_end f \<or> fa_tell f < 0 \<or> \<not> fa_seek_set f then ([], self)
               else (file_pieces_of iter sent self p (nat (fa_tell f)) (fa_content f), self)))"

section \<open>WebSocket handshake\<close>

text \<open>\<^verbatim>\<open>WsUpgrade_handler\<close> of \<^verbatim>\<open>http_server.c\<close>; \<open>accept_key\<close> is \<^verbatim>\<open>ws_compute_accept_key\<close>, which calls OpenSSL.\<close>

definition WsUpgrade_handler ::
  "(str_map \<Rightarrow> str_map) \<Rightarrow> (cstring \<Rightarrow> cstring option) \<Rightarrow> (nat \<Rightarrow> bool \<times> bool) \<Rightarrow> 'd HttpRequest \<Rightarrow> HttpResponse
     \<Rightarrow> out_op list \<times> HttpResponse" where
  "WsUpgrade_handler iter accept_key mem req res =
     (let invalid = (let r = impl_setStatus res 400 in (impl_sendText iter r (Some (lit ''Invalid Handshake Request'')), r))
      in if rq_method req \<noteq> HTTP_GET then invalid
         else case (hashmap_get_str (rq_headers req) (lit ''upgrade''), hashmap_get_str (rq_headers req) (lit ''sec-websocket-key'')) of
           (Some upgrade, Some ws_key) \<Rightarrow>
             if \<not> strcasecmp_eq upgrade (lit ''websocket'') then invalid
             else (case accept_key ws_key of None \<Rightarrow> impl_sendStatus iter res 500
                   | Some k \<Rightarrow>
                       let r1 = impl_setHeader (fst (mem 0)) (snd (mem 0)) res (Some (lit ''Upgrade'')) (Some (lit ''websocket''));
                           r2 = impl_setHeader (fst (mem 1)) (snd (mem 1)) r1 (Some (lit ''Connection'')) (Some (lit ''Upgrade''));
                           r3 = impl_setHeader (fst (mem 2)) (snd (mem 2)) r2 (Some (lit ''Sec-WebSocket-Accept'')) (Some k)
                       in impl_sendStatus iter r3 101)
         | _ \<Rightarrow> invalid)"

end
