(* ===== verification/Ws_Protocol.thy ===== *)
theory Ws_Protocol
  imports Core_Prelude
begin

text \<open>
  \<^verbatim>\<open>src/src/ws_protocol.c\<close>: WebSocket framing (RFC 6455). Builders return the bytes they write to
  \<^verbatim>\<open>out_buf\<close> (none when they return 0); decoders take the received bytes, whose number is \<^verbatim>\<open>in_len\<close>.
  \<^verbatim>\<open>ws_decode_frame3\<close>, the decoder of the servers, unmasks inside the receive buffer and is
  modelled with the buffer it leaves behind. Out-pointers are not NULL.
\<close>

section \<open>Lengths on the wire\<close>

abbreviation MAX_WS_PAYLOAD_SIZE :: nat where "MAX_WS_PAYLOAD_SIZE \<equiv> 1048576"

definition ws_len16 :: "byte \<Rightarrow> byte \<Rightarrow> nat" where
  "ws_len16 a b = unat (push_bit 8 (ucast a) OR ucast b :: u64)"

definition ws_len64 :: "byte list \<Rightarrow> nat" where
  "ws_len64 b = unat (push_bit 56 (ucast (b ! 2)) OR push_bit 48 (ucast (b ! 3)) OR
     push_bit 40 (ucast (b ! 4)) OR push_bit 32 (ucast (b ! 5)) OR push_bit 24 (ucast (b ! 6)) OR
     push_bit 16 (ucast (b ! 7)) OR push_bit 8 (ucast (b ! 8)) OR ucast (b ! 9) :: u64)"

text \<open>The length part of a header, as all builders write it: \<^verbatim>\<open>(msg_len >> k) & 0xFF\<close>.\<close>

definition ws_len_bytes :: "nat \<Rightarrow> byte list" where
  "ws_len_bytes msg_len =
     (let w = of_nat msg_len :: u64 in
      if msg_len \<le> 125 then [ucast w]
      else if msg_len \<le> 65535 then [126, ucast (drop_bit 8 w), ucast w]
      else [127, ucast (drop_bit 56 w), ucast (drop_bit 48 w), ucast (drop_bit 40 w), ucast (drop_bit 32 w),
            ucast (drop_bit 24 w), ucast (drop_bit 16 w), ucast (drop_bit 8 w), ucast w])"

section \<open>Builders\<close>

definition ws_build_text_frame :: "cstring \<Rightarrow> nat \<Rightarrow> nat \<times> byte list" where
  "ws_build_text_frame msg max_len =
     (let msg_len = length msg;
          header_len = (if msg_len \<le> 125 then 2 else if msg_len \<le> 65535 then 4 else 10)
      in if header_len + msg_len > max_len then (0, [])
         else (header_len + msg_len, [0x81] @ ws_len_bytes msg_len @ msg))"

definition ws_build_frame :: "byte \<Rightarrow> byte list option \<Rightarrow> nat \<Rightarrow> nat \<Rightarrow> nat \<times> byte list" where
  "ws_build_frame opcode msg msg_len max_len =
     (if msg_len > 0 \<and> msg = None then (0, [])
      else if msg_len > MAX_WS_PAYLOAD_SIZE then (0, [])
      else if opcode \<noteq> 1 \<and> opcode \<noteq> 2 \<and> opcode \<noteq> 8 \<and> opcode \<noteq> 9 \<and> opcode \<noteq> 0xA then (0, [])
      else if opcode AND 8 \<noteq> 0 \<and> msg_len > 125 then (0, [])
      else let header_len = (if msg_len \<le> 125 then 2 else if msg_len \<le> 65535 then 4 else 10)
           in if header_len > max_len \<or> msg_len > max_len - header_len then (0, [])
              else (header_len + msg_len,
                    [0x80 OR (opcode AND 0x0F)] @ ws_len_bytes msg_len
                      @ (case msg of None \<Rightarrow> [] | Some m \<Rightarrow> take msg_len m)))"

section \<open>Decoders\<close>

text \<open>\<^verbatim>\<open>data[i] ^ mask[i % 4]\<close>.\<close>

definition ws_unmask :: "byte list \<Rightarrow> byte list \<Rightarrow> byte list" where
  "ws_unmask msk data = map (\<lambda>i. data ! i XOR msk ! (i mod 4)) [0 ..< length data]"

text \<open>\<^verbatim>\<open>ws_decode_frame\<close>: the return value and the bytes written to \<^verbatim>\<open>out_msg\<close>.\<close>

definition ws_decode_frame :: "byte list \<Rightarrow> nat \<Rightarrow> int \<times> byte list" where
  "ws_decode_frame in_buf max_out =
     (let in_len = length in_buf in
      if in_len < 6 then (- 1, [])
      else if in_buf ! 0 AND 0x0F = 8 then (- 1, [])
      else if drop_bit 7 (in_buf ! 1) AND 1 = 0 then (- 1, [])
      else
        let len7 = unat (in_buf ! 1 AND 0x7F) in
        if len7 = 126 \<and> in_len < 8 then (- 1, [])
        else if len7 = 127 \<and> in_len < 14 then (- 1, [])
        else
          let payload_len = (if len7 = 126 then ws_len16 (in_buf ! 2) (in_buf ! 3)
                             else if len7 = 127 then ws_len64 in_buf else len7);
              header_len = (if len7 = 126 then 4 else if len7 = 127 then 10 else 2)
          in if payload_len > max_out then (- 1, [])
             else if in_len < (header_len + 4 + payload_len) mod (SIZE_MAX + 1) then (- 1, [])
             else let msk = take 4 (drop header_len in_buf);
                      data = take payload_len (drop (header_len + 4) in_buf)
                  in (int payload_len, ws_unmask msk data @ [0]))"

record ws_result2 =
  w2_ret :: int
  w2_msg :: "byte list"
  w2_consumed :: nat
  w2_is_ping :: bool

abbreviation ws_fail2 :: "int \<Rightarrow> ws_result2" where
  "ws_fail2 r \<equiv> \<lparr>w2_ret = r, w2_msg = [], w2_consumed = 0, w2_is_ping = False\<rparr>"

definition ws_decode_frame2 :: "byte list \<Rightarrow> nat \<Rightarrow> ws_result2" where
  "ws_decode_frame2 in_buf max_out =
     (let in_len = length in_buf in
      if in_len < 2 then ws_fail2 0
      else if drop_bit 7 (in_buf ! 1) AND 1 = 0 then ws_fail2 (- 2)
      else
        let len7 = unat (in_buf ! 1 AND 0x7F) in
        if len7 = 126 \<and> in_len < 4 then ws_fail2 0
        else if len7 = 127 \<and> in_len < 10 then ws_fail2 0
        else
          let payload_len = (if len7 = 126 then ws_len16 (in_buf ! 2) (in_buf ! 3)
                             else if len7 = 127 then ws_len64 in_buf else len7);
              header_len = (if len7 = 126 then 4 else if len7 = 127 then 10 else 2)
          in if payload_len > MAX_WS_PAYLOAD_SIZE then ws_fail2 (- 2)
             else if payload_len + 1 > max_out then ws_fail2 (- 2)
             else let frame_total = header_len + 4 + payload_len in
                  if in_len < frame_total then ws_fail2 0
                  else let msk = take 4 (drop header_len in_buf);
                           data = take payload_len (drop (header_len + 4) in_buf);
                           opcode = in_buf ! 0 AND 0x0F
                       in \<lparr>w2_ret = (if opcode = 8 then - 1 else int payload_len),
                           w2_msg = ws_unmask msk data @ [0], w2_consumed = frame_total,
                           w2_is_ping = (opcode \<noteq> 8 \<and> opcode = 9)\<rparr>)"

datatype ws_status = WS_DECODE_OK | WS_DECODE_NEED_MORE | WS_DECODE_ERROR

record ws_result3 =
  w3_status :: ws_status
  w3_offset :: "nat option"    \<comment> \<open>where \<^verbatim>\<open>*out_payload\<close> points into the buffer\<close>
  w3_len :: nat
  w3_consumed :: nat
  w3_opcode :: byte
  w3_buf :: "byte list"        \<comment> \<open>the receive buffer afterwards\<close>

definition ws_fail3 :: "ws_status \<Rightarrow> byte list \<Rightarrow> ws_result3" where
  "ws_fail3 st b = \<lparr>w3_status = st, w3_offset = None, w3_len = 0, w3_consumed = 0, w3_opcode = 0, w3_buf = b\<rparr>"

text \<open>The \<^verbatim>\<open>switch\<close> on the opcode: \<open>False\<close> where it returns an error.\<close>

definition ws_opcode_ok :: "byte \<Rightarrow> bool \<Rightarrow> nat \<Rightarrow> bool" where
  "ws_opcode_ok opcode fin payload_len =
     (if opcode = 1 \<or> opcode = 2 then fin
      else if opcode = 8 \<or> opcode = 9 \<or> opcode = 0xA
      then fin \<and> payload_len \<le> 125 \<and> \<not> (opcode = 8 \<and> payload_len = 1)
      else False)"

definition ws_decode_frame3 :: "byte list option \<Rightarrow> ws_result3" where
  "ws_decode_frame3 buf =
     (case buf of None \<Rightarrow> ws_fail3 WS_DECODE_ERROR []
      | Some in_buf \<Rightarrow>
          let in_len = length in_buf in
          if in_len < 2 then ws_fail3 WS_DECODE_NEED_MORE in_buf
          else
            let fin = (in_buf ! 0 AND 0x80 \<noteq> 0); rsv = in_buf ! 0 AND 0x70; opcode = in_buf ! 0 AND 0x0F;
                masked = (in_buf ! 1 AND 0x80 \<noteq> 0); len7 = unat (in_buf ! 1 AND 0x7F)
            in if rsv \<noteq> 0 then ws_fail3 WS_DECODE_ERROR in_buf
               else if \<not> masked then ws_fail3 WS_DECODE_ERROR in_buf
               else if \<not> ws_opcode_ok opcode fin len7 then ws_fail3 WS_DECODE_ERROR in_buf
               else if len7 = 126 \<and> in_len < 4 then ws_fail3 WS_DECODE_NEED_MORE in_buf
               else if len7 = 127 \<and> in_len < 10 then ws_fail3 WS_DECODE_NEED_MORE in_buf
               else
                 let payload_len = (if len7 = 126 then ws_len16 (in_buf ! 2) (in_buf ! 3)
                                    else if len7 = 127 then ws_len64 in_buf else len7);
                     header_len = (if len7 = 126 then 4 else if len7 = 127 then 10 else 2)
                 in if payload_len > MAX_WS_PAYLOAD_SIZE then ws_fail3 WS_DECODE_ERROR in_buf
                    else let frame_total = header_len + 4 + payload_len in
                         if in_len < frame_total then ws_fail3 WS_DECODE_NEED_MORE in_buf
                         else let msk = take 4 (drop header_len in_buf);
                                  data = take payload_len (drop (header_len + 4) in_buf)
                              in \<lparr>w3_status = WS_DECODE_OK, w3_offset = Some (header_len + 4),
                                  w3_len = payload_len, w3_consumed = frame_total, w3_opcode = opcode,
                                  w3_buf = take (header_len + 4) in_buf @ ws_unmask msk data
                                             @ drop frame_total in_buf\<rparr>)"

section \<open>Frames as a client sends them\<close>

text \<open>
  A client masks what a builder emits: the mask bit in the second byte, the key behind the header,
  the payload (the last \<open>n\<close> bytes) masked with the key.
\<close>

definition ws_mask_frame :: "byte list \<Rightarrow> nat \<Rightarrow> byte list \<Rightarrow> byte list" where
  "ws_mask_frame key n f =
     (let h = take (length f - n) f; data = drop (length f - n) f
      in [h ! 0, 0x80 OR h ! 1] @ drop 2 h @ key @ ws_unmask key data)"

lemma length_ws_unmask [simp]: "length (ws_unmask msk data) = length data"
  by (simp add: ws_unmask_def)

lemma ws_unmask_unmask: "ws_unmask msk (ws_unmask msk data) = data"
  by (rule nth_equalityI) (simp_all add: ws_unmask_def xor.assoc)

lemma ws_len16_bytes:
  assumes "n \<le> 65535"
  shows "ws_len16 (ucast (drop_bit 8 (of_nat n :: u64))) (ucast (of_nat n :: u64)) = n"
proof -
  let ?w = "of_nat n :: u64"
  have "take_bit 16 n = n" using assms by (simp add: take_bit_nat_eq_self)
  then have small: "\<not> bit ?w k" if "16 \<le> k" for k
    using that by (metis bit_of_nat_iff bit_take_bit_iff not_less)
  have "push_bit 8 (ucast (ucast (drop_bit 8 ?w) :: byte)) OR ucast (ucast ?w :: byte) = ?w"
  proof (rule bit_word_eqI)
    fix k assume "k < LENGTH(64)"
    consider "k < 8" | "8 \<le> k" "k < 16" | "16 \<le> k" by linarith
    then show "bit (push_bit 8 (ucast (ucast (drop_bit 8 ?w) :: byte)) OR ucast (ucast ?w :: byte) :: u64) k = bit ?w k"
      by cases (use small in \<open>auto simp: bit_simps\<close>)
  qed
  then show ?thesis using assms by (simp add: ws_len16_def unat_of_nat)
qed

lemma ws_len64_bytes:
  fixes w :: u64
  assumes "drop 2 b = [ucast (drop_bit 56 w), ucast (drop_bit 48 w), ucast (drop_bit 40 w), ucast (drop_bit 32 w),
            ucast (drop_bit 24 w), ucast (drop_bit 16 w), ucast (drop_bit 8 w), ucast w] @ r"
  shows "ws_len64 b = unat w"
proof -
  have b: "b ! k = drop 2 b ! (k - 2)" if "2 \<le> k" for k
  proof -
    have "length (drop 2 b) = 8 + length r" using assms by simp
    then have "2 \<le> length b" by simp
    with that show ?thesis by (metis le_add_diff_inverse nth_drop)
  qed
  have bs: "b ! 2 = ucast (drop_bit 56 w)" "b ! 3 = ucast (drop_bit 48 w)" "b ! 4 = ucast (drop_bit 40 w)"
    "b ! 5 = ucast (drop_bit 32 w)" "b ! 6 = ucast (drop_bit 24 w)" "b ! 7 = ucast (drop_bit 16 w)"
    "b ! 8 = ucast (drop_bit 8 w)" "b ! 9 = ucast w"
    by (simp_all add: b assms)
  have "(push_bit 56 (ucast (b ! 2)) OR push_bit 48 (ucast (b ! 3)) OR
     push_bit 40 (ucast (b ! 4)) OR push_bit 32 (ucast (b ! 5)) OR push_bit 24 (ucast (b ! 6)) OR
     push_bit 16 (ucast (b ! 7)) OR push_bit 8 (ucast (b ! 8)) OR ucast (b ! 9) :: u64) = w"
    unfolding bs
  proof (rule bit_word_eqI)
    fix k assume "k < LENGTH(64)"
    then have "k < 64" by simp
    then consider "k < 8" | "8 \<le> k" "k < 16" | "16 \<le> k" "k < 24" | "24 \<le> k" "k < 32" | "32 \<le> k" "k < 40"
      | "40 \<le> k" "k < 48" | "48 \<le> k" "k < 56" | "56 \<le> k" "k < 64" by linarith
    then show "bit (push_bit 56 (ucast (ucast (drop_bit 56 w) :: byte)) OR push_bit 48 (ucast (ucast (drop_bit 48 w) :: byte)) OR
     push_bit 40 (ucast (ucast (drop_bit 40 w) :: byte)) OR push_bit 32 (ucast (ucast (drop_bit 32 w) :: byte)) OR
     push_bit 24 (ucast (ucast (drop_bit 24 w) :: byte)) OR push_bit 16 (ucast (ucast (drop_bit 16 w) :: byte)) OR
     push_bit 8 (ucast (ucast (drop_bit 8 w) :: byte)) OR ucast (ucast w :: byte) :: u64) k = bit w k"
      by cases (auto simp: bit_simps)
  qed
  then show ?thesis by (simp add: ws_len64_def)
qed

lemma length_ws_len_bytes:
  "length (ws_len_bytes n) = (if n \<le> 125 then 1 else if n \<le> 65535 then 3 else 9)"
  by (simp add: ws_len_bytes_def Let_def)

text \<open>A masked frame in its three forms.\<close>

definition ws_header :: "byte \<Rightarrow> nat \<Rightarrow> byte list" where
  "ws_header opcode n = (let lb = ws_len_bytes n in [0x80 OR opcode, 0x80 OR hd lb] @ tl lb)"

lemma opcode_bits:
  assumes "opcode \<in> {1, 2, 8, 9, 0xA :: byte}"
  shows "(0x80 OR opcode) AND 0x80 \<noteq> 0" "(0x80 OR opcode) AND 0x70 = 0" "(0x80 OR opcode) AND 0x0F = opcode"
    "opcode AND 0x0F = opcode" "opcode AND 8 \<noteq> 0 \<longleftrightarrow> opcode \<in> {8, 9, 0xA}"
  using assms by auto

text \<open>The fields the decoders read from a masked header, whatever follows it.\<close>

lemma ws_header_fields:
  assumes "opcode \<in> {1, 2, 8, 9, 0xA}" and "n \<le> SIZE_MAX"
  defines "h \<equiv> ws_header opcode n"
  defines "len7 \<equiv> if n \<le> 125 then n else if n \<le> 65535 then 126 else 127"
  shows "length h = (if n \<le> 125 then 2 else if n \<le> 65535 then 4 else 10)"
    and "h ! 0 = 0x80 OR opcode" and "unat (h ! 1 AND 0x7F) = len7" and "h ! 1 AND 0x80 \<noteq> 0"
    and "drop_bit 7 (h ! 1) AND 1 \<noteq> 0"
    and "len7 = 126 \<Longrightarrow> ws_len16 (h ! 2) (h ! 3) = n" and "len7 = 127 \<Longrightarrow> ws_len64 (h @ r) = n"
proof -
  let ?lb = "ws_len_bytes n"
  have hd: "unat (hd ?lb) = len7 \<and> len7 \<le> 127"
    by (simp add: ws_len_bytes_def len7_def Let_def unat_of_nat unsigned_ucast_eq take_bit_nat_eq_self)
  have lb: "?lb \<noteq> []" by (simp add: ws_len_bytes_def Let_def)
  show "length h = (if n \<le> 125 then 2 else if n \<le> 65535 then 4 else 10)"
    by (simp add: h_def ws_header_def Let_def length_ws_len_bytes)
  show "h ! 0 = 0x80 OR opcode" by (simp add: h_def ws_header_def Let_def)
  have h1: "h ! 1 = 0x80 OR hd ?lb" by (simp add: h_def ws_header_def Let_def)
  show "unat (h ! 1 AND 0x7F) = len7" "h ! 1 AND 0x80 \<noteq> 0" "drop_bit 7 (h ! 1) AND 1 \<noteq> 0"
    using len7_bits [of "hd ?lb"] hd h1 by simp_all
  show "ws_len16 (h ! 2) (h ! 3) = n" if "len7 = 126"
  proof -
    have "125 < n" "n \<le> 65535" using that by (auto simp: len7_def split: if_splits)
    then show ?thesis using ws_len16_bytes [of n] by (simp add: h_def ws_header_def ws_len_bytes_def Let_def)
  qed
  show "ws_len64 (h @ r) = n" if "len7 = 127"
  proof -
    have "65535 < n" using that by (auto simp: len7_def split: if_splits)
    then have "ws_len64 (h @ r) = unat (of_nat n :: u64)"
      by (intro ws_len64_bytes [where r = r]) (simp add: h_def ws_header_def ws_len_bytes_def Let_def)
    then show ?thesis using assms(2) by (simp add: unat_of_nat)
  qed
qed

text \<open>Decoding a masked frame that is there in full, and one that is not.\<close>

definition ws_sendable :: "byte \<Rightarrow> nat \<Rightarrow> bool" where
  "ws_sendable opcode n \<longleftrightarrow> opcode \<in> {1, 2, 8, 9, 0xA} \<and> n \<le> MAX_WS_PAYLOAD_SIZE
     \<and> (opcode \<in> {8, 9, 0xA} \<longrightarrow> n \<le> 125 \<and> \<not> (opcode = 8 \<and> n = 1))"

lemma ws_opcode_ok_header:
  assumes "ws_sendable opcode n"
  shows "ws_opcode_ok opcode True (if n \<le> 125 then n else if n \<le> 65535 then 126 else 127)"
  using assms by (auto simp: ws_sendable_def ws_opcode_ok_def)

lemma ws_decode_frame3_fields:
  assumes "\<not> length b < 2" "b ! 0 AND 0x80 \<noteq> 0" "b ! 0 AND 0x70 = 0" "b ! 0 AND 0x0F = opcode"
    "b ! 1 AND 0x80 \<noteq> 0" "unat (b ! 1 AND 0x7F) = len7" "ws_opcode_ok opcode True len7"
    and n: "len7 = 126 \<Longrightarrow> \<not> length b < 4 \<Longrightarrow> ws_len16 (b ! 2) (b ! 3) = n"
      "len7 = 127 \<Longrightarrow> \<not> length b < 10 \<Longrightarrow> ws_len64 b = n" "len7 < 126 \<Longrightarrow> len7 = n"
    and "len7 \<le> 127" "n \<le> MAX_WS_PAYLOAD_SIZE" "hl = (if len7 = 126 then 4 else if len7 = 127 then 10 else 2)"
  shows "ws_decode_frame3 (Some b) =
    (if length b < hl + 4 + n then ws_fail3 WS_DECODE_NEED_MORE b
     else \<lparr>w3_status = WS_DECODE_OK, w3_offset = Some (hl + 4), w3_len = n, w3_consumed = hl + 4 + n,
           w3_opcode = opcode,
           w3_buf = take (hl + 4) b @ ws_unmask (take 4 (drop hl b)) (take n (drop (hl + 4) b)) @ drop (hl + 4 + n) b\<rparr>)"
proof -
  consider "len7 < 126" | "len7 = 126" | "len7 = 127" using assms(11) by linarith
  then show ?thesis
  proof cases
    case 1
    then have n': "len7 \<noteq> 126" "len7 \<noteq> 127" "len7 = n" using n(3) by auto
    show ?thesis
      unfolding ws_decode_frame3_def Let_def option.case assms(4) assms(6)
      using assms(1-3,5,7,12,13) n' by simp
  next
    case 2
    show ?thesis
      unfolding ws_decode_frame3_def Let_def option.case assms(4) assms(6)
      using assms(1-3,5,7,12,13) n(1) 2 by simp
  next
    case 3
    show ?thesis
      unfolding ws_decode_frame3_def Let_def option.case assms(4) assms(6)
      using assms(1-3,5,7,12,13) n(2) 3 by simp
  qed
qed

lemma ws_decode_frame3_prefix:
  assumes "ws_sendable opcode n" and "in_buf \<noteq> []"
    and pre: "\<And>k. k < length in_buf \<Longrightarrow> k < length (ws_header opcode n) \<Longrightarrow> in_buf ! k = ws_header opcode n ! k"
    and len64: "n > 65535 \<Longrightarrow> 10 \<le> length in_buf \<Longrightarrow> ws_len64 in_buf = n"
  shows "ws_decode_frame3 (Some in_buf) =
    (let header_len = length (ws_header opcode n); frame_total = header_len + 4 + n in
     if length in_buf < frame_total then ws_fail3 WS_DECODE_NEED_MORE in_buf
     else \<lparr>w3_status = WS_DECODE_OK, w3_offset = Some (header_len + 4), w3_len = n, w3_consumed = frame_total,
           w3_opcode = opcode,
           w3_buf = take (header_len + 4) in_buf
             @ ws_unmask (take 4 (drop header_len in_buf)) (take n (drop (header_len + 4) in_buf))
             @ drop frame_total in_buf\<rparr>)"
proof (cases "length in_buf < 2")
  case True
  then show ?thesis by (simp add: ws_decode_frame3_def Let_def)
next
  case False
  have op: "opcode \<in> {1, 2, 8, 9, 0xA}" and n: "n \<le> MAX_WS_PAYLOAD_SIZE" using assms(1) by (auto simp: ws_sendable_def)
  have n64: "n \<le> SIZE_MAX" using n by simp
  note f = ws_header_fields [OF op n64] and ob = opcode_bits [OF op] and ok = ws_opcode_ok_header [OF assms(1)]
  let ?h = "ws_header opcode n"
  let ?len7 = "if n \<le> 125 then n else if n \<le> 65535 then 126 else 127"
  have h2: "2 \<le> length ?h" using f(1) by simp
  have "in_buf ! 0 = ?h ! 0" by (rule pre) (use False h2 in auto)
  then have b0: "in_buf ! 0 = 0x80 OR opcode" using f(2) by simp
  have b1: "in_buf ! 1 = ?h ! 1" by (rule pre) (use False h2 in auto)
  have l16: "ws_len16 (in_buf ! 2) (in_buf ! 3) = n" if "?len7 = 126" "\<not> length in_buf < 4"
  proof -
    have "length ?h = 4" using that(1) f(1) by (auto split: if_splits)
    with that f(6) pre [of 2] pre [of 3] show ?thesis by simp
  qed
  have l64: "ws_len64 in_buf = n" if "?len7 = 127" "\<not> length in_buf < 10"
    using that len64 by (auto split: if_splits)
  have "ws_decode_frame3 (Some in_buf) =
    (if length in_buf < length ?h + 4 + n then ws_fail3 WS_DECODE_NEED_MORE in_buf
     else \<lparr>w3_status = WS_DECODE_OK, w3_offset = Some (length ?h + 4), w3_len = n, w3_consumed = length ?h + 4 + n,
           w3_opcode = opcode,
           w3_buf = take (length ?h + 4) in_buf
             @ ws_unmask (take 4 (drop (length ?h) in_buf)) (take n (drop (length ?h + 4) in_buf))
             @ drop (length ?h + 4 + n) in_buf\<rparr>)"
  proof (rule ws_decode_frame3_fields)
    show "\<not> length in_buf < 2" by (rule False)
    show "in_buf ! 0 AND 0x80 \<noteq> 0" "in_buf ! 0 AND 0x70 = 0" "in_buf ! 0 AND 0x0F = opcode"
      unfolding b0 by (rule ob)+
    show "in_buf ! 1 AND 0x80 \<noteq> 0" "unat (in_buf ! 1 AND 0x7F) = ?len7" unfolding b1 by (rule f)+
    show "ws_opcode_ok opcode True ?len7" by (rule ok)
    show "ws_len16 (in_buf ! 2) (in_buf ! 3) = n" if "?len7 = 126" "\<not> length in_buf < 4" using l16 that by blast
    show "ws_len64 in_buf = n" if "?len7 = 127" "\<not> length in_buf < 10" using l64 that by blast
  qed (use n f(1) in \<open>auto split: if_splits\<close>)
  then show ?thesis by (simp only: Let_def)
qed

lemma ws_masked_built_frame:
  assumes "ws_build_frame opcode (Some data) (length data) max_len = (k, f)" and "k \<noteq> 0"
    and "\<not> (opcode = 8 \<and> length data = 1)"
  shows "ws_sendable opcode (length data)" and "length f = k" and "k \<le> max_len"
    and "ws_mask_frame key (length data) f = ws_header opcode (length data) @ key @ ws_unmask key data"
proof -
  let ?n = "length data"
  let ?lb = "ws_len_bytes ?n"
  have ops: "opcode \<in> {1, 2, 8, 9, 0xA}" "?n \<le> MAX_WS_PAYLOAD_SIZE" "opcode AND 8 \<noteq> 0 \<longrightarrow> ?n \<le> 125"
    and f: "f = [0x80 OR (opcode AND 0x0F)] @ ?lb @ data"
    and k: "k = (if ?n \<le> 125 then 2 else if ?n \<le> 65535 then 4 else 10) + ?n" "k \<le> max_len"
    using assms(1,2) by (auto simp: ws_build_frame_def Let_def split: if_splits)
  note ob = opcode_bits [OF ops(1)]
  show "ws_sendable opcode ?n" using ops ob(5) assms(3) by (auto simp: ws_sendable_def)
  show "length f = k" "k \<le> max_len" using f k by (auto simp: length_ws_len_bytes)
  have "?lb = hd ?lb # tl ?lb" by (simp add: ws_len_bytes_def Let_def)
  then obtain x xs where x: "?lb = x # xs" by blast
  have "length f - ?n = 1 + length ?lb" using f by simp
  then have "take (length f - ?n) f = [0x80 OR opcode] @ ?lb" "drop (length f - ?n) f = data"
    using f ob(4) by simp_all
  then show "ws_mask_frame key ?n f = ws_header opcode ?n @ key @ ws_unmask key data"
    unfolding ws_mask_frame_def ws_header_def Let_def x by simp
qed

lemma nth_prefix: "k < length (h @ r) \<Longrightarrow> k < length h \<Longrightarrow> (h @ r) ! k = h ! k"
  by (simp add: nth_append)

lemma ws_len64_header:
  assumes "ws_sendable opcode n" and "65535 < n"
  shows "ws_len64 (ws_header opcode n @ r) = n"
proof -
  have "opcode \<in> {1, 2, 8, 9, 0xA}" "n \<le> SIZE_MAX" using assms(1) by (auto simp: ws_sendable_def)
  from ws_header_fields(7) [OF this, of r] assms(2) show ?thesis by simp
qed

lemma ws_len64_cong: "10 \<le> length xs \<Longrightarrow> ws_len64 (xs @ ys) = ws_len64 xs"
  by (simp add: ws_len64_def nth_append)

section \<open>Properties\<close>


lemma demo_built_frame:
  "ws_build_frame 1 (Some (lit ''Hi'')) 2 64 = (4, [0x81, 2, 72, 105])"
  by (simp add: ws_build_frame_def ws_len_bytes_def lit_def)




text \<open>The stream decoders stay inside their buffers on every input: \<^verbatim>\<open>ws_decode_frame2\<close> writes at most
  \<^verbatim>\<open>max_out\<close> bytes, terminator included, and consumes at most what was received; \<^verbatim>\<open>ws_decode_frame3\<close>
  keeps the buffer's length and changes only the payload bytes it reports.\<close>

theorem ws_decoders_bounded:
  "length (w2_msg (ws_decode_frame2 in_buf max_out)) \<le> max_out
   \<and> w2_consumed (ws_decode_frame2 in_buf max_out) \<le> length in_buf
   \<and> (let r = ws_decode_frame3 (Some in_buf) in
      length (w3_buf r) = length in_buf \<and> w3_consumed r \<le> length in_buf
      \<and> (case w3_offset r of None \<Rightarrow> w3_buf r = in_buf
         | Some off \<Rightarrow> off + w3_len r = w3_consumed r \<and> take off (w3_buf r) = take off in_buf
             \<and> drop (w3_consumed r) (w3_buf r) = drop (w3_consumed r) in_buf))"
proof -
  have "length (w2_msg (ws_decode_frame2 in_buf max_out)) \<le> max_out"
    "w2_consumed (ws_decode_frame2 in_buf max_out) \<le> length in_buf"
    by (simp_all add: ws_decode_frame2_def Let_def)
  moreover have "let r = ws_decode_frame3 (Some in_buf) in
      length (w3_buf r) = length in_buf \<and> w3_consumed r \<le> length in_buf
      \<and> (case w3_offset r of None \<Rightarrow> w3_buf r = in_buf
         | Some off \<Rightarrow> off + w3_len r = w3_consumed r \<and> take off (w3_buf r) = take off in_buf
             \<and> drop (w3_consumed r) (w3_buf r) = drop (w3_consumed r) in_buf)"
    by (simp add: ws_decode_frame3_def ws_fail3_def Let_def)
  ultimately show ?thesis by blast
qed

text \<open>The older \<^verbatim>\<open>ws_decode_frame\<close> tests \<^verbatim>\<open>payload_len > max_out\<close> and then writes a terminator behind
  the payload: a payload of exactly \<^verbatim>\<open>max_out\<close> bytes makes it write \<^verbatim>\<open>max_out + 1\<close> bytes.\<close>

theorem ws_decode_frame_writes_past_buffer:
  assumes "2 \<le> max_out" and "max_out \<le> 125" and "length data = max_out" and "length key = 4"
  shows "length (snd (ws_decode_frame ([0x81, 0x80 OR of_nat max_out] @ key @ data) max_out)) = max_out + 1"
proof -
  have u: "unat (of_nat max_out :: byte) = max_out" using assms(2) by (simp add: unat_of_nat)
  have "unat (of_nat max_out :: byte) \<le> 127" using u assms(2) by simp
  note l7 = len7_bits [OF this, unfolded u]
  show ?thesis using assms l7 by (simp add: ws_decode_frame_def Let_def)
qed

theorem ws_decode_frame_writes_past_buffer_witness:
  "length (snd (ws_decode_frame ([0x81, 0x80 OR of_nat 2] @ [0, 0, 0, 0] @ [65, 66]) 2)) = 3"
  using ws_decode_frame_writes_past_buffer [of 2 "[65, 66]" "[0, 0, 0, 0]"] by simp

end
