(* ===== verification/Http_Connection.thy ===== *)
theory Http_Connection
  imports Http_Message Ws_Protocol
begin

text \<open>
  \<^verbatim>\<open>src/src/http_server.c\<close>: the server, its connections, output buffering, WebSocket frames, the read handler and graceful
  shutdown.
  \<^item> The state is the server with all its connections, named by numbers; the linked list of connections is \<open>sv_conns\<close>.
  \<^item> The answers of the operating system and of the allocator are queues in the state: \<open>sv_removes\<close> and \<open>sv_modifies\<close> for the
    event backend, \<open>sv_mem\<close> for allocations (an empty queue answers yes), \<open>hc_tx\<close> for the sends of a connection (an
    empty queue is a full socket). What a connection receives is an argument of the read handler.
  \<^item> \<open>sv_released\<close> records the calls of \<^verbatim>\<open>deferRelease\<close>, \<open>sv_ws_closed\<close> those of the close callback, \<open>hc_sent\<close> the bytes the socket took.
  \<^item> The application is the record \<open>app\<close>: the router's handlers answer a request with calls on the response, the WebSocket
    callbacks with calls on the connection.
\<close>

section \<open>State\<close>

datatype HttpConnState = HTTP_STATE_READ_HEADER | HTTP_STATE_READ_BODY
datatype ConnMode = CONN_MODE_HTTP | CONN_MODE_WS

record 'd HttpConnection =
  hc_server :: bool
  hc_state :: HttpConnState
  hc_mode :: ConnMode
  hc_is_closing :: bool
  hc_backend_remove_pending :: bool
  hc_shutdown_done :: bool
  hc_keep_alive :: bool
  hc_ws_close_notified :: bool
  hc_header :: "byte list"
  hc_body_read :: nat
  hc_ws_in :: "byte list"
  hc_ws_in_cap :: nat
  hc_out :: "byte list"
  hc_out_cap :: nat
  hc_is_write_registered :: bool
  hc_close_write_only_registered :: bool
  hc_req :: "'d HttpRequest option"
  hc_res :: "HttpResponse option"
  hc_open :: bool
  hc_tx :: "(int \<times> int) list"
  hc_sent :: "byte list"

record 'd HttpServer =
  sv_conn :: "nat \<Rightarrow> 'd HttpConnection"
  sv_conns :: "nat list"
  sv_sock :: bool
  sv_shutting_down :: bool
  sv_drain_count :: nat
  sv_shutdown_started_ms :: u64
  sv_timer :: bool
  sv_running :: bool
  sv_on_ws_close :: bool
  sv_released :: "nat list"
  sv_ws_closed :: "nat list"
  sv_removes :: "bool list"
  sv_modifies :: "bool list"
  sv_mem :: "bool list"
  sv_requests :: nat

definition upd :: "nat \<Rightarrow> ('d HttpConnection \<Rightarrow> 'd HttpConnection) \<Rightarrow> 'd HttpServer \<Rightarrow> 'd HttpServer" where
  "upd i f s = s\<lparr>sv_conn := (sv_conn s)(i := f (sv_conn s i))\<rparr>"

definition new_HttpConnection :: "bool \<Rightarrow> 'd HttpConnection option" where
  "new_HttpConnection mem =
     (if mem then Some \<lparr>hc_server = True, hc_state = HTTP_STATE_READ_HEADER, hc_mode = CONN_MODE_HTTP, hc_is_closing = False,
        hc_backend_remove_pending = False, hc_shutdown_done = False, hc_keep_alive = True, hc_ws_close_notified = False,
        hc_header = [], hc_body_read = 0, hc_ws_in = [], hc_ws_in_cap = 0, hc_out = [], hc_out_cap = 0,
        hc_is_write_registered = False, hc_close_write_only_registered = False, hc_req = None, hc_res = None,
        hc_open = True, hc_tx = [], hc_sent = []\<rparr>
      else None)"

text \<open>The queues of answers.\<close>

definition ask_remove :: "'d HttpServer \<Rightarrow> bool \<times> 'd HttpServer" where
  "ask_remove s = (case sv_removes s of [] \<Rightarrow> (True, s) | b # bs \<Rightarrow> (b, s\<lparr>sv_removes := bs\<rparr>))"

definition ask_modify :: "'d HttpServer \<Rightarrow> bool \<times> 'd HttpServer" where
  "ask_modify s = (case sv_modifies s of [] \<Rightarrow> (True, s) | b # bs \<Rightarrow> (b, s\<lparr>sv_modifies := bs\<rparr>))"

definition ask_mem :: "'d HttpServer \<Rightarrow> bool \<times> 'd HttpServer" where
  "ask_mem s = (case sv_mem s of [] \<Rightarrow> (True, s) | b # bs \<Rightarrow> (b, s\<lparr>sv_mem := bs\<rparr>))"

section \<open>Closing connections\<close>

definition HttpServer_maybe_finish_shutdown :: "'d HttpServer \<Rightarrow> 'd HttpServer" where
  "HttpServer_maybe_finish_shutdown s =
     (if sv_shutting_down s \<and> \<not> sv_sock s \<and> sv_conns s = [] \<and> sv_drain_count s = 0
      then s\<lparr>sv_timer := False, sv_running := False\<rparr> else s)"

definition notify_ws_close :: "nat \<Rightarrow> 'd HttpServer \<Rightarrow> 'd HttpServer" where
  "notify_ws_close i s =
     (let c = sv_conn s i
      in if hc_mode c \<noteq> CONN_MODE_WS \<or> hc_ws_close_notified c then s
         else let s1 = upd i (\<lambda>c. c\<lparr>hc_ws_close_notified := True\<rparr>) s
              in if hc_server c \<and> sv_on_ws_close s then s1\<lparr>sv_ws_closed := sv_ws_closed s1 @ [i]\<rparr> else s1)"

definition remove_conn_from_server :: "nat \<Rightarrow> 'd HttpServer \<Rightarrow> 'd HttpServer" where
  "remove_conn_from_server i s =
     (if hc_server (sv_conn s i)
      then (upd i (\<lambda>c. c\<lparr>hc_server := False\<rparr>) s)\<lparr>sv_conns := remove1 i (sv_conns s)\<rparr> else s)"

text \<open>The removal that \<^verbatim>\<open>conn_shutdown\<close> and \<^verbatim>\<open>HttpServer_sweep_closing\<close> share.\<close>

definition drop_conn :: "nat \<Rightarrow> 'd HttpServer \<Rightarrow> 'd HttpServer" where
  "drop_conn i s =
     (let s1 = upd i (\<lambda>c. c\<lparr>hc_shutdown_done := True, hc_backend_remove_pending := False\<rparr>) s;
          s2 = remove_conn_from_server i s1
      in s2\<lparr>sv_released := sv_released s2 @ [i]\<rparr>)"

definition conn_shutdown :: "nat \<Rightarrow> 'd HttpServer \<Rightarrow> 'd HttpServer" where
  "conn_shutdown i s =
     (if hc_shutdown_done (sv_conn s i) \<or> hc_backend_remove_pending (sv_conn s i) then s
      else let s1 = notify_ws_close i (upd i (\<lambda>c. c\<lparr>hc_is_closing := True\<rparr>) s)
           in case ask_remove s1 of (gone, s2) \<Rightarrow>
                if gone then
                  let s3 = drop_conn i s2
                  in if hc_server (sv_conn s2 i) \<and> sv_shutting_down s3 then HttpServer_maybe_finish_shutdown s3 else s3
                else upd i (\<lambda>c. c\<lparr>hc_backend_remove_pending := True\<rparr>) s2)"

fun sweep_conns :: "nat list \<Rightarrow> 'd HttpServer \<Rightarrow> 'd HttpServer" where
  "sweep_conns [] s = s"
| "sweep_conns (i # is) s =
     sweep_conns is
       (if hc_backend_remove_pending (sv_conn s i) \<and> \<not> hc_shutdown_done (sv_conn s i)
        then (case ask_remove s of (gone, s1) \<Rightarrow> if gone then drop_conn i s1 else s1) else s)"

definition HttpServer_sweep_closing :: "'d HttpServer \<Rightarrow> 'd HttpServer" where
  "HttpServer_sweep_closing s =
     (let s1 = (if sv_sock s \<and> sv_shutting_down s
                then (case ask_remove s of (gone, s1) \<Rightarrow> if gone then s1\<lparr>sv_sock := False\<rparr> else s1) else s)
      in sweep_conns (sv_conns s1) s1)"

section \<open>Output\<close>

function grow_cap :: "nat \<Rightarrow> nat \<Rightarrow> nat" where
  "grow_cap new_cap required =
     (if 0 < new_cap \<and> new_cap < required
      then if new_cap > SIZE_MAX div 2 then required else grow_cap (new_cap * 2) required
      else new_cap)"
  by pat_completeness auto
termination
  by (relation "measure (\<lambda>(new_cap, required). required - new_cap)") auto

declare grow_cap.simps [simp del]

definition append_out_buf :: "nat \<Rightarrow> byte list \<Rightarrow> 'd HttpServer \<Rightarrow> bool \<times> 'd HttpServer" where
  "append_out_buf i data s =
     (let c = sv_conn s i; required = length (hc_out c) + length data
      in if data = [] then (True, s)
         else if required > SIZE_MAX then (False, s)
         else if required > hc_out_cap c then
           (case ask_mem s of (ok, s1) \<Rightarrow>
              if ok then (True, upd i (\<lambda>c. c\<lparr>hc_out := hc_out c @ data,
                                            hc_out_cap := grow_cap (if hc_out_cap c \<noteq> 0 then hc_out_cap c else 4096) required\<rparr>) s1)
              else (False, s1))
         else (True, upd i (\<lambda>c. c\<lparr>hc_out := hc_out c @ data\<rparr>) s))"

definition HttpConnection_append_send :: "nat \<Rightarrow> byte list \<Rightarrow> 'd HttpServer \<Rightarrow> 'd HttpServer" where
  "HttpConnection_append_send i data s = snd (append_out_buf i data s)"

text \<open>The send loop of \<^verbatim>\<open>HttpConnection_flush\<close>: whether it ended without an error, what went out, what is left, the answers left.\<close>

fun flush_loop :: "(int \<times> int) list \<Rightarrow> byte list \<Rightarrow> bool \<times> byte list \<times> byte list \<times> (int \<times> int) list" where
  "flush_loop tx [] = (True, [], [], tx)"
| "flush_loop [] out = (True, [], out, [])"
| "flush_loop ((n, errno) # tx) out =
     (if n > 0 then
        if nat n < length out
        then (case flush_loop tx (drop (nat n) out) of (ok, sent, rest, tx1) \<Rightarrow> (ok, take (nat n) out @ sent, rest, tx1))
        else (True, out, [], tx)
      else if n = SOCKET_WOULD_BLOCK \<or> errno = E_AGAIN then (True, [], out, tx)
      else if n < 0 \<and> errno = E_INTR then flush_loop tx out
      else (False, [], out, tx))"

text \<open>The registration of the write event; the first component is \<open>False\<close> when the connection was closed instead.\<close>

definition try_modify :: "nat \<Rightarrow> ('d HttpConnection \<Rightarrow> 'd HttpConnection) \<Rightarrow> 'd HttpServer \<Rightarrow> bool \<times> 'd HttpServer" where
  "try_modify i f s = (case ask_modify s of (ok, s1) \<Rightarrow> if ok then (True, upd i f s1) else (False, conn_shutdown i s1))"

definition register_write :: "nat \<Rightarrow> 'd HttpServer \<Rightarrow> bool \<times> 'd HttpServer" where
  "register_write i s =
     (let c = sv_conn s i
      in if \<not> hc_server c then (True, s)
         else if hc_out c \<noteq> [] then
           if hc_is_closing c then
             if \<not> hc_close_write_only_registered c
             then try_modify i (\<lambda>c. c\<lparr>hc_is_write_registered := True, hc_close_write_only_registered := True\<rparr>) s
             else (True, s)
           else if \<not> hc_is_write_registered c then try_modify i (\<lambda>c. c\<lparr>hc_is_write_registered := True\<rparr>) s
           else (True, s)
         else if hc_is_write_registered c \<and> \<not> hc_is_closing c
         then try_modify i (\<lambda>c. c\<lparr>hc_is_write_registered := False, hc_close_write_only_registered := False\<rparr>) s
         else (True, s))"

definition HttpConnection_flush :: "nat \<Rightarrow> 'd HttpServer \<Rightarrow> 'd HttpServer" where
  "HttpConnection_flush i s =
     (if \<not> hc_open (sv_conn s i) then s
      else case flush_loop (hc_tx (sv_conn s i)) (hc_out (sv_conn s i)) of (ok, sent, rest, tx) \<Rightarrow>
        let s1 = upd i (\<lambda>c. c\<lparr>hc_sent := hc_sent c @ sent, hc_out := rest, hc_tx := tx\<rparr>) s
        in if \<not> ok then (if hc_server (sv_conn s1 i) then conn_shutdown i s1 else s1)
           else case register_write i s1 of (go, s2) \<Rightarrow>
             let c = sv_conn s2 i
             in if go \<and> hc_is_closing c \<and> hc_out c = [] \<and> \<not> hc_backend_remove_pending c \<and> hc_server c
                then conn_shutdown i s2 else s2)"

definition HttpConnection_on_writable :: "nat \<Rightarrow> 'd HttpServer \<Rightarrow> 'd HttpServer" where
  "HttpConnection_on_writable i s = HttpConnection_flush i s"

section \<open>WebSocket output\<close>

abbreviation (input) MAX_WS_OUT_QUEUE :: nat where "MAX_WS_OUT_QUEUE \<equiv> 2 * 1024 * 1024"

definition HttpConnection_ws_send :: "nat \<Rightarrow> cstring option \<Rightarrow> 'd HttpServer \<Rightarrow> int \<times> 'd HttpServer" where
  "HttpConnection_ws_send i msg s =
     (let c = sv_conn s i
      in case msg of None \<Rightarrow> (- 1, s)
         | Some m \<Rightarrow>
             if hc_mode c \<noteq> CONN_MODE_WS \<or> hc_is_closing c \<or> \<not> hc_open c then (- 1, s)
             else case ask_mem s of (ok, s1) \<Rightarrow>
               if \<not> ok then (- 1, s1)
               else case ws_build_text_frame m (length m + 16) of (flen, frame) \<Rightarrow>
                 if flen = 0 then (- 1, s1)
                 else (0, HttpConnection_flush i (snd (append_out_buf i frame s1))))"

abbreviation close_frame :: "byte list" where "close_frame \<equiv> [0x88, 0x00]"

definition HttpConnection_ws_close :: "nat \<Rightarrow> 'd HttpServer \<Rightarrow> 'd HttpServer" where
  "HttpConnection_ws_close i s =
     (let c = sv_conn s i
      in if hc_mode c \<noteq> CONN_MODE_WS \<or> hc_is_closing c then s
         else let s1 = upd i (\<lambda>c. c\<lparr>hc_is_closing := True\<rparr>) s
              in if hc_open c then HttpConnection_flush i (snd (append_out_buf i close_frame s1)) else s1)"

definition HttpConnection_ws_close_checked :: "nat \<Rightarrow> 'd HttpServer \<Rightarrow> int \<times> 'd HttpServer" where
  "HttpConnection_ws_close_checked i s =
     (let c = sv_conn s i
      in if hc_mode c \<noteq> CONN_MODE_WS \<or> hc_is_closing c \<or> \<not> hc_open c then (- 1, s)
         else case append_out_buf i close_frame s of (ok, s1) \<Rightarrow>
           if \<not> ok then (- 1, s1)
           else (0, HttpConnection_flush i (upd i (\<lambda>c. c\<lparr>hc_is_closing := True\<rparr>) s1)))"

text \<open>The common part of \<^verbatim>\<open>ws_send_text\<close>, \<^verbatim>\<open>ws_send_binary\<close> and \<^verbatim>\<open>ws_send_pong\<close>, behind their own checks.\<close>

definition ws_queue_frame :: "nat \<Rightarrow> byte \<Rightarrow> byte list option \<Rightarrow> nat \<Rightarrow> 'd HttpServer \<Rightarrow> int \<times> 'd HttpServer" where
  "ws_queue_frame i opcode data len s =
     (case ask_mem s of (ok, s1) \<Rightarrow>
        if \<not> ok then (- 1, s1)
        else case ws_build_frame opcode data len (len + 16) of (flen, frame) \<Rightarrow>
          if flen = 0 then (- 1, s1)
          else let queued = length (hc_out (sv_conn s1 i))
               in if queued > MAX_WS_OUT_QUEUE \<or> flen > MAX_WS_OUT_QUEUE - queued then (- 1, s1)
                  else case append_out_buf i frame s1 of (ok, s2) \<Rightarrow>
                    if \<not> ok then (- 1, s2) else (0, HttpConnection_flush i s2))"

definition HttpConnection_ws_send_text :: "nat \<Rightarrow> byte list option \<Rightarrow> nat \<Rightarrow> 'd HttpServer \<Rightarrow> int \<times> 'd HttpServer" where
  "HttpConnection_ws_send_text i txt len s =
     (if hc_mode (sv_conn s i) \<noteq> CONN_MODE_WS \<or> hc_is_closing (sv_conn s i) \<or> txt = None \<or> len > MAX_WS_PAYLOAD_SIZE then (- 1, s)
      else ws_queue_frame i 1 txt len s)"

definition HttpConnection_ws_send_binary :: "nat \<Rightarrow> byte list option \<Rightarrow> nat \<Rightarrow> 'd HttpServer \<Rightarrow> int \<times> 'd HttpServer" where
  "HttpConnection_ws_send_binary i data len s =
     (if hc_mode (sv_conn s i) \<noteq> CONN_MODE_WS \<or> hc_is_closing (sv_conn s i) \<or> data = None \<or> len > MAX_WS_PAYLOAD_SIZE then (- 1, s)
      else ws_queue_frame i 2 data len s)"

definition HttpConnection_ws_send_pong :: "nat \<Rightarrow> byte list option \<Rightarrow> nat \<Rightarrow> 'd HttpServer \<Rightarrow> int \<times> 'd HttpServer" where
  "HttpConnection_ws_send_pong i data len s =
     (if hc_mode (sv_conn s i) \<noteq> CONN_MODE_WS \<or> hc_is_closing (sv_conn s i) \<or> len > 125 then (- 1, s)
      else ws_queue_frame i 0xA data len s)"

section \<open>Applications\<close>

datatype ws_call = Ws_send cstring | Ws_send_text "byte list" | Ws_send_binary "byte list" | Ws_close

definition ws_call :: "nat \<Rightarrow> ws_call \<Rightarrow> 'd HttpServer \<Rightarrow> 'd HttpServer" where
  "ws_call i a s =
     (case a of
        Ws_send m \<Rightarrow> snd (HttpConnection_ws_send i (Some m) s)
      | Ws_send_text t \<Rightarrow> snd (HttpConnection_ws_send_text i (Some t) (length t) s)
      | Ws_send_binary d \<Rightarrow> snd (HttpConnection_ws_send_binary i (Some d) (length d) s)
      | Ws_close \<Rightarrow> HttpConnection_ws_close i s)"

record 'd app =
  ap_dispatch :: "('d HttpRequest \<Rightarrow> HttpResponse \<Rightarrow> out_op list \<times> HttpResponse) option"
  ap_ws_open :: "(nat \<Rightarrow> ws_call list) option"
  ap_ws_frame :: "(nat \<Rightarrow> byte \<Rightarrow> byte list \<Rightarrow> ws_call list) option"
  ap_ws_message :: "(nat \<Rightarrow> byte list \<Rightarrow> ws_call list) option"

definition out_call :: "nat \<Rightarrow> out_op \<Rightarrow> 'd HttpServer \<Rightarrow> 'd HttpServer" where
  "out_call i a s = (case a of Append d \<Rightarrow> HttpConnection_append_send i d s | Flush \<Rightarrow> HttpConnection_flush i s)"

section \<open>WebSocket input\<close>

abbreviation conn_down :: "'d HttpConnection \<Rightarrow> bool" where
  "conn_down c \<equiv> hc_is_closing c \<or> hc_shutdown_done c \<or> hc_backend_remove_pending c"

text \<open>The text and binary branch: the callbacks; \<open>None\<close> when the copy for the old callback finds no memory.\<close>

definition ws_deliver :: "'d app \<Rightarrow> nat \<Rightarrow> byte \<Rightarrow> byte list \<Rightarrow> 'd HttpServer \<Rightarrow> bool \<times> 'd HttpServer" where
  "ws_deliver a i opcode pdata s =
     (if \<not> hc_server (sv_conn s i) \<or> (opcode \<noteq> 1 \<and> opcode \<noteq> 2) then (True, s)
      else case ap_ws_frame a of
        Some f \<Rightarrow> (True, fold (ws_call i) (f i opcode pdata) s)
      | None \<Rightarrow>
          (case ap_ws_message a of None \<Rightarrow> (True, s)
           | Some f \<Rightarrow> (case ask_mem s of (ok, s1) \<Rightarrow> if ok then (True, fold (ws_call i) (f i pdata) s1) else (False, s1))))"

text \<open>\<^verbatim>\<open>HttpConnection_process_ws_frames\<close>; \<open>inp\<close> is the content of \<^verbatim>\<open>ws_in_buf\<close>, which no other call changes. The result is
  \<open>False\<close> for \<^verbatim>\<open>-1\<close>.\<close>

definition set_ws_in :: "nat \<Rightarrow> byte list \<Rightarrow> 'd HttpServer \<Rightarrow> 'd HttpServer" where
  "set_ws_in i inp s = upd i (\<lambda>c. c\<lparr>hc_ws_in := inp\<rparr>) s"

definition ws_close_or_drop :: "nat \<Rightarrow> 'd HttpServer \<Rightarrow> bool \<times> 'd HttpServer" where
  "ws_close_or_drop i s =
     (case HttpConnection_ws_close_checked i s of (r, s1) \<Rightarrow> if r < 0 then (False, conn_shutdown i s1) else (True, s1))"

function process_ws_frames :: "'d app \<Rightarrow> nat \<Rightarrow> byte list \<Rightarrow> 'd HttpServer \<Rightarrow> bool \<times> 'd HttpServer" where
  "process_ws_frames a i inp s =
     (if inp = [] then (True, s)
      else let r = ws_decode_frame3 (Some inp)
           in case w3_status r of
                WS_DECODE_NEED_MORE \<Rightarrow> (True, s)
              | WS_DECODE_ERROR \<Rightarrow> ws_close_or_drop i s
              | WS_DECODE_OK \<Rightarrow>
                  let pdata = take (w3_len r) (drop (the (w3_offset r)) (w3_buf r));
                      rest = drop (w3_consumed r) (w3_buf r)
                  in if w3_opcode r = 8 then ws_close_or_drop i (set_ws_in i rest s)
                     else if w3_opcode r = 9 then
                       (case HttpConnection_ws_send_pong i (Some pdata) (w3_len r) s of (ret, s1) \<Rightarrow>
                          let s2 = set_ws_in i rest s1
                          in if ret < 0 then (False, conn_shutdown i s2)
                             else if conn_down (sv_conn s2 i) then (False, s2)
                             else process_ws_frames a i rest s2)
                     else
                       (case ws_deliver a i (w3_opcode r) pdata s of (ok, s1) \<Rightarrow>
                          let s2 = set_ws_in i rest s1
                          in if \<not> ok then (False, conn_shutdown i s2)
                             else if conn_down (sv_conn s2 i) then (False, s2)
                             else process_ws_frames a i rest s2))"
  by pat_completeness auto
termination
proof (relation "measure (\<lambda>(_, _, inp, _). length inp)")
  have rest: "length (drop (w3_consumed r) (w3_buf r)) < length inp"
    if "inp \<noteq> []" "r = ws_decode_frame3 (Some inp)" "w3_status r = WS_DECODE_OK" for inp r
  proof -
    have "0 < w3_consumed r" "length (w3_buf r) = length inp"
      using that(2,3) by (auto simp: ws_decode_frame3_def ws_fail3_def Let_def split: if_splits)
    with that(1) show ?thesis by simp
  qed
  fix a :: "'d app" and i inp and s :: "'d HttpServer" and r pdata rest x xa y s2
  assume *: "inp \<noteq> []" "r = ws_decode_frame3 (Some inp)" "w3_status r = WS_DECODE_OK" "rest = drop (w3_consumed r) (w3_buf r)"
  from rest [OF *(1-3)] *(4) show "((a, i, rest, s2), a, i, inp, s) \<in> measure (\<lambda>(_, _, inp, _). length inp)" by simp
  from rest [OF *(1-3)] *(4) show "((a, i, rest, s2), a, i, inp, s) \<in> measure (\<lambda>(_, _, inp, _). length inp)" by simp
qed simp

declare process_ws_frames.simps [simp del]

section \<open>Reading requests\<close>

text \<open>One \<^verbatim>\<open>recv\<close>; \<open>R_closed\<close> stands for the end of the stream and for every error but an interrupt.\<close>

datatype recv_result = R_data "byte list" | R_block | R_intr | R_closed

fun recv_once :: "nat \<Rightarrow> rx list \<Rightarrow> recv_result \<times> rx list" where
  "recv_once len [] = (R_block, [])"
| "recv_once len (Rx_data bs # rx) =
     (if bs = [] then (R_closed, rx)
      else (R_data (take len bs), if length bs \<le> len then rx else Rx_data (drop len bs) # rx))"
| "recv_once len (Rx_none n errno # rx) =
     (if n = SOCKET_WOULD_BLOCK then (R_block, rx) else if n < 0 \<and> errno = E_INTR then (R_intr, rx) else (R_closed, rx))"

text \<open>A \<^verbatim>\<open>send\<close> on the socket itself, whose answer is not looked at.\<close>

definition raw_send :: "nat \<Rightarrow> byte list \<Rightarrow> 'd HttpServer \<Rightarrow> 'd HttpServer" where
  "raw_send i bs s =
     upd i (\<lambda>c. case hc_tx c of [] \<Rightarrow> c
                | (n, _) # tx \<Rightarrow> c\<lparr>hc_tx := tx, hc_sent := hc_sent c @ (if n > 0 then take (nat n) bs else [])\<rparr>) s"

definition refusal_text :: "nat \<Rightarrow> cstring" where
  "refusal_text code =
     (if code = 431 then lit ''HTTP/1.1 431 Request Header Fields Too Large'' @ crlf @ lit ''Connection: close'' @ crlf @ crlf
      else if code = 503 then lit ''HTTP/1.1 503 Service Unavailable'' @ crlf @ lit ''Connection: close'' @ crlf @ crlf
      else (if code = 413 then lit ''HTTP/1.1 413 Payload Too Large'' else if code = 414 then lit ''HTTP/1.1 414 URI Too Long''
            else lit ''HTTP/1.1 400 Bad Request'')
        @ crlf @ lit ''Content-Length: 0'' @ crlf @ lit ''Connection: close'' @ crlf @ crlf)"

definition refuse :: "nat \<Rightarrow> nat \<Rightarrow> 'd HttpServer \<Rightarrow> 'd HttpServer" where
  "refuse i code s = conn_shutdown i (raw_send i (refusal_text code) s)"

text \<open>The part of \<^verbatim>\<open>HttpConnection_on_readable\<close> behind a complete request; the first component says whether the loop goes on.\<close>

definition upgrade_ws :: "'d app \<Rightarrow> nat \<Rightarrow> 'd HttpServer \<Rightarrow> 'd HttpServer" where
  "upgrade_ws a i s =
     (let left = hc_header (sv_conn s i);
          s1 = upd i (\<lambda>c. c\<lparr>hc_mode := CONN_MODE_WS, hc_keep_alive := True\<rparr>) s
      in case (if left = [] then (True, s1)
               else case ask_mem s1 of (ok, s2) \<Rightarrow>
                 (ok, upd i (\<lambda>c. c\<lparr>hc_ws_in_cap := (if length left > 8192 then length left * 2 else 8192),
                                   hc_ws_in := (if ok then left else []), hc_header := (if ok then [] else left)\<rparr>) s2)) of
           (ok, s2) \<Rightarrow>
             if \<not> ok then conn_shutdown i s2
             else let s3 = (if hc_server (sv_conn s2 i) then (case ap_ws_open a of None \<Rightarrow> s2 | Some f \<Rightarrow> fold (ws_call i) (f i) s2) else s2)
                  in if conn_down (sv_conn s3 i) \<and> hc_server (sv_conn s2 i) \<and> ap_ws_open a \<noteq> None then s3
                     else snd (process_ws_frames a i (hc_ws_in (sv_conn s3 i)) s3))"

definition handle_request :: "'d fp \<Rightarrow> 'd app \<Rightarrow> req_mem \<Rightarrow> nat \<Rightarrow> 'd HttpServer \<Rightarrow> bool \<times> 'd HttpServer" where
  "handle_request F a mem i s =
     (case (hc_req (sv_conn s i), hc_res (sv_conn s i)) of
        (Some req0, Some res) \<Rightarrow>
          let req = parse_body F mem req0
          in if hc_server (sv_conn s i) \<and> sv_shutting_down s
             then (False, refuse i 503 (upd i (\<lambda>c. c\<lparr>hc_req := Some req\<rparr>) s))
             else
               (case (case ap_dispatch a of None \<Rightarrow> ([], res) | Some d \<Rightarrow> d req (res\<lparr>rs_head := (rq_method req = HTTP_HEAD)\<rparr>)) of
                  (ops, res1) \<Rightarrow>
                    let s1 = upd i (\<lambda>c. c\<lparr>hc_req := None, hc_res := None\<rparr>) (fold (out_call i) ops (upd i (\<lambda>c. c\<lparr>hc_req := Some req\<rparr>) s))
                    in if rs_status_code res1 = 101 then (False, upgrade_ws a i s1)
                       else if \<not> hc_keep_alive (sv_conn s1 i) then (False, conn_shutdown i s1)
                       else (hc_header (sv_conn s1 i) \<noteq> [], s1))
      | _ \<Rightarrow> (False, s))"

text \<open>What happens to \<open>bs\<close>, received while the header is read.\<close>

definition on_header :: "'d fp \<Rightarrow> 'd app \<Rightarrow> (nat \<Rightarrow> req_mem) \<Rightarrow> nat \<Rightarrow> byte list \<Rightarrow> 'd HttpServer \<Rightarrow> bool \<times> 'd HttpServer" where
  "on_header F a rm i bs s =
     (let buf = hc_header (sv_conn s i) @ bs; mem = rm (sv_requests s)
      in if length buf \<ge> 8192 then (False, refuse i 431 s)
         else let s1 = upd i (\<lambda>c. c\<lparr>hc_header := buf\<rparr>) s
              in case strstr (c_str buf) (crlf @ crlf) of
                   None \<Rightarrow> (True, s1)
                 | Some header_end \<Rightarrow>
                     let s2 = s1\<lparr>sv_requests := sv_requests s1 + 1\<rparr>
                     in (case parse_request mem (c_str buf) header_end of
                           Inl Refuse_close \<Rightarrow> (False, conn_shutdown i s2)
                         | Inl (Refuse code) \<Rightarrow> (False, refuse i code s2)
                         | Inr (req, keep_alive, content_length) \<Rightarrow>
                             let res = \<lparr>rs_status_code = 200, rs_headers = [], rs_conn = True, rs_head = False, rs_open = hc_open (sv_conn s i)\<rparr>;
                                 rest = drop (header_end + 4) buf;
                                 s3 = upd i (\<lambda>c. c\<lparr>hc_keep_alive := keep_alive, hc_res := Some res\<rparr>) s2
                             in if content_length = 0
                                then handle_request F a mem i (upd i (\<lambda>c. c\<lparr>hc_req := Some req, hc_header := rest\<rparr>) s3)
                                else if \<not> rm_body mem then (False, conn_shutdown i (upd i (\<lambda>c. c\<lparr>hc_req := Some req\<rparr>) s3))
                                else let to_copy = min (length rest) content_length;
                                         s4 = upd i (\<lambda>c. c\<lparr>hc_req := Some (req\<lparr>rq_body := Some (take to_copy rest)\<rparr>),
                                                           hc_header := drop to_copy rest\<rparr>) s3
                                     in if to_copy < content_length
                                        then (True, upd i (\<lambda>c. c\<lparr>hc_state := HTTP_STATE_READ_BODY, hc_body_read := to_copy\<rparr>) s4)
                                        else handle_request F a mem i s4))"

text \<open>What happens to \<open>bs\<close>, received while the body is read.\<close>

definition on_body :: "'d fp \<Rightarrow> 'd app \<Rightarrow> (nat \<Rightarrow> req_mem) \<Rightarrow> nat \<Rightarrow> byte list \<Rightarrow> 'd HttpServer \<Rightarrow> bool \<times> 'd HttpServer" where
  "on_body F a rm i bs s =
     (case hc_req (sv_conn s i) of None \<Rightarrow> (False, s)
      | Some req \<Rightarrow>
          let got = (case rq_body req of None \<Rightarrow> [] | Some b \<Rightarrow> b) @ bs;
              s1 = upd i (\<lambda>c. c\<lparr>hc_req := Some (req\<lparr>rq_body := Some got\<rparr>), hc_body_read := length got\<rparr>) s
          in if length got < rq_body_len req then (True, s1)
             else handle_request F a (rm (sv_requests s - 1)) i
                    (upd i (\<lambda>c. c\<lparr>hc_state := HTTP_STATE_READ_HEADER, hc_body_read := 0\<rparr>) s1))"

text \<open>The room for WebSocket input; \<open>False\<close> closes the connection.\<close>

definition ws_room :: "nat \<Rightarrow> 'd HttpServer \<Rightarrow> bool \<times> 'd HttpServer" where
  "ws_room i s =
     (case (if hc_ws_in_cap (sv_conn s i) = 0
            then (case ask_mem s of (ok, s1) \<Rightarrow> (ok, upd i (\<lambda>c. c\<lparr>hc_ws_in_cap := 8192\<rparr>) s1)) else (True, s)) of
        (ok, s1) \<Rightarrow>
          let c = sv_conn s1 i
          in if \<not> ok then (False, s1)
             else if length (hc_ws_in c) \<noteq> hc_ws_in_cap c then (True, s1)
             else let new_cap = hc_ws_in_cap c * 2
                  in if new_cap > MAX_WS_PAYLOAD_SIZE + 4096 \<and> hc_ws_in_cap c \<ge> MAX_WS_PAYLOAD_SIZE + 4096 then (False, s1)
                     else (case ask_mem s1 of (ok, s2) \<Rightarrow>
                             if ok then (True, upd i (\<lambda>c. c\<lparr>hc_ws_in_cap := min new_cap (MAX_WS_PAYLOAD_SIZE + 4096)\<rparr>) s2)
                             else (False, s2)))"

definition on_ws_bytes :: "'d app \<Rightarrow> nat \<Rightarrow> byte list \<Rightarrow> 'd HttpServer \<Rightarrow> bool \<times> 'd HttpServer" where
  "on_ws_bytes a i bs s =
     (let inp = hc_ws_in (sv_conn s i) @ bs
      in case process_ws_frames a i inp (set_ws_in i inp s) of (ok, s1) \<Rightarrow> (ok \<and> \<not> conn_down (sv_conn s1 i), s1))"

definition rx_size :: "rx list \<Rightarrow> nat" where
  "rx_size rx = sum_list (map (\<lambda>r. case r of Rx_data bs \<Rightarrow> Suc (length bs) | Rx_none _ _ \<Rightarrow> 1) rx)"

lemma recv_once_size:
  "recv_once len rx = (R_data bs, rx1) \<Longrightarrow> 0 < len \<Longrightarrow> rx_size rx1 < rx_size rx"
  "recv_once len rx = (R_intr, rx1) \<Longrightarrow> rx_size rx1 < rx_size rx"
  by (cases "(len, rx)" rule: recv_once.cases; auto simp: rx_size_def split: if_splits)+

text \<open>The loop of \<^verbatim>\<open>HttpConnection_on_readable\<close>; every turn is one \<^verbatim>\<open>recv\<close>. \<open>want\<close> is the number of bytes asked for and \<open>take_in\<close> what is done
  with them.\<close>

definition want :: "'d HttpConnection \<Rightarrow> nat" where
  "want c = (if hc_mode c = CONN_MODE_WS then hc_ws_in_cap c - length (hc_ws_in c)
             else if hc_state c = HTTP_STATE_READ_HEADER then 4095
             else min 4096 ((case hc_req c of None \<Rightarrow> 0 | Some req \<Rightarrow> rq_body_len req) - hc_body_read c))"

definition take_in :: "'d fp \<Rightarrow> 'd app \<Rightarrow> (nat \<Rightarrow> req_mem) \<Rightarrow> nat \<Rightarrow> byte list \<Rightarrow> 'd HttpServer \<Rightarrow> bool \<times> 'd HttpServer" where
  "take_in F a rm i bs s =
     (if hc_mode (sv_conn s i) = CONN_MODE_WS then on_ws_bytes a i bs s
      else if hc_state (sv_conn s i) = HTTP_STATE_READ_HEADER then on_header F a rm i bs s
      else on_body F a rm i bs s)"

function readable_loop :: "'d fp \<Rightarrow> 'd app \<Rightarrow> (nat \<Rightarrow> req_mem) \<Rightarrow> nat \<Rightarrow> rx list \<Rightarrow> 'd HttpServer \<Rightarrow> 'd HttpServer \<times> rx list" where
  "readable_loop F a rm i rx s =
     (case (if hc_mode (sv_conn s i) = CONN_MODE_WS then ws_room i s else (True, s)) of
        (ok, s1) \<Rightarrow>
          if \<not> ok then (conn_shutdown i s1, rx)
          else if want (sv_conn s1 i) = 0 then (s1, rx)
          else case recv_once (want (sv_conn s1 i)) rx of
                 (R_block, rx1) \<Rightarrow> (s1, rx1)
               | (R_closed, rx1) \<Rightarrow> (conn_shutdown i s1, rx1)
               | (R_intr, rx1) \<Rightarrow> readable_loop F a rm i rx1 s1
               | (R_data bs, rx1) \<Rightarrow>
                   (case take_in F a rm i bs s1 of (go, s2) \<Rightarrow>
                      if go then readable_loop F a rm i rx1 s2 else (s2, rx1)))"
  by pat_completeness auto
termination
  by (relation "measure (\<lambda>(_, _, _, _, rx, _). rx_size rx)") (auto dest: recv_once_size [OF sym])

declare readable_loop.simps [simp del]

definition HttpConnection_on_readable :: "'d fp \<Rightarrow> 'd app \<Rightarrow> (nat \<Rightarrow> req_mem) \<Rightarrow> nat \<Rightarrow> rx list \<Rightarrow> 'd HttpServer \<Rightarrow> 'd HttpServer \<times> rx list" where
  "HttpConnection_on_readable F a rm i rx s =
     (if conn_down (sv_conn s i) then (s, rx) else readable_loop F a rm i rx s)"

section \<open>The server\<close>

definition new_HttpServer :: "bool \<Rightarrow> (nat \<Rightarrow> 'd HttpConnection) \<Rightarrow> bool \<Rightarrow> 'd HttpServer option" where
  "new_HttpServer mem none running =
     (if mem then Some \<lparr>sv_conn = none, sv_conns = [], sv_sock = False, sv_shutting_down = False, sv_drain_count = 0,
        sv_shutdown_started_ms = 0, sv_timer = False, sv_running = running, sv_on_ws_close = False, sv_released = [], sv_ws_closed = [],
        sv_removes = [], sv_modifies = [], sv_mem = [], sv_requests = 0\<rparr>
      else None)"

text \<open>\<^verbatim>\<open>impl_listen\<close>: whether the socket could be made and added to the loop.\<close>

definition impl_listen :: "bool \<Rightarrow> bool \<Rightarrow> 'd HttpServer \<Rightarrow> int \<times> 'd HttpServer" where
  "impl_listen made added s =
     (if \<not> made then (- 1, s\<lparr>sv_sock := False\<rparr>) else if \<not> added then (- 1, s\<lparr>sv_sock := False\<rparr>) else (0, s\<lparr>sv_sock := True\<rparr>))"

definition HttpServer_impl_stop :: "'d HttpServer \<Rightarrow> 'd HttpServer" where
  "HttpServer_impl_stop s = s\<lparr>sv_running := False\<rparr>"

text \<open>The accept loop of \<^verbatim>\<open>on_accept_cb\<close>: for every client the number of its object (or no memory for it) and whether the loop
  takes its socket.\<close>

fun accept_loop :: "(nat option \<times> bool) list \<Rightarrow> 'd HttpServer \<Rightarrow> 'd HttpServer" where
  "accept_loop [] s = s"
| "accept_loop ((mem, added) # cs) s =
     accept_loop cs
       (case mem of None \<Rightarrow> s
        | Some i \<Rightarrow>
            (case new_HttpConnection True of None \<Rightarrow> s
             | Some c \<Rightarrow>
                 if \<not> added then s
                 else (upd i (\<lambda>_. c) s)\<lparr>sv_conns := i # sv_conns s\<rparr>))"

definition on_accept_cb :: "(nat option \<times> bool) list \<Rightarrow> 'd HttpServer \<Rightarrow> 'd HttpServer" where
  "on_accept_cb cs s =
     (if sv_shutting_down s then
        (case ask_remove s of (gone, s1) \<Rightarrow>
           if gone then HttpServer_maybe_finish_shutdown (s1\<lparr>sv_sock := False\<rparr>) else s1)
      else accept_loop cs s)"

section \<open>Graceful shutdown\<close>

fun force_close :: "nat list \<Rightarrow> 'd HttpServer \<Rightarrow> 'd HttpServer" where
  "force_close [] s = s"
| "force_close (i # is) s =
     force_close is (let s1 = upd i (\<lambda>c. c\<lparr>hc_out := []\<rparr>) s in if hc_shutdown_done (sv_conn s1 i) then s1 else conn_shutdown i s1)"

definition on_shutdown_retry_tick :: "u64 \<Rightarrow> 'd HttpServer \<Rightarrow> 'd HttpServer" where
  "on_shutdown_retry_tick now s =
     (if \<not> sv_shutting_down s then s
      else let s1 = (if now - sv_shutdown_started_ms s > 5000 then force_close (sv_conns s) s else s)
           in HttpServer_maybe_finish_shutdown (HttpServer_sweep_closing s1))"

definition HttpServer_drain_retain :: "'d HttpServer \<Rightarrow> 'd HttpServer" where
  "HttpServer_drain_retain s = s\<lparr>sv_drain_count := sv_drain_count s + 1\<rparr>"

definition HttpServer_drain_release :: "'d HttpServer \<Rightarrow> 'd HttpServer" where
  "HttpServer_drain_release s =
     (let s1 = s\<lparr>sv_drain_count := sv_drain_count s - 1\<rparr>
      in if sv_shutting_down s1 then HttpServer_maybe_finish_shutdown (HttpServer_sweep_closing s1) else s1)"

fun begin_close :: "nat list \<Rightarrow> 'd HttpServer \<Rightarrow> 'd HttpServer" where
  "begin_close [] s = s"
| "begin_close (i # is) s =
     begin_close is
       (if hc_mode (sv_conn s i) = CONN_MODE_WS then HttpConnection_ws_close i s
        else conn_shutdown i (upd i (\<lambda>c. c\<lparr>hc_is_closing := True, hc_keep_alive := False\<rparr>) s))"

text \<open>\<open>timer\<close>: whether the timer could be made, added and started.\<close>

definition HttpServer_begin_shutdown :: "bool \<times> bool \<times> bool \<Rightarrow> u64 \<Rightarrow> 'd HttpServer \<Rightarrow> int \<times> 'd HttpServer" where
  "HttpServer_begin_shutdown timer now s =
     (case timer of (made, added, started) \<Rightarrow>
        if sv_shutting_down s then (0, s)
        else if \<not> made \<or> \<not> added \<or> \<not> started then (- 1, s\<lparr>sv_shutdown_started_ms := now, sv_timer := False\<rparr>)
        else let s1 = HttpServer_sweep_closing (s\<lparr>sv_shutting_down := True, sv_shutdown_started_ms := now, sv_timer := True\<rparr>)
             in (0, HttpServer_maybe_finish_shutdown (begin_close (sv_conns s1) s1)))"

end
