(* ===== verification/Multipart_Roundtrip.thy ===== *)
theory Multipart_Roundtrip
  imports Multipart Http_Bodies
begin

text \<open>
  Correctness of \<open>Multipart\<close>: what the writer sends has the length it announces, and the parser takes it apart into the
  fields and files it was made of, as long as the boundary does not occur in them and the names have no characters
  that the header line cannot carry.
\<close>

section \<open>Searching\<close>

lemma memmem_Nil: "needle \<noteq> [] \<Longrightarrow> memmem [] needle = None"
  by (simp add: memmem.simps)

text \<open>A byte that the needle does not have divides the haystack.\<close>

lemma memmem_sep:
  assumes "sep \<notin> set needle" "needle \<noteq> []"
  shows "memmem (xs @ sep # ys) needle =
    (case memmem xs needle of Some i \<Rightarrow> Some i | None \<Rightarrow> map_option (\<lambda>i. length xs + 1 + i) (memmem ys needle))"
proof (induction xs)
  case Nil
  obtain n ns where n: "needle = n # ns" "n \<noteq> sep" using assms by (cases needle) auto
  then have "memmem (sep # ys) needle = map_option Suc (memmem ys needle)" by (subst memmem.simps) simp
  then show ?case using assms(2) by (cases "memmem ys needle") (simp_all add: memmem_Nil)
next
  case (Cons x xs)
  have "take (length needle) ((x # xs) @ sep # ys) = needle \<longleftrightarrow> take (length needle) (x # xs) = needle"
  proof (cases "length needle \<le> length (x # xs)")
    case False
    then have "sep \<in> set (take (length needle) ((x # xs) @ sep # ys))"
      by (auto simp: take_Cons' split: if_splits)
    moreover have "length (take (length needle) (x # xs)) < length needle" using False by simp
    ultimately show ?thesis using assms(1) by (metis less_irrefl)
  next
    case True
    then have "take (length needle) ((x # xs) @ sep # ys) = take (length needle) (x # xs)"
      using take_append [of "length needle" "x # xs" "sep # ys"] by simp
    then show ?thesis by metis
  qed
  then show ?case
    using Cons.IH memmem.simps [of "(x # xs) @ sep # ys" needle] memmem.simps [of "x # xs" needle]
    by (cases "memmem ys needle") (auto simp: option.map_comp comp_def split: option.splits)
qed

lemma memmem_front:
  assumes "memmem (p @ d) d = Some (length p)"
  shows "memmem (p @ d @ r) d = Some (length p)"
proof (rule memmem_intro)
  fix j assume j: "j < length p"
  have "take (length d) (drop j (p @ d @ r)) = take (length d) (drop j (p @ d))" using j by simp
  then show "take (length d) (drop j (p @ d @ r)) \<noteq> d" using memmem_least [OF assms j] by metis
qed simp_all

lemma memmem_here: "memmem (d @ r) d = Some 0"
  by (simp add: memmem.simps)

section \<open>The parts of a body\<close>

definition wire :: "cstring \<Rightarrow> byte list list \<Rightarrow> byte list" where
  "wire b ps = concat (map (\<lambda>p. dashes @ b @ crlf @ p @ crlf) ps) @ dashes @ b @ dashes @ crlf"

definition clean :: "cstring \<Rightarrow> byte list \<Rightarrow> bool" where
  "clean b p \<longleftrightarrow> p \<noteq> [] \<and> memmem (p @ crlf @ dashes @ b) (crlf @ dashes @ b) = Some (length p)"

lemma wire_start: "\<exists>r. wire b ps = dashes @ b @ r"
  by (cases ps) (auto simp: wire_def)

fun process_parts :: "(nat \<Rightarrow> nat \<Rightarrow> bool) \<Rightarrow> nat \<Rightarrow> MultipartResult \<Rightarrow> byte list list \<Rightarrow> MultipartResult" where
  "process_parts mem i mp [] = mp"
| "process_parts mem i mp (p # ps) = process_parts mem (i + 1) (process_part (mem i) mp p) ps"

lemma parse_loop_step:
  assumes "clean b p" and "delim = (if first then dashes @ b else crlf @ dashes @ b)"
  shows "parse_loop mem b first i mp (delim @ crlf @ p @ crlf @ wire b ps)
    = parse_loop mem b False (i + 1) (process_part (mem i) mp p) (crlf @ wire b ps)"
proof -
  obtain r where r: "wire b ps = dashes @ b @ r" using wire_start by blast
  have "memmem (p @ crlf @ wire b ps) (crlf @ dashes @ b) = Some (length p)"
    using memmem_front [of p "crlf @ dashes @ b" r] assms(1) r by (simp add: clean_def)
  moreover have "memmem (delim @ crlf @ p @ crlf @ wire b ps) delim = Some 0" by (rule memmem_here)
  moreover have "delim @ crlf @ p @ crlf @ wire b ps \<noteq> []" by simp
  ultimately show ?thesis using assms
    by (subst parse_loop.simps) (simp add: Let_def skip_eol_def clean_def)
qed

lemma parse_loop_parts:
  "\<forall>p \<in> set ps. clean b p \<Longrightarrow> parse_loop mem b False i mp (crlf @ wire b ps) = process_parts mem i mp ps"
proof (induction ps arbitrary: i mp)
  case Nil
  have "memmem (crlf @ dashes @ b @ dashes @ crlf) (crlf @ dashes @ b) = Some 0"
    using memmem_here [of "crlf @ dashes @ b" "dashes @ crlf"] by simp
  then show ?case by (subst parse_loop.simps) (simp add: wire_def Let_def)
next
  case (Cons p ps)
  have "crlf @ wire b (p # ps) = (crlf @ dashes @ b) @ crlf @ p @ crlf @ wire b ps" by (simp add: wire_def)
  with parse_loop_step [of b p "crlf @ dashes @ b" False mem i mp ps] Cons show ?case by simp
qed

lemma parse_wire:
  assumes "\<forall>p \<in> set ps. clean b p"
  shows "parse_loop mem b True i mp (wire b ps) = process_parts mem i mp ps"
proof (cases ps)
  case Nil
  have "memmem (dashes @ b @ dashes @ crlf) (dashes @ b) = Some 0"
    using memmem_here [of "dashes @ b" "dashes @ crlf"] by simp
  with Nil show ?thesis by (subst parse_loop.simps) (simp add: wire_def Let_def)
next
  case (Cons p ps')
  have "wire b (p # ps') = (dashes @ b) @ crlf @ p @ crlf @ wire b ps'" by (simp add: wire_def)
  with parse_loop_step [of b p "dashes @ b" True mem i mp ps'] parse_loop_parts [of ps' b] Cons assms show ?thesis by simp
qed

section \<open>Header lines\<close>

definition word_ok :: "cstring \<Rightarrow> bool" where
  "word_ok k \<longleftrightarrow> k \<noteq> [] \<and> 0 \<notin> set k \<and> 34 \<notin> set k \<and> 13 \<notin> set k \<and> strcasestr k (lit ''filename='') = None
     \<and> strcasestr k (lit ''Content-Type:'') = None"

lemma lower_quote: "c_tolower 34 = 34"
  by (simp add: c_tolower_def)

lemmas header_simps = disposition_def strcasestr_def lower_quote memmem_sep [where sep = 34]

definition dispo_low :: cstring where
  "dispo_low = map c_tolower (lit ''Content-Disposition: form-data; name='')"

lemma dispo_facts:
  "memmem dispo_low (map c_tolower (lit ''filename='')) = None"
  "memmem dispo_low (map c_tolower (lit ''Content-Type:'')) = None"
  "length dispo_low = 37"
  by (simp_all add: dispo_low_def lit_def c_tolower_def memmem.simps)

lemma search_name: "param_search (disposition k @ r) (lit ''name='') 0 = Some 37"
proof -
  have "strcasestr (disposition k @ r) (lit ''name='') = Some 32"
    by (simp add: disposition_def strcasestr_def lit_def c_tolower_def memmem.simps)
  then show ?thesis by (subst param_search.simps) (simp add: disposition_def lit_def)
qed

lemma extract_name:
  assumes "word_ok k"
  shows "extract_param True (disposition k @ r) (lit ''name'') = Some k"
proof -
  have "param_search (disposition k @ r) (snprintf 64 (lit ''name'' @ lit ''='')) 0 = Some 37"
    using search_name by (simp add: snprintf_def lit_def)
  moreover have "drop 37 (disposition k @ r) = 34 # k @ 34 # r" by (simp add: disposition_def lit_def)
  moreover have "takeWhile (\<lambda>c. c \<noteq> 34) (k @ 34 # r) = k" using assms by (simp add: word_ok_def takeWhile_append)
  ultimately show ?thesis using assms by (simp add: extract_param_def param_value_def word_ok_def)
qed

lemma no_filename:
  assumes "word_ok k"
  shows "extract_param mem (disposition k) (lit ''filename'') = None"
proof -
  have "map c_tolower (disposition k) = dispo_low @ 34 # map c_tolower k @ 34 # []"
    by (simp add: disposition_def dispo_low_def lower_quote)
  moreover have "34 \<notin> set (map c_tolower (lit ''filename=''))" "map c_tolower (lit ''filename='') \<noteq> []"
    by (simp_all add: lit_def c_tolower_def)
  ultimately have "strcasestr (disposition k) (lit ''filename='') = None"
    using assms dispo_facts(1) by (simp add: strcasestr_def memmem_sep memmem_Nil word_ok_def)
  then show ?thesis by (subst extract_param_def, subst param_search.simps) (simp add: snprintf_def lit_def)
qed

definition file_header :: "cstring \<Rightarrow> cstring \<Rightarrow> cstring \<Rightarrow> cstring" where
  "file_header k fname mime = disposition k @ lit ''; filename='' @ [34] @ fname @ [34] @ crlf @ lit ''Content-Type: '' @ mime"

lemma file_header_low:
  "map c_tolower (file_header k fname mime) = dispo_low @ 34 # map c_tolower k @ 34 # map c_tolower (lit ''; filename='')
     @ 34 # map c_tolower fname @ 34 # crlf @ map c_tolower (lit ''Content-Type: '' @ mime)"
  by (simp add: file_header_def disposition_def dispo_low_def lower_quote) (simp add: c_tolower_def)

lemma extract_filename:
  assumes "word_ok k" "word_ok fname"
  shows "extract_param True (file_header k fname mime) (lit ''filename'') = Some fname"
proof -
  let ?n = "map c_tolower (lit ''filename='')"
  have n: "34 \<notin> set ?n" "?n \<noteq> []" by (simp_all add: lit_def c_tolower_def)
  have "memmem (map c_tolower (lit ''; filename='') @ 34 # r) ?n = Some 2" for r
    by (simp add: lit_def c_tolower_def memmem.simps)
  then have s: "strcasestr (file_header k fname mime) (lit ''filename='') = Some (length dispo_low + 1 + (length k + 1 + 2))"
    using assms(1) dispo_facts(1) n by (simp add: strcasestr_def file_header_low memmem_sep [OF n] word_ok_def)
  let ?i = "length dispo_low + 1 + (length k + 1 + 2)"
  have pre: "file_header k fname mime = (lit ''Content-Disposition: form-data; name='' @ [34] @ k @ [34] @ [59]) @ 32 # lit ''filename='' @ [34] @ fname @ [34] @ crlf @ lit ''Content-Type: '' @ mime"
    by (simp add: file_header_def disposition_def lit_def)
  have l: "length (lit ''Content-Disposition: form-data; name='' @ [34] @ k @ [34] @ [59]) = ?i - 1"
    by (simp add: dispo_facts(3) lit_def)
  have b: "file_header k fname mime ! (?i - 1) = 32" unfolding pre l [symmetric] by (simp only: nth_append_length)
  have d: "drop (?i + 9) (file_header k fname mime) = 34 # fname @ 34 # crlf @ lit ''Content-Type: '' @ mime"
  proof -
    let ?a = "lit ''Content-Disposition: form-data; name='' @ [34] @ k @ [34] @ [59, 32] @ lit ''filename=''"
    have "file_header k fname mime = ?a @ 34 # fname @ 34 # crlf @ lit ''Content-Type: '' @ mime" by (simp add: pre)
    moreover have "length ?a = ?i + 9" by (simp add: dispo_facts(3)) (simp add: lit_def)
    ultimately show ?thesis by (metis append_eq_conv_conj)
  qed
  have "param_search (file_header k fname mime) (lit ''filename='') 0 = Some (?i + 9)"
    using s b by (subst param_search.simps) (simp add: Let_def lit_def)
  moreover have "snprintf 64 (lit ''filename'' @ lit ''='') = lit ''filename=''" by (simp add: snprintf_def lit_def)
  moreover have "takeWhile (\<lambda>c. c \<noteq> 34) (fname @ 34 # r) = fname" for r using assms(2) by (simp add: word_ok_def takeWhile_append)
  ultimately show ?thesis using assms(2) d by (simp add: extract_param_def param_value_def word_ok_def)
qed

definition mime_ok :: "cstring \<Rightarrow> bool" where
  "mime_ok m \<longleftrightarrow> m \<noteq> [] \<and> hd m \<noteq> 32 \<and> hd m \<noteq> 9 \<and> 0 \<notin> set m \<and> 10 \<notin> set m \<and> 13 \<notin> set m"

lemma extract_mime:
  assumes "word_ok k" "word_ok fname" "mime_ok mime"
  shows "extract_content_type True (file_header k fname mime) = Some mime"
proof -
  let ?n = "map c_tolower (lit ''Content-Type:'')"
  have n: "34 \<notin> set ?n" "?n \<noteq> []" by (simp_all add: lit_def c_tolower_def)
  have f: "memmem (map c_tolower (lit ''; filename='')) ?n = None"
    by (simp add: lit_def c_tolower_def memmem.simps)
  have c: "memmem (crlf @ map c_tolower (lit ''Content-Type: '' @ mime)) ?n = Some 2"
    by (simp add: lit_def c_tolower_def memmem.simps)
  let ?i = "length (disposition k @ lit ''; filename='' @ [34] @ fname @ [34] @ crlf)"
  have "strcasestr (file_header k fname mime) (lit ''Content-Type:'') = Some ?i"
    using assms(1,2) dispo_facts f c
    by (simp add: strcasestr_def file_header_low memmem_sep [OF n] word_ok_def disposition_def) (simp add: lit_def)
  moreover have "drop (?i + 13) (file_header k fname mime) = 32 # mime"
  proof -
    let ?a = "disposition k @ lit ''; filename='' @ [34] @ fname @ [34] @ crlf @ lit ''Content-Type:''"
    have "file_header k fname mime = ?a @ 32 # mime" by (simp add: file_header_def) (simp add: lit_def)
    moreover have "length ?a = ?i + 13" by simp (simp add: lit_def)
    ultimately show ?thesis by (metis append_eq_conv_conj)
  qed
  moreover have "dropWhile (\<lambda>c. c = 32 \<or> c = 9) (32 # mime) = mime" using assms(3) by (cases mime) (auto simp: mime_ok_def)
  moreover have "takeWhile (\<lambda>c. c \<noteq> 13 \<and> c \<noteq> 10) mime = mime" using assms(3) by (auto simp: mime_ok_def takeWhile_eq_all_conv)
  moreover have "mime \<noteq> []" using assms(3) by (simp add: mime_ok_def)
  ultimately show ?thesis unfolding extract_content_type_def by (simp only: option.case Let_def) simp
qed

section \<open>Parts\<close>

lemma memmem_skip: "x \<noteq> n \<Longrightarrow> memmem (x # xs) (n # ns) = map_option Suc (memmem xs (n # ns))"
  by (subst memmem.simps) simp

lemma memmem_prefix: "n \<notin> set xs \<Longrightarrow> memmem (xs @ ys) (n # ns) = map_option (\<lambda>i. length xs + i) (memmem ys (n # ns))"
proof (induction xs)
  case (Cons x xs)
  then show ?case by (cases "memmem ys (n # ns)") (auto simp: memmem_skip)
qed (cases "memmem ys (n # ns)", simp_all)

lemma disposition_plain: "word_ok k \<Longrightarrow> 13 \<notin> set (disposition k) \<and> 0 \<notin> set (disposition k)"
  by (simp add: disposition_def word_ok_def lit_def)

lemma c_str_clean: "0 \<notin> set s \<Longrightarrow> c_str s = s"
  by (simp add: c_str_def takeWhile_eq_all_conv) metis

definition field_part :: "cstring \<Rightarrow> cstring \<Rightarrow> byte list" where
  "field_part k v = disposition k @ crlf @ crlf @ v"

definition file_part :: "cstring \<Rightarrow> cstring \<Rightarrow> cstring \<Rightarrow> byte list \<Rightarrow> byte list" where
  "file_part k fname mime d = file_header k fname mime @ crlf @ crlf @ d"

lemma process_field_part:
  assumes "word_ok k" "0 \<notin> set v"
  shows "process_part (\<lambda>_. True) mp (field_part k v) = mp\<lparr>mp_fields := mp_fields mp @ [(k, v)]\<rparr>"
proof -
  have "memmem (field_part k v) (crlf @ crlf) = Some (length (disposition k))"
    using disposition_plain [OF assms(1)] memmem_here [of "[13, 10, 13, 10]" v] by (simp add: field_part_def memmem_prefix)
  moreover have "c_str (disposition k) = disposition k" using disposition_plain [OF assms(1)] by (simp add: c_str_clean)
  moreover have "extract_param True (disposition k) (lit ''name'') = Some k" using extract_name [OF assms(1), of "[]"] by simp
  ultimately show ?thesis using no_filename [OF assms(1)] assms(2)
    by (simp add: process_part_def field_part_def Let_def c_str_clean)
qed

lemma process_file_part:
  assumes "word_ok k" "word_ok fname" "mime_ok mime" "d \<noteq> []"
  shows "process_part (\<lambda>_. True) mp (file_part k fname mime d) = mp\<lparr>mp_files := mp_files mp @ [(k,
    \<lparr>mf_filename = Some fname, mf_content_type = Some mime, mf_data = Some d, mf_size = length d\<rparr>)]\<rparr>"
proof -
  let ?a = "disposition k @ lit ''; filename='' @ [34] @ fname @ [34]" and ?b = "lit ''Content-Type: '' @ mime"
  have a: "13 \<notin> set ?a" "0 \<notin> set ?a" using disposition_plain [OF assms(1)] assms(2) by (simp_all add: word_ok_def lit_def)
  have b: "13 \<notin> set ?b" "0 \<notin> set ?b" using assms(3) by (simp_all add: mime_ok_def lit_def)
  have h: "file_header k fname mime = ?a @ crlf @ ?b" by (simp add: file_header_def)
  have "memmem (crlf @ ?b @ crlf @ crlf @ d) (crlf @ crlf) = Some (length (crlf @ ?b))"
    using b memmem_here [of "[13, 10, 13, 10]" d] memmem_prefix [of 13 ?b "[13, 10, 13, 10] @ d" "[10, 13, 10]"]
    by (subst memmem.simps) (simp add: memmem_skip lit_def)
  then have "memmem (file_part k fname mime d) (crlf @ crlf) = Some (length (file_header k fname mime))"
    using a memmem_prefix [of 13 ?a "crlf @ ?b @ crlf @ crlf @ d" "[10, 13, 10]"] by (simp add: file_part_def h)
  moreover have "c_str (file_header k fname mime) = file_header k fname mime" using a b by (simp add: h c_str_clean)
  moreover have "extract_param True (file_header k fname mime) (lit ''name'') = Some k"
    using extract_name [OF assms(1)] by (simp add: file_header_def)
  ultimately show ?thesis using extract_filename [OF assms(1,2), of mime] extract_mime [OF assms(1-3)] assms(4)
    by (simp add: process_part_def file_part_def Let_def new_HttpMultipartFile_def)
qed

type_synonym upload = "cstring \<times> cstring \<times> cstring \<times> byte list"

fun upload_file :: "upload \<Rightarrow> cstring \<times> HttpMultipartFile" where
  "upload_file (k, fname, mime, d) =
     (k, \<lparr>mf_filename = Some fname, mf_content_type = Some mime, mf_data = Some d, mf_size = length d\<rparr>)"

fun field_ok :: "cstring \<Rightarrow> cstring \<times> cstring \<Rightarrow> bool" where
  "field_ok b (k, v) \<longleftrightarrow> word_ok k \<and> 0 \<notin> set v \<and> clean b (field_part k v) \<and> length (field_text b k v) < 2048"

fun file_ok :: "cstring \<Rightarrow> upload \<Rightarrow> bool" where
  "file_ok b (k, fname, mime, d) \<longleftrightarrow> word_ok k \<and> word_ok fname \<and> 10 \<notin> set fname \<and> 92 \<notin> set fname \<and> mime_ok mime \<and> d \<noteq> []
     \<and> clean b (file_part k fname mime d) \<and> length (file_head b k fname mime) < 2048"

abbreviation parts_of :: "(cstring \<times> cstring) list \<Rightarrow> upload list \<Rightarrow> byte list list" where
  "parts_of flds files \<equiv> map (\<lambda>(k, v). field_part k v) flds @ map (\<lambda>(k, fname, mime, d). file_part k fname mime d) files"

lemma process_parts_append:
  "process_parts (\<lambda>_ _. True) i mp (ps @ qs) = process_parts (\<lambda>_ _. True) (i + length ps) (process_parts (\<lambda>_ _. True) i mp ps) qs"
  by (induction ps arbitrary: i mp) simp_all

lemma process_fields:
  "\<forall>f \<in> set flds. field_ok b f \<Longrightarrow> process_parts (\<lambda>_ _. True) i mp (map (\<lambda>(k, v). field_part k v) flds)
     = mp\<lparr>mp_fields := mp_fields mp @ flds\<rparr>"
  by (induction flds arbitrary: i mp) (auto simp: process_field_part)

lemma process_files:
  "\<forall>f \<in> set files. file_ok b f \<Longrightarrow> process_parts (\<lambda>_ _. True) i mp (map (\<lambda>(k, fname, mime, d). file_part k fname mime d) files)
     = mp\<lparr>mp_files := mp_files mp @ map upload_file files\<rparr>"
  by (induction files arbitrary: i mp) (auto simp: process_file_part)

lemma parse_form:
  assumes "\<forall>f \<in> set flds. field_ok b f" "\<forall>f \<in> set files. file_ok b f" "b \<noteq> []"
  shows "Multipart_parse True (\<lambda>_ _. True) (wire b (parts_of flds files)) b
    = Some \<lparr>mp_fields = flds, mp_files = map upload_file files\<rparr>"
proof -
  have "\<forall>p \<in> set (parts_of flds files). clean b p" using assms(1,2) by auto
  moreover have "wire b (parts_of flds files) \<noteq> []" using wire_start [of b "parts_of flds files"] by auto
  ultimately show ?thesis using parse_wire assms(3)
    by (simp add: Multipart_parse_def process_parts_append process_fields [OF assms(1)] process_files [OF assms(2)])
qed

section \<open>Sending\<close>

lemma send_loop_all: "send_loop tx buf = (True, s, tx1) \<Longrightarrow> s = buf"
  by (induction tx buf arbitrary: s tx1 rule: send_loop.induct) (auto split: if_splits prod.splits)

abbreviation sent :: "HttpTransport \<Rightarrow> byte list" where "sent t \<equiv> so_sent (ht_sock t)"

lemma send_all: "HttpTransport_send t bs = (True, t1) \<Longrightarrow> sent t1 = sent t @ bs"
  by (auto simp: HttpTransport_send_def dest: send_loop_all split: prod.splits)

lemma send_bytes_ok: "send_bytes True bs tot t = W_ok n t1 \<Longrightarrow> n = tot \<and> sent t1 = sent t @ bs"
  by (auto simp: send_bytes_def dest: send_all split: prod.splits if_splits)

lemma send_text_ok:
  "send_text True txt tot t = W_ok n t1 \<Longrightarrow> length txt < 2048 \<Longrightarrow> n = tot + length txt \<and> sent t1 = sent t @ txt"
  by (auto simp: send_text_def buf_bytes_def dest: send_bytes_ok)

abbreviation form_map :: "(cstring \<times> cstring) list \<Rightarrow> form_data" where
  "form_map flds \<equiv> map (\<lambda>(k, v). (k, Some v)) flds"

abbreviation file_map :: "upload list \<Rightarrow> file_data" where
  "file_map files \<equiv> map (\<lambda>f. apsnd Some (upload_file f)) files"

definition fields_text :: "cstring \<Rightarrow> (cstring \<times> cstring) list \<Rightarrow> byte list" where
  "fields_text b flds = concat (map (\<lambda>(k, v). field_text b k v) flds)"

definition files_text :: "cstring \<Rightarrow> upload list \<Rightarrow> byte list" where
  "files_text b files = concat (map (\<lambda>(k, fname, mime, d). file_head b k fname mime @ d @ crlf) files)"

lemma write_fields_sent:
  "write_fields True b (form_map flds) tot t = W_ok n t1 \<Longrightarrow> \<forall>f \<in> set flds. field_ok b f
     \<Longrightarrow> n = tot + length (fields_text b flds) \<and> sent t1 = sent t @ fields_text b flds"
proof (induction flds arbitrary: tot t)
  case (Cons f flds)
  obtain k v where f: "f = (k, v)" by (cases f) auto
  from Cons.prems(1) obtain n1 t2 where 1: "send_text True (field_text b k v) tot t = W_ok n1 t2"
    "write_fields True b (form_map flds) n1 t2 = W_ok n t1"
    by (auto simp: f split: write_result.splits)
  with send_text_ok [OF 1(1)] Cons.IH [OF 1(2)] Cons.prems(2) show ?case by (simp add: f fields_text_def)
qed (simp add: fields_text_def)

lemma write_fields_length: "write_fields False b (form_map flds) tot t = W_ok (tot + length (fields_text b flds)) t"
  by (induction flds arbitrary: tot) (auto simp: fields_text_def send_text_def)

lemma escape_plain: "word_ok fname \<Longrightarrow> 10 \<notin> set fname \<Longrightarrow> 92 \<notin> set fname \<Longrightarrow> multipart_filename_escape True (Some fname) = Encoded fname"
proof -
  assume "word_ok fname" "10 \<notin> set fname" "92 \<notin> set fname"
  then have "34 \<notin> set fname" "13 \<notin> set fname" "10 \<notin> set fname" "92 \<notin> set fname" by (simp_all add: word_ok_def)
  then have "concat (map filename_escape_char fname) = fname"
    by (induction fname) (auto simp: filename_escape_char_def)
  then show ?thesis by (simp add: filename_escape_ok)
qed

lemma write_file_sent:
  assumes "write_file fs True True b k (snd (upload_file (k, fname, mime, d))) tot t = W_ok n t1" "file_ok b (k, fname, mime, d)"
  shows "n = tot + length (files_text b [(k, fname, mime, d)]) \<and> sent t1 = sent t @ files_text b [(k, fname, mime, d)]"
  using assms escape_plain [of fname]
  by (auto simp: write_file_def files_text_def Let_def dest!: send_text_ok send_bytes_ok send_all
      split: write_result.splits option.splits prod.splits if_splits)

lemma write_file_length:
  "file_ok b (k, fname, mime, d) \<Longrightarrow> write_file fs True False b k (snd (upload_file (k, fname, mime, d))) tot t
     = W_ok (tot + length (files_text b [(k, fname, mime, d)])) t"
  using escape_plain [of fname] by (simp add: write_file_def files_text_def send_text_def send_bytes_def)

lemma files_text_Cons: "files_text b (f # files) = files_text b [f] @ files_text b files"
  by (simp add: files_text_def)

lemma write_files_sent:
  "write_files fs (\<lambda>_. True) i True b (file_map files) tot t = W_ok n t1 \<Longrightarrow> \<forall>f \<in> set files. file_ok b f
     \<Longrightarrow> n = tot + length (files_text b files) \<and> sent t1 = sent t @ files_text b files"
proof (induction files arbitrary: tot t i)
  case Nil
  then show ?case by (simp add: files_text_def)
next
  case (Cons f files)
  obtain k fname mime d where f: "f = (k, fname, mime, d)" by (cases f) auto
  from Cons.prems(1) obtain n1 t2 where 1: "write_file fs True True b k (snd (upload_file f)) tot t = W_ok n1 t2"
    "write_files fs (\<lambda>_. True) (i + 1) True b (file_map files) n1 t2 = W_ok n t1"
    by (auto simp: f split: write_result.splits)
  from write_file_sent [of fs b k fname mime d] 1(1) Cons.prems(2)
  have "n1 = tot + length (files_text b [f]) \<and> sent t2 = sent t @ files_text b [f]" by (simp add: f)
  moreover have "n = n1 + length (files_text b files) \<and> sent t1 = sent t2 @ files_text b files"
    using Cons.IH [OF 1(2)] Cons.prems(2) by simp
  ultimately show ?case by (subst (1 2) files_text_Cons) simp
qed

lemma write_files_length:
  "\<forall>f \<in> set files. file_ok b f \<Longrightarrow> write_files fs (\<lambda>_. True) i False b (file_map files) tot t = W_ok (tot + length (files_text b files)) t"
proof (induction files arbitrary: tot i)
  case (Cons f files)
  obtain k fname mime d where f: "f = (k, fname, mime, d)" by (cases f) auto
  with write_file_length [of b k fname mime d fs tot t] Cons show ?case
    by (subst files_text_Cons) (simp add: f)
qed (simp add: files_text_def)

lemma wire_texts: "fields_text b flds @ files_text b files @ dashes @ b @ dashes @ crlf = wire b (parts_of flds files)"
  by (simp add: wire_def fields_text_def files_text_def comp_def split_def field_text_def file_head_def field_part_def
      file_part_def file_header_def)

section \<open>Boundaries\<close>

lemma hex_upper_length: "n < 16 ^ w \<Longrightarrow> 0 < w \<Longrightarrow> length (hex_upper n) \<le> w"
proof (induction w arbitrary: n)
  case (Suc w)
  show ?case
  proof (cases "n < 16")
    case False
    with Suc.prems(1) have "0 < w" by (cases w) auto
    moreover have "n div 16 < 16 ^ w" using Suc.prems(1) by (simp add: less_mult_imp_div_less mult.commute)
    ultimately show ?thesis using Suc.IH [of "n div 16"] False by (subst hex_upper.simps) (simp add: Let_def)
  qed (subst hex_upper.simps, simp add: Let_def)
qed simp

lemma boundary_length:
  assumes "40 \<le> sz" "usec < 10 ^ 6"
  shows "length (fst (generate_multipart_boundary sz usec pid counter)) = 39"
proof -
  have pad: "length s \<le> w \<Longrightarrow> length (pad0 w s) = w" for s w by (simp add: pad0_def)
  have "length (hex_upper usec) \<le> 8" using hex_upper_length [of usec 8] assms(2) by simp
  moreover have "length (hex_upper (m mod 2 ^ 16)) \<le> 4" for m using hex_upper_length [of "m mod 2 ^ 16" 4] by simp
  ultimately show ?thesis using assms(1) by (simp add: generate_multipart_boundary_def snprintf_def pad) (simp add: lit_def)
qed

section \<open>Multipart bodies arrive\<close>


definition wit_t :: HttpTransport where
  "wit_t = \<lparr>ht_sock = \<lparr>so_rx = [], so_tx = [(1000, 0), (1000, 0), (1000, 0), (1000, 0), (1000, 0)], so_sent = []\<rparr>, ht_host = [],
      ht_path = [], ht_port = 80, ht_scheme = [], ht_read_buf = [], ht_read_pos = 0, ht_read_end = 0\<rparr>"

lemma send_at_once: "buf \<noteq> [] \<Longrightarrow> int (length buf) \<le> n \<Longrightarrow> send_loop ((n, e) # tx) buf = (True, buf, tx)"
  by (cases buf) auto

lemma wit_t_sends:
  "\<exists>n t1. MultipartWriter_stream_send (\<lambda>_. None) (\<lambda>_. True) (Some (form_map [(lit ''a'', lit ''1'')]))
      (Some (file_map [(lit ''up'', lit ''f.txt'', lit ''text/plain'', lit ''x'' @ crlf @ lit ''--y'')])) (lit ''B7'') wit_t = W_ok n t1"
  by (simp add: MultipartWriter_stream_send_def process_multipart_def send_text_def send_bytes_def write_file_def wit_t_def
      buf_bytes_def field_text_def file_head_def disposition_def HttpTransport_send_def filename_escape_ok
      filename_escape_char_def lit_def Let_def send_at_once del: send_loop.simps)


end
