(* ===== verification/Server_Parsing.thy ===== *)
theory Server_Parsing
  imports Server_Request Multipart_Roundtrip
begin

text \<open>
  Correctness of \<open>Server_Request\<close>: the header parser equals a reference on the lines of the header block; an accepted
  request has exactly one reading of its length; a request that was put together from a method, a target and fields is
  taken apart into them.
\<close>

section \<open>Lines\<close>

definition lines_text :: "cstring \<Rightarrow> cstring list \<Rightarrow> cstring" where
  "lines_text l ls = l @ concat (map (\<lambda>x. crlf @ x) ls)"

lemma lines_text_Nil [simp]: "lines_text l [] = l"
  by (simp add: lines_text_def)

lemma lines_text_Cons [simp]: "lines_text l (x # ls) = l @ crlf @ lines_text x ls"
  by (simp add: lines_text_def)

abbreviation one_line :: "cstring \<Rightarrow> bool" where "one_line l \<equiv> strstr l crlf = None"

lemma crlf_length: "length ([13, 10] :: byte list) = 2" "length ([13, 10] @ [13, 10] :: byte list) = 4"
  by simp_all

lemma strstr_crlf:
  assumes "one_line l"
  shows "strstr (l @ crlf @ r) crlf = Some (length l)"
  unfolding strstr_def
proof (rule memmem_intro)
  fix j assume j: "j < length l"
  have no: "take 2 (drop j l) \<noteq> crlf" using memmem_None [OF assms [unfolded strstr_def]] by (simp add: numeral_2_eq_2)
  show "take (length crlf) (drop j (l @ crlf @ r)) \<noteq> crlf"
  proof (cases "Suc j < length l")
    case True
    then have "take 2 (drop j (l @ crlf @ r)) = take 2 (drop j l)" by simp
    with no show ?thesis unfolding crlf_length by metis
  next
    case False
    with j have "drop j l = [l ! j]" by (metis Cons_nth_drop_Suc Suc_lessI drop_all le_refl)
    with j show ?thesis by (simp add: take_Cons')
  qed
qed simp_all

lemma one_line_plain: "13 \<notin> set l \<Longrightarrow> one_line l"
  by (induction l) (auto simp: strstr_def memmem_skip memmem.simps [of "[]"])

lemma lines_exist: "\<exists>l ls. xs = lines_text l ls \<and> (\<forall>x \<in> set (l # ls). one_line x)"
proof (induction "length xs" arbitrary: xs rule: less_induct)
  case less
  show ?case
  proof (cases "strstr xs crlf")
    case None
    then show ?thesis by (intro exI [of _ xs] exI [of _ "[]"]) simp
  next
    case (Some i)
    let ?a = "take i xs" and ?b = "drop (i + 2) xs"
    have xs: "xs = ?a @ crlf @ ?b" using memmem_split [OF Some [unfolded strstr_def]] by simp
    then have "length ?b < length xs" by (metis length_append less_add_same_cancel2 add_gr_0 length_greater_0_conv list.distinct(1) trans_less_add2)
    from less [OF this] obtain l ls where b: "?b = lines_text l ls" "\<forall>x \<in> set (l # ls). one_line x" by blast
    have "one_line ?a"
    proof (cases "strstr ?a crlf")
      case (Some j)
      from memmem_bound [OF this [unfolded strstr_def]] have j: "j + 2 \<le> length ?a" by simp
      then have "2 \<le> i - j" by auto
      then have "take 2 (drop j xs) = take 2 (drop j ?a)" by (simp add: drop_take min_def)
      with memmem_Some [OF Some [unfolded strstr_def]] memmem_least [OF \<open>strstr xs crlf = Some i\<close> [unfolded strstr_def], of j] j
      show ?thesis by (simp add: numeral_2_eq_2)
    qed
    with xs b show ?thesis by (intro exI [of _ ?a] exI [of _ "l # ls"]) simp
  qed
qed

text \<open>The header block ends at the first empty line.\<close>

lemma block_lines_aux:
  assumes "memmem (lines_text l ls @ crlf @ crlf @ r) (crlf @ crlf) = Some (length (lines_text l ls))"
  shows "[] \<notin> set ls"
proof
  assume "[] \<in> set ls"
  then obtain as bs where ls: "ls = as @ [] # bs" by (meson split_list)
  have t: "lines_text l ls = lines_text l as @ crlf @ concat (map (\<lambda>x. crlf @ x) bs)" by (simp add: ls lines_text_def)
  let ?j = "length (lines_text l as)"
  have "take 4 (drop ?j (lines_text l ls @ crlf @ crlf @ r)) = crlf @ crlf"
    by (cases bs) (simp_all add: t)
  moreover have "?j < length (lines_text l ls)" by (simp add: t)
  ultimately show False using memmem_least [OF assms] unfolding crlf_length by blast
qed

lemma block_lines:
  assumes "strstr buf (crlf @ crlf) = Some e"
  obtains l ls where "take e buf = lines_text l ls" "\<forall>x \<in> set (l # ls). one_line x" "[] \<notin> set ls"
    "buf = lines_text l ls @ crlf @ crlf @ drop (e + 4) buf"
proof -
  from lines_exist [of "take e buf"] obtain l ls where l: "take e buf = lines_text l ls" "\<forall>x \<in> set (l # ls). one_line x" by blast
  have b: "buf = lines_text l ls @ crlf @ crlf @ drop (e + 4) buf"
    using memmem_split [OF assms [unfolded strstr_def]] l(1) by (simp add: numeral_eq_Suc)
  have "e \<le> length buf" using memmem_bound [OF assms [unfolded strstr_def]] by simp
  then have "e = length (lines_text l ls)" using l(1) by (metis length_take min.absorb2)
  then have "[] \<notin> set ls" using block_lines_aux [of l ls "drop (e + 4) buf"] assms b by (simp add: strstr_def)
  with l b that show thesis by blast
qed

lemma block_end:
  assumes "\<forall>x \<in> set (l # ls). x \<noteq> [] \<and> 13 \<notin> set x"
  shows "strstr (lines_text l ls @ crlf @ crlf @ r) (crlf @ crlf) = Some (length (lines_text l ls))"
  using assms
proof (induction ls arbitrary: l)
  case Nil
  then show ?case using memmem_prefix [of 13 l "crlf @ crlf @ r" "[10, 13, 10]"] memmem_here [of "[13, 10, 13, 10]" r]
    by (simp add: strstr_def)
next
  case (Cons x ls)
  then obtain c xs where x: "x = c # xs" "c \<noteq> 13" by (cases x) auto
  have "memmem (crlf @ lines_text x ls @ crlf @ crlf @ r) (crlf @ crlf) = map_option (\<lambda>i. 2 + i) (memmem (lines_text x ls @ crlf @ crlf @ r) (crlf @ crlf))"
    using x by (subst memmem.simps) (simp add: memmem_skip lines_text_def option.map_comp comp_def)
  with Cons memmem_prefix [of 13 l "crlf @ lines_text x ls @ crlf @ crlf @ r" "[10, 13, 10]"] show ?case
    by (simp add: strstr_def)
qed

section \<open>Header fields\<close>

definition field_name :: "cstring \<Rightarrow> cstring" where
  "field_name l = map c_tolower (takeWhile (\<lambda>c. c \<noteq> 58) l)"

definition field_value :: "cstring \<Rightarrow> cstring" where
  "field_value l = dropWhile (\<lambda>c. c = 32 \<or> c = 9) (tl (dropWhile (\<lambda>c. c \<noteq> 58) l))"

abbreviation field_pair :: "cstring \<Rightarrow> cstring \<times> cstring" where "field_pair l \<equiv> (field_name l, field_value l)"

definition field_line :: "cstring \<Rightarrow> bool" where
  "field_line l \<longleftrightarrow> 13 \<notin> set l \<and> 10 \<notin> set l \<and> 58 \<in> set l \<and> hd l \<noteq> 58 \<and> list_all http_is_tchar (takeWhile (\<lambda>c. c \<noteq> 58) l)"

abbreviation cl_names :: "cstring list \<Rightarrow> cstring list" where
  "cl_names ls \<equiv> filter (\<lambda>l. field_name l = lit ''content-length'') ls"

definition fields_ok :: "bool \<Rightarrow> bool \<Rightarrow> cstring list \<Rightarrow> bool" where
  "fields_ok has_cl has_te ls \<longleftrightarrow> length (cl_names ls) + (if has_cl then 1 else 0) \<le> 1 \<and> \<not> has_te
     \<and> lit ''transfer-encoding'' \<notin> set (map field_name ls)"

lemma colon_parts:
  assumes "strchr l 58 = Some c"
  shows "take c l = takeWhile (\<lambda>c. c \<noteq> 58) l" "drop (Suc c) l = tl (dropWhile (\<lambda>c. c \<noteq> 58) l)"
proof -
  from assms have c: "c = length (takeWhile (\<lambda>c. c \<noteq> 58) l)" by (auto simp: strchr_def split: if_splits)
  show "take c l = takeWhile (\<lambda>c. c \<noteq> 58) l" unfolding c by (metis append_eq_conv_conj takeWhile_dropWhile_id)
  show "drop (Suc c) l = tl (dropWhile (\<lambda>c. c \<noteq> 58) l)" unfolding c
    by (metis drop_Suc dropWhile_eq_drop tl_drop)
qed

lemma ch_marks [simp]: "ch CHR '':'' = 58" "ch CHR '' '' = 32" "ch CHR ''?'' = 63" "ch CHR ''='' = 61" "ch CHR ''&'' = 38"
  by (simp_all add: ch_def)

lemma cl_te_distinct: "lit ''content-length'' \<noteq> lit ''transfer-encoding''"
  by (simp add: lit_def)

lemma header_fields_step:
  assumes "l \<noteq> []" "one_line l" "mem i" "is_cl = (field_name l = lit ''content-length'')"
    "is_te = (field_name l = lit ''transfer-encoding'')"
  shows "header_fields mem i has_cl has_te m (l @ crlf @ s) (length l + k) =
    (if field_line l \<and> \<not> (is_cl \<and> has_cl) \<and> \<not> ((has_cl \<or> is_cl) \<and> (has_te \<or> is_te))
     then header_fields mem (i + 1) (has_cl \<or> is_cl) (has_te \<or> is_te) (m @ [field_pair l]) s (k - 2) else None)"
proof (cases "13 \<in> set l \<or> 10 \<in> set l")
  case True
  then show ?thesis using assms(1) strstr_crlf [OF assms(2), of s] by (subst header_fields.simps) (auto simp: field_line_def)
next
  case False
  have s: "strstr (l @ crlf @ s) crlf = Some (length l)" by (rule strstr_crlf [OF assms(2)])
  show ?thesis
  proof (cases "strchr l 58")
    case None
    then have "58 \<notin> set l" by (simp add: strchr_def split: if_splits)
    then show ?thesis using assms(1) s None by (subst header_fields.simps) (simp add: field_line_def)
  next
    case (Some c)
    then have c: "58 \<in> set l" "c = length (takeWhile (\<lambda>c. c \<noteq> 58) l)" by (auto simp: strchr_def split: if_splits)
    then have "c = 0 \<longleftrightarrow> hd l = 58" using assms(1) by (cases l) auto
    then show ?thesis using False assms s c(1) colon_parts [OF Some] Some cl_te_distinct
      by (subst header_fields.simps)
        (cases has_cl; cases has_te; auto simp: field_line_def field_name_def field_value_def Let_def hashmap_put_str_def)
  qed
qed

lemma fields_ok_Cons:
  "fields_ok has_cl has_te (l # ls) \<longleftrightarrow>
     \<not> (field_name l = lit ''content-length'' \<and> has_cl)
     \<and> \<not> ((has_cl \<or> field_name l = lit ''content-length'') \<and> (has_te \<or> field_name l = lit ''transfer-encoding''))
     \<and> fields_ok (has_cl \<or> field_name l = lit ''content-length'') (has_te \<or> field_name l = lit ''transfer-encoding'') ls"
  using cl_te_distinct by (auto simp: fields_ok_def split: if_splits)

lemma header_fields_lines:
  assumes "\<forall>x \<in> set (l # ls). x \<noteq> [] \<and> one_line x" and "\<forall>i. mem i"
  shows "header_fields mem i has_cl has_te m (lines_text l ls @ crlf @ crlf @ r) (length (lines_text l ls)) =
    (if (\<forall>x \<in> set (l # ls). field_line x) \<and> fields_ok has_cl has_te (l # ls) then Some (m @ map field_pair (l # ls)) else None)"
  using assms(1)
proof (induction ls arbitrary: l i has_cl has_te m)
  case Nil
  then have "l \<noteq> []" "one_line l" by auto
  from header_fields_step [where mem = mem and i = i and has_cl = has_cl and has_te = has_te and m = m and s = "crlf @ r" and k = 0, OF this spec [OF assms(2)] refl refl]
  show ?case using cl_te_distinct by (simp add: header_fields.simps [of _ _ _ _ _ _ 0] fields_ok_def)
next
  case (Cons x ls)
  then have l: "l \<noteq> []" "one_line l" by auto
  have "\<forall>y \<in> set (x # ls). y \<noteq> [] \<and> one_line y" using Cons.prems by simp
  note IH = Cons.IH [OF this]
  show ?case
    using header_fields_step [where mem = mem and i = i and has_cl = has_cl and has_te = has_te and m = m
        and s = "lines_text x ls @ crlf @ crlf @ r" and k = "length (crlf @ lines_text x ls)", OF l spec [OF assms(2)] refl refl] IH
    by (subst fields_ok_Cons) simp
qed

lemma parse_headers_lines:
  assumes "one_line rl" "\<forall>x \<in> set ls. x \<noteq> [] \<and> one_line x" "\<forall>i. mem i"
  shows "HttpConnection_parse_headers mem (lines_text rl ls @ crlf @ crlf @ r) (length (lines_text rl ls)) =
    (if (\<forall>x \<in> set ls. field_line x) \<and> fields_ok False False ls then Some (map field_pair ls) else None)"
proof (cases ls)
  case Nil
  then show ?thesis using strstr_crlf [OF assms(1), of "crlf @ r"] by (simp add: HttpConnection_parse_headers_def fields_ok_def)
next
  case (Cons x xs)
  have "strstr (rl @ crlf @ lines_text x xs @ crlf @ crlf @ r) crlf = Some (length rl)" by (rule strstr_crlf [OF assms(1)])
  then show ?thesis using header_fields_lines [of x xs mem 0 False False "[]" r] assms(2,3) Cons
    by (simp add: HttpConnection_parse_headers_def)
qed

section \<open>Content-Length\<close>

lemma cl_strict_exact:
  "v \<le> MAX_HTTP_BODY_SIZE \<Longrightarrow> cl_strict v s = CL_PARSE_OK n \<longleftrightarrow> (\<forall>c \<in> set s. isdigit c) \<and> n = dec_of v s \<and> n \<le> MAX_HTTP_BODY_SIZE"
proof (induction s arbitrary: v)
  case (Cons c s)
  let ?d = "unat c - 48"
  show ?case
  proof (cases "isdigit c")
    case True
    then have d: "?d \<le> 9" by (auto simp: word_le_nat_alt)
    have le: "10 * v + ?d \<le> dec_of (10 * v + ?d) s" by (rule dec_of_mono)
    have "v \<le> (MAX_HTTP_BODY_SIZE - ?d) div 10 \<longleftrightarrow> v * 10 + ?d \<le> MAX_HTTP_BODY_SIZE" using d by linarith
    moreover have "(c < 48) = False" "(57 < c) = False" using True by auto
    ultimately show ?thesis using Cons.IH [of "v * 10 + ?d"] True le by (auto simp: Let_def mult.commute not_less)
  next
    case False
    then have "c < 48 \<or> c > 57" by auto
    with False show ?thesis by auto
  qed
qed auto

lemma content_length_exact:
  "parse_content_length_strict s = CL_PARSE_OK n \<longleftrightarrow>
     s \<noteq> [] \<and> (\<forall>c \<in> set s. isdigit c) \<and> n = dec_of 0 s \<and> n \<le> MAX_HTTP_BODY_SIZE"
  using cl_strict_exact [of 0 s n] by (simp add: parse_content_length_strict_def)

section \<open>Requests have one reading\<close>

lemma lookup_unique:
  "hashmap_get_str (map field_pair ls) k = (case filter (\<lambda>l. field_name l = k) (rev ls) of [] \<Rightarrow> None | l # _ \<Rightarrow> Some (field_value l))"
proof -
  have "map_of (map field_pair xs) k = (case filter (\<lambda>l. field_name l = k) xs of [] \<Rightarrow> None | l # _ \<Rightarrow> Some (field_value l))" for xs
    by (induction xs) auto
  then show ?thesis by (simp add: hashmap_get_str_def rev_map)
qed

definition one_length :: "cstring list \<Rightarrow> nat \<Rightarrow> bool" where
  "one_length ls n \<longleftrightarrow> lit ''transfer-encoding'' \<notin> set (map field_name ls) \<and>
     (cl_names ls = [] \<and> n = 0 \<or>
      (\<exists>l. cl_names ls = [l] \<and> field_value l \<noteq> [] \<and> (\<forall>c \<in> set (field_value l). isdigit c)
         \<and> n = dec_of 0 (field_value l) \<and> n \<le> MAX_HTTP_BODY_SIZE))"

text \<open>(C12) The server reads no request in two ways: whenever the head of a request is accepted, the bytes before the first
  empty line are a request line and well-formed header lines, which are the headers of the request in order; none of
  them is a Transfer-Encoding, at most one is a Content-Length, its value is a decimal number within the limit, and
  exactly that number is the length of the body.\<close>

theorem HttpRequest_one_reading:
  fixes req :: "'d HttpRequest"
  assumes "strstr buf (crlf @ crlf) = Some e" and "parse_request mem buf e = Inr (req, keep, n)" and "\<forall>i. rm_header mem i"
  shows "\<exists>rl ls. buf = lines_text rl ls @ crlf @ crlf @ drop (e + 4) buf \<and> one_line rl \<and> (\<forall>l \<in> set ls. field_line l)
    \<and> rq_headers req = map field_pair ls \<and> rq_body_len req = n \<and> one_length ls n"
proof -
  from block_lines [OF assms(1)] obtain rl ls where
    b: "take e buf = lines_text rl ls" "\<forall>x \<in> set (rl # ls). one_line x" "[] \<notin> set ls" "buf = lines_text rl ls @ crlf @ crlf @ drop (e + 4) buf"
    by blast
  have "e \<le> length buf" using memmem_bound [OF assms(1) [unfolded strstr_def]] by simp
  then have e: "e = length (lines_text rl ls)" using b(1) by (metis length_take min.absorb2)
  have p: "HttpConnection_parse_headers (rm_header mem) buf e =
      (if (\<forall>x \<in> set ls. field_line x) \<and> fields_ok False False ls then Some (map field_pair ls) else None)"
  proof -
    have "\<forall>x \<in> set ls. x \<noteq> [] \<and> one_line x" "one_line rl" using b(2,3) by auto
    from parse_headers_lines [OF this(2,1) assms(3), of "drop (e + 4) buf"] show ?thesis using b(4) e by simp
  qed
  from assms(2) have f: "\<forall>x \<in> set ls. field_line x" "fields_ok False False ls" "rq_headers req = map field_pair ls"
      and n: "rq_body_len req = n"
      "(case hashmap_get_str (map field_pair ls) (lit ''content-length'') of None \<Rightarrow> n = 0 | Some cl \<Rightarrow> parse_content_length_strict cl = CL_PARSE_OK n)"
    by (auto simp: parse_request_def new_HttpRequest_def p Let_def split: option.splits sum.splits prod.splits if_splits cl_parse.splits)
  have "one_length ls n"
    using f(2) n(2) unfolding one_length_def fields_ok_def lookup_unique
    by (auto simp: content_length_exact rev_filter [symmetric] length_Suc_conv le_Suc_eq split: list.splits)
  with b f n(1) show ?thesis by auto
qed

section \<open>Requests arrive\<close>

definition query_text :: "(cstring \<times> cstring) list \<Rightarrow> cstring" where
  "query_text qs = (case map form_pair qs of [] \<Rightarrow> [] | p # ps \<Rightarrow> 63 # p @ concat (map ((#) 38) ps))"

lemma url_decode_bytes:
  assumes "c \<noteq> 0"
  shows "url_decode_query_component (url_bytes c @ s) = map_option ((#) c) (url_decode_query_component s)"
proof (cases "url_unreserved c")
  case True
  then have "c \<noteq> 37" "c \<noteq> 43" by (auto simp: url_unreserved_def ch_def)
  with True show ?thesis by (simp add: url_bytes_def)
next
  case False
  let ?n = "16 * unat (drop_bit 4 c) + unat (c AND 15)"
  have n: "(of_nat ?n :: byte) = c" using byte_nibbles(3) by simp
  have "?n \<noteq> 0"
  proof
    assume "?n = 0"
    then have "c = of_nat 0" using n by simp
    with assms show False by simp
  qed
  with n False show ?thesis
    by (auto simp: url_bytes_def ch_def hex_digit_val byte_nibbles(1,2) simp del: of_nat_add of_nat_mult)
qed

lemma url_decode_text: "0 \<notin> set k \<Longrightarrow> url_decode_query_component (url_text k) = Some k"
  by (induction k) (auto simp: url_decode_bytes)

lemma query_loop_pairs:
  "\<forall>kv \<in> set qs. 0 \<notin> set (fst kv) \<and> 0 \<notin> set (snd kv) \<Longrightarrow> \<forall>i. mem i \<Longrightarrow> query_loop mem i m (map form_pair qs) = Some (m @ qs)"
proof (induction qs arbitrary: i m)
  case (Cons kv qs)
  have "61 \<notin> set (url_text (fst kv))" using url_text_chars by blast
  from strchr_append [OF this, of "url_text (snd kv)"] Cons show ?case
    by (simp add: form_pair_def url_decode_text hashmap_put_str_def)
qed simp

text \<open>What the client encodes as a query, the server decodes.\<close>

lemma parse_target_query:
  assumes "63 \<notin> set p" "\<forall>kv \<in> set qs. 0 \<notin> set (fst kv) \<and> 0 \<notin> set (snd kv)" "\<forall>i. mem i"
  shows "parse_target mem (p @ query_text qs) = Some (p, qs)"
proof (cases qs)
  case Nil
  then show ?thesis using assms(1) by (simp add: query_text_def parse_target_def strchr_def)
next
  case (Cons kv r)
  then have q: "query_text qs = 63 # (form_pair kv @ concat (map ((#) 38) (map form_pair r)))" by (simp add: query_text_def)
  show ?thesis unfolding q using strchr_append [OF assms(1)] strtok_form [of kv r] query_loop_pairs [OF assms(2,3), of 0 "[]"] Cons
    by (simp add: parse_target_def)
qed

definition request_head :: "cstring \<Rightarrow> cstring \<Rightarrow> cstring list \<Rightarrow> cstring" where
  "request_head meth target ls = lines_text (meth @ 32 # target @ 32 # lit ''HTTP/1.1'') ls @ crlf @ crlf"

lemma request_line_parts:
  assumes "meth \<noteq> []" "length meth < 16" "32 \<notin> set meth" "13 \<notin> set meth" "target \<noteq> []" "length target < 2048" "32 \<notin> set target" "13 \<notin> set target"
  shows "request_line (lines_text (meth @ 32 # target @ 32 # lit ''HTTP/1.1'') ls @ crlf @ crlf @ r) = Inr (meth, target)"
proof -
  let ?rl = "meth @ 32 # target @ 32 # lit ''HTTP/1.1''"
  have "13 \<notin> set ?rl" using assms by (simp add: lit_def)
  then have "strstr (lines_text ?rl ls @ crlf @ crlf @ r) crlf = Some (length ?rl)"
    using strstr_crlf [OF one_line_plain, of ?rl] by (cases ls) simp_all
  moreover have "strchr (lines_text ?rl ls @ crlf @ crlf @ r) 32 = Some (length meth)"
    using strchr_append [OF assms(3)] by (cases ls) simp_all
  moreover have "take (length ?rl - Suc (length meth)) (drop (Suc (length meth)) (lines_text ?rl ls @ crlf @ crlf @ r)) = target @ 32 # lit ''HTTP/1.1''"
    by (cases ls) simp_all
  moreover have "strchr (target @ 32 # lit ''HTTP/1.1'') 32 = Some (length target)" using strchr_append [OF assms(7)] .
  moreover have "take (length meth) (lines_text ?rl ls @ crlf @ crlf @ r) = meth" by (cases ls) simp_all
  ultimately show ?thesis using assms by (simp add: request_line_def)
qed

lemma parse_request_ok:
  fixes mem :: req_mem
  assumes "rm_req mem" "rm_path mem" "\<forall>i. rm_query mem i" "\<forall>i. rm_header mem i"
    and "meth \<noteq> []" "length meth < 16" "32 \<notin> set meth" "13 \<notin> set meth"
    and "target \<noteq> []" "length target < 2048" "32 \<notin> set target" "13 \<notin> set target"
    and "\<forall>l \<in> set ls. field_line l" and "one_length ls n"
    and "parse_target (rm_query mem) target = Some (p, qs)"
  shows "strstr (request_head meth target ls @ r) (crlf @ crlf) = Some (length (request_head meth target ls) - 4)"
    and "parse_request mem (request_head meth target ls @ r) (length (request_head meth target ls) - 4)
      = Inr (\<lparr>rq_method = method_of meth, rq_path = Some p, rq_headers = map field_pair ls, rq_query = qs, rq_params = [],
              rq_json = None, rq_form = [], rq_multipart = None, rq_body = None, rq_body_len = n\<rparr>,
             (case hashmap_get_str (map field_pair ls) (lit ''connection'') of None \<Rightarrow> True | Some v \<Rightarrow> \<not> strcasecmp_eq v (lit ''close'')), n)"
proof -
  let ?rl = "meth @ 32 # target @ 32 # lit ''HTTP/1.1''" and ?t = "request_head meth target ls @ r"
  have 13: "13 \<notin> set ?rl" using assms by (simp add: lit_def)
  have ls: "\<forall>x \<in> set ls. x \<noteq> [] \<and> 13 \<notin> set x" using assms(13) by (auto simp: field_line_def)
  have e: "length (request_head meth target ls) - 4 = length (lines_text ?rl ls)" by (simp add: request_head_def)
  have t: "?t = lines_text ?rl ls @ crlf @ crlf @ r" by (simp add: request_head_def)
  show "strstr ?t (crlf @ crlf) = Some (length (request_head meth target ls) - 4)"
    unfolding e t by (rule block_end) (use ls 13 in auto)
  have "\<forall>x \<in> set ls. x \<noteq> [] \<and> one_line x" using ls one_line_plain by auto
  from parse_headers_lines [OF one_line_plain [OF 13] this assms(4), of r] assms(13,14)
  have h: "HttpConnection_parse_headers (rm_header mem) ?t (length (lines_text ?rl ls)) = Some (map field_pair ls)"
    unfolding t by (auto simp: one_length_def fields_ok_def)
  have cl: "case hashmap_get_str (map field_pair ls) (lit ''content-length'') of None \<Rightarrow> n = 0 | Some cl \<Rightarrow> parse_content_length_strict cl = CL_PARSE_OK n"
    using assms(14) unfolding one_length_def lookup_unique
    by (auto simp: content_length_exact rev_filter [symmetric])
  show "parse_request mem ?t (length (request_head meth target ls) - 4)
      = Inr (\<lparr>rq_method = method_of meth, rq_path = Some p, rq_headers = map field_pair ls, rq_query = qs, rq_params = [],
              rq_json = None, rq_form = [], rq_multipart = None, rq_body = None, rq_body_len = n\<rparr>,
             (case hashmap_get_str (map field_pair ls) (lit ''connection'') of None \<Rightarrow> True | Some v \<Rightarrow> \<not> strcasecmp_eq v (lit ''close'')), n)"
    unfolding e using request_line_parts [OF assms(5-12), of ls r] h cl assms(1-4,15)
    by (auto simp: parse_request_def new_HttpRequest_def t Let_def split: option.splits)
qed

definition get_mem :: req_mem where
  "get_mem = \<lparr>rm_req = True, rm_query = \<lambda>_. True, rm_path = True, rm_header = \<lambda>_. True, rm_body = True, rm_copy = True,
     rm_form = \<lambda>_. True, rm_json = [], rm_multi = True, rm_part = \<lambda>_ _. True\<rparr>"

definition get_text :: cstring where
  "get_text = request_head (lit ''GET'') (lit ''/'') [lit ''Host: h'', lit ''Content-Length: 2'']"

theorem HttpRequest_one_reading_witness:
  "\<exists>e n. \<exists>req :: int HttpRequest. \<exists>rl ls. parse_request get_mem (get_text @ lit ''ab'') e = Inr (req, True, n) \<and> n = 2
     \<and> get_text @ lit ''ab'' = lines_text rl ls @ crlf @ crlf @ lit ''ab'' \<and> rq_headers req = map field_pair ls \<and> one_length ls n"
proof -
  let ?ls = "[lit ''Host: h'', lit ''Content-Length: 2'']" and ?e = "length get_text - 4"
  have l: "lit ''Host: h'' = [72, 111, 115, 116, 58, 32, 104]"
    "lit ''Content-Length: 2'' = [67, 111, 110, 116, 101, 110, 116, 45, 76, 101, 110, 103, 116, 104, 58, 32, 50]" by (simp_all add: lit_def)
  have fl: "\<forall>l \<in> set ?ls. field_line l" by (simp add: field_line_def http_is_tchar_def l)
  have ol: "one_length ?ls 2" by (simp add: one_length_def field_name_def field_value_def c_tolower_def lit_def)
  have pt: "parse_target (rm_query get_mem) (lit ''/'') = Some (lit ''/'', [])" by (simp add: parse_target_def strchr_def lit_def)
  have m: "rm_req get_mem" "rm_path get_mem" "\<forall>i. rm_query get_mem i" "\<forall>i. rm_header get_mem i" by (simp_all add: get_mem_def)
  have q: "lit ''GET'' \<noteq> []" "length (lit ''GET'') < 16" "32 \<notin> set (lit ''GET'')" "13 \<notin> set (lit ''GET'')" "lit ''/'' \<noteq> []" "length (lit ''/'') < 2048"
    "32 \<notin> set (lit ''/'')" "13 \<notin> set (lit ''/'')" by (simp_all add: lit_def)
  note p = parse_request_ok [OF m q fl ol pt, of "lit ''ab''", folded get_text_def]
  have k: "hashmap_get_str (map field_pair ?ls) (lit ''connection'') = None"
    by (simp add: hashmap_get_str_def field_name_def c_tolower_def lit_def)
  obtain req :: "int HttpRequest" where r: "parse_request get_mem (get_text @ lit ''ab'') ?e = Inr (req, True, 2)"
    using p(2) by (simp add: k del: list.map)
  have "?e + 4 = length get_text" by (simp add: get_text_def request_head_def)
  then have d: "drop (?e + 4) (get_text @ lit ''ab'') = lit ''ab''" by simp
  from HttpRequest_one_reading [OF p(1) r m(4)] d r show ?thesis by fastforce
qed

end
