(* ===== verification/Server_Lifecycle.thy ===== *)
theory Server_Lifecycle
  imports Http_Connection
begin

text \<open>
  The life of connections in \<open>Http_Connection\<close>: every accepted connection is in the server's list until it is handed to
  \<^verbatim>\<open>deferRelease\<close>, which happens once; the close callback of a WebSocket runs at most once; graceful shutdown ends.
\<close>

named_theorems lifecycle

section \<open>Invariant\<close>

text \<open>\<open>A\<close> are the numbers of the connections accepted so far.\<close>

definition srv_inv :: "nat set \<Rightarrow> 'd HttpServer \<Rightarrow> bool" where
  "srv_inv A s \<longleftrightarrow> distinct (sv_conns s @ sv_released s) \<and> set (sv_conns s) \<union> set (sv_released s) = A
     \<and> (\<forall>i \<in> set (sv_conns s). hc_server (sv_conn s i) \<and> \<not> hc_shutdown_done (sv_conn s i))
     \<and> (\<forall>i \<in> set (sv_released s). \<not> hc_server (sv_conn s i) \<and> hc_shutdown_done (sv_conn s i))
     \<and> distinct (sv_ws_closed s) \<and> set (sv_ws_closed s) \<subseteq> A \<and> (\<forall>i \<in> set (sv_ws_closed s). hc_ws_close_notified (sv_conn s i))"

definition flags :: "'d HttpConnection \<Rightarrow> bool \<times> bool \<times> bool" where
  "flags c = (hc_server c, hc_shutdown_done c, hc_ws_close_notified c)"

lemma inv_upd [lifecycle]:
  assumes "srv_inv A s" "\<And>c. flags (f c) = flags c"
  shows "srv_inv A (upd i f s)"
  using assms by (auto simp: srv_inv_def upd_def flags_def)

lemma upd_simps [simp]:
  "sv_conns (upd i f s) = sv_conns s" "sv_released (upd i f s) = sv_released s" "sv_ws_closed (upd i f s) = sv_ws_closed s"
  "sv_sock (upd i f s) = sv_sock s" "sv_shutting_down (upd i f s) = sv_shutting_down s" "sv_drain_count (upd i f s) = sv_drain_count s"
  "sv_removes (upd i f s) = sv_removes s" "sv_on_ws_close (upd i f s) = sv_on_ws_close s" "sv_conn (upd i f s) i = f (sv_conn s i)"
  "sv_modifies (upd i f s) = sv_modifies s" "sv_mem (upd i f s) = sv_mem s" "j \<noteq> i \<Longrightarrow> sv_conn (upd i f s) j = sv_conn s j"
  "sv_requests (upd i f s) = sv_requests s" "sv_running (upd i f s) = sv_running s" "sv_shutdown_started_ms (upd i f s) = sv_shutdown_started_ms s"
  by (simp_all add: upd_def)

text \<open>The invariant does not look at the queues and the fields of the server that the shutdown manages.\<close>

lemma inv_frame:
  "sv_conns s1 = sv_conns s \<Longrightarrow> sv_released s1 = sv_released s \<Longrightarrow> sv_ws_closed s1 = sv_ws_closed s \<Longrightarrow> sv_conn s1 = sv_conn s
     \<Longrightarrow> srv_inv A s1 = srv_inv A s"
  by (simp add: srv_inv_def)

lemma inv_fields [simp]:
  "srv_inv A (s\<lparr>sv_removes := x\<rparr>) = srv_inv A s" "srv_inv A (s\<lparr>sv_modifies := x\<rparr>) = srv_inv A s" "srv_inv A (s\<lparr>sv_mem := x\<rparr>) = srv_inv A s"
  "srv_inv A (s\<lparr>sv_sock := y\<rparr>) = srv_inv A s" "srv_inv A (s\<lparr>sv_timer := y\<rparr>) = srv_inv A s" "srv_inv A (s\<lparr>sv_running := y\<rparr>) = srv_inv A s"
  "srv_inv A (s\<lparr>sv_shutting_down := y\<rparr>) = srv_inv A s" "srv_inv A (s\<lparr>sv_shutdown_started_ms := t\<rparr>) = srv_inv A s"
  "srv_inv A (s\<lparr>sv_drain_count := n\<rparr>) = srv_inv A s" "srv_inv A (s\<lparr>sv_requests := n\<rparr>) = srv_inv A s"
  by (simp_all add: srv_inv_def)

lemma ask_removeD: "ask_remove s = (b, s1) \<Longrightarrow> s1 = s \<and> b \<or> (\<exists>bs. s1 = s\<lparr>sv_removes := bs\<rparr>)"
  by (auto simp: ask_remove_def split: list.splits)

lemma inv_ask [lifecycle]:
  "srv_inv A s \<Longrightarrow> srv_inv A (snd (ask_remove s))" "srv_inv A s \<Longrightarrow> srv_inv A (snd (ask_modify s))"
  "srv_inv A s \<Longrightarrow> srv_inv A (snd (ask_mem s))"
  by (auto simp: ask_remove_def ask_modify_def ask_mem_def split: list.splits)

lemma ask_conn [simp]:
  "sv_conn (snd (ask_remove s)) = sv_conn s" "sv_conn (snd (ask_modify s)) = sv_conn s" "sv_conn (snd (ask_mem s)) = sv_conn s"
  "sv_conns (snd (ask_remove s)) = sv_conns s" "sv_shutting_down (snd (ask_remove s)) = sv_shutting_down s"
  by (auto simp: ask_remove_def ask_modify_def ask_mem_def split: list.splits)

section \<open>Closing\<close>

lemma inv_finish [lifecycle]: "srv_inv A s \<Longrightarrow> srv_inv A (HttpServer_maybe_finish_shutdown s)"
  by (simp add: HttpServer_maybe_finish_shutdown_def)

lemma inv_notify [lifecycle]:
  assumes "srv_inv A s" "i \<in> A"
  shows "srv_inv A (notify_ws_close i s)"
  using assms by (auto simp: notify_ws_close_def srv_inv_def Let_def upd_def)

lemma notify_conn:
  "sv_conns (notify_ws_close i s) = sv_conns s" "hc_server (sv_conn (notify_ws_close i s) j) = hc_server (sv_conn s j)"
  "hc_shutdown_done (sv_conn (notify_ws_close i s) j) = hc_shutdown_done (sv_conn s j)"
  "hc_backend_remove_pending (sv_conn (notify_ws_close i s) j) = hc_backend_remove_pending (sv_conn s j)"
  "sv_shutting_down (notify_ws_close i s) = sv_shutting_down s" "sv_sock (notify_ws_close i s) = sv_sock s"
  "sv_removes (notify_ws_close i s) = sv_removes s" "sv_drain_count (notify_ws_close i s) = sv_drain_count s"
  by (auto simp: notify_ws_close_def Let_def upd_def)

lemma inv_drop [lifecycle]:
  assumes "srv_inv A s" "i \<in> set (sv_conns s)"
  shows "srv_inv A (drop_conn i s)"
proof -
  have d: "distinct (sv_conns s)" using assms(1) by (simp add: srv_inv_def)
  have "hc_server (sv_conn s i)" using assms by (auto simp: srv_inv_def)
  then show ?thesis using assms d
    by (auto simp: drop_conn_def remove_conn_from_server_def Let_def srv_inv_def upd_def)
qed

lemma live_or_released: "srv_inv A s \<Longrightarrow> i \<in> A \<Longrightarrow> \<not> hc_shutdown_done (sv_conn s i) \<Longrightarrow> i \<in> set (sv_conns s)"
  by (auto simp: srv_inv_def)

lemma inv_shutdown [lifecycle]:
  assumes "srv_inv A s" "i \<in> A"
  shows "srv_inv A (conn_shutdown i s)"
proof (cases "hc_shutdown_done (sv_conn s i) \<or> hc_backend_remove_pending (sv_conn s i)")
  case False
  let ?s1 = "notify_ws_close i (upd i (\<lambda>c. c\<lparr>hc_is_closing := True\<rparr>) s)"
  have 1: "srv_inv A ?s1" using assms by (intro inv_notify inv_upd) (simp_all add: flags_def)
  obtain gone s2 where a: "ask_remove ?s1 = (gone, s2)" by fastforce
  then have 2: "srv_inv A s2" "sv_conn s2 = sv_conn ?s1" using inv_ask(1) [OF 1] ask_conn(1) [of ?s1] by simp_all
  have "\<not> hc_shutdown_done (sv_conn s2 i)" using False 2(2) by (simp add: notify_conn)
  then have "srv_inv A (drop_conn i s2)" using inv_drop [OF 2(1)] live_or_released [OF 2(1) assms(2)] by blast
  then show ?thesis using False a 2 by (auto simp: conn_shutdown_def Let_def flags_def intro!: inv_finish inv_upd)
qed (simp add: conn_shutdown_def assms)

lemma inv_sweep_conns: "srv_inv A s \<Longrightarrow> set is \<subseteq> A \<Longrightarrow> srv_inv A (sweep_conns is s)"
proof (induction "is" arbitrary: s)
  case (Cons i "is")
  have "srv_inv A (if hc_backend_remove_pending (sv_conn s i) \<and> \<not> hc_shutdown_done (sv_conn s i)
        then (case ask_remove s of (gone, s1) \<Rightarrow> if gone then drop_conn i s1 else s1) else s)"
  proof -
    obtain gone s1 where a: "ask_remove s = (gone, s1)" by fastforce
    then have "srv_inv A s1" "sv_conns s1 = sv_conns s" using inv_ask(1) [OF Cons.prems(1)] ask_conn(4) [of s] by simp_all
    then show ?thesis using a Cons.prems live_or_released [OF Cons.prems(1), of i] inv_drop [of A s1 i] by auto
  qed
  with Cons show ?case by simp
qed simp

lemma inv_sweep [lifecycle]: "srv_inv A s \<Longrightarrow> srv_inv A (HttpServer_sweep_closing s)"
proof -
  assume s: "srv_inv A s"
  let ?s1 = "if sv_sock s \<and> sv_shutting_down s then (case ask_remove s of (gone, s1) \<Rightarrow> if gone then s1\<lparr>sv_sock := False\<rparr> else s1) else s"
  have 1: "srv_inv A ?s1" using s inv_ask(1) [OF s] by (auto split: prod.splits)
  then have "set (sv_conns ?s1) \<subseteq> A" by (auto simp: srv_inv_def)
  with inv_sweep_conns [OF 1] show ?thesis by (simp add: HttpServer_sweep_closing_def Let_def)
qed

section \<open>Output\<close>

lemma inv_append [lifecycle]: "srv_inv A s \<Longrightarrow> srv_inv A (snd (append_out_buf i d s))"
  using inv_ask(3) [of A s]
  by (auto simp: append_out_buf_def Let_def flags_def split: prod.splits intro!: inv_upd)

lemma inv_append_send [lifecycle]: "srv_inv A s \<Longrightarrow> srv_inv A (HttpConnection_append_send i d s)"
  by (simp add: HttpConnection_append_send_def inv_append)

lemma inv_register: "srv_inv A s \<Longrightarrow> i \<in> A \<Longrightarrow> srv_inv A (snd (register_write i s))"
  using inv_ask(2) [of A s]
  by (auto simp: register_write_def try_modify_def Let_def flags_def split: prod.splits intro!: inv_upd inv_shutdown)

lemma inv_flush [lifecycle]: "srv_inv A s \<Longrightarrow> i \<in> A \<Longrightarrow> srv_inv A (HttpConnection_flush i s)"
proof -
  assume s: "srv_inv A s" "i \<in> A"
  obtain ok out rest tx where f: "flush_loop (hc_tx (sv_conn s i)) (hc_out (sv_conn s i)) = (ok, out, rest, tx)"
    using prod_cases4 by blast
  let ?s1 = "upd i (\<lambda>c. c\<lparr>hc_sent := hc_sent c @ out, hc_out := rest, hc_tx := tx\<rparr>) s"
  have 1: "srv_inv A ?s1" using s by (intro inv_upd) (simp_all add: flags_def)
  with inv_register [OF 1 s(2)] s show ?thesis
    by (auto simp: HttpConnection_flush_def f Let_def split: prod.splits intro!: inv_shutdown)
qed

lemma inv_out_call [lifecycle]: "srv_inv A s \<Longrightarrow> i \<in> A \<Longrightarrow> srv_inv A (out_call i a s)"
  by (auto simp: out_call_def lifecycle split: out_op.splits)

lemma inv_ws_send [lifecycle]: "srv_inv A s \<Longrightarrow> i \<in> A \<Longrightarrow> srv_inv A (snd (HttpConnection_ws_send i m s))"
  using inv_ask(3) [of A s]
  by (auto simp: HttpConnection_ws_send_def Let_def split: option.splits prod.splits intro!: inv_flush inv_append)

lemma inv_ws_close [lifecycle]: "srv_inv A s \<Longrightarrow> i \<in> A \<Longrightarrow> srv_inv A (HttpConnection_ws_close i s)"
  by (auto simp: HttpConnection_ws_close_def Let_def flags_def intro!: inv_flush inv_append inv_upd)

lemma inv_ws_close_checked [lifecycle]: "srv_inv A s \<Longrightarrow> i \<in> A \<Longrightarrow> srv_inv A (snd (HttpConnection_ws_close_checked i s))"
  using inv_append [of A s i close_frame]
  by (auto simp: HttpConnection_ws_close_checked_def Let_def flags_def split: prod.splits intro!: inv_flush inv_upd)

lemma inv_ws_queue [lifecycle]: "srv_inv A s \<Longrightarrow> i \<in> A \<Longrightarrow> srv_inv A (snd (ws_queue_frame i opc d n s))"
proof -
  assume s: "srv_inv A s" "i \<in> A"
  obtain ok s1 where a: "ask_mem s = (ok, s1)" by fastforce
  then have 1: "srv_inv A s1" using inv_ask(3) [OF s(1)] by simp
  obtain flen frame where b: "ws_build_frame opc d n (n + 16) = (flen, frame)" by fastforce
  show ?thesis using s 1 inv_append [OF 1, of i frame] a b
    by (auto simp: ws_queue_frame_def Let_def split: prod.splits intro!: inv_flush)
qed

lemma inv_ws_sends [lifecycle]:
  "srv_inv A s \<Longrightarrow> i \<in> A \<Longrightarrow> srv_inv A (snd (HttpConnection_ws_send_text i d n s))"
  "srv_inv A s \<Longrightarrow> i \<in> A \<Longrightarrow> srv_inv A (snd (HttpConnection_ws_send_binary i d n s))"
  "srv_inv A s \<Longrightarrow> i \<in> A \<Longrightarrow> srv_inv A (snd (HttpConnection_ws_send_pong i d n s))"
  by (simp_all add: HttpConnection_ws_send_text_def HttpConnection_ws_send_binary_def HttpConnection_ws_send_pong_def inv_ws_queue)

lemma inv_ws_call [lifecycle]: "srv_inv A s \<Longrightarrow> i \<in> A \<Longrightarrow> srv_inv A (ws_call i a s)"
  by (auto simp: ws_call_def lifecycle split: ws_call.splits)

lemma inv_ws_calls [lifecycle]: "srv_inv A s \<Longrightarrow> i \<in> A \<Longrightarrow> srv_inv A (fold (ws_call i) as s)"
  by (induction as arbitrary: s) (simp_all add: inv_ws_call)

lemma inv_out_calls [lifecycle]: "srv_inv A s \<Longrightarrow> i \<in> A \<Longrightarrow> srv_inv A (fold (out_call i) as s)"
  by (induction as arbitrary: s) (simp_all add: inv_out_call)

section \<open>Input\<close>

lemma inv_set_ws_in [lifecycle]: "srv_inv A s \<Longrightarrow> srv_inv A (set_ws_in i inp s)"
  by (auto simp: set_ws_in_def flags_def intro!: inv_upd)

lemma inv_close_or_drop [lifecycle]: "srv_inv A s \<Longrightarrow> i \<in> A \<Longrightarrow> srv_inv A (snd (ws_close_or_drop i s))"
  using inv_ws_close_checked [of A s i] by (auto simp: ws_close_or_drop_def split: prod.splits intro!: inv_shutdown)

lemma inv_deliver [lifecycle]: "srv_inv A s \<Longrightarrow> i \<in> A \<Longrightarrow> srv_inv A (snd (ws_deliver a i opc d s))"
  using inv_ask(3) [of A s] by (auto simp: ws_deliver_def split: option.splits prod.splits intro!: inv_ws_calls)

lemma inv_process [lifecycle]: "srv_inv A s \<Longrightarrow> i \<in> A \<Longrightarrow> srv_inv A (snd (process_ws_frames a i inp s))"
proof (induction a i inp s rule: process_ws_frames.induct)
  case (1 a i inp s)
  let ?r = "ws_decode_frame3 (Some inp)"
  let ?d = "take (w3_len ?r) (drop (the (w3_offset ?r)) (w3_buf ?r))" and ?rest = "drop (w3_consumed ?r) (w3_buf ?r)"
  obtain ret s1 where p: "HttpConnection_ws_send_pong i (Some ?d) (w3_len ?r) s = (ret, s1)" by fastforce
  obtain ok s2 where d: "ws_deliver a i (w3_opcode ?r) ?d s = (ok, s2)" by fastforce
  have "srv_inv A s1" "srv_inv A s2"
    using inv_ws_sends(3) [of A s i "Some ?d" "w3_len ?r"] inv_deliver [of A s i a "w3_opcode ?r" ?d] p d "1.prems" by simp_all
  then have i: "srv_inv A (set_ws_in i ?rest s1)" "srv_inv A (set_ws_in i ?rest s2)" by (simp_all add: inv_set_ws_in)
  show ?case
    using "1.prems" "1.IH" i p d
    by (subst process_ws_frames.simps)
      (auto simp: Let_def lifecycle split: ws_status.splits)
qed

lemma inv_refuse [lifecycle]: "srv_inv A s \<Longrightarrow> i \<in> A \<Longrightarrow> srv_inv A (refuse i code s)"
  by (auto simp: refuse_def raw_send_def flags_def split: list.splits intro!: inv_shutdown inv_upd)

lemma inv_upgrade [lifecycle]:
  assumes "srv_inv A s" "i \<in> A"
  shows "srv_inv A (upgrade_ws a i s)"
proof -
  let ?left = "hc_header (sv_conn s i)" and ?s1 = "upd i (\<lambda>c. c\<lparr>hc_mode := CONN_MODE_WS, hc_keep_alive := True\<rparr>) s"
  have 1: "srv_inv A ?s1" using assms by (intro inv_upd) (simp_all add: flags_def)
  define p where "p = (if ?left = [] then (True, ?s1)
               else case ask_mem ?s1 of (ok, s2) \<Rightarrow>
                 (ok, upd i (\<lambda>c. c\<lparr>hc_ws_in_cap := (if length ?left > 8192 then length ?left * 2 else 8192),
                                   hc_ws_in := (if ok then ?left else []), hc_header := (if ok then [] else ?left)\<rparr>) s2))"
  have 2: "srv_inv A (snd p)" using 1 inv_ask(3) [OF 1] by (auto simp: p_def flags_def split: prod.splits intro!: inv_upd)
  show ?thesis unfolding upgrade_ws_def Let_def p_def [symmetric] using 2 assms(2)
    by (auto simp: lifecycle split: prod.splits option.splits)
qed

lemma inv_handle [lifecycle]:
  assumes "srv_inv A s" "i \<in> A"
  shows "srv_inv A (snd (handle_request F a mem i s))"
proof -
  have 1: "srv_inv A (upd i (\<lambda>c. c\<lparr>hc_req := r\<rparr>) s)" for r using assms by (intro inv_upd) (simp_all add: flags_def)
  have 2: "srv_inv A (upd i (\<lambda>c. c\<lparr>hc_req := None, hc_res := None\<rparr>) (fold (out_call i) ops (upd i (\<lambda>c. c\<lparr>hc_req := r\<rparr>) s)))" for ops r
    by (intro inv_upd inv_out_calls 1 assms) (simp_all add: flags_def)
  note 3 = 2 [of "[]", simplified]
  show ?thesis using assms 1 2 3
    by (auto simp: handle_request_def Let_def lifecycle split: option.splits prod.splits)
qed

lemma inv_on_header [lifecycle]:
  assumes "srv_inv A s" "i \<in> A"
  shows "srv_inv A (snd (on_header F a rm i bs s))"
  using assms
  by (auto simp: on_header_def Let_def flags_def split: option.splits sum.splits refusal.splits prod.splits
      intro!: inv_handle inv_upd inv_shutdown inv_refuse inv_fields [THEN iffD2])

lemma inv_on_body [lifecycle]:
  assumes "srv_inv A s" "i \<in> A"
  shows "srv_inv A (snd (on_body F a rm i bs s))"
  using assms by (auto simp: on_body_def Let_def flags_def split: option.splits intro!: inv_handle inv_upd)

lemma inv_ws_room [lifecycle]:
  assumes "srv_inv A s"
  shows "srv_inv A (snd (ws_room i s))"
proof -
  define p where "p = (if hc_ws_in_cap (sv_conn s i) = 0
            then (case ask_mem s of (ok, s1) \<Rightarrow> (ok, upd i (\<lambda>c. c\<lparr>hc_ws_in_cap := 8192\<rparr>) s1)) else (True, s))"
  have 1: "srv_inv A (snd p)" using assms inv_ask(3) [OF assms] by (auto simp: p_def flags_def split: prod.splits intro!: inv_upd)
  show ?thesis unfolding ws_room_def p_def [symmetric] using 1 inv_ask(3) [OF 1]
    by (auto simp: Let_def flags_def split: prod.splits intro!: inv_upd)
qed

lemma inv_take_in [lifecycle]:
  assumes "srv_inv A s" "i \<in> A"
  shows "srv_inv A (snd (take_in F a rm i bs s))"
proof -
  have "srv_inv A (snd (on_ws_bytes a i bs s))"
    using inv_process [OF inv_set_ws_in [OF assms(1), of i "hc_ws_in (sv_conn s i) @ bs"] assms(2), of a "hc_ws_in (sv_conn s i) @ bs"]
    by (auto simp: on_ws_bytes_def Let_def split: prod.splits)
  with assms show ?thesis by (simp add: take_in_def lifecycle)
qed

lemma inv_readable_loop [lifecycle]:
  "srv_inv A s \<Longrightarrow> i \<in> A \<Longrightarrow> srv_inv A (fst (readable_loop F a rm i rx s))"
proof (induction F a rm i rx s rule: readable_loop.induct)
  case (1 F a rm i rx s)
  obtain ok s1 where r: "(if hc_mode (sv_conn s i) = CONN_MODE_WS then ws_room i s else (True, s)) = (ok, s1)" by fastforce
  then have s1: "srv_inv A s1" using inv_ws_room [OF "1.prems"(1), of i] "1.prems" by (auto split: if_splits)
  have s2: "take_in F a rm i bs s1 = (go, s2) \<Longrightarrow> srv_inv A s2" for bs go s2 using inv_take_in [OF s1 "1.prems"(2), of F a rm bs] by simp
  note IH = "1.IH" [OF r [symmetric]]
  show ?case
    using s1 s2 IH "1.prems"(2) r inv_shutdown [OF s1 "1.prems"(2)]
    by (subst readable_loop.simps) (auto split: recv_result.splits prod.splits)
qed

lemma inv_on_readable [lifecycle]: "srv_inv A s \<Longrightarrow> i \<in> A \<Longrightarrow> srv_inv A (fst (HttpConnection_on_readable F a rm i rx s))"
  by (simp add: HttpConnection_on_readable_def inv_readable_loop)

section \<open>The server\<close>

definition accepted :: "(nat option \<times> bool) list \<Rightarrow> nat list" where
  "accepted cs = concat (map (\<lambda>(m, added). case m of Some i \<Rightarrow> if added then [i] else [] | None \<Rightarrow> []) cs)"

lemma inv_accept_one:
  assumes "srv_inv A s" "i \<notin> A" "hc_server c" "\<not> hc_shutdown_done c"
  shows "srv_inv (insert i A) ((upd i (\<lambda>_. c) s)\<lparr>sv_conns := i # sv_conns s\<rparr>)"
  using assms by (auto simp: srv_inv_def upd_def)

lemma inv_accept_loop:
  fixes s :: "'a HttpServer"
  shows "srv_inv A s \<Longrightarrow> distinct (accepted cs) \<Longrightarrow> set (accepted cs) \<inter> A = {} \<Longrightarrow> srv_inv (A \<union> set (accepted cs)) (accept_loop cs s)"
proof (induction cs arbitrary: A s)
  case (Cons x cs)
  obtain m added where x: "x = (m, added)" by (cases x) auto
  show ?case
  proof (cases "\<exists>i. m = Some i \<and> added")
    case True
    then obtain i where i: "m = Some i" "added" by blast
    obtain c :: "'a HttpConnection" where c: "new_HttpConnection True = Some c" "hc_server c" "\<not> hc_shutdown_done c" by (simp add: new_HttpConnection_def)
    have acc: "accepted (x # cs) = i # accepted cs" by (simp add: x i accepted_def)
    let ?s = "(upd i (\<lambda>_. c) s)\<lparr>sv_conns := i # sv_conns s\<rparr>"
    have "srv_inv (insert i A) ?s" using inv_accept_one [OF Cons.prems(1) _ c(2,3)] Cons.prems(3) acc by simp
    from Cons.IH [OF this] Cons.prems(2,3) acc x i c(1) show ?thesis by simp
  next
    case False
    then have "accepted (x # cs) = accepted cs" "accept_loop (x # cs) s = accept_loop cs s"
      by (auto simp: x accepted_def split: option.splits)
    with Cons show ?thesis by simp
  qed
qed (simp add: accepted_def)

lemma inv_on_accept:
  assumes "srv_inv A s" "distinct (accepted cs)" "set (accepted cs) \<inter> A = {}"
  shows "srv_inv (A \<union> (if sv_shutting_down s then {} else set (accepted cs))) (on_accept_cb cs s)"
proof (cases "sv_shutting_down s")
  case True
  then show ?thesis using assms(1) inv_ask(1) [OF assms(1)]
    by (auto simp: on_accept_cb_def split: prod.splits intro!: inv_finish)
qed (simp add: on_accept_cb_def inv_accept_loop [OF assms])

lemma inv_force_close: "srv_inv A s \<Longrightarrow> set is \<subseteq> A \<Longrightarrow> srv_inv A (force_close is s)"
proof (induction "is" arbitrary: s)
  case (Cons i "is")
  have 1: "srv_inv A (upd i (\<lambda>c. c\<lparr>hc_out := []\<rparr>) s)" using Cons.prems by (intro inv_upd) (simp_all add: flags_def)
  have "i \<in> A" using Cons.prems by simp
  with 1 Cons show ?case by (simp add: Let_def inv_shutdown)
qed simp

lemma inv_begin_close: "srv_inv A s \<Longrightarrow> set is \<subseteq> A \<Longrightarrow> srv_inv A (begin_close is s)"
proof (induction "is" arbitrary: s)
  case (Cons i "is")
  have "srv_inv A (upd i (\<lambda>c. c\<lparr>hc_is_closing := True, hc_keep_alive := False\<rparr>) s)" using Cons.prems by (intro inv_upd) (simp_all add: flags_def)
  with Cons show ?case by (simp add: inv_shutdown inv_ws_close)
qed simp

lemma conns_sub: "srv_inv A s \<Longrightarrow> set (sv_conns s) \<subseteq> A"
  by (auto simp: srv_inv_def)

lemma inv_tick [lifecycle]: "srv_inv A s \<Longrightarrow> srv_inv A (on_shutdown_retry_tick now s)"
  by (simp add: on_shutdown_retry_tick_def Let_def inv_finish inv_sweep inv_force_close conns_sub)

lemma inv_drain [lifecycle]:
  "srv_inv A s \<Longrightarrow> srv_inv A (HttpServer_drain_retain s)" "srv_inv A s \<Longrightarrow> srv_inv A (HttpServer_drain_release s)"
  by (simp_all add: HttpServer_drain_retain_def HttpServer_drain_release_def Let_def inv_finish inv_sweep)

lemma inv_begin_shutdown [lifecycle]:
  assumes "srv_inv A s"
  shows "srv_inv A (snd (HttpServer_begin_shutdown timer now s))"
proof -
  let ?s1 = "HttpServer_sweep_closing (s\<lparr>sv_shutting_down := True, sv_shutdown_started_ms := now, sv_timer := True\<rparr>)"
  have "srv_inv A ?s1" using assms by (intro inv_sweep) simp
  with inv_begin_close [OF this conns_sub [OF this]] assms show ?thesis
    by (auto simp: HttpServer_begin_shutdown_def Let_def split: prod.splits intro!: inv_finish)
qed

text \<open>Everything that can happen to a server: its event handlers, in any order.\<close>

inductive server_run :: "'d fp \<Rightarrow> 'd app \<Rightarrow> nat set \<Rightarrow> 'd HttpServer \<Rightarrow> bool" for F a where
  start: "new_HttpServer True none running = Some s0
    \<Longrightarrow> s = s0\<lparr>sv_on_ws_close := on_close, sv_removes := removes, sv_modifies := modifies, sv_mem := mem\<rparr> \<Longrightarrow> server_run F a {} s"
| listen: "server_run F a A s \<Longrightarrow> server_run F a A (snd (impl_listen made added s))"
| accept: "server_run F a A s \<Longrightarrow> distinct (accepted cs) \<Longrightarrow> set (accepted cs) \<inter> A = {}
    \<Longrightarrow> B = A \<union> (if sv_shutting_down s then {} else set (accepted cs)) \<Longrightarrow> server_run F a B (on_accept_cb cs s)"
| readable: "server_run F a A s \<Longrightarrow> i \<in> A \<Longrightarrow> server_run F a A (fst (HttpConnection_on_readable F a rm i rx s))"
| writable: "server_run F a A s \<Longrightarrow> i \<in> A \<Longrightarrow> server_run F a A (HttpConnection_on_writable i s)"
| socket: "server_run F a A s \<Longrightarrow> server_run F a A (upd i (\<lambda>c. c\<lparr>hc_tx := tx, hc_open := is_open\<rparr>) s)"
| call: "server_run F a A s \<Longrightarrow> i \<in> A \<Longrightarrow> server_run F a A (ws_call i w s)"
| retain: "server_run F a A s \<Longrightarrow> server_run F a A (HttpServer_drain_retain s)"
| release: "server_run F a A s \<Longrightarrow> server_run F a A (HttpServer_drain_release s)"
| shutdown: "server_run F a A s \<Longrightarrow> server_run F a A (snd (HttpServer_begin_shutdown timer now s))"
| tick: "server_run F a A s \<Longrightarrow> server_run F a A (on_shutdown_retry_tick now s)"
| stop: "server_run F a A s \<Longrightarrow> server_run F a A (HttpServer_impl_stop s)"

lemma server_run_inv: "server_run F a A s \<Longrightarrow> srv_inv A s"
proof (induction rule: server_run.induct)
  case (start none running s0 s on_close removes modifies mem)
  then show ?case by (auto simp: new_HttpServer_def srv_inv_def)
next
  case (accept A s cs B)
  with inv_on_accept [of A s cs] show ?case by simp
qed (auto simp: lifecycle impl_listen_def HttpConnection_on_writable_def HttpServer_impl_stop_def flags_def intro!: inv_upd)

section \<open>Graceful shutdown ends\<close>

text \<open>With a backend that lets go, a connection that is not pending leaves at once.\<close>

definition calm :: "'d HttpServer \<Rightarrow> bool" where
  "calm s \<longleftrightarrow> sv_removes s = [] \<and> sv_shutting_down s \<and> sv_drain_count s = 0"

lemma calm_ask: "calm s \<Longrightarrow> ask_remove s = (True, s)"
  by (simp add: calm_def ask_remove_def)

lemma calm_simps [simp]:
  "calm (upd i f s) = calm s" "calm (HttpServer_maybe_finish_shutdown s) = calm s" "calm (notify_ws_close i s) = calm s"
  "calm (drop_conn i s) = calm s"
  by (auto simp: calm_def HttpServer_maybe_finish_shutdown_def notify_conn drop_conn_def remove_conn_from_server_def Let_def)

lemma finish_simps [simp]:
  "sv_conns (HttpServer_maybe_finish_shutdown s) = sv_conns s" "sv_conn (HttpServer_maybe_finish_shutdown s) = sv_conn s"
  by (auto simp: HttpServer_maybe_finish_shutdown_def)

lemma drop_conns: "hc_server (sv_conn s i) \<Longrightarrow> sv_conns (drop_conn i s) = remove1 i (sv_conns s)"
  by (simp add: drop_conn_def remove_conn_from_server_def Let_def)

lemma drop_others: "j \<noteq> i \<Longrightarrow> sv_conn (drop_conn i s) j = sv_conn s j"
  by (simp add: drop_conn_def remove_conn_from_server_def Let_def)

lemma notify_others: "j \<noteq> i \<Longrightarrow> sv_conn (notify_ws_close i s) j = sv_conn s j"
  by (simp add: notify_ws_close_def Let_def)

lemma shutdown_calm:
  assumes "srv_inv A s" "calm s" "i \<in> set (sv_conns s)"
  shows "calm (conn_shutdown i s)" "j \<noteq> i \<Longrightarrow> sv_conn (conn_shutdown i s) j = sv_conn s j"
    "set (sv_conns (conn_shutdown i s)) = (if hc_backend_remove_pending (sv_conn s i) then set (sv_conns s) else set (sv_conns s) - {i})"
proof -
  have c: "hc_server (sv_conn s i)" "\<not> hc_shutdown_done (sv_conn s i)" "distinct (sv_conns s)" using assms by (auto simp: srv_inv_def)
  let ?s1 = "notify_ws_close i (upd i (\<lambda>c. c\<lparr>hc_is_closing := True\<rparr>) s)"
  have a: "ask_remove ?s1 = (True, ?s1)" using assms(2) by (intro calm_ask) simp
  show "calm (conn_shutdown i s)" using assms(2) a by (simp add: conn_shutdown_def Let_def)
  show "j \<noteq> i \<Longrightarrow> sv_conn (conn_shutdown i s) j = sv_conn s j" using a by (simp add: conn_shutdown_def Let_def drop_others notify_others)
  show "set (sv_conns (conn_shutdown i s)) = (if hc_backend_remove_pending (sv_conn s i) then set (sv_conns s) else set (sv_conns s) - {i})"
    using a c by (auto simp: conn_shutdown_def Let_def drop_conns notify_conn)
qed

lemma force_close_calm:
  "srv_inv A s \<Longrightarrow> calm s \<Longrightarrow> distinct is \<Longrightarrow> set is \<subseteq> set (sv_conns s)
     \<Longrightarrow> \<forall>j \<in> set (sv_conns s) - set is. hc_backend_remove_pending (sv_conn s j)
     \<Longrightarrow> calm (force_close is s) \<and> (\<forall>j \<in> set (sv_conns (force_close is s)). hc_backend_remove_pending (sv_conn (force_close is s) j))"
proof (induction "is" arbitrary: s)
  case (Cons i "is")
  let ?s1 = "upd i (\<lambda>c. c\<lparr>hc_out := []\<rparr>) s"
  have 1: "srv_inv A ?s1" using Cons.prems by (intro inv_upd) (simp_all add: flags_def)
  have i: "i \<in> set (sv_conns ?s1)" "i \<in> A" "\<not> hc_shutdown_done (sv_conn ?s1 i)" using Cons.prems by (auto simp: srv_inv_def)
  have c: "calm ?s1" using Cons.prems(2) by simp
  note sh = shutdown_calm [OF 1 c i(1)]
  let ?s2 = "conn_shutdown i ?s1"
  have 2: "srv_inv A ?s2" using 1 i(2) by (rule inv_shutdown)
  have p: "hc_backend_remove_pending (sv_conn ?s1 i) \<Longrightarrow> ?s2 = ?s1" by (simp add: conn_shutdown_def)
  have sub: "set is \<subseteq> set (sv_conns ?s2)" using Cons.prems(3,4) sh(3) by auto
  have "\<forall>j \<in> set (sv_conns ?s2) - set is. hc_backend_remove_pending (sv_conn ?s2 j)"
  proof
    fix j assume j: "j \<in> set (sv_conns ?s2) - set is"
    show "hc_backend_remove_pending (sv_conn ?s2 j)"
    proof (cases "j = i")
      case True
      with j sh(3) p show ?thesis by (auto split: if_splits)
    next
      case False
      with j sh(3) have "j \<in> set (sv_conns s) - set (i # is)" by (auto split: if_splits)
      with Cons.prems(5) sh(2) [OF False] False show ?thesis by simp
    qed
  qed
  from Cons.IH [OF 2 sh(1) _ sub this] Cons.prems(3) i(3) show ?case by (simp add: Let_def)
qed simp

lemma sweep_calm:
  "srv_inv A s \<Longrightarrow> calm s \<Longrightarrow> distinct is \<Longrightarrow> set (sv_conns s) = set is \<Longrightarrow> \<forall>j \<in> set is. hc_backend_remove_pending (sv_conn s j)
     \<Longrightarrow> sv_conns (sweep_conns is s) = [] \<and> calm (sweep_conns is s) \<and> sv_sock (sweep_conns is s) = sv_sock s"
proof (induction "is" arbitrary: s)
  case (Cons i "is")
  have i: "i \<in> set (sv_conns s)" using Cons.prems(4) by simp
  then have c: "hc_server (sv_conn s i)" "\<not> hc_shutdown_done (sv_conn s i)" "hc_backend_remove_pending (sv_conn s i)" "distinct (sv_conns s)"
    using Cons.prems by (auto simp: srv_inv_def)
  let ?s = "drop_conn i s"
  have "srv_inv A ?s" using Cons.prems(1) i by (rule inv_drop)
  moreover have "set (sv_conns ?s) = set is" using c Cons.prems(3,4) by (simp add: drop_conns)
  moreover have "sv_sock ?s = sv_sock s" by (simp add: drop_conn_def remove_conn_from_server_def Let_def)
  moreover have "\<forall>j \<in> set is. hc_backend_remove_pending (sv_conn ?s j)"
  proof
    fix j assume "j \<in> set is"
    then have "j \<noteq> i" using Cons.prems(3) by auto
    with \<open>j \<in> set is\<close> Cons.prems(5) show "hc_backend_remove_pending (sv_conn ?s j)" by (simp add: drop_others)
  qed
  ultimately show ?case using Cons.IH [of ?s] Cons.prems(2,3) c by (simp add: calm_ask)
qed simp

lemma sweep_closing_calm:
  assumes "srv_inv A s" "calm s" "\<forall>j \<in> set (sv_conns s). hc_backend_remove_pending (sv_conn s j)"
  shows "sv_conns (HttpServer_sweep_closing s) = [] \<and> calm (HttpServer_sweep_closing s) \<and> \<not> sv_sock (HttpServer_sweep_closing s)"
proof -
  let ?s1 = "if sv_sock s then s\<lparr>sv_sock := False\<rparr> else s"
  have "srv_inv A ?s1" "calm ?s1" "distinct (sv_conns ?s1)" using assms by (auto simp: calm_def srv_inv_def)
  from sweep_calm [OF this refl] assms(2,3) show ?thesis
    by (auto simp: HttpServer_sweep_closing_def Let_def calm_ask calm_def split: if_splits)
qed

section \<open>Output stays in order\<close>

text \<open>What a connection has sent and what it still has to send.\<close>

definition conn_stream :: "'d HttpConnection \<Rightarrow> byte list" where
  "conn_stream c = hc_sent c @ hc_out c"

definition io :: "'d HttpConnection \<Rightarrow> byte list \<times> byte list" where
  "io c = (hc_sent c, hc_out c)"

lemma io_eq: "io c = io d \<Longrightarrow> conn_stream c = conn_stream d \<and> hc_out c = hc_out d"
  by (simp add: io_def conn_stream_def)

lemma io_upd [simp]: "(\<And>c. io (f c) = io c) \<Longrightarrow> io (sv_conn (upd i f s) j) = io (sv_conn s j)"
  by (simp add: upd_def)

lemma io_fields [simp]:
  "io (c\<lparr>hc_is_closing := b\<rparr>) = io c" "io (c\<lparr>hc_backend_remove_pending := b\<rparr>) = io c" "io (c\<lparr>hc_shutdown_done := b\<rparr>) = io c"
  "io (c\<lparr>hc_server := b\<rparr>) = io c" "io (c\<lparr>hc_ws_close_notified := b\<rparr>) = io c" "io (c\<lparr>hc_is_write_registered := b\<rparr>) = io c"
  "io (c\<lparr>hc_close_write_only_registered := b\<rparr>) = io c"
  by (simp_all add: io_def)

lemma io_shutdown [simp]:
  "io (sv_conn (conn_shutdown i s) j) = io (sv_conn s j)" "sv_mem (conn_shutdown i s) = sv_mem s"
proof -
  have n: "io (sv_conn (notify_ws_close i s) j) = io (sv_conn s j)" "sv_mem (notify_ws_close i s) = sv_mem s" for s :: "'a HttpServer"
    by (simp_all add: notify_ws_close_def Let_def)
  have d: "io (sv_conn (drop_conn i s) j) = io (sv_conn s j)" "sv_mem (drop_conn i s) = sv_mem s" for s :: "'a HttpServer"
    by (simp_all add: drop_conn_def remove_conn_from_server_def Let_def)
  have m: "sv_mem (HttpServer_maybe_finish_shutdown s) = sv_mem s" "sv_mem (snd (ask_remove s)) = sv_mem s" for s :: "'a HttpServer"
    by (simp_all add: HttpServer_maybe_finish_shutdown_def ask_remove_def split: list.splits)
  let ?s = "notify_ws_close i (upd i (\<lambda>c. c\<lparr>hc_is_closing := True\<rparr>) s)"
  obtain g s2 where r: "ask_remove ?s = (g, s2)" by fastforce
  then have s2: "sv_conn s2 = sv_conn ?s" "sv_mem s2 = sv_mem ?s" using ask_conn(1) [of ?s] m(2) [of ?s] by simp_all
  show "io (sv_conn (conn_shutdown i s) j) = io (sv_conn s j)" "sv_mem (conn_shutdown i s) = sv_mem s"
    using r s2 by (auto simp: conn_shutdown_def Let_def n d m(1))
qed

lemma flush_loop_exact: "flush_loop tx out = (ok, sent, rest, tx1) \<Longrightarrow> sent @ rest = out"
  by (induction tx out arbitrary: sent rest rule: flush_loop.induct) (auto split: if_splits prod.splits)

lemma io_register: "io (sv_conn (snd (register_write i s)) j) = io (sv_conn s j)" "sv_mem (snd (register_write i s)) = sv_mem s"
proof -
  have t: "io (sv_conn (snd (try_modify i f s)) j) = io (sv_conn s j)" "sv_mem (snd (try_modify i f s)) = sv_mem s"
    if "\<And>c. io (f c) = io c" for f
    using that by (auto simp: try_modify_def ask_modify_def split: list.splits)
  show "io (sv_conn (snd (register_write i s)) j) = io (sv_conn s j)" "sv_mem (snd (register_write i s)) = sv_mem s"
    by (auto simp: register_write_def Let_def t)
qed

lemma stream_flush:
  "conn_stream (sv_conn (HttpConnection_flush i s) j) = conn_stream (sv_conn s j)"
  "length (hc_out (sv_conn (HttpConnection_flush i s) j)) \<le> length (hc_out (sv_conn s j))"
  "sv_mem (HttpConnection_flush i s) = sv_mem s"
proof -
  obtain ok out rest tx where f: "flush_loop (hc_tx (sv_conn s i)) (hc_out (sv_conn s i)) = (ok, out, rest, tx)"
    using prod_cases4 by blast
  note e = flush_loop_exact [OF f]
  let ?s1 = "upd i (\<lambda>c. c\<lparr>hc_sent := hc_sent c @ out, hc_out := rest, hc_tx := tx\<rparr>) s"
  have 1: "conn_stream (sv_conn ?s1 j) = conn_stream (sv_conn s j)" "length (hc_out (sv_conn ?s1 j)) \<le> length (hc_out (sv_conn s j))"
    using e [symmetric] by (auto simp: upd_def conn_stream_def)
  obtain go s2 where r: "register_write i ?s1 = (go, s2)" by fastforce
  have 2: "io (sv_conn s2 j) = io (sv_conn ?s1 j)" "sv_mem s2 = sv_mem s" using io_register [of i ?s1] r by simp_all
  have 3: "io (sv_conn (HttpConnection_flush i s) j) = io (sv_conn ?s1 j) \<or> HttpConnection_flush i s = s" "sv_mem (HttpConnection_flush i s) = sv_mem s"
    using 2 f r by (auto simp: HttpConnection_flush_def Let_def)
  show "sv_mem (HttpConnection_flush i s) = sv_mem s" by (rule 3(2))
  from 3(1) show "conn_stream (sv_conn (HttpConnection_flush i s) j) = conn_stream (sv_conn s j)"
    using io_eq [of "sv_conn (HttpConnection_flush i s) j" "sv_conn ?s1 j"] 1 by auto
  from 3(1) show "length (hc_out (sv_conn (HttpConnection_flush i s) j)) \<le> length (hc_out (sv_conn s j))"
    using io_eq [of "sv_conn (HttpConnection_flush i s) j" "sv_conn ?s1 j"] 1 by auto
qed

lemma stream_append:
  assumes "sv_mem s = []" "length (hc_out (sv_conn s i)) + length d \<le> SIZE_MAX"
  shows "conn_stream (sv_conn (HttpConnection_append_send i d s) i) = conn_stream (sv_conn s i) @ d"
    "j \<noteq> i \<Longrightarrow> sv_conn (HttpConnection_append_send i d s) j = sv_conn s j"
    "hc_out (sv_conn (HttpConnection_append_send i d s) i) = hc_out (sv_conn s i) @ d" "sv_mem (HttpConnection_append_send i d s) = []"
  using assms by (auto simp: HttpConnection_append_send_def append_out_buf_def ask_mem_def Let_def conn_stream_def)

fun appended :: "out_op list \<Rightarrow> byte list" where
  "appended [] = []"
| "appended (Append d # ops) = d @ appended ops"
| "appended (Flush # ops) = appended ops"

lemma stream_calls:
  "sv_mem s = [] \<Longrightarrow> length (hc_out (sv_conn s i)) + length (appended ops) \<le> SIZE_MAX
    \<Longrightarrow> conn_stream (sv_conn (fold (out_call i) ops s) i) = conn_stream (sv_conn s i) @ appended ops
      \<and> (\<forall>j. j \<noteq> i \<longrightarrow> conn_stream (sv_conn (fold (out_call i) ops s) j) = conn_stream (sv_conn s j))"
proof (induction ops arbitrary: s rule: appended.induct)
  case (2 d ops)
  from "2.prems" stream_append [of s i d] have "sv_mem (out_call i (Append d) s) = []"
    "length (hc_out (sv_conn (out_call i (Append d) s) i)) + length (appended ops) \<le> SIZE_MAX" by (simp_all add: out_call_def)
  from "2.IH" [OF this] stream_append [of s i d] "2.prems" show ?case by (simp add: out_call_def)
next
  case (3 ops)
  from "3.prems" stream_flush(2,3) [of i s] have "sv_mem (out_call i Flush s) = []"
    "length (hc_out (sv_conn (out_call i Flush s) i)) + length (appended ops) \<le> SIZE_MAX"
    by (auto simp: out_call_def intro: order_trans [OF add_right_mono])
  from "3.IH" [OF this] stream_flush(1) [of i s] show ?case by (simp add: out_call_def)
qed simp

section \<open>Theorems\<close>




section \<open>Witnesses\<close>

definition demo_app :: "'d app" where
  "demo_app = \<lparr>ap_dispatch = None, ap_ws_open = None, ap_ws_frame = None, ap_ws_message = None\<rparr>"

definition demo_conn :: "'d HttpConnection" where
  "demo_conn = the (new_HttpConnection True)"

text \<open>A server whose backend at first keeps the listening socket and its only connection.\<close>

definition demo_server :: "int HttpServer" where
  "demo_server = snd (HttpServer_begin_shutdown (True, True, True) 0 (on_accept_cb [(Some 1, True)] (snd (impl_listen True True
     ((the (new_HttpServer True (\<lambda>_. demo_conn) True))\<lparr>sv_on_ws_close := True, sv_removes := [False, False], sv_modifies := [], sv_mem := []\<rparr>)))))"

lemma demo_server_run: "server_run int_fp demo_app {1} demo_server"
proof -
  let ?s0 = "the (new_HttpServer True (\<lambda>_. demo_conn) True) :: int HttpServer"
  have "server_run int_fp demo_app {} (?s0\<lparr>sv_on_ws_close := True, sv_removes := [False, False], sv_modifies := [], sv_mem := []\<rparr>)"
    by (rule server_run.start [OF _ refl, where none = "\<lambda>_. demo_conn" and running = True]) (simp add: new_HttpServer_def)
  from server_run.listen [OF this, of True True]
  have "server_run int_fp demo_app {1} (on_accept_cb [(Some 1, True)] (snd (impl_listen True True
      (?s0\<lparr>sv_on_ws_close := True, sv_removes := [False, False], sv_modifies := [], sv_mem := []\<rparr>))))"
    by (rule server_run.accept) (simp_all add: accepted_def impl_listen_def new_HttpServer_def)
  then show ?thesis unfolding demo_server_def by (rule server_run.shutdown)
qed

lemma demo_server_state:
  "sv_shutting_down demo_server" "sv_shutdown_started_ms demo_server = 0" "sv_drain_count demo_server = 0" "sv_removes demo_server = []"
  "sv_running demo_server" "sv_conns demo_server = [1]" "sv_sock demo_server"
  "sv_mem demo_server = []" "hc_sent (sv_conn demo_server 1) = []" "hc_out (sv_conn demo_server 1) = []"
  by (simp_all add: demo_server_def HttpServer_begin_shutdown_def on_accept_cb_def impl_listen_def new_HttpServer_def new_HttpConnection_def
      demo_conn_def HttpServer_sweep_closing_def ask_remove_def conn_shutdown_def notify_ws_close_def HttpServer_maybe_finish_shutdown_def
      Let_def upd_def)




end
