(* ===== verification/Http_Framing.thy ===== *)
theory Http_Framing
  imports Http_Response
begin

text \<open>
  Correctness of the response parser of \<open>Http_Response\<close>. The grammar of a message is stated on lists of bytes
  (\<open>header_section\<close>, \<open>chunked\<close>); the parser accepts only what it describes, with exactly one reading of the body's
  length, and accepts everything of it within the limits.
\<close>

section \<open>The buffer\<close>

definition body_text :: "ByteBuffer \<Rightarrow> byte list" where
  "body_text buf = take (bb_write_pos buf) (bb_data buf)"

definition body_inv :: "ByteBuffer \<Rightarrow> bool" where
  "body_inv buf \<longleftrightarrow> bb_inv buf \<and> bb_read_pos buf = 0"

lemma body_text_content: "body_inv buf \<Longrightarrow> body_text buf = bb_content buf"
  by (simp add: body_inv_def body_text_def bb_content_def)

lemma length_body_text: "body_inv buf \<Longrightarrow> length (body_text buf) = bb_write_pos buf"
  by (simp add: body_inv_def body_text_def bb_inv_def)

lemma ensure_capacity_read_pos:
  assumes "bb_read_pos s = 0" "ensure_capacity mem s len = (r, s1)"
  shows "bb_read_pos s1 = 0 \<and> bb_write_pos s1 = bb_write_pos s"
  using assms by (auto simp: ensure_capacity_def Let_def split: if_splits option.splits alloc.splits)

lemma put_body_sound:
  assumes "body_inv buf" "put_body mem buf c = Some buf1"
  shows "body_inv buf1 \<and> body_text buf1 = body_text buf @ [c]"
proof -
  obtain r s1 where e: "ensure_capacity (hm_write mem (bb_write_pos buf)) buf 1 = (r, s1)" by fastforce
  note sp = ensure_capacity_spec [OF conjunct1 [OF assms(1) [unfolded body_inv_def]] e]
  from assms(2) e have r: "r = 0" and b: "buf1 = s1\<lparr>bb_data := (bb_data s1)[bb_write_pos s1 := c], bb_write_pos := bb_write_pos s1 + 1\<rparr>"
    by (auto simp: put_body_def ByteBuffer_writeByte_def split: if_splits)
  have rp: "bb_read_pos s1 = 0" using ensure_capacity_read_pos [OF _ e] assms(1) by (simp add: body_inv_def)
  have w: "bb_write_pos s1 + 1 \<le> bb_capacity s1" using sp(3) r by simp
  then have len: "bb_write_pos s1 < length (bb_data s1)" using sp(1) by (simp add: bb_inv_def)
  have b2: "buf1 = s1\<lparr>bb_data := put_bytes (bb_data s1) (bb_write_pos s1) [c], bb_write_pos := bb_write_pos s1 + length [c]\<rparr>"
    using b put_bytes_single [OF len] by simp
  have "bb_inv buf1" "bb_content buf1 = bb_content s1 @ [c]"
    unfolding b2 using put_bytes_content [OF sp(1), of "[c]"] w by simp_all
  moreover have "bb_read_pos buf1 = 0" using rp b by simp
  ultimately have "body_inv buf1" "bb_content buf1 = bb_content buf @ [c]" using sp(2) by (simp_all add: body_inv_def)
  with assms(1) show ?thesis by (simp add: body_text_content)
qed

text \<open>Memory that is always there, and buffers that can take \<open>N\<close> bytes: large enough already, or of a capacity that
  doubling takes to the maximum.\<close>

definition mem_ok :: "http_mem \<Rightarrow> bool" where
  "mem_ok mem \<longleftrightarrow> hm_res mem \<and> (\<forall>i. hm_header mem i) \<and> (\<forall>i. hm_cookie mem i) \<and> hm_buf mem \<noteq> Alloc_Fail
     \<and> hm_data mem \<noteq> Alloc_Fail \<and> (\<forall>i. hm_write mem i \<noteq> Alloc_Fail) \<and> hm_body mem"

definition room :: "nat \<Rightarrow> ByteBuffer \<Rightarrow> bool" where
  "room N buf \<longleftrightarrow> body_inv buf \<and> N \<le> 2 ^ 24 \<and> (N \<le> bb_capacity buf \<or> (\<exists>k \<le> 24. bb_capacity buf = 2 ^ k))"

lemma bb_grow_pow:
  "k \<le> 24 \<Longrightarrow> needed \<le> 2 ^ 24 \<Longrightarrow> \<exists>m \<le> 24. bb_grow needed (2 ^ k) = Some (2 ^ m)"
proof (induction "24 - k" arbitrary: k)
  case 0
  then have "k = 24" by simp
  with 0 show ?case by (intro exI [of _ 24]) (simp add: bb_grow.simps)
next
  case (Suc d)
  show ?case
  proof (cases "2 ^ k < needed")
    case True
    have "(2 :: nat) ^ k \<le> 2 ^ 23" using Suc.hyps(2) by (intro power_increasing) auto
    then have "bb_grow needed (2 ^ k) = bb_grow needed (2 ^ Suc k)"
      using True by (subst bb_grow.simps) (simp add: mult.commute)
    with Suc.hyps Suc.prems show ?thesis by (metis Suc_diff_Suc diff_Suc_1 diff_is_0_eq not_less_eq_eq zero_less_Suc zero_less_diff Suc_leI)
  next
    case False
    with Suc.prems show ?thesis by (intro exI [of _ k]) (simp add: bb_grow.simps)
  qed
qed

lemma put_body_room:
  assumes "room N buf" "bb_write_pos buf < N" "hm_write mem (bb_write_pos buf) \<noteq> Alloc_Fail"
  shows "\<exists>buf1. put_body mem buf c = Some buf1 \<and> room N buf1"
proof -
  let ?w = "bb_write_pos buf"
  from assms(3) obtain j where j: "hm_write mem ?w = Alloc_Ok j" by (cases "hm_write mem ?w") auto
  have inv: "bb_inv buf" "bb_read_pos buf = 0" "N \<le> 2 ^ 24" using assms(1) by (auto simp: room_def body_inv_def)
  have w: "\<not> 1 > SIZE_MAX - ?w" using assms(2) inv(3) by simp
  have "\<exists>s1. ensure_capacity (Alloc_Ok j) buf 1 = (0, s1) \<and> (N \<le> bb_capacity s1 \<or> (\<exists>k \<le> 24. bb_capacity s1 = 2 ^ k))"
  proof (cases "?w + 1 \<le> bb_capacity buf")
    case True
    then have "ensure_capacity (Alloc_Ok j) buf 1 = (0, buf)" using w inv(2) by (simp add: ensure_capacity_def)
    with assms(1) show ?thesis by (auto simp: room_def)
  next
    case False
    with assms(1,2) obtain k where k: "k \<le> 24" "bb_capacity buf = 2 ^ k" by (auto simp: room_def)
    obtain m where m: "m \<le> 24" "bb_grow (?w + 1) (2 ^ k) = Some (2 ^ m)"
      using bb_grow_pow [OF k(1), of "?w + 1"] assms(2) inv(3) by auto
    then show ?thesis using False w inv(2) k by (auto simp: ensure_capacity_def)
  qed
  then obtain s1 where s1: "ensure_capacity (Alloc_Ok j) buf 1 = (0, s1)" "N \<le> bb_capacity s1 \<or> (\<exists>k \<le> 24. bb_capacity s1 = 2 ^ k)"
    by blast
  let ?b = "s1\<lparr>bb_data := (bb_data s1)[bb_write_pos s1 := c], bb_write_pos := bb_write_pos s1 + 1\<rparr>"
  have p: "put_body mem buf c = Some ?b" using s1 j by (simp add: put_body_def ByteBuffer_writeByte_def)
  with put_body_sound [OF _ p] assms(1) s1(2) show ?thesis by (auto simp: room_def)
qed

section \<open>Grammar\<close>

abbreviation eols :: "byte list set" where "eols \<equiv> {[10], [13, 10]}"

text \<open>A block of non-empty lines up to the empty one.\<close>

inductive header_section :: "cstring list \<Rightarrow> byte list \<Rightarrow> byte list \<Rightarrow> bool" where
  section_end: "e \<in> eols \<Longrightarrow> header_section [] (e @ r) r"
| section_line: "l \<noteq> [] \<Longrightarrow> \<forall>c \<in> set l. line_char c \<Longrightarrow> e \<in> eols \<Longrightarrow> header_section ls w r \<Longrightarrow>
    header_section (l # ls) (l @ e @ w) r"

inductive chunked :: "byte list \<Rightarrow> byte list \<Rightarrow> byte list \<Rightarrow> bool" where
  last_chunk: "\<forall>c \<in> set l. line_char c \<Longrightarrow> parse_chunk_size l = Some 0 \<Longrightarrow> header_section ls w r \<Longrightarrow>
    chunked (l @ [13, 10] @ w) [] r"
| chunk: "\<forall>c \<in> set l. line_char c \<Longrightarrow> parse_chunk_size l = Some (length d) \<Longrightarrow> d \<noteq> [] \<Longrightarrow> chunked w b r \<Longrightarrow>
    chunked (l @ [13, 10] @ d @ [13, 10] @ w) (d @ b) r"

text \<open>Reading a line, both ways.\<close>

lemma line_sound:
  assumes "HttpTransport_recv_line lgetc 4096 cs = Some ((ret, line), r)"
  shows "(\<forall>c \<in> set line. line_char c) \<and> (\<exists>e \<in> eols. ret = length line + length e \<and> cs = line @ e @ r)"
  using assms first_line_Some [of 4095 cs ret line r] by (simp add: recv_line_first_line)

lemma line_complete:
  "\<forall>c \<in> set line. line_char c \<Longrightarrow> e \<in> eols \<Longrightarrow> length line + length e \<le> 4095 \<Longrightarrow>
     HttpTransport_recv_line lgetc 4096 (line @ e @ r) = Some ((length line + length e, line), r)"
  using first_line_append [of line e 4095 r] by (simp add: recv_line_first_line)

lemma skip_block_sound:
  "skip_block strict lgetc cnt bytes cs = Some ((), r) \<Longrightarrow> \<exists>ls. header_section ls cs r"
proof (induction "101 - cnt" arbitrary: cnt bytes cs rule: less_induct)
  case less
  from less.prems obtain ret line r1 where l: "HttpTransport_recv_line lgetc 4096 cs = Some ((ret, line), r1)"
    by (subst (asm) skip_block.simps) (auto simp: bind_eq_Some_conv)
  from line_sound [OF l] obtain e where e: "\<forall>c \<in> set line. line_char c" "e \<in> eols" "cs = line @ e @ r1" by blast
  show ?case
  proof (cases "line = []")
    case True
    with less.prems l have "r = r1" by (subst (asm) skip_block.simps) (auto split: if_splits)
    with True e show ?thesis using section_end [OF e(2), of r1] by auto
  next
    case False
    with less.prems l have "skip_block strict lgetc (cnt + 1) (bytes + ret) r1 = Some ((), r)" "cnt < 100"
      by (subst (asm) skip_block.simps, auto split: if_splits)+
    moreover from this have "101 - (cnt + 1) < 101 - cnt" by arith
    ultimately obtain ls where "header_section ls r1 r" using less.hyps [of "cnt + 1" "bytes + ret" r1] by blast
    with section_line [OF False e(1,2)] e(3) show ?thesis by blast
  qed
qed

lemma read_bytes_sound:
  "read_bytes lgetc mem n buf cs = Some (buf1, r) \<Longrightarrow> body_inv buf \<Longrightarrow>
     \<exists>xs. cs = xs @ r \<and> length xs = n \<and> body_inv buf1 \<and> body_text buf1 = body_text buf @ xs"
proof (induction n arbitrary: buf cs)
  case (Suc n)
  from Suc.prems(1) obtain c cs1 b where c: "cs = c # cs1" "put_body mem buf c = Some b" "read_bytes lgetc mem n b cs1 = Some (buf1, r)"
    by (cases cs) (auto simp: bind_eq_Some_conv)
  from put_body_sound [OF Suc.prems(2) c(2)] Suc.IH [OF c(3)] obtain xs where
    "cs1 = xs @ r" "length xs = n" "body_inv buf1" "body_text buf1 = body_text buf @ [c] @ xs" by auto
  with c(1) show ?case by (intro exI [of _ "c # xs"]) simp
qed simp

lemma read_chunks_sound:
  "read_chunks lgetc mem tot buf cs = Some (buf1, r) \<Longrightarrow> body_inv buf \<Longrightarrow>
     \<exists>b. chunked cs b r \<and> body_inv buf1 \<and> body_text buf1 = body_text buf @ b"
proof (induction "HTTP_MAX_BODY - tot" arbitrary: tot buf cs rule: less_induct)
  case less
  from less.prems(1) obtain ret line r1 n where l: "HttpTransport_recv_line lgetc 4096 cs = Some ((ret, line), r1)"
    "int ret - int (length line) = 2" "parse_chunk_size line = Some n"
    by (subst (asm) read_chunks.simps) (auto simp: bind_eq_Some_conv split: if_splits)
  from line_sound [OF l(1)] l(2) have e: "\<forall>c \<in> set line. line_char c" "cs = line @ [13, 10] @ r1" by auto
  show ?case
  proof (cases "n = 0")
    case True
    with less.prems(1) l have "skip_block True lgetc 0 0 r1 = Some ((), r)" "buf1 = buf"
      by (subst (asm) read_chunks.simps, auto simp: bind_eq_Some_conv)+
    with skip_block_sound last_chunk [OF e(1)] l(3) True e(2) less.prems(2) show ?thesis by fastforce
  next
    case False
    from less.prems(1) l False obtain b1 r2 r3 r4 where s: "n \<le> HTTP_MAX_BODY - tot" "read_bytes lgetc mem n buf r1 = Some (b1, r2)"
      "lgetc r2 = Some (13, r3)" "lgetc r3 = Some (10, r4)" "read_chunks lgetc mem (tot + n) b1 r4 = Some (buf1, r)"
      by (subst (asm) read_chunks.simps) (auto simp: bind_eq_Some_conv split: if_splits)
    from read_bytes_sound [OF s(2) less.prems(2)] obtain xs where xs: "r1 = xs @ r2" "length xs = n" "body_inv b1"
      "body_text b1 = body_text buf @ xs" by blast
    have r2: "r2 = [13, 10] @ r4" using s(3,4) by (cases r2; cases r3) auto
    have "HTTP_MAX_BODY - (tot + n) < HTTP_MAX_BODY - tot" using False s(1) by arith
    from less.hyps [OF this s(5) xs(3)] obtain b where b: "chunked r4 b r" "body_inv buf1" "body_text buf1 = body_text b1 @ b"
      by blast
    have "chunked (line @ [13, 10] @ xs @ [13, 10] @ r4) (xs @ b) r"
      by (rule chunk) (use e(1) l(3) xs(2) False b(1) in auto)
    with b e(2) xs r2 show ?thesis by (intro exI [of _ "xs @ b"]) simp
  qed
qed

lemma read_eof_sound:
  "read_eof lgetc mem tot buf cs = Some (buf1, r) \<Longrightarrow> body_inv buf \<Longrightarrow>
     r = [] \<and> body_inv buf1 \<and> body_text buf1 = body_text buf @ cs"
proof (induction cs arbitrary: tot buf)
  case Nil
  then show ?case by (subst (asm) (1) read_eof.simps) auto
next
  case (Cons c cs)
  from Cons.prems(1) obtain b where b: "put_body mem buf c = Some b" "read_eof lgetc mem (tot + 1) b cs = Some (buf1, r)"
    by (subst (asm) read_eof.simps) (auto simp: bind_eq_Some_conv split: if_splits)
  from put_body_sound [OF Cons.prems(2) b(1)] Cons.IH [OF b(2)] show ?case by simp
qed

section \<open>Headers\<close>

text \<open>The raw values of the lines with a given name, and what the header loop makes of a list of lines.\<close>

definition header_values :: "cstring \<Rightarrow> cstring list \<Rightarrow> cstring list" where
  "header_values name ls = concat (map (\<lambda>l. case strchr l (ch CHR '':'') of None \<Rightarrow> []
     | Some i \<Rightarrow> if strcasecmp_eq (take i l) name then [drop (i + 1) l] else []) ls)"

abbreviation cl_values :: "cstring list \<Rightarrow> nat option list" where
  "cl_values ls \<equiv> map (\<lambda>v. parse_content_length v SIZE_MAX) (header_values (lit ''Content-Length'') ls)"

abbreviation te_values :: "cstring list \<Rightarrow> cstring list" where
  "te_values ls \<equiv> header_values (lit ''Transfer-Encoding'') ls"

definition te_chunked :: "cstring \<Rightarrow> bool" where
  "te_chunked v \<longleftrightarrow> strcasestr (dropWhile isspace v) (lit ''chunked'') \<noteq> None"

definition framing_inv :: "cstring list \<Rightarrow> framing \<Rightarrow> bool" where
  "framing_inv ls f \<longleftrightarrow> None \<notin> set (cl_values ls)
     \<and> fr_has_content_length f = (cl_values ls \<noteq> [])
     \<and> (cl_values ls \<noteq> [] \<longrightarrow> hd (cl_values ls) = Some (fr_content_length f))
     \<and> fr_conflict f = (\<exists>v \<in> set (cl_values ls). v \<noteq> Some (fr_content_length f))
     \<and> fr_exceeds_body_cap f = (\<exists>v. Some v \<in> set (cl_values ls) \<and> v > HTTP_MAX_BODY)
     \<and> fr_has_transfer_encoding f = (te_values ls \<noteq> [])
     \<and> fr_chunked f = (\<exists>v \<in> set (te_values ls). te_chunked v)"

lemma header_values_append: "header_values n (xs @ ys) = header_values n xs @ header_values n ys"
  by (simp add: header_values_def)

lemma framing_inv_init: "framing_inv [] no_framing"
  by (simp add: framing_inv_def no_framing_def header_values_def)

lemma cl_te_differ: "\<not> (strcasecmp_eq k (lit ''Content-Length'') \<and> strcasecmp_eq k (lit ''Transfer-Encoding''))"
  by (auto simp: strcasecmp_eq_def lit_def c_tolower_def)

lemma framing_cl:
  assumes "framing_inv ls f" "cl_values [l] = [Some v]" "te_values [l] = []"
  shows "framing_inv (ls @ [l]) (content_length_header f v)"
proof (cases "cl_values ls")
  case Nil
  with assms show ?thesis
    by (auto simp: framing_inv_def header_values_append content_length_header_def Let_def)
next
  case (Cons a as)
  with assms show ?thesis
    by (auto simp: framing_inv_def header_values_append content_length_header_def Let_def)
qed

lemma framing_te:
  assumes "framing_inv ls f" "cl_values [l] = []" "te_values [l] = [v]"
  shows "framing_inv (ls @ [l]) (transfer_encoding_header f (dropWhile isspace v))"
  using assms
  by (auto simp: framing_inv_def header_values_append transfer_encoding_header_def te_chunked_def)

lemma framing_other:
  assumes "framing_inv ls f" "cl_values [l] = []" "te_values [l] = []"
  shows "framing_inv (ls @ [l]) f"
  using assms by (simp add: framing_inv_def header_values_append)

lemma framing_inv_puts [simp]:
  "framing_inv ls (f\<lparr>fr_headers := hs\<rparr>) = framing_inv ls f" "framing_inv ls (f\<lparr>fr_cookies := cs\<rparr>) = framing_inv ls f"
  by (simp_all add: framing_inv_def)

lemma header_line_framing:
  assumes inv: "framing_inv ls f" and h: "header_line mem i l f = Some f1"
  shows "framing_inv (ls @ [l]) f1"
proof (cases "strchr l (ch CHR '':'')")
  case None
  with h have "f1 = f" by (simp add: header_line_def)
  with framing_other [OF inv, of l] None show ?thesis by (simp add: header_values_def)
next
  case (Some k)
  let ?key = "take k l" and ?raw = "drop (k + 1) l"
  let ?f = "header_put mem i ?key (dropWhile isspace ?raw) f"
  have inv2: "framing_inv ls ?f" using inv by (simp add: header_put_def Let_def)
  consider (cl) "strcasecmp_eq ?key (lit ''Content-Length'')" "\<not> strcasecmp_eq ?key (lit ''Transfer-Encoding'')"
    | (te) "strcasecmp_eq ?key (lit ''Transfer-Encoding'')" "\<not> strcasecmp_eq ?key (lit ''Content-Length'')"
    | (none) "\<not> strcasecmp_eq ?key (lit ''Content-Length'')" "\<not> strcasecmp_eq ?key (lit ''Transfer-Encoding'')"
    using cl_te_differ by blast
  then show ?thesis
  proof cases
    case cl
    with h Some obtain v where v: "parse_content_length ?raw SIZE_MAX = Some v" "f1 = content_length_header ?f v"
      by (auto simp: header_line_def Let_def bind_eq_Some_conv)
    with framing_cl [OF inv2, of l v] Some cl show ?thesis by (simp add: header_values_def)
  next
    case te
    with h Some have "f1 = transfer_encoding_header ?f (dropWhile isspace ?raw)" by (simp add: header_line_def Let_def)
    with framing_te [OF inv2, of l ?raw] Some te show ?thesis by (simp add: header_values_def)
  next
    case none
    with h Some have "f1 = ?f" by (simp add: header_line_def Let_def)
    with framing_other [OF inv2, of l] Some none show ?thesis by (simp add: header_values_def)
  qed
qed

lemma header_loop_sound:
  "header_loop lgetc mem cnt bytes f cs = Some (f1, r) \<Longrightarrow> framing_inv pre f \<Longrightarrow>
     \<exists>ls. header_section ls cs r \<and> framing_inv (pre @ ls) f1"
proof (induction "101 - cnt" arbitrary: cnt bytes f cs pre rule: less_induct)
  case less
  from less.prems(1) obtain ret line r1 where l: "HttpTransport_recv_line lgetc 4096 cs = Some ((ret, line), r1)"
    by (subst (asm) header_loop.simps) (auto simp: bind_eq_Some_conv)
  from line_sound [OF l] obtain e where e: "\<forall>c \<in> set line. line_char c" "e \<in> eols" "cs = line @ e @ r1" by blast
  show ?case
  proof (cases "line = []")
    case True
    with less.prems(1) l have "r = r1" "f1 = f" by (subst (asm) header_loop.simps, auto split: if_splits)+
    with True e section_end [OF e(2), of r1] less.prems(2) show ?thesis by (intro exI [of _ "[]"]) auto
  next
    case False
    with less.prems(1) l obtain f2 where f2: "header_line mem cnt line f = Some f2"
      "header_loop lgetc mem (cnt + 1) (bytes + ret) f2 r1 = Some (f1, r)" "cnt < 100"
      by (subst (asm) header_loop.simps) (auto simp: bind_eq_Some_conv split: if_splits)
    have "101 - (cnt + 1) < 101 - cnt" using f2(3) by arith
    from less.hyps [OF this f2(2) header_line_framing [OF less.prems(2) f2(1)]]
    obtain ls where "header_section ls r1 r" "framing_inv ((pre @ [line]) @ ls) f1" by blast
    with section_line [OF False e(1,2)] e(3) show ?thesis by (intro exI [of _ "line # ls"]) auto
  qed
qed

lemma skip_block_suffix: "skip_block strict lgetc cnt bytes cs = Some ((), r) \<Longrightarrow> \<exists>pre. cs = pre @ r"
proof -
  have "header_section ls w r \<Longrightarrow> \<exists>pre. w = pre @ r" for ls w
    by (induction rule: header_section.induct) auto
  then show "skip_block strict lgetc cnt bytes cs = Some ((), r) \<Longrightarrow> ?thesis" using skip_block_sound by blast
qed

lemma status_line_suffix: "status_line lgetc l cs = Some (line, r) \<Longrightarrow> \<exists>pre. cs = pre @ r"
  using line_sound by (fastforce simp: status_line_def bind_eq_Some_conv split: option.splits list.splits)

lemma status_loop_sound:
  "status_loop lgetc info line cs = Some (v, r) \<Longrightarrow> 200 \<le> v \<and> v \<le> 999 \<and> (\<exists>pre. cs = pre @ r)"
proof (induction "11 - info" arbitrary: info line cs rule: less_induct)
  case less
  from less.prems obtain u where u: "sscanf_status line = Some u" "100 \<le> u" "u \<le> 999"
    by (subst (asm) status_loop.simps) (auto simp: bind_eq_Some_conv split: if_splits)
  show ?case
  proof (cases "u < 200")
    case False
    with less.prems u have "v = u" "r = cs" by (subst (asm) status_loop.simps, auto split: if_splits)+
    with False u show ?thesis by auto
  next
    case True
    with less.prems u obtain t1 ret l t2 where s: "info + 1 \<le> 10" "skip_block False lgetc 0 0 cs = Some ((), t1)"
      "HttpTransport_recv_line lgetc 4096 t1 = Some ((ret, l), t2)" "status_loop lgetc (info + 1) l t2 = Some (v, r)"
      by (subst (asm) status_loop.simps) (auto simp: bind_eq_Some_conv split: if_splits)
    have "11 - (info + 1) < 11 - info" using s(1) by arith
    from less.hyps [OF this s(4)] obtain p1 where "200 \<le> v" "v \<le> 999" "t2 = p1 @ r" by blast
    moreover obtain p2 where "cs = p2 @ t1" using skip_block_suffix [OF s(2)] by blast
    moreover obtain e where "t1 = l @ e @ t2" using line_sound [OF s(3)] by blast
    ultimately show ?thesis by auto
  qed
qed

lemma new_body_buffer:
  "new_ByteBuffer m d (initial_cap f) = Some buf \<Longrightarrow>
     body_inv buf \<and> body_text buf = [] \<and> bb_capacity buf = initial_cap f"
  by (auto simp: new_ByteBuffer_def initial_cap_def body_inv_def bb_inv_def body_text_def Let_def
      split: alloc.splits if_splits)

text \<open>The one reading of where the body ends.\<close>

definition body_wire :: "cstring list \<Rightarrow> byte list \<Rightarrow> byte list \<Rightarrow> byte list \<Rightarrow> bool" where
  "body_wire ls w body r \<longleftrightarrow>
     (\<exists>n. cl_values ls \<noteq> [] \<and> set (cl_values ls) = {Some n} \<and> te_values ls = [] \<and> n \<le> HTTP_MAX_BODY
        \<and> length body = n \<and> w = body @ r)
   \<or> (cl_values ls = [] \<and> (\<exists>v \<in> set (te_values ls). te_chunked v) \<and> chunked w body r)
   \<or> (cl_values ls = [] \<and> (\<forall>v \<in> set (te_values ls). \<not> te_chunked v) \<and> w = body \<and> r = [])"

lemma read_body_sound:
  assumes inv: "framing_inv ls f" and rb: "read_body lgetc mem f w = Some (body, r)"
  shows "body_wire ls w body r"
proof -
  from rb have no: "\<not> (fr_has_content_length f \<and> fr_has_transfer_encoding f)" "\<not> fr_conflict f"
    "\<not> (fr_has_content_length f \<and> fr_exceeds_body_cap f)" by (auto simp: read_body_def split: if_splits)
  from rb no obtain buf buf1 where b: "new_ByteBuffer (hm_buf mem) (hm_data mem) (initial_cap f) = Some buf"
    "body_loop lgetc mem f buf w = Some (buf1, r)" "body = body_text buf1"
    by (auto simp: read_body_def bind_eq_Some_conv body_text_def split: if_splits)
  note nb = new_body_buffer [OF b(1)]
  show ?thesis
  proof (cases "fr_chunked f")
    case True
    then have "fr_has_transfer_encoding f" using inv by (auto simp: framing_inv_def)
    with no(1) True inv have "cl_values ls = []" "\<exists>v \<in> set (te_values ls). te_chunked v" by (auto simp: framing_inv_def)
    with read_chunks_sound [of mem 0 buf w buf1 r] True b nb show ?thesis by (auto simp: body_wire_def body_loop_def)
  next
    case False
    show ?thesis
    proof (cases "fr_has_content_length f")
      case True
      with no inv have te: "te_values ls = []" and ne: "cl_values ls \<noteq> []" by (auto simp: framing_inv_def)
      have all: "\<forall>v \<in> set (cl_values ls). v = Some (fr_content_length f)" using no(2) inv by (auto simp: framing_inv_def)
      then have sing: "set (cl_values ls) = {Some (fr_content_length f)}" using ne by (cases "header_values (lit ''Content-Length'') ls") auto
      then have "fr_content_length f \<le> HTTP_MAX_BODY"
        using no(3) True inv unfolding framing_inv_def by (metis linorder_not_le singletonI)
      with read_bytes_sound [of mem "fr_content_length f" buf w buf1 r] True False b nb te ne sing show ?thesis
        unfolding body_wire_def body_loop_def by auto
    next
      case False2: False
      with inv have "cl_values ls = []" by (simp add: framing_inv_def)
      moreover have "\<forall>v \<in> set (te_values ls). \<not> te_chunked v" using False inv by (auto simp: framing_inv_def)
      moreover have "r = [] \<and> w = body" using read_eof_sound [of mem 0 buf w buf1 r] False False2 b nb by (simp add: body_loop_def)
      ultimately show ?thesis by (simp add: body_wire_def)
    qed
  qed
qed

section \<open>Completeness\<close>

lemma cl_limit:
  fixes v d m :: nat
  assumes "d \<le> 9"
  shows "(v > m div 10 \<or> (v = m div 10 \<and> d > m mod 10)) \<longleftrightarrow> v * 10 + d > m"
proof -
  have "m = 10 * (m div 10) + m mod 10" by simp
  moreover have "m mod 10 < 10" by simp
  ultimately show ?thesis using assms by arith
qed

lemma cl_digits_exact:
  "\<forall>c \<in> set ds. isdigit c \<Longrightarrow> r = [] \<or> \<not> isdigit (hd r) \<Longrightarrow> v \<le> m \<Longrightarrow>
     cl_digits m v b (ds @ r) = (if dec_of v ds \<le> m then Some (dec_of v ds, b \<or> ds \<noteq> [], r) else None)"
proof (induction ds arbitrary: v b)
  case Nil
  then show ?case by (cases r) auto
next
  case (Cons c ds)
  have d: "unat c - 48 \<le> 9" using Cons.prems(1) by (auto simp: word_le_nat_alt)
  show ?case
  proof (cases "v * 10 + (unat c - 48) > m")
    case True
    then have "dec_of (10 * v + (unat c - 48)) ds > m"
      using dec_of_mono [of "10 * v + (unat c - 48)" ds] by (simp add: mult.commute)
    with True Cons.prems cl_limit [OF d, of m v] show ?thesis by (simp add: Let_def)
  next
    case False
    then have "\<not> (v > m div 10 \<or> (v = m div 10 \<and> unat c - 48 > m mod 10))" using cl_limit [OF d, of m v] by blast
    then have "cl_digits m v b ((c # ds) @ r) = cl_digits m (v * 10 + (unat c - 48)) True (ds @ r)"
      using Cons.prems(1) by (auto simp: Let_def)
    with Cons.IH [of "v * 10 + (unat c - 48)" True] Cons.prems False show ?thesis by (simp add: mult.commute)
  qed
qed

lemma parse_content_length_exact:
  assumes "\<forall>c \<in> set ds. isdigit c" "ds \<noteq> []" "dec_of 0 ds \<le> m" "\<forall>c \<in> set b1. blank c" "\<forall>c \<in> set b2. blank c"
  shows "parse_content_length (b1 @ ds @ b2) m = Some (dec_of 0 ds)"
proof -
  have nb: "isdigit c \<Longrightarrow> \<not> blank c" for c by auto
  then have "\<not> blank (hd ds)" using assms(1,2) by (cases ds) auto
  then have s1: "dropWhile blank (b1 @ ds @ b2) = ds @ b2"
    using assms(2,4) by (cases ds) (simp_all add: dropWhile_append)
  have r: "b2 = [] \<or> \<not> isdigit (hd b2)" using assms(5) by (cases b2) auto
  have "dropWhile blank b2 = []" using assms(5) by simp
  with s1 cl_digits_exact [OF assms(1) r, of 0 m False] assms(2,3) show ?thesis
    by (simp add: parse_content_length_def)
qed

text \<open>Chunk sizes as servers write them.\<close>

fun hex_digits :: "nat \<Rightarrow> cstring" where
  "hex_digits n = (if n < 16 then [if n < 10 then of_nat (48 + n) else of_nat (87 + n)]
     else hex_digits (n div 16) @ [if n mod 16 < 10 then of_nat (48 + n mod 16) else of_nat (87 + n mod 16)])"

declare hex_digits.simps [simp del]

fun hex_of :: "nat \<Rightarrow> cstring \<Rightarrow> nat" where
  "hex_of n [] = n"
| "hex_of n (c # cs) = hex_of (16 * n + the (hex_val c)) cs"

lemma hex_of_append: "hex_of n (xs @ ys) = hex_of (hex_of n xs) ys"
  by (induction xs arbitrary: n) auto

lemma hex_of_mono: "n \<le> hex_of n ds"
proof (induction ds arbitrary: n)
  case (Cons c ds)
  then have "16 * n + the (hex_val c) \<le> hex_of (16 * n + the (hex_val c)) ds" .
  then show ?case by simp
qed simp

lemma hex_val_digit: "n < 16 \<Longrightarrow> hex_val (if n < 10 then of_nat (48 + n) else of_nat (87 + n)) = Some n"
proof -
  assume "n < 16"
  then have "n \<in> set [0 ..< 16]" by simp
  then show ?thesis by (simp add: upt_rec) (elim disjE; simp add: hex_val_def)
qed

lemma hex_digits_hex: "c \<in> set (hex_digits n) \<Longrightarrow> hex_val c \<noteq> None"
proof (induction n rule: hex_digits.induct)
  case (1 n)
  show ?case
  proof (cases "n < 16")
    case True
    with "1.prems" hex_val_digit [OF True] show ?thesis by (simp add: hex_digits.simps [of n])
  next
    case False
    with 1 hex_val_digit [of "n mod 16"] show ?thesis by (subst (asm) (2) hex_digits.simps) auto
  qed
qed

lemma hex_of_digits: "hex_of 0 (hex_digits n) = n"
proof (induction n rule: hex_digits.induct)
  case (1 n)
  show ?case
  proof (cases "n < 16")
    case True
    with hex_val_digit [OF True] show ?thesis by (simp add: hex_digits.simps [of n])
  next
    case False
    with 1 hex_val_digit [of "n mod 16"] show ?thesis by (subst hex_digits.simps) (simp add: hex_of_append)
  qed
qed

lemma hex_val_not: "hex_val c \<noteq> None \<Longrightarrow> c \<notin> {0, 9, 10, 13, 32, 43, 45, 59, 88, 120}"
  by (auto simp: hex_val_def)

lemma chunk_digits_exact:
  "\<forall>c \<in> set ds. hex_val c \<noteq> None \<Longrightarrow> hex_of v ds \<le> SIZE_MAX \<Longrightarrow>
     chunk_digits v b ds = Some (hex_of v ds, b \<or> ds \<noteq> [], [])"
proof (induction ds arbitrary: v b)
  case (Cons c ds)
  then obtain d where d: "hex_val c = Some d" by auto
  then have d16: "d < 16" by (auto simp: hex_val_def word_le_nat_alt split: if_splits)
  have "16 * v + d \<le> SIZE_MAX" using Cons.prems(2) d hex_of_mono [of "16 * v + d" ds] by simp
  then have "\<not> (v > SIZE_MAX div 16 \<or> (v = SIZE_MAX div 16 \<and> d > SIZE_MAX mod 16))" using d16 by simp
  moreover have "c \<notin> {9, 10, 13, 32, 59}" using hex_val_not [of c] d by auto
  ultimately show ?case using Cons d by (simp add: mult.commute)
qed simp

lemma hex_digits_not_Nil [simp]: "hex_digits n \<noteq> []"
  by (subst hex_digits.simps) simp

lemma parse_chunk_size_hex:
  assumes "n \<le> SIZE_MAX"
  shows "parse_chunk_size (hex_digits n) = Some n"
proof -
  obtain c r where cr: "hex_digits n = c # r" by (cases "hex_digits n") auto
  have hx: "\<forall>x \<in> set (hex_digits n). hex_val x \<noteq> None" using hex_digits_hex by blast
  then have "c \<notin> {9, 32, 43, 45}" using hex_val_not [of c] cr by auto
  moreover have "r \<noteq> [] \<Longrightarrow> hd r \<notin> {88, 120}" using hex_val_not [of "hd r"] hx cr by (cases r) auto
  moreover have "chunk_digits 0 False (hex_digits n) = Some (n, True, [])"
    using chunk_digits_exact [OF hx, of 0 False] assms by (simp add: hex_of_digits)
  ultimately show ?thesis by (auto simp: parse_chunk_size_def cr)
qed

lemma hex_digits_length: "0 < k \<Longrightarrow> n < 16 ^ k \<Longrightarrow> length (hex_digits n) \<le> k"
proof (induction k arbitrary: n)
  case (Suc k)
  show ?case
  proof (cases "n < 16")
    case True
    then show ?thesis by (simp add: hex_digits.simps)
  next
    case False
    then have "0 < k" using Suc.prems by (cases k) auto
    with Suc.IH [of "n div 16"] Suc.prems False show ?thesis
      by (simp add: hex_digits.simps [of n] less_mult_imp_div_less mult.commute)
  qed
qed simp

text \<open>Complete input is read.\<close>

lemma read_bytes_complete:
  assumes "mem_ok mem"
  shows "room N buf \<Longrightarrow> bb_write_pos buf + length xs \<le> N \<Longrightarrow>
    \<exists>buf1. read_bytes lgetc mem (length xs) buf (xs @ r) = Some (buf1, r) \<and> room N buf1 \<and> body_text buf1 = body_text buf @ xs"
proof (induction xs arbitrary: buf)
  case (Cons x xs)
  obtain b where b: "put_body mem buf x = Some b" "room N b"
    using put_body_room [of N buf mem x] Cons.prems assms by (auto simp: mem_ok_def)
  have inv: "body_inv buf" using Cons.prems(1) by (simp add: room_def)
  note ps = put_body_sound [OF inv b(1)]
  have "bb_write_pos b = bb_write_pos buf + 1"
    using ps length_body_text [OF inv] length_body_text [of b] by simp
  with Cons.IH [OF b(2)] Cons.prems(2) b ps show ?case by auto
qed simp

definition chunk_enc :: "byte list list \<Rightarrow> byte list" where
  "chunk_enc ds = concat (map (\<lambda>d. hex_digits (length d) @ [13, 10] @ d @ [13, 10]) ds) @ hex_digits 0 @ [13, 10, 13, 10]"

lemma hex_digits_line: "\<forall>c \<in> set (hex_digits n). line_char c"
  using hex_digits_hex hex_val_not by (fastforce simp: line_char_def)

lemma hex_line_read:
  assumes "n \<le> HTTP_MAX_BODY"
  shows "HttpTransport_recv_line lgetc 4096 (hex_digits n @ [13, 10] @ r) = Some ((length (hex_digits n) + 2, hex_digits n), r)"
proof -
  have "length (hex_digits n) \<le> 7" using assms by (intro hex_digits_length) simp_all
  with line_complete [OF hex_digits_line, of "[13, 10]" n r] show ?thesis by simp
qed

lemma read_chunks_complete:
  assumes "mem_ok mem"
  shows "room N buf \<Longrightarrow> bb_write_pos buf + length (concat ds) \<le> N \<Longrightarrow> tot + length (concat ds) \<le> HTTP_MAX_BODY \<Longrightarrow>
    [] \<notin> set ds \<Longrightarrow> \<exists>buf1. read_chunks lgetc mem tot buf (chunk_enc ds @ r) = Some (buf1, r)
      \<and> room N buf1 \<and> body_text buf1 = body_text buf @ concat ds"
proof (induction ds arbitrary: buf tot)
  case Nil
  have "HttpTransport_recv_line lgetc 4096 ([13, 10] @ r) = Some ((2, []), r)"
    using line_complete [of "[]" "[13, 10]" r] by simp
  then have "skip_block True lgetc 0 0 ([13, 10] @ r) = Some ((), r)" by (subst skip_block.simps) simp
  moreover have "chunk_enc [] @ r = hex_digits 0 @ [13, 10] @ [13, 10] @ r" by (simp add: chunk_enc_def)
  ultimately have "read_chunks lgetc mem tot buf (chunk_enc [] @ r) = Some (buf, r)"
    using hex_line_read [of 0 "[13, 10] @ r"] parse_chunk_size_hex [of 0] by (subst read_chunks.simps) simp
  with Nil.prems(1) show ?case by simp
next
  case (Cons d ds)
  let ?n = "length d" and ?w = "[13, 10] @ chunk_enc ds @ r"
  have n: "0 < ?n" "?n \<le> HTTP_MAX_BODY - tot" "?n \<le> HTTP_MAX_BODY" using Cons.prems by auto
  obtain b where b: "read_bytes lgetc mem ?n buf (d @ ?w) = Some (b, ?w)" "room N b" "body_text b = body_text buf @ d"
    using read_bytes_complete [OF assms Cons.prems(1), of d ?w] Cons.prems(2) by auto
  have "bb_write_pos b = bb_write_pos buf + ?n"
    using b(2,3) Cons.prems(1) length_body_text [of b] length_body_text [of buf] by (simp add: room_def)
  with Cons.IH [OF b(2), of "tot + ?n"] Cons.prems obtain buf1 where
    i: "read_chunks lgetc mem (tot + ?n) b (chunk_enc ds @ r) = Some (buf1, r)" "room N buf1" "body_text buf1 = body_text b @ concat ds"
    by auto
  have "chunk_enc (d # ds) @ r = hex_digits ?n @ [13, 10] @ d @ ?w" by (simp add: chunk_enc_def)
  then have "read_chunks lgetc mem tot buf (chunk_enc (d # ds) @ r) = Some (buf1, r)"
    using hex_line_read [OF n(3), of "d @ ?w"] parse_chunk_size_hex [of ?n] n b(1) i(1)
    by (subst read_chunks.simps) simp
  with i b(3) show ?case by simp
qed

lemma read_eof_complete:
  assumes "mem_ok mem"
  shows "room N buf \<Longrightarrow> bb_write_pos buf + length xs \<le> N \<Longrightarrow> tot + length xs \<le> HTTP_MAX_BODY \<Longrightarrow>
    \<exists>buf1. read_eof lgetc mem tot buf xs = Some (buf1, []) \<and> room N buf1 \<and> body_text buf1 = body_text buf @ xs"
proof (induction xs arbitrary: buf tot)
  case Nil
  then show ?case by (subst read_eof.simps) simp
next
  case (Cons x xs)
  obtain b where b: "put_body mem buf x = Some b" "room N b"
    using put_body_room [of N buf mem x] Cons.prems assms by (auto simp: mem_ok_def)
  have inv: "body_inv buf" using Cons.prems(1) by (simp add: room_def)
  note ps = put_body_sound [OF inv b(1)]
  have "bb_write_pos b = bb_write_pos buf + 1"
    using ps length_body_text [OF inv] length_body_text [of b] by simp
  with Cons.IH [OF b(2), of "tot + 1"] Cons.prems ps obtain b1 where
    "read_eof lgetc mem (tot + 1) b xs = Some (b1, [])" "room N b1" "body_text b1 = body_text buf @ x # xs" by auto
  with b(1) Cons.prems(3) show ?case by (subst read_eof.simps) simp
qed

text \<open>Header lines whose \<^verbatim>\<open>Content-Length\<close> values are all numbers are taken in.\<close>

definition header_pair :: "cstring \<Rightarrow> (cstring \<times> cstring) list" where
  "header_pair l = (case strchr l (ch CHR '':'') of None \<Rightarrow> []
     | Some i \<Rightarrow> [(take i l, dropWhile isspace (drop (i + 1) l))])"

lemma fr_headers_simps [simp]:
  "fr_headers (content_length_header f v) = fr_headers f" "fr_headers (transfer_encoding_header f x) = fr_headers f"
  "hm_header mem i \<Longrightarrow> fr_headers (header_put mem i k x f) = fr_headers f @ [(k, x)]"
  by (simp_all add: content_length_header_def transfer_encoding_header_def header_put_def Let_def)

lemma header_line_complete:
  assumes "mem_ok mem" "None \<notin> set (cl_values [l])"
  shows "\<exists>f1. header_line mem i l f = Some f1 \<and> fr_headers f1 = fr_headers f @ header_pair l"
proof (cases "strchr l (ch CHR '':'')")
  case None
  then show ?thesis by (simp add: header_line_def header_pair_def)
next
  case (Some k)
  have h: "hm_header mem i" using assms(1) by (simp add: mem_ok_def)
  show ?thesis
  proof (cases "strcasecmp_eq (take k l) (lit ''Content-Length'')")
    case True
    with assms(2) Some obtain v where "parse_content_length (drop (k + 1) l) SIZE_MAX = Some v"
      by (cases "parse_content_length (drop (k + 1) l) SIZE_MAX") (simp_all add: header_values_def)
    with Some True h show ?thesis by (simp add: header_line_def header_pair_def Let_def)
  next
    case False
    with Some h show ?thesis by (simp add: header_line_def header_pair_def Let_def)
  qed
qed

lemma header_loop_complete:
  assumes "mem_ok mem"
  shows "\<forall>l \<in> set ls. l \<noteq> [] \<and> (\<forall>c \<in> set l. line_char c) \<and> length l \<le> 4093 \<Longrightarrow> cnt + length ls \<le> 100 \<Longrightarrow>
    bytes + sum_list (map (\<lambda>l. length l + 2) ls) \<le> HTTP_MAX_HEADER_BYTES \<Longrightarrow> None \<notin> set (cl_values ls) \<Longrightarrow>
    \<exists>f1. header_loop lgetc mem cnt bytes f (concat (map (\<lambda>l. l @ [13, 10]) ls) @ [13, 10] @ r) = Some (f1, r)
      \<and> fr_headers f1 = fr_headers f @ concat (map header_pair ls) \<and> (\<forall>pre. framing_inv pre f \<longrightarrow> framing_inv (pre @ ls) f1)"
proof (induction ls arbitrary: cnt bytes f)
  case Nil
  have "HttpTransport_recv_line lgetc 4096 ([13, 10] @ r) = Some ((2, []), r)"
    using line_complete [of "[]" "[13, 10]" r] by simp
  then show ?case by (subst header_loop.simps) simp
next
  case (Cons l ls)
  let ?w = "concat (map (\<lambda>l. l @ [13, 10]) ls) @ [13, 10] @ r"
  have l: "l \<noteq> []" "\<forall>c \<in> set l. line_char c" "length l \<le> 4093" using Cons.prems(1) by auto
  have rl: "HttpTransport_recv_line lgetc 4096 (l @ [13, 10] @ ?w) = Some ((length l + 2, l), ?w)"
    using line_complete [OF l(2), of "[13, 10]" ?w] l(3) by simp
  have cl: "None \<notin> set (cl_values [l])" "None \<notin> set (cl_values ls)"
    using Cons.prems(4) header_values_append [of _ "[l]" ls] by auto
  obtain f1 where f1: "header_line mem cnt l f = Some f1" "fr_headers f1 = fr_headers f @ header_pair l"
    using header_line_complete [OF assms cl(1)] by blast
  from Cons.IH [of "cnt + 1" "bytes + (length l + 2)" f1] Cons.prems cl(2) obtain f2 where
    f2: "header_loop lgetc mem (cnt + 1) (bytes + (length l + 2)) f1 ?w = Some (f2, r)"
      "fr_headers f2 = fr_headers f1 @ concat (map header_pair ls)"
      "\<forall>pre. framing_inv pre f1 \<longrightarrow> framing_inv (pre @ ls) f2" by auto
  have "header_loop lgetc mem cnt bytes f (l @ [13, 10] @ ?w) = Some (f2, r)"
    using rl l(1) Cons.prems(2,3) f1(1) f2(1) by (subst header_loop.simps) simp
  moreover have "framing_inv (pre @ l # ls) f2" if "framing_inv pre f" for pre
    using f2(3) [rule_format, OF header_line_framing [OF that f1(1)]] by simp
  ultimately show ?case using f1(2) f2(2) by simp
qed

text \<open>What a server sends: the three forms of a body.\<close>

definition encodes :: "cstring list \<Rightarrow> byte list \<Rightarrow> byte list \<Rightarrow> byte list \<Rightarrow> bool" where
  "encodes ls body w r \<longleftrightarrow> length body \<le> HTTP_MAX_BODY \<and> None \<notin> set (cl_values ls) \<and>
     ((set (cl_values ls) = {Some (length body)} \<and> te_values ls = [] \<and> w = body @ r)
    \<or> (cl_values ls = [] \<and> (\<exists>v \<in> set (te_values ls). te_chunked v)
         \<and> (\<exists>ds. [] \<notin> set ds \<and> body = concat ds \<and> w = chunk_enc ds @ r))
    \<or> (cl_values ls = [] \<and> (\<forall>v \<in> set (te_values ls). \<not> te_chunked v) \<and> w = body \<and> r = []))"

lemma new_body_room:
  assumes "mem_ok mem" "N \<le> 2 ^ 24" "fr_has_content_length f \<Longrightarrow> fr_content_length f = N"
  shows "\<exists>buf. new_ByteBuffer (hm_buf mem) (hm_data mem) (initial_cap f) = Some buf \<and> room N buf
    \<and> body_text buf = [] \<and> bb_write_pos buf = 0"
proof -
  obtain buf where b: "new_ByteBuffer (hm_buf mem) (hm_data mem) (initial_cap f) = Some buf" "bb_write_pos buf = 0"
    using assms(1) by (cases "hm_buf mem"; cases "hm_data mem") (auto simp: new_ByteBuffer_def mem_ok_def Let_def)
  note nb = new_body_buffer [OF b(1)]
  have "N \<le> initial_cap f \<or> (\<exists>k \<le> 24. initial_cap f = 2 ^ k)"
  proof (cases "fr_has_content_length f \<and> fr_content_length f < 16384")
    case True
    with assms(3) show ?thesis by (simp add: initial_cap_def)
  next
    case False
    then have "initial_cap f = 2 ^ 14" by (auto simp: initial_cap_def)
    then show ?thesis by (intro disjI2 exI [of _ 14]) simp
  qed
  with nb b assms(2) show ?thesis by (auto simp: room_def)
qed

lemma read_body_complete:
  assumes m: "mem_ok mem" and inv: "framing_inv ls f" and enc: "encodes ls body w r"
  shows "read_body lgetc mem f w = Some (body, r)"
proof -
  let ?n = "length body"
  have n: "?n \<le> 2 ^ 24" using enc by (simp add: encodes_def)
  have cl: "fr_content_length f = ?n" if "fr_has_content_length f"
    using that inv enc hd_in_set [of "cl_values ls"] by (auto simp: framing_inv_def encodes_def)
  obtain buf where b: "new_ByteBuffer (hm_buf mem) (hm_data mem) (initial_cap f) = Some buf" "room ?n buf"
      "body_text buf = []" "bb_write_pos buf = 0"
    using new_body_room [OF m n cl] by auto
  have guards: "\<not> (fr_has_content_length f \<and> fr_has_transfer_encoding f)" "\<not> fr_conflict f"
    "\<not> (fr_has_content_length f \<and> fr_exceeds_body_cap f)"
    using inv enc cl by (auto simp: framing_inv_def encodes_def)
  have "\<exists>buf1. body_loop lgetc mem f buf w = Some (buf1, r) \<and> body_text buf1 = body"
  proof -
    from enc consider (len) "set (cl_values ls) = {Some ?n}" "te_values ls = []" "w = body @ r"
      | (chunks) ds where "cl_values ls = []" "\<exists>v \<in> set (te_values ls). te_chunked v" "[] \<notin> set ds" "body = concat ds" "w = chunk_enc ds @ r"
      | (eof) "cl_values ls = []" "\<forall>v \<in> set (te_values ls). \<not> te_chunked v" "w = body" "r = []"
      unfolding encodes_def by blast
    then show ?thesis
    proof cases
      case len
      then have "\<not> fr_chunked f" "fr_has_content_length f" using inv by (auto simp: framing_inv_def)
      with len cl read_bytes_complete [OF m b(2), of body r] b show ?thesis by (auto simp: body_loop_def)
    next
      case chunks
      then have "fr_chunked f" using inv by (auto simp: framing_inv_def)
      with chunks read_chunks_complete [OF m b(2), of ds 0 r] b enc show ?thesis by (auto simp: body_loop_def encodes_def)
    next
      case eof
      then have "\<not> fr_chunked f" "\<not> fr_has_content_length f" using inv by (auto simp: framing_inv_def)
      with eof read_eof_complete [OF m b(2), of body 0] b enc show ?thesis by (auto simp: body_loop_def encodes_def)
    qed
  qed
  with b guards m show ?thesis by (auto simp: read_body_def mem_ok_def body_text_def)
qed

text \<open>Reading a complete response.\<close>

lemma response_complete:
  assumes "mem_ok mem" "sscanf_status sl = Some v" "200 \<le> v" "v \<le> 999" "has_body meth v"
    and "\<forall>l \<in> set (sl # ls). l \<noteq> [] \<and> (\<forall>c \<in> set l. line_char c) \<and> length l \<le> 4093"
    and "length ls \<le> 100" "sum_list (map (\<lambda>l. length l + 2) ls) \<le> 65536"
    and "encodes ls body w r"
    and "ht_stream t = sl @ [13, 10] @ concat (map (\<lambda>l. l @ [13, 10]) ls) @ [13, 10] @ w"
  shows "\<exists>res t1. HttpResponseParser_parse_with_options HttpTransport_getc mem None meth t = Some (res, t1)
    \<and> res_status_code res = v \<and> res_headers res = concat (map header_pair ls)
    \<and> res_body res = body \<and> res_body_len res = length body \<and> ht_stream t1 = r"
proof -
  let ?h = "concat (map (\<lambda>l. l @ [13, 10]) ls) @ [13, 10] @ w"
  have sl: "\<forall>c \<in> set sl. line_char c" "length sl \<le> 4093" using assms(6) by auto
  have a: "status_line lgetc None (ht_stream t) = Some (sl, ?h)"
    using line_complete [OF sl(1), of "[13, 10]" ?h] sl(2) assms(10) by (simp add: status_line_def)
  have b: "status_loop lgetc 0 sl ?h = Some (v, ?h)" using assms(2-4) by (subst status_loop.simps) simp
  have cl: "None \<notin> set (cl_values ls)" using assms(9) by (simp add: encodes_def)
  obtain f where f: "header_loop lgetc mem 0 0 no_framing ?h = Some (f, w)" "fr_headers f = fr_headers no_framing @ concat (map header_pair ls)"
      "framing_inv ([] @ ls) f"
    using framing_inv_init header_loop_complete [OF assms(1), of ls 0 0 no_framing w] assms(6-8) cl by auto
  have d: "read_body lgetc mem f w = Some (body, r)"
    by (rule read_body_complete [OF assms(1) _ assms(9)]) (use f(3) in simp)
  let ?res = "\<lparr>res_status_code = v, res_headers = fr_headers f, res_cookies = fr_cookies f, res_body = body, res_body_len = length body\<rparr>"
  have "HttpResponseParser_parse_with_options lgetc mem None meth (ht_stream t) = Some (?res, r)"
    using assms(1,5) a b f(1) d by (simp add: HttpResponseParser_parse_with_options_def mem_ok_def)
  with ht.parse_stream [of mem None meth t] f(2) show ?thesis by (auto simp: no_framing_def)
qed

section \<open>Theorems\<close>

text \<open>(C11) The parser sees the bytes and nothing else: however the network cuts the stream into pieces, and whatever
  interruptions come between them, a connection gives the response that the same bytes give in one list, and
  stands at the same place afterwards.\<close>

theorem HttpResponseParser_bytes_only:
  "map_option (apsnd ht_stream) (HttpResponseParser_parse_with_options HttpTransport_getc mem line meth t)
     = HttpResponseParser_parse_with_options lgetc mem line meth (ht_stream t)"
  by (rule ht.parse_stream)


text \<open>(C10) What a server sends is what the client gets: a final status line, header lines within the limits and a body in any
  of the three forms (\<^verbatim>\<open>Content-Length\<close>, chunks of any sizes, or up to the end of the connection) of up to 16
  MiB are read back exactly, with all headers, however the bytes arrive; what follows on the
  connection stays there.\<close>

theorem HttpResponse_roundtrip:
  assumes "mem_ok mem" "sscanf_status sl = Some v" "200 \<le> v" "v \<le> 999" "has_body meth v"
    and "\<forall>l \<in> set (sl # ls). l \<noteq> [] \<and> (\<forall>c \<in> set l. line_char c) \<and> length l \<le> 4093"
    and "length ls \<le> 100" "sum_list (map (\<lambda>l. length l + 2) ls) \<le> 65536"
    and "encodes ls body w r"
    and "ht_stream t = sl @ [13, 10] @ concat (map (\<lambda>l. l @ [13, 10]) ls) @ [13, 10] @ w"
  shows "\<exists>res t1. HttpResponseParser_parse_with_options HttpTransport_getc mem None meth t = Some (res, t1)
    \<and> res_status_code res = v \<and> res_headers res = concat (map header_pair ls)
    \<and> res_body res = body \<and> res_body_len res = length body \<and> ht_stream t1 = r"
  using assms by (rule response_complete)

text \<open>A chunked response that arrives in three pieces, followed by the beginning of the next one.\<close>

definition ok_mem :: http_mem where
  "ok_mem = \<lparr>hm_res = True, hm_header = \<lambda>_. True, hm_cookie = \<lambda>_. True, hm_buf = Alloc_Ok (), hm_data = Alloc_Ok (),
     hm_write = \<lambda>_. Alloc_Ok 0, hm_body = True\<rparr>"

definition hello_response :: HttpTransport where
  "hello_response = \<lparr>ht_sock = \<lparr>so_rx = [Rx_data (lit ''HTTP/1.1 200 OK''), Rx_data [13], Rx_none (- 1) E_AGAIN,
         Rx_data ([10] @ lit ''Transfer-Encoding: chunked'' @ [13, 10, 13, 10] @ chunk_enc [lit ''he'', lit ''llo''] @ lit ''HTTP'')],
       so_tx = [], so_sent = []\<rparr>, ht_host = [], ht_path = [], ht_port = 80, ht_scheme = [],
     ht_read_buf = [], ht_read_pos = 0, ht_read_end = 0\<rparr>"

lemma hello_facts:
  "mem_ok ok_mem" "sscanf_status (lit ''HTTP/1.1 200 OK'') = Some 200"
  "\<forall>l \<in> set [lit ''HTTP/1.1 200 OK'', lit ''Transfer-Encoding: chunked'']. l \<noteq> [] \<and> (\<forall>c \<in> set l. line_char c) \<and> length l \<le> 4093"
  "encodes [lit ''Transfer-Encoding: chunked''] (lit ''hello'') (chunk_enc [lit ''he'', lit ''llo''] @ lit ''HTTP'') (lit ''HTTP'')"
  "ht_stream hello_response = lit ''HTTP/1.1 200 OK'' @ [13, 10] @ concat (map (\<lambda>l. l @ [13, 10]) [lit ''Transfer-Encoding: chunked''])
     @ [13, 10] @ chunk_enc [lit ''he'', lit ''llo''] @ lit ''HTTP''"
proof -
  show "mem_ok ok_mem" by (simp add: mem_ok_def ok_mem_def)
  show "sscanf_status (lit ''HTTP/1.1 200 OK'') = Some 200"
    by (simp add: sscanf_status_def lit_def scan_d_def isspace_def strtol10_def ch_def wrap32_def)
  show "\<forall>l \<in> set [lit ''HTTP/1.1 200 OK'', lit ''Transfer-Encoding: chunked'']. l \<noteq> [] \<and> (\<forall>c \<in> set l. line_char c) \<and> length l \<le> 4093"
    by (simp add: lit_def line_char_def)
  have te: "te_values [lit ''Transfer-Encoding: chunked''] = [lit '' chunked'']" "cl_values [lit ''Transfer-Encoding: chunked''] = []"
    by (simp_all add: header_values_def strchr_def lit_def ch_def strcasecmp_eq_def c_tolower_def)
  have "te_chunked (lit '' chunked'')"
    by (simp add: te_chunked_def strcasestr_def memmem.simps lit_def isspace_def)
  with te show "encodes [lit ''Transfer-Encoding: chunked''] (lit ''hello'') (chunk_enc [lit ''he'', lit ''llo''] @ lit ''HTTP'') (lit ''HTTP'')"
    by (auto simp: encodes_def lit_def intro!: exI [of _ "[[104, 101], [108, 108, 111]]"])
  show "ht_stream hello_response = lit ''HTTP/1.1 200 OK'' @ [13, 10] @ concat (map (\<lambda>l. l @ [13, 10]) [lit ''Transfer-Encoding: chunked''])
     @ [13, 10] @ chunk_enc [lit ''he'', lit ''llo''] @ lit ''HTTP''"
    by (simp add: ht_stream_def hello_response_def retry_def)
qed

theorem HttpResponse_roundtrip_witness:
  "\<exists>res t1. HttpResponseParser_parse_with_options HttpTransport_getc ok_mem None (Some (lit ''GET'')) hello_response = Some (res, t1)
     \<and> res_body res = lit ''hello'' \<and> ht_stream t1 = lit ''HTTP''"
proof -
  have "has_body (Some (lit ''GET'')) 200" by (simp add: has_body_def lit_def)
  from HttpResponse_roundtrip [OF hello_facts(1,2) _ _ this hello_facts(3) _ _ hello_facts(4,5)]
  show ?thesis by (auto simp: lit_def)
qed


end
