(* ===== verification/Http_Exchange.thy ===== *)
theory Http_Exchange
  imports Server_Parsing Server_Lifecycle Http_Client Http_Framing
begin

text \<open>
  The client of \<^verbatim>\<open>http_client.c\<close> and the server of \<^verbatim>\<open>http_server.c\<close>, \<^verbatim>\<open>http_message.c\<close> understand each other: the head that the client
  writes is parsed by the server into the same method, path, query and fields, with the length of the payload; what a
  handler sends as an answer is read by the client's response parser as the same status, fields and body. The cookie
  jar holds one cookie per name, domain and path.
\<close>

section \<open>Requests\<close>

definition header_line_of :: "cstring \<times> cstring \<Rightarrow> cstring" where
  "header_line_of kv = fst kv @ lit '': '' @ snd kv"

definition header_ok :: "cstring \<times> cstring \<Rightarrow> bool" where
  "header_ok kv \<longleftrightarrow> fst kv \<noteq> [] \<and> list_all http_is_tchar (fst kv) \<and> 13 \<notin> set (snd kv) \<and> 10 \<notin> set (snd kv)"

lemma tchar_not: "http_is_tchar c \<Longrightarrow> c \<noteq> 58 \<and> c \<noteq> 13 \<and> c \<noteq> 10 \<and> c \<noteq> 32"
  by (auto simp: http_is_tchar_def)

lemma header_line_field:
  assumes "header_ok kv"
  shows "field_line (header_line_of kv)"
    and "field_pair (header_line_of kv) = (map c_tolower (fst kv), dropWhile (\<lambda>c. c = 32 \<or> c = 9) (snd kv))"
proof -
  have no: "\<forall>c \<in> set (fst kv). c \<noteq> 58 \<and> c \<noteq> 13 \<and> c \<noteq> 10" using assms tchar_not by (auto simp: header_ok_def list_all_iff)
  have l: "lit '': '' = [58, 32]" by (simp add: lit_def)
  have t: "takeWhile (\<lambda>c. c \<noteq> 58) (header_line_of kv) = fst kv"
    using no by (simp add: header_line_of_def l takeWhile_append2)
  have d: "dropWhile (\<lambda>c. c \<noteq> 58) (header_line_of kv) = [58, 32] @ snd kv"
    using no by (simp add: header_line_of_def l dropWhile_append2)
  have "hd (header_line_of kv) \<noteq> 58" using no assms by (cases "fst kv") (auto simp: header_line_of_def header_ok_def)
  then show "field_line (header_line_of kv)" using assms no t by (auto simp: field_line_def header_line_of_def l header_ok_def)
  show "field_pair (header_line_of kv) = (map c_tolower (fst kv), dropWhile (\<lambda>c. c = 32 \<or> c = 9) (snd kv))"
    using t d by (simp add: field_name_def field_value_def)
qed

text \<open>The fields the client writes, in order.\<close>

definition cookie_fields :: "attempt_env \<Rightarrow> HttpCookie list \<Rightarrow> cstring \<Rightarrow> cstring \<Rightarrow> (cstring \<times> cstring) list" where
  "cookie_fields env jar host path =
     (let c = cookie_header env jar host path in if c = [] then [] else [(lit ''Cookie'', take (length c - 10) (drop 8 c))])"

definition payload_fields :: "payload \<Rightarrow> (cstring \<times> cstring) list" where
  "payload_fields pl =
     (case pl_type pl of
        Some ct \<Rightarrow> if pl_len pl > 0 then [(lit ''Content-Type'', ct), (lit ''Content-Length'', dec_digits (pl_len pl))]
                   else [(lit ''Content-Length'', lit ''0'')]
      | None \<Rightarrow> [(lit ''Content-Length'', lit ''0'')])"

definition client_fields :: "attempt_env \<Rightarrow> HttpClient \<Rightarrow> payload \<Rightarrow> cstring \<Rightarrow> cstring \<Rightarrow> bool \<Rightarrow> (cstring \<times> cstring) list" where
  "client_fields env self pl path host expect =
     [(lit ''Host'', host), (lit ''User-Agent'', lit ''WebCore-Client/1.5''), (lit ''Accept'', lit ''*/*'')]
     @ (if cl_enable_compression self then [(lit ''Accept-Encoding'', lit ''gzip, deflate'')] else [])
     @ (if ae_keys env then cl_default_headers self else [])
     @ cookie_fields env (cl_cookie_jar self) host path
     @ (if expect then [(lit ''Expect'', lit ''100-continue'')] else [])
     @ payload_fields pl @ [(lit ''Connection'', lit ''close'')]"

lemma lines_text_crlf: "lines_text l ls @ crlf = concat (map (\<lambda>x. x @ crlf) (l # ls))"
  by (induction ls arbitrary: l) auto

lemma if_framed: "(if b then [] else p @ h @ c @ q) = x # xs \<Longrightarrow> \<exists>r. (if b then [] else p @ h @ c @ q) = p @ r @ q"
  by (cases b) (auto intro!: exI [of _ "h @ c"])

lemma cookie_fields_form:
  "cookie_header env jar host path = lit ''Cookie: '' @ r @ crlf \<Longrightarrow> cookie_fields env jar host path = [(lit ''Cookie'', r)]"
  by (simp add: cookie_fields_def lit_def)

lemma cookie_header_field: "cookie_header env jar host path = concat (map (\<lambda>kv. header_line_of kv @ crlf) (cookie_fields env jar host path))"
proof (cases "cookie_header env jar host path")
  case (Cons c cs)
  then obtain r where r: "cookie_header env jar host path = lit ''Cookie: '' @ r @ crlf"
    unfolding cookie_header_def Let_def by (blast dest: if_framed)
  show ?thesis unfolding cookie_fields_form [OF r] r by (simp add: header_line_of_def lit_def)
qed (simp add: cookie_fields_def)

definition fits :: "cstring \<Rightarrow> bool" where "fits l \<longleftrightarrow> length l < 8192"

lemma snprintf_fits: "fits l \<Longrightarrow> snprintf 8192 l = l"
  by (simp add: fits_def snprintf_def)

lemma request_text_head:
  assumes "fits (meth @ lit '' '' @ path @ lit '' HTTP/1.1'' @ crlf @ lit ''Host: '' @ host @ crlf
       @ lit ''User-Agent: WebCore-Client/1.5'' @ crlf @ lit ''Accept: */*'' @ crlf)"
    and "\<forall>kv \<in> set (cl_default_headers self). fits (header_line_of kv @ crlf)"
    and "fits (concat (map (\<lambda>kv. header_line_of kv @ crlf) (payload_fields pl @ [(lit ''Connection'', lit ''close'')])) @ crlf)"
    and "cr_method req = meth"
  shows "request_text env self req pl path host expect = request_head meth path (map header_line_of (client_fields env self pl path host expect))"
proof -
  let ?fs = "\<lambda>kvs. concat (map (\<lambda>kv. header_line_of kv @ crlf) kvs)"
  have lit: "lit '' HTTP/1.1'' = 32 # lit ''HTTP/1.1''" "lit '' '' = [32]" by (simp_all add: lit_def)
  have f: "first_lines meth path host = (meth @ 32 # path @ 32 # lit ''HTTP/1.1'') @ crlf
      @ ?fs [(lit ''Host'', host), (lit ''User-Agent'', lit ''WebCore-Client/1.5''), (lit ''Accept'', lit ''*/*'')]"
    unfolding first_lines_def snprintf_fits [OF assms(1)] by (simp add: header_line_of_def lit_def)
  have d: "concat (map (\<lambda>(k, v). snprintf 8192 (k @ lit '': '' @ v @ crlf)) (cl_default_headers self)) = ?fs (cl_default_headers self)"
    using assms(2) by (intro arg_cong [of _ _ concat] map_cong refl) (auto simp: header_line_of_def snprintf_fits split: prod.splits)
  have "last_lines pl = snprintf 8192 (?fs (payload_fields pl @ [(lit ''Connection'', lit ''close'')]) @ crlf)"
    unfolding last_lines_def payload_fields_def by (rule arg_cong [of _ _ "snprintf 8192"]) (auto simp: header_line_of_def lit_def split: option.splits)
  then have l: "last_lines pl = ?fs (payload_fields pl @ [(lit ''Connection'', lit ''close'')]) @ crlf"
    using snprintf_fits [OF assms(3)] by simp
  have o: "(if cl_enable_compression self then lit ''Accept-Encoding: gzip, deflate'' @ crlf else [])
      = ?fs (if cl_enable_compression self then [(lit ''Accept-Encoding'', lit ''gzip, deflate'')] else [])"
    "(if expect then lit ''Expect: 100-continue'' @ crlf else []) = ?fs (if expect then [(lit ''Expect'', lit ''100-continue'')] else [])"
    by (simp_all add: header_line_of_def lit_def)
  have "request_text env self req pl path host expect = (meth @ 32 # path @ 32 # lit ''HTTP/1.1'') @ crlf @ ?fs (client_fields env self pl path host expect) @ crlf"
    unfolding request_text_def assms(4) f d l o cookie_header_field client_fields_def by simp
  moreover have "?fs kvs = concat (map (\<lambda>x. x @ crlf) (map header_line_of kvs))" for kvs
    by (simp add: comp_def)
  ultimately show ?thesis
    unfolding request_head_def using lines_text_crlf [of "meth @ 32 # path @ 32 # lit ''HTTP/1.1''" "map header_line_of (client_fields env self pl path host expect)"]
    by (simp only: append.assoc list.map concat.simps) (metis append.assoc)
qed

text \<open>What the client has to put into a head for it to be one: no line ends, names of token characters.\<close>

definition no_eol :: "cstring \<Rightarrow> bool" where "no_eol s \<longleftrightarrow> 13 \<notin> set s \<and> 10 \<notin> set s"

definition clean_cookie :: "HttpCookie \<Rightarrow> bool" where
  "clean_cookie c \<longleftrightarrow> pred_option no_eol (ck_name c) \<and> pred_option no_eol (ck_value c)"

lemma cookie_fields_ok:
  assumes "\<forall>c \<in> set jar. clean_cookie c" "kv \<in> set (cookie_fields env jar host path)"
  shows "header_ok kv \<and> fst kv = lit ''Cookie''"
proof -
  let ?cs = "filter (\<lambda>c. ck_name c \<noteq> None \<and> ck_value c \<noteq> None \<and> cookie_matches c host path) jar"
  let ?ts = "map (\<lambda>c. snprintf 8192 (the (ck_name c) @ lit ''='' @ the (ck_value c))) ?cs"
  have t: "\<forall>t \<in> set ?ts. no_eol t"
    using assms(1) by (auto simp: clean_cookie_def no_eol_def snprintf_def lit_def dest!: in_set_takeD)
  from assms(2) have c: "cookie_header env jar host path \<noteq> []" by (auto simp: cookie_fields_def)
  then have h: "cookie_header env jar host path = lit ''Cookie: '' @ (hd ?ts @ concat (map (\<lambda>x. lit ''; '' @ x) (tl ?ts))) @ crlf" and "?ts \<noteq> []"
    unfolding cookie_header_def Let_def by (simp_all split: if_splits)
  then have "\<forall>t \<in> set (hd ?ts # tl ?ts). no_eol t" using t by simp
  then have "no_eol (hd ?ts @ concat (map (\<lambda>x. lit ''; '' @ x) (tl ?ts)))" by (auto simp: no_eol_def lit_def)
  moreover have "kv = (lit ''Cookie'', hd ?ts @ concat (map (\<lambda>x. lit ''; '' @ x) (tl ?ts)))"
    using assms(2) unfolding cookie_fields_form [OF h] by simp
  ultimately show ?thesis by (simp add: header_ok_def no_eol_def lit_def http_is_tchar_def)
qed

definition own_name :: "cstring \<Rightarrow> bool" where
  "own_name k \<longleftrightarrow> map c_tolower k \<notin> {lit ''content-length'', lit ''transfer-encoding'', lit ''connection'', lit ''content-type''}"

definition payload_ok :: "payload \<Rightarrow> bool" where
  "payload_ok pl \<longleftrightarrow> pl_len pl \<le> 10 * 1024 * 1024 \<and> pred_option no_eol (pl_type pl) \<and> (pl_len pl > 0 \<longrightarrow> pl_type pl \<noteq> None)
     \<and> fits (concat (map (\<lambda>kv. header_line_of kv @ crlf) (payload_fields pl @ [(lit ''Connection'', lit ''close'')])) @ crlf)"

definition client_ok :: "HttpClient \<Rightarrow> cstring \<Rightarrow> bool" where
  "client_ok self host \<longleftrightarrow> no_eol host \<and> length host < 4096
     \<and> (\<forall>kv \<in> set (cl_default_headers self). header_ok kv \<and> own_name (fst kv) \<and> fits (header_line_of kv @ crlf))
     \<and> (\<forall>c \<in> set (cl_cookie_jar self). clean_cookie c)"

lemma dec_digits_no_eol: "13 \<notin> set (dec_digits n)" "10 \<notin> set (dec_digits n)"
  using dec_digits_digits [of 13 n] dec_digits_digits [of 10 n] by auto

lemma client_fields_ok:
  assumes "client_ok self host" "payload_ok pl" "kv \<in> set (client_fields env self pl path host expect)"
  shows "header_ok kv"
proof -
  have "header_ok kv" if "kv \<in> set (payload_fields pl)"
    using that assms(2) dec_digits_no_eol
    by (auto simp: payload_fields_def payload_ok_def header_ok_def no_eol_def lit_def http_is_tchar_def split: option.splits if_splits)
  with assms cookie_fields_ok [of "cl_cookie_jar self" kv env host path] show ?thesis
    by (auto simp: client_fields_def client_ok_def header_ok_def [of "(_, _)"] no_eol_def lit_def http_is_tchar_def split: if_splits)
qed

lemma filter_own:
  "n \<in> {lit ''content-length'', lit ''transfer-encoding'', lit ''connection'', lit ''content-type''} \<Longrightarrow>
   \<forall>kv \<in> set kvs. own_name (fst kv) \<Longrightarrow> filter (\<lambda>kv. map c_tolower (fst kv) = n) kvs = []"
  by (auto simp: own_name_def filter_empty_conv)

lemma cookie_own:
  assumes "client_ok self host"
  shows "\<forall>kv \<in> set (cookie_fields env (cl_cookie_jar self) host path). own_name (fst kv)"
  using cookie_fields_ok [of "cl_cookie_jar self" _ env host path] assms
  by (auto simp: client_ok_def own_name_def lit_def c_tolower_def)

text \<open>What can be looked up in the fields of the client.\<close>

lemma client_filter:
  assumes "client_ok self host" "n \<in> {lit ''content-length'', lit ''transfer-encoding'', lit ''connection'', lit ''content-type''}"
  shows "filter (\<lambda>kv. map c_tolower (fst kv) = n) (client_fields env self pl path host expect)
    = filter (\<lambda>kv. map c_tolower (fst kv) = n) (payload_fields pl @ [(lit ''Connection'', lit ''close'')])"
proof -
  have "\<forall>kv \<in> set (cl_default_headers self). own_name (fst kv)" using assms(1) by (simp add: client_ok_def)
  note f = filter_own [OF assms(2) this] filter_own [OF assms(2) cookie_own [OF assms(1), of env path]]
  have o: "own_name (lit ''Host'')" "own_name (lit ''User-Agent'')" "own_name (lit ''Accept'')" "own_name (lit ''Accept-Encoding'')" "own_name (lit ''Expect'')"
    by (simp_all add: own_name_def lit_def c_tolower_def)
  have g: "\<forall>kv \<in> set [(lit ''Host'', host), (lit ''User-Agent'', lit ''WebCore-Client/1.5''), (lit ''Accept'', lit ''*/*'')]. own_name (fst kv)"
      "\<forall>kv \<in> set (if cl_enable_compression self then [(lit ''Accept-Encoding'', lit ''gzip, deflate'')] else []). own_name (fst kv)"
      "\<forall>kv \<in> set (if expect then [(lit ''Expect'', lit ''100-continue'')] else []). own_name (fst kv)" using o by auto
  show ?thesis unfolding client_fields_def filter_append using f filter_own [OF assms(2) g(1)] filter_own [OF assms(2) g(2)] filter_own [OF assms(2) g(3)]
    by (simp split: if_splits)
qed

lemma field_filter:
  "\<forall>kv \<in> set kvs. header_ok kv \<Longrightarrow> filter (\<lambda>l. field_name l = n) (map header_line_of kvs) = map header_line_of (filter (\<lambda>kv. map c_tolower (fst kv) = n) kvs)"
  by (induction kvs) (auto simp: header_line_field(2) [unfolded prod.inject])

lemma client_one_length:
  assumes "client_ok self host" "payload_ok pl"
  shows "one_length (map header_line_of (client_fields env self pl path host expect)) (pl_len pl)"
proof -
  let ?ls = "map header_line_of (client_fields env self pl path host expect)"
  have ok: "\<forall>kv \<in> set (client_fields env self pl path host expect). header_ok kv" using client_fields_ok [OF assms] by blast
  note f = field_filter [OF ok] client_filter [OF assms(1)]
  have te: "filter (\<lambda>l. field_name l = lit ''transfer-encoding'') ?ls = []"
    unfolding f(1) f(2) [OF insertI2 [OF insertI1]] by (auto simp: payload_fields_def lit_def c_tolower_def split: option.splits)
  let ?p = "(lit ''Content-Length'', dec_digits (pl_len pl))"
  have d0: "dec_digits 0 = lit ''0''" by (simp add: lit_def dec_digits.simps [of 0])
  have cl: "cl_names ?ls = [header_line_of ?p]"
    unfolding f(1) f(2) [OF insertI1] using assms d0
    by (auto simp: payload_fields_def lit_def c_tolower_def payload_ok_def split: option.splits)
  have h: "header_ok ?p" using dec_digits_no_eol by (simp add: header_ok_def lit_def http_is_tchar_def)
  have v: "field_value (header_line_of ?p) = dec_digits (pl_len pl)"
  proof -
    have "\<not> (hd (dec_digits (pl_len pl)) = 32 \<or> hd (dec_digits (pl_len pl)) = 9)"
      using dec_digits_digits [OF hd_in_set [OF dec_digits_not_Nil], of "pl_len pl"] by auto
    then show ?thesis using header_line_field(2) [OF h] by (cases "dec_digits (pl_len pl)") auto
  qed
  from te have "lit ''transfer-encoding'' \<notin> set (map field_name ?ls)" by (auto simp: filter_empty_conv)
  with cl v dec_digits_digits dec_of_digits assms show ?thesis
    unfolding one_length_def by (auto simp: payload_ok_def)
qed

lemma lookup_field:
  assumes "\<forall>kv \<in> set kvs. header_ok kv"
  shows "hashmap_get_str (map field_pair (map header_line_of kvs)) n =
    (case rev (filter (\<lambda>kv. map c_tolower (fst kv) = n) kvs) of [] \<Rightarrow> None | kv # _ \<Rightarrow> Some (dropWhile (\<lambda>c. c = 32 \<or> c = 9) (snd kv)))"
proof -
  let ?f = "filter (\<lambda>kv. map c_tolower (fst kv) = n) kvs"
  have v: "field_value (header_line_of kv) = dropWhile (\<lambda>c. c = 32 \<or> c = 9) (snd kv)" if "kv \<in> set ?f" for kv
    using header_line_field(2) [of kv] assms that by simp
  show ?thesis
  proof (cases "rev ?f")
    case (Cons kv x)
    then have "kv \<in> set (rev ?f)" by simp
    with Cons v show ?thesis unfolding lookup_unique rev_filter [symmetric] field_filter [OF assms] rev_map [symmetric] by auto
  next
    case Nil
    then show ?thesis unfolding lookup_unique rev_filter [symmetric] field_filter [OF assms] rev_map [symmetric] by simp
  qed
qed

definition server_ok :: "req_mem \<Rightarrow> bool" where
  "server_ok mem \<longleftrightarrow> rm_req mem \<and> rm_path mem \<and> rm_query mem = (\<lambda>_. True) \<and> rm_header mem = (\<lambda>_. True) \<and> rm_json mem = []"

definition target_ok :: "cstring \<Rightarrow> cstring \<Rightarrow> cstring \<Rightarrow> (cstring \<times> cstring) list \<Rightarrow> bool" where
  "target_ok meth path p qs \<longleftrightarrow> path = p @ query_text qs \<and> 63 \<notin> set p
     \<and> (\<forall>kv \<in> set qs. 0 \<notin> set (fst kv) \<and> 0 \<notin> set (snd kv))
     \<and> path \<noteq> [] \<and> length path < 2048 \<and> 32 \<notin> set path \<and> 13 \<notin> set path
     \<and> meth \<noteq> [] \<and> length meth < 16 \<and> 32 \<notin> set meth \<and> 13 \<notin> set meth"

lemma request_arrives:
  assumes "server_ok mem" "target_ok meth path p qs" "client_ok self host" "payload_ok pl" "cr_method req = meth"
  shows "\<exists>e rq. strstr (request_text env self req pl path host expect @ r) (crlf @ crlf) = Some e
    \<and> length (request_text env self req pl path host expect) = e + 4
    \<and> parse_request mem (request_text env self req pl path host expect @ r) e = Inr (rq, False, pl_len pl)
    \<and> rq_method rq = method_of meth \<and> rq_path rq = Some p \<and> rq_query rq = qs
    \<and> rq_headers rq = map (\<lambda>kv. (map c_tolower (fst kv), dropWhile (\<lambda>c. c = 32 \<or> c = 9) (snd kv))) (client_fields env self pl path host expect)
    \<and> hashmap_get_str (rq_headers rq) (lit ''content-type'') = (if pl_len pl > 0 then map_option (dropWhile (\<lambda>c. c = 32 \<or> c = 9)) (pl_type pl) else None)
    \<and> rq_body rq = None \<and> rq_body_len rq = pl_len pl"
proof -
  let ?kvs = "client_fields env self pl path host expect"
  let ?ls = "map header_line_of ?kvs" and ?h = "request_head meth path (map header_line_of (client_fields env self pl path host expect))"
  have t: "request_text env self req pl path host expect = ?h"
    by (rule request_text_head) (use assms(2-5) in \<open>auto simp: target_ok_def client_ok_def payload_ok_def fits_def lit_def\<close>)
  have ok: "\<forall>kv \<in> set ?kvs. header_ok kv" using client_fields_ok [OF assms(3,4)] by blast
  then have fl: "\<forall>l \<in> set ?ls. field_line l" using header_line_field(1) by auto
  have pt: "parse_target (rm_query mem) path = Some (p, qs)"
    using parse_target_query [of p qs "rm_query mem"] assms(1,2) by (auto simp: target_ok_def server_ok_def)
  have m: "rm_req mem" "rm_path mem" "\<forall>i. rm_query mem i" "\<forall>i. rm_header mem i" using assms(1) by (simp_all add: server_ok_def)
  have q: "meth \<noteq> []" "length meth < 16" "32 \<notin> set meth" "13 \<notin> set meth" "path \<noteq> []" "length path < 2048" "32 \<notin> set path" "13 \<notin> set path"
    using assms(2) unfolding target_ok_def by blast+
  note pr = parse_request_ok [OF m q fl client_one_length [OF assms(3,4)] pt, of r]
  have c: "hashmap_get_str (map field_pair ?ls) (lit ''connection'') = Some (lit ''close'')"
    unfolding lookup_field [OF ok] client_filter [OF assms(3) insertI2 [OF insertI2 [OF insertI1]]]
    by (auto simp: payload_fields_def lit_def c_tolower_def split: option.splits)
  have ct: "hashmap_get_str (map field_pair ?ls) (lit ''content-type'') = (if pl_len pl > 0 then map_option (dropWhile (\<lambda>c. c = 32 \<or> c = 9)) (pl_type pl) else None)"
    unfolding lookup_field [OF ok] client_filter [OF assms(3) insertI2 [OF insertI2 [OF insertI2 [OF insertI1]]]]
    by (auto simp: payload_fields_def lit_def c_tolower_def split: option.splits)
  have fp: "map field_pair ?ls = map (\<lambda>kv. (map c_tolower (fst kv), dropWhile (\<lambda>c. c = 32 \<or> c = 9) (snd kv))) ?kvs"
    using ok header_line_field(2) by auto
  have "4 \<le> length ?h" by (simp add: request_head_def)
  then show ?thesis using pr c ct unfolding t fp [symmetric]
    by (intro exI conjI) (auto simp: strcasecmp_eq_def)
qed

section \<open>JSON all the way\<close>

lemma json_body_no_nul:
  assumes "\<forall>kv \<in> set kvs. json_string_ok (fst kv) \<and> json_string_ok (snd kv)"
  shows "0 \<notin> set (json_loop (\<lambda>_. (True, True)) i (map (map_prod id Some) kvs))"
  using assms
proof (induction kvs arbitrary: i)
  case (Cons kv kvs)
  have "0 \<notin> set (concat (map json_escape_char s))" if "json_string_ok s" for s
    using json_string_ok_bytes [OF that] json_escape_char_esc by (force simp: esc_def escape_letter_def split: option.splits if_splits)
  with Cons show ?case by (cases kv) (auto simp: json_escape_ok lit_def)
qed simp

lemma parse_body_json:
  assumes "rq_body rq = Some body" "0 \<notin> set body" "hashmap_get_str (rq_headers rq) (lit ''content-type'') = Some (lit ''application/json'')"
    and "rm_json mem = []" "body \<noteq> []" "hd body = 123" "parse_JSON F [] body = Some \<lparr>pr_root = Some node, pr_success = True, pr_error = []\<rparr>"
  shows "parse_body F mem rq = rq\<lparr>rq_json := Some node\<rparr>"
proof -
  have "strstr (lit ''application/json'') (lit ''application/x-www-form-urlencoded'') = None"
    "strstr (lit ''application/json'') (lit ''application/json'') \<noteq> None" by (simp_all add: strstr_def lit_def memmem.simps)
  moreover have "c_str body = body" using assms(2) by (induction body) (auto simp: c_str_def)
  moreover have "body \<noteq> lit ''[]''" using assms(5,6) by (auto simp: lit_def)
  ultimately show ?thesis using assms by (simp add: parse_body_def new_JSON_def)
qed


section \<open>Answers\<close>

definition answer_fields :: "(str_map \<Rightarrow> str_map) \<Rightarrow> HttpResponse \<Rightarrow> cstring option \<Rightarrow> byte list \<Rightarrow> (cstring \<times> cstring) list" where
  "answer_fields iter self ctype body =
     (case ctype of Some ct \<Rightarrow> if custom_ctype (rs_headers self) = None then [(lit ''Content-Type'', ct)] else [] | None \<Rightarrow> [])
     @ [(lit ''Content-Length'', dec_digits (length body))] @ iter (rs_headers self)"

definition status_line_of :: "int \<Rightarrow> cstring" where
  "status_line_of code = lit ''HTTP/1.1 '' @ format_d code @ lit '' '' @ Http_statusMessage code"

abbreviation hdrs_text :: "(cstring \<times> cstring) list \<Rightarrow> cstring" where
  "hdrs_text kvs \<equiv> concat (map (\<lambda>kv. header_line_of kv @ crlf) kvs)"

lemma head_add_ok: "length buf + length txt < 4096 \<Longrightarrow> head_add buf txt = Some (buf @ txt)"
  by (simp add: head_add_def)

lemma header_text_line: "header_text k v = header_line_of (k, v) @ crlf"
  by (simp add: header_text_def header_line_of_def)

lemma write_hdrs_ok: "length buf + length (hdrs_text hs) < 4096 \<Longrightarrow> write_hdrs buf hs = Some (buf @ hdrs_text hs)"
proof (induction hs arbitrary: buf)
  case (Cons kv hs)
  then show ?case by (cases kv) (simp add: head_add_ok header_text_line)
qed simp

lemma send_internal_bytes:
  assumes "rs_open self" "\<not> (rs_conn self \<and> rs_head self)"
    and "length (status_line_of (rs_status_code self)) + length (hdrs_text (answer_fields iter self ctype body)) + 4 < 4096"
  shows "appended (send_internal iter self ctype body)
    = status_line_of (rs_status_code self) @ crlf @ hdrs_text (answer_fields iter self ctype body) @ crlf @ body"
proof -
  let ?s = "status_text (rs_status_code self)"
  let ?c = "(case ctype of Some ct \<Rightarrow> if custom_ctype (rs_headers self) = None then [(lit ''Content-Type'', ct)] else [] | None \<Rightarrow> [])"
  let ?l = "[(lit ''Content-Length'', dec_digits (length body))]" and ?h = "iter (rs_headers self)"
  have s: "?s = status_line_of (rs_status_code self) @ crlf" by (simp add: status_text_def status_line_of_def)
  have len: "length ?s + length (hdrs_text ?c) + length (hdrs_text ?l) + length (hdrs_text ?h) + 2 < 4096"
    using assms(3) by (simp add: s answer_fields_def)
  have a: "head_add [] ?s = Some ?s" using len by (simp add: head_add_ok)
  have b: "(case ctype of Some ct \<Rightarrow> if custom_ctype (rs_headers self) = None then head_add ?s (header_text (lit ''Content-Type'') ct) else Some ?s
      | None \<Rightarrow> Some ?s) = Some (?s @ hdrs_text ?c)"
    using len by (auto simp: header_text_line head_add_ok split: option.splits)
  have c: "head_add (?s @ hdrs_text ?c) (header_text (lit ''Content-Length'') (dec_digits (length body))) = Some (?s @ hdrs_text ?c @ hdrs_text ?l)"
    using len by (subst head_add_ok) (simp_all add: header_text_line)
  have d: "write_hdrs (?s @ hdrs_text ?c @ hdrs_text ?l) ?h = Some (?s @ hdrs_text ?c @ hdrs_text ?l @ hdrs_text ?h)"
    using len by (subst write_hdrs_ok) simp_all
  have e: "head_add (?s @ hdrs_text ?c @ hdrs_text ?l @ hdrs_text ?h) crlf = Some (?s @ hdrs_text ?c @ hdrs_text ?l @ hdrs_text ?h @ crlf)"
    using len by (subst head_add_ok) simp_all
  have "appended (send_internal iter self ctype body) = ?s @ hdrs_text ?c @ hdrs_text ?l @ hdrs_text ?h @ crlf @ body"
    unfolding send_internal_def a option.case b Let_def c or_else_def d e using assms(1,2) by auto
  then show ?thesis by (simp add: answer_fields_def s)
qed

lemma scan_d_digits:
  assumes "n < 2 ^ 31" "r = [] \<or> \<not> isdigit (hd r)"
  shows "scan_d (dec_digits n @ r) = Some (int n, r)"
proof -
  have d: "\<forall>c \<in> set (dec_digits n). isdigit c" using dec_digits_digits by blast
  have h: "isdigit (hd (dec_digits n))" by (rule dec_digits_digits [OF hd_in_set]) simp
  obtain c cs where c: "dec_digits n = c # cs" by (cases "dec_digits n") simp_all
  have c1: "\<not> isspace c" "c \<noteq> 45" "c \<noteq> 43" using h c by (auto simp: isspace_def word_le_nat_alt)
  have "dec_val 0 (dec_digits n @ r) = n" using dec_val_stop [OF d assms(2)] dec_of_digits by simp
  then have v: "strtol10 (dec_digits n @ r) = int n" using assms(1) c c1 by (simp add: strtol10_def ch_def)
  have w: "dropWhile isdigit (dec_digits n @ r) = r" using d assms(2) by (cases r) (auto simp: dropWhile_append)
  show ?thesis unfolding scan_d_def using c c1 h v w assms(1) by (simp add: ch_def wrap32_def)
qed

lemma scan_d_space: "scan_d (32 # s) = scan_d s"
  by (simp add: scan_d_def strtol10_def isspace_def Let_def)

lemma status_line_scanned:
  assumes "0 \<le> code" "code < 2 ^ 31"
  shows "sscanf_status (status_line_of code) = Some code"
proof -
  have l: "lit ''HTTP/1.1 '' = lit ''HTTP/1.'' @ dec_digits 1 @ [32]" "lit '' '' = [32]" "length (lit ''HTTP/1.'') = 7"
    by (simp_all add: lit_def dec_digits.simps [of "Suc 0"])
  have f: "format_d code = dec_digits (nat code)" using assms(1) by (simp add: format_d_def)
  have "scan_d (dec_digits 1 @ 32 # dec_digits (nat code) @ 32 # Http_statusMessage code) = Some (int 1, 32 # dec_digits (nat code) @ 32 # Http_statusMessage code)"
    by (rule scan_d_digits) simp_all
  moreover have "scan_d (dec_digits (nat code) @ 32 # Http_statusMessage code) = Some (int (nat code), 32 # Http_statusMessage code)"
    by (rule scan_d_digits) (use assms in auto)
  ultimately show ?thesis using assms(1) by (simp add: sscanf_status_def status_line_of_def l f scan_d_space)
qed

definition plain_text :: "cstring \<Rightarrow> bool" where "plain_text s \<longleftrightarrow> (\<forall>c \<in> set s. line_char c)"

lemma tchar_line_char: "list_all http_is_tchar k \<Longrightarrow> plain_text k"
  by (auto simp: plain_text_def line_char_def http_is_tchar_def list_all_iff)

lemma header_values_lines:
  "\<forall>kv \<in> set kvs. header_ok kv \<Longrightarrow>
     header_values n (map header_line_of kvs) = map (\<lambda>kv. 32 # snd kv) (filter (\<lambda>kv. strcasecmp_eq (fst kv) n) kvs)"
proof (induction kvs)
  case (Cons kv kvs)
  then have "58 \<notin> set (fst kv)" using tchar_not by (auto simp: header_ok_def list_all_iff)
  moreover have "header_line_of kv = fst kv @ 58 # 32 # snd kv" by (simp add: header_line_of_def lit_def)
  ultimately show ?case using Cons strchr_append [of 58 "fst kv" "32 # snd kv"] by (simp add: header_values_def)
qed (simp add: header_values_def)

lemma header_pair_line: "header_ok kv \<Longrightarrow> header_pair (header_line_of kv) = [(fst kv, dropWhile isspace (snd kv))]"
proof -
  assume "header_ok kv"
  then have "58 \<notin> set (fst kv)" using tchar_not by (auto simp: header_ok_def list_all_iff)
  moreover have "header_line_of kv = fst kv @ 58 # 32 # snd kv" by (simp add: header_line_of_def lit_def)
  ultimately show ?thesis using strchr_append [of 58 "fst kv" "32 # snd kv"] by (simp add: header_pair_def isspace_def)
qed

lemma header_pairs_lines:
  "\<forall>kv \<in> set kvs. header_ok kv \<Longrightarrow> concat (map header_pair (map header_line_of kvs)) = map (\<lambda>kv. (fst kv, dropWhile isspace (snd kv))) kvs"
  by (induction kvs) (simp_all add: header_pair_line)

lemma content_length_digits: "n \<le> m \<Longrightarrow> parse_content_length (32 # dec_digits n) m = Some n"
  using parse_content_length_exact [of "dec_digits n" m "[32]" "[]"] dec_digits_digits by (simp add: dec_of_digits)

definition answer_ok :: "(str_map \<Rightarrow> str_map) \<Rightarrow> HttpResponse \<Rightarrow> cstring option \<Rightarrow> byte list \<Rightarrow> bool" where
  "answer_ok iter self ctype body \<longleftrightarrow> rs_open self \<and> \<not> (rs_conn self \<and> rs_head self)
     \<and> 200 \<le> rs_status_code self \<and> rs_status_code self \<le> 999
     \<and> pred_option plain_text ctype \<and> length body \<le> HTTP_MAX_BODY \<and> length (iter (rs_headers self)) \<le> 98
     \<and> (\<forall>kv \<in> set (iter (rs_headers self)). header_ok kv \<and> plain_text (snd kv)
          \<and> \<not> strcasecmp_eq (fst kv) (lit ''Content-Length'') \<and> \<not> strcasecmp_eq (fst kv) (lit ''Transfer-Encoding''))
     \<and> length (status_line_of (rs_status_code self)) + length (hdrs_text (answer_fields iter self ctype body)) + 4 < 4096"

lemma plain_text_simps [simp]: "plain_text []" "plain_text (c # s) \<longleftrightarrow> line_char c \<and> plain_text s" "plain_text (s @ u) \<longleftrightarrow> plain_text s \<and> plain_text u"
  by (auto simp: plain_text_def)

lemma plain_text_eol: "plain_text s \<Longrightarrow> 13 \<notin> set s \<and> 10 \<notin> set s"
  by (auto simp: plain_text_def line_char_def)

lemma dec_digits_plain [simp]: "plain_text (dec_digits n)"
  using dec_digits_digits [of _ n] by (force simp: plain_text_def line_char_def)

lemma header_line_plain: "header_ok kv \<Longrightarrow> plain_text (snd kv) \<Longrightarrow> plain_text (header_line_of kv)"
  using tchar_line_char by (auto simp: header_line_of_def header_ok_def lit_def line_char_def)

lemma answer_fields_ok:
  assumes "answer_ok iter self ctype body" "kv \<in> set (answer_fields iter self ctype body)"
  shows "header_ok kv \<and> plain_text (snd kv)"
proof -
  have "header_ok (lit ''Content-Type'', s)" "header_ok (lit ''Content-Length'', s)" if "plain_text s" for s
    using plain_text_eol [OF that] by (simp_all add: header_ok_def lit_def http_is_tchar_def)
  then show ?thesis using assms by (auto simp: answer_ok_def answer_fields_def split: option.splits if_splits)
qed

lemma status_message_plain: "plain_text (Http_statusMessage code)"
  by (simp add: Http_statusMessage_def plain_text_def line_char_def lit_def)

lemma hdrs_text_length: "l \<in> set kvs \<Longrightarrow> length (header_line_of l) + 2 \<le> length (hdrs_text kvs)"
  by (induction kvs) auto

lemma hdrs_text_sum: "sum_list (map (\<lambda>l. length l + 2) (map header_line_of kvs)) = length (hdrs_text kvs)"
  by (induction kvs) auto

lemma answer_encodes:
  assumes "answer_ok iter self ctype body"
  shows "encodes (map header_line_of (answer_fields iter self ctype body)) body (body @ r) r"
proof -
  let ?kvs = "answer_fields iter self ctype body"
  have ok: "\<forall>kv \<in> set ?kvs. header_ok kv" using answer_fields_ok [OF assms] by blast
  have "\<not> strcasecmp_eq (lit ''Content-Type'') (lit ''Content-Length'')" "\<not> strcasecmp_eq (lit ''Content-Type'') (lit ''Transfer-Encoding'')"
    "\<not> strcasecmp_eq (lit ''Content-Length'') (lit ''Transfer-Encoding'')" by (simp_all add: strcasecmp_eq_def lit_def c_tolower_def)
  then have "filter (\<lambda>kv. strcasecmp_eq (fst kv) (lit ''Content-Length'')) ?kvs = [(lit ''Content-Length'', dec_digits (length body))]"
    "filter (\<lambda>kv. strcasecmp_eq (fst kv) (lit ''Transfer-Encoding'')) ?kvs = []"
    using assms by (auto simp: answer_fields_def answer_ok_def filter_empty_conv split: option.splits)
  then have "cl_values (map header_line_of ?kvs) = [parse_content_length (32 # dec_digits (length body)) SIZE_MAX]" "te_values (map header_line_of ?kvs) = []"
    using header_values_lines [OF ok] by simp_all
  moreover have "parse_content_length (32 # dec_digits (length body)) SIZE_MAX = Some (length body)"
    by (rule content_length_digits) (use assms in \<open>simp add: answer_ok_def\<close>)
  ultimately show ?thesis using assms by (simp add: encodes_def answer_ok_def)
qed

text \<open>(C14) Whatever a handler answers with \<^verbatim>\<open>sendText\<close>, \<^verbatim>\<open>sendJson\<close> or \<^verbatim>\<open>sendStatus\<close>, the client reads: when the head fits the buffer of
  the server and its own fields do not frame the body again, the bytes written are parsed by \<^verbatim>\<open>http_response_parser.c\<close> as
  the same status, the same fields in order and the same body, whatever follows them on the connection is left for the
  next response.\<close>

theorem HttpExchange_answer_read:
  assumes "mem_ok mem" "answer_ok iter self ctype body" "has_body meth (rs_status_code self)"
    and "ht_stream t = appended (send_internal iter self ctype body) @ r"
  shows "\<exists>res t1. HttpResponseParser_parse_with_options HttpTransport_getc mem None meth t = Some (res, t1)
    \<and> res_status_code res = rs_status_code self
    \<and> res_headers res = map (\<lambda>kv. (fst kv, dropWhile isspace (snd kv))) (answer_fields iter self ctype body)
    \<and> res_body res = body \<and> res_body_len res = length body \<and> ht_stream t1 = r"
proof -
  let ?kvs = "answer_fields iter self ctype body" and ?sl = "status_line_of (rs_status_code self)"
  let ?ls = "map header_line_of ?kvs"
  have ok: "\<forall>kv \<in> set ?kvs. header_ok kv \<and> plain_text (snd kv)" using answer_fields_ok [OF assms(2)] by blast
  have len: "length ?sl + length (hdrs_text ?kvs) + 4 < 4096" and cnt: "length ?ls \<le> 100" and v: "200 \<le> rs_status_code self" "rs_status_code self \<le> 999"
    using assms(2) by (auto simp: answer_ok_def answer_fields_def split: option.splits)
  have "plain_text ?sl" using status_message_plain v by (simp add: status_line_of_def line_char_def lit_def format_d_def)
  moreover have "plain_text l" if "l \<in> set ?ls" for l
    using that ok header_line_plain by auto
  moreover have "length l \<le> 4093" if "l \<in> set ?ls" for l using that hdrs_text_length len by fastforce
  ultimately have lines: "\<forall>l \<in> set (?sl # ?ls). l \<noteq> [] \<and> (\<forall>c \<in> set l. line_char c) \<and> length l \<le> 4093"
    using len by (auto simp: plain_text_def header_line_of_def lit_def status_line_of_def)
  have ss: "sscanf_status ?sl = Some (rs_status_code self)" using v by (intro status_line_scanned) simp_all
  have st: "ht_stream t = ?sl @ crlf @ concat (map (\<lambda>l. l @ crlf) ?ls) @ crlf @ body @ r"
    using assms(2,4) send_internal_bytes [of self iter ctype body] len by (simp add: answer_ok_def comp_def)
  have sum: "sum_list (map (\<lambda>l. length l + 2) ?ls) \<le> 65536" unfolding hdrs_text_sum using len by simp
  have "concat (map header_pair ?ls) = map (\<lambda>kv. (fst kv, dropWhile isspace (snd kv))) ?kvs"
    using ok by (intro header_pairs_lines) blast
  with response_complete [OF assms(1) ss v assms(3) lines cnt sum answer_encodes [OF assms(2)] st] show ?thesis by simp
qed

definition hello_answer :: HttpResponse where
  "hello_answer = \<lparr>rs_status_code = 404, rs_headers = [(lit ''X-Id'', lit ''7'')], rs_conn = True, rs_head = False, rs_open = True\<rparr>"

definition hello_wire :: HttpTransport where
  "hello_wire = hello_response\<lparr>ht_sock := \<lparr>so_rx = [Rx_data (appended (impl_sendText id hello_answer (Some (lit ''gone''))))],
       so_tx = [], so_sent = []\<rparr>\<rparr>"

theorem HttpExchange_answer_read_witness:
  "\<exists>res t1. HttpResponseParser_parse_with_options HttpTransport_getc ok_mem None (Some (lit ''GET'')) hello_wire = Some (res, t1)
    \<and> res_status_code res = 404 \<and> res_body res = lit ''gone''"
proof -
  have ok: "answer_ok id hello_answer (Some (lit ''text/plain; charset=utf-8'')) (lit ''gone'')"
    by (simp add: answer_ok_def hello_answer_def answer_fields_def custom_ctype_def header_ok_def http_is_tchar_def strcasecmp_eq_def
        c_tolower_def header_line_of_def line_char_def status_line_of_def format_d_def dec_digits.simps Http_statusMessage_def lit_def)
  have st: "ht_stream hello_wire = appended (send_internal id hello_answer (Some (lit ''text/plain; charset=utf-8'')) (lit ''gone'')) @ []"
    by (simp add: hello_wire_def hello_response_def ht_stream_def impl_sendText_def)
  have "has_body (Some (lit ''GET'')) (rs_status_code hello_answer)" by (simp add: has_body_def hello_answer_def lit_def)
  from HttpExchange_answer_read [OF hello_facts(1) ok this st] show ?thesis by (auto simp: hello_answer_def)
qed

definition post_env :: attempt_env where
  "post_env = \<lparr>ae_open = \<lambda>_ _ _. None, ae_url_map = True, ae_url = \<lambda>_. True, ae_tr = True, ae_fs = \<lambda>_. None, ae_clock = (0, 0, 0),
     ae_body = (True, True, True), ae_pair = \<lambda>_. (True, True), ae_part = \<lambda>_. True, ae_norm = (True, True), ae_seg = \<lambda>_. True,
     ae_head = True, ae_keys = True, ae_cookie = True, ae_res = ok_mem, ae_jar = \<lambda>_ _. True, ae_jar_add = \<lambda>_. True\<rparr>"

definition post_client :: HttpClient where
  "post_client = \<lparr>cl_default_headers = [(lit ''X-Id'', lit ''7'')], cl_cookie_jar = [], cl_timeout_ms = 5000, cl_max_redirects = 5,
     cl_follow_redirects = True, cl_enable_compression = False, cl_expect_100_continue = False\<rparr>"

definition post_mem :: req_mem where
  "post_mem = \<lparr>rm_req = True, rm_query = \<lambda>_. True, rm_path = True, rm_header = \<lambda>_. True, rm_body = True, rm_copy = True,
     rm_form = \<lambda>_. True, rm_json = [], rm_multi = True, rm_part = \<lambda>_ _. True\<rparr>"

definition post_request :: HttpClientRequest where
  "post_request = plain_request (lit ''POST'') (lit ''http://h/a?k=v'') PAYLOAD_JSON (Some [([97], Some [])])"


section \<open>The cookie jar\<close>

definition jar_inv :: "HttpCookie list \<Rightarrow> bool" where
  "jar_inv jar \<longleftrightarrow> sorted_wrt (\<lambda>c d. \<not> same_cookie c d) jar"

lemma same_cookie_equiv:
  "same_cookie c c" "same_cookie c d \<longleftrightarrow> same_cookie d c" "same_cookie c d \<Longrightarrow> same_cookie d e \<Longrightarrow> same_cookie c e"
  by (auto simp: same_cookie_def same_opt_def strcasecmp_eq_def split: option.splits)

lemma remove_same_inv:
  "jar_inv jar \<Longrightarrow> jar_inv (remove_same n jar) \<and> (\<forall>c \<in> set (remove_same n jar). c \<in> set jar \<and> \<not> same_cookie c n)"
proof (induction jar)
  case (Cons c jar)
  then show ?case using same_cookie_equiv(2,3) by (auto simp: jar_inv_def)
qed (simp add: jar_inv_def)

lemma store_cookies_inv: "jar_inv jar \<Longrightarrow> jar_inv (store_cookies env i jar ss)"
proof (induction ss arbitrary: i jar)
  case (Cons s ss)
  have "jar_inv (update_cookie_jar b jar c)" for b c
    using remove_same_inv [OF Cons.prems, of c] by (auto simp: update_cookie_jar_def jar_inv_def sorted_wrt_append)
  with Cons show ?case by (simp split: option.splits)
qed simp

text \<open>After any exchange the client's cookie jar holds at most one cookie per name, domain and path, whatever the servers
  sent and wherever the allocator failed; redirects included.\<close>

lemma HttpClient_cookie_jar:
  assumes "jar_inv (cl_cookie_jar self)" "impl_execute envs self req = (res, self1)"
  shows "jar_inv (cl_cookie_jar self1)"
proof -
  have "jar_inv (cl_cookie_jar s) \<Longrightarrow> execute_loop envs i n r s req url = (res, self1) \<Longrightarrow> jar_inv (cl_cookie_jar self1)" for i n r s url
  proof (induction n arbitrary: i r s url)
    case (Suc n)
    let ?s1 = "\<lambda>rs :: HttpClientResponse. s\<lparr>cl_cookie_jar := store_cookies (envs i) 0 (cl_cookie_jar s) (res_cookies rs)\<rparr>"
    have inv: "jar_inv (cl_cookie_jar (?s1 rs))" for rs using store_cookies_inv [OF Suc.prems(1)] by simp
    from Suc.prems(2) have "self1 = s \<or> (\<exists>rs. self1 = ?s1 rs) \<or> (\<exists>rs u. execute_loop envs (i + 1) n Exec_freed (?s1 rs) req u = (res, self1))"
      by (auto simp: Let_def split: option.splits prod.splits if_splits)
    with Suc.prems(1) inv Suc.IH show ?case by blast
  qed simp
  with assms show ?thesis by (auto simp: impl_execute_def split: option.splits)
qed

text \<open>The last allowed answer, when it is a redirect itself, is returned after it was released.\<close>

lemma execute_redirects_exhausted:
  assumes "HttpTransport_connect (ae_open (envs i)) (ae_url_map (envs i)) (ae_url (envs i)) (ae_tr (envs i)) url = Some t"
    and "attempt (envs i) self req t = Some (res, t1)" "cl_follow_redirects self" "is_redirect (res_status_code res)"
    and "map_of (rev (res_headers res)) (lit ''Location'') = Some loc"
  shows "fst (execute_loop envs i 1 r self req url) = Exec_freed"
  using assms by (simp add: Let_def)

text \<open>A raw body without a content type is announced as empty and sent all the same.\<close>

lemma raw_body_not_announced:
  assumes "cr_payload_type req = PAYLOAD_RAW" "cr_raw_content_type req = None" "cr_raw_body req = Some b" "cr_raw_body_len req = length b" "b \<noteq> []"
    and "make_payload env req bnd t = Some pl"
  shows "take 19 (last_lines pl) = lit ''Content-Length: 0'' @ crlf"
    and "HttpTransport_send t b = (True, t1) \<Longrightarrow> send_body env req bnd pl t = Some t1"
  using assms by (auto simp: make_payload_def last_lines_def snprintf_def send_body_def lit_def)

end
