(* ===== verification/Linked_Lists.thy ===== *)
theory Linked_Lists
  imports Arc_Ownership "HOL-Library.Monad_Syntax"
begin

text \<open>
  \<^verbatim>\<open>src/src/list.c\<close>, the doubly linked list, and \<^verbatim>\<open>src/src/linked_list.c\<close>, the singly linked one.
  The nodes of \<^verbatim>\<open>List\<close> point at each other in both directions, so they live in an explicit store
  (\<open>ls_nodes\<close>: node address to node); reading or writing through a NULL or freed node pointer makes the
  operation return \<open>None\<close>, so that every theorem that gives \<open>Some\<close> also says that no such access
  happens. \<open>dseg\<close> is the doubly linked segment predicate and \<open>dll\<close> the representation invariant; it
  also says that the store holds no other node, so no node leaks.
  The chain of \<^verbatim>\<open>LinkedList\<close> is only ever followed forwards and is a HOL list.
  All methods run under the list's mutex and are one step each; allocation answers (with the address
  of the new node) are arguments.
\<close>

section \<open>List: nodes and pointer operations\<close>

record ListNode =
  ln_data :: ptr
  ln_prev :: ptr
  ln_next :: ptr

type_synonym nodes = "addr \<rightharpoonup> ListNode"

record List =
  ls_nodes :: nodes
  ls_head :: ptr
  ls_tail :: ptr
  ls_size :: int

definition deref :: "nodes \<Rightarrow> ptr \<Rightarrow> ListNode option" where
  "deref N p = (case p of None \<Rightarrow> None | Some a \<Rightarrow> N a)"

definition set_next :: "nodes \<Rightarrow> ptr \<Rightarrow> ptr \<Rightarrow> nodes option" where
  "set_next N p q = do { n \<leftarrow> deref N p; Some (N(the p \<mapsto> n\<lparr>ln_next := q\<rparr>)) }"

definition set_prev :: "nodes \<Rightarrow> ptr \<Rightarrow> ptr \<Rightarrow> nodes option" where
  "set_prev N p q = do { n \<leftarrow> deref N p; Some (N(the p \<mapsto> n\<lparr>ln_prev := q\<rparr>)) }"

definition free_node :: "nodes \<Rightarrow> ptr \<Rightarrow> nodes option" where
  "free_node N p = do { _ \<leftarrow> deref N p; Some (N(the p := None)) }"

definition new_List :: "unit alloc \<Rightarrow> List option" where
  "new_List mem = (case mem of Alloc_Fail \<Rightarrow> None
     | Alloc_Ok _ \<Rightarrow> Some \<lparr>ls_nodes = Map.empty, ls_head = None, ls_tail = None, ls_size = 0\<rparr>)"

definition pushBack_nolock :: "addr alloc \<Rightarrow> 'p heap \<Rightarrow> List \<Rightarrow> ptr \<Rightarrow> ('p heap \<times> List) option" where
  "pushBack_nolock mem h self data =
     (case mem of Alloc_Fail \<Rightarrow> Some (h, self)
      | Alloc_Ok a \<Rightarrow>
          (let h1 = RETAIN h data;
               N = (ls_nodes self)(a \<mapsto> \<lparr>ln_data = data, ln_prev = ls_tail self, ln_next = None\<rparr>)
           in do {
             self1 \<leftarrow> (if ls_tail self \<noteq> None
                       then do { N1 \<leftarrow> set_next N (ls_tail self) (Some a); Some (self\<lparr>ls_nodes := N1\<rparr>) }
                       else Some (self\<lparr>ls_nodes := N, ls_head := Some a\<rparr>));
             Some (h1, self1\<lparr>ls_tail := Some a, ls_size := wrap32 (ls_size self1 + 1)\<rparr>) }))"

definition pushFront_nolock :: "addr alloc \<Rightarrow> 'p heap \<Rightarrow> List \<Rightarrow> ptr \<Rightarrow> ('p heap \<times> List) option" where
  "pushFront_nolock mem h self data =
     (case mem of Alloc_Fail \<Rightarrow> Some (h, self)
      | Alloc_Ok a \<Rightarrow>
          (let h1 = RETAIN h data;
               N = (ls_nodes self)(a \<mapsto> \<lparr>ln_data = data, ln_prev = None, ln_next = ls_head self\<rparr>)
           in do {
             self1 \<leftarrow> (if ls_head self \<noteq> None
                       then do { N1 \<leftarrow> set_prev N (ls_head self) (Some a); Some (self\<lparr>ls_nodes := N1\<rparr>) }
                       else Some (self\<lparr>ls_nodes := N, ls_tail := Some a\<rparr>));
             Some (h1, self1\<lparr>ls_head := Some a, ls_size := wrap32 (ls_size self1 + 1)\<rparr>) }))"

definition popBack_nolock :: "List \<Rightarrow> (ptr \<times> List) option" where
  "popBack_nolock self =
     (if ls_tail self = None then Some (None, self)
      else do {
        node \<leftarrow> deref (ls_nodes self) (ls_tail self);
        self1 \<leftarrow> (if ln_prev node \<noteq> None
                  then do { N1 \<leftarrow> set_next (ls_nodes self) (ln_prev node) None;
                            Some (self\<lparr>ls_nodes := N1, ls_tail := ln_prev node\<rparr>) }
                  else Some (self\<lparr>ls_tail := None, ls_head := None\<rparr>));
        N2 \<leftarrow> free_node (ls_nodes self1) (ls_tail self);
        Some (ln_data node, self1\<lparr>ls_nodes := N2, ls_size := wrap32 (ls_size self1 - 1)\<rparr>) })"

definition popFront_nolock :: "List \<Rightarrow> (ptr \<times> List) option" where
  "popFront_nolock self =
     (if ls_head self = None then Some (None, self)
      else do {
        node \<leftarrow> deref (ls_nodes self) (ls_head self);
        self1 \<leftarrow> (if ln_next node \<noteq> None
                  then do { N1 \<leftarrow> set_prev (ls_nodes self) (ln_next node) None;
                            Some (self\<lparr>ls_nodes := N1, ls_head := ln_next node\<rparr>) }
                  else Some (self\<lparr>ls_head := None, ls_tail := None\<rparr>));
        N2 \<leftarrow> free_node (ls_nodes self1) (ls_head self);
        Some (ln_data node, self1\<lparr>ls_nodes := N2, ls_size := wrap32 (ls_size self1 - 1)\<rparr>) })"

definition List_pushBack :: "addr alloc \<Rightarrow> 'p heap \<Rightarrow> List \<Rightarrow> ptr \<Rightarrow> ('p heap \<times> List) option" where [simp]:
  "List_pushBack = pushBack_nolock"

definition List_pushFront :: "addr alloc \<Rightarrow> 'p heap \<Rightarrow> List \<Rightarrow> ptr \<Rightarrow> ('p heap \<times> List) option" where [simp]:
  "List_pushFront = pushFront_nolock"

definition List_popBack :: "List \<Rightarrow> (ptr \<times> List) option" where [simp]:
  "List_popBack = popBack_nolock"

definition List_popFront :: "List \<Rightarrow> (ptr \<times> List) option" where [simp]:
  "List_popFront = popFront_nolock"


text \<open>The two walks to position \<open>index\<close>: \<open>n\<close> steps along \<^verbatim>\<open>next\<close> from the head or along \<^verbatim>\<open>prev\<close> from the tail.\<close>

fun walk_next :: "nodes \<Rightarrow> ptr \<Rightarrow> nat \<Rightarrow> ptr option" where
  "walk_next N p 0 = Some p"
| "walk_next N p (Suc n) = do { node \<leftarrow> deref N p; walk_next N (ln_next node) n }"

fun walk_prev :: "nodes \<Rightarrow> ptr \<Rightarrow> nat \<Rightarrow> ptr option" where
  "walk_prev N p 0 = Some p"
| "walk_prev N p (Suc n) = do { node \<leftarrow> deref N p; walk_prev N (ln_prev node) n }"

definition List_seek :: "List \<Rightarrow> int \<Rightarrow> ptr option" where
  "List_seek self index =
     (if index < ls_size self div 2 then walk_next (ls_nodes self) (ls_head self) (nat index)
      else walk_prev (ls_nodes self) (ls_tail self) (nat (ls_size self - 1 - index)))"

definition List_get :: "List \<Rightarrow> int \<Rightarrow> ptr option" where
  "List_get self index =
     (if index < 0 \<or> index \<ge> ls_size self then Some None
      else do { curr \<leftarrow> List_seek self index;
                node \<leftarrow> deref (ls_nodes self) curr;
                Some (ln_data node) })"

definition List_insertAt :: "addr alloc \<Rightarrow> 'p heap \<Rightarrow> List \<Rightarrow> int \<Rightarrow> ptr \<Rightarrow> ('p heap \<times> List) option" where
  "List_insertAt mem h self index data =
     (if index \<le> 0 then pushFront_nolock mem h self data
      else if index \<ge> ls_size self then pushBack_nolock mem h self data
      else case mem of Alloc_Fail \<Rightarrow> Some (h, self)
        | Alloc_Ok a \<Rightarrow>
            (let h1 = RETAIN h data
             in do {
               curr \<leftarrow> List_seek self index;
               c \<leftarrow> deref (ls_nodes self) curr;
               let N = (ls_nodes self)(a \<mapsto> \<lparr>ln_data = data, ln_prev = ln_prev c, ln_next = curr\<rparr>);
               N1 \<leftarrow> set_next N (ln_prev c) (Some a);
               N2 \<leftarrow> set_prev N1 curr (Some a);
               Some (h1, self\<lparr>ls_nodes := N2, ls_size := wrap32 (ls_size self + 1)\<rparr>) }))"

definition List_removeAt :: "List \<Rightarrow> int \<Rightarrow> (ptr \<times> List) option" where
  "List_removeAt self index =
     (if index < 0 \<or> index \<ge> ls_size self then Some (None, self)
      else if index = 0 then popFront_nolock self
      else if index = ls_size self - 1 then popBack_nolock self
      else do {
        curr \<leftarrow> List_seek self index;
        c \<leftarrow> deref (ls_nodes self) curr;
        N1 \<leftarrow> set_next (ls_nodes self) (ln_prev c) (ln_next c);
        N2 \<leftarrow> set_prev N1 (ln_next c) (ln_prev c);
        N3 \<leftarrow> free_node N2 curr;
        Some (ln_data c, self\<lparr>ls_nodes := N3, ls_size := wrap32 (ls_size self - 1)\<rparr>) })"

text \<open>The loop of \<^verbatim>\<open>impl_clear\<close>; on a cyclic chain it would not end.\<close>

partial_function (option) clear_loop :: "'p classes \<Rightarrow> 'p heap \<Rightarrow> nodes \<Rightarrow> ptr \<Rightarrow> ('p heap \<times> nodes) option" where
  "clear_loop cl h N cur =
     (if cur = None then Some (h, N)
      else Option.bind (deref N cur) (\<lambda>c.
           Option.bind (free_node N cur) (\<lambda>N1.
           clear_loop cl (RELEASE cl h (ln_data c)) N1 (ln_next c))))"

definition List_clear :: "'p classes \<Rightarrow> 'p heap \<Rightarrow> List \<Rightarrow> ('p heap \<times> List) option" where
  "List_clear cl h self = do {
     (h1, N1) \<leftarrow> clear_loop cl h (ls_nodes self) (ls_head self);
     Some (h1, self\<lparr>ls_nodes := N1, ls_head := None, ls_tail := None, ls_size := 0\<rparr>) }"

definition List_Finalize :: "'p classes \<Rightarrow> 'p heap \<Rightarrow> List \<Rightarrow> 'p heap option" where
  "List_Finalize cl h self = map_option fst (List_clear cl h self)"

definition List_getSize :: "List \<Rightarrow> int" where
  "List_getSize self = ls_size self"

section \<open>The representation invariant\<close>

text \<open>\<open>dseg N pr p xs tp nx\<close>: from \<open>p\<close>, whose predecessor is \<open>pr\<close>, the nodes \<open>xs\<close> follow each other up to
  \<open>nx\<close>; the last of them (or \<open>pr\<close>) is \<open>tp\<close>.\<close>

fun dseg :: "nodes \<Rightarrow> ptr \<Rightarrow> ptr \<Rightarrow> (addr \<times> ptr) list \<Rightarrow> ptr \<Rightarrow> ptr \<Rightarrow> bool" where
  "dseg N pr p [] tp nx = (p = nx \<and> tp = pr)"
| "dseg N pr p ((a, d) # xs) tp nx =
     (p = Some a \<and> (\<exists>q. N a = Some \<lparr>ln_data = d, ln_prev = pr, ln_next = q\<rparr> \<and> dseg N (Some a) q xs tp nx))"

lemma dseg_append:
  "dseg N pr p (xs @ ys) tp nx \<longleftrightarrow> (\<exists>m q. dseg N pr p xs m q \<and> dseg N m q ys tp nx)"
  by (induction xs arbitrary: pr p) fastforce+

lemma dseg_upd [simp]: "a \<notin> fst ` set xs \<Longrightarrow> dseg (N(a := v)) pr p xs tp nx = dseg N pr p xs tp nx"
  by (induction xs arbitrary: pr p) auto

definition dll :: "List \<Rightarrow> (addr \<times> ptr) list \<Rightarrow> bool" where
  "dll self xs \<longleftrightarrow> distinct (map fst xs) \<and> dseg (ls_nodes self) None (ls_head self) xs (ls_tail self) None
     \<and> dom (ls_nodes self) = fst ` set xs \<and> ls_size self = int (length xs) \<and> int (length xs) \<le> INT_MAX"

lemma dseg_last: "dseg N pr p (xs @ [(b, d)]) tp nx \<longleftrightarrow>
    (\<exists>m. dseg N pr p xs m (Some b) \<and> tp = Some b \<and> N b = Some \<lparr>ln_data = d, ln_prev = m, ln_next = nx\<rparr>)"
  by (auto simp: dseg_append)

lemma dseg_tail_None: "dseg N pr p xs tp nx \<Longrightarrow> tp = None \<longleftrightarrow> xs = [] \<and> pr = None"
  by (induction xs arbitrary: pr p) fastforce+

lemma dseg_head_None: "dseg N pr p xs tp None \<Longrightarrow> p = None \<longleftrightarrow> xs = []"
  by (cases xs) auto

lemma walk_next_seg: "dseg N pr p (us @ (c, d) # ys) tp nx \<Longrightarrow> walk_next N p (length us) = Some (Some c)"
  by (induction us arbitrary: pr p) (auto simp: deref_def)

lemma walk_prev_seg: "dseg N pr p (us @ (c, d) # ys) tp nx \<Longrightarrow> walk_prev N tp (length ys) = Some (Some c)"
proof (induction ys arbitrary: tp nx rule: rev_induct)
  case Nil
  then show ?case by (auto simp: dseg_append)
next
  case (snoc e ys)
  obtain b de where e: "e = (b, de)" by force
  from snoc.prems obtain m where "dseg N pr p (us @ (c, d) # ys) m (Some b)" "tp = Some b"
    "N b = Some \<lparr>ln_data = de, ln_prev = m, ln_next = nx\<rparr>"
    using dseg_last [of N pr p "us @ (c, d) # ys" b de tp nx] by (auto simp: e)
  with snoc.IH [of m "Some b"] show ?case by (simp add: deref_def)
qed

lemma List_seek_seg:
  assumes "dll self (us @ (c, d) # ys)"
  shows "List_seek self (int (length us)) = Some (Some c)"
proof -
  have s: "dseg (ls_nodes self) None (ls_head self) (us @ (c, d) # ys) (ls_tail self) None"
    "ls_size self = int (length us) + int (length ys) + 1" using assms by (auto simp: dll_def)
  then have "nat (ls_size self - 1 - int (length us)) = length ys" by simp
  with walk_next_seg [OF s(1)] walk_prev_seg [OF s(1)] show ?thesis by (simp add: List_seek_def)
qed

lemmas node_ops = deref_def set_next_def set_prev_def free_node_def

lemma dll_size: "dll self xs \<Longrightarrow> ls_size self = int (length xs)"
  by (simp add: dll_def)

lemma dll_distinct: "dll self (us @ (c, d) # ys) \<Longrightarrow> c \<notin> fst ` set us \<and> c \<notin> fst ` set ys"
  by (auto simp: dll_def)

lemma dll_fresh: "dll self xs \<Longrightarrow> ls_nodes self a = None \<Longrightarrow> a \<notin> fst ` set xs"
  by (simp add: dll_def) (metis domIff)

lemma dom_single: "dom f = {b} \<Longrightarrow> f(b := None) = Map.empty"
proof
  fix x assume "dom f = {b}"
  then show "(f(b := None)) x = None" using domIff [of x f] by auto
qed

lemma pushBack_dll:
  assumes "dll self xs" and "ls_nodes self a = None" and "int (length xs) < INT_MAX"
  shows "\<exists>self'. pushBack_nolock (Alloc_Ok a) h self d = Some (RETAIN h d, self') \<and> dll self' (xs @ [(a, d)])"
proof (cases xs rule: rev_cases)
  case Nil
  with assms show ?thesis by (auto simp: pushBack_nolock_def dll_def)
next
  case (snoc us e)
  obtain b db where e: "e = (b, db)" by force
  have a: "a \<notin> fst ` set us" "a \<noteq> b" using dll_fresh [OF assms(1,2)] by (auto simp: snoc e)
  from assms(1) obtain m where "dseg (ls_nodes self) None (ls_head self) us m (Some b)" "ls_tail self = Some b"
    "ls_nodes self b = Some \<lparr>ln_data = db, ln_prev = m, ln_next = None\<rparr>" "b \<notin> fst ` set us"
    by (auto simp: dll_def snoc e dseg_append)
  with assms a show ?thesis
    by (auto simp: pushBack_nolock_def dll_def snoc e dseg_append node_ops)
qed

lemma pushFront_dll:
  assumes "dll self xs" and "ls_nodes self a = None" and "int (length xs) < INT_MAX"
  shows "\<exists>self'. pushFront_nolock (Alloc_Ok a) h self d = Some (RETAIN h d, self') \<and> dll self' ((a, d) # xs)"
proof (cases xs)
  case Nil
  with assms show ?thesis by (auto simp: pushFront_nolock_def dll_def)
next
  case (Cons e us)
  obtain b db where e: "e = (b, db)" by force
  have a: "a \<notin> fst ` set us" "a \<noteq> b" using dll_fresh [OF assms(1,2)] by (auto simp: Cons e)
  with assms show ?thesis by (auto simp: pushFront_nolock_def dll_def Cons e node_ops)
qed

lemma popBack_dll:
  assumes "dll self xs"
  shows "\<exists>self'. popBack_nolock self = Some (if xs = [] then None else snd (last xs), self') \<and> dll self' (butlast xs)"
proof (cases xs rule: rev_cases)
  case Nil
  with assms show ?thesis by (auto simp: popBack_nolock_def dll_def)
next
  case (snoc us e)
  obtain b db where e: "e = (b, db)" by force
  show ?thesis
  proof (cases us rule: rev_cases)
    case Nil
    with assms snoc e show ?thesis by (auto simp: popBack_nolock_def dll_def node_ops intro: dom_single)
  next
    case (snoc vs f)
    obtain c dc where f: "f = (c, dc)" by force
    have eq: "xs = vs @ [(c, dc), (b, db)]" using snoc f \<open>xs = us @ [e]\<close> e by simp
    have "b \<noteq> c" "b \<notin> fst ` set vs" "c \<notin> fst ` set vs" using assms by (auto simp: dll_def eq)
    moreover from assms obtain m where "dseg (ls_nodes self) None (ls_head self) vs m (Some c)"
      "ls_nodes self c = Some \<lparr>ln_data = dc, ln_prev = m, ln_next = Some b\<rparr>"
      "ls_nodes self b = Some \<lparr>ln_data = db, ln_prev = Some c, ln_next = None\<rparr>" "ls_tail self = Some b"
      by (auto simp: dll_def eq dseg_append)
    ultimately show ?thesis using assms unfolding eq
      by (simp add: popBack_nolock_def dll_def dseg_append node_ops butlast_append insert_Diff_if)
  qed
qed

lemma popFront_dll:
  assumes "dll self xs"
  shows "\<exists>self'. popFront_nolock self = Some (if xs = [] then None else snd (hd xs), self') \<and> dll self' (List.tl xs)"
proof (cases xs)
  case Nil
  with assms show ?thesis by (auto simp: popFront_nolock_def dll_def)
next
  case (Cons e us)
  obtain b db where e: "e = (b, db)" by force
  show ?thesis
  proof (cases us)
    case Nil
    with assms Cons e show ?thesis by (auto simp: popFront_nolock_def dll_def node_ops intro: dom_single)
  next
    case (Cons f vs)
    obtain c dc where f: "f = (c, dc)" by force
    have eq: "xs = (b, db) # (c, dc) # vs" using Cons f \<open>xs = e # us\<close> e by simp
    have "b \<noteq> c" "b \<notin> fst ` set vs" "c \<notin> fst ` set vs" using assms by (auto simp: dll_def eq)
    moreover from assms obtain q where "dseg (ls_nodes self) (Some c) q vs (ls_tail self) None"
      "ls_nodes self b = Some \<lparr>ln_data = db, ln_prev = None, ln_next = Some c\<rparr>"
      "ls_nodes self c = Some \<lparr>ln_data = dc, ln_prev = Some b, ln_next = q\<rparr>" "ls_head self = Some b"
      by (auto simp: dll_def eq)
    ultimately show ?thesis using assms unfolding eq
      by (simp add: popFront_nolock_def dll_def node_ops insert_Diff_if)
  qed
qed

text \<open>In the middle of the list both neighbours are there.\<close>

lemma dll_middle:
  assumes "dll self (us @ [(b, db), (c, dc), (e, de)] @ ys)"
  shows "ls_nodes self b \<noteq> None" "ls_nodes self c = Some \<lparr>ln_data = dc, ln_prev = Some b, ln_next = Some e\<rparr>"
  using assms by (auto simp: dll_def dseg_append)

lemma insertAt_middle:
  assumes "dll self (us @ [(b, db), (c, dc)] @ ys)" and "ls_nodes self a = None"
    and "int (length us + length ys) + 2 < INT_MAX" and "index = int (length us) + 1"
  shows "\<exists>self'. List_insertAt (Alloc_Ok a) h self index d = Some (RETAIN h d, self')
    \<and> dll self' (us @ [(b, db), (a, d), (c, dc)] @ ys)"
proof -
  have fr: "a \<notin> fst ` set us" "a \<notin> fst ` set ys" "a \<noteq> b" "a \<noteq> c"
    using dll_fresh [OF assms(1,2)] by auto
  have ds: "b \<noteq> c" "b \<notin> fst ` set us" "b \<notin> fst ` set ys" "c \<notin> fst ` set us" "c \<notin> fst ` set ys"
    using assms(1) by (auto simp: dll_def)
  have "List_seek self index = Some (Some c)"
    using List_seek_seg [of self "us @ [(b, db)]" c dc ys] assms(1,4) by (simp add: add.commute)
  moreover from assms(1) obtain m q where "dseg (ls_nodes self) None (ls_head self) us m (Some b)"
    "ls_nodes self b = Some \<lparr>ln_data = db, ln_prev = m, ln_next = Some c\<rparr>"
    "ls_nodes self c = Some \<lparr>ln_data = dc, ln_prev = Some b, ln_next = q\<rparr>"
    "dseg (ls_nodes self) (Some c) q ys (ls_tail self) None"
    by (auto simp: dll_def dseg_append)
  moreover have "dom (ls_nodes self) = insert b (insert c (fst ` set us \<union> fst ` set ys))" "distinct (map fst (us @ ys))"
    using assms(1) by (auto simp: dll_def)
  ultimately show ?thesis using assms(3,4) fr ds dll_size [OF assms(1)]
    by (simp add: List_insertAt_def dll_def dseg_append node_ops) (blast)
qed

lemma removeAt_middle:
  assumes "dll self (us @ [(b, db), (c, dc), (e, de)] @ ys)" and "index = int (length us) + 1"
    and "int (length us + length ys) + 3 \<le> INT_MAX"
  shows "\<exists>self'. List_removeAt self index = Some (dc, self') \<and> dll self' (us @ [(b, db), (e, de)] @ ys)"
proof -
  have ds: "distinct [b, c, e]" "{b, c, e} \<inter> fst ` set us = {}" "{b, c, e} \<inter> fst ` set ys = {}"
    using assms(1) by (auto simp: dll_def)
  have "List_seek self index = Some (Some c)"
    using List_seek_seg [of self "us @ [(b, db)]" c dc "(e, de) # ys"] assms(1,2) by (simp add: add.commute)
  moreover from assms(1) obtain m q where "dseg (ls_nodes self) None (ls_head self) us m (Some b)"
    "ls_nodes self b = Some \<lparr>ln_data = db, ln_prev = m, ln_next = Some c\<rparr>"
    "ls_nodes self c = Some \<lparr>ln_data = dc, ln_prev = Some b, ln_next = Some e\<rparr>"
    "ls_nodes self e = Some \<lparr>ln_data = de, ln_prev = Some c, ln_next = q\<rparr>"
    "dseg (ls_nodes self) (Some e) q ys (ls_tail self) None"
    by (auto simp: dll_def dseg_append)
  moreover have "dom (ls_nodes self) = insert b (insert c (insert e (fst ` set us \<union> fst ` set ys)))"
    "distinct (map fst (us @ ys))" using assms(1) by (auto simp: dll_def)
  ultimately show ?thesis using assms(2,3) ds dll_size [OF assms(1)]
    by (simp add: List_removeAt_def dll_def dseg_append node_ops insert_Diff_if Un_Diff) (blast)
qed

lemma List_get_dll:
  assumes "dll self xs"
  shows "List_get self index = Some (if 0 \<le> index \<and> index < int (length xs) then snd (xs ! nat index) else None)"
proof (cases "0 \<le> index \<and> index < int (length xs)")
  case False
  with dll_size [OF assms] show ?thesis by (auto simp: List_get_def)
next
  case True
  let ?i = "nat index"
  obtain c dc where c: "xs ! ?i = (c, dc)" by force
  have xs: "xs = take ?i xs @ (c, dc) # drop (Suc ?i) xs" using True id_take_nth_drop [of ?i xs] c by (metis nat_less_iff)
  have "length (take ?i xs) = ?i" using True by (simp add: min_def) linarith
  with List_seek_seg [of self "take ?i xs" c dc "drop (Suc ?i) xs"] xs assms True
  have "List_seek self index = Some (Some c)" by simp
  moreover have "\<exists>m q. ls_nodes self c = Some \<lparr>ln_data = dc, ln_prev = m, ln_next = q\<rparr>"
    using assms by (subst (asm) xs) (auto simp: dll_def dseg_append)
  ultimately show ?thesis using True dll_size [OF assms] c by (auto simp: List_get_def deref_def)
qed

lemma clear_loop_seg:
  assumes "dseg N pr p xs tp None" and "distinct (map fst xs)"
  shows "clear_loop cl h N p = Some (release_all cl h (map snd xs), N |` (- fst ` set xs))"
  using assms
proof (induction xs arbitrary: pr p h N)
  case Nil
  then show ?case by (simp add: clear_loop.simps)
next
  case (Cons e xs)
  obtain a d where e: "e = (a, d)" by force
  from Cons.prems obtain q where p: "p = Some a" "N a = Some \<lparr>ln_data = d, ln_prev = pr, ln_next = q\<rparr>"
    "dseg N (Some a) q xs tp None" "a \<notin> fst ` set xs" "distinct (map fst xs)" by (auto simp: e)
  then have "dseg (N(a := None)) (Some a) q xs tp None" by simp
  note IH = Cons.IH [OF this p(5), of "RELEASE cl h d"]
  have step: "clear_loop cl h N p = clear_loop cl (RELEASE cl h d) (N(a := None)) q"
    by (subst clear_loop.simps) (simp add: node_ops p(1,2))
  have "N(a := None) |` (- fst ` set xs) = N |` (- fst ` set (e # xs))"
    by (auto simp: e restrict_map_def fun_eq_iff)
  then show ?case unfolding step IH by (simp add: e)
qed

lemma List_clear_dll:
  assumes "dll self xs"
  shows "\<exists>self'. List_clear cl h self = Some (release_all cl h (map snd xs), self') \<and> dll self' []"
proof -
  have "ls_nodes self |` (- fst ` set xs) = Map.empty"
    using assms by (auto simp: dll_def restrict_map_def fun_eq_iff dom_def)
  with clear_loop_seg [of "ls_nodes self" None "ls_head self" xs "ls_tail self" cl h] assms show ?thesis
    by (simp add: List_clear_def dll_def)
qed

lemma dll_split:
  assumes "i < length xs"
  obtains c dc where "xs = take i xs @ (c, dc) # drop (Suc i) xs" "xs ! i = (c, dc)"
  using assms id_take_nth_drop [of i xs] by (metis surj_pair)

lemma List_insertAt_dll:
  assumes "dll self xs" and "ls_nodes self a = None" and "int (length xs) < INT_MAX"
  shows "\<exists>self'. List_insertAt (Alloc_Ok a) h self index d = Some (RETAIN h d, self')
    \<and> dll self' (take (nat index) xs @ (a, d) # drop (nat index) xs)"
proof -
  consider "index \<le> 0" | "0 < index" "index \<ge> int (length xs)" | "0 < index" "index < int (length xs)" by linarith
  then show ?thesis
  proof cases
    case 1
    then show ?thesis using pushFront_dll [OF assms, of h d] by (simp add: List_insertAt_def)
  next
    case 2
    then show ?thesis using pushBack_dll [OF assms, of h d] dll_size [OF assms(1)] by (simp add: List_insertAt_def)
  next
    case 3
    define i where "i = nat index - 1"
    have i: "Suc i < length xs" "nat index = Suc i" "index = int i + 1" using 3 by (auto simp: i_def)
    obtain c dc where c: "xs = take (Suc i) xs @ (c, dc) # drop (Suc (Suc i)) xs" using dll_split i(1) by metis
    obtain b db where b: "xs ! i = (b, db)" by force
    have t: "take (Suc i) xs = take i xs @ [(b, db)]" using i b by (simp add: take_Suc_conv_app_nth)
    let ?us = "take i xs" and ?ys = "drop (Suc (Suc i)) xs"
    have xs: "xs = ?us @ [(b, db), (c, dc)] @ ?ys" using c t by simp
    have "drop (Suc i) xs = (c, dc) # ?ys" using i c by (metis append_eq_conv_conj length_take min.absorb4)
    moreover have "length ?us = i" "length ?us + length ?ys + 2 = length xs" using i by auto
    ultimately show ?thesis
      using insertAt_middle [of self ?us b db c dc ?ys a index h d] assms xs t i by simp
  qed
qed

lemma List_removeAt_dll:
  assumes "dll self xs"
  shows "\<exists>self'. List_removeAt self index =
      Some (if 0 \<le> index \<and> index < int (length xs) then snd (xs ! nat index) else None, self')
    \<and> dll self' (if 0 \<le> index \<and> index < int (length xs) then del_at (nat index) xs else xs)"
proof -
  note sz = dll_size [OF assms]
  consider "index < 0 \<or> index \<ge> int (length xs)" | "index = 0" "xs \<noteq> []"
    | "0 < index" "index = int (length xs) - 1" | "0 < index" "index < int (length xs) - 1" by force
  then show ?thesis
  proof cases
    case 1
    then show ?thesis using assms sz by (auto simp: List_removeAt_def)
  next
    case 2
    then show ?thesis using popFront_dll [OF assms] sz
      by (auto simp: List_removeAt_def del_at_def drop_Suc hd_conv_nth)
  next
    case 3
    then have "nat index = length xs - 1" "xs \<noteq> []" by auto
    then show ?thesis using 3 popBack_dll [OF assms] sz
      by (simp add: List_removeAt_def del_at_last [simplified] last_conv_nth)
  next
    case 4
    define i where "i = nat index - 1"
    have i: "Suc (Suc i) < length xs" "nat index = Suc i" "index = int i + 1" using 4 by (auto simp: i_def)
    let ?us = "take i xs" and ?ys = "drop (Suc (Suc (Suc i))) xs"
    obtain b db where b: "xs ! i = (b, db)" by force
    obtain c dc where c: "xs ! Suc i = (c, dc)" by force
    obtain e de where e: "xs ! Suc (Suc i) = (e, de)" by force
    have d: "drop (Suc (Suc i)) xs = (e, de) # ?ys" using i e by (simp add: Cons_nth_drop_Suc [symmetric])
    have d1: "drop (Suc i) xs = (c, dc) # (e, de) # ?ys" using i c d by (simp add: Cons_nth_drop_Suc [symmetric])
    have "drop i xs = (b, db) # drop (Suc i) xs" using i b by (simp add: Cons_nth_drop_Suc [symmetric])
    then have xs: "xs = ?us @ [(b, db), (c, dc), (e, de)] @ ?ys" using d1 by (metis append_Cons append_Nil append_take_drop_id)
    have del: "del_at (nat index) xs = ?us @ [(b, db), (e, de)] @ ?ys"
      using i b d by (simp add: del_at_def take_Suc_conv_app_nth)
    have len: "length ?us = i" "int (length ?us + length ?ys) + 3 \<le> INT_MAX"
      using i assms by (auto simp: dll_def)
    show ?thesis
      using removeAt_middle [of self ?us b db c dc e de ?ys index] assms xs len i c del 4 by simp
  qed
qed

section \<open>Runs of list operations\<close>

datatype ls_cmd = Ls_pushBack ptr | Ls_pushFront ptr | Ls_popBack | Ls_popFront | Ls_insertAt int ptr
  | Ls_removeAt int | Ls_get int | Ls_clear

text \<open>\<open>fresh\<close> is the allocator: the address it gives for the next node.\<close>

fun ls_exec :: "'p classes \<Rightarrow> (nodes \<Rightarrow> addr) \<Rightarrow> 'p heap \<times> List \<Rightarrow> ls_cmd \<Rightarrow> (ptr \<times> 'p heap \<times> List) option" where
  "ls_exec cl fresh (h, l) (Ls_pushBack d) = map_option (Pair None) (List_pushBack (Alloc_Ok (fresh (ls_nodes l))) h l d)"
| "ls_exec cl fresh (h, l) (Ls_pushFront d) = map_option (Pair None) (List_pushFront (Alloc_Ok (fresh (ls_nodes l))) h l d)"
| "ls_exec cl fresh (h, l) Ls_popBack = map_option (\<lambda>(x, l'). (x, h, l')) (List_popBack l)"
| "ls_exec cl fresh (h, l) Ls_popFront = map_option (\<lambda>(x, l'). (x, h, l')) (List_popFront l)"
| "ls_exec cl fresh (h, l) (Ls_insertAt i d) = map_option (Pair None) (List_insertAt (Alloc_Ok (fresh (ls_nodes l))) h l i d)"
| "ls_exec cl fresh (h, l) (Ls_removeAt i) = map_option (\<lambda>(x, l'). (x, h, l')) (List_removeAt l i)"
| "ls_exec cl fresh (h, l) (Ls_get i) = map_option (\<lambda>x. (x, h, l)) (List_get l i)"
| "ls_exec cl fresh (h, l) Ls_clear = map_option (Pair None) (List_clear cl h l)"

fun ls_spec :: "'p classes \<Rightarrow> 'p heap \<times> ptr list \<Rightarrow> ls_cmd \<Rightarrow> ptr \<times> 'p heap \<times> ptr list" where
  "ls_spec cl (h, ds) (Ls_pushBack d) = (None, RETAIN h d, ds @ [d])"
| "ls_spec cl (h, ds) (Ls_pushFront d) = (None, RETAIN h d, d # ds)"
| "ls_spec cl (h, ds) Ls_popBack = (if ds = [] then None else last ds, h, butlast ds)"
| "ls_spec cl (h, ds) Ls_popFront = (if ds = [] then None else hd ds, h, List.tl ds)"
| "ls_spec cl (h, ds) (Ls_insertAt i d) = (None, RETAIN h d, take (nat i) ds @ d # drop (nat i) ds)"
| "ls_spec cl (h, ds) (Ls_removeAt i) =
     (if 0 \<le> i \<and> i < int (length ds) then (ds ! nat i, h, del_at (nat i) ds) else (None, h, ds))"
| "ls_spec cl (h, ds) (Ls_get i) = (if 0 \<le> i \<and> i < int (length ds) then ds ! nat i else None, h, ds)"
| "ls_spec cl (h, ds) Ls_clear = (None, release_all cl h ds, [])"

lemma dll_finite: "dll l xs \<Longrightarrow> finite (dom (ls_nodes l))"
  by (simp add: dll_def)

lemma ls_exec_refines:
  assumes "dll l xs" and "int (length xs) < INT_MAX" and "\<And>N. finite (dom N) \<Longrightarrow> N (fresh N) = None"
  shows "\<exists>out h' l' xs'. ls_exec cl fresh (h, l) c = Some (out, h', l') \<and> dll l' xs'
    \<and> ls_spec cl (h, map snd xs) c = (out, h', map snd xs') \<and> length xs' \<le> Suc (length xs)"
proof -
  have f: "ls_nodes l (fresh (ls_nodes l)) = None" by (rule assms(3) [OF dll_finite [OF assms(1)]])
  have I: ?thesis if "ls_exec cl fresh (h, l) c = Some (out, h', l')" "dll l' xs'"
    "ls_spec cl (h, map snd xs) c = (out, h', map snd xs')" "length xs' \<le> Suc (length xs)" for out h' l' xs'
    using that by blast
  let ?a = "fresh (ls_nodes l)"
  show ?thesis
  proof (cases c)
    case (Ls_pushBack d)
    obtain l' where "pushBack_nolock (Alloc_Ok ?a) h l d = Some (RETAIN h d, l')" "dll l' (xs @ [(?a, d)])"
      using pushBack_dll [OF assms(1) f assms(2), of h d] by blast
    with Ls_pushBack show ?thesis by (intro I [of None "RETAIN h d" l' "xs @ [(?a, d)]"]) simp_all
  next
    case (Ls_pushFront d)
    obtain l' where "pushFront_nolock (Alloc_Ok ?a) h l d = Some (RETAIN h d, l')" "dll l' ((?a, d) # xs)"
      using pushFront_dll [OF assms(1) f assms(2), of h d] by blast
    with Ls_pushFront show ?thesis by (intro I [of None "RETAIN h d" l' "(?a, d) # xs"]) simp_all
  next
    case Ls_popBack
    obtain l' where "popBack_nolock l = Some (if xs = [] then None else snd (last xs), l')" "dll l' (butlast xs)"
      using popBack_dll [OF assms(1)] by blast
    with Ls_popBack show ?thesis
      by (intro I [of "if xs = [] then None else snd (last xs)" h l' "butlast xs"]) (simp_all add: last_map map_butlast)
  next
    case Ls_popFront
    obtain l' where "popFront_nolock l = Some (if xs = [] then None else snd (hd xs), l')" "dll l' (List.tl xs)"
      using popFront_dll [OF assms(1)] by blast
    with Ls_popFront show ?thesis
      by (intro I [of "if xs = [] then None else snd (hd xs)" h l' "List.tl xs"]) (simp_all add: hd_map map_tl)
  next
    case (Ls_insertAt i d)
    let ?ys = "take (nat i) xs @ (?a, d) # drop (nat i) xs"
    obtain l' where "List_insertAt (Alloc_Ok ?a) h l i d = Some (RETAIN h d, l')" "dll l' ?ys"
      using List_insertAt_dll [OF assms(1) f assms(2), of h i d] by blast
    with Ls_insertAt show ?thesis by (intro I [of None "RETAIN h d" l' ?ys]) (simp_all add: take_map drop_map)
  next
    case (Ls_removeAt i)
    let ?in = "0 \<le> i \<and> i < int (length xs)"
    let ?ys = "if ?in then del_at (nat i) xs else xs" and ?x = "if ?in then snd (xs ! nat i) else None"
    obtain l' where "List_removeAt l i = Some (?x, l')" "dll l' ?ys"
      using List_removeAt_dll [OF assms(1), of i] by blast
    with Ls_removeAt show ?thesis
      by (intro I [of ?x h l' ?ys]) (simp_all add: del_at_def take_map drop_map nat_less_iff, linarith)
  next
    case (Ls_get i)
    with List_get_dll [OF assms(1), of i] assms(1) show ?thesis
      by (intro I [of "if 0 \<le> i \<and> i < int (length xs) then snd (xs ! nat i) else None" h l xs])
        (simp_all add: nat_less_iff)
  next
    case Ls_clear
    obtain l' where "List_clear cl h l = Some (release_all cl h (map snd xs), l')" "dll l' []"
      using List_clear_dll [OF assms(1)] by blast
    with Ls_clear show ?thesis by (intro I [of None "release_all cl h (map snd xs)" l' "[]"]) simp_all
  qed
qed

fun ls_run :: "'p classes \<Rightarrow> (nodes \<Rightarrow> addr) \<Rightarrow> 'p heap \<times> List \<Rightarrow> ls_cmd list \<Rightarrow> (ptr list \<times> 'p heap \<times> List) option" where
  "ls_run cl fresh s [] = Some ([], s)"
| "ls_run cl fresh s (c # cs) =
     (case ls_exec cl fresh s c of None \<Rightarrow> None
      | Some (x, s1) \<Rightarrow> map_option (\<lambda>(xs, s2). (x # xs, s2)) (ls_run cl fresh s1 cs))"

fun ls_spec_run :: "'p classes \<Rightarrow> 'p heap \<times> ptr list \<Rightarrow> ls_cmd list \<Rightarrow> ptr list \<times> 'p heap \<times> ptr list" where
  "ls_spec_run cl s [] = ([], s)"
| "ls_spec_run cl s (c # cs) =
     (let (x, s1) = ls_spec cl s c; (xs, s2) = ls_spec_run cl s1 cs in (x # xs, s2))"

section \<open>LinkedList\<close>

text \<open>The chain from the head, as the data of its nodes. A failed node allocation is not checked by
  \<^verbatim>\<open>impl_add_node\<close>, which then writes through NULL: the fault flag records it.\<close>

record LinkedList =
  ll_chain :: "ptr list"
  ll_size :: int

definition new_LinkedList :: "unit alloc \<Rightarrow> LinkedList option" where
  "new_LinkedList mem = (case mem of Alloc_Fail \<Rightarrow> None | Alloc_Ok _ \<Rightarrow> Some \<lparr>ll_chain = [], ll_size = 0\<rparr>)"

definition LinkedList_add_node :: "unit alloc \<Rightarrow> 'p heap \<Rightarrow> LinkedList \<Rightarrow> ptr \<Rightarrow> 'p heap \<times> LinkedList" where
  "LinkedList_add_node mem h self data =
     (case mem of Alloc_Fail \<Rightarrow> (raw_fault h, self)
      | Alloc_Ok _ \<Rightarrow> (RETAIN h data,
          self\<lparr>ll_chain := ll_chain self @ [data], ll_size := wrap32 (ll_size self + 1)\<rparr>))"

text \<open>The search of \<^verbatim>\<open>impl_delete_node\<close>: the chain without the first match, and the data that was in it.\<close>

fun ll_unlink :: "(ptr \<Rightarrow> int) \<Rightarrow> ptr list \<Rightarrow> (ptr \<times> ptr list) option" where
  "ll_unlink compare [] = None"
| "ll_unlink compare (d # ds) =
     (if compare d = 0 then Some (d, ds)
      else map_option (\<lambda>(x, ds'). (x, d # ds')) (ll_unlink compare ds))"

definition LinkedList_delete_node ::
  "'p classes \<Rightarrow> 'p heap \<Rightarrow> LinkedList \<Rightarrow> ptr \<Rightarrow> (ptr \<Rightarrow> ptr \<Rightarrow> int) \<Rightarrow> 'p heap \<times> LinkedList" where
  "LinkedList_delete_node cl h self data compare =
     (case ll_unlink (\<lambda>d. compare d data) (ll_chain self) of
        None \<Rightarrow> (h, self)
      | Some (x, ds) \<Rightarrow> (fst (RELEASE_NULL cl h x), self\<lparr>ll_chain := ds, ll_size := wrap32 (ll_size self - 1)\<rparr>))"

text \<open>The data \<^verbatim>\<open>impl_print_list\<close> displays.\<close>

definition LinkedList_print_list :: "LinkedList \<Rightarrow> ptr list" where
  "LinkedList_print_list self = ll_chain self"

definition LinkedList_get_size :: "LinkedList \<Rightarrow> int" where
  "LinkedList_get_size self = ll_size self"

fun ll_finalize_loop :: "'p classes \<Rightarrow> 'p heap \<Rightarrow> ptr list \<Rightarrow> 'p heap" where
  "ll_finalize_loop cl h [] = h"
| "ll_finalize_loop cl h (d # ds) =
     ll_finalize_loop cl (if d \<noteq> None then fst (RELEASE_NULL cl h d) else h) ds"

definition LinkedList_Finalize :: "'p classes \<Rightarrow> 'p heap \<Rightarrow> LinkedList \<Rightarrow> 'p heap" where
  "LinkedList_Finalize cl h self = ll_finalize_loop cl h (ll_chain self)"

lemma ll_finalize_loop_eq: "ll_finalize_loop cl h ds = release_all cl h ds"
  by (induction ds arbitrary: h) (auto simp: RELEASE_NULL_def)

lemma ll_unlink_spec:
  "ll_unlink f ds = (case filter (\<lambda>d. f d = 0) ds of [] \<Rightarrow> None
     | x # _ \<Rightarrow> Some (x, takeWhile (\<lambda>d. f d \<noteq> 0) ds @ List.tl (dropWhile (\<lambda>d. f d \<noteq> 0) ds)))"
  by (induction ds) (auto split: list.splits)

lemma ll_unlink_mset: "ll_unlink f ds = Some (x, ds') \<Longrightarrow> mset ds = mset (x # ds') \<and> x \<in> set ds"
  by (induction ds arbitrary: ds') (auto split: if_splits)

section \<open>Properties\<close>

text \<open>(C4) The doubly linked list refines the mathematical list: every sequence of pushes and pops at
  both ends, \<^verbatim>\<open>insertAt\<close>, \<^verbatim>\<open>removeAt\<close>, \<^verbatim>\<open>get\<close> (each walking from the nearer end) and \<^verbatim>\<open>clear\<close> runs to its end
  without following a NULL or freed node pointer, returns what the same commands on a plain list
  return, changes the reference counts the same way, and leaves a well-formed chain in which both
  directions agree and no node is leaked. \<open>fresh\<close> is the allocator, which gives unused addresses.\<close>

theorem List_refines_list:
  assumes "dll l xs" and "int (length xs + length cs) \<le> INT_MAX"
    and "\<And>N. finite (dom N) \<Longrightarrow> N (fresh N) = None"
  shows "\<exists>outs h' l' xs'. ls_run cl fresh (h, l) cs = Some (outs, h', l') \<and> dll l' xs'
    \<and> ls_spec_run cl (h, map snd xs) cs = (outs, h', map snd xs')"
  using assms(1,2)
proof (induction cs arbitrary: h l xs)
  case Nil
  then show ?case by auto
next
  case (Cons c cs)
  obtain o1 h1 l1 xs1 where e: "ls_exec cl fresh (h, l) c = Some (o1, h1, l1)" "dll l1 xs1"
    "ls_spec cl (h, map snd xs) c = (o1, h1, map snd xs1)" "length xs1 \<le> Suc (length xs)"
    using ls_exec_refines [where l = l and xs = xs and fresh = fresh and cl = cl and h = h and c = c] Cons.prems assms(3) by auto
  with Cons.IH [of l1 xs1 h1] Cons.prems(2) show ?case by fastforce
qed

text \<open>An allocator for the witness: one above every address in use.\<close>

definition demo_fresh :: "nodes \<Rightarrow> addr" where
  "demo_fresh N = Suc (Max (insert 0 (dom N)))"

lemma demo_fresh: "finite (dom N) \<Longrightarrow> N (demo_fresh N) = None"
proof -
  assume f: "finite (dom N)"
  have "demo_fresh N \<notin> dom N"
  proof
    assume "demo_fresh N \<in> dom N"
    then have "demo_fresh N \<le> Max (insert 0 (dom N))" using f by (intro Max_ge) simp_all
    then show False by (simp add: demo_fresh_def)
  qed
  then show ?thesis by (simp add: domIff)
qed

theorem List_refines_list_witness:
  "\<exists>h' l'. ls_run leaf_classes demo_fresh (demo_heap, the (new_List (Alloc_Ok ())))
     [Ls_pushBack (Some 1), Ls_pushFront (Some 2), Ls_insertAt 1 None, Ls_removeAt 2, Ls_popFront] =
       Some ([None, None, None, Some 1, Some 2], h', l')"
proof -
  let ?cs = "[Ls_pushBack (Some 1), Ls_pushFront (Some 2), Ls_insertAt 1 None, Ls_removeAt 2, Ls_popFront]"
  have "dll (the (new_List (Alloc_Ok ()))) []" by (simp add: new_List_def dll_def)
  then have "\<exists>outs h' l' xs'. ls_run leaf_classes demo_fresh (demo_heap, the (new_List (Alloc_Ok ()))) ?cs = Some (outs, h', l')
      \<and> dll l' xs' \<and> ls_spec_run leaf_classes (demo_heap, map snd ([] :: (addr \<times> ptr) list)) ?cs = (outs, h', map snd xs')"
    by (rule List_refines_list) (simp_all add: demo_fresh)
  then obtain outs h' l' and xs' :: "(addr \<times> ptr) list" where
    r: "ls_run leaf_classes demo_fresh (demo_heap, the (new_List (Alloc_Ok ()))) ?cs = Some (outs, h', l')"
      "ls_spec_run leaf_classes (demo_heap, map snd ([] :: (addr \<times> ptr) list)) ?cs = (outs, h', map snd xs')"
    by blast
  from r(2) have "outs = [None, None, None, Some 1, Some 2]" by (simp add: del_at_def numeral_2_eq_2)
  with r(1) show ?thesis by auto
qed

text \<open>The singly linked list keeps exact reference counts: deleting takes out the first node the
  callback calls equal, with its one reference, and nothing else; finalizing gives back one reference
  per node. Nothing is used after it was freed.\<close>

theorem LinkedList_releases:
  assumes "owned h (ll_chain l)"
  shows "(case LinkedList_delete_node leaf_classes h l d compare of (h', l') \<Rightarrow>
       arc_balance h (ll_chain l) h' (ll_chain l')
       \<and> ll_chain l' = takeWhile (\<lambda>x. compare x d \<noteq> 0) (ll_chain l)
            @ List.tl (dropWhile (\<lambda>x. compare x d \<noteq> 0) (ll_chain l)))
    \<and> arc_balance h (ll_chain l) (LinkedList_Finalize leaf_classes h l) []"
proof -
  let ?f = "\<lambda>x. compare x d"
  have fin: "arc_balance h (ll_chain l) (LinkedList_Finalize leaf_classes h l) []"
    unfolding LinkedList_Finalize_def ll_finalize_loop_eq by (rule leaf.arc_balance_release_all [OF assms])
  show ?thesis
  proof (cases "ll_unlink ?f (ll_chain l)")
    case None
    then have "filter (\<lambda>x. ?f x = 0) (ll_chain l) = []" by (simp add: ll_unlink_spec split: list.splits)
    then have n: "\<forall>x \<in> set (ll_chain l). ?f x \<noteq> 0" by (simp add: filter_empty_conv)
    have "takeWhile P xs @ List.tl (dropWhile P xs) = xs" if "\<forall>x \<in> set xs. P x" for P and xs :: "ptr list"
      using that by (induction xs) auto
    from this [OF n] None fin show ?thesis by (simp add: LinkedList_delete_node_def)
  next
    case (Some r)
    obtain x ds where r: "r = (x, ds)" by force
    have m: "mset (ll_chain l) = mset (x # ds)" "x \<in> set (ll_chain l)" using ll_unlink_mset Some r by blast+
    have "arc_balance h (x # ds) (RELEASE leaf_classes h x) ds"
      by (rule leaf.arc_balance_RELEASE) (use assms m(2) owned_pos in metis)
    then have "arc_balance h (ll_chain l) (RELEASE leaf_classes h x) ds"
      by (rule arc_balance_mset) (simp_all add: m(1))
    moreover have "ds = takeWhile (\<lambda>x. ?f x \<noteq> 0) (ll_chain l) @ List.tl (dropWhile (\<lambda>x. ?f x \<noteq> 0) (ll_chain l))"
      using Some r by (simp add: ll_unlink_spec split: list.splits)
    ultimately show ?thesis using Some r fin by (simp add: LinkedList_delete_node_def RELEASE_NULL_def)
  qed
qed

theorem LinkedList_releases_witness:
  "ll_chain (snd (LinkedList_delete_node leaf_classes demo_heap \<lparr>ll_chain = [Some 1, Some 2], ll_size = 2\<rparr> (Some 2)
     (\<lambda>a b. if a = b then 0 else 1))) = [Some 1]"
proof -
  let ?l = "\<lparr>ll_chain = [Some 1, Some 2], ll_size = 2\<rparr>"
  have "owned demo_heap (ll_chain ?l)" by (auto simp: owned_def)
  from LinkedList_releases [OF this, where d = "Some 2" and compare = "\<lambda>a b. if a = b then 0 else 1"] show ?thesis
    by (simp add: split_beta)
qed

end
