(* ===== verification/Pixel_Board.thy ===== *)
theory Pixel_Board
  imports Core_Prelude
begin

text \<open>
  \<^verbatim>\<open>src/src/pixel_board.c\<close>: the shared canvas of the pixel game. A board is a row-major byte array of
  \<open>width * height\<close> cells, three counters that the painting code keeps up to date in constant time
  and a version number. Fields keep the widths of the C struct. The board is written by one thread
  only (the game room's), so the operations are plain functions on the record.
  \<open>pb_inv\<close> is the score invariant the header file states (red + blue + empty = width * height, made
  precise: each counter is the number of such cells); \<open>pb_spec\<close> is the abstract canvas, a function
  from coordinates to teams with a version, that every run of the board refines.
\<close>

section \<open>State and operations\<close>

type_synonym u16 = "16 word"

abbreviation TEAM_EMPTY :: int where "TEAM_EMPTY \<equiv> 0"
abbreviation TEAM_RED :: int where "TEAM_RED \<equiv> 1"
abbreviation TEAM_BLUE :: int where "TEAM_BLUE \<equiv> 2"

datatype PixelPaintResult = PIXEL_PAINT_ERROR | PIXEL_PAINT_UNCHANGED | PIXEL_PAINT_CHANGED

record PixelBoard =
  pb_width :: u16
  pb_height :: u16
  pb_pixels :: "byte list"
  red_score :: u32
  blue_score :: u32
  empty_count :: u32
  pb_sequence :: u64

text \<open>The two allocations are the object and the canvas; \<^verbatim>\<open>calloc\<close> of the canvas makes every cell \<^verbatim>\<open>TEAM_EMPTY\<close>.\<close>

definition new_PixelBoard :: "unit alloc \<Rightarrow> unit alloc \<Rightarrow> u16 \<Rightarrow> u16 \<Rightarrow> PixelBoard option" where
  "new_PixelBoard mem_obj mem_pixels width height =
     (if width = 0 \<or> height = 0 then None
      else case mem_obj of Alloc_Fail \<Rightarrow> None
        | Alloc_Ok _ \<Rightarrow>
            (let n = (ucast width :: u32) * ucast height
             in case mem_pixels of Alloc_Fail \<Rightarrow> None
                | Alloc_Ok _ \<Rightarrow>
                    Some \<lparr>pb_width = width, pb_height = height, pb_pixels = replicate (unat n) 0,
                          red_score = 0, blue_score = 0, empty_count = n, pb_sequence = 0\<rparr>))"

definition PixelBoard_clear :: "PixelBoard \<Rightarrow> PixelBoard" where
  "PixelBoard_clear self =
     (let total = (ucast (pb_width self) :: u64) * ucast (pb_height self)
      in self\<lparr>pb_pixels := replicate (unat total) 0 @ drop (unat total) (pb_pixels self),
              red_score := 0, blue_score := 0, empty_count := ucast total,
              pb_sequence := pb_sequence self + 1\<rparr>)"

text \<open>The index of a cell, computed in \<^verbatim>\<open>size_t\<close>.\<close>

definition pb_index :: "PixelBoard \<Rightarrow> u16 \<Rightarrow> u16 \<Rightarrow> nat" where
  "pb_index self x y = unat ((ucast y :: u64) * ucast (pb_width self) + ucast x)"

text \<open>The three branches that move one cell from \<open>prev\<close> to \<open>team\<close> in the counters.\<close>

definition pb_rescore :: "PixelBoard \<Rightarrow> byte \<Rightarrow> int \<Rightarrow> PixelBoard" where
  "pb_rescore self prev team =
     (if uint prev = TEAM_EMPTY then
        (let s = self\<lparr>empty_count := empty_count self - 1\<rparr>
         in if team = TEAM_RED then s\<lparr>red_score := red_score s + 1\<rparr> else s\<lparr>blue_score := blue_score s + 1\<rparr>)
      else if uint prev = TEAM_RED then
        self\<lparr>red_score := red_score self - 1, blue_score := blue_score self + 1\<rparr>
      else if uint prev = TEAM_BLUE then
        self\<lparr>blue_score := blue_score self - 1, red_score := red_score self + 1\<rparr>
      else self)"

definition PixelBoard_paint :: "PixelBoard \<Rightarrow> u16 \<Rightarrow> u16 \<Rightarrow> int \<Rightarrow> PixelPaintResult \<times> PixelBoard" where
  "PixelBoard_paint self x y team =
     (if x \<ge> pb_width self \<or> y \<ge> pb_height self then (PIXEL_PAINT_ERROR, self)
      else if team \<noteq> TEAM_RED \<and> team \<noteq> TEAM_BLUE then (PIXEL_PAINT_ERROR, self)
      else let idx = pb_index self x y; prev = pb_pixels self ! idx
           in if prev = of_int team then (PIXEL_PAINT_UNCHANGED, self)
              else let s = pb_rescore self prev team
                   in (PIXEL_PAINT_CHANGED,
                       s\<lparr>pb_pixels := (pb_pixels s)[idx := of_int team],
                         pb_sequence := pb_sequence s + 1\<rparr>))"

definition PixelBoard_get :: "PixelBoard \<Rightarrow> u16 \<Rightarrow> u16 \<Rightarrow> int" where
  "PixelBoard_get self x y =
     (if x \<ge> pb_width self \<or> y \<ge> pb_height self then TEAM_EMPTY
      else uint (pb_pixels self ! pb_index self x y))"

text \<open>What \<^verbatim>\<open>PixelBoard_snapshot\<close> leaves in the caller's buffer and version variable.\<close>

definition PixelBoard_snapshot :: "PixelBoard \<Rightarrow> byte list \<Rightarrow> byte list \<times> u64" where
  "PixelBoard_snapshot self out =
     (let total = unat ((ucast (pb_width self) :: u64) * ucast (pb_height self))
      in (take total (pb_pixels self) @ drop total out, pb_sequence self))"

section \<open>The score invariant\<close>

definition pb_cells :: "PixelBoard \<Rightarrow> nat" where
  "pb_cells self = unat (pb_width self) * unat (pb_height self)"

definition pb_inv :: "PixelBoard \<Rightarrow> bool" where
  "pb_inv self \<longleftrightarrow> length (pb_pixels self) = pb_cells self
     \<and> (\<forall>p \<in> set (pb_pixels self). p = 0 \<or> p = 1 \<or> p = 2)
     \<and> unat (red_score self) = count_list (pb_pixels self) 1
     \<and> unat (blue_score self) = count_list (pb_pixels self) 2
     \<and> unat (empty_count self) = count_list (pb_pixels self) 0"

lemma u16_less: "unat (w :: u16) < 65536"
proof -
  have "unat w < 2 ^ LENGTH(16)" by (rule unsigned_less)
  then show ?thesis by simp
qed

lemma take_bit_u16 [simp]: "16 \<le> n \<Longrightarrow> take_bit n (unat (w :: u16)) = unat w"
proof (rule take_bit_nat_eq_self)
  assume "16 \<le> n"
  then have "(2 :: nat) ^ 16 \<le> 2 ^ n" by (intro power_increasing) simp_all
  with u16_less [of w] show "unat w < 2 ^ n" by simp
qed

lemma cells_bound: "unat (w :: u16) * unat (h :: u16) \<le> 65535 * 65535"
  using u16_less [of w] u16_less [of h] by (intro mult_le_mono) simp_all

lemma unat_cells32: "unat ((ucast (w :: u16) :: u32) * ucast (h :: u16)) = unat w * unat h"
  using cells_bound [of w h] by (simp add: unat_word_ariths unsigned_ucast_eq)

lemma unat_cells64: "unat ((ucast (w :: u16) :: u64) * ucast (h :: u16)) = unat w * unat h"
  using cells_bound [of w h] by (simp add: unat_word_ariths unsigned_ucast_eq)

lemma pb_cells_bound: "pb_cells self \<le> 65535 * 65535"
  unfolding pb_cells_def by (rule cells_bound)

lemma pb_index_eq: "pb_index self x y = unat y * unat (pb_width self) + unat x"
  using cells_bound [of y "pb_width self"] u16_less [of x]
  by (simp add: pb_index_def unat_word_ariths unsigned_ucast_eq)

text \<open>Distinct cells have distinct indices, all of them inside the canvas.\<close>

lemma row_major_less: "x < w \<Longrightarrow> y < h \<Longrightarrow> y * w + x < w * (h :: nat)"
proof -
  assume "x < w" "y < h"
  then have "y * w + x < Suc y * w" by simp
  also have "\<dots> \<le> h * w" using \<open>y < h\<close> by (intro mult_le_mono1) simp
  finally show ?thesis by (simp add: mult.commute)
qed

lemma row_major_inj:
  assumes "x < w" and "x' < w"
  shows "y * w + x = y' * w + x' \<longleftrightarrow> x = x' \<and> y = (y' :: nat)"
proof -
  have d: "(b * w + a) div w = b" if "a < w" for a b using that by simp
  show ?thesis using d [OF assms(1), of y] d [OF assms(2), of y'] by (metis add_left_cancel)
qed

lemma pb_index_bound:
  "x < pb_width self \<Longrightarrow> y < pb_height self \<Longrightarrow> pb_index self x y < pb_cells self"
  by (simp add: pb_index_eq pb_cells_def word_less_nat_alt row_major_less)

text \<open>Overwriting a cell moves one occurrence from the old value to the new one.\<close>

lemma count_list_update:
  "i < length xs \<Longrightarrow> count_list (xs[i := v]) c = count_list xs c - (if xs ! i = c then 1 else 0) + (if v = c then 1 else 0)"
proof (induction xs arbitrary: i)
  case (Cons x xs)
  show ?case
  proof (cases i)
    case (Suc j)
    then have "xs ! j = c \<Longrightarrow> count_list xs c \<noteq> 0" using Cons.prems by (auto simp: count_list_0_iff)
    with Cons Suc show ?thesis by auto
  qed simp
qed simp

lemma count_list_replicate [simp]: "count_list (replicate n x) c = (if x = c then n else 0)"
  by (induction n) auto

lemma count_list_nth_pos: "i < length xs \<Longrightarrow> 0 < count_list xs (xs ! i)"
  by (meson count_list_0_iff neq0_conv nth_mem)

lemma unat_count_Suc: "unat (w :: u32) = n \<Longrightarrow> n < 4294967295 \<Longrightarrow> unat (w + 1) = Suc n"
  by (simp add: unat_word_ariths)

lemma unat_count_pred: "unat (w :: u32) = n \<Longrightarrow> 0 < n \<Longrightarrow> unat (w - 1) = n - 1"
  by (metis unat_eq_zero unat_minus_one neq0_conv)

lemma pb_rescore_counts:
  assumes "pb_inv self" and "i < length (pb_pixels self)" and "team = 1 \<or> team = 2"
    and "pb_pixels self ! i \<noteq> of_int team"
  defines "s \<equiv> pb_rescore self (pb_pixels self ! i) team" and "q \<equiv> (pb_pixels self)[i := of_int team]"
  shows "unat (red_score s) = count_list q 1" "unat (blue_score s) = count_list q 2"
    "unat (empty_count s) = count_list q 0"
proof -
  let ?p = "pb_pixels self"
  have "length ?p < 4294967295" using assms(1) pb_cells_bound [of self] by (simp add: pb_inv_def)
  then have c: "count_list ?p v < 4294967295" for v using count_le_length [of ?p v] by linarith
  have sc: "unat (red_score self) = count_list ?p 1" "unat (blue_score self) = count_list ?p 2"
    "unat (empty_count self) = count_list ?p 0" using assms(1) by (simp_all add: pb_inv_def)
  note up = unat_count_Suc [OF sc(1) c] unat_count_Suc [OF sc(2) c]
  note down = unat_count_pred [OF sc(1)] unat_count_pred [OF sc(2)] unat_count_pred [OF sc(3)]
  note q = count_list_update [OF assms(2), of "of_int team", folded q_def]
  have pos: "0 < count_list ?p (?p ! i)" by (rule count_list_nth_pos [OF assms(2)])
  have "?p ! i \<in> set ?p" using assms(2) by simp
  then consider "?p ! i = 0" | "?p ! i = 1" "team = 2" | "?p ! i = 2" "team = 1"
    using assms(1,3,4) by (auto simp: pb_inv_def)
  then have "unat (red_score s) = count_list q 1 \<and> unat (blue_score s) = count_list q 2
      \<and> unat (empty_count s) = count_list q 0"
  proof cases
    case 1
    with pos assms(3) show ?thesis by (auto simp: s_def q pb_rescore_def up down sc)
  next
    case 2
    with pos show ?thesis by (simp add: s_def q pb_rescore_def up down sc)
  next
    case 3
    with pos show ?thesis by (simp add: s_def q pb_rescore_def up down sc)
  qed
  then show "unat (red_score s) = count_list q 1" "unat (blue_score s) = count_list q 2"
    "unat (empty_count s) = count_list q 0" by simp_all
qed

lemma pb_rescore_other [simp]:
  "pb_pixels (pb_rescore b p t) = pb_pixels b" "pb_sequence (pb_rescore b p t) = pb_sequence b"
  "pb_width (pb_rescore b p t) = pb_width b" "pb_height (pb_rescore b p t) = pb_height b"
  by (simp_all add: pb_rescore_def Let_def)

lemma PixelBoard_paint_inv:
  assumes "pb_inv self"
  shows "pb_inv (snd (PixelBoard_paint self x y team))"
proof (cases "x < pb_width self \<and> y < pb_height self \<and> (team = 1 \<or> team = 2)
    \<and> pb_pixels self ! pb_index self x y \<noteq> of_int team")
  case False
  with assms show ?thesis by (auto simp: PixelBoard_paint_def Let_def not_le)
next
  case True
  let ?i = "pb_index self x y" and ?p = "pb_pixels self"
  from assms have i: "?i < length ?p" using True pb_index_bound by (auto simp: pb_inv_def)
  have t: "team = 1 \<or> team = 2" and ne: "?p ! ?i \<noteq> of_int team" using True by auto
  have sub: "set (?p[?i := of_int team]) \<subseteq> insert (of_int team) (set ?p)" by (rule set_update_subset_insert)
  have cells: "\<forall>p \<in> set (?p[?i := of_int team]). p = 0 \<or> p = 1 \<or> p = 2"
    using sub t assms by (auto simp: pb_inv_def)
  have len: "length ?p = unat (pb_width self) * unat (pb_height self)"
    using assms by (simp add: pb_inv_def pb_cells_def)
  show ?thesis using True ne t cells len pb_rescore_counts [OF assms i t ne]
    by (auto simp: PixelBoard_paint_def Let_def pb_inv_def pb_cells_def)
qed

lemma PixelBoard_clear_inv: "pb_inv self \<Longrightarrow> pb_inv (PixelBoard_clear self)"
proof -
  assume inv: "pb_inv self"
  have n: "unat (pb_width self) * unat (pb_height self) = length (pb_pixels self)"
    using inv by (simp add: pb_inv_def pb_cells_def)
  have "unat (ucast ((ucast (pb_width self) :: u64) * ucast (pb_height self)) :: u32) = length (pb_pixels self)"
    using cells_bound [of "pb_width self" "pb_height self"]
    by (simp add: unsigned_ucast_eq unat_cells64 n [symmetric] take_bit_nat_eq_self)
  then show ?thesis using n
    by (auto simp: PixelBoard_clear_def pb_inv_def pb_cells_def Let_def unat_cells64)
qed

lemma new_PixelBoard_inv: "new_PixelBoard m1 m2 w h = Some b \<Longrightarrow> pb_inv b"
  by (auto simp: new_PixelBoard_def pb_inv_def pb_cells_def Let_def unat_cells32
      split: if_splits alloc.splits)

section \<open>The abstract canvas\<close>

datatype pb_cmd = Pb_paint u16 u16 int | Pb_clear

fun pb_exec :: "PixelBoard \<Rightarrow> pb_cmd \<Rightarrow> PixelPaintResult \<times> PixelBoard" where
  "pb_exec b (Pb_paint x y team) = PixelBoard_paint b x y team"
| "pb_exec b Pb_clear = (PIXEL_PAINT_CHANGED, PixelBoard_clear b)"

type_synonym canvas = "nat \<Rightarrow> nat \<Rightarrow> int"

definition pb_canvas :: "PixelBoard \<Rightarrow> canvas" where
  "pb_canvas b = (\<lambda>x y. if x < unat (pb_width b) \<and> y < unat (pb_height b)
     then uint (pb_pixels b ! (y * unat (pb_width b) + x)) else 0)"

fun pb_spec :: "nat \<Rightarrow> nat \<Rightarrow> canvas \<times> nat \<Rightarrow> pb_cmd \<Rightarrow> PixelPaintResult \<times> canvas \<times> nat" where
  "pb_spec w h (c, v) (Pb_paint x y team) =
     (if unat x < w \<and> unat y < h \<and> team \<in> {TEAM_RED, TEAM_BLUE}
      then if c (unat x) (unat y) = team then (PIXEL_PAINT_UNCHANGED, c, v)
           else (PIXEL_PAINT_CHANGED, c(unat x := (c (unat x))(unat y := team)), Suc v)
      else (PIXEL_PAINT_ERROR, c, v))"
| "pb_spec w h (c, v) Pb_clear = (PIXEL_PAINT_CHANGED, (\<lambda>_ _. TEAM_EMPTY), Suc v)"

fun pb_run :: "('s \<Rightarrow> pb_cmd \<Rightarrow> PixelPaintResult \<times> 's) \<Rightarrow> 's \<Rightarrow> pb_cmd list \<Rightarrow> PixelPaintResult list \<times> 's" where
  "pb_run f s [] = ([], s)"
| "pb_run f s (c # cs) = (let (r, s1) = f s c; (rs, s2) = pb_run f s1 cs in (r # rs, s2))"

lemma pb_exec_size: "pb_width (snd (pb_exec b c)) = pb_width b \<and> pb_height (snd (pb_exec b c)) = pb_height b"
  by (cases c) (auto simp: PixelBoard_paint_def PixelBoard_clear_def pb_rescore_def Let_def)

lemma pb_exec_inv: "pb_inv b \<Longrightarrow> pb_inv (snd (pb_exec b c))"
  by (cases c) (simp_all add: PixelBoard_paint_inv PixelBoard_clear_inv)

lemma uint_team: "team = 1 \<or> team = 2 \<Longrightarrow> uint (of_int team :: byte) = team"
  by auto

lemma team_eq_iff: "team = 1 \<or> team = 2 \<Longrightarrow> (p :: byte) = of_int team \<longleftrightarrow> uint p = team"
  by (auto simp: word_uint_eq_iff)

lemma unat_version: "unat (q :: u64) < 18446744073709551615 \<Longrightarrow> unat (q + 1) = Suc (unat q)"
  by (simp add: unat_word_ariths)

lemma pb_paint_refines:
  assumes "pb_inv b" and "unat (pb_sequence b) < 18446744073709551615"
    and "PixelBoard_paint b x y team = (r, b')"
  shows "pb_spec (unat (pb_width b)) (unat (pb_height b)) (pb_canvas b, unat (pb_sequence b)) (Pb_paint x y team)
      = (r, pb_canvas b', unat (pb_sequence b'))"
proof (cases "x < pb_width b \<and> y < pb_height b \<and> (team = 1 \<or> team = 2)")
  case False
  with assms(3) show ?thesis by (auto simp: PixelBoard_paint_def not_less word_less_nat_alt word_le_nat_alt split: if_splits)
next
  case True
  let ?w = "unat (pb_width b)" and ?h = "unat (pb_height b)"
  let ?i = "unat y * ?w + unat x"
  have xy: "unat x < ?w" "unat y < ?h" and t: "team = 1 \<or> team = 2"
    using True by (auto simp: word_less_nat_alt)
  have len: "length (pb_pixels b) = ?w * ?h" using assms(1) by (simp add: pb_inv_def pb_cells_def)
  have i: "?i < length (pb_pixels b)" unfolding len using xy by (rule row_major_less)
  have cell: "pb_canvas b (unat x) (unat y) = uint (pb_pixels b ! ?i)" using xy by (simp add: pb_canvas_def)
  let ?b2 = "b\<lparr>pb_pixels := (pb_pixels b)[?i := of_int team], pb_sequence := pb_sequence b + 1\<rparr>"
  have upd: "pb_canvas (s\<lparr>pb_pixels := (pb_pixels b)[?i := of_int team], pb_sequence := q\<rparr>)
      = (pb_canvas b)(unat x := (pb_canvas b (unat x))(unat y := team))"
    if "pb_width s = pb_width b" "pb_height s = pb_height b" for s q
  proof (intro ext)
    fix x' y'
    show "pb_canvas (s\<lparr>pb_pixels := (pb_pixels b)[?i := of_int team], pb_sequence := q\<rparr>) x' y'
        = ((pb_canvas b)(unat x := (pb_canvas b (unat x))(unat y := team))) x' y'"
      using that xy i t row_major_inj [of "unat x" ?w x' "unat y" y']
      by (auto simp: pb_canvas_def nth_list_update uint_team)
  qed
  have ne: "\<not> x \<ge> pb_width b" "\<not> y \<ge> pb_height b" using True by auto
  show ?thesis
  proof (cases "uint (pb_pixels b ! ?i) = team")
    case eq: True
    then have "r = PIXEL_PAINT_UNCHANGED \<and> b' = b"
      using assms(3) ne t team_eq_iff [OF t, of "pb_pixels b ! ?i"]
      by (auto simp: PixelBoard_paint_def Let_def pb_index_eq)
    with xy t eq cell show ?thesis by auto
  next
    case False
    then have "r = PIXEL_PAINT_CHANGED \<and> b' = (pb_rescore b (pb_pixels b ! ?i) team)
        \<lparr>pb_pixels := (pb_pixels b)[?i := of_int team], pb_sequence := pb_sequence b + 1\<rparr>"
      using assms(3) ne t team_eq_iff [OF t, of "pb_pixels b ! ?i"]
      by (auto simp: PixelBoard_paint_def Let_def pb_index_eq)
    with xy t False cell show ?thesis by (auto simp: upd unat_version assms(2))
  qed
qed

lemma pb_exec_refines:
  assumes "pb_inv b" and "unat (pb_sequence b) < 18446744073709551615" and "pb_exec b c = (r, b')"
  shows "pb_spec (unat (pb_width b)) (unat (pb_height b)) (pb_canvas b, unat (pb_sequence b)) c
      = (r, pb_canvas b', unat (pb_sequence b'))"
proof (cases c)
  case (Pb_paint x y team)
  with pb_paint_refines [OF assms(1,2)] assms(3) show ?thesis by simp
next
  case Pb_clear
  let ?w = "unat (pb_width b)" and ?h = "unat (pb_height b)"
  have "pb_canvas (PixelBoard_clear b) = (\<lambda>_ _. 0)"
    by (intro ext) (simp add: pb_canvas_def PixelBoard_clear_def Let_def unat_cells64 nth_append row_major_less)
  with Pb_clear assms(2,3) show ?thesis by (auto simp: unat_version PixelBoard_clear_def Let_def)
qed

lemma pb_exec_version:
  assumes "unat (pb_sequence b) < 18446744073709551615"
  shows "unat (pb_sequence (snd (pb_exec b c))) \<le> Suc (unat (pb_sequence b))"
  using assms by (cases c) (auto simp: PixelBoard_paint_def PixelBoard_clear_def Let_def unat_version)

lemma pb_run_refines:
  assumes "pb_inv b" and "unat (pb_sequence b) + length cs \<le> 18446744073709551615"
    and "pb_run pb_exec b cs = (rs, b')"
  shows "pb_run (pb_spec (unat (pb_width b)) (unat (pb_height b))) (pb_canvas b, unat (pb_sequence b)) cs
      = (rs, pb_canvas b', unat (pb_sequence b')) \<and> pb_inv b'"
  using assms
proof (induction cs arbitrary: b rs)
  case (Cons c cs)
  obtain r b1 where e: "pb_exec b c = (r, b1)" by force
  obtain rs1 where e1: "pb_run pb_exec b1 cs = (rs1, b')" "rs = r # rs1"
    using Cons.prems(3) e by (auto split: prod.splits)
  have lt: "unat (pb_sequence b) < 18446744073709551615" using Cons.prems(2) by simp
  have "pb_inv b1" "pb_width b1 = pb_width b" "pb_height b1 = pb_height b"
    "unat (pb_sequence b1) + length cs \<le> 18446744073709551615"
    using pb_exec_inv [OF Cons.prems(1), of c] pb_exec_size [of b c] pb_exec_version [OF lt, of c]
      Cons.prems(2) e by auto
  with Cons.IH [of b1 rs1] e1 pb_exec_refines [OF Cons.prems(1) lt e] show ?case by simp
qed simp

section \<open>Properties\<close>

text \<open>The board refines an abstract canvas: from a new board, whatever sequence of paint and clear
  requests arrives (out-of-range coordinates and unknown teams included), every answer, every cell
  and the version number are those of a canvas function with a change counter; and the three scores
  are at all times exactly the numbers of red, blue and empty cells, so that they never wrap and
  always add up to width times height.\<close>

theorem PixelBoard_refines_canvas:
  assumes "new_PixelBoard m1 m2 w h = Some b" and "length cs < 2 ^ 64"
  shows "case pb_run pb_exec b cs of (rs, b') \<Rightarrow>
    pb_run (pb_spec (unat w) (unat h)) ((\<lambda>_ _. TEAM_EMPTY), 0) cs = (rs, pb_canvas b', unat (pb_sequence b'))
    \<and> unat (red_score b') = count_list (pb_pixels b') 1 \<and> unat (blue_score b') = count_list (pb_pixels b') 2
    \<and> unat (red_score b') + unat (blue_score b') + unat (empty_count b') = unat w * unat h"
proof -
  obtain rs b' where e: "pb_run pb_exec b cs = (rs, b')" by force
  have b: "pb_width b = w" "pb_height b = h" "pb_sequence b = 0" "pb_canvas b = (\<lambda>_ _. 0)"
    using assms(1) by (auto simp: new_PixelBoard_def pb_canvas_def Let_def unat_cells32 row_major_less fun_eq_iff
        split: if_splits alloc.splits)
  have r: "pb_run (pb_spec (unat w) (unat h)) ((\<lambda>_ _. 0), 0) cs = (rs, pb_canvas b', unat (pb_sequence b'))"
    "pb_inv b'"
    using pb_run_refines [OF new_PixelBoard_inv [OF assms(1)] _ e] assms(2) b by auto
  have "pb_width b' = w \<and> pb_height b' = h"
    using e b(1,2)
  proof (induction cs arbitrary: b rs)
    case (Cons c cs)
    then show ?case using pb_exec_size [of b c] by (auto split: prod.splits)
  qed simp
  then have "length (pb_pixels b') = unat w * unat h" using r(2) by (simp add: pb_inv_def pb_cells_def)
  moreover have "count_list xs 1 + count_list xs 2 + count_list xs 0 = length xs"
    if "\<forall>p \<in> set xs. p = 0 \<or> p = 1 \<or> p = 2" for xs :: "byte list"
    using that by (induction xs) auto
  ultimately show ?thesis using r e by (auto simp: pb_inv_def)
qed

theorem PixelBoard_refines_canvas_witness:
  "fst (pb_run pb_exec (the (new_PixelBoard (Alloc_Ok ()) (Alloc_Ok ()) 2 2))
     [Pb_paint 1 0 1, Pb_paint 1 0 1, Pb_paint 2 0 1, Pb_paint 1 0 2])
   = [PIXEL_PAINT_CHANGED, PIXEL_PAINT_UNCHANGED, PIXEL_PAINT_ERROR, PIXEL_PAINT_CHANGED]"
proof -
  let ?b = "the (new_PixelBoard (Alloc_Ok ()) (Alloc_Ok ()) 2 2)"
  let ?cs = "[Pb_paint 1 0 1, Pb_paint 1 0 1, Pb_paint 2 0 1, Pb_paint 1 0 2]"
  obtain rs b' where e: "pb_run pb_exec ?b ?cs = (rs, b')" by force
  have "new_PixelBoard (Alloc_Ok ()) (Alloc_Ok ()) 2 2 = Some ?b" by (simp add: new_PixelBoard_def Let_def)
  from PixelBoard_refines_canvas [OF this, of ?cs] e
  have "fst (pb_run (pb_spec (unat (2 :: u16)) (unat (2 :: u16))) ((\<lambda>_ _. 0), 0) ?cs) = rs" by simp
  then show ?thesis unfolding e by simp
qed

text \<open>Reading back: after a successful paint the painted cell shows the team, every other cell is as
  before, and a snapshot taken at that moment holds the whole canvas with the new version.\<close>

theorem PixelBoard_paint_get:
  assumes "pb_inv b" and "PixelBoard_paint b x y team = (PIXEL_PAINT_CHANGED, b')"
  shows "PixelBoard_get b' x y = team
    \<and> (x' \<noteq> x \<or> y' \<noteq> y \<longrightarrow> PixelBoard_get b' x' y' = PixelBoard_get b x' y')
    \<and> PixelBoard_snapshot b' (replicate (pb_cells b') 0) = (pb_pixels b', pb_sequence b + 1)"
proof -
  have ok: "x < pb_width b" "y < pb_height b" "team = 1 \<or> team = 2"
    using assms(2) by (auto simp: PixelBoard_paint_def not_le split: if_splits)
  let ?i = "pb_index b x y"
  have i: "?i < length (pb_pixels b)" using pb_index_bound [OF ok(1,2)] assms(1) by (simp add: pb_inv_def)
  have b': "pb_width b' = pb_width b" "pb_height b' = pb_height b" "pb_sequence b' = pb_sequence b + 1"
    "pb_pixels b' = (pb_pixels b)[?i := of_int team]"
    using assms(2) by (auto simp: PixelBoard_paint_def Let_def split: if_splits)
  have "PixelBoard_get b' x' y' = PixelBoard_get b x' y'" if "x' \<noteq> x \<or> y' \<noteq> y"
    using that ok row_major_inj [of "unat x'" "unat (pb_width b)" "unat x" "unat y'" "unat y"]
    by (auto simp: PixelBoard_get_def b' pb_index_eq nth_list_update word_le_nat_alt word_less_nat_alt word_unat_eq_iff)
  moreover have "PixelBoard_get b' x y = team"
    using ok i by (auto simp: PixelBoard_get_def b' pb_index_eq)
  moreover have "PixelBoard_snapshot b' (replicate (pb_cells b') 0) = (pb_pixels b', pb_sequence b + 1)"
    using assms(1) by (simp add: PixelBoard_snapshot_def Let_def unat_cells64 b' pb_inv_def pb_cells_def)
  ultimately show ?thesis by blast
qed

theorem PixelBoard_paint_get_witness:
  "PixelBoard_get (snd (PixelBoard_paint (the (new_PixelBoard (Alloc_Ok ()) (Alloc_Ok ()) 2 2)) 1 0 2)) 1 0 = 2"
proof -
  let ?b = "the (new_PixelBoard (Alloc_Ok ()) (Alloc_Ok ()) 2 2)"
  have n: "new_PixelBoard (Alloc_Ok ()) (Alloc_Ok ()) 2 2 = Some ?b" by (simp add: new_PixelBoard_def Let_def)
  obtain b' where p: "PixelBoard_paint ?b 1 0 2 = (PIXEL_PAINT_CHANGED, b')"
    by (simp add: new_PixelBoard_def PixelBoard_paint_def Let_def pb_index_def word_le_nat_alt)
  from PixelBoard_paint_get [OF new_PixelBoard_inv [OF n] p, of 0 1] p show ?thesis by simp
qed

end
