(* ===== verification/Queue_Stack.thy ===== *)
theory Queue_Stack
  imports Array_List
begin

text \<open>
  \<^verbatim>\<open>src/src/queue.c\<close> and \<^verbatim>\<open>src/src/stack.c\<close>: a FIFO queue and a LIFO stack, each a wrapper
  around an \<^verbatim>\<open>ArrayList\<close> it owns. Both add at the end of the container; the queue detaches
  position 0, the stack the last position. A queue always has a container (its constructor
  gives up without one); a stack's constructor does not look at the container it got, so the
  stack's container may be NULL and an operation on it is a NULL dereference, modelled by the
  outcome \<open>None\<close>. The proofs use the \<open>array_list\<close> contract only.
\<close>

section \<open>Queue\<close>

record Queue =
  q_base :: addr
  q_container :: ArrayList

definition new_Queue ::
  "addr alloc \<Rightarrow> addr alloc \<Rightarrow> unit alloc \<Rightarrow> 'p \<Rightarrow> 'p heap \<Rightarrow> int \<Rightarrow> 'p heap \<times> Queue option" where
  "new_Queue mem mem_obj mem_items p h initial_capacity =
     (case mem of Alloc_Fail \<Rightarrow> (h, None)
      | Alloc_Ok a \<Rightarrow>
          (let h1 = Object_Init (calloc_object h a p) (Some a) ''Queue''
           in case new_ArrayList mem_obj mem_items p h1 initial_capacity of
                (h2, None) \<Rightarrow> (free_object h2 a, None)
              | (h2, Some c) \<Rightarrow> (h2, Some \<lparr>q_base = a, q_container = c\<rparr>)))"

definition Queue_enqueue :: "ptr alloc \<Rightarrow> 'p heap \<Rightarrow> Queue \<Rightarrow> ptr \<Rightarrow> 'p heap \<times> Queue" where
  "Queue_enqueue mem h self data =
     (case ArrayList_add mem h (q_container self) data of
        (h', c) \<Rightarrow> (h', self\<lparr>q_container := c\<rparr>))"

definition Queue_dequeue :: "Queue \<Rightarrow> ptr \<times> Queue" where
  "Queue_dequeue self =
     (if ArrayList_getSize (q_container self) = 0 then (None, self)
      else case ArrayList_detach (q_container self) 0 of
             (item, c) \<Rightarrow> (item, self\<lparr>q_container := c\<rparr>))"

definition Queue_peek :: "Queue \<Rightarrow> ptr" where
  "Queue_peek self = ArrayList_get (q_container self) 0"

definition Queue_isEmpty :: "Queue \<Rightarrow> bool" where
  "Queue_isEmpty self \<longleftrightarrow> ArrayList_getSize (q_container self) = 0"

definition Queue_size :: "Queue \<Rightarrow> int" where
  "Queue_size self = ArrayList_getSize (q_container self)"

definition Queue_forEach :: "unit alloc \<Rightarrow> Queue \<Rightarrow> ptr list" where
  "Queue_forEach mem self = ArrayList_forEach mem (q_container self)"

definition Queue_iterator :: "unit alloc \<Rightarrow> 'p heap \<Rightarrow> Queue \<Rightarrow> 'p heap \<times> ArrayListIterator option" where
  "Queue_iterator mem h self = ArrayList_iterator mem h (q_container self)"

definition Queue_Finalize :: "'p classes \<Rightarrow> 'p heap \<Rightarrow> Queue \<Rightarrow> 'p heap" where
  "Queue_Finalize cl h self = fst (RELEASE_NULL cl h (Some (al_base (q_container self))))"

section \<open>Stack\<close>

record Stack =
  s_base :: addr
  s_container :: "ArrayList option"

definition new_Stack ::
  "addr alloc \<Rightarrow> addr alloc \<Rightarrow> unit alloc \<Rightarrow> 'p \<Rightarrow> 'p heap \<Rightarrow> int \<Rightarrow> 'p heap \<times> Stack option" where
  "new_Stack mem mem_obj mem_items p h initial_capacity =
     (case mem of Alloc_Fail \<Rightarrow> (h, None)
      | Alloc_Ok a \<Rightarrow>
          (let h1 = Object_Init (calloc_object h a p) (Some a) ''Stack''
           in case new_ArrayList mem_obj mem_items p h1 initial_capacity of
                (h2, c) \<Rightarrow> (h2, Some \<lparr>s_base = a, s_container = c\<rparr>)))"

definition Stack_push :: "ptr alloc \<Rightarrow> 'p heap \<Rightarrow> Stack \<Rightarrow> ptr \<Rightarrow> ('p heap \<times> Stack) option" where
  "Stack_push mem h self data =
     (case s_container self of None \<Rightarrow> None
      | Some c \<Rightarrow> (case ArrayList_add mem h c data of
          (h', c') \<Rightarrow> Some (h', self\<lparr>s_container := Some c'\<rparr>)))"

definition Stack_pop :: "Stack \<Rightarrow> (ptr \<times> Stack) option" where
  "Stack_pop self =
     (case s_container self of None \<Rightarrow> None
      | Some c \<Rightarrow>
          (let current_size = ArrayList_getSize c
           in if current_size = 0 then Some (None, self)
              else case ArrayList_detach c (current_size - 1) of
                     (item, c') \<Rightarrow> Some (item, self\<lparr>s_container := Some c'\<rparr>)))"

definition Stack_peek :: "Stack \<Rightarrow> ptr option" where
  "Stack_peek self =
     (case s_container self of None \<Rightarrow> None
      | Some c \<Rightarrow>
          (let current_size = ArrayList_getSize c
           in Some (if current_size > 0 then ArrayList_get c (current_size - 1) else None)))"

definition Stack_isFull :: "Stack \<Rightarrow> bool option" where
  "Stack_isFull self = map_option (\<lambda>c. al_size c \<ge> al_capacity c) (s_container self)"

definition Stack_isEmpty :: "Stack \<Rightarrow> bool option" where
  "Stack_isEmpty self = map_option (\<lambda>c. ArrayList_getSize c = 0) (s_container self)"

definition Stack_size :: "Stack \<Rightarrow> int option" where
  "Stack_size self = map_option ArrayList_getSize (s_container self)"

definition Stack_Finalize :: "'p classes \<Rightarrow> 'p heap \<Rightarrow> Stack \<Rightarrow> 'p heap" where
  "Stack_Finalize cl h self =
     (case s_container self of None \<Rightarrow> h
      | Some c \<Rightarrow> fst (RELEASE_NULL cl h (Some (al_base c))))"

section \<open>Commands and their specification\<close>

datatype seq_cmd = Put ptr | Take | Peek

fun queue_exec :: "ptr \<Rightarrow> 'p heap \<times> Queue \<Rightarrow> seq_cmd \<Rightarrow> ptr \<times> 'p heap \<times> Queue" where
  "queue_exec j (h, q) (Put x) = (None, Queue_enqueue (Alloc_Ok j) h q x)"
| "queue_exec j (h, q) Take = (fst (Queue_dequeue q), h, snd (Queue_dequeue q))"
| "queue_exec j (h, q) Peek = (Queue_peek q, h, q)"

text \<open>The specification of a FIFO queue: put at the end, take from the front.\<close>

fun fifo_spec :: "'p heap \<times> ptr list \<Rightarrow> seq_cmd \<Rightarrow> ptr \<times> 'p heap \<times> ptr list" where
  "fifo_spec (h, xs) (Put x) = (None, RETAIN h x, xs @ [x])"
| "fifo_spec (h, xs) Take = (case xs of [] \<Rightarrow> (None, h, []) | x # ys \<Rightarrow> (x, h, ys))"
| "fifo_spec (h, xs) Peek = (case xs of [] \<Rightarrow> None | x # _ \<Rightarrow> x, h, xs)"

fun stack_exec :: "ptr \<Rightarrow> 'p heap \<times> Stack \<Rightarrow> seq_cmd \<Rightarrow> (ptr \<times> 'p heap \<times> Stack) option" where
  "stack_exec j (h, s) (Put x) = map_option (Pair None) (Stack_push (Alloc_Ok j) h s x)"
| "stack_exec j (h, s) Take = map_option (\<lambda>(x, s'). (x, h, s')) (Stack_pop s)"
| "stack_exec j (h, s) Peek = map_option (\<lambda>x. (x, h, s)) (Stack_peek s)"

text \<open>The specification of a LIFO stack, top first.\<close>

fun lifo_spec :: "'p heap \<times> ptr list \<Rightarrow> seq_cmd \<Rightarrow> ptr \<times> 'p heap \<times> ptr list" where
  "lifo_spec (h, xs) (Put x) = (None, RETAIN h x, x # xs)"
| "lifo_spec (h, xs) Take = (case xs of [] \<Rightarrow> (None, h, []) | x # ys \<Rightarrow> (x, h, ys))"
| "lifo_spec (h, xs) Peek = (case xs of [] \<Rightarrow> None | x # _ \<Rightarrow> x, h, xs)"

fun run_all :: "('s \<Rightarrow> 'c \<Rightarrow> 'o \<times> 's) \<Rightarrow> 's \<Rightarrow> 'c list \<Rightarrow> 'o list \<times> 's" where
  "run_all step s [] = ([], s)"
| "run_all step s (c # cs) =
     (let (o1, s1) = step s c; (os, s2) = run_all step s1 cs in (o1 # os, s2))"

fun run_all_opt :: "('s \<Rightarrow> 'c \<Rightarrow> ('o \<times> 's) option) \<Rightarrow> 's \<Rightarrow> 'c list \<Rightarrow> ('o list \<times> 's) option" where
  "run_all_opt step s [] = Some ([], s)"
| "run_all_opt step s (c # cs) =
     (case step s c of None \<Rightarrow> None
      | Some (o1, s1) \<Rightarrow> (case run_all_opt step s1 cs of None \<Rightarrow> None
          | Some (os, s2) \<Rightarrow> Some (o1 # os, s2)))"

section \<open>Simulation\<close>

definition queue_rep :: "Queue \<Rightarrow> ptr list \<Rightarrow> bool" where
  "queue_rep q xs \<longleftrightarrow> al_inv (q_container q) \<and> al_list (q_container q) = xs"

definition stack_rep :: "Stack \<Rightarrow> ptr list \<Rightarrow> bool" where
  "stack_rep s xs \<longleftrightarrow> (\<exists>c. s_container s = Some c \<and> al_inv c \<and> al_list c = rev xs)"

lemma queue_step:
  assumes "queue_rep q xs" and "int (length xs) < INT_MAX"
    and "queue_exec j (h, q) c = (out, h', q')"
  shows "\<exists>ys. fifo_spec (h, xs) c = (out, h', ys) \<and> queue_rep q' ys \<and> length ys \<le> Suc (length xs)"
proof -
  let ?c = "q_container q"
  have inv: "al_inv ?c" and xs: "al_list ?c = xs" using assms(1) by (auto simp: queue_rep_def)
  show ?thesis
  proof (cases c)
    case (Put x)
    have "ArrayList_getSize ?c < INT_MAX" using assms(2) al.size_lst [OF inv] xs by simp
    with Put show ?thesis
      using assms(3) al.add_lst [OF inv, of j h x] xs
      by (auto simp: Queue_enqueue_def queue_rep_def split: prod.splits)
  next
    case Take
    then show ?thesis
      using assms(3) inv xs al.empty_iff [OF inv] al.detach_front [OF inv]
      by (cases xs) (auto simp: Queue_dequeue_def queue_rep_def split: prod.splits)
  next
    case Peek
    then show ?thesis using assms(1,3) al.get_front [OF inv] xs
      by (auto simp: Queue_peek_def split: list.splits)
  qed
qed

lemma stack_step:
  assumes "stack_rep s xs" and "int (length xs) < INT_MAX"
  shows "\<exists>out h' s' ys. stack_exec j (h, s) c = Some (out, h', s')
    \<and> lifo_spec (h, xs) c = (out, h', ys) \<and> stack_rep s' ys \<and> length ys \<le> Suc (length xs)"
proof -
  obtain k where k: "s_container s = Some k" "al_inv k" "al_list k = rev xs"
    using assms(1) by (auto simp: stack_rep_def)
  show ?thesis
  proof (cases c)
    case (Put x)
    have "ArrayList_getSize k < INT_MAX" using assms(2) al.size_lst [OF k(2)] k(3) by simp
    with Put k show ?thesis
      using al.add_lst [OF k(2), of j h x]
      by (auto simp: Stack_push_def stack_rep_def split: prod.splits)
  next
    case Take
    then show ?thesis
      using k assms(1) al.empty_iff [OF k(2)] al.detach_back [OF k(2)]
      by (cases xs) (auto simp: Stack_pop_def stack_rep_def Let_def split: prod.splits)
  next
    case Peek
    then show ?thesis
      using k assms(1) al.get_back [OF k(2)] al.size_lst [OF k(2)]
      by (cases xs) (auto simp: Stack_peek_def Let_def)
  qed
qed

section \<open>Properties\<close>

text \<open>The queue is first-in first-out: for every sequence of enqueue, dequeue and peek
  calls the pointers returned, the final contents and the reference counts are those of the
  abstract FIFO queue; dequeue hands the queue's reference to the caller.\<close>

theorem Queue_refines_fifo:
  assumes "queue_rep q xs" and "int (length xs) + int (length cs) \<le> INT_MAX"
  shows "case run_all (queue_exec j) (h, q) cs of (outs, h', q') \<Rightarrow>
    \<exists>ys. run_all fifo_spec (h, xs) cs = (outs, h', ys) \<and> queue_rep q' ys"
  using assms
proof (induction cs arbitrary: h q xs)
  case Nil
  then show ?case by auto
next
  case (Cons c cs)
  obtain o1 h1 q1 where e: "queue_exec j (h, q) c = (o1, h1, q1)" by (metis prod_cases3)
  obtain ys where ys: "fifo_spec (h, xs) c = (o1, h1, ys)" "queue_rep q1 ys" "length ys \<le> Suc (length xs)"
    using queue_step [OF Cons.prems(1) _ e] Cons.prems(2) by auto
  then show ?case
    using Cons.IH [of q1 ys h1] Cons.prems(2) e by (auto split: prod.splits)
qed

theorem Queue_refines_fifo_witness:
  "fst (run_all (queue_exec None) (demo_heap, \<lparr>q_base = 8, q_container = demo_al\<rparr>)
     [Put (Some 1), Put (Some 2), Take, Take, Take]) = [None, None, Some 1, Some 2, None]"
proof -
  let ?q = "\<lparr>q_base = 8, q_container = demo_al\<rparr>" and ?cs = "[Put (Some 1), Put (Some 2), Take, Take, Take]"
  have "queue_rep ?q []" using demo_al_inv by (simp add: queue_rep_def demo_al_def al_list_def)
  moreover obtain outs h' q' where e: "run_all (queue_exec None) (demo_heap, ?q) ?cs = (outs, h', q')"
    by (metis prod_cases3)
  ultimately obtain ys where "run_all fifo_spec (demo_heap, []) ?cs = (outs, h', ys)"
    using Queue_refines_fifo [of ?q "[]" ?cs demo_heap None] by (auto simp del: run_all.simps)
  then show ?thesis by (simp only: e fst_conv) auto
qed

text \<open>The stack is last-in first-out: with a container, no sequence of push, pop and peek
  calls dereferences NULL, and the pointers returned, the final contents and the reference
  counts are those of the abstract LIFO stack.\<close>

theorem Stack_refines_lifo:
  assumes "stack_rep s xs" and "int (length xs) + int (length cs) \<le> INT_MAX"
  shows "\<exists>outs h' s' ys. run_all_opt (stack_exec j) (h, s) cs = Some (outs, h', s')
    \<and> run_all lifo_spec (h, xs) cs = (outs, h', ys) \<and> stack_rep s' ys"
  using assms
proof (induction cs arbitrary: h s xs)
  case Nil
  then show ?case by auto
next
  case (Cons c cs)
  obtain o1 h1 s1 ys where st: "stack_exec j (h, s) c = Some (o1, h1, s1)"
    "lifo_spec (h, xs) c = (o1, h1, ys)" "stack_rep s1 ys" "length ys \<le> Suc (length xs)"
    using stack_step [OF Cons.prems(1), of j h c] Cons.prems(2) by auto
  then obtain outs h2 s2 zs where "run_all_opt (stack_exec j) (h1, s1) cs = Some (outs, h2, s2)"
    "run_all lifo_spec (h1, ys) cs = (outs, h2, zs)" "stack_rep s2 zs"
    using Cons.IH [of s1 ys h1] Cons.prems(2) by auto
  with st show ?case by auto
qed

theorem Stack_refines_lifo_witness:
  "map_option fst (run_all_opt (stack_exec None)
     (demo_heap, \<lparr>s_base = 8, s_container = Some demo_al\<rparr>) [Put (Some 1), Put (Some 2), Peek, Take, Take, Take])
   = Some [None, None, Some 2, Some 2, Some 1, None]"
proof -
  let ?s = "\<lparr>s_base = 8, s_container = Some demo_al\<rparr>"
  let ?cs = "[Put (Some 1), Put (Some 2), Peek, Take, Take, Take]"
  have "stack_rep ?s []" using demo_al_inv by (simp add: stack_rep_def demo_al_def al_list_def)
  then obtain outs h' s' ys where "run_all_opt (stack_exec None) (demo_heap, ?s) ?cs = Some (outs, h', s')"
    "run_all lifo_spec (demo_heap, []) ?cs = (outs, h', ys)"
    using Stack_refines_lifo [of ?s "[]" ?cs None demo_heap]
    by (auto simp del: run_all.simps run_all_opt.simps)
  then show ?thesis by (auto simp del: run_all_opt.simps)
qed

text \<open>When the container of a new stack cannot be allocated, the constructor still hands
  out a stack, and the first push on it dereferences NULL.\<close>

theorem new_Stack_unchecked_container:
  "case new_Stack (Alloc_Ok a) Alloc_Fail mi p h n of (h', r) \<Rightarrow>
     \<exists>s. r = Some s \<and> Stack_push mem h' s x = None"
  by (simp add: new_Stack_def new_ArrayList_def Stack_push_def Let_def)

end
