(* ===== verification/Ring_Buffer.thy ===== *)
theory Ring_Buffer
  imports Queue_Stack
begin

text \<open>
  \<^verbatim>\<open>src/src/ring_buffer.c\<close>: the bounded, non-blocking FIFO between event loop and worker
  threads (it drops when full). Items are borrowed pointers: the buffer does not count
  references. Every method runs under the buffer's mutex and is one atomic step;
  \<^verbatim>\<open>pthread_cond_timedwait\<close> gives the mutex up, so the state it comes back with is an argument
  of \<open>rb_pop_wait\<close>. \<open>rb_list\<close> reads the queue the circular array stands for.
\<close>

section \<open>State and operations\<close>

record RingBuffer =
  rb_items :: "ptr list"
  rb_capacity :: nat
  rb_head :: nat
  rb_tail :: nat
  rb_count :: nat

definition new_RingBuffer :: "unit alloc \<Rightarrow> unit alloc \<Rightarrow> nat \<Rightarrow> RingBuffer option" where
  "new_RingBuffer mem mem_items capacity =
     (let capacity = (if capacity = 0 then 1024 else capacity)
      in case mem of Alloc_Fail \<Rightarrow> None
         | Alloc_Ok _ \<Rightarrow> (case mem_items of Alloc_Fail \<Rightarrow> None
             | Alloc_Ok _ \<Rightarrow> Some \<lparr>rb_items = replicate capacity None, rb_capacity = capacity,
                 rb_head = 0, rb_tail = 0, rb_count = 0\<rparr>))"

definition rb_push :: "RingBuffer \<Rightarrow> ptr \<Rightarrow> bool \<times> RingBuffer" where
  "rb_push self item =
     (if item = None then (False, self)
      else if rb_count self \<ge> rb_capacity self then (False, self)
      else (True, self\<lparr>rb_items := (rb_items self)[rb_head self := item],
                       rb_head := (rb_head self + 1) mod rb_capacity self,
                       rb_count := rb_count self + 1\<rparr>))"

text \<open>The part \<^verbatim>\<open>pop\<close> and \<^verbatim>\<open>popWait\<close> share: take the oldest item, if there is one.\<close>

definition rb_pop :: "RingBuffer \<Rightarrow> ptr \<times> RingBuffer" where
  "rb_pop self =
     (if rb_count self = 0 then (None, self)
      else (rb_items self ! rb_tail self,
            self\<lparr>rb_items := (rb_items self)[rb_tail self := None],
                 rb_tail := (rb_tail self + 1) mod rb_capacity self,
                 rb_count := rb_count self - 1\<rparr>))"

text \<open>C's division and remainder truncate towards zero.\<close>

definition c_div :: "int \<Rightarrow> int \<Rightarrow> int" where
  "c_div a b = sgn a * sgn b * (\<bar>a\<bar> div \<bar>b\<bar>)"

definition c_mod :: "int \<Rightarrow> int \<Rightarrow> int" where
  "c_mod a b = a - c_div a b * b"

text \<open>The absolute deadline (seconds, nanoseconds) of \<^verbatim>\<open>popWait\<close>.\<close>

definition rb_deadline :: "int \<times> int \<Rightarrow> int \<Rightarrow> int \<times> int" where
  "rb_deadline now timeout_ms =
     (let sec = fst now + c_div timeout_ms 1000;
          nsec = snd now + c_mod timeout_ms 1000 * 1000000
      in if nsec \<ge> 1000000000 then (sec + 1, nsec - 1000000000) else (sec, nsec))"

definition rb_pop_wait ::
  "int \<times> int \<Rightarrow> (int \<times> int \<Rightarrow> RingBuffer \<Rightarrow> RingBuffer) \<Rightarrow> RingBuffer \<Rightarrow> int \<Rightarrow> ptr \<times> RingBuffer" where
  "rb_pop_wait now timedwait self timeout_ms =
     (let self1 = (if rb_count self = 0 then timedwait (rb_deadline now timeout_ms) self else self)
      in rb_pop self1)"

definition rb_get_size :: "RingBuffer \<Rightarrow> nat" where
  "rb_get_size self = rb_count self"

definition rb_is_empty :: "RingBuffer \<Rightarrow> bool" where
  "rb_is_empty self \<longleftrightarrow> rb_get_size self = 0"

definition rb_is_full :: "RingBuffer \<Rightarrow> bool" where
  "rb_is_full self \<longleftrightarrow> rb_count self \<ge> rb_capacity self"

definition rb_clear :: "RingBuffer \<Rightarrow> RingBuffer" where
  "rb_clear self = self\<lparr>rb_items := replicate (rb_capacity self) None,
                        rb_head := 0, rb_tail := 0, rb_count := 0\<rparr>"

section \<open>Invariant and abstraction\<close>

definition rb_inv :: "RingBuffer \<Rightarrow> bool" where
  "rb_inv s \<longleftrightarrow> 0 < rb_capacity s \<and> length (rb_items s) = rb_capacity s
     \<and> rb_tail s < rb_capacity s \<and> rb_count s \<le> rb_capacity s
     \<and> rb_head s = (rb_tail s + rb_count s) mod rb_capacity s"

definition rb_list :: "RingBuffer \<Rightarrow> ptr list" where
  "rb_list s = map (\<lambda>i. rb_items s ! ((rb_tail s + i) mod rb_capacity s)) [0..<rb_count s]"

lemma mod_shift_inj:
  fixes t i j c :: nat
  assumes eq: "(t + i) mod c = (t + j) mod c" and "i < c" and "j < c"
  shows "i = j"
proof -
  have main: "a = b" if "a \<le> b" "(t + a) mod c = (t + b) mod c" "b < c" for a b
  proof -
    have "c dvd (t + b) - (t + a)" using that by (subst mod_eq_dvd_iff_nat [symmetric]) auto
    then have "c dvd b - a" by simp
    with that show ?thesis using nat_dvd_not_less [of "b - a" c] by (cases "a = b") auto
  qed
  show ?thesis using main [of i j] main [of j i] assms by (cases "i \<le> j") auto
qed

lemma length_rb_list [simp]: "length (rb_list s) = rb_count s"
  by (simp add: rb_list_def)

lemma rb_list_nth: "i < rb_count s \<Longrightarrow> rb_list s ! i = rb_items s ! ((rb_tail s + i) mod rb_capacity s)"
  by (simp add: rb_list_def)

lemma rb_push_step:
  assumes "rb_inv s"
  shows "rb_inv (snd (rb_push s x))"
    and "rb_push s x = (True, s') \<Longrightarrow> rb_list s' = rb_list s @ [x]"
    and "fst (rb_push s x) \<longleftrightarrow> x \<noteq> None \<and> rb_count s < rb_capacity s"
proof -
  show "rb_inv (snd (rb_push s x))"
    using assms by (auto simp: rb_push_def rb_inv_def mod_Suc_eq)
  show "fst (rb_push s x) \<longleftrightarrow> x \<noteq> None \<and> rb_count s < rb_capacity s"
    by (auto simp: rb_push_def)
  assume ok: "rb_push s x = (True, s')"
  then have lt: "rb_count s < rb_capacity s"
    and s': "s' = s\<lparr>rb_items := (rb_items s)[rb_head s := x],
      rb_head := (rb_head s + 1) mod rb_capacity s, rb_count := rb_count s + 1\<rparr>"
    by (auto simp: rb_push_def split: if_splits)
  have hd: "rb_head s = (rb_tail s + rb_count s) mod rb_capacity s" "rb_head s < length (rb_items s)"
    using assms by (auto simp: rb_inv_def)
  show "rb_list s' = rb_list s @ [x]"
  proof (rule nth_equalityI)
    fix i assume i: "i < length (rb_list s')"
    show "rb_list s' ! i = (rb_list s @ [x]) ! i"
    proof (cases "i = rb_count s")
      case True
      with hd s' show ?thesis by (simp add: rb_list_nth nth_append)
    next
      case False
      with i s' have i': "i < rb_count s" by simp
      then have "(rb_tail s + i) mod rb_capacity s \<noteq> rb_head s"
        using mod_shift_inj [of "rb_tail s" i "rb_capacity s" "rb_count s"] lt hd(1) by auto
      with i' s' show ?thesis by (simp add: rb_list_nth nth_append)
    qed
  qed (simp add: s')
qed

lemma rb_pop_step:
  assumes "rb_inv s"
  shows "rb_inv (snd (rb_pop s))"
    and "rb_list s = x # xs \<Longrightarrow> fst (rb_pop s) = x \<and> rb_list (snd (rb_pop s)) = xs"
    and "rb_list s = [] \<Longrightarrow> rb_pop s = (None, s)"
proof -
  let ?c = "rb_capacity s" and ?t = "rb_tail s"
  have t: "(?t + 0) mod ?c = ?t" "?t < length (rb_items s)" using assms by (auto simp: rb_inv_def)
  show "rb_inv (snd (rb_pop s))"
    using assms by (cases "rb_count s") (auto simp: rb_pop_def rb_inv_def mod_simps)
  show "rb_list s = [] \<Longrightarrow> rb_pop s = (None, s)"
    by (simp add: rb_pop_def rb_list_def)
  assume l: "rb_list s = x # xs"
  then have n: "rb_count s = Suc (length xs)" using length_rb_list [of s] by simp
  have x: "x = rb_items s ! ?t" using rb_list_nth [of 0 s] l n t by simp
  let ?s = "snd (rb_pop s)"
  have flds: "rb_count ?s = length xs" "rb_tail ?s = (?t + 1) mod ?c" "rb_capacity ?s = ?c"
    "rb_items ?s = (rb_items s)[?t := None]"
    using n by (simp_all add: rb_pop_def)
  have "rb_list ?s = xs"
  proof (rule nth_equalityI)
    fix i assume "i < length (rb_list ?s)"
    then have i: "i < length xs" using flds by simp
    have "(?t + Suc i) mod ?c \<noteq> ?t"
      using mod_shift_inj [of ?t "Suc i" ?c 0] t(1) i n assms by (auto simp: rb_inv_def)
    then have "rb_list ?s ! i = rb_list s ! Suc i"
      using i n flds by (simp add: rb_list_nth mod_simps)
    with l show "rb_list ?s ! i = xs ! i" by simp
  qed (simp add: flds)
  with x n show "fst (rb_pop s) = x \<and> rb_list ?s = xs" by (simp add: rb_pop_def)
qed

section \<open>Properties\<close>

datatype rb_cmd = Rb_push ptr | Rb_pop | Rb_clear

fun rb_exec :: "RingBuffer \<Rightarrow> rb_cmd \<Rightarrow> (bool \<times> ptr) \<times> RingBuffer" where
  "rb_exec s (Rb_push x) = (case rb_push s x of (ok, s') \<Rightarrow> ((ok, None), s'))"
| "rb_exec s Rb_pop = (case rb_pop s of (x, s') \<Rightarrow> ((True, x), s'))"
| "rb_exec s Rb_clear = ((True, None), rb_clear s)"

text \<open>The specification: a FIFO queue of at most \<open>cap\<close> non-NULL items that refuses when full.\<close>

fun rb_spec :: "nat \<Rightarrow> ptr list \<Rightarrow> rb_cmd \<Rightarrow> (bool \<times> ptr) \<times> ptr list" where
  "rb_spec cap xs (Rb_push x) =
     (if x \<noteq> None \<and> length xs < cap then ((True, None), xs @ [x]) else ((False, None), xs))"
| "rb_spec cap xs Rb_pop = (case xs of [] \<Rightarrow> ((True, None), []) | x # ys \<Rightarrow> ((True, x), ys))"
| "rb_spec cap xs Rb_clear = ((True, None), [])"

lemma rb_step:
  assumes "rb_inv s" and "rb_exec s c = (out, s')"
  shows "rb_spec (rb_capacity s) (rb_list s) c = (out, rb_list s') \<and> rb_inv s'
    \<and> rb_capacity s' = rb_capacity s"
proof (cases c)
  case (Rb_push x)
  obtain ok s1 where e: "rb_push s x = (ok, s1)" by force
  then have s1: "s1 = s'" "out = (ok, None)" using assms(2) Rb_push by auto
  have cap: "rb_capacity s1 = rb_capacity s" "\<not> ok \<Longrightarrow> s1 = s"
    using e by (auto simp: rb_push_def split: if_splits)
  show ?thesis
    using rb_push_step [OF assms(1), of x] e s1 cap Rb_push by (cases ok) auto
next
  case Rb_pop
  have "rb_capacity (snd (rb_pop s)) = rb_capacity s" by (simp add: rb_pop_def)
  then show ?thesis
    using rb_pop_step [OF assms(1)] assms Rb_pop by (cases "rb_list s") (auto split: prod.splits)
next
  case Rb_clear
  then show ?thesis
    using assms by (auto simp: rb_clear_def rb_inv_def rb_list_def)
qed

text \<open>(C31) The ring buffer refines a bounded FIFO queue: for every sequence of push, pop and
  clear calls the results (accepted or dropped, item popped) and the final contents are those
  of a queue bounded by the capacity; head, tail and count never leave the array.\<close>

theorem RingBuffer_refines_bounded_fifo:
  assumes "rb_inv s"
  shows "case run_all rb_exec s cs of (outs, s') \<Rightarrow>
    run_all (rb_spec (rb_capacity s)) (rb_list s) cs = (outs, rb_list s') \<and> rb_inv s'
    \<and> length (rb_list s') \<le> rb_capacity s"
  using assms
proof (induction cs arbitrary: s)
  case Nil
  then show ?case by (simp add: rb_inv_def)
next
  case (Cons c cs)
  obtain o1 s1 where e: "rb_exec s c = (o1, s1)" by (cases "rb_exec s c")
  from rb_step [OF Cons.prems e] Cons.IH [of s1] e show ?case
    by (auto split: prod.splits)
qed

theorem RingBuffer_refines_bounded_fifo_witness:
  "fst (run_all rb_exec (the (new_RingBuffer (Alloc_Ok ()) (Alloc_Ok ()) 2))
      [Rb_push (Some 1), Rb_push (Some 2), Rb_push (Some 3), Rb_pop, Rb_push (Some 4), Rb_pop])
   = [(True, None), (True, None), (False, None), (True, Some 1), (True, None), (True, Some 2)]"
proof -
  let ?s = "the (new_RingBuffer (Alloc_Ok ()) (Alloc_Ok ()) 2)"
  let ?cs = "[Rb_push (Some 1), Rb_push (Some 2), Rb_push (Some 3), Rb_pop, Rb_push (Some 4), Rb_pop]"
  have s: "rb_inv ?s" "rb_capacity ?s = 2" "rb_list ?s = []"
    by (simp_all add: new_RingBuffer_def rb_inv_def rb_list_def)
  obtain outs s' where e: "run_all rb_exec ?s ?cs = (outs, s')" by force
  have "run_all (rb_spec 2) [] ?cs = (outs, rb_list s')"
    using RingBuffer_refines_bounded_fifo [OF s(1), of ?cs] e s by (simp del: run_all.simps)
  then show ?thesis by (simp only: e fst_conv) auto
qed

text \<open>The deadline \<^verbatim>\<open>popWait\<close> computes for a non-negative timeout is exactly the current
  time plus the timeout, with the nanosecond field normalised below one second.\<close>

theorem rb_deadline_exact:
  assumes "0 \<le> ns" and "ns < 1000000000" and "0 \<le> timeout_ms"
  shows "case rb_deadline (sec, ns) timeout_ms of (s', n') \<Rightarrow>
    0 \<le> n' \<and> n' < 1000000000
    \<and> s' * 1000000000 + n' = sec * 1000000000 + ns + timeout_ms * 1000000"
proof -
  have d: "c_div timeout_ms 1000 = timeout_ms div 1000"
    using assms(3) by (cases "timeout_ms = 0") (simp_all add: c_div_def)
  have m: "timeout_ms div 1000 * 1000 + timeout_ms mod 1000 = timeout_ms"
    "0 \<le> timeout_ms mod 1000" "timeout_ms mod 1000 < 1000" by simp_all
  have "c_mod timeout_ms 1000 = timeout_ms mod 1000"
    unfolding c_mod_def d using m(1) by linarith
  moreover obtain q r where qr: "q = timeout_ms div 1000" "r = timeout_ms mod 1000" by blast
  ultimately have "rb_deadline (sec, ns) timeout_ms =
      (if ns + r * 1000000 \<ge> 1000000000 then (sec + q + 1, ns + r * 1000000 - 1000000000)
       else (sec + q, ns + r * 1000000))"
    by (simp add: rb_deadline_def Let_def d)
  moreover have "timeout_ms = q * 1000 + r" "0 \<le> r" "r < 1000" using m qr by simp_all
  ultimately show ?thesis using assms(1,2) by (simp add: algebra_simps)
qed

theorem rb_deadline_exact_witness:
  "rb_deadline (10, 900000000) 1500 = (12, 400000000)"
  using rb_deadline_exact [of 900000000 1500 10]
  by (simp add: rb_deadline_def Let_def c_div_def c_mod_def)

end
