(* ===== verification/Search_Tree.thy ===== *)
theory Search_Tree
  imports Arc_Ownership
begin

text \<open>
  \<^verbatim>\<open>src/src/tree.c\<close>: the binary search tree over object pointers, ordered by the caller's comparison
  callback. The nodes are raw structs that only their parent points to, so a node pointer is the
  datatype \<open>TreeNode\<close> (\<open>TNull\<close> is NULL). Every recursion carries the depth counter of the source and
  stops below \<^verbatim>\<open>MAX_TREE_DEPTH\<close>. The in-order iterator keeps its explicit stack, the breadth-first
  traversal its linked queue; both allocate one cell per push, and \<open>mem k\<close> is the answer to the
  \<open>k\<close>-th of these allocations. An iterator is used while the tree is not modified.
  Contents are read off by \<open>inorder\<close>; the ordering laws of the callback are \<open>orders cmp key\<close>.
\<close>

section \<open>Nodes\<close>

abbreviation MAX_TREE_DEPTH :: nat where "MAX_TREE_DEPTH \<equiv> 1000"

datatype TreeNode = TNull | TreeNode TreeNode ptr TreeNode

type_synonym CompareFunc = "ptr \<Rightarrow> ptr \<Rightarrow> int"

definition createNode :: "unit alloc \<Rightarrow> 'p heap \<Rightarrow> ptr \<Rightarrow> 'p heap \<times> TreeNode" where
  "createNode mem h data =
     (case mem of Alloc_Fail \<Rightarrow> (h, TNull) | Alloc_Ok _ \<Rightarrow> (RETAIN h data, TreeNode TNull data TNull))"

fun freeNodesRecursive :: "'p classes \<Rightarrow> 'p heap \<Rightarrow> TreeNode \<Rightarrow> 'p heap" where
  "freeNodesRecursive cl h TNull = h"
| "freeNodesRecursive cl h (TreeNode l d r) =
     (let h1 = freeNodesRecursive cl h l; h2 = freeNodesRecursive cl h1 r
      in if d \<noteq> None then RELEASE cl h2 d else h2)"

fun insertRec :: "unit alloc \<Rightarrow> CompareFunc \<Rightarrow> 'p heap \<Rightarrow> TreeNode \<Rightarrow> ptr \<Rightarrow> nat \<Rightarrow> 'p heap \<times> TreeNode" where
  "insertRec mem cmp h TNull data depth =
     (if depth > MAX_TREE_DEPTH then (h, TNull) else createNode mem h data)"
| "insertRec mem cmp h (TreeNode l d r) data depth =
     (if depth > MAX_TREE_DEPTH then (h, TreeNode l d r)
      else if cmp data d < 0 then
        (let (h1, l1) = insertRec mem cmp h l data (depth + 1) in (h1, TreeNode l1 d r))
      else if cmp data d > 0 then
        (let (h1, r1) = insertRec mem cmp h r data (depth + 1) in (h1, TreeNode l d r1))
      else (h, TreeNode l d r))"

text \<open>The data of the leftmost node, which is all the caller reads of it.\<close>

fun findMin :: "TreeNode \<Rightarrow> ptr" where
  "findMin TNull = None"
| "findMin (TreeNode l d r) = (case l of TNull \<Rightarrow> d | _ \<Rightarrow> findMin l)"

fun deleteRec :: "'p classes \<Rightarrow> CompareFunc \<Rightarrow> 'p heap \<Rightarrow> TreeNode \<Rightarrow> ptr \<Rightarrow> nat \<Rightarrow> 'p heap \<times> TreeNode" where
  "deleteRec cl cmp h TNull key depth = (h, TNull)"
| "deleteRec cl cmp h (TreeNode l d r) key depth =
     (if depth > MAX_TREE_DEPTH then (h, TreeNode l d r)
      else if cmp key d < 0 then
        (let (h1, l1) = deleteRec cl cmp h l key (depth + 1) in (h1, TreeNode l1 d r))
      else if cmp key d > 0 then
        (let (h1, r1) = deleteRec cl cmp h r key (depth + 1) in (h1, TreeNode l d r1))
      else if l = TNull then (RELEASE cl h d, r)
      else if r = TNull then (RELEASE cl h d, l)
      else (let m = findMin r;
                h1 = RETAIN h m;
                h2 = RELEASE cl h1 d;
                (h3, r1) = deleteRec cl cmp h2 r m (depth + 1)
            in (h3, TreeNode l m r1)))"

text \<open>The data \<^verbatim>\<open>_foreachRec\<close> hands to the callback, in order.\<close>

fun foreachRec :: "TreeNode \<Rightarrow> nat \<Rightarrow> ptr list" where
  "foreachRec TNull depth = []"
| "foreachRec (TreeNode l d r) depth =
     (if depth > MAX_TREE_DEPTH then []
      else foreachRec l (depth + 1) @ [d] @ foreachRec r (depth + 1))"

fun getHeightRec :: "TreeNode \<Rightarrow> nat \<Rightarrow> nat" where
  "getHeightRec TNull depth = 0"
| "getHeightRec (TreeNode l d r) depth =
     (if depth > MAX_TREE_DEPTH then 0
      else let a = getHeightRec l (depth + 1); b = getHeightRec r (depth + 1)
           in if a > b then a + 1 else b + 1)"

section \<open>The tree object\<close>

record Tree =
  root :: TreeNode
  compare_fn :: CompareFunc

definition new_Tree :: "unit alloc \<Rightarrow> CompareFunc \<Rightarrow> Tree option" where
  "new_Tree mem cmp = (case mem of Alloc_Fail \<Rightarrow> None | Alloc_Ok _ \<Rightarrow> Some \<lparr>root = TNull, compare_fn = cmp\<rparr>)"

definition Tree_insert :: "unit alloc \<Rightarrow> 'p heap \<Rightarrow> Tree \<Rightarrow> ptr \<Rightarrow> 'p heap \<times> Tree" where
  "Tree_insert mem h self data =
     (let (h1, t) = insertRec mem (compare_fn self) h (root self) data 0 in (h1, self\<lparr>root := t\<rparr>))"

definition Tree_remove :: "'p classes \<Rightarrow> 'p heap \<Rightarrow> Tree \<Rightarrow> ptr \<Rightarrow> 'p heap \<times> Tree" where
  "Tree_remove cl h self key =
     (let (h1, t) = deleteRec cl (compare_fn self) h (root self) key 0 in (h1, self\<lparr>root := t\<rparr>))"

text \<open>The calls \<^verbatim>\<open>foreach\<close> makes; a NULL callback is not called.\<close>

definition Tree_foreach :: "Tree \<Rightarrow> bool \<Rightarrow> ptr list" where
  "Tree_foreach self has_func = (if has_func then foreachRec (root self) 0 else [])"

definition Tree_clear :: "'p classes \<Rightarrow> 'p heap \<Rightarrow> Tree \<Rightarrow> 'p heap \<times> Tree" where
  "Tree_clear cl h self =
     (if root self \<noteq> TNull then (freeNodesRecursive cl h (root self), self\<lparr>root := TNull\<rparr>) else (h, self))"

definition Tree_getHeight :: "TreeNode \<Rightarrow> nat" where
  "Tree_getHeight node = getHeightRec node 0"

definition Tree_Finalize :: "'p classes \<Rightarrow> 'p heap \<Rightarrow> Tree \<Rightarrow> 'p heap" where
  "Tree_Finalize cl h self = fst (Tree_clear cl h self)"

section \<open>Breadth-first traversal\<close>

type_synonym DynamicQueue = "TreeNode list"

definition enqueue :: "unit alloc \<Rightarrow> DynamicQueue \<Rightarrow> TreeNode \<Rightarrow> DynamicQueue" where
  "enqueue mem q node = (case mem of Alloc_Fail \<Rightarrow> q | Alloc_Ok _ \<Rightarrow> q @ [node])"

text \<open>
  The loop of \<^verbatim>\<open>impl_traverseBFS\<close> and the objects it prints. Only nodes that are not NULL are
  queued; the equation for \<open>TNull\<close> makes the function total.
\<close>

definition q_size :: "DynamicQueue \<Rightarrow> nat" where
  "q_size q = sum_list (map (\<lambda>t. Suc (2 * size t)) q)"

function bfs_loop :: "(nat \<Rightarrow> unit alloc) \<Rightarrow> nat \<Rightarrow> DynamicQueue \<Rightarrow> ptr list" where
  "bfs_loop mem k [] = []"
| "bfs_loop mem k (TNull # q) = bfs_loop mem k q"
| "bfs_loop mem k (TreeNode l d r # q) =
     (let (k1, q1) = (if l \<noteq> TNull then (k + 1, enqueue (mem k) q l) else (k, q));
          (k2, q2) = (if r \<noteq> TNull then (k1 + 1, enqueue (mem k1) q1 r) else (k1, q1))
      in (if d \<noteq> None then [d] else []) @ bfs_loop mem k2 q2)"
  by pat_completeness auto
termination
  by (relation "measure (\<lambda>(mem, k, q). q_size q)")
     (auto simp: q_size_def enqueue_def split: if_splits alloc.splits)

definition Tree_traverseBFS :: "(nat \<Rightarrow> unit alloc) \<Rightarrow> Tree \<Rightarrow> ptr list" where
  "Tree_traverseBFS mem self =
     (if root self = TNull then [] else bfs_loop mem 1 (enqueue (mem 0) [] (root self)))"

section \<open>The iterator\<close>

record TreeIterator =
  it_stack :: "TreeNode list"
  it_current :: TreeNode

definition new_TreeIterator :: "unit alloc \<Rightarrow> Tree \<Rightarrow> TreeIterator option" where
  "new_TreeIterator mem tree =
     (case mem of Alloc_Fail \<Rightarrow> None | Alloc_Ok _ \<Rightarrow> Some \<lparr>it_stack = [], it_current = root tree\<rparr>)"

definition push :: "unit alloc \<Rightarrow> TreeNode list \<Rightarrow> TreeNode \<Rightarrow> TreeNode list" where
  "push mem st node = (case mem of Alloc_Fail \<Rightarrow> st | Alloc_Ok _ \<Rightarrow> node # st)"

definition TreeIterator_hasNext :: "TreeIterator \<Rightarrow> bool" where
  "TreeIterator_hasNext self \<longleftrightarrow> it_current self \<noteq> TNull \<or> it_stack self \<noteq> []"

text \<open>The loop that pushes the left spine of \<open>current\<close>.\<close>

fun push_left :: "(nat \<Rightarrow> unit alloc) \<Rightarrow> nat \<Rightarrow> TreeNode list \<Rightarrow> TreeNode \<Rightarrow> TreeNode list" where
  "push_left mem k st TNull = st"
| "push_left mem k st (TreeNode l d r) = push_left mem (k + 1) (push (mem k) st (TreeNode l d r)) l"

definition TreeIterator_next :: "(nat \<Rightarrow> unit alloc) \<Rightarrow> TreeIterator \<Rightarrow> ptr \<times> TreeIterator" where
  "TreeIterator_next mem self =
     (case push_left mem 0 (it_stack self) (it_current self) of
        [] \<Rightarrow> (None, self\<lparr>it_stack := [], it_current := TNull\<rparr>)
      | popped # st \<Rightarrow>
          (case popped of TNull \<Rightarrow> (None, self\<lparr>it_stack := st, it_current := TNull\<rparr>)
           | TreeNode l d r \<Rightarrow> (d, self\<lparr>it_stack := st, it_current := r\<rparr>)))"

section \<open>Contents\<close>

fun inorder :: "TreeNode \<Rightarrow> ptr list" where
  "inorder TNull = []"
| "inorder (TreeNode l d r) = inorder l @ d # inorder r"

fun height :: "TreeNode \<Rightarrow> nat" where
  "height TNull = 0"
| "height (TreeNode l d r) = Suc (max (height l) (height r))"

lemma height_le_length: "height t \<le> length (inorder t)"
  by (induction t) auto

lemma inorder_Nil [simp]: "inorder t = [] \<longleftrightarrow> t = TNull"
  by (cases t) auto

text \<open>What the callback has to be: the comparison of some key in a linear order.\<close>

definition orders :: "CompareFunc \<Rightarrow> (ptr \<Rightarrow> 'k :: linorder) \<Rightarrow> bool" where
  "orders cmp key \<longleftrightarrow> (\<forall>a b. (cmp a b < 0 \<longleftrightarrow> key a < key b) \<and> (cmp a b > 0 \<longleftrightarrow> key b < key a))"

lemma orders_iff:
  assumes "orders cmp key"
  shows "cmp a b < 0 \<longleftrightarrow> key a < key b" "cmp a b > 0 \<longleftrightarrow> key b < key a"
  using assms by (auto simp: orders_def)

definition search_tree :: "(ptr \<Rightarrow> 'k :: linorder) \<Rightarrow> TreeNode \<Rightarrow> bool" where
  "search_tree key t \<longleftrightarrow> sorted_wrt (<) (map key (inorder t))"

lemma search_tree_node [simp]:
  "search_tree key (TreeNode l d r) \<longleftrightarrow> search_tree key l \<and> search_tree key r
     \<and> (\<forall>x \<in> set (inorder l). key x < key d) \<and> (\<forall>x \<in> set (inorder r). key d < key x)"
  by (fastforce simp: search_tree_def sorted_wrt_append dest: order.strict_trans)

lemma search_tree_TNull [simp]: "search_tree key TNull"
  by (simp add: search_tree_def)

text \<open>Insertion and deletion on strictly sorted lists.\<close>

fun ins_key :: "(ptr \<Rightarrow> 'k :: linorder) \<Rightarrow> ptr \<Rightarrow> ptr list \<Rightarrow> ptr list" where
  "ins_key key x [] = [x]"
| "ins_key key x (y # ys) =
     (if key x < key y then x # y # ys else if key y < key x then y # ins_key key x ys else y # ys)"

definition del_key :: "(ptr \<Rightarrow> 'k :: linorder) \<Rightarrow> ptr \<Rightarrow> ptr list \<Rightarrow> ptr list" where
  "del_key key k xs = filter (\<lambda>x. key x \<noteq> key k) xs"

lemma set_ins_key: "set (ins_key key x ys) \<subseteq> insert x (set ys)"
  by (induction ys) auto

lemma ins_key_append:
  "(\<forall>y \<in> set xs. key y < key d) \<Longrightarrow>
     ins_key key x (xs @ d # ys) =
       (if key x < key d then ins_key key x xs @ d # ys
        else if key d < key x then xs @ d # ins_key key x ys else xs @ d # ys)"
proof (induction xs)
  case (Cons y xs)
  then have "\<not> key x < key d \<Longrightarrow> key y < key x" by (metis list.set_intros(1) not_less order.strict_trans1)
  with Cons show ?case by auto
qed simp

text \<open>The number of nodes a search for \<open>x\<close> passes without finding it.\<close>

fun path_len :: "CompareFunc \<Rightarrow> TreeNode \<Rightarrow> ptr \<Rightarrow> nat" where
  "path_len cmp TNull x = 0"
| "path_len cmp (TreeNode l d r) x =
     (if cmp x d < 0 then Suc (path_len cmp l x) else if cmp x d > 0 then Suc (path_len cmp r x) else 0)"

lemma path_len_le_height: "path_len cmp t x \<le> height t"
  by (induction t) auto

lemma insertRec_beyond: "MAX_TREE_DEPTH < depth + path_len cmp t x \<Longrightarrow> insertRec mem cmp h t x depth = (h, t)"
  by (induction t arbitrary: depth) (auto split: prod.splits)

lemma insertRec_inorder:
  assumes "orders cmp key" and "search_tree key t" and "depth + path_len cmp t data \<le> MAX_TREE_DEPTH"
  shows "inorder (snd (insertRec (Alloc_Ok u) cmp h t data depth)) = ins_key key data (inorder t)
    \<and> fst (insertRec (Alloc_Ok u) cmp h t data depth) =
        (if \<exists>x \<in> set (inorder t). key x = key data then h else RETAIN h data)"
  using assms(2,3)
proof (induction t arbitrary: depth)
  case TNull
  then show ?case by (simp add: createNode_def)
next
  case (TreeNode l d r)
  note o = orders_iff [OF assms(1)]
  consider "key data < key d" | "key d < key data" | "key data = key d" by force
  then show ?case
  proof cases
    case 1
    have "\<forall>x \<in> set (inorder r). key x \<noteq> key data" using TreeNode.prems(1) 1 by fastforce
    with 1 TreeNode.IH(1) [of "depth + 1"] TreeNode.prems show ?thesis
      by (auto simp: o ins_key_append split: prod.splits)
  next
    case 2
    have "\<forall>x \<in> set (inorder l). key x \<noteq> key data" using TreeNode.prems(1) 2 by fastforce
    with 2 TreeNode.IH(2) [of "depth + 1"] TreeNode.prems show ?thesis
      by (auto simp: o ins_key_append split: prod.splits)
  next
    case 3
    with TreeNode.prems show ?thesis by (auto simp: o ins_key_append)
  qed
qed

lemma search_tree_ins:
  "search_tree key t \<Longrightarrow> sorted_wrt (<) (map key (ins_key key x (inorder t)))"
proof -
  have "sorted_wrt (<) (map key xs) \<Longrightarrow> sorted_wrt (<) (map key (ins_key key x xs))" for xs
  proof (induction xs)
    case (Cons y ys)
    with set_ins_key [of key x ys] show ?case by (auto dest: order.strict_trans)
  qed simp
  then show "search_tree key t \<Longrightarrow> ?thesis" by (simp add: search_tree_def)
qed

lemma findMin_inorder: "t \<noteq> TNull \<Longrightarrow> inorder t = findMin t # tl (inorder t)"
proof (induction t)
  case (TreeNode l d r)
  show ?case
  proof (cases l)
    case (TreeNode ll ld lr)
    then have "inorder l = findMin l # tl (inorder l)" by (intro TreeNode.IH(1)) simp
    moreover have "findMin (TreeNode l d r) = findMin l" by (simp add: TreeNode)
    ultimately show ?thesis by (metis append_Cons inorder.simps(2) list.sel(3))
  qed simp
qed simp

lemma del_key_append: "del_key key k (xs @ ys) = del_key key k xs @ del_key key k ys"
  by (simp add: del_key_def)

lemma del_key_id: "\<forall>x \<in> set xs. key x \<noteq> key k \<Longrightarrow> del_key key k xs = xs"
  by (simp add: del_key_def)

lemma del_key_Cons [simp]: "del_key key k (x # xs) = (if key x = key k then del_key key k xs else x # del_key key k xs)"
  by (simp add: del_key_def)

lemma set_del_key: "set (del_key key k xs) \<subseteq> set xs"
  by (auto simp: del_key_def)

lemma deleteRec_inorder:
  assumes "orders cmp key" and "search_tree key t" and "depth + height t \<le> Suc MAX_TREE_DEPTH"
  shows "inorder (snd (deleteRec cl cmp h t k depth)) = del_key key k (inorder t)"
  using assms(2,3)
proof (induction t arbitrary: h k depth)
  case TNull
  then show ?case by (simp add: del_key_def)
next
  case (TreeNode l d r)
  note o = orders_iff [OF assms(1)]
  have d: "\<not> depth > MAX_TREE_DEPTH" using TreeNode.prems by simp
  have IHl: "inorder (snd (deleteRec cl cmp h' l k' (depth + 1))) = del_key key k' (inorder l)" for h' k'
    by (rule TreeNode.IH(1)) (use TreeNode.prems in auto)
  have IHr: "inorder (snd (deleteRec cl cmp h' r k' (depth + 1))) = del_key key k' (inorder r)" for h' k'
    by (rule TreeNode.IH(2)) (use TreeNode.prems in auto)
  consider "key k < key d" | "key d < key k" | "key k = key d" by force
  then show ?case
  proof cases
    case 1
    then have "del_key key k (inorder r) = inorder r" using TreeNode.prems by (intro del_key_id) fastforce
    with 1 d IHl show ?thesis by (simp add: o del_key_append split_beta)
  next
    case 2
    then have "del_key key k (inorder l) = inorder l" using TreeNode.prems by (intro del_key_id) fastforce
    moreover have "\<not> key k < key d" "key d \<noteq> key k" using 2 by auto
    ultimately show ?thesis using 2 d IHr by (simp add: o del_key_append split_beta)
  next
    case 3
    then have lr: "del_key key k (inorder l) = inorder l" "del_key key k (inorder r) = inorder r"
      using TreeNode.prems by (auto intro!: del_key_id)
    have rm: "findMin r # del_key key (findMin r) (inorder r) = inorder r" if "r \<noteq> TNull"
    proof -
      have c: "inorder r = findMin r # tl (inorder r)" by (rule findMin_inorder [OF that])
      have "sorted_wrt (<) (map key (inorder r))" using TreeNode.prems(1) unfolding search_tree_node by (simp add: search_tree_def)
      then have "\<forall>x \<in> set (tl (inorder r)). key x \<noteq> key (findMin r)" by (subst (asm) c) auto
      then have "del_key key (findMin r) (tl (inorder r)) = tl (inorder r)" by (rule del_key_id)
      then have "del_key key (findMin r) (inorder r) = tl (inorder r)" by (subst c) simp
      then show ?thesis using c by simp
    qed
    with 3 d IHr lr show ?thesis by (simp add: o del_key_append Let_def split_beta)
  qed
qed

section \<open>Reference counts\<close>

lemma insertRec_balance:
  assumes "orders cmp key" and "search_tree key t" and "depth + path_len cmp t data \<le> MAX_TREE_DEPTH"
    and "\<And>a. data = Some a \<Longrightarrow> live h a \<and> rc h a < RC_MAX"
  shows "arc_balance h (inorder t) (fst (insertRec (Alloc_Ok u) cmp h t data depth))
    (ins_key key data (inorder t))"
proof -
  have s: "sorted_wrt (<) (map key (inorder t))" using assms(2) by (simp add: search_tree_def)
  have present: "ins_key key data xs = xs"
    if "sorted_wrt (<) (map key xs)" "x \<in> set xs" "key x = key data" for xs x
    using that by (induction xs) fastforce+
  have absent: "mset (ins_key key data xs) = mset (data # xs)" if "\<forall>x \<in> set xs. key x \<noteq> key data" for xs
    using that by (induction xs) auto
  show ?thesis
  proof (cases "\<exists>x \<in> set (inorder t). key x = key data")
    case True
    then show ?thesis using insertRec_inorder [OF assms(1-3), of u h] present [OF s] by auto
  next
    case False
    then have "mset (data # inorder t) = mset (ins_key key data (inorder t))" by (intro absent [symmetric]) blast
    moreover have "arc_balance h (inorder t) (RETAIN h data) (data # inorder t)"
      by (rule arc_balance_RETAIN) (rule assms(4))
    ultimately have "arc_balance h (inorder t) (RETAIN h data) (ins_key key data (inorder t))"
      using arc_balance_mset [OF _ refl] by blast
    then show ?thesis using insertRec_inorder [OF assms(1-3), of u h] False by auto
  qed
qed

context arc_finalizers
begin

text \<open>Every path of \<open>deleteRec\<close> gives back exactly the references of what it takes out.\<close>

lemma deleteRec_balance:
  assumes "owned h (inorder t)" and "\<And>a. rc h a + length (inorder t) < RC_MAX"
  shows "arc_balance h (inorder t) (fst (deleteRec cl cmp h t k depth)) (inorder (snd (deleteRec cl cmp h t k depth)))"
  using assms
proof (induction t arbitrary: h k depth)
  case TNull
  then show ?case by simp
next
  case (TreeNode l d r)
  note own = TreeNode.prems(1) and bound = TreeNode.prems(2)
  have sub: "owned h (inorder l)" "owned h (inorder r)"
    using owned_sub [of h "[]" "inorder l" "d # inorder r"] owned_sub [of h "inorder l @ [d]" "inorder r" "[]"] own
    by simp_all
  have sb: "rc h a + length (inorder l) < RC_MAX" "rc h a + length (inorder r) < RC_MAX" for a
    using bound [of a] by simp_all
  have IHl: "arc_balance h (inorder l) (fst (deleteRec cl cmp h l k (depth + 1)))
      (inorder (snd (deleteRec cl cmp h l k (depth + 1))))"
    by (rule TreeNode.IH(1)) (use sub sb in auto)
  have IHr: "arc_balance h (inorder r) (fst (deleteRec cl cmp h r k (depth + 1)))
      (inorder (snd (deleteRec cl cmp h r k (depth + 1))))"
    by (rule TreeNode.IH(2)) (use sub sb in auto)
  have pos: "0 < rc h a" if "d = Some a" for a using that own by (intro owned_pos) auto
  have del: "arc_balance h (inorder l @ d # inorder r) (RELEASE cl h d) (inorder l @ inorder r)"
    using arc_balance_mset [OF arc_balance_RELEASE [of d h "inorder l @ inorder r"], of "inorder l @ d # inorder r"] pos
    by simp
  show ?case
  proof (cases "depth > MAX_TREE_DEPTH \<or> cmp k d < 0 \<or> cmp k d > 0 \<or> l = TNull \<or> r = TNull")
    case True
    consider "depth > MAX_TREE_DEPTH" | "\<not> depth > MAX_TREE_DEPTH" "cmp k d < 0"
      | "\<not> depth > MAX_TREE_DEPTH" "cmp k d > 0" | "\<not> depth > MAX_TREE_DEPTH" "cmp k d = 0" "l = TNull \<or> r = TNull"
      using True by linarith
    then show ?thesis
    proof cases
      case 2
      with arc_balance_frame [OF IHl, of "[]" "d # inorder r"] show ?thesis by (simp add: split_beta)
    next
      case 3
      with arc_balance_frame [OF IHr, of "inorder l @ [d]" "[]"] show ?thesis by (simp add: split_beta)
    next
      case 4
      with del show ?thesis by (auto simp: split_beta)
    qed simp
  next
    case False
    let ?m = "findMin r" and ?h1 = "RETAIN h (findMin r)"
    let ?h2 = "RELEASE cl ?h1 d"
    have m: "live h a \<and> rc h a < RC_MAX" if "?m = Some a" for a
    proof -
      have "?m \<in> set (inorder r)" using False findMin_inorder [of r] by (metis list.set_intros(1))
      then have "0 < rc h a" using that sub(2) owned_pos by metis
      with bound [of a] show ?thesis by (simp add: rc_pos_live)
    qed
    have b1: "arc_balance h (inorder r) ?h1 (?m # inorder r)" by (rule arc_balance_RETAIN) (rule m)
    have rc1: "rc h a \<le> rc ?h1 a \<and> rc ?h1 a \<le> Suc (rc h a)" for a
      using m by (cases ?m) (auto simp: arc_simps)
    have pos1: "0 < rc ?h1 a" if "d = Some a" for a using pos [OF that] rc1 [of a] by linarith
    have b2: "arc_balance ?h1 (d # xs) ?h2 xs" for xs by (rule arc_balance_RELEASE) (rule pos1)
    have rc2: "rc ?h2 a + count_list [d] (Some a) = rc ?h1 a" for a
      using b2 [of "[]"] by (simp add: arc_balance_def)
    have own2: "owned ?h2 (inorder r)"
      unfolding owned_def
    proof
      fix a
      have "count_list (inorder (TreeNode l d r)) (Some a) \<le> rc h a" using own by (simp only: owned_def)
      then have "count_list (inorder r) (Some a) + count_list [d] (Some a) \<le> rc h a" by (simp split: if_splits)
      with rc2 [of a] rc1 [of a] show "count_list (inorder r) (Some a) \<le> rc ?h2 a" by linarith
    qed
    have bound2: "rc ?h2 a + length (inorder r) < RC_MAX" for a
      using bound [of a] rc1 [of a] rc2 [of a] by simp
    let ?res = "deleteRec cl cmp ?h2 r ?m (depth + 1)"
    have b3: "arc_balance ?h2 (inorder r) (fst ?res) (inorder (snd ?res))"
      by (rule TreeNode.IH(2) [OF own2 bound2])
    have "arc_balance h (inorder l @ d # inorder r) ?h1 (d # inorder l @ ?m # inorder r)"
      using arc_balance_mset [OF arc_balance_frame [OF b1, of "inorder l @ [d]" "[]"],
          of "inorder l @ d # inorder r" "d # inorder l @ ?m # inorder r"] by simp
    moreover have "arc_balance ?h2 (inorder l @ ?m # inorder r) (fst ?res) (inorder l @ ?m # inorder (snd ?res))"
      using arc_balance_frame [OF b3, of "inorder l @ [?m]" "[]"] by simp
    ultimately have "arc_balance h (inorder l @ d # inorder r) (fst ?res) (inorder l @ ?m # inorder (snd ?res))"
      using b2 arc_balance_trans by metis
    moreover have "cmp k d = 0" using False by linarith
    ultimately show ?thesis using False by (simp add: split_beta Let_def)
  qed
qed

end

fun postorder :: "TreeNode \<Rightarrow> ptr list" where
  "postorder TNull = []"
| "postorder (TreeNode l d r) = postorder l @ postorder r @ [d]"

lemma mset_postorder: "mset (postorder t) = mset (inorder t)"
  by (induction t) auto

lemma release_all_append: "release_all cl h (xs @ ys) = release_all cl (release_all cl h xs) ys"
  by (simp add: release_all_def)

lemma freeNodesRecursive_eq: "freeNodesRecursive cl h t = release_all cl h (postorder t)"
  by (induction t arbitrary: h) (auto simp: Let_def release_all_append)

lemma owned_mset: "mset xs = mset ys \<Longrightarrow> owned h xs = owned h ys"
  unfolding owned_def using count_list_mset by metis

section \<open>Runs of tree operations\<close>

datatype tree_cmd = Tr_insert ptr | Tr_remove ptr | Tr_clear

fun tree_exec :: "'p classes \<Rightarrow> 'p heap \<times> Tree \<Rightarrow> tree_cmd \<Rightarrow> 'p heap \<times> Tree" where
  "tree_exec cl (h, t) (Tr_insert x) = Tree_insert (Alloc_Ok ()) h t x"
| "tree_exec cl (h, t) (Tr_remove k) = Tree_remove cl h t k"
| "tree_exec cl (h, t) Tr_clear = Tree_clear cl h t"

fun tree_spec :: "(ptr \<Rightarrow> 'k :: linorder) \<Rightarrow> ptr list \<Rightarrow> tree_cmd \<Rightarrow> ptr list" where
  "tree_spec key xs (Tr_insert x) = ins_key key x xs"
| "tree_spec key xs (Tr_remove k) = del_key key k xs"
| "tree_spec key xs Tr_clear = []"

text \<open>What a run needs: room below the depth limit, counts that cannot overflow, and a caller who
  holds a reference to everything it inserts.\<close>

definition tree_ready :: "(ptr \<Rightarrow> 'k :: linorder) \<Rightarrow> 'p heap \<Rightarrow> Tree \<Rightarrow> tree_cmd list \<Rightarrow> bool" where
  "tree_ready key h t cs \<longleftrightarrow>
     orders (compare_fn t) key \<and> search_tree key (root t) \<and> owned h (inorder (root t))
     \<and> length (inorder (root t)) + length cs \<le> Suc MAX_TREE_DEPTH
     \<and> (\<forall>a. rc h a + length (inorder (root t)) + 2 * length cs < RC_MAX)
     \<and> (\<forall>a. Tr_insert (Some a) \<in> set cs \<longrightarrow> count_list (inorder (root t)) (Some a) < rc h a)"

lemma count_ins_key: "count_list (ins_key key x xs) a \<le> Suc (count_list xs a)"
  by (induction xs) auto

lemma length_ins_key: "length (ins_key key x xs) \<le> Suc (length xs)"
  by (induction xs) auto

lemma tree_spec_bounds:
  "count_list (tree_spec key xs c) a \<le> Suc (count_list xs a)" "length (tree_spec key xs c) \<le> Suc (length xs)"
proof -
  have "count_list (filter P xs) a \<le> Suc (count_list xs a)" for P by (induction xs) auto
  moreover have "length (filter P xs) \<le> Suc (length xs)" for P using length_filter_le [of P xs] by linarith
  ultimately show "count_list (tree_spec key xs c) a \<le> Suc (count_list xs a)"
    "length (tree_spec key xs c) \<le> Suc (length xs)"
    by (cases c; simp add: count_ins_key length_ins_key del_key_def)+
qed

context arc_finalizers
begin

lemma tree_exec_refines:
  assumes "tree_ready key h t (c # cs)" and "tree_exec cl (h, t) c = (h', t')"
  shows "inorder (root t') = tree_spec key (inorder (root t)) c
    \<and> arc_balance h (inorder (root t)) h' (inorder (root t')) \<and> tree_ready key h' t' cs"
proof -
  let ?xs = "inorder (root t)"
  have o: "orders (compare_fn t) key" and st: "search_tree key (root t)" and own: "owned h ?xs"
    and len: "length ?xs + length cs \<le> MAX_TREE_DEPTH" and rcb: "\<And>a. rc h a + length ?xs + 2 * length cs + 2 < RC_MAX"
    and held: "\<And>a. Tr_insert (Some a) \<in> set (c # cs) \<Longrightarrow> count_list ?xs (Some a) < rc h a"
    using assms(1) by (auto simp: tree_ready_def)
  have ht: "height (root t) \<le> MAX_TREE_DEPTH" using height_le_length [of "root t"] len by linarith
  have main: "inorder (root t') = tree_spec key ?xs c \<and> arc_balance h ?xs h' (inorder (root t'))
      \<and> compare_fn t' = compare_fn t"
  proof (cases c)
    case (Tr_insert x)
    have x: "live h a \<and> rc h a < RC_MAX" if "x = Some a" for a
      using held [of a] rcb [of a] that Tr_insert by (auto intro: rc_pos_live)
    show ?thesis
      using insertRec_inorder [OF o st, of 0 x "()" h] insertRec_balance [OF o st, of 0 x h "()"] x ht
        path_len_le_height [of "compare_fn t" "root t" x]
        assms(2) Tr_insert by (auto simp: Tree_insert_def split_beta)
  next
    case (Tr_remove k)
    have "rc h a + length ?xs < RC_MAX" for a using rcb [of a] by linarith
    with Tr_remove assms(2) ht deleteRec_inorder [OF o st, of 0 cl h k]
      deleteRec_balance [OF own, of "compare_fn t" k 0]
    show ?thesis by (auto simp: Tree_remove_def split_beta)
  next
    case Tr_clear
    have "arc_balance h (postorder (root t)) (release_all cl h (postorder (root t))) []"
      by (rule arc_balance_release_all) (use own owned_mset [OF mset_postorder] in blast)
    then have "arc_balance h ?xs (release_all cl h (postorder (root t))) []"
      by (rule arc_balance_mset) (simp_all add: mset_postorder)
    with Tr_clear assms(2) show ?thesis
      by (auto simp: Tree_clear_def freeNodesRecursive_eq split: if_splits)
  qed
  let ?ys = "inorder (root t')"
  have ys: "?ys = tree_spec key ?xs c" and bal: "arc_balance h ?xs h' ?ys" and cmp: "compare_fn t' = compare_fn t"
    using main by blast+
  have "search_tree key (root t')"
  proof (cases c)
    case (Tr_insert x)
    then show ?thesis using ys search_tree_ins [OF st, of x] by (simp add: search_tree_def)
  next
    case (Tr_remove k)
    have "sorted_wrt (<) (map key (filter P zs))" if "sorted_wrt (<) (map key zs)" for P zs
      using that by (induction zs) auto
    then show ?thesis using Tr_remove ys st by (simp add: search_tree_def del_key_def)
  qed (use ys in simp)
  moreover have rc': "rc h' a \<le> Suc (rc h a)" for a
  proof -
    have "rc h' a + count_list ?xs (Some a) = rc h a + count_list ?ys (Some a)"
      using bal by (simp add: arc_balance_def)
    with tree_spec_bounds(1) [of key ?xs c "Some a"] show ?thesis unfolding ys by linarith
  qed
  have len': "length ?ys \<le> Suc (length ?xs)" unfolding ys by (rule tree_spec_bounds(2))
  have "rc h' a + length ?ys + 2 * length cs < RC_MAX" for a
    using rcb [of a] rc' [of a] len' by linarith
  moreover have "count_list ?ys (Some a) < rc h' a" if "Tr_insert (Some a) \<in> set cs" for a
    using arc_balance_others [OF bal own, of a] held [of a] that by simp
  ultimately have "tree_ready key h' t' cs"
    using arc_balance_owned [OF bal own] len len' o cmp
    by (auto simp: tree_ready_def)
  with main show ?thesis by blast
qed

end

fun tree_run :: "'p classes \<Rightarrow> 'p heap \<times> Tree \<Rightarrow> tree_cmd list \<Rightarrow> 'p heap \<times> Tree" where
  "tree_run cl s [] = s"
| "tree_run cl s (c # cs) = tree_run cl (tree_exec cl s c) cs"

context arc_finalizers
begin

lemma tree_run_refines:
  assumes "tree_ready key h t cs" and "tree_run cl (h, t) cs = (h', t')"
  shows "inorder (root t') = foldl (tree_spec key) (inorder (root t)) cs
    \<and> search_tree key (root t') \<and> arc_balance h (inorder (root t)) h' (inorder (root t')) \<and> owned h' (inorder (root t'))"
  using assms
proof (induction cs arbitrary: h t)
  case Nil
  then show ?case by (simp add: tree_ready_def)
next
  case (Cons c cs)
  obtain h1 t1 where e: "tree_exec cl (h, t) c = (h1, t1)" by force
  note r = tree_exec_refines [OF Cons.prems(1) e]
  have "inorder (root t') = foldl (tree_spec key) (inorder (root t1)) cs
      \<and> search_tree key (root t') \<and> arc_balance h1 (inorder (root t1)) h' (inorder (root t')) \<and> owned h' (inorder (root t'))"
    by (rule Cons.IH) (use r Cons.prems(2) e in auto)
  with r show ?case using arc_balance_trans by (metis foldl_Cons)
qed

end

section \<open>Traversals\<close>

lemma foreachRec_inorder: "depth + height t \<le> Suc MAX_TREE_DEPTH \<Longrightarrow> foreachRec t depth = inorder t"
  by (induction t arbitrary: depth) auto

lemma getHeightRec_height: "depth + height t \<le> Suc MAX_TREE_DEPTH \<Longrightarrow> getHeightRec t depth = height t"
  by (induction t arbitrary: depth) (auto simp: Let_def)

text \<open>What an iterator has still to deliver.\<close>

fun stack_rest :: "TreeNode list \<Rightarrow> ptr list" where
  "stack_rest [] = []"
| "stack_rest (TNull # st) = stack_rest st"
| "stack_rest (TreeNode l d r # st) = d # inorder r @ stack_rest st"

definition it_rest :: "TreeIterator \<Rightarrow> ptr list" where
  "it_rest it = inorder (it_current it) @ stack_rest (it_stack it)"

definition it_wf :: "TreeIterator \<Rightarrow> bool" where
  "it_wf it \<longleftrightarrow> TNull \<notin> set (it_stack it)"

lemma push_left_rest:
  "(\<And>i. mem i = Alloc_Ok ()) \<Longrightarrow> stack_rest (push_left mem k st t) = inorder t @ stack_rest st"
  by (induction mem k st t rule: push_left.induct) (simp_all add: push_def)

lemma push_left_wf: "TNull \<notin> set st \<Longrightarrow> TNull \<notin> set (push_left mem k st t)"
  by (induction mem k st t rule: push_left.induct) (auto simp: push_def split: alloc.splits)

lemma hasNext_iff: "it_wf it \<Longrightarrow> TreeIterator_hasNext it \<longleftrightarrow> it_rest it \<noteq> []"
proof -
  assume "it_wf it"
  then have "stack_rest (it_stack it) = [] \<longleftrightarrow> it_stack it = []"
    by (cases "it_stack it" rule: stack_rest.cases) (auto simp: it_wf_def)
  then show ?thesis by (auto simp: TreeIterator_hasNext_def it_rest_def)
qed

lemma next_rest:
  assumes "it_wf it" and "\<And>i. mem i = Alloc_Ok ()" and "it_rest it = x # xs"
  shows "fst (TreeIterator_next mem it) = x \<and> it_rest (snd (TreeIterator_next mem it)) = xs
    \<and> it_wf (snd (TreeIterator_next mem it))"
proof -
  let ?st = "push_left mem 0 (it_stack it) (it_current it)"
  have r: "stack_rest ?st = x # xs" using push_left_rest [OF assms(2)] assms(3) by (simp add: it_rest_def)
  have w: "TNull \<notin> set ?st" using assms(1) by (intro push_left_wf) (simp add: it_wf_def)
  from r w obtain l r' st where "?st = TreeNode l x r' # st" "xs = inorder r' @ stack_rest st" "TNull \<notin> set st"
    by (cases ?st rule: stack_rest.cases) auto
  then show ?thesis by (simp add: TreeIterator_next_def it_rest_def it_wf_def)
qed

text \<open>The loop \<^verbatim>\<open>while (it->hasNext(it)) visit(it->next(it))\<close> of a client, cut off after \<open>n\<close> rounds.\<close>

fun iterate :: "(nat \<Rightarrow> unit alloc) \<Rightarrow> nat \<Rightarrow> TreeIterator \<Rightarrow> ptr list \<times> bool" where
  "iterate mem 0 it = ([], TreeIterator_hasNext it)"
| "iterate mem (Suc n) it =
     (if TreeIterator_hasNext it
      then let (x, it1) = TreeIterator_next mem it; (xs, more) = iterate mem n it1 in (x # xs, more)
      else ([], False))"

lemma iterate_rest:
  assumes "\<And>i. mem i = Alloc_Ok ()" and "it_wf it" and "length (it_rest it) \<le> n"
  shows "iterate mem n it = (it_rest it, False)"
  using assms(2,3)
proof (induction n arbitrary: it)
  case (Suc n)
  show ?case
  proof (cases "it_rest it")
    case (Cons x xs)
    with Suc.IH [of "snd (TreeIterator_next mem it)"] next_rest [OF Suc.prems(1) assms(1) Cons] Suc.prems
    show ?thesis by (simp add: hasNext_iff [OF Suc.prems(1)] split_beta)
  qed (simp add: hasNext_iff [OF Suc.prems(1)])
qed (simp add: hasNext_iff)

text \<open>Level order: the data at depth \<open>k\<close>, from left to right.\<close>

fun level :: "nat \<Rightarrow> TreeNode \<Rightarrow> ptr list" where
  "level k TNull = []"
| "level 0 (TreeNode l d r) = [d]"
| "level (Suc k) (TreeNode l d r) = level k l @ level k r"

fun children :: "TreeNode \<Rightarrow> TreeNode list" where
  "children TNull = []"
| "children (TreeNode l d r) = filter (\<lambda>t. t \<noteq> TNull) [l, r]"

abbreviation seen :: "ptr list \<Rightarrow> ptr list" where
  "seen xs \<equiv> filter (\<lambda>d. d \<noteq> None) xs"

lemma bfs_loop_round:
  assumes "\<And>i. mem i = Alloc_Ok ()"
  shows "\<exists>k'. bfs_loop mem k (ts @ us) =
    seen (concat (map (level 0) ts)) @ bfs_loop mem k' (us @ concat (map children ts))"
proof (induction ts arbitrary: k us)
  case Nil
  then show ?case by auto
next
  case (Cons t ts)
  show ?case
  proof (cases t)
    case TNull
    with Cons.IH [of k us] show ?thesis by simp
  next
    case (TreeNode l d r)
    have "\<exists>k1. bfs_loop mem k (t # ts @ us) = seen [d] @ bfs_loop mem k1 (ts @ us @ children t)"
      by (cases "l = TNull"; cases "r = TNull") (auto simp: enqueue_def assms TreeNode)
    then obtain k1 where k1: "bfs_loop mem k (t # ts @ us) = seen [d] @ bfs_loop mem k1 (ts @ us @ children t)" ..
    from Cons.IH [of k1 "us @ children t"] obtain k' where
      "bfs_loop mem k1 (ts @ us @ children t) =
        seen (concat (map (level 0) ts)) @ bfs_loop mem k' (us @ concat (map children (t # ts)))" by auto
    with k1 TreeNode show ?thesis by auto
  qed
qed

lemma level_children: "concat (map (level k) (children t)) = level (Suc k) t"
  by (cases t) auto

lemma level_Suc_forest:
  "concat (map (level k) (concat (map children ts))) = concat (map (level (Suc k)) ts)"
  by (induction ts) (simp_all add: level_children)

lemma bfs_loop_levels:
  assumes "\<And>i. mem i = Alloc_Ok ()" and "\<forall>t \<in> set ts. height t \<le> n"
  shows "bfs_loop mem k ts = seen (concat (map (\<lambda>i. concat (map (level i) ts)) [0..<n]))"
  using assms(2)
proof (induction n arbitrary: k ts)
  case 0
  then have "\<forall>t \<in> set ts. t = TNull" by (metis height.simps(2) TreeNode.exhaust not_less_eq_eq le_zero_eq zero_less_Suc less_nat_zero_code)
  then show ?case by (induction ts) auto
next
  case (Suc n)
  obtain k' where "bfs_loop mem k ts = seen (concat (map (level 0) ts)) @ bfs_loop mem k' (concat (map children ts))"
    using bfs_loop_round [where mem = mem and k = k and ts = ts and us = "[]"] assms(1) by auto
  moreover have "height c \<le> n" if "t \<in> set ts" "c \<in> set (children t)" for t c
    by (insert that Suc.prems, cases t) (fastforce split: if_splits)+
  then have "\<forall>t \<in> set (concat (map children ts)). height t \<le> n" by auto
  from Suc.IH [OF this, of k']
  have "bfs_loop mem k' (concat (map children ts)) =
      seen (concat (map (\<lambda>i. concat (map (level (Suc i)) ts)) [0..<n]))" by (simp add: level_Suc_forest)
  ultimately show ?case
    by (simp add: upt_conv_Cons map_Suc_upt [symmetric] comp_def del: upt_Suc)
qed

section \<open>Properties\<close>


text \<open>Objects ordered by their addresses, for the witnesses.\<close>

definition addr_key :: "ptr \<Rightarrow> int" where
  "addr_key p = (case p of None \<Rightarrow> - 1 | Some a \<Rightarrow> int a)"

definition addr_cmp :: CompareFunc where
  "addr_cmp a b = addr_key a - addr_key b"

lemma orders_addr: "orders addr_cmp addr_key"
  by (auto simp: orders_def addr_cmp_def)

definition demo_tree :: Tree where
  "demo_tree = \<lparr>root = TreeNode TNull (Some 2) TNull, compare_fn = addr_cmp\<rparr>"


text \<open>The depth limit: an element that is not in the tree is added when the search for its place
  passes at most \<^verbatim>\<open>MAX_TREE_DEPTH\<close> nodes; when it passes more, \<^verbatim>\<open>insert\<close> leaves the tree and the
  reference counts exactly as they were and tells nobody.\<close>

theorem Tree_insert_depth_limit:
  assumes "orders (compare_fn t) key" and "search_tree key (root t)"
    and "\<forall>x \<in> set (inorder (root t)). key x \<noteq> key data"
  shows "(path_len (compare_fn t) (root t) data \<le> MAX_TREE_DEPTH \<longrightarrow>
      inorder (root (snd (Tree_insert (Alloc_Ok ()) h t data))) = ins_key key data (inorder (root t))
      \<and> fst (Tree_insert (Alloc_Ok ()) h t data) = RETAIN h data)
    \<and> (path_len (compare_fn t) (root t) data > MAX_TREE_DEPTH \<longrightarrow> Tree_insert (Alloc_Ok ()) h t data = (h, t))"
  using insertRec_inorder [OF assms(1,2), of 0 data "()" h] assms(3)
    insertRec_beyond [of 0 "compare_fn t" "root t" data "Alloc_Ok ()" h]
  by (auto simp: Tree_insert_def split_beta)

fun right_spine :: "nat \<Rightarrow> nat \<Rightarrow> TreeNode" where
  "right_spine i 0 = TNull"
| "right_spine i (Suc n) = TreeNode TNull (Some i) (right_spine (Suc i) n)"

lemma inorder_right_spine: "inorder (right_spine i n) = map Some [i..<i + n]"
  by (induction n arbitrary: i) (auto simp: upt_conv_Cons simp del: upt_Suc)

lemma path_right_spine: "i + n \<le> x \<Longrightarrow> path_len addr_cmp (right_spine i n) (Some x) = n"
  by (induction n arbitrary: i) (auto simp: addr_cmp_def addr_key_def)

theorem Tree_insert_depth_limit_witness:
  "Tree_insert (Alloc_Ok ()) demo_heap \<lparr>root = right_spine 0 1001, compare_fn = addr_cmp\<rparr> (Some 5000)
     = (demo_heap, \<lparr>root = right_spine 0 1001, compare_fn = addr_cmp\<rparr>)"
proof -
  let ?t = "\<lparr>root = right_spine 0 1001, compare_fn = addr_cmp\<rparr>"
  have "search_tree addr_key (root ?t)" by (simp add: search_tree_def inorder_right_spine comp_def addr_key_def sorted_wrt_map)
  moreover have "\<forall>x \<in> set (inorder (root ?t)). addr_key x \<noteq> addr_key (Some 5000)"
    by (auto simp: inorder_right_spine addr_key_def)
  moreover have "path_len (compare_fn ?t) (root ?t) (Some 5000) > MAX_TREE_DEPTH" by (simp add: path_right_spine)
  ultimately show ?thesis using Tree_insert_depth_limit [of ?t addr_key "Some 5000" demo_heap] orders_addr by simp
qed

text \<open>The traversals agree and terminate: as long as allocations succeed, the iterator delivers the
  in-order contents, each element once, and then reports that nothing is left; \<^verbatim>\<open>foreach\<close> visits the
  same sequence, and \<^verbatim>\<open>getHeight\<close> is the height, for every tree within the depth limit.\<close>

theorem Tree_iterator_inorder:
  assumes "new_TreeIterator (Alloc_Ok ()) t = Some it" and "\<And>i. mem i = Alloc_Ok ()"
    and "height (root t) \<le> Suc MAX_TREE_DEPTH"
  shows "iterate mem (length (inorder (root t))) it = (inorder (root t), False)
    \<and> Tree_foreach t True = inorder (root t) \<and> Tree_getHeight (root t) = height (root t)"
proof -
  have "it_rest it = inorder (root t)" "it_wf it"
    using assms(1) by (auto simp: new_TreeIterator_def it_rest_def it_wf_def)
  with iterate_rest [of mem it] assms(2,3) show ?thesis
    by (simp add: Tree_foreach_def Tree_getHeight_def foreachRec_inorder getHeightRec_height)
qed

theorem Tree_iterator_inorder_witness:
  "iterate (\<lambda>_. Alloc_Ok ()) 3 \<lparr>it_stack = [], it_current = right_spine 4 3\<rparr> = ([Some 4, Some 5, Some 6], False)"
proof -
  let ?t = "\<lparr>root = right_spine 4 3, compare_fn = addr_cmp\<rparr>"
  have i: "inorder (root ?t) = [Some 4, Some 5, Some 6]" by (simp add: inorder_right_spine upt_rec)
  have "height (root ?t) \<le> Suc MAX_TREE_DEPTH" using height_le_length [of "root ?t"] i by simp
  moreover have "new_TreeIterator (Alloc_Ok ()) ?t = Some \<lparr>it_stack = [], it_current = right_spine 4 3\<rparr>"
    by (simp add: new_TreeIterator_def)
  ultimately show ?thesis
    using Tree_iterator_inorder [of ?t _ "\<lambda>_. Alloc_Ok ()"] i by (simp add: numeral_3_eq_3)
qed

text \<open>Breadth-first traversal is the level-order enumeration: with the queue cells allocated,
  \<^verbatim>\<open>traverseBFS\<close> prints the (non-NULL) data of depth 0, then of depth 1 from left to right, and so on.\<close>

theorem Tree_traverseBFS_levels:
  assumes "\<And>i. mem i = Alloc_Ok ()"
  shows "Tree_traverseBFS mem t =
    filter (\<lambda>d. d \<noteq> None) (concat (map (\<lambda>i. level i (root t)) [0..<height (root t)]))"
  using bfs_loop_levels [of mem "[root t]" "height (root t)" 1] assms
  by (auto simp: Tree_traverseBFS_def enqueue_def)

theorem Tree_traverseBFS_levels_witness:
  "Tree_traverseBFS (\<lambda>_. Alloc_Ok ())
     \<lparr>root = TreeNode (TreeNode TNull (Some 1) (TreeNode TNull (Some 2) TNull)) (Some 3) (TreeNode TNull (Some 4) TNull),
      compare_fn = addr_cmp\<rparr> = [Some 3, Some 1, Some 4, Some 2]"
  using Tree_traverseBFS_levels [of "\<lambda>_. Alloc_Ok ()"
      "\<lparr>root = TreeNode (TreeNode TNull (Some 1) (TreeNode TNull (Some 2) TNull)) (Some 3) (TreeNode TNull (Some 4) TNull),
      compare_fn = addr_cmp\<rparr>"]
  by (simp add: upt_rec numeral_2_eq_2)

end
