(* ===== verification/Thread_Pool.thy ===== *)
theory Thread_Pool
  imports Core_Prelude
begin

text \<open>
  \<^verbatim>\<open>src/src/threadpool.c\<close> and \<^verbatim>\<open>src/src/semaphore_obj.c\<close>: a fixed set of workers that take tasks from a queue under a
  mutex and a condition variable, run them under an optional counting semaphore, and leave when the pool
  is stopped and the queue is empty.
  \<^item> The queue and the stop flag are only touched between \<^verbatim>\<open>pthread_mutex_lock\<close> and \<^verbatim>\<open>pthread_mutex_unlock\<close> (or
    \<^verbatim>\<open>pthread_cond_wait\<close>), so each such section is one atomic step; everything else interleaves. The step
    relation \<open>pool_step\<close> has one rule per section, per wake-up and per action outside the lock.
  \<^item> \<^verbatim>\<open>pthread_cond_signal\<close> wakes one waiting worker of the system's choice, if there is one; a worker may also
    wake up without a signal. \<^verbatim>\<open>sem_wait\<close> blocks while the value is 0.
  \<^item> The queue is the FIFO that \<open>Queue_Stack\<close> shows \<^verbatim>\<open>queue.c\<close> to be; a task it has no memory for is dropped.
  \<^item> \<open>tp_accepted\<close>, \<open>tp_taken\<close> and \<open>tp_done\<close> record the history: tasks put into the queue, taken out of it, and
    run.
\<close>

section \<open>State\<close>

text \<open>Where a worker is: before the lock, waiting on the condition, woken but without the lock, holding a task
  before the semaphore, running it, before the \<^verbatim>\<open>post\<close>, or gone.\<close>

datatype 'a worker = W_lock | W_wait | W_woken | W_got 'a | W_run 'a | W_post | W_exit

record 'a ThreadPool =
  tp_workers :: "'a worker list"
  tp_queue :: "'a list"
  tp_stop :: bool
  tp_sem :: "nat option"
  tp_joining :: "nat option"
  tp_accepted :: "'a list"
  tp_taken :: "'a list"
  tp_done :: "'a list"

text \<open>\<open>tp_joining\<close>: how many workers the thread inside \<^verbatim>\<open>shutdown\<close> has joined, if there is one.\<close>

definition new_ThreadPool :: "nat \<Rightarrow> int \<Rightarrow> 'a ThreadPool" where
  "new_ThreadPool num_threads max_resources =
     \<lparr>tp_workers = replicate num_threads W_lock, tp_queue = [], tp_stop = False,
      tp_sem = (if max_resources > 0 then Some (nat max_resources) else None), tp_joining = None,
      tp_accepted = [], tp_taken = [], tp_done = []\<rparr>"

abbreviation set_worker :: "nat \<Rightarrow> 'a worker \<Rightarrow> 'a ThreadPool \<Rightarrow> 'a ThreadPool" where
  "set_worker i w self \<equiv> self\<lparr>tp_workers := (tp_workers self)[i := w]\<rparr>"

section \<open>The atomic sections\<close>

text \<open>\<^verbatim>\<open>Semaphore.tryWait\<close>: the calls \<^verbatim>\<open>EINTR\<close> interrupts are repeated.\<close>

datatype errno = EINTR | EAGAIN | EINVAL

fun Semaphore_tryWait :: "errno list \<Rightarrow> nat \<Rightarrow> bool \<times> nat" where
  "Semaphore_tryWait (e # es) v = (if e = EINTR then Semaphore_tryWait es v else (False, v))"
| "Semaphore_tryWait [] v = (if v > 0 then (True, v - 1) else (False, v))"

text \<open>The waiter a signal wakes.\<close>

definition wakes :: "'a ThreadPool \<Rightarrow> nat option \<Rightarrow> bool" where
  "wakes self w = (case w of
     None \<Rightarrow> W_wait \<notin> set (tp_workers self)
   | Some i \<Rightarrow> i < length (tp_workers self) \<and> tp_workers self ! i = W_wait)"

definition cond_signal :: "nat option \<Rightarrow> 'a ThreadPool \<Rightarrow> 'a ThreadPool" where
  "cond_signal w self = (case w of None \<Rightarrow> self | Some i \<Rightarrow> set_worker i W_woken self)"

definition cond_broadcast :: "'a ThreadPool \<Rightarrow> 'a ThreadPool" where
  "cond_broadcast self = self\<lparr>tp_workers := map (\<lambda>w. if w = W_wait then W_woken else w) (tp_workers self)\<rparr>"

text \<open>\<^verbatim>\<open>impl_submit\<close>; \<open>room\<close> is whether the queue could take the task.\<close>

definition impl_submit :: "bool \<Rightarrow> nat option \<Rightarrow> 'a \<Rightarrow> 'a ThreadPool \<Rightarrow> 'a ThreadPool" where
  "impl_submit room w t self =
     cond_signal w (if room then self\<lparr>tp_queue := tp_queue self @ [t], tp_accepted := tp_accepted self @ [t]\<rparr> else self)"

text \<open>What \<^verbatim>\<open>worker_routine\<close> does while it holds the lock.\<close>

definition worker_section :: "nat \<Rightarrow> 'a ThreadPool \<Rightarrow> 'a ThreadPool" where
  "worker_section i self =
     (if tp_queue self = [] \<and> \<not> tp_stop self then set_worker i W_wait self
      else if tp_stop self \<and> tp_queue self = [] then set_worker i W_exit self
      else (set_worker i (W_got (hd (tp_queue self))) self)
             \<lparr>tp_queue := tl (tp_queue self), tp_taken := tp_taken self @ [hd (tp_queue self)]\<rparr>)"

text \<open>The locked part of \<^verbatim>\<open>impl_shutdown\<close>; the joins follow one by one.\<close>

definition impl_shutdown :: "'a ThreadPool \<Rightarrow> 'a ThreadPool" where
  "impl_shutdown self =
     (if tp_stop self then self
      else (cond_broadcast (self\<lparr>tp_stop := True\<rparr>))\<lparr>tp_joining := Some 0\<rparr>)"

definition impl_getPendingCount :: "'a ThreadPool \<Rightarrow> nat" where
  "impl_getPendingCount self = length (tp_queue self)"

section \<open>Interleaving\<close>

datatype 'a event = Submit 'a bool "nat option" | Shutdown | Join
  | Spurious nat | Section nat | Sem_wait nat | Call nat | Sem_post nat

inductive pool_step :: "'a ThreadPool \<Rightarrow> 'a event \<Rightarrow> 'a ThreadPool \<Rightarrow> bool" where
  submit: "wakes self w \<Longrightarrow> pool_step self (Submit t room w) (impl_submit room w t self)"
| shutdown: "pool_step self Shutdown (impl_shutdown self)"
| join: "tp_joining self = Some k \<Longrightarrow> k < length (tp_workers self) \<Longrightarrow> tp_workers self ! k = W_exit \<Longrightarrow>
    pool_step self Join (self\<lparr>tp_joining := Some (Suc k)\<rparr>)"
| spurious: "i < length (tp_workers self) \<Longrightarrow> tp_workers self ! i = W_wait \<Longrightarrow>
    pool_step self (Spurious i) (set_worker i W_woken self)"
| sect: "i < length (tp_workers self) \<Longrightarrow> tp_workers self ! i \<in> {W_lock, W_woken} \<Longrightarrow>
    pool_step self (Section i) (worker_section i self)"
| sem_none: "i < length (tp_workers self) \<Longrightarrow> tp_workers self ! i = W_got t \<Longrightarrow> tp_sem self = None \<Longrightarrow>
    pool_step self (Sem_wait i) (set_worker i (W_run t) self)"
| sem_some: "i < length (tp_workers self) \<Longrightarrow> tp_workers self ! i = W_got t \<Longrightarrow> tp_sem self = Some (Suc v) \<Longrightarrow>
    pool_step self (Sem_wait i) ((set_worker i (W_run t) self)\<lparr>tp_sem := Some v\<rparr>)"
| call: "i < length (tp_workers self) \<Longrightarrow> tp_workers self ! i = W_run t \<Longrightarrow>
    pool_step self (Call i) ((set_worker i W_post self)\<lparr>tp_done := tp_done self @ [t]\<rparr>)"
| post: "i < length (tp_workers self) \<Longrightarrow> tp_workers self ! i = W_post \<Longrightarrow>
    pool_step self (Sem_post i) ((set_worker i W_lock self)\<lparr>tp_sem := map_option Suc (tp_sem self)\<rparr>)"

inductive_cases pool_stepE: "pool_step s e s1"

text \<open>The steps the pool's own threads take, without counting on wake-ups that nobody signalled.\<close>

fun own :: "'a event \<Rightarrow> bool" where
  "own (Submit _ _ _) = False" | "own Shutdown = False" | "own (Spurious _) = False" | "own _ = True"

inductive reachable :: "nat \<Rightarrow> int \<Rightarrow> 'a ThreadPool \<Rightarrow> bool" for n r where
  init: "reachable n r (new_ThreadPool n r)"
| step: "reachable n r s \<Longrightarrow> pool_step s e s1 \<Longrightarrow> reachable n r s1"

text \<open>\<open>steps k s s'\<close>: a run of \<open>k\<close> steps of the pool's own.\<close>

inductive steps :: "nat \<Rightarrow> 'a ThreadPool \<Rightarrow> 'a ThreadPool \<Rightarrow> bool" where
  refl: "steps 0 s s"
| step: "pool_step s e s1 \<Longrightarrow> own e \<Longrightarrow> steps k s1 s2 \<Longrightarrow> steps (Suc k) s s2"

text \<open>\<^verbatim>\<open>impl_parallel_for\<close> is one \<^verbatim>\<open>submit\<close> per element, in order; other steps may come between them.\<close>

inductive impl_parallel_for :: "('b \<Rightarrow> 'a) \<Rightarrow> 'b list \<Rightarrow> 'a ThreadPool \<Rightarrow> 'a ThreadPool \<Rightarrow> bool" for action where
  pf_done: "impl_parallel_for action [] self self"
| pf_submit: "pool_step self (Submit (action x) room w) s1 \<Longrightarrow> impl_parallel_for action xs s1 s2 \<Longrightarrow>
    impl_parallel_for action (x # xs) self s2"
| pf_other: "pool_step self e s1 \<Longrightarrow> impl_parallel_for action xs s1 s2 \<Longrightarrow> impl_parallel_for action xs self s2"

section \<open>Invariants\<close>

fun held :: "'a worker \<Rightarrow> 'a list" where
  "held (W_got t) = [t]" | "held (W_run t) = [t]" | "held _ = []"

fun inside :: "'a worker \<Rightarrow> bool" where
  "inside (W_run _) = True" | "inside W_post = True" | "inside _ = False"

definition woken :: "'a ThreadPool \<Rightarrow> nat" where
  "woken s = length (filter (\<lambda>w. w = W_woken) (tp_workers s))"

definition using_resource :: "'a ThreadPool \<Rightarrow> nat" where
  "using_resource s = length (filter inside (tp_workers s))"

definition pool_inv :: "nat \<Rightarrow> int \<Rightarrow> 'a ThreadPool \<Rightarrow> bool" where
  "pool_inv n r s \<longleftrightarrow> length (tp_workers s) = n
     \<and> tp_taken s @ tp_queue s = tp_accepted s
     \<and> mset (tp_taken s) = mset (tp_done s) + mset (concat (map held (tp_workers s)))
     \<and> (case tp_sem s of None \<Rightarrow> r \<le> 0 | Some v \<Rightarrow> 0 < r \<and> v + using_resource s = nat r)
     \<and> (W_wait \<in> set (tp_workers s) \<longrightarrow> \<not> tp_stop s \<and> length (tp_queue s) \<le> woken s)
     \<and> (W_exit \<in> set (tp_workers s) \<longrightarrow> tp_stop s)
     \<and> (case tp_joining s of None \<Rightarrow> \<not> tp_stop s
        | Some k \<Rightarrow> tp_stop s \<and> k \<le> n \<and> (\<forall>i < k. tp_workers s ! i = W_exit))"

text \<open>Counting over an updated list.\<close>

lemma filter_length_update:
  assumes "i < length ws"
  shows "length (filter P (ws[i := w])) + (if P (ws ! i) then 1 else 0) = length (filter P ws) + (if P w then 1 else 0)"
proof -
  have "length (filter P ws) = length (filter P (take i ws @ ws ! i # drop (Suc i) ws))"
    using assms by (simp add: id_take_nth_drop [symmetric])
  then show ?thesis using assms by (simp add: upd_conv_take_nth_drop)
qed

lemma held_update:
  assumes "i < length ws"
  shows "mset (concat (map held (ws[i := w]))) + mset (held (ws ! i)) = mset (concat (map held ws)) + mset (held w)"
proof -
  have "mset (concat (map held ws)) = mset (concat (map held (take i ws @ ws ! i # drop (Suc i) ws)))"
    using assms by (simp add: id_take_nth_drop [symmetric])
  then show ?thesis using assms by (simp add: upd_conv_take_nth_drop)
qed

lemma set_update_other: "x \<in> set (ws[i := w]) \<Longrightarrow> x \<noteq> w \<Longrightarrow> x \<in> set ws"
  using set_update_subset_insert by fast

lemma held_wake [simp]: "held (if w = W_wait then W_woken else w) = held w"
  by simp

lemma inside_wake [simp]: "inside (if w = W_wait then W_woken else w) = inside w"
  by simp

text \<open>Replacing one worker's state keeps the parts of the invariant that count workers.\<close>

lemma woken_set_worker:
  "i < length (tp_workers s) \<Longrightarrow>
     woken (set_worker i w s) + (if tp_workers s ! i = W_woken then 1 else 0) = woken s + (if w = W_woken then 1 else 0)"
  unfolding woken_def using filter_length_update [of i "tp_workers s" "\<lambda>w. w = W_woken" w] by simp

lemma using_set_worker:
  "i < length (tp_workers s) \<Longrightarrow>
     using_resource (set_worker i w s) + (if inside (tp_workers s ! i) then 1 else 0)
       = using_resource s + (if inside w then 1 else 0)"
  unfolding using_resource_def using filter_length_update [of i "tp_workers s" inside w] by simp

lemma pool_inv_init: "pool_inv n r (new_ThreadPool n r)"
  by (auto simp: pool_inv_def new_ThreadPool_def using_resource_def)

lemma signal_inv:
  assumes "pool_inv n r s" "wakes s w"
  shows "pool_inv n r (cond_signal w s)" and "W_wait \<in> set (tp_workers (cond_signal w s)) \<Longrightarrow> length (tp_queue s) < woken (cond_signal w s)"
proof -
  show "pool_inv n r (cond_signal w s)"
  proof (cases w)
    case (Some i)
    with assms(2) have i: "i < length (tp_workers s)" "tp_workers s ! i = W_wait" by (auto simp: wakes_def)
    have st: "\<not> tp_stop s" using assms(1) i nth_mem by (fastforce simp: pool_inv_def)
    show ?thesis
      using assms(1) st i held_update [OF i(1), of W_woken] woken_set_worker [OF i(1), of W_woken] using_set_worker [OF i(1), of W_woken]
      by (auto simp: pool_inv_def cond_signal_def Some nth_list_update
          dest: set_update_other split: option.splits)
  qed (simp add: cond_signal_def assms)
  show "length (tp_queue s) < woken (cond_signal w s)" if "W_wait \<in> set (tp_workers (cond_signal w s))"
  proof (cases w)
    case None
    with that assms(2) show ?thesis by (simp add: wakes_def cond_signal_def)
  next
    case (Some i)
    with assms(2) have i: "i < length (tp_workers s)" "tp_workers s ! i = W_wait" by (auto simp: wakes_def)
    have "length (tp_queue s) \<le> woken s" using assms(1) i nth_mem by (fastforce simp: pool_inv_def)
    with woken_set_worker [OF i(1), of W_woken] i(2) show ?thesis by (simp add: cond_signal_def Some)
  qed
qed

lemma cond_signal_simps [simp]:
  "tp_queue (cond_signal w s) = tp_queue s" "tp_accepted (cond_signal w s) = tp_accepted s"
  "tp_taken (cond_signal w s) = tp_taken s" "tp_done (cond_signal w s) = tp_done s"
  "tp_stop (cond_signal w s) = tp_stop s" "tp_sem (cond_signal w s) = tp_sem s" "tp_joining (cond_signal w s) = tp_joining s"
  by (simp_all add: cond_signal_def split: option.splits)

lemma submit_alt:
  "impl_submit True w t s = (cond_signal w s)\<lparr>tp_queue := tp_queue s @ [t], tp_accepted := tp_accepted s @ [t]\<rparr>"
  by (simp add: impl_submit_def cond_signal_def split: option.splits)

lemma submit_inv:
  assumes "pool_inv n r s" "wakes s w"
  shows "pool_inv n r (impl_submit room w t s)"
proof (cases room)
  case True
  show ?thesis using signal_inv [OF assms] True
    by (auto simp: submit_alt pool_inv_def woken_def using_resource_def split: option.splits)
next
  case False
  with signal_inv(1) [OF assms] show ?thesis by (simp add: impl_submit_def)
qed

lemma shutdown_inv: "pool_inv n r s \<Longrightarrow> pool_inv n r (impl_shutdown s)"
  by (auto simp: impl_shutdown_def cond_broadcast_def pool_inv_def using_resource_def filter_map comp_def
      split: option.splits)

lemma section_inv:
  assumes "pool_inv n r s" "i < length (tp_workers s)" "tp_workers s ! i \<in> {W_lock, W_woken}"
  shows "pool_inv n r (worker_section i s)"
proof -
  have no_exit: "tp_joining s = Some k \<Longrightarrow> \<not> i < k" for k
    using assms by (auto simp: pool_inv_def)
  note u = held_update [OF assms(2)] woken_set_worker [OF assms(2)] using_set_worker [OF assms(2)]
  consider (wait) "tp_queue s = []" "\<not> tp_stop s" | (exit) "tp_queue s = []" "tp_stop s" | (take) t q where "tp_queue s = t # q"
    by (cases "tp_queue s") auto
  then show ?thesis
  proof cases
    case wait
    then show ?thesis using assms no_exit u [of W_wait]
      by (auto simp: pool_inv_def worker_section_def nth_list_update dest: set_update_other split: option.splits)
  next
    case exit
    then show ?thesis using assms no_exit u [of W_exit]
      by (auto simp: pool_inv_def worker_section_def nth_list_update dest: set_update_other split: option.splits)
  next
    case (take t q)
    let ?s = "(set_worker i (W_got t) s)\<lparr>tp_queue := q, tp_taken := tp_taken s @ [t]\<rparr>"
    have eq: "worker_section i s = ?s" using take by (auto simp: worker_section_def)
    have k: "woken ?s = woken (set_worker i (W_got t) s)" "using_resource ?s = using_resource (set_worker i (W_got t) s)"
      by (simp_all add: woken_def using_resource_def)
    show ?thesis unfolding eq using assms no_exit u [of "W_got t"] take k
      by (auto simp: pool_inv_def nth_list_update dest: set_update_other split: option.splits)
  qed
qed

lemma pool_inv_step:
  assumes "pool_inv n r s" "pool_step s e s1"
  shows "pool_inv n r s1"
  using assms(2)
proof cases
  case (submit w t room)
  with submit_inv [OF assms(1)] show ?thesis by simp
next
  case shutdown
  with shutdown_inv [OF assms(1)] show ?thesis by simp
next
  case (join k)
  let ?s = "s\<lparr>tp_joining := Some (Suc k)\<rparr>"
  have eq: "woken ?s = woken s" "using_resource ?s = using_resource s"
    by (simp_all add: woken_def using_resource_def)
  show ?thesis using assms(1) join eq by (auto simp: pool_inv_def less_Suc_eq split: option.splits)
next
  case (spurious i)
  then have "wakes s (Some i)" "s1 = cond_signal (Some i) s" by (simp_all add: wakes_def cond_signal_def)
  with signal_inv(1) [OF assms(1)] show ?thesis by simp
next
  case (sect i)
  with section_inv [OF assms(1)] show ?thesis by simp
next
  case (sem_none i t)
  then show ?thesis
    using assms(1) held_update [OF sem_none(3), of "W_run t"] woken_set_worker [OF sem_none(3), of "W_run t"]
    by (auto simp: pool_inv_def nth_list_update dest: set_update_other split: option.splits)
next
  case (sem_some i t v)
  let ?s = "(set_worker i (W_run t) s)\<lparr>tp_sem := Some v\<rparr>"
  have k: "woken ?s = woken (set_worker i (W_run t) s)" "using_resource ?s = using_resource (set_worker i (W_run t) s)"
    by (simp_all add: woken_def using_resource_def)
  show ?thesis
    using assms(1) sem_some held_update [OF sem_some(3), of "W_run t"] woken_set_worker [OF sem_some(3), of "W_run t"]
      using_set_worker [OF sem_some(3), of "W_run t"] k
    by (auto simp: pool_inv_def nth_list_update dest: set_update_other split: option.splits)
next
  case (call i t)
  let ?s = "(set_worker i W_post s)\<lparr>tp_done := tp_done s @ [t]\<rparr>"
  have k: "woken ?s = woken (set_worker i W_post s)" "using_resource ?s = using_resource (set_worker i W_post s)"
    by (simp_all add: woken_def using_resource_def)
  show ?thesis
    using assms(1) call held_update [OF call(3), of W_post] woken_set_worker [OF call(3), of W_post]
      using_set_worker [OF call(3), of W_post] k
    by (auto simp: pool_inv_def nth_list_update dest: set_update_other split: option.splits)
next
  case (post i)
  let ?s = "(set_worker i W_lock s)\<lparr>tp_sem := map_option Suc (tp_sem s)\<rparr>"
  have k: "woken ?s = woken (set_worker i W_lock s)" "using_resource ?s = using_resource (set_worker i W_lock s)"
    by (simp_all add: woken_def using_resource_def)
  show ?thesis
    using assms(1) post held_update [OF post(3), of W_lock] woken_set_worker [OF post(3), of W_lock]
      using_set_worker [OF post(3), of W_lock] k
    by (auto simp: pool_inv_def nth_list_update dest: set_update_other split: option.splits)
qed

lemma reachable_inv: "reachable n r s \<Longrightarrow> pool_inv n r s"
  by (induction rule: reachable.induct) (auto simp: pool_inv_init intro: pool_inv_step)

section \<open>Progress\<close>

text \<open>What is left to do: queued tasks, and the steps each worker still has to take.\<close>

fun work :: "'a worker \<Rightarrow> nat" where
  "work (W_got _) = 4" | "work (W_run _) = 3" | "work W_post = 2" | "work W_lock = 1" | "work W_woken = 1"
| "work W_wait = 0" | "work W_exit = 0"

definition remaining :: "'a ThreadPool \<Rightarrow> nat" where
  "remaining s = 4 * length (tp_queue s) + sum_list (map work (tp_workers s))
     + (case tp_joining s of None \<Rightarrow> 0 | Some k \<Rightarrow> length (tp_workers s) - k)"

lemma work_update:
  assumes "i < length ws"
  shows "sum_list (map work (ws[i := w])) + work (ws ! i) = sum_list (map work ws) + work w"
proof -
  have "sum_list (map work ws) = sum_list (map work (take i ws @ ws ! i # drop (Suc i) ws))"
    using assms by (simp add: id_take_nth_drop [symmetric])
  then show ?thesis using assms by (simp add: upd_conv_take_nth_drop)
qed

lemma no_waiters: "pool_inv n r s \<Longrightarrow> tp_stop s \<Longrightarrow> i < length (tp_workers s) \<Longrightarrow> tp_workers s ! i \<noteq> W_wait"
  using nth_mem by (fastforce simp: pool_inv_def)

text \<open>Every step of the pool's own leaves less to do.\<close>

lemma remaining_step:
  assumes "pool_step s e s1" "own e"
  shows "remaining s1 < remaining s \<and> tp_stop s1 = tp_stop s \<and> tp_accepted s1 = tp_accepted s"
  using assms(1)
proof cases
  case (sect i)
  have one: "work (tp_workers s ! i) = 1" using sect(4) by auto
  show ?thesis
  proof (cases "tp_queue s")
    case Nil
    with sect one work_update [OF sect(3), of W_exit] work_update [OF sect(3), of W_wait] show ?thesis
      by (simp add: worker_section_def remaining_def split: option.splits)
  next
    case (Cons t q)
    with sect one work_update [OF sect(3), of "W_got t"] show ?thesis
      by (simp add: worker_section_def remaining_def split: option.splits)
  qed
next
  case (call i t)
  with work_update [OF call(3), of W_post] show ?thesis
    by (simp add: remaining_def split: option.splits)
next
  case (post i)
  with work_update [OF post(3), of W_lock] show ?thesis
    by (simp add: remaining_def split: option.splits)
next
  case (sem_none i t)
  with work_update [OF sem_none(3), of "W_run t"] show ?thesis
    by (simp add: remaining_def split: option.splits)
next
  case (sem_some i t v)
  with work_update [OF sem_some(3), of "W_run t"] show ?thesis
    by (simp add: remaining_def split: option.splits)
qed (use assms(2) in \<open>auto simp: remaining_def\<close>)

lemma steps_remaining:
  assumes "steps k s s'" "pool_inv n r s"
  shows "k + remaining s' \<le> remaining s \<and> tp_accepted s' = tp_accepted s \<and> tp_stop s' = tp_stop s \<and> pool_inv n r s'"
  using assms
proof (induction rule: steps.induct)
  case (step s e s1 k s2)
  from remaining_step [OF step.hyps(1,2)] pool_inv_step [OF step.prems step.hyps(1)] step.IH
  show ?case by simp
qed simp

text \<open>A worker that is neither waiting nor gone can move, unless it waits for the semaphore; then another worker
  is inside it.\<close>

definition stuck :: "'a ThreadPool \<Rightarrow> bool" where
  "stuck s \<longleftrightarrow> (\<nexists>e s1. pool_step s e s1 \<and> own e)"

lemma not_stuck: "pool_step s e s1 \<Longrightarrow> own e \<Longrightarrow> \<not> stuck s"
  by (auto simp: stuck_def)

lemma stuck_idle:
  assumes "stuck s" "j < length (tp_workers s)"
  shows "tp_workers s ! j \<in> {W_exit, W_wait} \<union> range W_got"
proof (cases "tp_workers s ! j")
  case W_lock
  then show ?thesis using not_stuck [OF pool_step.sect [OF assms(2)]] assms(1) by simp
next
  case W_woken
  then show ?thesis using not_stuck [OF pool_step.sect [OF assms(2)]] assms(1) by simp
next
  case (W_run t)
  then show ?thesis using not_stuck [OF pool_step.call [OF assms(2) W_run]] assms(1) by simp
next
  case W_post
  then show ?thesis using not_stuck [OF pool_step.post [OF assms(2) W_post]] assms(1) by simp
qed auto

lemma stuck_worker:
  assumes inv: "pool_inv n r s" and st: "stuck s" and i: "i < length (tp_workers s)"
  shows "tp_workers s ! i \<in> {W_exit, W_wait}"
proof (rule ccontr)
  assume "tp_workers s ! i \<notin> {W_exit, W_wait}"
  with stuck_idle [OF st i] obtain t where t: "tp_workers s ! i = W_got t" by auto
  have "\<not> inside (tp_workers s ! j)" if "j < length (tp_workers s)" for j
    using stuck_idle [OF st that] by auto
  then have "filter inside (tp_workers s) = []" by (auto simp: filter_empty_conv in_set_conv_nth)
  then have use: "using_resource s = 0" by (simp add: using_resource_def)
  show False
  proof (cases "tp_sem s")
    case None
    with not_stuck [OF pool_step.sem_none [OF i t]] st show False by simp
  next
    case (Some v)
    with inv use have "v \<noteq> 0" by (auto simp: pool_inv_def)
    then obtain u where "tp_sem s = Some (Suc u)" using Some by (cases v) auto
    with not_stuck [OF pool_step.sem_some [OF i t]] st show False by simp
  qed
qed

lemma stuck_running_empty:
  assumes inv: "pool_inv n r s" and st: "stuck s" and "\<not> tp_stop s" "0 < n"
  shows "tp_queue s = []"
proof -
  have w: "tp_workers s ! j = W_wait" if "j < length (tp_workers s)" for j
    using stuck_worker [OF inv st that] inv \<open>\<not> tp_stop s\<close> nth_mem [OF that] by (auto simp: pool_inv_def)
  then have "woken s = 0" by (auto simp: woken_def filter_empty_conv in_set_conv_nth)
  moreover have len: "0 < length (tp_workers s)" using inv \<open>0 < n\<close> by (auto simp: pool_inv_def)
  have "W_wait \<in> set (tp_workers s)" using w [OF len] nth_mem [OF len] by simp
  ultimately show ?thesis using inv by (auto simp: pool_inv_def)
qed

lemma stuck_stopped:
  assumes inv: "pool_inv n r s" and st: "stuck s" and stop: "tp_stop s"
  shows "set (tp_workers s) \<subseteq> {W_exit}"
  using stuck_worker [OF inv st] no_waiters [OF inv stop] by (auto simp: in_set_conv_nth)

text \<open>A stopped pool in which a worker has left has an empty queue only as long as nobody submits; while no
  task comes in after the stop, the last worker leaves an empty queue behind.\<close>

definition drained :: "'a ThreadPool \<Rightarrow> bool" where
  "drained s \<longleftrightarrow> (W_exit \<in> set (tp_workers s) \<longrightarrow> tp_queue s = [])"

lemma drained_step:
  assumes "drained s" "pool_step s e s1" "own e"
  shows "drained s1"
  using assms(2)
proof cases
  case (sect i)
  then show ?thesis using assms(1)
    by (auto simp: drained_def worker_section_def dest!: set_update_other)
qed (use assms(1,3) in \<open>auto simp: drained_def dest!: set_update_other\<close>)

lemma drained_run: "steps k s s' \<Longrightarrow> drained s \<Longrightarrow> drained s'"
  by (induction rule: steps.induct) (auto intro: drained_step)

lemma drained_shutdown: "pool_inv n r s \<Longrightarrow> \<not> tp_stop s \<Longrightarrow> drained (impl_shutdown s)"
  by (auto simp: drained_def pool_inv_def impl_shutdown_def cond_broadcast_def split: if_splits)

lemma stuck_held:
  assumes "pool_inv n r s" "stuck s"
  shows "concat (map held (tp_workers s)) = []"
  using stuck_worker [OF assms] by (fastforce simp: in_set_conv_nth)

lemma stuck_done: "pool_inv n r s \<Longrightarrow> stuck s \<Longrightarrow> tp_queue s = [] \<Longrightarrow> mset (tp_done s) = mset (tp_accepted s)"
  using stuck_held [of n r s] by (auto simp: pool_inv_def)

lemma stuck_joined:
  assumes inv: "pool_inv n r s" and st: "stuck s" and stop: "tp_stop s"
  shows "tp_joining s = Some n"
proof (cases "tp_joining s")
  case None
  with inv stop show ?thesis by (simp add: pool_inv_def)
next
  case (Some k)
  with inv have k: "k \<le> n" "length (tp_workers s) = n" by (auto simp: pool_inv_def)
  have "\<not> k < n"
  proof
    assume "k < n"
    then have "tp_workers s ! k \<in> set (tp_workers s)" using k by simp
    then have "tp_workers s ! k = W_exit" using stuck_stopped [OF inv st stop] by blast
    with not_stuck [OF pool_step.join [OF Some]] \<open>k < n\<close> k st show False by simp
  qed
  with Some k show ?thesis by simp
qed

section \<open>Theorems\<close>

text \<open>(C23) In every interleaving of submits, shutdowns, wake-ups and worker steps, each accepted task is in exactly
  one place: run, in the hands of one worker, or in the queue; tasks leave the queue in the order in which
  they were submitted, and no more than \<^verbatim>\<open>max_resources\<close> workers are between the \<^verbatim>\<open>wait\<close> and the \<^verbatim>\<open>post\<close> of the
  semaphore.\<close>

theorem ThreadPool_exactly_once:
  assumes "reachable n r s"
  shows "tp_taken s @ tp_queue s = tp_accepted s
    \<and> mset (tp_accepted s) = mset (tp_done s) + mset (concat (map held (tp_workers s))) + mset (tp_queue s)
    \<and> length (tp_workers s) = n
    \<and> (0 < r \<longrightarrow> length (filter inside (tp_workers s)) \<le> nat r)"
proof -
  have inv: "pool_inv n r s" by (rule reachable_inv [OF assms])
  then have "mset (tp_accepted s) = mset (tp_taken s) + mset (tp_queue s)"
    unfolding pool_inv_def by (metis mset_append)
  with inv show ?thesis by (auto simp: pool_inv_def using_resource_def split: option.splits)
qed

text \<open>A pool of one worker with one resource that accepted one task.\<close>

lemma one_task_reachable: "reachable 1 1 (impl_submit True None (7::nat) (new_ThreadPool 1 1))"
  by (rule reachable.step [OF reachable.init pool_step.submit]) (simp add: wakes_def new_ThreadPool_def)

theorem ThreadPool_exactly_once_witness:
  "mset (tp_accepted (impl_submit True None (7::nat) (new_ThreadPool 1 1))) = {#7#}
   \<and> length (tp_workers (impl_submit True None (7::nat) (new_ThreadPool 1 1))) = 1"
  using ThreadPool_exactly_once [OF one_task_reachable]
  by (simp add: impl_submit_def cond_signal_def new_ThreadPool_def)

text \<open>(C24) No wake-up is lost and no deadlock is possible: from any reachable state of a running pool, however the
  workers interleave and even if no worker ever wakes without a signal, the pool's own steps come to an end
  after at most \<open>remaining\<close> of them, and then every accepted task has been run.\<close>

theorem ThreadPool_runs_every_task:
  assumes "reachable n r s" "0 < n" "\<not> tp_stop s" "steps k s s'"
  shows "k \<le> remaining s \<and> (stuck s' \<longrightarrow> tp_queue s' = [] \<and> mset (tp_done s') = mset (tp_accepted s))"
proof -
  have inv: "pool_inv n r s" by (rule reachable_inv [OF assms(1)])
  note run = steps_remaining [OF assms(4) inv]
  have "tp_queue s' = []" if "stuck s'" using stuck_running_empty [of n r s'] run assms(2,3) that by blast
  with run stuck_done [of n r s'] show ?thesis by auto
qed

definition one_task_final :: "nat ThreadPool" where
  "one_task_final = \<lparr>tp_workers = [W_wait], tp_queue = [], tp_stop = False, tp_sem = Some 1, tp_joining = None,
     tp_accepted = [7], tp_taken = [7], tp_done = [7]\<rparr>"

text \<open>The five steps the worker takes for it; \<open>j\<close> is the state of the joins.\<close>

lemma one_task_serve:
  assumes "steps k \<lparr>tp_workers = [W_lock], tp_queue = [], tp_stop = b, tp_sem = Some 1, tp_joining = j,
     tp_accepted = [7::nat], tp_taken = [7], tp_done = [7]\<rparr> s"
  shows "steps (Suc (Suc (Suc (Suc k)))) \<lparr>tp_workers = [W_lock], tp_queue = [7], tp_stop = b, tp_sem = Some 1,
     tp_joining = j, tp_accepted = [7], tp_taken = [], tp_done = []\<rparr> s"
  apply (rule steps.step [OF pool_step.sect [of 0]], simp, simp, simp, simp add: worker_section_def)
  apply (rule steps.step [OF pool_step.sem_some [of 0 _ 7 0]], simp, simp, simp, simp, simp)
  apply (rule steps.step [OF pool_step.call [of 0 _ 7]], simp, simp, simp, simp)
  apply (rule steps.step [OF pool_step.post [of 0]], simp, simp, simp)
  using assms apply simp
  done

lemma one_task_run: "steps 5 (impl_submit True None (7::nat) (new_ThreadPool 1 1)) one_task_final"
proof -
  have "steps (Suc 0) \<lparr>tp_workers = [W_lock], tp_queue = [], tp_stop = False, tp_sem = Some 1, tp_joining = None,
     tp_accepted = [7::nat], tp_taken = [7], tp_done = [7]\<rparr> one_task_final"
    by (rule steps.step [OF pool_step.sect [of 0]]) (simp_all add: worker_section_def one_task_final_def steps.refl)
  from one_task_serve [OF this] show ?thesis
    by (simp add: impl_submit_def cond_signal_def new_ThreadPool_def numeral_eq_Suc)
qed

lemma one_task_stuck: "stuck one_task_final"
  by (auto simp: stuck_def one_task_final_def elim!: pool_step.cases)

theorem ThreadPool_runs_every_task_witness:
  "mset (tp_done one_task_final) = {#7#} \<and> 5 \<le> remaining (impl_submit True None (7::nat) (new_ThreadPool 1 1))"
  using ThreadPool_runs_every_task [OF one_task_reachable _ _ one_task_run] one_task_stuck
  by (simp add: impl_submit_def cond_signal_def new_ThreadPool_def)

text \<open>(C25) \<^verbatim>\<open>shutdown\<close> drains the pool and returns: as long as nothing is submitted after it, every run of the pool's
  own steps is bounded, and it can only end with all workers gone and joined, the queue empty and every task
  accepted before the call run.\<close>

theorem ThreadPool_shutdown_drains:
  assumes "reachable n r s" "0 < n" "\<not> tp_stop s" "steps k (impl_shutdown s) s'"
  shows "k \<le> remaining (impl_shutdown s)
    \<and> (stuck s' \<longrightarrow> set (tp_workers s') = {W_exit} \<and> tp_joining s' = Some n \<and> tp_queue s' = []
         \<and> mset (tp_done s') = mset (tp_accepted s))"
proof -
  have inv0: "pool_inv n r s" by (rule reachable_inv [OF assms(1)])
  have inv: "pool_inv n r (impl_shutdown s)" by (rule shutdown_inv [OF inv0])
  have acc: "tp_accepted (impl_shutdown s) = tp_accepted s" "tp_stop (impl_shutdown s)"
    using assms(3) by (simp_all add: impl_shutdown_def cond_broadcast_def)
  note run = steps_remaining [OF assms(4) inv]
  have inv1: "pool_inv n r s'" "tp_stop s'" using run acc by auto
  have "set (tp_workers s') = {W_exit} \<and> tp_joining s' = Some n \<and> tp_queue s' = [] \<and> mset (tp_done s') = mset (tp_accepted s)"
    if st: "stuck s'"
  proof -
    have ne: "tp_workers s' \<noteq> []" using inv1(1) assms(2) by (auto simp: pool_inv_def)
    then have ex: "set (tp_workers s') = {W_exit}" using stuck_stopped [OF inv1(1) st inv1(2)] by (cases "tp_workers s'") auto
    have q: "tp_queue s' = []" using drained_run [OF assms(4) drained_shutdown [OF inv0 assms(3)]] ex
      by (simp add: drained_def)
    from ex q stuck_joined [OF inv1(1) st inv1(2)] stuck_done [OF inv1(1) st q] run acc show ?thesis by simp
  qed
  with run show ?thesis by simp
qed

definition one_task_joined :: "nat ThreadPool" where
  "one_task_joined = \<lparr>tp_workers = [W_exit], tp_queue = [], tp_stop = True, tp_sem = Some 1, tp_joining = Some 1,
     tp_accepted = [7], tp_taken = [7], tp_done = [7]\<rparr>"

lemma one_task_join_run: "steps 6 (impl_shutdown (impl_submit True None (7::nat) (new_ThreadPool 1 1))) one_task_joined"
proof -
  have "steps (Suc (Suc 0)) \<lparr>tp_workers = [W_lock], tp_queue = [], tp_stop = True, tp_sem = Some 1, tp_joining = Some 0,
     tp_accepted = [7::nat], tp_taken = [7], tp_done = [7]\<rparr> one_task_joined"
    apply (rule steps.step [OF pool_step.sect [of 0]], simp, simp, simp, simp add: worker_section_def)
    apply (rule steps.step [OF pool_step.join [of _ 0]])
    apply (simp_all add: one_task_joined_def steps.refl)
    done
  from one_task_serve [OF this] show ?thesis
    by (simp add: impl_shutdown_def cond_broadcast_def impl_submit_def cond_signal_def new_ThreadPool_def numeral_eq_Suc)
qed

lemma one_task_joined_stuck: "stuck one_task_joined"
  by (auto simp: stuck_def one_task_joined_def elim!: pool_step.cases)

theorem ThreadPool_shutdown_drains_witness:
  "mset (tp_done one_task_joined) = {#7#} \<and> tp_joining one_task_joined = Some 1
   \<and> 6 \<le> remaining (impl_shutdown (impl_submit True None (7::nat) (new_ThreadPool 1 1)))"
  using ThreadPool_shutdown_drains [OF one_task_reachable _ _ one_task_join_run] one_task_joined_stuck
  by (simp add: impl_submit_def cond_signal_def new_ThreadPool_def)

text \<open>A task submitted once every worker has left is accepted and stays in the queue for good: \<^verbatim>\<open>submit\<close> does not look
  at \<open>stop\<close>.\<close>

lemma all_gone_step:
  assumes "set (tp_workers s) \<subseteq> {W_exit}" "pool_step s e s1" "own e"
  shows "set (tp_workers s1) \<subseteq> {W_exit} \<and> tp_queue s1 = tp_queue s \<and> tp_done s1 = tp_done s"
proof -
  have "tp_workers s ! i = W_exit" if "i < length (tp_workers s)" for i
    using assms(1) nth_mem [OF that] by auto
  with assms(2,3,1) show ?thesis by (auto elim!: pool_step.cases)
qed

lemma submit_after_shutdown_lost:
  assumes "set (tp_workers s) \<subseteq> {W_exit}" "wakes s w" "steps k (impl_submit True w t s) s'"
  shows "t \<in> set (tp_queue s') \<and> tp_done s' = tp_done s"
proof -
  have w: "w = None" using assms(1,2) nth_mem by (fastforce simp: wakes_def split: option.splits)
  have "steps k s0 s' \<Longrightarrow> set (tp_workers s0) \<subseteq> {W_exit} \<Longrightarrow> tp_queue s' = tp_queue s0 \<and> tp_done s' = tp_done s0" for s0
    by (induction rule: steps.induct) (use all_gone_step in \<open>fastforce+\<close>)
  from this [OF assms(3)] assms(1) show ?thesis by (simp add: w submit_alt cond_signal_def)
qed

end
