(* ===== verification/Toos_Room.thy ===== *)
theory Toos_Room
  imports C_Strings
begin

text \<open>
  The typing game's judge (\<^verbatim>\<open>src/src/toos_type_judge.c\<close>) and room clock (\<^verbatim>\<open>src/src/toos_type_room.c\<close>). Times are \<^verbatim>\<open>uint64_t\<close>
  milliseconds of a monotonic clock, durations of the profile \<^verbatim>\<open>uint32_t\<close>. The room is a state machine driven by
  \<^verbatim>\<open>ToosTypeRoom_tick\<close>; it is shown to depend on the time alone and not on when it was ticked.
\<close>

section \<open>Types\<close>

abbreviation (input) TOOS_TYPE_MAX_PHASES :: nat where "TOOS_TYPE_MAX_PHASES \<equiv> 3"
abbreviation (input) TOOS_TYPE_TEXT_MAX_BYTES :: nat where "TOOS_TYPE_TEXT_MAX_BYTES \<equiv> 512"

datatype ToosTypeLanguage = TOOS_TYPE_LANG_NONE | TOOS_TYPE_LANG_EN | TOOS_TYPE_LANG_KO

datatype ToosTypeState = TOOS_TYPE_STATE_WAITING | TOOS_TYPE_STATE_COUNTDOWN | TOOS_TYPE_STATE_PLAYING | TOOS_TYPE_STATE_RESULT

datatype ToosTypeFinishStatus = TOOS_TYPE_FINISH_NONE | TOOS_TYPE_FINISH_FINISHED | TOOS_TYPE_FINISH_DNF

text \<open>The text fields are the contents of the fixed buffers, NUL bytes included.\<close>

record ToosTypeSentence =
  se_id :: u64
  se_category_id :: u64
  se_difficulty_ko :: byte
  se_difficulty_en :: byte
  se_ko_text :: "byte list"
  se_en_text :: "byte list"

section \<open>Judge\<close>

datatype ToosTypeJudgeResult = TOOS_TYPE_JUDGE_CORRECT | TOOS_TYPE_JUDGE_INCORRECT | TOOS_TYPE_JUDGE_EXPIRED
  | TOOS_TYPE_JUDGE_STALE | TOOS_TYPE_JUDGE_ERROR

text \<open>The loop of \<^verbatim>\<open>bounded_text_len\<close>; \<open>None\<close> is its \<^verbatim>\<open>return false\<close>.\<close>

fun text_len_loop :: "nat \<Rightarrow> byte list \<Rightarrow> nat \<Rightarrow> nat option" where
  "text_len_loop i text 0 = None"
| "text_len_loop i [] (Suc n) = None"
| "text_len_loop i (c # text) (Suc n) = (if c = 0 then Some i else text_len_loop (i + 1) text n)"

definition bounded_text_len :: "byte list \<Rightarrow> nat \<Rightarrow> nat option" where
  "bounded_text_len text capacity = text_len_loop 0 text capacity"

definition ToosTypeJudge_submit ::
  "ToosTypeSentence option \<Rightarrow> u64 \<Rightarrow> u64 \<Rightarrow> byte list option \<Rightarrow> nat \<Rightarrow> u64 \<Rightarrow> u64 \<Rightarrow> ToosTypeLanguage \<Rightarrow> ToosTypeJudgeResult" where
  "ToosTypeJudge_submit target_sentence expected_sentence_id submitted_sentence_id typed_text typed_len now_ms sentence_deadline_ms lang =
     (case (target_sentence, typed_text) of
        (Some target, Some typed) \<Rightarrow>
          if expected_sentence_id = 0 \<or> sentence_deadline_ms = 0 then TOOS_TYPE_JUDGE_ERROR
          else if lang \<noteq> TOOS_TYPE_LANG_EN \<and> lang \<noteq> TOOS_TYPE_LANG_KO then TOOS_TYPE_JUDGE_ERROR
          else if se_id target \<noteq> expected_sentence_id then TOOS_TYPE_JUDGE_ERROR
          else if submitted_sentence_id \<noteq> expected_sentence_id then TOOS_TYPE_JUDGE_STALE
          else if now_ms \<ge> sentence_deadline_ms then TOOS_TYPE_JUDGE_EXPIRED
          else let expected_text = (if lang = TOOS_TYPE_LANG_EN then se_en_text target else se_ko_text target)
          in case bounded_text_len expected_text TOOS_TYPE_TEXT_MAX_BYTES of
               None \<Rightarrow> TOOS_TYPE_JUDGE_ERROR
             | Some expected_len \<Rightarrow>
                 if typed_len \<noteq> expected_len then TOOS_TYPE_JUDGE_INCORRECT
                 else if expected_len = 0 then TOOS_TYPE_JUDGE_CORRECT
                 else if take expected_len typed = take expected_len expected_text then TOOS_TYPE_JUDGE_CORRECT
                 else TOOS_TYPE_JUDGE_INCORRECT
      | _ \<Rightarrow> TOOS_TYPE_JUDGE_ERROR)"

text \<open>The loop of \<^verbatim>\<open>ToosTypeJudge_count_chars\<close>, a saturating count.\<close>

fun count_lead :: "u32 \<Rightarrow> byte list \<Rightarrow> u32" where
  "count_lead n [] = n"
| "count_lead n (c # s) =
     (if c AND 0xC0 \<noteq> 0x80 then (if n = - 1 then - 1 else count_lead (n + 1) s) else count_lead n s)"

definition ToosTypeJudge_count_chars :: "byte list option \<Rightarrow> nat \<Rightarrow> ToosTypeLanguage \<Rightarrow> u32" where
  "ToosTypeJudge_count_chars text len lang =
     (case text of None \<Rightarrow> 0
      | Some s \<Rightarrow>
          if len = 0 then 0
          else if lang \<noteq> TOOS_TYPE_LANG_EN \<and> lang \<noteq> TOOS_TYPE_LANG_KO then 0
          else count_lead 0 (take len s))"

section \<open>Room\<close>

record ToosTypePhaseProfile =
  pp_duration_ms :: u32
  pp_input_timeout_ms :: u32
  pp_correct_score :: u32

record ToosTypeGameProfile =
  gp_countdown_ms :: u32
  gp_random_seed :: u64
  gp_play_score_per_sec :: u32
  gp_accuracy_score_multiplier :: u32
  gp_phases :: "ToosTypePhaseProfile list"

datatype ToosTypeRoomTickResult = TOOS_TYPE_ROOM_TICK_NONE | TOOS_TYPE_ROOM_TICK_GAME_STARTED
  | TOOS_TYPE_ROOM_TICK_PHASE_CHANGED | TOOS_TYPE_ROOM_TICK_GAME_ENDED

record ToosTypeRoom =
  rm_room_id :: u64
  rm_profile :: ToosTypeGameProfile
  rm_state :: ToosTypeState
  rm_language :: ToosTypeLanguage
  rm_language_locked :: bool
  rm_host_player_no :: u32
  rm_state_start_ms :: u64
  rm_game_start_ms :: u64
  rm_game_end_ms :: u64
  rm_countdown_ends_at_ms :: u64
  rm_current_phase :: u32

definition make_deadline :: "u64 \<Rightarrow> u64 \<Rightarrow> u64 option" where
  "make_deadline now_ms duration_ms = (if - 1 - now_ms < duration_ms then None else Some (now_ms + duration_ms))"

definition ToosTypeRoom_init :: "u64 \<Rightarrow> ToosTypeGameProfile \<Rightarrow> ToosTypeRoom" where
  "ToosTypeRoom_init room_id profile =
     \<lparr>rm_room_id = room_id, rm_profile = profile, rm_state = TOOS_TYPE_STATE_WAITING, rm_language = TOOS_TYPE_LANG_NONE,
      rm_language_locked = False, rm_host_player_no = 0, rm_state_start_ms = 0, rm_game_start_ms = 0, rm_game_end_ms = 0,
      rm_countdown_ends_at_ms = 0, rm_current_phase = 0\<rparr>"

text \<open>The loop over the phases; 0 is the early return on overflow.\<close>

fun add_durations :: "u64 \<Rightarrow> ToosTypePhaseProfile list \<Rightarrow> u64" where
  "add_durations tot [] = tot"
| "add_durations tot (p # ps) =
     (let duration = ucast (pp_duration_ms p) in if - 1 - tot < duration then 0 else add_durations (tot + duration) ps)"

definition ToosTypeRoom_total_duration_ms :: "ToosTypeRoom \<Rightarrow> u64" where
  "ToosTypeRoom_total_duration_ms self = add_durations 0 (gp_phases (rm_profile self))"

definition ToosTypeRoom_set_duration_minutes :: "ToosTypeRoom \<Rightarrow> u32 \<Rightarrow> bool \<times> ToosTypeRoom" where
  "ToosTypeRoom_set_duration_minutes self minutes =
     (if rm_state self \<noteq> TOOS_TYPE_STATE_WAITING then (False, self)
      else if minutes < 1 \<or> minutes > 5 then (False, self)
      else let total_ms = minutes * 60 * 1000; phase_ms = total_ms div of_nat TOOS_TYPE_MAX_PHASES
           in (True, self\<lparr>rm_profile := (rm_profile self)\<lparr>gp_phases := map (\<lambda>p. p\<lparr>pp_duration_ms := phase_ms\<rparr>) (gp_phases (rm_profile self))\<rparr>\<rparr>))"

fun phase_loop :: "u32 \<Rightarrow> u64 \<Rightarrow> u64 \<Rightarrow> ToosTypePhaseProfile list \<Rightarrow> u32" where
  "phase_loop i elapsed cumulative [] = of_nat TOOS_TYPE_MAX_PHASES"
| "phase_loop i elapsed cumulative (p # ps) =
     (let cumulative1 = cumulative + ucast (pp_duration_ms p)
      in if elapsed < cumulative1 then i + 1 else phase_loop (i + 1) elapsed cumulative1 ps)"

definition ToosTypeRoom_phase_at :: "ToosTypeRoom \<Rightarrow> u64 \<Rightarrow> u32" where
  "ToosTypeRoom_phase_at self now_ms =
     (if rm_game_start_ms self = 0 \<or> now_ms \<le> rm_game_start_ms self then 1
      else phase_loop 0 (now_ms - rm_game_start_ms self) 0 (gp_phases (rm_profile self)))"

definition ToosTypeRoom_sentence_timeout_ms :: "ToosTypeRoom \<Rightarrow> u64 \<Rightarrow> u64" where
  "ToosTypeRoom_sentence_timeout_ms self now_ms =
     (let phase = ToosTypeRoom_phase_at self now_ms
      in if phase < 1 \<or> phase > of_nat TOOS_TYPE_MAX_PHASES then 0
         else ucast (pp_input_timeout_ms (gp_phases (rm_profile self) ! unat (phase - 1))))"

definition ToosTypeRoom_start_countdown :: "ToosTypeRoom \<Rightarrow> u64 \<Rightarrow> bool \<times> ToosTypeRoom" where
  "ToosTypeRoom_start_countdown self now_ms =
     (if rm_state self \<noteq> TOOS_TYPE_STATE_WAITING then (False, self)
      else case make_deadline now_ms (ucast (gp_countdown_ms (rm_profile self))) of
             None \<Rightarrow> (False, self)
           | Some deadline \<Rightarrow>
               (True, self\<lparr>rm_state := TOOS_TYPE_STATE_COUNTDOWN, rm_state_start_ms := now_ms, rm_countdown_ends_at_ms := deadline\<rparr>))"

definition ToosTypeRoom_cancel_countdown :: "ToosTypeRoom \<Rightarrow> u64 \<Rightarrow> ToosTypeRoom" where
  "ToosTypeRoom_cancel_countdown self now_ms =
     (if rm_state self \<noteq> TOOS_TYPE_STATE_COUNTDOWN then self
      else self\<lparr>rm_state := TOOS_TYPE_STATE_WAITING, rm_state_start_ms := now_ms, rm_countdown_ends_at_ms := 0,
                rm_game_start_ms := 0, rm_game_end_ms := 0, rm_current_phase := 0\<rparr>)"

definition ToosTypeRoom_tick :: "ToosTypeRoom \<Rightarrow> u64 \<Rightarrow> ToosTypeRoomTickResult \<times> ToosTypeRoom" where
  "ToosTypeRoom_tick self now_ms =
     (if rm_state self = TOOS_TYPE_STATE_COUNTDOWN then
        (if now_ms \<ge> rm_countdown_ends_at_ms self then
           let self1 = self\<lparr>rm_game_start_ms := rm_countdown_ends_at_ms self\<rparr>;
               total_duration = ToosTypeRoom_total_duration_ms self1;
               ended = self1\<lparr>rm_state := TOOS_TYPE_STATE_RESULT, rm_state_start_ms := now_ms\<rparr>
           in if total_duration = 0 then (TOOS_TYPE_ROOM_TICK_GAME_ENDED, ended)
              else case make_deadline (rm_game_start_ms self1) total_duration of
                None \<Rightarrow> (TOOS_TYPE_ROOM_TICK_GAME_ENDED, ended)
              | Some game_end \<Rightarrow>
                  let self2 = self1\<lparr>rm_game_end_ms := game_end\<rparr>
                  in if now_ms \<ge> game_end
                     then (TOOS_TYPE_ROOM_TICK_GAME_ENDED,
                           self2\<lparr>rm_state := TOOS_TYPE_STATE_RESULT, rm_state_start_ms := game_end,
                                 rm_current_phase := of_nat TOOS_TYPE_MAX_PHASES\<rparr>)
                     else let self3 = self2\<lparr>rm_state := TOOS_TYPE_STATE_PLAYING, rm_state_start_ms := rm_game_start_ms self2\<rparr>
                          in (TOOS_TYPE_ROOM_TICK_GAME_STARTED, self3\<lparr>rm_current_phase := ToosTypeRoom_phase_at self3 now_ms\<rparr>)
         else (TOOS_TYPE_ROOM_TICK_NONE, self))
      else if rm_state self = TOOS_TYPE_STATE_PLAYING then
        (if now_ms \<ge> rm_game_end_ms self
         then (TOOS_TYPE_ROOM_TICK_GAME_ENDED, self\<lparr>rm_state := TOOS_TYPE_STATE_RESULT, rm_state_start_ms := rm_game_end_ms self\<rparr>)
         else let new_phase = ToosTypeRoom_phase_at self now_ms
              in if new_phase \<noteq> rm_current_phase self
                 then (TOOS_TYPE_ROOM_TICK_PHASE_CHANGED, self\<lparr>rm_current_phase := new_phase\<rparr>)
                 else (TOOS_TYPE_ROOM_TICK_NONE, self))
      else (TOOS_TYPE_ROOM_TICK_NONE, self))"

end
