(* ===== verification/Toos_Clock.thy ===== *)
theory Toos_Clock
  imports Toos_Room Path_Validator
begin

text \<open>
  Correctness of the judge and of the room clock: a submission is correct exactly when it is the text, characters are
  counted exactly, and the room follows a pure function of the time, however it is ticked.
\<close>

section \<open>Words\<close>

lemma unat_max: "unat (- 1 :: u32) = 2 ^ 32 - 1" "unat (- 1 :: u64) = 2 ^ 64 - 1"
  by (simp_all add: unsigned_minus_1_eq_mask mask_eq_exp_minus_1)

lemma unat_bound: "unat (w :: u32) < 2 ^ 32" "unat (v :: u64) < 2 ^ 64"
  using unsigned_less [of w] unsigned_less [of v] by simp_all

lemma unat_wide [simp]: "unat (ucast (w :: u32) :: u64) = unat w"
proof -
  have "unat w < 2 ^ 64" using unat_bound(1) [of w] by simp
  then show ?thesis by (simp add: unsigned_ucast_eq take_bit_nat_eq_self)
qed

lemma unat_add_u64: "unat a + unat b < 2 ^ 64 \<Longrightarrow> unat (a + b) = unat a + unat b" for a b :: u64
  by (simp add: unat_word_ariths)

lemma unat_room_u64: "- 1 - a < b \<longleftrightarrow> 2 ^ 64 \<le> unat a + unat b" for a b :: u64
proof -
  have "unat (- 1 - a) = 2 ^ 64 - 1 - unat a" using unat_bound(2) [of a] by (subst unat_sub) (auto simp: unat_max word_le_nat_alt)
  then show ?thesis using unat_bound(2) [of a] by (auto simp: word_less_nat_alt)
qed

section \<open>Judge\<close>

definition text_buffer :: "byte list \<Rightarrow> byte list \<Rightarrow> bool" where
  "text_buffer buf w \<longleftrightarrow> 0 \<notin> set w \<and> (\<exists>r. buf = w @ 0 # r) \<and> length buf = TOOS_TYPE_TEXT_MAX_BYTES"

lemma text_len_loop_exact:
  "0 \<notin> set w \<Longrightarrow> length w < n \<Longrightarrow> text_len_loop i (w @ 0 # r) n = Some (i + length w)"
proof (induction w arbitrary: i n)
  case Nil
  then show ?case by (cases n) auto
next
  case (Cons c w)
  then show ?case by (cases n) auto
qed

lemma bounded_text_len_exact: "text_buffer buf w \<Longrightarrow> bounded_text_len buf TOOS_TYPE_TEXT_MAX_BYTES = Some (length w)"
  using text_len_loop_exact [of w 512 0] by (auto simp: text_buffer_def bounded_text_len_def)

definition sentence_text :: "ToosTypeLanguage \<Rightarrow> ToosTypeSentence \<Rightarrow> byte list" where
  "sentence_text lang s = (if lang = TOOS_TYPE_LANG_EN then se_en_text s else se_ko_text s)"

lemma judge_verdict:
  assumes "text_buffer (sentence_text lang s) w" "lang \<noteq> TOOS_TYPE_LANG_NONE" "se_id s \<noteq> 0" "deadline \<noteq> 0"
  shows "ToosTypeJudge_submit (Some s) (se_id s) sid (Some typed) (length typed) now deadline lang =
    (if sid \<noteq> se_id s then TOOS_TYPE_JUDGE_STALE else if now \<ge> deadline then TOOS_TYPE_JUDGE_EXPIRED
     else if typed = w then TOOS_TYPE_JUDGE_CORRECT else TOOS_TYPE_JUDGE_INCORRECT)"
proof -
  let ?b = "if lang = TOOS_TYPE_LANG_EN then se_en_text s else se_ko_text s"
  from assms(1) have b: "text_buffer ?b w" by (simp add: sentence_text_def)
  then have t: "take (length w) ?b = w" by (auto simp: text_buffer_def)
  have l: "lang = TOOS_TYPE_LANG_EN \<or> lang = TOOS_TYPE_LANG_KO" using assms(2) by (cases lang) auto
  show ?thesis using l assms(3,4) t unfolding ToosTypeJudge_submit_def
    by (auto simp: Let_def bounded_text_len_exact [OF b, simplified])
qed

text \<open>Characters of UTF-8 text are counted exactly.\<close>

lemma count_lead_sum: "unat n + length (filter (\<lambda>c. c AND 0xC0 \<noteq> 0x80) s) < 2 ^ 32 \<Longrightarrow>
  unat (count_lead n s) = unat n + length (filter (\<lambda>c. c AND 0xC0 \<noteq> 0x80) s)"
proof (induction s arbitrary: n)
  case (Cons c s)
  show ?case
  proof (cases "c AND 0xC0 \<noteq> 0x80")
    case True
    have "unat n + 1 < 2 ^ 32" using Cons.prems True by simp
    then have "n \<noteq> - 1" "unat (n + 1) = Suc (unat n)" by (auto simp: unat_word_ariths unat_max)
    then show ?thesis using Cons True by simp
  qed (use Cons in simp)
qed simp

lemma utf8_encode_leads: "cp < 0x200000 \<Longrightarrow> length (filter (\<lambda>c. c AND 0xC0 \<noteq> 0x80) (utf8_encode cp)) = 1"
  using of_nat_offset [of 0 cp] by (auto simp: utf8_encode_def utf8_lead of_nat_offset simp del: of_nat_add of_nat_numeral)

lemma count_chars_exact:
  assumes "\<forall>cp \<in> set cps. cp < 0x200000" "length cps < 2 ^ 32" "lang \<noteq> TOOS_TYPE_LANG_NONE" "s = concat (map utf8_encode cps)"
  shows "unat (ToosTypeJudge_count_chars (Some s) (length s) lang) = length cps"
proof -
  have "length (filter (\<lambda>c. c AND 0xC0 \<noteq> 0x80) (concat (map utf8_encode cps))) = length cps"
    using assms(1) by (induction cps) (auto simp: utf8_encode_leads simp del: One_nat_def)
  moreover from this have "s = [] \<longleftrightarrow> cps = []" using assms(4) by (metis filter.simps(1) length_0_conv list.simps(8) concat.simps(1))
  ultimately show ?thesis using assms count_lead_sum [of 0 s]
    by (cases lang) (auto simp: ToosTypeJudge_count_chars_def)
qed

section \<open>Clock\<close>

abbreviation phases :: "ToosTypeRoom \<Rightarrow> ToosTypePhaseProfile list" where "phases r \<equiv> gp_phases (rm_profile r)"

definition durations :: "ToosTypeRoom \<Rightarrow> nat list" where
  "durations r = map (\<lambda>p. unat (pp_duration_ms p)) (phases r)"

lemma add_durations_exact:
  "unat tot + sum_list (map (\<lambda>p. unat (pp_duration_ms p)) ps) < 2 ^ 64 \<Longrightarrow>
     unat (add_durations tot ps) = unat tot + sum_list (map (\<lambda>p. unat (pp_duration_ms p)) ps)"
proof (induction ps arbitrary: tot)
  case (Cons p ps)
  let ?d = "ucast (pp_duration_ms p) :: u64"
  have s: "unat tot + unat ?d < 2 ^ 64" using Cons.prems by simp
  with Cons unat_add_u64 [OF s] show ?case by (simp add: Let_def unat_room_u64)
qed simp

text \<open>The specification: the phase after \<open>e\<close> milliseconds of play, and the state of a room at time \<open>t\<close> whose countdown ends at \<open>c\<close>.\<close>

fun phase_of :: "nat \<Rightarrow> nat list \<Rightarrow> nat \<Rightarrow> nat" where
  "phase_of i [] e = TOOS_TYPE_MAX_PHASES"
| "phase_of i (d # ds) e = (if e < d then i + 1 else phase_of (i + 1) ds (e - d))"

definition clock_phase :: "nat list \<Rightarrow> nat \<Rightarrow> nat" where
  "clock_phase ds e = (if e = 0 then 1 else phase_of 0 ds e)"

definition clock_state :: "nat \<Rightarrow> nat list \<Rightarrow> nat \<Rightarrow> ToosTypeState" where
  "clock_state c ds t =
     (if t < c then TOOS_TYPE_STATE_COUNTDOWN
      else if t < c + sum_list ds \<and> c + sum_list ds < 2 ^ 64 then TOOS_TYPE_STATE_PLAYING
      else TOOS_TYPE_STATE_RESULT)"

definition room_ok :: "ToosTypeRoom \<Rightarrow> bool" where
  "room_ok r \<longleftrightarrow> length (phases r) = TOOS_TYPE_MAX_PHASES"

lemma durations_bound: "room_ok r \<Longrightarrow> sum_list (durations r) < 3 * 2 ^ 32"
proof -
  assume "room_ok r"
  then obtain a b c where "phases r = [a, b, c]" by (auto simp: room_ok_def length_Suc_conv numeral_3_eq_3)
  then show ?thesis using unat_bound(1) [of "pp_duration_ms a"] unat_bound(1) [of "pp_duration_ms b"] unat_bound(1) [of "pp_duration_ms c"]
    by (simp add: durations_def)
qed

lemma total_duration_exact: "room_ok r \<Longrightarrow> unat (ToosTypeRoom_total_duration_ms r) = sum_list (durations r)"
  using add_durations_exact [of 0 "phases r"] durations_bound [of r]
  by (simp add: ToosTypeRoom_total_duration_ms_def durations_def)

lemma phase_loop_exact:
  "unat cum + sum_list (map (\<lambda>p. unat (pp_duration_ms p)) ps) < 2 ^ 64 \<Longrightarrow> cum \<le> elapsed \<Longrightarrow> unat i + length ps < 2 ^ 32 \<Longrightarrow>
     unat (phase_loop i elapsed cum ps) = phase_of (unat i) (map (\<lambda>p. unat (pp_duration_ms p)) ps) (unat elapsed - unat cum)"
proof (induction ps arbitrary: i cum)
  case (Cons p ps)
  let ?d = "ucast (pp_duration_ms p) :: u64"
  have s: "unat (cum + ?d) = unat cum + unat (pp_duration_ms p)" using Cons.prems(1) unat_add_u64 [of cum ?d] by simp
  have i: "unat (i + 1) = unat i + 1" using Cons.prems(3) by (simp add: unat_word_ariths)
  have l: "elapsed < cum + ?d \<longleftrightarrow> unat elapsed - unat cum < unat (pp_duration_ms p)"
    using Cons.prems(2) s by (auto simp: word_less_nat_alt word_le_nat_alt)
  show ?case
  proof (cases "elapsed < cum + ?d")
    case True
    with l i show ?thesis by (simp add: Let_def)
  next
    case False
    then have "cum + ?d \<le> elapsed" by simp
    with Cons.IH [of "cum + ?d" "i + 1"] Cons.prems s i l False show ?thesis by (simp add: Let_def)
  qed
qed simp

lemma phase_of_range: "length ds \<le> 3 \<Longrightarrow> i + length ds \<le> 3 \<Longrightarrow> 0 < phase_of i ds e \<and> phase_of i ds e \<le> 3"
  by (induction i ds e rule: phase_of.induct) auto

lemma phase_at_exact:
  assumes "room_ok r" "rm_game_start_ms r \<noteq> 0"
  shows "unat (ToosTypeRoom_phase_at r now) = clock_phase (durations r) (unat now - unat (rm_game_start_ms r))"
proof (cases "now \<le> rm_game_start_ms r")
  case False
  then have "rm_game_start_ms r \<le> now" by simp
  then have "unat (now - rm_game_start_ms r) = unat now - unat (rm_game_start_ms r)" by (rule unat_sub)
  with False assms phase_loop_exact [of 0 "phases r" "now - rm_game_start_ms r" 0] durations_bound [OF assms(1)] show ?thesis
    by (auto simp: ToosTypeRoom_phase_at_def room_ok_def durations_def clock_phase_def word_le_nat_alt)
qed (simp add: ToosTypeRoom_phase_at_def clock_phase_def word_le_nat_alt)

lemma phase_at_range:
  assumes "room_ok r"
  shows "0 < unat (ToosTypeRoom_phase_at r now) \<and> unat (ToosTypeRoom_phase_at r now) \<le> 3"
proof (cases "rm_game_start_ms r = 0")
  case True
  then show ?thesis by (simp add: ToosTypeRoom_phase_at_def)
next
  case False
  have "length (durations r) \<le> 3" using assms by (simp add: durations_def room_ok_def)
  from phase_of_range [OF this, of 0] this show ?thesis by (simp add: phase_at_exact [OF assms False] clock_phase_def)
qed

text \<open>What a room looks like at time \<open>t\<close>.\<close>

definition on_clock :: "ToosTypeRoom \<Rightarrow> nat \<Rightarrow> ToosTypeRoom \<Rightarrow> bool" where
  "on_clock r0 t r \<longleftrightarrow> rm_profile r = rm_profile r0 \<and> rm_countdown_ends_at_ms r = rm_countdown_ends_at_ms r0
     \<and> rm_state r = clock_state (unat (rm_countdown_ends_at_ms r0)) (durations r0) t
     \<and> (rm_state r = TOOS_TYPE_STATE_PLAYING \<longrightarrow> rm_game_start_ms r = rm_countdown_ends_at_ms r0
          \<and> unat (rm_game_end_ms r) = unat (rm_countdown_ends_at_ms r0) + sum_list (durations r0)
          \<and> unat (rm_current_phase r) = clock_phase (durations r0) (t - unat (rm_countdown_ends_at_ms r0)))"

lemma make_deadline_exact:
  "make_deadline a b = (if unat a + unat b < 2 ^ 64 then Some (a + b) else None)"
  by (simp add: make_deadline_def unat_room_u64 not_le)

lemma countdown_tick:
  assumes "room_ok r" "rm_state r = TOOS_TYPE_STATE_COUNTDOWN" "0 < rm_countdown_ends_at_ms r"
  shows "on_clock r (unat t) (snd (ToosTypeRoom_tick r t))
    \<and> (fst (ToosTypeRoom_tick r t) = TOOS_TYPE_ROOM_TICK_GAME_ENDED \<longleftrightarrow> rm_state (snd (ToosTypeRoom_tick r t)) = TOOS_TYPE_STATE_RESULT)"
proof (cases "t < rm_countdown_ends_at_ms r")
  case True
  then have "\<not> rm_countdown_ends_at_ms r \<le> t" "unat t < unat (rm_countdown_ends_at_ms r)" by (simp_all add: word_less_nat_alt word_le_nat_alt)
  then show ?thesis using assms by (simp add: ToosTypeRoom_tick_def on_clock_def clock_state_def)
next
  case False
  let ?c = "rm_countdown_ends_at_ms r" and ?r1 = "r\<lparr>rm_game_start_ms := rm_countdown_ends_at_ms r\<rparr>"
  let ?tot = "ToosTypeRoom_total_duration_ms ?r1" and ?S = "sum_list (durations r)"
  have ct: "?c \<le> t" "unat ?c \<le> unat t" using False by (simp_all add: word_le_nat_alt word_less_nat_alt)
  have tot: "unat ?tot = ?S" using total_duration_exact [of ?r1] assms(1) by (simp add: room_ok_def durations_def)
  then have z: "?tot = 0 \<longleftrightarrow> ?S = 0" by (metis unat_eq_zero unsigned_0)
  show ?thesis
  proof (cases "?S = 0 \<or> 2 ^ 64 \<le> unat ?c + ?S")
    case True
    then have s: "clock_state (unat ?c) (durations r) (unat t) = TOOS_TYPE_STATE_RESULT"
      using ct by (auto simp: clock_state_def simp del: sum_list_eq_0_iff)
    with True z tot ct assms(2) show ?thesis by (auto simp: ToosTypeRoom_tick_def on_clock_def Let_def make_deadline_exact)
  next
    case False
    then have e: "unat (?c + ?tot) = unat ?c + ?S" using unat_add_u64 [of ?c ?tot] tot by simp
    then have ge: "?c + ?tot \<le> t \<longleftrightarrow> unat ?c + ?S \<le> unat t" by (simp add: word_le_nat_alt)
    show ?thesis
    proof (cases "?c + ?tot \<le> t")
      case True
      then have "clock_state (unat ?c) (durations r) (unat t) = TOOS_TYPE_STATE_RESULT" using ct ge by (auto simp: clock_state_def)
      with True False z tot ct assms(2) show ?thesis by (simp add: ToosTypeRoom_tick_def on_clock_def Let_def make_deadline_exact)
    next
      case nt: False
      let ?p = "?r1\<lparr>rm_game_end_ms := ?c + ?tot, rm_state := TOOS_TYPE_STATE_PLAYING, rm_state_start_ms := ?c\<rparr>"
      have "clock_state (unat ?c) (durations r) (unat t) = TOOS_TYPE_STATE_PLAYING" using nt ct ge False by (auto simp: clock_state_def)
      moreover have "room_ok ?p" "durations ?p = durations r" using assms(1) by (simp_all add: room_ok_def durations_def)
      then have "unat (ToosTypeRoom_phase_at ?p t) = clock_phase (durations r) (unat t - unat ?c)"
        using phase_at_exact [of ?p t] assms(3) by simp
      ultimately show ?thesis using nt False z tot ct e assms(2) by (simp add: ToosTypeRoom_tick_def on_clock_def Let_def make_deadline_exact)
    qed
  qed
qed

lemma on_clock_tick:
  assumes "room_ok r0" "0 < rm_countdown_ends_at_ms r0" "on_clock r0 (unat t0) r" "t0 \<le> t"
  shows "on_clock r0 (unat t) (snd (ToosTypeRoom_tick r t))
    \<and> (fst (ToosTypeRoom_tick r t) = TOOS_TYPE_ROOM_TICK_GAME_ENDED \<longleftrightarrow>
        rm_state r \<noteq> TOOS_TYPE_STATE_RESULT \<and> rm_state (snd (ToosTypeRoom_tick r t)) = TOOS_TYPE_STATE_RESULT)"
proof -
  have le: "unat t0 \<le> unat t" using assms(4) by (simp add: word_le_nat_alt)
  let ?c = "unat (rm_countdown_ends_at_ms r0)" and ?S = "sum_list (durations r0)"
  consider "rm_state r = TOOS_TYPE_STATE_COUNTDOWN" | "rm_state r = TOOS_TYPE_STATE_PLAYING" | "rm_state r = TOOS_TYPE_STATE_RESULT"
    using assms(3) by (auto simp: on_clock_def clock_state_def split: if_splits)
  then show ?thesis
  proof cases
    case 1
    have "room_ok r" "durations r = durations r0" "rm_countdown_ends_at_ms r = rm_countdown_ends_at_ms r0"
      using assms(1,3) by (simp_all add: on_clock_def room_ok_def durations_def)
    with countdown_tick [of r t] 1 assms show ?thesis by (simp add: on_clock_def)
  next
    case 2
    then have p: "rm_profile r = rm_profile r0" "rm_countdown_ends_at_ms r = rm_countdown_ends_at_ms r0" "rm_game_start_ms r = rm_countdown_ends_at_ms r0"
        "unat (rm_game_end_ms r) = ?c + ?S" and "?c \<le> unat t0" "?c + ?S < 2 ^ 64"
      using assms(3) by (auto simp: on_clock_def clock_state_def split: if_splits)
    have ok: "room_ok r" "durations r = durations r0" using assms(1) p by (simp_all add: room_ok_def durations_def)
    have ph: "unat (ToosTypeRoom_phase_at r t) = clock_phase (durations r0) (unat t - ?c)"
      using phase_at_exact [OF ok(1), of t] assms(2) p(3) ok(2) by simp
    show ?thesis
    proof (cases "rm_game_end_ms r \<le> t")
      case True
      then have "clock_state ?c (durations r0) (unat t) = TOOS_TYPE_STATE_RESULT" using p(4) by (auto simp: clock_state_def word_le_nat_alt)
      with True 2 p show ?thesis by (simp add: ToosTypeRoom_tick_def on_clock_def)
    next
      case False
      then have "unat t < ?c + ?S" using p(4) by (simp add: word_le_nat_alt)
      then have "clock_state ?c (durations r0) (unat t) = TOOS_TYPE_STATE_PLAYING" using \<open>?c \<le> unat t0\<close> le \<open>?c + ?S < 2 ^ 64\<close> by (simp add: clock_state_def)
      with False 2 p ph show ?thesis by (auto simp: ToosTypeRoom_tick_def on_clock_def Let_def)
    qed
  next
    case 3
    then have "clock_state ?c (durations r0) (unat t) = TOOS_TYPE_STATE_RESULT"
      using assms(3) le by (auto simp: on_clock_def clock_state_def split: if_splits)
    with 3 assms(3) show ?thesis by (simp add: ToosTypeRoom_tick_def on_clock_def)
  qed
qed

fun run_ticks :: "ToosTypeRoom \<Rightarrow> u64 list \<Rightarrow> ToosTypeRoomTickResult list \<times> ToosTypeRoom" where
  "run_ticks r [] = ([], r)"
| "run_ticks r (t # ts) = (let (x, r1) = ToosTypeRoom_tick r t; (xs, r2) = run_ticks r1 ts in (x # xs, r2))"

lemma run_ticks_result: "rm_state r = TOOS_TYPE_STATE_RESULT \<Longrightarrow> snd (run_ticks r ts) = r"
  by (induction ts) (auto simp: ToosTypeRoom_tick_def split: prod.splits)

lemma run_ticks_clock:
  assumes "room_ok r0" "0 < rm_countdown_ends_at_ms r0"
  shows "on_clock r0 (unat t0) r \<Longrightarrow> sorted (t0 # ts) \<Longrightarrow>
    on_clock r0 (unat (last (t0 # ts))) (snd (run_ticks r ts))
    \<and> length (filter (\<lambda>x. x = TOOS_TYPE_ROOM_TICK_GAME_ENDED) (fst (run_ticks r ts)))
      = (if rm_state r \<noteq> TOOS_TYPE_STATE_RESULT \<and> rm_state (snd (run_ticks r ts)) = TOOS_TYPE_STATE_RESULT then 1 else 0)"
proof (induction ts arbitrary: t0 r)
  case (Cons t ts)
  obtain x r1 where x: "ToosTypeRoom_tick r t = (x, r1)" by force
  have "t0 \<le> t" "sorted (t # ts)" using Cons.prems(2) by simp_all
  note 1 = on_clock_tick [OF assms Cons.prems(1) this(1), unfolded x fst_conv snd_conv]
  have "rm_state r1 = TOOS_TYPE_STATE_RESULT" if "rm_state r = TOOS_TYPE_STATE_RESULT" using x that by (auto simp: ToosTypeRoom_tick_def)
  then show ?case using 1 Cons.IH [of t r1] \<open>sorted (t # ts)\<close> x run_ticks_result [of r1 ts]
    by (auto simp: Let_def split: prod.splits if_splits)
qed simp

text \<open>(C32) The room follows the clock: once a countdown is running, the state and the phase after any non-decreasing sequence of
  ticks depend on the time of the last tick alone, as a function of the end of the countdown and the durations of the
  phases. Delayed, missed or extra ticks change nothing, and the end of the game is reported exactly once.\<close>

theorem ToosTypeRoom_follows_clock:
  assumes "length (gp_phases (rm_profile r)) = 3" "rm_state r = TOOS_TYPE_STATE_COUNTDOWN" "0 < rm_countdown_ends_at_ms r"
    and "ts \<noteq> []" "sorted ts" "run_ticks r ts = (results, r1)"
  shows "rm_state r1 = clock_state (unat (rm_countdown_ends_at_ms r)) (durations r) (unat (last ts))
    \<and> (rm_state r1 = TOOS_TYPE_STATE_PLAYING \<longrightarrow>
         unat (rm_current_phase r1) = clock_phase (durations r) (unat (last ts) - unat (rm_countdown_ends_at_ms r)))
    \<and> length (filter (\<lambda>x. x = TOOS_TYPE_ROOM_TICK_GAME_ENDED) results) = (if rm_state r1 = TOOS_TYPE_STATE_RESULT then 1 else 0)"
proof -
  have ok: "room_ok r" using assms(1) by (simp add: room_ok_def)
  obtain t us where ts: "ts = t # us" using assms(4) by (cases ts) auto
  obtain x r0 where x: "ToosTypeRoom_tick r t = (x, r0)" by force
  note 1 = countdown_tick [OF ok assms(2,3), of t, unfolded x fst_conv snd_conv]
  obtain xs where u: "run_ticks r0 us = (xs, r1)" "results = x # xs" using assms(6) x by (auto simp: ts split: prod.splits)
  have s: "sorted (t # us)" using assms(5) ts by simp
  note 2 = run_ticks_clock [OF ok assms(3) conjunct1 [OF 1] s, unfolded u fst_conv snd_conv]
  have "rm_state r1 = TOOS_TYPE_STATE_RESULT" if "rm_state r0 = TOOS_TYPE_STATE_RESULT" using run_ticks_result [OF that, of us] that u by simp
  with 1 2 have "length (filter (\<lambda>x. x = TOOS_TYPE_ROOM_TICK_GAME_ENDED) results) = (if rm_state r1 = TOOS_TYPE_STATE_RESULT then 1 else 0)"
    by (auto simp: u(2) split: if_splits)
  with 2 show ?thesis by (auto simp: on_clock_def ts)
qed

definition demo_phase :: ToosTypePhaseProfile where
  "demo_phase = \<lparr>pp_duration_ms = 20000, pp_input_timeout_ms = 5000, pp_correct_score = 10\<rparr>"

definition demo_room :: ToosTypeRoom where
  "demo_room = (ToosTypeRoom_init 1 \<lparr>gp_countdown_ms = 3000, gp_random_seed = 7, gp_play_score_per_sec = 1,
      gp_accuracy_score_multiplier = 10, gp_phases = [demo_phase, demo_phase, demo_phase]\<rparr>)
    \<lparr>rm_state := TOOS_TYPE_STATE_COUNTDOWN, rm_countdown_ends_at_ms := 4000\<rparr>"

theorem ToosTypeRoom_follows_clock_witness:
  "rm_state (snd (run_ticks demo_room [2000, 30000, 30000])) = TOOS_TYPE_STATE_PLAYING
   \<and> unat (rm_current_phase (snd (run_ticks demo_room [2000, 30000, 30000]))) = 2"
proof -
  obtain results r1 where r: "run_ticks demo_room [2000, 30000, 30000] = (results, r1)" by force
  have "length (gp_phases (rm_profile demo_room)) = 3" "rm_state demo_room = TOOS_TYPE_STATE_COUNTDOWN" "0 < rm_countdown_ends_at_ms demo_room"
    "[2000, 30000, 30000 :: u64] \<noteq> []" "sorted [2000, 30000, 30000 :: u64]" by (simp_all add: demo_room_def ToosTypeRoom_init_def)
  from ToosTypeRoom_follows_clock [OF this r] show ?thesis unfolding r snd_conv
    by (simp add: demo_room_def ToosTypeRoom_init_def durations_def demo_phase_def clock_state_def clock_phase_def)
qed

text \<open>The minutes a host may choose are split evenly, without remainder.\<close>

lemma set_duration_exact:
  assumes "room_ok r" "rm_state r = TOOS_TYPE_STATE_WAITING" "1 \<le> minutes" "minutes \<le> 5" "ToosTypeRoom_set_duration_minutes r minutes = (ok, r1)"
  shows "ok \<and> unat (ToosTypeRoom_total_duration_ms r1) = unat minutes * 60000 \<and> set (durations r1) = {unat minutes * 20000}"
proof -
  obtain a b c where p: "phases r = [a, b, c]" using assms(1) by (auto simp: room_ok_def length_Suc_conv numeral_3_eq_3)
  have m: "unat minutes \<le> 5" using assms(4) by (simp add: word_le_nat_alt)
  have t: "unat (minutes * 60 * 1000 :: u32) = unat minutes * 60000" using m by (simp add: unat_word_ariths)
  have d: "unat (minutes * 60 * 1000 div of_nat 3 :: u32) = unat minutes * 20000" unfolding unat_div t by simp
  have r: "ok" "r1 = r\<lparr>rm_profile := (rm_profile r)\<lparr>gp_phases := map (\<lambda>p. p\<lparr>pp_duration_ms := minutes * 60 * 1000 div of_nat 3\<rparr>) (phases r)\<rparr>\<rparr>"
    using assms(2-5) by (auto simp: ToosTypeRoom_set_duration_minutes_def Let_def split: if_splits)
  have du: "durations r1 = [unat minutes * 20000, unat minutes * 20000, unat minutes * 20000]"
    unfolding r(2) durations_def using p d by simp
  have "room_ok r1" using assms(1) r(2) by (simp add: room_ok_def)
  from total_duration_exact [OF this] r(1) du show ?thesis by simp
qed

end
