(* ===== verification/Toos_Spawn.thy ===== *)
theory Toos_Spawn
  imports Toos_Clock "HOL-Library.Monad_Syntax"
begin

text \<open>
  The sentence repository (\<^verbatim>\<open>src/src/toos_type_sentence.c\<close>) and the spawn engine (\<^verbatim>\<open>src/src/toos_type_spawn.c\<close>) of the typing game.
  \<^item> SQLite is not part of the repository: \<open>sql_query\<close> is what it answers to one statement, column by column.
  \<^item> The random numbers are the source's linear congruential generators on \<open>u64\<close>. The rejection loops are total: a
    generator with multiplier 1 mod 4 and odd increment runs through all states, so a number that is accepted comes
    up from every state; this is the termination proof of \<open>draw32\<close> and \<open>draw64\<close>.
  \<^item> The arrays of the engine that are filled one difficulty after the other are functions of the difficulty index.
    An array \<^verbatim>\<open>sequence[i]\<close> is the list of its written cells; its length is \<^verbatim>\<open>sequence_count[i]\<close>. Indices and counts are
    at most 1000, so \<^verbatim>\<open>uint32_t\<close> counts are natural numbers; \<^verbatim>\<open>size_t\<close> limits are written out.
\<close>

section \<open>A generator visits every state\<close>

fun lcg :: "int \<Rightarrow> int \<Rightarrow> nat \<Rightarrow> int \<Rightarrow> int" where
  "lcg a c 0 x = x"
| "lcg a c (Suc n) x = lcg a c n (a * x + c)"

lemma lcg_add: "lcg a c (m + n) x = lcg a c n (lcg a c m x)"
  by (induction m arbitrary: x) auto

lemma lcg_cong: "x mod k = y mod k \<Longrightarrow> lcg a c n x mod k = lcg a c n y mod k"
proof (induction n arbitrary: x y)
  case (Suc n)
  have "(a * x + c) mod k = (a * y + c) mod k" by (rule mod_add_cong [OF mod_mult_cong [OF refl Suc.prems] refl])
  then show ?case unfolding lcg.simps by (rule Suc.IH)
qed simp

text \<open>After \<open>2 ^ k\<close> steps a state has moved by an odd multiple of \<open>2 ^ k\<close>.\<close>

lemma lcg_affine:
  assumes "a mod 4 = 1" "odd c"
  shows "\<exists>A C. (\<forall>x. lcg a c (2 ^ k) x = A * x + C * 2 ^ k) \<and> A mod 4 = 1 \<and> (A - 1) mod 2 ^ (k + 1) = 0 \<and> odd C"
proof (induction k)
  case 0
  have "(a - 1) mod 2 = 0" using assms(1) by presburger
  then show ?case using assms by (intro exI [of _ a] exI [of _ c]) simp
next
  case (Suc k)
  then obtain A C where h: "\<forall>x. lcg a c (2 ^ k) x = A * x + C * 2 ^ k" "A mod 4 = 1" "(A - 1) mod 2 ^ (k + 1) = 0" "odd C"
    by (elim exE conjE) (rule that)
  have "A = 4 * (A div 4) + 1" using h(2) mult_div_mod_eq [of 4 A] by simp
  then obtain q where q: "A = 4 * q + 1" by blast
  obtain p where p: "A - 1 = 2 ^ (k + 1) * p" using h(3) by auto
  let ?A = "A * A" and ?C = "(2 * q + 1) * C"
  have "lcg a c (2 ^ Suc k) x = ?A * x + ?C * 2 ^ Suc k" for x
  proof -
    have "lcg a c (2 ^ Suc k) x = A * (A * x + C * 2 ^ k) + C * 2 ^ k" using lcg_add [of a c "2 ^ k" "2 ^ k" x] h(1) by (simp add: mult_2)
    also have "\<dots> = ?A * x + (A + 1) * C * 2 ^ k" by (simp add: algebra_simps)
    also have "(A + 1) * C * 2 ^ k = ?C * 2 ^ Suc k" by (simp add: q algebra_simps)
    finally show ?thesis .
  qed
  moreover have "?A mod 4 = 1" using mod_mult_eq [of A 4 A] h(2) by simp
  moreover have "(?A - 1) mod 2 ^ (Suc k + 1) = 0"
  proof -
    have "A + 1 = 2 * (2 * q + 1)" by (simp add: q)
    then have "(A - 1) * (A + 1) = 2 ^ (k + 1) * p * (2 * (2 * q + 1))" by (simp only: p)
    also have "\<dots> = 2 ^ (Suc k + 1) * (p * (2 * q + 1))" by (simp add: algebra_simps)
    finally have "?A - 1 = 2 ^ (Suc k + 1) * (p * (2 * q + 1))" by (simp add: algebra_simps)
    then show ?thesis by simp
  qed
  moreover have "odd ?C" using h(4) by simp
  ultimately show ?case by (intro exI [of _ ?A] exI [of _ ?C] conjI allI)
qed

lemma lcg_visits:
  assumes "a mod 4 = 1" "odd c"
  shows "\<exists>n. lcg a c n x mod 2 ^ k = y mod 2 ^ k"
proof (induction k)
  case (Suc k)
  then obtain n where n: "lcg a c n x mod 2 ^ k = y mod 2 ^ k" by blast
  let ?z = "lcg a c n x"
  obtain d where d: "?z = y + 2 ^ k * d" using n by (metis add.commute mod_eqE)
  show ?case
  proof (cases "even d")
    case True
    then obtain b where "?z = y + 2 ^ Suc k * b" using d by (auto elim!: evenE)
    then have "?z mod 2 ^ Suc k = y mod 2 ^ Suc k" by (simp only: mod_mult_self2)
    then show ?thesis by blast
  next
    case False
    obtain A C where h: "\<forall>x. lcg a c (2 ^ k) x = A * x + C * 2 ^ k" "(A - 1) mod 2 ^ (k + 1) = 0" "odd C"
      using lcg_affine [OF assms, of k] by (elim exE conjE) (rule that)
    obtain p where p: "A - 1 = 2 ^ (k + 1) * p" using h(2) by auto
    have "even (d + C)" using False h(3) by simp
    then obtain e where e: "d + C = 2 * e" by (elim evenE)
    have "A * ?z + C * 2 ^ k = (A - 1) * ?z + ?z + C * 2 ^ k" by (simp add: algebra_simps)
    also have "\<dots> = y + 2 ^ k * (d + C) + (A - 1) * ?z" by (subst (2) d) (simp add: algebra_simps)
    also have "\<dots> = y + 2 ^ Suc k * (e + p * ?z)" unfolding e p by (simp add: algebra_simps)
    finally have "lcg a c (n + 2 ^ k) x mod 2 ^ Suc k = y mod 2 ^ Suc k" by (simp add: lcg_add h(1))
    then show ?thesis by blast
  qed
qed simp

section \<open>Random numbers\<close>

definition lcg_next :: "u64 \<Rightarrow> u64" where
  "lcg_next state = state * 6364136223846793005 + 1442695040888963407"

definition local_rand_next :: "u64 \<Rightarrow> u32 \<times> u64" where
  "local_rand_next state = (let s = lcg_next state in (ucast (drop_bit 32 s), s))"

definition local_rand_next64 :: "u64 \<Rightarrow> u64 \<times> u64" where
  "local_rand_next64 state = (let s = lcg_next state in (s, s))"

lemma uint_mod64 [simp]: "uint (y :: u64) mod 18446744073709551616 = uint y"
proof -
  have "uint y < 2 ^ LENGTH(64)" by (rule unsigned_less)
  then show ?thesis by (simp add: mod_pos_pos_trivial)
qed

lemma uint_lcg: "uint ((lcg_next ^^ n) s) = lcg 6364136223846793005 1442695040888963407 n (uint s) mod 2 ^ 64"
proof (induction n arbitrary: s)
  case (Suc n)
  have "uint (lcg_next s) mod 2 ^ 64 = (6364136223846793005 * uint s + 1442695040888963407) mod 2 ^ 64"
    by (simp add: lcg_next_def uint_word_ariths mod_simps mult.commute)
  from lcg_cong [OF this] Suc show ?case by (simp add: funpow_Suc_right del: funpow.simps)
qed (simp add: uint_word_of_int)

lemma lcg_next_reaches: "\<exists>n. (lcg_next ^^ n) s = y"
proof -
  obtain n where "lcg 6364136223846793005 1442695040888963407 n (uint s) mod 2 ^ 64 = uint y mod 2 ^ 64"
    using lcg_visits [of 6364136223846793005 1442695040888963407 "uint s" 64 "uint y"] by auto
  then have "uint ((lcg_next ^^ n) s) = uint y" using uint_lcg [of n s] by simp
  then have "(lcg_next ^^ n) s = y" by (rule unsigned_word_eqI)
  then show ?thesis by blast
qed

text \<open>How many draws it takes until one is accepted.\<close>

lemma lcg_next_later: "\<exists>n. P ((lcg_next ^^ Suc n) s)" if "P y" for P
proof -
  obtain n where "(lcg_next ^^ n) (lcg_next s) = y" using lcg_next_reaches by blast
  with that show ?thesis by (intro exI [of _ n]) (simp add: funpow_swap1)
qed

lemma draws_less:
  assumes "\<not> P (lcg_next s)" "P y"
  shows "(LEAST n. P ((lcg_next ^^ Suc n) (lcg_next s))) < (LEAST n. P ((lcg_next ^^ Suc n) s))"
proof -
  let ?m = "LEAST n. P ((lcg_next ^^ Suc n) s)"
  have m: "P ((lcg_next ^^ Suc ?m) s)" using lcg_next_later [of P, OF assms(2)] by (rule LeastI_ex)
  with assms(1) obtain k where k: "?m = Suc k" by (cases ?m) auto
  then have "P ((lcg_next ^^ Suc k) (lcg_next s))" using m by (simp add: funpow_swap1)
  then have "(LEAST n. P ((lcg_next ^^ Suc n) (lcg_next s))) \<le> k" by (rule Least_le)
  with k show ?thesis by simp
qed

text \<open>The \<^verbatim>\<open>do .. while\<close> loops.\<close>

function draw32 :: "u32 \<Rightarrow> u64 \<Rightarrow> u32 \<times> u64" where
  "draw32 threshold state = (let (r, s) = local_rand_next state in if r < threshold then draw32 threshold s else (r, s))"
  by pat_completeness auto
termination
proof (relation "measure (\<lambda>(threshold, state). LEAST n. \<not> fst (local_rand_next ((lcg_next ^^ n) state)) < threshold)", goal_cases)
  case (2 threshold state x r s)
  let ?P = "\<lambda>w :: u64. \<not> (ucast (drop_bit 32 w) :: u32) < threshold"
  have "ucast (drop_bit 32 (- 1 :: u64)) = (- 1 :: u32)" by (rule bit_word_eqI) (simp add: bit_simps)
  then have y: "?P (- 1)" by (simp add: not_less word_order.extremum)
  have s: "s = lcg_next state" "r = ucast (drop_bit 32 (lcg_next state))" using 2 by (simp_all add: local_rand_next_def Let_def)
  have "\<not> ?P (lcg_next state)" using 2 s by simp
  from draws_less [where P = ?P, OF this y] show ?case by (simp add: local_rand_next_def Let_def s)
qed simp

declare draw32.simps [simp del]

function draw64 :: "u64 \<Rightarrow> u64 \<Rightarrow> u64 \<times> u64" where
  "draw64 threshold state = (let (r, s) = local_rand_next64 state in if r < threshold then draw64 threshold s else (r, s))"
  by pat_completeness auto
termination
proof (relation "measure (\<lambda>(threshold, state). LEAST n. \<not> fst (local_rand_next64 ((lcg_next ^^ n) state)) < threshold)", goal_cases)
  case (2 threshold state x r s)
  let ?P = "\<lambda>w. \<not> w < threshold"
  have y: "?P (- 1)" by (simp add: not_less word_order.extremum)
  have s: "s = lcg_next state" "r = lcg_next state" using 2 by (simp_all add: local_rand_next64_def Let_def)
  have "\<not> ?P (lcg_next state)" using 2 s by simp
  from draws_less [where P = ?P, OF this y] show ?case by (simp add: local_rand_next64_def Let_def s)
qed simp

declare draw64.simps [simp del]

definition bounded_rand :: "u64 \<Rightarrow> u32 \<Rightarrow> u32 \<times> u64" where
  "bounded_rand state bound =
     (if bound = 0 \<or> bound = 1 then (0, state)
      else let (r, s) = draw32 (- bound mod bound) state in (r mod bound, s))"

definition bounded_rand64 :: "u64 \<Rightarrow> u64 \<Rightarrow> u64 \<times> u64" where
  "bounded_rand64 state bound =
     (if bound = 0 \<or> bound = 1 then (0, state)
      else let (r, s) = draw64 (- bound mod bound) state in (r mod bound, s))"

definition derive_sequence_seed :: "u64 \<Rightarrow> nat \<Rightarrow> u64" where
  "derive_sequence_seed seed diff_index =
     (let z0 = seed + 0x9E3779B97F4A7C15 * of_nat (diff_index + 1);
          z1 = (z0 XOR drop_bit 30 z0) * 0xBF58476D1CE4E5B9;
          z2 = (z1 XOR drop_bit 27 z1) * 0x94D049BB133111EB;
          z3 = z2 XOR drop_bit 31 z2
      in if z3 = 0 then 0x9E3779B97F4A7C15 else z3)"

section \<open>Repository\<close>

text \<open>What SQLite answers about one column of the current row, and about one statement.\<close>

record sql_column =
  col_is_null :: bool
  col_int64 :: int
  col_int :: int
  col_text :: "byte list option"
  col_bytes :: int

type_synonym sql_row = "nat \<Rightarrow> sql_column"

record sql_query =
  q_prepare :: bool
  q_bind :: bool
  q_rows :: "sql_row list"
  q_done :: bool

type_synonym sentence_db = "ToosTypeLanguage \<Rightarrow> nat \<Rightarrow> sql_query"

definition column_positive_u64 :: "sql_column \<Rightarrow> u64 option" where
  "column_positive_u64 c = (if col_is_null c then None else if col_int64 c \<le> 0 then None else Some (of_int (col_int64 c)))"

definition column_difficulty :: "sql_column \<Rightarrow> byte option" where
  "column_difficulty c = (if col_is_null c then None else if col_int c < 1 \<or> col_int c > 3 then None else Some (of_int (col_int c)))"

definition copy_column_text :: "sql_column \<Rightarrow> nat \<Rightarrow> byte list option" where
  "copy_column_text c dst_size =
     (if col_is_null c then None
      else case col_text c of None \<Rightarrow> None
      | Some src \<Rightarrow>
          if col_bytes c < 0 then None
          else let bytes = nat (col_bytes c)
          in if bytes \<ge> dst_size then None
             else if 0 \<in> set (take bytes src) then None
             else Some (take bytes src @ replicate (dst_size - bytes) 0))"

definition read_sentence_row :: "sql_row \<Rightarrow> ToosTypeSentence option" where
  "read_sentence_row row =
     do { sid \<leftarrow> column_positive_u64 (row 0);
          cat \<leftarrow> column_positive_u64 (row 1);
          ko \<leftarrow> column_difficulty (row 2);
          en \<leftarrow> column_difficulty (row 3);
          ko_text \<leftarrow> copy_column_text (row 4) TOOS_TYPE_TEXT_MAX_BYTES;
          en_text \<leftarrow> copy_column_text (row 5) TOOS_TYPE_TEXT_MAX_BYTES;
          Some \<lparr>se_id = sid, se_category_id = cat, se_difficulty_ko = ko, se_difficulty_en = en, se_ko_text = ko_text, se_en_text = en_text\<rparr> }"

text \<open>The loop over the rows, with the visitor and its state; the visitor's answer \<^verbatim>\<open>false\<close> is \<open>None\<close>.\<close>

fun visit_rows :: "(ToosTypeSentence \<Rightarrow> 'c \<Rightarrow> bool \<times> 'c) \<Rightarrow> 'c \<Rightarrow> sql_row list \<Rightarrow> bool \<times> 'c" where
  "visit_rows callback c [] = (True, c)"
| "visit_rows callback c (row # rows) =
     (case read_sentence_row row of None \<Rightarrow> (False, c)
      | Some sentence \<Rightarrow> (case callback sentence c of (ok, c1) \<Rightarrow> if \<not> ok then (False, c1) else visit_rows callback c1 rows))"

definition toos_type_sentence_visit_by_difficulty ::
  "sentence_db \<Rightarrow> ToosTypeLanguage \<Rightarrow> nat \<Rightarrow> (ToosTypeSentence \<Rightarrow> 'c \<Rightarrow> bool \<times> 'c) \<Rightarrow> 'c \<Rightarrow> bool \<times> 'c" where
  "toos_type_sentence_visit_by_difficulty db language difficulty callback user_data =
     (if language \<noteq> TOOS_TYPE_LANG_KO \<and> language \<noteq> TOOS_TYPE_LANG_EN then (False, user_data)
      else if difficulty < 1 \<or> difficulty > 3 then (False, user_data)
      else let q = db language difficulty
      in if \<not> q_prepare q \<or> \<not> q_bind q then (False, user_data)
         else (case visit_rows callback user_data (q_rows q) of (ok, c) \<Rightarrow> (ok \<and> q_done q, c)))"

section \<open>Reservoir\<close>

abbreviation (input) TOOS_TYPE_MAX_POOL_SIZE :: nat where "TOOS_TYPE_MAX_POOL_SIZE \<equiv> 1000"

record ReservoirCollector =
  co_pool :: "ToosTypeSentence list"
  co_difficulty :: "nat list"
  co_pool_capacity :: nat
  co_seen_count :: u64
  co_rng_state :: u64
  co_current_difficulty :: nat

definition pool_collect_callback :: "ToosTypeSentence \<Rightarrow> ReservoirCollector \<Rightarrow> bool \<times> ReservoirCollector" where
  "pool_collect_callback sentence collector =
     (if co_seen_count collector = - 1 then (False, collector)
      else let c = collector\<lparr>co_seen_count := co_seen_count collector + 1\<rparr>
      in if length (co_pool c) < co_pool_capacity c
         then (True, c\<lparr>co_pool := co_pool c @ [sentence], co_difficulty := co_difficulty c @ [co_current_difficulty c]\<rparr>)
         else let (j, rng) = bounded_rand64 (co_rng_state c) (co_seen_count c); c1 = c\<lparr>co_rng_state := rng\<rparr>
              in if unat j \<ge> co_pool_capacity c1 then (True, c1)
                 else (True, c1\<lparr>co_pool := (co_pool c1)[unat j := sentence],
                               co_difficulty := (co_difficulty c1)[unat j := co_current_difficulty c1]\<rparr>))"

section \<open>Sequences\<close>

record ToosTypeSpawnEngine =
  sp_rng_state :: u64
  sp_sequence_rng_state :: "nat \<Rightarrow> u64"
  sp_loaded :: bool
  sp_base_pool :: "ToosTypeSentence list option"
  sp_base_count :: nat
  sp_difficulty_start :: "nat list"
  sp_difficulty_count :: "nat list"
  sp_sequence :: "nat \<Rightarrow> nat list option"
  sp_sequence_capacity :: "nat \<Rightarrow> nat"

definition difficulty_to_index :: "nat \<Rightarrow> nat option" where
  "difficulty_to_index difficulty = (if difficulty < 1 \<or> difficulty > 3 then None else Some (difficulty - 1))"

text \<open>The Fisher-Yates loop on the new part of the sequence.\<close>

fun shuffle :: "nat \<Rightarrow> nat list \<Rightarrow> u64 \<Rightarrow> nat list \<times> u64" where
  "shuffle 0 xs rng = (xs, rng)"
| "shuffle (Suc i) xs rng =
     (let (j, rng1) = bounded_rand rng (of_nat (Suc i + 1)); temp = xs ! Suc i
      in shuffle i (xs[Suc i := xs ! unat j, unat j := temp]) rng1)"

lemma shuffle_length [simp]: "length (fst (shuffle i xs rng)) = length xs"
  by (induction i arbitrary: xs rng) (auto simp: Let_def split: prod.splits)

lemma shuffle_len: "shuffle i xs rng = (ys, r) \<Longrightarrow> length ys = length xs"
  by (metis fst_conv shuffle_length)

definition append_epoch :: "ToosTypeSpawnEngine \<Rightarrow> nat \<Rightarrow> bool \<times> ToosTypeSpawnEngine" where
  "append_epoch engine diff_index =
     (if diff_index \<ge> 3 then (False, engine)
      else let cnt = sp_difficulty_count engine ! diff_index
      in if cnt = 0 then (False, engine)
         else case sp_sequence engine diff_index of None \<Rightarrow> (False, engine)
         | Some seq \<Rightarrow>
             let start = length seq
             in if start > SIZE_MAX - cnt then (False, engine)
                else if start + cnt > sp_sequence_capacity engine diff_index then (False, engine)
                else let (epoch, rng) = shuffle (cnt - 1) [0..<cnt] (sp_sequence_rng_state engine diff_index)
                     in (True, engine\<lparr>sp_sequence := (sp_sequence engine)(diff_index := Some (seq @ epoch)),
                                      sp_sequence_rng_state := (sp_sequence_rng_state engine)(diff_index := rng)\<rparr>))"

definition ToosTypeSpawnEngine_zero :: ToosTypeSpawnEngine where
  "ToosTypeSpawnEngine_zero =
     \<lparr>sp_rng_state = 0, sp_sequence_rng_state = (\<lambda>_. 0), sp_loaded = False, sp_base_pool = None, sp_base_count = 0,
      sp_difficulty_start = [0, 0, 0], sp_difficulty_count = [0, 0, 0], sp_sequence = (\<lambda>_. None),
      sp_sequence_capacity = (\<lambda>_. 0)\<rparr>"

definition ToosTypeSpawnEngine_init :: "u64 \<Rightarrow> ToosTypeSpawnEngine" where
  "ToosTypeSpawnEngine_init seed = ToosTypeSpawnEngine_zero\<lparr>sp_rng_state := seed\<rparr>"

definition ToosTypeSpawnEngine_deinit :: "ToosTypeSpawnEngine \<Rightarrow> ToosTypeSpawnEngine" where
  "ToosTypeSpawnEngine_deinit engine = ToosTypeSpawnEngine_zero"

section \<open>Decks\<close>

text \<open>The answers of the allocator: the two sample arrays, the grouped pool, the sequences.\<close>

record deck_mem =
  dm_pool :: bool
  dm_difficulty :: bool
  dm_grouped :: bool
  dm_sequence :: "nat \<Rightarrow> bool"

fun load_difficulties :: "sentence_db \<Rightarrow> ToosTypeLanguage \<Rightarrow> ReservoirCollector \<Rightarrow> nat list \<Rightarrow> ReservoirCollector option" where
  "load_difficulties db language collector [] = Some collector"
| "load_difficulties db language collector (d # ds) =
     (case toos_type_sentence_visit_by_difficulty db language d pool_collect_callback (collector\<lparr>co_current_difficulty := d\<rparr>) of
        (ok, c) \<Rightarrow> if \<not> ok then None else load_difficulties db language c ds)"

fun count_difficulties :: "nat list \<Rightarrow> nat list \<Rightarrow> nat list option" where
  "count_difficulties counts [] = Some counts"
| "count_difficulties counts (d # ds) =
     (case difficulty_to_index d of None \<Rightarrow> None | Some i \<Rightarrow> count_difficulties (counts[i := counts ! i + 1]) ds)"

definition zero_sentence :: ToosTypeSentence where
  "zero_sentence = \<lparr>se_id = 0, se_category_id = 0, se_difficulty_ko = 0, se_difficulty_en = 0,
     se_ko_text = replicate TOOS_TYPE_TEXT_MAX_BYTES 0, se_en_text = replicate TOOS_TYPE_TEXT_MAX_BYTES 0\<rparr>"

fun group_pool :: "nat list \<Rightarrow> ToosTypeSentence list \<Rightarrow> (ToosTypeSentence \<times> nat) list \<Rightarrow> ToosTypeSentence list option" where
  "group_pool write_pos grouped [] = Some grouped"
| "group_pool write_pos grouped ((s, d) # sds) =
     (case difficulty_to_index d of None \<Rightarrow> None
      | Some i \<Rightarrow> group_pool (write_pos[i := write_pos ! i + 1]) (grouped[write_pos ! i := s]) sds)"

fun fill_sequences :: "(nat \<Rightarrow> bool) \<Rightarrow> u64 \<Rightarrow> ToosTypeSpawnEngine \<Rightarrow> nat list \<Rightarrow> ToosTypeSpawnEngine option" where
  "fill_sequences mem base_seed temp [] = Some temp"
| "fill_sequences mem base_seed temp (i # is) =
     (if sp_difficulty_count temp ! i > SIZE_MAX div 4 \<or> \<not> mem i then None
      else let cnt = sp_difficulty_count temp ! i;
               t1 = temp\<lparr>sp_sequence_rng_state := (sp_sequence_rng_state temp)(i := derive_sequence_seed base_seed i),
                         sp_sequence := (sp_sequence temp)(i := Some []),
                         sp_sequence_capacity := (sp_sequence_capacity temp)(i := cnt)\<rparr>
           in case append_epoch t1 i of (ok, t2) \<Rightarrow> if \<not> ok then None else fill_sequences mem base_seed t2 is)"

definition ToosTypeSpawnEngine_build_deck ::
  "deck_mem \<Rightarrow> ToosTypeSpawnEngine \<Rightarrow> sentence_db option \<Rightarrow> ToosTypeLanguage \<Rightarrow> bool \<times> ToosTypeSpawnEngine" where
  "ToosTypeSpawnEngine_build_deck mem engine db language =
     (case db of None \<Rightarrow> (False, engine)
      | Some db \<Rightarrow>
     if sp_loaded engine \<or> sp_base_pool engine \<noteq> None \<or> (\<exists>i \<in> {0, 1, 2}. sp_sequence engine i \<noteq> None) then (False, engine)
     else if language \<noteq> TOOS_TYPE_LANG_EN \<and> language \<noteq> TOOS_TYPE_LANG_KO then (False, engine)
     else if \<not> dm_pool mem \<or> \<not> dm_difficulty mem then (False, engine)
     else let base_seed = sp_rng_state engine;
              collector = \<lparr>co_pool = [], co_difficulty = [], co_pool_capacity = TOOS_TYPE_MAX_POOL_SIZE, co_seen_count = 0,
                           co_rng_state = base_seed, co_current_difficulty = 0\<rparr>
     in case load_difficulties db language collector [1, 2, 3] of None \<Rightarrow> (False, engine)
     | Some c \<Rightarrow>
         if co_pool c = [] then (False, engine)
         else case count_difficulties [0, 0, 0] (co_difficulty c) of None \<Rightarrow> (False, engine)
         | Some counts \<Rightarrow>
             if 0 \<in> set counts then (False, engine)
             else if \<not> dm_grouped mem then (False, engine)
             else let start = [0, counts ! 0, counts ! 0 + counts ! 1]
             in case group_pool start (replicate (length (co_pool c)) zero_sentence) (zip (co_pool c) (co_difficulty c)) of
                  None \<Rightarrow> (False, engine)
                | Some grouped \<Rightarrow>
                    let temp = ToosTypeSpawnEngine_zero\<lparr>sp_rng_state := co_rng_state c, sp_base_pool := Some grouped,
                          sp_base_count := length (co_pool c), sp_difficulty_start := start, sp_difficulty_count := counts\<rparr>
                    in case fill_sequences (dm_sequence mem) base_seed temp [0, 1, 2] of
                         None \<Rightarrow> (False, engine)
                       | Some t \<Rightarrow> (True, t\<lparr>sp_loaded := True\<rparr>))"

text \<open>The loop of \<^verbatim>\<open>ensure_cursor\<close>: each round adds a whole epoch.\<close>

function extend_sequence :: "ToosTypeSpawnEngine \<Rightarrow> nat \<Rightarrow> nat \<Rightarrow> bool \<times> ToosTypeSpawnEngine" where
  "extend_sequence engine diff_index needed =
     (case sp_sequence engine diff_index of None \<Rightarrow> (False, engine)
      | Some seq \<Rightarrow>
          if length seq < needed
          then (case append_epoch engine diff_index of (ok, e) \<Rightarrow> if \<not> ok then (False, e) else extend_sequence e diff_index needed)
          else (True, engine))"
  by pat_completeness auto
termination
proof (relation "measure (\<lambda>(engine, i, needed). needed - (case sp_sequence engine i of None \<Rightarrow> 0 | Some seq \<Rightarrow> length seq))", goal_cases)
  case (2 engine diff_index needed seq ok e)
  then have "ok" "append_epoch engine diff_index = (True, e)" by simp_all
  then have "\<exists>epoch. sp_sequence e diff_index = Some (seq @ epoch) \<and> epoch \<noteq> []"
    using 2 by (auto simp: append_epoch_def Let_def split: if_splits option.splits prod.splits dest!: shuffle_len)
  with 2 show ?case by (auto simp: length_greater_0_conv [symmetric] simp del: length_greater_0_conv)
qed simp

declare extend_sequence.simps [simp del]

definition ToosTypeSpawnEngine_ensure_cursor :: "bool \<Rightarrow> ToosTypeSpawnEngine \<Rightarrow> nat \<Rightarrow> nat \<Rightarrow> bool \<times> ToosTypeSpawnEngine" where
  "ToosTypeSpawnEngine_ensure_cursor mem engine difficulty cursor =
     (if \<not> sp_loaded engine then (False, engine)
      else case difficulty_to_index difficulty of None \<Rightarrow> (False, engine)
      | Some diff_index \<Rightarrow>
          let cnt = sp_difficulty_count engine ! diff_index
          in if cnt = 0 then (False, engine)
             else case sp_sequence engine diff_index of None \<Rightarrow> (False, engine)
             | Some seq \<Rightarrow>
                 if cursor < length seq then (True, engine)
                 else let epoch_index = cursor div cnt
                 in if epoch_index = SIZE_MAX then (False, engine)
                    else let needed_epochs = epoch_index + 1
                    in if needed_epochs > SIZE_MAX div cnt then (False, engine)
                       else let needed_capacity = needed_epochs * cnt
                       in if needed_capacity > SIZE_MAX div 4 then (False, engine)
                          else if needed_capacity > sp_sequence_capacity engine diff_index
                          then (if \<not> mem then (False, engine)
                                else extend_sequence (engine\<lparr>sp_sequence_capacity := (sp_sequence_capacity engine)(diff_index := needed_capacity)\<rparr>)
                                       diff_index needed_capacity)
                          else extend_sequence engine diff_index needed_capacity)"

definition ToosTypeSpawnEngine_sentence_at :: "ToosTypeSpawnEngine \<Rightarrow> nat \<Rightarrow> nat \<Rightarrow> ToosTypeSentence option" where
  "ToosTypeSpawnEngine_sentence_at engine difficulty cursor =
     (if \<not> sp_loaded engine then None
      else case sp_base_pool engine of None \<Rightarrow> None
      | Some pool \<Rightarrow>
          (case difficulty_to_index difficulty of None \<Rightarrow> None
           | Some diff_index \<Rightarrow>
               (case sp_sequence engine diff_index of None \<Rightarrow> None
                | Some seq \<Rightarrow>
                    if cursor \<ge> length seq then None
                    else let relative_index = seq ! cursor
                    in if relative_index \<ge> sp_difficulty_count engine ! diff_index then None
                       else let absolute_index = sp_difficulty_start engine ! diff_index + relative_index
                       in if absolute_index \<ge> sp_base_count engine then None else Some (pool ! absolute_index))))"

end
