(* ===== verification/Toos_Deck.thy ===== *)
theory Toos_Deck
  imports Toos_Spawn
begin

text \<open>
  Correctness of the spawn engine: drawn numbers are in range and unbiased, every epoch is a permutation of the sentences of
  its difficulty, and the deck a room plays is a function of the seed and the database alone, the same for every
  player and whatever order they ask in.
\<close>

section \<open>Random numbers\<close>

lemma draw32_accepts: "draw32 threshold state = (r, s) \<Longrightarrow> threshold \<le> r"
  by (induction threshold state rule: draw32.induct) (subst (asm) (2) draw32.simps, auto simp: Let_def split: prod.splits if_splits)

lemma draw64_accepts: "draw64 threshold state = (r, s) \<Longrightarrow> threshold \<le> r"
  by (induction threshold state rule: draw64.induct) (subst (asm) (2) draw64.simps, auto simp: Let_def split: prod.splits if_splits)

lemma bounded_rand_less: "0 < bound \<Longrightarrow> bounded_rand state bound = (r, s) \<Longrightarrow> r < bound"
  by (auto simp: bounded_rand_def Let_def word_mod_less_divisor split: if_splits prod.splits)

lemma bounded_rand64_less: "0 < bound \<Longrightarrow> bounded_rand64 state bound = (r, s) \<Longrightarrow> r < bound"
  by (auto simp: bounded_rand64_def Let_def word_mod_less_divisor split: if_splits prod.splits)

text \<open>The numbers below the threshold are exactly as many as have to be left out for all remainders to be equally likely.\<close>

lemma unat_inc: "unat w < 2 ^ 32 - 1 \<Longrightarrow> unat (w + 1) = unat w + 1" for w :: u32
  by (simp add: unat_word_ariths)

lemma threshold_exact: "0 < bound \<Longrightarrow> unat (- bound mod bound) = 2 ^ 32 mod unat bound" for bound :: u32
proof -
  assume b: "0 < bound"
  then have b0: "0 < unat bound" by (simp add: word_less_nat_alt)
  have "unat (- 1 - bound) = 2 ^ 32 - 1 - unat bound"
    using unat_bound(1) [of bound] by (subst unat_sub) (auto simp: unat_max word_le_nat_alt)
  moreover have "- bound = (- 1 - bound) + 1" by simp
  ultimately have "unat (- bound) = 2 ^ 32 - unat bound" using b0 unat_bound(1) [of bound] unat_inc [of "- 1 - bound"] by simp
  then have "unat (- bound mod bound) = (2 ^ 32 - unat bound) mod unat bound" by (simp add: unat_mod)
  also have "\<dots> = 2 ^ 32 mod unat bound" using unat_bound(1) [of bound] by (intro le_mod_geq [symmetric]) simp
  finally show ?thesis .
qed

lemma residues_card:
  assumes "(v :: nat) < b"
  shows "card {r. r < k * b \<and> r mod b = v} = k"
proof -
  have "{r. r < k * b \<and> r mod b = v} = (\<lambda>i. i * b + v) ` {..<k}"
  proof (intro set_eqI iffI)
    fix r assume "r \<in> {r. r < k * b \<and> r mod b = v}"
    then have "r = (r div b) * b + v" "r div b < k" by (auto simp: less_mult_imp_div_less mult.commute)
    then show "r \<in> (\<lambda>i. i * b + v) ` {..<k}" by blast
  next
    fix r assume "r \<in> (\<lambda>i. i * b + v) ` {..<k}"
    then obtain i where "i < k" "r = i * b + v" by auto
    moreover have "i * b + v < k * b" using \<open>i < k\<close> assms by (metis add_less_cancel_left less_le_trans mult_Suc_right mult.commute mult_le_mono1 Suc_leI add.commute)
    ultimately show "r \<in> {r. r < k * b \<and> r mod b = v}" using assms by simp
  qed
  moreover have "inj_on (\<lambda>i. i * b + v) {..<k}" using assms by (auto simp: inj_on_def)
  ultimately show ?thesis by (simp add: card_image)
qed

lemma accepted_card:
  fixes b :: nat
  assumes "v < b" "b < N"
  shows "card {r. N mod b \<le> r \<and> r < N \<and> r mod b = v} = N div b"
proof -
  let ?t = "N mod b" and ?k = "N div b"
  let ?w = "(v + b - ?t) mod b"
  have t: "?t < b" using assms(1) by simp
  have N: "N = ?t + ?k * b" by simp
  have eq: "(?t + q) mod b = v \<longleftrightarrow> q mod b = ?w" for q
  proof
    assume "(?t + q) mod b = v"
    then have "?w = ((?t + q) mod b + (b - ?t)) mod b" using t by simp
    also have "\<dots> = (?t + q + (b - ?t)) mod b" by (rule mod_add_left_eq)
    also have "?t + q + (b - ?t) = q + b" using t by simp
    finally show "q mod b = ?w" by simp
  next
    assume "q mod b = ?w"
    then have "(?t + q) mod b = (?t + ?w) mod b" by (metis mod_add_right_eq)
    also have "\<dots> = (?t + (v + b - ?t)) mod b" by (simp add: mod_add_right_eq)
    also have "?t + (v + b - ?t) = v + b" using t by linarith
    also have "(v + b) mod b = v" using assms(1) by simp
    finally show "(?t + q) mod b = v" .
  qed
  have "{r. ?t \<le> r \<and> r < N \<and> r mod b = v} = (+) ?t ` {q. q < ?k * b \<and> q mod b = ?w}"
  proof (intro set_eqI iffI)
    fix r assume r: "r \<in> {r. ?t \<le> r \<and> r < N \<and> r mod b = v}"
    then have "r < ?t + ?k * b" "?t \<le> r" using N by auto
    then have "r = ?t + (r - ?t)" "r - ?t < ?k * b" by linarith+
    with r eq [of "r - ?t"] show "r \<in> (+) ?t ` {q. q < ?k * b \<and> q mod b = ?w}" by auto
  next
    fix r assume "r \<in> (+) ?t ` {q. q < ?k * b \<and> q mod b = ?w}"
    then obtain q where q: "r = ?t + q" "q < ?k * b" "q mod b = ?w" by auto
    then have "r < N" using N by linarith
    with q eq [of q] show "r \<in> {r. ?t \<le> r \<and> r < N \<and> r mod b = v}" by simp
  qed
  moreover have "inj_on ((+) ?t) {q. q < ?k * b \<and> q mod b = ?w}" by simp
  ultimately show ?thesis using residues_card [of ?w b ?k] assms(1) by (simp add: card_image)
qed

section \<open>Epochs\<close>

lemma swap_mset: "i < length xs \<Longrightarrow> j < length xs \<Longrightarrow> mset (xs[i := xs ! j, j := xs ! i]) = mset xs"
  using mset_swap [of j xs i] by (simp add: list_update_swap)

lemma shuffle_mset: "i < length xs \<Longrightarrow> length xs < 2 ^ 32 \<Longrightarrow> mset (fst (shuffle i xs rng)) = mset xs"
proof (induction i arbitrary: xs rng)
  case (Suc i)
  obtain j r where j: "bounded_rand rng (of_nat (Suc i + 1)) = (j, r)" by force
  have b: "unat (of_nat (Suc i + 1) :: u32) = Suc i + 1" using Suc.prems by (simp add: unat_of_nat take_bit_nat_eq_self del: of_nat_Suc of_nat_add)
  then have "(0 :: u32) < of_nat (Suc i + 1)" by (simp add: word_less_nat_alt del: of_nat_Suc of_nat_add)
  from bounded_rand_less [OF this j] b have "unat j < length xs" using Suc.prems by (simp add: word_less_nat_alt del: of_nat_Suc of_nat_add)
  with Suc.IH [of "xs[Suc i := xs ! unat j, unat j := xs ! Suc i]" r] Suc.prems swap_mset [of "Suc i" xs "unat j"] j
  show ?case by (simp add: Let_def del: of_nat_Suc of_nat_add)
qed simp

lemma epoch_permutation: "0 < cnt \<Longrightarrow> cnt < 2 ^ 32 \<Longrightarrow> shuffle (cnt - 1) [0..<cnt] rng = (xs, r) \<Longrightarrow> mset xs = mset [0..<cnt]"
  using shuffle_mset [of "cnt - 1" "[0..<cnt]" rng] by simp

text \<open>The cards a seed denotes: \<open>n\<close> epochs of \<open>cnt\<close> cards.\<close>

fun deck :: "nat \<Rightarrow> u64 \<Rightarrow> nat \<Rightarrow> nat list \<times> u64" where
  "deck cnt rng 0 = ([], rng)"
| "deck cnt rng (Suc n) = (let (xs, r) = deck cnt rng n; (e, r1) = shuffle (cnt - 1) [0..<cnt] r in (xs @ e, r1))"

definition cards :: "nat \<Rightarrow> u64 \<Rightarrow> nat \<Rightarrow> nat list" where "cards cnt rng n = fst (deck cnt rng n)"

lemma cards_length [simp]: "length (cards cnt rng n) = n * cnt"
  by (induction n) (auto simp: cards_def Let_def split: prod.splits dest!: shuffle_len)

lemma cards_Suc: "cards cnt rng (Suc n) = cards cnt rng n @ fst (shuffle (cnt - 1) [0..<cnt] (snd (deck cnt rng n)))"
  by (simp add: cards_def Let_def split: prod.splits)

lemma cards_prefix: "n \<le> m \<Longrightarrow> take (n * cnt) (cards cnt rng m) = cards cnt rng n"
proof (induction m)
  case (Suc m)
  then show ?case by (cases "n = Suc m") (auto simp: cards_Suc)
qed (simp add: cards_def)

text \<open>The card at a position does not depend on how many epochs there are.\<close>

definition card_at :: "nat \<Rightarrow> u64 \<Rightarrow> nat \<Rightarrow> nat" where "card_at cnt rng k = cards cnt rng (Suc (k div cnt)) ! k"

lemma cards_nth:
  assumes "k < n * cnt"
  shows "cards cnt rng n ! k = card_at cnt rng k"
proof -
  have c: "0 < cnt" using assms by (cases cnt) auto
  have "Suc (k div cnt) \<le> n" using assms by (simp add: Suc_leI less_mult_imp_div_less)
  then have "cards cnt rng (Suc (k div cnt)) ! k = cards cnt rng n ! k"
    using cards_prefix [of "Suc (k div cnt)" n cnt rng] nth_take [of k "Suc (k div cnt) * cnt" "cards cnt rng n"] c
    by (metis div_less_iff_less_mult lessI)
  then show ?thesis by (simp add: card_at_def)
qed

lemma epoch_cards:
  assumes "0 < cnt" "cnt < 2 ^ 32"
  shows "mset (map (card_at cnt rng) [q * cnt..<Suc q * cnt]) = mset [0..<cnt]"
proof -
  let ?e = "fst (shuffle (cnt - 1) [0..<cnt] (snd (deck cnt rng q)))"
  have "map (card_at cnt rng) [q * cnt..<Suc q * cnt] = map (\<lambda>k. cards cnt rng (Suc q) ! k) [q * cnt..<Suc q * cnt]"
    using cards_nth [of _ "Suc q" cnt rng] by simp
  also have "\<dots> = drop (q * cnt) (cards cnt rng (Suc q))"
    by (rule nth_equalityI) (simp_all add: add.commute)
  also have "\<dots> = ?e" by (simp add: cards_Suc)
  finally show ?thesis using shuffle_mset [of "cnt - 1" "[0..<cnt]"] assms by simp
qed

section \<open>The engine\<close>

definition seq_inv :: "u64 \<Rightarrow> ToosTypeSpawnEngine \<Rightarrow> nat \<Rightarrow> nat \<Rightarrow> bool" where
  "seq_inv seed e i n \<longleftrightarrow>
     sp_sequence e i = Some (cards (sp_difficulty_count e ! i) (derive_sequence_seed seed i) n)
     \<and> sp_sequence_rng_state e i = snd (deck (sp_difficulty_count e ! i) (derive_sequence_seed seed i) n)
     \<and> n * sp_difficulty_count e ! i \<le> sp_sequence_capacity e i"

definition engine_inv :: "u64 \<Rightarrow> ToosTypeSentence list \<Rightarrow> nat list \<Rightarrow> nat list \<Rightarrow> ToosTypeSpawnEngine \<Rightarrow> bool" where
  "engine_inv seed pool start counts e \<longleftrightarrow> sp_loaded e \<and> sp_base_pool e = Some pool \<and> sp_base_count e = length pool
     \<and> sp_difficulty_start e = start \<and> sp_difficulty_count e = counts
     \<and> (\<forall>i < 3. 0 < counts ! i \<and> start ! i + counts ! i \<le> length pool) \<and> length pool \<le> 1000
     \<and> (\<forall>i < 3. \<exists>n. seq_inv seed e i n)"

definition only_seq :: "nat \<Rightarrow> ToosTypeSpawnEngine \<Rightarrow> ToosTypeSpawnEngine \<Rightarrow> bool" where
  "only_seq i e e1 \<longleftrightarrow> sp_rng_state e1 = sp_rng_state e \<and> sp_loaded e1 = sp_loaded e \<and> sp_base_pool e1 = sp_base_pool e
     \<and> sp_base_count e1 = sp_base_count e \<and> sp_difficulty_start e1 = sp_difficulty_start e \<and> sp_difficulty_count e1 = sp_difficulty_count e
     \<and> (\<forall>j. j \<noteq> i \<longrightarrow> sp_sequence e1 j = sp_sequence e j \<and> sp_sequence_rng_state e1 j = sp_sequence_rng_state e j
            \<and> sp_sequence_capacity e1 j = sp_sequence_capacity e j)"

lemma append_epoch_ok:
  assumes "seq_inv seed e i n" "i < 3" "0 < sp_difficulty_count e ! i" "Suc n * sp_difficulty_count e ! i \<le> sp_sequence_capacity e i"
    "Suc n * sp_difficulty_count e ! i \<le> SIZE_MAX"
  shows "\<exists>e1. append_epoch e i = (True, e1) \<and> seq_inv seed e1 i (Suc n)
    \<and> only_seq i e e1"
proof -
  let ?c = "sp_difficulty_count e ! i" and ?s = "derive_sequence_seed seed i"
  obtain xs r where sh: "shuffle (?c - 1) [0..<?c] (snd (deck ?c ?s n)) = (xs, r)" by force
  have seq: "sp_sequence e i = Some (cards ?c ?s n)" "sp_sequence_rng_state e i = snd (deck ?c ?s n)" using assms(1) by (simp_all add: seq_inv_def)
  have d: "deck ?c ?s (Suc n) = (cards ?c ?s n @ xs, r)" using sh by (auto simp: cards_def Let_def split: prod.splits)
  then have c: "cards ?c ?s (Suc n) = cards ?c ?s n @ xs" by (simp add: cards_def)
  let ?e = "e\<lparr>sp_sequence := (sp_sequence e)(i := Some (cards ?c ?s n @ xs)), sp_sequence_rng_state := (sp_sequence_rng_state e)(i := r)\<rparr>"
  have "append_epoch e i = (True, ?e)" using assms(2-5) seq sh by (simp add: append_epoch_def Let_def)
  moreover have "seq_inv seed ?e i (Suc n)" using assms(4) c d by (simp add: seq_inv_def)
  ultimately show ?thesis by (intro exI [of _ ?e]) (simp add: only_seq_def)
qed

lemma extend_sequence_ok:
  assumes "seq_inv seed e i n" "i < 3" "0 < sp_difficulty_count e ! i" "m * sp_difficulty_count e ! i \<le> sp_sequence_capacity e i"
    "m * sp_difficulty_count e ! i \<le> SIZE_MAX"
  shows "\<exists>e1. extend_sequence e i (m * sp_difficulty_count e ! i) = (True, e1) \<and> seq_inv seed e1 i (max n m)
    \<and> only_seq i e e1"
  using assms
proof (induction "m - n" arbitrary: e n)
  case 0
  then have "m \<le> n" by simp
  moreover have "sp_sequence e i = Some (cards (sp_difficulty_count e ! i) (derive_sequence_seed seed i) n)" using 0 by (simp add: seq_inv_def)
  ultimately show ?case using 0 by (intro exI [of _ e]) (simp add: extend_sequence.simps [of e] max_def only_seq_def)
next
  case (Suc k)
  let ?c = "sp_difficulty_count e ! i"
  have n: "Suc n \<le> m" "n * ?c < m * ?c" using Suc by simp_all
  then have le: "Suc n * ?c \<le> m * ?c" by (simp only: mult_le_mono1)
  then have "Suc n * ?c \<le> sp_sequence_capacity e i" "Suc n * ?c \<le> SIZE_MAX" using Suc.prems(4,5) by linarith+
  from append_epoch_ok [OF Suc.prems(1-3) this] obtain e1 where e1: "append_epoch e i = (True, e1)" "seq_inv seed e1 i (Suc n)"
    "only_seq i e e1" by blast
  have c: "sp_difficulty_count e1 = sp_difficulty_count e" "sp_sequence_capacity e1 = sp_sequence_capacity e" using e1(1,3) by (auto simp: only_seq_def append_epoch_def Let_def split: if_splits option.splits prod.splits)
  have "sp_sequence e i = Some (cards ?c (derive_sequence_seed seed i) n)" using Suc.prems(1) by (simp add: seq_inv_def)
  then have ex: "extend_sequence e i (m * ?c) = extend_sequence e1 i (m * ?c)" using e1(1) n(2) by (simp add: extend_sequence.simps [of e])
  have "k = m - Suc n" using Suc.hyps(2) by simp
  from Suc.hyps(1) [OF this e1(2) Suc.prems(2)] Suc.prems c obtain e2 where
    e2: "extend_sequence e1 i (m * ?c) = (True, e2)" "seq_inv seed e2 i (max (Suc n) m)"
      "only_seq i e1 e2"
    by auto
  have "only_seq i e e2" using e1(3) e2(3) by (simp add: only_seq_def)
  moreover have "max (Suc n) m = max n m" using n by simp
  ultimately show ?case using ex e2(1,2) by (intro exI [of _ e2]) simp
qed

definition card_sentence :: "u64 \<Rightarrow> ToosTypeSentence list \<Rightarrow> nat list \<Rightarrow> nat list \<Rightarrow> nat \<Rightarrow> nat \<Rightarrow> ToosTypeSentence" where
  "card_sentence seed pool start counts d c = pool ! (start ! (d - 1) + card_at (counts ! (d - 1)) (derive_sequence_seed seed (d - 1)) c)"

lemma card_at_less: "0 < cnt \<Longrightarrow> cnt < 2 ^ 32 \<Longrightarrow> card_at cnt rng k < cnt"
proof -
  assume c: "0 < cnt" "cnt < 2 ^ 32"
  let ?q = "k div cnt"
  have "k \<in> set [?q * cnt..<Suc ?q * cnt]" using c(1) by (simp add: dividend_less_div_times add.commute)
  then have "card_at cnt rng k \<in> set (map (card_at cnt rng) [?q * cnt..<Suc ?q * cnt])" by simp
  also have "\<dots> = set [0..<cnt]" using epoch_cards [OF c, of rng ?q] by (metis set_mset_mset)
  finally show ?thesis by simp
qed

lemma sentence_at_card:
  assumes "engine_inv seed pool start counts e" "1 \<le> d" "d \<le> 3" "sp_sequence e (d - 1) = Some seq" "c < length seq"
  shows "ToosTypeSpawnEngine_sentence_at e d c = Some (card_sentence seed pool start counts d c)"
proof -
  let ?i = "d - 1" and ?cnt = "counts ! (d - 1)" and ?s = "derive_sequence_seed seed (d - 1)"
  have i: "?i < 3" using assms(2,3) by simp
  then obtain n where "seq_inv seed e ?i n" using assms(1) unfolding engine_inv_def by blast
  with assms(1,4) have seq: "seq = cards ?cnt ?s n" by (simp add: seq_inv_def engine_inv_def)
  have c: "0 < ?cnt" "start ! ?i + ?cnt \<le> length pool" "length pool \<le> 1000" using assms(1) i unfolding engine_inv_def by blast+
  have "seq ! c = card_at ?cnt ?s c" using assms(5) unfolding seq by (intro cards_nth) simp
  moreover have "card_at ?cnt ?s c < ?cnt" using c by (intro card_at_less) simp_all
  moreover from this c(2) have "start ! ?i + card_at ?cnt ?s c < length pool" by linarith
  ultimately show ?thesis using assms i
    by (simp add: ToosTypeSpawnEngine_sentence_at_def engine_inv_def difficulty_to_index_def card_sentence_def Let_def)
qed

lemma only_seq_inv:
  assumes "engine_inv seed pool start counts e" "only_seq i e e1" "i < 3" "seq_inv seed e1 i n"
  shows "engine_inv seed pool start counts e1"
proof -
  have "\<exists>n. seq_inv seed e1 j n" if j: "j < 3" for j
  proof (cases "j = i")
    case False
    obtain n where "seq_inv seed e j n" using assms(1) j unfolding engine_inv_def by blast
    with assms(2) False show ?thesis by (auto simp: seq_inv_def only_seq_def)
  qed (use assms(4) in blast)
  with assms(1,2) show ?thesis by (auto simp: engine_inv_def only_seq_def)
qed

lemma ensure_cursor_grows:
  assumes "engine_inv seed pool start counts e" "difficulty_to_index d = Some i" "sp_sequence e i = Some seq" "length seq \<le> c"
    and "ToosTypeSpawnEngine_ensure_cursor mem e d c = (ok, e1)"
  shows "\<not> ok \<and> e1 = e \<or> engine_inv seed pool start counts e1 \<and> (\<exists>seq. sp_sequence e1 i = Some seq \<and> c < length seq)"
    and "mem \<Longrightarrow> c \<le> SIZE_MAX div 4 - 1000 \<Longrightarrow> ok"
proof -
  let ?cnt = "counts ! i" and ?m = "Suc (c div (counts ! i))"
  have i: "i < 3" using assms(2) by (auto simp: difficulty_to_index_def split: if_splits)
  have inv: "sp_loaded e" "sp_difficulty_count e = counts" "0 < ?cnt" "start ! i + ?cnt \<le> length pool" "length pool \<le> 1000"
    using assms(1) i unfolding engine_inv_def by blast+
  obtain n where n: "seq_inv seed e i n" using assms(1) i unfolding engine_inv_def by blast
  define e0 where "e0 = (if ?m * ?cnt > sp_sequence_capacity e i then e\<lparr>sp_sequence_capacity := (sp_sequence_capacity e)(i := ?m * ?cnt)\<rparr> else e)"
  have e0: "seq_inv seed e0 i n" "only_seq i e e0" "sp_difficulty_count e0 = counts" "?m * ?cnt \<le> sp_sequence_capacity e0 i"
    using n inv(2) by (auto simp: e0_def seq_inv_def only_seq_def)
  have c: "c < ?m * ?cnt" using inv(3) by (simp add: dividend_less_div_times add.commute)
  show "\<not> ok \<and> e1 = e \<or> engine_inv seed pool start counts e1 \<and> (\<exists>seq. sp_sequence e1 i = Some seq \<and> c < length seq)"
  proof (cases "e1 = e \<and> \<not> ok")
    case False
    then have s: "?m * ?cnt \<le> SIZE_MAX div 4" "extend_sequence e0 i (?m * ?cnt) = (ok, e1)"
      using assms(2-5) inv by (auto simp: ToosTypeSpawnEngine_ensure_cursor_def Let_def e0_def not_less split: if_splits)
    then have "?m * sp_difficulty_count e0 ! i \<le> SIZE_MAX" using e0(3) by simp
    from extend_sequence_ok [OF e0(1) i _ _ this] e0 inv s(2) have x: "seq_inv seed e1 i (max n ?m)" "only_seq i e0 e1" "ok" by auto
    have "only_seq i e e1" using e0(2) x(2) by (simp add: only_seq_def)
    from only_seq_inv [OF assms(1) this i x(1)] have inv1: "engine_inv seed pool start counts e1" .
    have "?m * ?cnt \<le> max n ?m * ?cnt" by (intro mult_le_mono1) simp
    moreover have "sp_difficulty_count e1 = counts" using inv1 by (simp add: engine_inv_def)
    ultimately show ?thesis using x(1) c inv1 by (auto simp: seq_inv_def)
  qed simp
  assume mem: "mem" "c \<le> SIZE_MAX div 4 - 1000"
  have "c div ?cnt * ?cnt \<le> c" by (rule div_times_less_eq_dividend)
  moreover have "counts ! i \<le> 1000" using inv(4,5) by linarith
  ultimately have l: "?m * ?cnt \<le> SIZE_MAX div 4" using mem(2) unfolding mult_Suc by linarith
  have "?m \<le> SIZE_MAX div ?cnt" using l inv(3) by (simp add: less_eq_div_iff_mult_less_eq)
  moreover have "c div ?cnt \<noteq> SIZE_MAX" using mem(2) div_le_dividend [of c ?cnt] by linarith
  ultimately have "extend_sequence e0 i (?m * ?cnt) = (ok, e1)"
    using assms(2-5) inv mem(1) l by (auto simp: ToosTypeSpawnEngine_ensure_cursor_def Let_def e0_def not_less split: if_splits)
  moreover have "?m * sp_difficulty_count e0 ! i \<le> SIZE_MAX" using l e0(3) by simp
  ultimately show ok using extend_sequence_ok [OF e0(1) i, of ?m] e0 inv by auto
qed

lemma ensure_cursor_inv:
  assumes "engine_inv seed pool start counts e" "ToosTypeSpawnEngine_ensure_cursor mem e d c = (ok, e1)"
  shows "engine_inv seed pool start counts e1" and "ok \<Longrightarrow> ToosTypeSpawnEngine_sentence_at e1 d c = Some (card_sentence seed pool start counts d c)"
    and "mem \<Longrightarrow> 1 \<le> d \<Longrightarrow> d \<le> 3 \<Longrightarrow> c \<le> SIZE_MAX div 4 - 1000 \<Longrightarrow> ok"
proof -
  have ld: "sp_loaded e" using assms(1) by (simp add: engine_inv_def)
  show "engine_inv seed pool start counts e1"
    and "ok \<Longrightarrow> ToosTypeSpawnEngine_sentence_at e1 d c = Some (card_sentence seed pool start counts d c)"
    and "mem \<Longrightarrow> 1 \<le> d \<Longrightarrow> d \<le> 3 \<Longrightarrow> c \<le> SIZE_MAX div 4 - 1000 \<Longrightarrow> ok"
  proof -
    consider "difficulty_to_index d = None" | i where "difficulty_to_index d = Some i" by (cases "difficulty_to_index d") auto
    then have "engine_inv seed pool start counts e1 \<and> (ok \<longrightarrow> ToosTypeSpawnEngine_sentence_at e1 d c = Some (card_sentence seed pool start counts d c))
      \<and> (mem \<longrightarrow> 1 \<le> d \<longrightarrow> d \<le> 3 \<longrightarrow> c \<le> SIZE_MAX div 4 - 1000 \<longrightarrow> ok)"
    proof cases
      case 1
      then have "\<not> ok" "e1 = e" "\<not> (1 \<le> d \<and> d \<le> 3)"
        using assms(2) ld by (auto simp: ToosTypeSpawnEngine_ensure_cursor_def difficulty_to_index_def split: if_splits)
      with assms(1) show ?thesis by blast
    next
      case (2 i)
      then have d: "1 \<le> d" "d \<le> 3" "i = d - 1" "i < 3" by (auto simp: difficulty_to_index_def split: if_splits)
      obtain n where n: "seq_inv seed e i n" using assms(1) d(4) unfolding engine_inv_def by blast
      then obtain seq where seq: "sp_sequence e i = Some seq" by (simp add: seq_inv_def)
      have cnt: "sp_difficulty_count e ! i \<noteq> 0" using assms(1) d(4) by (auto simp: engine_inv_def)
      show ?thesis
      proof (cases "c < length seq")
        case True
        then have "ok" "e1 = e" using assms(2) ld 2 seq cnt by (simp_all add: ToosTypeSpawnEngine_ensure_cursor_def Let_def)
        with assms(1) sentence_at_card [OF assms(1) d(1,2) _ True] seq d(3) show ?thesis by simp
      next
        case False
        then have le: "length seq \<le> c" by simp
        note g = ensure_cursor_grows [OF assms(1) 2 seq le assms(2)]
        have "engine_inv seed pool start counts e1" using g(1) assms(1) by auto
        moreover have "ok \<longrightarrow> ToosTypeSpawnEngine_sentence_at e1 d c = Some (card_sentence seed pool start counts d c)"
          using g(1) sentence_at_card [OF _ d(1,2)] d(3) by auto
        ultimately show ?thesis using g(2) by blast
      qed
    qed
    then show "engine_inv seed pool start counts e1"
      "ok \<Longrightarrow> ToosTypeSpawnEngine_sentence_at e1 d c = Some (card_sentence seed pool start counts d c)"
      "mem \<Longrightarrow> 1 \<le> d \<Longrightarrow> d \<le> 3 \<Longrightarrow> c \<le> SIZE_MAX div 4 - 1000 \<Longrightarrow> ok" by blast+
  qed
qed

section \<open>Building the deck\<close>

definition grp :: "nat \<Rightarrow> ('a \<times> nat) list \<Rightarrow> 'a list" where "grp i sds = map fst (filter (\<lambda>sd. snd sd = Suc i) sds)"

lemma grp_simps [simp]: "grp i [] = []" "grp i ((s, d) # sds) = (if d = Suc i then s # grp i sds else grp i sds)"
  by (simp_all add: grp_def)

lemma group_pool_exact:
  assumes "length wp = 3" "\<forall>sd \<in> set sds. 1 \<le> snd sd \<and> snd sd \<le> 3"
    and "\<forall>i < 3. lo i \<le> wp ! i \<and> wp ! i + length (grp i sds) \<le> hi i \<and> hi i \<le> length g" "\<forall>i < 3. \<forall>j < i. hi j \<le> lo i"
  shows "\<exists>g1. group_pool wp g sds = Some g1 \<and> length g1 = length g
    \<and> (\<forall>i < 3. \<forall>k < length (grp i sds). g1 ! (wp ! i + k) = grp i sds ! k)
    \<and> (\<forall>p. (\<forall>i < 3. \<not> (wp ! i \<le> p \<and> p < wp ! i + length (grp i sds))) \<longrightarrow> g1 ! p = g ! p)"
  using assms
proof (induction sds arbitrary: wp g)
  case (Cons sd sds)
  obtain s d where sd: "sd = (s, d)" by force
  let ?i = "d - 1"
  let ?wp = "wp[?i := wp ! ?i + 1]" and ?g = "g[wp ! ?i := s]"
  have d: "d = Suc ?i" "?i < 3" "difficulty_to_index d = Some ?i" using Cons.prems(2) sd by (auto simp: difficulty_to_index_def)
  have w: "?wp ! j = (if j = ?i then wp ! j + 1 else wp ! j)" if "j < 3" for j using that d(2) Cons.prems(1) by simp
  have gl: "length (grp j (sd # sds)) = (if j = ?i then Suc (length (grp j sds)) else length (grp j sds))" for j using d(1) sd by auto
  have pre: "\<forall>j < 3. lo j \<le> ?wp ! j \<and> ?wp ! j + length (grp j sds) \<le> hi j \<and> hi j \<le> length ?g"
  proof (intro allI impI)
    fix j :: nat assume j: "j < 3"
    then have "lo j \<le> wp ! j \<and> wp ! j + length (grp j (sd # sds)) \<le> hi j \<and> hi j \<le> length g" using Cons.prems(3) by blast
    then show "lo j \<le> ?wp ! j \<and> ?wp ! j + length (grp j sds) \<le> hi j \<and> hi j \<le> length ?g"
      unfolding w [OF j] gl by (auto split: if_splits)
  qed
  have "\<forall>sd \<in> set sds. 1 \<le> snd sd \<and> snd sd \<le> 3" "length ?wp = 3" using Cons.prems(1,2) by simp_all
  from Cons.IH [OF this(2,1) pre Cons.prems(4)] obtain g1 where
    g1: "group_pool ?wp ?g sds = Some g1" "length g1 = length ?g" "\<forall>j < 3. \<forall>k < length (grp j sds). g1 ! (?wp ! j + k) = grp j sds ! k"
      "\<forall>p. (\<forall>j < 3. \<not> (?wp ! j \<le> p \<and> p < ?wp ! j + length (grp j sds))) \<longrightarrow> g1 ! p = ?g ! p" by blast
  have bound: "wp ! ?i < length g" using Cons.prems(3) d(2) gl [of ?i] by fastforce
  have out: "\<not> (?wp ! j \<le> wp ! ?i \<and> wp ! ?i < ?wp ! j + length (grp j sds))" if j: "j < 3" for j
  proof (cases "j = ?i")
    case False
    have a: "lo j \<le> wp ! j" "wp ! j + length (grp j sds) \<le> hi j" using Cons.prems(3) j gl [of j] False by auto
    have b: "lo ?i \<le> wp ! ?i" "wp ! ?i + Suc (length (grp ?i sds)) \<le> hi ?i" using Cons.prems(3) d(2) gl [of ?i] by auto
    show ?thesis
    proof (cases "j < ?i")
      case True
      then have "hi j \<le> lo ?i" using Cons.prems(4) d(2) by blast
      then show ?thesis using w [OF j] False a b by simp
    next
      case gt: False
      then have "hi ?i \<le> lo j" using Cons.prems(4) j False by (metis linorder_neqE_nat)
      then show ?thesis using w [OF j] False a b by simp
    qed
  qed (use w d(2) in simp)
  have at: "g1 ! (wp ! ?i) = s" using g1(4) out bound by (metis nth_list_update_eq)
  have "g1 ! (wp ! j + k) = grp j (sd # sds) ! k" if j: "j < 3" "k < length (grp j (sd # sds))" for j k
  proof (cases "j = ?i")
    case True
    then have e: "grp j (sd # sds) = s # grp j sds" using d(1) sd by simp
    show ?thesis
    proof (cases k)
      case 0
      then show ?thesis using at True e by simp
    next
      case (Suc k')
      then have "k' < length (grp j sds)" using j(2) e by simp
      then have "g1 ! (?wp ! j + k') = grp j sds ! k'" using g1(3) j(1) by blast
      then show ?thesis using Suc True e w [OF j(1)] by simp
    qed
  next
    case False
    then have e: "grp j (sd # sds) = grp j sds" using d(1) sd by auto
    then have "g1 ! (?wp ! j + k) = grp j sds ! k" using g1(3) j by simp
    then show ?thesis using False e w [OF j(1)] by simp
  qed
  moreover have "g1 ! p = g ! p" if p: "\<forall>j < 3. \<not> (wp ! j \<le> p \<and> p < wp ! j + length (grp j (sd # sds)))" for p
  proof -
    have "p \<noteq> wp ! ?i" using p d(2) gl [of ?i] by force
    moreover have "\<forall>j < 3. \<not> (?wp ! j \<le> p \<and> p < ?wp ! j + length (grp j sds))" 
    proof (intro allI impI)
      fix j :: nat assume j: "j < 3"
      then have "\<not> (wp ! j \<le> p \<and> p < wp ! j + length (grp j (sd # sds)))" using p by blast
      then show "\<not> (?wp ! j \<le> p \<and> p < ?wp ! j + length (grp j sds))" unfolding w [OF j] gl by (auto split: if_splits)
    qed
    ultimately show ?thesis using g1(4) by simp
  qed
  ultimately show ?case using g1(1,2) d(3) sd by (intro exI [of _ g1]) auto
qed simp

lemma count_difficulties_exact:
  "length counts = 3 \<Longrightarrow> \<forall>d \<in> set ds. 1 \<le> d \<and> d \<le> 3 \<Longrightarrow>
     \<exists>c. count_difficulties counts ds = Some c \<and> length c = 3 \<and> (\<forall>i < 3. c ! i = counts ! i + length (filter (\<lambda>d. d = Suc i) ds))"
proof (induction ds arbitrary: counts)
  case (Cons d ds)
  let ?i = "d - 1"
  have d: "d = Suc ?i" "?i < 3" "difficulty_to_index d = Some ?i" using Cons.prems(2) by (auto simp: difficulty_to_index_def)
  from Cons.IH [of "counts[?i := counts ! ?i + 1]"] Cons.prems obtain c where
    c: "count_difficulties (counts[?i := counts ! ?i + 1]) ds = Some c" "length c = 3"
      "\<forall>i < 3. c ! i = counts[?i := counts ! ?i + 1] ! i + length (filter (\<lambda>d. d = Suc i) ds)" by auto
  have "c ! i = counts ! i + length (filter (\<lambda>d. d = Suc i) (d # ds))" if "i < 3" for i
    using c(3) that d(1,2) Cons.prems(1) by (cases "i = ?i") auto
  with c(1,2) d(3) show ?case by simp
qed simp

definition from_db :: "sentence_db \<Rightarrow> ToosTypeLanguage \<Rightarrow> ToosTypeSentence \<times> nat \<Rightarrow> bool" where
  "from_db db lang sd \<longleftrightarrow> 1 \<le> snd sd \<and> snd sd \<le> 3 \<and> (\<exists>row \<in> set (q_rows (db lang (snd sd))). read_sentence_row row = Some (fst sd))"

definition col_inv :: "sentence_db \<Rightarrow> ToosTypeLanguage \<Rightarrow> ReservoirCollector \<Rightarrow> bool" where
  "col_inv db lang c \<longleftrightarrow> length (co_pool c) = length (co_difficulty c) \<and> length (co_pool c) \<le> 1000 \<and> co_pool_capacity c = 1000
     \<and> (\<forall>sd \<in> set (zip (co_pool c) (co_difficulty c)). from_db db lang sd)"

lemma collect_inv:
  assumes "col_inv db lang c" "from_db db lang (s, co_current_difficulty c)" "pool_collect_callback s c = (ok, c1)"
  shows "col_inv db lang c1" "co_current_difficulty c1 = co_current_difficulty c"
proof -
  have z: "set (zip ((co_pool c)[j := s]) ((co_difficulty c)[j := co_current_difficulty c])) \<subseteq> insert (s, co_current_difficulty c) (set (zip (co_pool c) (co_difficulty c)))" for j
    by (simp add: zip_update set_update_subset_insert)
  show "col_inv db lang c1" "co_current_difficulty c1 = co_current_difficulty c"
    using assms z unfolding col_inv_def pool_collect_callback_def by (auto simp: Let_def split: if_splits prod.splits) blast+
qed

lemma visit_rows_inv:
  "col_inv db lang c \<Longrightarrow> \<forall>row \<in> set rows. row \<in> set (q_rows (db lang (co_current_difficulty c))) \<Longrightarrow> 1 \<le> co_current_difficulty c \<Longrightarrow>
     co_current_difficulty c \<le> 3 \<Longrightarrow> visit_rows pool_collect_callback c rows = (ok, c1) \<Longrightarrow> col_inv db lang c1"
proof (induction rows arbitrary: c)
  case (Cons row rows)
  show ?case
  proof (cases "read_sentence_row row")
    case (Some s)
    obtain b c2 where b: "pool_collect_callback s c = (b, c2)" by force
    have "from_db db lang (s, co_current_difficulty c)" using Cons.prems Some by (auto simp: from_db_def)
    note i = collect_inv [OF Cons.prems(1) this b]
    show ?thesis using Cons.prems Cons.IH [OF i(1)] Some b i by (auto split: if_splits)
  qed (use Cons in auto)
qed simp

lemma load_inv:
  "col_inv db lang c \<Longrightarrow> \<forall>d \<in> set ds. 1 \<le> d \<and> d \<le> 3 \<Longrightarrow> load_difficulties db lang c ds = Some c1 \<Longrightarrow> col_inv db lang c1"
proof (induction ds arbitrary: c)
  case (Cons d ds)
  let ?c = "c\<lparr>co_current_difficulty := d\<rparr>"
  have "col_inv db lang ?c" using Cons.prems(1) by (simp add: col_inv_def)
  from visit_rows_inv [OF this, of "q_rows (db lang d)"] Cons.prems(2)
  have v: "visit_rows pool_collect_callback ?c (q_rows (db lang d)) = (ok, c2) \<Longrightarrow> col_inv db lang c2" for ok c2 by simp
  show ?case using Cons.prems Cons.IH v
    by (auto simp: toos_type_sentence_visit_by_difficulty_def Let_def split: prod.splits if_splits)
qed simp

lemma fill_sequences_inv:
  "fill_sequences mem seed t is = Some t1 \<Longrightarrow> distinct is \<Longrightarrow> \<forall>i \<in> set is. i < 3 \<and> 0 < sp_difficulty_count t ! i \<and> sp_difficulty_count t ! i \<le> 1000 \<Longrightarrow>
     (\<forall>i \<in> set is. seq_inv seed t1 i 1) \<and> sp_base_pool t1 = sp_base_pool t \<and> sp_base_count t1 = sp_base_count t
     \<and> sp_difficulty_start t1 = sp_difficulty_start t \<and> sp_difficulty_count t1 = sp_difficulty_count t
     \<and> (\<forall>j. j \<notin> set is \<longrightarrow> (\<forall>n. seq_inv seed t j n \<longrightarrow> seq_inv seed t1 j n))"
proof (induction "is" arbitrary: t)
  case (Cons i "is")
  let ?t = "t\<lparr>sp_sequence_rng_state := (sp_sequence_rng_state t)(i := derive_sequence_seed seed i),
      sp_sequence := (sp_sequence t)(i := Some []), sp_sequence_capacity := (sp_sequence_capacity t)(i := sp_difficulty_count t ! i)\<rparr>"
  have z: "seq_inv seed ?t i 0" by (simp add: seq_inv_def cards_def)
  obtain t2 where t2: "append_epoch ?t i = (True, t2)" "seq_inv seed t2 i (Suc 0)" "only_seq i ?t t2"
    using append_epoch_ok [OF z] Cons.prems(3) by auto
  have f: "fill_sequences mem seed t2 is = Some t1" using Cons.prems(1) t2(1) by (auto simp: Let_def split: if_splits)
  have c: "sp_difficulty_count t2 = sp_difficulty_count t" using t2(3) by (simp add: only_seq_def)
  have "seq_inv seed t2 j n" if "j \<noteq> i" "seq_inv seed t j n" for j n using that t2(3) by (simp add: seq_inv_def only_seq_def)
  with Cons.IH [OF f] Cons.prems(2,3) c t2 show ?case by (auto simp: only_seq_def)
qed simp

lemma grp_total: "\<forall>sd \<in> set sds. 1 \<le> snd sd \<and> snd sd \<le> 3 \<Longrightarrow> length sds = length (grp 0 sds) + length (grp 1 sds) + length (grp 2 sds)"
proof (induction sds)
  case (Cons sd sds)
  obtain s d where "sd = (s, d)" by force
  moreover have "d = 1 \<or> d = 2 \<or> d = 3" using Cons.prems \<open>sd = (s, d)\<close> by auto
  ultimately show ?case using Cons by auto
qed simp

lemma grp_length: "length ss = length ds \<Longrightarrow> length (grp i (zip ss ds)) = length (filter (\<lambda>d. d = Suc i) ds)"
  by (induction ss ds rule: list_induct2) auto

lemma grp_mem: "k < length (grp i sds) \<Longrightarrow> (grp i sds ! k, Suc i) \<in> set sds"
proof -
  assume "k < length (grp i sds)"
  then have "grp i sds ! k \<in> set (grp i sds)" by (rule nth_mem)
  then show ?thesis by (auto simp: grp_def)
qed

lemma nth3: "i < 3 \<Longrightarrow> i = 0 \<or> i = 1 \<or> i = (2 :: nat)"
  by auto

lemma group_pool_sorted:
  assumes "\<forall>sd \<in> set sds. 1 \<le> snd sd \<and> snd sd \<le> 3" "counts = [length (grp 0 sds), length (grp 1 sds), length (grp 2 sds)]"
  shows "\<exists>g. group_pool [0, counts ! 0, counts ! 0 + counts ! 1] (replicate (length sds) z) sds = Some g \<and> length g = length sds
    \<and> (\<forall>i < 3. \<forall>k < counts ! i. g ! ([0, counts ! 0, counts ! 0 + counts ! 1] ! i + k) = grp i sds ! k)"
proof -
  let ?st = "[0, counts ! 0, counts ! 0 + counts ! 1]"
  have len: "length sds = counts ! 0 + counts ! 1 + counts ! 2" using grp_total [OF assms(1)] assms(2) by simp
  have c: "\<forall>i < 3. counts ! i = length (grp i sds)" using assms(2) by (auto dest!: nth3)
  have "\<exists>g1. group_pool ?st (replicate (length sds) z) sds = Some g1 \<and> length g1 = length (replicate (length sds) z)
    \<and> (\<forall>i < 3. \<forall>k < length (grp i sds). g1 ! (?st ! i + k) = grp i sds ! k)
    \<and> (\<forall>p. (\<forall>i < 3. \<not> (?st ! i \<le> p \<and> p < ?st ! i + length (grp i sds))) \<longrightarrow> g1 ! p = replicate (length sds) z ! p)"
  proof (rule group_pool_exact [where lo = "\<lambda>i. ?st ! i" and hi = "\<lambda>i. ?st ! i + counts ! i"])
    show "\<forall>i < 3. ?st ! i \<le> ?st ! i \<and> ?st ! i + length (grp i sds) \<le> ?st ! i + counts ! i \<and> ?st ! i + counts ! i \<le> length (replicate (length sds) z)"
      using c len by (auto dest!: nth3)
    show "\<forall>i < 3. \<forall>j < i. ?st ! j + counts ! j \<le> ?st ! i" by (auto dest!: nth3 simp: less_Suc_eq numeral_2_eq_2)
  qed (use assms(1) in simp_all)
  then obtain g where "group_pool ?st (replicate (length sds) z) sds = Some g" "length g = length sds"
    "\<forall>i < 3. \<forall>k < length (grp i sds). g ! (?st ! i + k) = grp i sds ! k" by auto
  with c show ?thesis by auto
qed

lemma build_deck_inv:
  assumes "ToosTypeSpawnEngine_build_deck mem e0 (Some db) lang = (True, e)"
  shows "\<exists>pool start counts. engine_inv (sp_rng_state e0) pool start counts e
    \<and> (\<forall>i < 3. \<forall>k < counts ! i. from_db db lang (pool ! (start ! i + k), Suc i))"
proof -
  let ?c0 = "\<lparr>co_pool = [], co_difficulty = [], co_pool_capacity = 1000, co_seen_count = 0, co_rng_state = sp_rng_state e0, co_current_difficulty = 0\<rparr>"
  obtain c counts grouped t where
    l: "load_difficulties db lang ?c0 [1, 2, 3] = Some c" and n: "co_pool c \<noteq> []" "count_difficulties [0, 0, 0] (co_difficulty c) = Some counts" "0 \<notin> set counts"
      and g: "group_pool [0, counts ! 0, counts ! 0 + counts ! 1] (replicate (length (co_pool c)) zero_sentence) (zip (co_pool c) (co_difficulty c)) = Some grouped"
      and f: "fill_sequences (dm_sequence mem) (sp_rng_state e0) (ToosTypeSpawnEngine_zero\<lparr>sp_rng_state := co_rng_state c, sp_base_pool := Some grouped,
          sp_base_count := length (co_pool c), sp_difficulty_start := [0, counts ! 0, counts ! 0 + counts ! 1], sp_difficulty_count := counts\<rparr>) [0, 1, 2] = Some t"
      and e: "e = t\<lparr>sp_loaded := True\<rparr>"
    using assms by (auto simp: ToosTypeSpawnEngine_build_deck_def Let_def split: if_splits option.splits)
  let ?sds = "zip (co_pool c) (co_difficulty c)" and ?st = "[0, counts ! 0, counts ! 0 + counts ! 1]"
  have "col_inv db lang ?c0" by (simp add: col_inv_def)
  from load_inv [OF this _ l] have ci: "col_inv db lang c" by simp
  then have len: "length (co_pool c) = length (co_difficulty c)" "length ?sds = length (co_pool c)" "length (co_pool c) \<le> 1000"
    and db: "\<forall>sd \<in> set ?sds. from_db db lang sd" by (simp_all add: col_inv_def)
  have sd: "\<forall>sd \<in> set ?sds. 1 \<le> snd sd \<and> snd sd \<le> 3" using db by (auto simp: from_db_def)
  then have "\<forall>d \<in> set (co_difficulty c). 1 \<le> d \<and> d \<le> 3" using len(1) by (metis in_set_impl_in_set_zip2 snd_conv)
  from count_difficulties_exact [OF _ this, of "[0, 0, 0]"] n(2) have ct: "length counts = 3" "\<forall>i < 3. counts ! i = length (grp i ?sds)"
    using grp_length [OF len(1)] by (auto dest!: nth3)
  then have cts: "counts = [length (grp 0 ?sds), length (grp 1 ?sds), length (grp 2 ?sds)]"
    by (intro nth_equalityI) (auto dest!: nth3)
  from group_pool_sorted [OF sd cts, of zero_sentence] g len(2)
  have gr: "length grouped = length (co_pool c)" "\<forall>i < 3. \<forall>k < counts ! i. grouped ! (?st ! i + k) = grp i ?sds ! k" by auto
  have tot: "length (co_pool c) = counts ! 0 + counts ! 1 + counts ! 2" using grp_total [OF sd] len(2) cts by simp
  have pos: "\<forall>i < 3. 0 < counts ! i \<and> counts ! i \<le> 1000 \<and> ?st ! i + counts ! i \<le> length grouped"
    using n(3) ct(1) tot len(3) gr(1) by (auto dest!: nth3 simp: in_set_conv_nth)
  from fill_sequences_inv [OF f] pos have fi: "\<forall>i \<in> {0, 1, 2}. seq_inv (sp_rng_state e0) t i 1" "sp_base_pool t = Some grouped"
    "sp_base_count t = length (co_pool c)" "sp_difficulty_start t = ?st" "sp_difficulty_count t = counts" by auto
  have "\<exists>n. seq_inv (sp_rng_state e0) e i n" if "i < 3" for i using fi(1) that e by (auto dest!: nth3 simp: seq_inv_def)
  then have "engine_inv (sp_rng_state e0) grouped ?st counts e" using fi pos gr(1) len(3) e by (auto simp: engine_inv_def)
  moreover have "from_db db lang (grouped ! (?st ! i + k), Suc i)" if "i < 3" "k < counts ! i" for i k
  proof -
    have "(grp i ?sds ! k, Suc i) \<in> set ?sds" using that ct(2) by (intro grp_mem) simp
    then show ?thesis using db gr(2) that by auto
  qed
  ultimately show ?thesis by blast
qed

definition ask :: "bool \<times> nat \<times> nat \<Rightarrow> ToosTypeSpawnEngine \<Rightarrow> ToosTypeSpawnEngine" where
  "ask q e = (case q of (mem, d, c) \<Rightarrow> snd (ToosTypeSpawnEngine_ensure_cursor mem e d c))"

lemma ask_inv: "engine_inv seed pool start counts e \<Longrightarrow> engine_inv seed pool start counts (fold ask qs e)"
proof (induction qs arbitrary: e)
  case (Cons q qs)
  obtain mem d c where q: "q = (mem, d, c)" by (cases q)
  obtain ok e1 where "ToosTypeSpawnEngine_ensure_cursor mem e d c = (ok, e1)" by force
  with ensure_cursor_inv(1) [OF Cons.prems this] Cons.IH show ?case by (simp add: ask_def q)
qed simp

text \<open>(C38) One deck for everybody. From a successful \<^verbatim>\<open>build_deck\<close> on there is, for every difficulty, one infinite sequence of
  sentences that the seed and the database determine: whatever cursors the players of a room have asked for, in
  whatever order and with whatever failures of the allocator in between, asking for a cursor and then for its
  sentence gives the sentence of that sequence at the cursor. Every sentence is one the repository delivered for the
  difficulty, and each round of as many cursors as there are sentences shows every sentence exactly once.\<close>

theorem SpawnEngine_common_deck:
  assumes "ToosTypeSpawnEngine_build_deck mem (ToosTypeSpawnEngine_init seed) (Some db) lang = (True, e0)"
  shows "\<exists>pool start counts. \<forall>d \<in> {1, 2, 3}.
    (\<forall>qs. \<forall>c \<le> SIZE_MAX div 4 - 1000. \<exists>e. ToosTypeSpawnEngine_ensure_cursor True (fold ask qs e0) d c = (True, e)
        \<and> ToosTypeSpawnEngine_sentence_at e d c = Some (card_sentence seed pool start counts d c))
    \<and> (\<forall>c. from_db db lang (card_sentence seed pool start counts d c, d))
    \<and> (\<forall>q. mset (map (card_sentence seed pool start counts d) [q * counts ! (d - 1)..<Suc q * counts ! (d - 1)])
           = mset (take (counts ! (d - 1)) (drop (start ! (d - 1)) pool)))"
proof -
  from build_deck_inv [OF assms] obtain pool start counts where
    inv: "engine_inv seed pool start counts e0" and db: "\<forall>i < 3. \<forall>k < counts ! i. from_db db lang (pool ! (start ! i + k), Suc i)"
    by (auto simp: ToosTypeSpawnEngine_init_def)
  have "(\<forall>qs. \<forall>c \<le> SIZE_MAX div 4 - 1000. \<exists>e. ToosTypeSpawnEngine_ensure_cursor True (fold ask qs e0) d c = (True, e)
        \<and> ToosTypeSpawnEngine_sentence_at e d c = Some (card_sentence seed pool start counts d c))
    \<and> (\<forall>c. from_db db lang (card_sentence seed pool start counts d c, d))
    \<and> (\<forall>q. mset (map (card_sentence seed pool start counts d) [q * counts ! (d - 1)..<Suc q * counts ! (d - 1)])
           = mset (take (counts ! (d - 1)) (drop (start ! (d - 1)) pool)))" if d: "d \<in> {1, 2, 3}" for d
  proof (intro conjI allI impI)
    fix qs c assume c: "c \<le> SIZE_MAX div 4 - 1000"
    obtain ok e where e: "ToosTypeSpawnEngine_ensure_cursor True (fold ask qs e0) d c = (ok, e)" by force
    from ensure_cursor_inv [OF ask_inv [OF inv] e] c d show "\<exists>e. ToosTypeSpawnEngine_ensure_cursor True (fold ask qs e0) d c = (True, e)
        \<and> ToosTypeSpawnEngine_sentence_at e d c = Some (card_sentence seed pool start counts d c)" using e by auto
  next
    let ?i = "d - 1"
    have i: "?i < 3" "Suc ?i = d" using d by auto
    have cnt: "0 < counts ! ?i" "start ! ?i + counts ! ?i \<le> length pool" "length pool \<le> 1000" using inv i(1) unfolding engine_inv_def by blast+
    have small: "counts ! ?i < 2 ^ 32" using cnt by simp
    show "from_db db lang (card_sentence seed pool start counts d c, d)" for c
      using db i card_at_less [OF cnt(1) small] by (auto simp: card_sentence_def)
    show "mset (map (card_sentence seed pool start counts d) [q * counts ! ?i..<Suc q * counts ! ?i]) = mset (take (counts ! ?i) (drop (start ! ?i) pool))" for q
    proof -
      let ?f = "\<lambda>k. pool ! (start ! ?i + k)"
      have cs: "card_sentence seed pool start counts d = (\<lambda>c. ?f (card_at (counts ! ?i) (derive_sequence_seed seed ?i) c))"
        by (simp add: card_sentence_def fun_eq_iff)
      have "mset (map (card_sentence seed pool start counts d) [q * counts ! ?i..<Suc q * counts ! ?i])
          = image_mset ?f (mset (map (card_at (counts ! ?i) (derive_sequence_seed seed ?i)) [q * counts ! ?i..<Suc q * counts ! ?i]))"
        by (simp add: cs multiset.map_comp comp_def)
      also have "\<dots> = mset (map ?f [0..<counts ! ?i])" unfolding epoch_cards [OF cnt(1) small] by simp
      also have "map ?f [0..<counts ! ?i] = take (counts ! ?i) (drop (start ! ?i) pool)"
        using cnt(2) by (intro nth_equalityI) simp_all
      finally show ?thesis .
    qed
  qed
  then show ?thesis by blast
qed

definition demo_row :: "int \<Rightarrow> sql_row" where
  "demo_row d k = \<lparr>col_is_null = False, col_int64 = d, col_int = d, col_text = Some [97], col_bytes = 1\<rparr>"

definition demo_db :: sentence_db where
  "demo_db lang d = \<lparr>q_prepare = True, q_bind = True, q_rows = [demo_row (int d)], q_done = True\<rparr>"

definition demo_sentence :: "nat \<Rightarrow> ToosTypeSentence" where
  "demo_sentence d = \<lparr>se_id = of_nat d, se_category_id = of_nat d, se_difficulty_ko = of_nat d, se_difficulty_en = of_nat d,
     se_ko_text = 97 # replicate 511 0, se_en_text = 97 # replicate 511 0\<rparr>"

definition demo_deck_mem :: deck_mem where
  "demo_deck_mem = \<lparr>dm_pool = True, dm_difficulty = True, dm_grouped = True, dm_sequence = \<lambda>_. True\<rparr>"

lemma demo_read: "d \<in> {1, 2, 3} \<Longrightarrow> read_sentence_row (demo_row (int d)) = Some (demo_sentence d)"
  by (auto simp: read_sentence_row_def demo_row_def column_positive_u64_def column_difficulty_def copy_column_text_def demo_sentence_def Let_def)

lemma demo_load:
  "\<exists>c. load_difficulties demo_db TOOS_TYPE_LANG_EN \<lparr>co_pool = [], co_difficulty = [], co_pool_capacity = 1000, co_seen_count = 0, co_rng_state = s, co_current_difficulty = 0\<rparr> [1, 2, 3]
     = Some c \<and> co_pool c = [demo_sentence 1, demo_sentence 2, demo_sentence 3] \<and> co_difficulty c = [1, 2, 3] \<and> co_rng_state c = s"
  using demo_read [of 1] demo_read [of 2] demo_read [of 3]
  by (simp add: toos_type_sentence_visit_by_difficulty_def demo_db_def pool_collect_callback_def Let_def)

lemma demo_build: "\<exists>e. ToosTypeSpawnEngine_build_deck demo_deck_mem (ToosTypeSpawnEngine_init 7) (Some demo_db) TOOS_TYPE_LANG_EN = (True, e)"
proof -
  obtain c where c: "load_difficulties demo_db TOOS_TYPE_LANG_EN \<lparr>co_pool = [], co_difficulty = [], co_pool_capacity = 1000, co_seen_count = 0, co_rng_state = 7, co_current_difficulty = 0\<rparr> [1, 2, 3]
     = Some c" "co_pool c = [demo_sentence 1, demo_sentence 2, demo_sentence 3]" "co_difficulty c = [1, 2, 3]" using demo_load by blast
  then show ?thesis
    by (simp add: ToosTypeSpawnEngine_build_deck_def ToosTypeSpawnEngine_init_def ToosTypeSpawnEngine_zero_def demo_deck_mem_def
        difficulty_to_index_def append_epoch_def Let_def del: load_difficulties.simps)
qed

theorem SpawnEngine_common_deck_witness:
  "\<exists>e0 e. ToosTypeSpawnEngine_build_deck demo_deck_mem (ToosTypeSpawnEngine_init 7) (Some demo_db) TOOS_TYPE_LANG_EN = (True, e0)
     \<and> ToosTypeSpawnEngine_ensure_cursor True (ask (True, 1, 3) e0) 2 5 = (True, e) \<and> ToosTypeSpawnEngine_sentence_at e 2 5 \<noteq> None"
proof -
  obtain e0 where e0: "ToosTypeSpawnEngine_build_deck demo_deck_mem (ToosTypeSpawnEngine_init 7) (Some demo_db) TOOS_TYPE_LANG_EN = (True, e0)"
    using demo_build by blast
  from SpawnEngine_common_deck [OF e0] obtain pool start counts where
    x: "\<forall>d \<in> {1, 2, 3}. \<forall>qs. \<forall>c \<le> SIZE_MAX div 4 - 1000. \<exists>e. ToosTypeSpawnEngine_ensure_cursor True (fold ask qs e0) d c = (True, e)
        \<and> ToosTypeSpawnEngine_sentence_at e d c = Some (card_sentence 7 pool start counts d c)" by blast
  have "\<exists>e. ToosTypeSpawnEngine_ensure_cursor True (fold ask [(True, 1, 3)] e0) 2 5 = (True, e)
        \<and> ToosTypeSpawnEngine_sentence_at e 2 5 = Some (card_sentence 7 pool start counts 2 5)"
    using x [rule_format, of 2 5 "[(True, 1, 3)]"] by simp
  with e0 show ?thesis by auto
qed



end
