(* ===== verification/Toos_Game.thy ===== *)
theory Toos_Game
  imports Toos_Deck
begin

text \<open>
  The typing game itself, \<^verbatim>\<open>src/src/toos_type_game_context.c\<close>: players, readiness, the three-step start, submissions, scoring,
  disconnects and the tick that ends a game with its ranking.
  \<^item> The fixed array of players is a list of eight; a pointer to a player is its index. A connection is a number,
    NULL is \<open>None\<close>.
  \<^item> \<open>gc_events\<close> is the sequence of the calls of the dispatcher, with the contents of the event; without a dispatcher
    nothing is recorded.
  \<^item> Counters are machine words and wrap where the source wraps. The answers of the allocator are arguments.
\<close>

abbreviation (input) TOOS_TYPE_MAX_ROOM_PLAYERS :: nat where "TOOS_TYPE_MAX_ROOM_PLAYERS \<equiv> 8"
abbreviation (input) TOOS_TYPE_MIN_ROOM_PLAYERS :: nat where "TOOS_TYPE_MIN_ROOM_PLAYERS \<equiv> 2"

section \<open>State\<close>

record ToosTypePlayerState =
  pl_occupied :: bool
  pl_player_no :: u32
  pl_join_seq :: u64
  pl_connected :: bool
  pl_ready :: bool
  pl_phase_cursor :: "u64 list"
  pl_active_sentence_id :: u64
  pl_active_phase :: u32
  pl_sentence_spawn_ms :: u64
  pl_sentence_deadline_ms :: u64
  pl_awaiting_game_end :: bool
  pl_correct_count :: u32
  pl_incorrect_count :: u32
  pl_expired_count :: u32
  pl_phase_correct :: "u32 list"
  pl_correct_chars :: u32
  pl_played_ms :: u64
  pl_play_score :: u32
  pl_phase_score :: u32
  pl_accuracy_score :: u32
  pl_accuracy_x100 :: u32
  pl_total_score :: u32
  pl_wpm :: u32
  pl_finish_status :: ToosTypeFinishStatus
  pl_conn_ptr :: "nat option"

definition zero_player :: ToosTypePlayerState where
  "zero_player = \<lparr>pl_occupied = False, pl_player_no = 0, pl_join_seq = 0, pl_connected = False, pl_ready = False,
     pl_phase_cursor = [0, 0, 0], pl_active_sentence_id = 0, pl_active_phase = 0, pl_sentence_spawn_ms = 0, pl_sentence_deadline_ms = 0,
     pl_awaiting_game_end = False, pl_correct_count = 0, pl_incorrect_count = 0, pl_expired_count = 0, pl_phase_correct = [0, 0, 0],
     pl_correct_chars = 0, pl_played_ms = 0, pl_play_score = 0, pl_phase_score = 0, pl_accuracy_score = 0, pl_accuracy_x100 = 0,
     pl_total_score = 0, pl_wpm = 0, pl_finish_status = TOOS_TYPE_FINISH_NONE, pl_conn_ptr = None\<rparr>"

record ToosTypeRankingEntry =
  re_rank :: u32
  re_player_no :: u32
  re_status :: ToosTypeFinishStatus
  re_played_ms :: u64
  re_play_score :: u32
  re_phase_score :: u32
  re_accuracy_score :: u32
  re_accuracy_x100 :: u32
  re_total_score :: u32
  re_wpm :: u32

text \<open>The events, with the connection they are for (\<open>None\<close>: everybody) and their payload.\<close>

datatype ToosTypeEvent =
    EV_JOIN_ACK "nat option" u32 bool
  | EV_ROOM_CONFIG "nat option" u64 ToosTypeState ToosTypeLanguage bool u32 u32 nat nat bool
  | EV_GAME_STATE "nat option" ToosTypeState u32 u64
  | EV_COUNTDOWN "nat option" u64
  | EV_PHASE_CHANGED "nat option" u32 u64 u64
  | EV_SENTENCE_DROP "nat option" u64 "byte list" u64
  | EV_SENTENCE_RESULT "nat option" u64 ToosTypeJudgeResult
  | EV_SCORE_UPDATE "nat option" u32 u64 u32 u32 u32 u32 u32 u32
  | EV_GAME_OVER cstring
  | EV_FINAL_RANKING "ToosTypeRankingEntry list"
  | EV_ERROR "nat option" cstring

record ToosTypeGameContext =
  gc_room :: ToosTypeRoom
  gc_db :: "sentence_db option"
  gc_spawn :: ToosTypeSpawnEngine
  gc_players :: "ToosTypePlayerState list"
  gc_active_player_count :: nat
  gc_next_join_seq :: u64
  gc_last_tick_ms :: u64
  gc_dispatch :: bool
  gc_events :: "ToosTypeEvent list"

abbreviation player :: "ToosTypeGameContext \<Rightarrow> nat \<Rightarrow> ToosTypePlayerState" where "player ctx i \<equiv> gc_players ctx ! i"

definition set_player :: "nat \<Rightarrow> ToosTypePlayerState \<Rightarrow> ToosTypeGameContext \<Rightarrow> ToosTypeGameContext" where
  "set_player i p ctx = ctx\<lparr>gc_players := (gc_players ctx)[i := p]\<rparr>"

definition set_room :: "ToosTypeRoom \<Rightarrow> ToosTypeGameContext \<Rightarrow> ToosTypeGameContext" where
  "set_room r ctx = ctx\<lparr>gc_room := r\<rparr>"

section \<open>Helpers\<close>

definition emit_event :: "ToosTypeEvent \<Rightarrow> ToosTypeGameContext \<Rightarrow> ToosTypeGameContext" where
  "emit_event ev ctx = (if gc_dispatch ctx then ctx\<lparr>gc_events := gc_events ctx @ [ev]\<rparr> else ctx)"

definition emit_error :: "nat option \<Rightarrow> cstring \<Rightarrow> ToosTypeGameContext \<Rightarrow> ToosTypeGameContext" where
  "emit_error conn msg ctx = emit_event (EV_ERROR conn msg) ctx"

definition present :: "ToosTypePlayerState \<Rightarrow> bool" where
  "present p \<longleftrightarrow> pl_occupied p \<and> pl_connected p"

definition connected_count :: "ToosTypeGameContext \<Rightarrow> nat" where
  "connected_count ctx = length (filter present (gc_players ctx))"

definition ready_count :: "ToosTypeGameContext \<Rightarrow> nat" where
  "ready_count ctx = length (filter (\<lambda>p. present p \<and> pl_ready p) (gc_players ctx))"

definition emit_room_config :: "nat option \<Rightarrow> ToosTypeGameContext \<Rightarrow> ToosTypeGameContext" where
  "emit_room_config target_conn ctx =
     (let r = gc_room ctx; n = connected_count ctx; k = ready_count ctx
      in emit_event (EV_ROOM_CONFIG target_conn (rm_room_id r) (rm_state r) (rm_language r) (rm_language_locked r) (rm_host_player_no r)
           (ucast (ToosTypeRoom_total_duration_ms r)) n k (n \<ge> TOOS_TYPE_MIN_ROOM_PLAYERS \<and> n = k)) ctx)"

fun find_from :: "nat \<Rightarrow> ('a \<Rightarrow> bool) \<Rightarrow> 'a list \<Rightarrow> nat option" where
  "find_from i P [] = None"
| "find_from i P (x # xs) = (if P x then Some i else find_from (i + 1) P xs)"

definition find_player_by_conn :: "ToosTypeGameContext \<Rightarrow> nat \<Rightarrow> nat option" where
  "find_player_by_conn ctx conn = find_from 0 (\<lambda>p. pl_occupied p \<and> pl_conn_ptr p = Some conn) (gc_players ctx)"

fun oldest :: "u32 \<Rightarrow> u64 \<Rightarrow> ToosTypePlayerState list \<Rightarrow> u32" where
  "oldest no min_join_seq [] = no"
| "oldest no min_join_seq (p # ps) =
     (if present p \<and> pl_join_seq p < min_join_seq then oldest (pl_player_no p) (pl_join_seq p) ps else oldest no min_join_seq ps)"

definition recalculate_host :: "ToosTypeGameContext \<Rightarrow> ToosTypeGameContext" where
  "recalculate_host ctx = set_room ((gc_room ctx)\<lparr>rm_host_player_no := oldest 0 (- 1) (gc_players ctx)\<rparr>) ctx"

definition refresh_config_lock :: "ToosTypeGameContext \<Rightarrow> ToosTypeGameContext" where
  "refresh_config_lock ctx =
     set_room ((gc_room ctx)\<lparr>rm_language_locked := (\<exists>p \<in> set (gc_players ctx). present p \<and> pl_ready p)\<rparr>) ctx"

definition reset_spawn_engine :: "ToosTypeGameContext \<Rightarrow> ToosTypeGameContext" where
  "reset_spawn_engine ctx = ctx\<lparr>gc_spawn := ToosTypeSpawnEngine_init (gp_random_seed (rm_profile (gc_room ctx)))\<rparr>"

definition reset_empty_room :: "u64 \<Rightarrow> ToosTypeGameContext \<Rightarrow> ToosTypeGameContext" where
  "reset_empty_room now_ms ctx =
     (let c1 = reset_spawn_engine (ctx\<lparr>gc_players := replicate TOOS_TYPE_MAX_ROOM_PLAYERS zero_player, gc_active_player_count := 0\<rparr>);
          r = (gc_room c1)\<lparr>rm_state := TOOS_TYPE_STATE_WAITING, rm_language := TOOS_TYPE_LANG_NONE, rm_language_locked := False,
                rm_host_player_no := 0, rm_state_start_ms := now_ms, rm_game_start_ms := 0, rm_game_end_ms := 0,
                rm_countdown_ends_at_ms := 0, rm_current_phase := 0\<rparr>
      in set_room (snd (ToosTypeRoom_set_duration_minutes r 3)) c1)"

section \<open>Scores\<close>

definition clamp32 :: "u64 \<Rightarrow> u32" where
  "clamp32 x = (if x > 0xFFFFFFFF then - 1 else ucast x)"

definition played_time :: "ToosTypeRoom \<Rightarrow> ToosTypePlayerState \<Rightarrow> u64 \<Rightarrow> u64" where
  "played_time r p now_ms =
     (if pl_finish_status p = TOOS_TYPE_FINISH_NONE \<and> (rm_state r = TOOS_TYPE_STATE_PLAYING \<or> rm_state r = TOOS_TYPE_STATE_COUNTDOWN)
         \<and> now_ms > rm_game_start_ms r
      then (let t = now_ms - rm_game_start_ms r; d = rm_game_end_ms r - rm_game_start_ms r in if t > d then d else t)
      else pl_played_ms p)"

definition update_player_stats :: "ToosTypeRoom \<Rightarrow> ToosTypePlayerState \<Rightarrow> u64 \<Rightarrow> ToosTypePlayerState" where
  "update_player_stats r p now_ms =
     (let played = played_time r p now_ms;
          play = clamp32 (played * ucast (gp_play_score_per_sec (rm_profile r)) div 1000);
          attempts = ucast (pl_correct_count p) + ucast (pl_incorrect_count p) + ucast (pl_expired_count p) :: u64;
          acc = (if attempts > 0 then ucast (ucast (pl_correct_count p) * 10000 div attempts) else 0) :: u32;
          acc_score = clamp32 (ucast acc * ucast (gp_accuracy_score_multiplier (rm_profile r)) div 100);
          tot = clamp32 (ucast play + ucast (pl_phase_score p) + ucast acc_score);
          wpm = (if played > 0 then clamp32 (ucast (pl_correct_chars p) * 12000 div played) else 0)
      in p\<lparr>pl_played_ms := played, pl_play_score := play, pl_accuracy_x100 := acc, pl_accuracy_score := acc_score,
           pl_total_score := tot, pl_wpm := wpm\<rparr>)"

definition score_event :: "nat option \<Rightarrow> u64 \<Rightarrow> ToosTypePlayerState \<Rightarrow> ToosTypeEvent" where
  "score_event conn sid p =
     EV_SCORE_UPDATE conn (pl_player_no p) sid (pl_play_score p) (pl_phase_score p) (pl_accuracy_score p) (pl_accuracy_x100 p)
       (pl_total_score p) (pl_wpm p)"

section \<open>Sentences\<close>

definition clear_sentence :: "ToosTypePlayerState \<Rightarrow> ToosTypePlayerState" where
  "clear_sentence p = p\<lparr>pl_active_sentence_id := 0, pl_active_phase := 0, pl_sentence_spawn_ms := 0, pl_sentence_deadline_ms := 0\<rparr>"

definition await_end :: "ToosTypePlayerState \<Rightarrow> ToosTypePlayerState" where
  "await_end p = (clear_sentence p)\<lparr>pl_awaiting_game_end := True\<rparr>"

definition issue_next_sentence :: "bool \<Rightarrow> nat \<Rightarrow> u64 \<Rightarrow> ToosTypeGameContext \<Rightarrow> ToosTypeGameContext" where
  "issue_next_sentence mem i now_ms ctx =
     (let p = player ctx i; r = gc_room ctx; next_timeout = ToosTypeRoom_sentence_timeout_ms r now_ms
      in if now_ms \<ge> rm_game_end_ms r \<or> rm_game_end_ms r - now_ms < next_timeout then set_player i (await_end p) ctx
         else let phase = ToosTypeRoom_phase_at r now_ms
         in if phase < 1 \<or> phase > of_nat TOOS_TYPE_MAX_PHASES
            then set_player i (await_end p) (emit_error (pl_conn_ptr p) (lit ''ERROR_INVALID_PHASE'') ctx)
            else let difficulty = unat phase; cursor = unat (pl_phase_cursor p ! (difficulty - 1))
            in case ToosTypeSpawnEngine_ensure_cursor mem (gc_spawn ctx) difficulty cursor of (ok, sp) \<Rightarrow>
               let c1 = ctx\<lparr>gc_spawn := sp\<rparr>
               in if \<not> ok then set_player i (await_end p) (emit_error (pl_conn_ptr p) (lit ''ERROR_SPAWN_CURSOR_FAILED'') c1)
                  else case ToosTypeSpawnEngine_sentence_at sp difficulty cursor of
                    Some sent \<Rightarrow>
                      emit_event (EV_SENTENCE_DROP (pl_conn_ptr p) (se_id sent)
                          (c_str (if rm_language r = TOOS_TYPE_LANG_EN then se_en_text sent else se_ko_text sent)) next_timeout)
                        (set_player i (p\<lparr>pl_active_sentence_id := se_id sent, pl_active_phase := phase, pl_sentence_spawn_ms := now_ms,
                            pl_sentence_deadline_ms := now_ms + next_timeout\<rparr>) c1)
                  | None \<Rightarrow> set_player i (await_end p) c1)"

definition advance_cursor :: "ToosTypePlayerState \<Rightarrow> ToosTypePlayerState" where
  "advance_cursor p =
     (if 1 \<le> pl_active_phase p \<and> pl_active_phase p \<le> of_nat TOOS_TYPE_MAX_PHASES
      then let k = unat (pl_active_phase p - 1) in p\<lparr>pl_phase_cursor := (pl_phase_cursor p)[k := pl_phase_cursor p ! k + 1]\<rparr>
      else p)"

section \<open>Room operations\<close>

definition ToosTypeGameContext_init :: "sentence_db \<Rightarrow> u64 \<Rightarrow> ToosTypeGameProfile \<Rightarrow> bool \<Rightarrow> ToosTypeGameContext" where
  "ToosTypeGameContext_init db room_id profile dispatch =
     \<lparr>gc_room = ToosTypeRoom_init room_id profile, gc_db = Some db, gc_spawn = ToosTypeSpawnEngine_init (gp_random_seed profile),
      gc_players = replicate TOOS_TYPE_MAX_ROOM_PLAYERS zero_player, gc_active_player_count = 0, gc_next_join_seq = 1,
      gc_last_tick_ms = 0, gc_dispatch = dispatch, gc_events = []\<rparr>"

definition zero_profile :: ToosTypeGameProfile where
  "zero_profile = \<lparr>gp_countdown_ms = 0, gp_random_seed = 0, gp_play_score_per_sec = 0, gp_accuracy_score_multiplier = 0,
     gp_phases = replicate TOOS_TYPE_MAX_PHASES \<lparr>pp_duration_ms = 0, pp_input_timeout_ms = 0, pp_correct_score = 0\<rparr>\<rparr>"

text \<open>After the engine has given back its arrays, everything is cleared, the dispatcher too.\<close>

definition ToosTypeGameContext_deinit :: "ToosTypeGameContext \<Rightarrow> ToosTypeGameContext" where
  "ToosTypeGameContext_deinit ctx =
     ctx\<lparr>gc_room := ToosTypeRoom_init 0 zero_profile, gc_db := None, gc_spawn := ToosTypeSpawnEngine_deinit (gc_spawn ctx),
         gc_players := replicate TOOS_TYPE_MAX_ROOM_PLAYERS zero_player, gc_active_player_count := 0, gc_next_join_seq := 0,
         gc_last_tick_ms := 0, gc_dispatch := False\<rparr>"

definition ToosTypeGameContext_join :: "nat option \<Rightarrow> ToosTypeGameContext \<Rightarrow> bool \<times> ToosTypeGameContext" where
  "ToosTypeGameContext_join conn_ptr ctx =
     (case conn_ptr of None \<Rightarrow> (False, ctx)
      | Some conn \<Rightarrow>
          if rm_state (gc_room ctx) \<noteq> TOOS_TYPE_STATE_WAITING then (False, emit_error conn_ptr (lit ''ERROR_GAME_ALREADY_STARTED'') ctx)
          else if find_player_by_conn ctx conn \<noteq> None then (False, emit_error conn_ptr (lit ''ERROR_ALREADY_JOINED'') ctx)
          else case find_from 0 (\<lambda>p. \<not> pl_occupied p) (gc_players ctx) of
                 None \<Rightarrow> (False, emit_error conn_ptr (lit ''ERROR_ROOM_FULL'') ctx)
               | Some slot \<Rightarrow>
                   let p = zero_player\<lparr>pl_occupied := True, pl_player_no := of_nat (slot + 1), pl_join_seq := gc_next_join_seq ctx,
                             pl_connected := True, pl_ready := False, pl_conn_ptr := conn_ptr\<rparr>;
                       c1 = recalculate_host ((set_player slot p ctx)\<lparr>gc_next_join_seq := gc_next_join_seq ctx + 1,
                              gc_active_player_count := gc_active_player_count ctx + 1\<rparr>)
                   in (True, emit_room_config None
                         (emit_event (EV_JOIN_ACK conn_ptr (pl_player_no p) (pl_player_no p = rm_host_player_no (gc_room c1))) c1)))"

definition is_host :: "ToosTypeGameContext \<Rightarrow> nat \<Rightarrow> bool" where
  "is_host ctx conn = (case find_player_by_conn ctx conn of None \<Rightarrow> False | Some i \<Rightarrow> pl_player_no (player ctx i) = rm_host_player_no (gc_room ctx))"

definition ToosTypeGameContext_set_language :: "nat option \<Rightarrow> ToosTypeLanguage \<Rightarrow> ToosTypeGameContext \<Rightarrow> bool \<times> ToosTypeGameContext" where
  "ToosTypeGameContext_set_language conn_ptr lang ctx =
     (case conn_ptr of None \<Rightarrow> (False, ctx)
      | Some conn \<Rightarrow>
          if rm_state (gc_room ctx) \<noteq> TOOS_TYPE_STATE_WAITING then (False, emit_error conn_ptr (lit ''ERROR_GAME_ALREADY_STARTED'') ctx)
          else if rm_language_locked (gc_room ctx) then (False, emit_error conn_ptr (lit ''ERROR_LANGUAGE_LOCKED'') ctx)
          else if \<not> is_host ctx conn then (False, emit_error conn_ptr (lit ''ERROR_NOT_HOST'') ctx)
          else if lang \<noteq> TOOS_TYPE_LANG_EN \<and> lang \<noteq> TOOS_TYPE_LANG_KO then (False, emit_error conn_ptr (lit ''ERROR_INVALID_LANGUAGE'') ctx)
          else (True, emit_room_config None (set_room ((gc_room ctx)\<lparr>rm_language := lang\<rparr>) ctx)))"

definition ToosTypeGameContext_set_duration :: "nat option \<Rightarrow> u32 \<Rightarrow> ToosTypeGameContext \<Rightarrow> bool \<times> ToosTypeGameContext" where
  "ToosTypeGameContext_set_duration conn_ptr minutes ctx =
     (case conn_ptr of None \<Rightarrow> (False, ctx)
      | Some conn \<Rightarrow>
          if rm_state (gc_room ctx) \<noteq> TOOS_TYPE_STATE_WAITING then (False, emit_error conn_ptr (lit ''ERROR_GAME_ALREADY_STARTED'') ctx)
          else if \<not> is_host ctx conn then (False, emit_error conn_ptr (lit ''ERROR_NOT_HOST'') ctx)
          else if rm_language_locked (gc_room ctx) then (False, emit_error conn_ptr (lit ''ERROR_CONFIG_LOCKED'') ctx)
          else if \<exists>p \<in> set (gc_players ctx). present p \<and> pl_ready p
               then (False, emit_error conn_ptr (lit ''ERROR_CANNOT_CHANGE_WHILE_READY'') ctx)
          else case ToosTypeRoom_set_duration_minutes (gc_room ctx) minutes of
                 (False, _) \<Rightarrow> (False, emit_error conn_ptr (lit ''ERROR_INVALID_DURATION'') ctx)
               | (True, r) \<Rightarrow> (True, emit_room_config None (set_room r ctx)))"

definition ToosTypeGameContext_set_ready :: "nat option \<Rightarrow> ToosTypeGameContext \<Rightarrow> bool \<times> ToosTypeGameContext" where
  "ToosTypeGameContext_set_ready conn_ptr ctx =
     (case conn_ptr of None \<Rightarrow> (False, ctx)
      | Some conn \<Rightarrow>
          if rm_state (gc_room ctx) \<noteq> TOOS_TYPE_STATE_WAITING then (False, ctx)
          else if rm_language (gc_room ctx) = TOOS_TYPE_LANG_NONE then (False, emit_error conn_ptr (lit ''ERROR_LANGUAGE_NOT_SELECTED'') ctx)
          else case find_player_by_conn ctx conn of None \<Rightarrow> (False, ctx)
               | Some i \<Rightarrow>
                   (True, emit_room_config None (set_player i ((player ctx i)\<lparr>pl_ready := True\<rparr>)
                            (set_room ((gc_room ctx)\<lparr>rm_language_locked := True\<rparr>) ctx))))"

section \<open>Starting a game\<close>

definition all_ready :: "ToosTypeGameContext \<Rightarrow> bool" where
  "all_ready ctx \<longleftrightarrow> \<not> (connected_count ctx < TOOS_TYPE_MIN_ROOM_PLAYERS \<or> ready_count ctx \<noteq> connected_count ctx)"

definition ToosTypeGameContext_prepare_start :: "deck_mem \<Rightarrow> nat option \<Rightarrow> ToosTypeGameContext \<Rightarrow> bool \<times> ToosTypeGameContext" where
  "ToosTypeGameContext_prepare_start mem conn_ptr ctx =
     (case conn_ptr of None \<Rightarrow> (False, ctx)
      | Some conn \<Rightarrow>
          if rm_state (gc_room ctx) \<noteq> TOOS_TYPE_STATE_WAITING then (False, emit_error conn_ptr (lit ''ERROR_NOT_WAITING'') ctx)
          else if \<not> is_host ctx conn then (False, emit_error conn_ptr (lit ''ERROR_NOT_HOST'') ctx)
          else if rm_language (gc_room ctx) \<noteq> TOOS_TYPE_LANG_EN \<and> rm_language (gc_room ctx) \<noteq> TOOS_TYPE_LANG_KO
               then (False, emit_error conn_ptr (lit ''ERROR_LANGUAGE_NOT_SELECTED'') ctx)
          else if \<not> all_ready ctx then (False, emit_error conn_ptr (lit ''ERROR_NOT_ALL_READY_OR_NOT_ENOUGH_PLAYERS'') ctx)
          else if sp_loaded (gc_spawn ctx) then (False, emit_error conn_ptr (lit ''ERROR_START_ALREADY_PREPARED'') ctx)
          else case ToosTypeSpawnEngine_build_deck mem (gc_spawn ctx) (gc_db ctx) (rm_language (gc_room ctx)) of
                 (ok, sp) \<Rightarrow> let c1 = ctx\<lparr>gc_spawn := sp\<rparr>
                             in if \<not> ok then (False, emit_error conn_ptr (lit ''ERROR_DECK_BUILD_FAILED'') c1) else (True, c1))"

definition ToosTypeGameContext_abort_start :: "ToosTypeGameContext \<Rightarrow> ToosTypeGameContext" where
  "ToosTypeGameContext_abort_start ctx =
     (if rm_state (gc_room ctx) = TOOS_TYPE_STATE_WAITING \<and> sp_loaded (gc_spawn ctx) then reset_spawn_engine ctx else ctx)"

definition drop_deck :: "ToosTypeGameContext \<Rightarrow> ToosTypeGameContext" where
  "drop_deck ctx = (if sp_loaded (gc_spawn ctx) then reset_spawn_engine ctx else ctx)"

definition ToosTypeGameContext_start_game :: "nat option \<Rightarrow> u64 \<Rightarrow> ToosTypeGameContext \<Rightarrow> bool \<times> ToosTypeGameContext" where
  "ToosTypeGameContext_start_game conn_ptr now_ms ctx =
     (case conn_ptr of None \<Rightarrow> (False, ctx)
      | Some conn \<Rightarrow>
          if now_ms = 0 then (False, ctx)
          else if rm_state (gc_room ctx) \<noteq> TOOS_TYPE_STATE_WAITING then (False, emit_error conn_ptr (lit ''ERROR_NOT_WAITING'') ctx)
          else if \<not> is_host ctx conn then (False, emit_error conn_ptr (lit ''ERROR_NOT_HOST'') (drop_deck ctx))
          else if \<not> all_ready ctx
               then (False, emit_error conn_ptr (lit ''ERROR_NOT_ALL_READY_OR_NOT_ENOUGH_PLAYERS'') (drop_deck ctx))
          else if \<not> sp_loaded (gc_spawn ctx) then (False, emit_error conn_ptr (lit ''ERROR_START_NOT_PREPARED'') ctx)
          else case ToosTypeRoom_start_countdown (gc_room ctx) now_ms of
                 (False, _) \<Rightarrow> (False, emit_error conn_ptr (lit ''ERROR_START_COUNTDOWN_FAILED'') (reset_spawn_engine ctx))
               | (True, r) \<Rightarrow>
                   let rem = (if rm_countdown_ends_at_ms r > now_ms then rm_countdown_ends_at_ms r - now_ms else 0)
                   in (True, emit_room_config None (emit_event (EV_COUNTDOWN None rem) (set_room r ctx))))"

section \<open>Playing\<close>

text \<open>What a verdict changes in the player; the flag says whether the next sentence is due.\<close>

definition apply_verdict :: "ToosTypeRoom \<Rightarrow> ToosTypeJudgeResult \<Rightarrow> byte list \<Rightarrow> nat \<Rightarrow> ToosTypePlayerState \<Rightarrow> bool \<times> ToosTypePlayerState" where
  "apply_verdict r jres input len p =
     (if jres = TOOS_TYPE_JUDGE_CORRECT then
        let p1 = p\<lparr>pl_correct_count := pl_correct_count p + 1\<rparr>;
            k = unat (pl_active_phase p - 1);
            p2 = (if 1 \<le> pl_active_phase p \<and> pl_active_phase p \<le> of_nat TOOS_TYPE_MAX_PHASES
                  then p1\<lparr>pl_phase_correct := (pl_phase_correct p1)[k := pl_phase_correct p1 ! k + 1],
                          pl_phase_score := pl_phase_score p1 + pp_correct_score (gp_phases (rm_profile r) ! k)\<rparr>
                  else p1)
        in (True, p2\<lparr>pl_correct_chars := pl_correct_chars p2 + ToosTypeJudge_count_chars (Some input) len (rm_language r)\<rparr>)
      else if jres = TOOS_TYPE_JUDGE_INCORRECT then (False, p\<lparr>pl_incorrect_count := pl_incorrect_count p + 1\<rparr>)
      else if jres = TOOS_TYPE_JUDGE_EXPIRED then (True, p\<lparr>pl_expired_count := pl_expired_count p + 1\<rparr>)
      else (False, p))"

definition ToosTypeGameContext_submit ::
  "bool \<Rightarrow> nat option \<Rightarrow> u64 \<Rightarrow> byte list option \<Rightarrow> nat \<Rightarrow> u64 \<Rightarrow> ToosTypeGameContext \<Rightarrow> bool \<times> ToosTypeGameContext" where
  "ToosTypeGameContext_submit mem conn_ptr sentence_id input len now_arg ctx =
     (case (conn_ptr, input) of
        (Some conn, Some inp) \<Rightarrow>
          if rm_state (gc_room ctx) \<noteq> TOOS_TYPE_STATE_PLAYING then (False, ctx)
          else let now_ms = (if now_arg = 0 then gc_last_tick_ms ctx else now_arg)
          in (case find_player_by_conn ctx conn of None \<Rightarrow> (False, ctx)
              | Some i \<Rightarrow>
                  let p = player ctx i
                  in if \<not> pl_connected p \<or> pl_finish_status p \<noteq> TOOS_TYPE_FINISH_NONE then (False, ctx)
                     else if pl_awaiting_game_end p \<or> pl_active_sentence_id p = 0
                     then (True, emit_event (EV_SENTENCE_RESULT conn_ptr sentence_id TOOS_TYPE_JUDGE_STALE) ctx)
                     else if pl_active_phase p < 1 \<or> pl_active_phase p > of_nat TOOS_TYPE_MAX_PHASES
                     then (False, emit_error conn_ptr (lit ''ERROR_INVALID_ACTIVE_PHASE'') ctx)
                     else let difficulty = unat (pl_active_phase p); cursor = unat (pl_phase_cursor p ! (difficulty - 1))
                     in (case ToosTypeSpawnEngine_sentence_at (gc_spawn ctx) difficulty cursor of None \<Rightarrow> (False, ctx)
                         | Some target \<Rightarrow>
                             let jres = ToosTypeJudge_submit (Some target) (pl_active_sentence_id p) sentence_id input len now_ms
                                          (pl_sentence_deadline_ms p) (rm_language (gc_room ctx))
                             in if jres = TOOS_TYPE_JUDGE_ERROR then (False, emit_error conn_ptr (lit ''JUDGE_INTERNAL_ERROR'') ctx)
                                else if jres = TOOS_TYPE_JUDGE_STALE
                                then (True, emit_event (EV_SENTENCE_RESULT conn_ptr sentence_id TOOS_TYPE_JUDGE_STALE) ctx)
                                else (case apply_verdict (gc_room ctx) jres inp len p of (advance, p1) \<Rightarrow>
                                       let p2 = update_player_stats (gc_room ctx) p1 now_ms;
                                           c1 = emit_event (score_event conn_ptr sentence_id p2)
                                                  (emit_event (EV_SENTENCE_RESULT conn_ptr sentence_id jres) (set_player i p2 ctx))
                                       in (True, if advance then issue_next_sentence mem i now_ms (set_player i (advance_cursor p2) c1) else c1))))
      | _ \<Rightarrow> (False, ctx))"

definition remove_player :: "nat \<Rightarrow> ToosTypeGameContext \<Rightarrow> ToosTypeGameContext" where
  "remove_player i ctx = recalculate_host ((set_player i zero_player ctx)\<lparr>gc_active_player_count := gc_active_player_count ctx - 1\<rparr>)"

definition ToosTypeGameContext_disconnect :: "nat option \<Rightarrow> u64 \<Rightarrow> ToosTypeGameContext \<Rightarrow> bool \<times> ToosTypeGameContext" where
  "ToosTypeGameContext_disconnect conn_ptr now_arg ctx =
     (case conn_ptr of None \<Rightarrow> (False, ctx)
      | Some conn \<Rightarrow>
          let now_ms = (if now_arg = 0 then gc_last_tick_ms ctx else now_arg)
          in (case find_player_by_conn ctx conn of None \<Rightarrow> (False, ctx)
              | Some i \<Rightarrow>
                  if rm_state (gc_room ctx) = TOOS_TYPE_STATE_COUNTDOWN then
                    let c1 = remove_player i ctx; c2 = set_room (ToosTypeRoom_cancel_countdown (gc_room c1) now_ms) c1
                    in (True, if gc_active_player_count c2 = 0 then reset_empty_room now_ms c2
                              else emit_room_config None (emit_event (EV_GAME_STATE None TOOS_TYPE_STATE_WAITING 0 0)
                                     (refresh_config_lock (reset_spawn_engine c2))))
                  else if rm_state (gc_room ctx) = TOOS_TYPE_STATE_WAITING then
                    let c1 = remove_player i ctx
                    in (True, if gc_active_player_count c1 = 0 then reset_empty_room now_ms c1
                              else emit_room_config None (refresh_config_lock c1))
                  else
                    let r = gc_room ctx;
                        p = (player ctx i)\<lparr>pl_connected := False, pl_conn_ptr := None\<rparr>;
                        p1 = (if pl_finish_status p = TOOS_TYPE_FINISH_NONE
                              then let end_ms = (if now_ms > rm_game_end_ms r then rm_game_end_ms r else now_ms)
                                   in update_player_stats r
                                        (p\<lparr>pl_played_ms := (if end_ms > rm_game_start_ms r then end_ms - rm_game_start_ms r else 0),
                                           pl_finish_status := TOOS_TYPE_FINISH_DNF\<rparr>) now_ms
                              else p);
                        c1 = set_player i p1 ctx
                    in (True, if \<exists>q \<in> set (gc_players c1). present q then c1 else reset_empty_room now_ms c1)))"

section \<open>Ranking\<close>

definition ranking_entry :: "ToosTypePlayerState \<Rightarrow> ToosTypeRankingEntry" where
  "ranking_entry p = \<lparr>re_rank = 0, re_player_no = pl_player_no p, re_status = pl_finish_status p, re_played_ms = pl_played_ms p,
     re_play_score = pl_play_score p, re_phase_score = pl_phase_score p, re_accuracy_score = pl_accuracy_score p,
     re_accuracy_x100 = pl_accuracy_x100 p, re_total_score = pl_total_score p, re_wpm = pl_wpm p\<rparr>"

text \<open>The comparison: whether the second entry has to come first.\<close>

definition rank_swap :: "ToosTypeRankingEntry \<Rightarrow> ToosTypeRankingEntry \<Rightarrow> bool" where
  "rank_swap e1 e2 =
     (if re_status e1 = TOOS_TYPE_FINISH_DNF \<and> re_status e2 = TOOS_TYPE_FINISH_FINISHED then True
      else if re_status e1 = TOOS_TYPE_FINISH_FINISHED \<and> re_status e2 = TOOS_TYPE_FINISH_FINISHED then
        (if re_total_score e2 > re_total_score e1 then True
         else if re_total_score e2 = re_total_score e1 then
           (if re_accuracy_x100 e2 > re_accuracy_x100 e1 then True
            else if re_accuracy_x100 e2 = re_accuracy_x100 e1 then
              (if re_phase_score e2 > re_phase_score e1 then True
               else if re_phase_score e2 = re_phase_score e1 then
                 (if re_wpm e2 > re_wpm e1 then True else re_wpm e2 = re_wpm e1 \<and> re_player_no e2 < re_player_no e1)
               else False)
            else False)
         else False)
      else if re_status e1 = TOOS_TYPE_FINISH_DNF \<and> re_status e2 = TOOS_TYPE_FINISH_DNF then
        (if re_total_score e2 > re_total_score e1 then True
         else if re_total_score e2 = re_total_score e1 then
           (if re_played_ms e2 > re_played_ms e1 then True
            else if re_played_ms e2 = re_played_ms e1 then
              (if re_accuracy_x100 e2 > re_accuracy_x100 e1 then True
               else if re_accuracy_x100 e2 = re_accuracy_x100 e1 then
                 (if re_phase_score e2 > re_phase_score e1 then True
                  else if re_phase_score e2 = re_phase_score e1 then
                    (if re_wpm e2 > re_wpm e1 then True else re_wpm e2 = re_wpm e1 \<and> re_player_no e2 < re_player_no e1)
                  else False)
               else False)
            else False)
         else False)
      else False)"

text \<open>The exchange sort: the inner loop carries the entry at \<open>i\<close> through the rest of the array.\<close>

fun exchange :: "('a \<Rightarrow> 'a \<Rightarrow> bool) \<Rightarrow> 'a \<Rightarrow> 'a list \<Rightarrow> 'a \<times> 'a list" where
  "exchange swap x [] = (x, [])"
| "exchange swap x (y # ys) =
     (if swap x y then (case exchange swap y ys of (m, zs) \<Rightarrow> (m, x # zs)) else (case exchange swap x ys of (m, zs) \<Rightarrow> (m, y # zs)))"

lemma exchange_length: "exchange swap x ys = (m, zs) \<Longrightarrow> length zs = length ys"
  by (induction ys arbitrary: x m zs) (auto split: prod.splits if_splits)

function exchange_sort :: "('a \<Rightarrow> 'a \<Rightarrow> bool) \<Rightarrow> 'a list \<Rightarrow> 'a list" where
  "exchange_sort swap [] = []"
| "exchange_sort swap (x # xs) = (case exchange swap x xs of (m, ys) \<Rightarrow> m # exchange_sort swap ys)"
  by pat_completeness auto
termination
  by (relation "measure (\<lambda>(_, xs). length xs)") (auto dest!: exchange_length [OF sym])

definition same_rank :: "ToosTypeRankingEntry \<Rightarrow> ToosTypeRankingEntry \<Rightarrow> bool" where
  "same_rank prev cur \<longleftrightarrow> re_status cur = re_status prev \<and> re_total_score cur = re_total_score prev
     \<and> (re_status cur = TOOS_TYPE_FINISH_FINISHED \<or> re_played_ms cur = re_played_ms prev)
     \<and> re_accuracy_x100 cur = re_accuracy_x100 prev \<and> re_phase_score cur = re_phase_score prev \<and> re_wpm cur = re_wpm prev"

fun number_from :: "nat \<Rightarrow> ToosTypeRankingEntry \<Rightarrow> ToosTypeRankingEntry list \<Rightarrow> ToosTypeRankingEntry list" where
  "number_from i prev [] = []"
| "number_from i prev (cur # es) =
     (let c = cur\<lparr>re_rank := (if same_rank prev cur then re_rank prev else of_nat (i + 1))\<rparr> in c # number_from (i + 1) c es)"

definition assign_ranks :: "ToosTypeRankingEntry list \<Rightarrow> ToosTypeRankingEntry list" where
  "assign_ranks es = (case es of [] \<Rightarrow> [] | e # r \<Rightarrow> let e1 = e\<lparr>re_rank := 1\<rparr> in e1 # number_from 1 e1 r)"

section \<open>Tick\<close>

text \<open>The end of the game for one player.\<close>

definition finish_player :: "nat \<Rightarrow> ToosTypeGameContext \<Rightarrow> ToosTypeGameContext" where
  "finish_player i ctx =
     (let p = player ctx i; r = gc_room ctx
      in if \<not> pl_occupied p \<or> pl_finish_status p \<noteq> TOOS_TYPE_FINISH_NONE then ctx
         else let expired = (pl_active_sentence_id p \<noteq> 0 \<and> pl_sentence_deadline_ms p \<le> rm_game_end_ms r);
                  p1 = (if expired then clear_sentence (p\<lparr>pl_expired_count := pl_expired_count p + 1\<rparr>) else p);
                  p2 = update_player_stats r (p1\<lparr>pl_played_ms := rm_game_end_ms r - rm_game_start_ms r,
                         pl_finish_status := TOOS_TYPE_FINISH_FINISHED\<rparr>) (rm_game_end_ms r);
                  c1 = (if expired then emit_event (EV_SENTENCE_RESULT (pl_conn_ptr p) (pl_active_sentence_id p) TOOS_TYPE_JUDGE_EXPIRED) ctx else ctx)
              in set_player i p2 c1)"

definition final_ranking :: "ToosTypePlayerState list \<Rightarrow> ToosTypeRankingEntry list" where
  "final_ranking ps = assign_ranks (exchange_sort rank_swap (map ranking_entry (filter pl_occupied ps)))"

text \<open>The deadline of one player's sentence.\<close>

definition expire_player :: "(nat \<Rightarrow> bool) \<Rightarrow> u64 \<Rightarrow> nat \<Rightarrow> ToosTypeGameContext \<Rightarrow> ToosTypeGameContext" where
  "expire_player mem now_ms i ctx =
     (let p = player ctx i
      in if \<not> present p \<or> pl_finish_status p \<noteq> TOOS_TYPE_FINISH_NONE then ctx
         else if pl_active_sentence_id p \<noteq> 0 \<and> now_ms \<ge> pl_sentence_deadline_ms p
         then let p1 = update_player_stats (gc_room ctx) (p\<lparr>pl_expired_count := pl_expired_count p + 1\<rparr>) now_ms;
                  c1 = emit_event (score_event (pl_conn_ptr p) (pl_active_sentence_id p) p1)
                         (emit_event (EV_SENTENCE_RESULT (pl_conn_ptr p) (pl_active_sentence_id p) TOOS_TYPE_JUDGE_EXPIRED) ctx)
              in issue_next_sentence (mem i) i now_ms (set_player i (advance_cursor p1) c1)
         else ctx)"

definition remaining_ms :: "ToosTypeRoom \<Rightarrow> u64 \<Rightarrow> u64" where
  "remaining_ms r now_ms = (if rm_game_end_ms r > now_ms then rm_game_end_ms r - now_ms else 0)"

definition start_player :: "(nat \<Rightarrow> bool) \<Rightarrow> u64 \<Rightarrow> nat \<Rightarrow> ToosTypeGameContext \<Rightarrow> ToosTypeGameContext" where
  "start_player mem now_ms i ctx = (if present (player ctx i) then issue_next_sentence (mem i) i now_ms ctx else ctx)"

text \<open>\<open>mem0\<close> and \<open>mem1\<close>: the allocator during the first and the second loop over the players.\<close>

definition ToosTypeGameContext_tick :: "(nat \<Rightarrow> bool) \<Rightarrow> (nat \<Rightarrow> bool) \<Rightarrow> u64 \<Rightarrow> ToosTypeGameContext \<Rightarrow> ToosTypeGameContext" where
  "ToosTypeGameContext_tick mem0 mem1 now_arg ctx =
     (let now_ms = (if now_arg = 0 then gc_last_tick_ms ctx else now_arg);
          (tick_res, r) = ToosTypeRoom_tick (gc_room ctx) now_ms;
          c0 = set_room r (ctx\<lparr>gc_last_tick_ms := now_ms\<rparr>);
          everyone = [0..<TOOS_TYPE_MAX_ROOM_PLAYERS]
      in case tick_res of
           TOOS_TYPE_ROOM_TICK_GAME_ENDED \<Rightarrow>
             let c1 = fold finish_player everyone c0
             in emit_room_config None (emit_event (EV_FINAL_RANKING (final_ranking (gc_players c1)))
                  (emit_event (EV_GAME_OVER (lit ''NORMAL_END'')) c1))
         | _ \<Rightarrow>
             let c1 = (case tick_res of
                         TOOS_TYPE_ROOM_TICK_GAME_STARTED \<Rightarrow>
                           fold (start_player mem0 now_ms) everyone
                             (emit_room_config None (emit_event (EV_GAME_STATE None TOOS_TYPE_STATE_PLAYING (rm_current_phase r) (remaining_ms r now_ms)) c0))
                       | TOOS_TYPE_ROOM_TICK_PHASE_CHANGED \<Rightarrow>
                           emit_event (EV_PHASE_CHANGED None (rm_current_phase r) (ToosTypeRoom_sentence_timeout_ms r now_ms) (remaining_ms r now_ms)) c0
                       | _ \<Rightarrow> c0)
             in if rm_state r = TOOS_TYPE_STATE_PLAYING then fold (expire_player mem1 now_ms) everyone c1 else c1)"

end
