(* ===== verification/Toos_Ranking.thy ===== *)
theory Toos_Ranking
  imports Toos_Game "HOL-Library.Product_Lexorder"
begin

text \<open>
  The final ranking: the exchange sort sorts, the nested comparison is a lexicographic order, and the rank of a player is
  one more than the number of players who did strictly better.
\<close>

section \<open>Exchange sort\<close>

lemma exchange_mset: "exchange swap x ys = (m, zs) \<Longrightarrow> add_mset m (mset zs) = add_mset x (mset ys)"
  by (induction ys arbitrary: x m zs) (fastforce split: prod.splits if_splits)+

lemma exchange_set: "exchange swap x ys = (m, zs) \<Longrightarrow> insert m (set zs) = insert x (set ys)"
  using exchange_mset [of swap x ys m zs] by (metis set_mset_add_mset_insert set_mset_mset)

lemma exchange_least:
  fixes key :: "'a \<Rightarrow> 'k :: linorder"
  assumes "\<forall>a \<in> insert x (set ys). \<forall>b \<in> insert x (set ys). swap a b \<longleftrightarrow> key b < key a"
  shows "exchange swap x ys = (m, zs) \<Longrightarrow> \<forall>z \<in> insert x (set ys). key m \<le> key z"
  using assms
proof (induction ys arbitrary: x m zs)
  case (Cons y ys)
  let ?x = "if swap x y then y else x"
  obtain ws where e: "exchange swap ?x ys = (m, ws)" using Cons.prems(1) by (auto split: prod.splits if_splits)
  have "\<forall>z \<in> insert ?x (set ys). key m \<le> key z" by (rule Cons.IH [OF e]) (use Cons.prems(2) in auto)
  moreover have "key ?x \<le> key x" "key ?x \<le> key y" using Cons.prems(2) by auto
  ultimately show ?case by force
qed simp

lemma exchange_sort_mset: "mset (exchange_sort swap xs) = mset xs"
  by (induction swap xs rule: exchange_sort.induct) (auto split: prod.splits dest: exchange_mset)

lemma exchange_sort_sorted:
  fixes key :: "'a \<Rightarrow> 'k :: linorder"
  shows "\<forall>a \<in> set xs. \<forall>b \<in> set xs. swap a b \<longleftrightarrow> key b < key a \<Longrightarrow> sorted (map key (exchange_sort swap xs))"
proof (induction swap xs rule: exchange_sort.induct)
  case (2 swap x xs)
  obtain m ys where e: "exchange swap x xs = (m, ys)" by force
  have s: "set ys \<subseteq> set (x # xs)" using exchange_set [OF e] by auto
  have "sorted (map key (exchange_sort swap ys))" by (rule "2.IH" [OF e [symmetric]]) (use 2 s in blast)
  moreover have "\<forall>z \<in> set (x # xs). key m \<le> key z" using exchange_least [where key = key, OF _ e] 2(2) by simp
  moreover have "set (exchange_sort swap ys) = set ys" by (metis exchange_sort_mset set_mset_mset)
  ultimately show ?case using e s by auto
qed simp

section \<open>The order\<close>

definition ranked :: "ToosTypeRankingEntry \<Rightarrow> bool" where
  "ranked e \<longleftrightarrow> re_status e = TOOS_TYPE_FINISH_FINISHED \<or> re_status e = TOOS_TYPE_FINISH_DNF"

text \<open>What counts, smaller is better: finished before not finished, then the total score, for those who did not finish the
  time they played, then accuracy, phase score and words per minute.\<close>

definition merit :: "ToosTypeRankingEntry \<Rightarrow> bool \<times> int \<times> int \<times> int \<times> int \<times> int" where
  "merit e = (re_status e = TOOS_TYPE_FINISH_DNF, - uint (re_total_score e),
     if re_status e = TOOS_TYPE_FINISH_DNF then - uint (re_played_ms e) else 0,
     - uint (re_accuracy_x100 e), - uint (re_phase_score e), - uint (re_wpm e))"

definition rank_key :: "ToosTypeRankingEntry \<Rightarrow> (bool \<times> int \<times> int \<times> int \<times> int \<times> int) \<times> u32" where
  "rank_key e = (merit e, re_player_no e)"

lemma lex_less: "(x1 :: 'a :: linorder, y1 :: 'b :: linorder) < (x2, y2) \<longleftrightarrow> x1 < x2 \<or> x1 = x2 \<and> y1 < y2"
  by (auto simp: order_le_less)

lemma if_lex: "(if q then True else if r then X else False) \<longleftrightarrow> q \<or> r \<and> (q \<or> X)"
  by simp

lemma neg_uint: "- uint a < - uint b \<longleftrightarrow> b < a" "- uint a = - uint b \<longleftrightarrow> a = b" for a b :: "'a :: len word"
  by (simp_all add: word_less_def word_uint_eq_iff)

lemma rank_swap_key:
  assumes "ranked a" "ranked b"
  shows "rank_swap a b \<longleftrightarrow> rank_key b < rank_key a"
proof (cases "re_status a"; cases "re_status b")
  assume s: "re_status a = TOOS_TYPE_FINISH_FINISHED" "re_status b = TOOS_TYPE_FINISH_FINISHED"
  show ?thesis unfolding rank_key_def merit_def rank_swap_def s lex_less by (simp only: simp_thms if_False neg_uint prod.inject ToosTypeFinishStatus.distinct) auto
next
  assume s: "re_status a = TOOS_TYPE_FINISH_DNF" "re_status b = TOOS_TYPE_FINISH_DNF"
  show ?thesis unfolding rank_key_def merit_def rank_swap_def s lex_less by (simp only: simp_thms if_True neg_uint prod.inject) auto
next
  assume s: "re_status a = TOOS_TYPE_FINISH_FINISHED" "re_status b = TOOS_TYPE_FINISH_DNF"
  show ?thesis unfolding rank_key_def merit_def rank_swap_def s lex_less by simp
next
  assume s: "re_status a = TOOS_TYPE_FINISH_DNF" "re_status b = TOOS_TYPE_FINISH_FINISHED"
  show ?thesis unfolding rank_key_def merit_def rank_swap_def s lex_less by simp
qed (use assms in \<open>simp_all add: ranked_def\<close>)

section \<open>Ranks\<close>

lemma same_rank_merit:
  assumes "ranked a" "ranked b"
  shows "same_rank a b \<longleftrightarrow> merit a = merit b"
proof (cases "re_status a"; cases "re_status b")
  assume s: "re_status a = TOOS_TYPE_FINISH_FINISHED" "re_status b = TOOS_TYPE_FINISH_FINISHED"
  show ?thesis unfolding same_rank_def merit_def s prod.inject by (simp only: simp_thms if_False neg_uint ToosTypeFinishStatus.distinct) auto
next
  assume s: "re_status a = TOOS_TYPE_FINISH_DNF" "re_status b = TOOS_TYPE_FINISH_DNF"
  show ?thesis unfolding same_rank_def merit_def s prod.inject by (simp only: simp_thms if_True neg_uint ToosTypeFinishStatus.distinct) auto
qed (use assms in \<open>auto simp: ranked_def same_rank_def merit_def\<close>)

lemma rank_field [simp]: "merit (e\<lparr>re_rank := k\<rparr>) = merit e" "re_player_no (e\<lparr>re_rank := k\<rparr>) = re_player_no e" "ranked (e\<lparr>re_rank := k\<rparr>) = ranked e"
  by (simp_all add: merit_def ranked_def)

definition better_than :: "ToosTypeRankingEntry list \<Rightarrow> ToosTypeRankingEntry \<Rightarrow> nat" where
  "better_than es e = length (filter (\<lambda>x. merit x < merit e) es)"

text \<open>Numbering a sorted list: \<open>pre\<close> are the entries already numbered, \<open>prev\<close> the last of them.\<close>

lemma number_from_ranks:
  assumes "sorted (map merit (pre @ prev # es))" "\<forall>e \<in> set (pre @ prev # es). ranked e"
    and "unat (re_rank prev) = 1 + better_than (pre @ prev # es) prev" "i = length pre + 1" "length (pre @ prev # es) < 2 ^ 32"
  shows "map merit (number_from i prev es) = map merit es \<and> map re_player_no (number_from i prev es) = map re_player_no es
    \<and> (\<forall>e \<in> set (number_from i prev es). unat (re_rank e) = 1 + better_than (pre @ prev # es) e)"
  using assms
proof (induction es arbitrary: i pre prev)
  case (Cons x es)
  let ?all = "pre @ prev # x # es"
  let ?c = "x\<lparr>re_rank := (if same_rank prev x then re_rank prev else of_nat (i + 1))\<rparr>"
  have sr: "same_rank prev x \<longleftrightarrow> merit prev = merit x" using Cons.prems(2) by (intro same_rank_merit) auto
  have srt: "merit prev \<le> merit x" "\<forall>y \<in> set pre. merit y \<le> merit prev" "\<forall>y \<in> set es. merit x \<le> merit y"
    using Cons.prems(1) by (auto simp: sorted_append)
  have bt: "better_than ?all x = (if merit prev = merit x then better_than ?all prev else Suc (length pre))"
  proof (cases "merit prev = merit x")
    case False
    then have "filter (\<lambda>y. merit y < merit x) ?all = pre @ [prev]" using srt by (auto simp: filter_empty_conv not_less intro!: filter_True)
    with False show ?thesis by (simp add: better_than_def)
  qed (simp add: better_than_def)
  have rk: "unat (re_rank ?c) = 1 + better_than ?all x"
  proof (cases "merit prev = merit x")
    case True
    then show ?thesis using sr bt Cons.prems(3) by simp
  next
    case False
    have "unat (of_nat (i + 1) :: u32) = i + 1" using Cons.prems(4,5) by (simp add: unat_of_nat take_bit_nat_eq_self del: of_nat_add of_nat_Suc)
    with False sr bt Cons.prems(4) show ?thesis by (simp del: of_nat_add of_nat_Suc)
  qed
  have m: "map merit (pre @ prev # ?c # es) = map merit ?all" by simp
  have b: "better_than (pre @ prev # ?c # es) e = better_than ?all e" for e by (simp add: better_than_def)
  have ih: "map merit (number_from (i + 1) ?c es) = map merit es \<and> map re_player_no (number_from (i + 1) ?c es) = map re_player_no es
    \<and> (\<forall>e \<in> set (number_from (i + 1) ?c es). unat (re_rank e) = 1 + better_than ((pre @ [prev]) @ ?c # es) e)"
    by (rule Cons.IH) (use Cons.prems m b rk in \<open>simp_all add: better_than_def\<close>)
  show ?case using ih rk b by (auto simp: Let_def better_than_def)
qed simp

lemma assign_ranks_exact:
  assumes "sorted (map merit es)" "\<forall>e \<in> set es. ranked e" "length es < 2 ^ 32"
  shows "map merit (assign_ranks es) = map merit es \<and> map re_player_no (assign_ranks es) = map re_player_no es
    \<and> (\<forall>e \<in> set (assign_ranks es). unat (re_rank e) = 1 + better_than es e)"
proof (cases es)
  case (Cons e r)
  let ?e = "e\<lparr>re_rank := 1\<rparr>"
  have b: "better_than ([] @ ?e # r) x = better_than es x" for x by (simp add: better_than_def Cons)
  have z: "better_than es ?e = 0" using assms(1) by (auto simp: better_than_def Cons filter_empty_conv not_less)
  have "map merit (number_from 1 ?e r) = map merit r \<and> map re_player_no (number_from 1 ?e r) = map re_player_no r
    \<and> (\<forall>x \<in> set (number_from 1 ?e r). unat (re_rank x) = 1 + better_than ([] @ ?e # r) x)"
    by (rule number_from_ranks) (use assms z b in \<open>auto simp: Cons\<close>)
  with z b Cons show ?thesis by (auto simp: assign_ranks_def Let_def)
qed (simp add: assign_ranks_def)

lemma lex_fst: "(x :: 'a :: linorder, y :: 'b :: linorder) \<le> (x', y') \<Longrightarrow> x \<le> x'"
  by (auto dest: less_imp_le)

lemma rank_key_merit: "sorted (map rank_key es) \<Longrightarrow> sorted (map merit es)"
  unfolding sorted_wrt_map by (erule sorted_wrt_mono_rel [rotated]) (unfold rank_key_def, erule lex_fst)

definition finished :: "ToosTypePlayerState \<Rightarrow> bool" where
  "finished p \<longleftrightarrow> pl_finish_status p \<noteq> TOOS_TYPE_FINISH_NONE"

text \<open>(C33) The final ranking is fair: it lists every player of the room exactly once, ordered by merit (finished before
  disconnected, then total score, for the disconnected the time played, then accuracy, phase score and words per
  minute) with the player number breaking ties; and the rank shown is one more than the number of players of strictly
  greater merit, so players of equal merit share a rank and the next one skips as many.\<close>

theorem final_ranking_fair:
  assumes "\<forall>p \<in> set ps. pl_occupied p \<longrightarrow> finished p" "length ps < 2 ^ 32"
  shows "mset (map (\<lambda>e. (merit e, re_player_no e)) (final_ranking ps))
       = mset (map (\<lambda>p. (merit (ranking_entry p), pl_player_no p)) (filter pl_occupied ps))
    \<and> sorted (map (\<lambda>e. (merit e, re_player_no e)) (final_ranking ps))
    \<and> (\<forall>e \<in> set (final_ranking ps).
         unat (re_rank e) = 1 + length (filter (\<lambda>p. merit (ranking_entry p) < merit e) (filter pl_occupied ps)))"
proof -
  let ?es = "map ranking_entry (filter pl_occupied ps)"
  let ?s = "exchange_sort rank_swap ?es"
  have r: "\<forall>e \<in> set ?es. ranked e"
    using assms(1) by (auto simp: ranked_def ranking_entry_def finished_def) (metis ToosTypeFinishStatus.exhaust)
  have m: "mset ?s = mset ?es" by (rule exchange_sort_mset)
  have k: "sorted (map rank_key ?s)" by (rule exchange_sort_sorted) (use r rank_swap_key in blast)
  have rs: "\<forall>e \<in> set ?s. ranked e" using r m by (metis set_mset_mset)
  have len: "length ?s < 2 ^ 32" using m assms(2) by (metis le_less_trans length_filter_le length_map size_mset)
  note a = assign_ranks_exact [OF rank_key_merit [OF k] rs len]
  have keys: "map (\<lambda>e. (merit e, re_player_no e)) (assign_ranks ?s) = map rank_key ?s"
    using a by (simp add: rank_key_def zip_map_fst_snd [symmetric] list_eq_iff_nth_eq)
  have b: "better_than ?s e = length (filter (\<lambda>p. merit (ranking_entry p) < merit e) (filter pl_occupied ps))" for e
  proof -
    have "better_than ?s e = size (filter_mset (\<lambda>x. merit x < merit e) (mset ?s))" unfolding better_than_def by (metis mset_filter size_mset)
    also have "\<dots> = length (filter (\<lambda>x. merit x < merit e) ?es)" unfolding m by (metis mset_filter size_mset)
    finally show ?thesis by (simp add: filter_map comp_def)
  qed
  have "mset (map rank_key ?s) = mset (map rank_key ?es)" using m by (metis mset_map)
  moreover have "map rank_key ?es = map (\<lambda>p. (merit (ranking_entry p), pl_player_no p)) (filter pl_occupied ps)"
    by (simp add: rank_key_def ranking_entry_def comp_def)
  ultimately have ms: "mset (map rank_key ?s) = mset (map (\<lambda>p. (merit (ranking_entry p), pl_player_no p)) (filter pl_occupied ps))" by metis
  from a have "\<forall>e \<in> set (assign_ranks ?s). unat (re_rank e) = 1 + length (filter (\<lambda>p. merit (ranking_entry p) < merit e) (filter pl_occupied ps))"
    unfolding b by blast
  with ms k show ?thesis unfolding final_ranking_def keys by blast
qed

definition demo_finisher :: "u32 \<Rightarrow> u32 \<Rightarrow> ToosTypePlayerState" where
  "demo_finisher no score = zero_player\<lparr>pl_occupied := True, pl_player_no := no, pl_total_score := score, pl_finish_status := TOOS_TYPE_FINISH_FINISHED\<rparr>"

theorem final_ranking_fair_witness:
  "sorted (map (\<lambda>e. (merit e, re_player_no e)) (final_ranking [demo_finisher 1 10, demo_finisher 2 30, demo_finisher 3 30]))
   \<and> list_all (\<lambda>e. unat (re_rank e) = 1 + length (filter (\<lambda>p. merit (ranking_entry p) < merit e) [demo_finisher 1 10, demo_finisher 2 30, demo_finisher 3 30]))
       (final_ranking [demo_finisher 1 10, demo_finisher 2 30, demo_finisher 3 30])"
proof -
  let ?ps = "[demo_finisher 1 10, demo_finisher 2 30, demo_finisher 3 30]"
  have "\<forall>p \<in> set ?ps. pl_occupied p \<longrightarrow> finished p" "length ?ps < 2 ^ 32" by (simp_all add: demo_finisher_def finished_def)
  note fair = final_ranking_fair [OF this]
  have occ: "filter pl_occupied ?ps = ?ps" by (simp add: demo_finisher_def)
  show ?thesis by (rule conjI [OF conjunct1 [OF conjunct2 [OF fair]] conjunct2 [OF conjunct2 [OF fair], unfolded occ list_all_iff [symmetric]]])
qed

end
