(* ===== verification/Vector_Obj.thy ===== *)
theory Vector_Obj
  imports Arc_Ownership
begin

text \<open>
  \<^verbatim>\<open>src/src/vector.c\<close>: the second growable array of owned pointers, with C++-style iterators. Methods run
  under the vector's mutex. \<open>vec_items\<close> are the cells that were really allocated: the constructor does
  not check its \<^verbatim>\<open>malloc\<close> and \<^verbatim>\<open>push_back\<close> does not check \<^verbatim>\<open>resize\<close>, so their number can fall
  short of \<open>vec_capacity\<close>; a write outside of them sets the fault flag of the store.
\<close>

section \<open>State and operations\<close>

record Vector =
  vec_items :: "ptr list"
  vec_size :: int
  vec_capacity :: int

definition new_Vector :: "unit alloc \<Rightarrow> ptr alloc \<Rightarrow> int \<Rightarrow> Vector option" where
  "new_Vector mem_obj mem_items initial_capacity =
     (case mem_obj of Alloc_Fail \<Rightarrow> None
      | Alloc_Ok _ \<Rightarrow>
          (let cap = (if initial_capacity > 0 then initial_capacity else 4)
           in Some \<lparr>vec_items = (case mem_items of Alloc_Fail \<Rightarrow> [] | Alloc_Ok junk \<Rightarrow> replicate (nat cap) junk),
                    vec_size = 0, vec_capacity = cap\<rparr>))"

text \<open>A negative capacity becomes an enormous \<^verbatim>\<open>size_t\<close>, which \<^verbatim>\<open>realloc\<close> refuses.\<close>

definition resize :: "ptr alloc \<Rightarrow> Vector \<Rightarrow> int \<Rightarrow> Vector" where
  "resize mem self new_capacity =
     (case mem of Alloc_Fail \<Rightarrow> self
      | Alloc_Ok junk \<Rightarrow>
          (if new_capacity < 0 then self
           else self\<lparr>vec_items := realloc_cells junk (vec_items self) (nat new_capacity),
                     vec_capacity := new_capacity\<rparr>))"

definition Vector_push_back :: "ptr alloc \<Rightarrow> 'p heap \<Rightarrow> Vector \<Rightarrow> ptr \<Rightarrow> 'p heap \<times> Vector" where
  "Vector_push_back mem h self item =
     (let v = (if vec_size self = vec_capacity self
               then resize mem self (if vec_capacity self = 0 then 4 else wrap32 (vec_capacity self * 2))
               else self);
          i = nat (vec_size v);
          h1 = RETAIN h item
      in (if i < length (vec_items v) then h1 else raw_fault h1,
          v\<lparr>vec_items := (vec_items v)[i := item], vec_size := wrap32 (vec_size v + 1)\<rparr>))"

definition Vector_at :: "Vector \<Rightarrow> int \<Rightarrow> ptr" where
  "Vector_at self index = (if index \<ge> 0 \<and> index < vec_size self then vec_items self ! nat index else None)"

definition Vector_pop_back :: "Vector \<Rightarrow> ptr \<times> Vector" where
  "Vector_pop_back self =
     (if vec_size self > 0
      then let n = vec_size self - 1
           in (vec_items self ! nat n, self\<lparr>vec_items := (vec_items self)[nat n := None], vec_size := n\<rparr>)
      else (None, self))"

definition Vector_get_size :: "Vector \<Rightarrow> int" where
  "Vector_get_size self = vec_size self"

text \<open>Iterators are positions in the cell array.\<close>

type_synonym VectorIterator = nat

definition Vector_begin :: "Vector \<Rightarrow> VectorIterator" where
  "Vector_begin self = 0"

definition Vector_end :: "Vector \<Rightarrow> VectorIterator" where
  "Vector_end self = nat (vec_size self)"

definition it_next :: "VectorIterator \<Rightarrow> VectorIterator" where
  "it_next it = it + 1"

definition it_get :: "Vector \<Rightarrow> VectorIterator \<Rightarrow> ptr" where
  "it_get self it = vec_items self ! it"

definition it_neq :: "VectorIterator \<Rightarrow> VectorIterator \<Rightarrow> bool" where
  "it_neq a b \<longleftrightarrow> a \<noteq> b"

text \<open>The \<^verbatim>\<open>VECTOR_FOREACH\<close> macro: the objects its body sees. NULL cells are skipped; the loop ends when
  the iterator meets the end.\<close>

partial_function (option) vector_foreach :: "Vector \<Rightarrow> VectorIterator \<Rightarrow> ptr list option" where
  "vector_foreach self it =
     (if it_neq it (Vector_end self)
      then Option.bind (vector_foreach self (it_next it))
             (\<lambda>xs. Some ((if it_get self it \<noteq> None then [it_get self it] else []) @ xs))
      else Some [])"

definition VECTOR_FOREACH :: "Vector \<Rightarrow> ptr list option" where
  "VECTOR_FOREACH self = vector_foreach self (Vector_begin self)"

text \<open>The loop of the finalizer, from position \<open>i\<close>.\<close>

function vec_release_from :: "'p classes \<Rightarrow> 'p heap \<Rightarrow> ptr list \<Rightarrow> nat \<Rightarrow> nat \<Rightarrow> 'p heap" where
  "vec_release_from cl h items i n =
     (if i < n
      then vec_release_from cl (if items ! i \<noteq> None then RELEASE cl h (items ! i) else h) items (Suc i) n
      else h)"
  by pat_completeness auto
termination
  by (relation "measure (\<lambda>(cl, h, items, i, n). n - i)") auto

declare vec_release_from.simps [simp del]

definition Vector_Finalize :: "'p classes \<Rightarrow> 'p heap \<Rightarrow> Vector \<Rightarrow> 'p heap" where
  "Vector_Finalize cl h self = vec_release_from cl h (vec_items self) 0 (nat (vec_size self))"

section \<open>Invariant and abstraction\<close>

definition vec_inv :: "Vector \<Rightarrow> bool" where
  "vec_inv v \<longleftrightarrow> 0 \<le> vec_size v \<and> vec_size v \<le> vec_capacity v \<and> 0 < vec_capacity v
     \<and> vec_capacity v \<le> INT_MAX \<and> length (vec_items v) = nat (vec_capacity v)"

definition vec_list :: "Vector \<Rightarrow> ptr list" where
  "vec_list v = take (nat (vec_size v)) (vec_items v)"

lemma vec_list_length: "vec_inv v \<Longrightarrow> length (vec_list v) = nat (vec_size v)"
  by (auto simp: vec_inv_def vec_list_def)

lemma new_Vector_inv: "new_Vector m (Alloc_Ok j) n = Some v \<Longrightarrow> n \<le> INT_MAX \<Longrightarrow> vec_inv v \<and> vec_list v = []"
  by (auto simp: new_Vector_def vec_inv_def vec_list_def Let_def split: alloc.splits)

lemma resize_inv:
  assumes "vec_inv v" and "vec_capacity v * 2 \<le> INT_MAX"
  shows "vec_inv (resize (Alloc_Ok j) v (vec_capacity v * 2))"
    "vec_list (resize (Alloc_Ok j) v (vec_capacity v * 2)) = vec_list v"
    "vec_size (resize (Alloc_Ok j) v (vec_capacity v * 2)) = vec_size v"
    "vec_size v < vec_capacity (resize (Alloc_Ok j) v (vec_capacity v * 2))"
  using assms by (auto simp: resize_def vec_inv_def vec_list_def)

lemma push_back_room:
  assumes "vec_inv v" and "vec_size v < vec_capacity v"
  shows "fst (Vector_push_back mem h v x) = RETAIN h x"
    "vec_list (snd (Vector_push_back mem h v x)) = vec_list v @ [x]"
    "vec_inv (snd (Vector_push_back mem h v x))"
proof -
  let ?i = "nat (vec_size v)"
  have i: "?i < length (vec_items v)" "wrap32 (vec_size v + 1) = vec_size v + 1" "nat (vec_size v + 1) = Suc ?i"
    using assms by (auto simp: vec_inv_def)
  with assms show "fst (Vector_push_back mem h v x) = RETAIN h x"
    "vec_list (snd (Vector_push_back mem h v x)) = vec_list v @ [x]"
    "vec_inv (snd (Vector_push_back mem h v x))"
    by (auto simp: Vector_push_back_def vec_list_def vec_inv_def Let_def take_Suc_conv_app_nth)
qed

lemma push_back_grow:
  assumes "vec_inv v" and "vec_capacity v * 2 \<le> INT_MAX"
  shows "fst (Vector_push_back (Alloc_Ok j) h v x) = RETAIN h x"
    "vec_list (snd (Vector_push_back (Alloc_Ok j) h v x)) = vec_list v @ [x]"
    "vec_inv (snd (Vector_push_back (Alloc_Ok j) h v x))"
proof -
  have g: "Vector_push_back (Alloc_Ok j) h v x = Vector_push_back (Alloc_Ok j) h (resize (Alloc_Ok j) v (vec_capacity v * 2)) x"
    if "vec_size v = vec_capacity v"
    using that resize_inv [OF assms, of j] assms by (auto simp: Vector_push_back_def Let_def vec_inv_def)
  show "fst (Vector_push_back (Alloc_Ok j) h v x) = RETAIN h x"
    "vec_list (snd (Vector_push_back (Alloc_Ok j) h v x)) = vec_list v @ [x]"
    "vec_inv (snd (Vector_push_back (Alloc_Ok j) h v x))"
    using g push_back_room [of "resize (Alloc_Ok j) v (vec_capacity v * 2)" "Alloc_Ok j" h x]
      push_back_room [OF assms(1), of "Alloc_Ok j" h x] resize_inv [OF assms, of j] assms(1)
    by (cases "vec_size v = vec_capacity v"; simp add: vec_inv_def)+
qed

lemma pop_back_list:
  assumes "vec_inv v"
  shows "Vector_pop_back v = (if vec_list v = [] then None else last (vec_list v), snd (Vector_pop_back v))
    \<and> vec_list (snd (Vector_pop_back v)) = butlast (vec_list v) \<and> vec_inv (snd (Vector_pop_back v))"
proof (cases "vec_size v > 0")
  case False
  with assms show ?thesis by (simp add: Vector_pop_back_def vec_list_def)
next
  case True
  let ?n = "nat (vec_size v - 1)"
  have n: "nat (vec_size v) = Suc ?n" "?n < length (vec_items v)" using assms True by (auto simp: vec_inv_def)
  then have "vec_list v = take ?n (vec_items v) @ [vec_items v ! ?n]" by (simp add: vec_list_def take_Suc_conv_app_nth)
  with assms True n show ?thesis by (auto simp: Vector_pop_back_def vec_list_def vec_inv_def Let_def)
qed

lemma vec_release_from_eq:
  "n \<le> length items \<Longrightarrow> vec_release_from cl h items i n = release_all cl h (drop i (take n items))"
proof (induction cl h items i n rule: vec_release_from.induct)
  case (1 cl h items i n)
  show ?case
  proof (cases "i < n")
    case True
    then have "drop i (take n items) = items ! i # drop (Suc i) (take n items)"
      using "1.prems" by (simp add: Cons_nth_drop_Suc [symmetric])
    with 1 True show ?thesis by (auto simp: vec_release_from.simps [of cl h items i n])
  next
    case False
    then show ?thesis by (simp add: vec_release_from.simps [of cl h items i n])
  qed
qed

lemma vector_foreach_from:
  assumes "vec_inv v" and "it \<le> nat (vec_size v)"
  shows "vector_foreach v it = Some (filter (\<lambda>x. x \<noteq> None) (drop it (vec_list v)))"
  using assms(2)
proof (induction "nat (vec_size v) - it" arbitrary: it)
  case 0
  then show ?case by (subst vector_foreach.simps) (simp add: it_neq_def Vector_end_def vec_list_length [OF assms(1)])
next
  case (Suc k)
  have lt: "it < nat (vec_size v)" using Suc.hyps(2) by simp
  then have "drop it (vec_list v) = it_get v it # drop (Suc it) (vec_list v)"
    using vec_list_length [OF assms(1)] by (simp add: Cons_nth_drop_Suc [symmetric] it_get_def vec_list_def)
  moreover have "vector_foreach v (Suc it) = Some (filter (\<lambda>x. x \<noteq> None) (drop (Suc it) (vec_list v)))"
    using Suc lt by simp
  ultimately show ?case using lt by (subst vector_foreach.simps) (simp add: it_neq_def Vector_end_def it_next_def)
qed

section \<open>Runs of vector operations\<close>

datatype vec_cmd = Vec_push ptr | Vec_pop | Vec_at int

fun vec_exec :: "ptr \<Rightarrow> 'p heap \<times> Vector \<Rightarrow> vec_cmd \<Rightarrow> ptr \<times> 'p heap \<times> Vector" where
  "vec_exec j (h, v) (Vec_push x) = (None, Vector_push_back (Alloc_Ok j) h v x)"
| "vec_exec j (h, v) Vec_pop = (fst (Vector_pop_back v), h, snd (Vector_pop_back v))"
| "vec_exec j (h, v) (Vec_at i) = (Vector_at v i, h, v)"

fun vec_spec :: "'p heap \<times> ptr list \<Rightarrow> vec_cmd \<Rightarrow> ptr \<times> 'p heap \<times> ptr list" where
  "vec_spec (h, xs) (Vec_push x) = (None, RETAIN h x, xs @ [x])"
| "vec_spec (h, xs) Vec_pop = (if xs = [] then None else last xs, h, butlast xs)"
| "vec_spec (h, xs) (Vec_at i) = (if 0 \<le> i \<and> i < int (length xs) then xs ! nat i else None, h, xs)"

fun vec_run :: "('s \<Rightarrow> vec_cmd \<Rightarrow> ptr \<times> 's) \<Rightarrow> 's \<Rightarrow> vec_cmd list \<Rightarrow> ptr list \<times> 's" where
  "vec_run f s [] = ([], s)"
| "vec_run f s (c # cs) = (let (x, s1) = f s c; (xs, s2) = vec_run f s1 cs in (x # xs, s2))"

lemma vec_exec_capacity:
  "vec_inv v \<Longrightarrow> vec_capacity v * 2 \<le> INT_MAX \<Longrightarrow> vec_capacity (snd (snd (vec_exec j (h, v) c))) \<le> max (vec_capacity v) (2 * vec_size v)"
  by (cases c) (simp_all add: Vector_push_back_def Vector_pop_back_def Let_def resize_def vec_inv_def)

lemma vec_spec_length: "vec_spec (h, xs) c = (x, h', ys) \<Longrightarrow> length ys \<le> Suc (length xs)"
  by (cases c) auto

lemma vec_exec_refines:
  assumes "vec_inv v" and "vec_capacity v * 2 \<le> INT_MAX" and "vec_exec j (h, v) c = (x, h', v')"
  shows "vec_spec (h, vec_list v) c = (x, h', vec_list v') \<and> vec_inv v'
    \<and> vec_capacity v' \<le> max (vec_capacity v) (2 * int (length (vec_list v)))"
proof -
  have len: "int (length (vec_list v)) = vec_size v" using vec_list_length [OF assms(1)] assms(1) by (simp add: vec_inv_def)
  have "vec_spec (h, vec_list v) c = (x, h', vec_list v') \<and> vec_inv v'"
  proof (cases c)
    case (Vec_push y)
    with assms(3) push_back_grow [OF assms(1,2), of j h y] show ?thesis by auto
  next
    case Vec_pop
    with assms(3) pop_back_list [OF assms(1)] show ?thesis by (metis fst_conv snd_conv vec_exec.simps(2) vec_spec.simps(2))
  next
    case (Vec_at i)
    with assms(1,3) len show ?thesis by (auto simp: Vector_at_def vec_list_def vec_inv_def)
  qed
  moreover have "vec_capacity v' \<le> max (vec_capacity v) (2 * vec_size v)"
    using vec_exec_capacity [OF assms(1,2), of j h c] assms(3) by simp
  ultimately show ?thesis by (simp only: len)
qed

lemma vec_run_refines:
  assumes "vec_inv v" and "vec_capacity v * 2 \<le> INT_MAX"
    and "int (length (vec_list v) + length cs) * 4 \<le> INT_MAX"
    and "vec_run (vec_exec j) (h, v) cs = (outs, h', v')"
  shows "vec_run vec_spec (h, vec_list v) cs = (outs, h', vec_list v') \<and> vec_inv v'"
  using assms
proof (induction cs arbitrary: h v outs)
  case (Cons c cs)
  obtain x h1 v1 where e: "vec_exec j (h, v) c = (x, h1, v1)" by (metis prod_cases3)
  note r = vec_exec_refines [OF Cons.prems(1,2) e]
  obtain outs1 where o: "vec_run (vec_exec j) (h1, v1) cs = (outs1, h', v')" "outs = x # outs1"
    using Cons.prems(4) e by (auto split: prod.splits)
  have len: "length (vec_list v1) \<le> Suc (length (vec_list v))"
    using r vec_spec_length by blast
  then have "vec_capacity v1 * 2 \<le> INT_MAX" "int (length (vec_list v1) + length cs) * 4 \<le> INT_MAX"
    using r Cons.prems(2,3) by auto
  with Cons.IH [of v1 h1 outs1] r o show ?case by simp
qed simp

section \<open>Properties\<close>

text \<open>The vector refines the mathematical list: whatever sequence of \<^verbatim>\<open>push_back\<close>, \<^verbatim>\<open>pop_back\<close> and
  \<^verbatim>\<open>at\<close> calls is made on a well-formed vector, with reallocations succeeding and sizes small enough for
  the doubling not to overflow \<^verbatim>\<open>int\<close>, the answers, the contents and the reference counts are those of
  the same commands on a list; and \<^verbatim>\<open>VECTOR_FOREACH\<close> over the result ends after visiting exactly its
  non-NULL elements in order.\<close>

theorem Vector_refines_list:
  assumes "vec_inv v" and "vec_capacity v * 2 \<le> INT_MAX"
    and "int (length (vec_list v) + length cs) * 4 \<le> INT_MAX"
  shows "case vec_run (vec_exec j) (h, v) cs of (outs, h', v') \<Rightarrow>
    vec_run vec_spec (h, vec_list v) cs = (outs, h', vec_list v') \<and> vec_inv v'
    \<and> VECTOR_FOREACH v' = Some (filter (\<lambda>x. x \<noteq> None) (vec_list v'))"
proof -
  obtain outs h' v' where e: "vec_run (vec_exec j) (h, v) cs = (outs, h', v')" by (metis prod_cases3)
  note r = vec_run_refines [OF assms e]
  then have "VECTOR_FOREACH v' = Some (filter (\<lambda>x. x \<noteq> None) (vec_list v'))"
    using vector_foreach_from [of v' 0] by (simp add: VECTOR_FOREACH_def Vector_begin_def)
  with r e show ?thesis by simp
qed

theorem Vector_refines_list_witness:
  "fst (vec_run (vec_exec None) (demo_heap, \<lparr>vec_items = [None], vec_size = 0, vec_capacity = 1\<rparr>)
     [Vec_push (Some 1), Vec_push (Some 2), Vec_at 0, Vec_pop, Vec_at 1]) = [None, None, Some 1, Some 2, None]"
proof -
  let ?v = "\<lparr>vec_items = [None], vec_size = 0, vec_capacity = 1\<rparr>"
  let ?cs = "[Vec_push (Some 1), Vec_push (Some 2), Vec_at 0, Vec_pop, Vec_at 1]"
  obtain outs h' v' where e: "vec_run (vec_exec None) (demo_heap, ?v) ?cs = (outs, h', v')" by (metis prod_cases3)
  have "vec_inv ?v" "vec_list ?v = []" by (simp_all add: vec_inv_def vec_list_def)
  then have "vec_run vec_spec (demo_heap, []) ?cs = (outs, h', vec_list v')"
    using Vector_refines_list [where v = ?v and cs = ?cs and j = None and h = demo_heap] e by (simp del: vec_run.simps)
  then show ?thesis unfolding e by simp
qed

text \<open>\<^verbatim>\<open>push_back\<close> does not notice that growing failed: on a full vector, when \<^verbatim>\<open>realloc\<close> refuses, it
  retains the item, stores it one cell past the end of the allocated array (the fault flag) and
  counts it.\<close>

theorem Vector_push_back_unchecked_resize:
  assumes "vec_inv v" and "vec_size v = vec_capacity v"
  shows "fault (fst (Vector_push_back Alloc_Fail h v x))
    \<and> vec_capacity (snd (Vector_push_back Alloc_Fail h v x)) = vec_capacity v
    \<and> \<not> vec_inv (snd (Vector_push_back Alloc_Fail h v x))"
proof (cases "vec_size v = INT_MAX")
  case True
  with assms show ?thesis by (simp add: Vector_push_back_def resize_def vec_inv_def raw_fault_def wrap32_def)
next
  case False
  with assms have "wrap32 (vec_size v + 1) = vec_size v + 1" by (simp add: vec_inv_def)
  with assms show ?thesis by (simp add: Vector_push_back_def resize_def vec_inv_def raw_fault_def)
qed

theorem Vector_push_back_unchecked_resize_witness:
  "fault (fst (Vector_push_back Alloc_Fail demo_heap \<lparr>vec_items = [Some 1], vec_size = 1, vec_capacity = 1\<rparr> (Some 2)))"
  using Vector_push_back_unchecked_resize [of "\<lparr>vec_items = [Some 1], vec_size = 1, vec_capacity = 1\<rparr>" demo_heap "Some 2"]
  by (simp add: vec_inv_def)

text \<open>Finalizing a vector gives back exactly one reference per element and touches no freed memory.\<close>

theorem Vector_Finalize_releases:
  assumes "vec_inv v" and "owned h (vec_list v)"
  shows "arc_balance h (vec_list v) (Vector_Finalize leaf_classes h v) []"
proof -
  have "nat (vec_size v) \<le> length (vec_items v)" using assms(1) by (auto simp: vec_inv_def)
  then have "Vector_Finalize leaf_classes h v = release_all leaf_classes h (vec_list v)"
    by (simp add: Vector_Finalize_def vec_release_from_eq vec_list_def)
  then show ?thesis using leaf.arc_balance_release_all [OF assms(2)] by simp
qed

theorem Vector_Finalize_releases_witness:
  "arc_balance demo_heap [Some 1] (Vector_Finalize leaf_classes demo_heap \<lparr>vec_items = [Some 1], vec_size = 1, vec_capacity = 1\<rparr>) []"
proof -
  let ?v = "\<lparr>vec_items = [Some 1], vec_size = 1, vec_capacity = 1\<rparr>"
  have v: "vec_inv ?v" "vec_list ?v = [Some 1]" by (simp_all add: vec_inv_def vec_list_def)
  then have "owned demo_heap (vec_list ?v)" by (auto simp: owned_def)
  from Vector_Finalize_releases [OF v(1) this] v(2) show ?thesis by simp
qed

end
